(* ===== verification/KPrelude.thy ===== *)
theory KPrelude
  imports Main "HOL-Library.Word" "HOL-Library.Monad_Syntax" "HOL-Library.Multiset"
begin

text \<open>
  The shared vocabulary of the development.

  \<^item> machine integers: \<open>size_t\<close>, \<open>uint32_t\<close>, \<open>uintptr_t\<close> and \<open>unsigned int\<close> of
    \<open>libs/types.h\<close> are 32 bits wide on the i386 target;
  \<^item> the outcome of a kernel routine: \<open>None\<close> is a kernel panic (a failed \<open>assert\<close>, an
    explicit \<open>panic\<close>, or a dereference of a null pointer, which faults in kernel mode and
    panics in \<open>trap_dispatch\<close>); \<open>Some\<close> carries the returned value and the new state.  Error
    codes that the C code returns are ordinary values, the negated constants of
    \<open>libs/error.h\<close>;
  \<^item> generic facts on lists, options and words used by several components.
\<close>

unbundle bit_operations_syntax

section \<open>Machine integers\<close>

type_synonym u8 = "8 word"
type_synonym u16 = "16 word"
type_synonym u32 = "32 word"
type_synonym u64 = "64 word"

section \<open>Error codes (libs/error.h)\<close>

abbreviation (input) "E_UNSPECIFIED \<equiv> (1::int)"
abbreviation (input) "E_BAD_PROC \<equiv> (2::int)"
abbreviation (input) "E_INVAL \<equiv> (3::int)"
abbreviation (input) "E_NO_MEM \<equiv> (4::int)"
abbreviation (input) "E_NO_FREE_PROC \<equiv> (5::int)"
abbreviation (input) "E_FAULT \<equiv> (6::int)"
abbreviation (input) "E_SWAP_FAULT \<equiv> (7::int)"
abbreviation (input) "E_INVAL_ELF \<equiv> (8::int)"
abbreviation (input) "E_KILLED \<equiv> (9::int)"
abbreviation (input) "E_PANIC \<equiv> (10::int)"
abbreviation (input) "E_TIMEOUT \<equiv> (11::int)"
abbreviation (input) "E_TOO_BIG \<equiv> (12::int)"

section \<open>Panics\<close>

definition kassert :: "bool \<Rightarrow> unit option" where
  "kassert b = (if b then Some () else None)"

named_theorems kmonad \<open>rewrite rules for the panic monad\<close>

lemma kassert_True [simp]: "kassert True = Some ()"
  by (simp add: kassert_def)

lemma kassert_False [simp]: "kassert False = None"
  by (simp add: kassert_def)

lemma kassert_Some [kmonad]: "kassert b = Some u \<longleftrightarrow> b"
  by (simp add: kassert_def)

lemma kassert_bind_Some [kmonad]: "(kassert b \<bind> f) = Some r \<longleftrightarrow> b \<and> f () = Some r"
  by (simp add: kassert_def)

lemma kassert_bind_None [kmonad]: "(kassert b \<bind> f) = None \<longleftrightarrow> \<not> b \<or> f () = None"
  by (simp add: kassert_def)

lemma kassert_bind_True [simp]: "b \<Longrightarrow> (kassert b \<bind> f) = f ()"
  by (simp add: kassert_def)

lemmas [kmonad] = Option.bind_eq_Some_conv Option.bind_eq_None_conv

section \<open>Lists\<close>

lemma remove1_middle [simp]: "x \<notin> set as \<Longrightarrow> remove1 x (as @ x # bs) = as @ bs"
  by (simp add: remove1_append)

lemma remove1_last [simp]: "x \<notin> set as \<Longrightarrow> remove1 x (as @ [x]) = as"
  by (simp add: remove1_append)

text \<open>\<open>list_next\<close> of a linked element; \<open>None\<close> is the list head.\<close>

fun succ_of :: "'a \<Rightarrow> 'a list \<Rightarrow> 'a option" where
  "succ_of t [] = None"
| "succ_of t (x # xs) = (if x = t then (case xs of [] \<Rightarrow> None | y # _ \<Rightarrow> Some y) else succ_of t xs)"

lemma nat_cases3:
  fixes a b :: nat
  obtains (below) "a < b" | (same) "a = b" | (above) j where "a = b + 1 + j"
  using less_imp_Suc_add[of b a] by fastforce

end
