(* ===== verification/KList.thy ===== *)
theory KList
  imports KPrelude
begin

text \<open>
  \<open>libs/list.h\<close>: the intrusive circular doubly linked list used by every kernel
  subsystem (free areas, run queues, timers, wait queues, mailboxes, virtual memory areas).

  A heap of \<open>struct list_entry\<close> cells is the record \<open>links\<close> of two pointer maps.
  \<open>ring h head xs\<close> says that the cells reachable from the list head are exactly \<open>xs\<close>, in
  order, and that the \<open>prev\<close> pointers are the inverse of the \<open>next\<close> pointers.  The lemmas
  show that each inline function of the header refines the operation on HOL lists
  (\<open>list_add_before head\<close> appends, \<open>list_add_after head\<close> pushes, \<open>list_del\<close> is \<open>remove1\<close>)
  and leaves every other ring alone; the other theories of the development therefore keep
  the contents of a kernel list as a HOL list.
\<close>

section \<open>The cells and the inline functions\<close>

record 'a links =
  prev :: "'a \<Rightarrow> 'a"
  "next" :: "'a \<Rightarrow> 'a"

definition list_init :: "'a \<Rightarrow> 'a links \<Rightarrow> 'a links" where
  "list_init elm h = h\<lparr>prev := (prev h)(elm := elm), next := (next h)(elm := elm)\<rparr>"

definition list_add_between :: "'a \<Rightarrow> 'a \<Rightarrow> 'a \<Rightarrow> 'a links \<Rightarrow> 'a links" where
  \<comment> \<open>\<open>__list_add\<close>: \<open>prev->next = next->prev = elm; elm->next = next; elm->prev = prev\<close>\<close>
  "list_add_between elm p n h =
    (let h1 = h\<lparr>prev := (prev h)(n := elm)\<rparr>;
         h2 = h1\<lparr>next := (next h1)(p := elm)\<rparr>;
         h3 = h2\<lparr>next := (next h2)(elm := n)\<rparr>
     in h3\<lparr>prev := (prev h3)(elm := p)\<rparr>)"

definition list_add_before :: "'a \<Rightarrow> 'a \<Rightarrow> 'a links \<Rightarrow> 'a links" where
  "list_add_before listelm elm h = list_add_between elm (prev h listelm) listelm h"

definition list_add_after :: "'a \<Rightarrow> 'a \<Rightarrow> 'a links \<Rightarrow> 'a links" where
  "list_add_after listelm elm h = list_add_between elm listelm (next h listelm) h"

definition list_add :: "'a \<Rightarrow> 'a \<Rightarrow> 'a links \<Rightarrow> 'a links" where
  "list_add listelm elm h = list_add_after listelm elm h"

definition list_del_between :: "'a \<Rightarrow> 'a \<Rightarrow> 'a links \<Rightarrow> 'a links" where
  \<comment> \<open>\<open>__list_del\<close>: \<open>prev->next = next; next->prev = prev\<close>\<close>
  "list_del_between p n h =
    (let h1 = h\<lparr>next := (next h)(p := n)\<rparr> in h1\<lparr>prev := (prev h1)(n := p)\<rparr>)"

definition list_del :: "'a \<Rightarrow> 'a links \<Rightarrow> 'a links" where
  "list_del listelm h = list_del_between (prev h listelm) (next h listelm) h"

definition list_del_init :: "'a \<Rightarrow> 'a links \<Rightarrow> 'a links" where
  "list_del_init listelm h = list_init listelm (list_del listelm h)"

definition list_empty :: "'a links \<Rightarrow> 'a \<Rightarrow> bool" where
  "list_empty h l \<longleftrightarrow> next h l = l"

definition list_next :: "'a links \<Rightarrow> 'a \<Rightarrow> 'a" where
  "list_next h listelm = next h listelm"

definition list_prev :: "'a links \<Rightarrow> 'a \<Rightarrow> 'a" where
  "list_prev h listelm = prev h listelm"

lemmas list_ops_def = list_init_def list_add_between_def list_add_before_def list_add_after_def
  list_add_def list_del_between_def list_del_def list_del_init_def list_empty_def
  list_next_def list_prev_def Let_def

section \<open>Rings\<close>

fun chain :: "'a links \<Rightarrow> 'a list \<Rightarrow> bool" where
  "chain h (a # b # ys) \<longleftrightarrow> next h a = b \<and> prev h b = a \<and> chain h (b # ys)"
| "chain h _ \<longleftrightarrow> True"

definition ring :: "'a links \<Rightarrow> 'a \<Rightarrow> 'a list \<Rightarrow> bool" where
  "ring h l xs \<longleftrightarrow> distinct (l # xs) \<and> chain h (l # xs @ [l])"

lemma chain_append:
  "chain h (xs @ a # ys) \<longleftrightarrow> chain h (xs @ [a]) \<and> chain h (a # ys)"
proof (induction xs)
  case Nil
  then show ?case by simp
next
  case (Cons x xs)
  then show ?case by (cases xs) auto
qed

lemma chain_cong:
  assumes "\<And>x. x \<in> set (butlast xs) \<Longrightarrow> next h' x = next h x"
    and "\<And>x. x \<in> set (tl xs) \<Longrightarrow> prev h' x = prev h x"
  shows "chain h' xs \<longleftrightarrow> chain h xs"
  using assms
proof (induction xs rule: chain.induct)
  case (1 h a b ys)
  have "chain h' (b # ys) \<longleftrightarrow> chain h (b # ys)"
    by (rule "1.IH") (use "1.prems" in \<open>auto split: if_splits dest: in_set_takeD\<close>)
  with "1.prems" show ?case by (auto split: if_splits)
qed auto

lemma ring_distinct: "ring h l xs \<Longrightarrow> distinct xs \<and> l \<notin> set xs"
  by (simp add: ring_def)

text \<open>The neighbours of an element of a ring, whatever side the head is on.\<close>

lemma ring_rotate:
  "ring h l (as @ x # bs) \<longleftrightarrow> ring h x (bs @ l # as)"
proof -
  have "chain h (l # (as @ x # bs) @ [l])
      \<longleftrightarrow> chain h ((l # as) @ [x]) \<and> chain h ((x # bs) @ [l])"
    using chain_append[of h "l # as" x "bs @ [l]"] by simp
  moreover have "chain h (x # (bs @ l # as) @ [x])
      \<longleftrightarrow> chain h ((x # bs) @ [l]) \<and> chain h ((l # as) @ [x])"
    using chain_append[of h "x # bs" l "as @ [x]"] by simp
  ultimately show ?thesis
    unfolding ring_def by auto
qed

lemma ring_next_head: "ring h l xs \<Longrightarrow> next h l = (case xs of [] \<Rightarrow> l | x # _ \<Rightarrow> x)"
  by (cases xs) (auto simp: ring_def)

lemma ring_prev_head: "ring h l xs \<Longrightarrow> prev h l = (if xs = [] then l else last xs)"
proof (cases xs rule: rev_cases)
  case Nil
  then show "ring h l xs \<Longrightarrow> ?thesis" by (simp add: ring_def)
next
  case (snoc ys y)
  assume r: "ring h l xs"
  have "chain h ((l # ys) @ y # [l])"
    using r snoc by (simp add: ring_def)
  then have "chain h (y # [l])"
    using chain_append[of h "l # ys" y "[l]"] by blast
  with snoc show ?thesis by simp
qed

section \<open>Each inline function refines a list operation\<close>

lemma ring_list_init: "ring (list_init l h) l []"
  by (simp add: ring_def list_init_def)

lemma ring_frame:
  assumes "ring h m ys"
    and "\<And>c. c \<in> set (m # ys) \<Longrightarrow> next h' c = next h c \<and> prev h' c = prev h c"
  shows "ring h' m ys"
proof -
  have "chain h' (m # ys @ [m]) \<longleftrightarrow> chain h (m # ys @ [m])"
    by (rule chain_cong) (use assms(2) in \<open>auto dest: in_set_butlastD\<close>)
  with assms(1) show ?thesis by (simp add: ring_def)
qed

lemma ring_add_after_head:
  assumes r: "ring h l xs" and e: "e \<notin> set (l # xs)"
  shows "ring (list_add_after l e h) l (e # xs)"
proof (cases xs)
  case Nil
  with e r show ?thesis by (auto simp: ring_def list_ops_def)
next
  case (Cons x ys)
  let ?h = "list_add_after l e h"
  from r Cons have d: "distinct (l # x # ys)" and c: "chain h (x # ys @ [l])" and n: "next h l = x"
    by (auto simp: ring_def)
  have "chain ?h (x # ys @ [l]) \<longleftrightarrow> chain h (x # ys @ [l])"
    by (rule chain_cong) (use d e n Cons in \<open>auto simp: list_ops_def butlast_append split: if_splits\<close>)
  with c d e n Cons show ?thesis by (auto simp: ring_def list_ops_def)
qed

lemma ring_add_after:
  assumes "ring h l (as @ x # bs)" and "e \<notin> set (l # as @ x # bs)"
  shows "ring (list_add_after x e h) l (as @ x # e # bs)"
  using ring_add_after_head[of h x "bs @ l # as" e] assms
    ring_rotate[of h l as x bs] ring_rotate[of "list_add_after x e h" l as x "e # bs"]
  by simp

lemma list_add_before_eq: "next h (prev h l) = l \<Longrightarrow> list_add_before l e h = list_add_after (prev h l) e h"
  by (simp add: list_add_before_def list_add_after_def)

lemma ring_add_before_head:
  assumes r: "ring h l xs" and e: "e \<notin> set (l # xs)"
  shows "ring (list_add_before l e h) l (xs @ [e])"
proof (cases xs rule: rev_cases)
  case Nil
  with e r show ?thesis by (auto simp: ring_def list_ops_def)
next
  case (snoc ys y)
  with r have y: "prev h l = y" using ring_prev_head[OF r] by simp
  have "next h y = l" using r snoc ring_rotate[of h l ys y "[]"] ring_next_head[of h y "l # ys"] by simp
  with y have "list_add_before l e h = list_add_after y e h" using list_add_before_eq[of h l e] by simp
  with r e snoc show ?thesis using ring_add_after[of h l ys y "[]" e] by simp
qed

lemma ring_add_before:
  assumes "ring h l (as @ x # bs)" and "e \<notin> set (l # as @ x # bs)"
  shows "ring (list_add_before x e h) l (as @ e # x # bs)"
  using ring_add_before_head[of h x "bs @ l # as" e] assms
    ring_rotate[of h l as x bs] ring_rotate[of "list_add_before x e h" l "as @ [e]" x bs]
  by simp

lemma ring_del_first:
  assumes r: "ring h l (x # bs)"
  shows "ring (list_del x h) l bs"
proof (cases bs)
  case Nil
  with r show ?thesis by (auto simp: ring_def list_ops_def)
next
  case (Cons b cs)
  let ?h = "list_del x h"
  from r Cons have d: "distinct (l # x # b # cs)" and c: "chain h (b # cs @ [l])"
    and n: "next h x = b" "prev h x = l"
    by (auto simp: ring_def)
  have "chain ?h (b # cs @ [l]) \<longleftrightarrow> chain h (b # cs @ [l])"
    by (rule chain_cong) (use d n Cons in \<open>auto simp: list_ops_def butlast_append split: if_splits\<close>)
  with c d n Cons show ?thesis by (auto simp: ring_def list_ops_def)
qed

lemma ring_del:
  assumes r: "ring h l (as @ x # bs)"
  shows "ring (list_del x h) l (as @ bs)"
proof (cases as rule: rev_cases)
  case Nil
  with r show ?thesis using ring_del_first by simp
next
  case (snoc cs c)
  with r have "ring h c (x # bs @ l # cs)" using ring_rotate[of h l cs c "x # bs"] by simp
  then have "ring (list_del x h) c (bs @ l # cs)" using ring_del_first[of h c x "bs @ l # cs"] by simp
  with snoc show ?thesis using ring_rotate[of "list_del x h" l cs c bs] by simp
qed

lemma ring_del_remove1:
  assumes r: "ring h l xs" and x: "x \<in> set xs"
  shows "ring (list_del x h) l (remove1 x xs)"
proof -
  from x obtain as bs where xs: "xs = as @ x # bs" and "x \<notin> set as" by (auto dest: split_list_first)
  with r show ?thesis using ring_del[of h l as x bs] by simp
qed

lemma ring_del_init:
  assumes r: "ring h l xs" and x: "x \<in> set xs"
  shows "ring (list_del_init x h) l (remove1 x xs)" and "ring (list_del_init x h) x []"
proof -
  have "x \<notin> set (l # remove1 x xs)" using ring_distinct[OF r] x by auto
  then show "ring (list_del_init x h) l (remove1 x xs)"
    by (intro ring_frame[OF ring_del_remove1[OF r x]]) (auto simp: list_del_init_def list_init_def)
  show "ring (list_del_init x h) x []" by (simp add: list_del_init_def ring_list_init)
qed

lemma ring_list_empty: "ring h l xs \<Longrightarrow> list_empty h l \<longleftrightarrow> xs = []"
  using ring_next_head[of h l xs] by (cases xs) (auto simp: list_empty_def ring_def)

lemma ring_next: "ring h l (as @ x # bs) \<Longrightarrow> list_next h x = (case bs of [] \<Rightarrow> l | b # _ \<Rightarrow> b)"
  using ring_next_head[of h x "bs @ l # as"] ring_rotate[of h l as x bs]
  by (cases bs) (auto simp: list_next_def)

text \<open>Operations on one ring leave every ring with other cells alone.\<close>

lemma ring_add_after_other:
  assumes "ring h l xs" "ring h m ys" "x \<in> set (l # xs)"
    and "set (m # ys) \<inter> set (e # l # xs) = {}"
  shows "ring (list_add_after x e h) m ys"
proof -
  have "next h x \<in> set (l # xs)"
  proof (cases "x = l")
    case True
    then show ?thesis using ring_next_head[OF assms(1)] by (auto split: list.splits)
  next
    case False
    then obtain as bs where "xs = as @ x # bs" using assms(3) by (auto dest: split_list)
    then show ?thesis using ring_next[of h l as x bs] assms(1) by (auto simp: list_next_def split: list.splits)
  qed
  with assms show ?thesis
    by (intro ring_frame[OF assms(2)]) (auto simp: list_ops_def)
qed

section \<open>The interface the kernel's containers use\<close>

text \<open>
  \<open>contents h l xs\<close> relates a heap and a list head to the sequence of linked elements.  The
  loop \<open>while ((le = list_next(le)) != list)\<close>, which the kernel uses for every traversal, is
  \<open>list_walk\<close>; its fuel is the number of steps it may take.
\<close>

fun list_walk :: "('h \<Rightarrow> 'a \<Rightarrow> 'a) \<Rightarrow> nat \<Rightarrow> 'h \<Rightarrow> 'a \<Rightarrow> 'a \<Rightarrow> 'a list option" where
  "list_walk nxt 0 h l le = None"
| "list_walk nxt (Suc n) h l le =
     (let le' = nxt h le in if le' = l then Some [] else map_option (Cons le') (list_walk nxt n h l le'))"

locale linked_list =
  fixes lempty :: "'h \<Rightarrow> 'a \<Rightarrow> bool"
    and linit :: "'a \<Rightarrow> 'h \<Rightarrow> 'h"
    and ladd_before :: "'a \<Rightarrow> 'a \<Rightarrow> 'h \<Rightarrow> 'h"
    and ladd_after :: "'a \<Rightarrow> 'a \<Rightarrow> 'h \<Rightarrow> 'h"
    and ldel :: "'a \<Rightarrow> 'h \<Rightarrow> 'h"
    and lnext :: "'h \<Rightarrow> 'a \<Rightarrow> 'a"
    and contents :: "'h \<Rightarrow> 'a \<Rightarrow> 'a list \<Rightarrow> bool"
  assumes contents_init: "contents (linit l h) l []"
    and contents_distinct: "contents h l xs \<Longrightarrow> distinct (l # xs)"
    and contents_empty: "contents h l xs \<Longrightarrow> lempty h l \<longleftrightarrow> xs = []"
    and contents_add_before:
      "contents h l xs \<Longrightarrow> e \<notin> set (l # xs) \<Longrightarrow> contents (ladd_before l e h) l (xs @ [e])"
    and contents_add_after:
      "contents h l xs \<Longrightarrow> e \<notin> set (l # xs) \<Longrightarrow> contents (ladd_after l e h) l (e # xs)"
    and contents_del: "contents h l xs \<Longrightarrow> x \<in> set xs \<Longrightarrow> contents (ldel x h) l (remove1 x xs)"
    and contents_first: "contents h l xs \<Longrightarrow> lnext h l = (case xs of [] \<Rightarrow> l | x # _ \<Rightarrow> x)"
    and contents_next:
      "contents h l (as @ x # bs) \<Longrightarrow> lnext h x = (case bs of [] \<Rightarrow> l | b # _ \<Rightarrow> b)"

context linked_list
begin

text \<open>Appending a batch at the tail keeps the arrival order, so the head is the oldest element.\<close>

lemma contents_enqueue_all:
  "contents h l xs \<Longrightarrow> distinct (l # xs @ es) \<Longrightarrow> contents (fold (ladd_before l) es h) l (xs @ es)"
proof (induction es arbitrary: h xs)
  case Nil
  then show ?case by simp
next
  case (Cons e es)
  have "contents (ladd_before l e h) l (xs @ [e])"
    using Cons.prems by (intro contents_add_before) auto
  then have "contents (fold (ladd_before l) es (ladd_before l e h)) l ((xs @ [e]) @ es)"
    using Cons.prems(2) by (intro Cons.IH) auto
  then show ?case by simp
qed

text \<open>Taking the first element and unlinking it, repeatedly, drains the list in order.\<close>

lemma contents_dequeue:
  "contents h l (x # xs) \<Longrightarrow> lnext h l = x \<and> contents (ldel (lnext h l) h) l xs"
  using contents_del[of h l "x # xs" x] contents_first[of h l "x # xs"] by simp

lemma contents_add_after_remove:
  "contents h l xs \<Longrightarrow> e \<notin> set (l # xs) \<Longrightarrow> contents (ldel e (ladd_after l e h)) l xs"
  using contents_del[OF contents_add_after, of h l xs e e] by simp

lemma contents_add_before_remove:
  "contents h l xs \<Longrightarrow> e \<notin> set (l # xs) \<Longrightarrow> contents (ldel e (ladd_before l e h)) l xs"
  using contents_del[OF contents_add_before, of h l xs e e] by simp

text \<open>The traversal loop terminates and visits the elements once each, in order.\<close>

lemma walk_from:
  "contents h l (as @ x # bs) \<Longrightarrow> length bs < n \<Longrightarrow> list_walk lnext n h l x = Some bs"
proof (induction bs arbitrary: as x n)
  case Nil
  then show ?case using contents_next[of h l as x "[]"] by (cases n) simp_all
next
  case (Cons b bs)
  then obtain m where n: "n = Suc m" by (cases n) auto
  have "b \<noteq> l" using contents_distinct[OF Cons.prems(1)] by auto
  moreover have "lnext h x = b" using contents_next[OF Cons.prems(1)] by simp
  moreover have "list_walk lnext m h l b = Some bs"
    using Cons.prems n by (intro Cons.IH[of "as @ [x]"]) auto
  ultimately show ?case using n by simp
qed

lemma walk_contents:
  assumes "contents h l xs" and "length xs < n"
  shows "list_walk lnext n h l l = Some xs"
proof (cases xs)
  case Nil
  then show ?thesis using assms contents_first[of h l "[]"] by (cases n) simp_all
next
  case (Cons y ys)
  from assms Cons obtain m where n: "n = Suc m" by (cases n) auto
  have "y \<noteq> l" using contents_distinct[OF assms(1)] Cons by auto
  moreover have "lnext h l = y" using contents_first[OF assms(1)] Cons by simp
  moreover have "list_walk lnext m h l y = Some ys"
    using assms n Cons by (intro walk_from[of _ _ "[]"]) auto
  ultimately show ?thesis using n Cons by simp
qed

end

interpretation klist: linked_list list_empty list_init list_add_before list_add_after list_del list_next ring
  by unfold_locales
    (auto simp: ring_list_init ring_list_empty ring_add_before_head ring_add_after_head
      ring_del_remove1 ring_next[unfolded list_next_def] list_next_def
      dest: ring_distinct ring_next_head)

section \<open>Properties\<close>

text \<open>On a well linked circular list, inserting a batch \<open>es\<close> of fresh elements at the
  tail with \<open>list_add_before\<close> and then unlinking any linked element with \<open>list_del\<close> leaves a
  well linked list on which the kernel's traversal loop terminates and visits the remaining
  elements once each, in arrival order.\<close>

theorem list_queue_traversal:
  assumes "ring s l xs" and "distinct (l # xs @ es)" and "x \<in> set (xs @ es)"
  shows "ring (list_del x (fold (list_add_before l) es s)) l (remove1 x (xs @ es))
    \<and> list_walk list_next (length (xs @ es)) (list_del x (fold (list_add_before l) es s)) l l
        = Some (remove1 x (xs @ es))"
proof
  show r: "ring (list_del x (fold (list_add_before l) es s)) l (remove1 x (xs @ es))"
    using klist.contents_del[OF klist.contents_enqueue_all[OF assms(1,2)] assms(3)] .
  have "length (remove1 x (xs @ es)) < length (xs @ es)"
    using assms(3) length_pos_if_in_set[OF assms(3)] by (simp only: length_remove1) simp
  then show "list_walk list_next (length (xs @ es)) (list_del x (fold (list_add_before l) es s)) l l
      = Some (remove1 x (xs @ es))"
    by (rule klist.walk_contents[OF r])
qed

theorem list_queue_traversal_witness:
  "list_walk list_next (length [5, 6, 7::nat]) (list_del 6 (fold (list_add_before 0) [5, 6, 7]
     (list_init (0::nat) \<lparr>prev = (\<lambda>_. 0), next = (\<lambda>_. 0)\<rparr>))) 0 0 = Some [5, 7]"
proof -
  let ?s = "list_init (0::nat) \<lparr>prev = (\<lambda>_. 0), next = (\<lambda>_. 0)\<rparr>"
  have "ring ?s 0 []" by (rule klist.contents_init)
  from list_queue_traversal[OF this, of "[5, 6, 7]" 6] show ?thesis
    by (simp del: list_walk.simps fold_simps list.size)
qed

end
