(* ===== verification/KAtomic.thy ===== *)
theory KAtomic
  imports KPrelude
begin

text \<open>
  \<open>libs/atomic.h\<close>: counters and bit flags.  An \<open>atomic_t\<close> is a 32-bit two's complement
  counter, here its word; the single x86 instructions of the header (\<open>addl\<close>, \<open>xaddl\<close>,
  \<open>incl\<close>, \<open>btsl\<close>, \<dots>) are one transition each, so that the operations need no interleaving
  model of their own.  The bit operations are used by the kernel on one 32-bit word with a
  constant index below 32 only, which is what is modelled.
\<close>

type_synonym atomic_t = u32

section \<open>Counters\<close>

definition atomic_read :: "atomic_t \<Rightarrow> u32" where
  "atomic_read v = v"

definition atomic_set :: "atomic_t \<Rightarrow> u32 \<Rightarrow> atomic_t" where
  "atomic_set v i = i"

definition atomic_add :: "atomic_t \<Rightarrow> u32 \<Rightarrow> atomic_t" where
  "atomic_add v i = v + i"

definition atomic_sub :: "atomic_t \<Rightarrow> u32 \<Rightarrow> atomic_t" where
  "atomic_sub v i = v - i"

definition atomic_sub_test_zero :: "atomic_t \<Rightarrow> u32 \<Rightarrow> bool \<times> atomic_t" where
  "atomic_sub_test_zero v i = (let v' = v - i in (v' = 0, v'))"

definition atomic_inc :: "atomic_t \<Rightarrow> atomic_t" where
  "atomic_inc v = v + 1"

definition atomic_dec :: "atomic_t \<Rightarrow> atomic_t" where
  "atomic_dec v = v - 1"

definition atomic_inc_test_zero :: "atomic_t \<Rightarrow> bool \<times> atomic_t" where
  "atomic_inc_test_zero v = (let v' = v + 1 in (v' = 0, v'))"

definition atomic_dec_test_zero :: "atomic_t \<Rightarrow> bool \<times> atomic_t" where
  "atomic_dec_test_zero v = (let v' = v - 1 in (v' = 0, v'))"

definition atomic_add_return :: "atomic_t \<Rightarrow> u32 \<Rightarrow> u32 \<times> atomic_t" where
  \<comment> \<open>\<open>xaddl\<close> leaves the old value in the register operand and the sum in memory;
     the function returns register + addend\<close>
  "atomic_add_return v i = (let old = v; v' = v + i in (old + i, v'))"

definition atomic_sub_return :: "atomic_t \<Rightarrow> u32 \<Rightarrow> u32 \<times> atomic_t" where
  "atomic_sub_return v i = atomic_add_return v (- i)"

lemmas atomic_defs = atomic_read_def atomic_set_def atomic_add_def atomic_sub_def
  atomic_sub_test_zero_def atomic_inc_def atomic_dec_def atomic_inc_test_zero_def
  atomic_dec_test_zero_def atomic_add_return_def atomic_sub_return_def Let_def

lemma atomic_add_return_eq [simp]: "atomic_add_return v i = (v + i, v + i)"
  by (simp add: atomic_defs)

lemma atomic_sub_return_eq [simp]: "atomic_sub_return v i = (v - i, v - i)"
  by (simp add: atomic_sub_return_def)

section \<open>Bit flags\<close>

definition set_bit_w :: "nat \<Rightarrow> u32 \<Rightarrow> u32" where
  "set_bit_w nr w = w OR push_bit nr 1"

definition clear_bit_w :: "nat \<Rightarrow> u32 \<Rightarrow> u32" where
  "clear_bit_w nr w = w AND NOT (push_bit nr 1)"

definition change_bit_w :: "nat \<Rightarrow> u32 \<Rightarrow> u32" where
  "change_bit_w nr w = w XOR push_bit nr 1"

definition test_bit_w :: "nat \<Rightarrow> u32 \<Rightarrow> bool" where
  "test_bit_w nr w = bit w nr"

definition test_and_set_bit :: "nat \<Rightarrow> u32 \<Rightarrow> bool \<times> u32" where
  "test_and_set_bit nr w = (bit w nr, set_bit_w nr w)"

definition test_and_clear_bit :: "nat \<Rightarrow> u32 \<Rightarrow> bool \<times> u32" where
  "test_and_clear_bit nr w = (bit w nr, clear_bit_w nr w)"

definition test_and_change_bit :: "nat \<Rightarrow> u32 \<Rightarrow> bool \<times> u32" where
  "test_and_change_bit nr w = (bit w nr, change_bit_w nr w)"

lemma test_set_bit_w [simp]:
  "m < 32 \<Longrightarrow> test_bit_w n (set_bit_w m w) \<longleftrightarrow> n = m \<or> test_bit_w n w"
  by (auto simp: test_bit_w_def set_bit_w_def bit_or_iff bit_exp_iff)

lemma test_clear_bit_w [simp]:
  "m < 32 \<Longrightarrow> test_bit_w n (clear_bit_w m w) \<longleftrightarrow> n \<noteq> m \<and> test_bit_w n w"
  by (auto simp: test_bit_w_def clear_bit_w_def bit_and_iff bit_not_iff bit_exp_iff
      dest: bit_imp_le_length)

lemma test_change_bit_w [simp]:
  "m < 32 \<Longrightarrow> test_bit_w n (change_bit_w m w) \<longleftrightarrow> (n = m) \<noteq> test_bit_w n w"
  by (auto simp: test_bit_w_def change_bit_w_def bit_xor_iff bit_exp_iff)

lemma test_bit_w_0 [simp]: "\<not> test_bit_w n 0"
  by (simp add: test_bit_w_def)

section \<open>The spin lock of kern/sync/sync.h\<close>

text \<open>
  \<open>lock\<close> retries \<open>try_lock\<close> and calls \<open>schedule\<close> between attempts; one attempt is
  \<open>try_lock\<close>.  \<open>unlock\<close> panics when the lock was not held.
\<close>

definition lock_init :: "u32 \<Rightarrow> u32" where
  "lock_init l = 0"

definition try_lock :: "u32 \<Rightarrow> bool \<times> u32" where
  "try_lock l = (let (old, l') = test_and_set_bit 0 l in (\<not> old, l'))"

definition unlock :: "u32 \<Rightarrow> u32 option" where
  "unlock l = (let (old, l') = test_and_clear_bit 0 l in if \<not> old then None else Some l')"

lemma try_lock_cases:
  "try_lock l = (r, l') \<Longrightarrow> test_bit_w 0 l' \<and> (r \<longleftrightarrow> \<not> test_bit_w 0 l)"
  by (auto simp: try_lock_def test_and_set_bit_def test_bit_w_def [symmetric])

lemma unlock_Some: "unlock l = Some l' \<longleftrightarrow> test_bit_w 0 l \<and> l' = clear_bit_w 0 l"
  by (auto simp: unlock_def test_and_clear_bit_def test_bit_w_def)

lemma lock_unlock:
  "try_lock l = (True, l') \<Longrightarrow> \<exists>l''. unlock l' = Some l'' \<and> \<not> test_bit_w 0 l''"
  by (auto simp: unlock_Some dest: try_lock_cases)

section \<open>Property\<close>

text \<open>The holder of a sequence of attempts on one lock word: \<open>True\<close> is a \<open>try_lock\<close>, \<open>False\<close>
  an \<open>unlock\<close>; the result lists which attempts got the lock.\<close>

fun lock_trace :: "bool list \<Rightarrow> u32 \<Rightarrow> bool list option" where
  "lock_trace [] l = Some []"
| "lock_trace (True # as) l =
     (let (got, l') = try_lock l in map_option (Cons got) (lock_trace as l'))"
| "lock_trace (False # as) l =
     (case unlock l of None \<Rightarrow> None | Some l' \<Rightarrow> map_option (Cons False) (lock_trace as l'))"

lemma lock_trace_attempts:
  "lock_trace (replicate n True) l = Some (if test_bit_w 0 l then replicate n False
     else case n of 0 \<Rightarrow> [] | Suc m \<Rightarrow> True # replicate m False)"
proof (induction n arbitrary: l)
  case 0
  then show ?case by simp
next
  case (Suc n)
  then show ?case
    by (cases "try_lock l") (auto dest!: try_lock_cases split: nat.splits)
qed

text \<open>Mutual exclusion of the bit lock: of any number of \<open>try_lock\<close> attempts between two
  \<open>unlock\<close>s exactly the first one on a free lock succeeds and every one on a held lock fails;
  \<open>unlock\<close> of a held lock frees it without touching another bit of the word, and \<open>unlock\<close> of
  a free lock panics.\<close>

theorem lock_mutual_exclusion:
  "lock_trace (replicate n True) l = Some (if test_bit_w 0 l then replicate n False
     else case n of 0 \<Rightarrow> [] | Suc m \<Rightarrow> True # replicate m False)
   \<and> (if test_bit_w 0 l then \<exists>l'. unlock l = Some l' \<and> \<not> test_bit_w 0 l'
         \<and> (\<forall>k. k \<noteq> 0 \<longrightarrow> test_bit_w k l' = test_bit_w k l)
      else unlock l = None)"
  by (simp add: lock_trace_attempts unlock_Some) (simp add: unlock_def test_and_clear_bit_def test_bit_w_def)

theorem lock_mutual_exclusion_witness:
  "lock_trace (replicate 2 True) 2 = Some [True, False] \<and> (\<exists>l'. unlock 3 = Some l' \<and> \<not> test_bit_w 0 l')"
  using lock_mutual_exclusion[of 2 2] lock_mutual_exclusion[of 0 3]
  by (auto simp: test_bit_w_def)

end
