(* ===== verification/KPage.thy ===== *)
theory KPage
  imports KAtomic
begin

text \<open>
  \<open>struct Page\<close> of \<open>kern/mm/memlayout.h\<close>: the descriptor of one physical page frame, its flag
  bits, and its reference counter (\<open>kern/mm/pmm.h\<close>).  A \<open>struct Page *\<close> is the index of the
  descriptor in the array \<open>pages\<close>, that is \<open>page2ppn\<close> of the C code; pointer arithmetic on
  descriptors is arithmetic on these indices.  The two list links of the C struct
  (\<open>page_link\<close>, \<open>swap_link\<close>) have no field: the lists they thread are kept as HOL lists of
  page indices by their owners (see \<open>KList\<close>).
\<close>

record Page =
  p_ref :: atomic_t
  p_flags :: u32
  p_property :: nat
  p_zone_num :: nat
  p_index :: u32

text \<open>The flag names are the bit numbers 0 to 5 of the \<open>PG_*\<close> macros.\<close>

datatype pg_flag = PG_reserved | PG_property | PG_slab | PG_dirty | PG_swap | PG_active

primrec pg_bit :: "pg_flag \<Rightarrow> nat" where
  "pg_bit PG_reserved = 0"
| "pg_bit PG_property = 1"
| "pg_bit PG_slab = 2"
| "pg_bit PG_dirty = 3"
| "pg_bit PG_swap = 4"
| "pg_bit PG_active = 5"

lemma pg_bit_less [simp]: "pg_bit f < 32"
  by (cases f) simp_all

lemma pg_bit_inject [simp]: "pg_bit f = pg_bit g \<longleftrightarrow> f = g"
  by (cases f; cases g) simp_all

definition SetPageFlag :: "pg_flag \<Rightarrow> Page \<Rightarrow> Page" where
  "SetPageFlag f p = p\<lparr>p_flags := set_bit_w (pg_bit f) (p_flags p)\<rparr>"

definition ClearPageFlag :: "pg_flag \<Rightarrow> Page \<Rightarrow> Page" where
  "ClearPageFlag f p = p\<lparr>p_flags := clear_bit_w (pg_bit f) (p_flags p)\<rparr>"

definition PageFlag :: "pg_flag \<Rightarrow> Page \<Rightarrow> bool" where
  "PageFlag f p = test_bit_w (pg_bit f) (p_flags p)"

abbreviation (input) "PageReserved \<equiv> PageFlag PG_reserved"
abbreviation (input) "PageProperty \<equiv> PageFlag PG_property"
abbreviation (input) "PageSlab \<equiv> PageFlag PG_slab"
abbreviation (input) "PageDirty \<equiv> PageFlag PG_dirty"
abbreviation (input) "PageSwap \<equiv> PageFlag PG_swap"
abbreviation (input) "PageActive \<equiv> PageFlag PG_active"

abbreviation (input) "SetPageProperty \<equiv> SetPageFlag PG_property"
abbreviation (input) "ClearPageProperty \<equiv> ClearPageFlag PG_property"
abbreviation (input) "SetPageSlab \<equiv> SetPageFlag PG_slab"
abbreviation (input) "ClearPageSlab \<equiv> ClearPageFlag PG_slab"
abbreviation (input) "SetPageDirty \<equiv> SetPageFlag PG_dirty"
abbreviation (input) "ClearPageDirty \<equiv> ClearPageFlag PG_dirty"
abbreviation (input) "SetPageSwap \<equiv> SetPageFlag PG_swap"
abbreviation (input) "ClearPageSwap \<equiv> ClearPageFlag PG_swap"
abbreviation (input) "SetPageActive \<equiv> SetPageFlag PG_active"
abbreviation (input) "ClearPageActive \<equiv> ClearPageFlag PG_active"

definition set_page_ref :: "u32 \<Rightarrow> Page \<Rightarrow> Page" where
  "set_page_ref v p = p\<lparr>p_ref := atomic_set (p_ref p) v\<rparr>"

definition page_ref_inc :: "Page \<Rightarrow> u32 \<times> Page" where
  "page_ref_inc p = (let (r, c) = atomic_add_return (p_ref p) 1 in (r, p\<lparr>p_ref := c\<rparr>))"

definition page_ref_dec :: "Page \<Rightarrow> u32 \<times> Page" where
  "page_ref_dec p = (let (r, c) = atomic_sub_return (p_ref p) 1 in (r, p\<lparr>p_ref := c\<rparr>))"

lemma PageFlag_Set [simp]: "PageFlag g (SetPageFlag f p) \<longleftrightarrow> g = f \<or> PageFlag g p"
  by (auto simp: PageFlag_def SetPageFlag_def)

lemma PageFlag_Clear [simp]: "PageFlag g (ClearPageFlag f p) \<longleftrightarrow> g \<noteq> f \<and> PageFlag g p"
  by (auto simp: PageFlag_def ClearPageFlag_def)

lemma PageFlag_zero [simp]: "\<not> PageFlag g (p\<lparr>p_flags := 0\<rparr>)"
  by (simp add: PageFlag_def)

lemma PageFlag_upd [simp]:
  "PageFlag g (p\<lparr>p_ref := r\<rparr>) = PageFlag g p"
  "PageFlag g (p\<lparr>p_property := k\<rparr>) = PageFlag g p"
  "PageFlag g (p\<lparr>p_zone_num := z\<rparr>) = PageFlag g p"
  "PageFlag g (p\<lparr>p_index := i\<rparr>) = PageFlag g p"
  "PageFlag g (set_page_ref v p) = PageFlag g p"
  by (simp_all add: PageFlag_def set_page_ref_def)

lemma Flag_fields [simp]:
  "p_property (SetPageFlag f p) = p_property p"
  "p_zone_num (SetPageFlag f p) = p_zone_num p"
  "p_ref (SetPageFlag f p) = p_ref p"
  "p_index (SetPageFlag f p) = p_index p"
  "p_property (ClearPageFlag f p) = p_property p"
  "p_zone_num (ClearPageFlag f p) = p_zone_num p"
  "p_ref (ClearPageFlag f p) = p_ref p"
  "p_index (ClearPageFlag f p) = p_index p"
  by (simp_all add: SetPageFlag_def ClearPageFlag_def)

lemma set_page_ref_fields [simp]:
  "p_property (set_page_ref v p) = p_property p"
  "p_zone_num (set_page_ref v p) = p_zone_num p"
  "p_flags (set_page_ref v p) = p_flags p"
  "p_ref (set_page_ref v p) = v"
  by (simp_all add: set_page_ref_def atomic_set_def)

end
