(* ===== verification/PmmIface.thy ===== *)
theory PmmIface
  imports KPrelude
begin

text \<open>
  The interface \<open>struct pmm_manager\<close> of \<open>kern/mm/pmm.h\<close> as a locale: what the clients of a
  physical memory manager (\<open>alloc_pages\<close>, \<open>free_pages\<close> and \<open>nr_free_pages\<close> of
  \<open>kern/mm/pmm.c\<close>, and through them the slab allocator and the page tables) rely on.  The
  client's view of a run of requests is a list of the extents it holds; the lemmas of the
  locale say that no page is ever handed out twice and that no page is lost.
\<close>

definition extent :: "nat \<times> nat \<Rightarrow> nat set" where
  "extent e = {fst e..<fst e + snd e}"

fun disjoint_extents :: "(nat \<times> nat) list \<Rightarrow> bool" where
  "disjoint_extents [] = True"
| "disjoint_extents (e # es) \<longleftrightarrow> (\<forall>f \<in> set es. extent e \<inter> extent f = {}) \<and> disjoint_extents es"

definition covered :: "(nat \<times> nat) list \<Rightarrow> nat set" where
  "covered es = (\<Union>e \<in> set es. extent e)"

lemma covered_Cons [simp]: "covered (e # es) = extent e \<union> covered es"
  by (simp add: covered_def)

lemma covered_Nil [simp]: "covered [] = {}"
  by (simp add: covered_def)

lemma finite_covered [simp]: "finite (covered es)"
  by (simp add: covered_def extent_def)

lemma disjoint_extents_Cons:
  "disjoint_extents (e # es) \<longleftrightarrow> extent e \<inter> covered es = {} \<and> disjoint_extents es"
  by (auto simp: covered_def)

lemma disjoint_extents_remove1:
  "disjoint_extents es \<Longrightarrow> e \<in> set es \<Longrightarrow> disjoint_extents (remove1 e es)
   \<and> extent e \<inter> covered (remove1 e es) = {} \<and> covered es = extent e \<union> covered (remove1 e es)"
proof (induction es)
  case Nil
  then show ?case by simp
next
  case (Cons f es)
  show ?case
  proof (cases "f = e")
    case True
    with Cons.prems show ?thesis by (simp add: disjoint_extents_Cons del: disjoint_extents.simps)
  next
    case False
    with Cons show ?thesis
      by (auto simp: disjoint_extents_Cons simp del: disjoint_extents.simps)
  qed
qed

lemma card_covered: "disjoint_extents es \<Longrightarrow> card (covered es) = sum_list (map snd es)"
proof (induction es)
  case Nil
  then show ?case by simp
next
  case (Cons e es)
  then have "card (extent e \<union> covered es) = card (extent e) + card (covered es)"
    by (intro card_Un_disjoint) (auto simp: disjoint_extents_Cons extent_def simp del: disjoint_extents.simps)
  with Cons show ?case by (simp add: extent_def)
qed

text \<open>A request of a client, and the serving of a list of requests by a manager with the
  operations \<open>alloc\<close> and \<open>release\<close>; a free of an extent that is not held is the client's
  error and is not issued, nor is a request of no page or of more than \<open>limit\<close>.\<close>

datatype request = Alloc nat | Free "nat \<times> nat"

fun serve :: "nat \<Rightarrow> (nat \<Rightarrow> 's \<Rightarrow> (nat option \<times> 's) option) \<Rightarrow> (nat \<Rightarrow> nat \<Rightarrow> 's \<Rightarrow> 's option) \<Rightarrow>
    request list \<Rightarrow> (nat \<times> nat) list \<Rightarrow> 's \<Rightarrow> ((nat \<times> nat) list \<times> 's) option" where
  "serve limit alloc release [] held s = Some (held, s)"
| "serve limit alloc release (Alloc n # rs) held s =
     (if 0 < n \<and> n \<le> limit then do {
        (r, s') \<leftarrow> alloc n s;
        serve limit alloc release rs (case r of None \<Rightarrow> held | Some p \<Rightarrow> (p, n) # held) s'
      }
      else serve limit alloc release rs held s)"
| "serve limit alloc release (Free e # rs) held s =
     (if e \<in> set held then do {
        s' \<leftarrow> release (fst e) (snd e) s;
        serve limit alloc release rs (remove1 e held) s'
      }
      else serve limit alloc release rs held s)"

locale pmm_manager =
  fixes ok :: "'s \<Rightarrow> bool"
    and free :: "'s \<Rightarrow> nat set"
    and span :: "'s \<Rightarrow> nat \<Rightarrow> nat \<Rightarrow> bool"
    and limit :: nat
    and alloc :: "nat \<Rightarrow> 's \<Rightarrow> (nat option \<times> 's) option"
    and release :: "nat \<Rightarrow> nat \<Rightarrow> 's \<Rightarrow> 's option"
    and nr :: "'s \<Rightarrow> nat"
  assumes alloc_law: "ok s \<Longrightarrow> 0 < n \<Longrightarrow> n \<le> limit \<Longrightarrow>
      alloc n s = Some (None, s) \<or>
      (\<exists>p s'. alloc n s = Some (Some p, s') \<and> ok s' \<and> span s p n \<and> span s' = span s \<and>
         {p..<p + n} \<subseteq> free s \<and> free s' = free s - {p..<p + n})"
    and release_law: "ok s \<Longrightarrow> 0 < n \<Longrightarrow> n \<le> limit \<Longrightarrow> span s p n \<Longrightarrow> {p..<p + n} \<inter> free s = {} \<Longrightarrow>
      \<exists>s'. release p n s = Some s' \<and> ok s' \<and> span s' = span s \<and> free s' = free s \<union> {p..<p + n}"
    and nr_law: "ok s \<Longrightarrow> nr s = card (free s)"
    and free_finite: "ok s \<Longrightarrow> finite (free s)"
begin

definition holds :: "(nat \<times> nat) list \<Rightarrow> 's \<Rightarrow> bool" where
  "holds held s \<longleftrightarrow> ok s \<and> disjoint_extents held \<and> covered held \<inter> free s = {} \<and>
     (\<forall>e \<in> set held. span s (fst e) (snd e) \<and> 0 < snd e \<and> snd e \<le> limit)"

lemma holds_alloc:
  assumes "holds held s" "0 < n" "n \<le> limit"
  obtains r s' where "alloc n s = Some (r, s')"
    "holds (case r of None \<Rightarrow> held | Some p \<Rightarrow> (p, n) # held) s'"
    "free s' \<union> covered (case r of None \<Rightarrow> held | Some p \<Rightarrow> (p, n) # held) = free s \<union> covered held"
proof -
  from assms(1) have ok: "ok s" by (simp add: holds_def)
  from alloc_law[OF ok assms(2,3)] show ?thesis
  proof
    assume "alloc n s = Some (None, s)"
    with assms(1) show ?thesis using that[of None s] by simp
  next
    assume "\<exists>p s'. alloc n s = Some (Some p, s') \<and> ok s' \<and> span s p n \<and> span s' = span s \<and>
      {p..<p + n} \<subseteq> free s \<and> free s' = free s - {p..<p + n}"
    then obtain p s' where *: "alloc n s = Some (Some p, s')" "ok s'" "span s p n" "span s' = span s"
      "{p..<p + n} \<subseteq> free s" "free s' = free s - {p..<p + n}" by blast
    have e: "extent (p, n) = {p..<p + n}" by (simp add: extent_def)
    have "holds ((p, n) # held) s'"
      using assms * unfolding holds_def disjoint_extents_Cons e by (auto simp: e)
    moreover have "free s' \<union> covered ((p, n) # held) = free s \<union> covered held"
      using * unfolding covered_Cons e by auto
    ultimately show ?thesis using that[OF *(1)] by simp
  qed
qed

lemma holds_free:
  assumes "holds held s" "e \<in> set held"
  obtains s' where "release (fst e) (snd e) s = Some s'" "holds (remove1 e held) s'"
    "free s' \<union> covered (remove1 e held) = free s \<union> covered held"
proof -
  from assms(1) have h: "ok s" "disjoint_extents held" "covered held \<inter> free s = {}"
    "\<forall>e \<in> set held. span s (fst e) (snd e) \<and> 0 < snd e \<and> snd e \<le> limit"
    by (auto simp: holds_def)
  note d = disjoint_extents_remove1[OF h(2) assms(2)]
  have e: "extent e = {fst e..<fst e + snd e}" by (simp add: extent_def)
  have "{fst e..<fst e + snd e} \<inter> free s = {}" unfolding e[symmetric] using h(3) d by auto
  then obtain s' where s': "release (fst e) (snd e) s = Some s'" "ok s'" "span s' = span s"
    "free s' = free s \<union> {fst e..<fst e + snd e}"
    using release_law[OF h(1), of "snd e" "fst e"] h(4) assms(2) by auto
  have "covered (remove1 e held) \<inter> free s' = {}"
    unfolding s'(4) e[symmetric] using d h(3) by auto
  moreover have "\<forall>f \<in> set (remove1 e held). span s' (fst f) (snd f) \<and> 0 < snd f \<and> snd f \<le> limit"
    using h(4) s'(3) set_remove1_subset[of e held] by auto
  ultimately have "holds (remove1 e held) s'"
    using s'(2) d by (simp add: holds_def)
  moreover have "free s' \<union> covered (remove1 e held) = free s \<union> covered held"
    unfolding s'(4) e[symmetric] using d by auto
  ultimately show ?thesis using that[OF s'(1)] by blast
qed

lemma serve_ok:
  "holds held s \<Longrightarrow> \<exists>held' s'. serve limit alloc release rs held s = Some (held', s') \<and> holds held' s' \<and>
     free s' \<union> covered held' = free s \<union> covered held"
proof (induction rs arbitrary: held s)
  case Nil
  then show ?case by simp
next
  case (Cons req rs)
  show ?case
  proof (cases req)
    case (Alloc n)
    show ?thesis
    proof (cases "0 < n \<and> n \<le> limit")
      case True
      obtain r s' where "alloc n s = Some (r, s')"
        "holds (case r of None \<Rightarrow> held | Some p \<Rightarrow> (p, n) # held) s'"
        "free s' \<union> covered (case r of None \<Rightarrow> held | Some p \<Rightarrow> (p, n) # held) = free s \<union> covered held"
        using holds_alloc[OF Cons.prems] True by blast
      with True Alloc Cons.IH show ?thesis by fastforce
    next
      case False
      with Cons Alloc show ?thesis by auto
    qed
  next
    case (Free e)
    show ?thesis
    proof (cases "e \<in> set held")
      case True
      obtain s' where "release (fst e) (snd e) s = Some s'" "holds (remove1 e held) s'"
        "free s' \<union> covered (remove1 e held) = free s \<union> covered held"
        using holds_free[OF Cons.prems True] by blast
      with True Free Cons.IH show ?thesis by fastforce
    next
      case False
      with Cons Free show ?thesis by auto
    qed
  qed
qed

lemma holds_count: "holds held s \<Longrightarrow> nr s + sum_list (map snd held) = card (free s \<union> covered held)"
  by (simp add: holds_def nr_law free_finite card_covered card_Un_disjoint Int_commute flip: card_covered)

lemma serve_conserves:
  assumes "holds held s" "serve limit alloc release rs held s = Some (held', s')"
  shows "nr s' + sum_list (map snd held') = nr s + sum_list (map snd held)"
  using serve_ok[OF assms(1), of rs] assms by (simp add: holds_count)

end

end
