(* ===== verification/Buddy.thy ===== *)
theory Buddy
  imports KPage KList PmmIface
begin

text \<open>
  The buddy allocator of \<open>kern/mm/buddy_pmm.c\<close>, the physical memory manager the kernel
  installs in \<open>init_pmm_manager\<close>.

  State: \<open>free_list k\<close> is the list threaded through the \<open>page_link\<close> fields from
  \<open>free_area[k].free_list\<close>, as a HOL list of page indices (\<open>KList\<close>); \<open>nr_free k\<close> is its
  counter; \<open>zones\<close> and \<open>zone_cnt\<close> are the array \<open>zones\<close> and the static variable
  \<open>zone_num\<close> of \<open>buddy_init_memmap\<close>; \<open>pages\<close> and \<open>npage\<close> are the descriptor array and its
  length.  Sizes, orders and indices are natural numbers: all of them stay below
  \<open>npage\<close>, itself below 2^18 because \<open>KMEMSIZE / PGSIZE = 0x38000\<close>.

  Part one translates the code; part two states what a consistent allocator state is
  (\<open>buddy_ok\<close>, relative to the lengths of the zones) and shows what each operation does to
  the set of free pages.
\<close>

section \<open>The code\<close>

abbreviation (input) "MAX_ORDER \<equiv> (10::nat)"
abbreviation (input) "MAX_ZONE_NUM \<equiv> (10::nat)"

record buddy =
  free_list :: "nat \<Rightarrow> nat list"
  nr_free :: "nat \<Rightarrow> nat"
  zones :: "nat \<Rightarrow> nat"
  zone_cnt :: nat
  pages :: "nat \<Rightarrow> Page"
  npage :: nat

definition upd_page :: "nat \<Rightarrow> (Page \<Rightarrow> Page) \<Rightarrow> buddy \<Rightarrow> buddy" where
  "upd_page p f b = b\<lparr>pages := (pages b)(p := f (pages b p))\<rparr>"

definition buddy_init :: "buddy \<Rightarrow> buddy" where
  "buddy_init b = fold (\<lambda>i b. b\<lparr>free_list := (free_list b)(i := []), nr_free := (nr_free b)(i := 0)\<rparr>)
     [0..<MAX_ORDER + 1] b"

text \<open>\<open>list_add(&free_list(order), &(p->page_link)); nr_free(order) ++\<close>, with the descriptor
  of the block's first page.\<close>

definition add_block :: "nat \<Rightarrow> nat \<Rightarrow> buddy \<Rightarrow> buddy" where
  "add_block order p b =
    (let b = upd_page p (\<lambda>pg. SetPageProperty (pg\<lparr>p_property := order\<rparr>)) b
     in b\<lparr>free_list := (free_list b)(order := p # free_list b order),
          nr_free := (nr_free b)(order := nr_free b order + 1)\<rparr>)"

text \<open>\<open>nr_free(order) --; list_del(&(p->page_link))\<close>.\<close>

definition unlink_block :: "nat \<Rightarrow> nat \<Rightarrow> buddy \<Rightarrow> buddy" where
  "unlink_block order p b =
     b\<lparr>nr_free := (nr_free b)(order := nr_free b order - 1),
       free_list := (free_list b)(order := remove1 p (free_list b order))\<rparr>"

text \<open>The two nested loops of \<open>buddy_init_memmap\<close>: the inner test \<open>n >= order_size\<close> with
  \<open>order_size = 1 << order\<close>, and the step to the next smaller order.\<close>

function init_blocks :: "nat \<Rightarrow> nat \<Rightarrow> nat \<Rightarrow> buddy \<Rightarrow> buddy" where
  "init_blocks order p n b =
     (if n = 0 then b
      else if n \<ge> 2 ^ order then init_blocks order (p + 2 ^ order) (n - 2 ^ order) (add_block order p b)
      else init_blocks (order - 1) p n b)"
  by pat_completeness auto
termination
proof (relation "measure (\<lambda>(order, p, n, b). n + order)", goal_cases)
  case 1
  then show ?case by simp
next
  case (2 order p n b)
  then show ?case by (simp add: Suc_le_eq)
next
  case (3 order p n b)
  then show ?case by (cases order) simp_all
qed

declare init_blocks.simps [simp del]

definition buddy_init_memmap :: "nat \<Rightarrow> nat \<Rightarrow> buddy \<Rightarrow> buddy option" where
  "buddy_init_memmap base n b = do {
     kassert (n > 0 \<and> zone_cnt b < MAX_ZONE_NUM);
     kassert (\<forall>p \<in> set [base..<base + n]. PageReserved (pages b p));
     let z = zone_cnt b;
     let b = fold (\<lambda>p b. upd_page p (\<lambda>pg. set_page_ref 0
               (pg\<lparr>p_flags := 0, p_property := 0, p_zone_num := z\<rparr>)) b) [base..<base + n] b;
     let b = b\<lparr>zones := (zones b)(z := base), zone_cnt := z + 1\<rparr>;
     Some (init_blocks MAX_ORDER base n b)
   }"

text \<open>\<open>getorder\<close>: the least order whose block holds \<open>n\<close> pages; panics above \<open>MAX_ORDER\<close>.\<close>

definition getorder :: "nat \<Rightarrow> nat option" where
  "getorder n = find (\<lambda>order. n \<le> 2 ^ order) [0..<MAX_ORDER + 1]"

text \<open>The loop \<open>while (cur_order > order)\<close> that gives the upper halves back.\<close>

fun split_block :: "nat \<Rightarrow> nat \<Rightarrow> nat \<Rightarrow> buddy \<Rightarrow> buddy" where
  "split_block page order 0 b = b"
| "split_block page order (Suc cur) b =
     (if Suc cur > order then split_block page order cur (add_block cur (page + 2 ^ cur) b) else b)"

definition buddy_alloc_pages_sub :: "nat \<Rightarrow> buddy \<Rightarrow> (nat option \<times> buddy) option" where
  "buddy_alloc_pages_sub order b = do {
     kassert (order \<le> MAX_ORDER);
     (case find (\<lambda>cur. free_list b cur \<noteq> []) [order..<MAX_ORDER + 1] of
        None \<Rightarrow> Some (None, b)
      | Some cur \<Rightarrow>
          (let page = hd (free_list b cur);
               b = unlink_block cur page b;
               b = split_block page order cur b;
               b = upd_page page ClearPageProperty b
           in Some (Some page, b)))
   }"

definition page_is_buddy :: "nat \<Rightarrow> nat \<Rightarrow> nat \<Rightarrow> buddy \<Rightarrow> bool" where
  "page_is_buddy page order zone_num b =
    (if page < npage b then
       if p_zone_num (pages b page) = zone_num then
         \<not> PageReserved (pages b page) \<and> PageProperty (pages b page)
         \<and> p_property (pages b page) = order
       else False
     else False)"

definition page2idx :: "nat \<Rightarrow> buddy \<Rightarrow> nat" where
  "page2idx page b = page - zones b (p_zone_num (pages b page))"

definition idx2page :: "nat \<Rightarrow> nat \<Rightarrow> buddy \<Rightarrow> nat" where
  "idx2page zone_num idx b = zones b zone_num + idx"

text \<open>The loop \<open>while (order < MAX_ORDER)\<close> of \<open>buddy_free_pages_sub\<close>; it stops at the first
  order whose buddy is not a free block of that order.\<close>

function merge_buddies :: "nat \<Rightarrow> nat \<Rightarrow> nat \<Rightarrow> buddy \<Rightarrow> nat \<times> nat \<times> buddy" where
  "merge_buddies zone_num page_idx order b =
     (if order < MAX_ORDER then
        (let buddy_idx = page_idx XOR 2 ^ order;
             bd = idx2page zone_num buddy_idx b
         in if \<not> page_is_buddy bd order zone_num b then (page_idx, order, b)
            else merge_buddies zone_num (page_idx AND buddy_idx) (order + 1)
                   (upd_page bd ClearPageProperty (unlink_block order bd b)))
      else (page_idx, order, b))"
  by pat_completeness auto
termination
  by (relation "measure (\<lambda>(z, i, order, b). MAX_ORDER - order)") auto

declare merge_buddies.simps [simp del]

definition buddy_free_pages_sub :: "nat \<Rightarrow> nat \<Rightarrow> buddy \<Rightarrow> buddy option" where
  "buddy_free_pages_sub base order b = do {
     let page_idx = page2idx base b;
     kassert (page_idx AND (2 ^ order - 1) = 0);
     kassert (\<forall>p \<in> set [base..<base + 2 ^ order]. \<not> PageReserved (pages b p) \<and> \<not> PageProperty (pages b p));
     let b = fold (\<lambda>p b. upd_page p (\<lambda>pg. set_page_ref 0 (pg\<lparr>p_flags := 0\<rparr>)) b)
               [base..<base + 2 ^ order] b;
     let zone_num = p_zone_num (pages b base);
     let (page_idx, order, b) = merge_buddies zone_num page_idx order b;
     let page = idx2page zone_num page_idx b;
     Some (add_block order page b)
   }"

text \<open>\<open>buddy_free_pages\<close>: first loop, growing orders while \<open>n >= order_size\<close>; second loop,
  shrinking orders until the rest is gone.\<close>

function free_grow :: "nat \<Rightarrow> nat \<Rightarrow> nat \<Rightarrow> buddy \<Rightarrow> (nat \<times> nat \<times> nat \<times> buddy) option" where
  "free_grow base n order b =
     (if n \<ge> 2 ^ order then do {
        kassert (order \<le> MAX_ORDER);
        (if page2idx base b AND 2 ^ order \<noteq> 0
         then do {
           b' \<leftarrow> buddy_free_pages_sub base order b;
           free_grow (base + 2 ^ order) (n - 2 ^ order) (order + 1) b'
         }
         else free_grow base n (order + 1) b)
      }
      else Some (base, n, order, b))"
  by pat_completeness auto
termination
  by (relation "measure (\<lambda>(base, n, order, b). MAX_ORDER + 1 - order)")
    (auto simp: kassert_def split: if_splits)

declare free_grow.simps [simp del]

function free_shrink :: "nat \<Rightarrow> nat \<Rightarrow> nat \<Rightarrow> buddy \<Rightarrow> buddy option" where
  "free_shrink base n order b =
     (if n = 0 then Some b
      else if n < 2 ^ order then free_shrink base n (order - 1) b
      else do {
        b' \<leftarrow> buddy_free_pages_sub base order b;
        free_shrink (base + 2 ^ order) (n - 2 ^ order) order b'
      })"
  by pat_completeness auto
termination
proof (relation "measure (\<lambda>(base, n, order, b). n + order)", goal_cases)
  case 1
  then show ?case by simp
next
  case (2 base n order b)
  then show ?case by (cases order) simp_all
next
  case (3 base n order b b')
  then show ?case by (simp add: Suc_le_eq)
qed

declare free_shrink.simps [simp del]

definition buddy_free_pages :: "nat \<Rightarrow> nat \<Rightarrow> buddy \<Rightarrow> buddy option" where
  "buddy_free_pages base n b = do {
     kassert (n > 0);
     (if n = 1 then buddy_free_pages_sub base 0 b
      else do {
        (base, n, order, b) \<leftarrow> free_grow base n 0 b;
        free_shrink base n order b
      })
   }"

definition buddy_alloc_pages :: "nat \<Rightarrow> buddy \<Rightarrow> (nat option \<times> buddy) option" where
  "buddy_alloc_pages n b = do {
     kassert (n > 0);
     order \<leftarrow> getorder n;
     (page, b) \<leftarrow> buddy_alloc_pages_sub order b;
     (case page of
        None \<Rightarrow> Some (None, b)
      | Some p \<Rightarrow>
          if n \<noteq> 2 ^ order
          then do { b \<leftarrow> buddy_free_pages (p + n) (2 ^ order - n) b; Some (Some p, b) }
          else Some (Some p, b))
   }"

definition buddy_nr_free_pages :: "buddy \<Rightarrow> nat" where
  "buddy_nr_free_pages b = sum_list (map (\<lambda>order. nr_free b order * 2 ^ order) [0..<MAX_ORDER + 1])"

section \<open>Arithmetic of buddies\<close>

lemma xor_power2_aligned:
  fixes idx :: nat
  assumes "2 ^ k dvd idx"
  shows "idx XOR 2 ^ k = (if bit idx k then idx - 2 ^ k else idx + 2 ^ k)"
proof -
  from assms obtain q where q: "idx = 2 ^ k * q" by (elim dvdE)
  have "idx XOR 2 ^ k = push_bit k q XOR push_bit k 1"
    by (simp add: q push_bit_eq_mult mult.commute)
  then have x: "idx XOR 2 ^ k = push_bit k (q XOR 1)" by (simp only: push_bit_xor)
  have "bit idx k \<longleftrightarrow> odd q" by (simp add: q bit_iff_odd)
  moreover have "q XOR 1 = (if odd q then q - 1 else q + 1)"
    by (simp add: xor_Suc_0_eq)
  ultimately show ?thesis
    unfolding x by (simp add: push_bit_eq_mult q algebra_simps diff_mult_distrib)
qed

lemma and_buddy:
  fixes idx :: nat
  assumes "2 ^ k dvd idx"
  shows "idx AND (idx XOR 2 ^ k) = (if bit idx k then idx - 2 ^ k else idx)"
proof -
  from assms obtain q where q: "idx = 2 ^ k * q" by (elim dvdE)
  have b: "bit idx k \<longleftrightarrow> odd q" by (simp add: q bit_iff_odd)
  have "idx AND (idx XOR 2 ^ k) = push_bit k q AND (push_bit k q XOR push_bit k 1)"
    by (simp add: q push_bit_eq_mult mult.commute)
  then have "idx AND (idx XOR 2 ^ k) = push_bit k (q AND (q XOR 1))"
    by (simp only: push_bit_xor push_bit_and)
  also have "q AND (q XOR 1) = q - q mod 2"
  proof -
    have "bit (q AND (q XOR 1)) n \<longleftrightarrow> bit (2 * (q div 2)) n" for n
    proof -
      have "bit (q AND (q XOR 1)) n \<longleftrightarrow> bit q n \<and> (bit q n \<noteq> bit (1::nat) n)"
        by (simp only: bit_and_iff bit_xor_iff)
      then show ?thesis by (cases n) (simp_all add: bit_0 bit_Suc)
    qed
    then have "q AND (q XOR 1) = 2 * (q div 2)" by (simp add: bit_eq_iff)
    then show ?thesis by (simp add: minus_mod_eq_mult_div)
  qed
  finally show ?thesis
    unfolding b by (simp add: push_bit_eq_mult q algebra_simps diff_mult_distrib mod_2_eq_odd)
qed

lemma bit_power2_le: "bit (idx::nat) k \<Longrightarrow> 2 ^ k \<le> idx"
  by (rule ccontr) (simp add: bit_iff_odd)

lemma dvd_bit_sub:
  fixes idx :: nat
  assumes "2 ^ k dvd idx"
  shows "2 ^ Suc k dvd (if bit idx k then idx - 2 ^ k else idx)"
proof -
  from assms obtain q where q: "idx = 2 ^ k * q" by (elim dvdE)
  have b: "bit idx k \<longleftrightarrow> odd q" by (simp add: q bit_iff_odd)
  show ?thesis
  proof (cases "odd q")
    case True
    then obtain r where "q = 2 * r + 1" by (elim oddE)
    then have "idx - 2 ^ k = 2 ^ Suc k * r" by (simp add: q algebra_simps)
    with b True show ?thesis by (metis dvd_triv_left)
  next
    case False
    then have "even q" by simp
    then obtain r where "q = 2 * r" by (elim evenE)
    then have "idx = 2 ^ Suc k * r" by (simp add: q algebra_simps)
    with b False show ?thesis by (metis dvd_triv_left)
  qed
qed

lemma and_mask_zero_iff: "(idx::nat) AND (2 ^ k - 1) = 0 \<longleftrightarrow> 2 ^ k dvd idx"
proof -
  have "idx AND (2 ^ k - 1) = take_bit k idx"
    by (simp add: take_bit_eq_mask mask_eq_exp_minus_1)
  then show ?thesis by (simp add: take_bit_eq_mod dvd_eq_mod_eq_0)
qed

section \<open>Consistent allocator states\<close>

definition blk :: "nat \<Rightarrow> nat \<Rightarrow> nat set" where
  "blk p k = {p..<p + 2 ^ k}"

definition free_blocks :: "buddy \<Rightarrow> (nat \<times> nat) set" where
  "free_blocks b = {(k, p). k \<le> MAX_ORDER \<and> p \<in> set (free_list b k)}"

definition free_set :: "buddy \<Rightarrow> nat set" where
  "free_set b = (\<Union>(k, p) \<in> free_blocks b. blk p k)"

definition zone :: "(nat \<Rightarrow> nat) \<Rightarrow> buddy \<Rightarrow> nat \<Rightarrow> nat set" where
  "zone zl b z = {zones b z..<zones b z + zl z}"

definition managed :: "(nat \<Rightarrow> nat) \<Rightarrow> buddy \<Rightarrow> nat set" where
  "managed zl b = (\<Union>z < zone_cnt b. zone zl b z)"

text \<open>A block inside zone \<open>z\<close> whose index in the zone is a multiple of its size.\<close>

definition good_blk :: "(nat \<Rightarrow> nat) \<Rightarrow> buddy \<Rightarrow> nat \<Rightarrow> nat \<Rightarrow> nat \<Rightarrow> bool" where
  "good_blk zl b z p k \<longleftrightarrow> z < zone_cnt b \<and> blk p k \<subseteq> zone zl b z \<and> 2 ^ k dvd p - zones b z"

definition zones_ok :: "(nat \<Rightarrow> nat) \<Rightarrow> buddy \<Rightarrow> bool" where
  "zones_ok zl b \<longleftrightarrow>
     (\<forall>z < zone_cnt b. \<forall>p \<in> zone zl b z.
        p < npage b \<and> p_zone_num (pages b p) = z \<and> \<not> PageReserved (pages b p)) \<and>
     (\<forall>p < npage b. p \<notin> managed zl b \<longrightarrow> PageReserved (pages b p))"

definition lists_ok :: "(nat \<Rightarrow> nat) \<Rightarrow> buddy \<Rightarrow> bool" where
  "lists_ok zl b \<longleftrightarrow>
     (\<forall>k \<le> MAX_ORDER. distinct (free_list b k) \<and> nr_free b k = length (free_list b k)) \<and>
     (\<forall>(k, p) \<in> free_blocks b. PageProperty (pages b p) \<and> p_property (pages b p) = k \<and>
        (\<exists>z. good_blk zl b z p k)) \<and>
     (\<forall>(k, p) \<in> free_blocks b. \<forall>(k', p') \<in> free_blocks b.
        (k, p) \<noteq> (k', p') \<longrightarrow> blk p k \<inter> blk p' k' = {}) \<and>
     (\<forall>p \<in> managed zl b. PageProperty (pages b p) \<longrightarrow> (p_property (pages b p), p) \<in> free_blocks b)"

definition buddy_ok :: "(nat \<Rightarrow> nat) \<Rightarrow> buddy \<Rightarrow> bool" where
  "buddy_ok zl b \<longleftrightarrow> zones_ok zl b \<and> lists_ok zl b"

text \<open>What no operation after \<open>buddy_init_memmap\<close> changes.\<close>

definition same_zones :: "buddy \<Rightarrow> buddy \<Rightarrow> bool" where
  "same_zones b b' \<longleftrightarrow> zones b' = zones b \<and> zone_cnt b' = zone_cnt b \<and> npage b' = npage b \<and>
     (\<forall>p. p_zone_num (pages b' p) = p_zone_num (pages b p))"

lemma same_zones_refl [simp]: "same_zones b b"
  by (simp add: same_zones_def)

lemma same_zones_trans [trans]: "same_zones a b \<Longrightarrow> same_zones b c \<Longrightarrow> same_zones a c"
  by (simp add: same_zones_def)

lemma same_zones_zone: "same_zones b b' \<Longrightarrow> zone zl b' = zone zl b"
  by (simp add: same_zones_def zone_def fun_eq_iff)

lemma same_zones_managed: "same_zones b b' \<Longrightarrow> managed zl b' = managed zl b"
  using same_zones_zone[of b b' zl] by (simp add: same_zones_def managed_def)

lemma same_zones_good: "same_zones b b' \<Longrightarrow> good_blk zl b' z p k = good_blk zl b z p k"
  using same_zones_zone[of b b' zl] by (simp add: same_zones_def good_blk_def)

lemma same_zones_idx: "same_zones b b' \<Longrightarrow> page2idx p b' = page2idx p b"
  "same_zones b b' \<Longrightarrow> idx2page z i b' = idx2page z i b"
  by (simp_all add: same_zones_def page2idx_def idx2page_def)

lemma upd_page_fields [simp]:
  "free_list (upd_page p f b) = free_list b"
  "nr_free (upd_page p f b) = nr_free b"
  "zones (upd_page p f b) = zones b"
  "zone_cnt (upd_page p f b) = zone_cnt b"
  "npage (upd_page p f b) = npage b"
  "pages (upd_page p f b) = (pages b)(p := f (pages b p))"
  "free_blocks (upd_page p f b) = free_blocks b"
  "free_set (upd_page p f b) = free_set b"
  by (simp_all add: upd_page_def free_blocks_def free_set_def)

lemma add_block_fields [simp]:
  "free_list (add_block k p b) = (free_list b)(k := p # free_list b k)"
  "nr_free (add_block k p b) = (nr_free b)(k := nr_free b k + 1)"
  "zones (add_block k p b) = zones b"
  "zone_cnt (add_block k p b) = zone_cnt b"
  "npage (add_block k p b) = npage b"
  "pages (add_block k p b) = (pages b)(p := SetPageProperty ((pages b p)\<lparr>p_property := k\<rparr>))"
  by (simp_all add: add_block_def Let_def upd_page_def)

lemma unlink_block_fields [simp]:
  "free_list (unlink_block k p b) = (free_list b)(k := remove1 p (free_list b k))"
  "nr_free (unlink_block k p b) = (nr_free b)(k := nr_free b k - 1)"
  "zones (unlink_block k p b) = zones b"
  "zone_cnt (unlink_block k p b) = zone_cnt b"
  "npage (unlink_block k p b) = npage b"
  "pages (unlink_block k p b) = pages b"
  by (simp_all add: unlink_block_def)

lemma same_zones_add [simp]: "same_zones b (add_block k p b)"
  by (simp add: same_zones_def)

lemma same_zones_take [simp]: "same_zones b (upd_page p ClearPageProperty (unlink_block k p b))"
  by (simp add: same_zones_def)

lemma zones_ok_cong:
  assumes "zones_ok zl b" "same_zones b b'"
    and "\<And>p. PageReserved (pages b' p) = PageReserved (pages b p)"
  shows "zones_ok zl b'"
  using assms same_zones_zone[of b b' zl] same_zones_managed[of b b' zl]
  unfolding zones_ok_def same_zones_def by auto

lemma mem_blk [simp]: "p \<in> blk p k"
  by (simp add: blk_def)

lemma free_blocks_free_set: "(k, p) \<in> free_blocks b \<Longrightarrow> blk p k \<subseteq> free_set b"
  by (auto simp: free_set_def)

lemma free_head_managed:
  "lists_ok zl b \<Longrightarrow> (k, p) \<in> free_blocks b \<Longrightarrow> \<exists>z < zone_cnt b. p \<in> zone zl b z"
  unfolding lists_ok_def good_blk_def using mem_blk by fast

lemma free_set_managed:
  assumes "lists_ok zl b"
  shows "free_set b \<subseteq> managed zl b"
proof
  fix q assume "q \<in> free_set b"
  then obtain k p where kp: "(k, p) \<in> free_blocks b" "q \<in> blk p k"
    by (auto simp: free_set_def)
  with assms obtain z where "good_blk zl b z p k" unfolding lists_ok_def by fast
  with kp(2) show "q \<in> managed zl b" by (auto simp: good_blk_def managed_def)
qed

lemma not_free_no_property:
  assumes "buddy_ok zl b" "p \<in> managed zl b" "p \<notin> free_set b"
  shows "\<not> PageProperty (pages b p)"
  using assms free_blocks_free_set[of _ p b] mem_blk[of p]
  unfolding buddy_ok_def lists_ok_def by blast

section \<open>Adding and taking one block\<close>

lemma blk_nonempty: "blk p k \<noteq> {}"
  using mem_blk by blast

lemma free_blocks_add:
  "k \<le> MAX_ORDER \<Longrightarrow> free_blocks (add_block k p b) = insert (k, p) (free_blocks b)"
  by (auto simp: free_blocks_def split: if_splits)

lemma free_set_add:
  "k \<le> MAX_ORDER \<Longrightarrow> free_set (add_block k p b) = blk p k \<union> free_set b"
  by (simp add: free_set_def free_blocks_add)

lemma lists_ok_props:
  assumes "lists_ok zl b" "(k, p) \<in> free_blocks b"
  shows "k \<le> MAX_ORDER" "p \<in> set (free_list b k)" "PageProperty (pages b p)"
    "p_property (pages b p) = k" "\<exists>z. good_blk zl b z p k" "distinct (free_list b k)"
    "nr_free b k = length (free_list b k)"
proof -
  show k: "k \<le> MAX_ORDER" and "p \<in> set (free_list b k)" using assms(2) by (auto simp: free_blocks_def)
  show "distinct (free_list b k)" "nr_free b k = length (free_list b k)"
    using assms(1) k by (auto simp: lists_ok_def)
  show "PageProperty (pages b p)" "p_property (pages b p) = k" "\<exists>z. good_blk zl b z p k"
    using assms by (auto simp: lists_ok_def)
qed

lemma lists_ok_disjoint:
  "lists_ok zl b \<Longrightarrow> (k, p) \<in> free_blocks b \<Longrightarrow> (k', p') \<in> free_blocks b \<Longrightarrow>
   (k, p) \<noteq> (k', p') \<Longrightarrow> blk p k \<inter> blk p' k' = {}"
  unfolding lists_ok_def by fast

lemma lists_ok_head: "lists_ok zl b \<Longrightarrow> p \<in> managed zl b \<Longrightarrow> PageProperty (pages b p) \<Longrightarrow>
   (p_property (pages b p), p) \<in> free_blocks b"
  unfolding lists_ok_def by fast

lemma lists_okI:
  assumes "\<And>k. k \<le> MAX_ORDER \<Longrightarrow> distinct (free_list b k) \<and> nr_free b k = length (free_list b k)"
    and "\<And>k p. (k, p) \<in> free_blocks b \<Longrightarrow> PageProperty (pages b p) \<and> p_property (pages b p) = k"
    and "\<And>k p. (k, p) \<in> free_blocks b \<Longrightarrow> \<exists>z. good_blk zl b z p k"
    and "\<And>k p k' p'. (k, p) \<in> free_blocks b \<Longrightarrow> (k', p') \<in> free_blocks b \<Longrightarrow> (k, p) \<noteq> (k', p')
           \<Longrightarrow> blk p k \<inter> blk p' k' = {}"
    and "\<And>p. p \<in> managed zl b \<Longrightarrow> PageProperty (pages b p) \<Longrightarrow> (p_property (pages b p), p) \<in> free_blocks b"
  shows "lists_ok zl b"
  using assms unfolding lists_ok_def by blast

lemma add_block_ok:
  assumes ok: "buddy_ok zl b" and k: "k \<le> MAX_ORDER" and good: "good_blk zl b z p k"
    and dis: "blk p k \<inter> free_set b = {}"
  shows "buddy_ok zl (add_block k p b)"
proof -
  let ?b = "add_block k p b"
  have sz: "same_zones b ?b" by simp
  from ok have z: "zones_ok zl b" and l: "lists_ok zl b" by (auto simp: buddy_ok_def)
  have notin: "(j, p) \<notin> free_blocks b" for j
    using dis free_blocks_free_set[of j p b] mem_blk[of p k] mem_blk[of p j] by blast
  have fb: "free_blocks ?b = insert (k, p) (free_blocks b)" using k by (rule free_blocks_add)
  have old: "(j, q) \<in> free_blocks b \<Longrightarrow> blk p k \<inter> blk q j = {}" for j q
    using dis free_blocks_free_set[of j q b] by blast
  have "zones_ok zl ?b" by (rule zones_ok_cong[OF z sz]) simp
  moreover have "lists_ok zl ?b"
  proof (rule lists_okI)
    fix j assume "j \<le> MAX_ORDER"
    moreover have "p \<notin> set (free_list b k)" using notin[of k] k by (simp add: free_blocks_def)
    ultimately show "distinct (free_list ?b j) \<and> nr_free ?b j = length (free_list ?b j)"
      using l by (simp add: lists_ok_def)
  next
    fix j q assume "(j, q) \<in> free_blocks ?b"
    then have jq: "(j, q) = (k, p) \<or> (j, q) \<in> free_blocks b" using fb by blast
    moreover have "(j, q) \<in> free_blocks b \<Longrightarrow> q \<noteq> p" using notin[of j] by metis
    ultimately show "PageProperty (pages ?b q) \<and> p_property (pages ?b q) = j"
      using lists_ok_props(3,4)[OF l, of j q] by auto
    from jq show "\<exists>z. good_blk zl ?b z q j"
      using good lists_ok_props(5)[OF l, of j q] same_zones_good[OF sz] by auto
  next
    fix j q j' q' assume "(j, q) \<in> free_blocks ?b" "(j', q') \<in> free_blocks ?b" "(j, q) \<noteq> (j', q')"
    then have "(j, q) = (k, p) \<and> (j', q') \<in> free_blocks b
        \<or> (j', q') = (k, p) \<and> (j, q) \<in> free_blocks b
        \<or> (j, q) \<in> free_blocks b \<and> (j', q') \<in> free_blocks b"
      unfolding fb by auto
    then show "blk q j \<inter> blk q' j' = {}"
      using old[of j q] old[of j' q'] lists_ok_disjoint[OF l, of j q j' q'] \<open>(j, q) \<noteq> (j', q')\<close> by blast
  next
    fix q assume "q \<in> managed zl ?b" "PageProperty (pages ?b q)"
    then show "(p_property (pages ?b q), q) \<in> free_blocks ?b"
      using lists_ok_head[OF l, of q] same_zones_managed[OF sz] fb
      by (cases "q = p") auto
  qed
  ultimately show ?thesis by (simp add: buddy_ok_def)
qed

text \<open>\<open>take_block\<close> is unlinking a free block and clearing the flag of its first page.\<close>

definition take_block :: "nat \<Rightarrow> nat \<Rightarrow> buddy \<Rightarrow> buddy" where
  "take_block k p b = upd_page p ClearPageProperty (unlink_block k p b)"

lemma same_zones_take_block [simp]: "same_zones b (take_block k p b)"
  by (simp add: take_block_def)

lemma take_block_fields [simp]:
  "pages (take_block k p b) = (pages b)(p := ClearPageProperty (pages b p))"
  "free_list (take_block k p b) = (free_list b)(k := remove1 p (free_list b k))"
  "nr_free (take_block k p b) = (nr_free b)(k := nr_free b k - 1)"
  by (simp_all add: take_block_def)

lemma free_blocks_take:
  assumes "lists_ok zl b" "(k, p) \<in> free_blocks b"
  shows "free_blocks (take_block k p b) = free_blocks b - {(k, p)}"
  using lists_ok_props(6)[OF assms] by (auto simp: free_blocks_def split: if_splits)

lemma free_set_take:
  assumes "lists_ok zl b" "(k, p) \<in> free_blocks b"
  shows "free_set (take_block k p b) = free_set b - blk p k"
proof -
  have "(\<Union>(j, q) \<in> free_blocks b - {(k, p)}. blk q j) = (\<Union>(j, q) \<in> free_blocks b. blk q j) - blk p k"
    using lists_ok_disjoint[OF assms] assms(2) by fast
  then show ?thesis by (simp add: free_set_def free_blocks_take[OF assms])
qed

lemma take_block_ok:
  assumes ok: "buddy_ok zl b" and kp: "(k, p) \<in> free_blocks b"
  shows "buddy_ok zl (take_block k p b)"
proof -
  let ?b = "take_block k p b"
  have sz: "same_zones b ?b" by simp
  from ok have z: "zones_ok zl b" and l: "lists_ok zl b" by (auto simp: buddy_ok_def)
  have fb: "free_blocks ?b = free_blocks b - {(k, p)}" by (rule free_blocks_take[OF l kp])
  have only: "(j, p) \<in> free_blocks b \<Longrightarrow> j = k" for j
    using lists_ok_props(4)[OF l, of j p] lists_ok_props(4)[OF l kp] by simp
  have "zones_ok zl ?b" by (rule zones_ok_cong[OF z sz]) simp
  moreover have "lists_ok zl ?b"
  proof (rule lists_okI)
    fix j assume "j \<le> MAX_ORDER"
    then show "distinct (free_list ?b j) \<and> nr_free ?b j = length (free_list ?b j)"
      using l lists_ok_props(2)[OF l kp] by (simp add: lists_ok_def length_remove1)
  next
    fix j q assume "(j, q) \<in> free_blocks ?b"
    then have jq: "(j, q) \<in> free_blocks b" "(j, q) \<noteq> (k, p)" using fb by auto
    then have "q \<noteq> p" using only by auto
    with jq show "PageProperty (pages ?b q) \<and> p_property (pages ?b q) = j"
      using lists_ok_props(3,4)[OF l] by simp
    from jq show "\<exists>z. good_blk zl ?b z q j"
      using lists_ok_props(5)[OF l] same_zones_good[OF sz] by simp
  next
    fix j q j' q' assume "(j, q) \<in> free_blocks ?b" "(j', q') \<in> free_blocks ?b" "(j, q) \<noteq> (j', q')"
    then show "blk q j \<inter> blk q' j' = {}" using fb lists_ok_disjoint[OF l] by blast
  next
    fix q assume "q \<in> managed zl ?b" "PageProperty (pages ?b q)"
    moreover from this have "q \<noteq> p" by auto
    ultimately show "(p_property (pages ?b q), q) \<in> free_blocks ?b"
      using lists_ok_head[OF l, of q] same_zones_managed[OF sz] fb by auto
  qed
  ultimately show ?thesis by (simp add: buddy_ok_def)
qed

section \<open>Splitting and allocating\<close>

lemma blk_Suc: "blk p (Suc k) = blk p k \<union> blk (p + 2 ^ k) k"
  by (auto simp: blk_def)

lemma blk_halves: "blk p k \<inter> blk (p + 2 ^ k) k = {}"
  by (auto simp: blk_def)

lemma good_halves:
  assumes "good_blk zl b z p (Suc k)"
  shows "good_blk zl b z p k" "good_blk zl b z (p + 2 ^ k) k"
proof -
  from assms have z: "z < zone_cnt b" and s: "blk p k \<subseteq> zone zl b z" "blk (p + 2 ^ k) k \<subseteq> zone zl b z"
    and d: "2 ^ Suc k dvd p - zones b z"
    by (auto simp: good_blk_def blk_Suc)
  from d have d': "2 ^ k dvd p - zones b z" by (metis dvd_mult_right power_Suc)
  have "p \<in> zone zl b z" using s(1) mem_blk by blast
  then have "zones b z \<le> p" by (simp add: zone_def)
  then have "p + 2 ^ k - zones b z = (p - zones b z) + 2 ^ k" by simp
  with d' have "2 ^ k dvd p + 2 ^ k - zones b z" by simp
  with z s d' show "good_blk zl b z p k" "good_blk zl b z (p + 2 ^ k) k"
    by (auto simp: good_blk_def)
qed

lemma upd_add_commute:
  "q \<noteq> p \<Longrightarrow> upd_page p f (add_block k q b) = add_block k q (upd_page p f b)"
  by (simp add: upd_page_def add_block_def Let_def fun_upd_twist)

lemma split_upd_commute:
  "upd_page p f (split_block p order cur b) = split_block p order cur (upd_page p f b)"
  by (induction p order cur b rule: split_block.induct) (auto simp: upd_add_commute)

lemma split_block_ok:
  assumes "buddy_ok zl b" "good_blk zl b z p cur" "cur \<le> MAX_ORDER"
    "blk p cur \<inter> free_set b = {}" "order \<le> cur"
  shows "buddy_ok zl (split_block p order cur b) \<and> same_zones b (split_block p order cur b)
    \<and> good_blk zl b z p order
    \<and> free_set (split_block p order cur b) = free_set b \<union> (blk p cur - blk p order)"
  using assms
proof (induction cur arbitrary: b)
  case 0
  then show ?case by simp
next
  case (Suc c)
  show ?case
  proof (cases "order = Suc c")
    case True
    with Suc.prems show ?thesis by simp
  next
    case False
    then have oc: "order \<le> c" using Suc.prems by simp
    let ?b = "add_block c (p + 2 ^ c) b"
    have g: "good_blk zl b z p c" "good_blk zl b z (p + 2 ^ c) c"
      using good_halves[OF Suc.prems(2)] by simp_all
    have ok: "buddy_ok zl ?b"
      using Suc.prems g by (intro add_block_ok) (auto simp: blk_Suc)
    have fs: "free_set ?b = blk (p + 2 ^ c) c \<union> free_set b"
      using Suc.prems(3) by (intro free_set_add) simp
    have sz: "same_zones b ?b" by simp
    have "blk p order \<subseteq> blk p c" using oc by (simp add: blk_def)
    then have sub: "blk p order \<inter> blk (p + 2 ^ c) c = {}" using blk_halves[of p c] by blast
    have dis: "blk p c \<inter> free_set ?b = {}"
      using Suc.prems(4) blk_halves[of p c] unfolding fs blk_Suc by blast
    have "good_blk zl ?b z p c" using g same_zones_good[OF sz] by simp
    then have IH: "buddy_ok zl (split_block p order c ?b) \<and> same_zones ?b (split_block p order c ?b)
      \<and> good_blk zl ?b z p order
      \<and> free_set (split_block p order c ?b) = free_set ?b \<union> (blk p c - blk p order)"
      using Suc.prems(3) oc by (intro Suc.IH[OF ok _ _ dis]) simp_all
    have fin: "free_set ?b \<union> (blk p c - blk p order)
        = free_set b \<union> (blk p (Suc c) - blk p order)"
      using sub unfolding fs blk_Suc by blast
    show ?thesis
      using IH oc same_zones_trans[OF sz] same_zones_good[OF sz] fin by simp
  qed
qed

lemma find_upt_Some:
  "find P [i..<j] = Some k \<Longrightarrow> i \<le> k \<and> k < j \<and> P k"
  by (auto simp: find_Some_iff)

lemma find_upt_None: "find P [i..<j] = None \<Longrightarrow> i \<le> k \<Longrightarrow> k < j \<Longrightarrow> \<not> P k"
  by (auto simp: find_None_iff)

lemma alloc_sub_None:
  assumes "order \<le> MAX_ORDER" "\<And>k. order \<le> k \<Longrightarrow> k \<le> MAX_ORDER \<Longrightarrow> free_list b k = []"
  shows "buddy_alloc_pages_sub order b = Some (None, b)"
proof -
  have "find (\<lambda>cur. free_list b cur \<noteq> []) [order..<MAX_ORDER + 1] = None"
    using assms(2) by (auto simp: find_None_iff)
  with assms(1) show ?thesis by (simp add: buddy_alloc_pages_sub_def)
qed

lemma alloc_sub_Some:
  assumes ok: "buddy_ok zl b" and o: "order \<le> MAX_ORDER"
    and ne: "order \<le> k" "k \<le> MAX_ORDER" "free_list b k \<noteq> []"
  obtains p b' z where "buddy_alloc_pages_sub order b = Some (Some p, b')" "buddy_ok zl b'"
    "same_zones b b'" "good_blk zl b z p order" "blk p order \<subseteq> free_set b"
    "free_set b' = free_set b - blk p order"
proof -
  from ok have l: "lists_ok zl b" by (simp add: buddy_ok_def)
  from ne obtain cur where f: "find (\<lambda>cur. free_list b cur \<noteq> []) [order..<MAX_ORDER + 1] = Some cur"
    using find_upt_None[of "\<lambda>cur. free_list b cur \<noteq> []" order "MAX_ORDER + 1" k] by fastforce
  from find_upt_Some[OF f] have c: "order \<le> cur" "cur \<le> MAX_ORDER" "free_list b cur \<noteq> []" by auto
  let ?p = "hd (free_list b cur)"
  let ?t = "take_block cur ?p b"
  let ?b = "split_block ?p order cur ?t"
  have fb: "(cur, ?p) \<in> free_blocks b" using c by (simp add: free_blocks_def)
  obtain z where g: "good_blk zl b z ?p cur" using lists_ok_props(5)[OF l fb] by blast
  have ft: "free_set ?t = free_set b - blk ?p cur" by (rule free_set_take[OF l fb])
  have sub: "blk ?p cur \<subseteq> free_set b" using free_blocks_free_set[OF fb] .
  have osub: "blk ?p order \<subseteq> blk ?p cur" using c(1) by (simp add: blk_def)
  have "buddy_ok zl ?b \<and> same_zones ?t ?b \<and> good_blk zl ?t z ?p order
    \<and> free_set ?b = free_set ?t \<union> (blk ?p cur - blk ?p order)"
    using g ft c same_zones_good[of b ?t]
    by (intro split_block_ok take_block_ok[OF ok fb]) auto
  moreover have "free_set ?t \<union> (blk ?p cur - blk ?p order) = free_set b - blk ?p order"
    using sub osub unfolding ft by blast
  moreover have "buddy_alloc_pages_sub order b = Some (Some ?p, ?b)"
    using o f by (simp add: buddy_alloc_pages_sub_def Let_def split_upd_commute take_block_def)
  ultimately show ?thesis
    using that[of ?p ?b z] same_zones_trans[of b ?t ?b] same_zones_good[of b ?t] sub osub by auto
qed

section \<open>Merging and freeing\<close>

lemma page_is_buddy_block:
  assumes ok: "buddy_ok zl b" and z: "z < zone_cnt b" and pb: "page_is_buddy q k z b"
  shows "(k, q) \<in> free_blocks b" "good_blk zl b z q k"
proof -
  from ok have zo: "zones_ok zl b" and l: "lists_ok zl b" by (auto simp: buddy_ok_def)
  from pb have q: "q < npage b" "p_zone_num (pages b q) = z" "\<not> PageReserved (pages b q)"
    "PageProperty (pages b q)" "p_property (pages b q) = k"
    by (auto simp: page_is_buddy_def split: if_splits)
  then have "q \<in> managed zl b" using zo by (auto simp: zones_ok_def)
  then show kq: "(k, q) \<in> free_blocks b" using lists_ok_head[OF l, of q] q by simp
  obtain z' where g: "good_blk zl b z' q k" using lists_ok_props(5)[OF l kq] by blast
  then have "q \<in> zone zl b z'" "z' < zone_cnt b" using mem_blk[of q k] by (auto simp: good_blk_def)
  then have "p_zone_num (pages b q) = z'" using zo by (auto simp: zones_ok_def)
  with q g show "good_blk zl b z q k" by simp
qed

lemma merged_block:
  assumes g: "good_blk zl b z (zones b z + idx) k"
    and g': "good_blk zl b z (zones b z + (idx XOR 2 ^ k)) k"
  defines "m \<equiv> idx AND (idx XOR 2 ^ k)"
  shows "good_blk zl b z (zones b z + m) (Suc k)"
    and "blk (zones b z + m) (Suc k) = blk (zones b z + idx) k \<union> blk (zones b z + (idx XOR 2 ^ k)) k"
    and "blk (zones b z + idx) k \<inter> blk (zones b z + (idx XOR 2 ^ k)) k = {}"
proof -
  from g have d: "2 ^ k dvd idx" by (simp add: good_blk_def)
  have x: "idx XOR 2 ^ k = (if bit idx k then idx - 2 ^ k else idx + 2 ^ k)"
    by (rule xor_power2_aligned[OF d])
  have m: "m = (if bit idx k then idx - 2 ^ k else idx)" unfolding m_def by (rule and_buddy[OF d])
  have le: "bit idx k \<Longrightarrow> 2 ^ k \<le> idx" by (rule bit_power2_le)
  have cases: "(bit idx k \<and> idx = m + 2 ^ k \<and> idx XOR 2 ^ k = m)
      \<or> (\<not> bit idx k \<and> idx = m \<and> idx XOR 2 ^ k = m + 2 ^ k)"
    using x m le by auto
  then show u: "blk (zones b z + m) (Suc k) = blk (zones b z + idx) k \<union> blk (zones b z + (idx XOR 2 ^ k)) k"
    unfolding blk_Suc by (auto simp: add.assoc)
  from cases show "blk (zones b z + idx) k \<inter> blk (zones b z + (idx XOR 2 ^ k)) k = {}"
    using blk_halves[of "zones b z + m" k] by (auto simp: add.assoc Int_commute)
  have "2 ^ Suc k dvd m" unfolding m by (rule dvd_bit_sub[OF d])
  with g g' show "good_blk zl b z (zones b z + m) (Suc k)"
    unfolding good_blk_def u by simp
qed

text \<open>The loop invariant of the merge: the block under construction is well placed and
  disjoint from the free set, and the union of the two never changes.\<close>

lemma merge_buddies_ok:
  assumes "buddy_ok zl b" "good_blk zl b z (zones b z + idx) k" "k \<le> MAX_ORDER"
    "blk (zones b z + idx) k \<inter> free_set b = {}"
    "merge_buddies z idx k b = (idx', k', b')"
  shows "buddy_ok zl b' \<and> same_zones b b' \<and> good_blk zl b z (zones b z + idx') k' \<and> k' \<le> MAX_ORDER
    \<and> blk (zones b z + idx') k' \<inter> free_set b' = {}
    \<and> blk (zones b z + idx') k' \<union> free_set b' = blk (zones b z + idx) k \<union> free_set b
    \<and> (k' < MAX_ORDER \<longrightarrow> 
        \<not> ((k', zones b z + (idx' XOR 2 ^ k')) \<in> free_blocks b'
            \<and> p_zone_num (pages b' (zones b z + (idx' XOR 2 ^ k'))) = z))"
  using assms
proof (induction z idx k b rule: merge_buddies.induct)
  case (1 z idx k b)
  let ?i = "idx XOR 2 ^ k"
  let ?bd = "zones b z + ?i"
  let ?t = "take_block k ?bd b"
  have z: "z < zone_cnt b" using "1.prems"(2) by (simp add: good_blk_def)
  show ?case
  proof (cases "k < MAX_ORDER \<and> page_is_buddy ?bd k z b")
    case True
    note fb = page_is_buddy_block[OF "1.prems"(1) z True[THEN conjunct2]]
    from "1.prems"(1) have l: "lists_ok zl b" by (simp add: buddy_ok_def)
    note mb = merged_block[OF "1.prems"(2) fb(2)]
    have sz: "same_zones b ?t" by simp
    then have zt: "zones ?t = zones b" by (simp add: same_zones_def)
    have ft: "free_set ?t = free_set b - blk ?bd k" by (rule free_set_take[OF l fb(1)])
    have sub: "blk ?bd k \<subseteq> free_set b" by (rule free_blocks_free_set[OF fb(1)])
    have eq: "merge_buddies z (idx AND ?i) (k + 1) ?t = (idx', k', b')"
      using "1.prems"(5) True by (simp add: merge_buddies.simps[of z idx k b] Let_def idx2page_def take_block_def)
    have "buddy_ok zl b' \<and> same_zones ?t b' \<and> good_blk zl ?t z (zones ?t z + idx') k' \<and> k' \<le> MAX_ORDER
      \<and> blk (zones ?t z + idx') k' \<inter> free_set b' = {}
      \<and> blk (zones ?t z + idx') k' \<union> free_set b' = blk (zones ?t z + (idx AND ?i)) (k + 1) \<union> free_set ?t
      \<and> (k' < MAX_ORDER \<longrightarrow> \<not> ((k', zones ?t z + (idx' XOR 2 ^ k')) \<in> free_blocks b'
            \<and> p_zone_num (pages b' (zones ?t z + (idx' XOR 2 ^ k'))) = z))"
      using True eq mb "1.prems"(4) ft sz
      by (intro "1.IH"[OF _ refl refl, simplified idx2page_def take_block_def[symmetric]])
        (auto simp: take_block_ok[OF "1.prems"(1) fb(1)] zt same_zones_good[OF sz] idx2page_def)
    moreover have "blk (zones b z + (idx AND ?i)) (k + 1) \<union> free_set ?t = blk (zones b z + idx) k \<union> free_set b"
      using mb(2) sub unfolding ft by auto
    ultimately show ?thesis using same_zones_trans[OF sz] same_zones_good[OF sz] zt by simp
  next
    case False
    then have r: "idx' = idx" "k' = k" "b' = b"
      using "1.prems"(5) by (auto simp: merge_buddies.simps[of z idx k b] Let_def idx2page_def split: if_splits)
    have "\<not> ((k, ?bd) \<in> free_blocks b \<and> p_zone_num (pages b ?bd) = z)" if "k < MAX_ORDER"
    proof
      assume kb: "(k, ?bd) \<in> free_blocks b \<and> p_zone_num (pages b ?bd) = z"
      from "1.prems"(1) have zo: "zones_ok zl b" and l: "lists_ok zl b" by (auto simp: buddy_ok_def)
      obtain z' where g': "good_blk zl b z' ?bd k" using lists_ok_props(5)[OF l] kb by blast
      then have "z' < zone_cnt b" "?bd \<in> zone zl b z'" using mem_blk by (auto simp: good_blk_def)
      then have q: "?bd < npage b" "\<not> PageReserved (pages b ?bd)"
        using zo by (auto simp: zones_ok_def)
      show False
        using False that q kb lists_ok_props(3,4)[OF l, of k ?bd] by (auto simp: page_is_buddy_def)
    qed
    with "1.prems" r show ?thesis by auto
  qed
qed

lemma fold_upd_page:
  assumes "distinct xs"
  shows "fold (\<lambda>p. upd_page p f) xs b
     = b\<lparr>pages := (\<lambda>q. if q \<in> set xs then f (pages b q) else pages b q)\<rparr>"
  using assms
proof (induction xs arbitrary: b)
  case Nil
  then show ?case by simp
next
  case (Cons x xs)
  then show ?case by (auto simp: upd_page_def fun_eq_iff)
qed

lemma reset_pages_ok:
  assumes ok: "buddy_ok zl b" and S: "S \<subseteq> managed zl b" "S \<inter> free_set b = {}"
    and f: "\<And>p. p_zone_num (f p) = p_zone_num p" "\<And>p. \<not> PageProperty (f p)" "\<And>p. \<not> PageReserved (f p)"
  defines "b' \<equiv> b\<lparr>pages := (\<lambda>q. if q \<in> S then f (pages b q) else pages b q)\<rparr>"
  shows "buddy_ok zl b' \<and> same_zones b b' \<and> free_blocks b' = free_blocks b \<and> free_set b' = free_set b"
proof -
  from ok have z: "zones_ok zl b" and l: "lists_ok zl b" by (auto simp: buddy_ok_def)
  have sz: "same_zones b b'" using f(1) by (simp add: same_zones_def b'_def)
  have fb: "free_blocks b' = free_blocks b" by (simp add: free_blocks_def b'_def)
  have head: "p \<notin> S" if "(k, p) \<in> free_blocks b" for k p
    using S(2) free_blocks_free_set[OF that] mem_blk[of p k] by blast
  have "zones_ok zl b'"
    using z f(3) S(1) same_zones_zone[OF sz] same_zones_managed[OF sz] sz
    unfolding zones_ok_def same_zones_def by (auto simp: b'_def)
  moreover have "lists_ok zl b'"
  proof (rule lists_okI)
    fix k assume "k \<le> MAX_ORDER"
    then show "distinct (free_list b' k) \<and> nr_free b' k = length (free_list b' k)"
      using l by (simp add: lists_ok_def b'_def)
  next
    fix k p assume kp: "(k, p) \<in> free_blocks b'"
    then show "PageProperty (pages b' p) \<and> p_property (pages b' p) = k"
      using fb head[of k p] lists_ok_props(3,4)[OF l, of k p] by (simp add: b'_def)
    from kp show "\<exists>z. good_blk zl b' z p k"
      using fb lists_ok_props(5)[OF l] same_zones_good[OF sz] by simp
  next
    fix k p k' p' assume "(k, p) \<in> free_blocks b'" "(k', p') \<in> free_blocks b'" "(k, p) \<noteq> (k', p')"
    then show "blk p k \<inter> blk p' k' = {}" using fb lists_ok_disjoint[OF l] by blast
  next
    fix p assume "p \<in> managed zl b'" "PageProperty (pages b' p)"
    then show "(p_property (pages b' p), p) \<in> free_blocks b'"
      using f(2) fb lists_ok_head[OF l, of p] same_zones_managed[OF sz]
      by (auto simp: b'_def split: if_splits)
  qed
  ultimately show ?thesis using sz fb by (simp add: buddy_ok_def free_set_def)
qed

lemma good_blk_managed: "good_blk zl b z p k \<Longrightarrow> blk p k \<subseteq> managed zl b"
  by (auto simp: good_blk_def managed_def)

lemma good_blk_zone:
  assumes "zones_ok zl b" "good_blk zl b z p k"
  shows "p_zone_num (pages b p) = z" "zones b z \<le> p" "q \<in> blk p k \<Longrightarrow> \<not> PageReserved (pages b q)"
proof -
  have "p \<in> zone zl b z" and z: "z < zone_cnt b" using assms(2) mem_blk[of p k] by (auto simp: good_blk_def)
  then show "p_zone_num (pages b p) = z" "zones b z \<le> p"
    using assms(1) by (auto simp: zones_ok_def zone_def)
  show "q \<in> blk p k \<Longrightarrow> \<not> PageReserved (pages b q)"
    using assms z by (auto simp: zones_ok_def good_blk_def)
qed

lemma free_sub_ok:
  assumes ok: "buddy_ok zl b" and g: "good_blk zl b z p k" and k: "k \<le> MAX_ORDER"
    and dis: "blk p k \<inter> free_set b = {}"
  obtains b' where "buddy_free_pages_sub p k b = Some b'" "buddy_ok zl b'" "same_zones b b'"
    "free_set b' = free_set b \<union> blk p k"
proof -
  from ok have zo: "zones_ok zl b" by (simp add: buddy_ok_def)
  note gz = good_blk_zone[OF zo g]
  let ?f = "\<lambda>pg. set_page_ref 0 (pg\<lparr>p_flags := 0\<rparr>)"
  let ?c = "b\<lparr>pages := (\<lambda>q. if q \<in> blk p k then ?f (pages b q) else pages b q)\<rparr>"
  have idx: "page2idx p b = p - zones b z" using gz by (simp add: page2idx_def)
  have base: "zones b z + (p - zones b z) = p" using gz by simp
  have c: "buddy_ok zl ?c \<and> same_zones b ?c \<and> free_blocks ?c = free_blocks b \<and> free_set ?c = free_set b"
    by (rule reset_pages_ok[OF ok good_blk_managed[OF g] dis])
      (simp_all add: PageFlag_def)
  then have sz: "same_zones b ?c" by simp
  obtain idx' k' d where m: "merge_buddies z (p - zones b z) k ?c = (idx', k', d)"
    by (rule prod_cases3)
  have d: "buddy_ok zl d \<and> same_zones ?c d \<and> good_blk zl ?c z (zones ?c z + idx') k' \<and> k' \<le> MAX_ORDER
    \<and> blk (zones ?c z + idx') k' \<inter> free_set d = {}
    \<and> blk (zones ?c z + idx') k' \<union> free_set d = blk (zones ?c z + (p - zones b z)) k \<union> free_set ?c
    \<and> (k' < MAX_ORDER \<longrightarrow> \<not> ((k', zones ?c z + (idx' XOR 2 ^ k')) \<in> free_blocks d
        \<and> p_zone_num (pages d (zones ?c z + (idx' XOR 2 ^ k'))) = z))"
    using c g k dis base same_zones_good[OF sz]
    by (intro merge_buddies_ok[OF _ _ _ _ m]) simp_all
  let ?p = "zones b z + idx'"
  let ?e = "add_block k' ?p d"
  have szd: "same_zones b d" using same_zones_trans[OF sz] d by blast
  have "buddy_free_pages_sub p k b = Some ?e"
  proof -
    have "page2idx p b AND (2 ^ k - 1) = 0"
      using g idx and_mask_zero_iff[of "p - zones b z" k] by (simp add: good_blk_def)
    moreover have "\<forall>q \<in> set [p..<p + 2 ^ k]. \<not> PageReserved (pages b q) \<and> \<not> PageProperty (pages b q)"
      using gz(3) not_free_no_property[OF ok] good_blk_managed[OF g] dis
      by (auto simp: blk_def disjoint_iff subset_iff)
    moreover have "fold (\<lambda>p. upd_page p ?f) [p..<p + 2 ^ k] b = ?c"
      by (simp add: fold_upd_page blk_def)
    moreover have "p_zone_num (pages ?c p) = z" using gz(1) by simp
    moreover have "idx2page z idx' d = ?p" using szd by (simp add: idx2page_def same_zones_def)
    ultimately show ?thesis
      using m idx by (simp add: buddy_free_pages_sub_def Let_def)
  qed
  moreover have "buddy_ok zl ?e"
    using d same_zones_good[of ?c d] by (intro add_block_ok[of _ _ _ z]) auto
  moreover have "free_set ?e = free_set b \<union> blk p k"
    using d c base by (simp add: free_set_add Un_commute)
  moreover have "same_zones b ?e" using same_zones_trans[OF szd] by simp
  ultimately show ?thesis using that by blast
qed


section \<open>Freeing and allocating any number of pages\<close>

lemma page2idx_zone:
  assumes "zones_ok zl b" "z < zone_cnt b" "p \<in> zone zl b z"
  shows "page2idx p b = p - zones b z"
  using assms by (auto simp: zones_ok_def page2idx_def)

lemma and_power2_bit:
  "(m::nat) AND 2 ^ k = 0 \<longleftrightarrow> \<not> bit m k" "0 < (m::nat) AND 2 ^ k \<longleftrightarrow> bit m k"
  by (simp_all add: and_exp_eq_0_iff_not_bit flip: neq0_conv)

lemma good_blkI:
  "z < zone_cnt b \<Longrightarrow> {p..<p + n} \<subseteq> zone zl b z \<Longrightarrow> 2 ^ k \<le> n \<Longrightarrow> 2 ^ k dvd p - zones b z \<Longrightarrow> good_blk zl b z p k"
  by (auto simp: good_blk_def blk_def)

text \<open>What freeing a prefix \<open>{base..<base'}\<close> of a range leaves to do.\<close>

definition freed_prefix :: "(nat \<Rightarrow> nat) \<Rightarrow> buddy \<Rightarrow> nat \<Rightarrow> nat \<Rightarrow> buddy \<Rightarrow> bool" where
  "freed_prefix zl b base base' b' \<longleftrightarrow> buddy_ok zl b' \<and> same_zones b b' \<and> base \<le> base' \<and>
     free_set b' = free_set b \<union> {base..<base'}"

lemma freed_prefix_refl: "buddy_ok zl b \<Longrightarrow> freed_prefix zl b base base b"
  by (simp add: freed_prefix_def)

lemma freed_prefix_trans:
  "freed_prefix zl b p q c \<Longrightarrow> freed_prefix zl c q r d \<Longrightarrow> freed_prefix zl b p r d"
  using same_zones_trans[of b c d] by (auto simp: freed_prefix_def)

lemma free_step:
  assumes ok: "buddy_ok zl b" and z: "z < zone_cnt b" and s: "{base..<base + n} \<subseteq> zone zl b z"
    and n: "2 ^ k \<le> n" "2 ^ k dvd base - zones b z" "k \<le> MAX_ORDER"
    and dis: "{base..<base + n} \<inter> free_set b = {}"
  obtains b' where "buddy_free_pages_sub base k b = Some b'"
    "freed_prefix zl b base (base + 2 ^ k) b'" "z < zone_cnt b'" "zones b' z = zones b z"
    "{base + 2 ^ k..<(base + 2 ^ k) + (n - 2 ^ k)} \<subseteq> zone zl b' z"
    "{base + 2 ^ k..<(base + 2 ^ k) + (n - 2 ^ k)} \<inter> free_set b' = {}"
proof -
  have g: "good_blk zl b z base k" using z s n(1,2) by (rule good_blkI)
  have "blk base k \<inter> free_set b = {}" using dis n(1) by (auto simp: blk_def disjoint_iff)
  then obtain b' where b': "buddy_free_pages_sub base k b = Some b'" "buddy_ok zl b'" "same_zones b b'"
      "free_set b' = free_set b \<union> blk base k"
    using free_sub_ok[OF ok g n(3)] by blast
  have "{base + 2 ^ k..<(base + 2 ^ k) + (n - 2 ^ k)} \<subseteq> {base..<base + n}" using n(1) by auto
  moreover have "{base + 2 ^ k..<(base + 2 ^ k) + (n - 2 ^ k)} \<inter> blk base k = {}" by (auto simp: blk_def)
  ultimately have "{base + 2 ^ k..<(base + 2 ^ k) + (n - 2 ^ k)} \<subseteq> zone zl b' z"
    "{base + 2 ^ k..<(base + 2 ^ k) + (n - 2 ^ k)} \<inter> free_set b' = {}"
    using s dis same_zones_zone[OF b'(3)] b'(4) by (auto simp: disjoint_iff)
  then show ?thesis
    using that[OF b'(1)] b' z by (simp add: freed_prefix_def blk_def same_zones_def)
qed

lemma free_grow_ok:
  assumes "buddy_ok zl b" "z < zone_cnt b" "{base..<base + n} \<subseteq> zone zl b z" "zones b z \<le> base"
    "2 ^ order dvd base - zones b z" "{base..<base + n} \<inter> free_set b = {}" "n < 2 ^ (MAX_ORDER + 1)"
  shows "\<exists>base' n' order' b'. free_grow base n order b = Some (base', n', order', b')
    \<and> n' < 2 ^ order' \<and> 2 ^ order' dvd base' - zones b z \<and> base' + n' = base + n
    \<and> freed_prefix zl b base base' b'"
  using assms
proof (induction base n order b rule: free_grow.induct)
  case (1 base n order b)
  note prems = "1.prems"
  let ?idx = "base - zones b z"
  show ?case
  proof (cases "2 ^ order \<le> n")
    case False
    with prems freed_prefix_refl[OF prems(1)] show ?thesis
      by (simp add: free_grow.simps[of base n order b])
  next
    case True
    have k: "order \<le> MAX_ORDER"
    proof (rule ccontr)
      assume "\<not> order \<le> MAX_ORDER"
      then have "2 ^ (MAX_ORDER + 1) \<le> (2::nat) ^ order" by (intro power_increasing) auto
      with True prems(7) show False by simp
    qed
    from prems(1) have zo: "zones_ok zl b" by (simp add: buddy_ok_def)
    have "0 < n" using True zero_less_power[of "2::nat" order] by linarith
    then have "base \<in> {base..<base + n}" by simp
    with prems(3) have "base \<in> zone zl b z" by blast
    then have idx: "page2idx base b = ?idx" by (rule page2idx_zone[OF zo prems(2)])
    have d: "2 ^ Suc order dvd (if bit ?idx order then ?idx - 2 ^ order else ?idx)"
      by (rule dvd_bit_sub[OF prems(5)])
    show ?thesis
    proof (cases "bit ?idx order")
      case bit: True
      obtain b' where b': "buddy_free_pages_sub base order b = Some b'"
          "freed_prefix zl b base (base + 2 ^ order) b'" "z < zone_cnt b'" "zones b' z = zones b z"
          "{base + 2 ^ order..<(base + 2 ^ order) + (n - 2 ^ order)} \<subseteq> zone zl b' z"
          "{base + 2 ^ order..<(base + 2 ^ order) + (n - 2 ^ order)} \<inter> free_set b' = {}"
        by (rule free_step[OF prems(1-3) True prems(5) k prems(6)])
      have "base + 2 ^ order - zones b z = (?idx - 2 ^ order) + 2 ^ Suc order"
        using prems(4) bit_power2_le[OF bit] by simp
      then have "2 ^ (order + 1) dvd base + 2 ^ order - zones b' z"
        using d bit b'(4) by (simp add: dvd_add)
      then have "\<exists>base' n' order' c. free_grow (base + 2 ^ order) (n - 2 ^ order) (order + 1) b'
          = Some (base', n', order', c) \<and> n' < 2 ^ order' \<and> 2 ^ order' dvd base' - zones b' z
          \<and> base' + n' = base + 2 ^ order + (n - 2 ^ order) \<and> freed_prefix zl b' (base + 2 ^ order) base' c"
        using prems b' True k idx bit
        by (intro "1.IH"(1)) (auto simp: and_power2_bit freed_prefix_def)
      with b' True k idx bit freed_prefix_trans[OF b'(2)] show ?thesis
        by (fastforce simp: free_grow.simps[of base n order b] and_power2_bit)
    next
      case bit: False
      then have "2 ^ (order + 1) dvd ?idx" using d by simp
      with prems True k idx bit
      have "\<exists>base' n' order' b'. free_grow base n (order + 1) b = Some (base', n', order', b')
          \<and> n' < 2 ^ order' \<and> 2 ^ order' dvd base' - zones b z \<and> base' + n' = base + n
          \<and> freed_prefix zl b base base' b'"
        by (intro "1.IH"(2)) (auto simp: and_power2_bit)
      with True k idx bit show ?thesis by (simp add: free_grow.simps[of base n order b] and_power2_bit)
    qed
  qed
qed

lemma free_shrink_ok:
  assumes "buddy_ok zl b" "z < zone_cnt b" "{base..<base + n} \<subseteq> zone zl b z" "zones b z \<le> base"
    "2 ^ order dvd base - zones b z" "{base..<base + n} \<inter> free_set b = {}" "n < 2 ^ (MAX_ORDER + 1)"
  shows "\<exists>b'. free_shrink base n order b = Some b' \<and> freed_prefix zl b base (base + n) b'"
  using assms
proof (induction base n order b rule: free_shrink.induct)
  case (1 base n order b)
  note prems = "1.prems"
  consider "n = 0" | "n \<noteq> 0" "n < 2 ^ order" | "n \<noteq> 0" "2 ^ order \<le> n" by linarith
  then show ?case
  proof cases
    case 1
    with freed_prefix_refl[OF prems(1)] show ?thesis by (auto simp: free_shrink.simps[of base 0 order b])
  next
    case 2
    have "2 ^ (order - 1) dvd base - zones b z"
      using prems(5) by (meson diff_le_self le_imp_power_dvd dvd_trans)
    with 2 prems show ?thesis
      using "1.IH"(1) by (simp add: free_shrink.simps[of base n order b])
  next
    case 3
    have k: "order \<le> MAX_ORDER"
    proof (rule ccontr)
      assume "\<not> order \<le> MAX_ORDER"
      then have "2 ^ (MAX_ORDER + 1) \<le> (2::nat) ^ order" by (intro power_increasing) auto
      with 3 prems(7) show False by simp
    qed
    obtain b' where b': "buddy_free_pages_sub base order b = Some b'"
        "freed_prefix zl b base (base + 2 ^ order) b'" "z < zone_cnt b'" "zones b' z = zones b z"
        "{base + 2 ^ order..<(base + 2 ^ order) + (n - 2 ^ order)} \<subseteq> zone zl b' z"
        "{base + 2 ^ order..<(base + 2 ^ order) + (n - 2 ^ order)} \<inter> free_set b' = {}"
      by (rule free_step[OF prems(1-3) 3(2) prems(5) k prems(6)])
    have "2 ^ order dvd (base - zones b z) + 2 ^ order" using prems(5) by simp
    then have d: "2 ^ order dvd base + 2 ^ order - zones b' z" using prems(4) b'(4) by simp
    have "\<exists>c. free_shrink (base + 2 ^ order) (n - 2 ^ order) order b' = Some c
        \<and> freed_prefix zl b' (base + 2 ^ order) (base + 2 ^ order + (n - 2 ^ order)) c"
      using 3 prems b' d
      by (intro "1.IH"(2)) (auto simp: freed_prefix_def)
    with b' 3 freed_prefix_trans[OF b'(2)] show ?thesis
      by (fastforce simp: free_shrink.simps[of base n order b])
  qed
qed

text \<open>A range of pages that can be handed back: inside one zone, none of it free.\<close>

definition in_zone :: "(nat \<Rightarrow> nat) \<Rightarrow> buddy \<Rightarrow> nat \<Rightarrow> nat \<Rightarrow> bool" where
  "in_zone zl b base n \<longleftrightarrow> (\<exists>z < zone_cnt b. {base..<base + n} \<subseteq> zone zl b z)"

definition in_use :: "(nat \<Rightarrow> nat) \<Rightarrow> buddy \<Rightarrow> nat \<Rightarrow> nat \<Rightarrow> bool" where
  "in_use zl b base n \<longleftrightarrow> in_zone zl b base n \<and> {base..<base + n} \<inter> free_set b = {}"

lemma free_pages_ok:
  assumes ok: "buddy_ok zl b" and use: "in_use zl b base n" and n: "0 < n" "n < 2 ^ (MAX_ORDER + 1)"
  shows "\<exists>b'. buddy_free_pages base n b = Some b' \<and> freed_prefix zl b base (base + n) b'"
proof -
  from use obtain z where z: "z < zone_cnt b" and s: "{base..<base + n} \<subseteq> zone zl b z"
    and dis: "{base..<base + n} \<inter> free_set b = {}" by (auto simp: in_use_def in_zone_def)
  have "base \<in> zone zl b z" using s n(1) by (auto simp: subset_iff)
  then have le: "zones b z \<le> base" by (simp add: zone_def)
  show ?thesis
  proof (cases "n = 1")
    case True
    obtain b' where "buddy_free_pages_sub base 0 b = Some b'" "freed_prefix zl b base (base + 2 ^ 0) b'"
      by (rule free_step[OF ok z s, of 0]) (use True dis in auto)
    with True show ?thesis by (simp add: buddy_free_pages_def)
  next
    case False
    obtain base' n' order' b' where g: "free_grow base n 0 b = Some (base', n', order', b')"
        "n' < 2 ^ order'" "2 ^ order' dvd base' - zones b z" "base' + n' = base + n"
        "freed_prefix zl b base base' b'"
      using free_grow_ok[OF ok z s le, of 0] dis n(2) by auto
    from g(5) have f: "buddy_ok zl b'" "same_zones b b'" "base \<le> base'"
      "free_set b' = free_set b \<union> {base..<base'}" by (auto simp: freed_prefix_def)
    have "{base'..<base' + n'} \<subseteq> zone zl b' z"
      using s f(3) g(4) same_zones_zone[OF f(2), of zl] by auto
    moreover have "{base'..<base' + n'} \<inter> free_set b' = {}"
      using dis f(3,4) g(4) by (auto simp: disjoint_iff)
    moreover have "2 ^ order' dvd base' - zones b' z" "z < zone_cnt b'" "zones b' z \<le> base'"
      using f(2,3) g(3) z le by (auto simp: same_zones_def)
    moreover have "n' < 2 ^ (MAX_ORDER + 1)" using g(4) f(3) n(2) by simp
    ultimately obtain c where "free_shrink base' n' order' b' = Some c"
        "freed_prefix zl b' base' (base' + n') c"
      using free_shrink_ok[OF f(1)] by blast
    with g False n(1) freed_prefix_trans[OF g(5)] show ?thesis
      by (auto simp: buddy_free_pages_def)
  qed
qed


lemma getorder_Some: "getorder n = Some k \<Longrightarrow> k \<le> MAX_ORDER \<and> n \<le> 2 ^ k"
  unfolding getorder_def using find_upt_Some[of "\<lambda>order. n \<le> 2 ^ order" 0 "MAX_ORDER + 1" k] by simp

lemma getorder_total: "n \<le> 2 ^ MAX_ORDER \<Longrightarrow> \<exists>k. getorder n = Some k"
  using find_upt_None[of "\<lambda>order. n \<le> 2 ^ order" 0 "MAX_ORDER + 1" MAX_ORDER]
  unfolding getorder_def by (cases "find (\<lambda>order. n \<le> 2 ^ order) [0..<MAX_ORDER + 1]") simp_all

lemma getorder_least:
  assumes "getorder n = Some k" "j < k"
  shows "2 ^ j < n"
proof -
  from assms(1) obtain i where i: "i < MAX_ORDER + 1" "k = [0..<MAX_ORDER + 1] ! i"
    "\<forall>l < i. \<not> n \<le> 2 ^ ([0..<MAX_ORDER + 1] ! l)"
    unfolding getorder_def find_Some_iff by auto
  then have "k = i" by (simp add: nth_upt del: upt_Suc)
  then have "\<not> n \<le> 2 ^ ([0..<MAX_ORDER + 1] ! j)" using i(3)[rule_format, of j] assms(2) by simp
  moreover have "[0..<MAX_ORDER + 1] ! j = j" using assms(2) \<open>k = i\<close> i(1) by (simp add: nth_upt del: upt_Suc)
  ultimately show ?thesis by simp
qed

lemma buddy_alloc_result:
  assumes ok: "buddy_ok zl b" and n: "0 < n" "n \<le> 2 ^ MAX_ORDER" and k: "getorder n = Some k"
  shows "if \<forall>j. k \<le> j \<and> j \<le> MAX_ORDER \<longrightarrow> free_list b j = []
    then buddy_alloc_pages n b = Some (None, b)
    else \<exists>p b' z. buddy_alloc_pages n b = Some (Some p, b') \<and> buddy_ok zl b' \<and> same_zones b b'
      \<and> good_blk zl b z p k \<and> {p..<p + n} \<subseteq> free_set b \<and> free_set b' = free_set b - {p..<p + n}"
proof (cases "\<forall>j. k \<le> j \<and> j \<le> MAX_ORDER \<longrightarrow> free_list b j = []")
  case True
  then have "buddy_alloc_pages_sub k b = Some (None, b)"
    using getorder_Some[OF k] by (intro alloc_sub_None) auto
  with True n(1) k show ?thesis by (simp add: buddy_alloc_pages_def)
next
  case False
  then obtain j where j: "k \<le> j" "j \<le> MAX_ORDER" "free_list b j \<noteq> []" by blast
  note ko = getorder_Some[OF k]
  obtain p c z where c: "buddy_alloc_pages_sub k b = Some (Some p, c)" "buddy_ok zl c"
    "same_zones b c" "good_blk zl b z p k" "blk p k \<subseteq> free_set b" "free_set c = free_set b - blk p k"
    using alloc_sub_Some[OF ok _ j] ko by blast
  have sub: "{p..<p + n} \<subseteq> blk p k" using ko by (auto simp: blk_def)
  show ?thesis
  proof (cases "n = 2 ^ k")
    case True
    then have "blk p k = {p..<p + n}" by (simp add: blk_def)
    with c True k n(1) False show ?thesis by (auto simp: buddy_alloc_pages_def)
  next
    case ne: False
    have split: "p + n + (2 ^ k - n) = p + 2 ^ k" using ko by simp
    have "{p + n..<p + 2 ^ k} \<subseteq> zone zl c z" "z < zone_cnt c"
      using c(3,4) same_zones_zone[OF c(3), of zl] by (auto simp: good_blk_def blk_def same_zones_def)
    then have use: "in_use zl c (p + n) (2 ^ k - n)"
      unfolding in_use_def in_zone_def split using c(6) by (auto simp: blk_def)
    have lt: "2 ^ k - n < (2::nat) ^ (MAX_ORDER + 1)"
    proof -
      have "(2::nat) ^ k \<le> 2 ^ MAX_ORDER" using ko by (intro power_increasing) auto
      then show ?thesis by simp
    qed
    have "0 < 2 ^ k - n" using ko ne by simp
    with free_pages_ok[OF c(2) use _ lt] obtain b' where
      b': "buddy_free_pages (p + n) (2 ^ k - n) c = Some b'" "freed_prefix zl c (p + n) (p + 2 ^ k) b'"
      unfolding split by blast
    have "free_set b' = free_set b - {p..<p + n}"
      using b'(2) c(5,6) ko by (auto simp: freed_prefix_def blk_def)
    moreover have "{p..<p + n} \<subseteq> free_set b" using sub c(5) by blast
    ultimately show ?thesis
      using False c b' n(1) k ne same_zones_trans[OF c(3)]
      by (auto simp: buddy_alloc_pages_def freed_prefix_def)
  qed
qed

section \<open>Counting\<close>

lemma free_blocks_Sigma: "free_blocks b = Sigma {..MAX_ORDER} (\<lambda>k. set (free_list b k))"
  by (auto simp: free_blocks_def)

lemma finite_free_set [simp]: "finite (free_set b)"
  by (simp add: free_set_def free_blocks_Sigma blk_def split_beta)

lemma nr_free_pages_card:
  assumes "lists_ok zl b"
  shows "buddy_nr_free_pages b = card (free_set b)"
proof -
  have "card (free_set b) = (\<Sum>(k, p) \<in> free_blocks b. card (blk p k))"
    unfolding free_set_def split_beta
  proof (rule card_UN_disjoint)
    show "finite (free_blocks b)" by (simp add: free_blocks_Sigma)
  next
    show "\<forall>i \<in> free_blocks b. finite (blk (snd i) (fst i))" by (simp add: blk_def)
  next
    show "\<forall>i \<in> free_blocks b. \<forall>j \<in> free_blocks b. i \<noteq> j \<longrightarrow>
        blk (snd i) (fst i) \<inter> blk (snd j) (fst j) = {}"
      using lists_ok_disjoint[OF assms] by fastforce
  qed
  also have "\<dots> = (\<Sum>k \<le> MAX_ORDER. \<Sum>p \<in> set (free_list b k). card (blk p k))"
    unfolding free_blocks_Sigma by (rule sum.Sigma[symmetric]) simp_all
  also have "\<dots> = (\<Sum>k \<le> MAX_ORDER. nr_free b k * 2 ^ k)"
    using assms by (intro sum.cong) (auto simp: lists_ok_def blk_def distinct_card)
  also have "\<dots> = buddy_nr_free_pages b"
    by (simp add: buddy_nr_free_pages_def interv_sum_list_conv_sum_set_nat lessThan_Suc_atMost
        del: upt_Suc flip: lessThan_Suc_atMost atLeast0LessThan)
  finally show ?thesis by simp
qed

section \<open>Initialisation\<close>

lemma init_blocks_ok:
  assumes "buddy_ok zl b" "z < zone_cnt b" "{p..<p + n} \<subseteq> zone zl b z" "zones b z \<le> p"
    "2 ^ order dvd p - zones b z" "{p..<p + n} \<inter> free_set b = {}" "order \<le> MAX_ORDER"
  shows "freed_prefix zl b p (p + n) (init_blocks order p n b)"
  using assms
proof (induction order p n b rule: init_blocks.induct)
  case (1 order p n b)
  note prems = "1.prems"
  consider "n = 0" | "n \<noteq> 0" "n < 2 ^ order" | "n \<noteq> 0" "2 ^ order \<le> n" by linarith
  then show ?case
  proof cases
    case 1
    with freed_prefix_refl[OF prems(1)] show ?thesis by (auto simp: init_blocks.simps[of order p 0 b])
  next
    case 2
    have "2 ^ (order - 1) dvd p - zones b z"
      using prems(5) by (meson diff_le_self le_imp_power_dvd dvd_trans)
    with 2 prems show ?thesis
      using "1.IH"(2) by (simp add: init_blocks.simps[of order p n b])
  next
    case 3
    let ?b = "add_block order p b"
    have g: "good_blk zl b z p order" by (rule good_blkI[OF prems(2,3) 3(2) prems(5)])
    have dis: "blk p order \<inter> free_set b = {}" using prems(6) 3(2) by (auto simp: blk_def disjoint_iff)
    have fs: "free_set ?b = blk p order \<union> free_set b" by (rule free_set_add[OF prems(7)])
    have f: "freed_prefix zl b p (p + 2 ^ order) ?b"
      using add_block_ok[OF prems(1,7) g dis] fs by (auto simp: freed_prefix_def blk_def)
    have "freed_prefix zl ?b (p + 2 ^ order) (p + 2 ^ order + (n - 2 ^ order))
        (init_blocks order (p + 2 ^ order) (n - 2 ^ order) ?b)"
    proof (rule "1.IH"(1)[OF 3])
      show "buddy_ok zl ?b" using f by (simp add: freed_prefix_def)
      show "z < zone_cnt ?b" "zones ?b z \<le> p + 2 ^ order" "order \<le> MAX_ORDER" using prems by simp_all
      have "{p + 2 ^ order..<p + 2 ^ order + (n - 2 ^ order)} \<subseteq> {p..<p + n}" using 3 by auto
      then show "{p + 2 ^ order..<p + 2 ^ order + (n - 2 ^ order)} \<subseteq> zone zl ?b z"
        "{p + 2 ^ order..<p + 2 ^ order + (n - 2 ^ order)} \<inter> free_set ?b = {}"
        using prems(3,6) same_zones_zone[of b ?b zl] unfolding fs by (auto simp: blk_def disjoint_iff)
      have "2 ^ order dvd (p - zones b z) + 2 ^ order" using prems(5) by simp
      then show "2 ^ order dvd p + 2 ^ order - zones ?b z" using prems(4) by simp
    qed
    with 3 freed_prefix_trans[OF f] show ?thesis by (simp add: init_blocks.simps[of order p n b])
  qed
qed

text \<open>The state \<open>page_init\<close> leaves before \<open>buddy_init\<close>: no zone, every page reserved.\<close>

definition buddy_boot :: "buddy \<Rightarrow> bool" where
  "buddy_boot b \<longleftrightarrow> zone_cnt b = 0 \<and> (\<forall>p < npage b. PageReserved (pages b p))"

lemma buddy_init_fields:
  "k \<le> MAX_ORDER \<Longrightarrow> free_list (buddy_init b) k = [] \<and> nr_free (buddy_init b) k = 0"
  "zone_cnt (buddy_init b) = zone_cnt b" "npage (buddy_init b) = npage b"
  "pages (buddy_init b) = pages b"
  by (auto simp: buddy_init_def upt_rec numeral_2_eq_2 le_Suc_eq eval_nat_numeral)

lemma buddy_init_ok: "buddy_boot b \<Longrightarrow> buddy_ok zl (buddy_init b) \<and> free_set (buddy_init b) = {}"
  by (auto simp: buddy_ok_def zones_ok_def lists_ok_def buddy_boot_def managed_def free_blocks_def
      free_set_def buddy_init_fields)

lemma new_zone_ok:
  assumes ok: "buddy_ok zl b"
    and n: "0 < n" "base + n \<le> npage b"
    and res: "\<forall>p \<in> {base..<base + n}. PageReserved (pages b p)"
    and f: "\<And>p. p_zone_num (f p) = zone_cnt b" "\<And>p. \<not> PageProperty (f p)" "\<And>p. \<not> PageReserved (f p)"
  defines "c \<equiv> b\<lparr>pages := (\<lambda>q. if q \<in> {base..<base + n} then f (pages b q) else pages b q),
    zones := (zones b)(zone_cnt b := base), zone_cnt := zone_cnt b + 1\<rparr>"
  shows "buddy_ok (zl(zone_cnt b := n)) c \<and> free_set c = free_set b \<and> {base..<base + n} \<inter> free_set b = {}"
proof -
  let ?zl = "zl(zone_cnt b := n)"
  from ok have z: "zones_ok zl b" and l: "lists_ok zl b" by (auto simp: buddy_ok_def)
  have zo: "zone ?zl c y = (if y = zone_cnt b then {base..<base + n} else zone zl b y)" for y
    by (simp add: zone_def c_def)
  have ma: "managed ?zl c = {base..<base + n} \<union> managed zl b"
    unfolding managed_def zo by (auto simp: c_def less_Suc_eq)
  have new: "{base..<base + n} \<inter> managed zl b = {}"
    using z res unfolding zones_ok_def managed_def by auto
  have fb: "free_blocks c = free_blocks b" by (simp add: free_blocks_def c_def)
  have old: "p \<in> managed zl b \<Longrightarrow> pages c p = pages b p" for p
    using new by (auto simp: c_def)
  have good: "good_blk zl b y p k \<Longrightarrow> good_blk ?zl c y p k" for y p k
    unfolding good_blk_def zo by (auto simp: c_def)
  have "zones_ok ?zl c"
    unfolding zones_ok_def
  proof (intro conjI allI impI ballI)
    fix y p assume y: "y < zone_cnt c" and p: "p \<in> zone ?zl c y"
    show "p < npage c" "p_zone_num (pages c p) = y" "\<not> PageReserved (pages c p)"
    proof -
      have "p < npage c \<and> p_zone_num (pages c p) = y \<and> \<not> PageReserved (pages c p)"
      proof (cases "y = zone_cnt b")
        case True
        with p zo[of y] n f show ?thesis by (simp add: c_def)
      next
        case False
        with y p zo[of y] have "y < zone_cnt b" "p \<in> zone zl b y" by (auto simp: c_def)
        moreover from this have "p \<in> managed zl b" by (auto simp: managed_def)
        ultimately show ?thesis using z old[of p] by (auto simp: zones_ok_def c_def)
      qed
      then show "p < npage c" "p_zone_num (pages c p) = y" "\<not> PageReserved (pages c p)" by auto
    qed
  next
    fix p assume "p < npage c" "p \<notin> managed ?zl c"
    then show "PageReserved (pages c p)" using z ma by (auto simp: zones_ok_def c_def)
  qed
  moreover have "lists_ok ?zl c"
  proof (rule lists_okI)
    fix k assume "k \<le> MAX_ORDER"
    then show "distinct (free_list c k) \<and> nr_free c k = length (free_list c k)"
      using l by (simp add: lists_ok_def c_def)
  next
    fix k p assume kp: "(k, p) \<in> free_blocks c"
    then have kb: "(k, p) \<in> free_blocks b" using fb by simp
    obtain y where g: "good_blk zl b y p k" using lists_ok_props(5)[OF l kb] by blast
    then show "\<exists>z. good_blk ?zl c z p k" using good by blast
    have "p \<in> managed zl b" using good_blk_managed[OF g] mem_blk by blast
    then show "PageProperty (pages c p) \<and> p_property (pages c p) = k"
      using lists_ok_props(3,4)[OF l kb] old by simp
  next
    fix k p k' p' assume "(k, p) \<in> free_blocks c" "(k', p') \<in> free_blocks c" "(k, p) \<noteq> (k', p')"
    then show "blk p k \<inter> blk p' k' = {}" using fb lists_ok_disjoint[OF l] by simp
  next
    fix p assume p: "p \<in> managed ?zl c" "PageProperty (pages c p)"
    then have "p \<notin> {base..<base + n}" using f(2) by (auto simp: c_def)
    with p show "(p_property (pages c p), p) \<in> free_blocks c"
      using ma old[of p] lists_ok_head[OF l, of p] fb by auto
  qed
  moreover have "free_set c = free_set b" by (simp add: free_set_def fb)
  ultimately show ?thesis using new free_set_managed[OF l] by (auto simp: buddy_ok_def)
qed

lemma init_memmap_ok:
  assumes ok: "buddy_ok zl b" and n: "0 < n" "base + n \<le> npage b" "zone_cnt b < MAX_ZONE_NUM"
    and res: "\<forall>p \<in> {base..<base + n}. PageReserved (pages b p)"
  obtains b' where "buddy_init_memmap base n b = Some b'" "buddy_ok (zl(zone_cnt b := n)) b'"
    "free_set b' = free_set b \<union> {base..<base + n}"
    "zone_cnt b' = zone_cnt b + 1" "npage b' = npage b" "zones b' = (zones b)(zone_cnt b := base)"
proof -
  let ?f = "\<lambda>pg. set_page_ref 0 (pg\<lparr>p_flags := 0, p_property := 0, p_zone_num := zone_cnt b\<rparr>)"
  let ?c = "b\<lparr>pages := (\<lambda>q. if q \<in> {base..<base + n} then ?f (pages b q) else pages b q),
    zones := (zones b)(zone_cnt b := base), zone_cnt := zone_cnt b + 1\<rparr>"
  let ?zl = "zl(zone_cnt b := n)"
  have c: "buddy_ok ?zl ?c \<and> free_set ?c = free_set b \<and> {base..<base + n} \<inter> free_set b = {}"
    by (rule new_zone_ok[OF ok n(1,2) res]) (simp_all add: PageFlag_def)
  have "freed_prefix ?zl ?c base (base + n) (init_blocks MAX_ORDER base n ?c)"
    using c by (intro init_blocks_ok[where z = "zone_cnt b"]) (auto simp: zone_def)
  moreover have "buddy_init_memmap base n b = Some (init_blocks MAX_ORDER base n ?c)"
    using n res by (simp add: buddy_init_memmap_def fold_upd_page Let_def)
  ultimately show ?thesis
    using that c by (auto simp: freed_prefix_def same_zones_def)
qed

section \<open>The interface\<close>

lemma same_zones_in_zone: "same_zones b b' \<Longrightarrow> in_zone zl b' = in_zone zl b"
  using same_zones_zone[of b b' zl] by (simp add: in_zone_def same_zones_def fun_eq_iff)

interpretation buddy_pmm: pmm_manager "buddy_ok zl" free_set "in_zone zl" 1024
  buddy_alloc_pages buddy_free_pages buddy_nr_free_pages for zl
proof unfold_locales
  fix s :: buddy and n :: nat
  assume ok: "buddy_ok zl s" and n: "0 < n" "n \<le> 1024"
  obtain k where k: "getorder n = Some k" using getorder_total[of n] n by auto
  note ko = getorder_Some[OF k]
  show "buddy_alloc_pages n s = Some (None, s) \<or>
    (\<exists>p s'. buddy_alloc_pages n s = Some (Some p, s') \<and> buddy_ok zl s' \<and> in_zone zl s p n
      \<and> in_zone zl s' = in_zone zl s \<and> {p..<p + n} \<subseteq> free_set s \<and> free_set s' = free_set s - {p..<p + n})"
  proof (cases "\<forall>j. k \<le> j \<and> j \<le> MAX_ORDER \<longrightarrow> free_list s j = []")
    case True
    with buddy_alloc_result[OF ok n(1) _ k] n(2) show ?thesis by simp
  next
    case False
    with buddy_alloc_result[OF ok n(1) _ k] n(2) obtain p s' z where
      "buddy_alloc_pages n s = Some (Some p, s')" "buddy_ok zl s'" "same_zones s s'" "good_blk zl s z p k"
      "{p..<p + n} \<subseteq> free_set s" "free_set s' = free_set s - {p..<p + n}" by auto
    moreover from this have "in_zone zl s p n"
      using ko by (auto simp: in_zone_def good_blk_def blk_def subset_iff)
    ultimately show ?thesis using same_zones_in_zone by blast
  qed
next
  fix s :: buddy and n p :: nat
  assume "buddy_ok zl s" "0 < n" "n \<le> 1024" "in_zone zl s p n" "{p..<p + n} \<inter> free_set s = {}"
  then obtain s' where "buddy_free_pages p n s = Some s'" "freed_prefix zl s p (p + n) s'"
    using free_pages_ok[of zl s p n] by (auto simp: in_use_def)
  then show "\<exists>s'. buddy_free_pages p n s = Some s' \<and> buddy_ok zl s' \<and> in_zone zl s' = in_zone zl s
      \<and> free_set s' = free_set s \<union> {p..<p + n}"
    using same_zones_in_zone by (auto simp: freed_prefix_def)
next
  fix s :: buddy
  assume "buddy_ok zl s"
  then show "buddy_nr_free_pages s = card (free_set s)" by (auto simp: buddy_ok_def intro: nr_free_pages_card)
qed simp

section \<open>Properties\<close>

text \<open>A machine of four pages, as booted.\<close>

definition demo_boot :: buddy where
  "demo_boot = \<lparr>free_list = (\<lambda>_. []), nr_free = (\<lambda>_. 0), zones = (\<lambda>_. 0), zone_cnt = 0,
     pages = (\<lambda>_. SetPageFlag PG_reserved \<lparr>p_ref = 0, p_flags = 0, p_property = 0, p_zone_num = 0, p_index = 0\<rparr>),
     npage = 4\<rparr>"

definition demo_buddy :: buddy where
  "demo_buddy = the (buddy_init_memmap 0 4 (buddy_init demo_boot))"

lemma demo_boot_ok: "buddy_boot demo_boot"
  by (simp add: buddy_boot_def demo_boot_def)

lemma demo_buddy_ok:
  "buddy_ok ((\<lambda>_. 0)(0 := 4)) demo_buddy" "free_set demo_buddy = {0..<4}"
  "zone_cnt demo_buddy = 1" "zones demo_buddy 0 = 0"
proof -
  note i = buddy_init_ok[OF demo_boot_ok] buddy_init_fields(2-4)[of demo_boot]
  obtain b' where "buddy_init_memmap 0 4 (buddy_init demo_boot) = Some b'"
    "buddy_ok ((\<lambda>_. 0)(0 := 4)) b'" "free_set b' = {0..<4}" "zone_cnt b' = 1" "zones b' 0 = 0"
    by (rule init_memmap_ok[of "\<lambda>_. 0" "buddy_init demo_boot" 4 0]) (use i in \<open>auto simp: demo_boot_def\<close>)
  then show "buddy_ok ((\<lambda>_. 0)(0 := 4)) demo_buddy" "free_set demo_buddy = {0..<4}"
    "zone_cnt demo_buddy = 1" "zones demo_buddy 0 = 0"
    by (simp_all add: demo_buddy_def)
qed

text \<open>C1: Whatever sequence of allocations (of 1 to 1024 pages) and frees (of extents that
  are held) is issued on a consistent buddy state, the allocator never panics; the extents held
  at the end are pairwise disjoint and disjoint from the free pages, together with the free
  pages they make up exactly the pages that were free at the start, and \<open>buddy_nr_free_pages\<close>
  has decreased by exactly the pages held.\<close>

theorem buddy_serves_disjoint_extents:
  assumes "buddy_ok zl b"
  shows "\<exists>held b'. serve 1024 buddy_alloc_pages buddy_free_pages rs [] b = Some (held, b')
    \<and> disjoint_extents held \<and> covered held \<inter> free_set b' = {}
    \<and> free_set b' \<union> covered held = free_set b
    \<and> buddy_nr_free_pages b' + sum_list (map snd held) = buddy_nr_free_pages b"
proof -
  have h: "buddy_pmm.holds zl [] b" using assms by (simp add: buddy_pmm.holds_def)
  from buddy_pmm.serve_ok[OF h, of rs] obtain held b' where
    b': "serve 1024 buddy_alloc_pages buddy_free_pages rs [] b = Some (held, b')"
      "buddy_pmm.holds zl held b'" "free_set b' \<union> covered held = free_set b \<union> covered []" by blast
  with buddy_pmm.serve_conserves[OF h b'(1)] show ?thesis by (simp add: buddy_pmm.holds_def)
qed

theorem buddy_serves_disjoint_extents_witness:
  "\<exists>held b'. serve 1024 buddy_alloc_pages buddy_free_pages [Alloc 3, Alloc 1, Free (0, 3)] [] demo_buddy
      = Some (held, b') \<and> disjoint_extents held \<and> free_set b' \<union> covered held = {0..<4}"
  using buddy_serves_disjoint_extents[OF demo_buddy_ok(1), of "[Alloc 3, Alloc 1, Free (0, 3)]"]
  unfolding demo_buddy_ok(2) by blast

text \<open>C2: \<open>buddy_alloc_pages(n)\<close> in a consistent state: for \<open>n = 0\<close> or more than 1024 pages it
  panics; otherwise, with \<open>k\<close> the least order of at least \<open>n\<close> pages, it returns \<open>NULL\<close> and
  changes nothing exactly when no free list of order \<open>k\<close> or more has a block, and else returns a
  page aligned to \<open>2^k\<close> in its zone whose \<open>n\<close> pages were free, and takes exactly these \<open>n\<close>
  pages (the rest of the block goes back), keeping the state consistent.\<close>

theorem buddy_alloc_pages_correct:
  assumes "buddy_ok zl b"
  shows "if n = 0 \<or> 1024 < n then buddy_alloc_pages n b = None
    else \<exists>k. getorder n = Some k \<and> n \<le> 2 ^ k \<and> (\<forall>j < k. 2 ^ j < n) \<and>
      (if \<forall>j. k \<le> j \<and> j \<le> 10 \<longrightarrow> free_list b j = []
       then buddy_alloc_pages n b = Some (None, b)
       else \<exists>p b' z. buddy_alloc_pages n b = Some (Some p, b') \<and> buddy_ok zl b' \<and> same_zones b b'
         \<and> z < zone_cnt b \<and> 2 ^ k dvd p - zones b z \<and> {p..<p + n} \<subseteq> zone zl b z
         \<and> {p..<p + n} \<subseteq> free_set b \<and> free_set b' = free_set b - {p..<p + n})"
proof (cases "n = 0 \<or> 1024 < n")
  case True
  have "getorder n = None" if "1024 < n"
  proof (cases "getorder n")
    case (Some k)
    from getorder_Some[OF Some] have "n \<le> 2 ^ k" "k \<le> MAX_ORDER" by auto
    then have "n \<le> 2 ^ MAX_ORDER" using power_increasing[of k MAX_ORDER "2::nat"] by simp
    with that show ?thesis by simp
  qed simp
  with True show ?thesis by (auto simp: buddy_alloc_pages_def)
next
  case False
  then have n: "0 < n" "n \<le> 2 ^ MAX_ORDER" by auto
  obtain k where k: "getorder n = Some k" using getorder_total[OF n(2)] by blast
  have "{p..<p + n} \<subseteq> zone zl b z" if "good_blk zl b z p k" for p z
    using that getorder_Some[OF k] by (auto simp: good_blk_def blk_def)
  with buddy_alloc_result[OF assms n k] False show ?thesis
    using k getorder_Some[OF k] getorder_least[OF k]
    by (auto simp: good_blk_def split: if_splits) blast
qed

theorem buddy_alloc_pages_correct_witness:
  "getorder 3 = Some 2 \<and> free_list demo_buddy 2 = [0] \<and>
     (\<exists>p b'. buddy_alloc_pages 3 demo_buddy = Some (Some p, b') \<and> {p..<p + 3} \<subseteq> {0..<4}
        \<and> free_set b' = {0..<4} - {p..<p + 3})"
proof -
  have g: "getorder 3 = Some 2" and f: "free_list demo_buddy 2 = [0]" by code_simp+
  then have "\<not> (\<forall>j. 2 \<le> j \<and> j \<le> 10 \<longrightarrow> free_list demo_buddy j = [])" by force
  with buddy_alloc_pages_correct[OF demo_buddy_ok(1), of 3] g f show ?thesis
    unfolding demo_buddy_ok(2) by auto
qed

text \<open>C3: \<open>buddy_free_pages(base, n)\<close> on fewer than 2048 pages of one zone, none of them
  free, returns (no assertion of \<open>buddy_free_pages_sub\<close> fails, whatever the alignment of the
  range), keeps the state consistent and makes exactly these pages free.\<close>

theorem buddy_free_pages_correct:
  assumes "buddy_ok zl b" "in_use zl b base n" "0 < n" "n < 2048"
  shows "\<exists>b'. buddy_free_pages base n b = Some b' \<and> buddy_ok zl b' \<and> same_zones b b'
    \<and> free_set b' = free_set b \<union> {base..<base + n}"
  using free_pages_ok[OF assms(1-3)] assms(4) by (auto simp: freed_prefix_def)

theorem buddy_free_pages_correct_witness:
  "\<exists>p b b'. buddy_alloc_pages 1 demo_buddy = Some (p, b)
    \<and> (p = None \<or> buddy_free_pages (the p) 1 b = Some b' \<and> free_set b' = {0..<4})"
proof -
  from buddy_pmm.alloc_law[OF demo_buddy_ok(1), of 1] show ?thesis
  proof
    assume "buddy_alloc_pages 1 demo_buddy = Some (None, demo_buddy)"
    then show ?thesis by blast
  next
    assume "\<exists>p s'. buddy_alloc_pages 1 demo_buddy = Some (Some p, s')
      \<and> buddy_ok ((\<lambda>_. 0)(0 := 4)) s' \<and> in_zone ((\<lambda>_. 0)(0 := 4)) demo_buddy p 1
      \<and> in_zone ((\<lambda>_. 0)(0 := 4)) s' = in_zone ((\<lambda>_. 0)(0 := 4)) demo_buddy
      \<and> {p..<p + 1} \<subseteq> free_set demo_buddy \<and> free_set s' = free_set demo_buddy - {p..<p + 1}"
    then obtain p s' where s': "buddy_alloc_pages 1 demo_buddy = Some (Some p, s')"
      "buddy_ok ((\<lambda>_. 0)(0 := 4)) s'" "in_use ((\<lambda>_. 0)(0 := 4)) s' p 1"
      "p \<in> {0..<4}" "free_set s' = {0..<4} - {p}"
      unfolding demo_buddy_ok(2) by (auto simp: in_use_def)
    from buddy_free_pages_correct[OF s'(2,3)] s'(1,4,5) show ?thesis by (fastforce simp: insert_absorb)
  qed simp_all
qed

text \<open>\<open>buddy_init\<close> followed by \<open>buddy_init_memmap(base, n)\<close> on a freshly booted machine
  (no zone yet, all descriptors reserved) produces a consistent state whose free pages are
  exactly \<open>base .. base + n - 1\<close>.\<close>

theorem buddy_init_memmap_correct:
  assumes "buddy_boot b" "0 < n" "base + n \<le> npage b"
  shows "\<exists>b'. buddy_init_memmap base n (buddy_init b) = Some b'
    \<and> buddy_ok ((\<lambda>_. 0)(0 := n)) b' \<and> free_set b' = {base..<base + n}
    \<and> zone_cnt b' = 1 \<and> zones b' 0 = base \<and> buddy_nr_free_pages b' = n"
proof -
  note i = buddy_init_ok[OF assms(1), of "\<lambda>_. 0"] buddy_init_fields(2-4)[of b]
  obtain b' where b': "buddy_init_memmap base n (buddy_init b) = Some b'"
    "buddy_ok ((\<lambda>_. 0)(0 := n)) b'" "free_set b' = {base..<base + n}" "zone_cnt b' = 1" "zones b' 0 = base"
    by (rule init_memmap_ok[of "\<lambda>_. 0" "buddy_init b" n base]) (use i assms in \<open>auto simp: buddy_boot_def\<close>)
  moreover from this have "buddy_nr_free_pages b' = n" by (simp add: buddy_pmm.nr_law)
  ultimately show ?thesis by blast
qed

theorem buddy_init_memmap_correct_witness:
  "buddy_boot demo_boot \<and> (\<exists>b'. buddy_init_memmap 1 3 (buddy_init demo_boot) = Some b'
     \<and> free_set b' = {1..<4} \<and> buddy_nr_free_pages b' = 3)"
  using buddy_init_memmap_correct[OF demo_boot_ok, of 3 1] demo_boot_ok by (auto simp: demo_boot_def)

end
