(* ===== verification/KString.thy ===== *)
theory KString
  imports KPrelude
begin

text \<open>
  \<open>libs/string.c\<close>, \<open>libs/hash.c\<close> and \<open>libs/rand.c\<close>.  Memory is a function from addresses to
  bytes; addresses are natural numbers (no object of the kernel crosses the end of the address
  space).  A scan for a terminator that is not there does not return: these loops are
  \<open>partial_function (option)\<close>, and the theorems show that they return on every terminated
  string.  Loops counted by a length are recursions on it.  The compiled kernel takes
  \<open>memmove\<close> and \<open>memcpy\<close> from \<open>libs/x86.h\<close>; both versions are modelled and proved equal to
  the same copy.
\<close>

type_synonym mem = "nat \<Rightarrow> u8"

section \<open>The code\<close>

partial_function (option) strlen_loop :: "mem \<Rightarrow> nat \<Rightarrow> nat \<Rightarrow> nat option" where
  "strlen_loop m s cnt = (if m s \<noteq> 0 then strlen_loop m (s + 1) (cnt + 1) else Some cnt)"

definition strlen :: "mem \<Rightarrow> nat \<Rightarrow> nat option" where
  "strlen m s = strlen_loop m s 0"

function strnlen_loop :: "mem \<Rightarrow> nat \<Rightarrow> nat \<Rightarrow> nat \<Rightarrow> nat" where
  "strnlen_loop m s len cnt = (if cnt < len \<and> m s \<noteq> 0 then strnlen_loop m (s + 1) len (cnt + 1) else cnt)"
  by pat_completeness auto
termination by (relation "measure (\<lambda>(m, s, len, cnt). len - cnt)") auto

declare strnlen_loop.simps [simp del]

definition strnlen :: "mem \<Rightarrow> nat \<Rightarrow> nat \<Rightarrow> nat" where
  "strnlen m s len = strnlen_loop m s len 0"

partial_function (option) strcpy :: "mem \<Rightarrow> nat \<Rightarrow> nat \<Rightarrow> mem option" where
  "strcpy m p src = (if m src \<noteq> 0 then strcpy (m(p := m src)) (p + 1) (src + 1) else Some (m(p := m src)))"

fun strncpy :: "mem \<Rightarrow> nat \<Rightarrow> nat \<Rightarrow> nat \<Rightarrow> mem" where
  "strncpy m p src 0 = m"
| "strncpy m p src (Suc len) =
     strncpy (m(p := m src)) (p + 1) (if m src \<noteq> 0 then src + 1 else src) len"

partial_function (option) strcmp :: "mem \<Rightarrow> nat \<Rightarrow> nat \<Rightarrow> int option" where
  "strcmp m s1 s2 = (if m s1 \<noteq> 0 \<and> m s1 = m s2 then strcmp m (s1 + 1) (s2 + 1)
     else Some (uint (m s1) - uint (m s2)))"

fun strncmp :: "mem \<Rightarrow> nat \<Rightarrow> nat \<Rightarrow> nat \<Rightarrow> int" where
  "strncmp m s1 s2 0 = 0"
| "strncmp m s1 s2 (Suc n) = (if m s1 \<noteq> 0 \<and> m s1 = m s2 then strncmp m (s1 + 1) (s2 + 1) n
     else uint (m s1) - uint (m s2))"

partial_function (option) strchr :: "mem \<Rightarrow> nat \<Rightarrow> u8 \<Rightarrow> nat option option" where
  "strchr m s c = (if m s \<noteq> 0 then if m s = c then Some (Some s) else strchr m (s + 1) c else Some None)"

partial_function (option) strfind :: "mem \<Rightarrow> nat \<Rightarrow> u8 \<Rightarrow> nat option" where
  "strfind m s c = (if m s \<noteq> 0 then if m s = c then Some s else strfind m (s + 1) c else Some s)"

text \<open>\<open>strtol\<close>: characters by their codes, \<open>'0'\<close> = 48, \<open>'A'\<close> = 65, \<open>'a'\<close> = 97, \<open>'x'\<close> = 120.
  The result is the \<open>long\<close> of the code as 32 bits; a number that does not fit is taken modulo \<open>2^32\<close>.\<close>

partial_function (option) skip_blanks :: "mem \<Rightarrow> nat \<Rightarrow> nat option" where
  "skip_blanks m s = (if m s = 32 \<or> m s = 9 then skip_blanks m (s + 1) else Some s)"

definition digit_of :: "u8 \<Rightarrow> int option" where
  "digit_of c =
    (if 48 \<le> c \<and> c \<le> 57 then Some (uint c - 48)
     else if 97 \<le> c \<and> c \<le> 122 then Some (uint c - 97 + 10)
     else if 65 \<le> c \<and> c \<le> 90 then Some (uint c - 65 + 10)
     else None)"

partial_function (option) strtol_digits :: "mem \<Rightarrow> nat \<Rightarrow> int \<Rightarrow> u32 \<Rightarrow> (nat \<times> u32) option" where
  "strtol_digits m s base val =
    (case digit_of (m s) of
       None \<Rightarrow> Some (s, val)
     | Some dig \<Rightarrow> if dig \<ge> base then Some (s, val)
         else strtol_digits m (s + 1) base (val * of_int base + of_int dig))"

definition strtol :: "mem \<Rightarrow> nat \<Rightarrow> int \<Rightarrow> (nat \<times> u32) option" where
  "strtol m s base = do {
     s \<leftarrow> skip_blanks m s;
     let (s, neg) = (if m s = 43 then (s + 1, False) else if m s = 45 then (s + 1, True) else (s, False));
     let (s, base) =
       (if (base = 0 \<or> base = 16) \<and> (m s = 48 \<and> m (s + 1) = 120) then (s + 2, 16)
        else if base = 0 \<and> m s = 48 then (s + 1, 8)
        else if base = 0 then (s, 10)
        else (s, base));
     (s, val) \<leftarrow> strtol_digits m s base 0;
     Some (s, if neg then - val else val)
   }"

fun memset :: "mem \<Rightarrow> nat \<Rightarrow> u8 \<Rightarrow> nat \<Rightarrow> mem" where
  "memset m p c 0 = m"
| "memset m p c (Suc n) = memset (m(p := c)) (p + 1) c n"

fun copy_fwd :: "mem \<Rightarrow> nat \<Rightarrow> nat \<Rightarrow> nat \<Rightarrow> mem" where
  "copy_fwd m d s 0 = m"
| "copy_fwd m d s (Suc n) = copy_fwd (m(d := m s)) (d + 1) (s + 1) n"

fun copy_bwd :: "mem \<Rightarrow> nat \<Rightarrow> nat \<Rightarrow> nat \<Rightarrow> mem" where
  "copy_bwd m d s 0 = m"
| "copy_bwd m d s (Suc n) = copy_bwd (m(d - 1 := m (s - 1))) (d - 1) (s - 1) n"

definition memmove :: "mem \<Rightarrow> nat \<Rightarrow> nat \<Rightarrow> nat \<Rightarrow> mem" where
  "memmove m dst src n =
    (if src < dst \<and> src + n > dst then copy_bwd m (dst + n) (src + n) n else copy_fwd m dst src n)"

definition memcpy :: "mem \<Rightarrow> nat \<Rightarrow> nat \<Rightarrow> nat \<Rightarrow> mem" where
  "memcpy m dst src n = copy_fwd m dst src n"

fun memcmp :: "mem \<Rightarrow> nat \<Rightarrow> nat \<Rightarrow> nat \<Rightarrow> int" where
  "memcmp m s1 s2 0 = 0"
| "memcmp m s1 s2 (Suc n) = (if m s1 \<noteq> m s2 then uint (m s1) - uint (m s2) else memcmp m (s1 + 1) (s2 + 1) n)"

text \<open>The versions of \<open>libs/x86.h\<close>: \<open>rep movsl\<close> moves four bytes at a time, loading all of them
  before it stores one; \<open>std; rep movsb\<close> moves bytes downwards from the last one.\<close>

fun movsl :: "mem \<Rightarrow> nat \<Rightarrow> nat \<Rightarrow> nat \<Rightarrow> mem" where
  "movsl m d s 0 = m"
| "movsl m d s (Suc n) =
     movsl (m(d := m s, d + 1 := m (s + 1), d + 2 := m (s + 2), d + 3 := m (s + 3))) (d + 4) (s + 4) n"

definition x86_memcpy :: "mem \<Rightarrow> nat \<Rightarrow> nat \<Rightarrow> nat \<Rightarrow> mem" where
  "x86_memcpy m dst src n =
    (let q = n div 4 in copy_fwd (movsl m dst src q) (dst + 4 * q) (src + 4 * q) (n mod 4))"

definition x86_memmove :: "mem \<Rightarrow> nat \<Rightarrow> nat \<Rightarrow> nat \<Rightarrow> mem" where
  "x86_memmove m dst src n =
    (if dst < src then x86_memcpy m dst src n else copy_bwd m (dst + n) (src + n) n)"

section \<open>Hashing and random numbers\<close>

definition hash32 :: "u32 \<Rightarrow> nat \<Rightarrow> u32" where
  "hash32 val bits = drop_bit (32 - bits) (val * 0x9e370001)"

text \<open>\<open>rand\<close> on the 48 bit state \<open>next\<close>; \<open>RAND_MAX\<close> is 2147483647.\<close>

definition rand :: "u64 \<Rightarrow> int \<times> u64" where
  "rand nxt =
    (let nxt = (nxt * 0x5DEECE66D + 0xB) AND (push_bit 48 1 - 1);
         result = drop_bit 12 nxt
     in (uint (result mod (2147483647 + 1)), nxt))"

definition srand :: "u32 \<Rightarrow> u64" where
  "srand seed = ucast seed"

section \<open>Terminated strings\<close>

fun string_at :: "mem \<Rightarrow> nat \<Rightarrow> u8 list \<Rightarrow> bool" where
  "string_at m s [] \<longleftrightarrow> m s = 0"
| "string_at m s (c # cs) \<longleftrightarrow> m s = c \<and> c \<noteq> 0 \<and> string_at m (s + 1) cs"

lemma string_at_cong:
  "string_at m s cs \<Longrightarrow> (\<And>a. s \<le> a \<Longrightarrow> a \<le> s + length cs \<Longrightarrow> m' a = m a) \<Longrightarrow> string_at m' s cs"
  by (induction cs arbitrary: s) auto

lemma strlen_loop_string: "string_at m s cs \<Longrightarrow> strlen_loop m s n = Some (n + length cs)"
proof (induction cs arbitrary: s n)
  case Nil
  then show ?case by (simp add: strlen_loop.simps[of m s])
next
  case (Cons c cs)
  then show ?case by (simp add: strlen_loop.simps[of m s])
qed

lemma strnlen_loop_string:
  "string_at m s cs \<Longrightarrow> n \<le> len \<Longrightarrow> strnlen_loop m s len n = min len (n + length cs)"
proof (induction cs arbitrary: s n)
  case Nil
  then show ?case by (simp add: strnlen_loop.simps[of m s])
next
  case (Cons c cs)
  then show ?case by (cases "n = len") (simp_all add: strnlen_loop.simps[of m s])
qed

lemma strcpy_string:
  assumes "string_at m src cs" "{dst..dst + length cs} \<inter> {src..src + length cs} = {}"
  shows "\<exists>m'. strcpy m dst src = Some m' \<and> string_at m' dst cs
    \<and> (\<forall>a. a \<notin> {dst..dst + length cs} \<longrightarrow> m' a = m a)"
  using assms
proof (induction cs arbitrary: m dst src)
  case Nil
  then show ?case by (simp add: strcpy.simps[of m])
next
  case (Cons c cs)
  let ?m = "m(dst := c)"
  have ne: "dst < src \<or> src + length (c # cs) < dst" using Cons.prems(2) by (auto simp: disjoint_iff)
  have "string_at ?m (src + 1) cs"
    using Cons.prems(1) ne by (intro string_at_cong[of m _ cs ?m]) auto
  moreover have "{dst + 1..dst + 1 + length cs} \<inter> {src + 1..src + 1 + length cs} = {}"
    using Cons.prems(2) by (auto simp: disjoint_iff)
  ultimately obtain m' where "strcpy ?m (dst + 1) (src + 1) = Some m'" "string_at m' (dst + 1) cs"
    "\<forall>a. a \<notin> {dst + 1..dst + 1 + length cs} \<longrightarrow> m' a = ?m a"
    using Cons.IH[of ?m] by blast
  with Cons.prems show ?case by (auto simp: strcpy.simps[of m])
qed

lemma strcmp_string:
  "string_at m s1 as \<Longrightarrow> string_at m s2 bs \<Longrightarrow>
   \<exists>r. strcmp m s1 s2 = Some r \<and> (r = 0 \<longleftrightarrow> as = bs) \<and> (r < 0 \<longleftrightarrow> (as, bs) \<in> lexord {(x, y). x < y})"
proof (induction "as" arbitrary: s1 s2 bs)
  case Nil
  then show ?case
    by (cases bs) (auto simp: strcmp.simps[of m s1] uint_0_iff word_less_def order.strict_iff_order)
next
  case (Cons a as)
  show ?case
  proof (cases bs)
    case Nil
    with Cons.prems show ?thesis
      by (simp add: strcmp.simps[of m s1]) (metis uint_0_iff)
  next
    case (Cons b bs')
    show ?thesis
    proof (cases "a = b")
      case True
      then show ?thesis using Cons Cons.prems Cons.IH[of "s1 + 1" "s2 + 1" bs']
        by (auto simp: strcmp.simps[of m s1])
    next
      case False
      then show ?thesis using Cons Cons.prems
        by (auto simp: strcmp.simps[of m s1] word_less_def dest!: unsigned_word_eqI)
    qed
  qed
qed

lemma strfind_string:
  "string_at m s cs \<Longrightarrow> strfind m s c = Some (s + length (takeWhile (\<lambda>x. x \<noteq> c) cs))
   \<and> strchr m s c = Some (if c \<in> set cs then Some (s + length (takeWhile (\<lambda>x. x \<noteq> c) cs)) else None)"
  by (induction cs arbitrary: s) (auto simp: strfind.simps[of m] strchr.simps[of m])

section \<open>Copies\<close>

text \<open>The reference: every byte of the destination is the byte the source had at the start.\<close>

definition copied :: "mem \<Rightarrow> nat \<Rightarrow> nat \<Rightarrow> nat \<Rightarrow> mem" where
  "copied m d s n = (\<lambda>a. if d \<le> a \<and> a < d + n then m (s + (a - d)) else m a)"

lemma copied_0 [simp]: "copied m d s 0 = m"
  by (auto simp: copied_def fun_eq_iff)

lemma copied_Suc_low:
  "d \<le> s \<or> s + Suc n \<le> d \<Longrightarrow> copied (m(d := m s)) (d + 1) (s + 1) n = copied m d s (Suc n)"
  (is "?P \<Longrightarrow> ?l = ?r")
proof
  fix a assume P: ?P
  consider "a < d" | "a = d" | j where "a = d + 1 + j" by (rule nat_cases3)
  then show "?l a = ?r a" using P by cases (auto simp: copied_def)
qed

lemma copy_fwd_copied: "d \<le> s \<or> s + n \<le> d \<Longrightarrow> copy_fwd m d s n = copied m d s n"
proof (induction n arbitrary: m d s)
  case 0
  then show ?case by simp
next
  case (Suc n)
  then have "copy_fwd (m(d := m s)) (d + 1) (s + 1) n = copied (m(d := m s)) (d + 1) (s + 1) n"
    by (intro Suc.IH) auto
  then show ?case using Suc.prems copied_Suc_low[of d s n m] by simp
qed

lemma copied_Suc_high:
  "s \<le> d \<Longrightarrow> copied (m(d + n := m (s + n))) d s n = copied m d s (Suc n)"
  by (auto simp: copied_def fun_eq_iff less_Suc_eq)

lemma copy_bwd_copied: "s \<le> d \<Longrightarrow> copy_bwd m (d + n) (s + n) n = copied m d s n"
proof (induction n arbitrary: m)
  case 0
  then show ?case by simp
next
  case (Suc n)
  then show ?case using copied_Suc_high[of s d m n] by simp
qed

lemma movsl_copied: "d \<le> s \<Longrightarrow> movsl m d s n = copied m d s (4 * n)"
proof (induction n arbitrary: m d s)
  case 0
  then show ?case by simp
next
  case (Suc n)
  then have "movsl m d s (Suc n) = copied (m(d := m s, d + 1 := m (s + 1), d + 2 := m (s + 2), d + 3 := m (s + 3)))
    (d + 4) (s + 4) (4 * n)" by (simp only: movsl.simps add_le_cancel_right)
  also have "\<dots> = copied m d s (4 * Suc n)"
  proof
    fix a
    consider "a < d" | "a = d" | "a = d + 1" | "a = d + 2" | "a = d + 3" | "d + 4 \<le> a" by linarith
    then show "copied (m(d := m s, d + 1 := m (s + 1), d + 2 := m (s + 2), d + 3 := m (s + 3)))
      (d + 4) (s + 4) (4 * n) a = copied m d s (4 * Suc n) a"
      using Suc.prems by cases (auto simp: copied_def)
  qed
  finally show ?case .
qed

lemma copied_split:
  "d \<le> s \<Longrightarrow> copied (copied m d s j) (d + j) (s + j) k = copied m d s (j + k)"
  by (auto simp: copied_def fun_eq_iff)

lemma x86_memcpy_copied: "d \<le> s \<Longrightarrow> x86_memcpy m d s n = copied m d s n"
  by (simp add: x86_memcpy_def Let_def movsl_copied copy_fwd_copied copied_split)

text \<open>\<open>memmove\<close> is correct for every overlap of its arguments, and the assembly version of
  \<open>libs/x86.h\<close> that the kernel is compiled with computes the same memory as the portable loop of
  \<open>string.c\<close>: after either, the destination holds what the source held before and nothing else
  has changed.\<close>

theorem memmove_equivalence:
  "memmove m d s n = x86_memmove m d s n
   \<and> memmove m d s n = (\<lambda>a. if d \<le> a \<and> a < d + n then m (s + (a - d)) else m a)"
proof -
  have "memmove m d s n = copied m d s n"
    unfolding memmove_def using copy_bwd_copied[of s d m n] copy_fwd_copied[of d s n m] by auto
  moreover have "x86_memmove m d s n = copied m d s n"
    unfolding x86_memmove_def using copy_bwd_copied[of s d m n] x86_memcpy_copied[of d s m n] by auto
  ultimately show ?thesis by (simp add: copied_def)
qed

text \<open>On terminated strings the scanning routines return: \<open>strlen\<close> gives the length,
  \<open>strnlen\<close> its minimum with the bound, \<open>strfind\<close> and \<open>strchr\<close> the first occurrence (or the
  terminator, or \<open>NULL\<close>), and \<open>strcmp\<close> is zero exactly on equal strings and negative exactly
  when the first is smaller in the dictionary order of unsigned bytes.\<close>

theorem string_scans_correct:
  assumes "string_at m s cs" "string_at m t ds"
  shows "strlen m s = Some (length cs) \<and> strnlen m s n = min n (length cs)
    \<and> strfind m s c = Some (s + length (takeWhile (\<lambda>x. x \<noteq> c) cs))
    \<and> strchr m s c = Some (if c \<in> set cs then Some (s + length (takeWhile (\<lambda>x. x \<noteq> c) cs)) else None)
    \<and> (\<exists>r. strcmp m s t = Some r \<and> (r = 0 \<longleftrightarrow> cs = ds) \<and> (r < 0 \<longleftrightarrow> (cs, ds) \<in> lexord {(x, y). x < y}))"
  using assms strlen_loop_string[of m s cs 0] strnlen_loop_string[of m s cs 0 n] strfind_string[of m s cs c]
    strcmp_string[of m s cs t ds]
  by (simp add: strlen_def strnlen_def)

theorem string_scans_correct_witness:
  "strlen ((\<lambda>_. 0)(0 := 97, 1 := 98, 4 := 97)) 0 = Some 2
   \<and> strchr ((\<lambda>_. 0)(0 := 97, 1 := 98, 4 := 97)) 0 98 = Some (Some 1)
   \<and> (\<exists>r > 0. strcmp ((\<lambda>_. 0)(0 := 97, 1 := 98, 4 := 97)) 0 4 = Some r)"
  using string_scans_correct[of "(\<lambda>_. 0)(0 := 97, 1 := 98, 4 := 97)" 0 "[97, 98]" 4 "[97]" 5 98] 
  by (auto simp: order.strict_iff_order)

text \<open>\<open>strcpy\<close> of a terminated string to a place that does not overlap it returns, leaves
  the string at the destination, and changes nothing outside the copy.\<close>

theorem strcpy_correct:
  assumes "string_at m src cs" "{dst..dst + length cs} \<inter> {src..src + length cs} = {}"
  shows "\<exists>m'. strcpy m dst src = Some m' \<and> string_at m' dst cs \<and> string_at m' src cs
    \<and> (\<forall>a. a \<notin> {dst..dst + length cs} \<longrightarrow> m' a = m a)"
proof -
  obtain m' where m': "strcpy m dst src = Some m'" "string_at m' dst cs"
    "\<forall>a. a \<notin> {dst..dst + length cs} \<longrightarrow> m' a = m a"
    using strcpy_string[OF assms] by blast
  moreover have "string_at m' src cs"
    using assms m'(3) by (intro string_at_cong[OF assms(1)]) (auto simp: disjoint_iff)
  ultimately show ?thesis by blast
qed

theorem strcpy_correct_witness:
  "\<exists>m'. strcpy ((\<lambda>_. 0)(0 := 97, 1 := 98)) 8 0 = Some m' \<and> string_at m' 8 [97, 98]"
  using strcpy_correct[of "(\<lambda>_. 0)(0 := 97, 1 := 98)" 0 "[97, 98]" 8] by auto

end
