(* ===== verification/KPrintf.thy ===== *)
theory KPrintf
  imports KString "HOL-Library.Char_ord"
begin

text \<open>
  \<open>libs/printfmt.c\<close>.  A format string and a string argument are lists of bytes without their
  terminator; an argument list is a list of tagged values, and reading an argument of another
  type than the conversion asks for, or one that is not there, is \<open>None\<close> (undefined
  behaviour of \<open>va_arg\<close>).  The result of \<open>vprintfmt\<close> is the sequence of the integers passed
  to \<open>putch\<close>; \<open>vsnprintf\<close> folds \<open>sprintputch\<close> over it.  The \<open>goto\<close>s of the C function are
  the recursive calls of \<open>fmt_escape\<close>; its first argument remembers the position after the
  percent sign, to which an unknown conversion returns.
\<close>

abbreviation (input) ch :: "char \<Rightarrow> u8" where "ch c \<equiv> of_char c"

definition str :: "string \<Rightarrow> u8 list" where
  "str s = map of_char s"

section \<open>The code\<close>

datatype va = AInt u32 | AQuad u64 | AStr "u8 list option"

definition error_string :: "int \<Rightarrow> u8 list option" where
  "error_string err = (if err = 0 then None else Some (str ([
     '''', ''unspecified error'', ''bad process'', ''invalid parameter'', ''out of memory'',
     ''out of processes'', ''segmentation fault'', ''swap disk read/write fault'', ''invalid elf file'',
     ''process is killed'', ''panic failure'', ''timeout'', ''argument is too big'', ''no such device'',
     ''device not available'', ''device/file is busy'', ''no such file or directory'', ''is a directory'',
     ''not a directory'', ''cross device link'', ''unimplemented feature'', ''illegal seek'',
     ''too many files are open'', ''file or directory already exists'', ''directory is not empty''] ! nat err)))"

definition digit_char :: "nat \<Rightarrow> int" where
  "digit_char d = (if d < 10 then 48 + int d else 97 + int (d - 10))"

text \<open>\<open>while (-- width > 0) putch(padc)\<close>.\<close>

definition pad :: "int \<Rightarrow> int \<Rightarrow> int list" where
  "pad width padc = replicate (nat (width - 1)) padc"

text \<open>The number, an \<open>unsigned long long\<close> in the code, is a natural number, which the code's division loop
  prints in full.  \<open>base\<close> is 8, 10 or 16 at every call; the test \<open>1 < base\<close> only cuts the recursion a base
  of 0 or 1 would not end.\<close>

function printnum :: "nat \<Rightarrow> nat \<Rightarrow> int \<Rightarrow> int \<Rightarrow> int list" where
  "printnum num base width padc =
     (if num \<ge> base \<and> 1 < base then printnum (num div base) base (width - 1) padc else pad width padc)
     @ [digit_char (num mod base)]"
  by pat_completeness auto
termination by (relation "measure (\<lambda>(num, base, width, padc). num)") auto

declare printnum.simps [simp del]

definition getuint :: "nat \<Rightarrow> va list \<Rightarrow> (nat \<times> va list) option" where
  "getuint lflag ap =
    (if lflag \<ge> 2 then (case ap of AQuad q # ap \<Rightarrow> Some (unat q, ap) | _ \<Rightarrow> None)
     else (case ap of AInt i # ap \<Rightarrow> Some (unat i, ap) | _ \<Rightarrow> None))"

definition getint :: "nat \<Rightarrow> va list \<Rightarrow> (int \<times> va list) option" where
  "getint lflag ap =
    (if lflag \<ge> 2 then (case ap of AQuad q # ap \<Rightarrow> Some (sint q, ap) | _ \<Rightarrow> None)
     else (case ap of AInt i # ap \<Rightarrow> Some (sint i, ap) | _ \<Rightarrow> None))"

text \<open>The loop of the width field: \<open>ch\<close> is the digit just read, \<open>fmt\<close> what follows it.\<close>

fun read_number :: "int \<Rightarrow> u8 \<Rightarrow> u8 list \<Rightarrow> int \<times> u8 list" where
  "read_number precision c fmt =
    (let precision = precision * 10 + uint c - 48
     in case fmt of [] \<Rightarrow> (precision, fmt)
        | c' # fmt' \<Rightarrow> if c' < 48 \<or> c' > 57 then (precision, fmt) else read_number precision c' fmt')"

text \<open>The output of \<open>%s\<close> for the string \<open>p\<close>; characters are signed.\<close>

definition schar :: "u8 \<Rightarrow> int" where
  "schar c = sint c"

definition put_string :: "bool \<Rightarrow> int \<Rightarrow> int \<Rightarrow> int \<Rightarrow> u8 list \<Rightarrow> int list" where
  "put_string altflag width precision padc p =
    (let n = (if precision < 0 then length p else min (nat precision) (length p));
         pads = (if width > 0 \<and> padc \<noteq> 45 then nat (width - int n) else 0);
         width = (if width > 0 \<and> padc \<noteq> 45 then min (width - int n) 0 else width);
         body = take n p;
         width = width - int (length body)
     in replicate pads padc
        @ map (\<lambda>c. if altflag \<and> (schar c < 32 \<or> schar c > 126) then 63 else schar c) body
        @ replicate (nat width) 32)"

definition put_error :: "int \<Rightarrow> int list option" where
  "put_error err =
    (let err = (if err < 0 then - err else err)
     in if err = 2 ^ 31 then None
        else case (if err > 24 then None else error_string err) of
          None \<Rightarrow> Some (map uint (str ''error '') @ printnum (nat err) 10 (- 1) 32)
        | Some p \<Rightarrow> Some (put_string False (- 1) (- 1) 32 p))"

text \<open>The conversions that end an escape.\<close>

definition fmt_convert :: "u8 list \<Rightarrow> int \<Rightarrow> int \<Rightarrow> int \<Rightarrow> nat \<Rightarrow> bool \<Rightarrow> u8 \<Rightarrow> u8 list \<Rightarrow> va list
    \<Rightarrow> (int list \<times> u8 list \<times> va list) option" where
  "fmt_convert esc padc width precision lflag altflag c fmt ap =
    (if c = ch CHR ''c'' then
       (case ap of AInt i # ap \<Rightarrow> Some ([sint i], fmt, ap) | _ \<Rightarrow> None)
     else if c = ch CHR ''e'' then
       (case ap of AInt i # ap \<Rightarrow> map_option (\<lambda>out. (out, fmt, ap)) (put_error (sint i)) | _ \<Rightarrow> None)
     else if c = ch CHR ''s'' then
       (case ap of AStr p # ap \<Rightarrow>
          Some (put_string altflag width precision padc (case p of None \<Rightarrow> str ''(null)'' | Some p \<Rightarrow> p), fmt, ap)
        | _ \<Rightarrow> None)
     else if c = ch CHR ''d'' then do {
       (num, ap) \<leftarrow> getint lflag ap;
       Some ((if num < 0 then [45] else []) @ printnum (nat \<bar>num\<bar>) 10 width padc, fmt, ap)
     }
     else if c = ch CHR ''u'' then do {
       (num, ap) \<leftarrow> getuint lflag ap;
       Some (printnum num 10 width padc, fmt, ap)
     }
     else if c = ch CHR ''o'' then do {
       (num, ap) \<leftarrow> getuint lflag ap;
       Some (printnum num 8 width padc, fmt, ap)
     }
     else if c = ch CHR ''p'' then
       (case ap of AInt i # ap \<Rightarrow> Some ([48, 120] @ printnum (unat i) 16 width padc, fmt, ap) | _ \<Rightarrow> None)
     else if c = ch CHR ''x'' then do {
       (num, ap) \<leftarrow> getuint lflag ap;
       Some (printnum num 16 width padc, fmt, ap)
     }
     else if c = ch CHR ''%'' then Some ([37], fmt, ap)
     else Some ([37], esc, ap))"

function fmt_escape :: "u8 list \<Rightarrow> int \<Rightarrow> int \<Rightarrow> int \<Rightarrow> nat \<Rightarrow> bool \<Rightarrow> u8 list \<Rightarrow> va list
    \<Rightarrow> (int list \<times> u8 list \<times> va list) option" where
  "fmt_escape esc padc width precision lflag altflag [] ap = Some ([37], esc, ap)"
| "fmt_escape esc padc width precision lflag altflag (c # fmt) ap =
    (if c = ch CHR ''-'' then fmt_escape esc 45 width precision lflag altflag fmt ap
     else if c = ch CHR ''0'' then fmt_escape esc 48 width precision lflag altflag fmt ap
     else if 49 \<le> c \<and> c \<le> 57 then
       (let (precision, fmt') = read_number 0 c fmt
        in if length fmt' \<le> length fmt then
             if width < 0 then fmt_escape esc padc precision (- 1) lflag altflag fmt' ap
             else fmt_escape esc padc width precision lflag altflag fmt' ap
           else None)
     else if c = ch CHR ''*'' then
       (case ap of AInt i # ap \<Rightarrow>
          if width < 0 then fmt_escape esc padc (sint i) (- 1) lflag altflag fmt ap
          else fmt_escape esc padc width (sint i) lflag altflag fmt ap
        | _ \<Rightarrow> None)
     else if c = ch CHR ''.'' then
       fmt_escape esc padc (if width < 0 then 0 else width) precision lflag altflag fmt ap
     else if c = ch CHR ''#'' then fmt_escape esc padc width precision lflag True fmt ap
     else if c = ch CHR ''l'' then fmt_escape esc padc width precision (lflag + 1) altflag fmt ap
     else fmt_convert esc padc width precision lflag altflag c fmt ap)"
  by pat_completeness auto
termination
  by (relation "measure (\<lambda>(esc, padc, width, precision, lflag, altflag, fmt, ap). length fmt)") auto

declare fmt_escape.simps(2) [simp del]

lemma read_number_length: "read_number p c fmt = (q, fmt') \<Longrightarrow> length fmt' \<le> length fmt"
  by (induction p c fmt arbitrary: q rule: read_number.induct)
    (auto simp: Let_def le_SucI split: list.splits if_splits)

lemma fmt_convert_rest:
  "fmt_convert esc padc width precision lflag altflag c fmt ap = Some (out, fmt', ap') \<Longrightarrow> fmt' = fmt \<or> fmt' = esc"
  unfolding fmt_convert_def
  by (simp add: kmonad split: if_splits list.splits va.splits) auto

lemma fmt_escape_length:
  "fmt_escape esc padc width precision lflag altflag fmt ap = Some (out, fmt', ap') \<Longrightarrow>
   length fmt' \<le> max (length fmt) (length esc)"
proof (induction esc padc width precision lflag altflag fmt ap rule: fmt_escape.induct)
  case 1
  then show ?case by simp
next
  case (2 esc padc width precision lflag altflag c fmt ap)
  obtain q f where rn: "read_number 0 c fmt = (q, f)" by fastforce
  have l: "length f \<le> length fmt" by (rule read_number_length[OF rn])
  note e = "2.prems"[unfolded fmt_escape.simps(2)]
  consider "c = ch CHR ''-''" | "c = ch CHR ''0''" | "49 \<le> c" "c \<le> 57" | "c = ch CHR ''*''"
    | "c = ch CHR ''.''" | "c = ch CHR ''#''" | "c = ch CHR ''l''"
    | "fmt_convert esc padc width precision lflag altflag c fmt ap = Some (out, fmt', ap')"
    using e by (simp only: split: if_splits)
  then show ?case
  proof cases
    case 3
    then have "c \<noteq> ch CHR ''-''" "c \<noteq> ch CHR ''0''" by auto
    with 3 e rn l "2.IH"(3,4)[OF _ _ _ rn[symmetric]] show ?thesis
      by (auto split: if_splits)
  next
    case 4
    with e "2.IH"(5,6) show ?thesis by (auto split: list.splits va.splits if_splits)
  next
    case 8
    then show ?thesis using fmt_convert_rest by fastforce
  next
    case 1
    with e "2.IH"(1)[OF 1] show ?thesis by simp
  next
    case 2
    with e "2.IH"(2)[OF _ 2] show ?thesis by simp
  next
    case 5
    with e "2.IH"(7)[OF _ _ _ _ 5] show ?thesis by simp
  next
    case 6
    with e "2.IH"(8)[OF _ _ _ _ _ 6] show ?thesis by simp
  next
    case 7
    with e "2.IH"(9)[OF _ _ _ _ _ _ 7] show ?thesis by simp
  qed
qed

function vprintfmt :: "u8 list \<Rightarrow> va list \<Rightarrow> int list option" where
  "vprintfmt [] ap = Some []"
| "vprintfmt (c # fmt) ap =
    (if c \<noteq> ch CHR ''%'' then map_option (Cons (uint c)) (vprintfmt fmt ap)
     else (case fmt_escape fmt 32 (- 1) (- 1) 0 False fmt ap of
        None \<Rightarrow> None
      | Some (out, fmt', ap') \<Rightarrow> map_option (append out) (vprintfmt fmt' ap')))"
  by pat_completeness auto
termination
  by (relation "measure (\<lambda>(fmt, ap). length fmt)") (auto dest: fmt_escape_length simp: le_imp_less_Suc)

record sprintbuf =
  buf :: nat
  ebuf :: nat
  cnt :: nat
  smem :: mem

definition sprintputch :: "int \<Rightarrow> sprintbuf \<Rightarrow> sprintbuf" where
  "sprintputch c b =
    (let b = b\<lparr>cnt := cnt b + 1\<rparr>
     in if buf b < ebuf b then b\<lparr>smem := (smem b)(buf b := word_of_int c), buf := buf b + 1\<rparr> else b)"

definition vsnprintf :: "mem \<Rightarrow> nat \<Rightarrow> nat \<Rightarrow> u8 list \<Rightarrow> va list \<Rightarrow> (int \<times> mem) option" where
  "vsnprintf m s sz fmt ap =
    (let b = \<lparr>buf = s, ebuf = s + sz - 1, cnt = 0, smem = m\<rparr>
     in if s = 0 \<or> buf b > ebuf b then Some (- E_INVAL, m)
        else do {
          out \<leftarrow> vprintfmt fmt ap;
          let b = fold sprintputch out b;
          Some (int (cnt b), (smem b)(buf b := 0))
        })"

section \<open>Printing into a buffer\<close>

lemma fold_sprintputch:
  "buf b \<le> ebuf b \<Longrightarrow> b' = fold sprintputch out b \<Longrightarrow>
   cnt b' = cnt b + length out \<and> buf b' = buf b + min (ebuf b - buf b) (length out)
   \<and> smem b' = (\<lambda>a. if buf b \<le> a \<and> a < buf b' then word_of_int (out ! (a - buf b)) else smem b a)"
proof (induction out arbitrary: b)
  case Nil
  then show ?case by (auto simp: fun_eq_iff)
next
  case (Cons c out)
  let ?b = "sprintputch c b"
  show ?case
  proof (cases "buf b < ebuf b")
    case True
    then have f: "buf ?b = buf b + 1" "ebuf ?b = ebuf b" "cnt ?b = cnt b + 1"
      "smem ?b = (smem b)(buf b := word_of_int c)"
      by (simp_all add: sprintputch_def Let_def)
    have e: "b' = fold sprintputch out ?b" using Cons.prems(2) by simp
    have le: "buf ?b \<le> ebuf ?b" using True f by simp
    note ih0 = Cons.IH[OF le e, unfolded f]
    have ih: "cnt b' = cnt b + length (c # out)" "buf b' = buf b + 1 + min (ebuf b - (buf b + 1)) (length out)"
      "smem b' = (\<lambda>a. if buf b + 1 \<le> a \<and> a < buf b' then word_of_int (out ! (a - (buf b + 1)))
         else ((smem b)(buf b := word_of_int c)) a)"
      using ih0 by (simp_all del: fun_upd_apply)
    have nb: "buf b' = buf b + min (ebuf b - buf b) (length (c # out))" using ih(2) True by simp
    have "smem b' a = (if buf b \<le> a \<and> a < buf b' then word_of_int ((c # out) ! (a - buf b)) else smem b a)" for a
    proof -
      have lt: "buf b < buf b'" using ih(2) by simp
      show ?thesis
      proof (rule nat_cases3[of a "buf b"])
        assume "a < buf b"
        then show ?thesis by (simp add: ih(3))
      next
        assume "a = buf b"
        then show ?thesis using lt by (simp add: ih(3))
      next
        fix j assume "a = buf b + 1 + j"
        then show ?thesis by (simp add: ih(3))
      qed
    qed
    with ih(1) nb show ?thesis by auto
  next
    case False
    then have f: "buf ?b = buf b" "ebuf ?b = ebuf b" "cnt ?b = cnt b + 1" "smem ?b = smem b"
      by (simp_all add: sprintputch_def Let_def)
    have e: "b' = fold sprintputch out ?b" using Cons.prems(2) by simp
    have le: "buf ?b \<le> ebuf ?b" using Cons.prems(1) f by simp
    have "ebuf b = buf b" using False Cons.prems(1) by simp
    with Cons.IH[OF le e, unfolded f] show ?thesis by (auto simp: fun_eq_iff)
  qed
qed

text \<open>C5: \<open>vsnprintf\<close> never writes outside the \<open>size\<close> bytes it is given: whatever the format
  produces, the buffer receives its first \<open>size - 1\<close> characters and a terminator, the value
  returned is the length of the untruncated output, and a null buffer or a size of zero is
  answered by \<open>-E_INVAL\<close> without a write.\<close>

theorem vsnprintf_bounded:
  assumes "vprintfmt fmt ap = Some out"
  shows "\<exists>m' r. vsnprintf m s sz fmt ap = Some (r, m') \<and> (\<forall>a. a < s \<or> s + sz \<le> a \<longrightarrow> m' a = m a)
    \<and> (if s = 0 \<or> sz = 0 then r = - 3 \<and> m' = m
       else r = int (length out) \<and> m' (s + min (sz - 1) (length out)) = 0
         \<and> (\<forall>i < min (sz - 1) (length out). m' (s + i) = word_of_int (out ! i)))"
proof (cases "s = 0 \<or> sz = 0")
  case True
  then show ?thesis by (auto simp: vsnprintf_def)
next
  case False
  then obtain k where k: "sz = Suc k" by (cases sz) auto
  let ?b = "\<lparr>buf = s, ebuf = s + k, cnt = 0, smem = m\<rparr>"
  let ?r = "fold sprintputch out ?b"
  have f: "cnt ?r = length out" "buf ?r = s + min k (length out)"
    "smem ?r = (\<lambda>a. if s \<le> a \<and> a < s + min k (length out) then word_of_int (out ! (a - s)) else m a)"
    using fold_sprintputch[of ?b ?r out] by (simp_all cong: if_cong)
  have v: "vsnprintf m s sz fmt ap = Some (int (cnt ?r), (smem ?r)(buf ?r := 0))"
    using assms False k by (simp add: vsnprintf_def Let_def)
  show ?thesis
    unfolding v using f False by (intro exI conjI) (auto simp: k)
qed

theorem vsnprintf_bounded_witness:
  "\<exists>m'. vsnprintf (\<lambda>_. 255) 8 3 (str ''a%dx'') [AInt 42] = Some (4, m')
    \<and> m' 8 = 97 \<and> m' 9 = 52 \<and> m' 10 = 0 \<and> m' 11 = 255"
proof -
  have v: "vprintfmt (str ''a%dx'') [AInt 42] = Some [97, 52, 50, 120]" by code_simp
  from vsnprintf_bounded[OF this, of "\<lambda>_. 255" 8 3] obtain m' where
    m: "vsnprintf (\<lambda>_. 255) 8 3 (str ''a%dx'') [AInt 42] = Some (4, m')"
      "\<forall>a. a < 8 \<or> 11 \<le> a \<longrightarrow> m' a = 255" "m' 10 = 0"
      "\<forall>i < 2. m' (8 + i) = word_of_int ([97, 52, 50, 120] ! i)" by auto
  from m(4)[rule_format, of 0] m(4)[rule_format, of 1] m(1-3) show ?thesis by auto
qed

section \<open>Numbers\<close>

function nat_digits :: "nat \<Rightarrow> nat \<Rightarrow> nat list" where
  "nat_digits base n = (if n \<ge> base \<and> 1 < base then nat_digits base (n div base) else []) @ [n mod base]"
  by pat_completeness auto
termination by (relation "measure (\<lambda>(base, n). n)") auto

declare nat_digits.simps [simp del]

lemma nat_digits_ne: "nat_digits base n \<noteq> []"
  by (simp add: nat_digits.simps)

lemma nat_digits_less: "1 < base \<Longrightarrow> d \<in> set (nat_digits base n) \<Longrightarrow> d < base"
proof (induction base n rule: nat_digits.induct)
  case (1 base n)
  then show ?case by (subst (asm) (2) nat_digits.simps) (auto split: if_splits)
qed

lemma nat_digits_value:
  "1 < base \<Longrightarrow> foldl (\<lambda>v d. v * base + d) 0 (nat_digits base n) = n"
proof (induction base n rule: nat_digits.induct)
  case (1 base n)
  then show ?case by (subst nat_digits.simps) (auto simp: div_mult_mod_eq)
qed

lemma printnum_digits:
  "1 < base \<Longrightarrow> printnum n base w p
     = replicate (nat (w - int (length (nat_digits base n)))) p @ map digit_char (nat_digits base n)"
proof (induction n base w p rule: printnum.induct)
  case (1 n base w p)
  show ?case
  proof (cases "n \<ge> base")
    case True
    with 1 show ?thesis
      by (simp add: printnum.simps[of n] nat_digits.simps[of base n] algebra_simps)
  next
    case False
    with 1 show ?thesis
      by (simp add: printnum.simps[of n] nat_digits.simps[of base n] pad_def)
  qed
qed

abbreviation (input) dchar :: "nat \<Rightarrow> u8" where "dchar d \<equiv> word_of_int (digit_char d)"

lemma digit_of_dchar:
  assumes "d < 16"
  shows "digit_of (dchar d) = Some (int d)" "dchar d \<noteq> 0" "dchar d \<noteq> 32" "dchar d \<noteq> 9" "dchar d \<noteq> 43"
    "dchar d \<noteq> 45" "dchar d \<noteq> 120"
proof -
  have u: "uint (dchar d) = digit_char d"
    using assms by (simp add: digit_char_def uint_word_of_int)
  then show "digit_of (dchar d) = Some (int d)"
    using assms by (simp add: digit_of_def word_le_def) (auto simp: digit_char_def)
  have "digit_char d \<notin> {0, 32, 9, 43, 45, 120}" using assms by (auto simp: digit_char_def)
  with u show "dchar d \<noteq> 0" "dchar d \<noteq> 32" "dchar d \<noteq> 9" "dchar d \<noteq> 43" "dchar d \<noteq> 45" "dchar d \<noteq> 120"
    by auto
qed

lemma strtol_digits_string:
  "string_at m s (map dchar ds) \<Longrightarrow> \<forall>d \<in> set ds. d < base \<Longrightarrow> base \<le> 16 \<Longrightarrow>
   strtol_digits m s (int base) val = Some (s + length ds, foldl (\<lambda>v d. v * of_nat base + of_nat d) val ds)"
proof (induction ds arbitrary: s val)
  case Nil
  then show ?case by (simp add: strtol_digits.simps[of m s] digit_of_def)
next
  case (Cons d ds)
  then have "digit_of (m s) = Some (int d)" using digit_of_dchar(1)[of d] by simp
  with Cons show ?case by (simp add: strtol_digits.simps[of m s])
qed

lemma foldl_of_nat:
  "foldl (\<lambda>v d. v * of_nat base + of_nat d) (of_nat v) ds = (of_nat (foldl (\<lambda>v d. v * base + d) v ds) :: u32)"
  by (induction ds arbitrary: v) (simp_all flip: of_nat_mult of_nat_add)

lemma foldl_zeros: "foldl (\<lambda>v d. v * base + d) 0 (replicate k 0 @ ds) = foldl (\<lambda>v d. v * base + d) (0::nat) ds"
  by (induction k) simp_all

lemma skip_blanks_string:
  "string_at m s (replicate k 32 @ c # cs) \<Longrightarrow> c \<noteq> 32 \<Longrightarrow> c \<noteq> 9 \<Longrightarrow>
   skip_blanks m s = Some (s + k) \<and> string_at m (s + k) (c # cs)"
proof (induction k arbitrary: s)
  case 0
  then show ?case by (simp add: skip_blanks.simps[of m s])
next
  case (Suc k)
  then show ?case using Suc.IH[of "s + 1"] by (simp add: skip_blanks.simps[of m s])
qed

lemma strtol_string:
  assumes s: "string_at m s (replicate k 32 @ map dchar ds)" and ne: "ds \<noteq> []"
    and d: "\<forall>d \<in> set ds. d < base" and b: "1 < base" "base \<le> 16"
  shows "strtol m s (int base) = Some (s + k + length ds, of_nat (foldl (\<lambda>v d. v * base + d) 0 ds))"
proof -
  obtain e es where ds: "ds = e # es" using ne by (cases ds) auto
  then have e: "e < 16" using d b by auto
  have sk: "skip_blanks m s = Some (s + k)" and at: "string_at m (s + k) (map dchar ds)"
    using skip_blanks_string[of m s k "dchar e" "map dchar es"] s digit_of_dchar[OF e] ds by auto
  from at ds have c0: "m (s + k) = dchar e" by simp
  have c1: "m (s + k + 1) \<noteq> 120"
  proof (cases es)
    case Nil
    then show ?thesis using at ds by simp
  next
    case (Cons e' es')
    then have "m (s + k + 1) = dchar e'" "e' < 16" using at d b unfolding ds by auto
    then show ?thesis using digit_of_dchar(7)[of e'] by simp
  qed
  have "strtol_digits m (s + k) (int base) 0 = Some (s + k + length ds, of_nat (foldl (\<lambda>v d. v * base + d) 0 ds))"
    using strtol_digits_string[OF at d b(2), of 0] foldl_of_nat[of base 0 ds] by simp
  then show ?thesis
    using sk c0 c1 digit_of_dchar(5,6)[OF e] b by (simp add: strtol_def)
qed

text \<open>C4: Printing a number and reading it back is the identity: on the characters that
  \<open>printnum\<close> produces for any number, base 2 to 16, width and padding by blanks or zeros,
  \<open>strtol\<close> with that base returns the number (modulo \<open>2^32\<close>) and stops at the terminator.\<close>

theorem printnum_strtol_roundtrip:
  assumes "1 < base" "base \<le> 16" "padc = 32 \<or> padc = 48"
    and "string_at m s (map word_of_int (printnum num base width padc))"
  shows "strtol m s (int base) = Some (s + length (printnum num base width padc), of_nat num)"
proof -
  let ?D = "nat_digits base num"
  let ?k = "nat (width - int (length ?D))"
  have p: "printnum num base width padc = replicate ?k padc @ map digit_char ?D"
    by (rule printnum_digits[OF assms(1)])
  note v = nat_digits_value[OF assms(1), of num] and l = nat_digits_less[OF assms(1), of _ num]
  from assms(3) show ?thesis
  proof
    assume "padc = 32"
    then have "string_at m s (replicate ?k 32 @ map dchar ?D)"
      using assms(4) unfolding p by (simp add: comp_def)
    from strtol_string[OF this nat_digits_ne _ assms(1,2)] l v show ?thesis by (simp add: p)
  next
    assume 48: "padc = 48"
    have z: "dchar 0 = (48 :: u8)" by (simp add: digit_char_def)
    have "string_at m s (replicate 0 32 @ map dchar (replicate ?k 0 @ ?D))"
      using assms(4) 48 unfolding p by (simp add: comp_def z)
    moreover have "replicate ?k 0 @ ?D \<noteq> []" "\<forall>d \<in> set (replicate ?k 0 @ ?D). d < base"
      using nat_digits_ne[of base num] l assms(1) by auto
    ultimately have "strtol m s (int base) = Some (s + 0 + length (replicate ?k 0 @ ?D),
        of_nat (foldl (\<lambda>v d. v * base + d) 0 (replicate ?k 0 @ ?D)))"
      using assms(1,2) by (intro strtol_string)
    then show ?thesis unfolding foldl_zeros v p by simp
  qed
qed

theorem printnum_strtol_roundtrip_witness:
  "printnum 254 16 4 48 = [48, 48, 102, 101]
   \<and> strtol ((\<lambda>_. 0)(0 := 48, 1 := 48, 2 := 102, 3 := 101)) 0 16 = Some (4, 254)"
proof -
  have p: "printnum 254 16 4 48 = [48, 48, 102, 101]" by code_simp
  with printnum_strtol_roundtrip[of 16 48 "(\<lambda>_. 0)(0 := 48, 1 := 48, 2 := 102, 3 := 101)" 0 254 4]
  show ?thesis by simp
qed

end
