(* ===== verification/KProc.thy ===== *)
theory KProc
  imports KPrelude KList
begin

text \<open>
  The process state of the kernel: \<open>struct proc_struct\<close> of \<open>kern/process/proc.h\<close>, the timers
  and run queues of \<open>kern/schedule/sched.h\<close>, the wait queues of \<open>kern/sync/wait.h\<close> and the
  global variables of \<open>proc.c\<close> and \<open>sched.c\<close>, as one record.  Process, timer and wait
  structures are named by numbers (their addresses); a pointer that may be \<open>NULL\<close> is an
  option.  Lists with a head are HOL lists of these names in list order, front first
  (\<open>KList\<close> relates them to the linked structure); the two circular lists without a
  distinguished head, \<open>thread_group\<close> and \<open>rq_link\<close>, are kept as \<open>prev\<close>/\<open>next\<close> links.
  An element is linked exactly if it is in one of the lists, which is what \<open>list_empty\<close> of
  its link tests (links are reset by \<open>list_init\<close> and \<open>list_del_init\<close>).
\<close>

datatype proc_state = PROC_UNINIT | PROC_SLEEPING | PROC_RUNNABLE | PROC_ZOMBIE

text \<open>Wait queues: the event box of a process, the queue of a semaphore, the two queues of a
  message box, and any other.\<close>

datatype wqid = EventQ nat | SemQ u32 | MboxSendQ nat | MboxRecvQ nat | OtherQ nat

record proc_struct =
  state :: proc_state
  pid :: int
  runs :: nat
  kstack :: u32
  need_resched :: bool
  parent :: "nat option"
  mm :: "nat option"
  cr3 :: u32
  flags :: u32
  exit_code :: int
  wait_state :: u32
  cptr :: "nat option"
  yptr :: "nat option"
  optr :: "nat option"
  rq :: "nat option"
  time_slice :: int
  sem_queue :: "u32 option"
  event :: int

record timer_t =
  expires :: nat
  t_proc :: "nat option"

record wait_t =
  w_proc :: "nat option"
  wakeup_flags :: u32
  wait_queue :: wqid

text \<open>\<open>semaphore_t\<close> (its wait queue is \<open>SemQ\<close> of its address) and \<open>sem_queue_t\<close> of
  \<open>kern/sync/sem.h\<close>; \<open>semu_list\<close> holds the addresses of \<open>sem_undo_t\<close> structures, each of
  which points to a semaphore.  Values and counts are C \<open>int\<close>s kept as integers: a value moves by one
  with each call, and what an overflow past \<open>2^31\<close> does is undefined in C and not described here.\<close>

record semaphore =
  sem_value :: int
  sem_valid :: bool
  sem_count :: int

record sem_queue_t =
  sq_sem :: u32
  sq_count :: int
  semu_list :: "u32 list"

record kern =
  procs :: "nat \<Rightarrow> proc_struct"
  current :: nat
  idleproc :: nat
  initproc :: nat
  kswapd :: nat
  proc_list :: "nat list"
  hash_list :: "u32 \<Rightarrow> nat list"
  nr_process :: nat
  next_safe :: int
  last_pid :: int
  tgroup :: "nat links"
  run_list :: "nat \<Rightarrow> nat list"
  proc_num :: "nat \<Rightarrow> nat"
  max_time_slice :: "nat \<Rightarrow> int"
  rq_link :: "nat links"
  timer_list :: "nat list"
  timers :: "nat \<Rightarrow> timer_t"
  wait_list :: "wqid \<Rightarrow> nat list"
  waits :: "nat \<Rightarrow> wait_t"
  sems :: "u32 \<Rightarrow> semaphore"
  sem_queues :: "u32 \<Rightarrow> sem_queue_t"
  semus :: "u32 \<Rightarrow> u32"
  mm_count :: "nat \<Rightarrow> nat"
  proc_mm_list :: "nat list"
  esp0 :: u32
  cr3_reg :: u32
  ticks :: u32

section \<open>Flags and wait states (kern/process/proc.h)\<close>

abbreviation (input) "PF_EXITING \<equiv> (0x00000001 :: u32)"
abbreviation (input) "WT_INTERRUPTED \<equiv> (0x80000000 :: u32)"
abbreviation (input) "WT_CHILD \<equiv> (0x80000001 :: u32)"
abbreviation (input) "WT_TIMER \<equiv> (0x80000002 :: u32)"
abbreviation (input) "WT_KSWAPD \<equiv> (0x00000003 :: u32)"
abbreviation (input) "WT_KSEM \<equiv> (0x00000100 :: u32)"
abbreviation (input) "WT_USEM \<equiv> (0x80000101 :: u32)"
abbreviation (input) "WT_EVENT_SEND \<equiv> (0x80000110 :: u32)"
abbreviation (input) "WT_EVENT_RECV \<equiv> (0x80000111 :: u32)"
abbreviation (input) "WT_MBOX_SEND \<equiv> (0x80000120 :: u32)"
abbreviation (input) "WT_MBOX_RECV \<equiv> (0x80000121 :: u32)"
abbreviation (input) "MAX_PROCESS \<equiv> (4096 :: nat)"
abbreviation (input) "MAX_PID \<equiv> (8192 :: int)"
abbreviation (input) "KSTACKSIZE \<equiv> (8192 :: u32)"

section \<open>Updates\<close>

definition upd_proc :: "nat \<Rightarrow> (proc_struct \<Rightarrow> proc_struct) \<Rightarrow> kern \<Rightarrow> kern" where
  "upd_proc p f k = k\<lparr>procs := (procs k)(p := f (procs k p))\<rparr>"

definition upd_timer :: "nat \<Rightarrow> (timer_t \<Rightarrow> timer_t) \<Rightarrow> kern \<Rightarrow> kern" where
  "upd_timer t f k = k\<lparr>timers := (timers k)(t := f (timers k t))\<rparr>"

definition upd_wait :: "nat \<Rightarrow> (wait_t \<Rightarrow> wait_t) \<Rightarrow> kern \<Rightarrow> kern" where
  "upd_wait w f k = k\<lparr>waits := (waits k)(w := f (waits k w))\<rparr>"

definition upd_sem :: "u32 \<Rightarrow> (semaphore \<Rightarrow> semaphore) \<Rightarrow> kern \<Rightarrow> kern" where
  "upd_sem s f k = k\<lparr>sems := (sems k)(s := f (sems k s))\<rparr>"

lemma upd_proc_procs [simp]:
  "procs (upd_proc p f k) q = (if q = p then f (procs k p) else procs k q)"
  "procs (upd_timer t g k) = procs k"
  "procs (upd_wait w h k) = procs k"
  by (simp_all add: upd_proc_def upd_timer_def upd_wait_def)

lemma upd_fields [simp]:
  "current (upd_proc p f k) = current k" "idleproc (upd_proc p f k) = idleproc k"
  "initproc (upd_proc p f k) = initproc k" "run_list (upd_proc p f k) = run_list k"
  "proc_num (upd_proc p f k) = proc_num k" "max_time_slice (upd_proc p f k) = max_time_slice k"
  "rq_link (upd_proc p f k) = rq_link k" "timer_list (upd_proc p f k) = timer_list k"
  "timers (upd_proc p f k) = timers k" "wait_list (upd_proc p f k) = wait_list k"
  "waits (upd_proc p f k) = waits k" "proc_list (upd_proc p f k) = proc_list k"
  "hash_list (upd_proc p f k) = hash_list k" "nr_process (upd_proc p f k) = nr_process k"
  "tgroup (upd_proc p f k) = tgroup k" "next_safe (upd_proc p f k) = next_safe k"
  "last_pid (upd_proc p f k) = last_pid k" "sems (upd_proc p f k) = sems k"
  "sem_queues (upd_proc p f k) = sem_queues k" "semus (upd_proc p f k) = semus k"
  "kswapd (upd_proc p f k) = kswapd k" "ticks (upd_proc p f k) = ticks k"
  "mm_count (upd_proc p f k) = mm_count k" "proc_mm_list (upd_proc p f k) = proc_mm_list k"
  by (simp_all add: upd_proc_def)

lemma upd_timer_fields [simp]:
  "current (upd_timer p f k) = current k" "idleproc (upd_timer p f k) = idleproc k"
  "run_list (upd_timer p f k) = run_list k"
  "proc_num (upd_timer p f k) = proc_num k" "max_time_slice (upd_timer p f k) = max_time_slice k"
  "rq_link (upd_timer p f k) = rq_link k" "timer_list (upd_timer p f k) = timer_list k"
  "timers (upd_timer t g k) = (timers k)(t := g (timers k t))"
  "wait_list (upd_timer p f k) = wait_list k" "waits (upd_timer p f k) = waits k"
  "sems (upd_timer p f k) = sems k"
  "initproc (upd_timer p f k) = initproc k" "proc_list (upd_timer p f k) = proc_list k" "hash_list (upd_timer p f k) = hash_list k"
  "nr_process (upd_timer p f k) = nr_process k" "tgroup (upd_timer p f k) = tgroup k" "next_safe (upd_timer p f k) = next_safe k"
  "last_pid (upd_timer p f k) = last_pid k" "sem_queues (upd_timer p f k) = sem_queues k" "semus (upd_timer p f k) = semus k"
  "kswapd (upd_timer p f k) = kswapd k" "mm_count (upd_timer p f k) = mm_count k" "proc_mm_list (upd_timer p f k) = proc_mm_list k"
  "ticks (upd_timer p f k) = ticks k"
  by (simp_all add: upd_timer_def)

lemma upd_wait_fields [simp]:
  "current (upd_wait p f k) = current k" "idleproc (upd_wait p f k) = idleproc k"
  "run_list (upd_wait p f k) = run_list k"
  "proc_num (upd_wait p f k) = proc_num k" "max_time_slice (upd_wait p f k) = max_time_slice k"
  "rq_link (upd_wait p f k) = rq_link k" "wait_list (upd_wait p f k) = wait_list k"
  "waits (upd_wait w h k) = (waits k)(w := h (waits k w))"
  "timer_list (upd_wait p f k) = timer_list k" "timers (upd_wait p f k) = timers k"
  "sems (upd_wait p f k) = sems k"
  "initproc (upd_wait p f k) = initproc k" "proc_list (upd_wait p f k) = proc_list k" "hash_list (upd_wait p f k) = hash_list k"
  "nr_process (upd_wait p f k) = nr_process k" "tgroup (upd_wait p f k) = tgroup k" "next_safe (upd_wait p f k) = next_safe k"
  "last_pid (upd_wait p f k) = last_pid k" "sem_queues (upd_wait p f k) = sem_queues k" "semus (upd_wait p f k) = semus k"
  "kswapd (upd_wait p f k) = kswapd k" "mm_count (upd_wait p f k) = mm_count k" "proc_mm_list (upd_wait p f k) = proc_mm_list k"
  "ticks (upd_wait p f k) = ticks k"
  by (simp_all add: upd_wait_def)

lemma upd_sem_fields [simp]:
  "current (upd_sem p f k) = current k" "idleproc (upd_sem p f k) = idleproc k"
  "run_list (upd_sem p f k) = run_list k" "procs (upd_sem p f k) = procs k"
  "proc_num (upd_sem p f k) = proc_num k" "max_time_slice (upd_sem p f k) = max_time_slice k"
  "rq_link (upd_sem p f k) = rq_link k" "wait_list (upd_sem p f k) = wait_list k"
  "waits (upd_sem p f k) = waits k"
  "timer_list (upd_sem p f k) = timer_list k" "timers (upd_sem p f k) = timers k"
  "sems (upd_sem s g k) = (sems k)(s := g (sems k s))"
  "initproc (upd_sem p f k) = initproc k" "proc_list (upd_sem p f k) = proc_list k" "hash_list (upd_sem p f k) = hash_list k"
  "nr_process (upd_sem p f k) = nr_process k" "tgroup (upd_sem p f k) = tgroup k" "next_safe (upd_sem p f k) = next_safe k"
  "last_pid (upd_sem p f k) = last_pid k" "sem_queues (upd_sem p f k) = sem_queues k" "semus (upd_sem p f k) = semus k"
  "kswapd (upd_sem p f k) = kswapd k" "mm_count (upd_sem p f k) = mm_count k" "proc_mm_list (upd_sem p f k) = proc_mm_list k"
  "ticks (upd_sem p f k) = ticks k"
  by (simp_all add: upd_sem_def)

section \<open>Initial values\<close>

text \<open>The fields \<open>alloc_proc\<close> sets (\<open>proc.c\<close>).\<close>

definition new_proc :: "u32 \<Rightarrow> proc_struct" where
  "new_proc boot_cr3 = \<lparr>state = PROC_UNINIT, pid = - 1, runs = 0, kstack = 0, need_resched = False,
     parent = None, mm = None, cr3 = boot_cr3, flags = 0, exit_code = 0, wait_state = 0,
     cptr = None, yptr = None, optr = None, rq = None, time_slice = 0, sem_queue = None, event = 0\<rparr>"

text \<open>The zeroed data segment.\<close>

definition kern0 :: kern where
  "kern0 = \<lparr>procs = (\<lambda>_. new_proc 0), current = 0, idleproc = 0, initproc = 0, kswapd = 0,
     proc_list = [], hash_list = (\<lambda>_. []), nr_process = 0, next_safe = MAX_PID, last_pid = MAX_PID,
     tgroup = \<lparr>prev = (\<lambda>p. p), next = (\<lambda>p. p)\<rparr>, run_list = (\<lambda>_. []), proc_num = (\<lambda>_. 0),
     max_time_slice = (\<lambda>_. 0), rq_link = \<lparr>prev = (\<lambda>q. q), next = (\<lambda>q. q)\<rparr>,
     timer_list = [], timers = (\<lambda>_. \<lparr>expires = 0, t_proc = None\<rparr>),
     wait_list = (\<lambda>_. []), waits = (\<lambda>_. \<lparr>w_proc = None, wakeup_flags = 0, wait_queue = OtherQ 0\<rparr>),
     sems = (\<lambda>_. \<lparr>sem_value = 0, sem_valid = False, sem_count = 0\<rparr>),
     sem_queues = (\<lambda>_. \<lparr>sq_sem = 0, sq_count = 0, semu_list = []\<rparr>), semus = (\<lambda>_. 0),
     mm_count = (\<lambda>_. 0), proc_mm_list = [], esp0 = 0, cr3_reg = 0, ticks = 0\<rparr>"

end
