(* ===== verification/Sched.thy ===== *)
theory Sched
  imports KProc
begin

text \<open>
  The scheduler of \<open>kern/schedule\<close>: the core (\<open>sched.c\<close>), the three scheduling classes
  (\<open>sched_RR.c\<close>, \<open>sched_FCFS.c\<close>, \<open>sched_MLFQ.c\<close>) and the timers.  A scheduling class is a
  record of functions, as the C struct of function pointers is; the contract between the core
  and a class is the locale \<open>sched_policy\<close>, interpreted on all three.  Run queues are numbered
  0 to 3, the elements of the array \<open>__rq\<close>; queue 0 is the global \<open>rq\<close>.
\<close>

section \<open>Scheduling classes\<close>

abbreviation (input) "NRQ \<equiv> (4::nat)"

record sched_class =
  c_init :: "nat \<Rightarrow> kern \<Rightarrow> kern option"
  c_enqueue :: "nat \<Rightarrow> nat \<Rightarrow> kern \<Rightarrow> kern option"
  c_dequeue :: "nat \<Rightarrow> nat \<Rightarrow> kern \<Rightarrow> kern option"
  c_pick_next :: "nat \<Rightarrow> kern \<Rightarrow> nat option option"
  c_proc_tick :: "nat \<Rightarrow> nat \<Rightarrow> kern \<Rightarrow> kern option"

definition run_linked :: "kern \<Rightarrow> nat \<Rightarrow> bool" where
  "run_linked k p = (\<exists>q \<in> set [0..<NRQ]. p \<in> set (run_list k q))"

subsection \<open>First come, first served (sched_FCFS.c)\<close>

definition FCFS_init :: "nat \<Rightarrow> kern \<Rightarrow> kern option" where
  "FCFS_init q k = Some (k\<lparr>run_list := (run_list k)(q := []), proc_num := (proc_num k)(q := 0)\<rparr>)"

definition FCFS_enqueue :: "nat \<Rightarrow> nat \<Rightarrow> kern \<Rightarrow> kern option" where
  "FCFS_enqueue q p k = do {
     kassert (\<not> run_linked k p);
     let k = k\<lparr>run_list := (run_list k)(q := run_list k q @ [p])\<rparr>;
     let k = upd_proc p (\<lambda>pr. pr\<lparr>rq := Some q\<rparr>) k;
     Some (k\<lparr>proc_num := (proc_num k)(q := proc_num k q + 1)\<rparr>)
   }"

definition FCFS_dequeue :: "nat \<Rightarrow> nat \<Rightarrow> kern \<Rightarrow> kern option" where
  "FCFS_dequeue q p k = do {
     kassert (run_linked k p \<and> rq (procs k p) = Some q);
     let k = k\<lparr>run_list := (run_list k)(q := remove1 p (run_list k q))\<rparr>;
     Some (k\<lparr>proc_num := (proc_num k)(q := proc_num k q - 1)\<rparr>)
   }"

definition FCFS_pick_next :: "nat \<Rightarrow> kern \<Rightarrow> nat option option" where
  "FCFS_pick_next q k = Some (case run_list k q of [] \<Rightarrow> None | p # _ \<Rightarrow> Some p)"

definition FCFS_proc_tick :: "nat \<Rightarrow> nat \<Rightarrow> kern \<Rightarrow> kern option" where
  "FCFS_proc_tick q p k = Some k"

definition FCFS_sched_class :: sched_class where
  "FCFS_sched_class = \<lparr>c_init = FCFS_init, c_enqueue = FCFS_enqueue, c_dequeue = FCFS_dequeue,
     c_pick_next = FCFS_pick_next, c_proc_tick = FCFS_proc_tick\<rparr>"

subsection \<open>Round robin (sched_RR.c)\<close>

definition RR_init :: "nat \<Rightarrow> kern \<Rightarrow> kern option" where
  "RR_init q k = Some (k\<lparr>run_list := (run_list k)(q := []), proc_num := (proc_num k)(q := 0)\<rparr>)"

definition RR_enqueue :: "nat \<Rightarrow> nat \<Rightarrow> kern \<Rightarrow> kern option" where
  "RR_enqueue q p k = do {
     kassert (\<not> run_linked k p);
     let k = k\<lparr>run_list := (run_list k)(q := run_list k q @ [p])\<rparr>;
     let k = (if time_slice (procs k p) = 0 \<or> time_slice (procs k p) > max_time_slice k q
              then upd_proc p (\<lambda>pr. pr\<lparr>time_slice := max_time_slice k q\<rparr>) k else k);
     let k = upd_proc p (\<lambda>pr. pr\<lparr>rq := Some q\<rparr>) k;
     Some (k\<lparr>proc_num := (proc_num k)(q := proc_num k q + 1)\<rparr>)
   }"

definition RR_dequeue :: "nat \<Rightarrow> nat \<Rightarrow> kern \<Rightarrow> kern option" where
  "RR_dequeue q p k = do {
     kassert (run_linked k p \<and> rq (procs k p) = Some q);
     let k = k\<lparr>run_list := (run_list k)(q := remove1 p (run_list k q))\<rparr>;
     Some (k\<lparr>proc_num := (proc_num k)(q := proc_num k q - 1)\<rparr>)
   }"

definition RR_pick_next :: "nat \<Rightarrow> kern \<Rightarrow> nat option option" where
  "RR_pick_next q k = Some (case run_list k q of [] \<Rightarrow> None | p # _ \<Rightarrow> Some p)"

definition RR_proc_tick :: "nat \<Rightarrow> nat \<Rightarrow> kern \<Rightarrow> kern option" where
  "RR_proc_tick q p k =
    (let k = (if time_slice (procs k p) > 0
              then upd_proc p (\<lambda>pr. pr\<lparr>time_slice := time_slice pr - 1\<rparr>) k else k)
     in Some (if time_slice (procs k p) = 0
              then upd_proc p (\<lambda>pr. pr\<lparr>need_resched := True\<rparr>) k else k))"

definition RR_sched_class :: sched_class where
  "RR_sched_class = \<lparr>c_init = RR_init, c_enqueue = RR_enqueue, c_dequeue = RR_dequeue,
     c_pick_next = RR_pick_next, c_proc_tick = RR_proc_tick\<rparr>"

subsection \<open>Multi-level feedback queue (sched_MLFQ.c)\<close>

text \<open>The class of the levels, the static variable \<open>sched_class\<close> of the file, is round robin.
  The two \<open>do ... while (le != list)\<close> loops go round the ring of run queues.\<close>

partial_function (option) MLFQ_init_loop :: "nat \<Rightarrow> nat \<Rightarrow> kern \<Rightarrow> kern option" where
  "MLFQ_init_loop lst le k = do {
     k \<leftarrow> RR_init le k;
     let le = list_next (rq_link k) le;
     (if le \<noteq> lst then MLFQ_init_loop lst le k else Some k)
   }"

definition MLFQ_init :: "nat \<Rightarrow> kern \<Rightarrow> kern option" where
  "MLFQ_init q k = MLFQ_init_loop q q k"

definition MLFQ_enqueue :: "nat \<Rightarrow> nat \<Rightarrow> kern \<Rightarrow> kern option" where
  "MLFQ_enqueue q p k = do {
     kassert (\<not> run_linked k p);
     let nrq = (case rq (procs k p) of
         None \<Rightarrow> q
       | Some prq \<Rightarrow>
           if time_slice (procs k p) = 0
           then (let nrq = list_next (rq_link k) prq in if nrq = q then prq else nrq)
           else q);
     RR_enqueue nrq p k
   }"

definition MLFQ_dequeue :: "nat \<Rightarrow> nat \<Rightarrow> kern \<Rightarrow> kern option" where
  "MLFQ_dequeue q p k = do {
     kassert (run_linked k p);
     prq \<leftarrow> rq (procs k p);
     RR_dequeue prq p k
   }"

partial_function (option) MLFQ_pick_loop :: "nat \<Rightarrow> nat \<Rightarrow> kern \<Rightarrow> nat option option" where
  "MLFQ_pick_loop lst le k = do {
     next \<leftarrow> RR_pick_next le k;
     (if next \<noteq> None then Some next
      else (let le = list_next (rq_link k) le
            in if le \<noteq> lst then MLFQ_pick_loop lst le k else Some next))
   }"

definition MLFQ_pick_next :: "nat \<Rightarrow> kern \<Rightarrow> nat option option" where
  "MLFQ_pick_next q k = MLFQ_pick_loop q q k"

definition MLFQ_proc_tick :: "nat \<Rightarrow> nat \<Rightarrow> kern \<Rightarrow> kern option" where
  "MLFQ_proc_tick q p k = RR_proc_tick (case rq (procs k p) of Some prq \<Rightarrow> prq | None \<Rightarrow> q) p k"

definition MLFQ_sched_class :: sched_class where
  "MLFQ_sched_class = \<lparr>c_init = MLFQ_init, c_enqueue = MLFQ_enqueue, c_dequeue = MLFQ_dequeue,
     c_pick_next = MLFQ_pick_next, c_proc_tick = MLFQ_proc_tick\<rparr>"

section \<open>The core (sched.c)\<close>

definition sched_class_enqueue :: "sched_class \<Rightarrow> nat \<Rightarrow> kern \<Rightarrow> kern option" where
  "sched_class_enqueue cls p k = (if p \<noteq> idleproc k then c_enqueue cls 0 p k else Some k)"

definition sched_class_dequeue :: "sched_class \<Rightarrow> nat \<Rightarrow> kern \<Rightarrow> kern option" where
  "sched_class_dequeue cls p k = c_dequeue cls 0 p k"

definition sched_class_pick_next :: "sched_class \<Rightarrow> kern \<Rightarrow> nat option option" where
  "sched_class_pick_next cls k = c_pick_next cls 0 k"

definition sched_class_proc_tick :: "sched_class \<Rightarrow> nat \<Rightarrow> kern \<Rightarrow> kern option" where
  "sched_class_proc_tick cls p k =
    (if p \<noteq> idleproc k then c_proc_tick cls 0 p k
     else Some (upd_proc p (\<lambda>pr. pr\<lparr>need_resched := True\<rparr>) k))"

definition sched_init :: "sched_class \<Rightarrow> kern \<Rightarrow> kern option" where
  "sched_init cls k =
    (let k = k\<lparr>timer_list := [], rq_link := list_init 0 (rq_link k),
               max_time_slice := (max_time_slice k)(0 := 8)\<rparr>;
         k = fold (\<lambda>i k. k\<lparr>rq_link := list_add_before 0 i (rq_link k),
               max_time_slice := (max_time_slice k)(i := max_time_slice k 0 * 2 ^ i)\<rparr>) [1..<NRQ] k
     in c_init cls 0 k)"

definition wakeup_proc :: "sched_class \<Rightarrow> nat \<Rightarrow> kern \<Rightarrow> kern option" where
  "wakeup_proc cls p k = do {
     kassert (state (procs k p) \<noteq> PROC_ZOMBIE);
     (if state (procs k p) \<noteq> PROC_RUNNABLE
      then (let k = upd_proc p (\<lambda>pr. pr\<lparr>state := PROC_RUNNABLE, wait_state := 0\<rparr>) k
            in if p \<noteq> current k then sched_class_enqueue cls p k else Some k)
      else Some k)
   }"

text \<open>\<open>proc_run\<close> of \<open>proc.c\<close>; \<open>switch_to\<close> exchanges the kernel contexts, after which the
  processor runs as \<open>current\<close>.\<close>

definition proc_run :: "nat \<Rightarrow> kern \<Rightarrow> kern" where
  "proc_run p k =
    (if p \<noteq> current k
     then k\<lparr>current := p, esp0 := kstack (procs k p) + KSTACKSIZE, cr3_reg := cr3 (procs k p)\<rparr>
     else k)"

definition schedule :: "sched_class \<Rightarrow> kern \<Rightarrow> kern option" where
  "schedule cls k = do {
     let k = upd_proc (current k) (\<lambda>pr. pr\<lparr>need_resched := False\<rparr>) k;
     k \<leftarrow> (if state (procs k (current k)) = PROC_RUNNABLE then sched_class_enqueue cls (current k) k
           else Some k);
     next \<leftarrow> sched_class_pick_next cls k;
     k \<leftarrow> (case next of Some p \<Rightarrow> sched_class_dequeue cls p k | None \<Rightarrow> Some k);
     let p = (case next of Some p \<Rightarrow> p | None \<Rightarrow> idleproc k);
     let k = upd_proc p (\<lambda>pr. pr\<lparr>runs := runs pr + 1\<rparr>) k;
     Some (if p \<noteq> current k then proc_run p k else k)
   }"

section \<open>Timers (sched.c)\<close>

definition timer_init :: "nat \<Rightarrow> nat \<Rightarrow> nat \<Rightarrow> kern \<Rightarrow> kern" where
  "timer_init t p ex k = upd_timer t (\<lambda>_. \<lparr>expires = ex, t_proc = Some p\<rparr>) k"

text \<open>The loop of \<open>add_timer\<close> over the rest of the list; the new timer is linked before the
  element the loop stops at.\<close>

fun timer_insert :: "nat \<Rightarrow> nat list \<Rightarrow> kern \<Rightarrow> nat list \<times> kern" where
  "timer_insert t [] k = ([t], k)"
| "timer_insert t (n # ns) k =
    (if expires (timers k t) < expires (timers k n)
     then (t # n # ns, upd_timer n (\<lambda>tm. tm\<lparr>expires := expires tm - expires (timers k t)\<rparr>) k)
     else (let k = upd_timer t (\<lambda>tm. tm\<lparr>expires := expires tm - expires (timers k n)\<rparr>) k;
               (ts, k) = timer_insert t ns k
           in (n # ts, k)))"

definition add_timer :: "nat \<Rightarrow> kern \<Rightarrow> kern option" where
  "add_timer t k = do {
     kassert (expires (timers k t) > 0 \<and> t_proc (timers k t) \<noteq> None);
     kassert (t \<notin> set (timer_list k));
     let (ts, k) = timer_insert t (timer_list k) k;
     Some (k\<lparr>timer_list := ts\<rparr>)
   }"

definition del_timer :: "nat \<Rightarrow> kern \<Rightarrow> kern" where
  "del_timer t k =
    (if t \<in> set (timer_list k) then
       (let k = (if expires (timers k t) \<noteq> 0 then
                   (case succ_of t (timer_list k) of
                      Some n \<Rightarrow> upd_timer n (\<lambda>tm. tm\<lparr>expires := expires tm + expires (timers k t)\<rparr>) k
                    | None \<Rightarrow> k)
                 else k)
        in k\<lparr>timer_list := remove1 t (timer_list k)\<rparr>)
     else k)"

text \<open>The loop \<open>while (timer->expires == 0)\<close> of \<open>run_timer_list\<close>: its first argument is the
  list from the current timer on, \<open>le\<close> its tail.\<close>

fun expire_timers :: "sched_class \<Rightarrow> nat list \<Rightarrow> kern \<Rightarrow> kern option" where
  "expire_timers cls [] k = Some k"
| "expire_timers cls (t # ts) k =
    (if expires (timers k t) = 0 then do {
       p \<leftarrow> t_proc (timers k t);
       kassert (wait_state (procs k p) \<noteq> 0 \<longrightarrow> wait_state (procs k p) AND WT_INTERRUPTED \<noteq> 0);
       k \<leftarrow> wakeup_proc cls p k;
       expire_timers cls ts (del_timer t k)
     }
     else Some k)"

definition run_timer_list :: "sched_class \<Rightarrow> kern \<Rightarrow> kern option" where
  "run_timer_list cls k = do {
     k \<leftarrow> (case timer_list k of
        [] \<Rightarrow> Some k
      | t # ts \<Rightarrow> do {
          kassert (expires (timers k t) \<noteq> 0);
          expire_timers cls (t # ts) (upd_timer t (\<lambda>tm. tm\<lparr>expires := expires tm - 1\<rparr>) k)
        });
     sched_class_proc_tick cls (current k) k
   }"

section \<open>The contract between the core and a class\<close>

text \<open>What a class operation may change: the run queues and the scheduling fields of processes.\<close>

definition sframe :: "kern \<Rightarrow> kern \<Rightarrow> bool" where
  "sframe k k' \<longleftrightarrow> k' = k\<lparr>run_list := run_list k', proc_num := proc_num k', procs := procs k'\<rparr> \<and>
     (\<forall>p. procs k' p = (procs k p)\<lparr>rq := rq (procs k' p), time_slice := time_slice (procs k' p),
        need_resched := need_resched (procs k' p)\<rparr>)"

lemma sframe_refl [simp]: "sframe k k"
  by (simp add: sframe_def)

lemma sframe_fields:
  assumes "sframe k k'"
  shows "current k' = current k" "idleproc k' = idleproc k" "rq_link k' = rq_link k"
    "max_time_slice k' = max_time_slice k" "timer_list k' = timer_list k" "timers k' = timers k"
    "wait_list k' = wait_list k" "waits k' = waits k" "tgroup k' = tgroup k" "initproc k' = initproc k"
    "proc_list k' = proc_list k" "hash_list k' = hash_list k" "nr_process k' = nr_process k"
    "next_safe k' = next_safe k" "last_pid k' = last_pid k" "sems k' = sems k" "ticks k' = ticks k"
    "sem_queues k' = sem_queues k" "semus k' = semus k" "kswapd k' = kswapd k"
    "mm_count k' = mm_count k" "proc_mm_list k' = proc_mm_list k"
proof -
  from assms have e: "k' = k\<lparr>run_list := run_list k', proc_num := proc_num k', procs := procs k'\<rparr>"
    by (simp add: sframe_def)
  show "current k' = current k" "idleproc k' = idleproc k" "rq_link k' = rq_link k"
    "max_time_slice k' = max_time_slice k" "timer_list k' = timer_list k" "timers k' = timers k"
    "wait_list k' = wait_list k" "waits k' = waits k" "tgroup k' = tgroup k" "initproc k' = initproc k"
    "proc_list k' = proc_list k" "hash_list k' = hash_list k" "nr_process k' = nr_process k"
    "next_safe k' = next_safe k" "last_pid k' = last_pid k" "sems k' = sems k" "ticks k' = ticks k"
    "sem_queues k' = sem_queues k" "semus k' = semus k" "kswapd k' = kswapd k"
    "mm_count k' = mm_count k" "proc_mm_list k' = proc_mm_list k"
    by (subst e, simp)+
qed

lemma sframe_proc:
  assumes "sframe k k'"
  shows "state (procs k' p) = state (procs k p)" "wait_state (procs k' p) = wait_state (procs k p)"
    "pid (procs k' p) = pid (procs k p)" "runs (procs k' p) = runs (procs k p)"
    "flags (procs k' p) = flags (procs k p)" "parent (procs k' p) = parent (procs k p)"
    "cptr (procs k' p) = cptr (procs k p)" "yptr (procs k' p) = yptr (procs k p)"
    "optr (procs k' p) = optr (procs k p)" "exit_code (procs k' p) = exit_code (procs k p)"
    "mm (procs k' p) = mm (procs k p)"
proof -
  from assms have e: "procs k' p = (procs k p)\<lparr>rq := rq (procs k' p), time_slice := time_slice (procs k' p),
        need_resched := need_resched (procs k' p)\<rparr>"
    by (simp add: sframe_def)
  show "state (procs k' p) = state (procs k p)" "wait_state (procs k' p) = wait_state (procs k p)"
    "pid (procs k' p) = pid (procs k p)" "runs (procs k' p) = runs (procs k p)"
    "flags (procs k' p) = flags (procs k p)" "parent (procs k' p) = parent (procs k p)"
    "cptr (procs k' p) = cptr (procs k p)" "yptr (procs k' p) = yptr (procs k p)"
    "optr (procs k' p) = optr (procs k p)" "exit_code (procs k' p) = exit_code (procs k p)"
    "mm (procs k' p) = mm (procs k p)"
    by (subst e, simp)+
qed

text \<open>What scheduling and waking leave alone: the process tree, the process list, the hash table and
  the thread groups; a process may become runnable, with its wait state cleared.\<close>

definition tframe :: "kern \<Rightarrow> kern \<Rightarrow> bool" where
  "tframe k k' \<longleftrightarrow> idleproc k' = idleproc k \<and> initproc k' = initproc k \<and> tgroup k' = tgroup k \<and>
     proc_list k' = proc_list k \<and> hash_list k' = hash_list k \<and> nr_process k' = nr_process k \<and>
     (\<forall>p. parent (procs k' p) = parent (procs k p) \<and> cptr (procs k' p) = cptr (procs k p) \<and>
        yptr (procs k' p) = yptr (procs k p) \<and> optr (procs k' p) = optr (procs k p) \<and>
        pid (procs k' p) = pid (procs k p) \<and> flags (procs k' p) = flags (procs k p) \<and>
        exit_code (procs k' p) = exit_code (procs k p))"

definition pframe :: "kern \<Rightarrow> kern \<Rightarrow> bool" where
  "pframe k k' \<longleftrightarrow> tframe k k' \<and> current k' = current k \<and>
     (\<forall>p. state (procs k' p) = state (procs k p) \<and> wait_state (procs k' p) = wait_state (procs k p) \<or>
        state (procs k p) \<noteq> PROC_ZOMBIE \<and> state (procs k' p) = PROC_RUNNABLE \<and> wait_state (procs k' p) = 0)"

lemma tframe_trans [trans]: "tframe k1 k2 \<Longrightarrow> tframe k2 k3 \<Longrightarrow> tframe k1 k3"
  by (simp add: tframe_def)

lemma pframe_refl [simp]: "pframe k k"
  by (simp add: pframe_def tframe_def)

lemma pframe_trans [trans]:
  assumes "pframe k1 k2" "pframe k2 k3"
  shows "pframe k1 k3"
proof -
  have "tframe k1 k3" "current k3 = current k1" using assms tframe_trans by (auto simp: pframe_def)
  moreover have "state (procs k3 p) = state (procs k1 p) \<and> wait_state (procs k3 p) = wait_state (procs k1 p) \<or>
     state (procs k1 p) \<noteq> PROC_ZOMBIE \<and> state (procs k3 p) = PROC_RUNNABLE \<and> wait_state (procs k3 p) = 0" for p
    using assms unfolding pframe_def by (metis (no_types))
  ultimately show ?thesis by (simp add: pframe_def)
qed

lemma sframe_tframe: "sframe k k' \<Longrightarrow> tframe k k'"
  by (simp add: tframe_def sframe_fields sframe_proc)

text \<open>What the invariant of a class may depend on.\<close>

definition same_rq :: "kern \<Rightarrow> kern \<Rightarrow> bool" where
  "same_rq k k' \<longleftrightarrow> run_list k' = run_list k \<and> proc_num k' = proc_num k \<and> rq_link k' = rq_link k \<and>
     (\<forall>p. rq (procs k' p) = rq (procs k p))"

lemma same_rq_linked: "same_rq k k' \<Longrightarrow> run_linked k' p = run_linked k p"
  by (simp add: same_rq_def run_linked_def)

lemma same_rq_upd: "(\<And>pr. rq (f pr) = rq pr) \<Longrightarrow> same_rq k (upd_proc p f k)"
  by (simp add: same_rq_def)

text \<open>No process is lost or queued twice: exactly the runnable processes other than the running
  one and the idle process are queued.\<close>

definition sched_inv :: "kern \<Rightarrow> bool" where
  "sched_inv k \<longleftrightarrow>
    (\<forall>p. run_linked k p \<longleftrightarrow> state (procs k p) = PROC_RUNNABLE \<and> p \<noteq> current k \<and> p \<noteq> idleproc k)"

locale sched_policy =
  fixes cls :: sched_class
    and inv :: "kern \<Rightarrow> bool"
  assumes enqueue_law: "inv k \<Longrightarrow> \<not> run_linked k p \<Longrightarrow>
      \<exists>k'. c_enqueue cls 0 p k = Some k' \<and> inv k' \<and> sframe k k' \<and> (\<forall>q. run_linked k' q \<longleftrightarrow> q = p \<or> run_linked k q)"
    and dequeue_law: "inv k \<Longrightarrow> run_linked k p \<Longrightarrow>
      \<exists>k'. c_dequeue cls 0 p k = Some k' \<and> inv k' \<and> sframe k k' \<and> (\<forall>q. run_linked k' q \<longleftrightarrow> q \<noteq> p \<and> run_linked k q)"
    and pick_law: "inv k \<Longrightarrow>
      \<exists>r. c_pick_next cls 0 k = Some r \<and> (case r of None \<Rightarrow> \<forall>p. \<not> run_linked k p | Some p \<Rightarrow> run_linked k p)"
    and tick_law: "inv k \<Longrightarrow>
      \<exists>k'. c_proc_tick cls 0 p k = Some k' \<and> sframe k k' \<and> same_rq k k'"
    and inv_frame: "inv k \<Longrightarrow> same_rq k k' \<Longrightarrow> inv k'"
begin

lemma wakeup_ok:
  assumes "inv k" "sched_inv k" "state (procs k p) \<noteq> PROC_ZOMBIE"
  shows "\<exists>k'. wakeup_proc cls p k = Some k' \<and> inv k' \<and> sched_inv k'
    \<and> sframe (if state (procs k p) \<noteq> PROC_RUNNABLE
        then upd_proc p (\<lambda>pr. pr\<lparr>state := PROC_RUNNABLE, wait_state := 0\<rparr>) k else k) k'"
proof (cases "state (procs k p) = PROC_RUNNABLE")
  case True
  then show ?thesis using assms by (simp add: wakeup_proc_def sframe_def)
next
  case False
  let ?k = "upd_proc p (\<lambda>pr. pr\<lparr>state := PROC_RUNNABLE, wait_state := 0\<rparr>) k"
  have sr: "same_rq k ?k" by (rule same_rq_upd) simp
  then have inv: "inv ?k" and lk: "\<And>q. run_linked ?k q = run_linked k q"
    using inv_frame[OF assms(1)] same_rq_linked by auto
  have nl: "\<not> run_linked ?k p" using lk assms(2) False by (simp add: sched_inv_def)
  show ?thesis
  proof (cases "p \<noteq> current k \<and> p \<noteq> idleproc k")
    case True
    from enqueue_law[OF inv nl] obtain k' where
      k': "c_enqueue cls 0 p ?k = Some k'" "inv k'" "sframe ?k k'"
        "\<forall>q. run_linked k' q \<longleftrightarrow> q = p \<or> run_linked ?k q" by blast
    have "sched_inv k'"
      using assms(2) k'(4) lk sframe_fields(1,2)[OF k'(3)] sframe_proc(1)[OF k'(3)] True
      by (auto simp: sched_inv_def)
    with k' True False assms(3) show ?thesis by (simp add: wakeup_proc_def sched_class_enqueue_def)
  next
    case other: False
    have "sched_inv ?k" using assms(2) lk other by (auto simp: sched_inv_def)
    moreover have "wakeup_proc cls p k = Some ?k"
      using other False assms(3) by (auto simp: wakeup_proc_def sched_class_enqueue_def Let_def)
    ultimately show ?thesis using inv False by simp
  qed
qed

lemma wakeup_pframe:
  assumes "inv k" "sched_inv k" "state (procs k p) \<noteq> PROC_ZOMBIE"
  shows "\<exists>k'. wakeup_proc cls p k = Some k' \<and> inv k' \<and> sched_inv k' \<and> pframe k k'
    \<and> state (procs k' p) = PROC_RUNNABLE \<and> wait_list k' = wait_list k \<and> waits k' = waits k"
proof -
  let ?u = "if state (procs k p) \<noteq> PROC_RUNNABLE
        then upd_proc p (\<lambda>pr. pr\<lparr>state := PROC_RUNNABLE, wait_state := 0\<rparr>) k else k"
  from wakeup_ok[OF assms] obtain k' where
    k': "wakeup_proc cls p k = Some k'" "inv k'" "sched_inv k'" "sframe ?u k'" by blast
  have "pframe k ?u" using assms(3) by (simp add: pframe_def tframe_def)
  moreover have "pframe ?u k'"
    using sframe_tframe[OF k'(4)] by (simp only: pframe_def sframe_fields[OF k'(4)] sframe_proc[OF k'(4)]) simp
  ultimately have "pframe k k'" by (rule pframe_trans)
  with k' show ?thesis
    by (simp add: sframe_fields[OF k'(4)] sframe_proc[OF k'(4)])
qed

lemma tick_ok:
  assumes "inv k" "sched_inv k"
  shows "\<exists>k'. sched_class_proc_tick cls p k = Some k' \<and> inv k' \<and> sched_inv k' \<and> sframe k k'"
proof (cases "p = idleproc k")
  case True
  let ?k = "upd_proc p (\<lambda>pr. pr\<lparr>need_resched := True\<rparr>) k"
  have sr: "same_rq k ?k" by (rule same_rq_upd) simp
  have "sframe k ?k" by (simp add: sframe_def upd_proc_def)
  with True assms inv_frame[OF assms(1) sr] same_rq_linked[OF sr] show ?thesis
    by (simp add: sched_class_proc_tick_def sched_inv_def)
next
  case False
  from tick_law[OF assms(1), of p] obtain k' where
    k': "c_proc_tick cls 0 p k = Some k'" "sframe k k'" "same_rq k k'" by blast
  then have "sched_inv k'"
    using assms(2) sframe_fields(1,2)[OF k'(2)] sframe_proc(1)[OF k'(2)] same_rq_linked[OF k'(3)]
    by (simp add: sched_inv_def)
  with False k' inv_frame[OF assms(1) k'(3)] show ?thesis by (simp add: sched_class_proc_tick_def)
qed

text \<open>\<open>schedule\<close> returns, keeps every process queued that has to be, and runs the idle process
  only if no other process is runnable.\<close>

lemma schedule_ok:
  assumes "inv k" "sched_inv k"
  shows "\<exists>k'. schedule cls k = Some k' \<and> inv k' \<and> sched_inv k' \<and> idleproc k' = idleproc k
    \<and> (\<forall>p. state (procs k' p) = state (procs k p) \<and> wait_state (procs k' p) = wait_state (procs k p))
    \<and> timer_list k' = timer_list k \<and> timers k' = timers k \<and> tframe k k'
    \<and> (if current k' = idleproc k then \<forall>p. state (procs k p) = PROC_RUNNABLE \<longrightarrow> p = idleproc k
       else state (procs k (current k')) = PROC_RUNNABLE)"
proof -
  let ?c = "current k"
  let ?k = "upd_proc ?c (\<lambda>pr. pr\<lparr>need_resched := False\<rparr>) k"
  have sr: "same_rq k ?k" by (rule same_rq_upd) simp
  have inv1: "inv ?k" by (rule inv_frame[OF assms(1) sr])
  have f1: "sframe k ?k" by (simp add: sframe_def upd_proc_def)
  define want where "want \<longleftrightarrow> state (procs k ?c) = PROC_RUNNABLE \<and> ?c \<noteq> idleproc k"
  have nl: "\<not> run_linked ?k ?c" using assms(2) same_rq_linked[OF sr] by (simp add: sched_inv_def)
  have "\<exists>k2. (if state (procs ?k (current ?k)) = PROC_RUNNABLE then sched_class_enqueue cls (current ?k) ?k
         else Some ?k) = Some k2 \<and> inv k2 \<and> sframe ?k k2
       \<and> (\<forall>q. run_linked k2 q \<longleftrightarrow> (q = ?c \<and> want) \<or> run_linked k q)"
  proof (cases want)
    case True
    with enqueue_law[OF inv1 nl] same_rq_linked[OF sr] show ?thesis
      by (simp add: sched_class_enqueue_def want_def)
  next
    case False
    then show ?thesis using inv1 same_rq_linked[OF sr]
      by (auto simp: sched_class_enqueue_def want_def sframe_def)
  qed
  then obtain k2 where k2: "(if state (procs ?k (current ?k)) = PROC_RUNNABLE
      then sched_class_enqueue cls (current ?k) ?k else Some ?k) = Some k2" "inv k2" "sframe ?k k2"
      "\<forall>q. run_linked k2 q \<longleftrightarrow> (q = ?c \<and> want) \<or> run_linked k q" by blast
  have linked2: "run_linked k2 q \<longleftrightarrow> state (procs k q) = PROC_RUNNABLE \<and> q \<noteq> idleproc k" for q
    using k2(4) assms(2) by (auto simp: sched_inv_def want_def)
  note fl = sframe_fields[OF k2(3)] sframe_fields[OF f1]
  note fp = sframe_proc[OF k2(3)] sframe_proc[OF f1]
  from pick_law[OF k2(2)] obtain r where r: "sched_class_pick_next cls k2 = Some r"
    "case r of None \<Rightarrow> \<forall>p. \<not> run_linked k2 p | Some p \<Rightarrow> run_linked k2 p"
    by (auto simp: sched_class_pick_next_def)
  let ?p = "case r of Some p \<Rightarrow> p | None \<Rightarrow> idleproc k"
  have "\<exists>k3. (case r of Some p \<Rightarrow> sched_class_dequeue cls p k2 | None \<Rightarrow> Some k2) = Some k3 \<and> inv k3
      \<and> sframe k2 k3 \<and> (\<forall>q. run_linked k3 q \<longleftrightarrow> q \<noteq> ?p \<and> run_linked k2 q)"
  proof (cases r)
    case None
    with k2 r(2) show ?thesis by (simp add: sframe_def)
  next
    case (Some p)
    with r(2) dequeue_law[OF k2(2), of p] show ?thesis by (simp add: sched_class_dequeue_def)
  qed
  then obtain k3 where k3: "(case r of Some p \<Rightarrow> sched_class_dequeue cls p k2 | None \<Rightarrow> Some k2) = Some k3"
      "inv k3" "sframe k2 k3" "\<forall>q. run_linked k3 q \<longleftrightarrow> q \<noteq> ?p \<and> run_linked k2 q" by blast
  note gl = sframe_fields[OF k3(3)] and gp = sframe_proc[OF k3(3)]
  let ?k4 = "upd_proc ?p (\<lambda>pr. pr\<lparr>runs := runs pr + 1\<rparr>) k3"
  let ?k5 = "if ?p \<noteq> current ?k4 then proc_run ?p ?k4 else ?k4"
  have cur: "current ?k5 = ?p" by (simp add: proc_run_def)
  have id3: "idleproc k3 = idleproc k" using fl gl by simp
  have keep: "idleproc ?k5 = idleproc k" "timer_list ?k5 = timer_list k" "timers ?k5 = timers k"
    "\<And>p. state (procs ?k5 p) = state (procs k p)" "\<And>p. wait_state (procs ?k5 p) = wait_state (procs k p)"
    using fl gl fp gp by (simp_all add: proc_run_def)
  have "tframe k3 ?k5" by (simp add: tframe_def proc_run_def)
  then have tf: "tframe k ?k5"
    using tframe_trans sframe_tframe[OF f1] sframe_tframe[OF k2(3)] sframe_tframe[OF k3(3)] by blast
  have sr5: "same_rq k3 ?k5" by (simp add: same_rq_def proc_run_def)
  have i5: "inv ?k5" by (rule inv_frame[OF k3(2) sr5])
  have l5: "run_linked ?k5 q \<longleftrightarrow> q \<noteq> ?p \<and> state (procs k q) = PROC_RUNNABLE \<and> q \<noteq> idleproc k" for q
    using same_rq_linked[OF sr5] k3(4) linked2 by simp
  have "sched_inv ?k5" unfolding sched_inv_def l5 cur keep by auto
  moreover have "schedule cls k = Some ?k5"
    using k2(1) r(1) k3(1) fl(2) unfolding schedule_def Let_def
    by (cases r) (simp_all add: id3)
  moreover have "if current ?k5 = idleproc k then \<forall>p. state (procs k p) = PROC_RUNNABLE \<longrightarrow> p = idleproc k
      else state (procs k (current ?k5)) = PROC_RUNNABLE"
    unfolding cur using r(2) linked2 by (cases r) auto
  ultimately show ?thesis using i5
    by (intro exI[of _ ?k5] conjI allI) (assumption | rule keep tf)+
qed

end

section \<open>The three classes keep the contract\<close>

definition rq_ok :: "kern \<Rightarrow> bool" where
  "rq_ok k \<longleftrightarrow> (\<forall>q < NRQ. distinct (run_list k q) \<and> proc_num k q = length (run_list k q) \<and>
     (\<forall>p \<in> set (run_list k q). rq (procs k p) = Some q))"

text \<open>Only the global queue is used (first come first served, round robin).\<close>

definition single_ok :: "kern \<Rightarrow> bool" where
  "single_ok k \<longleftrightarrow> rq_ok k \<and> (\<forall>q. 0 < q \<and> q < NRQ \<longrightarrow> run_list k q = [])"

text \<open>The ring of levels that \<open>sched_init\<close> builds.\<close>

definition mlfq_ok :: "kern \<Rightarrow> bool" where
  "mlfq_ok k \<longleftrightarrow> rq_ok k \<and> (\<forall>q < NRQ. list_next (rq_link k) q = (q + 1) mod NRQ) \<and>
     (\<forall>p q. rq (procs k p) = Some q \<longrightarrow> q < NRQ)"

lemma run_linked_iff: "run_linked k p \<longleftrightarrow> (\<exists>q < NRQ. p \<in> set (run_list k q))"
  unfolding run_linked_def by (metis atLeastLessThan_iff atLeast_upt lessThan_iff)

lemma linked_rq:
  "rq_ok k \<Longrightarrow> run_linked k p \<Longrightarrow> \<exists>q < NRQ. rq (procs k p) = Some q \<and> p \<in> set (run_list k q)"
  by (auto simp: rq_ok_def run_linked_iff)

lemma rq_ok_frame: "rq_ok k \<Longrightarrow> same_rq k k' \<Longrightarrow> rq_ok k'"
  by (simp add: rq_ok_def same_rq_def)

lemma append_ok:
  assumes "rq_ok k" "q < NRQ" "\<not> run_linked k p"
    and "run_list k' = (run_list k)(q := run_list k q @ [p])" "proc_num k' = (proc_num k)(q := proc_num k q + 1)"
    and "\<And>r. rq (procs k' r) = (if r = p then Some q else rq (procs k r))"
  shows "rq_ok k'" "run_linked k' r \<longleftrightarrow> r = p \<or> run_linked k r"
proof -
  show "rq_ok k'" using assms by (auto simp: rq_ok_def run_linked_iff)
  have m: "r \<in> set (run_list k' x) \<longleftrightarrow> x = q \<and> r = p \<or> r \<in> set (run_list k x)" for x
    by (auto simp: assms(4))
  show "run_linked k' r \<longleftrightarrow> r = p \<or> run_linked k r"
    unfolding run_linked_iff m using assms(2) by blast
qed

lemma RR_enqueue_ok:
  assumes "rq_ok k" "q < NRQ" "\<not> run_linked k p"
  shows "\<exists>k'. RR_enqueue q p k = Some k' \<and> rq_ok k' \<and> sframe k k' \<and> (\<forall>r. run_linked k' r \<longleftrightarrow> r = p \<or> run_linked k r)
    \<and> run_list k' = (run_list k)(q := run_list k q @ [p]) \<and> (\<forall>r. rq (procs k' r) = (if r = p then Some q else rq (procs k r)))
    \<and> time_slice (procs k' p) = (if time_slice (procs k p) = 0 \<or> time_slice (procs k p) > max_time_slice k q
        then max_time_slice k q else time_slice (procs k p))"
proof -
  obtain k' where k': "RR_enqueue q p k = Some k'"
    "run_list k' = (run_list k)(q := run_list k q @ [p])" "proc_num k' = (proc_num k)(q := proc_num k q + 1)"
    "\<forall>r. rq (procs k' r) = (if r = p then Some q else rq (procs k r))" "sframe k k'"
    "time_slice (procs k' p) = (if time_slice (procs k p) = 0 \<or> time_slice (procs k p) > max_time_slice k q
        then max_time_slice k q else time_slice (procs k p))"
    using assms(3) by (simp add: RR_enqueue_def Let_def sframe_def upd_proc_def)
  show ?thesis
    using k' append_ok[OF assms k'(2,3)] by simp
qed

lemma FCFS_enqueue_ok:
  assumes "rq_ok k" "q < NRQ" "\<not> run_linked k p"
  shows "\<exists>k'. FCFS_enqueue q p k = Some k' \<and> rq_ok k' \<and> sframe k k' \<and> (\<forall>r. run_linked k' r \<longleftrightarrow> r = p \<or> run_linked k r)
    \<and> run_list k' = (run_list k)(q := run_list k q @ [p])"
proof -
  obtain k' where k': "FCFS_enqueue q p k = Some k'"
    "run_list k' = (run_list k)(q := run_list k q @ [p])" "proc_num k' = (proc_num k)(q := proc_num k q + 1)"
    "\<forall>r. rq (procs k' r) = (if r = p then Some q else rq (procs k r))" "sframe k k'"
    using assms(3) by (simp add: FCFS_enqueue_def Let_def sframe_def upd_proc_def)
  show ?thesis
    using k' append_ok[OF assms k'(2,3)] by simp
qed

lemma remove_ok:
  assumes "rq_ok k" "run_linked k p" "rq (procs k p) = Some q"
    and "run_list k' = (run_list k)(q := remove1 p (run_list k q))" "proc_num k' = (proc_num k)(q := proc_num k q - 1)"
    and "procs k' = procs k"
  shows "rq_ok k'" "run_linked k' r \<longleftrightarrow> r \<noteq> p \<and> run_linked k r"
proof -
  from linked_rq[OF assms(1,2)] assms(3) have q: "q < NRQ" "p \<in> set (run_list k q)" by auto
  show "rq_ok k'" using assms(1,4,5,6) q by (auto simp: rq_ok_def length_remove1)
  have "p \<notin> set (run_list k q')" if "q' < NRQ" "q' \<noteq> q" for q'
    using assms(1,3) that by (auto simp: rq_ok_def)
  then have m: "r \<in> set (run_list k' x) \<longleftrightarrow> r \<noteq> p \<and> r \<in> set (run_list k x)" if "x < NRQ" for x
    using assms(1,4) q that by (auto simp: rq_ok_def)
  show "run_linked k' r \<longleftrightarrow> r \<noteq> p \<and> run_linked k r"
    using m by (auto simp: run_linked_iff)
qed

lemma RR_dequeue_ok:
  assumes "rq_ok k" "run_linked k p" "rq (procs k p) = Some q"
  shows "\<exists>k'. RR_dequeue q p k = Some k' \<and> rq_ok k' \<and> sframe k k' \<and> (\<forall>r. run_linked k' r \<longleftrightarrow> r \<noteq> p \<and> run_linked k r)
    \<and> run_list k' = (run_list k)(q := remove1 p (run_list k q)) \<and> procs k' = procs k"
proof -
  obtain k' where k': "RR_dequeue q p k = Some k'"
    "run_list k' = (run_list k)(q := remove1 p (run_list k q))" "proc_num k' = (proc_num k)(q := proc_num k q - 1)"
    "procs k' = procs k" "sframe k k'"
    using assms(2,3) by (simp add: RR_dequeue_def Let_def sframe_def)
  show ?thesis using k' remove_ok[OF assms k'(2-4)] by simp
qed

lemma FCFS_dequeue_eq: "FCFS_dequeue = RR_dequeue"
  by (intro ext) (simp add: FCFS_dequeue_def RR_dequeue_def)

lemma RR_tick_ok: "\<exists>k'. RR_proc_tick q p k = Some k' \<and> sframe k k' \<and> same_rq k k'"
  by (simp add: RR_proc_tick_def Let_def sframe_def same_rq_def upd_proc_def)

lemma single_linked: "single_ok k \<Longrightarrow> run_linked k p \<longleftrightarrow> p \<in> set (run_list k 0)"
  unfolding run_linked_iff single_ok_def by (metis empty_iff gr_zeroI list.set(1) zero_less_numeral)

lemma single_linked_rq: "single_ok k \<Longrightarrow> run_linked k p \<Longrightarrow> rq (procs k p) = Some 0"
  by (simp add: single_linked) (simp add: single_ok_def rq_ok_def)

lemma single_pick:
  "single_ok k \<Longrightarrow> case (case run_list k 0 of [] \<Rightarrow> None | p # _ \<Rightarrow> Some p) of
     None \<Rightarrow> \<forall>p. \<not> run_linked k p | Some p \<Rightarrow> run_linked k p"
  by (auto simp: single_linked split: list.split)

interpretation RR: sched_policy RR_sched_class single_ok
proof unfold_locales
  fix k k' p
  assume ok: "single_ok k"
  then have rk: "rq_ok k" by (simp add: single_ok_def)
  show "\<exists>k'. c_enqueue RR_sched_class 0 p k = Some k' \<and> single_ok k' \<and> sframe k k'
      \<and> (\<forall>q. run_linked k' q \<longleftrightarrow> q = p \<or> run_linked k q)" if "\<not> run_linked k p"
    using RR_enqueue_ok[OF rk _ that, of 0] ok by (auto simp: RR_sched_class_def single_ok_def)
  show "\<exists>k'. c_dequeue RR_sched_class 0 p k = Some k' \<and> single_ok k' \<and> sframe k k'
      \<and> (\<forall>q. run_linked k' q \<longleftrightarrow> q \<noteq> p \<and> run_linked k q)" if "run_linked k p"
    using RR_dequeue_ok[OF rk that single_linked_rq[OF ok that]] ok by (auto simp: RR_sched_class_def single_ok_def)
  show "\<exists>r. c_pick_next RR_sched_class 0 k = Some r
      \<and> (case r of None \<Rightarrow> \<forall>p. \<not> run_linked k p | Some p \<Rightarrow> run_linked k p)"
    using single_pick[OF ok] by (simp add: RR_sched_class_def RR_pick_next_def)
  show "\<exists>k'. c_proc_tick RR_sched_class 0 p k = Some k' \<and> sframe k k' \<and> same_rq k k'"
    using RR_tick_ok by (simp add: RR_sched_class_def)
  show "single_ok k'" if "same_rq k k'"
    using ok rq_ok_frame[OF rk that] that by (simp add: single_ok_def same_rq_def)
qed

interpretation FCFS: sched_policy FCFS_sched_class single_ok
proof unfold_locales
  fix k k' p
  assume ok: "single_ok k"
  then have rk: "rq_ok k" by (simp add: single_ok_def)
  show "\<exists>k'. c_enqueue FCFS_sched_class 0 p k = Some k' \<and> single_ok k' \<and> sframe k k'
      \<and> (\<forall>q. run_linked k' q \<longleftrightarrow> q = p \<or> run_linked k q)" if "\<not> run_linked k p"
    using FCFS_enqueue_ok[OF rk _ that, of 0] ok by (auto simp: FCFS_sched_class_def single_ok_def)
  show "\<exists>k'. c_dequeue FCFS_sched_class 0 p k = Some k' \<and> single_ok k' \<and> sframe k k'
      \<and> (\<forall>q. run_linked k' q \<longleftrightarrow> q \<noteq> p \<and> run_linked k q)" if "run_linked k p"
    using RR_dequeue_ok[OF rk that single_linked_rq[OF ok that]] ok
    by (auto simp: FCFS_sched_class_def FCFS_dequeue_eq single_ok_def)
  show "\<exists>r. c_pick_next FCFS_sched_class 0 k = Some r
      \<and> (case r of None \<Rightarrow> \<forall>p. \<not> run_linked k p | Some p \<Rightarrow> run_linked k p)"
    using single_pick[OF ok] by (simp add: FCFS_sched_class_def FCFS_pick_next_def)
  show "\<exists>k'. c_proc_tick FCFS_sched_class 0 p k = Some k' \<and> sframe k k' \<and> same_rq k k'"
    by (simp add: FCFS_sched_class_def FCFS_proc_tick_def same_rq_def)
  show "single_ok k'" if "same_rq k k'"
    using ok rq_ok_frame[OF rk that] that by (simp add: single_ok_def same_rq_def)
qed

text \<open>Going round the ring from queue 0 visits the levels in order.\<close>

definition first_queued :: "kern \<Rightarrow> nat option" where
  "first_queued k = (case concat (map (run_list k) [0..<NRQ]) of [] \<Rightarrow> None | p # _ \<Rightarrow> Some p)"

lemma MLFQ_pick_from:
  assumes "mlfq_ok k" "j < NRQ"
  shows "MLFQ_pick_loop 0 j k = Some (case concat (map (run_list k) [j..<NRQ]) of [] \<Rightarrow> None | p # _ \<Rightarrow> Some p)"
  using assms(2)
proof (induction "NRQ - j" arbitrary: j)
  case 0
  then show ?case by simp
next
  case (Suc n)
  have nx: "list_next (rq_link k) j = (j + 1) mod NRQ" using assms(1) Suc.prems by (simp add: mlfq_ok_def)
  have up: "[j..<NRQ] = j # [Suc j..<NRQ]" using Suc.prems by (simp add: upt_conv_Cons)
  show ?case
  proof (cases "run_list k j")
    case (Cons p ps)
    then show ?thesis by (simp add: MLFQ_pick_loop.simps[of 0 j] RR_pick_next_def up)
  next
    case Nil
    show ?thesis
    proof (cases "Suc j < NRQ")
      case True
      with Nil nx Suc.hyps(1)[of "Suc j"] Suc.hyps(2) show ?thesis
        by (simp add: MLFQ_pick_loop.simps[of 0 j] RR_pick_next_def up)
    next
      case False
      then have j: "j = 3" using Suc.prems by simp
      show ?thesis using Nil nx by (simp add: MLFQ_pick_loop.simps[of 0 3] RR_pick_next_def j)
    qed
  qed
qed

lemma MLFQ_pick: "mlfq_ok k \<Longrightarrow> MLFQ_pick_next 0 k = Some (first_queued k)"
  using MLFQ_pick_from[of k 0] by (simp add: MLFQ_pick_next_def first_queued_def)

lemma set_levels: "set (concat (map (run_list k) [0..<NRQ])) = {p. run_linked k p}"
  by (auto simp: run_linked_def)

lemma first_queued_linked:
  "case first_queued k of None \<Rightarrow> \<forall>p. \<not> run_linked k p | Some p \<Rightarrow> run_linked k p"
proof (cases "concat (map (run_list k) [0..<NRQ])")
  case Nil
  then have "{p. run_linked k p} = {}" using set_levels[of k] by (simp only: list.set)
  moreover have "first_queued k = None" by (simp only: first_queued_def Nil list.case)
  ultimately show ?thesis by simp
next
  case (Cons p ps)
  then have "p \<in> {p. run_linked k p}" using set_levels[of k] by (simp only: list.set) blast
  moreover have "first_queued k = Some p" by (simp only: first_queued_def Cons list.case)
  ultimately show ?thesis by simp
qed

interpretation MLFQ: sched_policy MLFQ_sched_class mlfq_ok
proof unfold_locales
  fix k k' p
  assume ok: "mlfq_ok k"
  then have rk: "rq_ok k" by (simp add: mlfq_ok_def)
  show "\<exists>k'. c_enqueue MLFQ_sched_class 0 p k = Some k' \<and> mlfq_ok k' \<and> sframe k k'
      \<and> (\<forall>q. run_linked k' q \<longleftrightarrow> q = p \<or> run_linked k q)" if nl: "\<not> run_linked k p"
  proof -
    let ?q = "case rq (procs k p) of None \<Rightarrow> 0 | Some prq \<Rightarrow> if time_slice (procs k p) = 0
       then (let nrq = list_next (rq_link k) prq in if nrq = 0 then prq else nrq) else 0"
    have q: "?q < NRQ" using ok by (auto simp: mlfq_ok_def Let_def split: option.split)
    from RR_enqueue_ok[OF rk q nl] obtain k' where k': "RR_enqueue ?q p k = Some k'" "rq_ok k'" "sframe k k'"
      "\<forall>r. run_linked k' r \<longleftrightarrow> r = p \<or> run_linked k r"
      "\<forall>r. rq (procs k' r) = (if r = p then Some ?q else rq (procs k r))" by blast
    have "mlfq_ok k'" using k' q ok sframe_fields(3)[OF k'(3)] by (auto simp: mlfq_ok_def)
    with k' nl show ?thesis by (simp add: MLFQ_sched_class_def MLFQ_enqueue_def Let_def)
  qed
  show "\<exists>k'. c_dequeue MLFQ_sched_class 0 p k = Some k' \<and> mlfq_ok k' \<and> sframe k k'
      \<and> (\<forall>q. run_linked k' q \<longleftrightarrow> q \<noteq> p \<and> run_linked k q)" if l: "run_linked k p"
  proof -
    obtain q where q: "rq (procs k p) = Some q" using linked_rq[OF rk l] by blast
    from RR_dequeue_ok[OF rk l q] obtain k' where k': "RR_dequeue q p k = Some k'" "rq_ok k'" "sframe k k'"
      "\<forall>r. run_linked k' r \<longleftrightarrow> r \<noteq> p \<and> run_linked k r" "procs k' = procs k" by blast
    have "mlfq_ok k'" using k' ok sframe_fields(3)[OF k'(3)] by (simp add: mlfq_ok_def)
    with k' l q show ?thesis by (simp add: MLFQ_sched_class_def MLFQ_dequeue_def)
  qed
  show "\<exists>r. c_pick_next MLFQ_sched_class 0 k = Some r
      \<and> (case r of None \<Rightarrow> \<forall>p. \<not> run_linked k p | Some p \<Rightarrow> run_linked k p)"
    using MLFQ_pick[OF ok] first_queued_linked[of k] by (simp add: MLFQ_sched_class_def)
  show "\<exists>k'. c_proc_tick MLFQ_sched_class 0 p k = Some k' \<and> sframe k k' \<and> same_rq k k'"
    using RR_tick_ok by (simp add: MLFQ_sched_class_def MLFQ_proc_tick_def)
  show "mlfq_ok k'" if "same_rq k k'"
    using ok rq_ok_frame[OF rk that] that by (simp add: mlfq_ok_def same_rq_def)
qed

section \<open>Timers as remaining times\<close>

text \<open>The list stores for each timer the difference to its predecessor; \<open>remaining\<close> is what it
  stands for, the ticks left to every timer, soonest first.\<close>

fun deadlines :: "(nat \<Rightarrow> timer_t) \<Rightarrow> nat \<Rightarrow> nat list \<Rightarrow> (nat \<times> nat) list" where
  "deadlines tm acc [] = []"
| "deadlines tm acc (t # ts) = (t, acc + expires (tm t)) # deadlines tm (acc + expires (tm t)) ts"

definition remaining :: "kern \<Rightarrow> (nat \<times> nat) list" where
  "remaining k = deadlines (timers k) 0 (timer_list k)"

lemma deadlines_cong: "(\<And>t. t \<in> set ts \<Longrightarrow> expires (tm' t) = expires (tm t)) \<Longrightarrow> deadlines tm' acc ts = deadlines tm acc ts"
  by (induction ts arbitrary: acc) auto

lemma fst_deadlines [simp]: "map fst (deadlines tm acc ts) = ts"
  by (induction ts arbitrary: acc) auto

lemma fst_in_deadlines: "(t, r) \<in> set (deadlines tm acc ts) \<Longrightarrow> t \<in> set ts"
  using fst_deadlines[of tm acc ts] by (metis fst_conv image_eqI list.set_map)

lemma deadlines_ge: "(t, r) \<in> set (deadlines tm acc ts) \<Longrightarrow> acc \<le> r"
  by (induction ts arbitrary: acc) (auto, fastforce)

lemma timer_insert_deadlines:
  "t \<notin> set ns \<Longrightarrow> distinct ns \<Longrightarrow> timer_insert t ns k = (ts, k') \<Longrightarrow> e = acc + expires (timers k t) \<Longrightarrow>
   deadlines (timers k') acc ts = takeWhile (\<lambda>(s, r). r \<le> e) (deadlines (timers k) acc ns)
     @ (t, e) # dropWhile (\<lambda>(s, r). r \<le> e) (deadlines (timers k) acc ns)
   \<and> (\<forall>s. s \<notin> insert t (set ns) \<longrightarrow> timers k' s = timers k s)
   \<and> (\<forall>s. t_proc (timers k' s) = t_proc (timers k s)) \<and> set ts = insert t (set ns) \<and> distinct ts
   \<and> (\<exists>tm. k' = k\<lparr>timers := tm\<rparr>)"
proof (induction ns arbitrary: k ts k' acc)
  case Nil
  then have "ts = [t]" "k' = k" by auto
  moreover have "\<exists>tm. k = k\<lparr>timers := tm\<rparr>" by (rule exI[of _ "timers k"]) simp
  ultimately show ?case using Nil.prems(4) by simp
next
  case (Cons n ns)
  have n: "n \<noteq> t" "n \<notin> set ns" "t \<notin> set ns" "distinct ns" using Cons.prems(1,2) by auto
  show ?case
  proof (cases "expires (timers k t) < expires (timers k n)")
    case True
    let ?k = "upd_timer n (\<lambda>tm. tm\<lparr>expires := expires tm - expires (timers k t)\<rparr>) k"
    have e: "ts = t # n # ns" "k' = ?k" using Cons.prems(3) True by auto
    have dl: "deadlines (timers ?k) a ns = deadlines (timers k) a ns" for a
      using n by (intro deadlines_cong) auto
    have v: "expires (timers ?k n) = expires (timers k n) - expires (timers k t)"
      "expires (timers ?k t) = expires (timers k t)" using n by simp_all
    have "\<forall>s. t_proc (timers ?k s) = t_proc (timers k s)" "\<exists>tm. ?k = k\<lparr>timers := tm\<rparr>"
      "\<forall>s. s \<notin> insert t (set (n # ns)) \<longrightarrow> timers ?k s = timers k s"
      by (auto simp: upd_timer_def)
    then show ?thesis using True n Cons.prems(4)
      unfolding e by (simp add: dl v insert_commute del: upd_timer_fields)
  next
    case False
    let ?k = "upd_timer t (\<lambda>tm. tm\<lparr>expires := expires tm - expires (timers k n)\<rparr>) k"
    obtain ts' where ts': "timer_insert t ns ?k = (ts', k')" "ts = n # ts'"
      using Cons.prems(3) False by (auto split: prod.splits)
    have e: "e = acc + expires (timers k n) + expires (timers ?k t)" using False Cons.prems(4) by simp
    note ih = Cons.IH[OF n(3,4) ts'(1) e]
    have dl: "deadlines (timers ?k) a ns = deadlines (timers k) a ns" for a
      using n by (intro deadlines_cong) auto
    from ih have i: "deadlines (timers k') (acc + expires (timers k n)) ts'
        = takeWhile (\<lambda>(s, r). r \<le> e) (deadlines (timers k) (acc + expires (timers k n)) ns)
          @ (t, e) # dropWhile (\<lambda>(s, r). r \<le> e) (deadlines (timers k) (acc + expires (timers k n)) ns)"
      "\<forall>s. s \<notin> insert t (set ns) \<longrightarrow> timers k' s = timers k s"
      "\<forall>s. t_proc (timers k' s) = t_proc (timers k s)" "set ts' = insert t (set ns)" "distinct ts'"
      unfolding dl by (simp_all split: if_splits)
    have kt: "\<exists>tm. k' = k\<lparr>timers := tm\<rparr>"
      using conjunct2[OF conjunct2[OF conjunct2[OF conjunct2[OF conjunct2[OF ih]]]]]
      by (auto simp: upd_timer_def)
    have tn: "timers k' n = timers k n" using i(2) n by simp
    have le: "acc + expires (timers k n) \<le> e" using False Cons.prems(4) by simp
    have "deadlines (timers k') acc ts = takeWhile (\<lambda>(s, r). r \<le> e) (deadlines (timers k) acc (n # ns))
     @ (t, e) # dropWhile (\<lambda>(s, r). r \<le> e) (deadlines (timers k) acc (n # ns))"
      unfolding ts'(2) using le by (simp add: tn i(1))
    moreover have "set ts = insert t (set (n # ns))" "distinct ts" using i(4,5) n unfolding ts'(2) by auto
    moreover have "\<forall>s. s \<notin> insert t (set (n # ns)) \<longrightarrow> timers k' s = timers k s" using i(2) by simp
    ultimately show ?thesis using i(3) kt by (intro conjI)
  qed
qed

lemma add_timer_remaining:
  assumes "distinct (timer_list k)" "t \<notin> set (timer_list k)" "0 < expires (timers k t)" "t_proc (timers k t) \<noteq> None"
  shows "\<exists>tm ts. add_timer t k = Some (k\<lparr>timers := tm, timer_list := ts\<rparr>) \<and> distinct ts
    \<and> set ts = insert t (set (timer_list k))
    \<and> deadlines tm 0 ts = takeWhile (\<lambda>(s, r). r \<le> expires (timers k t)) (remaining k)
        @ (t, expires (timers k t)) # dropWhile (\<lambda>(s, r). r \<le> expires (timers k t)) (remaining k)
    \<and> (\<forall>s. t_proc (tm s) = t_proc (timers k s))"
proof -
  obtain ts c where i: "timer_insert t (timer_list k) k = (ts, c)" by fastforce
  have e: "expires (timers k t) = 0 + expires (timers k t)" by simp
  note d = timer_insert_deadlines[OF assms(2,1) i e]
  then obtain tm where c: "c = k\<lparr>timers := tm\<rparr>" by (elim conjE exE)
  then have tm: "timers c = tm" by simp
  have "add_timer t k = Some (k\<lparr>timers := tm, timer_list := ts\<rparr>)" using assms i c by (simp add: add_timer_def)
  with d show ?thesis unfolding tm remaining_def by (intro exI[of _ tm] exI[of _ ts]) (elim conjE, intro conjI)
qed

lemma succ_of_deadlines:
  "distinct ts \<Longrightarrow> t \<in> set ts \<Longrightarrow>
   (case succ_of t ts of None \<Rightarrow> tm' = tm | Some n \<Rightarrow> tm' = tm(n := (tm n)\<lparr>expires := expires (tm n) + expires (tm t)\<rparr>)) \<Longrightarrow>
   deadlines tm' acc (remove1 t ts) = filter (\<lambda>(s, r). s \<noteq> t) (deadlines tm acc ts)"
proof (induction ts arbitrary: acc)
  case Nil
  then show ?case by simp
next
  case (Cons x xs)
  have other: "filter (\<lambda>(s, r). s \<noteq> t) (deadlines tm a ys) = deadlines tm a ys" if "t \<notin> set ys" for a ys
    using that by (intro filter_True) (auto dest: fst_in_deadlines)
  show ?case
  proof (cases "x = t")
    case True
    show ?thesis
    proof (cases xs)
      case Nil
      with True show ?thesis by simp
    next
      case (Cons y ys)
      with True Cons.prems have tm': "tm' = tm(y := (tm y)\<lparr>expires := expires (tm y) + expires (tm t)\<rparr>)"
        "y \<notin> set ys" "t \<noteq> y" "t \<notin> set ys" by auto
      have "deadlines tm' a ys = deadlines tm a ys" for a using tm' by (intro deadlines_cong) auto
      moreover have "expires (tm' y) = expires (tm y) + expires (tm t)" by (simp add: tm')
      ultimately show ?thesis using True Cons tm'(3) other[OF tm'(4)] by (simp add: ac_simps)
    qed
  next
    case False
    with Cons.prems have t: "distinct xs" "t \<in> set xs" "x \<notin> set xs" by auto
    have c: "case succ_of t xs of None \<Rightarrow> tm' = tm | Some n \<Rightarrow> tm' = tm(n := (tm n)\<lparr>expires := expires (tm n) + expires (tm t)\<rparr>)"
      using Cons.prems(3) False by simp
    have "succ_of t ys = Some n \<Longrightarrow> n \<in> set ys" for ys n
      by (induction ys) (auto split: if_splits list.splits)
    then have "tm' x = tm x" using c t(3) by (auto split: option.splits)
    with Cons.IH[OF t(1,2) c] False show ?thesis by simp
  qed
qed

lemma del_timer_remaining:
  assumes "distinct (timer_list k)"
  shows "remaining (del_timer t k) = filter (\<lambda>(s, r). s \<noteq> t) (remaining k)
    \<and> timer_list (del_timer t k) = remove1 t (timer_list k) \<and> procs (del_timer t k) = procs k
    \<and> (\<forall>s. t_proc (timers (del_timer t k) s) = t_proc (timers k s))"
proof (cases "t \<in> set (timer_list k)")
  case False
  then have "filter (\<lambda>(s, r). s \<noteq> t) (remaining k) = remaining k"
    unfolding remaining_def by (intro filter_True) (auto dest: fst_in_deadlines)
  with False show ?thesis by (simp add: del_timer_def remove1_idem)
next
  case True
  define k1 where "k1 = (if expires (timers k t) \<noteq> 0 then
                   (case succ_of t (timer_list k) of
                      Some n \<Rightarrow> upd_timer n (\<lambda>tm. tm\<lparr>expires := expires tm + expires (timers k t)\<rparr>) k
                    | None \<Rightarrow> k) else k)"
  have d: "del_timer t k = k1\<lparr>timer_list := remove1 t (timer_list k)\<rparr>"
    using True by (auto simp: del_timer_def k1_def Let_def split: option.splits)
  have "case succ_of t (timer_list k) of None \<Rightarrow> timers k1 = timers k
    | Some n \<Rightarrow> timers k1 = (timers k)(n := (timers k n)\<lparr>expires := expires (timers k n) + expires (timers k t)\<rparr>)"
    by (auto simp: k1_def fun_eq_iff split: option.splits)
  from succ_of_deadlines[OF assms True this, of 0]
  have "remaining (del_timer t k) = filter (\<lambda>(s, r). s \<noteq> t) (remaining k)"
    by (simp add: remaining_def d)
  moreover have "procs k1 = procs k" "\<forall>s. t_proc (timers k1 s) = t_proc (timers k s)"
    by (auto simp: k1_def split: option.splits)
  ultimately show ?thesis by (simp add: d)
qed

section \<open>The clock tick\<close>

text \<open>A timer whose process \<open>run_timer_list\<close> may wake.\<close>

definition waitable :: "kern \<Rightarrow> nat \<Rightarrow> bool" where
  "waitable k t \<longleftrightarrow> (\<exists>p. t_proc (timers k t) = Some p \<and> state (procs k p) \<noteq> PROC_ZOMBIE \<and>
     (wait_state (procs k p) \<noteq> 0 \<longrightarrow> wait_state (procs k p) AND WT_INTERRUPTED \<noteq> 0))"

definition timer_ok :: "kern \<Rightarrow> bool" where
  "timer_ok k \<longleftrightarrow> distinct (timer_list k) \<and> (\<forall>(t, r) \<in> set (remaining k). 0 < r) \<and>
     (\<forall>t \<in> set (timer_list k). waitable k t)"

lemma sched_inv_frame:
  "sched_inv k \<Longrightarrow> same_rq k k' \<Longrightarrow> current k' = current k \<Longrightarrow> idleproc k' = idleproc k \<Longrightarrow>
   (\<And>p. state (procs k' p) = state (procs k p)) \<Longrightarrow> sched_inv k'"
  by (simp add: sched_inv_def same_rq_linked)

lemma deadlines_shift:
  "0 < a \<Longrightarrow> deadlines tm (a - 1) ts = map (\<lambda>(t, r). (t, r - 1)) (deadlines tm a ts)"
proof (induction ts arbitrary: a)
  case Nil
  then show ?case by simp
next
  case (Cons t ts)
  have "deadlines tm (a + expires (tm t) - 1) ts = map (\<lambda>(t, r). (t, r - 1)) (deadlines tm (a + expires (tm t)) ts)"
    using Cons.prems by (intro Cons.IH) simp
  moreover have "a - 1 + expires (tm t) = a + expires (tm t) - 1" using Cons.prems by simp
  ultimately show ?case by simp
qed

lemma deadlines_drop:
  "deadlines tm 0 (dropWhile (\<lambda>t. expires (tm t) = 0) ts) = filter (\<lambda>(t, r). 0 < r) (deadlines tm 0 ts)"
proof (induction ts)
  case Nil
  then show ?case by simp
next
  case (Cons t ts)
  show ?case
  proof (cases "expires (tm t) = 0")
    case True
    with Cons show ?thesis by simp
  next
    case False
    then have "filter (\<lambda>(t, r). 0 < r) (deadlines tm (expires (tm t)) ts) = deadlines tm (expires (tm t)) ts"
      by (intro filter_True) (auto dest: deadlines_ge)
    with False show ?thesis by simp
  qed
qed

lemma deadlines_take:
  "(t, 0) \<in> set (deadlines tm 0 ts) \<Longrightarrow> t \<in> set (takeWhile (\<lambda>t. expires (tm t) = 0) ts)"
proof (induction ts)
  case Nil
  then show ?case by simp
next
  case (Cons x ts)
  then show ?case by (cases "expires (tm x) = 0") (auto dest: deadlines_ge)
qed

lemma waitable_sframe: "waitable k t \<Longrightarrow> sframe k k' \<Longrightarrow> waitable k' t"
  by (auto simp: waitable_def sframe_proc sframe_fields)

lemma del_expired_head:
  "timer_list k = t # ts \<Longrightarrow> expires (timers k t) = 0 \<Longrightarrow> del_timer t k = k\<lparr>timer_list := ts\<rparr>"
  by (simp add: del_timer_def Let_def)

context sched_policy
begin

lemma expire_ok:
  "inv k \<Longrightarrow> sched_inv k \<Longrightarrow> distinct ts \<Longrightarrow> timer_list k = ts \<Longrightarrow> \<forall>t \<in> set ts. waitable k t \<Longrightarrow>
   \<exists>k'. expire_timers cls ts k = Some k' \<and> inv k' \<and> sched_inv k'
     \<and> timer_list k' = dropWhile (\<lambda>t. expires (timers k t) = 0) ts \<and> timers k' = timers k
     \<and> (\<forall>s. waitable k s \<longrightarrow> waitable k' s)
     \<and> (\<forall>t \<in> set (takeWhile (\<lambda>t. expires (timers k t) = 0) ts). \<forall>p. t_proc (timers k t) = Some p \<longrightarrow> state (procs k' p) = PROC_RUNNABLE)
     \<and> (\<forall>p. state (procs k p) = PROC_RUNNABLE \<longrightarrow> state (procs k' p) = PROC_RUNNABLE)"
proof (induction ts arbitrary: k)
  case Nil
  then show ?case by simp
next
  case (Cons t ts)
  show ?case
  proof (cases "expires (timers k t) = 0")
    case False
    with Cons.prems show ?thesis by simp
  next
    case True
    from Cons.prems(5) obtain p where p: "t_proc (timers k t) = Some p" "state (procs k p) \<noteq> PROC_ZOMBIE"
      "wait_state (procs k p) \<noteq> 0 \<longrightarrow> wait_state (procs k p) AND WT_INTERRUPTED \<noteq> 0"
      by (auto simp: waitable_def)
    let ?u = "if state (procs k p) \<noteq> PROC_RUNNABLE
        then upd_proc p (\<lambda>pr. pr\<lparr>state := PROC_RUNNABLE, wait_state := 0\<rparr>) k else k"
    from wakeup_ok[OF Cons.prems(1,2) p(2)] obtain k1 where
      k1: "wakeup_proc cls p k = Some k1" "inv k1" "sched_inv k1" "sframe ?u k1" by blast
    have f: "timer_list k1 = t # ts" "timers k1 = timers k"
      using sframe_fields(5,6)[OF k1(4)] Cons.prems(4) by (auto split: if_splits)
    have st: "state (procs k1 q) = (if q = p then PROC_RUNNABLE else state (procs k q))" for q
      using sframe_proc(1)[OF k1(4), of q] by auto
    have ws: "wait_state (procs k1 q) = wait_state (procs k q) \<or> wait_state (procs k1 q) = 0" for q
      using sframe_proc(2)[OF k1(4), of q] by (auto split: if_splits)
    let ?k2 = "k1\<lparr>timer_list := ts\<rparr>"
    have d: "del_timer t k1 = ?k2" using f True by (intro del_expired_head) simp_all
    have sr: "same_rq k1 ?k2" by (simp add: same_rq_def)
    have w: "waitable k1 s" if "waitable k s" for s
      using that st ws unfolding waitable_def f by (metis proc_state.distinct(11))
    then have w2: "\<forall>s \<in> set ts. waitable ?k2 s" using Cons.prems(5) by (simp add: waitable_def)
    have i2: "inv ?k2" using inv_frame[OF k1(2) sr] .
    have s2: "sched_inv ?k2" using sched_inv_frame[OF k1(3) sr] by simp
    from Cons.IH[OF i2 s2 _ _ w2] Cons.prems(3) obtain k' where
      k': "expire_timers cls ts ?k2 = Some k'" "inv k'" "sched_inv k'"
        "timer_list k' = dropWhile (\<lambda>t. expires (timers k t) = 0) ts" "timers k' = timers k"
        "\<forall>s. waitable ?k2 s \<longrightarrow> waitable k' s"
        "\<forall>t \<in> set (takeWhile (\<lambda>t. expires (timers k t) = 0) ts). \<forall>p. t_proc (timers k t) = Some p \<longrightarrow> state (procs k' p) = PROC_RUNNABLE"
        "\<forall>p. state (procs k1 p) = PROC_RUNNABLE \<longrightarrow> state (procs k' p) = PROC_RUNNABLE"
      by (auto simp: f)
    have "expire_timers cls (t # ts) k = Some k'"
      using True p k1(1) k'(1) d by simp
    moreover have "\<forall>s. waitable k s \<longrightarrow> waitable k' s"
      using k'(6) w by (simp add: waitable_def)
    ultimately show ?thesis using k' True p(1) st by auto
  qed
qed

lemma run_timer_list_ok:
  assumes "inv k" "sched_inv k" "timer_ok k"
  shows "\<exists>k'. run_timer_list cls k = Some k' \<and> inv k' \<and> sched_inv k' \<and> timer_ok k'
     \<and> remaining k' = map (\<lambda>(t, r). (t, r - 1)) (filter (\<lambda>(t, r). 1 < r) (remaining k))
     \<and> (\<forall>t. (t, 1) \<in> set (remaining k) \<longrightarrow> (\<forall>p. t_proc (timers k t) = Some p \<longrightarrow> state (procs k' p) = PROC_RUNNABLE))
     \<and> (\<forall>p. state (procs k p) = PROC_RUNNABLE \<longrightarrow> state (procs k' p) = PROC_RUNNABLE)
     \<and> (\<forall>t. t_proc (timers k' t) = t_proc (timers k t))"
proof (cases "timer_list k")
  case Nil
  then have rm: "remaining k = []" by (simp add: remaining_def)
  from tick_ok[OF assms(1,2), of "current k"] obtain k' where
    k': "sched_class_proc_tick cls (current k) k = Some k'" "inv k'" "sched_inv k'" "sframe k k'" by blast
  have "remaining k' = []" "timer_list k' = []" using sframe_fields(5,6)[OF k'(4)] rm Nil
    by (simp_all add: remaining_def)
  then show ?thesis using k' Nil rm sframe_proc(1)[OF k'(4)] sframe_fields(6)[OF k'(4)]
    by (simp add: run_timer_list_def timer_ok_def)
next
  case (Cons t ts)
  let ?k1 = "upd_timer t (\<lambda>tm. tm\<lparr>expires := expires tm - 1\<rparr>) k"
  let ?tm = "timers ?k1"
  from assms(3) have tok: "distinct (t # ts)" "\<forall>(t, r) \<in> set (remaining k). 0 < r"
    "\<forall>t \<in> set (t # ts). waitable k t" by (auto simp: timer_ok_def Cons)
  have ex: "0 < expires (timers k t)" using tok(2) by (simp add: remaining_def Cons)
  have "deadlines ?tm a ts = deadlines (timers k) a ts" for a
    using tok(1) by (intro deadlines_cong) auto
  then have rem: "deadlines ?tm 0 (t # ts) = map (\<lambda>(t, r). (t, r - 1)) (remaining k)"
    using ex deadlines_shift[OF ex, of "timers k" ts]
    by (simp add: remaining_def Cons)
  have sr: "same_rq k ?k1" by (simp add: same_rq_def)
  have i1: "inv ?k1" using inv_frame[OF assms(1) sr] .
  have s1: "sched_inv ?k1" using sched_inv_frame[OF assms(2) sr] by simp
  have w1: "\<forall>t \<in> set (t # ts). waitable ?k1 t" using tok(3) by (auto simp: waitable_def)
  from expire_ok[OF i1 s1 tok(1) _ w1] obtain k2 where
    k2: "expire_timers cls (t # ts) ?k1 = Some k2" "inv k2" "sched_inv k2"
      "timer_list k2 = dropWhile (\<lambda>t. expires (?tm t) = 0) (t # ts)" "timers k2 = ?tm"
      "\<forall>s. waitable ?k1 s \<longrightarrow> waitable k2 s"
      "\<forall>t \<in> set (takeWhile (\<lambda>t. expires (?tm t) = 0) (t # ts)). \<forall>p. t_proc (?tm t) = Some p \<longrightarrow> state (procs k2 p) = PROC_RUNNABLE"
      "\<forall>p. state (procs ?k1 p) = PROC_RUNNABLE \<longrightarrow> state (procs k2 p) = PROC_RUNNABLE"
    by (metis (no_types, lifting) Cons upd_timer_fields(7))
  from tick_ok[OF k2(2,3), of "current k2"] obtain k' where
    k': "sched_class_proc_tick cls (current k2) k2 = Some k'" "inv k'" "sched_inv k'" "sframe k2 k'" by blast
  note f = sframe_fields(5,6)[OF k'(4)] and st = sframe_proc(1)[OF k'(4)]
  have r2: "remaining k' = filter (\<lambda>(t, r). 0 < r) (map (\<lambda>(t, r). (t, r - 1)) (remaining k))"
    unfolding remaining_def f k2(4,5) deadlines_drop rem[unfolded remaining_def] by (simp only: remaining_def)
  also have "\<dots> = map (\<lambda>(t, r). (t, r - 1)) (filter (\<lambda>(t, r). 1 < r) (remaining k))"
    by (simp add: filter_map comp_def split_beta) (rule arg_cong[where f = "map _"], rule filter_cong, auto)
  finally have r3: "remaining k' = map (\<lambda>(t, r). (t, r - 1)) (filter (\<lambda>(t, r). 1 < r) (remaining k))" .
  have sub: "set (timer_list k') \<subseteq> set (t # ts)" unfolding f k2(4) using set_dropWhileD by fast
  have "distinct (timer_list k')" unfolding f k2(4) using tok(1) by (rule distinct_dropWhile)
  moreover have "\<forall>t \<in> set (timer_list k'). waitable k' t"
    using sub w1 k2(6) waitable_sframe[OF _ k'(4)] by blast
  ultimately have tk: "timer_ok k'" by (auto simp: timer_ok_def r3)
  have "state (procs k' p) = PROC_RUNNABLE" if "(u, 1) \<in> set (remaining k)" "t_proc (timers k u) = Some p" for u p
  proof -
    have "(u, 0) \<in> set (deadlines ?tm 0 (t # ts))" unfolding rem using that(1) by force
    then have "u \<in> set (takeWhile (\<lambda>t. expires (?tm t) = 0) (t # ts))" by (rule deadlines_take)
    moreover have "t_proc (?tm u) = Some p" using that(2) by auto
    ultimately show ?thesis unfolding st using k2(7) by blast
  qed
  moreover have "run_timer_list cls k = Some k'"
    using ex k2(1) k'(1) by (simp add: run_timer_list_def Cons del: expire_timers.simps)
  moreover have "\<forall>p. state (procs k p) = PROC_RUNNABLE \<longrightarrow> state (procs k' p) = PROC_RUNNABLE"
    using k2(8) st by simp
  moreover have "\<forall>t. t_proc (timers k' t) = t_proc (timers k t)" unfolding f k2(5) by simp
  ultimately show ?thesis using k'(2,3) tk r3 by blast
qed

end

text \<open>Consecutive clock ticks.\<close>

fun tick_n :: "sched_class \<Rightarrow> nat \<Rightarrow> kern \<Rightarrow> kern option" where
  "tick_n cls 0 k = Some k"
| "tick_n cls (Suc n) k = do { k \<leftarrow> run_timer_list cls k; tick_n cls n k }"

context sched_policy
begin

lemma tick_n_ok:
  assumes "inv k" "sched_inv k" "timer_ok k" "(t, r) \<in> set (remaining k)" "t_proc (timers k t) = Some p"
  shows "j < r \<Longrightarrow> \<exists>k'. tick_n cls j k = Some k' \<and> (t, r - j) \<in> set (remaining k')"
    and "\<exists>k'. tick_n cls r k = Some k' \<and> t \<notin> set (timer_list k') \<and> state (procs k' p) = PROC_RUNNABLE"
proof -
  show "j < r \<Longrightarrow> \<exists>k'. tick_n cls j k = Some k' \<and> (t, r - j) \<in> set (remaining k')"
    using assms
  proof (induction j arbitrary: k r)
    case 0
    then show ?case by auto
  next
    case (Suc j)
    obtain k' where k': "run_timer_list cls k = Some k'" "inv k'" "sched_inv k'" "timer_ok k'"
      "remaining k' = map (\<lambda>(t, r). (t, r - 1)) (filter (\<lambda>(t, r). 1 < r) (remaining k))"
      "\<forall>t. t_proc (timers k' t) = t_proc (timers k t)"
      using run_timer_list_ok[OF Suc.prems(2-4)] by blast
    have m: "(t, r - 1) \<in> set (remaining k')" unfolding k'(5) using Suc.prems(1,5) by force
    have "j < r - 1" using Suc.prems(1) by simp
    from Suc.IH[OF this k'(2-4) m] k'(6) Suc.prems(6) obtain k2 where
      "tick_n cls j k' = Some k2" "(t, r - 1 - j) \<in> set (remaining k2)" by auto
    with k'(1) show ?case by simp
  qed
  have pos: "0 < r" using assms(3,4) by (auto simp: timer_ok_def)
  show "\<exists>k'. tick_n cls r k = Some k' \<and> t \<notin> set (timer_list k') \<and> state (procs k' p) = PROC_RUNNABLE"
    using assms pos
  proof (induction r arbitrary: k)
    case 0
    then show ?case by simp
  next
    case (Suc r)
    obtain k' where k': "run_timer_list cls k = Some k'" "inv k'" "sched_inv k'" "timer_ok k'"
      "remaining k' = map (\<lambda>(t, r). (t, r - 1)) (filter (\<lambda>(t, r). 1 < r) (remaining k))"
      "\<forall>t. (t, 1) \<in> set (remaining k) \<longrightarrow> (\<forall>p. t_proc (timers k t) = Some p \<longrightarrow> state (procs k' p) = PROC_RUNNABLE)"
      "\<forall>t. t_proc (timers k' t) = t_proc (timers k t)"
      using run_timer_list_ok[OF Suc.prems(1-3)] by blast
    show ?case
    proof (cases "r = 0")
      case True
      have "map fst (remaining k) = timer_list k" by (simp add: remaining_def)
      then have "distinct (map fst (remaining k))" using Suc.prems(3) by (simp add: timer_ok_def)
      then have "(t, r') \<in> set (remaining k) \<Longrightarrow> r' = 1" for r'
        using Suc.prems(4) True by (metis One_nat_def eq_key_imp_eq_value)
      then have "t \<notin> fst ` set (remaining k')" unfolding k'(5) by fastforce
      moreover have "set (timer_list k') = fst ` set (remaining k')"
        by (simp add: remaining_def flip: list.set_map)
      ultimately show ?thesis using k'(1,6) True Suc.prems(4,5) by auto
    next
      case False
      have m: "(t, r) \<in> set (remaining k')" unfolding k'(5) using Suc.prems(4) False by force
      from Suc.IH[OF k'(2-4) m] k'(7) Suc.prems(5) False k'(1) show ?thesis by auto
    qed
  qed
qed

end

section \<open>Round robin takes turns\<close>

fun schedule_n :: "sched_class \<Rightarrow> nat \<Rightarrow> kern \<Rightarrow> kern option" where
  "schedule_n cls 0 k = Some k"
| "schedule_n cls (Suc n) k = do { k \<leftarrow> schedule cls k; schedule_n cls n k }"

lemma RR_schedule_rotates:
  assumes ok: "single_ok k" "sched_inv k"
    and cur: "state (procs k (current k)) = PROC_RUNNABLE" "current k \<noteq> idleproc k"
  shows "\<exists>k'. schedule RR_sched_class k = Some k' \<and> single_ok k' \<and> sched_inv k'
    \<and> current k' # run_list k' 0 = rotate1 (current k # run_list k 0)
    \<and> state (procs k' (current k')) = PROC_RUNNABLE \<and> current k' \<noteq> idleproc k' \<and> idleproc k' = idleproc k"
proof -
  let ?c = "current k"
  let ?k = "upd_proc ?c (\<lambda>pr. pr\<lparr>need_resched := False\<rparr>) k"
  have sr: "same_rq k ?k" by (rule same_rq_upd) simp
  have s1: "single_ok ?k" by (rule RR.inv_frame[OF ok(1) sr])
  then have rk: "rq_ok ?k" by (simp add: single_ok_def)
  have nl: "\<not> run_linked ?k ?c" using ok(2) same_rq_linked[OF sr] by (simp add: sched_inv_def)
  obtain k2 where k2: "RR_enqueue 0 ?c ?k = Some k2" "rq_ok k2" "sframe ?k k2"
    "run_list k2 = (run_list ?k)(0 := run_list ?k 0 @ [?c])"
    using RR_enqueue_ok[OF rk _ nl, of 0] by auto
  have s2: "single_ok k2" using k2(2,4) s1 by (simp add: single_ok_def)
  obtain p ps where pps: "run_list k 0 @ [?c] = p # ps" by (cases "run_list k 0 @ [?c]") auto
  then have r2: "run_list k2 0 = p # ps" by (simp add: k2(4))
  have l2: "run_linked k2 p" by (simp add: single_linked[OF s2] r2)
  obtain k3 where k3: "RR_dequeue 0 p k2 = Some k3" "sframe k2 k3"
    "run_list k3 = (run_list k2)(0 := remove1 p (run_list k2 0))"
    using RR_dequeue_ok[OF k2(2) l2 single_linked_rq[OF s2 l2]] by blast
  have i3: "idleproc k3 = idleproc k" using sframe_fields(2)[OF k3(2)] sframe_fields(2)[OF k2(3)] by simp
  let ?k4 = "upd_proc p (\<lambda>pr. pr\<lparr>runs := runs pr + 1\<rparr>) k3"
  let ?k5 = "if p \<noteq> current ?k4 then proc_run p ?k4 else ?k4"
  have i2: "idleproc k2 = idleproc k" "current k2 = current k"
    using sframe_fields(1,2)[OF k2(3)] by simp_all
  have sch: "schedule RR_sched_class k = Some ?k5"
    using cur k2(1) k3(1) r2 unfolding schedule_def Let_def
    by (simp add: sched_class_enqueue_def sched_class_pick_next_def sched_class_dequeue_def
        RR_sched_class_def RR_pick_next_def)
  have "current ?k5 = p" "run_list ?k5 0 = ps" by (simp_all add: proc_run_def k3(3) r2)
  moreover have "p # ps = rotate1 (?c # run_list k 0)" using pps by simp
  moreover from RR.schedule_ok[OF ok] sch have "single_ok ?k5" "sched_inv ?k5" "idleproc ?k5 = idleproc k"
    "\<forall>q. state (procs ?k5 q) = state (procs k q)" by auto
  moreover have "state (procs k p) = PROC_RUNNABLE \<and> p \<noteq> idleproc k"
  proof (cases "p = ?c")
    case False
    then have "p \<in> set (run_list k 0)" using pps by (cases "run_list k 0") auto
    then show ?thesis using ok single_linked[OF ok(1)] by (auto simp: sched_inv_def)
  qed (use cur in simp)
  ultimately show ?thesis using sch by (metis (no_types, lifting))
qed

section \<open>A small system\<close>

text \<open>Process 0 is idle, 1 runs, 2 is queued, 3 sleeps on timer 7 for two ticks.\<close>

definition demo_kern :: kern where
  "demo_kern = kern0\<lparr>
     procs := (\<lambda>_. new_proc 0)(
       0 := (new_proc 0)\<lparr>state := PROC_RUNNABLE, pid := 0\<rparr>,
       1 := (new_proc 0)\<lparr>state := PROC_RUNNABLE, pid := 1\<rparr>,
       2 := (new_proc 0)\<lparr>state := PROC_RUNNABLE, pid := 2, rq := Some 0\<rparr>,
       3 := (new_proc 0)\<lparr>state := PROC_SLEEPING, pid := 3, wait_state := WT_TIMER\<rparr>),
     current := 1,
     run_list := (\<lambda>_. [])(0 := [2]), proc_num := (\<lambda>_. 0)(0 := 1), max_time_slice := (\<lambda>q. 8 * 2 ^ q),
     rq_link := \<lparr>prev = (\<lambda>q. (q + 3) mod 4), next = (\<lambda>q. (q + 1) mod 4)\<rparr>,
     timer_list := [7], timers := (\<lambda>_. \<lparr>expires = 2, t_proc = Some 3\<rparr>)\<rparr>"

lemma demo_linked: "run_linked demo_kern p \<longleftrightarrow> p = 2"
  by (auto simp: run_linked_def demo_kern_def upt_rec)

lemma demo_kern_ok: "mlfq_ok demo_kern" "single_ok demo_kern" "sched_inv demo_kern" "timer_ok demo_kern"
  by (auto simp: mlfq_ok_def single_ok_def rq_ok_def sched_inv_def timer_ok_def demo_linked remaining_def waitable_def)
    (auto simp: demo_kern_def new_proc_def list_next_def kern0_def split: if_splits)

section \<open>Properties\<close>

text \<open>C6: The scheduler neither loses nor duplicates a process: with the installed MLFQ class, from
  any state in which exactly the runnable processes other than the running and the idle one are
  queued, \<open>schedule\<close> returns, keeps this invariant and the structure of the run queues, changes
  no process's state, and gives the processor to the idle process only if no other process is
  runnable.\<close>

theorem schedule_keeps_runnable_queued:
  assumes "mlfq_ok k" "sched_inv k"
  shows "\<exists>k'. schedule MLFQ_sched_class k = Some k' \<and> mlfq_ok k' \<and> sched_inv k'
    \<and> (\<forall>p. state (procs k' p) = state (procs k p))
    \<and> (if current k' = idleproc k then \<forall>p. state (procs k p) = PROC_RUNNABLE \<longrightarrow> p = idleproc k
       else state (procs k (current k')) = PROC_RUNNABLE)"
  using MLFQ.schedule_ok[OF assms] by blast

theorem schedule_keeps_runnable_queued_witness:
  "\<exists>k'. schedule MLFQ_sched_class demo_kern = Some k' \<and> sched_inv k' \<and> current k' \<noteq> 0"
proof -
  obtain k' where k': "schedule MLFQ_sched_class demo_kern = Some k'" "sched_inv k'"
    "if current k' = idleproc demo_kern then \<forall>p. state (procs demo_kern p) = PROC_RUNNABLE \<longrightarrow> p = idleproc demo_kern
       else state (procs demo_kern (current k')) = PROC_RUNNABLE"
    using schedule_keeps_runnable_queued[OF demo_kern_ok(1,3)] by blast
  have "idleproc demo_kern = 0" "state (procs demo_kern 2) = PROC_RUNNABLE"
    by (simp_all add: demo_kern_def kern0_def)
  with k' show ?thesis by (metis zero_neq_numeral)
qed

text \<open>\<open>wakeup_proc\<close> of a process that is not a zombie returns, makes it runnable with a
  cleared wait state, queues it unless it is the running or the idle process (so no wakeup is
  lost and none queues a process twice), and leaves every other process's state alone; a wakeup
  of a zombie panics.\<close>

theorem wakeup_proc_correct:
  assumes "mlfq_ok k" "sched_inv k"
  shows "if state (procs k p) = PROC_ZOMBIE then wakeup_proc MLFQ_sched_class p k = None
    else \<exists>k'. wakeup_proc MLFQ_sched_class p k = Some k' \<and> mlfq_ok k' \<and> sched_inv k'
      \<and> (\<forall>q. state (procs k' q) = (if q = p then PROC_RUNNABLE else state (procs k q)))
      \<and> (state (procs k p) \<noteq> PROC_RUNNABLE \<longrightarrow> wait_state (procs k' p) = 0)
      \<and> (run_linked k' p \<longleftrightarrow> p \<noteq> current k \<and> p \<noteq> idleproc k)"
proof (cases "state (procs k p) = PROC_ZOMBIE")
  case True
  then show ?thesis by (simp add: wakeup_proc_def)
next
  case False
  obtain k' where k': "wakeup_proc MLFQ_sched_class p k = Some k'" "mlfq_ok k'" "sched_inv k'"
    "sframe (if state (procs k p) \<noteq> PROC_RUNNABLE
        then upd_proc p (\<lambda>pr. pr\<lparr>state := PROC_RUNNABLE, wait_state := 0\<rparr>) k else k) k'"
    using MLFQ.wakeup_ok[OF assms False] by blast
  have st: "state (procs k' q) = (if q = p then PROC_RUNNABLE else state (procs k q))" for q
    using sframe_proc(1)[OF k'(4), of q] by auto
  have "current k' = current k" "idleproc k' = idleproc k"
    using sframe_fields(1,2)[OF k'(4)] by (auto split: if_splits)
  then have "run_linked k' p \<longleftrightarrow> p \<noteq> current k \<and> p \<noteq> idleproc k"
    using k'(3) st by (simp add: sched_inv_def)
  moreover have "state (procs k p) \<noteq> PROC_RUNNABLE \<longrightarrow> wait_state (procs k' p) = 0"
    using sframe_proc(2)[OF k'(4), of p] by simp
  ultimately show ?thesis using False k'(1-3) st by auto
qed

theorem wakeup_proc_correct_witness:
  "\<exists>k'. wakeup_proc MLFQ_sched_class 3 demo_kern = Some k' \<and> run_linked k' 3
    \<and> state (procs k' 3) = PROC_RUNNABLE \<and> wait_state (procs k' 3) = 0"
  using wakeup_proc_correct[OF demo_kern_ok(1,3), of 3]
  by (auto simp: demo_kern_def kern0_def)

text \<open>The multi-level feedback queue chooses by level: \<open>pick_next\<close> returns the first process
  of the lowest-numbered level that is not empty (or \<open>NULL\<close> when all are empty), and
  \<open>enqueue\<close> puts a process at the tail of level 0, except that one whose time slice is used up
  goes to the tail of the next level, or of its own when it is on the last; either way its new
  slice is positive and at most the slice of its level.\<close>

theorem MLFQ_levels:
  assumes "mlfq_ok k" "\<not> run_linked k p" "\<forall>q < 4. 0 < max_time_slice k q" "0 \<le> time_slice (procs k p)"
  shows "MLFQ_pick_next 0 k = Some (case filter (\<lambda>q. run_list k q \<noteq> []) [0, 1, 2, 3] of
        [] \<Rightarrow> None | q # _ \<Rightarrow> Some (hd (run_list k q)))
    \<and> (\<exists>k'. MLFQ_enqueue 0 p k = Some k' \<and>
        (let lv = (if time_slice (procs k p) = 0
           then (case rq (procs k p) of None \<Rightarrow> 0 | Some q \<Rightarrow> if q < 3 then q + 1 else 3) else 0)
         in run_list k' = (run_list k)(lv := run_list k lv @ [p]) \<and> rq (procs k' p) = Some lv
            \<and> 0 < time_slice (procs k' p) \<and> time_slice (procs k' p) \<le> max_time_slice k lv))"
proof
  have "first_queued k = (case filter (\<lambda>q. run_list k q \<noteq> []) [0, 1, 2, 3] of
        [] \<Rightarrow> None | q # _ \<Rightarrow> Some (hd (run_list k q)))"
    unfolding first_queued_def by (simp add: upt_rec numeral_eq_Suc split: list.split) 
  then show "MLFQ_pick_next 0 k = Some (case filter (\<lambda>q. run_list k q \<noteq> []) [0, 1, 2, 3] of
        [] \<Rightarrow> None | q # _ \<Rightarrow> Some (hd (run_list k q)))"
    using MLFQ_pick[OF assms(1)] by simp
next
  from assms(1) have rk: "rq_ok k" and ring: "\<And>q. q < NRQ \<Longrightarrow> list_next (rq_link k) q = (q + 1) mod NRQ"
    and rlt: "\<And>q. rq (procs k p) = Some q \<Longrightarrow> q < NRQ" by (auto simp: mlfq_ok_def)
  let ?lv = "if time_slice (procs k p) = 0
     then (case rq (procs k p) of None \<Rightarrow> 0 | Some q \<Rightarrow> if q < 3 then q + 1 else 3) else 0"
  have lv: "?lv < NRQ" by (auto split: option.split)
  have "MLFQ_enqueue 0 p k = RR_enqueue ?lv p k"
  proof (cases "rq (procs k p)")
    case None
    then show ?thesis using assms(2) by (simp add: MLFQ_enqueue_def Let_def)
  next
    case (Some q)
    then have "q < 3 \<or> q = 3" using rlt[of q] by linarith
    then show ?thesis using assms(2) ring[of q] Some by (auto simp: MLFQ_enqueue_def Let_def)
  qed
  moreover obtain k' where "RR_enqueue ?lv p k = Some k'" "run_list k' = (run_list k)(?lv := run_list k ?lv @ [p])"
    "rq (procs k' p) = Some ?lv" "time_slice (procs k' p) = (if time_slice (procs k p) = 0
        \<or> time_slice (procs k p) > max_time_slice k ?lv then max_time_slice k ?lv else time_slice (procs k p))"
    using RR_enqueue_ok[OF rk lv assms(2)] by auto
  ultimately show "\<exists>k'. MLFQ_enqueue 0 p k = Some k' \<and>
        (let lv = ?lv in run_list k' = (run_list k)(lv := run_list k lv @ [p]) \<and> rq (procs k' p) = Some lv
            \<and> 0 < time_slice (procs k' p) \<and> time_slice (procs k' p) \<le> max_time_slice k lv)"
    using assms(3,4) lv unfolding Let_def by (intro exI[of _ k']) auto
qed

theorem MLFQ_levels_witness:
  "MLFQ_pick_next 0 demo_kern = Some (Some 2)
   \<and> (\<exists>k'. MLFQ_enqueue 0 1 demo_kern = Some k' \<and> run_list k' 0 = [2, 1])"
proof -
  have "\<not> run_linked demo_kern 1" "\<forall>q < 4. 0 < max_time_slice demo_kern q"
    "0 \<le> time_slice (procs demo_kern 1)" by (simp_all add: demo_linked) (simp_all add: demo_kern_def kern0_def new_proc_def)
  from MLFQ_levels[OF demo_kern_ok(1) this] show ?thesis
    by (auto simp: demo_kern_def kern0_def new_proc_def Let_def)
qed

text \<open>C7: Round robin is fair: if the running process stays runnable, \<open>n\<close> calls of \<open>schedule\<close>
  rotate the sequence made of the running process and the run queue \<open>n\<close> times, so that each of
  \<open>m\<close> runnable processes runs once in every \<open>m\<close> consecutive calls.\<close>

theorem RR_fair:
  assumes "single_ok k" "sched_inv k" "state (procs k (current k)) = PROC_RUNNABLE" "current k \<noteq> idleproc k"
  shows "\<exists>k'. schedule_n RR_sched_class n k = Some k'
    \<and> current k' # run_list k' 0 = rotate n (current k # run_list k 0)"
  using assms
proof (induction n arbitrary: k)
  case 0
  then show ?case by simp
next
  case (Suc n)
  from RR_schedule_rotates[OF Suc.prems] obtain k' where
    k': "schedule RR_sched_class k = Some k'" "single_ok k'" "sched_inv k'"
    "current k' # run_list k' 0 = rotate1 (current k # run_list k 0)"
    "state (procs k' (current k')) = PROC_RUNNABLE" "current k' \<noteq> idleproc k'" by blast
  from Suc.IH[OF k'(2,3,5,6)] k'(1,4) show ?case by (auto simp: rotate1_rotate_swap)
qed

theorem RR_fair_witness:
  "\<exists>k'. schedule_n RR_sched_class 3 demo_kern = Some k' \<and> current k' # run_list k' 0 = [2, 1]"
proof -
  have "state (procs demo_kern (current demo_kern)) = PROC_RUNNABLE" "current demo_kern \<noteq> idleproc demo_kern"
    "current demo_kern # run_list demo_kern 0 = [1, 2]"
    by (simp_all add: demo_kern_def kern0_def)
  with RR_fair[OF demo_kern_ok(2,3), of 3] show ?thesis by (simp add: numeral_3_eq_3)
qed

text \<open>The list of timers stores differences, but stands for absolute remaining times:
  \<open>add_timer\<close> of a timer with \<open>e\<close> ticks to go inserts it with exactly \<open>e\<close> ticks after all timers
  due no later and changes no other timer's remaining time; \<open>del_timer\<close> removes a timer and
  changes no other timer's remaining time.\<close>

theorem timer_list_is_remaining_times:
  assumes "distinct (timer_list k)" "t \<notin> set (timer_list k)" "0 < expires (timers k t)" "t_proc (timers k t) \<noteq> None"
  shows "(\<exists>k'. add_timer t k = Some k'
      \<and> remaining k' = takeWhile (\<lambda>(s, r). r \<le> expires (timers k t)) (remaining k)
          @ (t, expires (timers k t)) # dropWhile (\<lambda>(s, r). r \<le> expires (timers k t)) (remaining k))
    \<and> remaining (del_timer u k) = filter (\<lambda>(s, r). s \<noteq> u) (remaining k)"
proof -
  obtain tm ts where "add_timer t k = Some (k\<lparr>timers := tm, timer_list := ts\<rparr>)"
    "deadlines tm 0 ts = takeWhile (\<lambda>(s, r). r \<le> expires (timers k t)) (remaining k)
        @ (t, expires (timers k t)) # dropWhile (\<lambda>(s, r). r \<le> expires (timers k t)) (remaining k)"
    using add_timer_remaining[OF assms] by blast
  moreover have "remaining (k\<lparr>timers := tm, timer_list := ts\<rparr>) = deadlines tm 0 ts"
    by (simp add: remaining_def)
  ultimately show ?thesis using del_timer_remaining[OF assms(1)] by auto
qed

theorem timer_list_is_remaining_times_witness:
  "\<exists>k'. add_timer 8 (upd_timer 8 (\<lambda>tm. tm\<lparr>expires := 5\<rparr>) demo_kern) = Some k' \<and> remaining k' = [(7, 2), (8, 5)]"
  using timer_list_is_remaining_times[of "upd_timer 8 (\<lambda>tm. tm\<lparr>expires := 5\<rparr>) demo_kern" 8 0]
  by (auto simp: demo_kern_def remaining_def)

text \<open>C8: A timer fires on time: in a consistent state a timer with \<open>r\<close> ticks to go is still
  pending, with \<open>r - j\<close> ticks to go, after any smaller number \<open>j\<close> of clock ticks, and after \<open>r\<close>
  ticks it is gone and its process is runnable; no tick panics.\<close>

theorem timer_fires_on_time:
  assumes "mlfq_ok k" "sched_inv k" "timer_ok k" "(t, r) \<in> set (remaining k)" "t_proc (timers k t) = Some p"
  shows "(\<forall>j < r. \<exists>k'. tick_n MLFQ_sched_class j k = Some k' \<and> (t, r - j) \<in> set (remaining k'))
    \<and> (\<exists>k'. tick_n MLFQ_sched_class r k = Some k' \<and> t \<notin> set (timer_list k') \<and> state (procs k' p) = PROC_RUNNABLE)"
  using MLFQ.tick_n_ok[OF assms] by blast

theorem timer_fires_on_time_witness:
  "(\<exists>k'. tick_n MLFQ_sched_class 1 demo_kern = Some k' \<and> (7, 1) \<in> set (remaining k'))
   \<and> (\<exists>k'. tick_n MLFQ_sched_class 2 demo_kern = Some k' \<and> state (procs k' 3) = PROC_RUNNABLE)"
proof -
  have "(7, 2) \<in> set (remaining demo_kern)" "t_proc (timers demo_kern 7) = Some 3"
    by (simp_all add: demo_kern_def remaining_def)
  note f = timer_fires_on_time[OF demo_kern_ok(1,3,4) this]
  from f have "\<exists>k'. tick_n MLFQ_sched_class 1 demo_kern = Some k' \<and> (7, 2 - 1) \<in> set (remaining k')"
    by (elim conjE allE[of _ 1]) simp
  moreover from f have "\<exists>k'. tick_n MLFQ_sched_class 2 demo_kern = Some k' \<and> state (procs k' 3) = PROC_RUNNABLE"
    by blast
  ultimately show ?thesis by simp
qed

end
