(* ===== verification/Wait.thy ===== *)
theory Wait
  imports Sched
begin

text \<open>
  Wait queues (\<open>kern/sync/wait.c\<close>).  A wait structure lives on the stack of the waiting process
  and is named by a number; it is linked exactly if it is in the list of the queue it points to
  (\<open>wait_queue_add\<close> sets the pointer when it links).
\<close>

section \<open>The code\<close>

definition wait_init :: "nat \<Rightarrow> nat \<Rightarrow> kern \<Rightarrow> kern" where
  "wait_init w p k = upd_wait w (\<lambda>wt. wt\<lparr>w_proc := Some p, wakeup_flags := WT_INTERRUPTED\<rparr>) k"

definition wait_queue_init :: "wqid \<Rightarrow> kern \<Rightarrow> kern" where
  "wait_queue_init q k = k\<lparr>wait_list := (wait_list k)(q := [])\<rparr>"

definition wait_in_queue :: "nat \<Rightarrow> kern \<Rightarrow> bool" where
  "wait_in_queue w k = (w \<in> set (wait_list k (wait_queue (waits k w))))"

definition wait_queue_add :: "wqid \<Rightarrow> nat \<Rightarrow> kern \<Rightarrow> kern option" where
  "wait_queue_add q w k = do {
     kassert (\<not> wait_in_queue w k \<and> w_proc (waits k w) \<noteq> None);
     let k = upd_wait w (\<lambda>wt. wt\<lparr>wait_queue := q\<rparr>) k;
     Some (k\<lparr>wait_list := (wait_list k)(q := wait_list k q @ [w])\<rparr>)
   }"

definition wait_queue_del :: "wqid \<Rightarrow> nat \<Rightarrow> kern \<Rightarrow> kern option" where
  "wait_queue_del q w k = do {
     kassert (wait_in_queue w k \<and> wait_queue (waits k w) = q);
     Some (k\<lparr>wait_list := (wait_list k)(q := remove1 w (wait_list k q))\<rparr>)
   }"

definition wait_queue_next :: "wqid \<Rightarrow> nat \<Rightarrow> kern \<Rightarrow> nat option option" where
  "wait_queue_next q w k = do {
     kassert (wait_in_queue w k \<and> wait_queue (waits k w) = q);
     Some (succ_of w (wait_list k q))
   }"

definition wait_queue_prev :: "wqid \<Rightarrow> nat \<Rightarrow> kern \<Rightarrow> nat option option" where
  "wait_queue_prev q w k = do {
     kassert (wait_in_queue w k \<and> wait_queue (waits k w) = q);
     Some (succ_of w (rev (wait_list k q)))
   }"

definition wait_queue_first :: "wqid \<Rightarrow> kern \<Rightarrow> nat option" where
  "wait_queue_first q k = (case wait_list k q of [] \<Rightarrow> None | w # _ \<Rightarrow> Some w)"

definition wait_queue_last :: "wqid \<Rightarrow> kern \<Rightarrow> nat option" where
  "wait_queue_last q k = (case rev (wait_list k q) of [] \<Rightarrow> None | w # _ \<Rightarrow> Some w)"

definition wait_queue_empty :: "wqid \<Rightarrow> kern \<Rightarrow> bool" where
  "wait_queue_empty q k = (wait_list k q = [])"

definition wakeup_wait :: "sched_class \<Rightarrow> wqid \<Rightarrow> nat \<Rightarrow> u32 \<Rightarrow> bool \<Rightarrow> kern \<Rightarrow> kern option" where
  "wakeup_wait cls q w fl del k = do {
     k \<leftarrow> (if del then wait_queue_del q w k else Some k);
     let k = upd_wait w (\<lambda>wt. wt\<lparr>wakeup_flags := fl\<rparr>) k;
     p \<leftarrow> w_proc (waits k w);
     wakeup_proc cls p k
   }"

definition wakeup_first :: "sched_class \<Rightarrow> wqid \<Rightarrow> u32 \<Rightarrow> bool \<Rightarrow> kern \<Rightarrow> kern option" where
  "wakeup_first cls q fl del k =
    (case wait_queue_first q k of None \<Rightarrow> Some k | Some w \<Rightarrow> wakeup_wait cls q w fl del k)"

text \<open>The two loops of \<open>wakeup_queue\<close>: take the first wait until there is none; or follow the
  links.\<close>

partial_function (option) wakeup_all :: "sched_class \<Rightarrow> wqid \<Rightarrow> u32 \<Rightarrow> kern \<Rightarrow> kern option" where
  "wakeup_all cls q fl k =
    (case wait_queue_first q k of
       None \<Rightarrow> Some k
     | Some w \<Rightarrow> do { k \<leftarrow> wakeup_wait cls q w fl True k; wakeup_all cls q fl k })"

partial_function (option) wakeup_each :: "sched_class \<Rightarrow> wqid \<Rightarrow> u32 \<Rightarrow> nat \<Rightarrow> kern \<Rightarrow> kern option" where
  "wakeup_each cls q fl w k = do {
     k \<leftarrow> wakeup_wait cls q w fl False k;
     nxt \<leftarrow> wait_queue_next q w k;
     (case nxt of None \<Rightarrow> Some k | Some w' \<Rightarrow> wakeup_each cls q fl w' k)
   }"

definition wakeup_queue :: "sched_class \<Rightarrow> wqid \<Rightarrow> u32 \<Rightarrow> bool \<Rightarrow> kern \<Rightarrow> kern option" where
  "wakeup_queue cls q fl del k =
    (case wait_queue_first q k of
       None \<Rightarrow> Some k
     | Some w \<Rightarrow> if del then wakeup_all cls q fl k else wakeup_each cls q fl w k)"

definition wait_current_set :: "wqid \<Rightarrow> nat \<Rightarrow> u32 \<Rightarrow> kern \<Rightarrow> kern option" where
  "wait_current_set q w ws k =
    (let k = wait_init w (current k) k;
         k = upd_proc (current k) (\<lambda>pr. pr\<lparr>state := PROC_SLEEPING, wait_state := ws\<rparr>) k
     in wait_queue_add q w k)"

definition wait_current_del :: "wqid \<Rightarrow> nat \<Rightarrow> kern \<Rightarrow> kern option" where
  "wait_current_del q w k = (if wait_in_queue w k then wait_queue_del q w k else Some k)"

section \<open>Consistent wait queues\<close>

definition wait_ok :: "kern \<Rightarrow> bool" where
  "wait_ok k \<longleftrightarrow> (\<forall>q. distinct (wait_list k q) \<and>
     (\<forall>w \<in> set (wait_list k q). wait_queue (waits k w) = q \<and> w_proc (waits k w) \<noteq> None))"

lemma wait_okD:
  "wait_ok k \<Longrightarrow> w \<in> set (wait_list k q) \<Longrightarrow> wait_queue (waits k w) = q \<and> (\<exists>p. w_proc (waits k w) = Some p) \<and> wait_in_queue w k"
  by (auto simp: wait_ok_def wait_in_queue_def)

lemma wait_ok_frame: "wait_ok k \<Longrightarrow> wait_list k' = wait_list k \<Longrightarrow> waits k' = waits k \<Longrightarrow> wait_ok k'"
  by (simp add: wait_ok_def)

text \<open>The processes waiting in a queue, in order.\<close>

definition waiters :: "kern \<Rightarrow> wqid \<Rightarrow> nat list" where
  "waiters k q = map (\<lambda>w. the (w_proc (waits k w))) (wait_list k q)"

text \<open>Everything of the run queues and processes, for a state in which only waits changed.\<close>

lemma wait_same_rq: "procs k' = procs k \<Longrightarrow> run_list k' = run_list k \<Longrightarrow> proc_num k' = proc_num k \<Longrightarrow>
   rq_link k' = rq_link k \<Longrightarrow> same_rq k k'"
  by (simp add: same_rq_def)

lemma wakeup_wait_del:
  assumes "wait_ok k" "wait_list k q = w # ws"
  obtains p k1 where "w_proc (waits k w) = Some p"
    "wakeup_wait cls q w fl True k = wakeup_proc cls p k1"
    "k1 = upd_wait w (\<lambda>wt. wt\<lparr>wakeup_flags := fl\<rparr>) (k\<lparr>wait_list := (wait_list k)(q := ws)\<rparr>)"
    "wait_ok k1"
proof -
  from assms have w: "w \<in> set (wait_list k q)" by simp
  from wait_okD[OF assms(1) w] obtain p where p: "w_proc (waits k w) = Some p"
    "wait_queue (waits k w) = q" "wait_in_queue w k" by blast
  let ?k1 = "upd_wait w (\<lambda>wt. wt\<lparr>wakeup_flags := fl\<rparr>) (k\<lparr>wait_list := (wait_list k)(q := ws)\<rparr>)"
  have "wakeup_wait cls q w fl True k = wakeup_proc cls p ?k1"
    using p assms(2) by (simp add: wakeup_wait_def wait_queue_del_def Let_def)
  moreover have "wait_ok ?k1"
    unfolding wait_ok_def
  proof (intro allI conjI ballI)
    fix r
    note a = assms(1)[unfolded wait_ok_def, rule_format, of r]
    show "distinct (wait_list ?k1 r)" using a assms(2) by auto
    fix v assume "v \<in> set (wait_list ?k1 r)"
    then have "v \<in> set (wait_list k r)" using assms(2) by (auto split: if_splits)
    with a show "wait_queue (waits ?k1 v) = r" "w_proc (waits ?k1 v) \<noteq> None" by auto
  qed
  ultimately show ?thesis using that p(1) by blast
qed

context sched_policy
begin

text \<open>Waking a whole queue: nobody is left waiting and everybody who waited is runnable.\<close>

lemma wakeup_all_ok:
  assumes "inv k" "sched_inv k" "wait_ok k" "wait_list k q = ws"
    and "\<forall>p \<in> set (waiters k q). state (procs k p) \<noteq> PROC_ZOMBIE"
  shows "\<exists>k'. wakeup_all cls q fl k = Some k' \<and> inv k' \<and> sched_inv k' \<and> wait_ok k'
    \<and> wait_list k' = (wait_list k)(q := []) \<and> current k' = current k \<and> idleproc k' = idleproc k
    \<and> (\<forall>p. state (procs k' p) = (if p \<in> set (waiters k q) then PROC_RUNNABLE else state (procs k p)))
    \<and> (\<forall>w \<in> set ws. wakeup_flags (waits k' w) = fl) \<and> (\<forall>w. w \<notin> set ws \<longrightarrow> waits k' w = waits k w)
    \<and> pframe k k'"
  using assms
proof (induction ws arbitrary: k)
  case Nil
  then show ?case by (auto simp: wakeup_all.simps[of cls] wait_queue_first_def waiters_def fun_eq_iff)
next
  case (Cons w ws)
  obtain p k1 where p: "w_proc (waits k w) = Some p" "wakeup_wait cls q w fl True k = wakeup_proc cls p k1"
    "k1 = upd_wait w (\<lambda>wt. wt\<lparr>wakeup_flags := fl\<rparr>) (k\<lparr>wait_list := (wait_list k)(q := ws)\<rparr>)" "wait_ok k1"
    using wakeup_wait_del[OF Cons.prems(3,4)] by blast
  have pr1: "procs k1 = procs k" "current k1 = current k" "idleproc k1 = idleproc k" by (simp_all add: p(3))
  have sr: "same_rq k k1" by (rule wait_same_rq) (simp_all add: p(3))
  have i1: "inv k1" "sched_inv k1"
    using inv_frame[OF Cons.prems(1) sr] sched_inv_frame[OF Cons.prems(2) sr] pr1 by auto
  have ws: "waiters k q = p # map (\<lambda>w. the (w_proc (waits k w))) ws" by (simp add: waiters_def Cons.prems(4) p(1))
  then have nz: "state (procs k1 p) \<noteq> PROC_ZOMBIE" using Cons.prems(5) pr1 by simp
  let ?u = "if state (procs k1 p) \<noteq> PROC_RUNNABLE
        then upd_proc p (\<lambda>pr. pr\<lparr>state := PROC_RUNNABLE, wait_state := 0\<rparr>) k1 else k1"
  from wakeup_ok[OF i1 nz] obtain k2 where
    k2: "wakeup_proc cls p k1 = Some k2" "inv k2" "sched_inv k2" "sframe ?u k2" by blast
  have "pframe k k1" by (simp add: p(3) pframe_def tframe_def)
  moreover have "pframe k1 k2" using wakeup_pframe[OF i1 nz] k2(1) by auto
  ultimately have pf: "pframe k k2" by (rule pframe_trans)
  have f: "wait_list k2 = (wait_list k)(q := ws)"
    "waits k2 = (waits k)(w := (waits k w)\<lparr>wakeup_flags := fl\<rparr>)"
    "current k2 = current k" "idleproc k2 = idleproc k"
    using sframe_fields[OF k2(4)] pr1 by (simp_all add: p(3) split: if_splits)
  have st: "state (procs k2 r) = (if r = p then PROC_RUNNABLE else state (procs k r))" for r
    using sframe_proc(1)[OF k2(4), of r] pr1 by auto
  have wok: "wait_ok k2" using p(4) f by (intro wait_ok_frame[OF p(4)]) (simp_all add: p(3))
  have d: "w \<notin> set ws" using Cons.prems(3,4) by (auto simp: wait_ok_def dest: spec[of _ q])
  have w2: "waiters k2 q = map (\<lambda>w. the (w_proc (waits k w))) ws" using d by (auto simp: waiters_def f)
  have nz2: "\<forall>p \<in> set (waiters k2 q). state (procs k2 p) \<noteq> PROC_ZOMBIE"
    using Cons.prems(5) unfolding w2 ws st by auto
  have wl: "wait_list k2 q = ws" by (simp add: f)
  from Cons.IH[OF k2(2,3) wok wl nz2] obtain k' where
    k': "wakeup_all cls q fl k2 = Some k'" "inv k'" "sched_inv k'" "wait_ok k'"
      "wait_list k' = (wait_list k2)(q := [])" "current k' = current k2" "idleproc k' = idleproc k2"
      "\<forall>p. state (procs k' p) = (if p \<in> set (waiters k2 q) then PROC_RUNNABLE else state (procs k2 p))"
      "\<forall>w \<in> set ws. wakeup_flags (waits k' w) = fl" "\<forall>w. w \<notin> set ws \<longrightarrow> waits k' w = waits k2 w"
      "pframe k2 k'"
    by blast
  have "wakeup_all cls q fl k = Some k'"
    using p(2) k2(1) k'(1) by (simp add: wakeup_all.simps[of cls q fl k] wait_queue_first_def Cons.prems(4))
  moreover have "state (procs k' r) = (if r \<in> set (waiters k q) then PROC_RUNNABLE else state (procs k r))" for r
    using k'(8) unfolding w2 ws st by auto
  moreover have "\<forall>v \<in> set (w # ws). wakeup_flags (waits k' v) = fl" using k'(9,10) d f(2) by auto
  moreover have "\<forall>v. v \<notin> set (w # ws) \<longrightarrow> waits k' v = waits k v" using k'(10) f(2) by auto
  ultimately show ?case using k'(2-7) f pframe_trans[OF pf k'(11)] by auto
qed

end

text \<open>C9: \<open>wakeup_queue\<close> with deletion, on a consistent state in which no waiter is a zombie,
  returns (its loop ends), empties the queue, makes every process that waited in it runnable and
  queued for the processor, marks each of their waits with the given flags, and disturbs no other
  wait queue and no other process.\<close>

theorem wakeup_queue_wakes_all:
  assumes "mlfq_ok k" "sched_inv k" "wait_ok k" "\<forall>p \<in> set (waiters k q). state (procs k p) \<noteq> PROC_ZOMBIE"
  shows "\<exists>k'. wakeup_queue MLFQ_sched_class q fl True k = Some k' \<and> mlfq_ok k' \<and> sched_inv k' \<and> wait_ok k'
    \<and> wait_list k' = (wait_list k)(q := [])
    \<and> (\<forall>p. state (procs k' p) = (if p \<in> set (waiters k q) then PROC_RUNNABLE else state (procs k p)))
    \<and> (\<forall>p \<in> set (waiters k q). p \<noteq> current k \<and> p \<noteq> idleproc k \<longrightarrow> run_linked k' p)
    \<and> (\<forall>w \<in> set (wait_list k q). wakeup_flags (waits k' w) = fl)"
proof -
  obtain k' where k': "wakeup_all MLFQ_sched_class q fl k = Some k'" "mlfq_ok k'" "sched_inv k'" "wait_ok k'"
    "wait_list k' = (wait_list k)(q := [])" "current k' = current k" "idleproc k' = idleproc k"
    "\<forall>p. state (procs k' p) = (if p \<in> set (waiters k q) then PROC_RUNNABLE else state (procs k p))"
    "\<forall>w \<in> set (wait_list k q). wakeup_flags (waits k' w) = fl" "pframe k k'"
    using MLFQ.wakeup_all_ok[OF assms(1-3) refl assms(4)] by blast
  have "wakeup_queue MLFQ_sched_class q fl True k = Some k'"
    using k'(1) by (auto simp: wakeup_queue_def wakeup_all.simps[of _ q fl k] split: option.splits)
  moreover have "\<forall>p \<in> set (waiters k q). p \<noteq> current k \<and> p \<noteq> idleproc k \<longrightarrow> run_linked k' p"
    using k'(3,6,7,8) by (simp add: sched_inv_def)
  ultimately show ?thesis using k' by blast
qed

definition demo_wait :: kern where
  "demo_wait = demo_kern\<lparr>wait_list := (\<lambda>_. [])(OtherQ 0 := [5]),
     waits := (\<lambda>_. \<lparr>w_proc = Some 3, wakeup_flags = 0, wait_queue = OtherQ 0\<rparr>)\<rparr>"

lemma demo_wait_ok: "mlfq_ok demo_wait" "sched_inv demo_wait" "wait_ok demo_wait"
  "waiters demo_wait (OtherQ 0) = [3]" "state (procs demo_wait 3) = PROC_SLEEPING"
  "current demo_wait = 1" "idleproc demo_wait = 0"
proof -
  have sr: "same_rq demo_kern demo_wait" by (simp add: same_rq_def demo_wait_def)
  show "sched_inv demo_wait" by (rule sched_inv_frame[OF demo_kern_ok(3) sr]) (simp_all add: demo_wait_def)
  show "mlfq_ok demo_wait" by (rule MLFQ.inv_frame[OF demo_kern_ok(1) sr])
  show "wait_ok demo_wait" "waiters demo_wait (OtherQ 0) = [3]" "state (procs demo_wait 3) = PROC_SLEEPING"
    "current demo_wait = 1" "idleproc demo_wait = 0"
    by (auto simp: demo_wait_def wait_ok_def waiters_def demo_kern_def kern0_def)
qed

theorem wakeup_queue_wakes_all_witness:
  "\<exists>k'. wakeup_queue MLFQ_sched_class (OtherQ 0) WT_INTERRUPTED True demo_wait = Some k'
    \<and> run_linked k' 3 \<and> wait_list k' (OtherQ 0) = []"
  using wakeup_queue_wakes_all[OF demo_wait_ok(1-3), of "OtherQ 0" WT_INTERRUPTED] demo_wait_ok(4-7) by auto

end
