(* ===== verification/Sem.thy ===== *)
theory Sem
  imports Wait
begin

text \<open>
  Semaphores: \<open>kern/sync/sem.c\<close> and the timer helpers of \<open>kern/sync/ipc.h\<close>.  A call that can
  block is two definitions, split at its call of \<open>schedule\<close>: the first runs up to and including
  the context switch, the second is what the process does when it runs again.  The address of a
  semaphore, of a \<open>sem_queue_t\<close> and of a \<open>sem_undo_t\<close> is a word; the results of \<open>kmalloc\<close> are
  arguments (\<open>None\<close> is \<open>NULL\<close>).  The user-level operations take the lock of the process's
  semaphore queue with \<open>down\<close>; their definitions here are what they do once they hold it.
\<close>

section \<open>Timers of a blocking call (ipc.h)\<close>

definition ipc_add_timer :: "nat option \<Rightarrow> kern \<Rightarrow> kern option" where
  "ipc_add_timer timer k = (case timer of None \<Rightarrow> Some k | Some t \<Rightarrow> add_timer t k)"

definition ipc_del_timer :: "nat option \<Rightarrow> kern \<Rightarrow> kern" where
  "ipc_del_timer timer k = (case timer of None \<Rightarrow> k | Some t \<Rightarrow> del_timer t k)"

definition ipc_timer_init :: "u32 \<Rightarrow> nat \<Rightarrow> kern \<Rightarrow> nat option \<times> u32 \<times> kern" where
  "ipc_timer_init timeout t k =
    (if timeout \<noteq> 0 then (Some t, ticks k, timer_init t (current k) (unat timeout) k) else (None, 0, k))"

definition ipc_check_timeout :: "u32 \<Rightarrow> u32 \<Rightarrow> kern \<Rightarrow> int" where
  "ipc_check_timeout timeout saved_ticks k =
    (if timeout \<noteq> 0 \<and> ticks k - saved_ticks \<ge> timeout then - E_TIMEOUT else - 1)"

section \<open>Kernel semaphores\<close>

definition sem_init :: "u32 \<Rightarrow> int \<Rightarrow> kern \<Rightarrow> kern" where
  "sem_init s v k =
     wait_queue_init (SemQ s) (upd_sem s (\<lambda>_. \<lparr>sem_value = v, sem_valid = True, sem_count = 0\<rparr>) k)"

definition sem_up :: "sched_class \<Rightarrow> u32 \<Rightarrow> u32 \<Rightarrow> kern \<Rightarrow> kern option" where
  "sem_up cls s ws k = do {
     kassert (sem_valid (sems k s));
     (case wait_queue_first (SemQ s) k of
        None \<Rightarrow> Some (upd_sem s (\<lambda>sm. sm\<lparr>sem_value := sem_value sm + 1\<rparr>) k)
      | Some w \<Rightarrow> do {
          p \<leftarrow> w_proc (waits k w);
          kassert (wait_state (procs k p) = ws);
          wakeup_wait cls (SemQ s) w ws True k
        })
   }"

text \<open>\<open>__down\<close>: \<open>True\<close> if the semaphore was taken at once.\<close>

definition sem_down :: "sched_class \<Rightarrow> u32 \<Rightarrow> nat \<Rightarrow> u32 \<Rightarrow> nat option \<Rightarrow> kern \<Rightarrow> (bool \<times> kern) option" where
  "sem_down cls s w ws timer k = do {
     kassert (sem_valid (sems k s));
     (if sem_value (sems k s) > 0 then Some (True, upd_sem s (\<lambda>sm. sm\<lparr>sem_value := sem_value sm - 1\<rparr>) k)
      else do {
        k \<leftarrow> wait_current_set (SemQ s) w ws k;
        k \<leftarrow> ipc_add_timer timer k;
        k \<leftarrow> schedule cls k;
        Some (False, k)
      })
   }"

definition sem_down_resume :: "u32 \<Rightarrow> nat \<Rightarrow> u32 \<Rightarrow> nat option \<Rightarrow> kern \<Rightarrow> (u32 \<times> kern) option" where
  "sem_down_resume s w ws timer k = do {
     let k = ipc_del_timer timer k;
     k \<leftarrow> wait_current_del (SemQ s) w k;
     Some (if wakeup_flags (waits k w) \<noteq> ws then wakeup_flags (waits k w) else 0, k)
   }"

definition up :: "sched_class \<Rightarrow> u32 \<Rightarrow> kern \<Rightarrow> kern option" where
  "up cls s k = sem_up cls s WT_KSEM k"

definition down :: "sched_class \<Rightarrow> u32 \<Rightarrow> nat \<Rightarrow> kern \<Rightarrow> (bool \<times> kern) option" where
  "down cls s w k = sem_down cls s w WT_KSEM None k"

definition down_resume :: "u32 \<Rightarrow> nat \<Rightarrow> kern \<Rightarrow> kern option" where
  "down_resume s w k = do {
     (fl, k) \<leftarrow> sem_down_resume s w WT_KSEM None k;
     kassert (fl = 0);
     Some k
   }"

definition try_down :: "u32 \<Rightarrow> kern \<Rightarrow> bool \<times> kern" where
  "try_down s k =
    (if sem_value (sems k s) > 0 then (True, upd_sem s (\<lambda>sm. sm\<lparr>sem_value := sem_value sm - 1\<rparr>) k)
     else (False, k))"

section \<open>User semaphores\<close>

definition usem_up :: "sched_class \<Rightarrow> u32 \<Rightarrow> kern \<Rightarrow> (int \<times> kern) option" where
  "usem_up cls s k = do { k \<leftarrow> sem_up cls s WT_USEM k; Some (0, k) }"

text \<open>The result of the first part: \<open>None\<close> if the process sleeps; then \<open>usem_down_resume\<close>
  gives the result.  \<open>t\<close> and \<open>w\<close> are the timer and the wait on the stack.\<close>

definition usem_down :: "sched_class \<Rightarrow> u32 \<Rightarrow> u32 \<Rightarrow> nat \<Rightarrow> nat \<Rightarrow> kern \<Rightarrow> (int option \<times> u32 \<times> kern) option" where
  "usem_down cls s timeout t w k = do {
     let (timer, saved, k) = ipc_timer_init timeout t k;
     (now, k) \<leftarrow> sem_down cls s w WT_USEM timer k;
     Some (if now then Some 0 else None, saved, k)
   }"

definition usem_down_resume :: "u32 \<Rightarrow> u32 \<Rightarrow> u32 \<Rightarrow> nat \<Rightarrow> nat \<Rightarrow> kern \<Rightarrow> (int \<times> kern) option" where
  "usem_down_resume s timeout saved t w k = do {
     (fl, k) \<leftarrow> sem_down_resume s w WT_USEM (if timeout \<noteq> 0 then Some t else None) k;
     (if fl = 0 then Some (0, k)
      else do {
        kassert (fl = WT_INTERRUPTED);
        Some (ipc_check_timeout timeout saved k, k)
      })
   }"

definition sem_queue_create :: "u32 option \<Rightarrow> kern \<Rightarrow> u32 option \<times> kern" where
  "sem_queue_create a k =
    (case a of None \<Rightarrow> (None, k)
     | Some q \<Rightarrow> (Some q, (sem_init q 1 k)\<lparr>sem_queues := (sem_queues k)(q := \<lparr>sq_sem = q, sq_count = 0, semu_list = []\<rparr>)\<rparr>))"

definition semu_create :: "u32 option \<Rightarrow> int \<Rightarrow> u32 option \<Rightarrow> u32 option \<Rightarrow> kern \<Rightarrow> u32 option \<times> kern" where
  "semu_create sem v a_semu a_sem k =
    (case a_semu of None \<Rightarrow> (None, k)
     | Some u \<Rightarrow>
         (let (sem, k) = (case sem of Some s \<Rightarrow> (Some s, k)
              | None \<Rightarrow> (case a_sem of None \<Rightarrow> (None, k) | Some s \<Rightarrow> (Some s, sem_init s v k)))
          in case sem of None \<Rightarrow> (None, k)
             | Some s \<Rightarrow> (Some u, (upd_sem s (\<lambda>sm. sm\<lparr>sem_count := sem_count sm + 1\<rparr>) k)
                            \<lparr>semus := (semus k)(u := s)\<rparr>)))"

text \<open>Freed memory stays readable in the model; nothing below reads it.\<close>

definition semu_destroy :: "u32 \<Rightarrow> kern \<Rightarrow> kern" where
  "semu_destroy u k = upd_sem (semus k u) (\<lambda>sm. sm\<lparr>sem_count := sem_count sm - 1\<rparr>) k"

definition upd_semu_list :: "u32 \<Rightarrow> (u32 list \<Rightarrow> u32 list) \<Rightarrow> kern \<Rightarrow> kern" where
  "upd_semu_list q f k = k\<lparr>sem_queues := (sem_queues k)(q := (sem_queues k q)\<lparr>semu_list := f (semu_list (sem_queues k q))\<rparr>)\<rparr>"

fun dup_loop :: "u32 \<Rightarrow> u32 list \<Rightarrow> u32 option list \<Rightarrow> kern \<Rightarrow> int \<times> kern" where
  "dup_loop to [] as k = (0, k)"
| "dup_loop to (u # us) as k =
    (if sem_valid (sems k (semus k u)) then
       (case semu_create (Some (semus k u)) 0 (case as of [] \<Rightarrow> None | a # _ \<Rightarrow> a) None k of
          (None, k) \<Rightarrow> (- E_NO_MEM, k)
        | (Some v, k) \<Rightarrow> dup_loop to us (tl as) (upd_semu_list to (Cons v) k))
     else dup_loop to us as k)"

definition dup_sem_queue :: "u32 \<Rightarrow> u32 \<Rightarrow> u32 option list \<Rightarrow> kern \<Rightarrow> int \<times> kern" where
  "dup_sem_queue to from as k = dup_loop to (semu_list (sem_queues k from)) as k"

definition exit_sem_queue :: "u32 \<Rightarrow> kern \<Rightarrow> kern option" where
  "exit_sem_queue q k = do {
     kassert (sq_count (sem_queues k q) = 0);
     let us = semu_list (sem_queues k q);
     Some (fold semu_destroy us (upd_semu_list q (\<lambda>_. []) k))
   }"

definition semid2sem :: "u32 \<Rightarrow> u32" where
  "semid2sem i = i + 0xC0000000"

definition sem2semid :: "u32 \<Rightarrow> u32" where
  "sem2semid s = s - 0xC0000000"

definition VALID_SEMID :: "u32 \<Rightarrow> bool" where
  "VALID_SEMID i \<longleftrightarrow> i < i + 0xC0000000"

text \<open>The first undo of the semaphore moves to the front, or goes if the semaphore is dead.\<close>

definition semu_list_search :: "u32 \<Rightarrow> u32 \<Rightarrow> kern \<Rightarrow> u32 option \<times> kern" where
  "semu_list_search q i k =
    (if VALID_SEMID i then
       (case find (\<lambda>u. semus k u = semid2sem i) (semu_list (sem_queues k q)) of
          None \<Rightarrow> (None, k)
        | Some u \<Rightarrow>
            (let k = upd_semu_list q (remove1 u) k
             in if sem_valid (sems k (semid2sem i)) then (Some u, upd_semu_list q (Cons u) k)
                else (None, semu_destroy u k)))
     else (None, k))"

definition ipc_sem_init_locked :: "sched_class \<Rightarrow> u32 \<Rightarrow> u32 \<Rightarrow> kern \<Rightarrow> (u32 \<times> kern) option" where
  "ipc_sem_init_locked cls q u k = do {
     let k = upd_semu_list q (Cons u) k;
     k \<leftarrow> up cls (sq_sem (sem_queues k q)) k;
     Some (sem2semid (semus k u), k)
   }"

definition ipc_sem_post_locked :: "sched_class \<Rightarrow> u32 \<Rightarrow> u32 \<Rightarrow> kern \<Rightarrow> (int \<times> kern) option" where
  "ipc_sem_post_locked cls q i k = do {
     let (semu, k) = semu_list_search q i k;
     k \<leftarrow> up cls (sq_sem (sem_queues k q)) k;
     (case semu of None \<Rightarrow> Some (- E_INVAL, k) | Some u \<Rightarrow> usem_up cls (semus k u) k)
   }"

definition ipc_sem_wait_locked :: "sched_class \<Rightarrow> u32 \<Rightarrow> u32 \<Rightarrow> u32 \<Rightarrow> nat \<Rightarrow> nat \<Rightarrow> kern
    \<Rightarrow> (int option \<times> u32 \<times> kern) option" where
  "ipc_sem_wait_locked cls q i timeout t w k = do {
     let (semu, k) = semu_list_search q i k;
     k \<leftarrow> up cls (sq_sem (sem_queues k q)) k;
     (case semu of None \<Rightarrow> Some (Some (- E_INVAL), 0, k) | Some u \<Rightarrow> usem_down cls (semus k u) timeout t w k)
   }"

definition ipc_sem_free_locked :: "sched_class \<Rightarrow> u32 \<Rightarrow> u32 \<Rightarrow> kern \<Rightarrow> (int \<times> kern) option" where
  "ipc_sem_free_locked cls q i k = do {
     let (semu, k) = semu_list_search q i k;
     k \<leftarrow> up cls (sq_sem (sem_queues k q)) k;
     (case semu of None \<Rightarrow> Some (- E_INVAL, k)
      | Some u \<Rightarrow> do {
          let k = upd_sem (semus k u) (\<lambda>sm. sm\<lparr>sem_valid := False\<rparr>) k;
          k \<leftarrow> wakeup_queue cls (SemQ (semus k u)) WT_INTERRUPTED True k;
          Some (0, k)
        })
   }"

text \<open>\<open>copy_ok\<close> is the result of \<open>copy_to_user\<close>; the value to copy is returned.\<close>

definition ipc_sem_get_value_locked :: "sched_class \<Rightarrow> u32 \<Rightarrow> u32 \<Rightarrow> bool \<Rightarrow> kern \<Rightarrow> (int \<times> int option \<times> kern) option" where
  "ipc_sem_get_value_locked cls q i copy_ok k = do {
     let (semu, k) = semu_list_search q i k;
     k \<leftarrow> up cls (sq_sem (sem_queues k q)) k;
     (case semu of None \<Rightarrow> Some (- E_INVAL, None, k)
      | Some u \<Rightarrow> if copy_ok then Some (0, Some (sem_value (sems k (semus k u))), k) else Some (- E_INVAL, None, k))
   }"

section \<open>Semaphores hand over in order\<close>

text \<open>The two fields the abstract semaphore consists of.\<close>

definition sem_abs :: "kern \<Rightarrow> u32 \<Rightarrow> int \<times> nat list" where
  "sem_abs k s = (sem_value (sems k s), waiters k (SemQ s))"

definition abs_up :: "int \<times> nat list \<Rightarrow> int \<times> nat list" where
  "abs_up = (\<lambda>(v, ps). case ps of [] \<Rightarrow> (v + 1, []) | p # ps \<Rightarrow> (v, ps))"

definition abs_down :: "nat \<Rightarrow> int \<times> nat list \<Rightarrow> int \<times> nat list" where
  "abs_down me = (\<lambda>(v, ps). if v > 0 then (v - 1, ps) else (v, ps @ [me]))"

lemma wait_current_set_ok:
  assumes "wait_ok k" "\<forall>q. w \<notin> set (wait_list k q)"
  obtains k' where "wait_current_set q w ws k = Some k'" "wait_ok k'" "same_rq k k'"
    "wait_list k' = (wait_list k)(q := wait_list k q @ [w])"
    "waits k' = (waits k)(w := \<lparr>w_proc = Some (current k), wakeup_flags = WT_INTERRUPTED, wait_queue = q\<rparr>)"
    "current k' = current k" "idleproc k' = idleproc k" "sems k' = sems k"
    "\<forall>p. state (procs k' p) = (if p = current k then PROC_SLEEPING else state (procs k p))"
    "\<forall>p. wait_state (procs k' p) = (if p = current k then ws else wait_state (procs k p))"
    "timer_list k' = timer_list k" "timers k' = timers k"
proof -
  let ?a = "upd_proc (current k) (\<lambda>pr. pr\<lparr>state := PROC_SLEEPING, wait_state := ws\<rparr>) (wait_init w (current k) k)"
  let ?k = "upd_wait w (\<lambda>wt. wt\<lparr>wait_queue := q\<rparr>) ?a"
  let ?b = "?k\<lparr>wait_list := (wait_list ?k)(q := wait_list ?k q @ [w])\<rparr>"
  have "wait_current_set q w ws k = Some ?b"
    using assms(2) by (simp add: wait_current_set_def wait_queue_add_def wait_in_queue_def wait_init_def Let_def)
  moreover have "wait_ok ?b"
    using assms unfolding wait_ok_def by (auto simp: wait_init_def)
  moreover have "waits ?b = (waits k)(w := \<lparr>w_proc = Some (current k), wakeup_flags = WT_INTERRUPTED, wait_queue = q\<rparr>)"
    by (simp add: wait_init_def fun_eq_iff)
  moreover have "same_rq k ?b" by (simp add: same_rq_def wait_init_def)
  ultimately show ?thesis using that[of ?b] by (simp add: wait_init_def)
qed

lemma schedule_keeps_waits:
  assumes "schedule cls k = Some k'"
    and enq: "\<And>p k1 k2. c_enqueue cls 0 p k1 = Some k2 \<Longrightarrow> sframe k1 k2"
    and deq: "\<And>p k1 k2. c_dequeue cls 0 p k1 = Some k2 \<Longrightarrow> sframe k1 k2"
  shows "wait_list k' = wait_list k" "waits k' = waits k" "sems k' = sems k"
proof -
  have e: "sframe k1 k2" if "sched_class_enqueue cls p k1 = Some k2" for p k1 k2
    using that enq by (auto simp: sched_class_enqueue_def split: if_splits)
  have d: "sframe k1 k2" if "sched_class_dequeue cls p k1 = Some k2" for p k1 k2
    using that deq by (auto simp: sched_class_dequeue_def)
  show "wait_list k' = wait_list k" "waits k' = waits k" "sems k' = sems k"
    using assms(1) unfolding schedule_def Let_def
    by (auto simp: kmonad proc_run_def sframe_fields[OF e] sframe_fields[OF d] split: if_splits option.splits)
qed

lemma RR_enqueue_sframe: "RR_enqueue q p k = Some k' \<Longrightarrow> sframe k k'"
  by (auto simp: RR_enqueue_def Let_def kmonad sframe_def upd_proc_def split: if_splits)

lemma RR_dequeue_sframe: "RR_dequeue q p k = Some k' \<Longrightarrow> sframe k k'"
  by (auto simp: RR_dequeue_def Let_def kmonad sframe_def)

lemma MLFQ_schedule_keeps_waits:
  assumes "schedule MLFQ_sched_class k = Some k'"
  shows "wait_list k' = wait_list k" "waits k' = waits k" "sems k' = sems k"
  by (rule schedule_keeps_waits[OF assms];
      auto simp: MLFQ_sched_class_def MLFQ_enqueue_def MLFQ_dequeue_def Let_def kmonad
        dest: RR_enqueue_sframe RR_dequeue_sframe)+

text \<open>C10: \<open>up\<close> implements the abstract semaphore, first come first served: with no waiter it
  increments the value; otherwise it takes the first waiter off the queue, makes that process
  runnable with the wakeup flags that \<open>down\<close> reports as success, and leaves the value alone, so
  the unit is handed over and no later process can overtake.\<close>

theorem up_refines_abstract_semaphore:
  assumes "mlfq_ok k" "sched_inv k" "wait_ok k" "sem_valid (sems k s)"
    and "\<forall>p \<in> set (waiters k (SemQ s)). state (procs k p) = PROC_SLEEPING \<and> wait_state (procs k p) = 0x100"
  shows "\<exists>k'. up MLFQ_sched_class s k = Some k' \<and> mlfq_ok k' \<and> sched_inv k' \<and> wait_ok k'
    \<and> sem_abs k' s = abs_up (sem_abs k s)
    \<and> (case wait_list k (SemQ s) of [] \<Rightarrow> True
       | w # _ \<Rightarrow> state (procs k' (hd (waiters k (SemQ s)))) = PROC_RUNNABLE \<and> wakeup_flags (waits k' w) = 0x100)"
proof (cases "wait_list k (SemQ s)")
  case Nil
  let ?k = "upd_sem s (\<lambda>sm. sm\<lparr>sem_value := sem_value sm + 1\<rparr>) k"
  have sr: "same_rq k ?k" by (simp add: same_rq_def)
  have "up MLFQ_sched_class s k = Some ?k"
    using assms(4) Nil by (simp add: up_def sem_up_def wait_queue_first_def)
  moreover have "mlfq_ok ?k" "sched_inv ?k" "wait_ok ?k"
    using MLFQ.inv_frame[OF assms(1) sr] sched_inv_frame[OF assms(2) sr] wait_ok_frame[OF assms(3)] by auto
  ultimately show ?thesis using Nil by (simp add: sem_abs_def abs_up_def waiters_def)
next
  case (Cons w ws)
  obtain p k1 where p: "w_proc (waits k w) = Some p"
    "wakeup_wait MLFQ_sched_class (SemQ s) w 0x100 True k = wakeup_proc MLFQ_sched_class p k1"
    "k1 = upd_wait w (\<lambda>wt. wt\<lparr>wakeup_flags := 0x100\<rparr>) (k\<lparr>wait_list := (wait_list k)(SemQ s := ws)\<rparr>)" "wait_ok k1"
    using wakeup_wait_del[OF assms(3) Cons] by blast
  have ws: "waiters k (SemQ s) = p # map (\<lambda>w. the (w_proc (waits k w))) ws" by (simp add: waiters_def Cons p(1))
  have pr1: "procs k1 = procs k" "current k1 = current k" "idleproc k1 = idleproc k" "sems k1 = sems k"
    by (simp_all add: p(3))
  have sr: "same_rq k k1" by (rule wait_same_rq) (simp_all add: p(3))
  have i1: "mlfq_ok k1" "sched_inv k1"
    using MLFQ.inv_frame[OF assms(1) sr] sched_inv_frame[OF assms(2) sr] pr1 by auto
  have ps: "state (procs k1 p) = PROC_SLEEPING" "wait_state (procs k p) = 0x100" using assms(5) ws pr1 by auto
  then have nz: "state (procs k1 p) \<noteq> PROC_ZOMBIE" by simp
  from MLFQ.wakeup_ok[OF i1 nz] ps(1) obtain k2 where
    k2: "wakeup_proc MLFQ_sched_class p k1 = Some k2" "mlfq_ok k2" "sched_inv k2"
    "sframe (upd_proc p (\<lambda>pr. pr\<lparr>state := PROC_RUNNABLE, wait_state := 0\<rparr>) k1) k2" by auto
  have f: "wait_list k2 = (wait_list k)(SemQ s := ws)"
    "waits k2 = (waits k)(w := (waits k w)\<lparr>wakeup_flags := 0x100\<rparr>)" "sems k2 = sems k"
    using sframe_fields[OF k2(4)] pr1 by (simp_all add: p(3))
  have "wait_ok k2" using f by (intro wait_ok_frame[OF p(4)]) (simp_all add: p(3))
  moreover have "state (procs k2 p) = PROC_RUNNABLE" using sframe_proc(1)[OF k2(4), of p] by simp
  moreover have "w \<notin> set ws" using assms(3) Cons by (auto simp: wait_ok_def dest: spec[of _ "SemQ s"])
  then have "waiters k2 (SemQ s) = map (\<lambda>w. the (w_proc (waits k w))) ws" by (auto simp: waiters_def f)
  moreover have "up MLFQ_sched_class s k = Some k2"
    using assms(4) Cons p(1,2) k2(1) ps(2) by (simp add: up_def sem_up_def wait_queue_first_def)
  ultimately show ?thesis using k2(2,3) Cons ws by (simp add: sem_abs_def abs_up_def f)
qed

text \<open>C11: \<open>down\<close> implements the abstract semaphore: with a positive value it takes a unit and goes
  on at once; otherwise the calling process is asleep at the tail of the semaphore's queue when
  \<open>down\<close> gives up the processor, and the scheduler's invariant holds for the process that runs
  then.\<close>

theorem down_refines_abstract_semaphore:
  assumes "mlfq_ok k" "sched_inv k" "wait_ok k" "sem_valid (sems k s)"
    and "\<forall>q. w \<notin> set (wait_list k q)" "current k \<noteq> idleproc k"
  shows "\<exists>k'. down MLFQ_sched_class s w k = Some (0 < sem_value (sems k s), k') \<and> mlfq_ok k' \<and> sched_inv k' \<and> wait_ok k'
    \<and> sem_abs k' s = abs_down (current k) (sem_abs k s)
    \<and> (if 0 < sem_value (sems k s) then current k' = current k
       else state (procs k' (current k)) = PROC_SLEEPING \<and> wait_state (procs k' (current k)) = 0x100
         \<and> current k' \<noteq> current k)"
proof (cases "0 < sem_value (sems k s)")
  case True
  let ?k = "upd_sem s (\<lambda>sm. sm\<lparr>sem_value := sem_value sm - 1\<rparr>) k"
  have sr: "same_rq k ?k" by (simp add: same_rq_def)
  have "down MLFQ_sched_class s w k = Some (True, ?k)"
    using assms(4) True by (simp add: down_def sem_down_def)
  moreover have "mlfq_ok ?k" "sched_inv ?k" "wait_ok ?k"
    using MLFQ.inv_frame[OF assms(1) sr] sched_inv_frame[OF assms(2) sr] wait_ok_frame[OF assms(3)] by auto
  ultimately show ?thesis using True by (simp add: sem_abs_def abs_down_def waiters_def)
next
  case False
  obtain k1 where k1: "wait_current_set (SemQ s) w 0x100 k = Some k1" "wait_ok k1" "same_rq k k1"
    "wait_list k1 = (wait_list k)(SemQ s := wait_list k (SemQ s) @ [w])"
    "waits k1 = (waits k)(w := \<lparr>w_proc = Some (current k), wakeup_flags = WT_INTERRUPTED, wait_queue = SemQ s\<rparr>)"
    "current k1 = current k" "idleproc k1 = idleproc k" "sems k1 = sems k"
    "\<forall>p. state (procs k1 p) = (if p = current k then PROC_SLEEPING else state (procs k p))"
    "\<forall>p. wait_state (procs k1 p) = (if p = current k then 0x100 else wait_state (procs k p))"
    using wait_current_set_ok[OF assms(3,5)] by blast
  have m1: "mlfq_ok k1" by (rule MLFQ.inv_frame[OF assms(1) k1(3)])
  have s1: "sched_inv k1" using assms(2) same_rq_linked[OF k1(3)] k1(6,7,9) by (auto simp: sched_inv_def)
  from MLFQ.schedule_ok[OF m1 s1] obtain k2 where k2: "schedule MLFQ_sched_class k1 = Some k2" "mlfq_ok k2"
    "sched_inv k2" "\<forall>p. state (procs k2 p) = state (procs k1 p) \<and> wait_state (procs k2 p) = wait_state (procs k1 p)"
    "if current k2 = idleproc k1 then \<forall>p. state (procs k1 p) = PROC_RUNNABLE \<longrightarrow> p = idleproc k1
       else state (procs k1 (current k2)) = PROC_RUNNABLE" by blast
  note kw = MLFQ_schedule_keeps_waits[OF k2(1)]
  have "wait_ok k2" by (rule wait_ok_frame[OF k1(2) kw(1,2)])
  moreover have "down MLFQ_sched_class s w k = Some (False, k2)"
    using assms(4) False k1(1) k2(1) by (simp add: down_def sem_down_def ipc_add_timer_def)
  moreover have "current k2 \<noteq> current k" using k2(5) k1(7,9) assms(6) by (auto split: if_splits)
  moreover have "w \<notin> set (wait_list k (SemQ s))" using assms(5) by blast
  then have "waiters k2 (SemQ s) = waiters k (SemQ s) @ [current k]"
    by (auto simp: waiters_def kw k1(4,5))
  ultimately show ?thesis using False k1(8-10) k2(2-4) by (simp add: sem_abs_def abs_down_def kw)
qed

text \<open>A system in which process 3 waits for semaphore 16 without holding anything else.\<close>

definition demo_sem :: kern where
  "demo_sem = demo_kern\<lparr>
     procs := (procs demo_kern)(3 := (procs demo_kern 3)\<lparr>wait_state := 0x100\<rparr>),
     wait_list := (\<lambda>_. [])(SemQ 16 := [5]),
     waits := (\<lambda>_. \<lparr>w_proc = Some 3, wakeup_flags = WT_INTERRUPTED, wait_queue = SemQ 16\<rparr>),
     sems := (\<lambda>_. \<lparr>sem_value = 0, sem_valid = True, sem_count = 1\<rparr>)\<rparr>"

lemma demo_sem_ok: "mlfq_ok demo_sem" "sched_inv demo_sem" "wait_ok demo_sem" "sem_valid (sems demo_sem 16)"
  "waiters demo_sem (SemQ 16) = [3]" "wait_list demo_sem (SemQ 16) = [5]" "current demo_sem = 1" "idleproc demo_sem = 0"
  "state (procs demo_sem 3) = PROC_SLEEPING" "wait_state (procs demo_sem 3) = 0x100" "sem_value (sems demo_sem 16) = 0"
  "\<forall>q. 6 \<notin> set (wait_list demo_sem q)"
proof -
  have sr: "same_rq demo_kern demo_sem" by (simp add: same_rq_def demo_sem_def)
  show "sched_inv demo_sem" by (rule sched_inv_frame[OF demo_kern_ok(3) sr]) (simp_all add: demo_sem_def)
  show "mlfq_ok demo_sem" by (rule MLFQ.inv_frame[OF demo_kern_ok(1) sr])
  show "wait_ok demo_sem" "waiters demo_sem (SemQ 16) = [3]" "sem_valid (sems demo_sem 16)"
    "wait_list demo_sem (SemQ 16) = [5]" "current demo_sem = 1" "idleproc demo_sem = 0"
    "state (procs demo_sem 3) = PROC_SLEEPING" "wait_state (procs demo_sem 3) = 0x100" "sem_value (sems demo_sem 16) = 0"
    "\<forall>q. 6 \<notin> set (wait_list demo_sem q)"
    by (auto simp: demo_sem_def wait_ok_def waiters_def demo_kern_def kern0_def)
qed

theorem up_refines_abstract_semaphore_witness:
  "\<exists>k'. up MLFQ_sched_class 16 demo_sem = Some k' \<and> sem_abs k' 16 = (0, [])
    \<and> state (procs k' 3) = PROC_RUNNABLE \<and> wakeup_flags (waits k' 5) = 0x100"
  using up_refines_abstract_semaphore[OF demo_sem_ok(1-4)] demo_sem_ok(5-11)
  by (auto simp: sem_abs_def abs_up_def)

theorem down_refines_abstract_semaphore_witness:
  "\<exists>k'. down MLFQ_sched_class 16 6 demo_sem = Some (False, k') \<and> sem_abs k' 16 = (0, [3, 1])
    \<and> state (procs k' 1) = PROC_SLEEPING"
  using down_refines_abstract_semaphore[OF demo_sem_ok(1-4,12)] demo_sem_ok(5-11)
  by (auto simp: sem_abs_def abs_down_def)

section \<open>A waiter that was interrupted\<close>

text \<open>Process 3 waits for semaphore 16 as a user process; it is killed or its timer expires:
  \<open>wakeup_proc\<close> makes it runnable and clears its wait state, but its wait stays linked until it
  runs again.\<close>

text \<open>An \<open>up\<close> that finds a waiter whose process has been woken for another reason (a kill or
  an expired timeout) but has not run since panics on the assertion in \<open>__up\<close>: the wait is still
  the first of the queue while the wait state of its process is already zero.\<close>

theorem usem_up_after_interruption_panics:
  assumes "wait_ok k" "wait_list k (SemQ s) = w # ws" "w_proc (waits k w) = Some p"
    and "state (procs k p) = PROC_SLEEPING" "wakeup_proc cls p k = Some k'"
    and "\<And>r k1 k2. c_enqueue cls 0 r k1 = Some k2 \<Longrightarrow> sframe k1 k2"
  shows "usem_up cls s k' = None"
proof -
  have f: "sframe (upd_proc p (\<lambda>pr. pr\<lparr>state := PROC_RUNNABLE, wait_state := 0\<rparr>) k) k'"
    using assms(4-6) by (auto simp: wakeup_proc_def Let_def sched_class_enqueue_def split: if_splits)
  have "wait_list k' = wait_list k" "waits k' = waits k" "wait_state (procs k' p) = 0"
    using sframe_fields[OF f] sframe_proc(2)[OF f, of p] by simp_all
  then have "sem_up cls s WT_USEM k' = None"
    using assms(2,3) by (simp add: sem_up_def wait_queue_first_def kmonad)
  then show ?thesis by (simp add: usem_up_def)
qed

theorem usem_up_after_interruption_panics_witness:
  "\<exists>k'. wakeup_proc MLFQ_sched_class 3 demo_sem = Some k' \<and> usem_up MLFQ_sched_class 16 k' = None"
proof -
  have "state (procs demo_sem 3) \<noteq> PROC_ZOMBIE" using demo_sem_ok(9) by simp
  from MLFQ.wakeup_ok[OF demo_sem_ok(1,2) this] obtain k' where
    k': "wakeup_proc MLFQ_sched_class 3 demo_sem = Some k'" by blast
  have "w_proc (waits demo_sem 5) = Some 3" by (simp add: demo_sem_def)
  from usem_up_after_interruption_panics[OF demo_sem_ok(3,6) this demo_sem_ok(9) k'] k' show ?thesis
    by (auto simp: MLFQ_sched_class_def MLFQ_enqueue_def Let_def kmonad dest: RR_enqueue_sframe)
qed

end
