(* ===== verification/Proc.thy ===== *)
theory Proc
  imports Sem KString
begin

text \<open>
  Processes: \<open>kern/process/proc.c\<close>.  The process tree (parent, youngest child, younger and
  older sibling), the process list, the pid hash table, \<open>get_pid\<close>, thread groups, fork, exit,
  wait, kill, sleep.  Results of other subsystems are arguments: the address \<open>kmalloc\<close> returns,
  the kernel stack \<open>alloc_pages\<close> gives, the semaphore queue and memory descriptor that the
  copying routines produce.  A call that blocks is split at \<open>schedule\<close>, as in \<open>Sem\<close>.  The
  register context and the trap frame are not part of the state.
\<close>

section \<open>Links, pids and the hash table\<close>

definition set_links :: "nat \<Rightarrow> kern \<Rightarrow> kern option" where
  "set_links p k = do {
     let k = k\<lparr>proc_list := p # proc_list k\<rparr>;
     let k = upd_proc p (\<lambda>pr. pr\<lparr>yptr := None\<rparr>) k;
     pa \<leftarrow> parent (procs k p);
     let k = upd_proc p (\<lambda>pr. pr\<lparr>optr := cptr (procs k pa)\<rparr>) k;
     let k = (case optr (procs k p) of None \<Rightarrow> k | Some ol \<Rightarrow> upd_proc ol (\<lambda>pr. pr\<lparr>yptr := Some p\<rparr>) k);
     let k = upd_proc pa (\<lambda>pr. pr\<lparr>cptr := Some p\<rparr>) k;
     Some (k\<lparr>nr_process := nr_process k + 1\<rparr>)
   }"

definition remove_links :: "nat \<Rightarrow> kern \<Rightarrow> kern option" where
  "remove_links p k = do {
     let k = k\<lparr>proc_list := remove1 p (proc_list k)\<rparr>;
     let k = (case optr (procs k p) of None \<Rightarrow> k
              | Some ol \<Rightarrow> upd_proc ol (\<lambda>pr. pr\<lparr>yptr := yptr (procs k p)\<rparr>) k);
     k \<leftarrow> (case yptr (procs k p) of
          Some y \<Rightarrow> Some (upd_proc y (\<lambda>pr. pr\<lparr>optr := optr (procs k p)\<rparr>) k)
        | None \<Rightarrow> do {
            pa \<leftarrow> parent (procs k p);
            Some (upd_proc pa (\<lambda>pr. pr\<lparr>cptr := optr (procs k p)\<rparr>) k)
          });
     Some (k\<lparr>nr_process := nr_process k - 1\<rparr>)
   }"

text \<open>One pass of \<open>get_pid\<close> over the process list; the flag says \<open>goto repeat\<close>.\<close>

fun pid_scan :: "int list \<Rightarrow> int \<Rightarrow> int \<Rightarrow> int \<times> int \<times> bool" where
  "pid_scan [] lst safe = (lst, safe, False)"
| "pid_scan (p # ps) lst safe =
    (if p = lst then
       (if lst + 1 \<ge> safe then (if lst + 1 \<ge> MAX_PID then 1 else lst + 1, MAX_PID, True)
        else pid_scan ps (lst + 1) safe)
     else if p > lst \<and> safe > p then pid_scan ps lst p
     else pid_scan ps lst safe)"

partial_function (option) pid_repeat :: "int list \<Rightarrow> int \<Rightarrow> int \<Rightarrow> (int \<times> int) option" where
  "pid_repeat ps lst safe =
    (case pid_scan ps lst safe of (lst, safe, again) \<Rightarrow>
       if again then pid_repeat ps lst safe else Some (lst, safe))"

definition pids :: "kern \<Rightarrow> int list" where
  "pids k = map (\<lambda>p. pid (procs k p)) (proc_list k)"

definition get_pid :: "kern \<Rightarrow> (int \<times> kern) option" where
  "get_pid k = do {
     let lst = last_pid k + 1;
     (lst, safe) \<leftarrow>
       (if lst \<ge> MAX_PID then pid_repeat (pids k) 1 MAX_PID
        else if lst \<ge> next_safe k then pid_repeat (pids k) lst MAX_PID
        else Some (lst, next_safe k));
     Some (lst, k\<lparr>last_pid := lst, next_safe := safe\<rparr>)
   }"

definition pid_hashfn :: "int \<Rightarrow> u32" where
  "pid_hashfn x = hash32 (word_of_int x) 10"

definition hash_proc :: "nat \<Rightarrow> kern \<Rightarrow> kern" where
  "hash_proc p k =
    (let h = pid_hashfn (pid (procs k p)) in k\<lparr>hash_list := (hash_list k)(h := p # hash_list k h)\<rparr>)"

definition unhash_proc :: "nat \<Rightarrow> kern \<Rightarrow> kern" where
  "unhash_proc p k =
    (let h = pid_hashfn (pid (procs k p)) in k\<lparr>hash_list := (hash_list k)(h := remove1 p (hash_list k h))\<rparr>)"

definition find_proc :: "int \<Rightarrow> kern \<Rightarrow> nat option" where
  "find_proc i k =
    (if 0 < i \<and> i < MAX_PID then find (\<lambda>p. pid (procs k p) = i) (hash_list k (pid_hashfn i)) else None)"

section \<open>Thread groups\<close>

definition de_thread :: "nat \<Rightarrow> kern \<Rightarrow> kern" where
  "de_thread p k = (if \<not> list_empty (tgroup k) p then k\<lparr>tgroup := list_del_init p (tgroup k)\<rparr> else k)"

definition next_thread :: "nat \<Rightarrow> kern \<Rightarrow> nat" where
  "next_thread p k = list_next (tgroup k) p"

section \<open>Fork\<close>

abbreviation (input) "CLONE_VM \<equiv> (0x100 :: u32)"
abbreviation (input) "CLONE_THREAD \<equiv> (0x200 :: u32)"
abbreviation (input) "CLONE_SEM \<equiv> (0x400 :: u32)"

definition sem_queue_count_add :: "u32 \<Rightarrow> int \<Rightarrow> kern \<Rightarrow> kern" where
  "sem_queue_count_add q d k =
     k\<lparr>sem_queues := (sem_queues k)(q := (sem_queues k q)\<lparr>sq_count := sq_count (sem_queues k q) + d\<rparr>)\<rparr>"

text \<open>\<open>copy_sem\<close>: \<open>dup\<close> is the duplicated queue, or \<open>None\<close> if a step of the duplication failed
  (and was undone).\<close>

definition copy_sem :: "u32 \<Rightarrow> nat \<Rightarrow> u32 option \<Rightarrow> kern \<Rightarrow> int \<times> kern" where
  "copy_sem clone_flags p dup k =
    (case sem_queue (procs k (current k)) of
       None \<Rightarrow> (0, k)
     | Some old \<Rightarrow>
         (case (if clone_flags AND CLONE_SEM \<noteq> 0 then Some old else dup) of
            None \<Rightarrow> (- E_NO_MEM, k)
          | Some q \<Rightarrow> (0, upd_proc p (\<lambda>pr. pr\<lparr>sem_queue := Some q\<rparr>) (sem_queue_count_add q 1 k))))"

definition put_sem_queue :: "nat \<Rightarrow> kern \<Rightarrow> kern option" where
  "put_sem_queue p k =
    (case sem_queue (procs k p) of
       None \<Rightarrow> Some k
     | Some q \<Rightarrow>
         (let k = sem_queue_count_add q (- 1) k
          in if sq_count (sem_queues k q) = 0 then exit_sem_queue q k else Some k))"

text \<open>\<open>copy_mm\<close>: \<open>dup\<close> is the address of the duplicated descriptor and of its page directory.\<close>

definition copy_mm :: "u32 \<Rightarrow> nat \<Rightarrow> (nat \<times> u32) option \<Rightarrow> kern \<Rightarrow> int \<times> kern" where
  "copy_mm clone_flags p dup k =
    (case mm (procs k (current k)) of
       None \<Rightarrow> (0, k)
     | Some old \<Rightarrow>
         (if clone_flags AND CLONE_VM \<noteq> 0 then
            (0, upd_proc p (\<lambda>pr. pr\<lparr>mm := Some old, cr3 := cr3 (procs k (current k))\<rparr>)
                  (k\<lparr>mm_count := (mm_count k)(old := mm_count k old + 1)\<rparr>))
          else (case dup of
            None \<Rightarrow> (- E_NO_MEM, k)
          | Some (m, pgdir) \<Rightarrow>
              (0, upd_proc p (\<lambda>pr. pr\<lparr>mm := Some m, cr3 := pgdir\<rparr>)
                  (k\<lparr>proc_mm_list := m # proc_mm_list k, mm_count := (mm_count k)(m := mm_count k m + 1)\<rparr>)))))"

text \<open>\<open>alloc_proc\<close> on the object at \<open>p\<close>; \<open>exit_code\<close> and the event value keep what the memory held.\<close>

definition alloc_proc :: "u32 \<Rightarrow> nat \<Rightarrow> kern \<Rightarrow> kern" where
  "alloc_proc boot_cr3 p k =
    (let k = upd_proc p (\<lambda>pr. (new_proc boot_cr3)\<lparr>exit_code := exit_code pr, event := event pr\<rparr>) k;
         k = k\<lparr>tgroup := list_init p (tgroup k)\<rparr>
     in wait_queue_init (EventQ p) k)"

record fork_env =
  e_proc :: "nat option"
  e_kstack :: "u32 option"
  e_sem :: "u32 option"
  e_mm :: "(nat \<times> u32) option"
  e_boot_cr3 :: u32

definition do_fork :: "sched_class \<Rightarrow> u32 \<Rightarrow> fork_env \<Rightarrow> kern \<Rightarrow> (int \<times> kern) option" where
  "do_fork cls clone_flags env k =
    (if nr_process k \<ge> MAX_PROCESS then Some (- E_NO_FREE_PROC, k)
     else case e_proc env of
       None \<Rightarrow> Some (- E_NO_MEM, k)
     | Some p \<Rightarrow> do {
         let k = alloc_proc (e_boot_cr3 env) p k;
         let k = upd_proc p (\<lambda>pr. pr\<lparr>parent := Some (current k)\<rparr>) k;
         kassert (wait_state (procs k (current k)) = 0);
         kassert (time_slice (procs k (current k)) \<ge> 0);
         let half = time_slice (procs k (current k)) div 2;
         let k = upd_proc p (\<lambda>pr. pr\<lparr>time_slice := half\<rparr>) k;
         let k = upd_proc (current k) (\<lambda>pr. pr\<lparr>time_slice := time_slice pr - half\<rparr>) k;
         (case e_kstack env of
            None \<Rightarrow> Some (- E_NO_MEM, k)
          | Some ks \<Rightarrow> do {
              let k = upd_proc p (\<lambda>pr. pr\<lparr>kstack := ks\<rparr>) k;
              let (r, k) = copy_sem clone_flags p (e_sem env) k;
              (if r \<noteq> 0 then Some (- E_NO_MEM, k)
               else do {
                 let (r, k) = copy_mm clone_flags p (e_mm env) k;
                 (if r \<noteq> 0 then do { k \<leftarrow> put_sem_queue p k; Some (- E_NO_MEM, k) }
                  else do {
                    (i, k) \<leftarrow> get_pid k;
                    let k = upd_proc p (\<lambda>pr. pr\<lparr>pid := i\<rparr>) k;
                    k \<leftarrow> set_links p (hash_proc p k);
                    let k = (if clone_flags AND CLONE_THREAD \<noteq> 0
                             then k\<lparr>tgroup := list_add_before (current k) p (tgroup k)\<rparr> else k);
                    k \<leftarrow> wakeup_proc cls p k;
                    Some (pid (procs k p), k)
                  })
               })
            })
       })"

section \<open>Kill\<close>

definition kill_proc :: "sched_class \<Rightarrow> nat \<Rightarrow> int \<Rightarrow> kern \<Rightarrow> (int \<times> kern) option" where
  "kill_proc cls p error_code k =
    (if flags (procs k p) AND PF_EXITING = 0 then do {
       let k = upd_proc p (\<lambda>pr. pr\<lparr>flags := flags pr OR PF_EXITING, exit_code := error_code\<rparr>) k;
       k \<leftarrow> (if wait_state (procs k p) AND WT_INTERRUPTED \<noteq> 0 then wakeup_proc cls p k else Some k);
       Some (0, k)
     }
     else Some (- E_KILLED, k))"

definition do_kill :: "sched_class \<Rightarrow> int \<Rightarrow> int \<Rightarrow> kern \<Rightarrow> (int \<times> kern) option" where
  "do_kill cls i error_code k =
    (case find_proc i k of Some p \<Rightarrow> kill_proc cls p error_code k | None \<Rightarrow> Some (- E_INVAL, k))"

section \<open>Exit\<close>

text \<open>The two loops of \<open>__do_exit\<close>: waking the threads of the parent that wait for a child, and
  giving the children to \<open>heir\<close>.\<close>

partial_function (option) wake_parents :: "sched_class \<Rightarrow> nat \<Rightarrow> nat \<Rightarrow> kern \<Rightarrow> kern option" where
  "wake_parents cls pa p k = do {
     k \<leftarrow> (if wait_state (procs k p) = WT_CHILD then wakeup_proc cls p k else Some k);
     let p = next_thread p k;
     (if p \<noteq> pa then wake_parents cls pa p k else Some k)
   }"

text \<open>One child of \<open>me\<close> moves to the front of the children of \<open>heir\<close>.\<close>

definition adopt :: "nat \<Rightarrow> nat \<Rightarrow> nat \<Rightarrow> kern \<Rightarrow> kern" where
  "adopt me heir p k =
    (let k = upd_proc me (\<lambda>pr. pr\<lparr>cptr := optr (procs k p)\<rparr>) k;
         k = upd_proc p (\<lambda>pr. pr\<lparr>yptr := None\<rparr>) k;
         k = upd_proc p (\<lambda>pr. pr\<lparr>optr := cptr (procs k heir)\<rparr>) k;
         k = (case cptr (procs k heir) of None \<Rightarrow> k | Some c \<Rightarrow> upd_proc c (\<lambda>pr. pr\<lparr>yptr := Some p\<rparr>) k);
         k = upd_proc p (\<lambda>pr. pr\<lparr>parent := Some heir\<rparr>) k
     in upd_proc heir (\<lambda>pr. pr\<lparr>cptr := Some p\<rparr>) k)"

partial_function (option) reparent :: "sched_class \<Rightarrow> nat \<Rightarrow> nat \<Rightarrow> kern \<Rightarrow> kern option" where
  "reparent cls me heir k =
    (case cptr (procs k me) of
       None \<Rightarrow> Some k
     | Some p \<Rightarrow> do {
         let k = adopt me heir p k;
         k \<leftarrow> (if state (procs k p) = PROC_ZOMBIE \<and> wait_state (procs k heir) = WT_CHILD
               then wakeup_proc cls heir k else Some k);
         reparent cls me heir k
       })"

text \<open>The first part of \<open>__do_exit\<close>.  The address spaces are a second state \<open>v\<close>; \<open>put m v\<close> drops the
  reference to the descriptor \<open>m\<close> and tears it down if it was the last one (\<open>mm_put\<close> in the theory
  \<open>ProcExit\<close>); it says whether it was.  The kernel keeps its own copy of the count, for \<open>copy_mm\<close>.\<close>

definition exit_mm :: "u32 \<Rightarrow> (nat \<Rightarrow> 'v \<Rightarrow> (bool \<times> 'v) option) \<Rightarrow> nat \<Rightarrow> kern \<times> 'v \<Rightarrow> (kern \<times> 'v) option" where
  "exit_mm boot_cr3 put p kv =
    (case kv of (k, v) \<Rightarrow>
       (case mm (procs k p) of
          None \<Rightarrow> Some (k, v)
        | Some m \<Rightarrow> do {
            (last, v) \<leftarrow> put m v;
            let k = k\<lparr>cr3_reg := boot_cr3, mm_count := (mm_count k)(m := mm_count k m - 1)\<rparr>;
            let k = (if last then k\<lparr>proc_mm_list := remove1 m (proc_mm_list k)\<rparr> else k);
            Some (upd_proc p (\<lambda>pr. pr\<lparr>mm := None\<rparr>) k, v)
          }))"

text \<open>The rest of \<open>__do_exit\<close>, up to the final \<open>schedule\<close>, from which it does not return.\<close>

definition exit_rest :: "sched_class \<Rightarrow> kern \<Rightarrow> kern option" where
  "exit_rest cls k = do {
     let me = current k;
     let k = upd_proc me (\<lambda>pr. pr\<lparr>state := PROC_ZOMBIE\<rparr>) k;
     pa \<leftarrow> parent (procs k me);
     k \<leftarrow> wake_parents cls pa pa k;
     let heir = (if next_thread me k = me then initproc k else next_thread me k);
     let k = de_thread me k;
     k \<leftarrow> reparent cls me heir k;
     k \<leftarrow> wakeup_queue cls (EventQ me) WT_INTERRUPTED True k;
     schedule cls k
   }"

definition do_exit_self :: "sched_class \<Rightarrow> u32 \<Rightarrow> (nat \<Rightarrow> 'v \<Rightarrow> (bool \<times> 'v) option) \<Rightarrow> kern \<times> 'v \<Rightarrow> (kern \<times> 'v) option" where
  "do_exit_self cls boot_cr3 put kv = do {
     kassert (current (fst kv) \<noteq> idleproc (fst kv));
     kassert (current (fst kv) \<noteq> initproc (fst kv));
     (k, v) \<leftarrow> exit_mm boot_cr3 put (current (fst kv)) kv;
     k \<leftarrow> exit_rest cls k;
     Some (k, v)
   }"

definition do_exit_thread :: "sched_class \<Rightarrow> u32 \<Rightarrow> (nat \<Rightarrow> 'v \<Rightarrow> (bool \<times> 'v) option) \<Rightarrow> int \<Rightarrow> kern \<times> 'v \<Rightarrow> (kern \<times> 'v) option" where
  "do_exit_thread cls boot_cr3 put error_code kv =
     do_exit_self cls boot_cr3 put (upd_proc (current (fst kv)) (\<lambda>pr. pr\<lparr>exit_code := error_code\<rparr>) (fst kv), snd kv)"

partial_function (option) kill_group :: "sched_class \<Rightarrow> nat \<Rightarrow> nat \<Rightarrow> int \<Rightarrow> kern \<Rightarrow> kern option" where
  "kill_group cls lst le error_code k =
    (let le = next_thread le k
     in if le \<noteq> lst then do { (_, k) \<leftarrow> kill_proc cls le error_code k; kill_group cls lst le error_code k }
        else Some k)"

definition do_exit :: "sched_class \<Rightarrow> u32 \<Rightarrow> (nat \<Rightarrow> 'v \<Rightarrow> (bool \<times> 'v) option) \<Rightarrow> int \<Rightarrow> kern \<times> 'v \<Rightarrow> (kern \<times> 'v) option" where
  "do_exit cls boot_cr3 put error_code kv = do {
     k \<leftarrow> kill_group cls (current (fst kv)) (current (fst kv)) error_code (fst kv);
     do_exit_thread cls boot_cr3 put error_code (k, snd kv)
   }"

definition may_killed :: "sched_class \<Rightarrow> u32 \<Rightarrow> (nat \<Rightarrow> 'v \<Rightarrow> (bool \<times> 'v) option) \<Rightarrow> kern \<times> 'v \<Rightarrow> (kern \<times> 'v) option" where
  "may_killed cls boot_cr3 put kv =
    (if flags (procs (fst kv) (current (fst kv))) AND PF_EXITING \<noteq> 0 then do_exit_self cls boot_cr3 put kv else Some kv)"

section \<open>Wait\<close>

text \<open>The search of \<open>do_wait\<close>: whether the caller has a child to wait for, and a zombie if there
  is one.  With \<open>pid = 0\<close> the outer loop walks the thread group, but the inner loop starts from
  \<open>current->cptr\<close> every time, as in the source.\<close>

partial_function (option) child_zombie :: "nat option \<Rightarrow> bool \<Rightarrow> kern \<Rightarrow> (bool \<times> nat option) option" where
  "child_zombie p haskid k =
    (case p of
       None \<Rightarrow> Some (haskid, None)
     | Some c \<Rightarrow> if state (procs k c) = PROC_ZOMBIE then Some (True, Some c)
         else child_zombie (optr (procs k c)) True k)"

partial_function (option) wait_any :: "nat \<Rightarrow> bool \<Rightarrow> kern \<Rightarrow> (bool \<times> nat option) option" where
  "wait_any cproc haskid k = do {
     (haskid, z) \<leftarrow> child_zombie (cptr (procs k (current k))) haskid k;
     (if z \<noteq> None then Some (haskid, z)
      else (let cproc = next_thread cproc k
            in if cproc \<noteq> current k then wait_any cproc haskid k else Some (haskid, None)))
   }"

partial_function (option) wait_pid :: "nat \<Rightarrow> nat \<Rightarrow> kern \<Rightarrow> (bool \<times> nat option) option" where
  "wait_pid p cproc k =
    (if parent (procs k p) = Some cproc
     then Some (True, if state (procs k p) = PROC_ZOMBIE then Some p else None)
     else (let cproc = next_thread cproc k
           in if cproc \<noteq> current k then wait_pid p cproc k else Some (False, None)))"

definition wait_search :: "int \<Rightarrow> kern \<Rightarrow> (bool \<times> nat option) option" where
  "wait_search i k =
    (if i \<noteq> 0 then (case find_proc i k of None \<Rightarrow> Some (False, None) | Some p \<Rightarrow> wait_pid p (current k) k)
     else wait_any (current k) False k)"

text \<open>The part at the label \<open>found\<close>; the exit code is handed to the caller.\<close>

definition reap :: "nat \<Rightarrow> kern \<Rightarrow> (int \<times> kern) option" where
  "reap p k = do {
     kassert (p \<noteq> idleproc k \<and> p \<noteq> initproc k);
     let code = exit_code (procs k p);
     k \<leftarrow> remove_links p (unhash_proc p k);
     Some (code, k)
   }"

text \<open>The call up to its return value and the value written to \<open>code_store\<close>, or to the
  \<open>schedule\<close> of one round, after which it repeats.  \<open>code_store\<close> is \<open>None\<close> for \<open>NULL\<close>;
  otherwise it holds the results of \<open>user_mem_check\<close> and of \<open>copy_to_user\<close>.\<close>

datatype wait_result = WaitReturn int "int option" | WaitSleeps

definition do_wait_repeat :: "sched_class \<Rightarrow> int \<Rightarrow> (bool \<times> bool) option \<Rightarrow> kern \<Rightarrow> (wait_result \<times> kern) option" where
  "do_wait_repeat cls i code_store k = do {
     (haskid, z) \<leftarrow> wait_search i k;
     (case z of
        Some p \<Rightarrow> do {
          (code, k) \<leftarrow> reap p k;
          Some (case code_store of
                  None \<Rightarrow> WaitReturn 0 None
                | Some (_, wr) \<Rightarrow> if wr then WaitReturn 0 (Some code) else WaitReturn (- E_INVAL) None, k)
        }
      | None \<Rightarrow>
          if haskid then do {
            k \<leftarrow> schedule cls (upd_proc (current k) (\<lambda>pr. pr\<lparr>state := PROC_SLEEPING, wait_state := WT_CHILD\<rparr>) k);
            Some (WaitSleeps, k)
          }
          else Some (WaitReturn (- E_BAD_PROC) None, k))
   }"

definition do_wait :: "sched_class \<Rightarrow> int \<Rightarrow> (bool \<times> bool) option \<Rightarrow> kern \<Rightarrow> (wait_result \<times> kern) option" where
  "do_wait cls i code_store k =
    (case code_store of
       Some (False, _) \<Rightarrow> Some (WaitReturn (- E_INVAL) None, k)
     | _ \<Rightarrow> do_wait_repeat cls i code_store k)"

section \<open>Sleep and yield\<close>

definition do_yield :: "kern \<Rightarrow> int \<times> kern" where
  "do_yield k = (0, upd_proc (current k) (\<lambda>pr. pr\<lparr>need_resched := True\<rparr>) k)"

definition do_sleep :: "sched_class \<Rightarrow> nat \<Rightarrow> nat \<Rightarrow> kern \<Rightarrow> kern option" where
  "do_sleep cls time t k =
    (if time = 0 then Some k
     else do {
       let k = timer_init t (current k) time k;
       let k = upd_proc (current k) (\<lambda>pr. pr\<lparr>state := PROC_SLEEPING, wait_state := WT_TIMER\<rparr>) k;
       k \<leftarrow> add_timer t k;
       schedule cls k
     })"

definition do_sleep_resume :: "nat \<Rightarrow> kern \<Rightarrow> int \<times> kern" where
  "do_sleep_resume t k = (0, del_timer t k)"

section \<open>Fresh pids\<close>

lemma pid_scan_done:
  "pid_scan ps lst safe = (l, s, False) \<Longrightarrow> lst < safe \<Longrightarrow>
   lst \<le> l \<and> l < s \<and> s \<le> safe \<and> (\<forall>p \<in> set ps. \<not> (l \<le> p \<and> p < s))"
proof (induction ps lst safe rule: pid_scan.induct)
  case (1 lst safe)
  then show ?case by simp
next
  case (2 p ps lst safe)
  show ?case
  proof (cases "p = lst")
    case True
    with 2 show ?thesis by (fastforce split: if_splits)
  next
    case False
    show ?thesis
    proof (cases "p > lst \<and> safe > p")
      case True
      with False 2 show ?thesis by fastforce
    next
      case other: False
      with False 2 show ?thesis by fastforce
    qed
  qed
qed

text \<open>A pass that asks for another one has passed over used pids only.\<close>

lemma pid_scan_again:
  "pid_scan ps lst safe = (l, s, True) \<Longrightarrow> lst < safe \<Longrightarrow> safe \<le> MAX_PID \<Longrightarrow> f \<notin> set ps \<Longrightarrow> 1 \<le> lst \<Longrightarrow> f < MAX_PID \<Longrightarrow>
   s = MAX_PID \<and> l < MAX_PID \<and> (if lst \<le> f then lst < l \<and> l \<le> f else lst < l \<or> l = 1)"
proof (induction ps lst safe rule: pid_scan.induct)
  case (1 lst safe)
  then show ?case by simp
next
  case (2 p ps lst safe)
  show ?case
  proof (cases "p = lst")
    case True
    then have ne: "f \<noteq> lst" using "2.prems"(4) by auto
    show ?thesis
    proof (cases "lst + 1 \<ge> safe")
      case T: True
      then have "s = MAX_PID" "l = (if lst + 1 \<ge> MAX_PID then 1 else lst + 1)" using "2.prems"(1) True by auto
      then show ?thesis using ne "2.prems"(6) by auto
    next
      case F: False
      have "s = MAX_PID \<and> l < MAX_PID \<and> (if lst + 1 \<le> f then lst + 1 < l \<and> l \<le> f else lst + 1 < l \<or> l = 1)"
        using "2.IH"(1)[OF True F] "2.prems" True F by simp
      then show ?thesis using ne by (auto split: if_splits)
    qed
  next
    case False
    show ?thesis
    proof (cases "p > lst \<and> safe > p")
      case True
      with False "2.IH"(2)[OF False True] "2.prems" show ?thesis by simp
    next
      case other: False
      with False "2.IH"(3)[OF False other] "2.prems" show ?thesis by simp
    qed
  qed
qed

lemma pid_repeat_total:
  assumes "f \<notin> set ps" "1 \<le> f" "f < MAX_PID" "1 \<le> lst" "lst < MAX_PID"
  shows "\<exists>l s. pid_repeat ps lst MAX_PID = Some (l, s) \<and> 1 \<le> l \<and> l < s \<and> s \<le> MAX_PID
    \<and> (\<forall>p \<in> set ps. \<not> (l \<le> p \<and> p < s))"
  using assms(4,5)
proof (induction "nat (if lst \<le> f then f - lst else MAX_PID - lst + MAX_PID)" arbitrary: lst rule: less_induct)
  case less
  obtain l s again where sc: "pid_scan ps lst MAX_PID = (l, s, again)" by (metis prod_cases3)
  show ?case
  proof (cases again)
    case False
    with sc pid_scan_done[of ps lst MAX_PID l s] less.prems show ?thesis
      by (auto simp: pid_repeat.simps[of ps lst])
  next
    case True
    with sc have a: "s = MAX_PID \<and> l < MAX_PID \<and> (if lst \<le> f then lst < l \<and> l \<le> f else lst < l \<or> l = 1)"
      using pid_scan_again[of ps lst MAX_PID l s f] assms less.prems by simp
    have "nat (if l \<le> f then f - l else MAX_PID - l + MAX_PID)
        < nat (if lst \<le> f then f - lst else MAX_PID - lst + MAX_PID)" "1 \<le> l"
      using a assms(2,3) less.prems by (auto split: if_splits)
    with less.hyps[of l] a True sc show ?thesis by (simp add: pid_repeat.simps[of ps lst])
  qed
qed

definition pid_inv :: "kern \<Rightarrow> bool" where
  "pid_inv k \<longleftrightarrow> 1 \<le> last_pid k \<and> next_safe k \<le> MAX_PID \<and>
     (\<forall>p \<in> set (pids k). \<not> (last_pid k < p \<and> p < next_safe k))"

lemma free_pid:
  assumes "length ps < 8191"
  obtains f where "f \<notin> set ps" "1 \<le> f" "f < MAX_PID"
proof -
  have "card (set ps) < card {1..<MAX_PID}" using assms card_length[of ps] by simp
  then have "\<not> {1..<MAX_PID} \<subseteq> set ps" by (metis List.finite_set card_mono not_le)
  then obtain f where "f \<in> {1..<MAX_PID}" "f \<notin> set ps" by blast
  then show ?thesis using that[of f] by auto
qed

lemma get_pid_ok:
  assumes "pid_inv k" "length (proc_list k) < 8191"
  obtains i s where "get_pid k = Some (i, k\<lparr>last_pid := i, next_safe := s\<rparr>)" "1 \<le> i" "i < MAX_PID"
    "i \<notin> set (pids k)" "i < s" "s \<le> MAX_PID" "\<forall>p \<in> set (pids k). \<not> (i \<le> p \<and> p < s)"
proof -
  let ?l = "last_pid k + 1"
  have "length (pids k) < 8191" using assms(2) by (simp add: pids_def)
  then obtain f where f: "f \<notin> set (pids k)" "1 \<le> f" "f < MAX_PID" by (rule free_pid)
  have "\<exists>i s. (if ?l \<ge> MAX_PID then pid_repeat (pids k) 1 MAX_PID
        else if ?l \<ge> next_safe k then pid_repeat (pids k) ?l MAX_PID
        else Some (?l, next_safe k)) = Some (i, s) \<and> 1 \<le> i \<and> i < s \<and> s \<le> MAX_PID
      \<and> (\<forall>p \<in> set (pids k). \<not> (i \<le> p \<and> p < s))"
  proof (cases "?l \<ge> MAX_PID \<or> ?l \<ge> next_safe k")
    case True
    with pid_repeat_total[OF f, of 1] pid_repeat_total[OF f, of ?l] assms(1) show ?thesis
      by (auto simp: pid_inv_def)
  next
    case False
    then show ?thesis using assms(1) by (auto simp: pid_inv_def)
  qed
  then obtain i s where i: "(if ?l \<ge> MAX_PID then pid_repeat (pids k) 1 MAX_PID
        else if ?l \<ge> next_safe k then pid_repeat (pids k) ?l MAX_PID
        else Some (?l, next_safe k)) = Some (i, s)" "1 \<le> i" "i < s" "s \<le> MAX_PID"
      "\<forall>p \<in> set (pids k). \<not> (i \<le> p \<and> p < s)" by blast
  have "get_pid k = Some (i, k\<lparr>last_pid := i, next_safe := s\<rparr>)" using i(1) by (simp add: get_pid_def Let_def)
  then show ?thesis using i by (intro that) auto
qed

text \<open>C15: \<open>get_pid\<close> terminates and returns a fresh pid whenever fewer than \<open>MAX_PID - 1\<close>
  processes exist (\<open>do_fork\<close> admits at most \<open>MAX_PROCESS\<close>): the result lies between 1 and
  \<open>MAX_PID - 1\<close> and belongs to no process of the list, and the interval of pids that the next
  calls may hand out without a search is really free, also after a process with the new pid has
  been added.\<close>

theorem get_pid_fresh:
  assumes "pid_inv k" "length (proc_list k) < 8191"
  shows "\<exists>i k'. get_pid k = Some (i, k') \<and> 1 \<le> i \<and> i < 8192 \<and> i \<notin> set (pids k) \<and> pid_inv k'
    \<and> (\<forall>p. pid_inv (upd_proc p (\<lambda>pr. pr\<lparr>pid := i\<rparr>) (k'\<lparr>proc_list := p # proc_list k'\<rparr>)))"
proof -
  obtain i s where i: "get_pid k = Some (i, k\<lparr>last_pid := i, next_safe := s\<rparr>)" "1 \<le> i" "i < MAX_PID"
    "i \<notin> set (pids k)" "i < s" "s \<le> MAX_PID" "\<forall>p \<in> set (pids k). \<not> (i \<le> p \<and> p < s)"
    using get_pid_ok[OF assms] by blast
  then show ?thesis by (auto simp: pid_inv_def pids_def)
qed

theorem get_pid_fresh_witness:
  "pid_inv kern0 \<and> (\<exists>i k'. get_pid kern0 = Some (i, k') \<and> 1 \<le> i)"
  using get_pid_fresh[of kern0] by (auto simp: pid_inv_def kern0_def pids_def)

section \<open>The tree of processes\<close>

definition hdo :: "nat list \<Rightarrow> nat option \<Rightarrow> nat option" where
  "hdo xs d = (case xs of [] \<Rightarrow> d | x # _ \<Rightarrow> Some x)"

definition lasto :: "nat list \<Rightarrow> nat option \<Rightarrow> nat option" where
  "lasto xs d = (if xs = [] then d else Some (last xs))"

lemma hdo_simps [simp]: "hdo [] d = d" "hdo (x # xs) d = Some x" "hdo (xs @ ys) d = hdo xs (hdo ys d)"
  by (simp_all add: hdo_def split: list.split)

lemma lasto_simps [simp]: "lasto [] d = d" "lasto (x # xs) d = lasto xs (Some x)" "lasto (xs @ [y]) d = Some y"
  by (simp_all add: lasto_def)

text \<open>\<open>seg k pa y xs z\<close>: the processes \<open>xs\<close>, youngest first, are siblings with parent \<open>pa\<close>
  linked to each other, to \<open>y\<close> on the younger and to \<open>z\<close> on the older side.\<close>

fun seg :: "kern \<Rightarrow> nat \<Rightarrow> nat option \<Rightarrow> nat list \<Rightarrow> nat option \<Rightarrow> bool" where
  "seg k pa y [] z = True"
| "seg k pa y (x # xs) z \<longleftrightarrow> parent (procs k x) = Some pa \<and> yptr (procs k x) = y \<and>
     optr (procs k x) = hdo xs z \<and> seg k pa (Some x) xs z"

definition kids :: "kern \<Rightarrow> nat \<Rightarrow> nat list \<Rightarrow> bool" where
  "kids k pa xs \<longleftrightarrow> cptr (procs k pa) = hdo xs None \<and> seg k pa None xs None \<and> distinct xs"

definition tree_ok :: "kern \<Rightarrow> (nat \<Rightarrow> nat list) \<Rightarrow> bool" where
  "tree_ok k ch \<longleftrightarrow> (\<forall>pa. kids k pa (ch pa))"

lemma seg_append: "seg k pa y (xs @ ys) z \<longleftrightarrow> seg k pa y xs (hdo ys z) \<and> seg k pa (lasto xs y) ys z"
  by (induction xs arbitrary: y) auto

lemma seg_cong:
  "(\<And>x. x \<in> set xs \<Longrightarrow> parent (procs k' x) = parent (procs k x) \<and> yptr (procs k' x) = yptr (procs k x)
      \<and> optr (procs k' x) = optr (procs k x)) \<Longrightarrow> seg k' pa y xs z = seg k pa y xs z"
  by (induction xs arbitrary: y) auto

lemma seg_parent: "seg k pa y xs z \<Longrightarrow> x \<in> set xs \<Longrightarrow> parent (procs k x) = Some pa"
  by (induction xs arbitrary: y) auto

lemma tree_parent: "tree_ok k ch \<Longrightarrow> x \<in> set (ch pa) \<Longrightarrow> parent (procs k x) = Some pa"
  unfolding tree_ok_def kids_def using seg_parent by blast

lemma tree_frame:
  assumes "tree_ok k ch" "\<And>p. parent (procs k' p) = parent (procs k p) \<and> cptr (procs k' p) = cptr (procs k p)
     \<and> yptr (procs k' p) = yptr (procs k p) \<and> optr (procs k' p) = optr (procs k p)"
  shows "tree_ok k' ch"
  using assms seg_cong[of _ k' k] by (simp add: tree_ok_def kids_def)

text \<open>The segments of the other parents are not touched.\<close>

lemma kids_other:
  assumes "tree_ok k ch" "pa \<noteq> qa" "cptr (procs k' qa) = cptr (procs k qa)"
    and "\<And>x. parent (procs k x) = Some qa \<Longrightarrow> parent (procs k' x) = parent (procs k x)
      \<and> yptr (procs k' x) = yptr (procs k x) \<and> optr (procs k' x) = optr (procs k x)"
  shows "kids k' qa (ch qa)"
proof -
  have "seg k' qa None (ch qa) None = seg k qa None (ch qa) None"
    using assms(1,4) by (intro seg_cong) (blast dest: tree_parent)
  with assms(1,3) show ?thesis by (simp add: tree_ok_def kids_def)
qed

lemma set_links_ok:
  assumes t: "tree_ok k ch" and p: "parent (procs k p) = Some pa" "p \<noteq> pa" "\<And>qa. p \<notin> set (ch qa)"
  shows "\<exists>k'. set_links p k = Some k' \<and> tree_ok k' (ch(pa := p # ch pa))
    \<and> proc_list k' = p # proc_list k \<and> nr_process k' = nr_process k + 1
    \<and> (\<forall>q. parent (procs k' q) = parent (procs k q))"
proof -
  from t have kp: "cptr (procs k pa) = hdo (ch pa) None" "seg k pa None (ch pa) None" "distinct (ch pa)"
    by (auto simp: tree_ok_def kids_def)
  define k1 where "k1 = upd_proc p (\<lambda>pr. pr\<lparr>yptr := None, optr := cptr (procs k pa)\<rparr>) (k\<lparr>proc_list := p # proc_list k\<rparr>)"
  define k2 where "k2 = (case cptr (procs k pa) of None \<Rightarrow> k1 | Some ol \<Rightarrow> upd_proc ol (\<lambda>pr. pr\<lparr>yptr := Some p\<rparr>) k1)"
  define k3 where "k3 = (upd_proc pa (\<lambda>pr. pr\<lparr>cptr := Some p\<rparr>) k2)\<lparr>nr_process := nr_process k + 1\<rparr>"
  have op: "ol \<noteq> p \<and> parent (procs k ol) = Some pa" if "cptr (procs k pa) = Some ol" for ol
  proof -
    have "ol \<in> set (ch pa)" using that kp(1) by (cases "ch pa") auto
    then show ?thesis using p(3) tree_parent[OF t] by blast
  qed
  have f: "parent (procs k3 q) = parent (procs k q)"
    "cptr (procs k3 q) = (if q = pa then Some p else cptr (procs k q))"
    "optr (procs k3 q) = (if q = p then cptr (procs k pa) else optr (procs k q))"
    "yptr (procs k3 q) = (if q = p then None else if cptr (procs k pa) = Some q then Some p else yptr (procs k q))" for q
    using op p(2) by (auto simp: k3_def k2_def k1_def split: option.splits)
  have "set_links p k = Some k3"
    using p op unfolding set_links_def k3_def k2_def k1_def
    by (auto simp: upd_proc_def Let_def split: option.splits)
  moreover have "kids k3 qa ((ch(pa := p # ch pa)) qa)" for qa
  proof (cases "qa = pa")
    case True
    have "seg k3 pa (Some p) (ch pa) None"
    proof (cases "ch pa")
      case (Cons x xs)
      with kp p(3)[of pa] have "seg k pa (Some x) xs None" "p \<notin> set (x # xs)" "x \<notin> set xs" by auto
      moreover from this have "seg k3 pa (Some x) xs None = seg k pa (Some x) xs None"
        using kp(1) Cons by (intro seg_cong) (auto simp: f)
      ultimately show ?thesis using kp Cons by (auto simp: f)
    qed simp
    with True p kp show ?thesis by (simp add: kids_def f)
  next
    case False
    have "kids k3 qa (ch qa)"
    proof (rule kids_other[OF t])
      show "pa \<noteq> qa" "cptr (procs k3 qa) = cptr (procs k qa)" using False f(2) by auto
      fix x assume "parent (procs k x) = Some qa"
      then show "parent (procs k3 x) = parent (procs k x) \<and> yptr (procs k3 x) = yptr (procs k x) \<and> optr (procs k3 x) = optr (procs k x)"
        using f op False p(1) by auto
    qed
    with False show ?thesis by simp
  qed
  moreover have "proc_list k3 = p # proc_list k" "nr_process k3 = nr_process k + 1"
    by (simp_all add: k3_def k2_def k1_def split: option.splits)
  ultimately show ?thesis using f(1) by (auto simp: tree_ok_def)
qed

lemma remove_links_ok:
  assumes t: "tree_ok k ch" and p: "p \<in> set (ch pa)" "p \<noteq> pa"
  shows "\<exists>k'. remove_links p k = Some k' \<and> tree_ok k' (ch(pa := remove1 p (ch pa)))
    \<and> proc_list k' = remove1 p (proc_list k) \<and> nr_process k' = nr_process k - 1
    \<and> (\<forall>q. parent (procs k' q) = parent (procs k q))"
proof -
  obtain xs zs where ch: "ch pa = xs @ p # zs" using p(1) by (meson split_list)
  from t have kp: "cptr (procs k pa) = hdo (ch pa) None" "seg k pa None (ch pa) None" "distinct (ch pa)"
    by (auto simp: tree_ok_def kids_def)
  from kp(2) have s: "seg k pa None xs (Some p)" "parent (procs k p) = Some pa" "yptr (procs k p) = lasto xs None"
    "optr (procs k p) = hdo zs None" "seg k pa (Some p) zs None"
    unfolding ch seg_append by auto
  from kp(3) have d: "p \<notin> set xs" "p \<notin> set zs" "distinct xs" "distinct zs" "set xs \<inter> set zs = {}" unfolding ch by auto
  define k1 where "k1 = (case optr (procs k p) of None \<Rightarrow> k\<lparr>proc_list := remove1 p (proc_list k)\<rparr>
     | Some ol \<Rightarrow> upd_proc ol (\<lambda>pr. pr\<lparr>yptr := yptr (procs k p)\<rparr>) (k\<lparr>proc_list := remove1 p (proc_list k)\<rparr>))"
  define k2 where "k2 = (case yptr (procs k p) of Some y \<Rightarrow> upd_proc y (\<lambda>pr. pr\<lparr>optr := optr (procs k p)\<rparr>) k1
     | None \<Rightarrow> upd_proc pa (\<lambda>pr. pr\<lparr>cptr := optr (procs k p)\<rparr>) k1)"
  define k3 where "k3 = k2\<lparr>nr_process := nr_process k - 1\<rparr>"
  have oz: "hdo zs None = Some ol \<Longrightarrow> ol \<in> set zs" for ol by (cases zs) auto
  have yx: "lasto xs None = Some y \<Longrightarrow> y \<in> set xs" for y by (auto simp: lasto_def split: if_splits)
  have lx: "lasto xs None = None \<longleftrightarrow> xs = []" by (simp add: lasto_def)
  have np: "optr (procs k p) \<noteq> Some p" "yptr (procs k p) \<noteq> Some p"
    unfolding s(3,4) using d oz[of p] yx[of p] by blast+
  have f: "parent (procs k3 q) = parent (procs k q)"
    "cptr (procs k3 q) = (if q = pa \<and> xs = [] then hdo zs None else cptr (procs k q))"
    "optr (procs k3 q) = (if lasto xs None = Some q then hdo zs None else optr (procs k q))"
    "yptr (procs k3 q) = (if hdo zs None = Some q then lasto xs None else yptr (procs k q))" for q
    unfolding k3_def k2_def k1_def s(3,4) using lx
    by (cases "hdo zs None"; cases "lasto xs None"; simp)+
  have "remove_links p k = Some k3"
    unfolding remove_links_def k3_def k2_def k1_def using s(2) np
    by (cases "optr (procs k p)"; cases "yptr (procs k p)"; simp add: Let_def)
  moreover have "kids k3 qa ((ch(pa := remove1 p (ch pa))) qa)" for qa
  proof (cases "qa = pa")
    case True
    have "seg k3 pa None xs (hdo zs None)"
    proof (cases xs rule: rev_cases)
      case (snoc ys y)
      with s(1) have "seg k pa None ys (Some y)" "parent (procs k y) = Some pa" "yptr (procs k y) = lasto ys None"
        by (auto simp: seg_append)
      moreover have "seg k3 pa None ys (Some y) = seg k pa None ys (Some y)"
        using snoc d oz by (intro seg_cong) (auto simp: f)
      moreover have "yptr (procs k3 y) = yptr (procs k y)" using snoc d oz by (auto simp: f)
      ultimately show ?thesis using snoc by (auto simp: seg_append f)
    qed simp
    moreover have "seg k3 pa (lasto xs None) zs None"
    proof (cases zs)
      case (Cons z zs')
      with s(5) have "seg k pa (Some z) zs' None" by simp
      moreover have "seg k3 pa (Some z) zs' None = seg k pa (Some z) zs' None"
        using Cons d yx by (intro seg_cong) (auto simp: f)
      moreover have "optr (procs k3 z) = optr (procs k z)" using Cons d yx by (auto simp: f)
      ultimately show ?thesis using Cons s(5) by (auto simp: f)
    qed simp
    ultimately have "seg k3 pa None (xs @ zs) None" by (simp add: seg_append)
    moreover have "cptr (procs k3 pa) = hdo (xs @ zs) None" using kp(1) ch by (cases xs) (simp_all add: f)
    ultimately show ?thesis using True d ch by (simp add: kids_def)
  next
    case False
    have "kids k3 qa (ch qa)"
    proof (rule kids_other[OF t])
      show "pa \<noteq> qa" "cptr (procs k3 qa) = cptr (procs k qa)" using False f(2) by auto
      fix x assume x: "parent (procs k x) = Some qa"
      have "z \<in> set (ch pa) \<Longrightarrow> z \<noteq> x" for z using tree_parent[OF t] x False by auto
      then have "lasto xs None \<noteq> Some x" "hdo zs None \<noteq> Some x" using yx oz ch by auto
      then show "parent (procs k3 x) = parent (procs k x) \<and> yptr (procs k3 x) = yptr (procs k x) \<and> optr (procs k3 x) = optr (procs k x)"
        using f by auto
    qed
    with False show ?thesis by simp
  qed
  moreover have "proc_list k3 = remove1 p (proc_list k)" "nr_process k3 = nr_process k - 1"
    by (simp_all add: k3_def k2_def k1_def split: option.splits)
  ultimately show ?thesis using f(1) by (auto simp: tree_ok_def)
qed

section \<open>Lookup by pid\<close>

text \<open>The hash chains hold exactly the processes of the list, each once, and pids are unique.\<close>

definition hash_ok :: "kern \<Rightarrow> bool" where
  "hash_ok k \<longleftrightarrow> (\<forall>h. distinct (hash_list k h) \<and>
       set (hash_list k h) = {p \<in> set (proc_list k). pid_hashfn (pid (procs k p)) = h})
     \<and> distinct (proc_list k) \<and> inj_on (\<lambda>p. pid (procs k p)) (set (proc_list k))"

lemma hash_ok_frame:
  "hash_ok k \<Longrightarrow> hash_list k' = hash_list k \<Longrightarrow> proc_list k' = proc_list k \<Longrightarrow>
   (\<And>p. p \<in> set (proc_list k) \<Longrightarrow> pid (procs k' p) = pid (procs k p)) \<Longrightarrow> hash_ok k'"
  unfolding hash_ok_def inj_on_def by auto

lemma find_proc_iff:
  assumes "hash_ok k"
  shows "find_proc i k = Some p \<longleftrightarrow> 0 < i \<and> i < MAX_PID \<and> p \<in> set (proc_list k) \<and> pid (procs k p) = i"
proof -
  let ?xs = "hash_list k (pid_hashfn i)"
  have x: "q \<in> set ?xs \<longleftrightarrow> q \<in> set (proc_list k) \<and> pid_hashfn (pid (procs k q)) = pid_hashfn i" for q
    using assms by (auto simp: hash_ok_def)
  have u: "q = q'" if "q \<in> set ?xs" "q' \<in> set ?xs" "pid (procs k q) = i" "pid (procs k q') = i" for q q'
    using assms that x by (auto simp: hash_ok_def inj_on_def)
  have "find (\<lambda>q. pid (procs k q) = i) ?xs = Some p \<longleftrightarrow> p \<in> set ?xs \<and> pid (procs k p) = i"
  proof
    assume "find (\<lambda>q. pid (procs k q) = i) ?xs = Some p"
    then show "p \<in> set ?xs \<and> pid (procs k p) = i" by (auto simp: find_Some_iff in_set_conv_nth)
  next
    assume p: "p \<in> set ?xs \<and> pid (procs k p) = i"
    then obtain q where "find (\<lambda>q. pid (procs k q) = i) ?xs = Some q"
      by (cases "find (\<lambda>q. pid (procs k q) = i) ?xs") (auto simp: find_None_iff)
    moreover from this have "q \<in> set ?xs" "pid (procs k q) = i" by (auto simp: find_Some_iff in_set_conv_nth)
    ultimately show "find (\<lambda>q. pid (procs k q) = i) ?xs = Some p" using u p by blast
  qed
  with x show ?thesis by (auto simp: find_proc_def)
qed

lemma hash_add:
  assumes "hash_ok k" "p \<notin> set (proc_list k)" "pid (procs k p) \<notin> set (pids k)"
    and "hash_list k' = hash_list (hash_proc p k)" "proc_list k' = p # proc_list k"
    and "\<And>q. pid (procs k' q) = pid (procs k q)"
  shows "hash_ok k'"
proof -
  have "set (hash_list k' h) = {q \<in> set (proc_list k'). pid_hashfn (pid (procs k' q)) = h}"
    "distinct (hash_list k' h)" for h
    using assms by (auto simp: hash_ok_def hash_proc_def Let_def)
  moreover have "inj_on (\<lambda>p. pid (procs k' p)) (set (proc_list k'))"
    using assms(1,3,5,6) by (auto simp: hash_ok_def pids_def image_iff)
  ultimately show ?thesis using assms(1,2,5) by (simp add: hash_ok_def)
qed

lemma hash_remove:
  assumes "hash_ok k" "hash_list k' = hash_list (unhash_proc p k)" "proc_list k' = remove1 p (proc_list k)"
    and "\<And>q. pid (procs k' q) = pid (procs k q)"
  shows "hash_ok k'"
proof -
  have "set (hash_list k' h) = {q \<in> set (proc_list k'). pid_hashfn (pid (procs k' q)) = h}"
    "distinct (hash_list k' h)" for h
    using assms by (auto simp: hash_ok_def unhash_proc_def Let_def)
  moreover have "inj_on (\<lambda>p. pid (procs k' p)) (set (proc_list k'))"
    using assms by (auto simp: hash_ok_def inj_on_def)
  ultimately show ?thesis using assms(1,3) by (simp add: hash_ok_def)
qed

section \<open>Waiting for children\<close>

lemma child_zombie_seg:
  "seg k pa y xs None \<Longrightarrow>
   child_zombie (hdo xs None) hk k =
     Some (hk \<or> xs \<noteq> [], find (\<lambda>c. state (procs k c) = PROC_ZOMBIE) xs)"
proof (induction xs arbitrary: y hk)
  case Nil
  then show ?case by (simp add: child_zombie.simps)
next
  case (Cons x xs)
  then have o: "optr (procs k x) = hdo xs None" and s: "seg k pa (Some x) xs None" by auto
  show ?case using Cons.IH[OF s, of True] o by (simp add: child_zombie.simps[of "Some x"])
qed

lemma next_thread_ring:
  "ring (tgroup k) l (as @ x # bs) \<Longrightarrow> next_thread x k = (case bs of [] \<Rightarrow> l | b # _ \<Rightarrow> b)"
  by (simp add: next_thread_def ring_next)

lemma next_thread_head: "ring (tgroup k) l xs \<Longrightarrow> next_thread l k = (case xs of [] \<Rightarrow> l | b # _ \<Rightarrow> b)"
  by (simp add: next_thread_def list_next_def ring_next_head)

text \<open>The walk \<open>do ... while ((p = next_thread(p)) != head)\<close> over the threads of a group.\<close>

fun thread_path :: "(nat \<Rightarrow> nat) \<Rightarrow> nat list \<Rightarrow> nat \<Rightarrow> bool" where
  "thread_path n [] e = False"
| "thread_path n [x] e \<longleftrightarrow> n x = e"
| "thread_path n (x # y # ys) e \<longleftrightarrow> n x = y \<and> y \<noteq> e \<and> thread_path n (y # ys) e"

lemma ring_path: "ring (tgroup k) l ts \<Longrightarrow> thread_path (\<lambda>x. next_thread x k) (l # ts) l"
proof -
  assume r: "ring (tgroup k) l ts"
  have step: "ts = as @ x # bs \<Longrightarrow> thread_path (\<lambda>x. next_thread x k) (x # bs) l" for as x bs
  proof (induction bs arbitrary: as x)
    case Nil
    then show ?case using next_thread_ring[of k l as x "[]"] r by simp
  next
    case (Cons y bs)
    then have "next_thread x k = y" using next_thread_ring[of k l as x "y # bs"] r by simp
    with Cons.IH[of "as @ [x]" y] Cons.prems ring_distinct[OF r] show ?case by auto
  qed
  show ?thesis
    using next_thread_head[OF r] ring_distinct[OF r] step[of "[]"] by (cases ts) auto
qed

lemma wait_any_path:
  assumes "child_zombie (cptr (procs k (current k))) False k = Some (b, z)"
    "child_zombie (cptr (procs k (current k))) True k = Some (True, z)"
  shows "thread_path (\<lambda>x. next_thread x k) xs (current k) \<Longrightarrow> hk \<longrightarrow> b \<Longrightarrow> wait_any (hd xs) hk k = Some (b, z)"
proof (induction "\<lambda>x. next_thread x k" xs "current k" arbitrary: hk rule: thread_path.induct)
  case (2 x)
  then show ?case using assms by (cases hk) (simp_all add: wait_any.simps[of x])
next
  case (3 x y ys)
  then show ?case using assms by (cases hk) (simp_all add: wait_any.simps[of x])
qed simp

lemma wait_pid_path:
  "thread_path (\<lambda>x. next_thread x k) xs (current k) \<Longrightarrow>
   wait_pid p (hd xs) k = Some (if \<exists>t \<in> set xs. parent (procs k p) = Some t
      then (True, if state (procs k p) = PROC_ZOMBIE then Some p else None) else (False, None))"
proof (induction "\<lambda>x. next_thread x k" xs "current k" rule: thread_path.induct)
  case (2 x)
  then show ?case by (simp add: wait_pid.simps[of p x])
next
  case (3 x y ys)
  then show ?case by (simp add: wait_pid.simps[of p x])
qed simp

lemma reap_ok:
  assumes "tree_ok k ch" "hash_ok k" "p \<in> set (ch pa)" "p \<noteq> pa" "p \<noteq> idleproc k" "p \<noteq> initproc k"
  shows "\<exists>k'. reap p k = Some (exit_code (procs k p), k') \<and> tree_ok k' (ch(pa := remove1 p (ch pa)))
    \<and> hash_ok k' \<and> proc_list k' = remove1 p (proc_list k) \<and> nr_process k' = nr_process k - 1"
proof -
  have "tree_ok (unhash_proc p k) ch"
    by (rule tree_frame[OF assms(1)]) (simp add: unhash_proc_def Let_def)
  from remove_links_ok[OF this assms(3,4)] obtain k' where k': "remove_links p (unhash_proc p k) = Some k'"
    "tree_ok k' (ch(pa := remove1 p (ch pa)))" "proc_list k' = remove1 p (proc_list k)"
    "nr_process k' = nr_process k - 1" by (auto simp: unhash_proc_def Let_def)
  from k'(1) have "hash_list k' = hash_list (unhash_proc p k) \<and> (\<forall>q. pid (procs k' q) = pid (procs k q))"
    unfolding remove_links_def
    by (auto simp: Let_def unhash_proc_def split: option.splits Option.bind_splits)
  then have "hash_ok k'" using hash_remove[OF assms(2) _ k'(3)] by blast
  with k' assms(5,6) show ?thesis by (simp add: reap_def)
qed

end
