(* ===== verification/ProcLife.thy ===== *)
theory ProcLife
  imports Proc
begin

text \<open>
  The life of a process: the properties of \<open>do_fork\<close>, \<open>__do_exit\<close>, \<open>do_wait\<close> and
  \<open>__do_kill\<close> (\<open>proc.c\<close>, modelled in \<open>Proc\<close>) over the invariants of the process tree, the pid
  table, the run queues and the wait queues.
\<close>

section \<open>Exit\<close>

text \<open>While \<open>me\<close> gives its children away, the youngest of them may still point to a younger
  sibling that has left already.\<close>

definition giving :: "nat \<Rightarrow> kern \<Rightarrow> (nat \<Rightarrow> nat list) \<Rightarrow> bool" where
  "giving me k ch \<longleftrightarrow> (\<forall>pa. pa \<noteq> me \<longrightarrow> kids k pa (ch pa)) \<and> cptr (procs k me) = hdo (ch me) None \<and>
     (\<exists>y. seg k me y (ch me) None) \<and> distinct (ch me)"

lemma tree_giving: "tree_ok k ch \<Longrightarrow> giving me k ch"
  by (auto simp: tree_ok_def giving_def kids_def)

lemma giving_tree: "giving me k ch \<Longrightarrow> ch me = [] \<Longrightarrow> tree_ok k ch"
  unfolding giving_def tree_ok_def kids_def by (metis distinct.simps(1) seg.simps(1))

lemma giving_parent: "giving me k ch \<Longrightarrow> x \<in> set (ch pa) \<Longrightarrow> parent (procs k x) = Some pa"
  unfolding giving_def kids_def using seg_parent by (metis (full_types))

lemma tframe_seg: "tframe k k' \<Longrightarrow> seg k' pa y xs z = seg k pa y xs z"
  by (rule seg_cong) (simp add: tframe_def)

lemma giving_frame: "giving me k ch \<Longrightarrow> tframe k k' \<Longrightarrow> giving me k' ch"
  by (simp add: giving_def kids_def tframe_seg) (simp add: tframe_def)

lemma adopt_stages:
  assumes "me \<noteq> heir"
  shows "adopt me heir x k =
    (let k1 = upd_proc me (\<lambda>pr. pr\<lparr>cptr := optr (procs k x)\<rparr>) k;
         k2 = upd_proc x (\<lambda>pr. pr\<lparr>yptr := None, optr := cptr (procs k heir)\<rparr>) k1;
         k3 = (case cptr (procs k heir) of None \<Rightarrow> k2 | Some c \<Rightarrow> upd_proc c (\<lambda>pr. pr\<lparr>yptr := Some x\<rparr>) k2)
     in upd_proc heir (\<lambda>pr. pr\<lparr>cptr := Some x\<rparr>) (upd_proc x (\<lambda>pr. pr\<lparr>parent := Some heir\<rparr>) k3))"
  using assms by (cases "heir = x"; cases "cptr (procs k heir)"; simp add: adopt_def Let_def upd_proc_def fun_upd_twist)

lemma adopt_fields:
  assumes ne: "me \<noteq> heir" and cx: "cptr (procs k heir) \<noteq> Some x"
  shows "parent (procs (adopt me heir x k) q) = (if q = x then Some heir else parent (procs k q))"
    "cptr (procs (adopt me heir x k) q) =
       (if q = heir then Some x else if q = me then optr (procs k x) else cptr (procs k q))"
    "optr (procs (adopt me heir x k) q) = (if q = x then cptr (procs k heir) else optr (procs k q))"
    "yptr (procs (adopt me heir x k) q) =
       (if q = x then None else if cptr (procs k heir) = Some q then Some x else yptr (procs k q))"
  unfolding adopt_stages[OF ne] using cx by (cases "cptr (procs k heir)"; simp add: Let_def)+

lemma adopt_sched_fields:
  assumes "me \<noteq> heir"
  shows "state (procs (adopt me heir x k) p) = state (procs k p)"
    "wait_state (procs (adopt me heir x k) p) = wait_state (procs k p)"
    "rq (procs (adopt me heir x k) p) = rq (procs k p)"
    "run_list (adopt me heir x k) = run_list k" "proc_num (adopt me heir x k) = proc_num k"
    "rq_link (adopt me heir x k) = rq_link k" "current (adopt me heir x k) = current k"
    "idleproc (adopt me heir x k) = idleproc k" "wait_list (adopt me heir x k) = wait_list k"
    "waits (adopt me heir x k) = waits k"
  unfolding adopt_stages[OF assms] by (cases "cptr (procs k heir)"; simp add: Let_def)+

lemma adopt_giving:
  assumes g: "giving me k ch" and x: "ch me = x # xs" and ne: "me \<noteq> heir"
  shows "giving me (adopt me heir x k) (ch(me := xs, heir := x # ch heir))"
proof -
  let ?k = "adopt me heir x k"
  from g x have sx: "parent (procs k x) = Some me" "optr (procs k x) = hdo xs None" "seg k me (Some x) xs None"
    and dx: "x \<notin> set xs" "distinct xs"
    by (auto simp: giving_def)
  from g ne have kh: "cptr (procs k heir) = hdo (ch heir) None" "seg k heir None (ch heir) None" "distinct (ch heir)"
    by (auto simp: giving_def kids_def)
  have hc: "parent (procs k c) = Some heir" if "cptr (procs k heir) = Some c" for c
    using that kh(1) giving_parent[OF g, of c heir] by (cases "ch heir") auto
  then have cx: "cptr (procs k heir) \<noteq> Some x" using sx(1) ne by auto
  have f: "parent (procs ?k q) = (if q = x then Some heir else parent (procs k q))"
    "cptr (procs ?k q) = (if q = heir then Some x else if q = me then hdo xs None else cptr (procs k q))"
    "optr (procs ?k q) = (if q = x then cptr (procs k heir) else optr (procs k q))"
    "yptr (procs ?k q) = (if q = x then None else if cptr (procs k heir) = Some q then Some x else yptr (procs k q))" for q
    using adopt_fields[OF ne cx] sx(2) by simp_all
  have other: "seg ?k qa y zs None = seg k qa y zs None"
    if "\<And>z. z \<in> set zs \<Longrightarrow> parent (procs k z) = Some qa \<and> z \<noteq> x \<and> cptr (procs k heir) \<noteq> Some z" for qa y zs
    using that by (intro seg_cong) (auto simp: f)
  have "seg ?k heir (Some x) (ch heir) None"
  proof (cases "ch heir")
    case (Cons c cs)
    have cs: "z \<noteq> x" if "z \<in> set (c # cs)" for z using that giving_parent[OF g, of z heir] Cons sx(1) ne by auto
    have "seg ?k heir (Some c) cs None = seg k heir (Some c) cs None"
      using kh(1,3) Cons cs giving_parent[OF g, of _ heir] by (intro other) auto
    then show ?thesis using kh Cons cs[of c] by (simp add: f)
  qed simp
  moreover have "x \<notin> set (ch heir)" using giving_parent[OF g, of x heir] sx(1) ne by auto
  ultimately have "kids ?k heir (x # ch heir)" using kh by (simp add: kids_def f)
  moreover have "kids ?k qa (ch qa)" if "qa \<noteq> heir" "qa \<noteq> me" for qa
  proof -
    have "kids k qa (ch qa)" using g that by (simp add: giving_def)
    moreover have "z \<noteq> x \<and> cptr (procs k heir) \<noteq> Some z" if z: "z \<in> set (ch qa)" for z
      using giving_parent[OF g z] hc sx(1) \<open>qa \<noteq> heir\<close> \<open>qa \<noteq> me\<close> by auto
    ultimately show ?thesis
      using that other[of "ch qa" qa None] giving_parent[OF g, of _ qa] by (simp add: kids_def f)
  qed
  moreover have "seg ?k me (Some x) xs None"
    using sx(3) other[of xs me "Some x"] dx hc giving_parent[OF g, of _ me] x ne by fastforce
  ultimately show ?thesis using dx ne unfolding giving_def by (auto simp: f)
qed

definition child_waits :: "kern \<Rightarrow> bool" where
  "child_waits k \<longleftrightarrow> (\<forall>p. wait_state (procs k p) = WT_CHILD \<longrightarrow> state (procs k p) = PROC_SLEEPING)"

lemma pframe_state:
  "pframe k k' \<Longrightarrow> state (procs k' p) = state (procs k p) \<and> wait_state (procs k' p) = wait_state (procs k p) \<or>
     state (procs k p) \<noteq> PROC_ZOMBIE \<and> state (procs k' p) = PROC_RUNNABLE \<and> wait_state (procs k' p) = 0"
  by (simp add: pframe_def)

lemma child_waits_pframe: "child_waits k \<Longrightarrow> pframe k k' \<Longrightarrow> child_waits k'"
  unfolding child_waits_def
proof (intro allI impI)
  fix p assume a: "\<forall>p. wait_state (procs k p) = WT_CHILD \<longrightarrow> state (procs k p) = PROC_SLEEPING" "pframe k k'"
    "wait_state (procs k' p) = WT_CHILD"
  with pframe_state[OF a(2), of p] show "state (procs k' p) = PROC_SLEEPING" by auto
qed

context sched_policy
begin

lemma wake_one:
  assumes "inv k" "sched_inv k" "child_waits k"
  shows "\<exists>k'. (if wait_state (procs k p) = WT_CHILD then wakeup_proc cls p k else Some k) = Some k'
    \<and> inv k' \<and> sched_inv k' \<and> pframe k k' \<and> wait_list k' = wait_list k \<and> waits k' = waits k
    \<and> (wait_state (procs k p) = WT_CHILD \<longrightarrow> state (procs k' p) = PROC_RUNNABLE)"
proof (cases "wait_state (procs k p) = WT_CHILD")
  case True
  then have "state (procs k p) \<noteq> PROC_ZOMBIE" using assms(3) by (auto simp: child_waits_def)
  from wakeup_pframe[OF assms(1,2) this] True show ?thesis by auto
qed (use assms in simp)

lemma wake_parents_path:
  assumes "inv k" "sched_inv k" "child_waits k" "thread_path (\<lambda>x. next_thread x k) xs pa"
  shows "\<exists>k'. wake_parents cls pa (hd xs) k = Some k' \<and> inv k' \<and> sched_inv k' \<and> pframe k k'
    \<and> wait_list k' = wait_list k \<and> waits k' = waits k
    \<and> (\<forall>t \<in> set xs. wait_state (procs k t) = WT_CHILD \<longrightarrow> state (procs k' t) = PROC_RUNNABLE)"
  using assms
proof (induction xs arbitrary: k)
  case Nil
  then show ?case by simp
next
  case (Cons x xs)
  from wake_one[OF Cons.prems(1-3), of x] obtain k1 where k1:
    "(if wait_state (procs k x) = WT_CHILD then wakeup_proc cls x k else Some k) = Some k1"
    "inv k1" "sched_inv k1" "pframe k k1" "wait_list k1 = wait_list k" "waits k1 = waits k"
    "wait_state (procs k x) = WT_CHILD \<longrightarrow> state (procs k1 x) = PROC_RUNNABLE" by blast
  have nt: "(\<lambda>x. next_thread x k1) = (\<lambda>x. next_thread x k)"
    using k1(4) by (simp add: pframe_def tframe_def next_thread_def)
  then have nx: "next_thread x k1 = next_thread x k" by metis
  show ?case
  proof (cases xs)
    case Nil
    then show ?thesis using k1 nx Cons.prems(4) by (auto simp: wake_parents.simps[of cls pa x])
  next
    case (Cons y ys)
    have n: "next_thread x k = y" "y \<noteq> pa" "thread_path (\<lambda>x. next_thread x k1) xs pa"
      using Cons.prems(4) Cons unfolding nt by auto
    have "child_waits k1" by (rule child_waits_pframe[OF Cons.prems(3) k1(4)])
    from Cons.IH[OF k1(2,3) this n(3)] Cons obtain k2 where k2:
      "wake_parents cls pa y k1 = Some k2" "inv k2" "sched_inv k2" "pframe k1 k2"
      "wait_list k2 = wait_list k1" "waits k2 = waits k1"
      "\<forall>t \<in> set xs. wait_state (procs k1 t) = WT_CHILD \<longrightarrow> state (procs k2 t) = PROC_RUNNABLE" by auto
    have st: "state (procs k2 t) = PROC_RUNNABLE" if "t \<in> set (x # xs)" "wait_state (procs k t) = WT_CHILD" for t
    proof -
      have "state (procs k1 t) = PROC_RUNNABLE \<or> wait_state (procs k1 t) = WT_CHILD"
        using pframe_state[OF k1(4), of t] that(2) by auto
      then show ?thesis
        using that k1(7) k2(7) pframe_state[OF k2(4), of t] by (cases "t = x") auto
    qed
    have "wake_parents cls pa x k = Some k2"
      using k1(1) k2(1) n(1,2) nx by (simp add: wake_parents.simps[of cls pa x])
    then show ?thesis using k2(2,3,5,6) k1(5,6) st pframe_trans[OF k1(4) k2(4)] by auto
  qed
qed

lemma reparent_ok:
  assumes "inv k" "sched_inv k" "child_waits k" "giving me k ch" "me \<noteq> heir"
  shows "\<exists>k'. reparent cls me heir k = Some k' \<and> inv k' \<and> sched_inv k' \<and> child_waits k'
    \<and> tree_ok k' (ch(me := [], heir := rev (ch me) @ ch heir))
    \<and> wait_list k' = wait_list k \<and> waits k' = waits k \<and> current k' = current k \<and> idleproc k' = idleproc k
    \<and> (\<forall>p. state (procs k' p) = state (procs k p) \<and> wait_state (procs k' p) = wait_state (procs k p) \<or>
        state (procs k p) \<noteq> PROC_ZOMBIE \<and> state (procs k' p) = PROC_RUNNABLE \<and> wait_state (procs k' p) = 0)
    \<and> ((\<exists>p \<in> set (ch me). state (procs k p) = PROC_ZOMBIE) \<and> wait_state (procs k heir) = WT_CHILD
        \<longrightarrow> state (procs k' heir) = PROC_RUNNABLE)"
  using assms
proof (induction "ch me" arbitrary: k ch)
  case Nil
  then have "tree_ok k ch" "cptr (procs k me) = None" using giving_tree[of me k ch] by (auto simp: giving_def hdo_def)
  moreover have c: "ch(me := [], heir := rev (ch me) @ ch heir) = ch" using Nil(1) by (auto simp: fun_eq_iff)
  ultimately show ?case unfolding c using Nil by (auto simp: reparent.simps[of cls])
next
  case (Cons x xs)
  have c: "cptr (procs k me) = Some x" using Cons.prems(4) Cons.hyps(2)[symmetric] by (simp add: giving_def hdo_def)
  let ?k = "adopt me heir x k"
  let ?ch = "ch(me := xs, heir := x # ch heir)"
  note st = adopt_sched_fields(1-3)[OF Cons.prems(5), of x k]
  note fr = adopt_sched_fields(4-)[OF Cons.prems(5), of x k]
  have sr: "same_rq k ?k" by (simp add: same_rq_def st fr)
  have i1: "inv ?k" "sched_inv ?k" "child_waits ?k"
    using inv_frame[OF Cons.prems(1) sr] sched_inv_frame[OF Cons.prems(2) sr] Cons.prems(3)
    by (auto simp: st fr child_waits_def)
  have g1: "giving me ?k ?ch" by (rule adopt_giving[OF Cons.prems(4) Cons.hyps(2)[symmetric] Cons.prems(5)])
  have "\<exists>k1. (if state (procs ?k x) = PROC_ZOMBIE \<and> wait_state (procs ?k heir) = WT_CHILD
               then wakeup_proc cls heir ?k else Some ?k) = Some k1 \<and> inv k1 \<and> sched_inv k1 \<and> pframe ?k k1
     \<and> wait_list k1 = wait_list k \<and> waits k1 = waits k
     \<and> (state (procs ?k x) = PROC_ZOMBIE \<and> wait_state (procs ?k heir) = WT_CHILD \<longrightarrow> state (procs k1 heir) = PROC_RUNNABLE)"
  proof (cases "state (procs ?k x) = PROC_ZOMBIE")
    case True
    then show ?thesis using wake_one[OF i1, of heir] fr by simp
  qed (use i1 fr in simp)
  then obtain k1 where k1: "(if state (procs ?k x) = PROC_ZOMBIE \<and> wait_state (procs ?k heir) = WT_CHILD
               then wakeup_proc cls heir ?k else Some ?k) = Some k1" "inv k1" "sched_inv k1" "pframe ?k k1"
     "wait_list k1 = wait_list k" "waits k1 = waits k"
     "state (procs ?k x) = PROC_ZOMBIE \<and> wait_state (procs ?k heir) = WT_CHILD \<longrightarrow> state (procs k1 heir) = PROC_RUNNABLE"
    by blast
  have cw: "child_waits k1" by (rule child_waits_pframe[OF i1(3) k1(4)])
  have g2: "giving me k1 ?ch" using giving_frame[OF g1] k1(4) by (simp add: pframe_def)
  have "xs = ?ch me" using Cons.prems(5) by simp
  from Cons.hyps(1)[OF this k1(2,3) cw g2 Cons.prems(5)] obtain k2 where k2:
    "reparent cls me heir k1 = Some k2" "inv k2" "sched_inv k2" "child_waits k2"
    "tree_ok k2 (?ch(me := [], heir := rev (?ch me) @ ?ch heir))"
    "wait_list k2 = wait_list k1" "waits k2 = waits k1" "current k2 = current k1" "idleproc k2 = idleproc k1"
    "\<forall>p. state (procs k2 p) = state (procs k1 p) \<and> wait_state (procs k2 p) = wait_state (procs k1 p) \<or>
        state (procs k1 p) \<noteq> PROC_ZOMBIE \<and> state (procs k2 p) = PROC_RUNNABLE \<and> wait_state (procs k2 p) = 0"
    "(\<exists>p \<in> set (?ch me). state (procs k1 p) = PROC_ZOMBIE) \<and> wait_state (procs k1 heir) = WT_CHILD
        \<longrightarrow> state (procs k2 heir) = PROC_RUNNABLE" by blast
  have pk: "state (procs k1 p) = state (procs k p) \<and> wait_state (procs k1 p) = wait_state (procs k p) \<or>
        state (procs k p) \<noteq> PROC_ZOMBIE \<and> state (procs k1 p) = PROC_RUNNABLE \<and> wait_state (procs k1 p) = 0" for p
    using k1(4) st unfolding pframe_def by metis
  have "reparent cls me heir k = Some k2"
    using c k1(1) k2(1) by (simp add: reparent.simps[of cls me heir k] Let_def)
  moreover have "?ch(me := [], heir := rev (?ch me) @ ?ch heir) = ch(me := [], heir := rev (ch me) @ ch heir)"
    using Cons.prems(5) Cons.hyps(2)[symmetric] by (auto simp: fun_eq_iff)
  moreover have "state (procs k2 p) = state (procs k p) \<and> wait_state (procs k2 p) = wait_state (procs k p) \<or>
        state (procs k p) \<noteq> PROC_ZOMBIE \<and> state (procs k2 p) = PROC_RUNNABLE \<and> wait_state (procs k2 p) = 0" for p
    using pk[of p] k2(10)[rule_format, of p] by auto
  moreover have "state (procs k2 heir) = PROC_RUNNABLE"
    if z: "p \<in> set (ch me)" "state (procs k p) = PROC_ZOMBIE" "wait_state (procs k heir) = WT_CHILD" for p
  proof (cases "state (procs k1 heir) = PROC_RUNNABLE")
    case True
    then show ?thesis using k2(10)[rule_format, of heir] by auto
  next
    case False
    then have nh: "wait_state (procs k1 heir) = WT_CHILD" using pk[of heir] z(3) by auto
    have "state (procs k1 p) = PROC_ZOMBIE" using pk[of p] z(2) by auto
    moreover have "p \<noteq> x" using False k1(7) z st by auto
    ultimately show ?thesis using k2(11) nh z(1) Cons.hyps(2)[symmetric] Cons.prems(5) by auto
  qed
  ultimately show ?case
    using k2(2-9) k1(4-6) fr by (intro exI[of _ k2]) (auto simp: pframe_def tframe_def)
qed

end

section \<open>Fork\<close>

text \<open>Steps that only prepare the new process: nothing of the tree, the lists or the scheduling
  state of any process changes.\<close>

definition qframe :: "kern \<Rightarrow> kern \<Rightarrow> bool" where
  "qframe k k' \<longleftrightarrow> tframe k k' \<and> same_rq k k' \<and> current k' = current k \<and> next_safe k' = next_safe k \<and>
     last_pid k' = last_pid k \<and> wait_list k' = wait_list k \<and>
     (\<forall>p. state (procs k' p) = state (procs k p) \<and> wait_state (procs k' p) = wait_state (procs k p) \<and>
        time_slice (procs k' p) = time_slice (procs k p))"

lemma copy_sem_qframe: "copy_sem cf p d k = (r, k') \<Longrightarrow> qframe k k'"
  by (auto simp: copy_sem_def qframe_def tframe_def same_rq_def sem_queue_count_add_def split: option.splits if_splits)

lemma copy_mm_qframe: "copy_mm cf p d k = (r, k') \<Longrightarrow> qframe k k'"
  by (auto simp: copy_mm_def qframe_def tframe_def same_rq_def split: option.splits if_splits)

lemma qframe_trans: "qframe a b \<Longrightarrow> qframe b c \<Longrightarrow> qframe a c"
  using tframe_trans[of a b c] by (simp add: qframe_def same_rq_def)

lemma set_links_frame:
  assumes "set_links p k = Some k'"
  shows "same_rq k k'" "current k' = current k" "idleproc k' = idleproc k" "initproc k' = initproc k"
    "hash_list k' = hash_list k" "tgroup k' = tgroup k" "last_pid k' = last_pid k" "next_safe k' = next_safe k"
    "pid (procs k' q) = pid (procs k q)" "state (procs k' q) = state (procs k q)"
    "wait_state (procs k' q) = wait_state (procs k q)" "time_slice (procs k' q) = time_slice (procs k q)"
  using assms unfolding set_links_def
  by (auto simp: Let_def same_rq_def split: option.splits Option.bind_splits)

lemma tree_pframe: "tree_ok k ch \<Longrightarrow> tframe k k' \<Longrightarrow> tree_ok k' ch"
  by (rule tree_frame) (auto simp: tframe_def)

lemma hash_pframe: "hash_ok k \<Longrightarrow> tframe k k' \<Longrightarrow> hash_ok k'"
  by (rule hash_ok_frame) (auto simp: tframe_def)

text \<open>Publishing the new process \<open>p\<close>: a pid, the hash table, the tree, the thread group, the run
  queue.\<close>

context sched_policy
begin

lemma fork_publish:
  assumes inv: "inv k" "sched_inv k" and t: "tree_ok k ch" and h: "hash_ok k" and pi: "pid_inv k"
    and len: "length (proc_list k) < 8191"
    and p: "p \<notin> set (proc_list k)" "parent (procs k p) = Some pa" "p \<noteq> pa" "\<And>qa. p \<notin> set (ch qa)"
      "state (procs k p) = PROC_UNINIT"
  shows "\<exists>i k1 k2 k3. get_pid k = Some (i, k1)
    \<and> set_links p (hash_proc p (upd_proc p (\<lambda>pr. pr\<lparr>pid := i\<rparr>) k1)) = Some k2
    \<and> wakeup_proc cls p (if c then k2\<lparr>tgroup := tg k2\<rparr> else k2) = Some k3
    \<and> 1 \<le> i \<and> i < MAX_PID \<and> i \<notin> set (pids k) \<and> pid (procs k3 p) = i
    \<and> inv k3 \<and> sched_inv k3 \<and> tree_ok k3 (ch(pa := p # ch pa)) \<and> hash_ok k3
    \<and> proc_list k3 = p # proc_list k \<and> nr_process k3 = nr_process k + 1 \<and> state (procs k3 p) = PROC_RUNNABLE
    \<and> current k3 = current k \<and> idleproc k3 = idleproc k
    \<and> (\<forall>q. q \<noteq> p \<longrightarrow> pid (procs k3 q) = pid (procs k q) \<and> state (procs k3 q) = state (procs k q))"
proof -
  obtain i s where i: "get_pid k = Some (i, k\<lparr>last_pid := i, next_safe := s\<rparr>)" "1 \<le> i" "i < MAX_PID"
    "i \<notin> set (pids k)" by (rule get_pid_ok[OF pi len]) blast
  define k1 where "k1 = k\<lparr>last_pid := i, next_safe := s\<rparr>"
  define ka where "ka = upd_proc p (\<lambda>pr. pr\<lparr>pid := i\<rparr>) k1"
  define kb where "kb = hash_proc p ka"
  have fb: "proc_list kb = proc_list k" "nr_process kb = nr_process k" "current kb = current k" "idleproc kb = idleproc k"
    "\<And>q. parent (procs kb q) = parent (procs k q)" "\<And>q. cptr (procs kb q) = cptr (procs k q)"
    "\<And>q. yptr (procs kb q) = yptr (procs k q)" "\<And>q. optr (procs kb q) = optr (procs k q)"
    "\<And>q. state (procs kb q) = state (procs k q)" "\<And>q. pid (procs kb q) = (if q = p then i else pid (procs k q))"
    "same_rq k kb"
    by (auto simp: kb_def ka_def k1_def hash_proc_def Let_def same_rq_def)
  have tb: "tree_ok kb ch" by (rule tree_frame[OF t]) (simp add: fb)
  have pb: "parent (procs kb p) = Some pa" using p(2) fb(5) by simp
  from set_links_ok[OF tb pb p(3,4)] obtain k2 where k2: "set_links p kb = Some k2" "tree_ok k2 (ch(pa := p # ch pa))"
    "proc_list k2 = p # proc_list kb" "nr_process k2 = nr_process kb + 1" by auto
  note f2 = set_links_frame[OF k2(1)]
  define k2' where "k2' = (if c then k2\<lparr>tgroup := tg k2\<rparr> else k2)"
  have f2': "procs k2' = procs k2" "proc_list k2' = proc_list k2" "nr_process k2' = nr_process k2"
    "hash_list k2' = hash_list k2" "current k2' = current k2" "idleproc k2' = idleproc k2" "same_rq k2 k2'"
    by (simp_all add: k2'_def same_rq_def)
  have srs: "same_rq k k2'" using fb(11) f2(1) f2'(7) by (auto simp: same_rq_def)
  have ii: "inv k2'" "sched_inv k2'"
    using inv_frame[OF inv(1) srs] sched_inv_frame[OF inv(2) srs] by (auto simp: f2' f2 fb)
  have "state (procs k2' p) \<noteq> PROC_ZOMBIE" using p(5) by (simp add: f2' f2 fb)
  from wakeup_pframe[OF ii this] obtain k3 where k3: "wakeup_proc cls p k2' = Some k3" "inv k3" "sched_inv k3"
    "pframe k2' k3" "state (procs k3 p) = PROC_RUNNABLE" by blast
  have tf: "tframe k2' k3" "current k3 = current k2'" using k3(4) by (auto simp: pframe_def)
  have ha: "hash_ok ka"
    by (rule hash_ok_frame[OF h]) (use p(1) in \<open>auto simp: ka_def k1_def\<close>)
  have pa: "pid (procs ka p) \<notin> set (pids ka)" using i(4) p(1) by (auto simp: ka_def k1_def pids_def split: if_splits)
  have "p \<notin> set (proc_list ka)" using p(1) by (simp add: ka_def k1_def)
  from hash_add[OF ha this pa, of k2'] have "hash_ok k2'"
    using k2(3) fb(1,10) by (auto simp: f2' f2 kb_def ka_def k1_def hash_proc_def Let_def)
  then have hk: "hash_ok k3" by (rule hash_pframe[OF _ tf(1)])
  have "tree_ok k2' (ch(pa := p # ch pa))" by (rule tree_frame[OF k2(2)]) (simp add: f2')
  then have tk: "tree_ok k3 (ch(pa := p # ch pa))" by (rule tree_pframe[OF _ tf(1)])
  have pid3: "pid (procs k3 q) = (if q = p then i else pid (procs k q))" for q
    using tf(1) by (simp add: tframe_def f2' f2 fb)
  have wk: "wakeup_proc cls p k2' = Some k3 \<Longrightarrow> q \<noteq> p \<Longrightarrow> state (procs k3 q) = state (procs k2' q)" for q
    using wakeup_ok[OF ii \<open>state (procs k2' p) \<noteq> PROC_ZOMBIE\<close>] k3(1) sframe_proc(1) by (auto split: if_splits)
  have g: "get_pid k = Some (i, k1)" "set_links p (hash_proc p (upd_proc p (\<lambda>pr. pr\<lparr>pid := i\<rparr>) k1)) = Some k2"
    "wakeup_proc cls p (if c then k2\<lparr>tgroup := tg k2\<rparr> else k2) = Some k3"
    using i(1) k2(1) k3(1) by (simp_all only: k1_def kb_def ka_def k2'_def)
  have "proc_list k3 = p # proc_list k" "nr_process k3 = nr_process k + 1" "current k3 = current k" "idleproc k3 = idleproc k"
    "q \<noteq> p \<Longrightarrow> state (procs k3 q) = state (procs k q)" for q
    using tf wk[OF k3(1), of q] k2(3,4) by (simp_all add: tframe_def f2' f2 fb)
  with g i(2-4) k3(2,3,5) tk hk show ?thesis by (simp add: pid3)
qed

end

lemma mlfq_new:
  assumes "mlfq_ok k" "\<not> run_linked k p" "rq (f (procs k p)) = None"
  shows "mlfq_ok (upd_proc p f k)"
proof -
  let ?k = "upd_proc p f k"
  have r: "rq_ok k" "\<And>q. rq (procs k p) = Some q \<Longrightarrow> q < NRQ" using assms(1) by (auto simp: mlfq_ok_def)
  have "rq (procs ?k v) = Some q" if "q < NRQ" "v \<in> set (run_list k q)" for q v
  proof -
    have "v \<noteq> p" using assms(2) that run_linked_iff by blast
    then show ?thesis using r(1) that by (simp add: rq_ok_def)
  qed
  then have "rq_ok ?k" using r(1) unfolding rq_ok_def upd_fields by blast
  moreover have "rq (procs ?k v) = Some q \<Longrightarrow> q < NRQ" for v q
    using assms(1,3) by (cases "v = p") (simp_all add: mlfq_ok_def)
  ultimately show ?thesis using assms(1) unfolding mlfq_ok_def upd_fields by blast
qed

text \<open>The state that a fork starts from and its new process descriptor \<open>p\<close>, just allocated.\<close>

definition fork_ready :: "kern \<Rightarrow> (nat \<Rightarrow> nat list) \<Rightarrow> nat \<Rightarrow> bool" where
  "fork_ready k ch p \<longleftrightarrow> mlfq_ok k \<and> sched_inv k \<and> tree_ok k ch \<and> hash_ok k \<and> pid_inv k \<and>
     length (proc_list k) \<le> nr_process k \<and> wait_state (procs k (current k)) = 0 \<and> time_slice (procs k (current k)) \<ge> 0 \<and>
     p \<notin> set (proc_list k) \<and> p \<noteq> current k \<and> \<not> run_linked k p \<and> ch p = [] \<and> (\<forall>qa. p \<notin> set (ch qa))"

lemma fork_prepare:
  assumes r: "fork_ready k ch p"
    and k1: "k1 = upd_proc p (\<lambda>pr. (new_proc c)\<lparr>exit_code := exit_code pr, event := event pr, parent := Some (current k)\<rparr>) k"
    and k2: "procs k2 = (procs k1)(p := (procs k1 p)\<lparr>time_slice := h, kstack := ks\<rparr>,
       current k := (procs k1 (current k))\<lparr>time_slice := ts\<rparr>)"
    and f2: "run_list k2 = run_list k" "proc_num k2 = proc_num k" "rq_link k2 = rq_link k" "current k2 = current k"
      "idleproc k2 = idleproc k" "proc_list k2 = proc_list k" "hash_list k2 = hash_list k"
      "nr_process k2 = nr_process k" "last_pid k2 = last_pid k" "next_safe k2 = next_safe k"
    and k3: "qframe k2 k3"
  shows "mlfq_ok k3" "sched_inv k3" "tree_ok k3 ch" "hash_ok k3" "pid_inv k3" "proc_list k3 = proc_list k"
    "nr_process k3 = nr_process k" "parent (procs k3 p) = Some (current k)" "state (procs k3 p) = PROC_UNINIT"
    "current k3 = current k" "idleproc k3 = idleproc k" "pids k3 = pids k"
    "q \<noteq> p \<Longrightarrow> pid (procs k3 q) = pid (procs k q) \<and> state (procs k3 q) = state (procs k q)"
proof -
  note r = r[unfolded fork_ready_def]
  have pc: "p \<noteq> current k" using r by blast
  have tf: "tframe k2 k3" using k3 by (simp add: qframe_def)
  have t3: "current k3 = current k" "idleproc k3 = idleproc k" "proc_list k3 = proc_list k" "nr_process k3 = nr_process k"
    "last_pid k3 = last_pid k" "next_safe k3 = next_safe k"
    using k3 f2 by (simp_all add: qframe_def tframe_def)
  have st: "state (procs k3 q) = (if q = p then PROC_UNINIT else state (procs k q))" for q
    using k3 pc by (simp add: qframe_def k2 k1 new_proc_def)
  have pd: "pid (procs k3 q) = (if q = p then - 1 else pid (procs k q))" for q
    using tf pc by (simp add: tframe_def k2 k1 new_proc_def)
  have m1: "mlfq_ok k1" unfolding k1 using r by (intro mlfq_new) (auto simp: new_proc_def)
  have sr: "same_rq k1 k3" using k3 pc f2 by (simp add: qframe_def same_rq_def k2) (simp add: k1)
  show "mlfq_ok k3" by (rule MLFQ.inv_frame[OF m1 sr])
  have "run_linked k3 q = run_linked k q" for q
    using same_rq_linked[OF sr, of q] by (simp add: k1 run_linked_def)
  then show "sched_inv k3" using r t3 by (simp add: sched_inv_def st) blast
  have "kids k1 pa (ch pa)" for pa
  proof -
    have k: "kids k pa (ch pa)" using r by (simp add: tree_ok_def)
    have "seg k1 pa None (ch pa) None = seg k pa None (ch pa) None"
      using r by (intro seg_cong) (auto simp: k1)
    with k r show ?thesis by (cases "pa = p") (simp_all add: kids_def k1 new_proc_def hdo_def)
  qed
  then have "tree_ok k1 ch" by (simp add: tree_ok_def)
  then have "tree_ok k2 ch" by (rule tree_frame) (use pc in \<open>simp add: k2\<close>)
  then show "tree_ok k3 ch" by (rule tree_pframe[OF _ tf])
  have hl: "hash_list k3 = hash_list k" using tf f2 by (simp add: tframe_def)
  show "hash_ok k3" by (rule hash_ok_frame[of k]) (use r hl t3 pd in auto)
  have pi: "map (\<lambda>p. pid (procs k3 p)) (proc_list k) = map (\<lambda>p. pid (procs k p)) (proc_list k)" using r pd by auto
  then show "pids k3 = pids k" by (simp add: pids_def t3)
  then show "pid_inv k3" using r by (simp add: pid_inv_def t3)
  show "parent (procs k3 p) = Some (current k)" using tf pc by (simp add: tframe_def k2 k1)
  show "state (procs k3 p) = PROC_UNINIT" "current k3 = current k" "idleproc k3 = idleproc k" "proc_list k3 = proc_list k"
    "nr_process k3 = nr_process k" using st t3 by simp_all
  show "q \<noteq> p \<Longrightarrow> pid (procs k3 q) = pid (procs k q) \<and> state (procs k3 q) = state (procs k q)" using st pd by simp
qed

text \<open>C12: A fork with enough resources returns the pid of a new process: the pid is fresh and in
  range, \<open>find_proc\<close> maps it to the new descriptor, the new process is the youngest child of the
  caller in a well-formed process tree, it is runnable and queued for the processor, the process
  count grows by one, and no other process changes its pid or its state.\<close>

theorem do_fork_correct:
  assumes r: "fork_ready k ch p" and nr: "nr_process k < 4096"
    and env: "e_proc env = Some p" "e_kstack env = Some ks" "e_sem env \<noteq> None" "e_mm env \<noteq> None"
  shows "\<exists>i k'. do_fork MLFQ_sched_class clone_flags env k = Some (i, k')
    \<and> 1 \<le> i \<and> i < 8192 \<and> i \<notin> set (pids k) \<and> find_proc i k' = Some p
    \<and> tree_ok k' (ch(current k := p # ch (current k))) \<and> hash_ok k' \<and> mlfq_ok k' \<and> sched_inv k'
    \<and> proc_list k' = p # proc_list k \<and> nr_process k' = nr_process k + 1
    \<and> state (procs k' p) = PROC_RUNNABLE \<and> (p \<noteq> idleproc k \<longrightarrow> run_linked k' p)
    \<and> (\<forall>q. q \<noteq> p \<longrightarrow> pid (procs k' q) = pid (procs k q) \<and> state (procs k' q) = state (procs k q))"
proof -
  note rr = r[unfolded fork_ready_def]
  have pc: "p \<noteq> current k" "current k \<noteq> p" using rr by auto
  define k1 where "k1 = upd_proc p (\<lambda>pr. (new_proc (e_boot_cr3 env))\<lparr>exit_code := exit_code pr, event := event pr, parent := Some (current k)\<rparr>) k"
  define k0 where "k0 = upd_proc p (\<lambda>pr. pr\<lparr>parent := Some (current k)\<rparr>) (alloc_proc (e_boot_cr3 env) p k)"
  have f0: "procs k0 = procs k1" "current k0 = current k" "run_list k0 = run_list k" "proc_num k0 = proc_num k" "rq_link k0 = rq_link k"
    "idleproc k0 = idleproc k" "proc_list k0 = proc_list k" "hash_list k0 = hash_list k" "nr_process k0 = nr_process k"
    "last_pid k0 = last_pid k" "next_safe k0 = next_safe k"
    by (simp_all add: k0_def k1_def alloc_proc_def wait_queue_init_def Let_def fun_eq_iff)
  have ca: "current (alloc_proc (e_boot_cr3 env) p k) = current k" by (simp add: alloc_proc_def wait_queue_init_def Let_def)
  define half where "half = time_slice (procs k (current k)) div 2"
  define k2 where "k2 = upd_proc p (\<lambda>pr. pr\<lparr>kstack := ks\<rparr>)
     (upd_proc (current k) (\<lambda>pr. pr\<lparr>time_slice := time_slice pr - half\<rparr>)
       (upd_proc p (\<lambda>pr. pr\<lparr>time_slice := half\<rparr>) k0))"
  obtain k3 where k3: "copy_sem clone_flags p (e_sem env) k2 = (0, k3)"
    using env(3) that
    by (cases "sem_queue (procs k2 (current k2))"; cases "clone_flags AND CLONE_SEM = 0"; auto simp: copy_sem_def)
  obtain k4 where k4: "copy_mm clone_flags p (e_mm env) k3 = (0, k4)"
    using env(4) that
    by (cases "mm (procs k3 (current k3))"; cases "clone_flags AND CLONE_VM = 0"; auto simp: copy_mm_def)
  have q: "qframe k2 k4" by (rule qframe_trans[OF copy_sem_qframe[OF k3] copy_mm_qframe[OF k4]])
  have p2: "procs k2 = (procs k1)(p := (procs k1 p)\<lparr>time_slice := half, kstack := ks\<rparr>,
       current k := (procs k1 (current k))\<lparr>time_slice := time_slice (procs k (current k)) - half\<rparr>)"
  proof
    fix q
    have "time_slice (procs k1 (current k)) = time_slice (procs k (current k))" using pc by (simp add: k1_def)
    then show "procs k2 q = ((procs k1)(p := (procs k1 p)\<lparr>time_slice := half, kstack := ks\<rparr>,
       current k := (procs k1 (current k))\<lparr>time_slice := time_slice (procs k (current k)) - half\<rparr>)) q"
      using pc by (cases "q = p"; cases "q = current k") (simp_all add: k2_def f0(1))
  qed
  note prep = fork_prepare[OF r k1_def p2 _ _ _ _ _ _ _ _ _ _ q]
  have f2: "run_list k2 = run_list k" "proc_num k2 = proc_num k" "rq_link k2 = rq_link k" "current k2 = current k"
      "idleproc k2 = idleproc k" "proc_list k2 = proc_list k" "hash_list k2 = hash_list k"
      "nr_process k2 = nr_process k" "last_pid k2 = last_pid k" "next_safe k2 = next_safe k"
    by (simp_all add: k2_def f0)
  note prep = prep[OF f2]
  have len: "length (proc_list k4) < 8191" using rr nr prep(6) by simp
  have pl: "p \<notin> set (proc_list k4)" using rr prep(6) by simp
  have nc: "p \<notin> set (ch qa)" for qa using rr by blast
  from MLFQ.fork_publish[OF prep(1-5) len pl prep(8) pc(1) nc prep(9),
      of "clone_flags AND CLONE_THREAD \<noteq> 0" "\<lambda>k. list_add_before (current k) p (tgroup k)"]
  obtain i k5 k6 k7 where p7: "get_pid k4 = Some (i, k5)"
    "set_links p (hash_proc p (upd_proc p (\<lambda>pr. pr\<lparr>pid := i\<rparr>) k5)) = Some k6"
    "wakeup_proc MLFQ_sched_class p (if clone_flags AND CLONE_THREAD \<noteq> 0
      then k6\<lparr>tgroup := list_add_before (current k6) p (tgroup k6)\<rparr> else k6) = Some k7"
    "1 \<le> i" "i < MAX_PID" "i \<notin> set (pids k4)" "pid (procs k7 p) = i" "mlfq_ok k7" "sched_inv k7"
    "tree_ok k7 (ch(current k := p # ch (current k)))" "hash_ok k7" "proc_list k7 = p # proc_list k4"
    "nr_process k7 = nr_process k4 + 1" "state (procs k7 p) = PROC_RUNNABLE" "current k7 = current k4"
    "idleproc k7 = idleproc k4"
    "\<forall>q. q \<noteq> p \<longrightarrow> pid (procs k7 q) = pid (procs k4 q) \<and> state (procs k7 q) = state (procs k4 q)"
    by blast
  have "procs (alloc_proc (e_boot_cr3 env) p k) (current k) = procs k (current k)"
    using pc by (simp add: alloc_proc_def wait_queue_init_def Let_def)
  then have t0: "wait_state (procs (alloc_proc (e_boot_cr3 env) p k) (current k)) = 0"
    "0 \<le> time_slice (procs (alloc_proc (e_boot_cr3 env) p k) (current k))"
    "time_slice (procs (alloc_proc (e_boot_cr3 env) p k) (current k)) div 2 = half"
    using rr by (simp_all add: half_def)
  have "do_fork MLFQ_sched_class clone_flags env k = Some (i, k7)"
    using nr env(1,2) k3 k4 p7(1-3,7) pc t0 unfolding do_fork_def k2_def
    by (simp add: Let_def ca f0(2) k0_def[symmetric] cong: if_cong)
  moreover have "find_proc i k7 = Some p" using p7(4,5,7,11,12) by (simp add: find_proc_iff)
  moreover have "p \<noteq> idleproc k \<longrightarrow> run_linked k7 p"
    using p7(9,14-16) prep(10,11) pc by (simp add: sched_inv_def)
  ultimately show ?thesis using p7 prep by (intro exI[of _ i] exI[of _ k7]) auto
qed

section \<open>A process exits\<close>

definition exit_ready :: "kern \<Rightarrow> (nat \<Rightarrow> nat list) \<Rightarrow> nat \<Rightarrow> nat list \<Rightarrow> bool" where
  "exit_ready k ch pa pts \<longleftrightarrow> mlfq_ok k \<and> sched_inv k \<and> wait_ok k \<and> child_waits k \<and> tree_ok k ch \<and>
     current k \<noteq> idleproc k \<and> current k \<noteq> initproc k \<and> state (procs k (current k)) = PROC_RUNNABLE \<and>
     parent (procs k (current k)) = Some pa \<and> ring (tgroup k) pa pts \<and>
     (\<forall>p \<in> set (waiters k (EventQ (current k))). state (procs k p) \<noteq> PROC_ZOMBIE \<and> p \<noteq> current k)"

lemma zombie_sched_inv:
  assumes "sched_inv k" "p = current k" "same_rq k k'" "current k' = current k" "idleproc k' = idleproc k"
    "\<And>q. q \<noteq> p \<Longrightarrow> state (procs k' q) = state (procs k q)"
  shows "sched_inv k'"
  using assms same_rq_linked[OF assms(3)] unfolding sched_inv_def by metis

text \<open>States that differ in what \<open>exit_mm\<close> changes.\<close>

definition mm_frame :: "kern \<Rightarrow> kern \<Rightarrow> bool" where
  "mm_frame k k' \<longleftrightarrow> (\<forall>q. \<exists>m. procs k' q = (procs k q)\<lparr>mm := m\<rparr>) \<and> run_list k' = run_list k \<and> proc_num k' = proc_num k \<and> rq_link k' = rq_link k
     \<and> current k' = current k \<and> idleproc k' = idleproc k \<and> initproc k' = initproc k
     \<and> wait_list k' = wait_list k \<and> waits k' = waits k \<and> tgroup k' = tgroup k"

lemma mm_frame_refl: "mm_frame k k"
proof -
  have "procs k q = (procs k q)\<lparr>mm := mm (procs k q)\<rparr>" for q by simp
  then show ?thesis unfolding mm_frame_def by blast
qed

lemma exit_mm_frame: "exit_mm c put p (k, v) = Some (k', v') \<Longrightarrow> mm_frame k k'"
proof (cases "mm (procs k p)")
  case None
  moreover assume "exit_mm c put p (k, v) = Some (k', v')"
  ultimately show ?thesis using mm_frame_refl by (simp add: exit_mm_def)
next
  case (Some m)
  moreover assume x: "exit_mm c put p (k, v) = Some (k', v')"
  ultimately obtain b w where w: "put m v = Some (b, w)" by (auto simp: exit_mm_def kmonad)
  have q: "\<exists>x. procs k q = (procs k q)\<lparr>mm := x\<rparr>" for q using mm_frame_refl by (simp add: mm_frame_def)
  show ?thesis using x Some w q by (cases b) (auto simp: exit_mm_def Let_def mm_frame_def)
qed

text \<open>What follows the release of the address space, for the state \<open>k0\<close> that it leaves.\<close>

lemma exit_rest_ok:
  assumes mmf: "mm_frame k k0" and r: "exit_ready k ch pa pts"
    and me: "me = current k" "heir = (if next_thread me k = me then initproc k else next_thread me k)"
  shows "\<exists>k'. exit_rest MLFQ_sched_class k0 = Some k' \<and> mlfq_ok k' \<and> sched_inv k' \<and> \<not> run_linked k' me
    \<and> state (procs k' me) = PROC_ZOMBIE \<and> current k' \<noteq> me
    \<and> (\<forall>t \<in> set (pa # pts). wait_state (procs k t) = WT_CHILD \<longrightarrow> state (procs k' t) = PROC_RUNNABLE)
    \<and> (\<forall>p \<in> set (waiters k (EventQ me)). state (procs k' p) = PROC_RUNNABLE)
    \<and> tree_ok k' (ch(me := [], heir := rev (ch me) @ ch heir))"
proof -
  note rr = r[unfolded exit_ready_def, folded me(1)]
  have frm: "\<exists>m. procs k0 q = (procs k q)\<lparr>mm := m\<rparr>" for q using mmf by (simp add: mm_frame_def)
  have pf: "state (procs k0 q) = state (procs k q) \<and> wait_state (procs k0 q) = wait_state (procs k q) \<and> rq (procs k0 q) = rq (procs k q)
    \<and> parent (procs k0 q) = parent (procs k q) \<and> cptr (procs k0 q) = cptr (procs k q) \<and> yptr (procs k0 q) = yptr (procs k q)
    \<and> optr (procs k0 q) = optr (procs k q)" for q using frm[of q] by auto
  define k1 where "k1 = upd_proc me (\<lambda>pr. pr\<lparr>state := PROC_ZOMBIE\<rparr>) k0"
  have f1: "run_list k1 = run_list k" "proc_num k1 = proc_num k" "rq_link k1 = rq_link k" "current k1 = me"
    "idleproc k1 = idleproc k" "initproc k1 = initproc k" "wait_list k1 = wait_list k" "waits k1 = waits k"
    "tgroup k1 = tgroup k" using mmf by (simp_all add: k1_def mm_frame_def me(1))
  have p1: "state (procs k1 q) = (if q = me then PROC_ZOMBIE else state (procs k q))"
    "wait_state (procs k1 q) = wait_state (procs k q)" "rq (procs k1 q) = rq (procs k q)"
    "parent (procs k1 q) = parent (procs k q)" "cptr (procs k1 q) = cptr (procs k q)"
    "yptr (procs k1 q) = yptr (procs k q)" "optr (procs k1 q) = optr (procs k q)" for q
    using pf[of q] by (auto simp: k1_def)
  have sr1: "same_rq k k1" by (simp add: same_rq_def f1 p1)
  have "wait_state (procs k me) \<noteq> WT_CHILD" using rr by (auto simp: child_waits_def)
  then have i1: "mlfq_ok k1" "sched_inv k1" "child_waits k1" "tree_ok k1 ch" "wait_ok k1"
    using rr MLFQ.inv_frame[OF _ sr1] zombie_sched_inv[OF _ me(1) sr1] tree_frame[of k ch k1] wait_ok_frame[of k k1]
    by (auto simp: p1 f1 child_waits_def me(1))
  have "\<exists>k2. wake_parents MLFQ_sched_class pa pa k1 = Some k2 \<and> mlfq_ok k2 \<and> sched_inv k2 \<and> pframe k1 k2
    \<and> wait_list k2 = wait_list k1 \<and> waits k2 = waits k1
    \<and> (\<forall>t \<in> set (pa # pts). wait_state (procs k1 t) = WT_CHILD \<longrightarrow> state (procs k2 t) = PROC_RUNNABLE)"
    using MLFQ.wake_parents_path[OF i1(1-3), of "pa # pts" pa] ring_path[of k1 pa pts] rr f1 by simp
  then obtain k2 where k2: "wake_parents MLFQ_sched_class pa pa k1 = Some k2" "mlfq_ok k2" "sched_inv k2" "pframe k1 k2"
    "wait_list k2 = wait_list k1" "waits k2 = waits k1"
    "\<forall>t \<in> set (pa # pts). wait_state (procs k1 t) = WT_CHILD \<longrightarrow> state (procs k2 t) = PROC_RUNNABLE" by blast
  have tf2: "tframe k1 k2" "current k2 = me" using k2(4) f1 by (auto simp: pframe_def)
  have nt: "next_thread me k2 = next_thread me k" "initproc k2 = initproc k"
    using tf2(1) f1 by (simp_all add: tframe_def next_thread_def)
  define k3 where "k3 = de_thread me k2"
  have f3: "procs k3 = procs k2" "run_list k3 = run_list k2" "proc_num k3 = proc_num k2" "rq_link k3 = rq_link k2"
    "current k3 = current k2" "idleproc k3 = idleproc k2" "wait_list k3 = wait_list k2" "waits k3 = waits k2"
    by (simp_all add: k3_def de_thread_def)
  have sr3: "same_rq k2 k3" by (simp add: same_rq_def f3)
  have i3: "mlfq_ok k3" "sched_inv k3" "child_waits k3" "giving me k3 ch"
    using MLFQ.inv_frame[OF k2(2) sr3] sched_inv_frame[OF k2(3) sr3] child_waits_pframe[OF i1(3) k2(4)]
      tree_giving[OF tree_frame[OF tree_pframe[OF i1(4) tf2(1)]]]
    by (auto simp: f3 child_waits_def)
  have mh: "me \<noteq> heir" using rr me(2) by auto
  from MLFQ.reparent_ok[OF i3 mh] obtain k4 where k4: "reparent MLFQ_sched_class me heir k3 = Some k4"
    "mlfq_ok k4" "sched_inv k4" "tree_ok k4 (ch(me := [], heir := rev (ch me) @ ch heir))"
    "wait_list k4 = wait_list k3" "waits k4 = waits k3" "current k4 = current k3" "idleproc k4 = idleproc k3"
    "\<forall>p. state (procs k4 p) = state (procs k3 p) \<and> wait_state (procs k4 p) = wait_state (procs k3 p) \<or>
        state (procs k3 p) \<noteq> PROC_ZOMBIE \<and> state (procs k4 p) = PROC_RUNNABLE \<and> wait_state (procs k4 p) = 0" by blast
  have nz: "state (procs k4 p) = PROC_ZOMBIE \<longleftrightarrow> state (procs k1 p) = PROC_ZOMBIE" for p
    using k4(9)[rule_format, of p] pframe_state[OF k2(4), of p] f3 by auto
  have w4: "waiters k4 (EventQ me) = waiters k (EventQ me)" "wait_ok k4"
    using k4(5,6) f3 k2(5,6) f1 wait_ok_frame[OF i1(5), of k4] by (auto simp: waiters_def)
  have "\<forall>p \<in> set (waiters k4 (EventQ me)). state (procs k4 p) \<noteq> PROC_ZOMBIE"
    unfolding nz w4 using rr by (auto simp: p1)
  from MLFQ.wakeup_all_ok[OF k4(2,3) w4(2) refl this, of WT_INTERRUPTED] obtain k5 where
    k5: "wakeup_all MLFQ_sched_class (EventQ me) WT_INTERRUPTED k4 = Some k5" "mlfq_ok k5" "sched_inv k5"
      "current k5 = current k4" "idleproc k5 = idleproc k4"
      "\<forall>p. state (procs k5 p) = (if p \<in> set (waiters k4 (EventQ me)) then PROC_RUNNABLE else state (procs k4 p))"
      "pframe k4 k5" by blast
  have wq: "wakeup_queue MLFQ_sched_class (EventQ me) WT_INTERRUPTED True k4 = Some k5"
    using k5(1) by (auto simp: wakeup_queue_def wakeup_all.simps[of _ "EventQ me" _ k4] split: option.splits)
  from MLFQ.schedule_ok[OF k5(2,3)] obtain k6 where k6: "schedule MLFQ_sched_class k5 = Some k6" "mlfq_ok k6" "sched_inv k6"
    "\<forall>p. state (procs k6 p) = state (procs k5 p)" "tframe k5 k6"
    "if current k6 = idleproc k5 then \<forall>p. state (procs k5 p) = PROC_RUNNABLE \<longrightarrow> p = idleproc k5
       else state (procs k5 (current k6)) = PROC_RUNNABLE" by blast
  have c0: "current k0 = me" using mmf me(1) by (simp add: mm_frame_def)
  have run: "exit_rest MLFQ_sched_class k0 = Some k6"
    using rr k2(1) k4(1) wq k6(1) unfolding exit_rest_def c0 Let_def
    using me(2) by (cases "next_thread me k = me") (simp_all add: k1_def[symmetric] nt k3_def[symmetric] p1 kassert_def)
  have mez: "me \<notin> set (waiters k (EventQ me))" using rr by blast
  have zm: "state (procs k6 me) = PROC_ZOMBIE" using k6(4) k5(6) w4 mez nz[of me] p1(1)[of me] by simp
  have "idleproc k5 = idleproc k" using k5(5) k4(8) f3(6) tf2(1) f1 by (simp add: tframe_def)
  then have cur: "current k6 \<noteq> me" using k6(4,6) zm rr by (auto split: if_splits)
  have up: "state (procs k6 p) = PROC_RUNNABLE" if "state (procs k2 p) = PROC_RUNNABLE" for p
    using k6(4) k5(6) k4(9)[rule_format, of p] that f3 by auto
  have "tree_ok k6 (ch(me := [], heir := rev (ch me) @ ch heir))"
    using tree_pframe[OF tree_pframe[OF k4(4)] k6(5)] k5(7) by (simp add: pframe_def)
  moreover have "\<not> run_linked k6 me" using k6(3) zm by (simp add: sched_inv_def)
  ultimately show ?thesis using run k6(2,3) zm cur up k2(7) k5(6) k6(4) w4 by (auto simp: p1)
qed

section \<open>Waiting, killing, and the remaining properties\<close>

text \<open>The children that \<open>do_wait(i)\<close> of the running process looks at: with a pid, that process if
  its parent is a thread of the caller's group; without one, the caller's own children.\<close>

definition waited :: "kern \<Rightarrow> (nat \<Rightarrow> nat list) \<Rightarrow> nat list \<Rightarrow> int \<Rightarrow> nat list" where
  "waited k ch ts i =
    (if i \<noteq> 0 then (case find_proc i k of None \<Rightarrow> []
       | Some p \<Rightarrow> if \<exists>t \<in> set (current k # ts). parent (procs k p) = Some t then [p] else [])
     else ch (current k))"

lemma wait_search_ok:
  assumes "tree_ok k ch" "ring (tgroup k) (current k) ts"
  shows "wait_search i k = Some (waited k ch ts i \<noteq> [], find (\<lambda>p. state (procs k p) = PROC_ZOMBIE) (waited k ch ts i))"
proof (cases "i = 0")
  case True
  let ?z = "find (\<lambda>p. state (procs k p) = PROC_ZOMBIE) (ch (current k))"
  have s: "seg k (current k) None (ch (current k)) None" "cptr (procs k (current k)) = hdo (ch (current k)) None"
    using assms(1) by (auto simp: tree_ok_def kids_def)
  have z: "child_zombie (cptr (procs k (current k))) False k = Some (ch (current k) \<noteq> [], ?z)"
    "child_zombie (cptr (procs k (current k))) True k = Some (True, ?z)"
    using child_zombie_seg[OF s(1)] s(2) by simp_all
  show ?thesis
    using wait_any_path[OF z ring_path[OF assms(2)], of False] True by (simp add: wait_search_def waited_def)
next
  case False
  show ?thesis
  proof (cases "find_proc i k")
    case (Some p)
    then show ?thesis
      using False wait_pid_path[OF ring_path[OF assms(2)], of p] by (simp add: wait_search_def waited_def)
  qed (use False in \<open>simp add: wait_search_def waited_def\<close>)
qed

definition wait_ready :: "kern \<Rightarrow> (nat \<Rightarrow> nat list) \<Rightarrow> nat list \<Rightarrow> bool" where
  "wait_ready k ch ts \<longleftrightarrow> mlfq_ok k \<and> sched_inv k \<and> tree_ok k ch \<and> hash_ok k \<and> ring (tgroup k) (current k) ts \<and>
     (\<forall>p \<in> set (proc_list k). \<exists>pa. p \<in> set (ch pa)) \<and> (\<forall>pa. pa \<notin> set (ch pa)) \<and>
     (\<forall>t \<in> set (current k # ts). \<forall>p \<in> set (ch t). p \<noteq> idleproc k \<and> p \<noteq> initproc k \<and> p \<in> set (proc_list k))"

text \<open>C14: One round of \<open>do_wait\<close> does what the caller's children call for: if one of the children
  it looks at is a zombie, the youngest such child is taken out of the process tree, the process
  list and the pid table (its pid is no longer found), and its exit code is handed over; if there
  are children but no zombie, the caller sleeps in \<open>WT_CHILD\<close> and gives the processor away; if
  there is none, the result is \<open>-E_BAD_PROC\<close> and nothing changes.\<close>

theorem do_wait_correct:
  assumes "wait_ready k ch ts"
  shows "case find (\<lambda>p. state (procs k p) = PROC_ZOMBIE) (waited k ch ts i) of
      Some p \<Rightarrow> \<exists>k' pa. do_wait MLFQ_sched_class i (Some (True, True)) k = Some (WaitReturn 0 (Some (exit_code (procs k p))), k')
        \<and> parent (procs k p) = Some pa \<and> tree_ok k' (ch(pa := remove1 p (ch pa))) \<and> hash_ok k'
        \<and> proc_list k' = remove1 p (proc_list k) \<and> nr_process k' = nr_process k - 1
        \<and> (\<forall>j. find_proc j k' \<noteq> Some p)
    | None \<Rightarrow> if waited k ch ts i = []
        then do_wait MLFQ_sched_class i (Some (True, True)) k = Some (WaitReturn (- 2) None, k)
        else \<exists>k'. do_wait MLFQ_sched_class i (Some (True, True)) k = Some (WaitSleeps, k')
          \<and> wait_state (procs k' (current k)) = WT_CHILD \<and> sched_inv k'
          \<and> (current k \<noteq> idleproc k \<longrightarrow> current k' \<noteq> current k)"
proof -
  note r = assms[unfolded wait_ready_def]
  let ?me = "current k"
  have ws: "wait_search i k = Some (waited k ch ts i \<noteq> [], find (\<lambda>p. state (procs k p) = PROC_ZOMBIE) (waited k ch ts i))"
    using r by (intro wait_search_ok) auto
  show ?thesis
  proof (cases "find (\<lambda>p. state (procs k p) = PROC_ZOMBIE) (waited k ch ts i)")
    case (Some p)
    then have "p \<in> set (waited k ch ts i)" by (auto simp: find_Some_iff in_set_conv_nth)
    then obtain pa where pa: "p \<in> set (ch pa)" "pa \<in> set (?me # ts)"
    proof (cases "i = 0")
      case False
      with \<open>p \<in> set (waited k ch ts i)\<close> obtain t where t: "find_proc i k = Some p" "t \<in> set (?me # ts)"
        "parent (procs k p) = Some t" by (auto simp: waited_def split: option.splits if_splits)
      then have "p \<in> set (proc_list k)" using r by (auto simp: find_proc_iff)
      then obtain pb where "p \<in> set (ch pb)" using r by blast
      moreover from this have "pb = t" using tree_parent[of k ch p pb] r t(3) by simp
      ultimately show ?thesis using that t(2) by blast
    qed (simp add: waited_def)
    have par: "parent (procs k p) = Some pa" using tree_parent[of k ch p pa] pa(1) r by blast
    have "p \<noteq> pa" "p \<noteq> idleproc k" "p \<noteq> initproc k" using r pa by metis+
    then obtain k' where k': "reap p k = Some (exit_code (procs k p), k')"
      "tree_ok k' (ch(pa := remove1 p (ch pa)))" "hash_ok k'" "proc_list k' = remove1 p (proc_list k)"
      "nr_process k' = nr_process k - 1" using reap_ok[of k ch p pa] r pa(1) by blast
    have "distinct (proc_list k)" using r by (simp add: hash_ok_def)
    then have "find_proc j k' \<noteq> Some p" for j using find_proc_iff[OF k'(3)] k'(4) by auto
    then show ?thesis using Some ws k' par by (auto simp: do_wait_def do_wait_repeat_def)
  next
    case None
    show ?thesis
    proof (cases "waited k ch ts i = []")
      case True
      then show ?thesis using ws by (simp add: do_wait_def do_wait_repeat_def)
    next
      case False
      let ?k = "upd_proc ?me (\<lambda>pr. pr\<lparr>state := PROC_SLEEPING, wait_state := WT_CHILD\<rparr>) k"
      have sr: "same_rq k ?k" by (rule same_rq_upd) simp
      have i: "mlfq_ok ?k" "sched_inv ?k"
        using r MLFQ.inv_frame[OF _ sr] zombie_sched_inv[OF _ refl sr] by auto
      from MLFQ.schedule_ok[OF i] obtain k' where k': "schedule MLFQ_sched_class ?k = Some k'" "sched_inv k'"
        "\<forall>p. state (procs k' p) = state (procs ?k p) \<and> wait_state (procs k' p) = wait_state (procs ?k p)"
        "if current k' = idleproc ?k then \<forall>p. state (procs ?k p) = PROC_RUNNABLE \<longrightarrow> p = idleproc ?k
          else state (procs ?k (current k')) = PROC_RUNNABLE" by blast
      have "current k' \<noteq> ?me" if "?me \<noteq> idleproc k" using k'(4) that by (auto split: if_splits)
      then show ?thesis using None False ws k' by (simp add: do_wait_def do_wait_repeat_def)
    qed
  qed
qed

text \<open>The doubly linked sibling lists form a well-formed tree: \<open>set_links\<close> makes a process that
  is in no sibling list the youngest child of its parent, \<open>remove_links\<close> unlinks a child wherever
  it stands among its siblings; both leave all other sibling lists as they are, keep the process
  list and count in step, and never dereference a null parent.\<close>

theorem process_tree_preserved:
  assumes "tree_ok k ch"
  shows "(parent (procs k p) = Some pa \<and> p \<noteq> pa \<and> (\<forall>qa. p \<notin> set (ch qa)) \<longrightarrow>
      (\<exists>k'. set_links p k = Some k' \<and> tree_ok k' (ch(pa := p # ch pa))
        \<and> proc_list k' = p # proc_list k \<and> nr_process k' = nr_process k + 1))
    \<and> (q \<in> set (ch pa) \<and> q \<noteq> pa \<longrightarrow>
      (\<exists>k'. remove_links q k = Some k' \<and> tree_ok k' (ch(pa := remove1 q (ch pa)))
        \<and> proc_list k' = remove1 q (proc_list k) \<and> nr_process k' = nr_process k - 1))"
  using set_links_ok[OF assms, of p pa] remove_links_ok[OF assms, of q pa] by blast

text \<open>A thread can become its own parent: if the process that exits created the thread to which
  it hands its children (\<open>next_thread\<close>), that thread is one of those children, and afterwards it
  is its own parent and in its own list of children; a \<open>wait\<close> for any child by that thread then
  never reports \<open>-E_BAD_PROC\<close>, even if it has no other child.\<close>

theorem exit_makes_thread_its_own_parent:
  assumes "mlfq_ok k" "sched_inv k" "child_waits k" "tree_ok k ch" "me \<noteq> heir" "heir \<in> set (ch me)"
  shows "\<exists>k'. reparent MLFQ_sched_class me heir k = Some k' \<and> parent (procs k' heir) = Some heir
    \<and> (\<forall>ts. ring (tgroup k') heir ts \<longrightarrow> (\<exists>z. wait_search 0 (k'\<lparr>current := heir\<rparr>) = Some (True, z)))"
proof -
  from MLFQ.reparent_ok[OF assms(1-3) tree_giving[OF assms(4)] assms(5)] obtain k' where k':
    "reparent MLFQ_sched_class me heir k = Some k'" "tree_ok k' (ch(me := [], heir := rev (ch me) @ ch heir))" by blast
  let ?ch = "ch(me := [], heir := rev (ch me) @ ch heir)"
  have m: "heir \<in> set (?ch heir)" using assms(6) by simp
  have t: "tree_ok (k'\<lparr>current := heir\<rparr>) ?ch" by (rule tree_frame[OF k'(2)]) simp
  have "\<exists>z. wait_search 0 (k'\<lparr>current := heir\<rparr>) = Some (True, z)" if "ring (tgroup k') heir ts" for ts
    using wait_search_ok[OF t, of ts 0] that m by (auto simp: waited_def)
  then show ?thesis using k'(1) tree_parent[OF k'(2) m] by blast
qed

section \<open>A small process tree\<close>

text \<open>Process 0 is idle, its child 1 is init, which waits for a child; 2, child of init, runs; its
  child 3 is a zombie.\<close>

definition demo_proc :: kern where
  "demo_proc = kern0\<lparr>
     procs := (\<lambda>_. new_proc 0)(
       0 := (new_proc 0)\<lparr>state := PROC_RUNNABLE, pid := 0, cptr := Some 1\<rparr>,
       1 := (new_proc 0)\<lparr>state := PROC_SLEEPING, pid := 1, wait_state := WT_CHILD, parent := Some 0, cptr := Some 2\<rparr>,
       2 := (new_proc 0)\<lparr>state := PROC_RUNNABLE, pid := 2, parent := Some 1, cptr := Some 3, time_slice := 5\<rparr>,
       3 := (new_proc 0)\<lparr>state := PROC_ZOMBIE, pid := 3, parent := Some 2, exit_code := 7\<rparr>),
     current := 2, idleproc := 0, initproc := 1, proc_list := [3, 2, 1], nr_process := 4, last_pid := 3,
     hash_list := (\<lambda>h. filter (\<lambda>p. pid_hashfn (int p) = h) [3, 2, 1]),
     max_time_slice := (\<lambda>q. 8 * 2 ^ q),
     rq_link := \<lparr>prev = (\<lambda>q. (q + 3) mod 4), next = (\<lambda>q. (q + 1) mod 4)\<rparr>\<rparr>"

definition demo_children :: "nat \<Rightarrow> nat list" where
  "demo_children = (\<lambda>_. [])(0 := [1], 1 := [2], 2 := [3])"

lemma demo_proc_fields:
  "current demo_proc = 2" "idleproc demo_proc = 0" "initproc demo_proc = 1" "proc_list demo_proc = [3, 2, 1]"
  "nr_process demo_proc = 4" "last_pid demo_proc = 3" "next_safe demo_proc = MAX_PID"
  "tgroup demo_proc = \<lparr>prev = (\<lambda>p. p), next = (\<lambda>p. p)\<rparr>" "wait_list demo_proc = (\<lambda>_. [])"
  "hash_list demo_proc h = filter (\<lambda>p. pid_hashfn (int p) = h) [3, 2, 1]"
  "run_list demo_proc q = []" "proc_num demo_proc q = 0" "list_next (rq_link demo_proc) q = (q + 1) mod 4"
  by (simp_all add: demo_proc_def kern0_def list_next_def)

lemma demo_proc_procs:
  "state (procs demo_proc p) = (if p = 1 then PROC_SLEEPING else if p = 0 \<or> p = 2 then PROC_RUNNABLE
     else if p = 3 then PROC_ZOMBIE else PROC_UNINIT)"
  "pid (procs demo_proc p) = (if p \<le> 3 then int p else - 1)" "rq (procs demo_proc p) = None"
  "wait_state (procs demo_proc p) = (if p = 1 then WT_CHILD else 0)" "exit_code (procs demo_proc p) = (if p = 3 then 7 else 0)"
  "parent (procs demo_proc p) = (if p = 1 then Some 0 else if p = 2 then Some 1 else if p = 3 then Some 2 else None)"
  "cptr (procs demo_proc p) = (if p = 0 then Some 1 else if p = 1 then Some 2 else if p = 2 then Some 3 else None)"
  "yptr (procs demo_proc p) = None" "optr (procs demo_proc p) = None" "time_slice (procs demo_proc p) = (if p = 2 then 5 else 0)"
  by (auto simp: demo_proc_def new_proc_def)

lemma demo_proc_ok: "mlfq_ok demo_proc" "sched_inv demo_proc" "tree_ok demo_proc demo_children"
  "hash_ok demo_proc" "pid_inv demo_proc" "wait_ok demo_proc" "child_waits demo_proc" "\<not> run_linked demo_proc p"
proof -
  show nl: "\<not> run_linked demo_proc p" for p by (simp add: run_linked_def demo_proc_fields)
  show "mlfq_ok demo_proc" by (simp add: mlfq_ok_def rq_ok_def demo_proc_fields demo_proc_procs)
  show "sched_inv demo_proc" using nl by (simp add: sched_inv_def demo_proc_fields demo_proc_procs)
  show "tree_ok demo_proc demo_children"
    by (auto simp: tree_ok_def kids_def demo_children_def demo_proc_procs hdo_def)
  show "hash_ok demo_proc" by (auto simp: hash_ok_def demo_proc_fields demo_proc_procs inj_on_def)
  show "pid_inv demo_proc" by (simp add: pid_inv_def pids_def demo_proc_fields demo_proc_procs)
  show "wait_ok demo_proc" by (simp add: wait_ok_def demo_proc_fields)
  show "child_waits demo_proc" by (simp add: child_waits_def demo_proc_procs)
qed

lemma demo_ring: "ring (tgroup demo_proc) p []"
  by (simp add: ring_def demo_proc_fields)

theorem do_fork_correct_witness:
  "\<exists>i k'. do_fork MLFQ_sched_class 0 \<lparr>e_proc = Some 5, e_kstack = Some 0x1000, e_sem = Some 0, e_mm = Some (9, 0x2000), e_boot_cr3 = 0\<rparr>
      demo_proc = Some (i, k') \<and> find_proc i k' = Some 5 \<and> run_linked k' 5"
proof -
  have "fork_ready demo_proc demo_children 5"
    using demo_proc_ok by (simp add: fork_ready_def demo_proc_fields demo_proc_procs demo_children_def)
  from do_fork_correct[OF this, of "\<lparr>e_proc = Some 5, e_kstack = Some 0x1000, e_sem = Some 0, e_mm = Some (9, 0x2000), e_boot_cr3 = 0\<rparr>" "0x1000" 0]
  show ?thesis by (auto simp: demo_proc_fields)
qed

theorem do_wait_correct_witness:
  "\<exists>k'. do_wait MLFQ_sched_class 0 (Some (True, True)) demo_proc = Some (WaitReturn 0 (Some 7), k') \<and> proc_list k' = [2, 1]"
proof -
  have "wait_ready demo_proc demo_children []"
    using demo_proc_ok demo_ring by (auto simp: wait_ready_def demo_proc_fields demo_children_def)
  from do_wait_correct[OF this, of 0] show ?thesis
    by (auto simp: waited_def demo_proc_fields demo_proc_procs demo_children_def)
qed

theorem process_tree_preserved_witness:
  "\<exists>k'. remove_links 3 demo_proc = Some k' \<and> tree_ok k' (demo_children(2 := [])) \<and> proc_list k' = [2, 1]"
proof -
  have "3 \<in> set (demo_children 2) \<and> 3 \<noteq> (2::nat)" "demo_children(2 := remove1 3 (demo_children 2)) = demo_children(2 := [])"
    "remove1 3 (proc_list demo_proc) = [2, 1]"
    by (simp_all add: demo_children_def demo_proc_fields)
  with process_tree_preserved[OF demo_proc_ok(3), where pa = 2 and q = 3 and p = 9] show ?thesis by auto
qed

theorem exit_makes_thread_its_own_parent_witness:
  "\<exists>k'. reparent MLFQ_sched_class 2 3 demo_proc = Some k' \<and> parent (procs k' 3) = Some 3"
  using exit_makes_thread_its_own_parent[OF demo_proc_ok(1,2,7,3), of 2 3] by (auto simp: demo_children_def)

end
