(* ===== verification/BuddyFrame.thy ===== *)
theory BuddyFrame
  imports Buddy
begin

text \<open>
  Which page descriptors the buddy allocator writes to: allocating a page touches descriptors of
  free pages only, and there nothing but \<open>property\<close> and its flag; freeing a page resets the
  descriptor of that page and otherwise touches descriptors of free pages only.  The users of
  allocated pages (swap cache, page tables) rest on this frame.
\<close>

definition quiet :: "Page \<Rightarrow> Page \<Rightarrow> bool" where
  "quiet p q \<longleftrightarrow> p_ref q = p_ref p \<and> p_index q = p_index p \<and> (\<forall>f. f \<noteq> PG_property \<longrightarrow> PageFlag f q = PageFlag f p)"

lemma quiet_refl [simp]: "quiet p p"
  by (simp add: quiet_def)

lemma quiet_trans: "quiet p q \<Longrightarrow> quiet q r \<Longrightarrow> quiet p r"
  by (simp add: quiet_def)

definition touched :: "nat set \<Rightarrow> buddy \<Rightarrow> buddy \<Rightarrow> bool" where
  "touched S b b' \<longleftrightarrow> (\<forall>q. q \<notin> S \<longrightarrow> pages b' q = pages b q) \<and> (\<forall>q. quiet (pages b q) (pages b' q))"

lemma touched_refl [simp]: "touched S b b"
  by (simp add: touched_def)

lemma touched_trans: "touched S b c \<Longrightarrow> touched T c d \<Longrightarrow> S \<union> T \<subseteq> U \<Longrightarrow> touched U b d"
  unfolding touched_def using quiet_trans by (metis UnI1 UnI2 subset_iff)

lemma touched_mono: "touched S b c \<Longrightarrow> S \<subseteq> U \<Longrightarrow> touched U b c"
  using touched_trans[of S b c S c U] by simp

lemma touched_add: "touched {p} b (add_block k p b)"
  by (simp add: touched_def quiet_def)

lemma touched_take: "touched {p} b (upd_page p ClearPageProperty (unlink_block k p b))"
  by (simp add: touched_def quiet_def)

lemma touched_split: "touched (blk p cur) b (split_block p order cur b)"
proof (induction p order cur b rule: split_block.induct)
  case (2 p order cur b)
  show ?case
  proof (cases "Suc cur > order")
    case True
    have "{p + 2 ^ cur} \<union> blk p cur \<subseteq> blk p (Suc cur)" by (auto simp: blk_def)
    with touched_trans[OF touched_add 2[OF True]] True show ?thesis by simp
  qed simp
qed simp

lemma touched_alloc_sub:
  assumes "buddy_ok zl b" "order \<le> MAX_ORDER" "buddy_alloc_pages_sub order b = Some (r, b')"
  shows "touched (free_set b) b b'"
proof (cases "find (\<lambda>cur. free_list b cur \<noteq> []) [order..<MAX_ORDER + 1]")
  case None
  with assms show ?thesis by (simp add: buddy_alloc_pages_sub_def)
next
  case (Some cur)
  from find_upt_Some[OF Some] have c: "order \<le> cur" "cur \<le> MAX_ORDER" "free_list b cur \<noteq> []" by auto
  let ?p = "hd (free_list b cur)"
  let ?t = "upd_page ?p ClearPageProperty (unlink_block cur ?p b)"
  have fb: "(cur, ?p) \<in> free_blocks b" using c by (simp add: free_blocks_def)
  have b': "b' = split_block ?p order cur ?t"
    using assms(2,3) Some by (simp add: buddy_alloc_pages_sub_def Let_def split_upd_commute)
  have "touched (blk ?p cur) b b'"
    unfolding b' by (rule touched_trans[OF touched_take touched_split]) auto
  then show ?thesis using free_blocks_free_set[OF fb] by (rule touched_mono)
qed

lemma touched_alloc:
  assumes "buddy_ok zl b" "buddy_alloc_pages 1 b = Some (r, b')"
  shows "touched (free_set b) b b'"
proof -
  have g: "getorder 1 = Some 0"
  proof -
    have "getorder 1 = find (\<lambda>order. (1::nat) \<le> 2 ^ order) (0 # [1..<MAX_ORDER + 1])"
      unfolding getorder_def by (simp add: upt_rec)
    then show ?thesis by simp
  qed
  obtain r' where "buddy_alloc_pages_sub 0 b = Some (r', b')"
    using assms(2) g by (cases r) (auto simp: buddy_alloc_pages_def kmonad split: option.splits)
  then show ?thesis by (rule touched_alloc_sub[OF assms(1), rotated]) simp
qed

text \<open>The heads of free blocks, as \<open>page_is_buddy\<close> recognises them.\<close>

definition heads :: "buddy \<Rightarrow> nat set" where
  "heads b = {q. q < npage b \<and> PageProperty (pages b q) \<and> \<not> PageReserved (pages b q)}"

lemma heads_free: "buddy_ok zl b \<Longrightarrow> heads b \<subseteq> free_set b"
  using not_free_no_property[of zl b] unfolding heads_def buddy_ok_def zones_ok_def by blast

lemma and_xor_bit: "(i::nat) AND (i XOR 2 ^ k) = (if bit i k then i XOR 2 ^ k else i)"
  by (rule bit_eqI) (auto simp: bit_simps)

lemma touched_merge:
  assumes "merge_buddies z idx k b = (idx', k', b')"
  shows "touched (heads b) b b' \<and> (idx' = idx \<or> zones b z + idx' \<in> heads b) \<and> npage b' = npage b \<and> zones b' = zones b"
  using assms
proof (induction z idx k b rule: merge_buddies.induct)
  case (1 z idx k b)
  let ?i = "idx XOR 2 ^ k"
  let ?p = "zones b z + ?i"
  let ?t = "upd_page ?p ClearPageProperty (unlink_block k ?p b)"
  show ?case
  proof (cases "k < MAX_ORDER \<and> page_is_buddy ?p k z b")
    case True
    then have p: "?p \<in> heads b" by (auto simp: page_is_buddy_def heads_def split: if_splits)
    have sub: "heads ?t \<subseteq> heads b" by (auto simp: heads_def split: if_splits)
    have eq: "merge_buddies z (idx AND ?i) (k + 1) ?t = (idx', k', b')"
      using "1.prems" True by (simp add: merge_buddies.simps[of z idx k b] Let_def idx2page_def)
    have "touched (heads ?t) ?t b' \<and> (idx' = (idx AND ?i) \<or> zones ?t z + idx' \<in> heads ?t) \<and> npage b' = npage ?t \<and> zones b' = zones ?t"
      by (rule "1.IH"[OF _ refl refl, simplified idx2page_def]) (use True eq in simp_all)
    moreover have "touched (heads b) b b'"
      by (rule touched_trans[OF touched_take]) (use calculation p sub in auto)
    moreover have "idx' = (idx AND ?i) \<Longrightarrow> idx' = idx \<or> zones b z + idx' \<in> heads b"
      using p by (auto simp: and_xor_bit split: if_splits)
    ultimately show ?thesis using sub by auto
  next
    case False
    then have "idx' = idx" "k' = k" "b' = b"
      using "1.prems" by (auto simp: merge_buddies.simps[of z idx k b] Let_def idx2page_def split: if_splits)
    then show ?thesis by simp
  qed
qed

text \<open>Freeing the page \<open>p\<close>.\<close>

lemma touched_free:
  assumes ok: "buddy_ok zl b" and use: "in_use zl b p 1" and r: "buddy_free_pages p 1 b = Some b'"
  shows "\<forall>q. q \<notin> free_set b \<and> q \<noteq> p \<longrightarrow> pages b' q = pages b q"
    and "\<forall>q. q \<noteq> p \<longrightarrow> quiet (pages b q) (pages b' q)"
    and "quiet (set_page_ref 0 ((pages b p)\<lparr>p_flags := 0\<rparr>)) (pages b' p)"
proof -
  from use have pm: "p \<in> managed zl b" "p \<notin> free_set b" by (auto simp: in_use_def in_zone_def managed_def)
  let ?f = "\<lambda>pg. set_page_ref 0 (pg\<lparr>p_flags := 0\<rparr>)"
  let ?c = "upd_page p ?f b"
  obtain z where z: "p_zone_num (pages b p) = z" "zones b z \<le> p"
    using pm(1) ok by (auto simp: buddy_ok_def zones_ok_def managed_def zone_def)
  obtain idx' k' d where m: "merge_buddies z (p - zones b z) 0 ?c = (idx', k', d)" by (rule prod_cases3)
  note t = touched_merge[OF m]
  have b': "b' = add_block k' (zones b z + idx') d"
  proof -
    have "fold (\<lambda>p. upd_page p ?f) [p..<p + 2 ^ 0] b = ?c" by simp
    moreover have "p_zone_num (pages ?c p) = z" using z by simp
    moreover have "page2idx p b = p - zones b z" using z by (simp add: page2idx_def)
    moreover have "idx2page z idx' d = zones b z + idx'" using t by (simp add: idx2page_def)
    ultimately show ?thesis
      using r m by (simp add: buddy_free_pages_def buddy_free_pages_sub_def Let_def kmonad)
  qed
  have h: "heads ?c \<subseteq> heads b" by (auto simp: heads_def split: if_splits)
  have pnh: "p \<notin> heads ?c" by (simp add: heads_def PageFlag_def)
  have ip: "zones b z + idx' = p \<or> zones b z + idx' \<in> heads b" using t z(2) h by auto
  have tb: "touched (insert p (heads b)) ?c b'"
    unfolding b' by (rule touched_trans[OF conjunct1[OF t] touched_add]) (use ip h in auto)
  show "\<forall>q. q \<notin> free_set b \<and> q \<noteq> p \<longrightarrow> pages b' q = pages b q"
    using tb heads_free[OF ok] by (auto simp: touched_def)
  show "\<forall>q. q \<noteq> p \<longrightarrow> quiet (pages b q) (pages b' q)"
    using tb unfolding touched_def by (metis fun_upd_other upd_page_fields(6))
  show "quiet (set_page_ref 0 ((pages b p)\<lparr>p_flags := 0\<rparr>)) (pages b' p)"
    using tb unfolding touched_def by (auto dest!: spec[of _ p])
qed

end
