(* ===== verification/Swap.thy ===== *)
theory Swap
  imports Buddy KString
begin

text \<open>
  Physical memory and the swap space: the \<open>alloc_pages\<close> family of \<open>kern/mm/pmm.c\<close> on the buddy
  allocator, and the part of \<open>kern/mm/swap.c\<close> that keeps the swap cache: the table \<open>mem_map\<close> of
  reference counts of swap entries, the hash table from entries to cached pages, and the two lists
  of cached pages.  The words of a page frame are kept as an array of 1024 32-bit words; a kernel
  virtual address of a frame is the number of the frame.  A swapped-out page is found in \<open>disk\<close>
  under the offset of its entry; whether a transfer succeeds is an argument.

  \<open>alloc_pages\<close> calls \<open>try_free_pages\<close> when the allocator has no block and retries after that
  call has slept; the model returns the result of one attempt, the retry being a new call in a
  later state.
\<close>

section \<open>The state\<close>

record mem =
  bd :: buddy
  words :: "nat \<Rightarrow> nat \<Rightarrow> u32"
  cr3_frame :: nat
  tlb :: "u32 \<Rightarrow> u32 option"
  active_list :: "nat list"
  nr_active_pages :: nat
  inactive_list :: "nat list"
  nr_inactive_pages :: nat
  swap_hash :: "u32 \<Rightarrow> nat list"
  mem_map :: "nat \<Rightarrow> u16"
  max_swap_offset :: nat
  swap_next :: nat
  disk :: "nat \<Rightarrow> nat \<Rightarrow> u32"

abbreviation (input) "SWAP_UNUSED \<equiv> (0xFFFF :: u16)"
abbreviation (input) "MAX_SWAP_REF \<equiv> (0xFFFE :: u16)"
abbreviation (input) "MAX_SWAP_OFFSET_LIMIT \<equiv> (2 ^ 24 :: nat)"

definition pg :: "mem \<Rightarrow> nat \<Rightarrow> Page" where
  "pg m p = pages (bd m) p"

definition upd_pg :: "nat \<Rightarrow> (Page \<Rightarrow> Page) \<Rightarrow> mem \<Rightarrow> mem" where
  "upd_pg p f m = m\<lparr>bd := upd_page p f (bd m)\<rparr>"

definition page_ref :: "mem \<Rightarrow> nat \<Rightarrow> u32" where
  "page_ref m p = atomic_read (p_ref (pg m p))"

definition pg_ref_inc :: "nat \<Rightarrow> mem \<Rightarrow> mem" where
  "pg_ref_inc p m = upd_pg p (\<lambda>q. snd (page_ref_inc q)) m"

definition pg_ref_dec :: "nat \<Rightarrow> mem \<Rightarrow> mem" where
  "pg_ref_dec p m = upd_pg p (\<lambda>q. snd (page_ref_dec q)) m"

section \<open>Pages (pmm.c)\<close>

definition alloc_pages :: "nat \<Rightarrow> mem \<Rightarrow> (nat option \<times> mem) option" where
  "alloc_pages n m = do { (r, b) \<leftarrow> buddy_alloc_pages n (bd m); Some (r, m\<lparr>bd := b\<rparr>) }"

definition free_pages :: "nat \<Rightarrow> nat \<Rightarrow> mem \<Rightarrow> mem option" where
  "free_pages base n m = do { b \<leftarrow> buddy_free_pages base n (bd m); Some (m\<lparr>bd := b\<rparr>) }"

definition nr_free_pages :: "mem \<Rightarrow> nat" where
  "nr_free_pages m = buddy_nr_free_pages (bd m)"

abbreviation (input) "alloc_page \<equiv> alloc_pages 1"
abbreviation (input) "free_page p \<equiv> free_pages p 1"

section \<open>Swap entries, the swap cache and its lists (swap.c)\<close>

definition swap_offset :: "u32 \<Rightarrow> mem \<Rightarrow> nat option" where
  "swap_offset entry m =
    (let off = unat (drop_bit 8 entry)
     in if off > 0 \<and> off < max_swap_offset m then Some off else None)"

definition entry_of :: "nat \<Rightarrow> u32" where
  "entry_of off = push_bit 8 (word_of_nat off)"

definition entry_hashfn :: "u32 \<Rightarrow> u32" where
  "entry_hashfn x = hash32 x 10"

definition swap_active_list_add :: "nat \<Rightarrow> mem \<Rightarrow> mem option" where
  "swap_active_list_add p m = do {
     kassert (PageSwap (pg m p));
     let m = upd_pg p SetPageActive m;
     Some (m\<lparr>nr_active_pages := nr_active_pages m + 1, active_list := active_list m @ [p]\<rparr>)
   }"

definition swap_inactive_list_add :: "nat \<Rightarrow> mem \<Rightarrow> mem option" where
  "swap_inactive_list_add p m = do {
     kassert (PageSwap (pg m p));
     let m = upd_pg p ClearPageActive m;
     Some (m\<lparr>nr_inactive_pages := nr_inactive_pages m + 1, inactive_list := inactive_list m @ [p]\<rparr>)
   }"

text \<open>\<open>list_del\<close> unlinks the page from the list it is in.\<close>

definition swap_list_del :: "nat \<Rightarrow> mem \<Rightarrow> mem option" where
  "swap_list_del p m = do {
     kassert (PageSwap (pg m p));
     let m = (if PageActive (pg m p) then m\<lparr>nr_active_pages := nr_active_pages m - 1\<rparr>
              else m\<lparr>nr_inactive_pages := nr_inactive_pages m - 1\<rparr>);
     Some (m\<lparr>active_list := remove1 p (active_list m), inactive_list := remove1 p (inactive_list m)\<rparr>)
   }"

definition swap_page_del :: "nat \<Rightarrow> mem \<Rightarrow> mem option" where
  "swap_page_del p m = do {
     kassert (PageSwap (pg m p));
     let h = entry_hashfn (p_index (pg m p));
     let m = upd_pg p ClearPageSwap m;
     Some (m\<lparr>swap_hash := (swap_hash m)(h := remove1 p (swap_hash m h))\<rparr>)
   }"

definition swap_free_page :: "nat \<Rightarrow> mem \<Rightarrow> mem option" where
  "swap_free_page p m = do {
     kassert (PageSwap (pg m p) \<and> page_ref m p = 0);
     m \<leftarrow> swap_page_del p m;
     free_page p m
   }"

definition swap_hash_find :: "u32 \<Rightarrow> mem \<Rightarrow> nat option" where
  "swap_hash_find entry m = find (\<lambda>p. p_index (pg m p) = entry) (swap_hash m (entry_hashfn entry))"

definition set_mem_map :: "nat \<Rightarrow> u16 \<Rightarrow> mem \<Rightarrow> mem" where
  "set_mem_map off v m = m\<lparr>mem_map := (mem_map m)(off := v)\<rparr>"

text \<open>The loop of \<open>try_alloc_swap_entry\<close>; it stops at the first unused offset, or when it is back
  at \<open>end\<close>.\<close>

partial_function (option) alloc_scan :: "nat \<Rightarrow> nat \<Rightarrow> mem \<Rightarrow> (nat \<times> nat \<times> mem) option" where
  "alloc_scan end zero m =
    (let n = swap_next m;
         empty = (if mem_map m n = SWAP_UNUSED then n else 0);
         zero = (if mem_map m n = 0 \<and> zero = 0 then n else zero);
         m = m\<lparr>swap_next := (if n + 1 = max_swap_offset m then 1 else n + 1)\<rparr>
     in if empty = 0 \<and> swap_next m \<noteq> end then alloc_scan end zero m else Some (empty, zero, m))"

definition try_alloc_swap_entry :: "mem \<Rightarrow> (u32 \<times> mem) option" where
  "try_alloc_swap_entry m = do {
     (empty, zero, m) \<leftarrow> alloc_scan (swap_next m) 0 m;
     (if empty \<noteq> 0 then Some (entry_of empty, m)
      else if zero \<noteq> 0 then do {
        let entry = entry_of zero;
        p \<leftarrow> swap_hash_find entry m;
        kassert (PageSwap (pg m p));
        m \<leftarrow> swap_list_del p m;
        m \<leftarrow> (if page_ref m p = 0 then swap_free_page p m else swap_page_del p m);
        Some (entry, set_mem_map zero SWAP_UNUSED m)
      }
      else Some (0, m))
   }"

definition swap_page_link :: "nat \<Rightarrow> u32 \<Rightarrow> mem \<Rightarrow> mem" where
  "swap_page_link p entry m =
    (let m = upd_pg p (\<lambda>q. (SetPageSwap q)\<lparr>p_index := entry\<rparr>) m;
         h = entry_hashfn entry
     in m\<lparr>swap_hash := (swap_hash m)(h := p # swap_hash m h)\<rparr>)"

definition swap_page_add :: "nat \<Rightarrow> u32 \<Rightarrow> mem \<Rightarrow> (bool \<times> mem) option" where
  "swap_page_add p entry m = do {
     kassert (\<not> PageSwap (pg m p));
     (if entry = 0 then do {
        (entry, m) \<leftarrow> try_alloc_swap_entry m;
        (if entry = 0 then Some (False, m)
         else do {
           off \<leftarrow> swap_offset entry m;
           kassert (mem_map m off = SWAP_UNUSED);
           let m = upd_pg p SetPageDirty (set_mem_map off 0 m);
           Some (True, swap_page_link p entry m)
         })
      }
      else Some (True, swap_page_link p entry m))
   }"

definition swap_remove_entry :: "u32 \<Rightarrow> mem \<Rightarrow> mem option" where
  "swap_remove_entry entry m = do {
     off \<leftarrow> swap_offset entry m;
     kassert (mem_map m off > 0);
     let m = set_mem_map off (mem_map m off - 1) m;
     (if mem_map m off = 0
      then (case swap_hash_find entry m of
              Some p \<Rightarrow>
                if page_ref m p \<noteq> 0 then Some m
                else do {
                  m \<leftarrow> swap_list_del p m;
                  m \<leftarrow> swap_free_page p m;
                  Some (set_mem_map off SWAP_UNUSED m)
                }
            | None \<Rightarrow> Some (set_mem_map off SWAP_UNUSED m))
      else Some m)
   }"

definition swap_page_count :: "nat \<Rightarrow> mem \<Rightarrow> u16 option" where
  "swap_page_count p m =
    (if \<not> PageSwap (pg m p) then Some 0
     else do { off \<leftarrow> swap_offset (p_index (pg m p)) m; Some (mem_map m off) })"

definition swap_duplicate :: "u32 \<Rightarrow> mem \<Rightarrow> mem option" where
  "swap_duplicate entry m = do {
     off \<leftarrow> swap_offset entry m;
     kassert (mem_map m off < MAX_SWAP_REF);
     Some (set_mem_map off (mem_map m off + 1) m)
   }"

text \<open>\<open>swapfs_read\<close> and \<open>swapfs_write\<close> (\<open>kern/fs/swapfs.c\<close>) with the outcome of the transfer.
  A failed transfer leaves its target as it was: what the disk driver has moved before it fails is
  not modelled.\<close>

definition swapfs_read :: "u32 \<Rightarrow> nat \<Rightarrow> bool \<Rightarrow> mem \<Rightarrow> (bool \<times> mem) option" where
  "swapfs_read entry p done m = do {
     off \<leftarrow> swap_offset entry m;
     Some (done, if done then m\<lparr>words := (words m)(p := disk m off)\<rparr> else m)
   }"

definition swapfs_write :: "u32 \<Rightarrow> nat \<Rightarrow> bool \<Rightarrow> mem \<Rightarrow> (bool \<times> mem) option" where
  "swapfs_write entry p done m = do {
     off \<leftarrow> swap_offset entry m;
     Some (done, if done then m\<lparr>disk := (disk m)(off := words m p)\<rparr> else m)
   }"

text \<open>\<open>swap_in_page\<close>: the part under \<open>swap_in_lock\<close>, which looks the entry up again, and the
  whole function without another thread in between.\<close>

definition swap_in_page_locked :: "u32 \<Rightarrow> nat option \<Rightarrow> bool \<Rightarrow> mem \<Rightarrow> ((int \<times> nat option) \<times> mem) option" where
  "swap_in_page_locked entry newpage done m =
    (case swap_hash_find entry m of
       Some p \<Rightarrow> do {
         m \<leftarrow> (case newpage of Some q \<Rightarrow> free_page q m | None \<Rightarrow> Some m);
         Some ((0, Some p), m)
       }
     | None \<Rightarrow>
         (case newpage of
            None \<Rightarrow> Some ((- E_NO_MEM, None), m)
          | Some p \<Rightarrow> do {
              (ok, m) \<leftarrow> swapfs_read entry p done m;
              (if \<not> ok then do { m \<leftarrow> free_page p m; Some ((- E_SWAP_FAULT, None), m) }
               else do {
                 (_, m) \<leftarrow> swap_page_add p entry m;
                 m \<leftarrow> swap_active_list_add p m;
                 Some ((0, Some p), m)
               })
            }))"

definition swap_in_page :: "u32 \<Rightarrow> bool \<Rightarrow> mem \<Rightarrow> ((int \<times> nat option) \<times> mem) option" where
  "swap_in_page entry done m = do {
     off \<leftarrow> swap_offset entry m;
     (case swap_hash_find entry m of
        Some p \<Rightarrow> Some ((0, Some p), m)
      | None \<Rightarrow> do { (newpage, m) \<leftarrow> alloc_page m; swap_in_page_locked entry newpage done m })
   }"

definition swap_copy_entry :: "u32 \<Rightarrow> bool \<Rightarrow> mem \<Rightarrow> ((int \<times> u32 option) \<times> mem) option" where
  "swap_copy_entry entry done m = do {
     m \<leftarrow> swap_duplicate entry m;
     (newpage, m) \<leftarrow> alloc_page m;
     (r, m) \<leftarrow> (case newpage of
        None \<Rightarrow> Some ((- E_NO_MEM, None), m)
      | Some q \<Rightarrow> do {
          ((ret, page), m) \<leftarrow> swap_in_page entry done m;
          (if ret \<noteq> 0 then do { m \<leftarrow> free_page q m; Some ((ret, None), m) }
           else do {
             (ok, m) \<leftarrow> swap_page_add q 0 m;
             (if \<not> ok then do { m \<leftarrow> free_page q m; Some ((- E_NO_MEM, None), m) }
              else do {
                m \<leftarrow> swap_active_list_add q m;
                p \<leftarrow> page;
                let m = m\<lparr>words := (words m)(q := words m p)\<rparr>;
                Some ((0, Some (p_index (pg m q))), m)
              })
           })
        });
     m \<leftarrow> swap_remove_entry entry m;
     Some (r, m)
   }"

definition try_free_swap_entry :: "u32 \<Rightarrow> mem \<Rightarrow> (bool \<times> mem) option" where
  "try_free_swap_entry entry m = do {
     off \<leftarrow> swap_offset entry m;
     Some (if mem_map m off = 0 then (True, set_mem_map off SWAP_UNUSED m) else (False, m))
   }"

text \<open>One page of \<open>page_launder\<close>, already off its list: the result says whether it was freed.\<close>

definition launder_page :: "(u32 \<Rightarrow> bool) \<Rightarrow> nat \<Rightarrow> mem \<Rightarrow> (nat \<times> mem) option" where
  "launder_page done p m = do {
     m \<leftarrow> swap_list_del p m;
     (if page_ref m p \<noteq> 0 then do { m \<leftarrow> swap_active_list_add p m; Some (0, m) }
      else do {
        let entry = p_index (pg m p);
        (freed, m) \<leftarrow> try_free_swap_entry entry m;
        (if \<not> freed \<and> PageDirty (pg m p) then do {
           let m = upd_pg p ClearPageDirty m;
           m \<leftarrow> swap_duplicate entry m;
           (ok, m) \<leftarrow> swapfs_write entry p (done entry) m;
           let m = (if \<not> ok then upd_pg p SetPageDirty m else m);
           off \<leftarrow> swap_offset entry m;
           let m = set_mem_map off (mem_map m off - 1) m;
           (if page_ref m p \<noteq> 0 then do { m \<leftarrow> swap_active_list_add p m; Some (0, m) }
            else if PageDirty (pg m p) then do { m \<leftarrow> swap_inactive_list_add p m; Some (0, m) }
            else do {
              (_, m) \<leftarrow> try_free_swap_entry entry m;
              m \<leftarrow> swap_free_page p m;
              Some (1, m)
            })
         }
         else do { m \<leftarrow> swap_free_page p m; Some (1, m) })
      })
   }"

fun launder_loop :: "(u32 \<Rightarrow> bool) \<Rightarrow> nat \<Rightarrow> nat option \<Rightarrow> nat \<Rightarrow> mem \<Rightarrow> (nat \<times> mem) option" where
  "launder_loop done 0 le free_count m = Some (free_count, m)"
| "launder_loop done (Suc n) None free_count m = Some (free_count, m)"
| "launder_loop done (Suc n) (Some p) free_count m = do {
     let le = succ_of p (inactive_list m);
     kassert (PageSwap (pg m p) \<and> \<not> PageActive (pg m p));
     (d, m) \<leftarrow> launder_page done p m;
     launder_loop done n le (free_count + d) m
   }"

definition list_first :: "'a list \<Rightarrow> 'a option" where
  "list_first xs = (case xs of [] \<Rightarrow> None | x # _ \<Rightarrow> Some x)"

definition page_launder :: "(u32 \<Rightarrow> bool) \<Rightarrow> mem \<Rightarrow> (nat \<times> mem) option" where
  "page_launder done m = launder_loop done (nr_inactive_pages m) (list_first (inactive_list m)) 0 m"

fun refill_loop :: "nat \<Rightarrow> nat option \<Rightarrow> mem \<Rightarrow> mem option" where
  "refill_loop 0 le m = Some m"
| "refill_loop (Suc n) None m = Some m"
| "refill_loop (Suc n) (Some p) m = do {
     let le = succ_of p (active_list m);
     kassert (PageSwap (pg m p) \<and> PageActive (pg m p));
     m \<leftarrow> (if page_ref m p = 0 then do { m \<leftarrow> swap_list_del p m; swap_inactive_list_add p m } else Some m);
     refill_loop n le m
   }"

definition refill_inactive_scan :: "mem \<Rightarrow> mem option" where
  "refill_inactive_scan m = refill_loop (nr_active_pages m) (list_first (active_list m)) m"

end
