(* ===== verification/SwapInv.thy ===== *)
theory SwapInv
  imports Swap BuddyFrame
begin

text \<open>
  Correctness of the swap cache of \<open>kern/mm/swap.c\<close>: an invariant that ties the flags and the
  \<open>index\<close> of the page descriptors, the hash table, the two lists and the reference counts of the
  swap entries together, what each elementary step does to it, and the properties of the
  operations.
\<close>

section \<open>The invariant\<close>

definition cached :: "(nat \<Rightarrow> nat) \<Rightarrow> mem \<Rightarrow> nat set" where
  "cached zl m = {p \<in> managed zl (bd m). PageSwap (pg m p)}"

definition frames_ok :: "(nat \<Rightarrow> nat) \<Rightarrow> mem \<Rightarrow> bool" where
  "frames_ok zl m \<longleftrightarrow> buddy_ok zl (bd m) \<and> (\<forall>p \<in> free_set (bd m). \<not> PageSwap (pg m p) \<and> p_ref (pg m p) = 0)"

definition lists_ok_swap :: "(nat \<Rightarrow> nat) \<Rightarrow> nat set \<Rightarrow> mem \<Rightarrow> bool" where
  "lists_ok_swap zl X m \<longleftrightarrow> distinct (active_list m @ inactive_list m) \<and>
     set (active_list m) \<union> set (inactive_list m) = cached zl m - X \<and>
     nr_active_pages m = length (active_list m) \<and> nr_inactive_pages m = length (inactive_list m) \<and>
     (\<forall>p \<in> set (active_list m). PageActive (pg m p)) \<and> (\<forall>p \<in> set (inactive_list m). \<not> PageActive (pg m p))"

definition hash_ok :: "(nat \<Rightarrow> nat) \<Rightarrow> mem \<Rightarrow> bool" where
  "hash_ok zl m \<longleftrightarrow> (\<forall>h. distinct (swap_hash m h) \<and>
     set (swap_hash m h) = {p \<in> cached zl m. entry_hashfn (p_index (pg m p)) = h})"

definition valid_off :: "mem \<Rightarrow> nat \<Rightarrow> bool" where
  "valid_off m off \<longleftrightarrow> 0 < off \<and> off < max_swap_offset m"

definition entries_ok :: "(nat \<Rightarrow> nat) \<Rightarrow> nat set \<Rightarrow> mem \<Rightarrow> bool" where
  "entries_ok zl Q m \<longleftrightarrow> inj_on (\<lambda>p. p_index (pg m p)) (cached zl m) \<and>
     (\<forall>p \<in> cached zl m. \<exists>off. valid_off m off \<and> p_index (pg m p) = entry_of off \<and> (off \<in> Q \<or> mem_map m off \<noteq> SWAP_UNUSED)) \<and>
     (\<forall>off. valid_off m off \<longrightarrow> off \<notin> Q \<longrightarrow> mem_map m off = 0 \<longrightarrow> (\<exists>p \<in> cached zl m. p_index (pg m p) = entry_of off))"

definition scan_ok :: "mem \<Rightarrow> bool" where
  "scan_ok m \<longleftrightarrow> valid_off m (swap_next m) \<and> max_swap_offset m \<le> MAX_SWAP_OFFSET_LIMIT"

text \<open>\<open>X\<close> are cached pages that are off the lists for the moment, \<open>Q\<close> offsets whose count is being
  changed; both are empty between operations.\<close>

definition swap_inv :: "(nat \<Rightarrow> nat) \<Rightarrow> nat set \<Rightarrow> nat set \<Rightarrow> mem \<Rightarrow> bool" where
  "swap_inv zl X Q m \<longleftrightarrow> frames_ok zl m \<and> lists_ok_swap zl X m \<and> X \<subseteq> cached zl m \<and> hash_ok zl m \<and> entries_ok zl Q m \<and> scan_ok m"

abbreviation (input) "swap_ok zl m \<equiv> swap_inv zl {} {} m"

section \<open>Entries\<close>

lemma entry_of_offset:
  assumes "off < 2 ^ 24"
  shows "unat (drop_bit 8 (entry_of off)) = off"
proof -
  have "entry_of off = word_of_nat (off * 256)" by (simp add: entry_of_def push_bit_eq_mult mult.commute)
  then have "unat (entry_of off) = (off * 256) mod 2 ^ 32" by (simp only: unat_of_nat len_num1 len_bit0 len_num0) simp
  then have "unat (entry_of off) = off * 256" using assms by simp
  then show ?thesis unfolding unat_drop_bit_eq by (simp add: drop_bit_eq_div)
qed

lemma swap_offset_entry: "scan_ok m \<Longrightarrow> valid_off m off \<Longrightarrow> swap_offset (entry_of off) m = Some off"
  by (simp add: swap_offset_def entry_of_offset scan_ok_def valid_off_def)

lemma entry_of_inj: "scan_ok m \<Longrightarrow> valid_off m a \<Longrightarrow> valid_off m b \<Longrightarrow> entry_of a = entry_of b \<longleftrightarrow> a = b"
  using entry_of_offset[of a] entry_of_offset[of b] unfolding scan_ok_def valid_off_def by (metis less_le_trans)

lemma entry_of_nonzero: "scan_ok m \<Longrightarrow> valid_off m off \<Longrightarrow> entry_of off \<noteq> 0"
  using entry_of_offset[of off] by (auto simp: scan_ok_def valid_off_def)

lemma hash_find:
  assumes "swap_inv zl X Q m"
  shows "swap_hash_find e m = Some p \<longleftrightarrow> p \<in> cached zl m \<and> p_index (pg m p) = e"
    and "swap_hash_find e m = None \<longleftrightarrow> (\<forall>p \<in> cached zl m. p_index (pg m p) \<noteq> e)"
proof -
  from assms have s: "set (swap_hash m (entry_hashfn e)) = {p \<in> cached zl m. entry_hashfn (p_index (pg m p)) = entry_hashfn e}"
    and i: "inj_on (\<lambda>p. p_index (pg m p)) (cached zl m)"
    by (auto simp: swap_inv_def hash_ok_def entries_ok_def)
  show "swap_hash_find e m = None \<longleftrightarrow> (\<forall>p \<in> cached zl m. p_index (pg m p) \<noteq> e)"
    unfolding swap_hash_find_def find_None_iff using s by auto
  moreover have "swap_hash_find e m = Some q \<Longrightarrow> q \<in> cached zl m \<and> p_index (pg m q) = e" for q
    unfolding swap_hash_find_def find_Some_iff using s by (metis (mono_tags, lifting) mem_Collect_eq nth_mem)
  ultimately show "swap_hash_find e m = Some p \<longleftrightarrow> p \<in> cached zl m \<and> p_index (pg m p) = e"
    using i by (cases "swap_hash_find e m") (auto dest: inj_onD)
qed

section \<open>Descriptor updates, allocation and release\<close>

lemma upd_pg_fields [simp]:
  "words (upd_pg p f m) = words m" "cr3_frame (upd_pg p f m) = cr3_frame m" "tlb (upd_pg p f m) = tlb m"
  "active_list (upd_pg p f m) = active_list m" "nr_active_pages (upd_pg p f m) = nr_active_pages m"
  "inactive_list (upd_pg p f m) = inactive_list m" "nr_inactive_pages (upd_pg p f m) = nr_inactive_pages m"
  "swap_hash (upd_pg p f m) = swap_hash m" "mem_map (upd_pg p f m) = mem_map m"
  "max_swap_offset (upd_pg p f m) = max_swap_offset m" "swap_next (upd_pg p f m) = swap_next m" "disk (upd_pg p f m) = disk m"
  "bd (upd_pg p f m) = upd_page p f (bd m)" "pg (upd_pg p f m) q = (if q = p then f (pg m p) else pg m q)"
  by (simp_all add: upd_pg_def pg_def)

lemma pg_bd [simp]: "pg (m\<lparr>bd := b\<rparr>) p = pages b p"
  by (simp add: pg_def)

text \<open>Two states of which only descriptors of uncached pages differ.\<close>

definition like :: "mem \<Rightarrow> mem \<Rightarrow> bool" where
  "like m m' \<longleftrightarrow> active_list m' = active_list m \<and> nr_active_pages m' = nr_active_pages m \<and>
     inactive_list m' = inactive_list m \<and> nr_inactive_pages m' = nr_inactive_pages m \<and> swap_hash m' = swap_hash m \<and>
     mem_map m' = mem_map m \<and> max_swap_offset m' = max_swap_offset m \<and> swap_next m' = swap_next m"

lemma like_refl [simp]: "like m m"
  by (simp add: like_def)

lemma like_upd_pg [simp]: "like m (upd_pg p f m)" "like m (m\<lparr>bd := b\<rparr>)"
  by (simp_all add: like_def)

lemma like_valid: "like m m' \<Longrightarrow> valid_off m' = valid_off m"
  by (simp add: like_def valid_off_def fun_eq_iff)

lemma swap_inv_cong:
  assumes inv: "swap_inv zl X Q m" and l: "like m m'" and f: "frames_ok zl m'" and c: "cached zl m' = cached zl m"
    and d: "\<And>p. p \<in> cached zl m \<Longrightarrow> p_index (pg m' p) = p_index (pg m p) \<and> PageActive (pg m' p) = PageActive (pg m p)"
  shows "swap_inv zl X Q m'"
proof -
  have "lists_ok_swap zl X m'"
    using inv l d unfolding swap_inv_def lists_ok_swap_def like_def c by auto
  moreover have "hash_ok zl m'"
    using inv l d unfolding swap_inv_def hash_ok_def like_def c by auto
  moreover have "entries_ok zl Q m'"
  proof -
    have "inj_on (\<lambda>p. p_index (pg m' p)) (cached zl m) = inj_on (\<lambda>p. p_index (pg m p)) (cached zl m)"
      using d by (intro inj_on_cong) simp
    then show ?thesis
      using inv l d like_valid[OF l] unfolding swap_inv_def entries_ok_def like_def c by auto
  qed
  moreover have "scan_ok m'" using inv l like_valid[OF l] by (simp add: swap_inv_def scan_ok_def like_def)
  ultimately show ?thesis using inv f unfolding swap_inv_def c by simp
qed

lemma frames_ok_free: "frames_ok zl m \<Longrightarrow> p \<in> cached zl m \<Longrightarrow> p \<notin> free_set (bd m)"
  by (auto simp: frames_ok_def cached_def)

lemma managed_pg: "frames_ok zl m \<Longrightarrow> p \<in> managed zl (bd m) \<Longrightarrow> \<not> PageReserved (pg m p)"
  by (auto simp: frames_ok_def buddy_ok_def zones_ok_def managed_def pg_def)

lemma in_use1: "p \<in> managed zl b \<Longrightarrow> p \<notin> free_set b \<Longrightarrow> in_use zl b p 1"
  by (auto simp: in_use_def in_zone_def managed_def)

text \<open>A used page's flags that the allocator does not read may change.\<close>

lemma frames_upd:
  assumes m: "frames_ok zl m" and p: "p \<in> managed zl (bd m)" "p \<notin> free_set (bd m)"
    and f: "\<And>q. p_zone_num (f q) = p_zone_num q" "\<And>q. PageProperty (f q) = PageProperty q" "\<And>q. PageReserved (f q) = PageReserved q"
  shows "frames_ok zl (upd_pg p f m) \<and> managed zl (bd (upd_pg p f m)) = managed zl (bd m) \<and> free_set (bd (upd_pg p f m)) = free_set (bd m)"
proof -
  let ?b = "upd_page p f (bd m)"
  have np: "\<not> PageProperty (pages (bd m) p)"
    using m p not_free_no_property by (auto simp: frames_ok_def)
  have sz: "same_zones (bd m) ?b" using f(1) by (simp add: same_zones_def)
  have "zones_ok zl ?b" using m f(3) by (intro zones_ok_cong[OF _ sz]) (auto simp: frames_ok_def buddy_ok_def)
  moreover have "lists_ok zl ?b"
  proof (rule lists_okI)
    have l: "lists_ok zl (bd m)" using m by (auto simp: frames_ok_def buddy_ok_def)
    fix k assume "k \<le> MAX_ORDER"
    then show "distinct (free_list ?b k) \<and> nr_free ?b k = length (free_list ?b k)" using l by (simp add: lists_ok_def)
  next
    have l: "lists_ok zl (bd m)" using m by (auto simp: frames_ok_def buddy_ok_def)
    fix k q assume kq: "(k, q) \<in> free_blocks ?b"
    then have "q \<noteq> p" using np lists_ok_props(3)[OF l, of k q] by auto
    then show "PageProperty (pages ?b q) \<and> p_property (pages ?b q) = k" using kq lists_ok_props(3,4)[OF l, of k q] by simp
    show "\<exists>z. good_blk zl ?b z q k" using kq lists_ok_props(5)[OF l] same_zones_good[OF sz] by simp
  next
    have l: "lists_ok zl (bd m)" using m by (auto simp: frames_ok_def buddy_ok_def)
    fix k q k' q' assume "(k, q) \<in> free_blocks ?b" "(k', q') \<in> free_blocks ?b" "(k, q) \<noteq> (k', q')"
    then show "blk q k \<inter> blk q' k' = {}" using lists_ok_disjoint[OF l] by simp
  next
    have l: "lists_ok zl (bd m)" using m by (auto simp: frames_ok_def buddy_ok_def)
    fix q assume "q \<in> managed zl ?b" "PageProperty (pages ?b q)"
    then show "(p_property (pages ?b q), q) \<in> free_blocks ?b"
      using np f(2) lists_ok_head[OF l, of q] same_zones_managed[OF sz] by (auto split: if_splits)
  qed
  ultimately have "buddy_ok zl ?b" by (simp add: buddy_ok_def)
  then show ?thesis using m p same_zones_managed[OF sz] by (auto simp: frames_ok_def)
qed

lemma frames_alloc:
  assumes "frames_ok zl m"
  shows "alloc_page m = Some (None, m) \<and> free_set (bd m) = {} \<or>
    (\<exists>p m'. alloc_page m = Some (Some p, m') \<and> m' = m\<lparr>bd := bd m'\<rparr> \<and> frames_ok zl m' \<and> managed zl (bd m') = managed zl (bd m)
      \<and> p \<in> free_set (bd m) \<and> p \<in> managed zl (bd m) \<and> free_set (bd m') = free_set (bd m) - {p}
      \<and> (\<forall>q. q \<notin> free_set (bd m) \<longrightarrow> pg m' q = pg m q) \<and> (\<forall>q. quiet (pg m q) (pg m' q)))"
proof -
  from assms have ok: "buddy_ok zl (bd m)" and cl: "\<And>q. q \<in> free_set (bd m) \<Longrightarrow> \<not> PageSwap (pg m q) \<and> p_ref (pg m q) = 0"
    by (auto simp: frames_ok_def)
  obtain k where k: "getorder 1 = Some k" using getorder_total[of 1] by auto
  have k0: "k = 0"
  proof (rule ccontr)
    assume "k \<noteq> 0"
    then show False using getorder_least[OF k, of 0] by simp
  qed
  have mg: "free_set (bd m) \<subseteq> managed zl (bd m)" using ok free_set_managed by (auto simp: buddy_ok_def)
  show ?thesis
  proof (cases "\<forall>j. k \<le> j \<and> j \<le> MAX_ORDER \<longrightarrow> free_list (bd m) j = []")
    case True
    moreover from this k0 have "free_set (bd m) = {}" by (auto simp: free_set_def free_blocks_def)
    ultimately show ?thesis using buddy_alloc_result[OF ok, of 1 k] k by (simp add: alloc_pages_def)
  next
    case False
    with buddy_alloc_result[OF ok, of 1 k] k obtain p b' where
      b: "buddy_alloc_pages 1 (bd m) = Some (Some p, b')" "buddy_ok zl b'" "same_zones (bd m) b'"
        "{p..<p + 1} \<subseteq> free_set (bd m)" "free_set b' = free_set (bd m) - {p..<p + 1}" by auto
    note t = touched_alloc[OF ok b(1)]
    have fr: "frames_ok zl (m\<lparr>bd := b'\<rparr>)"
      unfolding frames_ok_def using b(2) cl t by (auto simp: b(5) touched_def quiet_def pg_def)
    have "alloc_page m = Some (Some p, m\<lparr>bd := b'\<rparr>)" using b(1) by (simp add: alloc_pages_def)
    moreover have "\<forall>q. q \<notin> free_set (bd m) \<longrightarrow> pg (m\<lparr>bd := b'\<rparr>) q = pg m q" "\<forall>q. quiet (pg m q) (pg (m\<lparr>bd := b'\<rparr>) q)"
      using t by (auto simp: touched_def pg_def)
    ultimately show ?thesis using fr b(4,5) same_zones_managed[OF b(3)] mg
      by (intro disjI2 exI[of _ p] exI[of _ "m\<lparr>bd := b'\<rparr>"]) auto
  qed
qed

lemma frames_free:
  assumes m: "frames_ok zl m" and p: "p \<in> managed zl (bd m)" "p \<notin> free_set (bd m)"
  obtains m' where "free_page p m = Some m'" "m' = m\<lparr>bd := bd m'\<rparr>" "frames_ok zl m'" "managed zl (bd m') = managed zl (bd m)"
    "free_set (bd m') = insert p (free_set (bd m))" "\<forall>q. q \<notin> free_set (bd m) \<and> q \<noteq> p \<longrightarrow> pg m' q = pg m q"
    "\<not> PageSwap (pg m' p)" "\<forall>q. q \<noteq> p \<longrightarrow> quiet (pg m q) (pg m' q)"
proof -
  from m have ok: "buddy_ok zl (bd m)" and cl: "\<And>q. q \<in> free_set (bd m) \<Longrightarrow> \<not> PageSwap (pg m q) \<and> p_ref (pg m q) = 0"
    by (auto simp: frames_ok_def)
  note u = in_use1[OF p]
  from free_pages_ok[OF ok u] obtain b' where b: "buddy_free_pages p 1 (bd m) = Some b'" "buddy_ok zl b'" "same_zones (bd m) b'"
    "free_set b' = insert p (free_set (bd m))" by (auto simp: freed_prefix_def)
  note t = touched_free[OF ok u b(1)]
  have np: "\<not> PageSwap (pages b' p)" "p_ref (pages b' p) = 0" using t(3) by (simp_all add: quiet_def)
  have "frames_ok zl (m\<lparr>bd := b'\<rparr>)"
    unfolding frames_ok_def
  proof (intro conjI ballI)
    fix q assume "q \<in> free_set (bd (m\<lparr>bd := b'\<rparr>))"
    then show "\<not> PageSwap (pg (m\<lparr>bd := b'\<rparr>) q)" "p_ref (pg (m\<lparr>bd := b'\<rparr>) q) = 0"
      using np cl t(2) by (cases "q = p"; auto simp: b(4) quiet_def pg_def)+
  qed (simp add: b(2))
  moreover have "free_page p m = Some (m\<lparr>bd := b'\<rparr>)" using b(1) by (simp add: free_pages_def)
  ultimately show ?thesis
    using that[of "m\<lparr>bd := b'\<rparr>"] b(4) t np same_zones_managed[OF b(3)] by (simp add: pg_def)
qed

section \<open>Elementary steps\<close>

lemma cached_upd:
  assumes "frames_ok zl m" "p \<in> managed zl (bd m)" "p \<notin> free_set (bd m)"
    and "\<And>q. p_zone_num (f q) = p_zone_num q" "\<And>q. PageProperty (f q) = PageProperty q" "\<And>q. PageReserved (f q) = PageReserved q"
  shows "cached zl (upd_pg p f m) = (if PageSwap (f (pg m p)) then insert p (cached zl m) else cached zl m - {p})"
  using frames_upd[OF assms] assms(2) unfolding cached_def by auto

text \<open>A descriptor update of a used page that leaves what the cache reads.\<close>

lemma inv_upd:
  assumes i: "swap_inv zl X Q m" and p: "p \<in> managed zl (bd m)" "p \<notin> free_set (bd m)"
    and f: "\<And>q. p_zone_num (f q) = p_zone_num q" "\<And>q. PageProperty (f q) = PageProperty q" "\<And>q. PageReserved (f q) = PageReserved q"
      "\<And>q. PageSwap (f q) = PageSwap q" "\<And>q. PageActive (f q) = PageActive q" "\<And>q. p_index (f q) = p_index q"
  shows "swap_inv zl X Q (upd_pg p f m)"
proof (rule swap_inv_cong[OF i])
  have m: "frames_ok zl m" using i by (simp add: swap_inv_def)
  show "frames_ok zl (upd_pg p f m)" using frames_upd[OF m p f(1-3)] by blast
  show "cached zl (upd_pg p f m) = cached zl m" using cached_upd[OF m p f(1-3)] p by (auto simp: cached_def f(4))
qed (simp_all add: f)

lemma inv_frames: "swap_inv zl X Q m \<Longrightarrow> frames_ok zl m"
  by (simp add: swap_inv_def)

lemma cached_used: "swap_inv zl X Q m \<Longrightarrow> p \<in> cached zl m \<Longrightarrow> p \<in> managed zl (bd m) \<and> p \<notin> free_set (bd m) \<and> PageSwap (pg m p)"
  using frames_ok_free[of zl m p] inv_frames by (auto simp: cached_def)

lemma list_del_ok:
  assumes i: "swap_inv zl X Q m" and p: "p \<in> cached zl m" "p \<notin> X"
  obtains m' where "swap_list_del p m = Some m'" "swap_inv zl (insert p X) Q m'"
    "m' = m\<lparr>active_list := remove1 p (active_list m), nr_active_pages := nr_active_pages m',
      inactive_list := remove1 p (inactive_list m), nr_inactive_pages := nr_inactive_pages m'\<rparr>"
proof -
  define m' where "m' = (if PageActive (pg m p) then m\<lparr>nr_active_pages := nr_active_pages m - 1\<rparr>
       else m\<lparr>nr_inactive_pages := nr_inactive_pages m - 1\<rparr>)
     \<lparr>active_list := remove1 p (active_list m), inactive_list := remove1 p (inactive_list m)\<rparr>"
  from i have l: "distinct (active_list m @ inactive_list m)" "set (active_list m) \<union> set (inactive_list m) = cached zl m - X"
    "nr_active_pages m = length (active_list m)" "nr_inactive_pages m = length (inactive_list m)"
    "\<forall>p \<in> set (active_list m). PageActive (pg m p)" "\<forall>p \<in> set (inactive_list m). \<not> PageActive (pg m p)"
    by (auto simp: swap_inv_def lists_ok_swap_def)
  have run: "swap_list_del p m = Some m'"
    using cached_used[OF i p(1)] by (simp add: swap_list_del_def m'_def Let_def)
  have f: "bd m' = bd m" "swap_hash m' = swap_hash m" "mem_map m' = mem_map m" "max_swap_offset m' = max_swap_offset m"
    "swap_next m' = swap_next m" "active_list m' = remove1 p (active_list m)" "inactive_list m' = remove1 p (inactive_list m)"
    "nr_active_pages m' = (if PageActive (pg m p) then nr_active_pages m - 1 else nr_active_pages m)"
    "nr_inactive_pages m' = (if PageActive (pg m p) then nr_inactive_pages m else nr_inactive_pages m - 1)"
    by (simp_all add: m'_def)
  then have pgs: "pg m' = pg m" and c: "cached zl m' = cached zl m" by (simp_all add: pg_def cached_def fun_eq_iff)
  have "lists_ok_swap zl (insert p X) m'"
  proof -
    have "p \<in> set (active_list m) \<union> set (inactive_list m)" using l(2) p by blast
    then have "PageActive (pg m p) \<longleftrightarrow> p \<in> set (active_list m)" "PageActive (pg m p) \<longleftrightarrow> p \<notin> set (inactive_list m)"
      using l(5,6) by blast+
    then show ?thesis
      using l unfolding lists_ok_swap_def f pgs c by (auto simp: length_remove1)
  qed
  then have "swap_inv zl (insert p X) Q m'"
    using i p f pgs c unfolding swap_inv_def by (simp add: frames_ok_def hash_ok_def entries_ok_def scan_ok_def valid_off_def)
  then show ?thesis using run by (intro that[of m']) (simp_all add: m'_def)
qed

lemma list_add_ok:
  assumes i: "swap_inv zl X Q m" and p: "p \<in> X"
  shows "\<exists>m'. swap_active_list_add p m = Some m' \<and> swap_inv zl (X - {p}) Q m' \<and>
      m' = (upd_pg p SetPageActive m)\<lparr>nr_active_pages := nr_active_pages m', active_list := active_list m @ [p]\<rparr>"
    and "\<exists>m'. swap_inactive_list_add p m = Some m' \<and> swap_inv zl (X - {p}) Q m' \<and>
      m' = (upd_pg p ClearPageActive m)\<lparr>nr_inactive_pages := nr_inactive_pages m', inactive_list := inactive_list m @ [p]\<rparr>"
proof -
  have pc: "p \<in> cached zl m" using i p by (auto simp: swap_inv_def)
  note u = cached_used[OF i pc]
  from i have l: "distinct (active_list m @ inactive_list m)" "set (active_list m) \<union> set (inactive_list m) = cached zl m - X"
    "nr_active_pages m = length (active_list m)" "nr_inactive_pages m = length (inactive_list m)"
    "\<forall>p \<in> set (active_list m). PageActive (pg m p)" "\<forall>p \<in> set (inactive_list m). \<not> PageActive (pg m p)"
    by (auto simp: swap_inv_def lists_ok_swap_def)
  then have np: "p \<notin> set (active_list m)" "p \<notin> set (inactive_list m)" using p by blast+
  have fr: "frames_ok zl (upd_pg p (SetPageFlag PG_active) m)" "frames_ok zl (upd_pg p (ClearPageFlag PG_active) m)"
    "managed zl (bd (upd_pg p (SetPageFlag PG_active) m)) = managed zl (bd m)"
    "managed zl (bd (upd_pg p (ClearPageFlag PG_active) m)) = managed zl (bd m)"
    using u inv_frames[OF i] frames_upd[of zl m p "SetPageFlag PG_active"] frames_upd[of zl m p "ClearPageFlag PG_active"] by simp_all
  have swp: "PageSwap (pg (upd_pg p (SetPageFlag PG_active) m) q) = PageSwap (pg m q)"
    "PageSwap (pg (upd_pg p (ClearPageFlag PG_active) m) q) = PageSwap (pg m q)"
    "p_index (pg (upd_pg p (SetPageFlag PG_active) m) q) = p_index (pg m q)"
    "p_index (pg (upd_pg p (ClearPageFlag PG_active) m) q) = p_index (pg m q)" for q by simp_all
  show "\<exists>m'. swap_active_list_add p m = Some m' \<and> swap_inv zl (X - {p}) Q m' \<and>
      m' = (upd_pg p SetPageActive m)\<lparr>nr_active_pages := nr_active_pages m', active_list := active_list m @ [p]\<rparr>"
  proof -
    define m' where "m' = (upd_pg p SetPageActive m)\<lparr>nr_active_pages := nr_active_pages m + 1, active_list := active_list m @ [p]\<rparr>"
    have f: "bd m' = bd (upd_pg p SetPageActive m)" "swap_hash m' = swap_hash m" "mem_map m' = mem_map m" "max_swap_offset m' = max_swap_offset m"
      "swap_next m' = swap_next m" "active_list m' = active_list m @ [p]" "inactive_list m' = inactive_list m"
      "nr_active_pages m' = nr_active_pages m + 1" "nr_inactive_pages m' = nr_inactive_pages m" by (simp_all add: m'_def)
    have pgs: "pg m' = pg (upd_pg p SetPageActive m)" unfolding pg_def f ..
    have c: "cached zl m' = cached zl m" unfolding cached_def f fr pgs swp ..
    have "lists_ok_swap zl (X - {p}) m'" using l np p pc unfolding lists_ok_swap_def f c pgs by auto
    then have "swap_inv zl (X - {p}) Q m'"
      using i fr(1) unfolding swap_inv_def hash_ok_def entries_ok_def scan_ok_def valid_off_def c pgs swp f
      by (auto simp: frames_ok_def pgs f)
    moreover have "swap_active_list_add p m = Some m'" using u by (simp add: swap_active_list_add_def m'_def)
    ultimately show ?thesis by (intro exI[of _ m']) (simp add: m'_def)
  qed
  show "\<exists>m'. swap_inactive_list_add p m = Some m' \<and> swap_inv zl (X - {p}) Q m' \<and>
      m' = (upd_pg p ClearPageActive m)\<lparr>nr_inactive_pages := nr_inactive_pages m', inactive_list := inactive_list m @ [p]\<rparr>"
  proof -
    define m' where "m' = (upd_pg p ClearPageActive m)\<lparr>nr_inactive_pages := nr_inactive_pages m + 1, inactive_list := inactive_list m @ [p]\<rparr>"
    have f: "bd m' = bd (upd_pg p ClearPageActive m)" "swap_hash m' = swap_hash m" "mem_map m' = mem_map m" "max_swap_offset m' = max_swap_offset m"
      "swap_next m' = swap_next m" "inactive_list m' = inactive_list m @ [p]" "active_list m' = active_list m"
      "nr_inactive_pages m' = nr_inactive_pages m + 1" "nr_active_pages m' = nr_active_pages m" by (simp_all add: m'_def)
    have pgs: "pg m' = pg (upd_pg p ClearPageActive m)" unfolding pg_def f ..
    have c: "cached zl m' = cached zl m" unfolding cached_def f fr pgs swp ..
    have "lists_ok_swap zl (X - {p}) m'" using l np p pc unfolding lists_ok_swap_def f c pgs by auto
    then have "swap_inv zl (X - {p}) Q m'"
      using i fr(2) unfolding swap_inv_def hash_ok_def entries_ok_def scan_ok_def valid_off_def c pgs swp f
      by (auto simp: frames_ok_def pgs f)
    moreover have "swap_inactive_list_add p m = Some m'" using u by (simp add: swap_inactive_list_add_def m'_def)
    ultimately show ?thesis by (intro exI[of _ m']) (simp add: m'_def)
  qed
qed

text \<open>A page leaves the cache; its entry is being changed.\<close>

lemma page_del_ok:
  assumes i: "swap_inv zl X Q m" and p: "p \<in> X" "p_index (pg m p) = entry_of off" "valid_off m off" "off \<in> Q"
  obtains m' where "swap_page_del p m = Some m'" "swap_inv zl (X - {p}) Q m'" "cached zl m' = cached zl m - {p}"
    "m' = (upd_pg p ClearPageSwap m)\<lparr>swap_hash := swap_hash m'\<rparr>"
    "managed zl (bd m') = managed zl (bd m)" "free_set (bd m') = free_set (bd m)"
proof -
  have pc: "p \<in> cached zl m" using i p by (auto simp: swap_inv_def)
  note u = cached_used[OF i pc]
  let ?h = "entry_hashfn (p_index (pg m p))"
  define m' where "m' = (upd_pg p ClearPageSwap m)\<lparr>swap_hash := (swap_hash m)(?h := remove1 p (swap_hash m ?h))\<rparr>"
  have run: "swap_page_del p m = Some m'" using u by (simp add: swap_page_del_def m'_def Let_def)
  have f: "bd m' = bd (upd_pg p ClearPageSwap m)" "mem_map m' = mem_map m" "max_swap_offset m' = max_swap_offset m"
    "swap_next m' = swap_next m" "inactive_list m' = inactive_list m" "active_list m' = active_list m"
    "nr_inactive_pages m' = nr_inactive_pages m" "nr_active_pages m' = nr_active_pages m"
    "swap_hash m' = (swap_hash m)(?h := remove1 p (swap_hash m ?h))" by (simp_all add: m'_def)
  have pgs: "pg m' = pg (upd_pg p ClearPageSwap m)" unfolding pg_def f ..
  have fr: "frames_ok zl (upd_pg p ClearPageSwap m)" "managed zl (bd (upd_pg p ClearPageSwap m)) = managed zl (bd m)"
    "free_set (bd (upd_pg p ClearPageSwap m)) = free_set (bd m)"
    using frames_upd[OF inv_frames[OF i], of p "ClearPageFlag PG_swap"] u by auto
  have c: "cached zl m' = cached zl m - {p}"
  proof -
    have "cached zl (upd_pg p ClearPageSwap m) = cached zl m - {p}"
      using cached_upd[OF inv_frames[OF i], of p "ClearPageFlag PG_swap"] u by auto
    then show ?thesis unfolding cached_def f pgs .
  qed
  have same: "p_index (pg m' q) = p_index (pg m q)" "PageActive (pg m' q) = PageActive (pg m q)" for q unfolding pgs by simp_all
  have "lists_ok_swap zl (X - {p}) m'"
    using i p(1) unfolding swap_inv_def lists_ok_swap_def c same f by auto
  moreover have "hash_ok zl m'"
    using i unfolding swap_inv_def hash_ok_def c same f by auto
  moreover have "entries_ok zl Q m'"
  proof -
    have inj: "inj_on (\<lambda>p. p_index (pg m p)) (cached zl m)" using i by (simp add: swap_inv_def entries_ok_def)
    then have inj': "inj_on (\<lambda>q. p_index (pg m' q)) (cached zl m')" unfolding same c by (rule inj_on_subset) auto
    have "q \<noteq> p" if "valid_off m o'" "o' \<notin> Q" "p_index (pg m q) = entry_of o'" for q o'
      using that p(2-4) entry_of_inj[of m off o'] i by (auto simp: swap_inv_def)
    moreover have v: "valid_off m' = valid_off m" by (simp add: valid_off_def f fun_eq_iff)
    ultimately show ?thesis
      using i inj' unfolding swap_inv_def entries_ok_def c same f v by blast
  qed
  moreover have "frames_ok zl m'" using fr(1) unfolding frames_ok_def f pgs .
  ultimately have "swap_inv zl (X - {p}) Q m'"
    using i unfolding swap_inv_def c scan_ok_def valid_off_def f by auto
  then show ?thesis using run c fr f by (intro that[of m']) (simp_all add: m'_def)
qed

lemma like_bd: "m' = m\<lparr>bd := bd m'\<rparr> \<Longrightarrow> like m m'"
  by (metis like_upd_pg(2))

lemma inv_free:
  assumes i: "swap_inv zl X Q m" and p: "p \<in> managed zl (bd m)" "p \<notin> free_set (bd m)" "p \<notin> cached zl m"
  obtains m' where "free_page p m = Some m'" "m' = m\<lparr>bd := bd m'\<rparr>" "swap_inv zl X Q m'" "managed zl (bd m') = managed zl (bd m)"
    "cached zl m' = cached zl m" "free_set (bd m') = insert p (free_set (bd m))"
    "\<forall>q. q \<notin> free_set (bd m) \<and> q \<noteq> p \<longrightarrow> pg m' q = pg m q"
proof -
  obtain m' where m': "free_page p m = Some m'" "m' = m\<lparr>bd := bd m'\<rparr>" "frames_ok zl m'" "managed zl (bd m') = managed zl (bd m)"
    "free_set (bd m') = insert p (free_set (bd m))" "\<forall>q. q \<notin> free_set (bd m) \<and> q \<noteq> p \<longrightarrow> pg m' q = pg m q"
    "\<not> PageSwap (pg m' p)" "\<forall>q. q \<noteq> p \<longrightarrow> quiet (pg m q) (pg m' q)"
    by (rule frames_free[OF inv_frames[OF i] p(1,2)])
  have c: "cached zl m' = cached zl m"
    using m'(4,7,8) p(3) unfolding cached_def quiet_def by (auto simp: set_eq_iff)
  have "p_index (pg m' q) = p_index (pg m q) \<and> PageActive (pg m' q) = PageActive (pg m q)" if "q \<in> cached zl m" for q
    using m'(8) that p(3) unfolding quiet_def by (metis pg_flag.distinct(17))
  from swap_inv_cong[OF i like_bd[OF m'(2)] m'(3) c this] that m' c show ?thesis by blast
qed

lemma inv_alloc:
  assumes i: "swap_inv zl X Q m"
  shows "alloc_page m = Some (None, m) \<and> free_set (bd m) = {} \<or>
    (\<exists>p m'. alloc_page m = Some (Some p, m') \<and> m' = m\<lparr>bd := bd m'\<rparr> \<and> swap_inv zl X Q m' \<and> managed zl (bd m') = managed zl (bd m)
      \<and> p \<in> free_set (bd m) \<and> p \<in> managed zl (bd m) \<and> p \<notin> cached zl m' \<and> cached zl m' = cached zl m
      \<and> free_set (bd m') = free_set (bd m) - {p}
      \<and> (\<forall>q. q \<notin> free_set (bd m) \<longrightarrow> pg m' q = pg m q) \<and> p_ref (pg m' p) = 0)"
proof -
  have fr: "frames_ok zl m" by (rule inv_frames[OF i])
  from frames_alloc[OF fr] show ?thesis
  proof
    assume "\<exists>p m'. alloc_page m = Some (Some p, m') \<and> m' = m\<lparr>bd := bd m'\<rparr> \<and> frames_ok zl m' \<and> managed zl (bd m') = managed zl (bd m)
      \<and> p \<in> free_set (bd m) \<and> p \<in> managed zl (bd m) \<and> free_set (bd m') = free_set (bd m) - {p}
      \<and> (\<forall>q. q \<notin> free_set (bd m) \<longrightarrow> pg m' q = pg m q) \<and> (\<forall>q. quiet (pg m q) (pg m' q))"
    then obtain p m' where m': "alloc_page m = Some (Some p, m')" "m' = m\<lparr>bd := bd m'\<rparr>" "frames_ok zl m'"
      "managed zl (bd m') = managed zl (bd m)" "p \<in> free_set (bd m)" "p \<in> managed zl (bd m)" "free_set (bd m') = free_set (bd m) - {p}"
      "\<forall>q. q \<notin> free_set (bd m) \<longrightarrow> pg m' q = pg m q" "\<forall>q. quiet (pg m q) (pg m' q)" by blast
    have c: "cached zl m' = cached zl m" using m'(4,9) unfolding cached_def quiet_def by auto
    have d: "p_index (pg m' q) = p_index (pg m q) \<and> PageActive (pg m' q) = PageActive (pg m q)" if "q \<in> cached zl m" for q
      using m'(9) unfolding quiet_def by simp
    have z: "p_ref (pg m' p) = 0" "p \<notin> cached zl m" using m'(5,9) fr unfolding quiet_def frames_ok_def cached_def by auto
    from swap_inv_cong[OF i like_bd[OF m'(2)] m'(3) c d] m' c z show ?thesis by metis
  qed simp
qed

text \<open>\<open>swap_free_page\<close> of a page off the lists.\<close>

lemma free_swap_page_ok:
  assumes i: "swap_inv zl X Q m" and p: "p \<in> X" "p_index (pg m p) = entry_of off" "valid_off m off" "off \<in> Q" "page_ref m p = 0"
  obtains m' where "swap_free_page p m = Some m'" "swap_inv zl (X - {p}) Q m'" "cached zl m' = cached zl m - {p}"
    "m' = m\<lparr>bd := bd m', swap_hash := swap_hash m'\<rparr>" "managed zl (bd m') = managed zl (bd m)"
    "free_set (bd m') = insert p (free_set (bd m))" "\<forall>q. q \<notin> free_set (bd m) \<and> q \<noteq> p \<longrightarrow> pg m' q = pg m q"
proof -
  have pc: "p \<in> cached zl m" using i p by (auto simp: swap_inv_def)
  note u = cached_used[OF i pc]
  obtain m1 where m1: "swap_page_del p m = Some m1" "swap_inv zl (X - {p}) Q m1" "cached zl m1 = cached zl m - {p}"
    "m1 = (upd_pg p ClearPageSwap m)\<lparr>swap_hash := swap_hash m1\<rparr>"
    "managed zl (bd m1) = managed zl (bd m)" "free_set (bd m1) = free_set (bd m)"
    by (rule page_del_ok[OF i p(1-4)])
  obtain m' where m': "free_page p m1 = Some m'" "m' = m1\<lparr>bd := bd m'\<rparr>" "swap_inv zl (X - {p}) Q m'" "managed zl (bd m') = managed zl (bd m1)"
    "cached zl m' = cached zl m1" "free_set (bd m') = insert p (free_set (bd m1))"
    "\<forall>q. q \<notin> free_set (bd m1) \<and> q \<noteq> p \<longrightarrow> pg m' q = pg m1 q"
    by (rule inv_free[OF m1(2)]) (use u m1 in auto)
  have "swap_free_page p m = Some m'" using u p(5) m1(1) m'(1) by (simp add: swap_free_page_def)
  moreover have "pg m1 q = pg m q" if "q \<noteq> p" for q
  proof -
    have "bd m1 = upd_page p ClearPageSwap (bd m)" by (subst m1(4)) simp
    then show ?thesis using that by (simp add: pg_def)
  qed
  moreover have "m' = m\<lparr>bd := bd m', swap_hash := swap_hash m'\<rparr>"
  proof -
    have "m' = (upd_pg p ClearPageSwap m)\<lparr>swap_hash := swap_hash m1, bd := bd m'\<rparr>" using m'(2) m1(4) by (metis (no_types, lifting))
    then have "m' = m\<lparr>swap_hash := swap_hash m1, bd := bd m'\<rparr>" by (simp add: upd_pg_def)
    moreover from this have "swap_hash m' = swap_hash m1" by (metis mem.select_convs(9) mem.surjective mem.update_convs(1,9))
    ultimately show ?thesis by (cases m; cases m') simp
  qed
  ultimately show ?thesis using that[of m'] m'(3-7) m1(3,5,6) by metis
qed

text \<open>Changing the count of an entry.\<close>

lemma set_mem_map_fields [simp]:
  "bd (set_mem_map off v m) = bd m" "pg (set_mem_map off v m) = pg m" "cached zl (set_mem_map off v m) = cached zl m"
  "mem_map (set_mem_map off v m) = (mem_map m)(off := v)" "max_swap_offset (set_mem_map off v m) = max_swap_offset m"
  "valid_off (set_mem_map off v m) = valid_off m" "scan_ok (set_mem_map off v m) = scan_ok m"
  "active_list (set_mem_map off v m) = active_list m" "inactive_list (set_mem_map off v m) = inactive_list m"
  "nr_active_pages (set_mem_map off v m) = nr_active_pages m" "nr_inactive_pages (set_mem_map off v m) = nr_inactive_pages m"
  "words (set_mem_map off v m) = words m" "disk (set_mem_map off v m) = disk m" "swap_hash (set_mem_map off v m) = swap_hash m"
  "page_ref (set_mem_map off v m) = page_ref m" "swap_offset e (set_mem_map off v m) = swap_offset e m"
  "swap_hash_find e (set_mem_map off v m) = swap_hash_find e m" "swap_next (set_mem_map off v m) = swap_next m"
  by (simp_all add: set_mem_map_def pg_def cached_def valid_off_def scan_ok_def page_ref_def swap_offset_def swap_hash_find_def fun_eq_iff)

lemma inv_open: "swap_inv zl X Q m \<Longrightarrow> swap_inv zl X (insert off Q) (set_mem_map off v m)"
  by (auto simp: swap_inv_def frames_ok_def lists_ok_swap_def hash_ok_def entries_ok_def)

lemma inv_weaken: "swap_inv zl X Q m \<Longrightarrow> Q \<subseteq> Q' \<Longrightarrow> swap_inv zl X Q' m"
  unfolding swap_inv_def entries_ok_def by blast

lemma inv_close:
  assumes i: "swap_inv zl X (insert off Q) m" and off: "valid_off m off"
    and v: "v = SWAP_UNUSED \<Longrightarrow> \<forall>p \<in> cached zl m. p_index (pg m p) \<noteq> entry_of off"
      "v = 0 \<Longrightarrow> \<exists>p \<in> cached zl m. p_index (pg m p) = entry_of off"
  shows "swap_inv zl X Q (set_mem_map off v m)"
proof -
  have sc: "scan_ok m" using i by (simp add: swap_inv_def)
  have e: "entries_ok zl (insert off Q) m" using i by (simp add: swap_inv_def)
  have "entries_ok zl Q (set_mem_map off v m)"
    unfolding entries_ok_def set_mem_map_fields
  proof (intro conjI ballI allI impI)
    show "inj_on (\<lambda>p. p_index (pg m p)) (cached zl m)" using e by (simp add: entries_ok_def)
    fix p assume p: "p \<in> cached zl m"
    then obtain o' where o': "valid_off m o'" "p_index (pg m p) = entry_of o'" "o' = off \<or> o' \<in> Q \<or> mem_map m o' \<noteq> SWAP_UNUSED"
      using e unfolding entries_ok_def by blast
    then show "\<exists>o'. valid_off m o' \<and> p_index (pg m p) = entry_of o' \<and> (o' \<in> Q \<or> ((mem_map m)(off := v)) o' \<noteq> SWAP_UNUSED)"
      using v(1) p by (intro exI[of _ o']) auto
  next
    fix o' assume "valid_off m o'" "o' \<notin> Q" "((mem_map m)(off := v)) o' = 0"
    then show "\<exists>p \<in> cached zl m. p_index (pg m p) = entry_of o'"
      using v(2) e unfolding entries_ok_def by (cases "o' = off") auto
  qed
  then show ?thesis using i by (simp add: swap_inv_def frames_ok_def lists_ok_swap_def hash_ok_def)
qed

text \<open>A positive, used count replaced by another positive one.\<close>

lemma inv_count:
  assumes "swap_inv zl X Q m" "valid_off m off" "v \<noteq> 0" "v \<noteq> SWAP_UNUSED"
  shows "swap_inv zl X Q (set_mem_map off v m)"
  using inv_close[OF inv_weaken[OF assms(1)] assms(2)] assms(3,4) by blast

text \<open>A page enters the cache.\<close>

lemma page_link_ok:
  assumes i: "swap_inv zl X Q m" and p: "p \<in> managed zl (bd m)" "p \<notin> free_set (bd m)" "p \<notin> cached zl m"
    and off: "valid_off m off" "off \<in> Q" "\<forall>q \<in> cached zl m. p_index (pg m q) \<noteq> entry_of off"
  defines "m' \<equiv> swap_page_link p (entry_of off) m"
  shows "swap_inv zl (insert p X) Q m' \<and> cached zl m' = insert p (cached zl m) \<and> managed zl (bd m') = managed zl (bd m)
    \<and> free_set (bd m') = free_set (bd m)
    \<and> m' = (upd_pg p (\<lambda>q. (SetPageSwap q)\<lparr>p_index := entry_of off\<rparr>) m)\<lparr>swap_hash := swap_hash m'\<rparr>"
proof -
  let ?f = "\<lambda>q. (SetPageFlag PG_swap q)\<lparr>p_index := entry_of off\<rparr>" and ?h = "entry_hashfn (entry_of off)"
  have f: "bd m' = bd (upd_pg p ?f m)" "mem_map m' = mem_map m" "max_swap_offset m' = max_swap_offset m"
    "swap_next m' = swap_next m" "inactive_list m' = inactive_list m" "active_list m' = active_list m"
    "nr_inactive_pages m' = nr_inactive_pages m" "nr_active_pages m' = nr_active_pages m"
    "swap_hash m' = (swap_hash m)(?h := p # swap_hash m ?h)" by (simp_all add: m'_def swap_page_link_def Let_def)
  have pgs: "pg m' = pg (upd_pg p ?f m)" unfolding pg_def f ..
  have fr: "frames_ok zl (upd_pg p ?f m)" "managed zl (bd (upd_pg p ?f m)) = managed zl (bd m)"
    "free_set (bd (upd_pg p ?f m)) = free_set (bd m)"
    using frames_upd[OF inv_frames[OF i] p(1,2), of ?f] by auto
  have c: "cached zl m' = insert p (cached zl m)"
  proof -
    have "cached zl (upd_pg p ?f m) = insert p (cached zl m)"
      using cached_upd[OF inv_frames[OF i] p(1,2), of ?f] by simp
    then show ?thesis unfolding cached_def f pgs .
  qed
  have idx: "p_index (pg m' q) = (if q = p then entry_of off else p_index (pg m q))"
    "q \<noteq> p \<Longrightarrow> PageActive (pg m' q) = PageActive (pg m q)" for q unfolding pgs by simp_all
  have "lists_ok_swap zl (insert p X) m'"
  proof -
    have "q \<noteq> p" if "q \<in> set (active_list m) \<union> set (inactive_list m)" for q
      using that i p(3) by (auto simp: swap_inv_def lists_ok_swap_def)
    then have "PageActive (pg m' q) = PageActive (pg m q)" if "q \<in> set (active_list m) \<union> set (inactive_list m)" for q
      using that idx(2) by blast
    then show ?thesis
      using i p(3) unfolding swap_inv_def lists_ok_swap_def c f by auto
  qed
  moreover have "hash_ok zl m'"
    unfolding hash_ok_def
  proof (intro allI conjI)
    fix h
    have h: "distinct (swap_hash m h)" "set (swap_hash m h) = {q \<in> cached zl m. entry_hashfn (p_index (pg m q)) = h}"
      using i by (auto simp: swap_inv_def hash_ok_def)
    show "distinct (swap_hash m' h)" using h p(3) by (cases "h = ?h") (auto simp: f)
    show "set (swap_hash m' h) = {q \<in> cached zl m'. entry_hashfn (p_index (pg m' q)) = h}"
      using h p(3) unfolding f c idx by auto
  qed
  moreover have "entries_ok zl Q m'"
  proof -
    have e: "inj_on (\<lambda>q. p_index (pg m q)) (cached zl m)" using i by (simp add: swap_inv_def entries_ok_def)
    have "inj_on (\<lambda>q. p_index (pg m' q)) (cached zl m')"
      unfolding c inj_on_def idx using e off(3) p(3) by (auto simp: inj_on_def split: if_splits)
    moreover have v: "valid_off m' = valid_off m" by (simp add: valid_off_def f fun_eq_iff)
    ultimately show ?thesis
      using i off(1,2) p(3) unfolding swap_inv_def entries_ok_def c idx f v by auto
  qed
  moreover have "frames_ok zl m'" using fr(1) unfolding frames_ok_def f pgs .
  ultimately have "swap_inv zl (insert p X) Q m'"
    using i unfolding swap_inv_def c scan_ok_def valid_off_def f by auto
  then show ?thesis using c fr f by (simp add: m'_def swap_page_link_def Let_def)
qed

section \<open>Operations\<close>

definition scan_set :: "nat \<Rightarrow> nat \<Rightarrow> nat \<Rightarrow> nat set" where
  "scan_set M n e = (if n < e then {n..<e} else {n..<M} \<union> {1..<e})"

lemma alloc_scan_ok:
  assumes "scan_ok m" "valid_off m e"
  shows "\<exists>empty z n. alloc_scan e zero m = Some (empty, z, m\<lparr>swap_next := n\<rparr>) \<and> valid_off m n \<and>
    (if empty \<noteq> 0 then valid_off m empty \<and> mem_map m empty = SWAP_UNUSED
     else (\<forall>k \<in> scan_set (max_swap_offset m) (swap_next m) e. mem_map m k \<noteq> SWAP_UNUSED) \<and>
       (if z = 0 then zero = 0 \<and> (\<forall>k \<in> scan_set (max_swap_offset m) (swap_next m) e. mem_map m k \<noteq> 0)
        else z = zero \<or> valid_off m z \<and> mem_map m z = 0))"
  using assms
proof (induction "if swap_next m < e then e - swap_next m else max_swap_offset m - swap_next m + (e - 1)" arbitrary: m zero rule: less_induct)
  case less
  let ?M = "max_swap_offset m" and ?n = "swap_next m"
  let ?n1 = "if ?n + 1 = ?M then 1 else ?n + 1" and ?z = "if mem_map m ?n = 0 \<and> zero = 0 then ?n else zero"
  let ?m = "m\<lparr>swap_next := ?n1\<rparr>"
  have n: "0 < ?n" "?n < ?M" "0 < e" "e < ?M" using less.prems by (auto simp: scan_ok_def valid_off_def)
  have v1: "valid_off m ?n1" using n by (auto simp: valid_off_def)
  show ?case
  proof (cases "mem_map m ?n = SWAP_UNUSED")
    case True
    then have "alloc_scan e zero m = Some (?n, ?z, ?m)"
      using n by (subst alloc_scan.simps) (simp add: Let_def)
    then show ?thesis using True n v1 by (intro exI[of _ ?n] exI[of _ ?z] exI[of _ ?n1]) (simp add: valid_off_def)
  next
    case False
    show ?thesis
    proof (cases "?n1 = e")
      case True
      have S: "scan_set ?M ?n e = {?n}" using True n by (auto simp: scan_set_def split: if_splits)
      have "alloc_scan e zero m = Some (0, ?z, ?m)"
        using False True by (subst alloc_scan.simps) (simp add: Let_def)
      moreover have "if ?z = 0 then zero = 0 \<and> mem_map m ?n \<noteq> 0 else ?z = zero \<or> valid_off m ?z \<and> mem_map m ?z = 0"
        using n by (cases "zero = 0"; cases "mem_map m ?n = 0") (simp_all add: valid_off_def)
      ultimately show ?thesis using False v1 unfolding S
        by (intro exI[of _ 0] exI[of _ ?z] exI[of _ ?n1]) (simp only: ball_simps simp_thms if_False)
    next
      case ne: False
      have S: "scan_set ?M ?n e = insert ?n (scan_set ?M ?n1 e)" using ne n by (auto simp: scan_set_def split: if_splits)
      have run: "alloc_scan e zero m = alloc_scan e ?z ?m"
        using False ne by (subst alloc_scan.simps) (simp add: Let_def)
      have fm: "max_swap_offset ?m = ?M" "swap_next ?m = ?n1" "mem_map ?m = mem_map m" "valid_off ?m = valid_off m"
        "?m\<lparr>swap_next := k\<rparr> = m\<lparr>swap_next := k\<rparr>" for k by (simp_all add: valid_off_def fun_eq_iff)
      have dec: "(if swap_next ?m < e then e - swap_next ?m else max_swap_offset ?m - swap_next ?m + (e - 1))
        < (if ?n < e then e - ?n else ?M - ?n + (e - 1))" unfolding fm using n ne by auto
      have "scan_ok ?m" "valid_off ?m e" using less.prems v1 by (simp_all add: scan_ok_def valid_off_def)
      from less.hyps[OF dec this, of ?z, unfolded fm] obtain em z k where k: "alloc_scan e ?z ?m = Some (em, z, m\<lparr>swap_next := k\<rparr>)" "valid_off m k"
        "if em \<noteq> 0 then valid_off m em \<and> mem_map m em = SWAP_UNUSED
         else (\<forall>k \<in> scan_set ?M ?n1 e. mem_map m k \<noteq> SWAP_UNUSED) \<and>
           (if z = 0 then ?z = 0 \<and> (\<forall>k \<in> scan_set ?M ?n1 e. mem_map m k \<noteq> 0) else z = ?z \<or> valid_off m z \<and> mem_map m z = 0)"
        by blast
      obtain zz where zz: "?z = zz" by blast
      have z0: "zz = 0 \<Longrightarrow> zero = 0 \<and> mem_map m ?n \<noteq> 0" and z1: "z = zz \<Longrightarrow> z \<noteq> 0 \<Longrightarrow> z = zero \<or> valid_off m z \<and> mem_map m z = 0"
        using n unfolding zz[symmetric] by (cases "zero = 0"; cases "mem_map m ?n = 0"; simp add: valid_off_def)+
      note k3 = k(3)[unfolded zz]
      have "if em \<noteq> 0 then valid_off m em \<and> mem_map m em = SWAP_UNUSED
         else (\<forall>k \<in> insert ?n (scan_set ?M ?n1 e). mem_map m k \<noteq> SWAP_UNUSED) \<and>
           (if z = 0 then zero = 0 \<and> (\<forall>k \<in> insert ?n (scan_set ?M ?n1 e). mem_map m k \<noteq> 0) else z = zero \<or> valid_off m z \<and> mem_map m z = 0)"
      proof (cases "em = 0")
        case em: True
        then have em': "\<not> em \<noteq> 0" by simp
        from em have a: "(\<forall>k \<in> scan_set ?M ?n1 e. mem_map m k \<noteq> SWAP_UNUSED) \<and>
          (if z = 0 then zz = 0 \<and> (\<forall>k \<in> scan_set ?M ?n1 e. mem_map m k \<noteq> 0) else z = zz \<or> valid_off m z \<and> mem_map m z = 0)"
          using k3 by (simp only: simp_thms if_False)
        show ?thesis
        proof (cases "z = 0")
          case True
          note a' = a[unfolded if_P[OF True]]
          have "zz = 0 \<and> (\<forall>k \<in> scan_set ?M ?n1 e. mem_map m k \<noteq> 0)" by (rule conjunct2[OF a'])
          with False a z0 have "(\<forall>k \<in> insert ?n (scan_set ?M ?n1 e). mem_map m k \<noteq> SWAP_UNUSED) \<and>
            zero = 0 \<and> (\<forall>k \<in> insert ?n (scan_set ?M ?n1 e). mem_map m k \<noteq> 0)" by blast
          then show ?thesis unfolding if_not_P[OF em'] if_P[OF True] .
        next
          case nz: False
          with a have "z = zz \<or> valid_off m z \<and> mem_map m z = 0" by (simp only: simp_thms if_False)
          with nz z1 have "z = zero \<or> valid_off m z \<and> mem_map m z = 0" by blast
          with False a have "(\<forall>k \<in> insert ?n (scan_set ?M ?n1 e). mem_map m k \<noteq> SWAP_UNUSED) \<and> (z = zero \<or> valid_off m z \<and> mem_map m z = 0)"
            by blast
          then show ?thesis unfolding if_not_P[OF em'] if_not_P[OF nz] .
        qed
      next
        case em: False
        with k3 show ?thesis by (simp only: simp_thms if_True)
      qed
      with k(1,2) show ?thesis unfolding run S by blast
    qed
  qed
qed

lemma scan_set_all: "valid_off m e \<Longrightarrow> valid_off m k \<Longrightarrow> k \<in> scan_set (max_swap_offset m) e e"
  by (auto simp: scan_set_def valid_off_def)

lemma inv_next: "swap_inv zl X Q m \<Longrightarrow> valid_off m n \<Longrightarrow> swap_inv zl X Q (m\<lparr>swap_next := n\<rparr>)"
  by (simp add: swap_inv_def frames_ok_def lists_ok_swap_def hash_ok_def entries_ok_def scan_ok_def valid_off_def cached_def pg_def)

lemma next_fields [simp]: "cached zl (m\<lparr>swap_next := n\<rparr>) = cached zl m" "pg (m\<lparr>swap_next := n\<rparr>) = pg m"
  "valid_off (m\<lparr>swap_next := n\<rparr>) = valid_off m"
  by (simp_all add: cached_def pg_def valid_off_def fun_eq_iff)

text \<open>Of the pages in use only the descriptor of \<open>p\<close> may differ, and nothing outside the cache.\<close>

definition only_page :: "(nat \<Rightarrow> nat) \<Rightarrow> nat \<Rightarrow> mem \<Rightarrow> mem \<Rightarrow> bool" where
  "only_page zl p m m' \<longleftrightarrow> words m' = words m \<and> tlb m' = tlb m \<and> cr3_frame m' = cr3_frame m \<and> max_swap_offset m' = max_swap_offset m \<and>
     managed zl (bd m') = managed zl (bd m) \<and> (\<forall>q. q \<notin> free_set (bd m) \<and> q \<noteq> p \<longrightarrow> pg m' q = pg m q)"

text \<open>The cached page of an entry that nothing else refers to is thrown out.\<close>

lemma evict_ok:
  assumes i: "swap_inv zl {} (insert off Q) m" and p: "p \<in> cached zl m" "p_index (pg m p) = entry_of off" "valid_off m off"
    and del: "swap_list_del p m = Some m1"
  shows "page_ref m p = 0 \<Longrightarrow> \<exists>m2. swap_free_page p m1 = Some m2 \<and> swap_inv zl {} Q (set_mem_map off SWAP_UNUSED m2)
      \<and> cached zl m2 = cached zl m - {p} \<and> mem_map m2 = mem_map m \<and> free_set (bd m2) = insert p (free_set (bd m)) \<and> only_page zl p m m2"
    and "\<exists>m2. swap_page_del p m1 = Some m2 \<and> swap_inv zl {} Q (set_mem_map off SWAP_UNUSED m2)
      \<and> cached zl m2 = cached zl m - {p} \<and> mem_map m2 = mem_map m \<and> free_set (bd m2) = free_set (bd m)"
proof -
  obtain m0 where m0: "swap_list_del p m = Some m0" "swap_inv zl {p} (insert off Q) m0"
    "m0 = m\<lparr>active_list := remove1 p (active_list m), nr_active_pages := nr_active_pages m0,
      inactive_list := remove1 p (inactive_list m), nr_inactive_pages := nr_inactive_pages m0\<rparr>"
    by (rule list_del_ok[OF i p(1)]) auto
  have eq: "m1 = m0" using del m0(1) by simp
  note m1 = m0(2)[folded eq] and m1e = m0(3)[folded eq]
  have bd1: "bd m1 = bd m" "mem_map m1 = mem_map m" "max_swap_offset m1 = max_swap_offset m" "words m1 = words m" "tlb m1 = tlb m"
    "cr3_frame m1 = cr3_frame m" by (subst m1e, simp)+
  have f1: "pg m1 = pg m" "cached zl m1 = cached zl m" "valid_off m1 = valid_off m" "page_ref m1 = page_ref m"
    by (simp_all add: bd1 pg_def cached_def valid_off_def page_ref_def fun_eq_iff)
  have inj: "\<forall>q \<in> cached zl m - {p}. p_index (pg m q) \<noteq> entry_of off"
  proof -
    have "inj_on (\<lambda>p. p_index (pg m p)) (cached zl m)" using i by (simp add: swap_inv_def entries_ok_def)
    from inj_onD[OF this] p show ?thesis by (metis DiffE insertCI)
  qed
  show "\<exists>m2. swap_free_page p m1 = Some m2 \<and> swap_inv zl {} Q (set_mem_map off SWAP_UNUSED m2)
      \<and> cached zl m2 = cached zl m - {p} \<and> mem_map m2 = mem_map m \<and> free_set (bd m2) = insert p (free_set (bd m)) \<and> only_page zl p m m2"
    if r0: "page_ref m p = 0"
  proof -
    obtain m2 where m2: "swap_free_page p m1 = Some m2" "swap_inv zl ({p} - {p}) (insert off Q) m2" "cached zl m2 = cached zl m1 - {p}"
      "m2 = m1\<lparr>bd := bd m2, swap_hash := swap_hash m2\<rparr>" "managed zl (bd m2) = managed zl (bd m1)"
      "free_set (bd m2) = insert p (free_set (bd m1))" "\<forall>q. q \<notin> free_set (bd m1) \<and> q \<noteq> p \<longrightarrow> pg m2 q = pg m1 q"
      by (rule free_swap_page_ok[OF m1]) (use p r0 f1 in auto)
    have e2: "mem_map m2 = mem_map m1" "max_swap_offset m2 = max_swap_offset m1" "words m2 = words m1" "tlb m2 = tlb m1"
      "cr3_frame m2 = cr3_frame m1" by (subst m2(4), simp)+
    have op: "only_page zl p m m2" using m2(5,7) e2 bd1 f1(1) by (simp add: only_page_def)
    have "\<forall>q \<in> cached zl m2. p_index (pg m2 q) \<noteq> entry_of off"
      using inj m2(3,7) f1 cached_used[OF i] bd1 by auto
    then have "swap_inv zl {} Q (set_mem_map off SWAP_UNUSED m2)"
      using m2(2) p(3) f1 e2 bd1 by (intro inv_close) (auto simp: valid_off_def)
    then show ?thesis using m2 e2 bd1 f1 op by auto
  qed
  show "\<exists>m2. swap_page_del p m1 = Some m2 \<and> swap_inv zl {} Q (set_mem_map off SWAP_UNUSED m2)
      \<and> cached zl m2 = cached zl m - {p} \<and> mem_map m2 = mem_map m \<and> free_set (bd m2) = free_set (bd m)"
  proof -
    obtain m2 where m2: "swap_page_del p m1 = Some m2" "swap_inv zl ({p} - {p}) (insert off Q) m2" "cached zl m2 = cached zl m1 - {p}"
      "m2 = (upd_pg p ClearPageSwap m1)\<lparr>swap_hash := swap_hash m2\<rparr>"
      "managed zl (bd m2) = managed zl (bd m1)" "free_set (bd m2) = free_set (bd m1)"
      by (rule page_del_ok[OF m1]) (use p f1 in auto)
    have e2: "mem_map m2 = mem_map m1" "max_swap_offset m2 = max_swap_offset m1" "bd m2 = upd_page p ClearPageSwap (bd m1)"
      by (subst m2(4), simp)+
    have "\<forall>q \<in> cached zl m2. p_index (pg m2 q) \<noteq> entry_of off"
      using inj m2(3) f1 e2(3) bd1(1) by (auto simp: pg_def)
    then have "swap_inv zl {} Q (set_mem_map off SWAP_UNUSED m2)"
      using m2(2) p(3) f1 e2 bd1 by (intro inv_close) (auto simp: valid_off_def)
    then show ?thesis using m2 e2 bd1 f1 by auto
  qed
qed

lemma try_alloc_swap_entry_ok:
  assumes "swap_ok zl m"
  shows "\<exists>entry m'. try_alloc_swap_entry m = Some (entry, m') \<and> swap_ok zl m' \<and>
    (if entry = 0
     then (\<forall>off. valid_off m off \<longrightarrow> mem_map m off \<noteq> 0 \<and> mem_map m off \<noteq> SWAP_UNUSED) \<and>
       mem_map m' = mem_map m \<and> cached zl m' = cached zl m
     else \<exists>off. valid_off m off \<and> entry = entry_of off \<and> (mem_map m off = SWAP_UNUSED \<or> mem_map m off = 0) \<and>
       mem_map m' = (mem_map m)(off := SWAP_UNUSED) \<and>
       cached zl m' = {p \<in> cached zl m. p_index (pg m p) \<noteq> entry})"
proof -
  have sc: "scan_ok m" "valid_off m (swap_next m)" using assms by (auto simp: swap_inv_def scan_ok_def)
  have e: "inj_on (\<lambda>p. p_index (pg m p)) (cached zl m)"
    "\<And>p. p \<in> cached zl m \<Longrightarrow> \<exists>off. valid_off m off \<and> p_index (pg m p) = entry_of off \<and> mem_map m off \<noteq> SWAP_UNUSED"
    "\<And>off. valid_off m off \<Longrightarrow> mem_map m off = 0 \<Longrightarrow> \<exists>p \<in> cached zl m. p_index (pg m p) = entry_of off"
    using assms by (auto simp: swap_inv_def entries_ok_def)
  obtain em z n where n: "alloc_scan (swap_next m) 0 m = Some (em, z, m\<lparr>swap_next := n\<rparr>)" "valid_off m n"
    "if em \<noteq> 0 then valid_off m em \<and> mem_map m em = SWAP_UNUSED
     else (\<forall>k. valid_off m k \<longrightarrow> mem_map m k \<noteq> SWAP_UNUSED) \<and>
       (if z = 0 then (\<forall>k. valid_off m k \<longrightarrow> mem_map m k \<noteq> 0) else valid_off m z \<and> mem_map m z = 0)"
    using alloc_scan_ok[OF sc, of 0] scan_set_all[OF sc(2)] by (metis (no_types, lifting))
  let ?m = "m\<lparr>swap_next := n\<rparr>"
  have i: "swap_ok zl ?m" by (rule inv_next[OF assms n(2)])
  consider "em \<noteq> 0" | "em = 0" "z = 0" | "em = 0" "z \<noteq> 0" by blast
  then show ?thesis
  proof cases
    case 1
    then have em: "valid_off m em" "mem_map m em = SWAP_UNUSED" using n(3) by auto
    have "{p \<in> cached zl m. p_index (pg m p) \<noteq> entry_of em} = cached zl m"
      using e(2) em entry_of_inj[OF sc(1)] by fastforce
    moreover have "mem_map ?m = (mem_map m)(em := SWAP_UNUSED)" using em(2) by (auto simp: fun_eq_iff)
    ultimately show ?thesis
      using 1 n(1) i em entry_of_nonzero[OF sc(1) em(1)]
      by (intro exI[of _ "entry_of em"] exI[of _ ?m]) (auto simp: try_alloc_swap_entry_def)
  next
    case 2
    then show ?thesis using n i by (intro exI[of _ 0] exI[of _ ?m]) (simp add: try_alloc_swap_entry_def)
  next
    case 3
    then have z: "valid_off m z" "mem_map m z = 0" using n(3) by auto
    obtain p where p: "p \<in> cached zl m" "p_index (pg m p) = entry_of z" using e(3)[OF z] by blast
    have hf: "swap_hash_find (entry_of z) ?m = Some p" using hash_find(1)[OF i] p by simp
    have pc: "p \<in> cached zl ?m" using p(1) by simp
    obtain m1 where m1: "swap_list_del p ?m = Some m1" "swap_inv zl {p} {} m1"
      "m1 = ?m\<lparr>active_list := remove1 p (active_list ?m), nr_active_pages := nr_active_pages m1,
      inactive_list := remove1 p (inactive_list ?m), nr_inactive_pages := nr_inactive_pages m1\<rparr>"
      by (rule list_del_ok[OF i pc]) auto
    have "bd m1 = bd ?m" by (subst m1(3)) simp
    then have ref: "page_ref m1 p = page_ref ?m p" by (simp add: page_ref_def pg_def)
    note ev = evict_ok[OF inv_weaken[OF i, of "{z}"] pc _ _ m1(1)]
    have "\<exists>m2. (if page_ref m1 p = 0 then swap_free_page p m1 else swap_page_del p m1) = Some m2 \<and>
      swap_ok zl (set_mem_map z SWAP_UNUSED m2) \<and> cached zl m2 = cached zl ?m - {p} \<and> mem_map m2 = mem_map ?m"
      using ev p(2) z(1) unfolding ref by (cases "page_ref ?m p = 0") auto
    then obtain m2 where m2: "(if page_ref m1 p = 0 then swap_free_page p m1 else swap_page_del p m1) = Some m2"
      "swap_ok zl (set_mem_map z SWAP_UNUSED m2)" "cached zl m2 = cached zl ?m - {p}" "mem_map m2 = mem_map ?m" by blast
    have "try_alloc_swap_entry m = Some (entry_of z, set_mem_map z SWAP_UNUSED m2)"
      using n(1) 3 hf m1(1) m2(1) cached_used[OF i pc] by (simp add: try_alloc_swap_entry_def Let_def)
    moreover have "cached zl m - {p} = {q \<in> cached zl m. p_index (pg m q) \<noteq> entry_of z}"
      using p inj_onD[OF e(1)] by force
    ultimately show ?thesis
      using m2 z entry_of_nonzero[OF sc(1) z(1)]
      by (intro exI[of _ "entry_of z"] exI[of _ "set_mem_map z SWAP_UNUSED m2"]) auto
  qed
qed

lemma inv_offset:
  "swap_inv zl X Q m \<Longrightarrow> p \<in> cached zl m \<Longrightarrow> \<exists>off. valid_off m off \<and> p_index (pg m p) = entry_of off \<and> (off \<in> Q \<or> mem_map m off \<noteq> SWAP_UNUSED)"
  by (auto simp: swap_inv_def entries_ok_def)

lemma swap_remove_entry_ok:
  assumes "swap_ok zl m" "valid_off m off" "mem_map m off \<noteq> 0" "mem_map m off \<noteq> SWAP_UNUSED"
  shows "\<exists>m'. swap_remove_entry (entry_of off) m = Some m' \<and> swap_ok zl m' \<and>
    (if mem_map m off \<noteq> 1
     then m' = set_mem_map off (mem_map m off - 1) m
     else (case swap_hash_find (entry_of off) m of
        None \<Rightarrow> m' = set_mem_map off SWAP_UNUSED m
      | Some p \<Rightarrow>
          (if page_ref m p \<noteq> 0 then m' = set_mem_map off 0 m
           else mem_map m' = (mem_map m)(off := SWAP_UNUSED) \<and> cached zl m' = cached zl m - {p} \<and>
             free_set (bd m') = insert p (free_set (bd m)) \<and> p \<notin> free_set (bd m) \<and> only_page zl p m m')))"
proof -
  have sc: "scan_ok m" using assms(1) by (simp add: swap_inv_def)
  note off = swap_offset_entry[OF sc assms(2)]
  let ?v = "mem_map m off - 1"
  let ?m = "set_mem_map off ?v m"
  have pos: "0 < mem_map m off" using assms(3) by (simp add: word_gt_0)
  show ?thesis
  proof (cases "mem_map m off = 1")
    case False
    then have v: "?v \<noteq> 0" by simp
    have "?v \<noteq> SWAP_UNUSED"
    proof
      assume "?v = SWAP_UNUSED"
      then have "mem_map m off = 0" by (simp add: diff_eq_eq)
      then show False using assms(3) by simp
    qed
    then have "swap_ok zl ?m" using v by (intro inv_count[OF assms(1,2)])
    moreover have "swap_remove_entry (entry_of off) m = Some ?m"
      using off pos v by (simp add: swap_remove_entry_def Let_def)
    ultimately show ?thesis using False by simp
  next
    case True
    then have v: "?v = 0" by simp
    have io: "swap_inv zl {} {off} ?m" using inv_open[OF assms(1)] by simp
    have ss: "set_mem_map off a (set_mem_map off b m) = set_mem_map off a m" for a b by (simp add: set_mem_map_def)
    show ?thesis
    proof (cases "swap_hash_find (entry_of off) m")
      case None
      then have "\<forall>p \<in> cached zl m. p_index (pg m p) \<noteq> entry_of off" using hash_find(2)[OF assms(1)] by blast
      then have "swap_ok zl (set_mem_map off SWAP_UNUSED m)"
        using inv_close[OF inv_weaken[OF assms(1)] assms(2), of "{}" SWAP_UNUSED] by simp
      moreover have "swap_remove_entry (entry_of off) m = Some (set_mem_map off SWAP_UNUSED m)"
        using off pos v None ss by (simp add: swap_remove_entry_def Let_def)
      ultimately show ?thesis using True None by simp
    next
      case (Some p)
      then have p: "p \<in> cached zl m" "p_index (pg m p) = entry_of off" using hash_find(1)[OF assms(1)] by blast+
      show ?thesis
      proof (cases "page_ref m p = 0")
        case False
        have "swap_ok zl (set_mem_map off 0 m)"
          using inv_close[OF inv_weaken[OF assms(1)] assms(2), of "{}" 0] p by auto
        moreover have "swap_remove_entry (entry_of off) m = Some (set_mem_map off 0 m)"
          using off pos v Some False by (simp add: swap_remove_entry_def Let_def)
        ultimately show ?thesis using True Some False by simp
      next
        case ref: True
        have pc: "p \<in> cached zl ?m" using p by simp
        obtain m1 where m1: "swap_list_del p ?m = Some m1" by (rule list_del_ok[OF io pc]) auto
        obtain m2 where m2: "swap_free_page p m1 = Some m2" "swap_ok zl (set_mem_map off SWAP_UNUSED m2)"
          "cached zl m2 = cached zl ?m - {p}" "mem_map m2 = mem_map ?m" "free_set (bd m2) = insert p (free_set (bd ?m))" "only_page zl p ?m m2"
          using evict_ok(1)[OF _ pc _ _ m1, of off "{}"] io p assms(2) ref by auto
        have "swap_remove_entry (entry_of off) m = Some (set_mem_map off SWAP_UNUSED m2)"
          using off pos v Some ref m1 m2(1) by (simp add: swap_remove_entry_def Let_def)
        moreover have "p \<notin> free_set (bd m)" using cached_used[OF assms(1) p(1)] by blast
        moreover have "only_page zl p m (set_mem_map off SWAP_UNUSED m2)"
          using m2(6) by (simp add: only_page_def) (simp add: set_mem_map_def)
        ultimately show ?thesis using True Some ref m2 by simp
      qed
    qed
  qed
qed

lemma swap_in_page_ok:
  assumes "swap_ok zl m" "valid_off m off" "mem_map m off \<noteq> SWAP_UNUSED"
  shows "\<exists>ret page m'. swap_in_page (entry_of off) done m = Some ((ret, page), m') \<and> swap_ok zl m' \<and> mem_map m' = mem_map m \<and> disk m' = disk m \<and>
    (case swap_hash_find (entry_of off) m of
       Some p \<Rightarrow> ret = 0 \<and> page = Some p \<and> m' = m
     | None \<Rightarrow>
         (ret = - E_NO_MEM \<and> page = None \<and> m' = m \<and> free_set (bd m) = {}) \<or>
         (ret = - E_SWAP_FAULT \<and> page = None \<and> \<not> done \<and> cached zl m' = cached zl m \<and> free_set (bd m') = free_set (bd m)) \<or>
         (ret = 0 \<and> done \<and> (\<exists>p. page = Some p \<and> p \<in> free_set (bd m) \<and> free_set (bd m') = free_set (bd m) - {p} \<and>
            cached zl m' = insert p (cached zl m) \<and> p_index (pg m' p) = entry_of off \<and>
            words m' = (words m)(p := disk m off) \<and> page_ref m' p = 0)))"
proof -
  have sc: "scan_ok m" using assms(1) by (simp add: swap_inv_def)
  note off = swap_offset_entry[OF sc assms(2)]
  show ?thesis
  proof (cases "swap_hash_find (entry_of off) m")
    case (Some p)
    with assms(1) off show ?thesis by (auto simp: swap_in_page_def)
  next
    case None
    then have nc: "\<forall>p \<in> cached zl m. p_index (pg m p) \<noteq> entry_of off" using hash_find(2)[OF assms(1)] by blast
    from inv_alloc[OF assms(1)] show ?thesis
    proof
      assume "alloc_page m = Some (None, m) \<and> free_set (bd m) = {}"
      with assms(1) off None show ?thesis by (simp add: swap_in_page_def swap_in_page_locked_def)
    next
      assume "\<exists>p m'. alloc_page m = Some (Some p, m') \<and> m' = m\<lparr>bd := bd m'\<rparr> \<and> swap_ok zl m' \<and> managed zl (bd m') = managed zl (bd m)
        \<and> p \<in> free_set (bd m) \<and> p \<in> managed zl (bd m) \<and> p \<notin> cached zl m' \<and> cached zl m' = cached zl m
        \<and> free_set (bd m') = free_set (bd m) - {p} \<and> (\<forall>q. q \<notin> free_set (bd m) \<longrightarrow> pg m' q = pg m q) \<and> p_ref (pg m' p) = 0"
      then obtain p m1 where m1: "alloc_page m = Some (Some p, m1)" "m1 = m\<lparr>bd := bd m1\<rparr>" "swap_ok zl m1" "managed zl (bd m1) = managed zl (bd m)"
        "p \<in> free_set (bd m)" "p \<in> managed zl (bd m)" "p \<notin> cached zl m1" "cached zl m1 = cached zl m"
        "free_set (bd m1) = free_set (bd m) - {p}" "\<forall>q. q \<notin> free_set (bd m) \<longrightarrow> pg m1 q = pg m q" "p_ref (pg m1 p) = 0" by blast
      have f1: "mem_map m1 = mem_map m" "max_swap_offset m1 = max_swap_offset m" "words m1 = words m" "disk m1 = disk m"
        by (subst m1(2), simp)+
      have off1: "swap_offset (entry_of off) m1 = Some off" "valid_off m1 off" using off assms(2) f1 by (simp_all add: swap_offset_def valid_off_def)
      have nc1: "\<forall>q \<in> cached zl m1. p_index (pg m1 q) \<noteq> entry_of off" using nc m1(8,10) cached_used[OF assms(1)] by auto
      then have hf: "swap_hash_find (entry_of off) m1 = None" using hash_find(2)[OF m1(3)] by blast
      have use: "p \<in> managed zl (bd m1)" "p \<notin> free_set (bd m1)" using m1 by auto
      have np: "\<not> PageSwap (pg m1 p)" using m1(7) use by (simp add: cached_def)
      show ?thesis
      proof (cases "done")
        case False
        obtain m' where m': "free_page p m1 = Some m'" "m' = m1\<lparr>bd := bd m'\<rparr>" "swap_ok zl m'" "cached zl m' = cached zl m1"
          "free_set (bd m') = insert p (free_set (bd m1))" by (rule inv_free[OF m1(3) use m1(7)])
        have "mem_map m' = mem_map m1" "disk m' = disk m1" by (subst m'(2), simp)+
        moreover have "free_set (bd m') = free_set (bd m)" using m'(5) m1(5,9) by auto
        moreover have "swap_in_page (entry_of off) done m = Some ((- E_SWAP_FAULT, None), m')"
          using off None m1(1) hf off1 m'(1) False by (simp add: swap_in_page_def swap_in_page_locked_def swapfs_read_def)
        ultimately show ?thesis using None m' m1(8) f1 False by auto
      next
        case True
        define m2 where "m2 = m1\<lparr>words := (words m1)(p := disk m1 off)\<rparr>"
        have f2: "bd m2 = bd m1" "mem_map m2 = mem_map m1" "like m1 m2" by (simp_all add: m2_def like_def)
        have g2: "pg m2 = pg m1" "cached zl m2 = cached zl m1" "valid_off m2 = valid_off m1"
          using like_valid[OF f2(3)] f2(1) by (simp_all add: pg_def cached_def fun_eq_iff)
        have i2: "swap_ok zl m2"
          by (rule swap_inv_cong[OF m1(3) f2(3)]) (use inv_frames[OF m1(3)] f2 g2 in \<open>simp_all add: frames_ok_def\<close>)
        let ?e = "entry_of off"
        define m3 where "m3 = swap_page_link p ?e m2"
        have l: "swap_inv zl {p} {off} m3" "cached zl m3 = insert p (cached zl m2)" "managed zl (bd m3) = managed zl (bd m2)"
          "free_set (bd m3) = free_set (bd m2)"
          "m3 = (upd_pg p (\<lambda>q. (SetPageSwap q)\<lparr>p_index := ?e\<rparr>) m2)\<lparr>swap_hash := swap_hash m3\<rparr>"
          using page_link_ok[OF inv_weaken[OF i2, of "{off}"], of p off] use m1(7) off1(2) nc1 f2 g2 unfolding m3_def by auto
        have d3: "disk m3 = disk m" by (subst l(5), simp add: m2_def f1)
        have f3: "bd m3 = upd_page p (\<lambda>q. (SetPageSwap q)\<lparr>p_index := ?e\<rparr>) (bd m2)" "mem_map m3 = mem_map m" "words m3 = words m2"
          "valid_off m3 = valid_off m2"
          by (subst l(5), simp add: valid_off_def fun_eq_iff f2(2) f1)+
        have pg3: "p_index (pg m3 p) = ?e" "p_ref (pg m3 p) = 0" using m1(11) g2 f2 by (simp_all add: f3(1) pg_def)
        obtain m4 where m4: "swap_active_list_add p m3 = Some m4" "swap_inv zl ({p} - {p}) {off} m4"
          "m4 = (upd_pg p SetPageActive m3)\<lparr>nr_active_pages := nr_active_pages m4, active_list := active_list m3 @ [p]\<rparr>"
          using list_add_ok(1)[OF l(1), of p] by blast
        have d4: "disk m4 = disk m" by (subst m4(3)) (simp add: d3)
        have f4: "bd m4 = upd_page p SetPageActive (bd m3)" "mem_map m4 = mem_map m3" "words m4 = words m3" "valid_off m4 = valid_off m3"
          by (subst m4(3), simp add: valid_off_def fun_eq_iff)+
        have fr: "frames_ok zl m3" "p \<in> managed zl (bd m3)" "p \<notin> free_set (bd m3)" using inv_frames[OF l(1)] l(3,4) use f2 by auto
        have c4: "cached zl m4 = cached zl m3" "free_set (bd m4) = free_set (bd m3)"
        proof -
          have "pg m4 = pg (upd_pg p SetPageActive m3)" "bd m4 = bd (upd_pg p SetPageActive m3)" by (simp_all add: pg_def f4 upd_pg_def fun_eq_iff)
          then have "cached zl m4 = cached zl (upd_pg p SetPageActive m3)" unfolding cached_def by simp
          then show "cached zl m4 = cached zl m3" using cached_upd[OF fr, of "SetPageFlag PG_active"] l(2) by (auto simp: cached_def)
          show "free_set (bd m4) = free_set (bd m3)" by (simp add: f4)
        qed
        have "swap_ok zl (set_mem_map off (mem_map m4 off) m4)"
        proof (rule inv_close)
          show "swap_inv zl {} {off} m4" using m4(2) by simp
          show "valid_off m4 off" using off1(2) f4 f3 g2 by simp
          show "mem_map m4 off = SWAP_UNUSED \<Longrightarrow> \<forall>p \<in> cached zl m4. p_index (pg m4 p) \<noteq> entry_of off"
            using assms(3) f4 f3 by simp
          show "\<exists>p \<in> cached zl m4. p_index (pg m4 p) = entry_of off"
            using c4(1) l(2) pg3(1) by (intro bexI[of _ p]) (simp_all add: pg_def f4(1))
        qed
        then have "swap_ok zl m4" by (simp add: set_mem_map_def)
        moreover have "swap_in_page ?e done m = Some ((0, Some p), m4)"
          using off None m1(1) hf off1 True m4(1) np entry_of_nonzero[OF sc assms(2)] g2
          by (simp add: swap_in_page_def swap_in_page_locked_def swapfs_read_def m2_def[symmetric] swap_page_add_def m3_def[symmetric])
        moreover have "words m4 = (words m)(p := disk m off)" by (simp add: f4 f3 m2_def f1)
        moreover have "p_index (pg m4 p) = ?e" "page_ref m4 p = 0"
          using pg3 by (simp_all add: pg_def f4(1) page_ref_def atomic_read_def)
        moreover have "cached zl m4 = insert p (cached zl m)" "free_set (bd m4) = free_set (bd m) - {p}"
          using c4 l(2,4) g2 f2 m1(8,9) by simp_all
        ultimately show ?thesis using None True m1(5) f4(2) f3(2) d4 by auto
      qed
    qed
  qed
qed

end
