(* ===== verification/SwapScan.thy ===== *)
theory SwapScan
  imports SwapInv
begin

text \<open>
  The two scans that \<open>kswapd\<close> makes over the lists of cached pages: \<open>page_launder\<close> and
  \<open>refill_inactive_scan\<close> of \<open>kern/mm/swap.c\<close>.
\<close>

section \<open>What laundering may do\<close>

text \<open>From \<open>m\<close> to \<open>m'\<close> cached pages nobody maps may have been freed, \<open>n\<close> of them; a page whose
  entry is still referenced has been written to the disk first if it was dirty.\<close>

definition laundered :: "(nat \<Rightarrow> nat) \<Rightarrow> nat \<Rightarrow> mem \<Rightarrow> mem \<Rightarrow> bool" where
  "laundered zl n m m' \<longleftrightarrow> swap_ok zl m' \<and> words m' = words m \<and> max_swap_offset m' = max_swap_offset m \<and>
     cached zl m' \<subseteq> cached zl m \<and> card (free_set (bd m')) = card (free_set (bd m)) + n \<and>
     (\<forall>q \<in> cached zl m'. p_index (pg m' q) = p_index (pg m q) \<and> PageDirty (pg m' q) = PageDirty (pg m q) \<and> page_ref m' q = page_ref m q) \<and>
     (\<forall>q \<in> cached zl m - cached zl m'. page_ref m q = 0 \<and> (\<forall>off. valid_off m off \<and> p_index (pg m q) = entry_of off \<longrightarrow>
        mem_map m off = 0 \<or> (if PageDirty (pg m q) then disk m' off = words m q else disk m' off = disk m off))) \<and>
     (\<forall>off. (\<forall>q \<in> cached zl m - cached zl m'. p_index (pg m q) \<noteq> entry_of off) \<longrightarrow> disk m' off = disk m off \<and> mem_map m' off = mem_map m off) \<and>
     (\<forall>off. mem_map m' off = mem_map m off \<or> mem_map m' off = SWAP_UNUSED)"

lemma laundered_refl: "swap_ok zl m \<Longrightarrow> laundered zl 0 m m"
  by (simp add: laundered_def)

lemma cached_index_eq: "swap_inv zl X Q m \<Longrightarrow> p \<in> cached zl m \<Longrightarrow> q \<in> cached zl m \<Longrightarrow> p_index (pg m p) = p_index (pg m q) \<Longrightarrow> p = q"
  by (auto simp: swap_inv_def entries_ok_def inj_on_def)

lemma laundered_trans:
  assumes i: "swap_ok zl m" and 1: "laundered zl n m m'" and 2: "laundered zl k m' m''"
  shows "laundered zl (n + k) m m''"
proof -
  have l1: "swap_ok zl m'" "words m' = words m" "max_swap_offset m' = max_swap_offset m" "cached zl m' \<subseteq> cached zl m"
    "card (free_set (bd m')) = card (free_set (bd m)) + n"
    "\<And>q. q \<in> cached zl m' \<Longrightarrow> p_index (pg m' q) = p_index (pg m q) \<and> PageDirty (pg m' q) = PageDirty (pg m q) \<and> page_ref m' q = page_ref m q"
    "\<And>q off. q \<in> cached zl m - cached zl m' \<Longrightarrow> page_ref m q = 0 \<and> (valid_off m off \<and> p_index (pg m q) = entry_of off \<longrightarrow>
        mem_map m off = 0 \<or> (if PageDirty (pg m q) then disk m' off = words m q else disk m' off = disk m off))"
    "\<And>off. (\<forall>q \<in> cached zl m - cached zl m'. p_index (pg m q) \<noteq> entry_of off) \<Longrightarrow> disk m' off = disk m off \<and> mem_map m' off = mem_map m off"
    "\<And>off. mem_map m' off = mem_map m off \<or> mem_map m' off = SWAP_UNUSED"
    using 1 unfolding laundered_def by blast+
  have l2: "swap_ok zl m''" "words m'' = words m'" "max_swap_offset m'' = max_swap_offset m'" "cached zl m'' \<subseteq> cached zl m'"
    "card (free_set (bd m'')) = card (free_set (bd m')) + k"
    "\<And>q. q \<in> cached zl m'' \<Longrightarrow> p_index (pg m'' q) = p_index (pg m' q) \<and> PageDirty (pg m'' q) = PageDirty (pg m' q) \<and> page_ref m'' q = page_ref m' q"
    "\<And>q off. q \<in> cached zl m' - cached zl m'' \<Longrightarrow> page_ref m' q = 0 \<and> (valid_off m' off \<and> p_index (pg m' q) = entry_of off \<longrightarrow>
        mem_map m' off = 0 \<or> (if PageDirty (pg m' q) then disk m'' off = words m' q else disk m'' off = disk m' off))"
    "\<And>off. (\<forall>q \<in> cached zl m' - cached zl m''. p_index (pg m' q) \<noteq> entry_of off) \<Longrightarrow> disk m'' off = disk m' off \<and> mem_map m'' off = mem_map m' off"
    "\<And>off. mem_map m'' off = mem_map m' off \<or> mem_map m'' off = SWAP_UNUSED"
    using 2 unfolding laundered_def by blast+
  have kept: "disk m' off = disk m off \<and> mem_map m' off = mem_map m off"
    if "q \<in> cached zl m'" "p_index (pg m q) = entry_of off" for q off
    using that l1(4) cached_index_eq[OF i] by (intro l1(8)) (metis DiffE subsetD)
  have gone: "disk m'' off = disk m' off \<and> mem_map m'' off = mem_map m' off"
    if "q \<in> cached zl m - cached zl m'" "p_index (pg m q) = entry_of off" for q off
    using that l1(4,6) cached_index_eq[OF i] by (intro l2(8)) (metis DiffE subsetD)
  have v: "valid_off m' = valid_off m" using l1(3) by (simp add: valid_off_def fun_eq_iff)
  have drop: "page_ref m q = 0 \<and> (\<forall>off. valid_off m off \<and> p_index (pg m q) = entry_of off \<longrightarrow>
        mem_map m off = 0 \<or> (if PageDirty (pg m q) then disk m'' off = words m q else disk m'' off = disk m off))"
    if q: "q \<in> cached zl m - cached zl m''" for q
  proof (cases "q \<in> cached zl m'")
    case True
    then have q': "q \<in> cached zl m' - cached zl m''" using q by blast
    show ?thesis
    proof (intro conjI allI impI)
      show "page_ref m q = 0" using l2(7)[OF q'] l1(6)[OF True] by simp
      fix off assume o: "valid_off m off \<and> p_index (pg m q) = entry_of off"
      then show "mem_map m off = 0 \<or> (if PageDirty (pg m q) then disk m'' off = words m q else disk m'' off = disk m off)"
        using l2(7)[OF q', of off] l1(6)[OF True] kept[OF True, of off] v l1(2) by (auto split: if_splits)
    qed
  next
    case False
    then have q': "q \<in> cached zl m - cached zl m'" using q by blast
    show ?thesis
    proof (intro conjI allI impI)
      show "page_ref m q = 0" using l1(7)[OF q'] by blast
      fix off assume o: "valid_off m off \<and> p_index (pg m q) = entry_of off"
      then show "mem_map m off = 0 \<or> (if PageDirty (pg m q) then disk m'' off = words m q else disk m'' off = disk m off)"
        using l1(7)[OF q', of off] gone[OF q', of off] by (auto split: if_splits)
    qed
  qed
  have same: "disk m'' off = disk m off \<and> mem_map m'' off = mem_map m off"
    if o: "\<forall>q \<in> cached zl m - cached zl m''. p_index (pg m q) \<noteq> entry_of off" for off
  proof -
    have "disk m' off = disk m off \<and> mem_map m' off = mem_map m off" using o l2(4) by (intro l1(8)) blast
    moreover have "disk m'' off = disk m' off \<and> mem_map m'' off = mem_map m' off"
      using o l1(4,6) by (intro l2(8)) (metis DiffE DiffI subsetD)
    ultimately show ?thesis by simp
  qed
  have q: "\<forall>q \<in> cached zl m''. p_index (pg m'' q) = p_index (pg m q) \<and> PageDirty (pg m'' q) = PageDirty (pg m q) \<and> page_ref m'' q = page_ref m q"
    using l1(6) l2(4,6) by (metis subsetD)
  show ?thesis
    unfolding laundered_def using l1(2,3,4,5,9) l2(1-5,9) q drop same by (auto; metis)
qed

section \<open>One page\<close>

lemma managed_upd_page [simp]: "managed zl (upd_page p f b) = managed zl b"
  by (simp add: managed_def zone_def)

lemma set_mem_map_same [simp]: "set_mem_map off (mem_map m off) m = m"
  by (simp add: set_mem_map_def)

lemma set_mem_map_twice [simp]: "set_mem_map off a (set_mem_map off b m) = set_mem_map off a m"
  by (simp add: set_mem_map_def)

text \<open>A page off the lists, whose entry is open, is freed; \<open>m0\<close> is the state before the page was
  looked at.\<close>

lemma launder_free:
  assumes i0: "swap_ok zl m0" and p: "p \<in> cached zl m0" "p_index (pg m0 p) = entry_of off" "valid_off m0 off" "page_ref m0 p = 0"
    and i: "swap_inv zl {p} {off} m" and like: "words m = words m0" "max_swap_offset m = max_swap_offset m0" "cached zl m = cached zl m0"
      "free_set (bd m) = free_set (bd m0)" "managed zl (bd m) = managed zl (bd m0)"
      "\<And>q. q \<noteq> p \<Longrightarrow> pg m q = pg m0 q" "p_index (pg m p) = p_index (pg m0 p)" "page_ref m p = 0"
      "\<And>k. k \<noteq> off \<Longrightarrow> disk m k = disk m0 k \<and> mem_map m k = mem_map m0 k"
    and v: "mem_map m off \<noteq> 0" "mem_map m off = mem_map m0 off \<or> mem_map m off = SWAP_UNUSED"
    and saved: "mem_map m0 off = 0 \<or> (if PageDirty (pg m0 p) then disk m off = words m0 p else disk m off = disk m0 off)"
    and il: "inactive_list m = xs"
  shows "\<exists>m'. swap_free_page p m = Some m' \<and> laundered zl 1 m0 m' \<and> inactive_list m' = xs"
proof -
  have vo: "valid_off m = valid_off m0" by (simp add: valid_off_def like(2) fun_eq_iff)
  obtain m' where m': "swap_free_page p m = Some m'" "swap_inv zl ({p} - {p}) {off} m'" "cached zl m' = cached zl m - {p}"
    "m' = m\<lparr>bd := bd m', swap_hash := swap_hash m'\<rparr>" "managed zl (bd m') = managed zl (bd m)"
    "free_set (bd m') = insert p (free_set (bd m))" "\<forall>q. q \<notin> free_set (bd m) \<and> q \<noteq> p \<longrightarrow> pg m' q = pg m q"
    by (rule free_swap_page_ok[OF i, of p off]) (use p like vo in auto)
  have f: "words m' = words m" "max_swap_offset m' = max_swap_offset m" "disk m' = disk m" "mem_map m' = mem_map m"
    "inactive_list m' = inactive_list m" by (subst m'(4), simp)+
  have same: "pg m' q = pg m0 q" if "q \<in> cached zl m'" for q
    using that m'(3,7) like(3,4,6) cached_used[OF i0] by auto
  have other: "p_index (pg m0 q) \<noteq> entry_of off" if "q \<in> cached zl m0" "q \<noteq> p" for q
    using cached_index_eq[OF i0 that(1) p(1)] that(2) p(2) by auto
  have "swap_ok zl (set_mem_map off (mem_map m' off) m')"
    by (rule inv_close) (use m'(2,3) p(3) vo f v other same like in \<open>auto simp: valid_off_def\<close>)
  then have ok: "swap_ok zl m'" by simp
  have pf: "p \<notin> free_set (bd m0)" using cached_used[OF i0 p(1)] by blast
  have gone: "cached zl m0 - cached zl m' = {p}" using m'(3) like(3) p(1) by auto
  have off_eq: "k = off" if "valid_off m0 k" "entry_of off = entry_of k" for k
    using that entry_of_inj[of m0 off k] p(3) i0 by (auto simp: swap_inv_def)
  have saved': "\<forall>k. valid_off m0 k \<and> p_index (pg m0 p) = entry_of k \<longrightarrow>
        mem_map m0 k = 0 \<or> (if PageDirty (pg m0 p) then disk m' k = words m0 p else disk m' k = disk m0 k)"
  proof (intro allI impI)
    fix k assume "valid_off m0 k \<and> p_index (pg m0 p) = entry_of k"
    then have "k = off" using off_eq p(2) by simp
    then show "mem_map m0 k = 0 \<or> (if PageDirty (pg m0 p) then disk m' k = words m0 p else disk m' k = disk m0 k)"
      using saved f(3) by (auto split: if_splits)
  qed
  have "laundered zl 1 m0 m'"
    unfolding laundered_def gone
  proof (intro conjI)
    show "cached zl m' \<subseteq> cached zl m0" using m'(3) like(3) by auto
    show "card (free_set (bd m')) = card (free_set (bd m0)) + 1" using m'(6) like(4) pf by simp
    show "\<forall>q \<in> cached zl m'. p_index (pg m' q) = p_index (pg m0 q) \<and> PageDirty (pg m' q) = PageDirty (pg m0 q) \<and> page_ref m' q = page_ref m0 q"
      using same by (simp add: page_ref_def)
    show "\<forall>q \<in> {p}. page_ref m0 q = 0 \<and> (\<forall>k. valid_off m0 k \<and> p_index (pg m0 q) = entry_of k \<longrightarrow>
        mem_map m0 k = 0 \<or> (if PageDirty (pg m0 q) then disk m' k = words m0 q else disk m' k = disk m0 k))"
      using p(4) saved' by blast
    show "\<forall>k. (\<forall>q \<in> {p}. p_index (pg m0 q) \<noteq> entry_of k) \<longrightarrow> disk m' k = disk m0 k \<and> mem_map m' k = mem_map m0 k"
    proof (intro allI impI)
      fix k assume "\<forall>q \<in> {p}. p_index (pg m0 q) \<noteq> entry_of k"
      then have "k \<noteq> off" using p(2) by auto
      then show "disk m' k = disk m0 k \<and> mem_map m' k = mem_map m0 k" using like(9) f by simp
    qed
    show "\<forall>k. mem_map m' k = mem_map m0 k \<or> mem_map m' k = SWAP_UNUSED"
    proof
      fix k show "mem_map m' k = mem_map m0 k \<or> mem_map m' k = SWAP_UNUSED"
        using like(9)[of k] v(2) f(4) by (cases "k = off") auto
    qed
  qed (use ok f like in auto)
  then show ?thesis using m'(1) f(5) il by auto
qed

lemma launder_keep:
  assumes i0: "swap_ok zl m0" and i: "swap_ok zl m" and eq: "words m = words m0" "max_swap_offset m = max_swap_offset m0"
    "cached zl m = cached zl m0" "free_set (bd m) = free_set (bd m0)" "disk m = disk m0" "mem_map m = mem_map m0"
    "\<And>q. p_index (pg m q) = p_index (pg m0 q) \<and> PageDirty (pg m q) = PageDirty (pg m0 q) \<and> page_ref m q = page_ref m0 q"
  shows "laundered zl 0 m0 m"
  using i eq unfolding laundered_def by simp

lemma launder_page_ok:
  assumes i0: "swap_ok zl m" and p: "p \<in> cached zl m"
    and cap: "\<And>off. mem_map m off \<noteq> MAX_SWAP_REF"
  shows "\<exists>d m' zs. launder_page ok p m = Some (d, m') \<and> laundered zl d m m' \<and> inactive_list m' = remove1 p (inactive_list m) @ zs"
proof -
  have sc: "scan_ok m" using i0 by (simp add: swap_inv_def)
  obtain off where off: "valid_off m off" "p_index (pg m p) = entry_of off" "mem_map m off \<noteq> SWAP_UNUSED"
    using inv_offset[OF i0 p] by auto
  let ?e = "entry_of off"
  obtain m1 where m1: "swap_list_del p m = Some m1" "swap_inv zl {p} {} m1"
    "m1 = m\<lparr>active_list := remove1 p (active_list m), nr_active_pages := nr_active_pages m1,
      inactive_list := remove1 p (inactive_list m), nr_inactive_pages := nr_inactive_pages m1\<rparr>"
    by (rule list_del_ok[OF i0 p]) auto
  have f1: "bd m1 = bd m" "words m1 = words m" "max_swap_offset m1 = max_swap_offset m" "disk m1 = disk m" "mem_map m1 = mem_map m"
    "inactive_list m1 = remove1 p (inactive_list m)" by (subst m1(3), simp)+
  have g1: "pg m1 = pg m" "cached zl m1 = cached zl m" "valid_off m1 = valid_off m" "page_ref m1 = page_ref m"
    "swap_offset e m1 = swap_offset e m" for e
    by (simp_all add: pg_def cached_def f1 valid_off_def page_ref_def swap_offset_def fun_eq_iff)
  have so: "swap_offset ?e m = Some off" by (rule swap_offset_entry[OF sc off(1)])
  have u: "p \<in> managed zl (bd m1)" "p \<notin> free_set (bd m1)" using cached_used[OF i0 p] f1 by auto
  show ?thesis
  proof (cases "page_ref m p = 0")
    case False
    obtain m2 where m2: "swap_active_list_add p m1 = Some m2" "swap_inv zl ({p} - {p}) {} m2"
      "m2 = (upd_pg p SetPageActive m1)\<lparr>nr_active_pages := nr_active_pages m2, active_list := active_list m1 @ [p]\<rparr>"
      using list_add_ok(1)[OF m1(2), of p] by blast
    have f2: "bd m2 = upd_page p SetPageActive (bd m1)" "words m2 = words m1" "max_swap_offset m2 = max_swap_offset m1"
      "disk m2 = disk m1" "mem_map m2 = mem_map m1" "inactive_list m2 = inactive_list m1" by (subst m2(3), simp)+
    have pg2: "pg m2 = pg (upd_pg p SetPageActive m1)" by (simp add: pg_def f2(1) fun_eq_iff upd_pg_def)
    have "cached zl (upd_pg p SetPageActive m1) = cached zl m1"
      using cached_upd[OF inv_frames[OF m1(2)] u, of "SetPageFlag PG_active"] p g1 by (auto simp: cached_def)
    then have c2: "cached zl m2 = cached zl m" unfolding cached_def pg2 f2(1) using g1(2) by (simp add: cached_def)
    have "laundered zl 0 m m2"
      by (rule launder_keep[OF i0]) (use m2(2) c2 f1 f2 g1 in \<open>auto simp: pg2 page_ref_def\<close>)
    moreover have "launder_page ok p m = Some (0, m2)" using m1(1) False g1 m2(1) by (simp add: launder_page_def)
    ultimately show ?thesis using f1 f2 by (intro exI[of _ 0] exI[of _ m2] exI[of _ "[]"]) simp
  next
    case ref: True
    have i1: "swap_inv zl {p} {off} m1" by (rule inv_weaken[OF m1(2)]) simp
    show ?thesis
    proof (cases "mem_map m off = 0")
      case z: True
      let ?m = "set_mem_map off SWAP_UNUSED m1"
      have "\<exists>m'. swap_free_page p ?m = Some m' \<and> laundered zl 1 m m' \<and> inactive_list m' = remove1 p (inactive_list m)"
        by (rule launder_free[OF i0 p off(2,1) ref])
          (use inv_open[OF i1, of off SWAP_UNUSED] f1 g1 z off ref in \<open>auto simp: page_ref_def\<close>)
      moreover have "launder_page ok p m = (do { m \<leftarrow> swap_free_page p ?m; Some (1, m) })"
        using m1(1) g1 ref off so z f1 by (simp add: launder_page_def try_free_swap_entry_def)
      ultimately show ?thesis by fastforce
    next
      case nz: False
      show ?thesis
      proof (cases "PageDirty (pg m p)")
        case clean: False
        have "\<exists>m'. swap_free_page p m1 = Some m' \<and> laundered zl 1 m m' \<and> inactive_list m' = remove1 p (inactive_list m)"
          by (rule launder_free[OF i0 p off(2,1) ref i1]) (use f1 g1 nz off ref clean in auto)
        moreover have "launder_page ok p m = (do { m \<leftarrow> swap_free_page p m1; Some (1, m) })"
          using m1(1) g1 ref off so nz f1 clean by (simp add: launder_page_def try_free_swap_entry_def)
        ultimately show ?thesis by fastforce
      next
        case dirty: True
        let ?v = "mem_map m off"
        define m2 where "m2 = upd_pg p ClearPageDirty m1"
        have i2: "swap_inv zl {p} {off} m2" unfolding m2_def by (rule inv_upd[OF i1 u]) simp_all
        have c2: "cached zl m2 = cached zl m"
          using cached_upd[OF inv_frames[OF m1(2)] u, of "ClearPageFlag PG_dirty"] p g1 unfolding m2_def by (auto simp: cached_def)
        have f2: "bd m2 = upd_page p ClearPageDirty (bd m)" "words m2 = words m" "disk m2 = disk m" "mem_map m2 = mem_map m"
          "max_swap_offset m2 = max_swap_offset m" "inactive_list m2 = remove1 p (inactive_list m)"
          "\<And>q. pg m2 q = (if q = p then ClearPageDirty (pg m p) else pg m q)" by (simp_all add: m2_def f1 g1)
        have v: "?v \<noteq> 0" "?v \<noteq> SWAP_UNUSED" "?v + 1 - 1 = ?v" "?v < MAX_SWAP_REF"
        proof -
          have "unat ?v < 2 ^ 16" using unsigned_less[of ?v] by (simp only: len_num1 len_bit0 len_num0) simp
          moreover have "unat ?v \<noteq> 0xFFFF" "unat ?v \<noteq> 0xFFFE" using cap[of off] off(3) by (auto simp: word_unat_eq_iff)
          ultimately show "?v < MAX_SWAP_REF" by (simp add: word_less_nat_alt)
        qed (use nz off(3) in simp_all)
        show ?thesis
        proof (cases "ok ?e")
          case True
          let ?m = "m2\<lparr>disk := (disk m)(off := words m p)\<rparr>"
          have lk: "like m2 ?m" by (simp add: like_def)
          have g: "pg ?m = pg m2" "cached zl ?m = cached zl m2" by (simp_all add: pg_def cached_def fun_eq_iff)
          have im: "swap_inv zl {p} {off} ?m"
            by (rule swap_inv_cong[OF i2 lk]) (use inv_frames[OF i2] g in \<open>simp_all add: frames_ok_def\<close>)
          have "\<exists>m'. swap_free_page p ?m = Some m' \<and> laundered zl 1 m m' \<and> inactive_list m' = remove1 p (inactive_list m)"
            by (rule launder_free[OF i0 p off(2,1) ref im]) (use f1 f2 g c2 v off ref dirty in \<open>auto simp: page_ref_def\<close>)
          moreover have "launder_page ok p m = (do { m \<leftarrow> swap_free_page p ?m; Some (1, m) })"
          proof -
            let ?n = "(set_mem_map off (?v + 1) m2)\<lparr>disk := (disk m)(off := words m p)\<rparr>"
            have eq: "set_mem_map off ?v ?n = ?m" using f2(4) by (cases m2) (simp add: set_mem_map_def)
            have o: "swap_offset ?e m2 = Some off" "swap_offset ?e ?n = Some off" "swap_offset ?e ?m = Some off"
              using so f2 by (simp_all add: swap_offset_def)
            have r: "page_ref ?m p = 0" "\<not> PageDirty (pg ?m p)" "mem_map ?m off \<noteq> 0" "mem_map ?n off = ?v + 1"
              "page_ref ?n p = 0" "\<not> PageDirty (pg ?n p)"
              using ref f2 g v by (simp_all add: page_ref_def pg_def)
            show ?thesis
              using m1(1) g1 ref off so nz f1 dirty f2 v o r eq
              by (simp add: launder_page_def try_free_swap_entry_def swap_duplicate_def swapfs_write_def m2_def[symmetric] Let_def True)
          qed
          ultimately show ?thesis by fastforce
        next
          case False
          let ?m = "upd_pg p SetPageDirty m2"
          have u2: "p \<in> managed zl (bd m2)" "p \<notin> free_set (bd m2)" using i2 cached_used[OF i2] c2 p by auto
          have im: "swap_inv zl {p} {} ?m"
            unfolding m2_def by (intro inv_upd[OF inv_upd[OF m1(2) u]]) (use u2 m2_def in simp_all)
          have cm: "cached zl ?m = cached zl m"
            using cached_upd[OF inv_frames[OF i2] u2, of "SetPageFlag PG_dirty"] c2 p by (auto simp: cached_def)
          have fm: "free_set (bd ?m) = free_set (bd m)" "words ?m = words m" "disk ?m = disk m" "mem_map ?m = mem_map m"
            "max_swap_offset ?m = max_swap_offset m" "inactive_list ?m = remove1 p (inactive_list m)"
            using f2 by simp_all
          obtain m3 where m3: "swap_inactive_list_add p ?m = Some m3" "swap_inv zl ({p} - {p}) {} m3"
            "m3 = (upd_pg p ClearPageActive ?m)\<lparr>nr_inactive_pages := nr_inactive_pages m3, inactive_list := inactive_list ?m @ [p]\<rparr>"
            using list_add_ok(2)[OF im, of p] by blast
          have f3: "bd m3 = bd (upd_pg p ClearPageActive ?m)" "words m3 = words ?m" "max_swap_offset m3 = max_swap_offset ?m"
            "disk m3 = disk ?m" "mem_map m3 = mem_map ?m" "inactive_list m3 = inactive_list ?m @ [p]" by (subst m3(3), simp)+
          have pg3: "pg m3 = pg (upd_pg p ClearPageActive ?m)" by (simp add: pg_def f3(1) fun_eq_iff upd_pg_def)
          have um: "p \<in> managed zl (bd ?m)" "p \<notin> free_set (bd ?m)" using cached_used[OF im] cm p by auto
          have "cached zl (upd_pg p ClearPageActive ?m) = cached zl m"
          proof -
            have "PageSwap (pg ?m p)" using cached_used[OF im, of p] p unfolding cm by blast
            then have "PageSwap (ClearPageActive (pg ?m p))" by simp
            then show ?thesis
              using cached_upd[OF inv_frames[OF im] um, of "ClearPageFlag PG_active"] cm p by (simp add: insert_absorb del: upd_pg_fields)
          qed
          then have c3: "cached zl m3 = cached zl m" unfolding cached_def pg3 f3(1) .
          have "laundered zl 0 m m3"
            by (rule launder_keep[OF i0]) (use m3(2) c3 f2 f3 fm dirty in \<open>auto simp: pg3 page_ref_def\<close>)
          moreover have "launder_page ok p m = Some (0, m3)"
          proof -
            let ?n = "upd_pg p SetPageDirty (set_mem_map off (?v + 1) m2)"
            have eq: "set_mem_map off ?v ?n = ?m" using f2(4) by (cases m2) (simp add: set_mem_map_def upd_pg_def)
            have o: "swap_offset ?e m2 = Some off" "swap_offset ?e ?n = Some off" using so f2 by (simp_all add: swap_offset_def)
            have r: "page_ref ?m p = 0" "PageDirty (pg ?m p)" "mem_map ?n off = ?v + 1"
              "page_ref ?n p = 0" "PageDirty (pg ?n p)"
              using ref f2 by (simp_all add: page_ref_def)
            show ?thesis
              using m1(1) g1 ref off so nz f1 dirty f2 v o r eq m3(1)
              by (simp add: launder_page_def try_free_swap_entry_def swap_duplicate_def swapfs_write_def m2_def[symmetric] Let_def False)
          qed
          ultimately show ?thesis using f3 fm by (intro exI[of _ 0] exI[of _ m3] exI[of _ "[p]"]) simp
        qed
      qed
    qed
  qed
qed

section \<open>The scans\<close>

lemma succ_first: "p \<notin> set xs \<Longrightarrow> succ_of p (p # xs @ ys) = list_first (xs @ ys)"
  by (simp add: list_first_def split: list.splits)

lemma laundered_cap: "laundered zl n m m' \<Longrightarrow> (\<And>off. mem_map m off \<noteq> MAX_SWAP_REF) \<Longrightarrow> mem_map m' off \<noteq> MAX_SWAP_REF"
proof -
  assume l: "laundered zl n m m'" and c: "\<And>off. mem_map m off \<noteq> MAX_SWAP_REF"
  have "mem_map m' off = mem_map m off \<or> mem_map m' off = SWAP_UNUSED" using l unfolding laundered_def by blast
  then show ?thesis using c[of off] by auto
qed

lemma launder_loop_ok:
  assumes "swap_ok zl m" "inactive_list m = xs @ ys" "\<And>off. mem_map m off \<noteq> MAX_SWAP_REF"
  shows "\<exists>n m'. launder_loop ok (length xs) (list_first (xs @ ys)) fc m = Some (fc + n, m') \<and> laundered zl n m m'"
  using assms
proof (induction xs arbitrary: m ys fc)
  case Nil
  then show ?case using laundered_refl by (intro exI[of _ 0] exI[of _ m]) simp
next
  case (Cons p xs)
  have l: "p \<in> cached zl m" "PageSwap (pg m p)" "\<not> PageActive (pg m p)" "p \<notin> set xs" "p \<notin> set ys"
    using Cons.prems(1,2) by (auto simp: swap_inv_def lists_ok_swap_def cached_def)
  obtain d m1 zs where m1: "launder_page ok p m = Some (d, m1)" "laundered zl d m m1" "inactive_list m1 = remove1 p (inactive_list m) @ zs"
    using launder_page_ok[OF Cons.prems(1) l(1) Cons.prems(3)] by blast
  have i1: "inactive_list m1 = xs @ (ys @ zs)" using m1(3) Cons.prems(2) by simp
  have s: "succ_of p (inactive_list m) = list_first (xs @ ys)" using Cons.prems(2) succ_first[OF l(4)] by simp
  show ?case
  proof (cases xs)
    case Nil
    then have "launder_loop ok (length (p # xs)) (list_first ((p # xs) @ ys)) fc m = Some (fc + d, m1)"
      using m1(1) l(2,3) by (simp add: list_first_def)
    then show ?thesis using m1(2) by blast
  next
    case (Cons q rs)
    have ok1: "swap_ok zl m1" using m1(2) by (simp add: laundered_def)
    obtain n m' where m': "launder_loop ok (length xs) (list_first (xs @ ys @ zs)) (fc + d) m1 = Some (fc + d + n, m')" "laundered zl n m1 m'"
      using Cons.IH[OF ok1 i1 laundered_cap[OF m1(2) Cons.prems(3)]] by blast
    have "list_first (xs @ ys @ zs) = list_first (xs @ ys)" using Cons by (simp add: list_first_def)
    then have "launder_loop ok (length (p # xs)) (list_first ((p # xs) @ ys)) fc m = Some (fc + (d + n), m')"
      using m1(1) m'(1) l(2,3) s by (simp add: list_first_def add.assoc)
    then show ?thesis using laundered_trans[OF Cons.prems(1) m1(2) m'(2)] by blast
  qed
qed

text \<open>Moving the unmapped pages of the active list: the pages of \<open>xs\<close> are looked at, the ones
  with no reference go to the tail of the inactive list in order.\<close>

lemma refill_loop_ok:
  assumes "swap_ok zl m" "active_list m = ys @ xs"
  shows "\<exists>m'. refill_loop (length xs) (list_first xs) m = Some m' \<and> swap_ok zl m' \<and>
    active_list m' = ys @ filter (\<lambda>p. page_ref m p \<noteq> 0) xs \<and>
    inactive_list m' = inactive_list m @ filter (\<lambda>p. page_ref m p = 0) xs \<and>
    free_set (bd m') = free_set (bd m) \<and> cached zl m' = cached zl m \<and> mem_map m' = mem_map m \<and> page_ref m' = page_ref m \<and>
    words m' = words m \<and> disk m' = disk m \<and>
    (\<forall>q. p_index (pg m' q) = p_index (pg m q) \<and> PageDirty (pg m' q) = PageDirty (pg m q))"
  using assms
proof (induction xs arbitrary: m ys)
  case Nil
  then show ?case by simp
next
  case (Cons p xs)
  have l: "p \<in> cached zl m" "PageSwap (pg m p)" "PageActive (pg m p)" "p \<notin> set xs" "p \<notin> set ys" "p \<notin> set (inactive_list m)"
    using Cons.prems by (auto simp: swap_inv_def lists_ok_swap_def cached_def)
  have s: "succ_of p (ys @ p # xs) = list_first xs" using l(5)
    by (induction ys) (auto simp: list_first_def split: list.splits)
  show ?case
  proof (cases "page_ref m p = 0")
    case False
    obtain m' where "refill_loop (length xs) (list_first xs) m = Some m'" "swap_ok zl m'"
      "active_list m' = (ys @ [p]) @ filter (\<lambda>p. page_ref m p \<noteq> 0) xs"
      "inactive_list m' = inactive_list m @ filter (\<lambda>p. page_ref m p = 0) xs"
      "free_set (bd m') = free_set (bd m)" "cached zl m' = cached zl m" "mem_map m' = mem_map m" "page_ref m' = page_ref m"
      "words m' = words m" "disk m' = disk m" "\<forall>q. p_index (pg m' q) = p_index (pg m q) \<and> PageDirty (pg m' q) = PageDirty (pg m q)"
      using Cons.IH[OF Cons.prems(1), of "ys @ [p]"] Cons.prems(2) by auto
    then show ?thesis using l s Cons.prems(2) False by (simp add: list_first_def)
  next
    case True
    obtain m1 where m1: "swap_list_del p m = Some m1" "swap_inv zl {p} {} m1"
      "m1 = m\<lparr>active_list := remove1 p (active_list m), nr_active_pages := nr_active_pages m1,
        inactive_list := remove1 p (inactive_list m), nr_inactive_pages := nr_inactive_pages m1\<rparr>"
      by (rule list_del_ok[OF Cons.prems(1) l(1)]) auto
    have f1: "bd m1 = bd m" "mem_map m1 = mem_map m" "active_list m1 = ys @ xs" "inactive_list m1 = inactive_list m"
      "words m1 = words m" "disk m1 = disk m"
      using Cons.prems(2) l by (subst m1(3), simp add: remove1_idem)+
    obtain m2 where m2: "swap_inactive_list_add p m1 = Some m2" "swap_inv zl ({p} - {p}) {} m2"
      "m2 = (upd_pg p ClearPageActive m1)\<lparr>nr_inactive_pages := nr_inactive_pages m2, inactive_list := inactive_list m1 @ [p]\<rparr>"
      using list_add_ok(2)[OF m1(2), of p] by blast
    have f2: "bd m2 = upd_page p ClearPageActive (bd m)" "mem_map m2 = mem_map m" "active_list m2 = ys @ xs"
      "inactive_list m2 = inactive_list m @ [p]" "words m2 = words m" "disk m2 = disk m" using f1 by (subst m2(3), simp)+
    have r2: "page_ref m2 = page_ref m" by (simp add: fun_eq_iff page_ref_def pg_def f2(1))
    have c2: "cached zl m2 = cached zl m" using l(1) by (auto simp: cached_def pg_def f2(1) split: if_splits)
    have fs: "free_set (bd m2) = free_set (bd m)" "p_index (pg m2 q) = p_index (pg m q)" "PageDirty (pg m2 q) = PageDirty (pg m q)" for q
      by (simp_all add: f2(1) pg_def)
    obtain m' where "refill_loop (length xs) (list_first xs) m2 = Some m'" "swap_ok zl m'"
      "active_list m' = ys @ filter (\<lambda>p. page_ref m2 p \<noteq> 0) xs"
      "inactive_list m' = inactive_list m2 @ filter (\<lambda>p. page_ref m2 p = 0) xs"
      "free_set (bd m') = free_set (bd m2)" "cached zl m' = cached zl m2" "mem_map m' = mem_map m2" "page_ref m' = page_ref m2"
      "words m' = words m2" "disk m' = disk m2" "\<forall>q. p_index (pg m' q) = p_index (pg m2 q) \<and> PageDirty (pg m' q) = PageDirty (pg m2 q)"
      using Cons.IH[of m2 ys] m2(2) f2(3) by auto
    then show ?thesis using l s Cons.prems(2) True m1(1) m2(1) f2 r2 c2 fs by (simp add: list_first_def)
  qed
qed

section \<open>An example state\<close>

text \<open>Four frames, all free, and a swap space of three entries, of which one is used.\<close>

definition demo_zl :: "nat \<Rightarrow> nat" where
  "demo_zl = (\<lambda>_. 0)(0 := 4)"

definition demo_mem :: mem where
  "demo_mem = \<lparr>bd = demo_buddy, words = (\<lambda>_ _. 7), cr3_frame = 0, tlb = (\<lambda>_. None), active_list = [], nr_active_pages = 0,
     inactive_list = [], nr_inactive_pages = 0, swap_hash = (\<lambda>_. []), mem_map = (\<lambda>_. SWAP_UNUSED)(2 := 1), max_swap_offset = 4,
     swap_next = 1, disk = (\<lambda>_ _. 9)\<rparr>"

lemma quiet_init_blocks: "quiet (pages b q) (pages (init_blocks order p n b) q)"
proof (induction order p n b rule: init_blocks.induct)
  case (1 order p n b)
  show ?case
  proof (cases "n = 0 \<or> \<not> n \<ge> 2 ^ order")
    case True
    with 1 show ?thesis by (subst init_blocks.simps) auto
  next
    case False
    have "quiet (pages b q) (pages (add_block order p b) q)" using touched_add[of p b order] by (simp add: touched_def)
    with 1(1) False show ?thesis by (subst init_blocks.simps) (auto intro: quiet_trans)
  qed
qed

lemma demo_frames: "p < 4 \<Longrightarrow> \<not> PageSwap (pages demo_buddy p) \<and> p_ref (pages demo_buddy p) = 0"
proof -
  assume p: "p < 4"
  let ?f = "\<lambda>pg. set_page_ref 0 (pg\<lparr>p_flags := 0, p_property := 0, p_zone_num := 0\<rparr>)"
  let ?b = "(fold (\<lambda>p. upd_page p ?f) [0..<4] (buddy_init demo_boot))"
  have z: "zone_cnt (buddy_init demo_boot) = 0" "pages (buddy_init demo_boot) = pages demo_boot"
    using buddy_init_fields[where b = demo_boot] by (simp_all add: demo_boot_def)
  have r: "PageReserved (pages demo_boot q)" for q by (simp add: demo_boot_def)
  have "demo_buddy = init_blocks MAX_ORDER 0 4 (?b\<lparr>zones := (zones ?b)(0 := 0), zone_cnt := 0 + 1\<rparr>)"
    unfolding demo_buddy_def buddy_init_memmap_def z Let_def by (simp add: r)
  then have "quiet (pages ?b p) (pages demo_buddy p)"
    using quiet_init_blocks[of "?b\<lparr>zones := (zones ?b)(0 := 0), zone_cnt := 0 + 1\<rparr>" p MAX_ORDER 0 4] by simp
  moreover have "pages ?b p = ?f (pages demo_boot p)" using p by (simp add: fold_upd_page z)
  ultimately show ?thesis by (simp add: quiet_def)
qed

lemma demo_managed: "managed demo_zl demo_buddy = {0..<4}"
  using demo_buddy_ok by (auto simp: managed_def zone_def demo_zl_def)

lemma demo_mem_fields [simp]: "bd demo_mem = demo_buddy" "max_swap_offset demo_mem = 4" "swap_next demo_mem = 1"
  "mem_map demo_mem = (\<lambda>_. SWAP_UNUSED)(2 := 1)" "active_list demo_mem = []" "inactive_list demo_mem = []"
  "nr_active_pages demo_mem = 0" "nr_inactive_pages demo_mem = 0" "swap_hash demo_mem h = []" "disk demo_mem = (\<lambda>_ _. 9)"
  "words demo_mem = (\<lambda>_ _. 7)"
  by (simp_all add: demo_mem_def)

lemma demo_mem_ok: "swap_ok demo_zl demo_mem" "cached demo_zl demo_mem = {}" "valid_off demo_mem 2"
proof -
  show c: "cached demo_zl demo_mem = {}" using demo_frames by (auto simp: cached_def pg_def demo_managed)
  show "valid_off demo_mem 2" by (simp add: valid_off_def)
  have "frames_ok demo_zl demo_mem"
    using demo_buddy_ok demo_frames by (auto simp: frames_ok_def pg_def demo_zl_def)
  then show "swap_ok demo_zl demo_mem"
    using c by (simp add: swap_inv_def lists_ok_swap_def hash_ok_def entries_ok_def scan_ok_def valid_off_def)
qed

text \<open>The state after the used entry has been read back, and after \<open>refill_inactive_scan\<close>.\<close>

definition demo_mem_in :: mem where
  "demo_mem_in = snd (the (swap_in_page (entry_of 2) True demo_mem))"

definition demo_mem_inactive :: mem where
  "demo_mem_inactive = the (refill_inactive_scan demo_mem_in)"

lemma demo_mem_in_ok:
  obtains p where "swap_ok demo_zl demo_mem_in" "mem_map demo_mem_in = mem_map demo_mem" "cached demo_zl demo_mem_in = {p}"
    "p_index (pg demo_mem_in p) = entry_of 2" "page_ref demo_mem_in p = 0" "words demo_mem_in p = (\<lambda>_. 9)"
    "disk demo_mem_in = disk demo_mem" "free_set (bd demo_mem_in) = {0..<4} - {p}" "p < 4"
proof -
  have nf: "swap_hash_find (entry_of 2) demo_mem = None" by (simp add: swap_hash_find_def)
  obtain ret page m' where r: "swap_in_page (entry_of 2) True demo_mem = Some ((ret, page), m')"
    "swap_ok demo_zl m'" "mem_map m' = mem_map demo_mem" "disk m' = disk demo_mem"
    "\<exists>p. p \<in> free_set (bd demo_mem) \<and> free_set (bd m') = free_set (bd demo_mem) - {p} \<and>
            cached demo_zl m' = insert p (cached demo_zl demo_mem) \<and> p_index (pg m' p) = entry_of 2 \<and>
            words m' = (words demo_mem)(p := disk demo_mem 2) \<and> page_ref m' p = 0"
    using swap_in_page_ok[OF demo_mem_ok(1,3), of True] nf demo_buddy_ok(2) by fastforce
  then show ?thesis using that demo_mem_ok(2) demo_buddy_ok(2) by (auto simp: demo_mem_in_def)
qed

lemma demo_mem_inactive_ok:
  obtains p where "swap_ok demo_zl demo_mem_inactive" "mem_map demo_mem_inactive = mem_map demo_mem" "cached demo_zl demo_mem_inactive = {p}"
    "p_index (pg demo_mem_inactive p) = entry_of 2" "disk demo_mem_inactive = disk demo_mem" "words demo_mem_inactive p = (\<lambda>_. 9)"
    "inactive_list demo_mem_inactive = [p]"
proof (rule demo_mem_in_ok)
  fix p assume p: "swap_ok demo_zl demo_mem_in" "mem_map demo_mem_in = mem_map demo_mem" "cached demo_zl demo_mem_in = {p}"
    "p_index (pg demo_mem_in p) = entry_of 2" "page_ref demo_mem_in p = 0" "words demo_mem_in p = (\<lambda>_. 9)"
    "disk demo_mem_in = disk demo_mem" "free_set (bd demo_mem_in) = {0..<4} - {p}" "p < 4"
  let ?m = demo_mem_in
  have l: "distinct (active_list ?m @ inactive_list ?m)" "set (active_list ?m) \<union> set (inactive_list ?m) = {p}"
    "nr_active_pages ?m = length (active_list ?m)" using p(1,3) by (auto simp: swap_inv_def lists_ok_swap_def)
  obtain m' where m': "refill_inactive_scan ?m = Some m'" "swap_ok demo_zl m'"
    "inactive_list m' = inactive_list ?m @ filter (\<lambda>p. page_ref ?m p = 0) (active_list ?m)" "cached demo_zl m' = cached demo_zl ?m"
    "mem_map m' = mem_map ?m" "words m' = words ?m" "disk m' = disk ?m" "p_index (pg m' p) = p_index (pg ?m p)"
    using refill_loop_ok[OF p(1), of "[]" "active_list ?m"] l(3) by (auto simp: refill_inactive_scan_def)
  have "filter (\<lambda>p. page_ref ?m p = 0) (active_list ?m) = active_list ?m" using p(5) l(2) by (auto simp: filter_id_conv)
  then have "inactive_list m' = [p]"
    using m'(3) l(1,2) by (cases "active_list ?m"; cases "inactive_list ?m") (auto simp: set_eq_iff Un_iff; metis list.set_intros(1) set_ConsD distinct.simps(2) list.exhaust)+
  then show ?thesis using that[of p] m' p by (simp add: demo_mem_inactive_def)
qed

section \<open>Properties\<close>

text \<open>C18: \<open>try_alloc_swap_entry\<close> ends and fails no assertion.  It returns 0 exactly when every
  entry of the swap space is in use; otherwise an entry that was unused, or whose count was 0 and
  whose cached page has left the cache; the count of that entry, and nothing else in the table,
  is set to \<open>SWAP_UNUSED\<close>.  The swap cache stays consistent.\<close>

theorem try_alloc_swap_entry_correct:
  assumes "swap_ok zl m"
  shows "\<exists>entry m'. try_alloc_swap_entry m = Some (entry, m') \<and> swap_ok zl m' \<and>
    (if entry = 0
     then (\<forall>off. valid_off m off \<longrightarrow> mem_map m off \<noteq> 0 \<and> mem_map m off \<noteq> SWAP_UNUSED) \<and>
       mem_map m' = mem_map m \<and> cached zl m' = cached zl m
     else \<exists>off. valid_off m off \<and> entry = entry_of off \<and> (mem_map m off = SWAP_UNUSED \<or> mem_map m off = 0) \<and>
       mem_map m' = (mem_map m)(off := SWAP_UNUSED) \<and>
       cached zl m' = {p \<in> cached zl m. p_index (pg m p) \<noteq> entry})"
  using assms by (rule try_alloc_swap_entry_ok)

theorem try_alloc_swap_entry_correct_witness:
  "\<exists>off m'. try_alloc_swap_entry demo_mem = Some (entry_of off, m') \<and> valid_off demo_mem off \<and> off \<noteq> 2 \<and> swap_ok demo_zl m'"
proof -
  have n: "\<exists>off. valid_off demo_mem off \<and> mem_map demo_mem off = SWAP_UNUSED" by (intro exI[of _ 1]) (simp add: valid_off_def)
  from try_alloc_swap_entry_correct[OF demo_mem_ok(1)] n show ?thesis by (fastforce split: if_splits)
qed

text \<open>\<open>swap_remove_entry\<close> of a used entry drops one reference and panics never.  When it was
  the last one, the entry becomes unused, unless its cached page is still mapped; a cached page
  nobody maps goes back to the free pages.  The swap cache stays consistent.\<close>

theorem swap_remove_entry_correct:
  assumes "swap_ok zl m" "valid_off m off" "mem_map m off \<noteq> 0" "mem_map m off \<noteq> SWAP_UNUSED"
  shows "\<exists>m'. swap_remove_entry (entry_of off) m = Some m' \<and> swap_ok zl m' \<and>
    (if mem_map m off \<noteq> 1
     then m' = set_mem_map off (mem_map m off - 1) m
     else (case swap_hash_find (entry_of off) m of
        None \<Rightarrow> m' = set_mem_map off SWAP_UNUSED m
      | Some p \<Rightarrow>
          (if page_ref m p \<noteq> 0 then m' = set_mem_map off 0 m
           else mem_map m' = (mem_map m)(off := SWAP_UNUSED) \<and> cached zl m' = cached zl m - {p} \<and>
             free_set (bd m') = insert p (free_set (bd m)) \<and> p \<notin> free_set (bd m) \<and> only_page zl p m m')))"
  using assms by (rule swap_remove_entry_ok)

theorem swap_remove_entry_correct_witness:
  "\<exists>m'. swap_remove_entry (entry_of 2) demo_mem = Some m' \<and> mem_map m' 2 = SWAP_UNUSED \<and> swap_ok demo_zl m'"
  using swap_remove_entry_correct[OF demo_mem_ok(1,3)] by (auto simp: swap_hash_find_def)

text \<open>C19: \<open>swap_in_page\<close> of a used entry returns the page that caches it, reading it from the
  disk into a fresh, unmapped page if there was none; it fails with \<open>-E_NO_MEM\<close> only when no page
  is free and with \<open>-E_SWAP_FAULT\<close> only when the transfer fails, and then no page is lost.\<close>

theorem swap_in_page_correct:
  assumes "swap_ok zl m" "valid_off m off" "mem_map m off \<noteq> SWAP_UNUSED"
  shows "\<exists>ret page m'. swap_in_page (entry_of off) done m = Some ((ret, page), m') \<and> swap_ok zl m' \<and> mem_map m' = mem_map m \<and> disk m' = disk m \<and>
    (case swap_hash_find (entry_of off) m of
       Some p \<Rightarrow> ret = 0 \<and> page = Some p \<and> m' = m
     | None \<Rightarrow>
         (ret = - E_NO_MEM \<and> page = None \<and> m' = m \<and> free_set (bd m) = {}) \<or>
         (ret = - E_SWAP_FAULT \<and> page = None \<and> \<not> done \<and> cached zl m' = cached zl m \<and> free_set (bd m') = free_set (bd m)) \<or>
         (ret = 0 \<and> done \<and> (\<exists>p. page = Some p \<and> p \<in> free_set (bd m) \<and> free_set (bd m') = free_set (bd m) - {p} \<and>
            cached zl m' = insert p (cached zl m) \<and> p_index (pg m' p) = entry_of off \<and>
            words m' = (words m)(p := disk m off) \<and> page_ref m' p = 0)))"
  using assms by (rule swap_in_page_ok)

theorem swap_in_page_correct_witness:
  "\<exists>p m'. swap_in_page (entry_of 2) True demo_mem = Some ((0, Some p), m') \<and> words m' p = (\<lambda>_. 9) \<and> swap_ok demo_zl m'"
proof -
  have "swap_hash_find (entry_of 2) demo_mem = None" by (simp add: swap_hash_find_def)
  with swap_in_page_correct[OF demo_mem_ok(1,3), of True] demo_buddy_ok(2) show ?thesis by fastforce
qed

text \<open>C17: \<open>page_launder\<close> ends and never panics when no count of an entry is at its limit.  It
  returns the number of pages it freed; a page that is mapped stays in the cache; and no data is
  lost: a cached page whose entry is still referenced is either still cached afterwards or its
  contents, if they were newer than the disk, are on the disk under its entry.\<close>

theorem page_launder_saves_data:
  assumes "swap_ok zl m" "\<forall>off. mem_map m off \<noteq> MAX_SWAP_REF"
    and "\<forall>p \<in> cached zl m. \<forall>off. valid_off m off \<and> p_index (pg m p) = entry_of off \<and> \<not> PageDirty (pg m p) \<longrightarrow> disk m off = words m p"
  shows "\<exists>n m'. page_launder ok m = Some (n, m') \<and> swap_ok zl m' \<and> nr_free_pages m' = nr_free_pages m + n \<and>
    (\<forall>p \<in> cached zl m. page_ref m p \<noteq> 0 \<longrightarrow> p \<in> cached zl m') \<and>
    (\<forall>p \<in> cached zl m. \<forall>off. valid_off m off \<and> p_index (pg m p) = entry_of off \<and> mem_map m off \<noteq> 0 \<longrightarrow>
       p \<in> cached zl m' \<and> words m' p = words m p \<or> disk m' off = words m p)"
proof -
  have len: "nr_inactive_pages m = length (inactive_list m)" using assms(1) by (simp add: swap_inv_def lists_ok_swap_def)
  obtain n m' where m': "launder_loop ok (length (inactive_list m)) (list_first (inactive_list m @ [])) 0 m = Some (0 + n, m')"
    "laundered zl n m m'"
    using launder_loop_ok[OF assms(1), of "inactive_list m" "[]" ok 0] assms(2) by auto
  have run: "page_launder ok m = Some (n, m')" using m'(1) len by (simp add: page_launder_def)
  have ok: "swap_ok zl m'" using m'(2) by (simp add: laundered_def)
  have "nr_free_pages m = card (free_set (bd m))" "nr_free_pages m' = card (free_set (bd m'))"
    using inv_frames[OF assms(1)] inv_frames[OF ok] nr_free_pages_card by (auto simp: nr_free_pages_def frames_ok_def buddy_ok_def)
  then have "nr_free_pages m' = nr_free_pages m + n" using m'(2) by (simp add: laundered_def)
  moreover have "p \<in> cached zl m'" if "p \<in> cached zl m" "page_ref m p \<noteq> 0" for p
    using m'(2) that unfolding laundered_def by blast
  moreover have "p \<in> cached zl m' \<and> words m' p = words m p \<or> disk m' off = words m p"
    if "p \<in> cached zl m" "valid_off m off" "p_index (pg m p) = entry_of off" "mem_map m off \<noteq> 0" for p off
  proof (cases "p \<in> cached zl m'")
    case True
    then show ?thesis using m'(2) by (simp add: laundered_def)
  next
    case False
    then have "mem_map m off = 0 \<or> (if PageDirty (pg m p) then disk m' off = words m p else disk m' off = disk m off)"
      using m'(2) that unfolding laundered_def by blast
    then show ?thesis using that assms(3) by (auto split: if_splits)
  qed
  ultimately show ?thesis using run ok by blast
qed

theorem page_launder_saves_data_witness:
  "\<exists>p n m'. inactive_list demo_mem_inactive = [p] \<and> page_launder (\<lambda>_. True) demo_mem_inactive = Some (n, m') \<and>
     nr_free_pages m' = nr_free_pages demo_mem_inactive + n \<and> (p \<in> cached demo_zl m' \<and> words m' p = (\<lambda>_. 9) \<or> disk m' 2 = (\<lambda>_. 9))"
proof (rule demo_mem_inactive_ok)
  fix p let ?m = demo_mem_inactive
  assume p: "swap_ok demo_zl ?m" "mem_map ?m = mem_map demo_mem" "cached demo_zl ?m = {p}" "p_index (pg ?m p) = entry_of 2"
    "disk ?m = disk demo_mem" "words ?m p = (\<lambda>_. 9)" "inactive_list ?m = [p]"
  have v: "valid_off ?m 2" using inv_offset[OF p(1)] p(2,3) by (auto simp: fun_upd_def split: if_splits)
  have "\<forall>off. mem_map ?m off \<noteq> MAX_SWAP_REF" by (simp add: p(2))
  moreover have "\<forall>q \<in> cached demo_zl ?m. \<forall>off. valid_off ?m off \<and> p_index (pg ?m q) = entry_of off \<and> \<not> PageDirty (pg ?m q) \<longrightarrow> disk ?m off = words ?m q"
    using p by simp
  ultimately show ?thesis
    using page_launder_saves_data[OF p(1), of "\<lambda>_. True"] p v by fastforce
qed

text \<open>\<open>refill_inactive_scan\<close> ends and never panics: exactly the active pages that nobody maps
  move, in order, to the tail of the inactive list.\<close>

theorem refill_moves_unmapped_pages:
  assumes "swap_ok zl m"
  shows "\<exists>m'. refill_inactive_scan m = Some m' \<and> swap_ok zl m' \<and>
    active_list m' = filter (\<lambda>p. page_ref m p \<noteq> 0) (active_list m) \<and>
    inactive_list m' = inactive_list m @ filter (\<lambda>p. page_ref m p = 0) (active_list m) \<and>
    free_set (bd m') = free_set (bd m) \<and> cached zl m' = cached zl m \<and> mem_map m' = mem_map m"
proof -
  have "nr_active_pages m = length (active_list m)" using assms by (simp add: swap_inv_def lists_ok_swap_def)
  then show ?thesis using refill_loop_ok[OF assms, of "[]" "active_list m"] by (auto simp: refill_inactive_scan_def)
qed

theorem refill_moves_unmapped_pages_witness:
  "\<exists>p m'. cached demo_zl demo_mem_in = {p} \<and> refill_inactive_scan demo_mem_in = Some m' \<and> active_list m' = []"
proof (rule demo_mem_in_ok)
  fix p assume p: "swap_ok demo_zl demo_mem_in" "cached demo_zl demo_mem_in = {p}" "page_ref demo_mem_in p = 0"
  have "set (active_list demo_mem_in) \<subseteq> {p}" using p(1,2) by (auto simp: swap_inv_def lists_ok_swap_def)
  then have "filter (\<lambda>p. page_ref demo_mem_in p \<noteq> 0) (active_list demo_mem_in) = []" using p(3) by (auto simp: filter_empty_conv)
  with refill_moves_unmapped_pages[OF p(1)] p(2) show ?thesis by auto
qed

end
