(* ===== verification/Paging.thy ===== *)
theory Paging
  imports Swap
begin

text \<open>
  Page tables: \<open>get_pte\<close>, \<open>page_insert\<close>, \<open>page_remove\<close>, \<open>unmap_range\<close>, \<open>exit_range\<close>,
  \<open>copy_range\<close> and the conversions of \<open>kern/mm/pmm.c\<close>, \<open>pmm.h\<close> and \<open>mmu.h\<close>.  A page
  directory is the number of its frame; a \<open>pte_t *\<close> is a frame and an index.  \<open>tlb\<close> holds the
  translations that the processor may have cached for the loaded page directory
  \<open>cr3_frame\<close>, by page address.
\<close>

section \<open>Addresses (mmu.h, pmm.h)\<close>

abbreviation (input) "PGSIZE \<equiv> (4096 :: u32)"
abbreviation (input) "PTSIZE \<equiv> (0x400000 :: u32)"
abbreviation (input) "USERBASE \<equiv> (0x00200000 :: u32)"
abbreviation (input) "USERTOP \<equiv> (0xB0000000 :: u32)"
abbreviation (input) "KERNBASE \<equiv> (0xC0000000 :: u32)"
abbreviation (input) "KERNTOP \<equiv> (0xF8000000 :: u32)"
abbreviation (input) "PTE_P \<equiv> (0x001 :: u32)"
abbreviation (input) "PTE_W \<equiv> (0x002 :: u32)"
abbreviation (input) "PTE_U \<equiv> (0x004 :: u32)"
abbreviation (input) "PTE_A \<equiv> (0x020 :: u32)"
abbreviation (input) "PTE_D \<equiv> (0x040 :: u32)"
abbreviation (input) "PTE_SWAP \<equiv> (0x060 :: u32)"
abbreviation (input) "PTE_USER \<equiv> (0x007 :: u32)"

definition PDX :: "u32 \<Rightarrow> nat" where
  "PDX la = unat (drop_bit 22 la AND 0x3FF)"

definition PTX :: "u32 \<Rightarrow> nat" where
  "PTX la = unat (drop_bit 12 la AND 0x3FF)"

definition PPN :: "u32 \<Rightarrow> nat" where
  "PPN la = unat (drop_bit 12 la)"

definition PGOFF :: "u32 \<Rightarrow> u32" where
  "PGOFF la = la AND 0xFFF"

definition PTE_ADDR :: "u32 \<Rightarrow> u32" where
  "PTE_ADDR pte = pte AND NOT 0xFFF"

definition ROUNDDOWN :: "u32 \<Rightarrow> u32 \<Rightarrow> u32" where
  "ROUNDDOWN a n = a - a mod n"

definition ROUNDUP :: "u32 \<Rightarrow> u32 \<Rightarrow> u32" where
  "ROUNDUP a n = ROUNDDOWN (a + n - 1) n"

definition USER_ACCESS :: "u32 \<Rightarrow> u32 \<Rightarrow> bool" where
  "USER_ACCESS start end \<longleftrightarrow> USERBASE \<le> start \<and> start < end \<and> end \<le> USERTOP"

definition KERN_ACCESS :: "u32 \<Rightarrow> u32 \<Rightarrow> bool" where
  "KERN_ACCESS start end \<longleftrightarrow> KERNBASE \<le> start \<and> start < end \<and> end \<le> KERNTOP"

definition page2pa :: "nat \<Rightarrow> u32" where
  "page2pa p = push_bit 12 (word_of_nat p)"

definition pa2page :: "u32 \<Rightarrow> mem \<Rightarrow> nat option" where
  "pa2page pa m = (if PPN pa \<ge> npage (bd m) then None else Some (PPN pa))"

definition pte2page :: "u32 \<Rightarrow> mem \<Rightarrow> nat option" where
  "pte2page pte m = (if pte AND PTE_P = 0 then None else pa2page (PTE_ADDR pte) m)"

definition pde2page :: "u32 \<Rightarrow> mem \<Rightarrow> nat option" where
  "pde2page pde m = pa2page (PTE_ADDR pde) m"

text \<open>\<open>KADDR\<close>, with the frame for the kernel virtual address.\<close>

definition KADDR :: "u32 \<Rightarrow> mem \<Rightarrow> nat option" where
  "KADDR pa m = (if PPN pa \<ge> npage (bd m) then None else Some (PPN pa))"

section \<open>The operations (pmm.c)\<close>

definition read_pte :: "nat \<times> nat \<Rightarrow> mem \<Rightarrow> u32" where
  "read_pte ptep m = words m (fst ptep) (snd ptep)"

definition write_pte :: "nat \<times> nat \<Rightarrow> u32 \<Rightarrow> mem \<Rightarrow> mem" where
  "write_pte ptep v m = m\<lparr>words := (words m)(fst ptep := (words m (fst ptep))(snd ptep := v))\<rparr>"

definition get_pte :: "nat \<Rightarrow> u32 \<Rightarrow> bool \<Rightarrow> mem \<Rightarrow> ((nat \<times> nat) option \<times> mem) option" where
  "get_pte pgdir la create m = do {
     let pdep = (pgdir, PDX la);
     (ok, m) \<leftarrow>
       (if read_pte pdep m AND PTE_P = 0 then
          (if \<not> create then Some (False, m)
           else do {
             (page, m) \<leftarrow> alloc_page m;
             (case page of
                None \<Rightarrow> Some (False, m)
              | Some p \<Rightarrow> do {
                  let m = upd_pg p (set_page_ref 1) m;
                  let pa = page2pa p;
                  f \<leftarrow> KADDR pa m;
                  let m = m\<lparr>words := (words m)(f := (\<lambda>_. 0))\<rparr>;
                  Some (True, write_pte pdep (pa OR PTE_U OR PTE_W OR PTE_P) m)
                })
           })
        else Some (True, m));
     (if \<not> ok then Some (None, m)
      else do {
        f \<leftarrow> KADDR (PTE_ADDR (read_pte pdep m)) m;
        Some (Some (f, PTX la), m)
      })
   }"

definition get_page :: "nat \<Rightarrow> u32 \<Rightarrow> mem \<Rightarrow> (nat option \<times> (nat \<times> nat) option) option" where
  "get_page pgdir la m = do {
     (ptep, m) \<leftarrow> get_pte pgdir la False m;
     (case ptep of
        Some pt \<Rightarrow> if read_pte pt m AND PTE_P \<noteq> 0
          then do { p \<leftarrow> pa2page (read_pte pt m) m; Some (Some p, ptep) } else Some (None, ptep)
      | None \<Rightarrow> Some (None, ptep))
   }"

definition tlb_invalidate :: "nat \<Rightarrow> u32 \<Rightarrow> mem \<Rightarrow> mem" where
  "tlb_invalidate pgdir la m =
    (if cr3_frame m = pgdir then m\<lparr>tlb := (tlb m)(ROUNDDOWN la PGSIZE := None)\<rparr> else m)"

text \<open>The first branch of \<open>page_remove_pte\<close> and of \<open>shmem_remove_entry_pte\<close>: one reference to a
  present page is dropped.\<close>

definition drop_page :: "u32 \<Rightarrow> mem \<Rightarrow> mem option" where
  "drop_page pte m = do {
     p \<leftarrow> pte2page pte m;
     (if \<not> PageSwap (pg m p) then
        (let m = pg_ref_dec p m in if page_ref m p = 0 then free_page p m else Some m)
      else
        (let m = (if pte AND PTE_D \<noteq> 0 then upd_pg p SetPageDirty m else m)
         in Some (pg_ref_dec p m)))
   }"

definition page_remove_pte :: "nat \<Rightarrow> u32 \<Rightarrow> nat \<times> nat \<Rightarrow> mem \<Rightarrow> mem option" where
  "page_remove_pte pgdir la ptep m =
    (if read_pte ptep m AND PTE_P \<noteq> 0 then do {
       m \<leftarrow> drop_page (read_pte ptep m) m;
       Some (tlb_invalidate pgdir la (write_pte ptep 0 m))
     }
     else if read_pte ptep m \<noteq> 0 then do {
       m \<leftarrow> swap_remove_entry (read_pte ptep m) m;
       Some (write_pte ptep 0 m)
     }
     else Some m)"

definition page_remove :: "nat \<Rightarrow> u32 \<Rightarrow> mem \<Rightarrow> mem option" where
  "page_remove pgdir la m = do {
     (ptep, m) \<leftarrow> get_pte pgdir la False m;
     (case ptep of None \<Rightarrow> Some m | Some pt \<Rightarrow> page_remove_pte pgdir la pt m)
   }"

definition page_insert :: "nat \<Rightarrow> nat \<Rightarrow> u32 \<Rightarrow> u32 \<Rightarrow> mem \<Rightarrow> (int \<times> mem) option" where
  "page_insert pgdir p la perm m = do {
     (ptep, m) \<leftarrow> get_pte pgdir la True m;
     (case ptep of
        None \<Rightarrow> Some (- E_NO_MEM, m)
      | Some pt \<Rightarrow> do {
          let m = pg_ref_inc p m;
          let pte = read_pte pt m;
          m \<leftarrow> (if pte \<noteq> 0 then
                  (if pte AND PTE_P \<noteq> 0 \<and> pte2page pte m = Some p then Some (pg_ref_dec p m)
                   else page_remove_pte pgdir la pt m)
                else Some m);
          Some (0, tlb_invalidate pgdir la (write_pte pt (page2pa p OR PTE_P OR perm) m))
        })
   }"

definition pgdir_alloc_page :: "nat \<Rightarrow> u32 \<Rightarrow> u32 \<Rightarrow> mem \<Rightarrow> (nat option \<times> mem) option" where
  "pgdir_alloc_page pgdir la perm m = do {
     (page, m) \<leftarrow> alloc_page m;
     (case page of
        None \<Rightarrow> Some (None, m)
      | Some p \<Rightarrow> do {
          (r, m) \<leftarrow> page_insert pgdir p la perm m;
          (if r \<noteq> 0 then do { m \<leftarrow> free_page p m; Some (None, m) } else Some (Some p, m))
        })
   }"

partial_function (option) unmap_loop :: "nat \<Rightarrow> u32 \<Rightarrow> u32 \<Rightarrow> mem \<Rightarrow> mem option" where
  "unmap_loop pgdir start end m = do {
     (ptep, m) \<leftarrow> get_pte pgdir start False m;
     (start, m) \<leftarrow>
       (case ptep of
          None \<Rightarrow> Some (ROUNDDOWN (start + PTSIZE) PTSIZE, m)
        | Some pt \<Rightarrow> do {
            m \<leftarrow> (if read_pte pt m \<noteq> 0 then page_remove_pte pgdir start pt m else Some m);
            Some (start + PGSIZE, m)
          });
     (if start \<noteq> 0 \<and> start < end then unmap_loop pgdir start end m else Some m)
   }"

definition unmap_range :: "nat \<Rightarrow> u32 \<Rightarrow> u32 \<Rightarrow> mem \<Rightarrow> mem option" where
  "unmap_range pgdir start end m = do {
     kassert (start mod PGSIZE = 0 \<and> end mod PGSIZE = 0);
     kassert (USER_ACCESS start end);
     unmap_loop pgdir start end m
   }"

partial_function (option) exit_loop :: "nat \<Rightarrow> u32 \<Rightarrow> u32 \<Rightarrow> mem \<Rightarrow> mem option" where
  "exit_loop pgdir start end m = do {
     let pdep = (pgdir, PDX start);
     m \<leftarrow> (if read_pte pdep m AND PTE_P \<noteq> 0 then do {
             p \<leftarrow> pde2page (read_pte pdep m) m;
             m \<leftarrow> free_page p m;
             Some (write_pte pdep 0 m)
           }
           else Some m);
     let start = start + PTSIZE;
     (if start \<noteq> 0 \<and> start < end then exit_loop pgdir start end m else Some m)
   }"

definition exit_range :: "nat \<Rightarrow> u32 \<Rightarrow> u32 \<Rightarrow> mem \<Rightarrow> mem option" where
  "exit_range pgdir start end m = do {
     kassert (start mod PGSIZE = 0 \<and> end mod PGSIZE = 0);
     kassert (USER_ACCESS start end);
     exit_loop pgdir (ROUNDDOWN start PTSIZE) end m
   }"

text \<open>The body of \<open>copy_range\<close> for one non-empty entry \<open>ptep\<close> at \<open>start\<close>.\<close>

definition copy_pte :: "nat \<Rightarrow> nat \<Rightarrow> u32 \<Rightarrow> bool \<Rightarrow> nat \<times> nat \<Rightarrow> mem \<Rightarrow> (int \<times> mem) option" where
  "copy_pte to from start share ptep m = do {
     (nptep, m) \<leftarrow> get_pte to start True m;
     (case nptep of
        None \<Rightarrow> Some (- E_NO_MEM, m)
      | Some npt \<Rightarrow> do {
          let pte = read_pte ptep m;
          kassert (pte \<noteq> 0 \<and> read_pte npt m = 0);
          (if pte AND PTE_P \<noteq> 0 then do {
             let perm = pte AND PTE_USER;
             p \<leftarrow> pte2page pte m;
             (perm, m) \<leftarrow>
               (if \<not> share \<and> pte AND PTE_W \<noteq> 0 then do {
                  let perm = perm AND NOT PTE_W;
                  (_, m) \<leftarrow> page_insert from p start (perm OR (pte AND PTE_SWAP)) m;
                  Some (perm, m)
                }
                else Some (perm, m));
             (ret, m) \<leftarrow> page_insert to p start perm m;
             kassert (ret = 0);
             Some (0, m)
           }
           else do {
             m \<leftarrow> swap_duplicate pte m;
             Some (0, write_pte npt pte m)
           })
        })
   }"

partial_function (option) copy_loop :: "nat \<Rightarrow> nat \<Rightarrow> u32 \<Rightarrow> u32 \<Rightarrow> bool \<Rightarrow> mem \<Rightarrow> (int \<times> mem) option" where
  "copy_loop to from start end share m = do {
     (ptep, m) \<leftarrow> get_pte from start False m;
     (r, start, m) \<leftarrow>
       (case ptep of
          None \<Rightarrow> Some (0, ROUNDDOWN (start + PTSIZE) PTSIZE, m)
        | Some pt \<Rightarrow> do {
            (r, m) \<leftarrow> (if read_pte pt m \<noteq> 0 then copy_pte to from start share pt m else Some (0, m));
            Some (r, start + PGSIZE, m)
          });
     (if r \<noteq> 0 then Some (r, m)
      else if start \<noteq> 0 \<and> start < end then copy_loop to from start end share m
      else Some (0, m))
   }"

definition copy_range :: "nat \<Rightarrow> nat \<Rightarrow> u32 \<Rightarrow> u32 \<Rightarrow> bool \<Rightarrow> mem \<Rightarrow> (int \<times> mem) option" where
  "copy_range to from start end share m = do {
     kassert (start mod PGSIZE = 0 \<and> end mod PGSIZE = 0);
     kassert (USER_ACCESS start end);
     copy_loop to from start end share m
   }"

text \<open>\<open>boot_map_segment\<close>, the map of physical memory made at boot.\<close>

fun boot_map_loop :: "nat \<Rightarrow> nat \<Rightarrow> u32 \<Rightarrow> u32 \<Rightarrow> u32 \<Rightarrow> mem \<Rightarrow> mem option" where
  "boot_map_loop 0 pgdir la pa perm m = Some m"
| "boot_map_loop (Suc n) pgdir la pa perm m = do {
     (ptep, m) \<leftarrow> get_pte pgdir la True m;
     pt \<leftarrow> ptep;
     boot_map_loop n pgdir (la + PGSIZE) (pa + PGSIZE) perm (write_pte pt (pa OR PTE_P OR perm) m)
   }"

definition boot_map_segment :: "nat \<Rightarrow> u32 \<Rightarrow> u32 \<Rightarrow> u32 \<Rightarrow> u32 \<Rightarrow> mem \<Rightarrow> mem option" where
  "boot_map_segment pgdir la sz pa perm m = do {
     kassert (PGOFF la = PGOFF pa);
     let n = ROUNDUP (sz + PGOFF la) PGSIZE div PGSIZE;
     boot_map_loop (unat n) pgdir (ROUNDDOWN la PGSIZE) (ROUNDDOWN pa PGSIZE) perm m
   }"

text \<open>\<open>get_pgtable_items\<close>: the next run of present entries with the same permission, from
  \<open>start\<close> on; the result is the permission (0 for none) and the bounds of the run.\<close>

fun skip_entries :: "nat \<Rightarrow> nat \<Rightarrow> (nat \<Rightarrow> u32) \<Rightarrow> (u32 \<Rightarrow> bool) \<Rightarrow> nat" where
  "skip_entries 0 start table f = start"
| "skip_entries (Suc n) start table f = (if f (table start) then skip_entries n (start + 1) table f else start)"

definition get_pgtable_items :: "nat \<Rightarrow> nat \<Rightarrow> (nat \<Rightarrow> u32) \<Rightarrow> u32 \<times> nat \<times> nat" where
  "get_pgtable_items right start table =
    (if start \<ge> right then (0, 0, 0)
     else
       (let l = skip_entries (right - start) start table (\<lambda>e. e AND PTE_P = 0)
        in if l < right then
             (let perm = table l AND PTE_USER;
                  r = skip_entries (right - (l + 1)) (l + 1) table (\<lambda>e. e AND PTE_USER = perm)
              in (perm, l, r))
           else (0, 0, 0)))"

definition perm2str :: "u32 \<Rightarrow> string" where
  "perm2str perm = [if perm AND PTE_U \<noteq> 0 then CHR ''u'' else CHR ''-'', CHR ''r'',
     if perm AND PTE_W \<noteq> 0 then CHR ''w'' else CHR ''-'']"

text \<open>\<open>setup_pgdir\<close> and \<open>put_pgdir\<close> of \<open>kern/process/proc.c\<close>; the entry for \<open>VPT\<close> is the
  one of index \<open>PDX(VPT)\<close>.\<close>

abbreviation (input) "VPT \<equiv> (0xFAC00000 :: u32)"

definition setup_pgdir :: "nat \<Rightarrow> mem \<Rightarrow> ((int \<times> nat option) \<times> mem) option" where
  "setup_pgdir boot_pgdir m = do {
     (page, m) \<leftarrow> alloc_page m;
     (case page of
        None \<Rightarrow> Some ((- E_NO_MEM, None), m)
      | Some p \<Rightarrow> do {
          pgdir \<leftarrow> KADDR (page2pa p) m;
          let m = m\<lparr>words := (words m)(pgdir := words m boot_pgdir)\<rparr>;
          Some ((0, Some pgdir), write_pte (pgdir, PDX VPT) (page2pa pgdir OR PTE_P OR PTE_W) m)
        })
   }"

definition put_pgdir :: "nat \<Rightarrow> mem \<Rightarrow> mem option" where
  "put_pgdir pgdir m = free_page pgdir m"

end
