(* ===== verification/PagingInv.thy ===== *)
theory PagingInv
  imports Paging SwapInv
begin

text \<open>
  Correctness of the page-table operations of \<open>kern/mm/pmm.c\<close>: an address space is a map from user
  page numbers to entries, its page tables are frames of their own, and the reference counts of
  pages and swap entries cover the entries that name them.  The operations are shown to change
  that map as they should and to keep the counts.
\<close>

section \<open>Entries and addresses\<close>

definition present :: "u32 \<Rightarrow> bool" where
  "present e \<longleftrightarrow> e AND PTE_P \<noteq> 0"

lemma present_bit: "present e \<longleftrightarrow> bit e 0"
proof -
  have "e AND 1 = of_bool (bit e 0)" by (simp add: and_one_eq bit_0 mod_2_eq_odd)
  then show ?thesis by (simp add: present_def)
qed

lemma present_zero [simp]: "\<not> present 0"
  by (simp add: present_def)

lemma drop_and_not_mask: "drop_bit k (e AND NOT (mask k)) = drop_bit k (e :: 'a :: len word)"
  by (rule bit_word_eqI) (auto simp: bit_simps dest: bit_imp_le_length)

lemma unat_and_mask: "unat (e AND mask k) < 2 ^ k" for e :: "'a :: len word"
proof -
  have "unat (take_bit k e) < 2 ^ k" unfolding unsigned_take_bit_eq by (rule take_bit_nat_less_exp)
  then show ?thesis by (simp only: take_bit_eq_mask)
qed

lemma PPN_PTE_ADDR [simp]: "PPN (PTE_ADDR e) = PPN e"
proof -
  have m: "(0xFFF :: u32) = mask 12" by (simp add: mask_eq_exp_minus_1)
  show ?thesis unfolding PPN_def PTE_ADDR_def m drop_and_not_mask ..
qed

lemma PPN_page2pa:
  assumes "p < 2 ^ 20" "drop_bit 12 f = (0 :: u32)"
  shows "PPN (page2pa p OR f) = p"
proof -
  have 1: "drop_bit 12 (page2pa p OR f) = drop_bit 12 (page2pa p)" unfolding drop_bit_or assms(2) by (rule or.right_neutral)
  have 2: "page2pa p = word_of_nat (p * 4096)" by (simp add: page2pa_def push_bit_eq_mult mult.commute)
  have 3: "unat (word_of_nat (p * 4096) :: u32) = (p * 4096) mod 2 ^ 32"
    by (simp only: unat_of_nat len_num1 len_bit0 len_num0) simp
  have "unat (drop_bit 12 (page2pa p)) = unat (page2pa p) div 4096" unfolding unat_drop_bit_eq by (simp add: drop_bit_eq_div)
  also have "\<dots> = p" using assms(1) unfolding 2 3 by simp
  finally show ?thesis unfolding PPN_def 1 .
qed

lemma entry_not_present [simp]: "\<not> present (entry_of off)"
  by (simp add: present_bit entry_of_def bit_push_bit_iff)

lemma PDX_PTX_less: "PTX la < 1024" "PDX la < 1024"
proof -
  have m: "(0x3FF :: u32) = mask 10" by (simp add: mask_eq_exp_minus_1)
  show "PTX la < 1024" "PDX la < 1024"
    unfolding PTX_def PDX_def m using unat_and_mask[of _ 10] by simp_all
qed

section \<open>Address spaces\<close>

type_synonym vpage = "nat \<times> nat"

definition vp :: "u32 \<Rightarrow> vpage" where
  "vp la = (PDX la, PTX la)"

definition upages :: "vpage set" where
  "upages = {..<704} \<times> {..<1024}"

lemma finite_upages [simp]: "finite upages"
  by (simp add: upages_def)

definition pte :: "mem \<Rightarrow> nat \<Rightarrow> vpage \<Rightarrow> u32" where
  "pte m d v = (if present (words m d (fst v)) then words m (PPN (words m d (fst v))) (snd v) else 0)"

definition tables :: "mem \<Rightarrow> nat \<Rightarrow> nat set" where
  "tables m d = {PPN (words m d i) |i. i < 704 \<and> present (words m d i)}"

definition maps :: "mem \<Rightarrow> nat \<Rightarrow> nat \<Rightarrow> vpage set" where
  "maps m d q = {v \<in> upages. present (pte m d v) \<and> PPN (pte m d v) = q}"

definition swaps :: "mem \<Rightarrow> nat \<Rightarrow> nat \<Rightarrow> vpage set" where
  "swaps m d off = {v \<in> upages. pte m d v = entry_of off}"

definition used :: "(nat \<Rightarrow> nat) \<Rightarrow> mem \<Rightarrow> nat \<Rightarrow> bool" where
  "used zl m q \<longleftrightarrow> q \<in> managed zl (bd m) \<and> q \<notin> free_set (bd m)"

lemma finite_maps [simp]: "finite (maps m d q)" "finite (swaps m d off)"
  by (simp_all add: maps_def swaps_def)

definition tables_ok :: "(nat \<Rightarrow> nat) \<Rightarrow> nat \<Rightarrow> mem \<Rightarrow> bool" where
  "tables_ok zl d m \<longleftrightarrow> used zl m d \<and> d \<notin> cached zl m \<and>
     (\<forall>f \<in> tables m d. used zl m f \<and> f \<notin> cached zl m \<and> f \<noteq> d) \<and>
     inj_on (\<lambda>i. PPN (words m d i)) {i. i < 704 \<and> present (words m d i)}"

text \<open>A consistent address space with the page directory in frame \<open>d\<close>.\<close>

definition space_ok :: "(nat \<Rightarrow> nat) \<Rightarrow> nat \<Rightarrow> mem \<Rightarrow> bool" where
  "space_ok zl d m \<longleftrightarrow> swap_ok zl m \<and> tables_ok zl d m \<and>
     (\<forall>q. maps m d q \<noteq> {} \<longrightarrow> used zl m q \<and> q \<noteq> d \<and> q \<notin> tables m d) \<and>
     (\<forall>q. card (maps m d q) \<le> unat (page_ref m q)) \<and>
     (\<forall>v \<in> upages. pte m d v \<noteq> 0 \<and> \<not> present (pte m d v) \<longrightarrow> (\<exists>off. valid_off m off \<and> pte m d v = entry_of off)) \<and>
     (\<forall>off. valid_off m off \<longrightarrow> swaps m d off \<noteq> {} \<longrightarrow> mem_map m off \<noteq> SWAP_UNUSED \<and> card (swaps m d off) \<le> unat (mem_map m off))"

lemma used_npage: "swap_inv zl X Q m \<Longrightarrow> used zl m q \<Longrightarrow> q < npage (bd m)"
  by (auto simp: used_def swap_inv_def frames_ok_def buddy_ok_def zones_ok_def managed_def)

lemma table_used: "space_ok zl d m \<Longrightarrow> i < 704 \<Longrightarrow> present (words m d i) \<Longrightarrow>
    used zl m (PPN (words m d i)) \<and> PPN (words m d i) < npage (bd m) \<and> PPN (words m d i) \<noteq> d"
  using used_npage[of zl "{}" "{}" m] unfolding space_ok_def tables_ok_def tables_def by blast

text \<open>\<open>get_pte\<close> without \<open>create\<close>.\<close>

lemma get_pte_find:
  assumes "space_ok zl d m" "PDX la < 704"
  shows "get_pte d la False m = Some (if present (words m d (PDX la)) then Some (PPN (words m d (PDX la)), PTX la) else None, m)"
proof (cases "present (words m d (PDX la))")
  case True
  then show ?thesis
    using table_used[OF assms True] by (simp add: get_pte_def read_pte_def present_def KADDR_def Let_def)
next
  case False
  then show ?thesis by (simp add: get_pte_def read_pte_def present_def Let_def)
qed

lemma read_pte_vp: "present (words m d i) \<Longrightarrow> read_pte (PPN (words m d i), j) m = pte m d (i, j)"
  by (simp add: read_pte_def pte_def)

text \<open>Writing an entry of a page table.\<close>

lemma write_pte_fields [simp]:
  "bd (write_pte pt e m) = bd m" "pg (write_pte pt e m) = pg m" "cached zl (write_pte pt e m) = cached zl m"
  "page_ref (write_pte pt e m) = page_ref m" "mem_map (write_pte pt e m) = mem_map m" "valid_off (write_pte pt e m) = valid_off m"
  "tlb (write_pte pt e m) = tlb m" "cr3_frame (write_pte pt e m) = cr3_frame m" "used zl (write_pte pt e m) = used zl m"
  "disk (write_pte pt e m) = disk m" "max_swap_offset (write_pte pt e m) = max_swap_offset m"
  by (simp_all add: write_pte_def pg_def cached_def page_ref_def valid_off_def used_def fun_eq_iff)

lemma swap_inv_words: "swap_inv zl X Q m \<Longrightarrow> swap_inv zl X Q (m\<lparr>words := w\<rparr>)"
  by (rule swap_inv_cong[of zl X Q m]) (auto simp: like_def swap_inv_def frames_ok_def cached_def pg_def)

lemma swap_inv_tlb: "swap_inv zl X Q m \<Longrightarrow> swap_inv zl X Q (m\<lparr>tlb := w\<rparr>)"
  by (rule swap_inv_cong[of zl X Q m]) (auto simp: like_def swap_inv_def frames_ok_def cached_def pg_def)

lemma write_entry:
  fixes e :: u32 and j :: nat
  assumes t: "tables_ok zl d m" and i: "i < 704" "present (words m d i)"
  defines "m' \<equiv> write_pte (PPN (words m d i), j) e m"
  shows "words m' d = words m d" "tables m' d = tables m d"
    "\<And>v. v \<in> upages \<Longrightarrow> pte m' d v = (if v = (i, j) then e else pte m d v)"
proof -
  let ?f = "PPN (words m d i)"
  have f: "?f \<noteq> d" using t i unfolding tables_ok_def tables_def by blast
  then show w: "words m' d = words m d" by (simp add: m'_def write_pte_def)
  then show "tables m' d = tables m d" by (simp add: tables_def)
  fix v assume v: "v \<in> upages"
  obtain a b where ab: "v = (a, b)" "a < 704" using v by (auto simp: upages_def)
  show "pte m' d v = (if v = (i, j) then e else pte m d v)"
  proof (cases "present (words m d a)")
    case False
    then show ?thesis using w i ab by (auto simp: pte_def)
  next
    case True
    have "PPN (words m d a) = ?f \<longleftrightarrow> a = i"
      using t True i ab(2) unfolding tables_ok_def inj_on_def by blast
    then show ?thesis using True w ab by (auto simp: pte_def m'_def write_pte_def)
  qed
qed

section \<open>Removing one entry\<close>

text \<open>What must hold of the state in which the entry \<open>v\<close> is overwritten by 0.\<close>

lemma space_clear:
  assumes s: "space_ok zl d m" and v: "v = (i, j)" "v \<in> upages" "present (words m d i)"
    and m1: "swap_ok zl m1" "words m1 = words m" "max_swap_offset m1 = max_swap_offset m"
    and keep: "\<And>q. q = d \<or> q \<in> tables m d \<Longrightarrow> used zl m1 q \<and> q \<notin> cached zl m1"
    and ref: "\<And>q. maps m d q - {v} \<noteq> {} \<Longrightarrow> used zl m1 q \<and> card (maps m d q - {v}) \<le> unat (page_ref m1 q)"
    and sw: "\<And>off. valid_off m off \<Longrightarrow> swaps m d off - {v} \<noteq> {} \<Longrightarrow> mem_map m1 off \<noteq> SWAP_UNUSED \<and> card (swaps m d off - {v}) \<le> unat (mem_map m1 off)"
  defines "m' \<equiv> write_pte (PPN (words m d i), j) 0 m1"
  shows "space_ok zl d m' \<and> words m' d = words m d \<and> (\<forall>u \<in> upages. pte m' d u = (if u = v then 0 else pte m d u))"
proof -
  have t: "tables_ok zl d m" using s by (simp add: space_ok_def)
  have w1: "words m1 d i = words m d i" "tables m1 d = tables m d" "\<And>u. pte m1 d u = pte m d u" using m1(2) by (simp_all add: tables_def pte_def)
  have t1: "tables_ok zl d m1" using t keep unfolding tables_ok_def w1 m1(2) by blast
  have i: "i < 704" using v by (auto simp: upages_def)
  have w: "words m' d = words m1 d" "tables m' d = tables m1 d" "\<And>u. u \<in> upages \<Longrightarrow> pte m' d u = (if u = v then 0 else pte m d u)"
    using write_entry[OF t1 i, where j = j and e = 0] v m1(2) w1 unfolding m'_def by auto
  have mp: "maps m' d q = maps m d q - {v}" for q using w(3) unfolding maps_def by (auto split: if_splits)
  have sp: "swaps m' d off = swaps m d off - {v}" if "valid_off m off" for off
  proof -
    have "entry_of off \<noteq> 0" using entry_of_nonzero[OF _ that] s by (simp add: space_ok_def swap_inv_def)
    then show ?thesis using w(3) unfolding swaps_def by (auto split: if_splits)
  qed
  have f: "bd m' = bd m1" "cached zl m' = cached zl m1" "used zl m' = used zl m1" "page_ref m' = page_ref m1" "mem_map m' = mem_map m1"
    "valid_off m' = valid_off m"
    using m1(3) by (simp_all add: m'_def) (simp add: valid_off_def fun_eq_iff)
  have "swap_ok zl m'" using swap_inv_words[OF m1(1)] by (simp add: m'_def write_pte_def)
  moreover have "tables_ok zl d m'" using t1 unfolding tables_ok_def f w(1,2) by blast
  moreover have "maps m' d q \<noteq> {} \<longrightarrow> used zl m' q \<and> q \<noteq> d \<and> q \<notin> tables m' d" for q
    using s ref[of q] unfolding mp f w(2) w1(2) space_ok_def by blast
  moreover have "card (maps m' d q) \<le> unat (page_ref m' q)" for q
  proof (cases "maps m d q - {v} = {}")
    case True
    show ?thesis unfolding mp True by simp
  qed (use ref[of q] mp f in simp)
  moreover have "\<exists>off. valid_off m' off \<and> pte m' d u = entry_of off"
    if "u \<in> upages" "pte m' d u \<noteq> 0" "\<not> present (pte m' d u)" for u
    using s that w(3) unfolding f space_ok_def by (auto split: if_splits)
  moreover have "mem_map m' off \<noteq> SWAP_UNUSED \<and> card (swaps m' d off) \<le> unat (mem_map m' off)"
    if "valid_off m' off" "swaps m' d off \<noteq> {}" for off
    using sw[of off] that sp[of off] unfolding f by simp
  moreover have "words m' d = words m d" using w(1) m1(2) by simp
  ultimately show ?thesis unfolding space_ok_def using w(3) by blast
qed

lemma space_tlb:
  assumes "space_ok zl d m"
  shows "space_ok zl d (m\<lparr>tlb := w\<rparr>)"
proof -
  have eqs: "used zl (m\<lparr>tlb := w\<rparr>) = used zl m" "cached zl (m\<lparr>tlb := w\<rparr>) = cached zl m" "tables (m\<lparr>tlb := w\<rparr>) d = tables m d"
    "maps (m\<lparr>tlb := w\<rparr>) d = maps m d" "swaps (m\<lparr>tlb := w\<rparr>) d = swaps m d" "page_ref (m\<lparr>tlb := w\<rparr>) = page_ref m"
    "pte (m\<lparr>tlb := w\<rparr>) d = pte m d" "valid_off (m\<lparr>tlb := w\<rparr>) = valid_off m" "words (m\<lparr>tlb := w\<rparr>) = words m" "mem_map (m\<lparr>tlb := w\<rparr>) = mem_map m"
    by (simp_all add: used_def cached_def pg_def tables_def maps_def swaps_def pte_def page_ref_def valid_off_def fun_eq_iff)
  show ?thesis using assms swap_inv_tlb[of zl "{}" "{}" m w] unfolding space_ok_def tables_ok_def eqs by blast
qed

lemma snd_page_ref_dec [simp]: "snd (page_ref_dec q) = q\<lparr>p_ref := p_ref q - 1\<rparr>"
  by (simp add: page_ref_dec_def atomic_sub_return_def)

lemma snd_page_ref_inc [simp]: "snd (page_ref_inc q) = q\<lparr>p_ref := p_ref q + 1\<rparr>"
  by (simp add: page_ref_inc_def atomic_add_return_def)

text \<open>The references counted for a swap entry; pages that lie in the free lists or in the swap cache;
  the books balance: every reference to a page of \<open>A\<close> or to a swap entry that has appeared or gone
  is one entry of the space that has appeared or gone, and a page of \<open>A\<close> whose last reference has gone
  is free or in the swap cache.\<close>

definition swap_refs :: "mem \<Rightarrow> nat \<Rightarrow> nat" where
  "swap_refs m off = (if mem_map m off = SWAP_UNUSED then 0 else unat (mem_map m off))"

definition idle :: "(nat \<Rightarrow> nat) \<Rightarrow> mem \<Rightarrow> nat set" where
  "idle zl m = free_set (bd m) \<union> cached zl m"

definition accounts :: "(nat \<Rightarrow> nat) \<Rightarrow> nat \<Rightarrow> nat set \<Rightarrow> mem \<Rightarrow> mem \<Rightarrow> bool" where
  "accounts zl d A m m' \<longleftrightarrow>
     (\<forall>q \<in> A. unat (page_ref m' q) + card (maps m d q) = unat (page_ref m q) + card (maps m' d q)) \<and>
     (\<forall>q \<in> A. page_ref m q \<noteq> 0 \<and> page_ref m' q = 0 \<longrightarrow> q \<in> idle zl m') \<and>
     (\<forall>off. valid_off m off \<longrightarrow> swap_refs m' off + card (swaps m d off) = swap_refs m off + card (swaps m' d off))"

definition gives_back :: "(nat \<Rightarrow> nat) \<Rightarrow> nat \<Rightarrow> mem \<Rightarrow> mem \<Rightarrow> bool" where
  "gives_back zl d m m' \<longleftrightarrow> accounts zl d (managed zl (bd m)) m m' \<and> managed zl (bd m') = managed zl (bd m) \<and>
     max_swap_offset m' = max_swap_offset m \<and> idle zl m \<subseteq> idle zl m'"

lemma idle_write_pte [simp]: "idle zl (write_pte pt e m) = idle zl m"
  by (simp add: idle_def)

lemma gives_back_refl [simp]: "gives_back zl d m m"
  by (simp add: gives_back_def accounts_def)

lemma gives_back_trans: "gives_back zl d m m1 \<Longrightarrow> gives_back zl d m1 m' \<Longrightarrow> gives_back zl d m m'"
proof -
  assume a: "gives_back zl d m m1" "gives_back zl d m1 m'"
  have v: "valid_off m1 = valid_off m" using a(1) by (simp add: gives_back_def valid_off_def fun_eq_iff)
  have "unat (page_ref m' q) + card (maps m d q) = unat (page_ref m q) + card (maps m' d q)" if "q \<in> managed zl (bd m)" for q
  proof -
    have "unat (page_ref m1 q) + card (maps m d q) = unat (page_ref m q) + card (maps m1 d q)"
      "unat (page_ref m' q) + card (maps m1 d q) = unat (page_ref m1 q) + card (maps m' d q)"
      using a that by (auto simp: gives_back_def accounts_def)
    then show ?thesis by linarith
  qed
  moreover have "swap_refs m' off + card (swaps m d off) = swap_refs m off + card (swaps m' d off)" if "valid_off m off" for off
  proof -
    have "swap_refs m1 off + card (swaps m d off) = swap_refs m off + card (swaps m1 d off)"
      "swap_refs m' off + card (swaps m1 d off) = swap_refs m1 off + card (swaps m' d off)"
      using a that by (auto simp: gives_back_def accounts_def v)
    then show ?thesis by linarith
  qed
  ultimately show ?thesis using a by (fastforce simp: gives_back_def accounts_def)
qed

text \<open>The books of a state do not depend on the translation cache.\<close>

lemma gives_back_tlb: "gives_back zl d m m' \<Longrightarrow> gives_back zl d m (m'\<lparr>tlb := w\<rparr>)"
proof -
  assume g: "gives_back zl d m m'"
  have "page_ref (m'\<lparr>tlb := w\<rparr>) = page_ref m'" "maps (m'\<lparr>tlb := w\<rparr>) d = maps m' d" "swaps (m'\<lparr>tlb := w\<rparr>) d = swaps m' d"
    "idle zl (m'\<lparr>tlb := w\<rparr>) = idle zl m'" "swap_refs (m'\<lparr>tlb := w\<rparr>) = swap_refs m'" "bd (m'\<lparr>tlb := w\<rparr>) = bd m'"
    "max_swap_offset (m'\<lparr>tlb := w\<rparr>) = max_swap_offset m'"
    by (simp_all add: idle_def cached_def pg_def page_ref_def maps_def swaps_def pte_def swap_refs_def fun_eq_iff)
  then show ?thesis using g unfolding gives_back_def accounts_def by presburger
qed

text \<open>One entry \<open>v\<close> is cleared: its page, or its swap entry, loses one reference.\<close>

lemma gives_back_clear:
  assumes w: "\<And>u. u \<in> upages \<Longrightarrow> pte m' d u = (if u = v then 0 else pte m d u)" and v: "v \<in> upages"
    and k: "managed zl (bd m') = managed zl (bd m)" "max_swap_offset m' = max_swap_offset m" "idle zl m \<subseteq> idle zl m'"
    and p: "\<And>q. q \<in> managed zl (bd m) \<Longrightarrow> unat (page_ref m' q) + (if v \<in> maps m d q then 1 else 0) = unat (page_ref m q)"
      "\<And>q. q \<in> managed zl (bd m) \<Longrightarrow> page_ref m q \<noteq> 0 \<Longrightarrow> page_ref m' q = 0 \<Longrightarrow> q \<in> idle zl m'"
    and s: "\<And>off. valid_off m off \<Longrightarrow> entry_of off \<noteq> 0 \<and> swap_refs m' off + (if v \<in> swaps m d off then 1 else 0) = swap_refs m off"
  shows "gives_back zl d m m'"
proof -
  have card1: "card (A - {v}) + (if v \<in> A then 1 else 0) = card A" if "finite A" for A :: "vpage set"
    using that card.remove[of A v] by simp
  have mp: "maps m' d q = maps m d q - {v}" for q using w unfolding maps_def by (auto split: if_splits)
  have sp: "swaps m' d off = swaps m d off - {v}" if "valid_off m off" for off
    using w s[OF that] unfolding swaps_def by (auto split: if_splits)
  have "unat (page_ref m' q) + card (maps m d q) = unat (page_ref m q) + card (maps m' d q)" if "q \<in> managed zl (bd m)" for q
    using p(1)[OF that] card1[of "maps m d q"] unfolding mp by simp
  moreover have "swap_refs m' off + card (swaps m d off) = swap_refs m off + card (swaps m' d off)" if "valid_off m off" for off
    using s[OF that] card1[of "swaps m d off"] unfolding sp[OF that] by simp
  ultimately show ?thesis using k p(2) unfolding gives_back_def accounts_def by blast
qed

lemma entry_of_absent: "\<not> present (entry_of off)"
  by (simp add: present_bit entry_of_def bit_push_bit_iff)

lemma free_no_refs: "swap_inv zl X Q m \<Longrightarrow> q \<in> free_set (bd m) \<Longrightarrow> page_ref m q = 0"
  using inv_frames[of zl X Q m] by (simp add: frames_ok_def page_ref_def atomic_read_def)

text \<open>Dropping one reference to a used page.\<close>

lemma drop_page_ok:
  assumes i: "swap_ok zl m" and q: "used zl m q" "present e" "PPN e = q" "page_ref m q \<noteq> 0"
  obtains m1 where "drop_page e m = Some m1" "swap_ok zl m1" "words m1 = words m" "tlb m1 = tlb m" "cr3_frame m1 = cr3_frame m"
    "max_swap_offset m1 = max_swap_offset m" "mem_map m1 = mem_map m" "cached zl m1 = cached zl m" "page_ref m1 q = page_ref m q - 1"
    "\<And>x. x \<noteq> q \<Longrightarrow> x \<notin> free_set (bd m) \<Longrightarrow> page_ref m1 x = page_ref m x"
    "\<And>x. x \<noteq> q \<or> page_ref m q \<noteq> 1 \<Longrightarrow> used zl m1 x = used zl m x"
    "managed zl (bd m1) = managed zl (bd m)" "free_set (bd m) \<subseteq> free_set (bd m1)" "page_ref m1 q = 0 \<Longrightarrow> q \<in> idle zl m1"
proof -
  have use: "q \<in> managed zl (bd m)" "q \<notin> free_set (bd m)" using q(1) by (simp_all add: used_def)
  have pt: "pte2page e m = Some q" using used_npage[OF i q(1)] q(2,3) by (simp add: pte2page_def pa2page_def present_def)
  have dec: "page_ref (pg_ref_dec p m') x = (if x = p then page_ref m' x - 1 else page_ref m' x)" for p x m'
    by (simp add: page_ref_def pg_ref_dec_def atomic_read_def)
  have mdec: "managed zl (bd (pg_ref_dec p m')) = managed zl (bd m')" "free_set (bd (pg_ref_dec p m')) = free_set (bd m')" for p m'
    by (simp_all add: pg_ref_dec_def managed_def zone_def)
  have idec: "swap_ok zl (pg_ref_dec q m') \<and> cached zl (pg_ref_dec q m') = cached zl m' \<and> used zl (pg_ref_dec q m') = used zl m'"
    if "swap_ok zl m'" "used zl m' q" for m'
  proof -
    have u: "q \<in> managed zl (bd m')" "q \<notin> free_set (bd m')" using that(2) by (simp_all add: used_def)
    have "swap_ok zl (pg_ref_dec q m')" unfolding pg_ref_dec_def by (rule inv_upd[OF that(1) u]) simp_all
    then show ?thesis using frames_upd[OF inv_frames[OF that(1)] u, of "\<lambda>p. snd (page_ref_dec p)"]
      by (auto simp: pg_ref_dec_def cached_def used_def fun_eq_iff)
  qed
  show ?thesis
  proof (cases "PageSwap (pg m q)")
    case True
    define m0 where "m0 = (if e AND PTE_D \<noteq> 0 then upd_pg q SetPageDirty m else m)"
    have i0: "swap_ok zl m0" unfolding m0_def using inv_upd[OF i use, of "SetPageFlag PG_dirty"] i by simp
    have f0: "free_set (bd m0) = free_set (bd m)" "managed zl (bd m0) = managed zl (bd m)" "words m0 = words m" "tlb m0 = tlb m"
      "cr3_frame m0 = cr3_frame m" "max_swap_offset m0 = max_swap_offset m" "mem_map m0 = mem_map m" "page_ref m0 = page_ref m"
      by (simp_all add: m0_def managed_def zone_def page_ref_def fun_eq_iff)
    have c0: "cached zl m0 = cached zl m" using f0(2) by (auto simp: cached_def m0_def split: if_splits)
    have u0: "used zl m0 = used zl m" by (simp add: used_def f0 fun_eq_iff)
    note d0 = idec[OF i0] dec[of q m0]
    have "drop_page e m = Some (pg_ref_dec q m0)" using pt True by (simp add: drop_page_def m0_def Let_def)
    then show ?thesis
    proof (rule that)
      have "q \<in> cached zl m" using True use by (simp add: cached_def)
      then show "q \<in> idle zl (pg_ref_dec q m0)" using d0 q(1) c0 u0 by (simp add: idle_def)
    qed (use d0 q(1) f0 c0 u0 mdec[of q m0] in \<open>auto simp: pg_ref_dec_def\<close>)
  next
    case False
    let ?m = "pg_ref_dec q m"
    note d = idec[OF i q(1)]
    have f: "words ?m = words m" "tlb ?m = tlb m" "cr3_frame ?m = cr3_frame m" "max_swap_offset ?m = max_swap_offset m"
      "mem_map ?m = mem_map m" "free_set (bd ?m) = free_set (bd m)" by (simp_all add: pg_ref_dec_def)
    show ?thesis
    proof (cases "page_ref m q = 1")
      case ne: False
      have "drop_page e m = Some ?m" using pt False ne dec[of q m q] by (simp add: drop_page_def Let_def)
      have "page_ref ?m q \<noteq> 0" using ne dec[of q m q] by simp
      then show ?thesis using \<open>drop_page e m = Some ?m\<close>
        by (intro that[of ?m]) (use d f dec[of q m] mdec[of q m] in auto)
    next
      case one: True
      have u: "q \<in> managed zl (bd ?m)" "q \<notin> free_set (bd ?m)" "q \<notin> cached zl ?m"
      proof -
        have "used zl ?m q" using d q(1) by simp
        then show "q \<in> managed zl (bd ?m)" "q \<notin> free_set (bd ?m)" unfolding used_def by blast+
        have "q \<notin> cached zl m" using False by (simp add: cached_def)
        then show "q \<notin> cached zl ?m" using d by simp
      qed
      obtain m' where m': "free_page q ?m = Some m'" "m' = ?m\<lparr>bd := bd m'\<rparr>" "swap_ok zl m'" "managed zl (bd m') = managed zl (bd ?m)"
        "cached zl m' = cached zl ?m" "free_set (bd m') = insert q (free_set (bd ?m))"
        "\<forall>x. x \<notin> free_set (bd ?m) \<and> x \<noteq> q \<longrightarrow> pg m' x = pg ?m x"
        by (rule inv_free[OF conjunct1[OF d] u])
      have f': "words m' = words ?m" "tlb m' = tlb ?m" "cr3_frame m' = cr3_frame ?m" "max_swap_offset m' = max_swap_offset ?m"
        "mem_map m' = mem_map ?m" by (subst m'(2), simp)+
      have "p_ref (pg m' q) = 0" using inv_frames[OF m'(3)] m'(6) by (simp add: frames_ok_def)
      then have rq: "page_ref m' q = page_ref m q - 1" using one by (simp add: page_ref_def atomic_read_def)
      have rx: "page_ref m' x = page_ref m x" if "x \<noteq> q" "x \<notin> free_set (bd m)" for x
        using m'(7) that f(6) dec[of q m x] by (simp add: page_ref_def)
      have ux: "used zl m' x = used zl m x" if "x \<noteq> q" for x
        using m'(4,6) that d by (auto simp: used_def fun_eq_iff)
      have "drop_page e m = Some m'" using pt False one dec[of q m q] m'(1) by (simp add: drop_page_def Let_def)
      then show ?thesis by (rule that)
          (use m' f f' d rq rx ux one mdec[of q m] in \<open>auto simp: idle_def\<close>)
    qed
  qed
qed

lemma card_sub: "v \<in> A \<Longrightarrow> finite A \<Longrightarrow> card (A - {v}) = card A - 1"
  by (rule card_Diff_singleton)

lemma unat_dec: "(x :: 'a :: len word) \<noteq> 0 \<Longrightarrow> unat (x - 1) = unat x - 1"
  by (rule unat_minus_one)

text \<open>\<open>page_remove_pte\<close> on an entry of the space.\<close>

lemma page_remove_pte_ok:
  assumes s: "space_ok zl d m" and v: "v = (i, j)" "v \<in> upages" "present (words m d i)" and e: "pte m d v \<noteq> 0"
  shows "\<exists>m'. page_remove_pte d la (PPN (words m d i), j) m = Some m' \<and> space_ok zl d m' \<and> words m' d = words m d \<and>
    (\<forall>u \<in> upages. pte m' d u = (if u = v then 0 else pte m d u)) \<and> cr3_frame m' = cr3_frame m \<and>
    tlb m' = (if present (pte m d v) \<and> cr3_frame m = d then (tlb m)(ROUNDDOWN la PGSIZE := None) else tlb m) \<and>
    (\<forall>x. used zl m x \<and> page_ref m x \<noteq> 0 \<longrightarrow>
      (if present (pte m d v) \<and> PPN (pte m d v) = x then page_ref m' x = page_ref m x - 1
       else page_ref m' x = page_ref m x \<and> used zl m' x)) \<and> gives_back zl d m m'"
proof -
  let ?pt = "(PPN (words m d i), j)" and ?e = "pte m d v"
  have rd: "read_pte ?pt m = ?e" using read_pte_vp[OF v(3)] v(1) by simp
  have i: "swap_ok zl m" and t: "tables_ok zl d m" using s by (simp_all add: space_ok_def)
  have c: "\<And>q. maps m d q \<noteq> {} \<Longrightarrow> used zl m q \<and> q \<noteq> d \<and> q \<notin> tables m d" "\<And>q. card (maps m d q) \<le> unat (page_ref m q)"
    "\<And>off. valid_off m off \<Longrightarrow> swaps m d off \<noteq> {} \<Longrightarrow> mem_map m off \<noteq> SWAP_UNUSED \<and> card (swaps m d off) \<le> unat (mem_map m off)"
    using s by (auto simp: space_ok_def)
  have tu: "used zl m q \<and> q \<notin> cached zl m" if "q = d \<or> q \<in> tables m d" for q using t that by (auto simp: tables_ok_def)
  have less: "card (A - {v}) \<le> n" if "card A \<le> n" "finite A" for A n
    using that card_mono[OF that(2), of "A - {v}"] by auto
  show ?thesis
  proof (cases "present ?e")
    case True
    let ?q = "PPN ?e"
    have vm: "v \<in> maps m d ?q" using v(2) True by (simp add: maps_def)
    then have q: "used zl m ?q" "?q \<noteq> d" "?q \<notin> tables m d" using c(1)[of ?q] by auto
    have "0 < card (maps m d ?q)" using vm by (simp add: card_gt_0_iff) blast
    then have r0: "page_ref m ?q \<noteq> 0" using c(2)[of ?q] by auto
    obtain m1 where m1: "drop_page ?e m = Some m1" "swap_ok zl m1" "words m1 = words m" "tlb m1 = tlb m" "cr3_frame m1 = cr3_frame m"
      "max_swap_offset m1 = max_swap_offset m" "mem_map m1 = mem_map m" "cached zl m1 = cached zl m" "page_ref m1 ?q = page_ref m ?q - 1"
      "\<And>x. x \<noteq> ?q \<Longrightarrow> x \<notin> free_set (bd m) \<Longrightarrow> page_ref m1 x = page_ref m x"
      "\<And>x. x \<noteq> ?q \<or> page_ref m ?q \<noteq> 1 \<Longrightarrow> used zl m1 x = used zl m x"
      "managed zl (bd m1) = managed zl (bd m)" "free_set (bd m) \<subseteq> free_set (bd m1)" "page_ref m1 ?q = 0 \<Longrightarrow> ?q \<in> idle zl m1"
      by (rule drop_page_ok[OF i q(1) True refl r0]) blast
    have ref: "used zl m1 x \<and> card (maps m d x - {v}) \<le> unat (page_ref m1 x)" if x: "maps m d x - {v} \<noteq> {}" for x
    proof (cases "x = ?q")
      case True
      have cd: "card (maps m d ?q - {v}) = card (maps m d ?q) - 1" by (rule card_sub[OF vm]) simp
      have "0 < card (maps m d ?q - {v})" using x True by (simp add: card_gt_0_iff)
      then have "1 < unat (page_ref m ?q)" using cd c(2)[of ?q] by simp
      then have "page_ref m ?q \<noteq> 1" by auto
      then show ?thesis using True m1(9,11) q(1) cd c(2)[of ?q] unat_dec[OF r0] by simp
    next
      case False
      have "used zl m x" using c(1)[of x] x by blast
      then show ?thesis using False m1(10,11) less[OF c(2)[of x]] by (simp add: used_def)
    qed
    have keep: "used zl m1 x \<and> x \<notin> cached zl m1" if "x = d \<or> x \<in> tables m d" for x
      using tu[OF that] that q m1(8) m1(11)[of x] by auto
    have sw: "mem_map m1 off \<noteq> SWAP_UNUSED \<and> card (swaps m d off - {v}) \<le> unat (mem_map m1 off)"
      if "valid_off m off" "swaps m d off - {v} \<noteq> {}" for off
      using c(3)[OF that(1)] that(2) less[of "swaps m d off"] m1(7) by auto
    note sc = space_clear[OF s v m1(2,3,6) keep ref sw]
    have "page_remove_pte d la ?pt m = Some (tlb_invalidate d la (write_pte ?pt 0 m1))"
      unfolding page_remove_pte_def rd using True m1(1) by (simp add: present_def)
    moreover have gb: "gives_back zl d m (write_pte ?pt 0 m1)"
    proof (rule gives_back_clear[OF _ v(2)])
      fix q assume q: "q \<in> managed zl (bd m)"
      have eq: "v \<in> maps m d q \<longleftrightarrow> q = ?q" using True v(2) by (auto simp: maps_def)
      have same: "page_ref m1 q = page_ref m q" if "q \<noteq> ?q"
        using m1(10)[OF that] m1(13) free_no_refs[OF i, of q] free_no_refs[OF m1(2), of q] by (cases "q \<in> free_set (bd m)") auto
      have "0 < unat (page_ref m ?q)" using r0 by (simp add: unat_gt_0)
      then show "unat (page_ref (write_pte ?pt 0 m1) q) + (if v \<in> maps m d q then 1 else 0) = unat (page_ref m q)"
        using same m1(9) unat_dec[OF r0] unfolding eq by auto
      assume "page_ref m q \<noteq> 0" "page_ref (write_pte ?pt 0 m1) q = 0"
      then show "q \<in> idle zl (write_pte ?pt 0 m1)" using same m1(14) by (cases "q = ?q") auto
    next
      fix off assume o: "valid_off m off"
      have "v \<notin> swaps m d off" using True entry_of_absent[of off] by (auto simp: swaps_def)
      then show "entry_of off \<noteq> 0 \<and> swap_refs (write_pte ?pt 0 m1) off + (if v \<in> swaps m d off then 1 else 0) = swap_refs m off"
        using m1(7) entry_of_nonzero[OF _ o] i by (simp add: swap_refs_def swap_inv_def)
    qed (use sc m1(6,8,12,13) in \<open>auto simp: idle_def\<close>)
    moreover have "pte (m\<lparr>tlb := w\<rparr>) d u = pte m d u" for m w u by (simp add: pte_def)
    ultimately show ?thesis
      using gives_back_tlb sc space_tlb True m1(4,5,9-11) by (auto simp: tlb_invalidate_def used_def page_ref_def pg_def)
  next
    case False
    obtain off where off: "valid_off m off" "?e = entry_of off" using s v(2) e False unfolding space_ok_def by blast
    have vs: "v \<in> swaps m d off" using v(2) off(2) by (simp add: swaps_def)
    then have u: "mem_map m off \<noteq> SWAP_UNUSED" "card (swaps m d off) \<le> unat (mem_map m off)" using c(3)[OF off(1)] by auto
    have "0 < card (swaps m d off)" using vs by (simp add: card_gt_0_iff) blast
    then have z: "mem_map m off \<noteq> 0" using u(2) by auto
    have cd: "card (swaps m d off - {v}) = card (swaps m d off) - 1" by (rule card_sub[OF vs]) simp
    have other: "v \<notin> swaps m d off'" if "valid_off m off'" "off' \<noteq> off" for off'
      using that off entry_of_inj[of m off off'] i by (auto simp: swaps_def swap_inv_def)
    have nomap: "v \<notin> maps m d q" for q using False by (simp add: maps_def)
    have one: "swaps m d off - {v} = {}" if "mem_map m off = 1"
      using that u(2) cd by (metis One_nat_def card_eq_0_iff diff_is_0_eq' finite_Diff finite_maps(2) unsigned_1)
    have "\<exists>m1. swap_remove_entry ?e m = Some m1 \<and> swap_ok zl m1 \<and> words m1 = words m \<and> tlb m1 = tlb m \<and> cr3_frame m1 = cr3_frame m \<and>
      max_swap_offset m1 = max_swap_offset m \<and> (\<forall>x. used zl m x \<and> (page_ref m x \<noteq> 0 \<or> x \<notin> cached zl m) \<longrightarrow>
        used zl m1 x \<and> page_ref m1 x = page_ref m x \<and> (x \<notin> cached zl m \<longrightarrow> x \<notin> cached zl m1)) \<and>
      (\<forall>k. k \<noteq> off \<longrightarrow> mem_map m1 k = mem_map m k) \<and> (mem_map m off \<noteq> 1 \<longrightarrow> mem_map m1 off = mem_map m off - 1) \<and>
      (\<forall>x \<in> managed zl (bd m). page_ref m1 x = page_ref m x) \<and> managed zl (bd m1) = managed zl (bd m) \<and>
      idle zl m \<subseteq> idle zl m1 \<and> (mem_map m off = 1 \<longrightarrow> swap_refs m1 off = 0)"
    proof -
      obtain m1 where m1: "swap_remove_entry ?e m = Some m1" "swap_ok zl m1" "if mem_map m off \<noteq> 1
     then m1 = set_mem_map off (mem_map m off - 1) m
     else (case swap_hash_find (entry_of off) m of
        None \<Rightarrow> m1 = set_mem_map off SWAP_UNUSED m
      | Some p \<Rightarrow>
          (if page_ref m p \<noteq> 0 then m1 = set_mem_map off 0 m
           else mem_map m1 = (mem_map m)(off := SWAP_UNUSED) \<and> cached zl m1 = cached zl m - {p} \<and>
             free_set (bd m1) = insert p (free_set (bd m)) \<and> p \<notin> free_set (bd m) \<and> only_page zl p m m1))"
        using swap_remove_entry_ok[OF i off(1) z u(1)] unfolding off(2) by blast
      have smm: "words (set_mem_map o' w m) = words m \<and> tlb (set_mem_map o' w m) = tlb m \<and> cr3_frame (set_mem_map o' w m) = cr3_frame m
        \<and> used zl (set_mem_map o' w m) = used zl m \<and> idle zl (set_mem_map o' w m) = idle zl m \<and> page_ref (set_mem_map o' w m) = page_ref m
        \<and> managed zl (bd (set_mem_map o' w m)) = managed zl (bd m) \<and> swap_refs (set_mem_map o' w m) o' = (if w = SWAP_UNUSED then 0 else unat w)" for o' w
        by (simp add: set_mem_map_def used_def idle_def cached_def pg_def page_ref_def swap_refs_def fun_eq_iff)
      show ?thesis
      proof (cases "mem_map m off = 1 \<and> (\<exists>p. swap_hash_find (entry_of off) m = Some p \<and> page_ref m p = 0)")
        case False
        then have "\<exists>w. m1 = set_mem_map off w m \<and> (mem_map m off \<noteq> 1 \<longrightarrow> w = mem_map m off - 1) \<and> (mem_map m off = 1 \<longrightarrow> w = 0 \<or> w = SWAP_UNUSED)"
          using m1(3) by (auto split: option.splits if_splits)
        then show ?thesis using m1(1,2) smm by auto
      next
        case True
        then obtain p where p: "swap_hash_find (entry_of off) m = Some p" "page_ref m p = 0" "mem_map m off = 1" by blast
        then have mm: "mem_map m1 = (mem_map m)(off := SWAP_UNUSED)" "cached zl m1 = cached zl m - {p}"
          "free_set (bd m1) = insert p (free_set (bd m))" "only_page zl p m m1" using m1(3) by auto
        have pc: "p \<in> cached zl m" using hash_find(1)[OF i] p(1) by blast
        have "used zl m1 x \<and> page_ref m1 x = page_ref m x \<and> (x \<notin> cached zl m \<longrightarrow> x \<notin> cached zl m1)"
          if "used zl m x" "page_ref m x \<noteq> 0 \<or> x \<notin> cached zl m" for x
        proof -
          have "x \<noteq> p" using that(2) p(2) pc by auto
          then show ?thesis using that mm by (auto simp: only_page_def used_def page_ref_def)
        qed
        moreover have "page_ref m1 x = page_ref m x" for x
        proof (cases "x \<in> free_set (bd m1)")
          case True
          then show ?thesis using mm(3) p(2) free_no_refs[OF m1(2)] free_no_refs[OF i] by auto
        qed (use mm in \<open>auto simp: only_page_def page_ref_def\<close>)
        moreover have "idle zl m \<subseteq> idle zl m1" using mm(2,3) by (auto simp: idle_def)
        ultimately show ?thesis using m1(1,2) mm p(3) by (auto simp: only_page_def swap_refs_def)
      qed
    qed
    then obtain m1 where m1: "swap_remove_entry ?e m = Some m1" "swap_ok zl m1" "words m1 = words m" "tlb m1 = tlb m" "cr3_frame m1 = cr3_frame m"
      "max_swap_offset m1 = max_swap_offset m" "\<And>x. used zl m x \<Longrightarrow> page_ref m x \<noteq> 0 \<or> x \<notin> cached zl m \<Longrightarrow>
        used zl m1 x \<and> page_ref m1 x = page_ref m x \<and> (x \<notin> cached zl m \<longrightarrow> x \<notin> cached zl m1)"
      "\<And>k. k \<noteq> off \<Longrightarrow> mem_map m1 k = mem_map m k" "mem_map m off \<noteq> 1 \<Longrightarrow> mem_map m1 off = mem_map m off - 1"
      "\<And>x. x \<in> managed zl (bd m) \<Longrightarrow> page_ref m1 x = page_ref m x" "managed zl (bd m1) = managed zl (bd m)"
      "idle zl m \<subseteq> idle zl m1" "mem_map m off = 1 \<Longrightarrow> swap_refs m1 off = 0" by blast
    have ref: "used zl m1 x \<and> card (maps m d x - {v}) \<le> unat (page_ref m1 x)" if x: "maps m d x - {v} \<noteq> {}" for x
    proof -
      have ux: "used zl m x" using c(1)[of x] x by blast
      have "0 < card (maps m d x)" using x by (simp add: card_gt_0_iff) blast
      then have "page_ref m x \<noteq> 0" using c(2)[of x] by auto
      then show ?thesis using m1(7)[OF ux] less[OF c(2)[of x]] by simp
    qed
    have sw: "mem_map m1 k \<noteq> SWAP_UNUSED \<and> card (swaps m d k - {v}) \<le> unat (mem_map m1 k)"
      if k: "valid_off m k" "swaps m d k - {v} \<noteq> {}" for k
    proof (cases "k = off")
      case True
      then have n1: "mem_map m off \<noteq> 1" using one k(2) by blast
      have "mem_map m off - 1 \<noteq> SWAP_UNUSED"
      proof
        assume "mem_map m off - 1 = SWAP_UNUSED"
        then have "mem_map m off = 0" by (simp add: diff_eq_eq)
        then show False using z by simp
      qed
      then show ?thesis using True m1(9)[OF n1] cd u(2) unat_dec[OF z] by simp
    next
      case False
      then show ?thesis using c(3)[OF k(1)] k(2) m1(8)[OF False] less[of "swaps m d k"] by auto
    qed
    note sc = space_clear[OF s v m1(2,3,6) _ ref sw]
    have "page_remove_pte d la ?pt m = Some (write_pte ?pt 0 m1)"
      unfolding page_remove_pte_def rd using False m1(1) e by (simp add: present_def)
    moreover have "used zl m1 x \<and> x \<notin> cached zl m1" if "x = d \<or> x \<in> tables m d" for x
      using tu[OF that] m1(7)[of x] by blast
    moreover have "gives_back zl d m (write_pte ?pt 0 m1)"
    proof (rule gives_back_clear[OF _ v(2)])
      fix off' assume o: "valid_off m off'"
      have "v \<in> swaps m d off' \<longleftrightarrow> off' = off" using vs other[OF o] by blast
      moreover have "swap_refs m1 off + 1 = swap_refs m off"
      proof (cases "mem_map m off = 1")
        case True
        then show ?thesis using m1(13) by (simp add: swap_refs_def)
      next
        case False
        have "mem_map m off - 1 \<noteq> SWAP_UNUSED"
        proof
          assume "mem_map m off - 1 = SWAP_UNUSED"
          then have "mem_map m off = 0" by (simp add: diff_eq_eq)
          then show False using z by simp
        qed
        moreover have "0 < unat (mem_map m off)" using z by (simp add: unat_gt_0)
        ultimately show ?thesis using m1(9)[OF False] u(1) unat_dec[OF z] by (simp add: swap_refs_def)
      qed
      moreover have "swap_refs m1 off' = swap_refs m off'" if "off' \<noteq> off" using m1(8)[OF that] by (simp add: swap_refs_def)
      ultimately show "entry_of off' \<noteq> 0 \<and> swap_refs (write_pte ?pt 0 m1) off' + (if v \<in> swaps m d off' then 1 else 0) = swap_refs m off'"
        using entry_of_nonzero[OF _ o] i by (auto simp: swap_refs_def swap_inv_def)
    qed (use sc m1(6,10-12) nomap calculation in auto)
    ultimately show ?thesis using sc m1(4,5,7) False by simp
  qed
qed

section \<open>Page numbers\<close>

definition pno :: "vpage \<Rightarrow> nat" where
  "pno v = fst v * 1024 + snd v"

lemma unat_drop: "unat (drop_bit k (e :: 'a :: len word)) = unat e div 2 ^ k"
  unfolding unat_drop_bit_eq by (rule drop_bit_eq_div)

lemma vp_nat: "vp la = (unat la div 4096 div 1024, unat la div 4096 mod 1024)"
proof -
  have m: "(0x3FF :: u32) = mask 10" by (simp add: mask_eq_exp_minus_1)
  have um: "unat (w AND mask 10) = unat w mod 1024" for w :: u32
    unfolding take_bit_eq_mask[symmetric] unsigned_take_bit_eq by (simp add: take_bit_eq_mod)
  have "unat la < 2 ^ 32" using unsigned_less[of la] by (simp only: len_num1 len_bit0 len_num0) simp
  then have l: "unat la div 4096 div 1024 < 1024" by simp
  have "unat (drop_bit 22 la) = unat la div 4096 div 1024" unfolding unat_drop by (simp add: div_mult2_eq[symmetric])
  moreover have "unat (drop_bit 12 la) = unat la div 4096" unfolding unat_drop by simp
  ultimately show ?thesis unfolding vp_def PDX_def PTX_def m um using l by simp
qed

lemma pno_vp: "pno (vp la) = unat la div 4096"
  by (simp add: pno_def vp_nat)

lemma pno_inj: "u \<in> upages \<Longrightarrow> v \<in> upages \<Longrightarrow> pno u = pno v \<Longrightarrow> u = v"
proof -
  assume a: "u \<in> upages" "v \<in> upages" "pno u = pno v"
  obtain i j k l where uv: "u = (i, j)" "v = (k, l)" "j < 1024" "l < 1024" using a(1,2) by (cases u; cases v) (auto simp: upages_def)
  have "pno u div 1024 = i" "pno u mod 1024 = j" "pno v div 1024 = k" "pno v mod 1024 = l" using uv by (simp_all add: pno_def)
  then show ?thesis using uv a(3) by simp
qed

lemma user_vp: "la < USERTOP \<Longrightarrow> vp la \<in> upages \<and> PDX la < 704"
proof -
  assume "la < USERTOP"
  then have "unat la < 0xB0000000" by (simp add: word_less_nat_alt)
  then have "unat la div 4096 div 1024 < 704" by simp
  then show ?thesis using vp_nat[of la] by (auto simp: upages_def vp_def)
qed

lemma unat_user_add:
  assumes "la \<le> USERTOP" "k \<le> 0x400000"
  shows "unat (la + k) = unat la + unat k"
proof -
  have "unat la + unat k < 2 ^ 32" using assms by (simp add: word_le_nat_alt)
  then show ?thesis by (simp add: unat_word_ariths)
qed

lemma unat_ROUNDDOWN: "unat (ROUNDDOWN a n) = unat a - unat a mod unat n"
proof -
  have "a mod n \<le> a" by (simp add: word_le_nat_alt unat_mod)
  then show ?thesis unfolding ROUNDDOWN_def by (simp add: unat_sub unat_mod)
qed

text \<open>The translation cache only holds what the loaded page tables say.\<close>

definition tlb_ok :: "nat \<Rightarrow> mem \<Rightarrow> bool" where
  "tlb_ok d m \<longleftrightarrow> (cr3_frame m = d \<longrightarrow> (\<forall>a e. tlb m a = Some e \<longrightarrow> a < USERTOP \<longrightarrow>
     unat a mod 4096 = 0 \<and> present e \<and> pte m d (vp a) = e))"

lemma aligned_vp: "unat a mod 4096 = 0 \<Longrightarrow> unat b mod 4096 = 0 \<Longrightarrow> a < USERTOP \<Longrightarrow> b < USERTOP \<Longrightarrow> vp a = vp b \<Longrightarrow> a = b"
proof -
  assume a: "unat a mod 4096 = 0" "unat b mod 4096 = 0" "vp a = vp b"
  then have "unat a div 4096 = unat b div 4096" using pno_vp by metis
  then have "unat a = unat b" using a(1,2) by (metis div_mod_decomp)
  then show ?thesis by (simp add: word_unat_eq_iff)
qed

lemma ROUNDDOWN_aligned: "unat a mod 4096 = 0 \<Longrightarrow> ROUNDDOWN a PGSIZE = a"
  using unat_ROUNDDOWN[of a PGSIZE] by (simp add: word_unat_eq_iff)

lemma remove_tlb_ok:
  assumes t: "tlb_ok d m" and la: "unat la mod 4096 = 0" "la < USERTOP"
    and m': "\<forall>u \<in> upages. pte m' d u = (if u = vp la then 0 else pte m d u)" "cr3_frame m' = cr3_frame m"
      "tlb m' = (if present (pte m d (vp la)) \<and> cr3_frame m = d then (tlb m)(ROUNDDOWN la PGSIZE := None) else tlb m)"
  shows "tlb_ok d m'"
  unfolding tlb_ok_def
proof (intro impI allI)
  fix a e assume c: "cr3_frame m' = d" and e: "tlb m' a = Some e" and a: "a < USERTOP"
  have e0: "tlb m a = Some e" using e m'(3) by (auto split: if_splits)
  then have p: "unat a mod 4096 = 0" "present e" "pte m d (vp a) = e" using t c a m'(2) by (auto simp: tlb_ok_def)
  have "vp a \<noteq> vp la"
  proof
    assume v: "vp a = vp la"
    then have "a = la" using aligned_vp[OF p(1) la(1) a la(2)] by simp
    then show False using e m'(2,3) p c v ROUNDDOWN_aligned[OF la(1)] by simp
  qed
  then show "unat a mod 4096 = 0 \<and> present e \<and> pte m' d (vp a) = e" using p m'(1) user_vp[OF a] by simp
qed

section \<open>Unmapping a range\<close>

lemma absent_zero:
  assumes v: "v \<in> upages" and "\<not> present (words m d (PDX start))"
    "unat start \<le> pno v * 4096" "pno v * 4096 < (unat start div 0x400000 + 1) * 0x400000"
  shows "pte m d v = 0"
proof -
  obtain a b where ab: "v = (a, b)" "b < 1024" using v by (auto simp: upages_def)
  have i: "PDX start = unat start div 0x400000" using vp_nat[of start] by (simp add: vp_def div_mult2_eq[symmetric])
  have "pno v * 4096 div 0x400000 = a" using ab by (simp add: pno_def div_mult2_eq)
  moreover have "pno v * 4096 div 0x400000 = unat start div 0x400000"
  proof (rule antisym)
    show "unat start div 0x400000 \<le> pno v * 4096 div 0x400000" using assms(3) by (rule div_le_mono)
    have "pno v * 4096 div 0x400000 < unat start div 0x400000 + 1" using assms(4) by (simp add: div_less_iff_less_mult)
    then show "pno v * 4096 div 0x400000 \<le> unat start div 0x400000" by simp
  qed
  ultimately show ?thesis using assms(2) i ab by (simp add: pte_def)
qed

lemma unmap_loop_ok:
  assumes "space_ok zl d m" "tlb_ok d m" "unat start mod 4096 = 0" "unat end mod 4096 = 0" "start < end" "end \<le> USERTOP"
  shows "\<exists>m'. unmap_loop d start end m = Some m' \<and> space_ok zl d m' \<and> tlb_ok d m' \<and> words m' d = words m d \<and> gives_back zl d m m' \<and>
    (\<forall>v \<in> upages. pte m' d v = (if unat start \<le> pno v * 4096 \<and> pno v * 4096 < unat end then 0 else pte m d v))"
  using assms
proof (induction "unat end - unat start" arbitrary: start m rule: less_induct)
  case less
  note s = less.prems(1) and al = less.prems(3,4)
  have lt: "unat start < unat end" "unat end \<le> 0xB0000000" using less.prems(5,6) by (simp_all add: word_less_nat_alt word_le_nat_alt)
  have us: "start < USERTOP" "start \<le> USERTOP" using less.prems(5,6) by auto
  note vs = user_vp[OF us(1)]
  let ?i = "PDX start"
  define p where "p = present (words m d ?i)"
  define start' where "start' = (if p then start + PGSIZE else ROUNDDOWN (start + PTSIZE) PTSIZE)"
  have un: "unat (start + PGSIZE) = unat start + 4096" "unat (start + PTSIZE) = unat start + 0x400000"
    using unat_user_add[OF us(2), of PGSIZE] unat_user_add[OF us(2), of PTSIZE] by simp_all
  have s': "unat start' = (if p then unat start + 4096 else (unat start + 0x400000) - (unat start + 0x400000) mod 0x400000)"
    unfolding start'_def using un by (simp add: unat_ROUNDDOWN)
  have da: "(unat start + 0x400000) div 0x400000 = unat start div 0x400000 + 1" by (rule div_add_self2) simp
  have gt: "unat start < unat start'"
  proof -
    have "(unat start + 0x400000) mod 0x400000 < 0x400000" by simp
    then show ?thesis unfolding s' by auto
  qed
  have al': "unat start' mod 4096 = 0"
  proof -
    have "(unat start + 0x400000) - (unat start + 0x400000) mod 0x400000 = (unat start + 0x400000) div 0x400000 * 1024 * 4096"
      by (simp only: minus_mod_eq_div_mult)
    then have "((unat start + 0x400000) - (unat start + 0x400000) mod 0x400000) mod 4096 = 0" by (simp only: mod_mult_self2_is_0)
    moreover have "(unat start + 4096) mod 4096 = 0" using al(1) by simp
    ultimately show ?thesis unfolding s' by (cases p) (simp_all only: if_True if_False)
  qed
  have "\<exists>m1. get_pte d start False m \<bind> (\<lambda>(ptep, m). (case ptep of
          None \<Rightarrow> Some (ROUNDDOWN (start + PTSIZE) PTSIZE, m)
        | Some pt \<Rightarrow> do {
            m \<leftarrow> (if read_pte pt m \<noteq> 0 then page_remove_pte d start pt m else Some m);
            Some (start + PGSIZE, m)
          })) = Some (start', m1) \<and> space_ok zl d m1 \<and> tlb_ok d m1 \<and> words m1 d = words m d \<and> gives_back zl d m m1 \<and>
      (\<forall>v \<in> upages. pte m1 d v = (if unat start \<le> pno v * 4096 \<and> pno v * 4096 < unat start' then 0 else pte m d v))"
  proof (cases p)
    case True
    then have pr: "present (words m d ?i)" by (simp add: p_def)
    have vv: "vp start = (?i, PTX start)" by (simp add: vp_def)
    have rd: "read_pte (PPN (words m d ?i), PTX start) m = pte m d (vp start)" using read_pte_vp[OF pr] vv by simp
    have range: "unat start \<le> pno v * 4096 \<and> pno v * 4096 < unat start' \<longleftrightarrow> v = vp start" if "v \<in> upages" for v
    proof -
      have k: "unat start = pno (vp start) * 4096" using al(1) unfolding pno_vp by (metis add.right_neutral div_mod_decomp)
      then have "unat start \<le> pno v * 4096 \<and> pno v * 4096 < unat start' \<longleftrightarrow> pno v = pno (vp start)" using s' True by auto
      then show ?thesis using pno_inj[OF that conjunct1[OF vs]] by auto
    qed
    show ?thesis
    proof (cases "pte m d (vp start) = 0")
      case z: True
      then have "\<forall>v \<in> upages. pte m d v = (if unat start \<le> pno v * 4096 \<and> pno v * 4096 < unat start' then 0 else pte m d v)"
        using range by simp
      then show ?thesis
        using get_pte_find[OF s conjunct2[OF vs]] pr rd z True s less.prems(2) by (intro exI[of _ m]) (simp add: start'_def)
    next
      case nz: False
      obtain m1 where m1: "page_remove_pte d start (PPN (words m d ?i), PTX start) m = Some m1" "space_ok zl d m1" "words m1 d = words m d"
        "\<forall>u \<in> upages. pte m1 d u = (if u = vp start then 0 else pte m d u)" "cr3_frame m1 = cr3_frame m"
        "tlb m1 = (if present (pte m d (vp start)) \<and> cr3_frame m = d then (tlb m)(ROUNDDOWN start PGSIZE := None) else tlb m)"
        "gives_back zl d m m1"
        using page_remove_pte_ok[OF s vv conjunct1[OF vs] pr nz, of start] by blast
      have "tlb_ok d m1" by (rule remove_tlb_ok[OF less.prems(2) al(1) us(1) m1(4-6)])
      then show ?thesis
        using get_pte_find[OF s conjunct2[OF vs]] pr rd nz True m1 range by (intro exI[of _ m1]) (simp add: start'_def)
    qed
  next
    case False
    then have pr: "\<not> present (words m d ?i)" by (simp add: p_def)
    have "unat start' = (unat start div 0x400000 + 1) * 0x400000" unfolding s' using False by (simp only: if_False minus_mod_eq_div_mult da)
    then have "pte m d v = 0" if "v \<in> upages" "unat start \<le> pno v * 4096" "pno v * 4096 < unat start'" for v
      using absent_zero[OF that(1), of m d start] pr that by simp
    then show ?thesis
      using get_pte_find[OF s conjunct2[OF vs]] pr False s less.prems(2) by (intro exI[of _ m]) (simp add: start'_def)
  qed
  then obtain m1 where m1: "get_pte d start False m \<bind> (\<lambda>(ptep, m). (case ptep of
          None \<Rightarrow> Some (ROUNDDOWN (start + PTSIZE) PTSIZE, m)
        | Some pt \<Rightarrow> do {
            m \<leftarrow> (if read_pte pt m \<noteq> 0 then page_remove_pte d start pt m else Some m);
            Some (start + PGSIZE, m)
          })) = Some (start', m1)" "space_ok zl d m1" "tlb_ok d m1" "words m1 d = words m d" "gives_back zl d m m1"
      "\<forall>v \<in> upages. pte m1 d v = (if unat start \<le> pno v * 4096 \<and> pno v * 4096 < unat start' then 0 else pte m d v)" by blast
  have n0: "start' \<noteq> 0" using gt by auto
  have run: "unmap_loop d start end m = (if start' < end then unmap_loop d start' end m1 else Some m1)"
  proof -
    have "unmap_loop d start end m = (get_pte d start False m \<bind> (\<lambda>(ptep, m). (case ptep of
          None \<Rightarrow> Some (ROUNDDOWN (start + PTSIZE) PTSIZE, m)
        | Some pt \<Rightarrow> do {
            m \<leftarrow> (if read_pte pt m \<noteq> 0 then page_remove_pte d start pt m else Some m);
            Some (start + PGSIZE, m)
          }))) \<bind> (\<lambda>(start, m). if start \<noteq> 0 \<and> start < end then unmap_loop d start end m else Some m)"
      by (subst unmap_loop.simps) (simp add: get_pte_find[OF s conjunct2[OF vs]])
    then show ?thesis unfolding m1(1) using n0 by simp
  qed
  show ?case
  proof (cases "start' < end")
    case True
    have dec: "unat end - unat start' < unat end - unat start" using gt lt by simp
    obtain m' where m': "unmap_loop d start' end m1 = Some m'" "space_ok zl d m'" "tlb_ok d m'" "words m' d = words m1 d" "gives_back zl d m1 m'"
      "\<forall>v \<in> upages. pte m' d v = (if unat start' \<le> pno v * 4096 \<and> pno v * 4096 < unat end then 0 else pte m1 d v)"
      using less.hyps[OF dec m1(2,3) al' al(2) True less.prems(6)] by blast
    have lt': "unat start' < unat end" using True by (simp add: word_less_nat_alt)
    have "pte m' d v = (if unat start \<le> pno v * 4096 \<and> pno v * 4096 < unat end then 0 else pte m d v)" if "v \<in> upages" for v
      using m'(6) m1(6) that gt lt' by simp
    then show ?thesis using run True m' m1(4) gives_back_trans[OF m1(5) m'(5)] by simp
  next
    case False
    then have ge: "unat end \<le> unat start'" by (simp add: word_less_nat_alt)
    have "pte m1 d v = (if unat start \<le> pno v * 4096 \<and> pno v * 4096 < unat end then 0 else pte m d v)" if v: "v \<in> upages" for v
    proof (cases "unat end \<le> pno v * 4096 \<and> pno v * 4096 < unat start'")
      case True
      have "pte m d v = 0"
      proof (cases p)
        case True
        then have "unat start' = unat start + 4096" using s' by simp
        then have "pno v < unat start div 4096 + 1" "unat end div 4096 \<le> pno v"
          using \<open>unat end \<le> pno v * 4096 \<and> pno v * 4096 < unat start'\<close> al by (auto elim!: dvdE simp: mod_eq_0_iff_dvd)
        moreover have "unat start div 4096 < unat end div 4096" using lt(1) al by (auto elim!: dvdE simp: mod_eq_0_iff_dvd)
        ultimately show ?thesis by simp
      next
        case False
        then have "unat start' = (unat start div 0x400000 + 1) * 0x400000" unfolding s' by (simp only: if_False minus_mod_eq_div_mult da)
        then show ?thesis
          using absent_zero[OF v, of m d start] False lt(1) \<open>unat end \<le> pno v * 4096 \<and> pno v * 4096 < unat start'\<close> by (simp add: p_def)
      qed
      then show ?thesis using m1(6) v True by auto
    next
      case False
      then show ?thesis using m1(6) v ge by auto
    qed
    then show ?thesis using run False m1 by simp
  qed
qed

end
