(* ===== verification/PagingMap.thy ===== *)
theory PagingMap
  imports PagingInv SwapScan
begin

text \<open>
  Mapping a page: \<open>get_pte\<close> with \<open>create\<close>, \<open>page_insert\<close> and \<open>pgdir_alloc_page\<close>, and the properties of the
  page-table operations.
\<close>

section \<open>Growing the page tables\<close>

lemma space_unfold: "space_ok zl d m \<Longrightarrow> swap_ok zl m \<and> tables_ok zl d m \<and>
     (\<forall>q. maps m d q \<noteq> {} \<longrightarrow> used zl m q \<and> q \<noteq> d \<and> q \<notin> tables m d) \<and>
     (\<forall>q. card (maps m d q) \<le> unat (page_ref m q))"
  by (simp add: space_ok_def)

lemma words_eq:
  assumes "words m' = words m"
  shows "tables m' d = tables m d" "pte m' d = pte m d" "maps m' d = maps m d" "swaps m' d = swaps m d"
proof -
  show "tables m' d = tables m d" "pte m' d = pte m d" using assms by (simp_all add: tables_def pte_def fun_eq_iff)
  then have "pte m' d v = pte m d v" for v by simp
  then show "maps m' d = maps m d" "swaps m' d = swaps m d" unfolding maps_def swaps_def by presburger+
qed

lemma space_alloc:
  assumes s: "space_ok zl d m"
  shows "alloc_page m = Some (None, m) \<and> free_set (bd m) = {} \<or>
    (\<exists>p m'. alloc_page m = Some (Some p, m') \<and> space_ok zl d m' \<and> managed zl (bd m') = managed zl (bd m)
      \<and> p \<in> free_set (bd m) \<and> used zl m' p \<and> p \<notin> cached zl m' \<and> p \<noteq> d \<and> p \<notin> tables m d \<and> maps m d p = {}
      \<and> free_set (bd m') = free_set (bd m) - {p} \<and> words m' = words m \<and> tlb m' = tlb m \<and> cr3_frame m' = cr3_frame m
      \<and> page_ref m' p = 0 \<and> (\<forall>q. used zl m q \<longrightarrow> page_ref m' q = page_ref m q \<and> used zl m' q \<and> (q \<notin> cached zl m \<longrightarrow> q \<notin> cached zl m'))
      \<and> mem_map m' = mem_map m \<and> max_swap_offset m' = max_swap_offset m)"
proof -
  have i: "swap_ok zl m" using s by (simp add: space_ok_def)
  from inv_alloc[OF i] show ?thesis
  proof
    assume "\<exists>p m'. alloc_page m = Some (Some p, m') \<and> m' = m\<lparr>bd := bd m'\<rparr> \<and> swap_ok zl m' \<and> managed zl (bd m') = managed zl (bd m)
      \<and> p \<in> free_set (bd m) \<and> p \<in> managed zl (bd m) \<and> p \<notin> cached zl m' \<and> cached zl m' = cached zl m
      \<and> free_set (bd m') = free_set (bd m) - {p} \<and> (\<forall>q. q \<notin> free_set (bd m) \<longrightarrow> pg m' q = pg m q) \<and> p_ref (pg m' p) = 0"
    then obtain p m' where m': "alloc_page m = Some (Some p, m')" "m' = m\<lparr>bd := bd m'\<rparr>" "swap_ok zl m'" "managed zl (bd m') = managed zl (bd m)"
      "p \<in> free_set (bd m)" "p \<in> managed zl (bd m)" "p \<notin> cached zl m'" "cached zl m' = cached zl m" "free_set (bd m') = free_set (bd m) - {p}"
      "\<forall>q. q \<notin> free_set (bd m) \<longrightarrow> pg m' q = pg m q" "p_ref (pg m' p) = 0" by blast
    have f: "words m' = words m" "tlb m' = tlb m" "cr3_frame m' = cr3_frame m" "mem_map m' = mem_map m" "max_swap_offset m' = max_swap_offset m"
      by (subst m'(2), simp)+
    have u: "used zl m' q" if "used zl m q" for q using that m'(4,9) by (auto simp: used_def)
    have r: "page_ref m' q = page_ref m q" if "used zl m q" for q using that m'(10) by (simp add: used_def page_ref_def)
    have eqs: "tables m' d = tables m d" "pte m' d = pte m d" "maps m' d = maps m d" "swaps m' d = swaps m d" "valid_off m' = valid_off m"
      by (simp_all add: tables_def pte_def maps_def swaps_def f valid_off_def fun_eq_iff)
    have d: "used zl m d" "d \<notin> cached zl m" "\<And>q. q \<in> tables m d \<Longrightarrow> used zl m q"
      "\<And>q. maps m d q \<noteq> {} \<Longrightarrow> used zl m q" using s by (auto simp: space_ok_def tables_ok_def)
    have "tables_ok zl d m'" using s u unfolding space_ok_def tables_ok_def eqs m'(8) f by blast
    moreover have "card (maps m' d q) \<le> unat (page_ref m' q)" for q
    proof (cases "maps m d q = {}")
      case True
      show ?thesis unfolding eqs True by simp
    next
      case False
      then show ?thesis using s r[OF d(4)[OF False]] unfolding eqs by (simp add: space_ok_def)
    qed
    ultimately have "space_ok zl d m'" using s u m'(3) unfolding space_ok_def eqs f by blast
    moreover have "p \<noteq> d" "p \<notin> tables m d" "maps m d p = {}" using m'(5) d by (auto simp: used_def)
    moreover have "used zl m' p" using m'(4,6,9) by (simp add: used_def)
    ultimately show ?thesis using m' f u r by (intro disjI2 exI[of _ p] exI[of _ m']) (simp add: page_ref_def atomic_read_def)
  qed simp
qed

lemma space_upd:
  assumes s: "space_ok zl d m" and p: "used zl m p"
    and f: "\<And>q. p_zone_num (f q) = p_zone_num q" "\<And>q. PageProperty (f q) = PageProperty q" "\<And>q. PageReserved (f q) = PageReserved q"
      "\<And>q. PageSwap (f q) = PageSwap q" "\<And>q. PageActive (f q) = PageActive q" "\<And>q. p_index (f q) = p_index q"
    and r: "card (maps m d p) \<le> unat (page_ref (upd_pg p f m) p)"
  shows "space_ok zl d (upd_pg p f m) \<and> used zl (upd_pg p f m) = used zl m \<and> cached zl (upd_pg p f m) = cached zl m"
proof -
  let ?m = "upd_pg p f m"
  have u: "p \<in> managed zl (bd m)" "p \<notin> free_set (bd m)" using p by (auto simp: used_def)
  have i: "swap_ok zl ?m" using s by (intro inv_upd[OF _ u f]) (simp add: space_ok_def)
  have eqs: "used zl ?m = used zl m" "cached zl ?m = cached zl m" "tables ?m d = tables m d" "pte ?m d = pte m d" "maps ?m d = maps m d"
    "swaps ?m d = swaps m d" "valid_off ?m = valid_off m" "words ?m = words m" "mem_map ?m = mem_map m"
    by (auto simp: used_def cached_def f(4) tables_def pte_def maps_def swaps_def valid_off_def fun_eq_iff)
  have "card (maps m d q) \<le> unat (page_ref ?m q)" for q
    using r s by (cases "q = p") (auto simp: space_ok_def page_ref_def)
  then have "space_ok zl d ?m" using s i unfolding space_ok_def tables_ok_def eqs by blast
  then show ?thesis using eqs by simp
qed

text \<open>A fresh, zeroed frame becomes a page table.\<close>

lemma table_entry: "p < 2 ^ 20 \<Longrightarrow> present (page2pa p OR PTE_U OR PTE_W OR PTE_P) \<and> PPN (page2pa p OR PTE_U OR PTE_W OR PTE_P) = p"
  using PPN_page2pa[of p "PTE_U OR PTE_W OR PTE_P"] by (simp add: present_bit bit_or_iff drop_bit_or)

lemma space_table:
  assumes s: "space_ok zl d m" and i: "i < 704" "\<not> present (words m d i)"
    and p: "used zl m p" "p \<notin> cached zl m" "p \<noteq> d" "p \<notin> tables m d" "maps m d p = {}" and e: "present e" "PPN e = p"
  defines "m' \<equiv> write_pte (d, i) e (m\<lparr>words := (words m)(p := (\<lambda>_. 0))\<rparr>)"
  shows "space_ok zl d m' \<and> (\<forall>v \<in> upages. pte m' d v = pte m d v) \<and> words m' d = (words m d)(i := e) \<and>
    used zl m' = used zl m \<and> page_ref m' = page_ref m \<and> tables m' d = insert p (tables m d)"
proof -
  have w: "words m' d = (words m d)(i := e)" "words m' p = (\<lambda>_. 0)" "\<And>q. q \<noteq> d \<Longrightarrow> q \<noteq> p \<Longrightarrow> words m' q = words m q"
    using p(3) by (simp_all add: m'_def write_pte_def)
  have t: "tables_ok zl d m" using s by (simp add: space_ok_def)
  have eqs: "used zl m' = used zl m" "cached zl m' = cached zl m" "page_ref m' = page_ref m" "valid_off m' = valid_off m" "mem_map m' = mem_map m"
    by (simp_all add: m'_def write_pte_def used_def cached_def pg_def page_ref_def valid_off_def fun_eq_iff)
  have ptes: "pte m' d v = pte m d v" if vu: "v \<in> upages" for v
  proof -
    obtain a b where v: "v = (a, b)" "a < 704" using vu by (cases v) (auto simp: upages_def)
    show ?thesis
    proof (cases "a = i")
      case True
      then show ?thesis using i(2) e w by (simp add: v pte_def)
    next
      case False
      then have wa: "words m' d a = words m d a" using w(1) by simp
      show ?thesis
      proof (cases "present (words m d a)")
        case True
        then have "PPN (words m d a) \<in> tables m d" using v(2) by (auto simp: tables_def)
        then have "PPN (words m d a) \<noteq> d \<and> PPN (words m d a) \<noteq> p" using t p(4) by (auto simp: tables_ok_def)
        then show ?thesis using wa w(3)[of "PPN (words m d a)"] by (simp add: v pte_def)
      qed (simp add: v pte_def wa)
    qed
  qed
  have pi: "present (words m' d a) \<longleftrightarrow> a = i \<or> present (words m d a)" "PPN (words m' d a) = (if a = i then p else PPN (words m d a))" for a
    using w(1) e by auto
  have tb: "tables m' d = insert p (tables m d)"
  proof (rule set_eqI)
    fix x show "x \<in> tables m' d \<longleftrightarrow> x \<in> insert p (tables m d)"
      unfolding tables_def pi using i by (auto split: if_splits)
  qed
  have mp: "maps m' d = maps m d" "swaps m' d = swaps m d" using ptes by (auto simp: maps_def swaps_def fun_eq_iff)
  have inj: "inj_on (\<lambda>a. PPN (words m' d a)) {a. a < 704 \<and> present (words m' d a)}"
  proof (rule inj_onI)
    fix a b assume ab: "a \<in> {a. a < 704 \<and> present (words m' d a)}" "b \<in> {a. a < 704 \<and> present (words m' d a)}" "PPN (words m' d a) = PPN (words m' d b)"
    have nt: "PPN (words m d k) \<noteq> p" if "k < 704" "present (words m d k)" for k using p(4) that by (auto simp: tables_def)
    show "a = b"
      using ab nt t i unfolding pi tables_ok_def inj_on_def by (cases "a = i"; cases "b = i") (simp_all add: pi, metis+)
  qed
  have "tables_ok zl d m'" using t p inj unfolding tables_ok_def eqs tb by blast
  moreover have "swap_ok zl m'" using s swap_inv_words[of zl "{}" "{}" m] unfolding m'_def write_pte_def by (simp add: space_ok_def)
  moreover have "q \<noteq> d \<and> q \<notin> tables m' d" if "maps m d q \<noteq> {}" for q using s p(5) that unfolding tb space_ok_def by blast
  ultimately have "space_ok zl d m'" using s ptes unfolding space_ok_def eqs mp by (metis (no_types, lifting))
  then show ?thesis using ptes w(1) eqs tb by blast
qed

text \<open>\<open>get_pte\<close> with \<open>create\<close>.\<close>

definition grown :: "(nat \<Rightarrow> nat) \<Rightarrow> nat \<Rightarrow> mem \<Rightarrow> mem \<Rightarrow> bool" where
  "grown zl d m m' \<longleftrightarrow> space_ok zl d m' \<and> (\<forall>v \<in> upages. pte m' d v = pte m d v) \<and> tlb m' = tlb m \<and> cr3_frame m' = cr3_frame m \<and>
     managed zl (bd m') = managed zl (bd m) \<and> tables m' d \<subseteq> tables m d \<union> free_set (bd m) \<and>
     (\<forall>q. used zl m q \<longrightarrow> used zl m' q \<and> page_ref m' q = page_ref m q) \<and> mem_map m' = mem_map m \<and> max_swap_offset m' = max_swap_offset m"

lemma get_pte_create:
  assumes s: "space_ok zl d m" and la: "PDX la < 704" and np: "\<forall>p \<in> managed zl (bd m). p < 2 ^ 20"
  shows "get_pte d la True m = Some (None, m) \<and> free_set (bd m) = {} \<and> \<not> present (words m d (PDX la)) \<or>
    (\<exists>m'. get_pte d la True m = Some (Some (PPN (words m' d (PDX la)), PTX la), m') \<and> present (words m' d (PDX la)) \<and> grown zl d m m')"
proof (cases "present (words m d (PDX la))")
  case True
  then show ?thesis
    using table_used[OF s la True] s
    by (intro disjI2 exI[of _ m]) (auto simp: get_pte_def read_pte_def present_def KADDR_def Let_def grown_def)
next
  case False
  then have nd: "read_pte (d, PDX la) m AND PTE_P = 0" by (simp add: read_pte_def present_def)
  from space_alloc[OF s] show ?thesis
  proof
    assume "alloc_page m = Some (None, m) \<and> free_set (bd m) = {}"
    then show ?thesis using False nd by (simp add: get_pte_def Let_def)
  next
    assume "\<exists>p m'. alloc_page m = Some (Some p, m') \<and> space_ok zl d m' \<and> managed zl (bd m') = managed zl (bd m)
      \<and> p \<in> free_set (bd m) \<and> used zl m' p \<and> p \<notin> cached zl m' \<and> p \<noteq> d \<and> p \<notin> tables m d \<and> maps m d p = {}
      \<and> free_set (bd m') = free_set (bd m) - {p} \<and> words m' = words m \<and> tlb m' = tlb m \<and> cr3_frame m' = cr3_frame m
      \<and> page_ref m' p = 0 \<and> (\<forall>q. used zl m q \<longrightarrow> page_ref m' q = page_ref m q \<and> used zl m' q \<and> (q \<notin> cached zl m \<longrightarrow> q \<notin> cached zl m'))
      \<and> mem_map m' = mem_map m \<and> max_swap_offset m' = max_swap_offset m"
    then obtain p m1 where m1: "alloc_page m = Some (Some p, m1)" "space_ok zl d m1" "managed zl (bd m1) = managed zl (bd m)"
      "p \<in> free_set (bd m)" "used zl m1 p" "p \<notin> cached zl m1" "p \<noteq> d" "p \<notin> tables m d" "maps m d p = {}"
      "words m1 = words m" "tlb m1 = tlb m" "cr3_frame m1 = cr3_frame m"
      "\<And>q. used zl m q \<Longrightarrow> page_ref m1 q = page_ref m q \<and> used zl m1 q" "mem_map m1 = mem_map m" "max_swap_offset m1 = max_swap_offset m" by blast
    have e1: "tables m1 d = tables m d" "pte m1 d = pte m d" "maps m1 d = maps m d" using words_eq[OF m1(10)] by simp_all
    let ?m2 = "upd_pg p (set_page_ref 1) m1"
    have f2: "space_ok zl d ?m2" "used zl ?m2 = used zl m1" "cached zl ?m2 = cached zl m1"
      using space_upd[OF m1(2,5), of "set_page_ref 1"] m1(9) e1 by (simp_all add: set_page_ref_def)
    have e2: "tables ?m2 d = tables m d" "maps ?m2 d p = {}" "pte ?m2 d = pte m d"
      using words_eq[of ?m2 m1 d] e1 m1(9) by simp_all
    have pm: "p \<in> managed zl (bd m)" using m1(3,5) by (simp add: used_def)
    let ?e = "page2pa p OR PTE_U OR PTE_W OR PTE_P"
    have te: "present ?e" "PPN ?e = p" using table_entry np pm by auto
    define m3 where "m3 = write_pte (d, PDX la) ?e (?m2\<lparr>words := (words ?m2)(p := (\<lambda>_. 0))\<rparr>)"
    have t: "space_ok zl d m3 \<and> (\<forall>v \<in> upages. pte m3 d v = pte ?m2 d v) \<and> words m3 d = (words ?m2 d)(PDX la := ?e) \<and>
      used zl m3 = used zl ?m2 \<and> page_ref m3 = page_ref ?m2 \<and> tables m3 d = insert p (tables ?m2 d)"
      unfolding m3_def using False m1(6-8,10,5) f2 e2 by (intro space_table[OF f2(1) la _ _ _ m1(7) _ _ te]) simp_all
    have pn: "p < npage (bd m1)" "PPN (page2pa p) = p"
      using used_npage[of zl "{}" "{}" m1] m1(2,5) PPN_page2pa[of p 0] np pm by (auto simp: space_ok_def)
    have "get_pte d la True m = Some (Some (p, PTX la), m3)"
      using nd m1(1) pn te by (simp add: get_pte_def Let_def KADDR_def m3_def read_pte_def write_pte_def)
    moreover have "words m3 d (PDX la) = ?e" using t by simp
    moreover have "grown zl d m m3"
    proof -
      have "used zl m3 q \<and> page_ref m3 q = page_ref m q" if "used zl m q" for q
        using that m1(13)[OF that] t f2(2) m1(4) by (auto simp: page_ref_def used_def)
      moreover have "tlb m3 = tlb m" "cr3_frame m3 = cr3_frame m" "managed zl (bd m3) = managed zl (bd m)"
        "mem_map m3 = mem_map m" "max_swap_offset m3 = max_swap_offset m"
        by (simp_all add: m3_def m1 write_pte_def)
      ultimately show ?thesis using t e2 m1(4) unfolding grown_def by auto
    qed
    ultimately show ?thesis using te by (intro disjI2 exI[of _ m3]) simp
  qed
qed

section \<open>Setting an entry\<close>

lemma space_set:
  assumes s: "space_ok zl d m" and v: "v = (i, j)" "v \<in> upages" "present (words m d i)"
    and e: "present e" "PPN e = p" "used zl m p" "p \<noteq> d" "p \<notin> tables m d" "card (insert v (maps m d p)) \<le> unat (page_ref m p)"
  defines "m' \<equiv> write_pte (PPN (words m d i), j) e m"
  shows "space_ok zl d m' \<and> (\<forall>u \<in> upages. pte m' d u = (if u = v then e else pte m d u))"
proof -
  have t: "tables_ok zl d m" using s by (simp add: space_ok_def)
  have i: "i < 704" using v by (auto simp: upages_def)
  have w: "words m' d = words m d" "tables m' d = tables m d" "\<And>u. u \<in> upages \<Longrightarrow> pte m' d u = (if u = v then e else pte m d u)"
    using write_entry[OF t i, where j = j and e = e] v unfolding m'_def by auto
  have mp: "maps m' d q = (if q = p then insert v (maps m d p) else maps m d q - {v})" for q
  proof -
    have "u \<in> maps m' d q \<longleftrightarrow> u \<in> (if q = p then insert v (maps m d p) else maps m d q - {v})" for u
      using w(3)[of u] v(2) e(1,2) unfolding maps_def by (cases "u = v") auto
    then show ?thesis by blast
  qed
  have sp: "swaps m' d off \<subseteq> swaps m d off" for off
    using w(3) e(1) unfolding swaps_def by (auto split: if_splits)
  have f: "cached zl m' = cached zl m" "used zl m' = used zl m" "page_ref m' = page_ref m" "mem_map m' = mem_map m" "valid_off m' = valid_off m"
    by (simp_all add: m'_def)
  have "swap_ok zl m'" using s swap_inv_words[of zl "{}" "{}" m] by (simp add: m'_def write_pte_def space_ok_def)
  moreover have "tables_ok zl d m'" using t unfolding tables_ok_def f w(1,2) by blast
  moreover have "used zl m' q \<and> q \<noteq> d \<and> q \<notin> tables m' d" if "maps m' d q \<noteq> {}" for q
  proof (cases "q = p")
    case True
    then show ?thesis using e(3-5) unfolding f w(2) by blast
  next
    case False
    then have "maps m d q \<noteq> {}" using that unfolding mp by auto
    then show ?thesis using space_unfold[OF s] unfolding f w(2) by blast
  qed
  moreover have "card (maps m' d q) \<le> unat (page_ref m' q)" for q
  proof (cases "q = p")
    case True
    then show ?thesis using e(6) unfolding mp f by simp
  next
    case False
    have "card (maps m d q - {v}) \<le> card (maps m d q)" by (intro card_mono) auto
    moreover have "card (maps m d q) \<le> unat (page_ref m q)" using space_unfold[OF s] by blast
    ultimately show ?thesis using False unfolding mp f by simp
  qed
  moreover have "\<exists>off. valid_off m' off \<and> pte m' d u = entry_of off" if "u \<in> upages" "pte m' d u \<noteq> 0" "\<not> present (pte m' d u)" for u
    using s that w(3) e(1) unfolding f space_ok_def by (auto split: if_splits)
  moreover have "mem_map m' off \<noteq> SWAP_UNUSED \<and> card (swaps m' d off) \<le> unat (mem_map m' off)"
    if o: "valid_off m' off" "swaps m' d off \<noteq> {}" for off
  proof -
    have "swaps m d off \<noteq> {}" using o(2) sp[of off] by blast
    then have "mem_map m off \<noteq> SWAP_UNUSED" "card (swaps m d off) \<le> unat (mem_map m off)" using s o(1) unfolding f space_ok_def by blast+
    moreover have "card (swaps m' d off) \<le> card (swaps m d off)" using sp by (intro card_mono) auto
    ultimately show ?thesis unfolding f by simp
  qed
  ultimately have "space_ok zl d m'" unfolding space_ok_def by blast
  then show ?thesis using w(3) by blast
qed

lemma vp_ROUNDDOWN: "vp (ROUNDDOWN la PGSIZE) = vp la \<and> unat (ROUNDDOWN la PGSIZE) mod 4096 = 0 \<and> ROUNDDOWN la PGSIZE \<le> la"
proof -
  have u: "unat (ROUNDDOWN la PGSIZE) = unat la div 4096 * 4096"
    using unat_ROUNDDOWN[of la PGSIZE] by (simp add: minus_mod_eq_div_mult)
  then show ?thesis unfolding vp_nat u word_le_nat_alt by simp
qed

text \<open>The cache after an entry has been overwritten and its address invalidated.\<close>

lemma set_tlb_ok:
  assumes t: "tlb_ok d m" and c: "cr3_frame m' = cr3_frame m" and sub: "\<And>a e. cr3_frame m = d \<Longrightarrow> tlb m' a = Some e \<Longrightarrow> tlb m a = Some e \<and> a \<noteq> ROUNDDOWN la PGSIZE"
    and la: "la < USERTOP" and pt: "\<And>v. v \<in> upages \<Longrightarrow> v \<noteq> vp la \<Longrightarrow> pte m' d v = pte m d v"
  shows "tlb_ok d m'"
  unfolding tlb_ok_def
proof (intro impI allI)
  fix a e assume a: "cr3_frame m' = d" "tlb m' a = Some e" "a < USERTOP"
  then have o: "tlb m a = Some e" "a \<noteq> ROUNDDOWN la PGSIZE" using sub c by auto
  then have p: "unat a mod 4096 = 0" "present e" "pte m d (vp a) = e" using t a c by (auto simp: tlb_ok_def)
  have r: "ROUNDDOWN la PGSIZE < USERTOP" using vp_ROUNDDOWN[of la] la by auto
  have "vp a \<noteq> vp la"
  proof
    assume "vp a = vp la"
    then have "a = ROUNDDOWN la PGSIZE" using aligned_vp[OF p(1) _ a(3) r] vp_ROUNDDOWN[of la] by simp
    then show False using o(2) by simp
  qed
  then show "unat a mod 4096 = 0 \<and> present e \<and> pte m' d (vp a) = e" using p pt[of "vp a"] user_vp[OF a(3)] by simp
qed

lemma page_insert_ok:
  assumes s: "space_ok zl d m" and tl: "tlb_ok d m" and la: "la < USERTOP" and np: "\<forall>q \<in> managed zl (bd m). q < 2 ^ 20"
    and p: "used zl m p" "p \<noteq> d" "p \<notin> tables m d" "page_ref m p \<noteq> - 1" and perm: "drop_bit 12 perm = 0"
  shows "page_insert d p la perm m = Some (- E_NO_MEM, m) \<and> free_set (bd m) = {} \<and> \<not> present (words m d (PDX la)) \<or>
    (\<exists>m'. page_insert d p la perm m = Some (0, m') \<and> space_ok zl d m' \<and> tlb_ok d m' \<and>
      (\<forall>v \<in> upages. pte m' d v = (if v = vp la then page2pa p OR PTE_P OR perm else pte m d v)) \<and>
      page_ref m' p = (if vp la \<in> maps m d p then page_ref m p else page_ref m p + 1) \<and> accounts zl d {q. used zl m q} m m')"
proof -
  note uv = user_vp[OF la]
  from get_pte_create[OF s conjunct2[OF uv] np] show ?thesis
  proof
    assume "get_pte d la True m = Some (None, m) \<and> free_set (bd m) = {} \<and> \<not> present (words m d (PDX la))"
    then show ?thesis by (simp add: page_insert_def)
  next
    let ?i = "PDX la" and ?v = "vp la" and ?e = "page2pa p OR PTE_P OR perm"
    assume "\<exists>m'. get_pte d la True m = Some (Some (PPN (words m' d ?i), PTX la), m') \<and> present (words m' d ?i) \<and> grown zl d m m'"
    then obtain m1 where m1: "get_pte d la True m = Some (Some (PPN (words m1 d ?i), PTX la), m1)" "present (words m1 d ?i)" "grown zl d m m1" by blast
    let ?pt = "(PPN (words m1 d ?i), PTX la)"
    have g: "space_ok zl d m1" "\<And>v. v \<in> upages \<Longrightarrow> pte m1 d v = pte m d v" "tlb m1 = tlb m" "cr3_frame m1 = cr3_frame m"
      "used zl m1 p" "page_ref m1 p = page_ref m p" "managed zl (bd m1) = managed zl (bd m)" "p \<notin> tables m1 d"
      "\<And>q. used zl m q \<Longrightarrow> used zl m1 q \<and> page_ref m1 q = page_ref m q" "mem_map m1 = mem_map m" "max_swap_offset m1 = max_swap_offset m"
      using m1(3) p by (auto simp: grown_def used_def)
    have mp: "maps m1 d q = maps m d q" for q using g(2) by (auto simp: maps_def)
    have sp: "swaps m1 d off = swaps m d off" for off using g(2) by (auto simp: swaps_def)
    have sr: "swap_refs m1 = swap_refs m" "valid_off m1 = valid_off m" using g(10,11) by (simp_all add: swap_refs_def valid_off_def fun_eq_iff)
    have vv: "?v = (?i, PTX la)" by (simp add: vp_def)
    let ?m2 = "pg_ref_inc p m1"
    have r2: "page_ref ?m2 q = (if q = p then page_ref m1 p + 1 else page_ref m1 q)" for q
      by (simp add: page_ref_def pg_ref_inc_def atomic_read_def)
    have inc: "unat (page_ref m p + 1) = unat (page_ref m p) + 1"
    proof -
      have "page_ref m p + 1 \<noteq> 0" using p(4) by (metis add_eq_0_iff2 minus_equation_iff)
      then have "1 + page_ref m p \<noteq> 0" by (simp add: add.commute)
      from unatSuc[OF this] show ?thesis by (simp add: add.commute)
    qed
    have cm: "card (maps m1 d p) \<le> unat (page_ref m p)" using g(1,6) by (auto simp: space_ok_def dest!: spec[of _ p])
    have s2: "space_ok zl d ?m2" "used zl ?m2 = used zl m1" "cached zl ?m2 = cached zl m1"
      using space_upd[OF g(1,5), of "\<lambda>q. snd (page_ref_inc q)"] cm r2[of p] g(6) inc unfolding pg_ref_inc_def by simp_all
    have w2: "words ?m2 = words m1" "tlb ?m2 = tlb m1" "cr3_frame ?m2 = cr3_frame m1" "bd ?m2 = upd_page p (\<lambda>q. snd (page_ref_inc q)) (bd m1)"
      by (simp_all add: pg_ref_inc_def)
    note we = words_eq[OF w2(1), of d]
    have rd: "read_pte ?pt ?m2 = pte m1 d ?v" using read_pte_vp[of ?m2 d ?i] m1(2) w2(1) vv we(2) by simp
    have pp: "present ?e" "PPN ?e = p"
    proof -
      have "p < 2 ^ 20" using np p(1) by (simp add: used_def)
      moreover have "drop_bit 12 (PTE_P OR perm) = 0" using perm by (simp add: drop_bit_or)
      ultimately show "PPN ?e = p" by (rule PPN_page2pa)
      show "present ?e" by (simp add: present_bit bit_or_iff)
    qed
    have fin: ?thesis
      if run: "page_insert d p la perm m = Some (0, tlb_invalidate d la (write_pte ?pt ?e m3))"
        and s3: "space_ok zl d m3" "words m3 d = words m1 d" "used zl m3 p" "card (insert ?v (maps m3 d p)) \<le> unat (page_ref m3 p)"
        and p3: "\<And>u. u \<in> upages \<Longrightarrow> u \<noteq> ?v \<Longrightarrow> pte m3 d u = pte m1 d u" and t3: "\<And>a e. tlb m3 a = Some e \<Longrightarrow> tlb m1 a = Some e"
        and c3: "cr3_frame m3 = cr3_frame m1" and r3: "page_ref m3 p = (if ?v \<in> maps m d p then page_ref m p else page_ref m p + 1)"
        and a3: "\<And>q. q \<noteq> p \<Longrightarrow> ?v \<notin> maps m3 d q" "\<And>off. valid_off m off \<Longrightarrow> ?v \<notin> swaps m3 d off" "accounts zl d (managed zl (bd m) - {p}) ?m2 m3"
      for m3
    proof -
      let ?m4 = "write_pte ?pt ?e m3"
      have tb3: "tables m3 d = tables m1 d" using s3(2) by (simp add: tables_def)
      have s4: "space_ok zl d ?m4" "\<And>u. u \<in> upages \<Longrightarrow> pte ?m4 d u = (if u = ?v then ?e else pte m3 d u)"
        using space_set[OF s3(1) vv conjunct1[OF uv] _ pp s3(3) p(2) _ s3(4)] m1(2) g(8) tb3 unfolding s3(2) by auto
      let ?m5 = "tlb_invalidate d la ?m4"
      have f5: "words ?m5 = words ?m4" "page_ref ?m5 = page_ref m3" "cr3_frame ?m5 = cr3_frame m"
        using c3 g(4) by (auto simp: tlb_invalidate_def page_ref_def pg_def fun_eq_iff)
      have s5: "space_ok zl d ?m5" using s4(1) space_tlb by (simp add: tlb_invalidate_def)
      have p5: "pte ?m5 d u = (if u = ?v then ?e else pte m d u)" if "u \<in> upages" for u
        using words_eq(2)[OF f5(1), of d] s4(2)[OF that] p3[OF that] g(2)[OF that] by simp
      have "tlb_ok d ?m5"
      proof (rule set_tlb_ok[OF tl f5(3) _ la])
        fix a e assume "cr3_frame m = d" "tlb ?m5 a = Some e"
        then show "tlb m a = Some e \<and> a \<noteq> ROUNDDOWN la PGSIZE"
          using t3[of a e] g(3,4) c3 by (auto simp: tlb_invalidate_def split: if_splits)
      qed (use p5 in simp)
      moreover have "accounts zl d {q. used zl m q} m ?m5"
        unfolding accounts_def
      proof (intro conjI ballI allI impI)
        have ba: "idle zl ?m5 = idle zl m3" "swap_refs ?m5 = swap_refs m3"
          by (simp_all add: tlb_invalidate_def idle_def cached_def pg_def swap_refs_def fun_eq_iff)
        note a = a3(3)[unfolded accounts_def we(3,4) mp sp]
        have m5: "maps ?m5 d q = (if q = p then insert ?v (maps m3 d p) else maps m3 d q - {?v})" for q
        proof -
          have "u \<in> maps ?m5 d q \<longleftrightarrow> u \<in> (if q = p then insert ?v (maps m3 d p) else maps m3 d q - {?v})" for u
            using p5[of u] p3[of u] g(2)[of u] uv pp by (cases "u = ?v") (auto simp: maps_def)
          then show ?thesis by blast
        qed
        have q5: "q \<in> managed zl (bd m)" "page_ref ?m2 q = (if q = p then page_ref m p + 1 else page_ref m q)" if "q \<in> {q. used zl m q}" for q
          using that r2[of q] g(6,9) by (auto simp: used_def)
        { fix q assume q: "q \<in> {q. used zl m q}"
          show "unat (page_ref ?m5 q) + card (maps m d q) = unat (page_ref m q) + card (maps ?m5 d q)"
          proof (cases "q = p")
            case True
            have "maps ?m5 d p = insert ?v (maps m d p)" using m5[of p] p3 g(2) by (auto simp: maps_def)
            then show ?thesis using True r3 f5(2) inc by (auto simp: insert_absorb)
          next
            case False
            then show ?thesis using a q5[OF q] m5[of q] a3(1)[OF False] f5(2) by simp
          qed
          assume z: "page_ref m q \<noteq> 0 \<and> page_ref ?m5 q = 0"
          then have "q \<noteq> p" using r3 f5(2) inc by (auto split: if_splits)
          then show "q \<in> idle zl ?m5" using a q5[OF q] z f5(2) ba by simp }
        fix off assume o: "valid_off m off"
        have "swaps ?m5 d off = swaps m3 d off"
        proof -
          have "?e \<noteq> entry_of off" using pp(1) entry_of_absent[of off] by auto
          then have "u \<in> swaps ?m5 d off \<longleftrightarrow> u \<in> swaps m3 d off" for u
            using p5[of u] p3[of u] g(2)[of u] uv a3(2)[OF o] by (cases "u = ?v") (auto simp: swaps_def)
          then show ?thesis by blast
        qed
        moreover have "swap_refs ?m2 = swap_refs m" "valid_off ?m2 = valid_off m"
          using g(10,11) by (simp_all add: pg_ref_inc_def swap_refs_def valid_off_def fun_eq_iff)
        ultimately show "swap_refs ?m5 off + card (swaps m d off) = swap_refs m off + card (swaps ?m5 d off)"
          using a o ba(2) by simp
      qed
      ultimately show ?thesis using run s5 p5 f5(2) r3 by auto
    qed
    show ?thesis
    proof (cases "pte m1 d ?v = 0")
      case True
      have nm: "?v \<notin> maps m d q" for q using True g(2) uv by (simp add: maps_def)
      have ns: "?v \<notin> swaps ?m2 d off" if "valid_off m off" for off
        using True entry_of_nonzero[of m off] that s unfolding we by (simp add: swaps_def space_ok_def swap_inv_def)
      show ?thesis
      proof (rule fin[of ?m2])
        show "page_insert d p la perm m = Some (0, tlb_invalidate d la (write_pte ?pt ?e ?m2))"
          using m1(1) rd True by (simp add: page_insert_def Let_def)
        show "card (insert ?v (maps ?m2 d p)) \<le> unat (page_ref ?m2 p)"
          using cm r2[of p] g(6) inc nm mp by (simp add: we)
        show "\<And>q. ?v \<notin> maps ?m2 d q" using nm mp unfolding we by simp
        show "accounts zl d (managed zl (bd m) - {p}) ?m2 ?m2" by (simp add: accounts_def)
      qed (use s2 w2 we g nm ns r2 in auto)
    next
      case nz: False
      show ?thesis
      proof (cases "present (pte m1 d ?v) \<and> PPN (pte m1 d ?v) = p")
        case True
        then have vm: "?v \<in> maps m1 d p" "?v \<in> maps m d p" using uv mp by (auto simp: maps_def)
        let ?m3 = "pg_ref_dec p ?m2"
        have r3: "page_ref ?m3 q = page_ref m1 q" for q
          using r2[of q] by (simp add: page_ref_def pg_ref_dec_def pg_ref_inc_def atomic_read_def)
        have "used zl ?m2 p" using s2(2) g(5) by simp
        from space_upd[OF s2(1) this, of "\<lambda>q. snd (page_ref_dec q)"]
        have s3: "space_ok zl d ?m3" "used zl ?m3 = used zl m1"
          using cm r3[of p] g(6) s2(2) unfolding we(3) pg_ref_dec_def by simp_all
        have w3: "words ?m3 = words m1" "tlb ?m3 = tlb m1" "cr3_frame ?m3 = cr3_frame m1" by (simp_all add: pg_ref_dec_def pg_ref_inc_def)
        have pt: "pte2page (pte m1 d ?v) ?m2 = Some p"
          using True used_npage[of zl "{}" "{}" m1 p] g(1,5) w2(4) by (simp add: pte2page_def pa2page_def present_def space_ok_def)
        show ?thesis
        proof (rule fin[of ?m3])
          show "page_insert d p la perm m = Some (0, tlb_invalidate d la (write_pte ?pt ?e ?m3))"
            using m1(1) rd nz True pt by (simp add: page_insert_def Let_def present_def)
          show "card (insert ?v (maps ?m3 d p)) \<le> unat (page_ref ?m3 p)"
            using cm r3[of p] g(6) vm words_eq(3)[OF w3(1), of d] by (simp add: insert_absorb)
          show "\<And>q. q \<noteq> p \<Longrightarrow> ?v \<notin> maps ?m3 d q" using True unfolding words_eq(3)[OF w3(1), of d] by (simp add: maps_def)
          show "\<And>off. ?v \<notin> swaps ?m3 d off"
            using True entry_of_absent unfolding words_eq(4)[OF w3(1), of d] by (auto simp: swaps_def)
          have "swap_refs ?m3 = swap_refs ?m2" by (simp add: pg_ref_dec_def swap_refs_def fun_eq_iff)
          then show "accounts zl d (managed zl (bd m) - {p}) ?m2 ?m3"
            using r2 r3 words_eq[OF w3(1), of d] we by (simp add: accounts_def)
        qed (use s3 w3 words_eq[OF w3(1), of d] g vm r3 in auto)
      next
        case False
        have v2: "present (words ?m2 d ?i)" "pte ?m2 d ?v \<noteq> 0" using m1(2) nz we w2(1) by simp_all
        obtain m3 where m3: "page_remove_pte d la ?pt ?m2 = Some m3" "space_ok zl d m3" "words m3 d = words ?m2 d"
          "\<forall>u \<in> upages. pte m3 d u = (if u = ?v then 0 else pte ?m2 d u)" "cr3_frame m3 = cr3_frame ?m2"
          "tlb m3 = (if present (pte ?m2 d ?v) \<and> cr3_frame ?m2 = d then (tlb ?m2)(ROUNDDOWN la PGSIZE := None) else tlb ?m2)"
          "\<forall>x. used zl ?m2 x \<and> page_ref ?m2 x \<noteq> 0 \<longrightarrow>
            (if present (pte ?m2 d ?v) \<and> PPN (pte ?m2 d ?v) = x then page_ref m3 x = page_ref ?m2 x - 1
             else page_ref m3 x = page_ref ?m2 x \<and> used zl m3 x)" "gives_back zl d ?m2 m3"
          using page_remove_pte_ok[OF s2(1) vv conjunct1[OF uv] v2, of la] w2(1) by auto
        have n0: "page_ref ?m2 p \<noteq> 0" using r2[of p] g(6) inc by (metis add_is_0 one_neq_zero unsigned_0)
        have p3: "page_ref m3 p = page_ref m p + 1" "used zl m3 p"
          using m3(7) n0 s2(2) g(5,6) False r2[of p] unfolding we by auto
        have nv: "?v \<notin> maps m3 d p" "maps m3 d p \<subseteq> maps m1 d p" using m3(4) we uv by (auto simp: maps_def split: if_splits)
        have np2: "\<not> (present (pte m1 d ?v) \<and> pte2page (pte m1 d ?v) ?m2 = Some p)"
          using False by (auto simp: pte2page_def pa2page_def split: if_splits)
        show ?thesis
        proof (rule fin[of m3])
          show "page_insert d p la perm m = Some (0, tlb_invalidate d la (write_pte ?pt ?e m3))"
            using m1(1) rd nz np2 m3(1) by (auto simp: page_insert_def Let_def present_def)
          have "card (maps m3 d p) \<le> card (maps m1 d p)" using nv(2) by (intro card_mono) auto
          then show "card (insert ?v (maps m3 d p)) \<le> unat (page_ref m3 p)" using cm p3(1) inc nv(1) by simp
          show "page_ref m3 p = (if ?v \<in> maps m d p then page_ref m p else page_ref m p + 1)"
            using p3(1) False mp by (auto simp: maps_def)
          have z: "pte m3 d ?v = 0" using m3(4) uv by simp
          show "\<And>q. ?v \<notin> maps m3 d q" using z by (simp add: maps_def)
          show "?v \<notin> swaps m3 d off" if "valid_off m off" for off
            using z entry_of_nonzero[of m off] that s by (simp add: swaps_def space_ok_def swap_inv_def)
          have "managed zl (bd ?m2) = managed zl (bd m)" using g(7) w2(4) by (simp add: managed_def zone_def)
          then show "accounts zl d (managed zl (bd m) - {p}) ?m2 m3" using m3(8) by (simp add: gives_back_def accounts_def)
        qed (use m3 w2 we p3 in \<open>auto split: if_splits\<close>)
      qed
    qed
  qed
qed

lemma unmap_range_ok:
  assumes "space_ok zl d m" "tlb_ok d m" "start mod PGSIZE = 0" "end mod PGSIZE = 0" "USER_ACCESS start end"
  shows "\<exists>m'. unmap_range d start end m = Some m' \<and> space_ok zl d m' \<and> tlb_ok d m' \<and>
    (\<forall>v \<in> upages. pte m' d v = (if unat start \<le> pno v * 4096 \<and> pno v * 4096 < unat end then 0 else pte m d v)) \<and>
    accounts zl d (managed zl (bd m)) m m'"
proof -
  have al: "unat start mod 4096 = 0" "unat end mod 4096 = 0" using assms(3,4) by (auto simp: word_unat_eq_iff unat_mod)
  show ?thesis
    using unmap_loop_ok[OF assms(1,2) al] assms(3-5) by (auto simp: unmap_range_def USER_ACCESS_def gives_back_def)
qed

section \<open>An example address space\<close>

definition demo_dir :: nat where
  "demo_dir = the (fst (the (alloc_page demo_mem)))"

definition demo_space :: mem where
  "demo_space = (snd (the (alloc_page demo_mem)))\<lparr>words := (\<lambda>_ _. 0)\<rparr>"

lemma demo_space_ok: "space_ok demo_zl demo_dir demo_space" "tlb_ok demo_dir demo_space" "\<forall>q \<in> managed demo_zl (bd demo_space). q < 2 ^ 20"
  "free_set (bd demo_space) \<noteq> {}" "pte demo_space demo_dir v = 0"
proof -
  obtain p m' where m': "alloc_page demo_mem = Some (Some p, m')" "m' = demo_mem\<lparr>bd := bd m'\<rparr>" "swap_ok demo_zl m'"
    "managed demo_zl (bd m') = managed demo_zl (bd demo_mem)" "p \<in> free_set (bd demo_mem)" "p \<in> managed demo_zl (bd demo_mem)"
    "p \<notin> cached demo_zl m'" "free_set (bd m') = free_set (bd demo_mem) - {p}"
    using inv_alloc[OF demo_mem_ok(1)] demo_buddy_ok(2) by fastforce
  have d: "demo_dir = p" "demo_space = m'\<lparr>words := (\<lambda>_ _. 0)\<rparr>" using m'(1) by (simp_all add: demo_dir_def demo_space_def)
  have "tlb m' = (\<lambda>_. None)" by (subst m'(2)) (simp add: demo_mem_def)
  then have w: "words demo_space = (\<lambda>_ _. 0)" "bd demo_space = bd m'" "tlb demo_space = (\<lambda>_. None)" by (simp_all add: d)
  show pt: "pte demo_space demo_dir v = 0" for v by (simp add: pte_def w)
  have "tables demo_space demo_dir = {}" by (simp add: tables_def w)
  moreover have "used demo_zl demo_space demo_dir" "demo_dir \<notin> cached demo_zl demo_space" using m'(4-8) by (auto simp: used_def d cached_def pg_def)
  moreover have "maps demo_space demo_dir q = {}" for q by (simp add: maps_def pt)
  moreover have "swap_ok demo_zl demo_space" unfolding d by (rule swap_inv_words[OF m'(3)])
  moreover have "swaps demo_space demo_dir off = {}" if "valid_off demo_space off" for off
    using entry_of_nonzero[OF _ that] calculation(5) by (auto simp: swaps_def pt swap_inv_def)
  ultimately show "space_ok demo_zl demo_dir demo_space" by (simp add: space_ok_def tables_ok_def pt w)
  show "tlb_ok demo_dir demo_space" by (simp add: tlb_ok_def w)
  show "\<forall>q \<in> managed demo_zl (bd demo_space). q < 2 ^ 20" using m'(4) demo_managed by (simp add: w)
  have "card (free_set (bd demo_space)) = 3" using m'(5,8) demo_buddy_ok(2) by (simp add: w)
  then show "free_set (bd demo_space) \<noteq> {}" by auto
qed

text \<open>A second page, allocated but not mapped yet, and the state with it mapped at \<open>0x800000\<close>.\<close>

definition demo_page :: nat where
  "demo_page = the (fst (the (alloc_page demo_space)))"

definition demo_space2 :: mem where
  "demo_space2 = snd (the (alloc_page demo_space))"

definition demo_space3 :: mem where
  "demo_space3 = snd (the (page_insert demo_dir demo_page 0x800000 (PTE_U OR PTE_W) demo_space2))"

lemma demo_space2_ok: "space_ok demo_zl demo_dir demo_space2" "tlb_ok demo_dir demo_space2" "\<forall>q \<in> managed demo_zl (bd demo_space2). q < 2 ^ 20"
  "used demo_zl demo_space2 demo_page" "demo_page \<noteq> demo_dir" "demo_page \<notin> tables demo_space2 demo_dir" "page_ref demo_space2 demo_page = 0"
  "free_set (bd demo_space2) \<noteq> {}" "pte demo_space2 demo_dir v = 0"
proof -
  obtain p m' where m': "alloc_page demo_space = Some (Some p, m')" "space_ok demo_zl demo_dir m'"
    "managed demo_zl (bd m') = managed demo_zl (bd demo_space)" "p \<in> free_set (bd demo_space)" "used demo_zl m' p" "p \<noteq> demo_dir"
    "p \<notin> tables demo_space demo_dir" "free_set (bd m') = free_set (bd demo_space) - {p}" "words m' = words demo_space"
    "tlb m' = tlb demo_space" "cr3_frame m' = cr3_frame demo_space" "page_ref m' p = 0"
    using space_alloc[OF demo_space_ok(1)] demo_space_ok(4) by blast
  have d: "demo_page = p" "demo_space2 = m'" using m'(1) by (simp_all add: demo_page_def demo_space2_def)
  note we = words_eq[OF m'(9), of demo_dir]
  show "space_ok demo_zl demo_dir demo_space2" "\<forall>q \<in> managed demo_zl (bd demo_space2). q < 2 ^ 20"
    "used demo_zl demo_space2 demo_page" "demo_page \<noteq> demo_dir" "demo_page \<notin> tables demo_space2 demo_dir" "page_ref demo_space2 demo_page = 0"
    "pte demo_space2 demo_dir v = 0"
    using m' demo_space_ok(3,5) we by (simp_all add: d)
  show "tlb_ok demo_dir demo_space2" using demo_space_ok(2) m'(10,11) we by (simp add: tlb_ok_def d)
  have "card (free_set (bd demo_space)) = 3"
  proof -
    have "free_set (bd demo_space) = {0..<4} - {demo_dir}" "demo_dir \<in> {0..<4}"
      using inv_alloc[OF demo_mem_ok(1)] demo_buddy_ok(2) by (auto simp: demo_space_def demo_dir_def)
    then show ?thesis by simp
  qed
  then have "card (free_set (bd m')) = 2" using m'(4,8) by simp
  then show "free_set (bd demo_space2) \<noteq> {}" by (auto simp: d)
qed

lemma demo_space3_ok: "space_ok demo_zl demo_dir demo_space3" "tlb_ok demo_dir demo_space3"
  "pte demo_space3 demo_dir (vp 0x800000) \<noteq> 0"
proof -
  obtain m' where m': "page_insert demo_dir demo_page 0x800000 (PTE_U OR PTE_W) demo_space2 = Some (0, m')" "space_ok demo_zl demo_dir m'"
    "tlb_ok demo_dir m'" "pte m' demo_dir (vp 0x800000) = page2pa demo_page OR PTE_P OR (PTE_U OR PTE_W)"
    using page_insert_ok[OF demo_space2_ok(1,2) _ demo_space2_ok(3-6), where la = "0x800000" and perm = "PTE_U OR PTE_W"] demo_space2_ok(7,8) user_vp[of "0x800000"]
    by auto
  have "present (page2pa demo_page OR PTE_P OR (PTE_U OR PTE_W))" by (simp add: present_bit bit_or_iff)
  then show "space_ok demo_zl demo_dir demo_space3" "tlb_ok demo_dir demo_space3" "pte demo_space3 demo_dir (vp 0x800000) \<noteq> 0"
    using m' by (auto simp: demo_space3_def)
qed

section \<open>Properties\<close>



text \<open>C20: \<open>unmap_range\<close> of a page-aligned user range ends without a panic: afterwards exactly the
  entries of the range are empty and every other entry is unchanged.  The references that the
  entries held have been given back (\<open>accounts\<close>): the count of every page, and of every swap entry,
  has gone down by exactly the number of its entries in the range, and a page that lost its last
  reference is free or left to the swap cache.  The translation cache has no entry of the range left.\<close>

theorem unmap_range_clears:
  assumes "space_ok zl d m" "tlb_ok d m" "start mod PGSIZE = 0" "end mod PGSIZE = 0" "USER_ACCESS start end"
  shows "\<exists>m'. unmap_range d start end m = Some m' \<and> space_ok zl d m' \<and> tlb_ok d m' \<and>
    (\<forall>v \<in> upages. pte m' d v = (if unat start \<le> pno v * 4096 \<and> pno v * 4096 < unat end then 0 else pte m d v)) \<and>
    accounts zl d (managed zl (bd m)) m m'"
  using assms by (rule unmap_range_ok)

theorem unmap_range_clears_witness:
  "pte demo_space3 demo_dir (vp 0x800000) \<noteq> 0 \<and>
    (\<exists>m'. unmap_range demo_dir 0x800000 0x801000 demo_space3 = Some m' \<and> pte m' demo_dir (vp 0x800000) = 0)"
proof -
  have v: "vp 0x800000 = (2, 0)" by (simp add: vp_nat)
  have u: "(2, 0) \<in> upages" by (simp add: upages_def)
  have "(0x800000 :: u32) mod PGSIZE = 0" "(0x801000 :: u32) mod PGSIZE = 0" "USER_ACCESS 0x800000 0x801000"
    by (simp_all add: USER_ACCESS_def)
  from unmap_range_clears[OF demo_space3_ok(1,2) this] demo_space3_ok(3) u show ?thesis unfolding v by (auto simp: pno_def)
qed

end
