(* ===== verification/RbTree.thy ===== *)
theory RbTree
  imports KPrelude "HOL-Library.Tree"
begin

text \<open>
  Red-black trees: \<open>kern/libs/rb_tree.c\<close>.  Nodes are numbers (addresses); colour, parent and
  children are maps on them.  As in the source, \<open>root\<close> is a sentinel whose left child is the
  real root, and \<open>nil\<close> a black node that stands for \<open>NULL\<close> inside the tree.  The macros that
  take \<open>_left\<close> and \<open>_right\<close> are functions of a direction.
\<close>

section \<open>The tree and its operations\<close>

datatype dir = DL | DR

primrec opp :: "dir \<Rightarrow> dir" where
  "opp DL = DR"
| "opp DR = DL"

lemma opp_opp [simp]: "opp (opp d) = d"
  by (cases d) simp_all

lemma opp_neq [simp]: "opp d \<noteq> d" "d \<noteq> opp d"
  by (cases d; simp)+

record rb_tree =
  nil :: nat
  root :: nat
  red :: "nat \<Rightarrow> bool"
  par :: "nat \<Rightarrow> nat"
  kid :: "dir \<Rightarrow> nat \<Rightarrow> nat"

definition set_red :: "nat \<Rightarrow> bool \<Rightarrow> rb_tree \<Rightarrow> rb_tree" where
  "set_red x c t = t\<lparr>red := (red t)(x := c)\<rparr>"

definition set_par :: "nat \<Rightarrow> nat \<Rightarrow> rb_tree \<Rightarrow> rb_tree" where
  "set_par x p t = t\<lparr>par := (par t)(x := p)\<rparr>"

definition set_kid :: "dir \<Rightarrow> nat \<Rightarrow> nat \<Rightarrow> rb_tree \<Rightarrow> rb_tree" where
  "set_kid d x c t = t\<lparr>kid := (kid t)(d := (kid t d)(x := c))\<rparr>"

lemma rb_fields [simp]:
  "nil (set_red x c t) = nil t" "root (set_red x c t) = root t" "par (set_red x c t) = par t" "kid (set_red x c t) = kid t"
  "red (set_red x c t) = (red t)(x := c)"
  "nil (set_par x p t) = nil t" "root (set_par x p t) = root t" "red (set_par x p t) = red t" "kid (set_par x p t) = kid t"
  "par (set_par x p t) = (par t)(x := p)"
  "nil (set_kid d x k t) = nil t" "root (set_kid d x k t) = root t" "red (set_kid d x k t) = red t" "par (set_kid d x k t) = par t"
  "kid (set_kid d x k t) = (kid t)(d := (kid t d)(x := k))"
  by (simp_all add: set_red_def set_par_def set_kid_def)

text \<open>\<open>rb_tree_create\<close> with the addresses \<open>kmalloc\<close> returned for the two sentinels.\<close>

definition rb_tree_create :: "(nat \<times> nat) option \<Rightarrow> rb_tree option" where
  "rb_tree_create mem = (case mem of None \<Rightarrow> None
    | Some (nl, rt) \<Rightarrow> Some \<lparr>nil = nl, root = rt, red = (\<lambda>_. False), par = (\<lambda>_. nl), kid = (\<lambda>_ _. nl)\<rparr>)"

definition rb_tree_empty :: "rb_tree \<Rightarrow> bool" where
  "rb_tree_empty t \<longleftrightarrow> kid t DL (root t) = nil t"

text \<open>\<open>rb_tree_destroy\<close>: the addresses handed to \<open>kfree\<close>, in order; \<open>tree\<close> is that of the descriptor.\<close>

definition rb_tree_destroy :: "nat \<Rightarrow> rb_tree \<Rightarrow> nat list" where
  "rb_tree_destroy tree t = [root t, nil t, tree]"

text \<open>\<open>FUNC_ROTATE\<close>: \<open>rb_rotate DL\<close> is \<open>rb_left_rotate\<close>.\<close>

definition rb_rotate :: "dir \<Rightarrow> nat \<Rightarrow> rb_tree \<Rightarrow> rb_tree option" where
  "rb_rotate d x t = do {
     let y = kid t (opp d) x;
     kassert (x \<noteq> root t \<and> x \<noteq> nil t \<and> y \<noteq> nil t);
     let t = set_kid (opp d) x (kid t d y) t;
     let t = (if kid t d y \<noteq> nil t then set_par (kid t d y) x t else t);
     let t = set_par y (par t x) t;
     let t = (if x = kid t d (par t x) then set_kid d (par t x) y t else set_kid (opp d) (par t x) y t);
     let t = set_kid d y x t;
     let t = set_par x y t;
     kassert (\<not> red t (nil t));
     Some t
   }"

partial_function (option) insert_search :: "(nat \<Rightarrow> nat \<Rightarrow> int) \<Rightarrow> nat \<Rightarrow> nat \<Rightarrow> nat \<Rightarrow> rb_tree \<Rightarrow> nat option" where
  "insert_search cmp node y x t =
    (if x \<noteq> nil t then insert_search cmp node x (if cmp x node > 0 then kid t DL x else kid t DR x) t
     else Some y)"

definition rb_insert_binary :: "(nat \<Rightarrow> nat \<Rightarrow> int) \<Rightarrow> nat \<Rightarrow> rb_tree \<Rightarrow> rb_tree option" where
  "rb_insert_binary cmp z t = do {
     let t = set_kid DR z (nil t) (set_kid DL z (nil t) t);
     y \<leftarrow> insert_search cmp z (root t) (kid t DL (root t)) t;
     let t = set_par z y t;
     Some (if y = root t \<or> cmp y z > 0 then set_kid DL y z t else set_kid DR y z t)
   }"

text \<open>The loop of \<open>rb_insert\<close>; \<open>d\<close> is the side of the grandparent on which the parent is
  (\<open>RB_INSERT_SUB(left, right)\<close> for \<open>DL\<close>).\<close>

partial_function (option) insert_fixup :: "nat \<Rightarrow> rb_tree \<Rightarrow> rb_tree option" where
  "insert_fixup x t =
    (if \<not> red t (par t x) then Some t
     else
       (let d = (if par t x = kid t DL (par t (par t x)) then DL else DR);
            y = kid t (opp d) (par t (par t x))
        in if red t y then
             (let g = par t (par t x)
              in insert_fixup g (set_red g True (set_red y False (set_red (par t x) False t))))
           else do {
             (x, t) \<leftarrow> (if x = kid t (opp d) (par t x)
                then (let x = par t x in do { t \<leftarrow> rb_rotate d x t; Some (x, t) })
                else Some (x, t));
             let t = set_red (par t x) False t;
             let t = set_red (par t (par t x)) True t;
             t \<leftarrow> rb_rotate (opp d) (par t (par t x)) t;
             insert_fixup x t
           }))"

definition rb_insert :: "(nat \<Rightarrow> nat \<Rightarrow> int) \<Rightarrow> nat \<Rightarrow> rb_tree \<Rightarrow> rb_tree option" where
  "rb_insert cmp node t = do {
     t \<leftarrow> rb_insert_binary cmp node t;
     let t = set_red node True t;
     t \<leftarrow> insert_fixup node t;
     let t = set_red (kid t DL (root t)) False t;
     kassert (\<not> red t (nil t) \<and> \<not> red t (root t));
     Some t
   }"

partial_function (option) descend :: "dir \<Rightarrow> nat \<Rightarrow> rb_tree \<Rightarrow> nat option" where
  "descend d y t = (if kid t d y \<noteq> nil t then descend d (kid t d y) t else Some y)"

partial_function (option) climb_right :: "nat \<Rightarrow> nat \<Rightarrow> rb_tree \<Rightarrow> nat option" where
  "climb_right x y t = (if x = kid t DR y then climb_right y (par t y) t else Some y)"

definition rb_tree_successor :: "nat \<Rightarrow> rb_tree \<Rightarrow> nat option" where
  "rb_tree_successor node t =
    (if kid t DR node \<noteq> nil t then descend DL (kid t DR node) t
     else do {
       y \<leftarrow> climb_right node (par t node) t;
       Some (if y = root t then nil t else y)
     })"

partial_function (option) climb_left :: "nat \<Rightarrow> nat \<Rightarrow> rb_tree \<Rightarrow> nat option" where
  "climb_left x y t =
    (if x = kid t DL y then (if y = root t then Some (nil t) else climb_left y (par t y) t) else Some y)"

definition rb_tree_predecessor :: "nat \<Rightarrow> rb_tree \<Rightarrow> nat option" where
  "rb_tree_predecessor node t =
    (if kid t DL node \<noteq> nil t then descend DR (kid t DL node) t
     else climb_left node (par t node) t)"

partial_function (option) search_loop :: "(nat \<Rightarrow> int) \<Rightarrow> nat \<Rightarrow> rb_tree \<Rightarrow> nat option" where
  "search_loop cmp node t =
    (if node \<noteq> nil t \<and> cmp node \<noteq> 0
     then search_loop cmp (if cmp node > 0 then kid t DL node else kid t DR node) t
     else Some node)"

definition or_null :: "rb_tree \<Rightarrow> nat \<Rightarrow> nat option" where
  "or_null t x = (if x \<noteq> nil t then Some x else None)"

definition rb_search :: "(nat \<Rightarrow> int) \<Rightarrow> rb_tree \<Rightarrow> nat option option" where
  "rb_search cmp t = do { x \<leftarrow> search_loop cmp (kid t DL (root t)) t; Some (or_null t x) }"

text \<open>\<open>rb_delete_fixup\<close>; \<open>rt\<close> is the real root when the function is entered.\<close>

partial_function (option) delete_fixup :: "nat \<Rightarrow> nat \<Rightarrow> rb_tree \<Rightarrow> rb_tree option" where
  "delete_fixup rt x t =
    (if \<not> (x \<noteq> rt \<and> \<not> red t x) then Some (set_red x False t)
     else do {
       let d = (if x = kid t DL (par t x) then DL else DR);
       let w = kid t (opp d) (par t x);
       (w, t) \<leftarrow> (if red t w then do {
             let t = set_red (par t x) True (set_red w False t);
             t \<leftarrow> rb_rotate d (par t x) t;
             Some (kid t (opp d) (par t x), t)
           }
           else Some (w, t));
       (if \<not> red t (kid t d w) \<and> \<not> red t (kid t (opp d) w)
        then delete_fixup rt (par t x) (set_red w True t)
        else do {
          (w, t) \<leftarrow> (if \<not> red t (kid t (opp d) w) then do {
                let t = set_red w True (set_red (kid t d w) False t);
                t \<leftarrow> rb_rotate (opp d) w t;
                Some (kid t (opp d) (par t x), t)
              }
              else Some (w, t));
          let t = set_red w (red t (par t x)) t;
          let t = set_red (par t x) False t;
          let t = set_red (kid t (opp d) w) False t;
          t \<leftarrow> rb_rotate d (par t x) t;
          delete_fixup rt rt t
        })
     })"

definition rb_delete :: "nat \<Rightarrow> rb_tree \<Rightarrow> rb_tree option" where
  "rb_delete z t = do {
     y \<leftarrow> (if kid t DL z = nil t \<or> kid t DR z = nil t then Some z else rb_tree_successor z t);
     let x = (if kid t DL y \<noteq> nil t then kid t DL y else kid t DR y);
     kassert (y \<noteq> root t \<and> y \<noteq> nil t);
     let t = set_par x (par t y) t;
     let t = (if y = kid t DL (par t y) then set_kid DL (par t y) x t else set_kid DR (par t y) x t);
     let need_fixup = (\<not> red t y);
     let t = (if y \<noteq> z then
                (let t = (if z = kid t DL (par t z) then set_kid DL (par t z) y t else set_kid DR (par t z) y t);
                     t = set_par (kid t DR z) y (set_par (kid t DL z) y t)
                 in set_red y (red t z) (set_par y (par t z) (set_kid DL y (kid t DL z) (set_kid DR y (kid t DR z) t))))
              else t);
     (if need_fixup then delete_fixup (kid t DL (root t)) x t else Some t)
   }"

definition rb_node_prev :: "nat \<Rightarrow> rb_tree \<Rightarrow> nat option option" where
  "rb_node_prev node t = do { x \<leftarrow> rb_tree_predecessor node t; Some (or_null t x) }"

definition rb_node_next :: "nat \<Rightarrow> rb_tree \<Rightarrow> nat option option" where
  "rb_node_next node t = do { x \<leftarrow> rb_tree_successor node t; Some (or_null t x) }"

definition rb_node_root :: "rb_tree \<Rightarrow> nat option" where
  "rb_node_root t = or_null t (kid t DL (root t))"

definition rb_node_left :: "nat \<Rightarrow> rb_tree \<Rightarrow> nat option" where
  "rb_node_left x t = or_null t (kid t DL x)"

definition rb_node_right :: "nat \<Rightarrow> rb_tree \<Rightarrow> nat option" where
  "rb_node_right x t = or_null t (kid t DR x)"

text \<open>\<open>check_tree\<close>: the checks of the source and the black height it returns; fuel bounds the
  depth.\<close>

fun check_tree :: "nat \<Rightarrow> (nat \<Rightarrow> nat \<Rightarrow> int) \<Rightarrow> nat \<Rightarrow> rb_tree \<Rightarrow> nat option" where
  "check_tree 0 cmp node t = None"
| "check_tree (Suc n) cmp node t =
    (if node = nil t then do { kassert (\<not> red t node); Some 1 }
     else do {
       kassert (kid t DL node \<noteq> nil t \<longrightarrow> cmp node (kid t DL node) \<ge> 0 \<and> par t (kid t DL node) = node);
       kassert (kid t DR node \<noteq> nil t \<longrightarrow> cmp node (kid t DR node) \<le> 0 \<and> par t (kid t DR node) = node);
       kassert (red t node \<longrightarrow> \<not> red t (kid t DL node) \<and> \<not> red t (kid t DR node));
       hl \<leftarrow> check_tree n cmp (kid t DL node) t;
       hr \<leftarrow> check_tree n cmp (kid t DR node) t;
       kassert (hl = hr);
       Some (if \<not> red t node then hl + 1 else hl)
     })"

section \<open>Trees in the heap\<close>

text \<open>\<open>nd d a x b\<close>: node \<open>x\<close> with the subtree \<open>a\<close> on side \<open>d\<close> and \<open>b\<close> on the other one.\<close>

definition nd :: "dir \<Rightarrow> nat tree \<Rightarrow> nat \<Rightarrow> nat tree \<Rightarrow> nat tree" where
  "nd d a x b = (case d of DL \<Rightarrow> Node a x b | DR \<Rightarrow> Node b x a)"

definition tnode :: "rb_tree \<Rightarrow> nat tree \<Rightarrow> nat" where
  "tnode t T = (case T of Leaf \<Rightarrow> nil t | Node _ x _ \<Rightarrow> x)"

lemma tnode_simps [simp]: "tnode t Leaf = nil t" "tnode t (Node l x r) = x" "tnode t (nd d a x b) = x"
  by (simp_all add: tnode_def nd_def split: dir.splits)

lemma set_nd [simp]: "set_tree (nd d a x b) = insert x (set_tree a \<union> set_tree b)"
  by (auto simp: nd_def split: dir.splits)

fun is_tree :: "rb_tree \<Rightarrow> nat \<Rightarrow> nat tree \<Rightarrow> bool" where
  "is_tree t p Leaf \<longleftrightarrow> True"
| "is_tree t p (Node l x r) \<longleftrightarrow> x \<noteq> nil t \<and> x \<noteq> root t \<and> par t x = p \<and> kid t DL x = tnode t l \<and> kid t DR x = tnode t r
     \<and> is_tree t x l \<and> is_tree t x r"

lemma is_tree_nd: "is_tree t p (nd d a x b) \<longleftrightarrow> x \<noteq> nil t \<and> x \<noteq> root t \<and> par t x = p
     \<and> kid t d x = tnode t a \<and> kid t (opp d) x = tnode t b \<and> is_tree t x a \<and> is_tree t x b"
  by (auto simp: nd_def split: dir.splits)

lemma is_tree_nodes: "is_tree t p T \<Longrightarrow> x \<in> set_tree T \<Longrightarrow> x \<noteq> nil t \<and> x \<noteq> root t"
  by (induction T arbitrary: p) auto

lemma tnode_in: "tnode t T \<noteq> nil t \<Longrightarrow> tnode t T \<in> set_tree T"
  by (cases T) auto

lemma tnode_cong: "nil t' = nil t \<Longrightarrow> tnode t' T = tnode t T"
  by (cases T) simp_all

text \<open>Only the links of its own nodes matter for a tree; the parent of its tnode may be another.\<close>

lemma is_tree_reparent:
  assumes "is_tree t p T" "nil t' = nil t" "root t' = root t"
    and "\<And>x d. x \<in> set_tree T \<Longrightarrow> kid t' d x = kid t d x"
    and "\<And>x. x \<in> set_tree T \<Longrightarrow> x \<noteq> tnode t T \<Longrightarrow> par t' x = par t x" "T \<noteq> Leaf \<Longrightarrow> par t' (tnode t T) = p'"
    and "distinct (inorder T)"
  shows "is_tree t' p' T"
  using assms
proof (induction T arbitrary: p p')
  case Leaf
  then show ?case by simp
next
  case (Node l x r)
  have sub: "is_tree t' x T'" if T': "T' = l \<or> T' = r" for T'
  proof -
    have tr: "is_tree t x T'" "distinct (inorder T')" and nx: "x \<notin> set_tree T'" using Node.prems(1,7) T' by auto
    have k: "kid t' d z = kid t d z" if "z \<in> set_tree T'" for z d using Node.prems(4) that T' by auto
    have pr: "par t' z = par t z" if "z \<in> set_tree T'" for z using Node.prems(5) that T' nx by auto
    have pt: "T' \<noteq> Leaf \<Longrightarrow> par t' (tnode t T') = x" using pr tr(1) by (cases T') auto
    from T' show ?thesis
    proof
      assume "T' = l"
      then show ?thesis using tr k pr pt by (intro Node.IH(1)[of x x, OF _ Node.prems(2,3), folded \<open>T' = l\<close>]) auto
    next
      assume "T' = r"
      then show ?thesis using tr k pr pt by (intro Node.IH(2)[of x x, OF _ Node.prems(2,3), folded \<open>T' = r\<close>]) auto
    qed
  qed
  with Node.prems show ?case by (simp add: tnode_cong[OF Node.prems(2)])
qed

lemma is_tree_cong:
  assumes "is_tree t p T" "nil t' = nil t" "root t' = root t" "distinct (inorder T)"
    and "\<And>x d. x \<in> set_tree T \<Longrightarrow> kid t' d x = kid t d x \<and> par t' x = par t x"
  shows "is_tree t' p T"
proof (rule is_tree_reparent[OF assms(1-3) _ _ _ assms(4)])
  show "T \<noteq> Leaf \<Longrightarrow> par t' (tnode t T) = p" using assms(1,5) by (cases T) auto
qed (use assms(5) in auto)

section \<open>Contexts\<close>

text \<open>The way from a subtree to the root: on which side of which node it hangs, and the subtree on
  the other side.\<close>

type_synonym ctx = "(dir \<times> nat \<times> nat tree) list"

fun fill :: "nat tree \<Rightarrow> ctx \<Rightarrow> nat tree" where
  "fill T [] = T"
| "fill T ((d, x, s) # C) = fill (nd d T x s) C"

fun ctx_set :: "ctx \<Rightarrow> nat set" where
  "ctx_set [] = {}"
| "ctx_set ((d, x, s) # C) = insert x (set_tree s \<union> ctx_set C)"

fun lefts :: "ctx \<Rightarrow> nat list" where
  "lefts [] = []"
| "lefts ((DL, x, s) # C) = lefts C"
| "lefts ((DR, x, s) # C) = lefts C @ inorder s @ [x]"

fun rights :: "ctx \<Rightarrow> nat list" where
  "rights [] = []"
| "rights ((DL, x, s) # C) = x # inorder s @ rights C"
| "rights ((DR, x, s) # C) = rights C"

definition cpar :: "rb_tree \<Rightarrow> ctx \<Rightarrow> nat" where
  "cpar t C = (case C of [] \<Rightarrow> root t | (_, x, _) # _ \<Rightarrow> x)"

lemma cpar_simps [simp]: "cpar t [] = root t" "cpar t ((d, x, s) # C) = x"
  by (simp_all add: cpar_def)

fun is_ctx :: "rb_tree \<Rightarrow> nat \<Rightarrow> ctx \<Rightarrow> bool" where
  "is_ctx t n [] \<longleftrightarrow> kid t DL (root t) = n"
| "is_ctx t n ((d, x, s) # C) \<longleftrightarrow> x \<noteq> nil t \<and> x \<noteq> root t \<and> kid t d x = n \<and> kid t (opp d) x = tnode t s \<and>
     par t x = cpar t C \<and> is_tree t x s \<and> is_ctx t x C"

lemma inorder_fill: "inorder (fill T C) = lefts C @ inorder T @ rights C"
proof (induction T C rule: fill.induct)
  case (2 T d x s C)
  then show ?case by (cases d) (simp_all add: nd_def)
qed simp

lemma set_ctx: "ctx_set C = set (lefts C) \<union> set (rights C)"
proof (induction C rule: ctx_set.induct)
  case (2 d x s C)
  then show ?case by (cases d) auto
qed simp

definition rbt :: "rb_tree \<Rightarrow> nat tree \<Rightarrow> bool" where
  "rbt t W \<longleftrightarrow> kid t DL (root t) = tnode t W \<and> is_tree t (root t) W \<and> distinct (inorder W) \<and>
     kid t DR (root t) = nil t \<and> nil t \<noteq> root t \<and> \<not> red t (nil t) \<and> \<not> red t (root t)"

text \<open>Destroying a tree frees its sentinels, each once, and none of its nodes.\<close>

lemma rb_tree_destroy_ok:
  assumes "rbt t W" "tree \<notin> set_tree W \<union> {nil t, root t}"
  shows "distinct (rb_tree_destroy tree t)" "set (rb_tree_destroy tree t) \<inter> set_tree W = {}"
  using assms is_tree_nodes[of t "root t" W] by (auto simp: rbt_def rb_tree_destroy_def)

lemma fill_split: "kid t DL (root t) = tnode t (fill T C) \<and> is_tree t (root t) (fill T C)
   \<longleftrightarrow> is_tree t (cpar t C) T \<and> is_ctx t (tnode t T) C"
proof (induction T C rule: fill.induct)
  case (2 T d x s C)
  show ?case unfolding fill.simps 2 by (auto simp: is_tree_nd)
qed auto

lemma rbt_fill: "rbt t (fill T C) \<longleftrightarrow> is_tree t (cpar t C) T \<and> is_ctx t (tnode t T) C \<and>
     distinct (lefts C @ inorder T @ rights C) \<and> kid t DR (root t) = nil t \<and> nil t \<noteq> root t \<and> \<not> red t (nil t) \<and> \<not> red t (root t)"
  using fill_split[of t T C] by (auto simp: rbt_def inorder_fill)

lemma is_ctx_nodes: "is_ctx t n C \<Longrightarrow> x \<in> ctx_set C \<Longrightarrow> x \<noteq> nil t \<and> x \<noteq> root t"
  by (induction C arbitrary: n rule: ctx_set.induct) (auto dest: is_tree_nodes)

text \<open>A context is determined by the links of its nodes; the pointer to the hole may change.\<close>

lemma is_ctx_cong:
  assumes "is_ctx t n C" "nil t' = nil t" "root t' = root t" "distinct (lefts C @ rights C)"
    and "\<And>x d. x \<in> ctx_set C \<Longrightarrow> (x, d) \<noteq> (cpar t C, fst (hd C)) \<Longrightarrow> kid t' d x = kid t d x"
    and "\<And>x. x \<in> ctx_set C \<Longrightarrow> par t' x = par t x"
    and "C = [] \<Longrightarrow> kid t' DL (root t) = n'" "C \<noteq> [] \<Longrightarrow> kid t' (fst (hd C)) (cpar t C) = n'"
    and "C \<noteq> [] \<Longrightarrow> kid t' DL (root t) = kid t DL (root t)"
  shows "is_ctx t' n' C"
  using assms
proof (induction C arbitrary: n n' rule: ctx_set.induct)
  case 1
  then show ?case by simp
next
  case (2 d x s C)
  have dist: "x \<notin> set_tree s" "x \<notin> ctx_set C" "distinct (inorder s)" "distinct (lefts C @ rights C)" "set_tree s \<inter> ctx_set C = {}"
    using 2(5) by (cases d; auto simp: set_ctx)+
  have s: "is_tree t' x s"
  proof (rule is_tree_cong)
    show "is_tree t x s" using 2(2) by simp
    fix z e assume "z \<in> set_tree s"
    then show "kid t' e z = kid t e z \<and> par t' z = par t z" using 2(6)[of z e] 2(7)[of z] dist by auto
  qed (use 2 dist in auto)
  have cx: "is_ctx t x C" "x \<noteq> nil t" "x \<noteq> root t" "kid t (opp d) x = tnode t s" "par t x = cpar t C" using 2(2) by auto
  have C: "is_ctx t' x C"
  proof (rule "2.IH"[OF cx(1) 2(3,4) dist(4)])
    fix z e assume "z \<in> ctx_set C"
    then show "kid t' e z = kid t e z" using 2(6)[of z e] dist by auto
  next
    show "C = [] \<Longrightarrow> kid t' DL (root t) = x" using 2(10) cx(1) by simp
    assume ne: "C \<noteq> []"
    then obtain e y r D where C: "C = (e, y, r) # D" by (metis list.exhaust prod_cases3)
    have "y \<in> ctx_set C" "y \<noteq> x" using C dist by auto
    then have "kid t' e y = kid t e y" using 2(6)[of y e] by auto
    then show "kid t' (fst (hd C)) (cpar t C) = x" using C cx(1) by simp
  qed (use 2 in auto)
  have "kid t' (opp d) x = kid t (opp d) x" using 2(6)[of x "opp d"] by simp
  with s C cx 2(2-4) 2(7)[of x] 2(9) show ?case by (auto simp: tnode_cong[OF 2(3)] cpar_def split: list.splits)
qed

section \<open>Rotations\<close>

lemma inorder_rot [simp]: "inorder (nd d (nd d a x b) y c) = inorder (nd d a x (nd d b y c))"
  by (cases d) (simp_all add: nd_def)

lemma distinct_nd: "distinct (inorder (nd d a x b)) \<longleftrightarrow> distinct (inorder a) \<and> distinct (inorder b) \<and>
    x \<notin> set_tree a \<and> x \<notin> set_tree b \<and> set_tree a \<inter> set_tree b = {}"
  by (cases d) (auto simp: nd_def)

lemma cpar_side:
  assumes "is_ctx t x C" "distinct (lefts C @ rights C)" "x \<noteq> nil t" "x \<notin> ctx_set C" "kid t DR (root t) = nil t"
  shows "(if x = kid t d (cpar t C) then d else opp d) = (if C = [] then DL else fst (hd C))"
proof (cases C)
  case Nil
  then show ?thesis using assms(1,3,5) by (cases d) auto
next
  case (Cons h D)
  then obtain e y s where C: "C = (e, y, s) # D" by (metis prod_cases3)
  then have k: "kid t e y = x" "kid t (opp e) y = tnode t s" using assms(1) by auto
  have "tnode t s \<noteq> x" using assms(3,4) tnode_in[of t s] C by auto
  then show ?thesis using k C by (cases d; cases e) auto
qed

lemma cpar_in: "C \<noteq> [] \<Longrightarrow> cpar t C \<in> ctx_set C"
  by (cases C) (auto simp: cpar_def)

lemma rotate_ok:
  assumes "rbt t (fill (nd d a x (nd d b y c)) C)"
  obtains t' where "rb_rotate d x t = Some t'" "rbt t' (fill (nd d (nd d a x b) y c) C)" "red t' = red t"
    "nil t' = nil t" "root t' = root t"
proof -
  let ?T = "nd d a x (nd d b y c)"
  from assms have T: "is_tree t (cpar t C) ?T" and C: "is_ctx t x C" and dd: "distinct (lefts C @ inorder ?T @ rights C)"
    and rt: "kid t DR (root t) = nil t" "nil t \<noteq> root t" "\<not> red t (nil t)" "\<not> red t (root t)"
    unfolding rbt_fill by simp_all
  from T have tr: "x \<noteq> nil t" "x \<noteq> root t" "par t x = cpar t C" "kid t d x = tnode t a" "kid t (opp d) x = y"
    "is_tree t x a" "y \<noteq> nil t" "y \<noteq> root t" "par t y = x" "kid t d y = tnode t b" "kid t (opp d) y = tnode t c"
    "is_tree t y b" "is_tree t y c" by (auto simp: is_tree_nd)
  from dd have dT: "distinct (inorder ?T)" and dC: "distinct (lefts C @ rights C)" and TC: "set_tree ?T \<inter> ctx_set C = {}"
    by (auto simp: set_ctx)
  from dT have di: "distinct (inorder a)" "distinct (inorder b)" "distinct (inorder c)" "x \<noteq> y" "x \<notin> set_tree a"
    "x \<notin> set_tree b" "x \<notin> set_tree c" "y \<notin> set_tree a" "y \<notin> set_tree b" "y \<notin> set_tree c"
    "set_tree a \<inter> set_tree b = {}" "set_tree a \<inter> set_tree c = {}" "set_tree b \<inter> set_tree c = {}"
    unfolding distinct_nd by auto
  let ?p = "cpar t C" and ?e = "if C = [] then DL else fst (hd C)"
  have xC: "x \<notin> ctx_set C" "y \<notin> ctx_set C" using TC by auto
  have pC: "?p = root t \<or> ?p \<in> ctx_set C" using cpar_in[of C t] by (cases C) auto
  then have px: "?p \<noteq> x" "?p \<noteq> y" "?p \<notin> set_tree a" "?p \<notin> set_tree b" "?p \<notin> set_tree c"
    using xC tr(2,8) TC is_tree_nodes[OF tr(6)] is_tree_nodes[OF tr(12)] is_tree_nodes[OF tr(13)] by auto
  define t1 where "t1 = set_kid (opp d) x (tnode t b) t"
  define t2 where "t2 = (if b \<noteq> Leaf then set_par (tnode t b) x t1 else t1)"
  define t' where "t' = set_par x y (set_kid d y x (set_kid ?e ?p y (set_par y ?p t2)))"
  have bl: "tnode t b \<noteq> nil t \<longleftrightarrow> b \<noteq> Leaf" using is_tree_nodes[OF tr(12)] by (cases b) auto
  have f1: "nil t1 = nil t" "kid t1 d y = tnode t b" "kid t1 d ?p = kid t d ?p" "par t2 x = ?p"
    "kid t2 = kid t1" "nil t2 = nil t" "root t2 = root t"
    using tr px di by (auto simp: t1_def t2_def)
      (metis di(6) bl tnode_in tr(12))
  have side: "(if x = kid t d ?p then set_kid d ?p y u else set_kid (opp d) ?p y u) = set_kid ?e ?p y u" for u
    using cpar_side[OF C dC tr(1) xC(1) rt(1), of d] by (metis (full_types))
  define t3 where "t3 = set_par y ?p t2"
  have s1: "set_kid (opp d) x (kid t d y) t = t1" using tr by (simp add: t1_def)
  have s2: "(if kid t1 d y \<noteq> nil t1 then set_par (kid t1 d y) x t1 else t1) = t2" using bl f1 by (simp add: t2_def)
  have s3: "set_par y (par t2 x) t2 = t3" "par t3 x = ?p" "kid t3 d ?p = kid t d ?p" using f1 di by (simp_all add: t3_def)
  have nr: "\<not> red t' (nil t')" using rt(3) unfolding t'_def t2_def t1_def by simp
  have run: "rb_rotate d x t = Some t'"
    using tr(1,2,7) nr side[of t3] unfolding rb_rotate_def Let_def tr(5) s1 s2 s3
    by (simp add: t'_def t3_def[symmetric])
  have k: "kid t' e z = (if e = opp d \<and> z = x then tnode t b else if e = d \<and> z = y then x
      else if e = ?e \<and> z = ?p then y else kid t e z)" for e z
  proof -
    obtain e0 where e0: "?e = e0" by blast
    obtain p where p: "?p = p" by blast
    have "kid t' = (let k0 = (kid t)(opp d := (kid t (opp d))(x := tnode t b));
        k1 = k0(e0 := (k0 e0)(p := y)) in k1(d := (k1 d)(y := x)))"
      unfolding t'_def e0 p by (simp add: f1 t1_def Let_def)
    then show ?thesis using px(1,2) di(4) unfolding e0 p by (simp add: Let_def)
  qed
  have pr: "par t' z = (if z = x then y else if z = y then ?p else if b \<noteq> Leaf \<and> z = tnode t b then x else par t z)" for z
  proof -
    have "par t' = (par t2)(y := ?p, x := y)" unfolding t'_def by simp
    moreover have "par t2 = (if b \<noteq> Leaf then (par t)(tnode t b := x) else par t)" unfolding t2_def t1_def by simp
    ultimately show ?thesis by (auto simp only: fun_upd_apply split: if_splits)
  qed
  have r2: "red t2 = red t" unfolding t2_def t1_def by simp
  have fx: "nil t' = nil t" "root t' = root t" "red t' = red t" unfolding t'_def by (simp_all add: f1 r2)
  have bb: "b \<noteq> Leaf \<Longrightarrow> tnode t b \<in> set_tree b" by (cases b) auto
  have k0: "kid t' e z = kid t e z" if "z \<noteq> x" "z \<noteq> y" "z \<noteq> ?p" for e z using that by (simp add: k)
  have p0: "par t' z = par t z" if "z \<noteq> x" "z \<noteq> y" "z \<notin> set_tree b \<or> z \<noteq> tnode t b" for z
    using that bb by (cases "b = Leaf"; cases "z = tnode t b"; simp add: pr)
  have sub: "kid t' e z = kid t e z" "par t' z = par t z \<or> z \<in> set_tree b"
    if "z \<in> set_tree a \<or> z \<in> set_tree b \<or> z \<in> set_tree c" for e z
  proof -
    have "z \<noteq> x" "z \<noteq> y" "z \<noteq> ?p" using that di px by blast+
    then show "kid t' e z = kid t e z" "par t' z = par t z \<or> z \<in> set_tree b" using k0 p0 by blast+
  qed
  have ta: "is_tree t' x a" by (rule is_tree_cong[OF tr(6) fx(1,2) di(1)]) (use sub di(11) in blast)
  have tc: "is_tree t' y c" by (rule is_tree_cong[OF tr(13) fx(1,2) di(3)]) (use sub di(13) in blast)
  have tb: "is_tree t' x b"
  proof (rule is_tree_reparent[OF tr(12) fx(1,2) _ _ _ di(2)])
    fix z assume z: "z \<in> set_tree b" "z \<noteq> tnode t b"
    then have "z \<noteq> x" "z \<noteq> y" using di by blast+
    then show "par t' z = par t z" using p0 z by blast
  next
    assume "b \<noteq> Leaf"
    moreover from this have "tnode t b \<noteq> x" "tnode t b \<noteq> y" using bb di by blast+
    ultimately show "par t' (tnode t b) = x" by (simp add: pr)
  qed (use sub in blast)
  have tn: "tnode t' S = tnode t S" for S by (rule tnode_cong[OF fx(1)])
  have cp: "cpar t' C = ?p" by (cases C) (auto simp: cpar_def fx)
  have "is_tree t' (cpar t' C) (nd d (nd d a x b) y c)"
    using ta tb tc tr di px unfolding is_tree_nd cp fx by (simp add: k pr tn)
  moreover have "is_ctx t' y C"
  proof (rule is_ctx_cong[OF C fx(1,2) dC])
    fix z e assume z: "z \<in> ctx_set C"
    then have "z \<noteq> x" "z \<noteq> y" using xC by auto
    moreover have "b \<noteq> Leaf \<Longrightarrow> z \<noteq> tnode t b" using bb z TC by auto
    ultimately show "par t' z = par t z" "(z, e) \<noteq> (cpar t C, fst (hd C)) \<Longrightarrow> kid t' e z = kid t e z"
      using z by (auto simp: k pr)
  next
    assume ne: "C \<noteq> []"
    then have "?p \<noteq> root t" using cpar_in[OF ne] is_ctx_nodes[OF C] by auto
    then show "kid t' DL (root t) = kid t DL (root t)" using tr ne by (auto simp: k)
    show "kid t' (fst (hd C)) (cpar t C) = y" using ne px by (auto simp: k)
  next
    show "C = [] \<Longrightarrow> kid t' DL (root t) = y" using tr by (auto simp: k)
  qed
  moreover have "kid t' DR (root t) = nil t"
  proof -
    have "?p = root t \<Longrightarrow> C = []" using cpar_in[of C t] is_ctx_nodes[OF C] by blast
    then show ?thesis using tr(2,8) rt(1) by (auto simp: k)
  qed
  ultimately have "rbt t' (fill (nd d (nd d a x b) y c) C)"
    unfolding rbt_fill using dd rt fx by simp
  with run fx that show ?thesis by blast
qed

section \<open>Colours\<close>

definition btop :: "(nat \<Rightarrow> bool) \<Rightarrow> nat tree \<Rightarrow> bool" where
  "btop c T = (case T of Leaf \<Rightarrow> True | Node _ x _ \<Rightarrow> \<not> c x)"

text \<open>No red node has a red child; the black height; every two branches have the same one.\<close>

fun rr_free :: "(nat \<Rightarrow> bool) \<Rightarrow> nat tree \<Rightarrow> bool" where
  "rr_free c Leaf = True"
| "rr_free c (Node l x r) \<longleftrightarrow> (c x \<longrightarrow> btop c l \<and> btop c r) \<and> rr_free c l \<and> rr_free c r"

fun bh :: "(nat \<Rightarrow> bool) \<Rightarrow> nat tree \<Rightarrow> nat" where
  "bh c Leaf = 0"
| "bh c (Node l x r) = bh c l + (if c x then 0 else 1)"

fun bal :: "(nat \<Rightarrow> bool) \<Rightarrow> nat tree \<Rightarrow> bool" where
  "bal c Leaf = True"
| "bal c (Node l x r) \<longleftrightarrow> bh c l = bh c r \<and> bal c l \<and> bal c r"

fun rr_ctx :: "(nat \<Rightarrow> bool) \<Rightarrow> ctx \<Rightarrow> bool" where
  "rr_ctx c [] = True"
| "rr_ctx c ((d, x, s) # C) \<longleftrightarrow> (c x \<longrightarrow> btop c s \<and> C \<noteq> [] \<and> \<not> c (fst (snd (hd C)))) \<and> rr_free c s \<and> rr_ctx c C"

fun bal_ctx :: "(nat \<Rightarrow> bool) \<Rightarrow> ctx \<Rightarrow> nat \<Rightarrow> bool" where
  "bal_ctx c [] h = True"
| "bal_ctx c ((d, x, s) # C) h \<longleftrightarrow> bal c s \<and> bh c s = h \<and> bal_ctx c C (h + (if c x then 0 else 1))"

lemma btop_simps [simp]: "btop c Leaf" "btop c (Node l x r) \<longleftrightarrow> \<not> c x" "btop c (nd d a x b) \<longleftrightarrow> \<not> c x"
  by (simp_all add: btop_def nd_def split: dir.splits)

lemma colour_nd [simp]:
  "rr_free c (nd d a x b) \<longleftrightarrow> (c x \<longrightarrow> btop c a \<and> btop c b) \<and> rr_free c a \<and> rr_free c b"
  "bal c (nd d a x b) \<longleftrightarrow> bh c a = bh c b \<and> bal c a \<and> bal c b"
  "bal c a \<Longrightarrow> bal c b \<Longrightarrow> bh c a = bh c b \<Longrightarrow> bh c (nd d a x b) = bh c a + (if c x then 0 else 1)"
  by (cases d; auto simp: nd_def)+

lemma colour_cong:
  "(\<And>x. x \<in> set_tree T \<Longrightarrow> c' x = c x) \<Longrightarrow>
   btop c' T = btop c T \<and> rr_free c' T = rr_free c T \<and> bh c' T = bh c T \<and> bal c' T = bal c T"
  by (induction T) (auto simp: btop_def)

lemma colour_upd [simp]:
  assumes "x \<notin> set_tree T"
  shows "btop (c(x := b)) T = btop c T" "rr_free (c(x := b)) T = rr_free c T"
    "bh (c(x := b)) T = bh c T" "bal (c(x := b)) T = bal c T"
proof -
  have "(c(x := b)) y = c y" if "y \<in> set_tree T" for y using that assms by auto
  from colour_cong[of T "c(x := b)" c, OF this] show "btop (c(x := b)) T = btop c T" "rr_free (c(x := b)) T = rr_free c T"
    "bh (c(x := b)) T = bh c T" "bal (c(x := b)) T = bal c T" by blast+
qed

lemma ctx_colour_cong:
  "(\<And>x. x \<in> ctx_set C \<Longrightarrow> c' x = c x) \<Longrightarrow> rr_ctx c' C = rr_ctx c C \<and> bal_ctx c' C h = bal_ctx c C h"
proof (induction C arbitrary: h rule: ctx_set.induct)
  case (2 d y s C)
  have s: "btop c' s = btop c s" "rr_free c' s = rr_free c s" "bh c' s = bh c s" "bal c' s = bal c s"
    using colour_cong[of s c' c] 2(2) by auto
  have C: "rr_ctx c' C = rr_ctx c C" "bal_ctx c' C h = bal_ctx c C h" for h using 2 by auto
  have "C \<noteq> [] \<Longrightarrow> c' (fst (snd (hd C))) = c (fst (snd (hd C)))" using 2(2) by (cases C) auto
  then show ?case using 2(2)[of y] by (auto simp: s C)
qed simp

lemma ctx_colour_upd [simp]:
  assumes "x \<notin> ctx_set C"
  shows "rr_ctx (c(x := b)) C = rr_ctx c C" "bal_ctx (c(x := b)) C h = bal_ctx c C h"
proof -
  have "(c(x := b)) y = c y" if "y \<in> ctx_set C" for y using that assms by auto
  from ctx_colour_cong[of C "c(x := b)" c, OF this] show "rr_ctx (c(x := b)) C = rr_ctx c C" "bal_ctx (c(x := b)) C h = bal_ctx c C h" by blast+
qed

lemma rr_fill: "rr_free c T \<Longrightarrow> rr_ctx c C \<Longrightarrow> (C \<noteq> [] \<longrightarrow> c (fst (snd (hd C))) \<longrightarrow> btop c T) \<Longrightarrow> rr_free c (fill T C)"
proof (induction T C rule: fill.induct)
  case (2 T d x s C)
  have "rr_free c (nd d T x s)" using 2(2-4) by simp
  moreover have "C \<noteq> [] \<longrightarrow> c (fst (snd (hd C))) \<longrightarrow> btop c (nd d T x s)" using 2(3) by auto
  moreover have "rr_ctx c C" using 2(3) by simp
  ultimately show ?case using 2(1) by simp
qed simp

lemma bal_fill: "bal c T \<Longrightarrow> bal_ctx c C (bh c T) \<Longrightarrow> bal c (fill T C)"
proof (induction T C rule: fill.induct)
  case (2 T d x s C)
  then have "bal c (nd d T x s)" "bal_ctx c C (bh c (nd d T x s))" by auto
  then show ?case using 2(1) by simp
qed simp

lemma rbt_recolour:
  assumes "rbt t W" "x \<in> set_tree W \<or> \<not> b"
  shows "rbt (set_red x b t) W"
proof -
  have tn: "tnode (set_red x b t) T = tnode t T" for T by (rule tnode_cong) simp
  have "is_tree (set_red x b t) p T = is_tree t p T" for p T by (induction T arbitrary: p) (auto simp: tn)
  moreover have "x \<in> set_tree W \<Longrightarrow> x \<noteq> nil t \<and> x \<noteq> root t" using assms(1) is_tree_nodes by (auto simp: rbt_def)
  ultimately show ?thesis using assms by (auto simp: rbt_def tn)
qed

section \<open>Insertion\<close>

lemma nd_opp [simp]: "nd (opp d) a x b = nd d b x a"
  by (cases d) (simp_all add: nd_def)

lemma fill_set: "set_tree (fill T C) = set_tree T \<union> ctx_set C"
  by (induction T C rule: fill.induct) auto

text \<open>The last step: the parent \<open>p\<close> becomes black, the grandparent \<open>g\<close> red, and \<open>g\<close> is rotated
  away from the inserted side.\<close>

lemma insert_final:
  assumes r: "rbt t (fill (nd d (nd d U p D) g s) C)" and U: "U = Node l x r" "red t x"
    and col: "red t p" "\<not> red t g" "btop (red t) s" "rr_free (red t) U" "rr_free (red t) D" "rr_free (red t) s"
      "btop (red t) D" "rr_ctx (red t) C" "bal (red t) U" "bal (red t) D" "bal (red t) s"
      "bh (red t) U = h" "bh (red t) D = h" "bh (red t) s = h" "bal_ctx (red t) C (h + 1)"
  obtains t' where "rb_rotate (opp d) g (set_red g True (set_red p False t)) = Some t'"
    "rbt t' (fill (nd d U p (nd d D g s)) C)" "rr_free (red t') (fill (nd d U p (nd d D g s)) C)"
    "bal (red t') (fill (nd d U p (nd d D g s)) C)" "par t' x = p" "\<not> red t' p" "nil t' = nil t" "root t' = root t"
proof -
  let ?W = "fill (nd d (nd d U p D) g s) C"
  let ?t = "set_red g True (set_red p False t)"
  have "rbt ?t ?W" using r by (intro rbt_recolour) (auto simp: fill_set)
  then have "rbt ?t (fill (nd (opp d) s g (nd (opp d) D p U)) C)" by simp
  then obtain t' where t': "rb_rotate (opp d) g ?t = Some t'"
    "rbt t' (fill (nd (opp d) (nd (opp d) s g D) p U) C)" "red t' = red ?t" "nil t' = nil ?t" "root t' = root ?t"
    by (rule rotate_ok)
  have W': "nd (opp d) (nd (opp d) s g D) p U = nd d U p (nd d D g s)" by simp
  from r have "distinct (lefts C @ inorder (nd d (nd d U p D) g s) @ rights C)" by (simp add: rbt_fill)
  then have ds: "distinct (inorder (nd d (nd d U p D) g s))" "set_tree (nd d (nd d U p D) g s) \<inter> ctx_set C = {}"
    by (auto simp: set_ctx)
  then have n: "p \<noteq> g" "p \<notin> set_tree U" "g \<notin> set_tree U" "p \<notin> set_tree D" "g \<notin> set_tree D" "p \<notin> set_tree s" "g \<notin> set_tree s"
    "p \<notin> ctx_set C" "g \<notin> ctx_set C" unfolding distinct_nd by auto
  have c': "red t' = (red t)(p := False, g := True)" by (simp add: t'(3))
  have rr: "rr_free (red t') (nd d U p (nd d D g s))" "bal (red t') (nd d U p (nd d D g s))"
    "rr_ctx (red t') C" "bal_ctx (red t') C (h + 1)" "bh (red t') (nd d U p (nd d D g s)) = h + 1"
    using col n unfolding c' by simp_all
  have "is_tree t' (cpar t' C) (nd d U p (nd d D g s))" using t'(2) unfolding W' rbt_fill by simp
  then have "par t' x = p" using U by (simp add: is_tree_nd)
  moreover have "\<not> red t' p" using n c' by simp
  ultimately show ?thesis
    using that[OF t'(1) t'(2)[unfolded W']] rr_fill[OF rr(1,3)] bal_fill[OF rr(2)] rr(4,5) n(1) t'(4,5)
    unfolding c' by simp
qed

lemma is_ctx_Cons: "rbt t (fill T ((d, x, s) # C)) \<Longrightarrow> kid t d x = tnode t T \<and> kid t (opp d) x = tnode t s
    \<and> par t x = cpar t C \<and> x \<noteq> nil t \<and> x \<noteq> root t"
  unfolding rbt_fill by simp

lemma node_par: "rbt t (fill (Node l x r) C) \<Longrightarrow> par t x = cpar t C"
  unfolding rbt_fill by simp

lemma ctx_disjoint:
  assumes "rbt t (fill T ((d, x, s) # C))"
  shows "x \<notin> set_tree T" "x \<notin> set_tree s" "x \<notin> ctx_set C" "set_tree T \<inter> set_tree s = {}" "set_tree s \<inter> ctx_set C = {}"
    "set_tree T \<inter> ctx_set C = {}" "distinct (inorder T)"
  using assms unfolding rbt_fill by (cases d; auto simp: set_ctx)+

lemma tnode_red: "rbt t W \<Longrightarrow> red t (tnode t s) \<longleftrightarrow> \<not> btop (red t) s"
  by (cases s) (auto simp: rbt_def)

lemma insert_fixup_ok:
  assumes "rbt t (fill T C)" "T = Node l x r" "red t x" "rr_free (red t) T" "bal (red t) T" "bh (red t) T = h"
    "rr_ctx (red t) C" "bal_ctx (red t) C h"
  shows "\<exists>t' W. insert_fixup x t = Some t' \<and> rbt t' W \<and> inorder W = inorder (fill T C) \<and> rr_free (red t') W
    \<and> bal (red t') W \<and> nil t' = nil t \<and> root t' = root t"
  using assms
proof (induction "length C" arbitrary: t T C l x r h rule: less_induct)
  case less
  note r = less.prems(1) and T = less.prems(2)
  have px: "par t x = cpar t C" using node_par r T by blast
  show ?case
  proof (cases "red t (cpar t C)")
    case False
    have "rr_free (red t) (fill T C)"
      using less.prems(4,7) False by (intro rr_fill) (auto simp: cpar_def split: list.splits)
    moreover have "bal (red t) (fill T C)" using less.prems(5,6,8) by (intro bal_fill) auto
    moreover have "insert_fixup x t = Some t" using False px by (simp add: insert_fixup.simps[of x t])
    ultimately show ?thesis using r by blast
  next
    case True
    have "C \<noteq> []" using True r by (auto simp: rbt_def)
    then obtain d1 p s1 C1 where C: "C = (d1, p, s1) # C1" by (metis list.exhaust prod_cases3)
    have pr: "red t p" "btop (red t) s1" "C1 \<noteq> []" using True less.prems(7) C by auto
    then obtain d2 g s2 C2 where C1: "C1 = (d2, g, s2) # C2" by (metis list.exhaust prod_cases3)
    have gb: "\<not> red t g" using less.prems(7) C C1 pr by auto
    let ?P = "nd d1 T p s1"
    have rP: "rbt t (fill ?P ((d2, g, s2) # C2))" using r by (simp add: C C1)
    have fg: "kid t d2 g = p" "kid t (opp d2) g = tnode t s2" "par t p = g" "par t x = p"
      using is_ctx_Cons[OF rP] is_ctx_Cons[of t T d1 p s1 C1] r px by (simp_all add: C C1)
    have pn: "p \<noteq> nil t" using is_ctx_Cons[of t T d1 p s1 C1] r by (simp add: C)
    have dg: "g \<notin> set_tree ?P" "g \<notin> set_tree s2" "g \<notin> ctx_set C2" "set_tree ?P \<inter> set_tree s2 = {}"
      "set_tree s2 \<inter> ctx_set C2 = {}" "set_tree ?P \<inter> ctx_set C2 = {}" "distinct (inorder ?P)"
      using ctx_disjoint[OF rP] by blast+
    have dp: "distinct (inorder T)" "distinct (inorder s1)" "p \<notin> set_tree T" "p \<notin> set_tree s1" "set_tree T \<inter> set_tree s1 = {}"
      using dg(7) unfolding distinct_nd by auto
    have s2p: "tnode t s2 \<noteq> p" using dg(4) pn tnode_in[of t s2] by auto
    have side: "(if p = kid t DL g then DL else DR) = d2" using fg(1,2) s2p by (cases d2) auto
    have cols: "rr_free (red t) s1" "rr_free (red t) s2" "rr_ctx (red t) C2" "bal (red t) s1" "bh (red t) s1 = h"
      "bal (red t) s2" "bh (red t) s2 = h" "bal_ctx (red t) C2 (h + 1)"
      using less.prems(7,8) pr gb by (simp_all add: C C1)
    have bT: "\<not> btop (red t) T" using T less.prems(3) by simp
    show ?thesis
    proof (cases "red t (tnode t s2)")
      case yred: True
      then obtain l2 y r2 where s2: "s2 = Node l2 y r2" using r by (cases s2) (auto simp: rbt_def)
      let ?t = "set_red g True (set_red y False (set_red p False t))"
      let ?T = "nd d2 ?P g s2"
      have run: "insert_fixup x t = insert_fixup g ?t"
        using fg True C yred side s2 by (simp add: insert_fixup.simps[of x t] Let_def)
      have rt: "rbt ?t (fill ?T C2)"
        using r by (intro rbt_recolour) (auto simp: C C1 fill_set)
      have ny: "y \<notin> set_tree ?P" "y \<notin> ctx_set C2" "g \<noteq> y" "p \<noteq> y" "p \<noteq> g" "p \<notin> set_tree s2" "p \<notin> ctx_set C2" "y \<notin> set_tree T" "y \<notin> set_tree s1"
        using dg s2 by auto
      have c': "red ?t = (red t)(p := False, y := False, g := True)" by simp
      have s2': "btop (red ?t) s2" "rr_free (red ?t) s2" "bal (red ?t) s2" "bh (red ?t) s2 = h + 1"
      proof -
        have y2: "y \<notin> set_tree l2" "y \<notin> set_tree r2" "g \<notin> set_tree l2" "g \<notin> set_tree r2" "p \<notin> set_tree l2" "p \<notin> set_tree r2"
          using rP s2 dg ny unfolding rbt_fill by (cases d2; auto)+
        show "btop (red ?t) s2" "rr_free (red ?t) s2" "bal (red ?t) s2" "bh (red ?t) s2 = h + 1"
          using cols(2,6,7) yred ny(3) y2 unfolding c' s2 by simp_all
      qed
      have P': "btop (red ?t) ?P" "rr_free (red ?t) ?P" "bal (red ?t) ?P" "bh (red ?t) ?P = h + 1"
        using less.prems(4-6) cols(1,4,5) dp ny dg(1) unfolding c' by simp_all
      have C2': "rr_ctx (red ?t) C2" "bal_ctx (red ?t) C2 (h + 1)" using cols(3,8) ny dg(3) unfolding c' by simp_all
      obtain l' r' where T': "?T = Node l' g r'" by (cases d2) (auto simp: nd_def)
      have "length C2 < length C" by (simp add: C C1)
      from less.hyps[OF this rt T' _ _ _ _ C2'] have
        "\<exists>t' W. insert_fixup g ?t = Some t' \<and> rbt t' W \<and> inorder W = inorder (fill ?T C2) \<and> rr_free (red t') W
          \<and> bal (red t') W \<and> nil t' = nil ?t \<and> root t' = root ?t"
        using s2' P' by simp
      then show ?thesis unfolding run by (simp add: C C1)
    next
      case yblack: False
      then have bs2: "btop (red t) s2" using tnode_red[OF r] by blast
      have fin: "\<exists>t2 W. rb_rotate (opp d2) (par t1 (par t1 X)) (set_red (par t1 (par t1 X)) True (set_red (par t1 X) False t1)) = Some t2
          \<and> insert_fixup X t2 = Some t2 \<and> rbt t2 W \<and> inorder W = inorder (fill T C) \<and> rr_free (red t2) W
          \<and> bal (red t2) W \<and> nil t2 = nil t1 \<and> root t2 = root t1"
        if s: "rbt t1 (fill (nd d2 (nd d2 (nd d2 A X B) Q D) g s2) C2)" "red t1 = red t" "red t X" "red t Q"
          "btop (red t) A" "btop (red t) B" "btop (red t) D" "rr_free (red t) A" "rr_free (red t) B" "rr_free (red t) D"
          "bal (red t) A" "bal (red t) B" "bal (red t) D" "bh (red t) A = h" "bh (red t) B = h" "bh (red t) D = h"
          "inorder (nd d2 (nd d2 A X B) Q D) = inorder ?P" for t1 A X B Q D
      proof -
        obtain lx rx where X: "nd d2 A X B = Node lx X rx" by (cases d2) (auto simp: nd_def)
        obtain lq rq where Q: "nd d2 (nd d2 A X B) Q D = Node lq Q rq" by (cases d2) (auto simp: nd_def)
        have "rbt t1 (fill (Node lx X rx) ((d2, Q, D) # (d2, g, s2) # C2))" using s(1) unfolding fill.simps X by simp
        from node_par[OF this] have pX: "par t1 X = Q" by (simp add: cpar_def)
        have "rbt t1 (fill (Node lq Q rq) ((d2, g, s2) # C2))" using s(1) unfolding fill.simps Q by simp
        from node_par[OF this] have pQ: "par t1 Q = g" by (simp add: cpar_def)
        obtain t2 where t2: "rb_rotate (opp d2) g (set_red g True (set_red Q False t1)) = Some t2"
          "rbt t2 (fill (nd d2 (nd d2 A X B) Q (nd d2 D g s2)) C2)"
          "rr_free (red t2) (fill (nd d2 (nd d2 A X B) Q (nd d2 D g s2)) C2)"
          "bal (red t2) (fill (nd d2 (nd d2 A X B) Q (nd d2 D g s2)) C2)" "par t2 X = Q" "\<not> red t2 Q" "nil t2 = nil t1" "root t2 = root t1"
          by (rule insert_final[OF s(1) X, of h])
            (use s(2-) gb bs2 cols in \<open>simp_all add: s(2)\<close>)
        have io: "inorder (fill (nd d2 (nd d2 A X B) Q (nd d2 D g s2)) C2) = inorder (fill T C)"
        proof -
          have "inorder (nd d2 (nd d2 A X B) Q (nd d2 D g s2)) = inorder (nd d2 (nd d2 (nd d2 A X B) Q D) g s2)" by simp
          also have "\<dots> = inorder (nd d2 ?P g s2)" using s(17) by (cases d2) (simp_all add: nd_def)
          finally show ?thesis by (simp add: C C1 inorder_fill)
        qed
        have "insert_fixup X t2 = Some t2" using t2(5,6) by (simp add: insert_fixup.simps[of X t2])
        then show ?thesis using t2 io unfolding pX pQ by blast
      qed
      obtain A X0 B where TAB: "T = nd d2 A x B" using T by (cases d2) (auto simp: nd_def)
      have AB: "btop (red t) A" "btop (red t) B" "rr_free (red t) A" "rr_free (red t) B" "bal (red t) A" "bal (red t) B"
        "bh (red t) A = h" "bh (red t) B = h"
        using less.prems(3-6) unfolding TAB by (cases d2; auto simp: nd_def)+
      show ?thesis
      proof (cases "d1 = d2")
        case outer: True
        have "x \<noteq> kid t (opp d2) p"
          using is_ctx_Cons[of t T d1 p s1 C1] r outer tnode_in[of t s1] dp(5) T is_tree_nodes by (auto simp: C rbt_fill)
        with fg C True yblack side have run: "insert_fixup x t = (do {
            t2 \<leftarrow> rb_rotate (opp d2) (par t (par t x)) (set_red (par t (par t x)) True (set_red (par t x) False t));
            insert_fixup x t2 })"
          by (simp add: insert_fixup.simps[of x t] Let_def)
        obtain t2 W where "rb_rotate (opp d2) (par t (par t x)) (set_red (par t (par t x)) True (set_red (par t x) False t)) = Some t2"
          "insert_fixup x t2 = Some t2" "rbt t2 W" "inorder W = inorder (fill T C)" "rr_free (red t2) W"
          "bal (red t2) W" "nil t2 = nil t" "root t2 = root t"
          using fin[of t A x B p s1] r AB cols pr less.prems(3) outer unfolding TAB C C1 by auto
        then show ?thesis unfolding run by auto
      next
        case inner: False
        then have d1: "d1 = opp d2" by (cases d1; cases d2) auto
        have xk: "x = kid t (opp d2) p" using is_ctx_Cons[of t T d1 p s1 C1] r T d1 by (simp add: C)
        have "rbt t (fill (nd d2 s1 p (nd d2 A x B)) ((d2, g, s2) # C2))" using rP unfolding d1 TAB by simp
        then obtain t1 where t1: "rb_rotate d2 p t = Some t1" "rbt t1 (fill (nd d2 (nd d2 s1 p A) x B) ((d2, g, s2) # C2))"
          "red t1 = red t" "nil t1 = nil t" "root t1 = root t" by (rule rotate_ok)
        from fg C True yblack side t1(1) have run: "insert_fixup x t = (do {
            t2 \<leftarrow> rb_rotate (opp d2) (par t1 (par t1 p)) (set_red (par t1 (par t1 p)) True (set_red (par t1 p) False t1));
            insert_fixup p t2 })"
          by (simp add: insert_fixup.simps[of x t] Let_def xk[symmetric])
        have io: "inorder (nd d2 (nd d2 s1 p A) x B) = inorder ?P" unfolding d1 TAB by simp
        obtain t2 W where "rb_rotate (opp d2) (par t1 (par t1 p)) (set_red (par t1 (par t1 p)) True (set_red (par t1 p) False t1)) = Some t2"
          "insert_fixup p t2 = Some t2" "rbt t2 W" "inorder W = inorder (fill T C)" "rr_free (red t2) W"
          "bal (red t2) W" "nil t2 = nil t1" "root t2 = root t1"
          using fin[of t1 s1 p A x B] t1 AB cols pr less.prems(3) io by auto
        then show ?thesis unfolding run using t1(4,5) by auto
      qed
    qed
  qed
qed

text \<open>What a colouring of a whole tree says of a subtree and of its context.\<close>

lemma rr_fillD: "rr_free c (fill T C) \<Longrightarrow> btop c (fill T C) \<Longrightarrow> rr_free c T \<and> rr_ctx c C \<and> (C = [] \<longrightarrow> btop c T)
    \<and> (C \<noteq> [] \<longrightarrow> c (fst (snd (hd C))) \<longrightarrow> btop c T)"
proof (induction T C rule: fill.induct)
  case (2 T d x s C)
  then have "rr_free c (nd d T x s)" "rr_ctx c C" "C = [] \<longrightarrow> \<not> c x" "C \<noteq> [] \<longrightarrow> c (fst (snd (hd C))) \<longrightarrow> \<not> c x"
    by auto
  then show ?case by auto
qed simp

lemma bal_fillD: "bal c (fill T C) \<Longrightarrow> bal c T \<and> bal_ctx c C (bh c T)"
proof (induction T C rule: fill.induct)
  case (2 T d x s C)
  then have "bal c (nd d T x s)" "bal_ctx c C (bh c (nd d T x s))" by auto
  then show ?case by simp
qed simp

text \<open>The way down of \<open>rb_insert_binary\<close> ends at a leaf; at each node of it the side taken is
  the one the comparison asks for.\<close>

definition way :: "(nat \<Rightarrow> nat \<Rightarrow> int) \<Rightarrow> nat \<Rightarrow> ctx \<Rightarrow> bool" where
  "way cmp z D \<longleftrightarrow> list_all (\<lambda>(d, x, s). (d = DL) = (0 < cmp x z)) D"

lemma insert_search_ok:
  assumes "is_tree t p T"
  shows "\<exists>D. insert_search cmp z p (tnode t T) t = Some (case D of [] \<Rightarrow> p | (d, x, s) # _ \<Rightarrow> x)
    \<and> way cmp z D \<and> (\<forall>C. fill T C = fill Leaf (D @ C))"
  using assms
proof (induction T arbitrary: p)
  case Leaf
  then show ?case by (intro exI[of _ "[]"]) (simp add: insert_search.simps[of cmp z p "nil t"] way_def)
next
  case (Node l x r)
  let ?d = "if cmp x z > 0 then DL else DR" and ?S = "if cmp x z > 0 then l else r" and ?o = "if cmp x z > 0 then r else l"
  have n: "Node l x r = nd ?d ?S x ?o" by (simp add: nd_def)
  have S: "is_tree t x ?S" "x \<noteq> nil t" "kid t ?d x = tnode t ?S" using Node.prems by auto
  have "\<exists>D. insert_search cmp z x (tnode t ?S) t = Some (case D of [] \<Rightarrow> x | (d, x, s) # _ \<Rightarrow> x)
    \<and> way cmp z D \<and> (\<forall>C. fill ?S C = fill Leaf (D @ C))"
    using Node.IH(1)[of x] Node.IH(2)[of x] S(1) by (cases "0 < cmp x z") simp_all
  then obtain D where
    D: "insert_search cmp z x (tnode t ?S) t = Some (case D of [] \<Rightarrow> x | (d, x, s) # _ \<Rightarrow> x)"
    "way cmp z D" "\<And>C. fill ?S C = fill Leaf (D @ C)" by blast
  have "insert_search cmp z p x t = insert_search cmp z x (tnode t ?S) t"
    using S Node.prems by (subst insert_search.simps) simp
  moreover have "fill (Node l x r) C = fill Leaf ((D @ [(?d, x, ?o)]) @ C)" for C
  proof -
    have "fill (Node l x r) C = fill ?S ((?d, x, ?o) # C)" by (simp add: n)
    also have "\<dots> = fill Leaf (D @ (?d, x, ?o) # C)" by (rule D(3))
    finally show ?thesis by simp
  qed
  moreover have "way cmp z (D @ [(?d, x, ?o)])" using D(2) by (simp add: way_def)
  moreover have "(case D @ [(?d, x, ?o)] of [] \<Rightarrow> p | (d, x, s) # _ \<Rightarrow> x) = (case D of [] \<Rightarrow> x | (d, x, s) # _ \<Rightarrow> x)"
    by (cases D) simp_all
  ultimately show ?case unfolding tnode_simps D(1)
    by (intro exI[of _ "D @ [(?d, x, ?o)]"]) (simp only: simp_thms)
qed

text \<open>In a tree ordered by the comparison with \<open>z\<close> the nodes left of the leaf are those that do
  not compare above \<open>z\<close>.\<close>

lemma sorted_wrt_node: "sorted_wrt R (inorder (Node l x r)) \<Longrightarrow> sorted_wrt R (inorder l) \<and> sorted_wrt R (inorder r) \<and>
    (\<forall>a \<in> set_tree l. R a x) \<and> (\<forall>a \<in> set_tree r. R x a)"
  by (simp add: sorted_wrt_append)

lemma sorted_around:
  "sorted_wrt R (A @ M @ x # B @ C) \<Longrightarrow> a \<in> set B \<Longrightarrow> R x a"
  "sorted_wrt R ((A @ B @ [x]) @ M @ C) \<Longrightarrow> a \<in> set B \<Longrightarrow> R a x"
  by (auto simp: sorted_wrt_append)

lemma way_sorted:
  assumes "way cmp z D" "sorted_wrt (\<lambda>a b. 0 < cmp a z \<longrightarrow> 0 < cmp b z) (lefts D @ M @ rights D)"
  shows "(\<forall>a \<in> set (lefts D). \<not> 0 < cmp a z) \<and> (\<forall>a \<in> set (rights D). 0 < cmp a z)"
  using assms
proof (induction D arbitrary: M rule: lefts.induct)
  case (2 x s D)
  from 2(3) have "sorted_wrt (\<lambda>a b. 0 < cmp a z \<longrightarrow> 0 < cmp b z) (lefts D @ (M @ x # inorder s) @ rights D)" by simp
  moreover have "way cmp z D" using 2(2) by (simp add: way_def)
  ultimately have "(\<forall>a \<in> set (lefts D). \<not> 0 < cmp a z) \<and> (\<forall>a \<in> set (rights D). 0 < cmp a z)" using 2(1) by blast
  moreover have x: "0 < cmp x z" using 2(2) by (simp add: way_def)
  moreover have "\<forall>a \<in> set_tree s. 0 < cmp a z"
    using sorted_around(1)[OF 2(3)[unfolded lefts.simps rights.simps]] x by (metis set_inorder)
  ultimately show ?case by auto
next
  case (3 x s D)
  from 3(3) have "sorted_wrt (\<lambda>a b. 0 < cmp a z \<longrightarrow> 0 < cmp b z) (lefts D @ (inorder s @ x # M) @ rights D)" by simp
  moreover have "way cmp z D" using 3(2) by (simp add: way_def)
  ultimately have "(\<forall>a \<in> set (lefts D). \<not> 0 < cmp a z) \<and> (\<forall>a \<in> set (rights D). 0 < cmp a z)" using 3(1) by blast
  moreover have x: "\<not> 0 < cmp x z" using 3(2) by (simp add: way_def)
  moreover have "\<forall>a \<in> set_tree s. \<not> 0 < cmp a z"
    using sorted_around(2)[OF 3(3)[unfolded lefts.simps rights.simps]] x by (metis set_inorder)
  ultimately show ?case by auto
qed simp

lemma insert_binary_ok:
  assumes r: "rbt t W" and z: "z \<notin> set_tree W" "z \<noteq> nil t" "z \<noteq> root t"
  obtains t' D where "rb_insert_binary cmp z t = Some t'" "W = fill Leaf D" "way cmp z D"
    "rbt t' (fill (Node Leaf z Leaf) D)" "red t' = red t" "nil t' = nil t" "root t' = root t"
proof -
  define t1 where "t1 = set_kid DR z (nil t) (set_kid DL z (nil t) t)"
  have f1: "nil t1 = nil t" "root t1 = root t" "red t1 = red t" "par t1 = par t"
    "kid t1 d x = (if x = z then nil t else kid t d x)" for d x by (cases d; simp add: t1_def)+
  have W: "is_tree t (root t) W" "distinct (inorder W)" "kid t DL (root t) = tnode t W" using r by (auto simp: rbt_def)
  have W1: "is_tree t1 (root t) W" by (rule is_tree_cong[OF W(1) f1(1,2) W(2)]) (use z f1 in auto)
  have tn: "tnode t1 S = tnode t S" for S by (rule tnode_cong) (rule f1)
  obtain D where D: "insert_search cmp z (root t) (tnode t1 W) t1 = Some (case D of [] \<Rightarrow> root t | (d, x, s) # _ \<Rightarrow> x)"
    "way cmp z D" "W = fill Leaf D"
    using insert_search_ok[OF W1, of cmp z] fill.simps(1)[of W] by (metis append.right_neutral)
  have "rbt t1 W" using r W1 z(3) unfolding rbt_def by (simp add: f1 tn)
  then have r1: "is_ctx t1 (nil t) D" "distinct (lefts D @ rights D)" "kid t1 DR (root t) = nil t"
    unfolding D(3) rbt_fill by (simp_all add: f1)
  let ?y = "cpar t D"
  have cp: "cpar t1 D = ?y" by (cases D) (auto simp: cpar_def f1(2))
  have y: "(case D of [] \<Rightarrow> root t | (d, x, s) # _ \<Rightarrow> x) = ?y" by (simp add: cpar_def)
  have zD: "z \<notin> ctx_set D" using z(1) unfolding D(3) fill_set by simp
  have yz: "?y \<noteq> z" using zD z(3) cpar_in[of D t] by (cases D) auto
  let ?e = "if D = [] then DL else fst (hd D)"
  have side: "(if ?y = root t \<or> cmp ?y z > 0 then set_kid DL ?y z u else set_kid DR ?y z u) = set_kid ?e ?y z u" for u
  proof (cases D)
    case (Cons h D')
    then obtain d x s where "D = (d, x, s) # D'" by (metis prod_cases3)
    moreover from this have "x \<noteq> root t" using is_ctx_nodes[OF r1(1), of x] f1 by auto
    ultimately show ?thesis using D(2) by (cases d) (auto simp: way_def)
  qed simp
  define t' where "t' = set_kid ?e ?y z (set_par z ?y t1)"
  have run: "rb_insert_binary cmp z t = Some t'"
    using D(1) z(3) W(3) side unfolding rb_insert_binary_def Let_def t1_def[symmetric] y
    by (simp add: f1 tn t'_def)
  have f': "nil t' = nil t" "root t' = root t" "red t' = red t" "par t' x = (if x = z then ?y else par t x)"
    "kid t' d x = (if d = ?e \<and> x = ?y then z else kid t1 d x)" for d x
  proof -
    obtain e where e: "?e = e" by blast
    show "nil t' = nil t" "root t' = root t" "red t' = red t" "par t' x = (if x = z then ?y else par t x)"
      "kid t' d x = (if d = ?e \<and> x = ?y then z else kid t1 d x)"
      unfolding t'_def e by (simp_all add: f1(1-4))
  qed
  have "is_ctx t' z D"
  proof (rule is_ctx_cong[OF r1(1) _ _ r1(2)])
    fix x d assume x: "x \<in> ctx_set D"
    then show "par t' x = par t1 x" using zD by (auto simp: f' f1(4))
    show "(x, d) \<noteq> (cpar t1 D, fst (hd D)) \<Longrightarrow> kid t' d x = kid t1 d x" using x cp by (auto simp: f')
  next
    assume ne: "D \<noteq> []"
    then have "?y \<noteq> root t" using cpar_in[OF ne] is_ctx_nodes[OF r1(1)] f1 by metis
    then show "kid t' DL (root t1) = kid t1 DL (root t1)" by (auto simp: f' f1(2))
    show "kid t' (fst (hd D)) (cpar t1 D) = z" using ne by (simp add: f' cp)
  qed (simp_all add: f' f1(1,2))
  moreover have "is_tree t' (cpar t' D) (Node Leaf z Leaf)"
    using z yz f' f1(5) by (simp add: cpar_def) (metis (no_types, lifting))
  moreover have "kid t' DR (root t) = nil t"
  proof -
    have "?y = root t \<Longrightarrow> D = []" using cpar_in[of D t] is_ctx_nodes[OF r1(1)] f1 by metis
    then show ?thesis using r1(3) by (auto simp: f')
  qed
  moreover have "distinct (lefts D @ inorder (Node Leaf z Leaf) @ rights D)" using r1(2) zD by (auto simp: set_ctx)
  ultimately have "rbt t' (fill (Node Leaf z Leaf) D)" using r unfolding rbt_fill by (simp only: tnode_simps f'(1-3) rbt_def simp_thms)
  with run D f'(1-3) that show ?thesis by blast
qed

text \<open>A red-black tree: its links, no red node with a red child, equal black heights, black root.\<close>

definition rb_ok :: "rb_tree \<Rightarrow> nat tree \<Rightarrow> bool" where
  "rb_ok t W \<longleftrightarrow> rbt t W \<and> rr_free (red t) W \<and> bal (red t) W \<and> btop (red t) W"

lemma rr_blacken: "rr_free c T \<Longrightarrow> distinct (inorder T) \<Longrightarrow> T = Node l x r \<Longrightarrow>
    rr_free (c(x := False)) T \<and> btop (c(x := False)) T \<and> (bal c T \<longrightarrow> bal (c(x := False)) T)"
  by simp

lemma insert_ok:
  assumes "rb_ok t W" "z \<notin> set_tree W" "z \<noteq> nil t" "z \<noteq> root t"
    and "sorted_wrt (\<lambda>a b. 0 < cmp a z \<longrightarrow> 0 < cmp b z) (inorder W)"
  shows "\<exists>t' W'. rb_insert cmp z t = Some t' \<and> rb_ok t' W' \<and> nil t' = nil t \<and> root t' = root t \<and>
    inorder W' = filter (\<lambda>x. cmp x z \<le> 0) (inorder W) @ z # filter (\<lambda>x. 0 < cmp x z) (inorder W)"
proof -
  have W: "rbt t W" "rr_free (red t) W" "bal (red t) W" "btop (red t) W" using assms(1) by (auto simp: rb_ok_def)
  obtain t1 D where t1: "rb_insert_binary cmp z t = Some t1" "W = fill Leaf D" "way cmp z D"
    "rbt t1 (fill (Node Leaf z Leaf) D)" "red t1 = red t" "nil t1 = nil t" "root t1 = root t"
    by (rule insert_binary_ok[OF W(1) assms(2-4)])
  let ?t = "set_red z True t1" and ?N = "Node Leaf z Leaf"
  have zD: "z \<notin> ctx_set D" using assms(2) unfolding t1(2) fill_set by simp
  have rt: "rbt ?t (fill ?N D)" by (rule rbt_recolour[OF t1(4)]) (simp add: fill_set)
  have c: "rr_ctx (red t) D" "bal_ctx (red t) D 0"
    using rr_fillD[of "red t" Leaf D] bal_fillD[of "red t" Leaf D] W unfolding t1(2) by auto
  have rd: "red ?t = (red t)(z := True)" by (simp add: t1(5))
  have c': "rr_ctx (red ?t) D" "bal_ctx (red ?t) D 0" unfolding rd using c zD by simp_all
  have N: "red ?t z" "rr_free (red ?t) ?N" "bal (red ?t) ?N" "bh (red ?t) ?N = 0" by simp_all
  obtain t2 V where t2: "insert_fixup z ?t = Some t2" "rbt t2 V" "inorder V = inorder (fill ?N D)" "rr_free (red t2) V"
    "bal (red t2) V" "nil t2 = nil ?t" "root t2 = root ?t"
    using insert_fixup_ok[OF rt refl N c'] by blast
  have "z \<in> set_tree V" using t2(3) by (metis Un_iff fill_set insertI1 set_inorder tree.set_intros(2))
  then obtain l x r where V: "V = Node l x r" by (cases V) auto
  have k: "kid t2 DL (root t2) = x" "distinct (inorder V)" "x \<noteq> nil t2" "x \<noteq> root t2" using t2(2) V by (auto simp: rbt_def)
  define t' where "t' = set_red x False t2"
  have rd': "red t' = (red t2)(x := False)" by (simp add: t'_def)
  have r': "rbt t' V" unfolding t'_def by (rule rbt_recolour[OF t2(2)]) simp
  have "rr_free (red t') V" "bal (red t') V" "btop (red t') V"
    using rr_blacken[OF t2(4) k(2) V] t2(5) unfolding rd' by blast+
  then have ok: "rb_ok t' V" using r' by (simp add: rb_ok_def)
  have "\<not> red t' (nil t')" "\<not> red t' (root t')" using r' by (auto simp: rbt_def)
  then have run: "rb_insert cmp z t = Some t'"
    using t1(1) t2(1) k(1) by (simp add: rb_insert_def Let_def t'_def)
  have ws: "(\<forall>a \<in> set (lefts D). \<not> 0 < cmp a z) \<and> (\<forall>a \<in> set (rights D). 0 < cmp a z)"
    by (rule way_sorted[OF t1(3), of "[]"]) (use assms(5) in \<open>simp only: t1(2) inorder_fill inorder.simps\<close>)
  have fl: "filter (\<lambda>x. cmp x z \<le> 0) (lefts D) = lefts D" "filter (\<lambda>x. cmp x z \<le> 0) (rights D) = []"
    "filter (\<lambda>x. 0 < cmp x z) (lefts D) = []" "filter (\<lambda>x. 0 < cmp x z) (rights D) = rights D"
    using ws by (auto simp: filter_id_conv filter_empty_conv not_less)
  have "inorder V = filter (\<lambda>x. cmp x z \<le> 0) (inorder W) @ z # filter (\<lambda>x. 0 < cmp x z) (inorder W)"
    unfolding t2(3) t1(2) inorder_fill by (simp add: fl)
  then show ?thesis using run ok t2(6,7) t1(6,7) unfolding t'_def by auto
qed

text \<open>\<open>rb_search\<close> in a tree on which the comparison decreases from left to right.\<close>

lemma search_loop_ok:
  assumes "is_tree t p T" "sorted_wrt (\<lambda>a b. (0 \<le> cmp a \<longrightarrow> 0 < cmp b) \<and> (cmp b \<le> 0 \<longrightarrow> cmp a < 0)) (inorder T)"
  shows "search_loop cmp (tnode t T) t = Some (case List.find (\<lambda>x. cmp x = 0) (inorder T) of None \<Rightarrow> nil t | Some x \<Rightarrow> x)"
  using assms
proof (induction T arbitrary: p)
  case Leaf
  then show ?case by (subst search_loop.simps) simp
next
  case (Node l x r)
  let ?R = "\<lambda>a b. (0 \<le> cmp a \<longrightarrow> 0 < cmp b) \<and> (cmp b \<le> 0 \<longrightarrow> cmp a < 0)"
  have s: "sorted_wrt ?R (inorder l)" "sorted_wrt ?R (inorder r)" "\<And>a. a \<in> set_tree l \<Longrightarrow> ?R a x" "\<And>a. a \<in> set_tree r \<Longrightarrow> ?R x a"
    using sorted_wrt_node[OF Node.prems(2)] by blast+
  have t: "is_tree t x l" "is_tree t x r" "x \<noteq> nil t" "kid t DL x = tnode t l" "kid t DR x = tnode t r"
    using Node.prems(1) by auto
  have none: "List.find (\<lambda>x. cmp x = 0) xs = None" if "\<forall>a \<in> set xs. cmp a \<noteq> 0" for xs using that by (simp add: find_None_iff)
  have app: "List.find P (xs @ ys) = (case List.find P xs of None \<Rightarrow> List.find P ys | Some y \<Rightarrow> Some y)" for P :: "nat \<Rightarrow> bool" and xs ys
    by (induction xs) simp_all
  consider "cmp x = 0" | "0 < cmp x" | "cmp x < 0" by linarith
  then show ?case
  proof cases
    case 1
    have "\<forall>a \<in> set (inorder l). cmp a \<noteq> 0" using s(3) 1 by fastforce
    then show ?thesis using 1 none by (subst search_loop.simps) (simp add: app)
  next
    case 2
    have "\<forall>a \<in> set (x # inorder r). cmp a \<noteq> 0" using s(4) 2 by fastforce
    then have "List.find (\<lambda>x. cmp x = 0) (inorder (Node l x r)) = List.find (\<lambda>x. cmp x = 0) (inorder l)"
      using none[of "x # inorder r"] by (simp add: app split: option.splits)
    then show ?thesis using 2 t Node.IH(1)[OF t(1) s(1)] by (subst search_loop.simps) simp
  next
    case 3
    have "\<forall>a \<in> set (inorder l). cmp a \<noteq> 0" using s(3) 3 by fastforce
    then have "List.find (\<lambda>x. cmp x = 0) (inorder (Node l x r)) = List.find (\<lambda>x. cmp x = 0) (inorder r)"
      using none[of "inorder l"] 3 by (simp add: app)
    then show ?thesis using 3 t Node.IH(2)[OF t(2) s(2)] by (subst search_loop.simps) simp
  qed
qed

text \<open>The checks of the source accept exactly the coloured, balanced trees that the comparison
  orders along every link, and return the black height.\<close>

lemma check_tree_ok:
  assumes "is_tree t p T" "height T < n" "rr_free (red t) T" "bal (red t) T" "\<not> red t (nil t)"
    and "sorted_wrt (\<lambda>a b. cmp a b \<le> 0 \<and> 0 \<le> cmp b a) (inorder T)"
  shows "check_tree n cmp (tnode t T) t = Some (bh (red t) T + 1)"
  using assms
proof (induction n arbitrary: T p)
  case (Suc n)
  show ?case
  proof (cases T)
    case Leaf
    then show ?thesis using Suc.prems by simp
  next
    case (Node l x r)
    have t: "is_tree t x l" "is_tree t x r" "x \<noteq> nil t" "kid t DL x = tnode t l" "kid t DR x = tnode t r"
      "height l < n" "height r < n" "rr_free (red t) l" "rr_free (red t) r" "bal (red t) l" "bal (red t) r"
      "bh (red t) l = bh (red t) r"
      using Suc.prems(1-4) Node by auto
    have so: "sorted_wrt (\<lambda>a b. cmp a b \<le> 0 \<and> 0 \<le> cmp b a) (inorder l)" "sorted_wrt (\<lambda>a b. cmp a b \<le> 0 \<and> 0 \<le> cmp b a) (inorder r)"
      "\<And>a. a \<in> set_tree l \<Longrightarrow> 0 \<le> cmp x a" "\<And>a. a \<in> set_tree r \<Longrightarrow> cmp x a \<le> 0"
      using sorted_wrt_node[OF Suc.prems(6)[unfolded Node]] by blast+
    have k: "tnode t l \<noteq> nil t \<longrightarrow> 0 \<le> cmp x (tnode t l) \<and> par t (tnode t l) = x"
      "tnode t r \<noteq> nil t \<longrightarrow> cmp x (tnode t r) \<le> 0 \<and> par t (tnode t r) = x"
    proof -
      have "S \<noteq> Leaf \<Longrightarrow> is_tree t x S \<Longrightarrow> par t (tnode t S) = x" for S by (cases S) simp_all
      moreover have "tnode t S \<noteq> nil t \<Longrightarrow> S \<noteq> Leaf" for S by auto
      ultimately show "tnode t l \<noteq> nil t \<longrightarrow> 0 \<le> cmp x (tnode t l) \<and> par t (tnode t l) = x"
        "tnode t r \<noteq> nil t \<longrightarrow> cmp x (tnode t r) \<le> 0 \<and> par t (tnode t r) = x"
        using so(3)[OF tnode_in] so(4)[OF tnode_in] t(1,2) by blast+
    qed
    have c: "red t x \<longrightarrow> \<not> red t (tnode t l) \<and> \<not> red t (tnode t r)"
      using Suc.prems(3,5) Node by (cases l; cases r; auto)
    have "check_tree n cmp (tnode t l) t = Some (bh (red t) l + 1)" "check_tree n cmp (tnode t r) t = Some (bh (red t) r + 1)"
      using Suc.IH[OF t(1,6,8,10) Suc.prems(5) so(1)] Suc.IH[OF t(2,7,9,11) Suc.prems(5) so(2)] by blast+
    then show ?thesis using t(3-5,12) k c unfolding Node by (simp add: Let_def)
  qed
qed simp

section \<open>Properties\<close>

text \<open>C16: \<open>rb_insert\<close> into a red-black tree succeeds (no assertion fails and both loops end): the
  new tree is again a red-black tree, and its in-order sequence is the old one with the new node
  put behind the nodes that do not compare above it and before those that do.\<close>

theorem rb_insert_correct:
  assumes "rb_ok t W" "z \<notin> set_tree W" "z \<noteq> nil t" "z \<noteq> root t"
    and "sorted_wrt (\<lambda>a b. 0 < cmp a z \<longrightarrow> 0 < cmp b z) (inorder W)"
  shows "\<exists>t' W'. rb_insert cmp z t = Some t' \<and> rb_ok t' W' \<and> nil t' = nil t \<and> root t' = root t \<and>
    inorder W' = filter (\<lambda>x. cmp x z \<le> 0) (inorder W) @ z # filter (\<lambda>x. 0 < cmp x z) (inorder W)"
  using assms by (rule insert_ok)

definition demo_rb :: rb_tree where
  "demo_rb = \<lparr>nil = 0, root = 1, red = (\<lambda>_. False), par = (\<lambda>_. 0), kid = (\<lambda>_ _. 0)\<rparr>"

lemma demo_rb_create: "rb_tree_create (Some (0, 1)) = Some demo_rb"
  by (simp add: rb_tree_create_def demo_rb_def)

lemma demo_rb_ok: "rb_ok demo_rb Leaf"
  by (simp add: rb_ok_def rbt_def demo_rb_def)

theorem rb_insert_correct_witness:
  "\<exists>t' W'. rb_insert (\<lambda>a b. int a - int b) 7 demo_rb = Some t' \<and> rb_ok t' W' \<and> inorder W' = [7]"
  using rb_insert_correct[OF demo_rb_ok, of 7 "\<lambda>a b. int a - int b"] by (auto simp: demo_rb_def)

text \<open>In a red-black tree whose in-order sequence a comparison splits into nodes below, at
  and above what is looked for, \<open>rb_search\<close> ends and returns the node that compares equal, or
  \<open>NULL\<close> when there is none.\<close>

theorem rb_search_correct:
  assumes "rb_ok t W"
    and "sorted_wrt (\<lambda>a b. (0 \<le> cmp a \<longrightarrow> 0 < cmp b) \<and> (cmp b \<le> 0 \<longrightarrow> cmp a < 0)) (inorder W)"
  shows "rb_search cmp t = Some (List.find (\<lambda>x. cmp x = 0) (inorder W))"
proof -
  have W: "is_tree t (root t) W" "kid t DL (root t) = tnode t W" using assms(1) by (auto simp: rb_ok_def rbt_def)
  have "List.find (\<lambda>x. cmp x = 0) (inorder W) \<noteq> Some (nil t)"
    using is_tree_nodes[OF W(1), of "nil t"] by (metis find_Some_iff nth_mem set_inorder)
  then show ?thesis
    unfolding rb_search_def W(2) search_loop_ok[OF W(1) assms(2)] by (auto simp: or_null_def split: option.splits)
qed

text \<open>A tree built by the code itself: 5, then 3, then 8.\<close>

definition three_rb :: rb_tree where
  "three_rb = \<lparr>nil = 0, root = 1, red = (\<lambda>x. x = 3 \<or> x = 8), par = (\<lambda>x. if x = 5 then 1 else if x = 3 \<or> x = 8 then 5 else 0),
     kid = (\<lambda>d x. if x = 1 then (if d = DL then 5 else 0) else if x = 5 then (if d = DL then 3 else 8) else 0)\<rparr>"

lemma three_rb_ok: "rb_ok three_rb (Node (Node Leaf 3 Leaf) 5 (Node Leaf 8 Leaf))"
  by (simp add: rb_ok_def rbt_def three_rb_def)

theorem rb_search_correct_witness:
  "rb_search (\<lambda>x. int x - 8) three_rb = Some (Some 8)"
  using rb_search_correct[OF three_rb_ok, of "\<lambda>x. int x - 8"] by simp

text \<open>On a red-black tree that the comparison orders, \<open>check_tree\<close> runs through without a
  failed assertion and returns the black height of the tree, counted with the sentinel.\<close>

theorem check_tree_accepts:
  assumes "rb_ok t W" "height W < n" "sorted_wrt (\<lambda>a b. cmp a b \<le> 0 \<and> 0 \<le> cmp b a) (inorder W)"
  shows "check_tree n cmp (kid t DL (root t)) t = Some (bh (red t) W + 1)"
  using assms check_tree_ok[of t "root t" W n cmp] by (simp add: rb_ok_def rbt_def)

theorem check_tree_accepts_witness:
  "check_tree 5 (\<lambda>a b. int a - int b) (kid three_rb DL (root three_rb)) three_rb = Some 2"
  using check_tree_accepts[OF three_rb_ok, of 5 "\<lambda>a b. int a - int b"] by (simp add: three_rb_def)

end
