(* ===== verification/RbDelete.thy ===== *)
theory RbDelete
  imports RbTree
begin

text \<open>
  Correctness of \<open>rb_delete\<close>, \<open>rb_node_prev\<close> and \<open>rb_node_next\<close> of \<open>kern/libs/rb_tree.c\<close>.
  Deletion is followed in three steps: a node without one child is cut out (\<open>splice\<close>), the cut
  node takes the place of the node to delete (\<open>take_place\<close>), and \<open>rb_delete_fixup\<close> repairs a subtree
  that is one black node short.
\<close>

section \<open>Neighbours\<close>

lemma descend_ok:
  assumes "is_tree t p T" "T \<noteq> Leaf"
  shows "\<exists>D y b. T = fill (nd d Leaf y b) D \<and> descend d (tnode t T) t = Some y \<and> (d = DL \<longrightarrow> lefts D = []) \<and> (d = DR \<longrightarrow> rights D = [])"
  using assms
proof (induction T arbitrary: p)
  case (Node l x r)
  define S where "S = (if d = DL then l else r)"
  define u where "u = (if d = DL then r else l)"
  have n: "Node l x r = nd d S x u" by (cases d) (simp_all add: nd_def S_def u_def)
  have t: "is_tree t x S" "kid t d x = tnode t S" using Node.prems(1) unfolding n is_tree_nd by auto
  show ?case
  proof (cases "S = Leaf")
    case True
    then have "descend d x t = Some x" using t(2) by (simp add: descend.simps[of d x])
    then show ?thesis unfolding n True by (intro exI[of _ "[]"] exI[of _ x] exI[of _ u]) simp
  next
    case False
    have "\<exists>D y b. S = fill (nd d Leaf y b) D \<and> descend d (tnode t S) t = Some y \<and> (d = DL \<longrightarrow> lefts D = []) \<and> (d = DR \<longrightarrow> rights D = [])"
      using Node.IH(1)[of x] Node.IH(2)[of x] t(1) False by (cases d) (simp_all add: S_def)
    then obtain D y b where D: "S = fill (nd d Leaf y b) D" "descend d (tnode t S) t = Some y"
      "d = DL \<longrightarrow> lefts D = []" "d = DR \<longrightarrow> rights D = []" by blast
    have "tnode t S \<noteq> nil t" using t(1) False by (cases S) auto
    then have r: "descend d x t = Some y" using t(2) D(2) by (subst descend.simps) simp
    have f: "fill (nd d Leaf y b) (D @ [(d, x, u)]) = nd d S x u"
    proof -
      have "fill T (D @ C) = fill (fill T D) C" for T C by (induction T D rule: fill.induct) auto
      then show ?thesis using D(1) by simp
    qed
    have "(d = DL \<longrightarrow> lefts (D @ [(d, x, u)]) = []) \<and> (d = DR \<longrightarrow> rights (D @ [(d, x, u)]) = [])"
    proof -
      have "lefts (D @ C) = lefts C @ lefts D" "rights (D @ C) = rights D @ rights C" for C
        by (induction D rule: lefts.induct) auto
      then show ?thesis using D(3,4) by auto
    qed
    with f r show ?thesis unfolding n by (intro exI[of _ "D @ [(d, x, u)]"] exI[of _ y] exI[of _ b]) simp
  qed
qed simp

lemma fill_append: "fill T (D @ C) = fill (fill T D) C"
  by (induction T D rule: fill.induct) auto

lemma ctx_append [simp]: "lefts (D @ C) = lefts C @ lefts D" "rights (D @ C) = rights D @ rights C" "ctx_set (D @ C) = ctx_set D \<union> ctx_set C"
  by (induction D rule: lefts.induct) auto

text \<open>The loops that climb; \<open>T\<close> is the subtree of \<open>x\<close>.\<close>

definition last_or :: "nat \<Rightarrow> nat list \<Rightarrow> nat" where
  "last_or d xs = (if xs = [] then d else last xs)"

definition first_or :: "nat \<Rightarrow> nat list \<Rightarrow> nat" where
  "first_or d xs = (case xs of [] \<Rightarrow> d | x # _ \<Rightarrow> x)"

lemma or_simps [simp]: "last_or d [] = d" "last_or d (xs @ ys) = (if ys = [] then last_or d xs else last ys)"
  "first_or d [] = d" "first_or d (x # xs) = x"
  by (simp_all add: last_or_def first_or_def)

lemma climb_left_ok:
  assumes "rbt t (fill T C)" "T \<noteq> Leaf"
  shows "climb_left (tnode t T) (cpar t C) t = Some (last_or (nil t) (lefts C))"
  using assms
proof (induction T C rule: fill.induct)
  case (1 T)
  then show ?case by (subst climb_left.simps) (auto simp: rbt_def)
next
  case (2 T d x s C)
  have k: "kid t d x = tnode t T" "kid t (opp d) x = tnode t s" "par t x = cpar t C" "x \<noteq> root t"
    using is_ctx_Cons[OF 2(2)] by auto
  have Tn: "tnode t T \<noteq> nil t" using 2(2,3) unfolding rbt_fill by (cases T) auto
  have "tnode t T \<noteq> tnode t s" using ctx_disjoint(4)[OF 2(2)] Tn tnode_in[of t T] tnode_in[of t s] by auto
  show ?case
  proof (cases d)
    case DL
    have "climb_left (tnode t T) x t = climb_left x (cpar t C) t"
      using k DL by (subst climb_left.simps) simp
    moreover have "climb_left (tnode t (nd d T x s)) (cpar t C) t = Some (last_or (nil t) (lefts C))"
      by (rule 2(1)) (use 2(2) in \<open>auto simp: nd_def split: dir.splits\<close>)
    ultimately show ?thesis using DL by simp
  next
    case DR
    then show ?thesis using k \<open>tnode t T \<noteq> tnode t s\<close> by (subst climb_left.simps) simp
  qed
qed

lemma climb_right_ok:
  assumes "rbt t (fill T C)" "T \<noteq> Leaf"
  shows "climb_right (tnode t T) (cpar t C) t = Some (first_or (root t) (rights C))"
  using assms
proof (induction T C rule: fill.induct)
  case (1 T)
  then show ?case by (cases T; subst climb_right.simps) (auto simp: rbt_def)
next
  case (2 T d x s C)
  have k: "kid t d x = tnode t T" "kid t (opp d) x = tnode t s" "par t x = cpar t C" "x \<noteq> root t"
    using is_ctx_Cons[OF 2(2)] by auto
  have Tn: "tnode t T \<noteq> nil t" using 2(2,3) unfolding rbt_fill by (cases T) auto
  have "tnode t T \<noteq> tnode t s" using ctx_disjoint(4)[OF 2(2)] Tn tnode_in[of t T] tnode_in[of t s] by auto
  show ?case
  proof (cases d)
    case DR
    have "climb_right (tnode t T) x t = climb_right x (cpar t C) t"
      using k DR by (subst climb_right.simps) simp
    moreover have "climb_right (tnode t (nd d T x s)) (cpar t C) t = Some (first_or (root t) (rights C))"
      by (rule 2(1)) (use 2(2) in \<open>auto simp: nd_def split: dir.splits\<close>)
    ultimately show ?thesis using DR by simp
  next
    case DL
    then show ?thesis using k \<open>tnode t T \<noteq> tnode t s\<close> by (subst climb_right.simps) simp
  qed
qed

lemma prev_ok:
  assumes "rbt t (fill (Node l x r) C)"
  shows "rb_node_prev x t = Some (if lefts C @ inorder l = [] then None else Some (last (lefts C @ inorder l)))"
proof -
  have t: "kid t DL x = tnode t l" "is_tree t x l" "par t x = cpar t C" using assms unfolding rbt_fill by auto
  have "rb_tree_predecessor x t = Some (last_or (nil t) (lefts C @ inorder l))"
  proof (cases "l = Leaf")
    case True
    then show ?thesis using t climb_left_ok[OF assms] by (simp add: rb_tree_predecessor_def)
  next
    case False
    then obtain D y b where "l = fill (nd DR Leaf y b) D" "descend DR (tnode t l) t = Some y" "rights D = []"
      using descend_ok[OF t(2), of DR] by blast
    moreover from False have "tnode t l \<noteq> nil t" using t(2) by (cases l) auto
    ultimately show ?thesis using t(1) by (simp add: rb_tree_predecessor_def inorder_fill nd_def)
  qed
  moreover have "y \<noteq> nil t" if "y \<in> set (lefts C @ inorder l)" for y
  proof -
    have "y \<in> set_tree l \<union> ctx_set C" using that by (auto simp: set_ctx)
    then show ?thesis using assms is_tree_nodes[OF t(2)] is_ctx_nodes unfolding rbt_fill by blast
  qed
  moreover obtain xs where "lefts C @ inorder l = xs" by blast
  ultimately show ?thesis by (auto simp: rb_node_prev_def or_null_def last_or_def)
qed

lemma next_ok:
  assumes "rbt t (fill (Node l x r) C)"
  shows "rb_node_next x t = Some (case inorder r @ rights C of [] \<Rightarrow> None | y # _ \<Rightarrow> Some y)"
proof -
  have t: "kid t DR x = tnode t r" "is_tree t x r" "par t x = cpar t C" using assms unfolding rbt_fill by auto
  have n: "y \<noteq> nil t \<and> y \<noteq> root t" if "y \<in> set (inorder r @ rights C)" for y
  proof -
    have "y \<in> set_tree r \<union> ctx_set C" using that by (auto simp: set_ctx)
    then show ?thesis using assms is_tree_nodes[OF t(2)] is_ctx_nodes unfolding rbt_fill by blast
  qed
  have "rb_tree_successor x t = Some (first_or (nil t) (inorder r @ rights C))"
  proof (cases "r = Leaf")
    case True
    then show ?thesis using t climb_right_ok[OF assms] n by (cases "rights C") (simp_all add: rb_tree_successor_def)
  next
    case False
    then obtain D y b where "r = fill (nd DL Leaf y b) D" "descend DL (tnode t r) t = Some y" "lefts D = []"
      using descend_ok[OF t(2), of DL] by blast
    moreover from False have "tnode t r \<noteq> nil t" using t(2) by (cases r) auto
    ultimately show ?thesis using t(1) by (simp add: rb_tree_successor_def inorder_fill nd_def)
  qed
  with n show ?thesis by (cases "inorder r @ rights C") (simp_all add: rb_node_next_def or_null_def)
qed

section \<open>Taking a node out\<close>

text \<open>Every subtree but the whole tree knows its parent; for an empty subtree this is what the
  code keeps in the parent field of \<open>nil\<close>.\<close>

definition hook :: "rb_tree \<Rightarrow> nat tree \<Rightarrow> ctx \<Rightarrow> bool" where
  "hook t T C \<longleftrightarrow> par t (tnode t T) = cpar t C"

lemma side_of:
  assumes "rbt t (fill T C)" "T \<noteq> Leaf"
  shows "(if tnode t T = kid t DL (cpar t C) then set_kid DL (cpar t C) z u else set_kid DR (cpar t C) z u)
    = set_kid (if C = [] then DL else fst (hd C)) (cpar t C) z u"
proof -
  have "tnode t T \<noteq> nil t" "tnode t T \<notin> ctx_set C" "kid t DR (root t) = nil t" "is_ctx t (tnode t T) C" "distinct (lefts C @ rights C)"
    using assms unfolding rbt_fill by (cases T; auto simp: set_ctx)+
  from cpar_side[OF this(4,5,1,2,3), of DL] show ?thesis by (auto split: if_splits)
qed

lemma splice:
  assumes r: "rbt t (fill (Node a y b) C)" and ab: "a = Leaf \<and> T = b \<or> b = Leaf \<and> T = a"
    and t1: "t1 = set_kid (if C = [] then DL else fst (hd C)) (par t y) (tnode t T) (set_par (tnode t T) (par t y) t)"
  shows "rbt t1 (fill T C) \<and> hook t1 T C \<and> par t y = cpar t C \<and> red t1 = red t \<and> nil t1 = nil t \<and> root t1 = root t"
proof -
  let ?e = "if C = [] then DL else fst (hd C)" and ?p = "cpar t C"
  from r have tr: "par t y = ?p" "is_tree t y T" "is_ctx t y C" "y \<noteq> nil t" "y \<noteq> root t"
    and dd: "distinct (lefts C @ inorder (Node a y b) @ rights C)" and rt: "kid t DR (root t) = nil t" "nil t \<noteq> root t"
    using ab unfolding rbt_fill by auto
  have d: "distinct (inorder T)" "y \<notin> set_tree T" "set_tree T \<inter> ctx_set C = {}" "y \<notin> ctx_set C" "distinct (lefts C @ rights C)"
    using dd ab by (auto simp: set_ctx)
  have cr: "\<not> red t (nil t)" "\<not> red t (root t)" using r by (auto simp: rbt_def)
  obtain e where e: "?e = e" by blast
  have f: "nil t1 = nil t" "root t1 = root t" "red t1 = red t" "par t1 z = (if z = tnode t T then ?p else par t z)"
    "kid t1 c z = (if c = ?e \<and> z = ?p then tnode t T else kid t c z)" for z c
    unfolding t1 e tr(1) by simp_all
  have tn: "tnode t1 S = tnode t S" for S by (rule tnode_cong) (rule f)
  have cp: "cpar t1 C = ?p" by (cases C) (auto simp: cpar_def f)
  have pT: "?p \<notin> set_tree T" using cpar_in[of C t] d(3) is_tree_nodes[OF tr(2), of "root t"] by (cases C) auto
  have T1: "is_tree t1 (cpar t1 C) T"
    unfolding cp by (rule is_tree_reparent[OF tr(2)]) (use f d pT in auto)
  have "is_ctx t1 (tnode t T) C"
  proof (rule is_ctx_cong[OF tr(3) _ _ d(5)])
    fix z c assume z: "z \<in> ctx_set C"
    then have "z \<noteq> tnode t T" using d(3) tnode_in[of t T] is_ctx_nodes[OF tr(3)] by fastforce
    then show "par t1 z = par t z" by (simp add: f)
    show "(z, c) \<noteq> (?p, fst (hd C)) \<Longrightarrow> kid t1 c z = kid t c z" using z by (auto simp: f)
  next
    assume ne: "C \<noteq> []"
    then have "?p \<noteq> root t" using cpar_in[OF ne] is_ctx_nodes[OF tr(3)] by metis
    then show "kid t1 DL (root t) = kid t DL (root t)" by (auto simp: f)
  qed (simp_all add: f)
  moreover have "kid t1 DR (root t) = nil t"
  proof -
    have "?p = root t \<Longrightarrow> C = []" using cpar_in[of C t] is_ctx_nodes[OF tr(3)] by metis
    then show ?thesis using rt by (auto simp: f)
  qed
  moreover have "distinct (lefts C @ inorder T @ rights C)" using dd ab by auto
  ultimately have "rbt t1 (fill T C)" using T1 rt cr unfolding rbt_fill by (simp add: f tn)
  then show ?thesis using tr(1) f cp by (simp add: hook_def tn)
qed

text \<open>A node \<open>y\<close> outside the tree takes the place of \<open>z\<close>; the empty subtree keeps its hook.\<close>

lemma take_place:
  assumes r: "rbt t (fill (Node l z r) C)" and y: "y \<notin> set_tree (fill (Node l z r) C)" "y \<noteq> nil t" "y \<noteq> root t"
    and t1: "t1 = set_red y (red t z) (set_par y (par t z) (set_kid DL y (kid t DL z) (set_kid DR y (kid t DR z)
      (set_par (kid t DR z) y (set_par (kid t DL z) y (set_kid (if C = [] then DL else fst (hd C)) (par t z) y t))))))"
  shows "rbt t1 (fill (Node l y r) C) \<and> red t1 = (red t)(y := red t z) \<and> nil t1 = nil t \<and> root t1 = root t
    \<and> (\<forall>x. x \<noteq> y \<longrightarrow> x \<notin> {kid t DL z, kid t DR z} \<longrightarrow> par t1 x = par t x) \<and> par t1 (kid t DL z) = y \<and> par t1 (kid t DR z) = y"
proof -
  let ?e = "if C = [] then DL else fst (hd C)" and ?p = "cpar t C"
  from r have tr: "par t z = ?p" "is_tree t z l" "is_tree t z r" "is_ctx t z C" "z \<noteq> nil t" "z \<noteq> root t"
    "kid t DL z = tnode t l" "kid t DR z = tnode t r"
    and dd: "distinct (lefts C @ inorder (Node l z r) @ rights C)" and rt: "kid t DR (root t) = nil t" "nil t \<noteq> root t"
    unfolding rbt_fill by auto
  have cr: "\<not> red t (nil t)" "\<not> red t (root t)" using r by (auto simp: rbt_def)
  have d: "distinct (inorder l)" "distinct (inorder r)" "z \<notin> set_tree l" "z \<notin> set_tree r" "set_tree l \<inter> set_tree r = {}"
    "set_tree l \<inter> ctx_set C = {}" "set_tree r \<inter> ctx_set C = {}" "distinct (lefts C @ rights C)"
    using dd by (auto simp: set_ctx)
  have yn: "y \<notin> set_tree l" "y \<notin> set_tree r" "y \<notin> ctx_set C" "y \<noteq> z" using y(1) by (auto simp: fill_set)
  have yk: "y \<noteq> tnode t l" "y \<noteq> tnode t r" using yn y(2) tnode_in[of t l] tnode_in[of t r] by auto
  have py: "?p \<noteq> y" using yn y(3) cpar_in[of C t] by (cases C) auto
  obtain e where e: "?e = e" by blast
  have f: "nil t1 = nil t" "root t1 = root t" "red t1 = (red t)(y := red t z)"
    "par t1 x = (if x = y then ?p else if x = tnode t l \<or> x = tnode t r then y else par t x)"
    "kid t1 c x = (if x = y then (if c = DL then tnode t l else tnode t r) else if c = ?e \<and> x = ?p then y else kid t c x)" for x c
    unfolding t1 e tr(1) tr(7,8) by (cases c; simp)+
  have tn: "tnode t1 S = tnode t S" for S by (rule tnode_cong) (rule f)
  have cp: "cpar t1 C = ?p" by (cases C) (auto simp: cpar_def f)
  have pn: "?p \<notin> set_tree l" "?p \<notin> set_tree r" using cpar_in[of C t] d is_tree_nodes[OF tr(2), of "root t"] is_tree_nodes[OF tr(3), of "root t"]
    by (cases C; auto)+
  have sub: "is_tree t1 y l" "is_tree t1 y r"
  proof -
    have lr: "x \<noteq> tnode t r" if "x \<in> set_tree l" for x using that d(5) tnode_in[of t r] is_tree_nodes[OF tr(2) that] by auto
    have rl: "x \<noteq> tnode t l" if "x \<in> set_tree r" for x using that d(5) tnode_in[of t l] is_tree_nodes[OF tr(3) that] by auto
    show "is_tree t1 y l"
      by (rule is_tree_reparent[OF tr(2)]) (use f d(1) pn yn(1) yk lr in auto)
    show "is_tree t1 y r"
      by (rule is_tree_reparent[OF tr(3)]) (use f d(2) pn yn(2) yk rl in auto)
  qed
  have "is_ctx t1 y C"
  proof (rule is_ctx_cong[OF tr(4) _ _ d(8)])
    fix x c assume x: "x \<in> ctx_set C"
    then have "x \<noteq> tnode t l" "x \<noteq> tnode t r" "x \<noteq> y"
      using d(6,7) tnode_in[of t l] tnode_in[of t r] is_ctx_nodes[OF tr(4) x] yn(3) by fastforce+
    then show "par t1 x = par t x" by (simp add: f)
    show "(x, c) \<noteq> (?p, fst (hd C)) \<Longrightarrow> kid t1 c x = kid t c x" using x yn(3) by (auto simp: f)
  next
    assume ne: "C \<noteq> []"
    then have "?p \<noteq> root t" using cpar_in[OF ne] is_ctx_nodes[OF tr(4)] by metis
    then show "kid t1 DL (root t) = kid t DL (root t)" using y(3) by (auto simp: f)
  qed (use py y(3) in \<open>simp_all add: f\<close>)
  moreover have "kid t1 DR (root t) = nil t"
  proof -
    have "?p = root t \<Longrightarrow> C = []" using cpar_in[of C t] is_ctx_nodes[OF tr(4)] by metis
    then show ?thesis using rt y(3) by (auto simp: f)
  qed
  moreover have "distinct (lefts C @ inorder (Node l y r) @ rights C)" using dd yn by (auto simp: set_ctx)
  moreover have "is_tree t1 (cpar t1 C) (Node l y r)" using sub y f(1,2) by (simp add: cp tn) (simp add: f)
  ultimately have "rbt t1 (fill (Node l y r) C)" using rt cr y(2,3) unfolding rbt_fill by (simp add: f(1-3) tn)
  then show ?thesis using yk by (simp add: f tr(7,8))
qed

section \<open>The repair after a deletion\<close>

text \<open>The part of the loop after the sibling \<open>w\<close> has been made black.\<close>

definition fix_rest :: "nat \<Rightarrow> dir \<Rightarrow> nat \<Rightarrow> nat \<Rightarrow> rb_tree \<Rightarrow> rb_tree option" where
  "fix_rest rt d x w t =
    (if \<not> red t (kid t d w) \<and> \<not> red t (kid t (opp d) w)
     then delete_fixup rt (par t x) (set_red w True t)
     else do {
       (w, t) \<leftarrow> (if \<not> red t (kid t (opp d) w) then do {
             let t = set_red w True (set_red (kid t d w) False t);
             t \<leftarrow> rb_rotate (opp d) w t;
             Some (kid t (opp d) (par t x), t)
           }
           else Some (w, t));
       let t = set_red w (red t (par t x)) t;
       let t = set_red (par t x) False t;
       let t = set_red (kid t (opp d) w) False t;
       t \<leftarrow> rb_rotate d (par t x) t;
       delete_fixup rt rt t
     })"

lemma delete_fixup_step:
  "delete_fixup rt x t =
    (if \<not> (x \<noteq> rt \<and> \<not> red t x) then Some (set_red x False t)
     else do {
       let d = (if x = kid t DL (par t x) then DL else DR);
       let w = kid t (opp d) (par t x);
       (w, t) \<leftarrow> (if red t w then do {
             let t = set_red (par t x) True (set_red w False t);
             t \<leftarrow> rb_rotate d (par t x) t;
             Some (kid t (opp d) (par t x), t)
           }
           else Some (w, t));
       fix_rest rt d x w t
     })"
  unfolding fix_rest_def by (rule delete_fixup.simps)

lemma rotate_nil: "rb_rotate d x t = Some t' \<Longrightarrow> par t' (nil t) = par t (nil t)"
  by (auto simp: rb_rotate_def kmonad Let_def split: if_splits)

text \<open>\<open>T\<close> is a subtree one black node short; its root may be red and have a red child or parent,
  since it becomes black then.\<close>

definition short :: "rb_tree \<Rightarrow> nat tree \<Rightarrow> ctx \<Rightarrow> bool" where
  "short t T C \<longleftrightarrow> rbt t (fill T C) \<and> hook t T C \<and> rr_free ((red t)(tnode t T := False)) T \<and> bal (red t) T \<and> rr_ctx (red t) C
    \<and> bal_ctx (red t) C (bh (red t) T + 1)"

lemma hook_rotate:
  assumes "rb_rotate d x t = Some t'" "rbt t' (fill T C)" "hook t T C'" "nil t' = nil t" "cpar t' C = cpar t C'"
  shows "hook t' T C"
proof (cases T)
  case Leaf
  then show ?thesis using assms(3-5) rotate_nil[OF assms(1)] by (simp add: hook_def)
next
  case (Node l y r)
  then show ?thesis using assms(2) node_par by (simp add: hook_def)
qed

lemma btop_fill: "C \<noteq> [] \<Longrightarrow> rr_ctx c C \<Longrightarrow> btop c (fill T C)"
proof (induction T C rule: fill.induct)
  case (2 T d x s C)
  then show ?case by (cases C) auto
qed simp

lemma tnode_fill: "C \<noteq> [] \<Longrightarrow> tnode t (fill T C) = tnode t (fill T' C)"
proof (induction C arbitrary: T T')
  case (Cons h C)
  obtain d x s where h: "h = (d, x, s)" by (cases h)
  show ?case using Cons.IH[of "nd d T x s" "nd d T' x s"] by (cases "C = []") (simp_all add: h)
qed simp

lemma root_in_ctx: "C \<noteq> [] \<Longrightarrow> tnode t (fill T C) \<in> ctx_set C"
proof (induction T C rule: fill.induct)
  case (2 T d x s C)
  then show ?case by (cases "C = []") auto
qed simp

text \<open>The last step: the far child of the sibling is red.\<close>

lemma fix_far:
  assumes r: "rbt t (fill (nd d T p (nd d b w c)) C)"
    and col: "\<not> red t w" "\<not> btop (red t) c" "rr_free (red t) T" "bal (red t) T" "rr_free (red t) b" "bal (red t) b"
      "rr_free (red t) c" "bal (red t) c" "bh (red t) T = h" "bh (red t) b = h" "bh (red t) c = h"
      "rr_ctx (red t) C" "red t p \<longrightarrow> C \<noteq> [] \<and> \<not> red t (fst (snd (hd C)))"
      "bal_ctx (red t) C (h + 1 + (if red t p then 0 else 1))"
  shows "\<exists>t'. rb_rotate d p (set_red (tnode t c) False (set_red p False (set_red w (red t p) t))) = Some t'
    \<and> rb_ok t' (fill (nd d (nd d T p b) w c) C) \<and> \<not> red t' p \<and> nil t' = nil t \<and> root t' = root t"
proof -
  let ?t = "set_red (tnode t c) False (set_red p False (set_red w (red t p) t))"
  obtain cl v cr where c: "c = Node cl v cr" using col(2) by (cases c) auto
  have rt: "rbt ?t (fill (nd d T p (nd d b w c)) C)"
    using r by (intro rbt_recolour) (auto simp: fill_set)
  then obtain t' where t': "rb_rotate d p ?t = Some t'" "rbt t' (fill (nd d (nd d T p b) w c) C)" "red t' = red ?t"
    "nil t' = nil ?t" "root t' = root ?t" by (rule rotate_ok)
  from r have "distinct (inorder (nd d T p (nd d b w c)))" "set_tree (nd d T p (nd d b w c)) \<inter> ctx_set C = {}"
    by (auto simp: rbt_fill set_ctx)
  then have n: "p \<notin> set_tree T" "p \<notin> set_tree b" "p \<noteq> w" "p \<noteq> v" "p \<notin> set_tree cl" "p \<notin> set_tree cr" "w \<notin> set_tree T" "w \<notin> set_tree b"
    "w \<noteq> v" "w \<notin> set_tree cl" "w \<notin> set_tree cr" "v \<notin> set_tree T" "v \<notin> set_tree b" "v \<notin> set_tree cl" "v \<notin> set_tree cr"
    "p \<notin> ctx_set C" "w \<notin> ctx_set C" "v \<notin> ctx_set C"
    unfolding distinct_nd c by auto
  have c': "red t' = (red t)(w := red t p, p := False, v := False)" by (simp add: t'(3) c)
  have vr: "red t v" using col(2) c by simp
  have rr: "rr_free (red t') (nd d (nd d T p b) w c)" "bal (red t') (nd d (nd d T p b) w c)"
    "bh (red t') (nd d (nd d T p b) w c) = h + 1 + (if red t p then 0 else 1)" "rr_ctx (red t') C"
    "bal_ctx (red t') C (h + 1 + (if red t p then 0 else 1))"
    using col n vr unfolding c' c by simp_all
  have hd: "fst (snd (hd C)) \<in> ctx_set C" if "C \<noteq> []" using that by (cases C) auto
  have hc: "C \<noteq> [] \<Longrightarrow> red t' (fst (snd (hd C))) \<Longrightarrow> \<not> red t p"
    using hd n(16-18) col(13) unfolding c' by (auto split: if_splits simp: fun_upd_def)
  have "rr_free (red t') (fill (nd d (nd d T p b) w c) C)"
    by (rule rr_fill[OF rr(1,4)]) (use hc n in \<open>auto simp: c'\<close>)
  moreover have "bal (red t') (fill (nd d (nd d T p b) w c) C)" using bal_fill[OF rr(2)] rr(3,5) by simp
  moreover have "btop (red t') (fill (nd d (nd d T p b) w c) C)"
  proof (cases "C = []")
    case True
    then show ?thesis using col(13) n by (simp add: c')
  qed (rule btop_fill[OF _ rr(4)])
  ultimately show ?thesis using t' n(4) by (auto simp: rb_ok_def c')
qed

lemma node_nd: "T \<noteq> Leaf \<Longrightarrow> \<exists>a x b. T = nd d a x b"
  by (cases T; cases d) (auto simp: nd_def)

lemma tnode_set_red [simp]: "tnode (set_red x b t) T = tnode t T"
  by (rule tnode_cong) simp

lemma set_red_same: "\<not> red t x \<Longrightarrow> set_red x False t = t"
  by (simp add: set_red_def fun_upd_idem)

lemma short_sibling:
  assumes "short t T ((d, p, S) # C)" "\<not> red t (tnode t T)"
  shows "S \<noteq> Leaf" "rr_free (red t) T" "bal (red t) T" "bal (red t) S" "rr_free (red t) S" "bh (red t) S = bh (red t) T + 1"
    "red t p \<longrightarrow> btop (red t) S \<and> C \<noteq> [] \<and> \<not> red t (fst (snd (hd C)))" "rr_ctx (red t) C"
    "bal_ctx (red t) C (bh (red t) T + 1 + (if red t p then 0 else 1))"
    "par t (tnode t T) = p" "kid t d p = tnode t T" "kid t (opp d) p = tnode t S" "par t p = cpar t C"
  using assms is_ctx_Cons[of t T d p S C] by (auto simp: short_def hook_def fun_upd_idem)

lemma short_stop:
  assumes "short t T C" "C \<noteq> []" "red t (tnode t T)"
  shows "rb_ok (set_red (tnode t T) False t) (fill T C)"
proof -
  let ?x = "tnode t T"
  have s: "rbt t (fill T C)" "rr_free ((red t)(?x := False)) T" "bal (red t) T" "rr_ctx (red t) C" "bal_ctx (red t) C (bh (red t) T + 1)"
    using assms(1) by (auto simp: short_def)
  then obtain l x r where T: "T = Node l x r" using assms(3) by (cases T) (auto simp: rbt_def)
  have d: "x \<notin> set_tree l" "x \<notin> set_tree r" "x \<notin> ctx_set C" using s(1) T unfolding rbt_fill by (auto simp: set_ctx)
  let ?c = "(red t)(x := False)"
  have c: "rr_ctx ?c C" "bal_ctx ?c C (bh ?c T)" "bal ?c T" "btop ?c T"
    using s assms(3) d by (simp_all add: T)
  have "rr_free ?c (fill T C)" by (rule rr_fill[OF _ c(1)]) (use s(2) c(4) in \<open>simp_all add: T\<close>)
  moreover have "bal ?c (fill T C)" by (rule bal_fill[OF c(3,2)])
  moreover have "btop ?c (fill T C)" by (rule btop_fill[OF assms(2) c(1)])
  ultimately show ?thesis using rbt_recolour[OF s(1), of x False] by (simp add: rb_ok_def T)
qed

text \<open>Both children of the black sibling are black: the lack moves up to the parent.\<close>

lemma short_up:
  assumes "short t T ((d, p, nd d b w c) # C)" "\<not> red t (tnode t T)" "\<not> red t w" "btop (red t) b" "btop (red t) c"
  shows "fix_rest rt d (tnode t T) w t = delete_fixup rt p (set_red w True t)" "short (set_red w True t) (nd d T p (nd d b w c)) C"
proof -
  have s: "rbt t (fill T ((d, p, nd d b w c) # C))" using assms(1) by (simp add: short_def)
  note b = short_sibling[OF assms(1,2)]
  have k: "kid t d w = tnode t b" "kid t (opp d) w = tnode t c" using s unfolding rbt_fill by (auto simp: is_tree_nd)
  have "\<not> red t (tnode t b)" "\<not> red t (tnode t c)" using assms(4,5) tnode_red[OF s] by auto
  then show "fix_rest rt d (tnode t T) w t = delete_fixup rt p (set_red w True t)" using k b(10) by (simp add: fix_rest_def)
  let ?t = "set_red w True t"
  have r: "rbt ?t (fill (nd d T p (nd d b w c)) C)" using rbt_recolour[OF s, of w True] by (simp add: fill_set)
  obtain l' r' where n: "nd d T p (nd d b w c) = Node l' p r'" by (cases d) (auto simp: nd_def)
  have "distinct (inorder (nd d T p (nd d b w c)))" "set_tree (nd d T p (nd d b w c)) \<inter> ctx_set C = {}"
    using s by (auto simp: rbt_fill set_ctx)
  then have d: "w \<notin> set_tree T" "p \<notin> set_tree T" "w \<notin> set_tree b" "w \<notin> set_tree c" "p \<notin> set_tree b" "p \<notin> set_tree c" "w \<noteq> p" "w \<notin> ctx_set C"
    unfolding distinct_nd by auto
  have "bh (red t) b = bh (red t) T" "bh (red t) c = bh (red t) T" "bal (red t) b" "bal (red t) c" "rr_free (red t) b" "rr_free (red t) c"
    using b(4-6) assms(3) by auto
  moreover have "hook ?t (nd d T p (nd d b w c)) C" using node_par[OF r[unfolded n]] by (simp add: hook_def)
  ultimately show "short ?t (nd d T p (nd d b w c)) C"
    using r b d assms(4,5) by (simp add: short_def)
qed

text \<open>A child of the black sibling is red: one or two rotations, and the tree is in order.\<close>

lemma short_rotate:
  assumes s: "short t T ((d, p, nd d b w c) # C)" "\<not> red t (tnode t T)" "\<not> red t w" "\<not> (btop (red t) b \<and> btop (red t) c)"
    and rt: "rt = p \<or> C \<noteq> [] \<and> rt = tnode t (fill Leaf C)"
  shows "\<exists>t' V. fix_rest rt d (tnode t T) w t = Some t' \<and> rb_ok t' V \<and> inorder V = inorder (fill T ((d, p, nd d b w c) # C))
    \<and> nil t' = nil t \<and> root t' = root t"
proof -
  let ?x = "tnode t T" and ?h = "bh (red t) T"
  note b = short_sibling[OF s(1,2)]
  have r: "rbt t (fill T ((d, p, nd d b w c) # C))" using s(1) by (simp add: short_def)
  have k: "kid t d w = tnode t b" "kid t (opp d) w = tnode t c" using r unfolding rbt_fill by (auto simp: is_tree_nd)
  have bc: "bh (red t) b = ?h" "bh (red t) c = ?h" "bal (red t) b" "bal (red t) c" "rr_free (red t) b" "rr_free (red t) c"
    using b(4-6) s(3) by auto
  have stop: "delete_fixup rt rt t' = Some t'" if ok: "rb_ok t' (fill U C)" "\<not> red t' p" "nil t' = nil t" for t' U
  proof -
    have "\<not> red t' rt"
    proof (cases "rt = p")
      case False
      then have "rt = tnode t' (fill U C)" using rt tnode_fill[of C t Leaf U] tnode_cong[OF ok(3)] by simp
      then show ?thesis using ok(1) tnode_red[of t' "fill U C"] by (simp add: rb_ok_def)
    qed (use ok in simp)
    then show ?thesis by (subst delete_fixup.simps) (simp add: set_red_same)
  qed
  show ?thesis
  proof (cases "btop (red t) c")
    case False
    then have "red t (tnode t c)" using tnode_red[OF r] by blast
    moreover obtain t' where t': "rb_rotate d p (set_red (tnode t c) False (set_red p False (set_red w (red t p) t))) = Some t'"
      "rb_ok t' (fill (nd d (nd d T p b) w c) C)" "\<not> red t' p" "nil t' = nil t" "root t' = root t"
      using fix_far[OF r[unfolded fill.simps] s(3) False b(2,3) bc(5,3,6,4) refl bc(1,2) b(8)] b(7,9) by auto
    ultimately have "fix_rest rt d ?x w t = Some t'" using k b(10) stop[OF t'(2-4)] by (simp add: fix_rest_def Let_def)
    then show ?thesis using t' by (intro exI[of _ t'] exI[of _ "fill (nd d (nd d T p b) w c) C"]) (simp add: inorder_fill)
  next
    case True
    then have "\<not> btop (red t) b" using s(4) by simp
    then obtain e v f where be: "b = nd d e v f" using node_nd[of b d] by (cases b) (auto simp: btop_def)
    let ?t = "set_red w True (set_red v False t)"
    have vr: "red t v" using \<open>\<not> btop (red t) b\<close> be by simp
    have "rbt ?t (fill (nd (opp d) c w (nd (opp d) f v e)) ((d, p, T) # C) )" if "d = opp d" using that by simp
    have sw: "fill (nd d b w c) ((opp d, p, T) # C) = fill T ((d, p, nd d b w c) # C)" by simp
    have "rbt ?t (fill (nd (opp d) c w (nd (opp d) f v e)) ((opp d, p, T) # C))"
      using r unfolding sw[symmetric] be by (intro rbt_recolour) (auto simp: fill_set)
    then obtain t2 where t2: "rb_rotate (opp d) w ?t = Some t2"
      "rbt t2 (fill (nd (opp d) (nd (opp d) c w f) v e) ((opp d, p, T) # C))" "red t2 = red ?t" "nil t2 = nil t" "root t2 = root t"
      by (rule rotate_ok) auto
    let ?S = "nd d e v (nd d f w c)"
    have r2: "rbt t2 (fill T ((d, p, ?S) # C))" using t2(2) by simp
    have tn: "tnode t2 U = tnode t U" for U by (rule tnode_cong) (rule t2(4))
    have k2: "kid t2 (opp d) p = v" "kid t2 (opp d) v = w"
      using is_ctx_Cons[OF r2] r2 unfolding rbt_fill by (auto simp: is_tree_nd)
    have "hook t2 T ((d, p, ?S) # C)"
      by (rule hook_rotate[OF t2(1) r2, of "(d, p, ?S) # C"]) (use b(10) t2(4) in \<open>simp_all add: hook_def\<close>)
    then have px: "par t2 ?x = p" by (simp add: hook_def tn)
    from r have "distinct (inorder (nd d T p (nd d b w c)))" "set_tree (nd d T p (nd d b w c)) \<inter> ctx_set C = {}"
      by (auto simp: rbt_fill set_ctx)
    then have n: "w \<notin> set_tree T" "v \<notin> set_tree T" "w \<notin> set_tree e" "w \<notin> set_tree f" "w \<notin> set_tree c" "v \<notin> set_tree e"
      "v \<notin> set_tree f" "v \<notin> set_tree c" "w \<noteq> v" "p \<noteq> w" "p \<noteq> v" "w \<notin> ctx_set C" "v \<notin> ctx_set C"
      unfolding distinct_nd be by auto
    have hd: "fst (snd (hd C)) \<in> ctx_set C" if "C \<noteq> []" using that by (cases C) auto
    have c2: "red t2 = (red t)(v := False, w := True)" by (simp add: t2(3))
    have fb: "rr_free (red t) e" "rr_free (red t) f" "bal (red t) e" "bal (red t) f" "bh (red t) e = ?h" "bh (red t) f = ?h" "btop (red t) e" "btop (red t) f"
      using bc(1,3,5) vr unfolding be by auto
    have g: "\<not> red t2 v" "red t2 w" "rr_free (red t2) T" "bal (red t2) T" "rr_free (red t2) e" "bal (red t2) e"
      "rr_free (red t2) (nd d f w c)" "bal (red t2) (nd d f w c)" "bh (red t2) T = ?h" "bh (red t2) e = ?h" "bh (red t2) (nd d f w c) = ?h"
      "rr_ctx (red t2) C" "bal_ctx (red t2) C (?h + 1 + (if red t2 p then 0 else 1))" "red t2 p = red t p"
      using b(2,3,8,9) bc fb n True unfolding c2 by simp_all
    have g': "red t2 p \<longrightarrow> C \<noteq> [] \<and> \<not> red t2 (fst (snd (hd C)))"
      using b(7) g(14) hd n(12,13) unfolding c2 by (auto simp: fun_upd_def split: if_splits)
    obtain t' where t': "rb_rotate d p (set_red w False (set_red p False (set_red v (red t2 p) t2))) = Some t'"
      "rb_ok t' (fill (nd d (nd d T p e) v (nd d f w c)) C)" "\<not> red t' p" "nil t' = nil t2" "root t' = root t2"
      using fix_far[of t2 d T p e v "nd d f w c" C ?h] r2 g g' by auto
    have "red t (tnode t b)" "\<not> red t (tnode t c)" using tnode_red[OF r] True \<open>\<not> btop (red t) b\<close> by blast+
    then have "fix_rest rt d ?x w t = Some t'"
      using k b(10) t2(1) px k2 t'(1) stop[OF t'(2,3)] t'(4) t2(4) be by (simp add: fix_rest_def Let_def)
    moreover have "inorder (nd d (nd d T p e) v (nd d f w c)) = inorder (nd d T p (nd d b w c))"
      unfolding be by (cases d) (simp_all add: nd_def)
    ultimately show ?thesis using t' t2(4,5)
      by (intro exI[of _ t'] exI[of _ "fill (nd d (nd d T p e) v (nd d f w c)) C"]) (simp add: inorder_fill)
  qed
qed

lemma delete_fixup_ok:
  assumes "short t T C"
  shows "\<exists>t' V. delete_fixup (tnode t (fill T C)) (tnode t T) t = Some t' \<and> rb_ok t' V \<and> inorder V = inorder (fill T C)
    \<and> nil t' = nil t \<and> root t' = root t"
  using assms
proof (induction "length C" arbitrary: t T C rule: less_induct)
  case less
  let ?x = "tnode t T" and ?rt = "tnode t (fill T C)"
  have r: "rbt t (fill T C)" and s: "rr_free ((red t)(?x := False)) T" "bal (red t) T" using less.prems by (auto simp: short_def)
  show ?case
  proof (cases "C = [] \<or> red t ?x")
    case True
    have "delete_fixup ?rt ?x t = Some (set_red ?x False t)"
      using True by (subst delete_fixup.simps) auto
    moreover have "rb_ok (set_red ?x False t) (fill T C)"
    proof (cases "C = []")
      case C: True
      have "rr_free ((red t)(?x := False)) T \<and> bal ((red t)(?x := False)) T \<and> btop ((red t)(?x := False)) T"
      proof (cases T)
        case (Node l x r')
        then show ?thesis using s r by (auto simp: C rbt_def)
      qed simp
      then show ?thesis using rbt_recolour[OF r, of ?x False] by (simp add: rb_ok_def C)
    qed (use True short_stop[OF less.prems] in auto)
    ultimately show ?thesis by auto
  next
    case False
    then obtain d p S D where C: "C = (d, p, S) # D" by (metis list.exhaust prod_cases3)
    have sh: "short t T ((d, p, S) # D)" and xb: "\<not> red t ?x" using less.prems False C by auto
    note b = short_sibling[OF sh xb]
    have rD: "rbt t (fill T ((d, p, S) # D))" using r C by simp
    obtain lS w cS where "S = Node lS w cS" using b(1) by (cases S) auto
    then obtain bb c where S: "S = nd d bb w c" by (cases d) (auto simp: nd_def)
    have "?x \<notin> ctx_set C"
    proof (cases T)
      case Leaf
      then show ?thesis using r is_ctx_nodes[of t "nil t" C "nil t"] unfolding rbt_fill by auto
    next
      case (Node l x r')
      then show ?thesis using r unfolding rbt_fill by (auto simp: set_ctx)
    qed
    then have ne: "?x \<noteq> ?rt" using root_in_ctx[of C t T] False by auto
    have "tnode t S \<noteq> ?x" using ctx_disjoint(4)[OF rD] rD tnode_in[of t T] unfolding S rbt_fill by (auto simp: is_tree_nd)
    then have side: "(if ?x = kid t DL p then DL else DR) = d" using b(11,12) by (cases d) auto
    show ?thesis
    proof (cases "red t w")
      case black: False
      have run: "delete_fixup ?rt ?x t = fix_rest ?rt d ?x w t"
        using ne xb b(10,12) side black by (subst delete_fixup_step) (simp add: S Let_def)
      show ?thesis
      proof (cases "btop (red t) bb \<and> btop (red t) c")
        case True
        note up = short_up[OF sh[unfolded S] xb black True[THEN conjunct1] True[THEN conjunct2]]
        have "length D < length C" by (simp add: C)
        from less.hyps[OF this up(2)] show ?thesis unfolding run up(1) by (simp add: C S)
      next
        case False
        have "?rt = p \<or> D \<noteq> [] \<and> ?rt = tnode t (fill Leaf D)" using tnode_fill[of D t "nd d T p S" Leaf] by (cases "D = []") (auto simp: C)
        from short_rotate[OF sh[unfolded S] xb black False this] show ?thesis unfolding run by (simp add: C S)
      qed
    next
      case wred: True
      have pb: "\<not> red t p" using b(7) wred by (auto simp: S)
      let ?t = "set_red p True (set_red w False t)"
      have "rbt ?t (fill (nd d T p (nd d bb w c)) D)" using rD unfolding S by (intro rbt_recolour) (auto simp: fill_set)
      then obtain t1 where t1: "rb_rotate d p ?t = Some t1" "rbt t1 (fill (nd d (nd d T p bb) w c) D)" "red t1 = red ?t"
        "nil t1 = nil t" "root t1 = root t" by (rule rotate_ok) auto
      let ?C = "(d, w, c) # D"
      have r1: "rbt t1 (fill T ((d, p, bb) # ?C))" using t1(2) by simp
      have tn: "tnode t1 U = tnode t U" for U by (rule tnode_cong) (rule t1(4))
      have bbl: "bh (red t) bb = bh (red t) T + 1" "btop (red t) bb" "btop (red t) c" "rr_free (red t) bb" "rr_free (red t) c"
        "bal (red t) bb" "bal (red t) c" "bh (red t) c = bh (red t) T + 1" using b(4-6) wred by (auto simp: S)
      then obtain b2 w2 c2 where bb: "bb = nd d b2 w2 c2" using node_nd[of bb d] by (cases bb) auto
      have "distinct (inorder (nd d T p (nd d bb w c)))" "set_tree (nd d T p (nd d bb w c)) \<inter> ctx_set D = {}"
        using rD by (auto simp: S rbt_fill set_ctx)
      then have n: "p \<notin> set_tree T" "w \<notin> set_tree T" "p \<notin> set_tree bb" "w \<notin> set_tree bb" "p \<notin> set_tree c" "w \<notin> set_tree c" "p \<noteq> w"
        "p \<notin> ctx_set D" "w \<notin> ctx_set D" unfolding distinct_nd by auto
      have c1: "red t1 = (red t)(w := False, p := True)" by (simp add: t1(3))
      have hk: "hook t1 T ((d, p, bb) # ?C)"
        by (rule hook_rotate[OF t1(1) r1, of "(d, p, bb) # ?C"]) (use b(10) t1(4) in \<open>simp_all add: hook_def\<close>)
      have "red t1 ?x = red t ?x"
      proof -
        have "?x \<noteq> p" "?x \<noteq> w" using n(1,2) tnode_in[of t T] rD unfolding S rbt_fill by (auto simp: is_tree_nd)
        then show ?thesis by (simp add: c1)
      qed
      then have x1: "\<not> red t1 (tnode t1 T)" using xb by (simp add: tn)
      have "rr_free (red t1) T" "bal (red t1) T" "bh (red t1) T = bh (red t) T" "rr_ctx (red t1) ((d, p, bb) # ?C)"
        "bal_ctx (red t1) ((d, p, bb) # ?C) (bh (red t) T + 1)"
        using b(2,3,8,9) bbl n pb unfolding c1 by simp_all
      then have sh1: "short t1 T ((d, p, bb) # ?C)" using r1 hk x1 by (simp add: short_def fun_upd_idem)
      have k1: "kid t1 (opp d) p = w2" using short_sibling(12)[OF sh1 x1] by (simp add: bb)
      have p1: "par t1 ?x = p" using short_sibling(10)[OF sh1 x1] by (simp add: tn)
      have run: "delete_fixup ?rt ?x t = fix_rest ?rt d ?x w2 t1"
        using ne xb b(10,12) side wred t1(1) k1 p1 by (subst delete_fixup_step) (simp add: S Let_def)
      have w2b: "\<not> red t1 w2" using bbl(2) n bb unfolding c1 by auto
      have io: "inorder (fill T ((d, p, bb) # ?C)) = inorder (fill T C)" by (simp add: C S inorder_fill)
      show ?thesis
      proof (cases "btop (red t1) b2 \<and> btop (red t1) c2")
        case True
        note up = short_up[OF sh1[unfolded bb] x1 w2b True[THEN conjunct1] True[THEN conjunct2]]
        let ?u = "set_red w2 True t1"
        have pr: "red ?u p" by (simp add: c1)
        then have "delete_fixup ?rt p ?u = Some (set_red p False ?u)" by (subst delete_fixup.simps) simp
        moreover have "rb_ok (set_red p False ?u) (fill (nd d T p (nd d b2 w2 c2)) ?C)"
          using short_stop[OF up(2)] pr by simp
        ultimately show ?thesis unfolding run up(1)[unfolded tn] using io t1(4,5)
          by (intro exI[of _ "set_red p False ?u"] exI[of _ "fill (nd d T p (nd d b2 w2 c2)) ?C"]) (simp add: bb)
      next
        case False
        have "?rt = p \<or> ?C \<noteq> [] \<and> ?rt = tnode t1 (fill Leaf ?C)"
          using tnode_fill[of D t "nd d T p S" "nd d Leaf w c"] by (cases "D = []") (auto simp: C tn)
        from short_rotate[OF sh1[unfolded bb] x1 w2b False this] show ?thesis
          unfolding run tn using io t1(4,5) by (simp add: bb)
      qed
    qed
  qed
qed

section \<open>Deletion\<close>

lemma delete_finish:
  assumes "rbt t (fill T E)" "hook t T E" "rr_free (red t) T" "bal (red t) T" "rr_ctx (red t) E"
    and "if black then bal_ctx (red t) E (bh (red t) T + 1) else bal_ctx (red t) E (bh (red t) T) \<and> btop (red t) T \<and> E \<noteq> []"
  shows "\<exists>t' V. (if black then delete_fixup (kid t DL (root t)) (tnode t T) t else Some t) = Some t' \<and> rb_ok t' V
    \<and> inorder V = inorder (fill T E) \<and> nil t' = nil t \<and> root t' = root t"
proof (cases black)
  case True
  have "rr_free ((red t)(tnode t T := False)) T"
  proof (cases T)
    case (Node l x r)
    then show ?thesis using assms(1,3) unfolding rbt_fill by auto
  qed simp
  then have "short t T E" using assms True by (simp add: short_def)
  then show ?thesis using delete_fixup_ok[of t T E] assms(1) True by (simp add: rbt_def)
next
  case False
  then have "rr_free (red t) (fill T E)" "bal (red t) (fill T E)" "btop (red t) (fill T E)"
    using assms(3-6) rr_fill[of "red t" T E] bal_fill[of "red t" T E] btop_fill[of E "red t" T] by auto
  then show ?thesis using False assms(1) by (auto simp: rb_ok_def)
qed

lemma node_split: "z \<in> set_tree W \<Longrightarrow> \<exists>l r C. W = fill (Node l z r) C"
proof (induction W)
  case (Node a x b)
  consider "z = x" | "z \<in> set_tree a" | "z \<in> set_tree b" using Node.prems by auto
  then show ?case
  proof cases
    case 1
    then show ?thesis by (intro exI[of _ a] exI[of _ b] exI[of _ "[]"]) simp
  next
    case 2
    then obtain l r C where "a = fill (Node l z r) C" using Node.IH(1) by blast
    then show ?thesis by (intro exI[of _ l] exI[of _ r] exI[of _ "C @ [(DL, x, b)]"]) (simp add: fill_append nd_def)
  next
    case 3
    then obtain l r C where "b = fill (Node l z r) C" using Node.IH(2) by blast
    then show ?thesis by (intro exI[of _ l] exI[of _ r] exI[of _ "C @ [(DR, x, a)]"]) (simp add: fill_append nd_def)
  qed
qed simp

lemma ctx_rename:
  assumes "y \<notin> ctx_set D" "y \<notin> set_tree s" "y \<notin> ctx_set C"
  shows "rr_ctx (c(y := c z)) (D @ (e, y, s) # C) = rr_ctx c (D @ (e, z, s) # C)"
    "bal_ctx (c(y := c z)) (D @ (e, y, s) # C) h = bal_ctx c (D @ (e, z, s) # C) h"
proof -
  obtain c' where c': "c(y := c z) = c'" by blast
  have other: "c' x = c x" if "x \<noteq> y" for x using that unfolding c'[symmetric] by simp
  have cy: "c' y = c z" unfolding c'[symmetric] by simp
  have sub: "btop c' u = btop c u" "rr_free c' u = rr_free c u" "bh c' u = bh c u" "bal c' u = bal c u" if "y \<notin> set_tree u" for u
    unfolding c'[symmetric] using that by simp_all
  have ctx: "rr_ctx c' C = rr_ctx c C" "bal_ctx c' C h = bal_ctx c C h" for h
    unfolding c'[symmetric] using assms(3) by simp_all
  have "rr_ctx c' (D @ (e, y, s) # C) = rr_ctx c (D @ (e, z, s) # C)
    \<and> bal_ctx c' (D @ (e, y, s) # C) h = bal_ctx c (D @ (e, z, s) # C) h"
    using assms(1)
  proof (induction D arbitrary: h)
    case Nil
    have "C \<noteq> [] \<Longrightarrow> fst (snd (hd C)) \<noteq> y" using assms(3) by (cases C) auto
    then have "C \<noteq> [] \<Longrightarrow> c' (fst (snd (hd C))) = c (fst (snd (hd C)))" using other by blast
    then show ?case unfolding append_Nil rr_ctx.simps bal_ctx.simps cy sub[OF assms(2)] ctx by auto
  next
    case (Cons g D)
    obtain d x u where g: "g = (d, x, u)" by (cases g)
    have "c' (fst (snd (hd (D @ (e, y, s) # C)))) = c (fst (snd (hd (D @ (e, z, s) # C))))"
    proof (cases D)
      case inner: (Cons h D')
      then have "fst (snd h) \<noteq> y" using Cons.prems by (cases h) (auto simp: g)
      then show ?thesis using inner other by simp
    qed (simp add: cy)
    moreover have "y \<notin> set_tree u" "c' x = c x" using Cons.prems other[of x] by (auto simp: g)
    moreover note Cons.IH
    ultimately show ?case using Cons.prems by (simp add: g sub)
  qed
  then show "rr_ctx (c(y := c z)) (D @ (e, y, s) # C) = rr_ctx c (D @ (e, z, s) # C)"
    "bal_ctx (c(y := c z)) (D @ (e, y, s) # C) h = bal_ctx c (D @ (e, z, s) # C) h" unfolding c' by blast+
qed

text \<open>What the colours say about a node with one child and its context.\<close>

lemma cut_colours:
  assumes "rr_free c (fill (Node a y b) C)" "bal c (fill (Node a y b) C)" "btop c (fill (Node a y b) C)"
    and ab: "a = Leaf \<and> T = b \<or> b = Leaf \<and> T = a"
  shows "rr_free c T" "bal c T" "rr_ctx c C"
    "if \<not> c y then bal_ctx c C (bh c T + 1) else bal_ctx c C (bh c T) \<and> btop c T \<and> C \<noteq> []"
  using rr_fillD[OF assms(1,3)] bal_fillD[OF assms(2)] ab by auto

text \<open>The steps of \<open>rb_delete\<close>, named.\<close>

lemma rb_delete_steps:
  assumes y: "(if kid t DL z = nil t \<or> kid t DR z = nil t then Some z else rb_tree_successor z t) = Some y" "y \<noteq> root t" "y \<noteq> nil t"
    and x: "(if kid t DL y \<noteq> nil t then kid t DL y else kid t DR y) = x" "x \<noteq> y"
    and side: "\<And>v u. (if y = kid t DL (par t y) then set_kid DL (par t y) v u else set_kid DR (par t y) v u) = set_kid e (par t y) v u"
    and t1: "t1 = set_kid e (par t y) x (set_par x (par t y) t)"
    and t2: "t2 = (if y \<noteq> z then
                (let t = (if z = kid t1 DL (par t1 z) then set_kid DL (par t1 z) y t1 else set_kid DR (par t1 z) y t1);
                     t = set_par (kid t DR z) y (set_par (kid t DL z) y t)
                 in set_red y (red t z) (set_par y (par t z) (set_kid DL y (kid t DL z) (set_kid DR y (kid t DR z) t))))
              else t1)"
  shows "rb_delete z t = (if \<not> red t y then delete_fixup (kid t2 DL (root t2)) x t2 else Some t2)"
proof -
  have e: "kid (set_par x (par t y) t) = kid t" "par (set_par x (par t y) t) y = par t y" using x(2) by simp_all
  have "kassert (y \<noteq> root t \<and> y \<noteq> nil t) = Some ()" using y by simp
  moreover have "red t1 y = red t y" by (simp add: t1)
  ultimately show ?thesis
    unfolding rb_delete_def y(1) Let_def Option.bind.bind_lunit x(1) e side t1[symmetric] t2[unfolded Let_def, symmetric]
    by (simp only: Option.bind.bind_lunit)
qed

lemma delete_leafy:
  assumes "rb_ok t (fill (Node a y b) C)" and ab: "a = Leaf \<and> T = b \<or> b = Leaf \<and> T = a"
  shows "\<exists>t' V. rb_delete y t = Some t' \<and> rb_ok t' V \<and> inorder V = inorder (fill T C) \<and> nil t' = nil t \<and> root t' = root t"
proof -
  have W: "rbt t (fill (Node a y b) C)" "rr_free (red t) (fill (Node a y b) C)" "bal (red t) (fill (Node a y b) C)"
    "btop (red t) (fill (Node a y b) C)" using assms(1) by (auto simp: rb_ok_def)
  have k: "kid t DL y = tnode t a" "kid t DR y = tnode t b" "y \<noteq> nil t" "y \<noteq> root t" "is_tree t y a" "is_tree t y b"
    "y \<notin> set_tree a" "y \<notin> set_tree b" using W(1) unfolding rbt_fill by auto
  have x: "(if tnode t a \<noteq> nil t then tnode t a else tnode t b) = tnode t T"
    using ab by auto
  have one: "tnode t a = nil t \<or> tnode t b = nil t" using ab by auto
  have xy: "tnode t T \<noteq> y" using k(3,7,8) ab tnode_in[of t T] by auto
  define t1 where "t1 = set_kid (if C = [] then DL else fst (hd C)) (par t y) (tnode t T) (set_par (tnode t T) (par t y) t)"
  note sp = splice[OF W(1) ab t1_def]
  have side: "(if y = kid t DL (par t y) then set_kid DL (par t y) z u else set_kid DR (par t y) z u)
    = set_kid (if C = [] then DL else fst (hd C)) (par t y) z u" for z u
    using side_of[OF W(1), of z u] unfolding conjunct1[OF conjunct2[OF conjunct2[OF sp]]] by simp
  have run: "rb_delete y t = (if \<not> red t y then delete_fixup (kid t1 DL (root t1)) (tnode t T) t1 else Some t1)"
    by (rule rb_delete_steps[OF _ k(4,3) _ xy side t1_def]) (use one k(1,2) x in auto)
  have f: "rbt t1 (fill T C)" "hook t1 T C" "red t1 = red t" "nil t1 = nil t" "root t1 = root t" using sp by blast+
  have tn: "tnode t1 T = tnode t T" by (rule tnode_cong) (rule f(4))
  from delete_finish[of t1 T C "\<not> red t y", OF f(1,2), unfolded f(3), OF cut_colours[OF W(2-4) ab]]
  show ?thesis unfolding run tn f(4,5) .
qed

text \<open>A node with two children: its successor \<open>y\<close> is cut out and takes its place.\<close>

lemma delete_inner:
  assumes ok: "rb_ok t (fill (Node l z r) C)" and lr: "l \<noteq> Leaf" "r \<noteq> Leaf"
  shows "\<exists>t' V. rb_delete z t = Some t' \<and> rb_ok t' V \<and> inorder V = lefts C @ inorder l @ inorder r @ rights C
    \<and> nil t' = nil t \<and> root t' = root t"
proof -
  have W: "rbt t (fill (Node l z r) C)" "rr_free (red t) (fill (Node l z r) C)" "bal (red t) (fill (Node l z r) C)"
    "btop (red t) (fill (Node l z r) C)" using ok by (auto simp: rb_ok_def)
  have k: "kid t DL z = tnode t l" "kid t DR z = tnode t r" "z \<noteq> nil t" "z \<noteq> root t" "is_tree t z l" "is_tree t z r" "par t z = cpar t C"
    using W(1) unfolding rbt_fill by auto
  have ln: "tnode t l \<noteq> nil t" using k(5) lr(1) by (cases l) auto
  have rn: "tnode t r \<noteq> nil t" using k(6) lr(2) by (cases r) auto
  obtain D y b where D: "r = fill (nd DL Leaf y b) D" "descend DL (tnode t r) t = Some y" "lefts D = []"
    using descend_ok[OF k(6) lr(2), of DL] by blast
  let ?E = "D @ (DR, z, l) # C" and ?F = "D @ (DR, y, l) # C"
  have E: "fill (Node l z r) C = fill (Node Leaf y b) ?E" by (simp add: D(1) fill_append nd_def)
  have WE: "rbt t (fill (Node Leaf y b) ?E)" using W(1) by (simp only: E)
  have ky: "kid t DL y = nil t" "kid t DR y = tnode t b" "y \<noteq> nil t" "y \<noteq> root t" "par t y = cpar t ?E" "is_tree t y b"
    using WE unfolding rbt_fill by auto
  from WE have dd: "distinct (lefts ?E @ inorder (Node Leaf y b) @ rights ?E)" unfolding rbt_fill by blast
  then have n: "y \<noteq> z" "y \<notin> ctx_set D" "y \<notin> set_tree l" "y \<notin> ctx_set C" "y \<notin> set_tree b" "z \<notin> set_tree b"
    "set_tree b \<inter> ctx_set D = {}" "set_tree b \<inter> set_tree l = {}" "z \<notin> ctx_set D" "z \<notin> set_tree l" "ctx_set D \<inter> set_tree l = {}"
    by (auto simp: set_ctx)
  have bn: "is_tree t y b \<Longrightarrow> tnode t b \<noteq> y \<and> tnode t b \<noteq> z" using n(5,6) ky(3) k(3) tnode_in[of t b] by auto
  then have by_: "tnode t b \<noteq> y" "tnode t b \<noteq> z" using ky(6) by blast+
  define t1 where "t1 = set_kid (if ?E = [] then DL else fst (hd ?E)) (par t y) (tnode t b) (set_par (tnode t b) (par t y) t)"
  have ab: "Leaf = Leaf \<and> b = b \<or> b = Leaf \<and> b = Leaf" for b :: "nat tree" by simp
  have sp: "rbt t1 (fill b ?E)" "hook t1 b ?E" "red t1 = red t" "nil t1 = nil t" "root t1 = root t"
    using splice[OF WE _ t1_def] by blast+
  have tn1: "tnode t1 U = tnode t U" for U by (rule tnode_cong) (rule sp(4))
  have W1: "rbt t1 (fill (Node l z (fill b D)) C)" using sp(1) by (simp add: fill_append nd_def)
  have k1: "kid t1 DL z = tnode t l" "kid t1 DR z = tnode t (fill b D)"
    using W1 unfolding rbt_fill by (auto simp: tn1)
  have y1: "y \<notin> set_tree (fill (Node l z (fill b D)) C)" using n by (simp add: fill_set)
  define t2 where "t2 = set_red y (red t1 z) (set_par y (par t1 z) (set_kid DL y (kid t1 DL z) (set_kid DR y (kid t1 DR z)
      (set_par (kid t1 DR z) y (set_par (kid t1 DL z) y (set_kid (if C = [] then DL else fst (hd C)) (par t1 z) y t1))))))"
  have tp: "rbt t2 (fill (Node l y (fill b D)) C)" "red t2 = (red t)(y := red t z)" "nil t2 = nil t" "root t2 = root t"
    "\<And>x. x \<noteq> y \<Longrightarrow> x \<notin> {kid t1 DL z, kid t1 DR z} \<Longrightarrow> par t2 x = par t1 x" "par t2 (kid t1 DR z) = y"
    using take_place[OF W1 y1 _ _ t2_def] ky(3,4) sp(3-5) by auto
  have tn2: "tnode t2 U = tnode t U" for U by (rule tnode_cong) (rule tp(3))
  have F: "fill (Node l y (fill b D)) C = fill b ?F" by (simp add: fill_append nd_def)
  have E0: "E \<noteq> [] \<Longrightarrow> cpar t1 E = cpar t E" for E by (cases E) (simp_all add: cpar_def split: list.splits)
  have "hook t2 b ?F"
  proof (cases "D = []")
    case True
    then show ?thesis using tp(6) by (simp add: hook_def tn2 k1)
  next
    case False
    have "is_tree t1 z l" "is_tree t1 z (fill b D)" "is_tree t1 (cpar t1 ?E) b" using W1 sp(1) unfolding rbt_fill by auto
    then have m: "l \<noteq> Leaf \<Longrightarrow> tnode t l \<in> set_tree l" "tnode t (fill b D) \<in> ctx_set D" "b \<noteq> Leaf \<Longrightarrow> tnode t b \<in> set_tree b"
      "tnode t (fill b D) \<noteq> nil t"
      using root_in_ctx[OF False, of t b] is_tree_nodes[of t1 z "fill b D" "tnode t (fill b D)"] sp(4)
      by (cases l; cases b; auto simp: fill_set)+
    have "tnode t b \<noteq> tnode t l \<and> tnode t b \<noteq> tnode t (fill b D)"
      using m ln lr(1) n(7,8) by (cases "b = Leaf") auto
    then have "par t2 (tnode t b) = par t1 (tnode t b)" using tp(5) by_ k1 by simp
    moreover have "par t1 (tnode t b) = cpar t1 ?E" using sp(2) by (simp add: hook_def tn1)
    moreover have "cpar t1 ?E = cpar t2 ?F" using False by (cases D) auto
    ultimately show ?thesis by (simp add: hook_def tn2)
  qed
  have cc: "rr_free (red t) b" "bal (red t) b" "rr_ctx (red t) ?E"
    "if \<not> red t y then bal_ctx (red t) ?E (bh (red t) b + 1) else bal_ctx (red t) ?E (bh (red t) b) \<and> btop (red t) b \<and> ?E \<noteq> []"
    using cut_colours[of "red t" Leaf y b ?E b] W(2-4) unfolding E by auto
  have cc2: "rr_free (red t2) b" "bal (red t2) b" "rr_ctx (red t2) ?F"
    "if \<not> red t y then bal_ctx (red t2) ?F (bh (red t2) b + 1) else bal_ctx (red t2) ?F (bh (red t2) b) \<and> btop (red t2) b \<and> ?F \<noteq> []"
    using cc n(2-5) unfolding tp(2) ctx_rename[OF n(2-4)] by (cases "red t y"; simp)+
  have rF: "rbt t2 (fill b ?F)" using tp(1) unfolding F .
  have suc: "(if kid t DL z = nil t \<or> kid t DR z = nil t then Some z else rb_tree_successor z t) = Some y"
    using ln rn k(1,2) D(2) by (simp add: rb_tree_successor_def)
  have side: "(if y = kid t DL (par t y) then set_kid DL (par t y) v u else set_kid DR (par t y) v u)
    = set_kid (if ?E = [] then DL else fst (hd ?E)) (par t y) v u" for v u
    using side_of[OF WE, of v u] unfolding ky(5) by simp
  have z1: "par t1 z = cpar t1 C" "cpar t1 C \<noteq> z" "tnode t l \<noteq> z" "tnode t (fill b D) \<noteq> z"
  proof -
    show "par t1 z = cpar t1 C" using W1 unfolding rbt_fill by simp
    have "z \<notin> ctx_set C" "z \<noteq> root t1" using W1 unfolding rbt_fill by (auto simp: set_ctx)
    then show "cpar t1 C \<noteq> z" using cpar_in[of C t1] by (cases "C = []") auto
    show "tnode t l \<noteq> z" using n(10) lr(1) by (cases l) auto
    show "tnode t (fill b D) \<noteq> z" using root_in_ctx[of D t b] n(9) by_(2) by (cases "D = []") auto
  qed
  have side2: "(if z = kid t1 DL (par t1 z) then set_kid DL (par t1 z) y t1 else set_kid DR (par t1 z) y t1)
    = set_kid (if C = [] then DL else fst (hd C)) (par t1 z) y t1"
    using side_of[OF W1, of y t1] unfolding z1(1) by simp
  have run: "rb_delete z t = (if \<not> red t y then delete_fixup (kid t2 DL (root t2)) (tnode t b) t2 else Some t2)"
  proof (rule rb_delete_steps[OF suc ky(4,3) _ by_(1) side t1_def])
    show "(if kid t DL y \<noteq> nil t then kid t DL y else kid t DR y) = tnode t b" using ky by simp
    obtain e where e: "(if C = [] then DL else fst (hd C)) = e" by blast
    show "t2 = (if y \<noteq> z then
                (let t = (if z = kid t1 DL (par t1 z) then set_kid DL (par t1 z) y t1 else set_kid DR (par t1 z) y t1);
                     t = set_par (kid t DR z) y (set_par (kid t DL z) y t)
                 in set_red y (red t z) (set_par y (par t z) (set_kid DL y (kid t DL z) (set_kid DR y (kid t DR z) t))))
              else t1)"
      unfolding side2 unfolding t2_def Let_def e z1(1) using n(1) z1(1-4) by (simp add: k1)
  qed
  from delete_finish[of t2 b ?F "\<not> red t y", OF rF \<open>hook t2 b ?F\<close> cc2]
  show ?thesis unfolding run tn2 tp(3,4) by (simp add: inorder_fill D(1,3) nd_def)
qed

lemma distinct_split:
  "distinct (as @ x # bs) \<Longrightarrow> as @ x # bs = cs @ x # ds \<Longrightarrow> as = cs \<and> bs = ds"
  by (auto simp: append_eq_append_conv2 append_eq_Cons_conv Cons_eq_append_conv)

lemma delete_ok:
  assumes "rb_ok t W" "z \<in> set_tree W"
  shows "\<exists>t' V. rb_delete z t = Some t' \<and> rb_ok t' V \<and> inorder V = remove1 z (inorder W) \<and> nil t' = nil t \<and> root t' = root t"
proof -
  obtain l r C where W: "W = fill (Node l z r) C" using node_split[OF assms(2)] by blast
  have "distinct (inorder W)" using assms(1) by (simp add: rb_ok_def rbt_def)
  then have rm: "remove1 z (inorder W) = lefts C @ inorder l @ inorder r @ rights C"
    by (auto simp: W inorder_fill remove1_append)
  consider (left) "l = Leaf" | (right) "r = Leaf" | (both) "l \<noteq> Leaf" "r \<noteq> Leaf" by blast
  then show ?thesis
  proof cases
    case left
    then show ?thesis using delete_leafy[OF assms(1)[unfolded W], of r] rm by (simp add: inorder_fill)
  next
    case right
    then show ?thesis using delete_leafy[OF assms(1)[unfolded W], of l] rm by (simp add: inorder_fill)
  next
    case both
    then show ?thesis using delete_inner[OF assms(1)[unfolded W] both] rm by simp
  qed
qed

lemma neighbours_ok:
  assumes "rb_ok t W" "inorder W = as @ x # bs"
  shows "rb_node_prev x t = Some (if as = [] then None else Some (last as))
    \<and> rb_node_next x t = Some (case bs of [] \<Rightarrow> None | y # _ \<Rightarrow> Some y)"
proof -
  have "x \<in> set_tree W" using assms(2) by (metis in_set_conv_decomp set_inorder)
  then obtain l r C where W: "W = fill (Node l x r) C" using node_split by blast
  have r: "rbt t (fill (Node l x r) C)" using assms(1) by (simp add: rb_ok_def W)
  then have "distinct (inorder W)" by (simp add: rbt_def W)
  moreover have "inorder W = (lefts C @ inorder l) @ x # (inorder r @ rights C)" by (simp add: W inorder_fill)
  ultimately have "as = lefts C @ inorder l \<and> bs = inorder r @ rights C"
    unfolding assms(2) by (rule distinct_split)
  then show ?thesis using prev_ok[OF r] next_ok[OF r] by simp
qed

section \<open>Properties\<close>

text \<open>C22: \<open>rb_delete\<close> of a node of a red-black tree ends and fails no assertion; the result is again
  a red-black tree, whose in-order sequence is the old one without the node.\<close>

theorem rb_delete_correct:
  assumes "rb_ok t W" "z \<in> set_tree W"
  shows "\<exists>t' W'. rb_delete z t = Some t' \<and> rb_ok t' W' \<and> nil t' = nil t \<and> root t' = root t
    \<and> inorder W' = remove1 z (inorder W)"
  using delete_ok[OF assms] by blast

theorem rb_delete_correct_witness:
  "\<exists>t' W'. rb_delete 5 three_rb = Some t' \<and> rb_ok t' W' \<and> inorder W' = [3, 8]"
  using rb_delete_correct[OF three_rb_ok, of 5] by simp blast

text \<open>On a red-black tree \<open>rb_node_prev\<close> and \<open>rb_node_next\<close> of a node end and return its
  neighbours in the in-order sequence, \<open>NULL\<close> at the ends.\<close>

theorem rb_neighbours_correct:
  assumes "rb_ok t W" "inorder W = as @ x # bs"
  shows "rb_node_prev x t = Some (if as = [] then None else Some (last as))
    \<and> rb_node_next x t = Some (case bs of [] \<Rightarrow> None | y # _ \<Rightarrow> Some y)"
  using neighbours_ok[OF assms] .

theorem rb_neighbours_correct_witness:
  "rb_node_prev 3 three_rb = Some None \<and> rb_node_next 3 three_rb = Some (Some 5)"
  using rb_neighbours_correct[OF three_rb_ok, of "[]" 3 "[5, 8]"] by simp

end
