(* ===== verification/Shmem.thy ===== *)
theory Shmem
  imports Paging RbTree
begin

text \<open>
  Shared memory: \<open>kern/mm/shmem.c\<close>, and the structures of \<open>kern/mm/vmm.h\<close> that refer to it.

  The kernel objects of the virtual memory manager live in one state: \<open>pm\<close> is physical memory,
  \<open>vmas\<close>, \<open>mms\<close>, \<open>shmems\<close> and \<open>shmns\<close> are the objects that \<open>kmalloc\<close> has handed out, by
  address.  \<open>heap\<close> lists what the following calls of \<open>kmalloc\<close> will return (\<open>None\<close> for a failed
  one), so that every failure of an allocation is a choice of the initial state.  The list of an
  object is the list of the addresses of its elements.  The locks do not appear: an operation is
  one step, as it is under its lock.
\<close>

section \<open>The state\<close>

record shmn_t =
  sn_start :: u32
  sn_end :: u32
  sn_entry :: nat

record shmem_struct =
  shmn_list :: "nat list"
  shmn_cache :: "nat option"
  sh_len :: u32
  shmem_ref :: atomic_t

record vma_struct =
  vm_mm :: nat
  vm_start :: u32
  vm_end :: u32
  vm_flags :: u32
  vm_shmem :: "nat option"
  shmem_off :: u32

record mm_struct =
  mmap_list :: "nat list"
  mmap_tree :: "rb_tree option"
  mmap_cache :: "nat option"
  pgdir :: nat
  map_count :: int
  swap_address :: u32
  mm_count :: atomic_t
  brk_start :: u32
  brk :: u32

record vm =
  pm :: mem
  vmas :: "nat \<Rightarrow> vma_struct"
  mms :: "nat \<Rightarrow> mm_struct"
  shmems :: "nat \<Rightarrow> shmem_struct"
  shmns :: "nat \<Rightarrow> shmn_t"
  heap :: "nat option list"

definition kmalloc :: "vm \<Rightarrow> nat option \<times> vm" where
  "kmalloc v = (case heap v of [] \<Rightarrow> (None, v) | a # as \<Rightarrow> (a, v\<lparr>heap := as\<rparr>))"

definition upd_shmem :: "nat \<Rightarrow> (shmem_struct \<Rightarrow> shmem_struct) \<Rightarrow> vm \<Rightarrow> vm" where
  "upd_shmem s f v = v\<lparr>shmems := (shmems v)(s := f (shmems v s))\<rparr>"

text \<open>A routine on physical memory in the larger state.\<close>

definition on_mem :: "(mem \<Rightarrow> ('a \<times> mem) option) \<Rightarrow> vm \<Rightarrow> ('a \<times> vm) option" where
  "on_mem f v = do { (r, m) \<leftarrow> f (pm v); Some (r, v\<lparr>pm := m\<rparr>) }"

definition on_mem0 :: "(mem \<Rightarrow> mem option) \<Rightarrow> vm \<Rightarrow> vm option" where
  "on_mem0 f v = do { m \<leftarrow> f (pm v); Some (v\<lparr>pm := m\<rparr>) }"

section \<open>The operations\<close>

abbreviation (input) "SHMN_NENTRY \<equiv> (1024 :: u32)"

definition shmem_ref_inc :: "nat \<Rightarrow> vm \<Rightarrow> u32 \<times> vm" where
  "shmem_ref_inc s v =
    (let (r, c) = atomic_add_return (shmem_ref (shmems v s)) 1
     in (r, upd_shmem s (\<lambda>sh. sh\<lparr>shmem_ref := c\<rparr>) v))"

definition shmem_ref_dec :: "nat \<Rightarrow> vm \<Rightarrow> u32 \<times> vm" where
  "shmem_ref_dec s v =
    (let (r, c) = atomic_sub_return (shmem_ref (shmems v s)) 1
     in (r, upd_shmem s (\<lambda>sh. sh\<lparr>shmem_ref := c\<rparr>) v))"

definition shmem_create :: "u32 \<Rightarrow> vm \<Rightarrow> nat option \<times> vm" where
  "shmem_create len v =
    (let (s, v) = kmalloc v
     in (case s of
           None \<Rightarrow> (None, v)
         | Some s \<Rightarrow> (Some s, upd_shmem s (\<lambda>_. \<lparr>shmn_list = [], shmn_cache = None, sh_len = len, shmem_ref = 0\<rparr>) v)))"

text \<open>The assertion is written \<open>start % PGSIZE * SHMN_NENTRY == 0\<close> in the source: \<open>%\<close> and \<open>*\<close>
  group from the left.\<close>

definition shmn_create :: "u32 \<Rightarrow> vm \<Rightarrow> (nat option \<times> vm) option" where
  "shmn_create start v = do {
     kassert (start mod PGSIZE * SHMN_NENTRY = 0);
     let (s, v) = kmalloc v;
     (case s of
        None \<Rightarrow> Some (None, v)
      | Some s \<Rightarrow> do {
          (page, v) \<leftarrow> on_mem (alloc_page) v;
          (case page of
             None \<Rightarrow> Some (None, v)
           | Some p \<Rightarrow> Some (Some s,
               v\<lparr>pm := (pm v)\<lparr>words := (words (pm v))(p := (\<lambda>_. 0))\<rparr>,
                 shmns := (shmns v)(s := \<lparr>sn_start = start, sn_end = start + PGSIZE * SHMN_NENTRY, sn_entry = p\<rparr>)\<rparr>))
        })
   }"

definition shmem_remove_entry_pte :: "nat \<times> nat \<Rightarrow> mem \<Rightarrow> mem option" where
  "shmem_remove_entry_pte ptep m =
    (if read_pte ptep m AND PTE_P \<noteq> 0 then do {
       m \<leftarrow> drop_page (read_pte ptep m) m;
       Some (write_pte ptep 0 m)
     }
     else if read_pte ptep m \<noteq> 0 then do {
       m \<leftarrow> swap_remove_entry (read_pte ptep m) m;
       Some (write_pte ptep 0 m)
     }
     else Some m)"

fun remove_entries :: "nat \<Rightarrow> nat \<Rightarrow> nat \<Rightarrow> mem \<Rightarrow> mem option" where
  "remove_entries f i 0 m = Some m"
| "remove_entries f i (Suc n) m = do { m \<leftarrow> shmem_remove_entry_pte (f, i) m; remove_entries f (i + 1) n m }"

definition shmn_destroy :: "nat \<Rightarrow> vm \<Rightarrow> vm option" where
  "shmn_destroy s v = do {
     let f = sn_entry (shmns v s);
     v \<leftarrow> on_mem0 (remove_entries f 0 1024) v;
     on_mem0 (free_page f) v
   }"

definition find_shmn :: "nat \<Rightarrow> u32 \<Rightarrow> vm \<Rightarrow> nat option \<times> vm" where
  "find_shmn s addr v =
    (let inside = (\<lambda>n. sn_start (shmns v n) \<le> addr \<and> addr < sn_end (shmns v n));
         r = (case shmn_cache (shmems v s) of
                Some n \<Rightarrow> if inside n then Some n else List.find inside (shmn_list (shmems v s))
              | None \<Rightarrow> List.find inside (shmn_list (shmems v s)))
     in (r, if r \<noteq> None then upd_shmem s (\<lambda>sh. sh\<lparr>shmn_cache := r\<rparr>) v else v))"

definition check_shmn_overlap :: "shmn_t \<Rightarrow> shmn_t \<Rightarrow> bool" where
  "check_shmn_overlap p n \<longleftrightarrow> sn_start p < sn_end p \<and> sn_end p \<le> sn_start n \<and> sn_start n < sn_end n"

definition insert_shmn :: "nat \<Rightarrow> nat \<Rightarrow> vm \<Rightarrow> vm option" where
  "insert_shmn s n v = do {
     let above = (\<lambda>x. sn_start (shmns v x) > sn_start (shmns v n));
     let as = takeWhile (\<lambda>x. \<not> above x) (shmn_list (shmems v s));
     let bs = dropWhile (\<lambda>x. \<not> above x) (shmn_list (shmems v s));
     kassert (as \<noteq> [] \<longrightarrow> check_shmn_overlap (shmns v (last as)) (shmns v n));
     kassert (bs \<noteq> [] \<longrightarrow> check_shmn_overlap (shmns v n) (shmns v (hd bs)));
     Some (upd_shmem s (\<lambda>sh. sh\<lparr>shmn_list := as @ n # bs\<rparr>) v)
   }"

fun destroy_shmns :: "nat list \<Rightarrow> vm \<Rightarrow> vm option" where
  "destroy_shmns [] v = Some v"
| "destroy_shmns (n # ns) v = do { v \<leftarrow> shmn_destroy n v; destroy_shmns ns v }"

text \<open>The list is emptied from its head; the structure is freed after the last node.\<close>

definition shmem_destroy :: "nat \<Rightarrow> vm \<Rightarrow> vm option" where
  "shmem_destroy s v = do {
     let ns = shmn_list (shmems v s);
     let v = upd_shmem s (\<lambda>sh. sh\<lparr>shmn_list := []\<rparr>) v;
     destroy_shmns ns v
   }"

definition shmem_get_entry :: "nat \<Rightarrow> u32 \<Rightarrow> bool \<Rightarrow> vm \<Rightarrow> ((nat \<times> nat) option \<times> vm) option" where
  "shmem_get_entry s addr create v = do {
     kassert (addr < sh_len (shmems v s));
     let addr = ROUNDDOWN addr PGSIZE;
     let (sn, v) = find_shmn s addr v;
     (sn, v) \<leftarrow>
       (case sn of
          Some n \<Rightarrow> do {
            kassert (sn_start (shmns v n) \<le> addr \<and> addr < sn_end (shmns v n));
            Some (Some n, v)
          }
        | None \<Rightarrow>
            if \<not> create then Some (None, v)
            else do {
              (sn, v) \<leftarrow> shmn_create (ROUNDDOWN addr (PGSIZE * SHMN_NENTRY)) v;
              (case sn of
                 None \<Rightarrow> Some (None, v)
               | Some n \<Rightarrow> do { v \<leftarrow> insert_shmn s n v; Some (Some n, v) })
            });
     (case sn of
        None \<Rightarrow> Some (None, v)
      | Some n \<Rightarrow> do {
          let ptep = (sn_entry (shmns v n), unat ((addr - sn_start (shmns v n)) div PGSIZE));
          (if read_pte ptep (pm v) = 0 \<and> create then do {
             (page, v) \<leftarrow> on_mem (alloc_page) v;
             (case page of
                None \<Rightarrow> Some (Some ptep, v)
              | Some p \<Rightarrow> Some (Some ptep, v\<lparr>pm := pg_ref_inc p (write_pte ptep (page2pa p OR PTE_P) (pm v))\<rparr>))
           }
           else Some (Some ptep, v))
        })
   }"

definition shmem_insert_entry :: "nat \<Rightarrow> u32 \<Rightarrow> u32 \<Rightarrow> vm \<Rightarrow> (int \<times> vm) option" where
  "shmem_insert_entry s addr entry v = do {
     (ptep, v) \<leftarrow> shmem_get_entry s addr True v;
     (case ptep of
        None \<Rightarrow> Some (- E_NO_MEM, v)
      | Some pt \<Rightarrow> do {
          v \<leftarrow> (if read_pte pt (pm v) \<noteq> 0 then on_mem0 (shmem_remove_entry_pte pt) v else Some v);
          v \<leftarrow> (if entry AND PTE_P \<noteq> 0 then do {
                  p \<leftarrow> pte2page entry (pm v);
                  Some (v\<lparr>pm := pg_ref_inc p (pm v)\<rparr>)
                }
                else if entry \<noteq> 0 then on_mem0 (swap_duplicate entry) v
                else Some v);
          Some (0, v\<lparr>pm := write_pte pt entry (pm v)\<rparr>)
        })
   }"

definition shmem_remove_entry :: "nat \<Rightarrow> u32 \<Rightarrow> vm \<Rightarrow> (int \<times> vm) option" where
  "shmem_remove_entry s addr v = shmem_insert_entry s addr 0 v"

end
