(* ===== verification/Vmm.thy ===== *)
theory Vmm
  imports Shmem
begin

text \<open>
  Virtual memory areas: \<open>kern/mm/vmm.c\<close>.  An area is named by its address, which is also the
  address of its node in the red-black tree.  The list of a \<open>mm_struct\<close> is sorted by start
  address; from 32 areas on a red-black tree indexes it.  \<open>vm_mm\<close> and \<open>mm\<close> pointers are addresses,
  \<open>NULL\<close> is \<open>None\<close>.
\<close>

abbreviation (input) "VM_READ \<equiv> (0x01 :: u32)"
abbreviation (input) "VM_WRITE \<equiv> (0x02 :: u32)"
abbreviation (input) "VM_EXEC \<equiv> (0x04 :: u32)"
abbreviation (input) "VM_STACK \<equiv> (0x08 :: u32)"
abbreviation (input) "VM_SHARE \<equiv> (0x10 :: u32)"
abbreviation (input) "RB_MIN_MAP_COUNT \<equiv> (32 :: int)"

definition upd_mm :: "nat \<Rightarrow> (mm_struct \<Rightarrow> mm_struct) \<Rightarrow> vm \<Rightarrow> vm" where
  "upd_mm k f v = v\<lparr>mms := (mms v)(k := f (mms v k))\<rparr>"

definition upd_vma :: "nat \<Rightarrow> (vma_struct \<Rightarrow> vma_struct) \<Rightarrow> vm \<Rightarrow> vm" where
  "upd_vma a f v = v\<lparr>vmas := (vmas v)(a := f (vmas v a))\<rparr>"

definition mm_count_set :: "nat \<Rightarrow> u32 \<Rightarrow> vm \<Rightarrow> vm" where
  "mm_count_set k c v = upd_mm k (\<lambda>mm. mm\<lparr>mm_count := atomic_set (mm_count mm) c\<rparr>) v"

definition mm_count_inc :: "nat \<Rightarrow> vm \<Rightarrow> u32 \<times> vm" where
  "mm_count_inc k v =
    (let (r, c) = atomic_add_return (mm_count (mms v k)) 1 in (r, upd_mm k (\<lambda>mm. mm\<lparr>mm_count := c\<rparr>) v))"

definition mm_count_dec :: "nat \<Rightarrow> vm \<Rightarrow> u32 \<times> vm" where
  "mm_count_dec k v =
    (let (r, c) = atomic_sub_return (mm_count (mms v k)) 1 in (r, upd_mm k (\<lambda>mm. mm\<lparr>mm_count := c\<rparr>) v))"

section \<open>Creating and destroying\<close>

definition mm_create :: "vm \<Rightarrow> nat option \<times> vm" where
  "mm_create v =
    (let (k, v) = kmalloc v
     in (case k of
           None \<Rightarrow> (None, v)
         | Some k \<Rightarrow> (Some k, upd_mm k (\<lambda>_. \<lparr>mmap_list = [], mmap_tree = None, mmap_cache = None, pgdir = 0, map_count = 0,
             swap_address = 0, mm_count = 0, brk_start = 0, brk = 0\<rparr>) v)))"

text \<open>\<open>vma_create\<close> leaves \<open>vm_mm\<close> as it finds it in the new object.\<close>

definition vma_create :: "u32 \<Rightarrow> u32 \<Rightarrow> u32 \<Rightarrow> vm \<Rightarrow> nat option \<times> vm" where
  "vma_create start end flags v =
    (let (a, v) = kmalloc v
     in (case a of
           None \<Rightarrow> (None, v)
         | Some a \<Rightarrow> (Some a, upd_vma a (\<lambda>x. x\<lparr>vm_start := start, vm_end := end, vm_flags := flags, vm_shmem := None, shmem_off := 0\<rparr>) v)))"

definition vma_destroy :: "nat \<Rightarrow> vm \<Rightarrow> vm option" where
  "vma_destroy a v =
    (if vm_flags (vmas v a) AND VM_SHARE \<noteq> 0 then do {
       s \<leftarrow> vm_shmem (vmas v a);
       let (c, v) = shmem_ref_dec s v;
       (if c = 0 then shmem_destroy s v else Some v)
     }
     else Some v)"

section \<open>Finding an area\<close>

partial_function (option) find_rb_loop :: "nat option \<Rightarrow> nat option \<Rightarrow> u32 \<Rightarrow> rb_tree \<Rightarrow> (nat \<Rightarrow> vma_struct) \<Rightarrow> nat option option" where
  "find_rb_loop node vma addr t vs =
    (case node of
       None \<Rightarrow> Some vma
     | Some tmp \<Rightarrow>
         if vm_end (vs tmp) > addr then
           (if vm_start (vs tmp) \<le> addr then Some (Some tmp)
            else find_rb_loop (rb_node_left tmp t) (Some tmp) addr t vs)
         else find_rb_loop (rb_node_right tmp t) vma addr t vs)"

definition find_vma_rb :: "rb_tree \<Rightarrow> u32 \<Rightarrow> (nat \<Rightarrow> vma_struct) \<Rightarrow> nat option option" where
  "find_vma_rb t addr vs = find_rb_loop (rb_node_root t) None addr t vs"

definition find_vma :: "nat option \<Rightarrow> u32 \<Rightarrow> vm \<Rightarrow> (nat option \<times> vm) option" where
  "find_vma mmp addr v =
    (case mmp of
       None \<Rightarrow> Some (None, v)
     | Some k \<Rightarrow> do {
         let mm = mms v k;
         vma \<leftarrow>
           (if case mmap_cache mm of None \<Rightarrow> False | Some c \<Rightarrow> vm_start (vmas v c) \<le> addr \<and> vm_end (vmas v c) > addr
            then Some (mmap_cache mm)
            else (case mmap_tree mm of
                    Some t \<Rightarrow> find_vma_rb t addr (vmas v)
                  | None \<Rightarrow> Some (List.find (\<lambda>x. addr < vm_end (vmas v x)) (mmap_list mm))));
         Some (vma, if vma \<noteq> None then upd_mm k (\<lambda>mm. mm\<lparr>mmap_cache := vma\<rparr>) v else v)
       })"

definition find_vma_intersection :: "nat option \<Rightarrow> u32 \<Rightarrow> u32 \<Rightarrow> vm \<Rightarrow> (nat option \<times> vm) option" where
  "find_vma_intersection mmp start end v = do {
     (vma, v) \<leftarrow> find_vma mmp start v;
     Some (case vma of None \<Rightarrow> None | Some a \<Rightarrow> if end \<le> vm_start (vmas v a) then None else Some a, v)
   }"

section \<open>Inserting and removing an area\<close>

definition vma_compare :: "(nat \<Rightarrow> vma_struct) \<Rightarrow> nat \<Rightarrow> nat \<Rightarrow> int" where
  "vma_compare vs a b =
    (if vm_start (vs a) < vm_start (vs b) then - 1 else if vm_start (vs a) > vm_start (vs b) then 1 else 0)"

definition check_vma_overlap :: "vma_struct \<Rightarrow> vma_struct \<Rightarrow> bool" where
  "check_vma_overlap p n \<longleftrightarrow> vm_start p < vm_end p \<and> vm_end p \<le> vm_start n \<and> vm_start n < vm_end n"

text \<open>\<open>insert_vma_rb\<close> with a non-null \<open>vma_prevp\<close>; \<open>rb_insert\<close> alone is the other case.\<close>

definition insert_vma_rb :: "nat \<Rightarrow> (nat \<Rightarrow> vma_struct) \<Rightarrow> rb_tree \<Rightarrow> (nat option \<times> rb_tree) option" where
  "insert_vma_rb a vs t = do {
     t \<leftarrow> rb_insert (vma_compare vs) a t;
     p \<leftarrow> rb_node_prev a t;
     Some (p, t)
   }"

fun build_tree :: "nat list \<Rightarrow> (nat \<Rightarrow> vma_struct) \<Rightarrow> rb_tree \<Rightarrow> rb_tree option" where
  "build_tree [] vs t = Some t"
| "build_tree (a # as) vs t = do { t \<leftarrow> rb_insert (vma_compare vs) a t; build_tree as vs t }"

text \<open>\<open>list_add_after\<close> in the list of areas; \<open>None\<close> is the list head.\<close>

fun add_after :: "nat option \<Rightarrow> nat \<Rightarrow> nat list \<Rightarrow> nat list" where
  "add_after None a xs = a # xs"
| "add_after (Some p) a xs = takeWhile (\<lambda>x. x \<noteq> p) xs @ p # a # tl (dropWhile (\<lambda>x. x \<noteq> p) xs)"

text \<open>Where the list loop of \<open>insert_vma_struct\<close> leaves \<open>le_prev\<close>.\<close>

definition list_place :: "nat \<Rightarrow> nat list \<Rightarrow> (nat \<Rightarrow> vma_struct) \<Rightarrow> nat option" where
  "list_place a xs vs =
    (let as = takeWhile (\<lambda>x. \<not> vm_start (vs x) > vm_start (vs a)) xs in if as = [] then None else Some (last as))"

text \<open>\<open>rb_tree_create\<close> calls \<open>kmalloc\<close> for the tree, \<open>nil\<close> and \<open>root\<close>; when one call fails the
  objects made so far are freed.\<close>

definition rb_tree_alloc :: "vm \<Rightarrow> rb_tree option \<times> vm" where
  "rb_tree_alloc v =
    (let (tr, v) = kmalloc v
     in case tr of
          None \<Rightarrow> (None, v)
        | Some _ \<Rightarrow>
            (let (nl, v) = kmalloc v
             in case nl of
                  None \<Rightarrow> (None, v)
                | Some nl \<Rightarrow> (let (rt, v) = kmalloc v in (rb_tree_create (map_option (\<lambda>rt. (nl, rt)) rt), v))))"

definition insert_vma_struct :: "nat \<Rightarrow> nat \<Rightarrow> vm \<Rightarrow> vm option" where
  "insert_vma_struct k a v = do {
     kassert (vm_start (vmas v a) < vm_end (vmas v a));
     (le_prev, v) \<leftarrow>
       (case mmap_tree (mms v k) of
          Some t \<Rightarrow> do {
            (p, t) \<leftarrow> insert_vma_rb a (vmas v) t;
            Some (p, upd_mm k (\<lambda>mm. mm\<lparr>mmap_tree := Some t\<rparr>) v)
          }
        | None \<Rightarrow> Some (list_place a (mmap_list (mms v k)) (vmas v), v));
     let xs = mmap_list (mms v k);
     let le_next = (case le_prev of None \<Rightarrow> list_first xs | Some p \<Rightarrow> succ_of p xs);
     kassert (case le_prev of None \<Rightarrow> True | Some p \<Rightarrow> check_vma_overlap (vmas v p) (vmas v a));
     kassert (case le_next of None \<Rightarrow> True | Some n \<Rightarrow> check_vma_overlap (vmas v a) (vmas v n));
     let v = upd_vma a (\<lambda>x. x\<lparr>vm_mm := k\<rparr>) v;
     let v = upd_mm k (\<lambda>mm. mm\<lparr>mmap_list := add_after le_prev a (mmap_list mm), map_count := map_count mm + 1\<rparr>) v;
     (if mmap_tree (mms v k) = None \<and> map_count (mms v k) \<ge> RB_MIN_MAP_COUNT then
        (let (t, v) = rb_tree_alloc v
         in case t of
              None \<Rightarrow> Some v
            | Some t \<Rightarrow> do {
                t \<leftarrow> build_tree (mmap_list (mms v k)) (vmas v) t;
                Some (upd_mm k (\<lambda>mm. mm\<lparr>mmap_tree := Some t\<rparr>) v)
              })
      else Some v)
   }"

definition remove_vma_struct :: "nat \<Rightarrow> nat \<Rightarrow> vm \<Rightarrow> vm option" where
  "remove_vma_struct k a v = do {
     kassert (k = vm_mm (vmas v a));
     v \<leftarrow> (case mmap_tree (mms v k) of
             None \<Rightarrow> Some v
           | Some t \<Rightarrow> do { t \<leftarrow> rb_delete a t; Some (upd_mm k (\<lambda>mm. mm\<lparr>mmap_tree := Some t\<rparr>) v) });
     Some (upd_mm k (\<lambda>mm. mm\<lparr>mmap_list := remove1 a (mmap_list mm),
       mmap_cache := (if mmap_cache mm = Some a then None else mmap_cache mm), map_count := map_count mm - 1\<rparr>) v)
   }"

fun destroy_vmas :: "nat list \<Rightarrow> vm \<Rightarrow> vm option" where
  "destroy_vmas [] v = Some v"
| "destroy_vmas (a # as) v = do { v \<leftarrow> vma_destroy a v; destroy_vmas as v }"

definition mm_destroy :: "nat \<Rightarrow> vm \<Rightarrow> vm option" where
  "mm_destroy k v = do {
     kassert (atomic_read (mm_count (mms v k)) = 0);
     let xs = mmap_list (mms v k);
     let v = upd_mm k (\<lambda>mm. mm\<lparr>mmap_list := []\<rparr>) v;
     destroy_vmas xs v
   }"

section \<open>Mapping and unmapping\<close>

definition mm_map :: "nat \<Rightarrow> u32 \<Rightarrow> u32 \<Rightarrow> u32 \<Rightarrow> vm \<Rightarrow> ((int \<times> nat option) \<times> vm) option" where
  "mm_map k addr len flags v =
    (let start = ROUNDDOWN addr PGSIZE; end = ROUNDUP (addr + len) PGSIZE
     in if \<not> USER_ACCESS start end then Some ((- E_INVAL, None), v)
        else do {
          (vma, v) \<leftarrow> find_vma (Some k) start v;
          (if case vma of None \<Rightarrow> False | Some a \<Rightarrow> end > vm_start (vmas v a) then Some ((- E_INVAL, None), v)
           else
             (let (vma, v) = vma_create start end (flags AND NOT VM_SHARE) v
              in case vma of
                   None \<Rightarrow> Some ((- E_NO_MEM, None), v)
                 | Some a \<Rightarrow> do { v \<leftarrow> insert_vma_struct k a v; Some ((0, Some a), v) }))
        })"

definition mm_map_shmem :: "nat \<Rightarrow> u32 \<Rightarrow> u32 \<Rightarrow> nat option \<Rightarrow> vm \<Rightarrow> ((int \<times> nat option) \<times> vm) option" where
  "mm_map_shmem k addr flags shmem v =
    (if addr mod PGSIZE \<noteq> 0 \<or> shmem = None then Some ((- E_INVAL, None), v)
     else do {
       s \<leftarrow> shmem;
       let (_, v) = shmem_ref_inc s v;
       ((ret, vma), v) \<leftarrow> mm_map k addr (sh_len (shmems v s)) flags v;
       (if ret \<noteq> 0 then (let (_, v) = shmem_ref_dec s v in Some ((ret, None), v))
        else do {
          a \<leftarrow> vma;
          Some ((0, Some a), upd_vma a (\<lambda>x. x\<lparr>vm_shmem := Some s, shmem_off := 0, vm_flags := vm_flags x OR VM_SHARE\<rparr>) v)
        })
     })"

definition vma_resize :: "nat \<Rightarrow> u32 \<Rightarrow> u32 \<Rightarrow> vm \<Rightarrow> vm option" where
  "vma_resize a start end v = do {
     kassert (start mod PGSIZE = 0 \<and> end mod PGSIZE = 0);
     kassert (vm_start (vmas v a) \<le> start \<and> start < end \<and> end \<le> vm_end (vmas v a));
     let v = (if vm_flags (vmas v a) AND VM_SHARE \<noteq> 0
              then upd_vma a (\<lambda>x. x\<lparr>shmem_off := shmem_off x + (start - vm_start x)\<rparr>) v else v);
     Some (upd_vma a (\<lambda>x. x\<lparr>vm_start := start, vm_end := end\<rparr>) v)
   }"

text \<open>The first loop of \<open>mm_unmap\<close>: the areas from \<open>a\<close> on that start below \<open>end\<close> move to
  \<open>free_list\<close>, each in front.\<close>

partial_function (option) take_loop :: "nat \<Rightarrow> nat \<Rightarrow> u32 \<Rightarrow> nat list \<Rightarrow> vm \<Rightarrow> (nat list \<times> vm) option" where
  "take_loop k a end fl v =
    (if vm_start (vmas v a) < end then do {
       let le = succ_of a (mmap_list (mms v k));
       v \<leftarrow> remove_vma_struct k a v;
       (case le of
          None \<Rightarrow> Some (a # fl, v)
        | Some b \<Rightarrow> take_loop k b end (a # fl) v)
     }
     else Some (fl, v))"

text \<open>The second loop.\<close>

definition unmap_vma :: "nat \<Rightarrow> nat \<Rightarrow> u32 \<Rightarrow> u32 \<Rightarrow> vm \<Rightarrow> vm option" where
  "unmap_vma k a start end v =
    (let un_end = vm_end (vmas v a)
     in if vm_start (vmas v a) < start then do {
          v \<leftarrow> vma_resize a (vm_start (vmas v a)) start v;
          v \<leftarrow> insert_vma_struct k a v;
          on_mem0 (unmap_range (pgdir (mms v k)) start un_end) v
        }
        else
          (let un_start = vm_start (vmas v a)
           in if end < un_end then do {
                v \<leftarrow> vma_resize a end un_end v;
                v \<leftarrow> insert_vma_struct k a v;
                on_mem0 (unmap_range (pgdir (mms v k)) un_start end) v
              }
              else do {
                v \<leftarrow> vma_destroy a v;
                on_mem0 (unmap_range (pgdir (mms v k)) un_start un_end) v
              }))"

fun unmap_vmas :: "nat \<Rightarrow> nat list \<Rightarrow> u32 \<Rightarrow> u32 \<Rightarrow> vm \<Rightarrow> vm option" where
  "unmap_vmas k [] start end v = Some v"
| "unmap_vmas k (a # as) start end v = do { v \<leftarrow> unmap_vma k a start end v; unmap_vmas k as start end v }"

definition mm_unmap :: "nat \<Rightarrow> u32 \<Rightarrow> u32 \<Rightarrow> vm \<Rightarrow> (int \<times> vm) option" where
  "mm_unmap k addr len v =
    (let start = ROUNDDOWN addr PGSIZE; end = ROUNDUP (addr + len) PGSIZE
     in if \<not> USER_ACCESS start end then Some (- E_INVAL, v)
        else do {
          (vma, v) \<leftarrow> find_vma (Some k) start v;
          (case vma of
             None \<Rightarrow> Some (0, v)
           | Some a \<Rightarrow>
               if end \<le> vm_start (vmas v a) then Some (0, v)
               else if vm_start (vmas v a) < start \<and> end < vm_end (vmas v a) then
                 (let (nvma, v) = vma_create (vm_start (vmas v a)) start (vm_flags (vmas v a)) v
                  in case nvma of
                       None \<Rightarrow> Some (- E_NO_MEM, v)
                     | Some n \<Rightarrow> do {
                         v \<leftarrow> vma_resize a end (vm_end (vmas v a)) v;
                         v \<leftarrow> insert_vma_struct k n v;
                         v \<leftarrow> on_mem0 (unmap_range (pgdir (mms v k)) start end) v;
                         Some (0, v)
                       })
               else do {
                 (fl, v) \<leftarrow> take_loop k a end [] v;
                 v \<leftarrow> unmap_vmas k fl start end v;
                 Some (0, v)
               })
        })"

fun dup_areas :: "nat \<Rightarrow> nat \<Rightarrow> nat list \<Rightarrow> vm \<Rightarrow> (int \<times> vm) option" where
  "dup_areas to from [] v = Some (0, v)"
| "dup_areas to from (a # as) v = do {
     let x = vmas v a;
     let (nvma, v) = vma_create (vm_start x) (vm_end x) (vm_flags x) v;
     (case nvma of
        None \<Rightarrow> Some (- E_NO_MEM, v)
      | Some n \<Rightarrow> do {
          let share = (vm_flags x AND VM_SHARE \<noteq> 0);
          v \<leftarrow> (if share then do {
                  s \<leftarrow> vm_shmem x;
                  let v = upd_vma n (\<lambda>y. y\<lparr>vm_shmem := Some s, shmem_off := shmem_off x\<rparr>) v;
                  Some (snd (shmem_ref_inc s v))
                }
                else Some v);
          v \<leftarrow> insert_vma_struct to n v;
          (r, v) \<leftarrow> on_mem (copy_range (pgdir (mms v to)) (pgdir (mms v from)) (vm_start x) (vm_end x) share) v;
          (if r \<noteq> 0 then Some (- E_NO_MEM, v) else dup_areas to from as v)
        })
   }"

definition dup_mmap :: "nat \<Rightarrow> nat \<Rightarrow> vm \<Rightarrow> (int \<times> vm) option" where
  "dup_mmap to from v = dup_areas to from (rev (mmap_list (mms v from))) v"

fun exit_areas :: "(u32 \<Rightarrow> u32 \<Rightarrow> mem \<Rightarrow> mem option) \<Rightarrow> nat list \<Rightarrow> vm \<Rightarrow> vm option" where
  "exit_areas f [] v = Some v"
| "exit_areas f (a # as) v = do { v \<leftarrow> on_mem0 (f (vm_start (vmas v a)) (vm_end (vmas v a))) v; exit_areas f as v }"

definition exit_mmap :: "nat \<Rightarrow> vm \<Rightarrow> vm option" where
  "exit_mmap k v = do {
     kassert (atomic_read (mm_count (mms v k)) = 0);
     v \<leftarrow> exit_areas (unmap_range (pgdir (mms v k))) (mmap_list (mms v k)) v;
     exit_areas (exit_range (pgdir (mms v k))) (mmap_list (mms v k)) v
   }"

text \<open>The loop of \<open>get_unmapped_area\<close> from the last area down; \<open>None\<close> means the list is done.\<close>

fun area_loop :: "nat list \<Rightarrow> u32 \<Rightarrow> u32 \<Rightarrow> (nat \<Rightarrow> vma_struct) \<Rightarrow> u32" where
  "area_loop [] len start vs = (if start \<ge> USERBASE then start else 0)"
| "area_loop (a # as) len start vs =
    (if start \<ge> vm_end (vs a) then start
     else if start + len > vm_start (vs a) then
       (if len \<ge> vm_start (vs a) then 0 else area_loop as len (vm_start (vs a) - len) vs)
     else area_loop as len start vs)"

definition get_unmapped_area :: "nat \<Rightarrow> u32 \<Rightarrow> vm \<Rightarrow> u32" where
  "get_unmapped_area k len v =
    (if len = 0 \<or> len > USERTOP then 0
     else area_loop (rev (mmap_list (mms v k))) len (USERTOP - len) (vmas v))"

definition mm_brk :: "nat \<Rightarrow> u32 \<Rightarrow> u32 \<Rightarrow> vm \<Rightarrow> (int \<times> vm) option" where
  "mm_brk k addr len v =
    (let start = ROUNDDOWN addr PGSIZE; end = ROUNDUP (addr + len) PGSIZE
     in if \<not> USER_ACCESS start end then Some (- E_INVAL, v)
        else do {
          (ret, v) \<leftarrow> mm_unmap k start (end - start) v;
          (if ret \<noteq> 0 then Some (ret, v)
           else do {
             let flags = VM_READ OR VM_WRITE;
             (vma, v) \<leftarrow> find_vma (Some k) (start - 1) v;
             (case List.find (\<lambda>a. vm_end (vmas v a) = start \<and> vm_flags (vmas v a) = flags) (case vma of None \<Rightarrow> [] | Some a \<Rightarrow> [a]) of
                Some a \<Rightarrow> Some (0, upd_vma a (\<lambda>x. x\<lparr>vm_end := end\<rparr>) v)
              | None \<Rightarrow>
                  (let (nvma, v) = vma_create start end flags v
                   in case nvma of
                        None \<Rightarrow> Some (- E_NO_MEM, v)
                      | Some n \<Rightarrow> do { v \<leftarrow> insert_vma_struct k n v; Some (0, v) }))
           })
        })"

section \<open>User memory\<close>

partial_function (option) check_loop :: "nat \<Rightarrow> u32 \<Rightarrow> u32 \<Rightarrow> bool \<Rightarrow> vm \<Rightarrow> (bool \<times> vm) option" where
  "check_loop k start end wr v =
    (if start < end then do {
       (vma, v) \<leftarrow> find_vma (Some k) start v;
       (case vma of
          None \<Rightarrow> Some (False, v)
        | Some a \<Rightarrow>
            if start < vm_start (vmas v a) then Some (False, v)
            else if vm_flags (vmas v a) AND (if wr then VM_WRITE else VM_READ) = 0 then Some (False, v)
            else if wr \<and> vm_flags (vmas v a) AND VM_STACK \<noteq> 0 \<and> start < vm_start (vmas v a) + PGSIZE then Some (False, v)
            else check_loop k (vm_end (vmas v a)) end wr v)
     }
     else Some (True, v))"

definition user_mem_check :: "nat option \<Rightarrow> u32 \<Rightarrow> u32 \<Rightarrow> bool \<Rightarrow> vm \<Rightarrow> (bool \<times> vm) option" where
  "user_mem_check mmp addr len wr v =
    (case mmp of
       Some k \<Rightarrow> if \<not> USER_ACCESS addr (addr + len) then Some (False, v) else check_loop k addr (addr + len) wr v
     | None \<Rightarrow> Some (KERN_ACCESS addr (addr + len), v))"

text \<open>\<open>mc\<close> is the effect of \<open>memcpy\<close> through the loaded page directory.\<close>

definition copy_from_user :: "nat option \<Rightarrow> u32 \<Rightarrow> u32 \<Rightarrow> u32 \<Rightarrow> bool \<Rightarrow> (u32 \<Rightarrow> u32 \<Rightarrow> u32 \<Rightarrow> vm \<Rightarrow> vm) \<Rightarrow> vm \<Rightarrow> (bool \<times> vm) option" where
  "copy_from_user mmp dst src len writable mc v = do {
     (ok, v) \<leftarrow> user_mem_check mmp src len writable v;
     Some (if \<not> ok then (False, v) else (True, mc dst src len v))
   }"

definition copy_to_user :: "nat option \<Rightarrow> u32 \<Rightarrow> u32 \<Rightarrow> u32 \<Rightarrow> (u32 \<Rightarrow> u32 \<Rightarrow> u32 \<Rightarrow> vm \<Rightarrow> vm) \<Rightarrow> vm \<Rightarrow> (bool \<times> vm) option" where
  "copy_to_user mmp dst src len mc v = do {
     (ok, v) \<leftarrow> user_mem_check mmp dst len True v;
     Some (if \<not> ok then (False, v) else (True, mc dst src len v))
   }"

section \<open>The page fault handler\<close>

text \<open>The access check of \<open>do_pgfault\<close>; the first two bits of the error code say whether the page was
  present and whether the access was a write.\<close>

definition fault_allowed :: "u32 \<Rightarrow> u32 \<Rightarrow> bool" where
  "fault_allowed flags err =
    (if err AND 3 = 1 then False
     else if err AND 3 = 0 then flags AND (VM_READ OR VM_EXEC) \<noteq> 0
     else flags AND VM_WRITE \<noteq> 0)"

text \<open>The branch for an empty entry.\<close>

definition fault_fresh :: "nat \<Rightarrow> nat \<Rightarrow> u32 \<Rightarrow> u32 \<Rightarrow> nat \<times> nat \<Rightarrow> vm \<Rightarrow> (int \<times> vm) option" where
  "fault_fresh k a addr perm ptep v =
    (if vm_flags (vmas v a) AND VM_SHARE = 0 then do {
       (page, v) \<leftarrow> on_mem (pgdir_alloc_page (pgdir (mms v k)) addr perm) v;
       Some (if page = None then - E_NO_MEM else 0, v)
     }
     else do {
       s \<leftarrow> vm_shmem (vmas v a);
       (sh, v) \<leftarrow> shmem_get_entry s (addr - vm_start (vmas v a) + shmem_off (vmas v a)) True v;
       (case sh of
          None \<Rightarrow> Some (- E_NO_MEM, v)
        | Some sp \<Rightarrow>
            if read_pte sp (pm v) = 0 then Some (- E_NO_MEM, v)
            else if read_pte sp (pm v) AND PTE_P \<noteq> 0 then do {
              p \<leftarrow> pa2page (read_pte sp (pm v)) (pm v);
              (_, v) \<leftarrow> on_mem (page_insert (pgdir (mms v k)) p addr perm) v;
              Some (0, v)
            }
            else do {
              v \<leftarrow> on_mem0 (swap_duplicate (read_pte ptep (pm v))) v;
              Some (0, v\<lparr>pm := write_pte ptep (read_pte sp (pm v)) (pm v)\<rparr>)
            })
     })"

text \<open>The branch for a used entry; \<open>done\<close> is the outcome of reading the swap device.\<close>

definition fault_used :: "nat \<Rightarrow> u32 \<Rightarrow> u32 \<Rightarrow> u32 \<Rightarrow> u32 \<Rightarrow> nat \<times> nat \<Rightarrow> bool \<Rightarrow> mem \<Rightarrow> (int \<times> mem) option" where
  "fault_used dir flags err addr perm ptep done m = do {
     let cow = (flags AND (VM_SHARE OR VM_WRITE) = VM_WRITE);
     let pte = read_pte ptep m;
     kassert (pte AND PTE_P = 0 \<or> err AND 2 \<noteq> 0 \<and> pte AND PTE_W = 0 \<and> cow);
     (newpage, m) \<leftarrow> (if cow then alloc_page m else Some (None, m));
     ((ret, page), m) \<leftarrow>
       (if pte AND PTE_P \<noteq> 0 then do { p \<leftarrow> pte2page pte m; Some ((- E_NO_MEM, Some p), m) }
        else swap_in_page pte done m);
     (if pte AND PTE_P = 0 \<and> ret \<noteq> 0 then do {
        m \<leftarrow> (case newpage of Some q \<Rightarrow> free_page q m | None \<Rightarrow> Some m);
        Some (ret, m)
      }
      else do {
        page \<leftarrow> page;
        let may_copy = (pte AND PTE_P \<noteq> 0 \<or> \<not> (err AND 2 = 0 \<and> cow));
        let perm = (if may_copy then perm else perm AND NOT PTE_W);
        count \<leftarrow> (if cow \<and> may_copy then do { c \<leftarrow> swap_page_count page m; Some (sint (page_ref m page) + uint c) } else Some 0);
        (if count > 1 \<and> newpage = None then Some (ret, m)
         else do {
           let copy = (count > 1);
           let m = (if copy then m\<lparr>words := (words m)(the newpage := words m page)\<rparr> else m);
           let target = (if copy then the newpage else page);
           (_, m) \<leftarrow> page_insert dir target addr perm m;
           m \<leftarrow> (if copy then Some m else (case newpage of Some q \<Rightarrow> free_page q m | None \<Rightarrow> Some m));
           Some (0, m)
         })
      })
   }"

definition do_pgfault :: "nat option \<Rightarrow> u32 \<Rightarrow> u32 \<Rightarrow> bool \<Rightarrow> vm \<Rightarrow> (int \<times> vm) option" where
  "do_pgfault mmp err addr done v = do {
     k \<leftarrow> mmp;
     (vma, v) \<leftarrow> find_vma (Some k) addr v;
     (case vma of
        None \<Rightarrow> Some (- E_INVAL, v)
      | Some a \<Rightarrow>
          if vm_start (vmas v a) > addr then Some (- E_INVAL, v)
          else if vm_flags (vmas v a) AND VM_STACK \<noteq> 0 \<and> addr < vm_start (vmas v a) + PGSIZE then Some (- E_INVAL, v)
          else if \<not> fault_allowed (vm_flags (vmas v a)) err then Some (- E_INVAL, v)
          else do {
            let perm = (if vm_flags (vmas v a) AND VM_WRITE \<noteq> 0 then PTE_U OR PTE_W else PTE_U);
            let addr = ROUNDDOWN addr PGSIZE;
            (ptep, v) \<leftarrow> on_mem (get_pte (pgdir (mms v k)) addr True) v;
            (case ptep of
               None \<Rightarrow> Some (- E_NO_MEM, v)
             | Some pt \<Rightarrow>
                 if read_pte pt (pm v) = 0 then fault_fresh k a addr perm pt v
                 else on_mem (fault_used (pgdir (mms v k)) (vm_flags (vmas v a)) err addr perm pt done) v)
          })
   }"

end
