(* ===== verification/VmSys.thy ===== *)
theory VmSys
  imports Vmm
begin

text \<open>
  What the rest of the kernel does with address spaces: paging out of areas and the loop of
  \<open>kswapd\<close> (\<open>kern/mm/swap.c\<close>), and the memory part of the system calls and of process creation
  (\<open>kern/process/proc.c\<close>): \<open>do_brk\<close>, \<open>do_mmap\<close>, \<open>do_munmap\<close>, \<open>do_shmem\<close>, \<open>copy_mm\<close> and the ELF
  loader \<open>load_icode\<close>.  A word of user memory that a call reads is an argument, one that it
  writes is part of the result; \<open>proc_mm_list\<close> is passed as a list of addresses.
\<close>

section \<open>Paging out (swap.c)\<close>

text \<open>One entry of \<open>swap_out_vma\<close>; the result is 1 when the page went out.\<close>

definition swap_out_entry :: "nat \<Rightarrow> nat \<Rightarrow> u32 \<Rightarrow> nat \<times> nat \<Rightarrow> vm \<Rightarrow> (nat \<times> vm) option" where
  "swap_out_entry k a addr ptep v = do {
     let dir = pgdir (mms v k);
     let pte = read_pte ptep (pm v);
     (if pte AND PTE_P = 0 then Some (0, v)
      else do {
        page \<leftarrow> pte2page pte (pm v);
        kassert (\<not> PageReserved (pg (pm v) page));
        (if pte AND PTE_A \<noteq> 0 then
           Some (0, v\<lparr>pm := tlb_invalidate dir addr (write_pte ptep (pte AND NOT PTE_A) (pm v))\<rparr>)
         else do {
           (ok, m) \<leftarrow>
             (if \<not> PageSwap (pg (pm v) page) then do {
                (ok, m) \<leftarrow> swap_page_add page 0 (pm v);
                (if \<not> ok then Some (False, m) else do { m \<leftarrow> swap_active_list_add page m; Some (True, m) })
              }
              else Some (True, if pte AND PTE_D \<noteq> 0 then upd_pg page SetPageDirty (pm v) else pm v));
           (if \<not> ok then Some (0, v\<lparr>pm := m\<rparr>)
            else do {
              let entry = p_index (pg m page);
              m \<leftarrow> swap_duplicate entry m;
              let m = tlb_invalidate dir addr (write_pte ptep entry (pg_ref_dec page m));
              let v = upd_mm k (\<lambda>mm. mm\<lparr>swap_address := addr + PGSIZE\<rparr>) (v\<lparr>pm := m\<rparr>);
              (if vm_flags (vmas v a) AND VM_SHARE \<noteq> 0 \<and> page_ref m page = 1 then do {
                 s \<leftarrow> vm_shmem (vmas v a);
                 let sa = addr - vm_start (vmas v a) + shmem_off (vmas v a);
                 (sp, v) \<leftarrow> shmem_get_entry s sa False v;
                 sp \<leftarrow> sp;
                 kassert (read_pte sp (pm v) \<noteq> 0);
                 (if read_pte sp (pm v) AND PTE_P \<noteq> 0
                  then do { (_, v) \<leftarrow> shmem_insert_entry s sa entry v; Some (1, v) } else Some (1, v))
               }
               else Some (1, v))
            })
         })
      })
   }"

partial_function (option) swap_out_loop :: "nat \<Rightarrow> nat \<Rightarrow> u32 \<Rightarrow> u32 \<Rightarrow> nat \<Rightarrow> nat \<Rightarrow> vm \<Rightarrow> (nat \<times> vm) option" where
  "swap_out_loop k a addr end free_count require v =
    (if addr < end \<and> require \<noteq> 0 then do {
       (ptep, m) \<leftarrow> get_pte (pgdir (mms v k)) addr False (pm v);
       (case ptep of
          None \<Rightarrow> swap_out_loop k a (ROUNDDOWN (addr + PTSIZE) PTSIZE) end free_count require (v\<lparr>pm := m\<rparr>)
        | Some pt \<Rightarrow> do {
            (n, v) \<leftarrow> swap_out_entry k a addr pt (v\<lparr>pm := m\<rparr>);
            swap_out_loop k a (addr + PGSIZE) end (free_count + n) (require - n) v
          })
     }
     else Some (free_count, v))"

definition swap_out_vma :: "nat \<Rightarrow> nat \<Rightarrow> u32 \<Rightarrow> nat \<Rightarrow> vm \<Rightarrow> (nat \<times> vm) option" where
  "swap_out_vma k a addr require v =
    (if require = 0 \<or> \<not> (addr \<ge> vm_start (vmas v a) \<and> addr < vm_end (vmas v a)) then Some (0, v)
     else swap_out_loop k a (ROUNDDOWN addr PGSIZE) (ROUNDUP (vm_end (vmas v a)) PGSIZE) 0 require v)"

text \<open>The loop of \<open>swap_out_mm\<close>: at most \<open>n\<close> areas, after the last one the first.\<close>

fun swap_out_areas :: "nat \<Rightarrow> nat \<Rightarrow> nat \<Rightarrow> u32 \<Rightarrow> nat \<Rightarrow> nat \<Rightarrow> vm \<Rightarrow> (nat \<times> vm) option" where
  "swap_out_areas 0 k a addr free_count require v = Some (free_count, v)"
| "swap_out_areas (Suc n) k a addr free_count require v = do {
     (ret, v) \<leftarrow> swap_out_vma k a addr require v;
     (if require - ret = 0 then Some (free_count + ret, v)
      else do {
        b \<leftarrow> (case succ_of a (mmap_list (mms v k)) of None \<Rightarrow> list_first (mmap_list (mms v k)) | Some b \<Rightarrow> Some b);
        swap_out_areas n k b (vm_start (vmas v b)) (free_count + ret) (require - ret) v
      })
   }"

definition swap_out_mm :: "nat \<Rightarrow> nat \<Rightarrow> vm \<Rightarrow> (nat \<times> vm) option" where
  "swap_out_mm k require v =
    (if require = 0 \<or> map_count (mms v k) = 0 then Some (0, v)
     else do {
       kassert (mmap_list (mms v k) \<noteq> []);
       let addr = swap_address (mms v k);
       (vma, v) \<leftarrow> find_vma (Some k) addr v;
       (a, addr, v) \<leftarrow>
         (case vma of
            None \<Rightarrow> do {
              a \<leftarrow> list_first (mmap_list (mms v k));
              Some (a, 0, upd_mm k (\<lambda>mm. mm\<lparr>swap_address := 0\<rparr>) v)
            }
          | Some a \<Rightarrow> Some (a, addr, v));
       kassert (addr \<le> vm_end (vmas v a));
       let addr = (if addr < vm_start (vmas v a) then vm_start (vmas v a) else addr);
       swap_out_areas (nat (map_count (mms v k) + 1)) k a addr 0 require v
     })"

text \<open>The inner loop of \<open>kswapd_main\<close>, and one turn of its outer loop with the new values of
  \<open>pressure\<close> and \<open>guard\<close>; the flag says that the waiters in \<open>try_free_pages\<close> are woken and
  \<open>kswapd\<close> goes to sleep.\<close>

fun reclaim_loop :: "nat \<Rightarrow> int \<Rightarrow> nat list \<Rightarrow> vm \<Rightarrow> (nat list \<times> vm) option" where
  "reclaim_loop 0 needs mml v = Some (mml, v)"
| "reclaim_loop (Suc n) needs mml v =
    (if needs > 0 then
       (case mml of
          [] \<Rightarrow> None
        | k # ks \<Rightarrow> do {
            (c, v) \<leftarrow> swap_out_mm k (if needs < 32 then nat needs else 32) v;
            reclaim_loop n (needs - int c) (ks @ [k]) v
          })
     else Some (mml, v))"

definition kswapd_round :: "(u32 \<Rightarrow> bool) \<Rightarrow> int \<Rightarrow> nat \<Rightarrow> nat list \<Rightarrow> vm \<Rightarrow> ((int \<times> nat \<times> bool) \<times> nat list \<times> vm) option" where
  "kswapd_round done pressure guard mml v = do {
     (mml, v) \<leftarrow>
       (if pressure > 0 then do { kassert (mml \<noteq> []); reclaim_loop 16 (pressure * 32) mml v } else Some (mml, v));
     (n, v) \<leftarrow> on_mem (page_launder done) v;
     let pressure = pressure - int n;
     v \<leftarrow> on_mem0 refill_inactive_scan v;
     Some (if pressure > 0 then ((pressure, if guard + 1 \<ge> 1000 then 0 else guard + 1, False), mml, v)
           else ((0, 0, True), mml, v))
   }"

section \<open>System calls (proc.c)\<close>

abbreviation (input) "MMAP_WRITE \<equiv> (0x100 :: u32)"
abbreviation (input) "MMAP_STACK \<equiv> (0x200 :: u32)"

text \<open>\<open>store\<close> is the user address, \<open>uval\<close> the word found there; the result carries the word that
  is stored there, if any.\<close>

definition do_brk :: "nat option \<Rightarrow> u32 \<Rightarrow> u32 \<Rightarrow> vm \<Rightarrow> ((int \<times> u32 option) \<times> vm) option" where
  "do_brk mmp store uval v = do {
     k \<leftarrow> mmp;
     (if store = 0 then Some ((- E_INVAL, None), v)
      else do {
        (ok, v) \<leftarrow> user_mem_check (Some k) store 4 True v;
        (if \<not> ok then Some ((- E_INVAL, None), v)
         else do {
           v \<leftarrow>
             (if uval < brk_start (mms v k) then Some v
              else do {
                let newbrk = ROUNDUP uval PGSIZE;
                let oldbrk = brk (mms v k);
                kassert (oldbrk mod PGSIZE = 0);
                (if newbrk = oldbrk then Some v
                 else do {
                   (fine, v) \<leftarrow>
                     (if newbrk < oldbrk then do {
                        (r, v) \<leftarrow> mm_unmap k newbrk (oldbrk - newbrk) v;
                        Some (r = 0, v)
                      }
                      else do {
                        (x, v) \<leftarrow> find_vma_intersection (Some k) oldbrk (newbrk + PGSIZE) v;
                        (if x \<noteq> None then Some (False, v)
                         else do { (r, v) \<leftarrow> mm_brk k oldbrk (newbrk - oldbrk) v; Some (r = 0, v) })
                      });
                   Some (if fine then upd_mm k (\<lambda>mm. mm\<lparr>brk := newbrk\<rparr>) v else v)
                 })
              });
           Some ((0, Some (brk (mms v k))), v)
         })
      })
   }"

definition mmap_vm_flags :: "u32 \<Rightarrow> u32" where
  "mmap_vm_flags f =
    (let r = VM_READ; r = (if f AND MMAP_WRITE \<noteq> 0 then r OR VM_WRITE else r)
     in if f AND MMAP_STACK \<noteq> 0 then r OR VM_STACK else r)"

definition do_mmap :: "nat option \<Rightarrow> u32 \<Rightarrow> u32 \<Rightarrow> u32 \<Rightarrow> u32 \<Rightarrow> vm \<Rightarrow> ((int \<times> u32 option) \<times> vm) option" where
  "do_mmap mmp store uval len mflags v = do {
     k \<leftarrow> mmp;
     (if store = 0 \<or> len = 0 then Some ((- E_INVAL, None), v)
      else do {
        (ok, v) \<leftarrow> user_mem_check (Some k) store 4 True v;
        (if \<not> ok then Some ((- E_INVAL, None), v)
         else do {
           let start = ROUNDDOWN uval PGSIZE;
           let len = ROUNDUP (uval + len) PGSIZE - start;
           let addr = (if start = 0 then get_unmapped_area k len v else start);
           (if addr = 0 then Some ((- E_NO_MEM, None), v)
            else do {
              ((r, _), v) \<leftarrow> mm_map k addr len (mmap_vm_flags mflags) v;
              Some ((r, if r = 0 then Some addr else None), v)
            })
         })
      })
   }"

definition do_munmap :: "nat option \<Rightarrow> u32 \<Rightarrow> u32 \<Rightarrow> vm \<Rightarrow> (int \<times> vm) option" where
  "do_munmap mmp addr len v = do {
     k \<leftarrow> mmp;
     (if len = 0 then Some (- E_INVAL, v) else mm_unmap k addr len v)
   }"

definition do_shmem :: "nat option \<Rightarrow> u32 \<Rightarrow> u32 \<Rightarrow> u32 \<Rightarrow> u32 \<Rightarrow> vm \<Rightarrow> ((int \<times> u32 option) \<times> vm) option" where
  "do_shmem mmp store uval len mflags v = do {
     k \<leftarrow> mmp;
     (if store = 0 \<or> len = 0 then Some ((- E_INVAL, None), v)
      else do {
        (ok, v) \<leftarrow> user_mem_check (Some k) store 4 True v;
        (if \<not> ok then Some ((- E_INVAL, None), v)
         else do {
           let start = ROUNDDOWN uval PGSIZE;
           let len = ROUNDUP (uval + len) PGSIZE - start;
           let addr = (if start = 0 then get_unmapped_area k len v else start);
           (if addr = 0 then Some ((- E_NO_MEM, None), v)
            else
              (let (s, v) = shmem_create len v
               in case s of
                    None \<Rightarrow> Some ((- E_NO_MEM, None), v)
                  | Some s \<Rightarrow> do {
                      ((r, _), v) \<leftarrow> mm_map_shmem k addr (mmap_vm_flags mflags) (Some s) v;
                      (if r \<noteq> 0 then do {
                         kassert (shmem_ref (shmems v s) = 0);
                         v \<leftarrow> shmem_destroy s v;
                         Some ((r, None), v)
                       }
                       else Some ((0, Some addr), v))
                    }))
         })
      })
   }"

section \<open>Process creation (proc.c)\<close>

text \<open>\<open>copy_mm\<close> on the address spaces; the result is the descriptor of the child.\<close>

definition vm_copy_mm :: "bool \<Rightarrow> nat option \<Rightarrow> nat \<Rightarrow> nat list \<Rightarrow> vm \<Rightarrow> ((int \<times> nat option) \<times> nat list \<times> vm) option" where
  "vm_copy_mm clone_vm oldmm boot mml v =
    (case oldmm of
       None \<Rightarrow> Some ((0, None), mml, v)
     | Some old \<Rightarrow>
         if clone_vm then Some ((0, Some old), mml, snd (mm_count_inc old v))
         else
           (let (k, v) = mm_create v
            in case k of
                 None \<Rightarrow> Some ((- E_NO_MEM, None), mml, v)
               | Some k \<Rightarrow> do {
                   ((r, dir), v) \<leftarrow> on_mem (setup_pgdir boot) v;
                   (case dir of
                      None \<Rightarrow> do { v \<leftarrow> mm_destroy k v; Some ((- E_NO_MEM, None), mml, v) }
                    | Some d \<Rightarrow> do {
                        let v = upd_mm k (\<lambda>mm. mm\<lparr>pgdir := d\<rparr>) v;
                        (ret, v) \<leftarrow> dup_mmap k old v;
                        (if ret \<noteq> 0 then do {
                           v \<leftarrow> exit_mmap k v;
                           v \<leftarrow> on_mem0 (put_pgdir d) v;
                           v \<leftarrow> mm_destroy k v;
                           Some ((ret, None), mml, v)
                         }
                         else
                           (let v = upd_mm k (\<lambda>mm. mm\<lparr>brk_start := brk_start (mms v old), brk := brk (mms v old)\<rparr>) v
                            in Some ((0, Some k), k # mml, snd (mm_count_inc k v))))
                      })
                 }))"

section \<open>The ELF loader (proc.c, elf.h)\<close>

record elfhdr =
  e_magic :: u32
  e_entry :: u32
  e_phoff :: u32
  e_phnum :: u16

record proghdr =
  p_type :: u32
  p_offset :: u32
  p_va :: u32
  p_filesz :: u32
  p_memsz :: u32
  ph_flags :: u32

text \<open>The image is a function from offsets to bytes; the fields are little endian.\<close>

definition get16 :: "(u32 \<Rightarrow> u8) \<Rightarrow> u32 \<Rightarrow> u16" where
  "get16 bin i = ucast (bin i) OR push_bit 8 (ucast (bin (i + 1)))"

definition get32 :: "(u32 \<Rightarrow> u8) \<Rightarrow> u32 \<Rightarrow> u32" where
  "get32 bin i = ucast (bin i) OR push_bit 8 (ucast (bin (i + 1))) OR push_bit 16 (ucast (bin (i + 2)))
     OR push_bit 24 (ucast (bin (i + 3)))"

definition get_elfhdr :: "(u32 \<Rightarrow> u8) \<Rightarrow> elfhdr" where
  "get_elfhdr bin = \<lparr>e_magic = get32 bin 0, e_entry = get32 bin 24, e_phoff = get32 bin 28, e_phnum = get16 bin 44\<rparr>"

definition get_proghdr :: "(u32 \<Rightarrow> u8) \<Rightarrow> u32 \<Rightarrow> proghdr" where
  "get_proghdr bin i = \<lparr>p_type = get32 bin i, p_offset = get32 bin (i + 4), p_va = get32 bin (i + 8),
     p_filesz = get32 bin (i + 16), p_memsz = get32 bin (i + 20), ph_flags = get32 bin (i + 24)\<rparr>"

text \<open>One byte of a frame, and \<open>memcpy\<close>, \<open>memset\<close> to a part of it.\<close>

definition put_byte :: "nat \<Rightarrow> u8 \<Rightarrow> (nat \<Rightarrow> u32) \<Rightarrow> nat \<Rightarrow> u32" where
  "put_byte i b w =
    (let k = i div 4; s = 8 * (i mod 4)
     in w(k := (w k AND NOT (push_bit s 0xFF)) OR push_bit s (ucast b)))"

fun put_bytes :: "nat \<Rightarrow> nat \<Rightarrow> (nat \<Rightarrow> u8) \<Rightarrow> (nat \<Rightarrow> u32) \<Rightarrow> nat \<Rightarrow> u32" where
  "put_bytes i 0 f w = w"
| "put_bytes i (Suc n) f w = put_bytes i n f (put_byte (i + n) (f n) w)"

definition fill_frame :: "nat \<Rightarrow> u32 \<Rightarrow> u32 \<Rightarrow> (nat \<Rightarrow> u8) \<Rightarrow> mem \<Rightarrow> mem" where
  "fill_frame p off n f m = m\<lparr>words := (words m)(p := put_bytes (unat off) (unat n) f (words m p))\<rparr>"

text \<open>The two loops over pages: \<open>src\<close> gives the bytes for the part that starts at \<open>from\<close>.  The
  result is \<open>None\<close> for the page when memory has run out.\<close>

partial_function (option) load_pages ::
  "nat \<Rightarrow> u32 \<Rightarrow> (u32 \<Rightarrow> nat \<Rightarrow> u8) \<Rightarrow> u32 \<Rightarrow> u32 \<Rightarrow> u32 \<Rightarrow> u32 \<Rightarrow> nat option \<Rightarrow> mem
    \<Rightarrow> ((bool \<times> u32 \<times> u32 \<times> nat option) \<times> mem) option" where
  "load_pages dir perm src start end la from page m =
    (if start < end then do {
       (page, m) \<leftarrow> pgdir_alloc_page dir la perm m;
       (case page of
          None \<Rightarrow> Some ((False, start, la, None), m)
        | Some p \<Rightarrow> do {
            let off = start - la;
            let la = la + PGSIZE;
            let n = (if end < la then PGSIZE - off - (la - end) else PGSIZE - off);
            let m = fill_frame p off n (src from) m;
            load_pages dir perm src (start + n) end la (from + n) page m
          })
     }
     else Some ((True, start, la, page), m))"

definition seg_flags :: "proghdr \<Rightarrow> u32 \<times> u32" where
  "seg_flags ph =
    (let f = 0; f = (if ph_flags ph AND 1 \<noteq> 0 then f OR VM_EXEC else f);
         f = (if ph_flags ph AND 2 \<noteq> 0 then f OR VM_WRITE else f);
         f = (if ph_flags ph AND 4 \<noteq> 0 then f OR VM_READ else f)
     in (f, if f AND VM_WRITE \<noteq> 0 then PTE_U OR PTE_W else PTE_U))"

text \<open>The body of the loop over the program headers.\<close>

definition load_segment :: "nat \<Rightarrow> (u32 \<Rightarrow> u8) \<Rightarrow> proghdr \<Rightarrow> vm \<Rightarrow> (int \<times> vm) option" where
  "load_segment k bin ph v =
    (if p_type ph \<noteq> 1 then Some (0, v)
     else if p_filesz ph > p_memsz ph then Some (- E_INVAL_ELF, v)
     else if p_filesz ph = 0 then Some (0, v)
     else do {
       let (flags, perm) = seg_flags ph;
       ((ret, _), v) \<leftarrow> mm_map k (p_va ph) (p_memsz ph) flags v;
       (if ret \<noteq> 0 then Some (ret, v)
        else do {
          let top = p_va ph + p_memsz ph;
          let v = (if brk_start (mms v k) < top then upd_mm k (\<lambda>mm. mm\<lparr>brk_start := top\<rparr>) v else v);
          let dir = pgdir (mms v k);
          ((ok, start, la, page), v) \<leftarrow>
            on_mem (load_pages dir perm (\<lambda>from i. bin (from + word_of_nat i)) (p_va ph) (p_va ph + p_filesz ph)
              (ROUNDDOWN (p_va ph) PGSIZE) (p_offset ph) None) v;
          (if \<not> ok then Some (- E_NO_MEM, v)
           else if start < la \<and> start = top then Some (0, v)
           else do {
             (start, v) \<leftarrow>
               (if start < la then do {
                  p \<leftarrow> page;
                  let off = start + PGSIZE - la;
                  let n = (if top < la then PGSIZE - off - (la - top) else PGSIZE - off);
                  let start = start + n;
                  kassert (top < la \<and> start = top \<or> top \<ge> la \<and> start = la);
                  Some (start, v\<lparr>pm := fill_frame p off n (\<lambda>_. 0) (pm v)\<rparr>)
                }
                else Some (start, v));
             ((ok, _), v) \<leftarrow> on_mem (load_pages dir perm (\<lambda>_ _. 0) start top la 0 page) v;
             Some (if ok then 0 else - E_NO_MEM, v)
           })
        })
     })"

fun load_segments :: "nat \<Rightarrow> u32 \<Rightarrow> nat \<Rightarrow> (u32 \<Rightarrow> u8) \<Rightarrow> vm \<Rightarrow> (int \<times> vm) option" where
  "load_segments 0 i k bin v = Some (0, v)"
| "load_segments (Suc n) i k bin v = do {
     (ret, v) \<leftarrow> load_segment k bin (get_proghdr bin i) v;
     (if ret \<noteq> 0 then Some (ret, v) else load_segments n (i + 32) k bin v)
   }"

abbreviation (input) "ELF_MAGIC \<equiv> (0x464C457F :: u32)"
abbreviation (input) "USTACKSIZE \<equiv> (0x100000 :: u32)"

text \<open>\<open>load_icode\<close>; on success the result holds the new descriptor and the entry point.  The trap
  frame is filled with constants, \<open>USTACKTOP\<close> and this entry point.\<close>

definition load_icode :: "nat \<Rightarrow> (u32 \<Rightarrow> u8) \<Rightarrow> nat list \<Rightarrow> vm \<Rightarrow> ((int \<times> (nat \<times> u32) option) \<times> nat list \<times> vm) option" where
  "load_icode boot bin mml v =
    (let (k, v) = mm_create v
     in case k of
          None \<Rightarrow> Some ((- E_NO_MEM, None), mml, v)
        | Some k \<Rightarrow> do {
            ((r, dir), v) \<leftarrow> on_mem (setup_pgdir boot) v;
            (case dir of
               None \<Rightarrow> do { v \<leftarrow> mm_destroy k v; Some ((- E_NO_MEM, None), mml, v) }
             | Some d \<Rightarrow> do {
                 let v = upd_mm k (\<lambda>mm. mm\<lparr>pgdir := d\<rparr>) v;
                 let elf = get_elfhdr bin;
                 (if e_magic elf \<noteq> ELF_MAGIC then do {
                    v \<leftarrow> on_mem0 (put_pgdir d) v;
                    v \<leftarrow> mm_destroy k v;
                    Some ((- E_INVAL_ELF, None), mml, v)
                  }
                  else do {
                    (ret, v) \<leftarrow> load_segments (unat (e_phnum elf)) (e_phoff elf) k bin v;
                    (ret, v) \<leftarrow>
                      (if ret \<noteq> 0 then Some (ret, v)
                       else do {
                         let v = upd_mm k (\<lambda>mm. (let b = ROUNDUP (brk_start mm) PGSIZE in mm\<lparr>brk_start := b, brk := b\<rparr>)) v;
                         ((ret, _), v) \<leftarrow> mm_map k (USERTOP - USTACKSIZE) USTACKSIZE (VM_READ OR VM_WRITE OR VM_STACK) v;
                         Some (ret, v)
                       });
                    (if ret \<noteq> 0 then do {
                       v \<leftarrow> exit_mmap k v;
                       v \<leftarrow> on_mem0 (put_pgdir d) v;
                       v \<leftarrow> mm_destroy k v;
                       Some ((ret, None), mml, v)
                     }
                     else Some ((0, Some (k, e_entry elf)), k # mml, snd (mm_count_inc k v)))
                  })
               })
          })"

end
