(* ===== verification/VmmInv.thy ===== *)
theory VmmInv
  imports Vmm RbDelete
begin

text \<open>
  Correctness of the list of areas of an address space and of its red-black index
  (\<open>kern/mm/vmm.c\<close>): the invariant \<open>mm_ok\<close>, lookup in both modes, insertion and removal.  What the
  index promises is the locale \<open>sorted_index\<close>; the red-black trees of \<open>rb_tree.c\<close> interpret it.
\<close>

section \<open>The interface of the index\<close>

text \<open>\<open>repr t xs\<close>: the index holds the elements \<open>xs\<close> in this order; \<open>outside t z\<close>: \<open>z\<close> may become an
  element.\<close>

locale sorted_index =
  fixes repr :: "'t \<Rightarrow> nat list \<Rightarrow> bool"
    and outside :: "'t \<Rightarrow> nat \<Rightarrow> bool"
    and insert :: "(nat \<Rightarrow> nat \<Rightarrow> int) \<Rightarrow> nat \<Rightarrow> 't \<Rightarrow> 't option"
    and delete :: "nat \<Rightarrow> 't \<Rightarrow> 't option"
    and prev :: "nat \<Rightarrow> 't \<Rightarrow> nat option option"
  assumes insert_law: "repr t xs \<Longrightarrow> z \<notin> set xs \<Longrightarrow> outside t z \<Longrightarrow> sorted_wrt (\<lambda>a b. 0 < cmp a z \<longrightarrow> 0 < cmp b z) xs \<Longrightarrow>
      \<exists>t'. insert cmp z t = Some t' \<and> outside t' = outside t \<and>
        repr t' (filter (\<lambda>x. cmp x z \<le> 0) xs @ z # filter (\<lambda>x. 0 < cmp x z) xs)"
    and delete_law: "repr t xs \<Longrightarrow> z \<in> set xs \<Longrightarrow> \<exists>t'. delete z t = Some t' \<and> outside t' = outside t \<and> repr t' (remove1 z xs)"
    and prev_law: "repr t (as @ x # bs) \<Longrightarrow> prev x t = Some (if as = [] then None else Some (last as))"
    and distinct_law: "repr t xs \<Longrightarrow> distinct xs"
    and member_outside: "repr t xs \<Longrightarrow> x \<in> set xs \<Longrightarrow> outside t x"
begin

text \<open>Insertion of an element at a known place, and the predecessor it then has.\<close>

lemma insert_place:
  assumes "repr t (as @ bs)" "z \<notin> set (as @ bs)" "outside t z" "\<forall>x \<in> set as. cmp x z \<le> 0" "\<forall>x \<in> set bs. 0 < cmp x z"
  shows "\<exists>t'. insert cmp z t = Some t' \<and> outside t' = outside t \<and> repr t' (as @ z # bs)
    \<and> prev z t' = Some (if as = [] then None else Some (last as))"
proof -
  have all: "sorted_wrt R ys" if "\<And>a b. a \<in> set ys \<Longrightarrow> b \<in> set ys \<Longrightarrow> R a b" for R and ys :: "nat list"
    using that by (induction ys) auto
  have "sorted_wrt (\<lambda>a b. 0 < cmp a z \<longrightarrow> 0 < cmp b z) as" "sorted_wrt (\<lambda>a b. 0 < cmp a z \<longrightarrow> 0 < cmp b z) bs"
    using assms(4,5) by (auto intro!: all)
  then have "sorted_wrt (\<lambda>a b. 0 < cmp a z \<longrightarrow> 0 < cmp b z) (as @ bs)"
    using assms(5) by (simp add: sorted_wrt_append)
  moreover have "filter (\<lambda>x. cmp x z \<le> 0) (as @ bs) = as" "filter (\<lambda>x. 0 < cmp x z) (as @ bs) = bs"
    using assms(4,5) by (force simp: filter_id_conv filter_empty_conv)+
  ultimately obtain t' where "insert cmp z t = Some t'" "outside t' = outside t" "repr t' (as @ z # bs)"
    using insert_law[OF assms(1-3)] by metis
  then show ?thesis using prev_law by blast
qed

end

definition rb_repr :: "rb_tree \<Rightarrow> nat list \<Rightarrow> bool" where
  "rb_repr t xs \<longleftrightarrow> (\<exists>W. rb_ok t W \<and> inorder W = xs)"

definition rb_outside :: "rb_tree \<Rightarrow> nat \<Rightarrow> bool" where
  "rb_outside t z \<longleftrightarrow> z \<noteq> nil t \<and> z \<noteq> root t"

interpretation rbi: sorted_index rb_repr rb_outside rb_insert rb_delete rb_node_prev
proof unfold_locales
  show "\<exists>t'. rb_insert cmp z t = Some t' \<and> rb_outside t' = rb_outside t \<and>
      rb_repr t' (filter (\<lambda>x. cmp x z \<le> 0) xs @ z # filter (\<lambda>x. 0 < cmp x z) xs)"
    if h: "rb_repr t xs" "z \<notin> set xs" "rb_outside t z" "sorted_wrt (\<lambda>a b. 0 < cmp a z \<longrightarrow> 0 < cmp b z) xs" for t xs z cmp
  proof -
    obtain W where W: "rb_ok t W" "inorder W = xs" using h(1) unfolding rb_repr_def by blast
    have "z \<notin> set_tree W" using h(2) W(2) by auto
    then obtain t' W' where "rb_insert cmp z t = Some t'" "rb_ok t' W'" "nil t' = nil t" "root t' = root t"
      "inorder W' = filter (\<lambda>x. cmp x z \<le> 0) (inorder W) @ z # filter (\<lambda>x. 0 < cmp x z) (inorder W)"
      using insert_ok[OF W(1), of z cmp] h(3,4) W(2) by (auto simp: rb_outside_def)
    then show ?thesis using W(2) by (auto simp: rb_repr_def rb_outside_def fun_eq_iff)
  qed
  show "\<exists>t'. rb_delete z t = Some t' \<and> rb_outside t' = rb_outside t \<and> rb_repr t' (remove1 z xs)"
    if h: "rb_repr t xs" "z \<in> set xs" for t xs z
  proof -
    obtain W where W: "rb_ok t W" "inorder W = xs" using h(1) unfolding rb_repr_def by blast
    have "z \<in> set_tree W" using h(2) W(2) by auto
    then obtain t' V where "rb_delete z t = Some t'" "rb_ok t' V" "inorder V = remove1 z (inorder W)" "nil t' = nil t" "root t' = root t"
      using delete_ok[OF W(1)] by blast
    then show ?thesis using W(2) by (auto simp: rb_repr_def rb_outside_def fun_eq_iff)
  qed
  show "rb_node_prev x t = Some (if as = [] then None else Some (last as))" if "rb_repr t (as @ x # bs)" for t as x bs
    using that neighbours_ok unfolding rb_repr_def by blast
  show "distinct xs" if "rb_repr t xs" for t xs
    using that by (auto simp: rb_repr_def rb_ok_def rbt_def)
  show "rb_outside t x" if "rb_repr t xs" "x \<in> set xs" for t xs x
    using that is_tree_nodes by (fastforce simp: rb_repr_def rb_ok_def rbt_def rb_outside_def)
qed

section \<open>Areas and the invariant\<close>

definition areas_ok :: "(nat \<Rightarrow> vma_struct) \<Rightarrow> nat list \<Rightarrow> bool" where
  "areas_ok vs xs \<longleftrightarrow> sorted_wrt (\<lambda>a b. vm_end (vs a) \<le> vm_start (vs b)) xs \<and> (\<forall>a \<in> set xs. vm_start (vs a) < vm_end (vs a))"

definition heap_set :: "vm \<Rightarrow> nat set" where
  "heap_set v = {a. Some a \<in> set (heap v)}"

definition heap_ok :: "vm \<Rightarrow> bool" where
  "heap_ok v \<longleftrightarrow> distinct (filter (\<lambda>x. x \<noteq> None) (heap v))"

text \<open>A consistent descriptor: sorted disjoint areas that know their descriptor, the index and the
  cache agree with the list, the count is its length; what \<open>kmalloc\<close> returns later is new.\<close>

definition index_ok :: "vm \<Rightarrow> nat \<Rightarrow> bool" where
  "index_ok v k \<longleftrightarrow> (\<forall>t. mmap_tree (mms v k) = Some t \<longrightarrow> rb_repr t (mmap_list (mms v k)) \<and> (\<forall>a \<in> heap_set v. rb_outside t a))"

definition mm_ok :: "vm \<Rightarrow> nat \<Rightarrow> bool" where
  "mm_ok v k \<longleftrightarrow> areas_ok (vmas v) (mmap_list (mms v k)) \<and> (\<forall>a \<in> set (mmap_list (mms v k)). vm_mm (vmas v a) = k)
     \<and> index_ok v k \<and> (\<forall>c. mmap_cache (mms v k) = Some c \<longrightarrow> c \<in> set (mmap_list (mms v k)))
     \<and> map_count (mms v k) = int (length (mmap_list (mms v k)))
     \<and> heap_ok v \<and> heap_set v \<inter> set (mmap_list (mms v k)) = {}"

lemma areas_simps [simp]:
  "areas_ok vs []"
  "areas_ok vs (xs @ ys) \<longleftrightarrow> areas_ok vs xs \<and> areas_ok vs ys \<and> (\<forall>a \<in> set xs. \<forall>b \<in> set ys. vm_end (vs a) \<le> vm_start (vs b))"
  "areas_ok vs (a # xs) \<longleftrightarrow> vm_start (vs a) < vm_end (vs a) \<and> areas_ok vs xs \<and> (\<forall>b \<in> set xs. vm_end (vs a) \<le> vm_start (vs b))"
  by (auto simp: areas_ok_def sorted_wrt_append)

lemma areas_distinct: "areas_ok vs xs \<Longrightarrow> distinct xs"
  by (induction xs) auto

text \<open>The first area that ends above the address.\<close>

definition above :: "(nat \<Rightarrow> vma_struct) \<Rightarrow> u32 \<Rightarrow> nat list \<Rightarrow> nat option" where
  "above vs addr xs = List.find (\<lambda>x. addr < vm_end (vs x)) xs"

lemma find_append: "List.find P (xs @ ys) = (case List.find P xs of None \<Rightarrow> List.find P ys | Some x \<Rightarrow> Some x)"
  by (induction xs) auto

lemma find_none: "(\<And>x. x \<in> set xs \<Longrightarrow> \<not> P x) \<Longrightarrow> List.find P xs = None"
  by (simp add: find_None_iff)

lemma above_hit:
  assumes "areas_ok vs (as @ x # bs)" "vm_start (vs x) \<le> addr" "addr < vm_end (vs x)"
  shows "above vs addr (as @ x # bs) = Some x"
proof -
  have "\<not> addr < vm_end (vs a)" if "a \<in> set as" for a
    using that assms(1,2) by (auto simp: not_less intro: order_trans)
  then have "List.find (\<lambda>x. addr < vm_end (vs x)) as = None" by (rule find_none)
  then show ?thesis using assms(3) by (simp add: above_def find_append)
qed

lemma above_left: "addr < vm_end (vs x) \<Longrightarrow> above vs addr (as @ x # bs) = (case above vs addr as of None \<Rightarrow> Some x | r \<Rightarrow> r)"
  by (auto simp: above_def find_append split: option.splits)

lemma above_right:
  assumes "areas_ok vs (as @ x # bs)" "\<not> addr < vm_end (vs x)"
  shows "above vs addr (as @ x # bs) = above vs addr bs"
proof -
  have "\<not> addr < vm_end (vs a)" if "a \<in> set as" for a
    using that assms by (auto simp: not_less intro: order_trans dest: less_imp_le)
  then have "List.find (\<lambda>x. addr < vm_end (vs x)) as = None" by (rule find_none)
  then show ?thesis using assms(2) by (simp add: above_def find_append)
qed

lemma find_rb_loop_ok:
  assumes "is_tree t p T" "areas_ok vs (inorder T)"
  shows "find_rb_loop (or_null t (tnode t T)) w addr t vs = Some (case above vs addr (inorder T) of None \<Rightarrow> w | r \<Rightarrow> r)"
  using assms
proof (induction T arbitrary: p w)
  case Leaf
  then show ?case by (subst find_rb_loop.simps) (simp add: or_null_def above_def)
next
  case (Node l x r)
  have t: "is_tree t x l" "is_tree t x r" "kid t DL x = tnode t l" "kid t DR x = tnode t r" "x \<noteq> nil t"
    using Node.prems(1) by auto
  have a: "areas_ok vs (inorder l)" "areas_ok vs (inorder r)" using Node.prems(2) by auto
  have o: "areas_ok vs (inorder l @ x # inorder r)" using Node.prems(2) by simp
  show ?case
  proof (cases "addr < vm_end (vs x)")
    case False
    show ?thesis using t False Node.IH(2)[OF t(2) a(2)] above_right[of vs "inorder l" x "inorder r" addr] o
      by (subst find_rb_loop.simps) (simp add: or_null_def rb_node_right_def)
  next
    case lt: True
    show ?thesis
    proof (cases "vm_start (vs x) \<le> addr")
      case True
      show ?thesis using t lt True above_hit[of vs "inorder l" x "inorder r" addr] o by (subst find_rb_loop.simps) (simp add: or_null_def)
    next
      case False
      show ?thesis using t lt False Node.IH(1)[OF t(1) a(1)] above_left[of addr vs x "inorder l" "inorder r"]
        by (subst find_rb_loop.simps) (simp add: or_null_def rb_node_left_def split: option.splits)
    qed
  qed
qed

lemma find_vma_rb_ok:
  assumes "rb_repr t xs" "areas_ok vs xs"
  shows "find_vma_rb t addr vs = Some (above vs addr xs)"
proof -
  obtain W where W: "rb_ok t W" "inorder W = xs" using assms(1) by (auto simp: rb_repr_def)
  then have "is_tree t (root t) W" "kid t DL (root t) = tnode t W" by (auto simp: rb_ok_def rbt_def)
  then show ?thesis using find_rb_loop_ok[of t "root t" W vs None addr] W assms(2)
    by (simp add: find_vma_rb_def rb_node_root_def split: option.splits)
qed

text \<open>\<open>find_vma\<close> in either mode; only the cache changes.\<close>

definition set_cache :: "nat \<Rightarrow> nat option \<Rightarrow> vm \<Rightarrow> vm" where
  "set_cache k r v = (if r = None then v else upd_mm k (\<lambda>mm. mm\<lparr>mmap_cache := r\<rparr>) v)"

lemma find_vma_ok:
  assumes "mm_ok v k"
  shows "find_vma (Some k) addr v = Some (above (vmas v) addr (mmap_list (mms v k)), set_cache k (above (vmas v) addr (mmap_list (mms v k))) v)"
proof -
  let ?xs = "mmap_list (mms v k)"
  have ar: "areas_ok (vmas v) ?xs" using assms by (simp add: mm_ok_def)
  show ?thesis
  proof (cases "case mmap_cache (mms v k) of None \<Rightarrow> False | Some c \<Rightarrow> vm_start (vmas v c) \<le> addr \<and> vm_end (vmas v c) > addr")
    case True
    then obtain c where c: "mmap_cache (mms v k) = Some c" "vm_start (vmas v c) \<le> addr" "addr < vm_end (vmas v c)"
      by (auto split: option.splits)
    then have "c \<in> set ?xs" using assms by (simp add: mm_ok_def)
    then obtain as bs where xs: "?xs = as @ c # bs" by (meson split_list)
    have "above (vmas v) addr ?xs = Some c" using above_hit[of "vmas v" as c bs addr] c(2,3) ar unfolding xs by blast
    then show ?thesis using c by (simp add: find_vma_def set_cache_def)
  next
    case False
    moreover have "find_vma_rb t addr (vmas v) = Some (above (vmas v) addr ?xs)" if "mmap_tree (mms v k) = Some t" for t
      using find_vma_rb_ok[OF _ ar] assms that by (auto simp: mm_ok_def index_ok_def)
    ultimately show ?thesis
      by (auto simp: find_vma_def set_cache_def above_def[symmetric] Let_def split: option.splits)
  qed
qed

section \<open>Insertion\<close>

lemma place_split:
  assumes "areas_ok vs xs" "vm_start (vs a) < vm_end (vs a)"
    and clear: "\<forall>b \<in> set xs. vm_end (vs b) \<le> vm_start (vs a) \<or> vm_end (vs a) \<le> vm_start (vs b)"
  shows "\<exists>as bs. xs = as @ bs \<and> areas_ok vs (as @ a # bs) \<and> (\<forall>x \<in> set as. vm_start (vs x) \<le> vm_start (vs a))
    \<and> (\<forall>x \<in> set bs. vm_start (vs a) < vm_start (vs x)) \<and> list_place a xs vs = (if as = [] then None else Some (last as))"
proof -
  let ?P = "\<lambda>x. \<not> vm_start (vs x) > vm_start (vs a)"
  let ?as = "takeWhile ?P xs" and ?bs = "dropWhile ?P xs"
  have xs: "xs = ?as @ ?bs" by simp
  have "areas_ok vs (?as @ ?bs)" using assms(1) by simp
  then have ok: "areas_ok vs ?as" "areas_ok vs ?bs" and cross: "\<forall>x \<in> set ?as. \<forall>y \<in> set ?bs. vm_end (vs x) \<le> vm_start (vs y)"
    unfolding areas_simps by blast+
  have as: "vm_end (vs x) \<le> vm_start (vs a)" "vm_start (vs x) \<le> vm_start (vs a)" if "x \<in> set ?as" for x
  proof -
    have x: "x \<in> set xs" "vm_start (vs x) \<le> vm_start (vs a)" using that set_takeWhileD by (fastforce simp: not_less)+
    then show "vm_end (vs x) \<le> vm_start (vs a)" using clear assms(2) by fastforce
    show "vm_start (vs x) \<le> vm_start (vs a)" by (rule x)
  qed
  have bs: "vm_end (vs a) \<le> vm_start (vs x)" if "x \<in> set ?bs" for x
  proof (cases ?bs)
    case (Cons h ts)
    have h: "vm_start (vs a) < vm_start (vs h)" "h \<in> set xs" "vm_start (vs h) < vm_end (vs h)"
      using Cons hd_dropWhile[of ?P xs] set_dropWhileD[of h ?P xs] ok(2) by auto
    then have "vm_end (vs a) \<le> vm_start (vs h)" using clear by fastforce
    moreover have "x = h \<or> vm_end (vs h) \<le> vm_start (vs x)" using ok(2) that Cons by auto
    ultimately show ?thesis using h(3) by fastforce
  next
    case Nil
    then show ?thesis using that by (metis empty_iff empty_set)
  qed
  have ins: "areas_ok vs (?as @ a # ?bs)"
  proof -
    obtain cs ds where e: "?as = cs" "?bs = ds" by blast
    show ?thesis unfolding e using ok as(1) bs cross assms(2) unfolding e by simp
  qed
  show ?thesis
  proof (rule exI[of _ ?as], rule exI[of _ ?bs], intro conjI)
    show "xs = ?as @ ?bs" by (rule xs)
    show "areas_ok vs (?as @ a # ?bs)" by (rule ins)
    show "\<forall>x \<in> set ?as. vm_start (vs x) \<le> vm_start (vs a)" using as(2) by blast
    show "\<forall>x \<in> set ?bs. vm_start (vs a) < vm_start (vs x)" by (intro ballI) (rule less_le_trans[OF assms(2) bs])
    show "list_place a xs vs = (if ?as = [] then None else Some (last ?as))" by (simp only: list_place_def Let_def)
  qed
qed

lemma place_neighbours:
  assumes "distinct (as @ bs)"
  shows "(case if as = [] then None else Some (last as) of None \<Rightarrow> list_first (as @ bs) | Some p \<Rightarrow> succ_of p (as @ bs)) = list_first bs"
    "add_after (if as = [] then None else Some (last as)) a (as @ bs) = as @ a # bs"
proof -
  have s: "succ_of p (cs @ p # bs) = list_first bs" if "p \<notin> set cs" for p cs
    using that by (induction cs) (auto simp: list_first_def split: list.splits)
  have t: "takeWhile (\<lambda>x. x \<noteq> p) (cs @ p # bs) = cs" "dropWhile (\<lambda>x. x \<noteq> p) (cs @ p # bs) = p # bs" if "p \<notin> set cs" for p cs
    using that by (induction cs) auto
  show "(case if as = [] then None else Some (last as) of None \<Rightarrow> list_first (as @ bs) | Some p \<Rightarrow> succ_of p (as @ bs)) = list_first bs"
    "add_after (if as = [] then None else Some (last as)) a (as @ bs) = as @ a # bs"
    using assms s[of "last as" "butlast as"] t[of "last as" "butlast as"]
    by (cases as rule: rev_cases; auto)+
qed

lemma overlap_checks:
  assumes "areas_ok vs (as @ a # bs)"
  shows "case if as = [] then None else Some (last as) of None \<Rightarrow> True | Some p \<Rightarrow> check_vma_overlap (vs p) (vs a)"
    "case list_first bs of None \<Rightarrow> True | Some n \<Rightarrow> check_vma_overlap (vs a) (vs n)"
  using assms by (auto simp: check_vma_overlap_def list_first_def areas_ok_def sorted_wrt_append split: list.splits)

lemma compare_sign: "vma_compare vs x a \<le> 0 \<longleftrightarrow> vm_start (vs x) \<le> vm_start (vs a)" "0 < vma_compare vs x a \<longleftrightarrow> vm_start (vs a) < vm_start (vs x)"
  by (auto simp: vma_compare_def)

lemma build_tree_ok:
  assumes "rb_repr t ys" "areas_ok vs (ys @ zs)" "\<forall>z \<in> set zs. rb_outside t z"
  shows "\<exists>t'. build_tree zs vs t = Some t' \<and> rb_repr t' (ys @ zs) \<and> rb_outside t' = rb_outside t"
  using assms
proof (induction zs arbitrary: ys t)
  case (Cons z zs)
  have "distinct (ys @ z # zs)" using Cons.prems(2) by (rule areas_distinct)
  then have z: "z \<notin> set ys" by simp
  have le: "vma_compare vs x z \<le> 0" if "x \<in> set ys" for x
  proof -
    have "vm_end (vs x) \<le> vm_start (vs z)" "vm_start (vs x) < vm_end (vs x)"
      using Cons.prems(2) that by (simp, simp add: areas_ok_def)
    then show ?thesis unfolding compare_sign by (meson less_imp_le order_trans)
  qed
  obtain t' where t': "rb_insert (vma_compare vs) z t = Some t'" "rb_outside t' = rb_outside t" "rb_repr t' (ys @ [z])"
    using rbi.insert_place[of t ys "[]" z "vma_compare vs"] Cons.prems(1,3) z le by auto
  have "areas_ok vs ((ys @ [z]) @ zs)" "\<forall>z \<in> set zs. rb_outside t' z" using Cons.prems(2,3) t'(2) by auto
  from Cons.IH[OF t'(3) this] show ?case using t'(1,2) by simp
qed simp

lemma fresh_tree: "nl \<noteq> rt \<Longrightarrow> \<exists>t. rb_tree_create (Some (nl, rt)) = Some t \<and> rb_repr t [] \<and> (\<forall>z. rb_outside t z \<longleftrightarrow> z \<noteq> nl \<and> z \<noteq> rt)"
  by (auto simp: rb_tree_create_def rb_repr_def rb_ok_def rbt_def rb_outside_def intro!: exI[of _ Leaf])

lemma heap_pop:
  assumes "heap_ok v" "kmalloc v = (r, v')"
  shows "v' = v\<lparr>heap := heap v'\<rparr>" "heap_ok v'" "heap_set v' \<subseteq> heap_set v" "set (heap v') \<subseteq> set (heap v)" "r = Some a \<Longrightarrow> a \<in> heap_set v \<and> a \<notin> heap_set v'"
  using assms by (auto simp: kmalloc_def heap_ok_def heap_set_def split: list.splits if_splits)

text \<open>What is left of the heap after an allocation of a tree, and the tree.\<close>

lemma rb_tree_alloc_ok:
  assumes "heap_ok v" "rb_tree_alloc v = (r, v')"
  shows "v' = v\<lparr>heap := heap v'\<rparr> \<and> heap_ok v' \<and> heap_set v' \<subseteq> heap_set v \<and>
    (\<forall>t. r = Some t \<longrightarrow> rb_repr t [] \<and> (\<forall>z. z \<notin> heap_set v \<longrightarrow> rb_outside t z) \<and> (\<forall>z \<in> heap_set v'. rb_outside t z))"
proof -
  obtain r1 v1 where 1: "kmalloc v = (r1, v1)" by fastforce
  obtain r2 v2 where 2: "kmalloc v1 = (r2, v2)" by fastforce
  obtain r3 v3 where 3: "kmalloc v2 = (r3, v3)" by fastforce
  note h1 = heap_pop[OF assms(1) 1]
  note h2 = heap_pop[OF h1(2) 2]
  note h3 = heap_pop[OF h2(2) 3]
  show ?thesis
  proof (cases "r1 = None \<or> r2 = None \<or> r3 = None")
    case True
    have none: "rb_tree_create None = None" by (simp add: rb_tree_create_def)
    then have "r = None \<and> (v' = v1 \<or> v' = v2 \<or> v' = v3)"
      using assms(2) 1 2 3 True by (auto simp: rb_tree_alloc_def split: option.splits)
    moreover have "v2 = v\<lparr>heap := heap v2\<rparr>" "v3 = v\<lparr>heap := heap v3\<rparr>" using h1(1) h2(1) h3(1) by (metis vm.surjective vm.update_convs(6))+
    ultimately show ?thesis using h1 h2 h3 by blast
  next
    case False
    then obtain tr nl rt where a: "r1 = Some tr" "r2 = Some nl" "r3 = Some rt" by auto
    have n: "nl \<in> heap_set v1" "nl \<notin> heap_set v2" "rt \<in> heap_set v2" "rt \<notin> heap_set v3" using h2(5) h3(5) a by auto
    then have "nl \<noteq> rt" by auto
    from fresh_tree[OF this] obtain t where t: "rb_tree_create (Some (nl, rt)) = Some t" "rb_repr t []"
      "\<And>z. rb_outside t z \<longleftrightarrow> z \<noteq> nl \<and> z \<noteq> rt" by blast
    have r: "r = Some t" "v' = v3" using assms(2) 1 2 3 a t(1) by (auto simp: rb_tree_alloc_def)
    have "v3 = v\<lparr>heap := heap v3\<rparr>" using h1(1) h2(1) h3(1) by (metis vm.surjective vm.update_convs(6))
    then show ?thesis using r t n h1(3) h2(3) h3(2,3) by blast
  qed
qed

lemma areas_cong: "(\<And>x. x \<in> set xs \<Longrightarrow> vm_start (vs' x) = vm_start (vs x) \<and> vm_end (vs' x) = vm_end (vs x)) \<Longrightarrow> areas_ok vs' xs \<longleftrightarrow> areas_ok vs xs"
  by (induction xs) auto

text \<open>An address that no index uses as a sentinel and that will not be handed out again.\<close>

definition usable :: "vm \<Rightarrow> nat \<Rightarrow> nat \<Rightarrow> bool" where
  "usable v k z \<longleftrightarrow> z \<notin> heap_set v \<and> (\<forall>t. mmap_tree (mms v k) = Some t \<longrightarrow> rb_outside t z)"

text \<open>Where \<open>insert_vma_struct\<close> links the new area, in both modes, and the index it leaves.\<close>

lemma place_step:
  assumes "mm_ok v k" "a \<notin> set (mmap_list (mms v k))" "\<And>t. mmap_tree (mms v k) = Some t \<Longrightarrow> rb_outside t a"
    and xs: "mmap_list (mms v k) = as @ bs"
    and cmp: "\<forall>x \<in> set as. vm_start (vmas v x) \<le> vm_start (vmas v a)" "\<forall>x \<in> set bs. vm_start (vmas v a) < vm_start (vmas v x)"
    and lp: "list_place a (as @ bs) (vmas v) = (if as = [] then None else Some (last as))"
  shows "\<exists>T. (case mmap_tree (mms v k) of
          Some t \<Rightarrow> do {
            (p, t) \<leftarrow> insert_vma_rb a (vmas v) t;
            Some (p, upd_mm k (\<lambda>mm. mm\<lparr>mmap_tree := Some t\<rparr>) v)
          }
        | None \<Rightarrow> Some (list_place a (mmap_list (mms v k)) (vmas v), v))
      = Some (if as = [] then None else Some (last as), upd_mm k (\<lambda>mm. mm\<lparr>mmap_tree := T\<rparr>) v)
    \<and> (T = None \<longleftrightarrow> mmap_tree (mms v k) = None)
    \<and> (\<forall>t'. T = Some t' \<longrightarrow> rb_repr t' (as @ a # bs) \<and> (\<forall>z \<in> heap_set v. rb_outside t' z) \<and> (\<forall>z. usable v k z \<longrightarrow> rb_outside t' z))"
proof (cases "mmap_tree (mms v k)")
  case None
  then have "upd_mm k (\<lambda>mm. mm\<lparr>mmap_tree := None\<rparr>) v = v" by (simp add: upd_mm_def fun_upd_idem)
  then show ?thesis using None lp xs by (intro exI[of _ None]) simp
next
  case (Some t)
  then have t: "rb_repr t (as @ bs)" "\<forall>z \<in> heap_set v. rb_outside t z" using assms(1) xs by (auto simp: mm_ok_def index_ok_def)
  obtain t' where "rb_insert (vma_compare (vmas v)) a t = Some t'" "rb_outside t' = rb_outside t" "rb_repr t' (as @ a # bs)"
    "rb_node_prev a t' = Some (if as = [] then None else Some (last as))"
    using rbi.insert_place[OF t(1), of a "vma_compare (vmas v)"] assms(2,3) xs cmp Some by (auto simp: compare_sign)
  then show ?thesis using Some t(2) by (intro exI[of _ "Some t'"]) (simp add: insert_vma_rb_def usable_def)
qed

definition insert_mm :: "nat list \<Rightarrow> rb_tree option \<Rightarrow> mm_struct \<Rightarrow> mm_struct" where
  "insert_mm xs T mm = mm\<lparr>mmap_tree := T, mmap_list := xs, map_count := map_count mm + 1\<rparr>"

lemma insert_mm_tree: "(insert_mm xs T mm)\<lparr>mmap_tree := T'\<rparr> = insert_mm xs T' mm"
  by (cases mm) (simp add: insert_mm_def)

lemma insert_vma_ok:
  assumes ok: "mm_ok v k" and new: "a \<notin> set (mmap_list (mms v k))" and us: "usable v k a"
    and a: "vm_start (vmas v a) < vm_end (vmas v a)"
    and clear: "\<forall>b \<in> set (mmap_list (mms v k)). vm_end (vmas v b) \<le> vm_start (vmas v a) \<or> vm_end (vmas v a) \<le> vm_start (vmas v b)"
  shows "\<exists>as bs T h. insert_vma_struct k a v = Some (v\<lparr>vmas := (vmas v)(a := (vmas v a)\<lparr>vm_mm := k\<rparr>),
      mms := (mms v)(k := insert_mm (as @ a # bs) T (mms v k)), heap := h\<rparr>) \<and> mmap_list (mms v k) = as @ bs
    \<and> mm_ok (v\<lparr>vmas := (vmas v)(a := (vmas v a)\<lparr>vm_mm := k\<rparr>), mms := (mms v)(k := insert_mm (as @ a # bs) T (mms v k)), heap := h\<rparr>) k
    \<and> {z. Some z \<in> set h} \<subseteq> heap_set v \<and> (\<forall>t z. T = Some t \<longrightarrow> usable v k z \<longrightarrow> rb_outside t z)"
proof -
  have out: "\<And>t. mmap_tree (mms v k) = Some t \<Longrightarrow> rb_outside t a" and nh: "a \<notin> heap_set v" using us by (auto simp: usable_def)
  have ar: "areas_ok (vmas v) (mmap_list (mms v k))" using ok by (simp add: mm_ok_def)
  obtain as bs where xs: "mmap_list (mms v k) = as @ bs" and ar2: "areas_ok (vmas v) (as @ a # bs)"
    and cmp: "\<forall>x \<in> set as. vm_start (vmas v x) \<le> vm_start (vmas v a)" "\<forall>x \<in> set bs. vm_start (vmas v a) < vm_start (vmas v x)"
    and lp: "list_place a (mmap_list (mms v k)) (vmas v) = (if as = [] then None else Some (last as))"
    using place_split[OF ar a clear] by blast
  obtain T where T: "(case mmap_tree (mms v k) of
          Some t \<Rightarrow> do {
            (p, t) \<leftarrow> insert_vma_rb a (vmas v) t;
            Some (p, upd_mm k (\<lambda>mm. mm\<lparr>mmap_tree := Some t\<rparr>) v)
          }
        | None \<Rightarrow> Some (list_place a (mmap_list (mms v k)) (vmas v), v))
      = Some (if as = [] then None else Some (last as), upd_mm k (\<lambda>mm. mm\<lparr>mmap_tree := T\<rparr>) v)"
    "\<forall>t'. T = Some t' \<longrightarrow> rb_repr t' (as @ a # bs) \<and> (\<forall>z \<in> heap_set v. rb_outside t' z) \<and> (\<forall>z. usable v k z \<longrightarrow> rb_outside t' z)"
    using place_step[OF ok new(1) out xs cmp lp[unfolded xs]] by blast
  let ?vs = "(vmas v)(a := (vmas v a)\<lparr>vm_mm := k\<rparr>)"
  let ?st = "\<lambda>T h. v\<lparr>vmas := ?vs, mms := (mms v)(k := insert_mm (as @ a # bs) T (mms v k)), heap := h\<rparr>"
  have dist: "distinct (as @ bs)" using areas_distinct[OF ar] xs by simp
  note pn = place_neighbours[OF dist] and oc = overlap_checks[OF ar2]
  let ?v2 = "?st T (heap v)"
  have v2: "upd_mm k (\<lambda>mm. mm\<lparr>mmap_list := as @ a # bs, map_count := map_count mm + 1\<rparr>)
      (upd_vma a (\<lambda>x. x\<lparr>vm_mm := k\<rparr>) (upd_mm k (\<lambda>mm. mm\<lparr>mmap_tree := T\<rparr>) v)) = ?v2"
    by (simp add: upd_mm_def upd_vma_def insert_mm_def)
  have run: "insert_vma_struct k a v =
     (if T = None \<and> map_count (mms v k) + 1 \<ge> RB_MIN_MAP_COUNT then
        (let (t, v) = rb_tree_alloc ?v2
         in case t of
              None \<Rightarrow> Some v
            | Some t \<Rightarrow> do {
                t \<leftarrow> build_tree (mmap_list (mms v k)) (vmas v) t;
                Some (upd_mm k (\<lambda>mm. mm\<lparr>mmap_tree := Some t\<rparr>) v)
              })
      else Some ?v2)"
  proof -
    let ?u = "upd_mm k (\<lambda>mm. mm\<lparr>mmap_tree := T\<rparr>) v"
    have u: "mmap_list (mms ?u k) = as @ bs" "vmas ?u = vmas v" by (simp_all add: upd_mm_def xs)
    have ka: "kassert (vm_start (vmas v a) < vm_end (vmas v a)) = Some ()" using a by simp
    have add: "upd_mm k (\<lambda>mm. mm\<lparr>mmap_list := add_after (if as = [] then None else Some (last as)) a (mmap_list mm), map_count := map_count mm + 1\<rparr>)
      (upd_vma a (\<lambda>x. x\<lparr>vm_mm := k\<rparr>) ?u) = ?v2"
      unfolding v2[symmetric] by (simp add: upd_mm_def upd_vma_def xs pn(2))
    have f: "mmap_tree (mms ?v2 k) = T" "map_count (mms ?v2 k) = map_count (mms v k) + 1" by (simp_all add: insert_mm_def)
    show ?thesis
      unfolding insert_vma_struct_def T(1) ka Option.bind.bind_lunit prod.case u Let_def pn(1) kassert_True
      using oc by (simp only: add f kassert_True Option.bind.bind_lunit)
  qed
  have st: "mm_ok (?st T' h) k" if "\<forall>t. T' = Some t \<longrightarrow> rb_repr t (as @ a # bs) \<and> (\<forall>z. Some z \<in> set h \<longrightarrow> rb_outside t z)"
    "{z. Some z \<in> set h} \<subseteq> heap_set v" "heap_ok (v\<lparr>heap := h\<rparr>)" for T' h
  proof -
    have "areas_ok ?vs (as @ a # bs) \<longleftrightarrow> areas_ok (vmas v) (as @ a # bs)" by (rule areas_cong) simp
    then show ?thesis
      using that ok new nh ar2 xs by (auto simp: mm_ok_def insert_mm_def index_ok_def heap_set_def heap_ok_def)
  qed
  have fin: ?thesis if "insert_vma_struct k a v = Some (?st T' h)" "mm_ok (?st T' h) k" "{z. Some z \<in> set h} \<subseteq> heap_set v"
      "\<forall>t z. T' = Some t \<longrightarrow> usable v k z \<longrightarrow> rb_outside t z" for T' h
    using that xs by blast
  show ?thesis
  proof (cases "T = None \<and> map_count (mms v k) + 1 \<ge> RB_MIN_MAP_COUNT")
    case False
    moreover have "mm_ok ?v2 k" by (rule st) (use T(2) ok in \<open>auto simp: heap_set_def mm_ok_def\<close>)
    ultimately show ?thesis using run T(2) by (intro fin[where T' = T and h = "heap v"]) (auto simp: heap_set_def)
  next
    case True
    obtain r v' where al: "rb_tree_alloc ?v2 = (r, v')" by fastforce
    have "heap_ok ?v2" using ok by (simp add: mm_ok_def heap_ok_def)
    from rb_tree_alloc_ok[OF this al] have "v' = ?st T (heap v')" and h: "heap_ok v'" "heap_set v' \<subseteq> heap_set v"
      and t: "\<And>t. r = Some t \<Longrightarrow> rb_repr t [] \<and> (\<forall>z. z \<notin> heap_set v \<longrightarrow> rb_outside t z) \<and> (\<forall>z \<in> heap_set v'. rb_outside t z)"
      by (auto simp: heap_set_def)
    then obtain h' where v': "v' = ?st T h'" by blast
    have hh: "{z. Some z \<in> set h'} \<subseteq> heap_set v" "heap_ok (v\<lparr>heap := h'\<rparr>)" "heap_set v' = {z. Some z \<in> set h'}"
      using h by (auto simp: v' heap_set_def heap_ok_def)
    show ?thesis
    proof (cases r)
      case None
      then show ?thesis using True run al hh by (intro fin[where T' = T and h = h']) (auto simp: v' intro!: st)
    next
      case (Some t)
      have "heap_set v \<inter> set (as @ a # bs) = {}" using ok nh xs by (auto simp: mm_ok_def)
      then have out: "\<forall>z \<in> set (as @ a # bs). rb_outside t z" using t[OF Some] by blast
      have "areas_ok ?vs ([] @ as @ a # bs) \<longleftrightarrow> areas_ok (vmas v) (as @ a # bs)" unfolding append_Nil by (rule areas_cong) simp
      then obtain t' where t': "build_tree (as @ a # bs) ?vs t = Some t'" "rb_repr t' (as @ a # bs)" "rb_outside t' = rb_outside t"
        using build_tree_ok[of t "[]" ?vs "as @ a # bs"] t[OF Some] out ar2 by auto
      have f: "mmap_list (mms v' k) = as @ a # bs" "vmas v' = ?vs" by (simp_all add: v' insert_mm_def)
      have "upd_mm k (\<lambda>mm. mm\<lparr>mmap_tree := Some t'\<rparr>) v' = ?st (Some t') h'"
        by (cases v) (simp add: v' upd_mm_def insert_mm_tree)
      then have "insert_vma_struct k a v = Some (?st (Some t') h')"
        using run True al Some t'(1) by (simp add: f)
      moreover have "mm_ok (?st (Some t') h') k" by (rule st) (use t' t[OF Some] hh in auto)
      ultimately show ?thesis using hh(1) by (rule fin) (use t[OF Some] t'(3) in \<open>auto simp: usable_def\<close>)
    qed
  qed
qed

section \<open>Removal\<close>

definition remove_mm :: "nat list \<Rightarrow> rb_tree option \<Rightarrow> nat option \<Rightarrow> mm_struct \<Rightarrow> mm_struct" where
  "remove_mm xs T c mm = mm\<lparr>mmap_tree := T, mmap_list := xs, mmap_cache := c, map_count := map_count mm - 1\<rparr>"

lemma areas_remove: "areas_ok vs (as @ a # bs) \<Longrightarrow> areas_ok vs (as @ bs)"
  by auto

lemma remove_vma_ok:
  assumes ok: "mm_ok v k" and xs: "mmap_list (mms v k) = as @ a # bs"
  shows "\<exists>T c. remove_vma_struct k a v = Some (v\<lparr>mms := (mms v)(k := remove_mm (as @ bs) T c (mms v k))\<rparr>)
    \<and> mm_ok (v\<lparr>mms := (mms v)(k := remove_mm (as @ bs) T c (mms v k))\<rparr>) k
    \<and> (\<forall>t z. T = Some t \<longrightarrow> usable v k z \<longrightarrow> rb_outside t z) \<and> usable v k a"
proof -
  have ar: "areas_ok (vmas v) (as @ a # bs)" and km: "vm_mm (vmas v a) = k" using ok xs by (auto simp: mm_ok_def)
  have dist: "distinct (as @ a # bs)" by (rule areas_distinct[OF ar])
  have rm: "remove1 a (as @ a # bs) = as @ bs" using dist by simp
  let ?c = "if mmap_cache (mms v k) = Some a then None else mmap_cache (mms v k)"
  let ?st = "\<lambda>T. v\<lparr>mms := (mms v)(k := remove_mm (as @ bs) T ?c (mms v k))\<rparr>"
  have heq: "(remove_mm xs T c mm)\<lparr>mmap_tree := T'\<rparr> = remove_mm xs T' c mm" for xs T T' c mm
    by (cases mm) (simp add: remove_mm_def)
  have ua: "usable v k a"
    using ok xs rbi.member_outside by (fastforce simp: usable_def mm_ok_def index_ok_def)
  have okT: "mm_ok (?st T) k" if "\<forall>t. T = Some t \<longrightarrow> rb_repr t (as @ bs) \<and> (\<forall>z \<in> heap_set v. rb_outside t z)" for T
    using ok that areas_remove[OF ar] xs unfolding mm_ok_def by (auto simp: remove_mm_def index_ok_def heap_set_def heap_ok_def)
  show ?thesis
  proof (cases "mmap_tree (mms v k)")
    case None
    then have run: "remove_vma_struct k a v = Some (?st None)"
      unfolding remove_vma_struct_def km None kassert_True option.case Option.bind.bind_lunit upd_mm_def xs rm remove_mm_def
      by (cases "mms v k") (use None in simp)
    have "mm_ok (?st None) k" by (rule okT) simp
    with run ua show ?thesis by blast
  next
    case (Some t)
    then have t: "rb_repr t (as @ a # bs)" "\<forall>z \<in> heap_set v. rb_outside t z" using ok xs by (auto simp: mm_ok_def index_ok_def)
    obtain t' where t': "rb_delete a t = Some t'" "rb_outside t' = rb_outside t" "rb_repr t' (as @ bs)"
      using rbi.delete_law[OF t(1), of a] rm by auto
    have run: "remove_vma_struct k a v = Some (?st (Some t'))"
      using Some t'(1) by (simp add: remove_vma_struct_def km upd_mm_def xs rm remove_mm_def)
    have "mm_ok (?st (Some t')) k" by (rule okT) (use t t' in auto)
    moreover have "\<forall>s z. Some t' = Some s \<longrightarrow> usable v k z \<longrightarrow> rb_outside s z" using t'(2) Some by (auto simp: usable_def)
    ultimately show ?thesis using run ua by blast
  qed
qed

end
