(* ===== verification/VmmMap.thy ===== *)
theory VmmMap
  imports VmmInv PagingMap
begin

text \<open>
  An address space as a partial map: \<open>area_map v k\<close> gives the flags of every mapped address.
  \<open>mm_map\<close>, \<open>mm_unmap\<close>, \<open>get_unmapped_area\<close> and \<open>user_mem_check\<close> (\<open>kern/mm/vmm.c\<close>) are
  shown to implement the operations on this map.
\<close>

section \<open>The map of an address space\<close>

definition area_at :: "(nat \<Rightarrow> vma_struct) \<Rightarrow> nat list \<Rightarrow> u32 \<Rightarrow> nat option" where
  "area_at vs xs x = List.find (\<lambda>a. vm_start (vs a) \<le> x \<and> x < vm_end (vs a)) xs"

definition area_map :: "vm \<Rightarrow> nat \<Rightarrow> u32 \<Rightarrow> u32 option" where
  "area_map v k x = map_option (\<lambda>a. vm_flags (vmas v a)) (area_at (vmas v) (mmap_list (mms v k)) x)"

lemma area_at_Some:
  assumes "areas_ok vs xs" "a \<in> set xs" "vm_start (vs a) \<le> x" "x < vm_end (vs a)"
  shows "area_at vs xs x = Some a"
proof -
  obtain as bs where xs: "xs = as @ a # bs" using assms(2) by (meson split_list)
  have "\<not> x < vm_end (vs b)" if "b \<in> set as" for b
    using that assms(1,3) by (auto simp: xs not_less intro: order_trans)
  then have "List.find (\<lambda>a. vm_start (vs a) \<le> x \<and> x < vm_end (vs a)) as = None" by (intro find_none) blast
  then show ?thesis using assms(3,4) by (simp add: xs area_at_def find_append)
qed

lemma area_at_None: "area_at vs xs x = None \<longleftrightarrow> (\<forall>a \<in> set xs. \<not> (vm_start (vs a) \<le> x \<and> x < vm_end (vs a)))"
  by (auto simp: area_at_def find_None_iff)

lemma area_at_iff:
  assumes "areas_ok vs xs"
  shows "area_at vs xs x = Some a \<longleftrightarrow> a \<in> set xs \<and> vm_start (vs a) \<le> x \<and> x < vm_end (vs a)"
  using area_at_Some[OF assms, of a x] by (auto simp: area_at_def find_Some_iff)

lemma area_at_insert:
  assumes "areas_ok vs (as @ a # bs)"
  shows "area_at vs (as @ a # bs) x = (if vm_start (vs a) \<le> x \<and> x < vm_end (vs a) then Some a else area_at vs (as @ bs) x)"
proof (cases "vm_start (vs a) \<le> x \<and> x < vm_end (vs a)")
  case True
  then show ?thesis using area_at_Some[OF assms, of a x] by simp
next
  case False
  then show ?thesis by (auto simp: area_at_def find_append split: option.splits)
qed

lemma area_at_cong: "(\<And>a. a \<in> set xs \<Longrightarrow> vm_start (vs' a) = vm_start (vs a) \<and> vm_end (vs' a) = vm_end (vs a)) \<Longrightarrow> area_at vs' xs x = area_at vs xs x"
  by (induction xs) (auto simp: area_at_def)

text \<open>The test for an overlap in \<open>mm_map\<close>: it suffices to look at the first area that ends above
  the start of the range.\<close>

lemma above_None: "above vs addr xs = None \<longleftrightarrow> (\<forall>a \<in> set xs. vm_end (vs a) \<le> addr)"
  by (auto simp: above_def find_None_iff not_less)

lemma above_Some: "above vs addr xs = Some a \<Longrightarrow> \<exists>as bs. xs = as @ a # bs \<and> addr < vm_end (vs a) \<and> (\<forall>b \<in> set as. vm_end (vs b) \<le> addr)"
proof (induction xs)
  case (Cons x xs)
  show ?case
  proof (cases "addr < vm_end (vs x)")
    case True
    then have "a = x" using Cons.prems by (simp add: above_def)
    then show ?thesis using True by (intro exI[of _ "[]"] exI[of _ xs]) simp
  next
    case False
    then obtain as bs where "xs = as @ a # bs \<and> addr < vm_end (vs a) \<and> (\<forall>b \<in> set as. vm_end (vs b) \<le> addr)"
      using Cons by (auto simp: above_def)
    then show ?thesis using False by (intro exI[of _ "x # as"] exI[of _ bs]) auto
  qed
qed (simp add: above_def)

lemma above_gap:
  assumes "areas_ok vs xs" "start < end"
  shows "(case above vs start xs of None \<Rightarrow> False | Some a \<Rightarrow> vm_start (vs a) < end)
    \<longleftrightarrow> (\<exists>b \<in> set xs. \<not> (vm_end (vs b) \<le> start \<or> end \<le> vm_start (vs b)))"
proof (cases "above vs start xs")
  case None
  moreover from this have "\<forall>a \<in> set xs. vm_end (vs a) \<le> start" by (simp add: above_None)
  ultimately show ?thesis by simp
next
  case (Some a)
  then obtain as bs where xs: "xs = as @ a # bs" "start < vm_end (vs a)" "\<forall>b \<in> set as. vm_end (vs b) \<le> start"
    using above_Some by blast
  have lt: "vm_start (vs a) < vm_end (vs a)" and bs: "\<forall>b \<in> set bs. vm_end (vs a) \<le> vm_start (vs b)"
    using assms(1) unfolding xs(1) by auto
  show ?thesis
  proof
    assume "case above vs start xs of None \<Rightarrow> False | Some a \<Rightarrow> vm_start (vs a) < end"
    then show "\<exists>b \<in> set xs. \<not> (vm_end (vs b) \<le> start \<or> end \<le> vm_start (vs b))" using Some xs by (auto simp: not_le)
  next
    assume "\<exists>b \<in> set xs. \<not> (vm_end (vs b) \<le> start \<or> end \<le> vm_start (vs b))"
    then obtain b where b: "b \<in> set xs" "start < vm_end (vs b)" "vm_start (vs b) < end" by (auto simp: not_le)
    then have "b = a \<or> b \<in> set bs" using xs by (auto simp: not_less[symmetric])
    then have "vm_start (vs a) < end"
    proof
      assume "b \<in> set bs"
      then show ?thesis using bs lt b(3) by (meson less_le_trans less_trans order.strict_trans1)
    qed (use b in simp)
    then show "case above vs start xs of None \<Rightarrow> False | Some a \<Rightarrow> vm_start (vs a) < end" using Some by simp
  qed
qed

lemma overlap_iff:
  assumes "areas_ok vs xs" "start < end"
  shows "(\<exists>b \<in> set xs. \<not> (vm_end (vs b) \<le> start \<or> end \<le> vm_start (vs b))) \<longleftrightarrow> (\<exists>x. start \<le> x \<and> x < end \<and> area_at vs xs x \<noteq> None)"
proof
  assume "\<exists>b \<in> set xs. \<not> (vm_end (vs b) \<le> start \<or> end \<le> vm_start (vs b))"
  then obtain b where b: "b \<in> set xs" "start < vm_end (vs b)" "vm_start (vs b) < end" by (auto simp: not_le)
  then have "vm_start (vs b) < vm_end (vs b)" using assms(1) by (auto simp: areas_ok_def)
  then have "area_at vs xs (max start (vm_start (vs b))) = Some b" using area_at_Some[OF assms(1) b(1)] b by (simp add: max_def)
  then show "\<exists>x. start \<le> x \<and> x < end \<and> area_at vs xs x \<noteq> None"
    using b assms(2) by (intro exI[of _ "max start (vm_start (vs b))"]) (auto simp: max_def)
next
  assume "\<exists>x. start \<le> x \<and> x < end \<and> area_at vs xs x \<noteq> None"
  then obtain x b where "start \<le> x" "x < end" "b \<in> set xs" "vm_start (vs b) \<le> x" "x < vm_end (vs b)"
    by (auto simp: area_at_iff[OF assms(1)])
  then show "\<exists>b \<in> set xs. \<not> (vm_end (vs b) \<le> start \<or> end \<le> vm_start (vs b))" by (intro bexI[of _ b]) (auto simp: not_le)
qed

section \<open>Mapping\<close>

lemma set_cache_fields [simp]:
  "vmas (set_cache k r v) = vmas v" "mmap_list (mms (set_cache k r v) j) = mmap_list (mms v j)" "heap (set_cache k r v) = heap v"
  "mmap_tree (mms (set_cache k r v) j) = mmap_tree (mms v j)" "pm (set_cache k r v) = pm v" "pgdir (mms (set_cache k r v) j) = pgdir (mms v j)"
  "map_count (mms (set_cache k r v) j) = map_count (mms v j)" "shmems (set_cache k r v) = shmems v" "brk (mms (set_cache k r v) j) = brk (mms v j)"
  "brk_start (mms (set_cache k r v) j) = brk_start (mms v j)" "heap_set (set_cache k r v) = heap_set v" "area_map (set_cache k r v) j = area_map v j"
  by (auto simp: set_cache_def upd_mm_def heap_set_def area_map_def fun_eq_iff)

lemma set_cache_ok:
  assumes "mm_ok v k" "\<And>c. r = Some c \<Longrightarrow> c \<in> set (mmap_list (mms v k))"
  shows "mm_ok (set_cache k r v) k"
proof -
  have "mmap_cache (mms (set_cache k r v) k) = (if r = None then mmap_cache (mms v k) else r)"
    by (simp add: set_cache_def upd_mm_def)
  then show ?thesis using assms by (auto simp: mm_ok_def index_ok_def heap_ok_def split: if_splits)
qed

lemma above_member: "above vs addr xs = Some a \<Longrightarrow> a \<in> set xs"
  using above_Some by fastforce

lemma vma_create_all:
  assumes "mm_ok v k" "vma_create s e f v = (r, v')"
  shows "mm_ok v' k \<and> mms v' = mms v \<and> pm v' = pm v \<and> heap_set v' \<subseteq> heap_set v \<and> (\<forall>b. r \<noteq> Some b \<longrightarrow> vmas v' b = vmas v b) \<and>
    (r = None \<longleftrightarrow> heap v = [] \<or> hd (heap v) = None) \<and>
    (\<forall>a. r = Some a \<longrightarrow> a \<notin> set (mmap_list (mms v k)) \<and> a \<notin> heap_set v' \<and> (\<forall>t. mmap_tree (mms v k) = Some t \<longrightarrow> rb_outside t a) \<and>
      vm_start (vmas v' a) = s \<and> vm_end (vmas v' a) = e \<and> vm_flags (vmas v' a) = f)"
proof -
  obtain r1 v1 where 1: "kmalloc v = (r1, v1)" by fastforce
  have hk: "heap_ok v" using assms(1) by (simp add: mm_ok_def)
  note h = heap_pop[OF hk 1]
  have r: "r = r1" using assms(2) 1 by (auto simp: vma_create_def split: option.splits)
  have none: "r1 = None \<longleftrightarrow> heap v = [] \<or> hd (heap v) = None" using 1 by (auto simp: kmalloc_def split: list.splits)
  have fld: "mms v1 = mms v" "pm v1 = pm v" "vmas v1 = vmas v" by (subst h(1), simp)+
  have ok1: "mm_ok v1 k" using assms(1) h(2,3) fld by (auto simp: mm_ok_def index_ok_def)
  show ?thesis
  proof (cases r1)
    case None
    then have "v' = v1" using assms(2) 1 by (simp add: vma_create_def)
    then show ?thesis using ok1 fld h(3) none r None by simp
  next
    case (Some a)
    then have v': "v' = upd_vma a (\<lambda>x. x\<lparr>vm_start := s, vm_end := e, vm_flags := f, vm_shmem := None, shmem_off := 0\<rparr>) v1"
      using assms(2) 1 by (simp add: vma_create_def)
    have a: "a \<in> heap_set v" "a \<notin> heap_set v1" using h(5) Some by blast+
    then have an: "a \<notin> set (mmap_list (mms v k))" "\<forall>t. mmap_tree (mms v k) = Some t \<longrightarrow> rb_outside t a"
      using assms(1) by (auto simp: mm_ok_def index_ok_def)
    have same: "vmas v' b = vmas v b" if "b \<noteq> a" for b using that by (simp add: v' upd_vma_def fld)
    have g: "mms v' = mms v" "pm v' = pm v" "heap v' = heap v1" by (simp_all add: v' upd_vma_def fld)
    have "areas_ok (vmas v') (mmap_list (mms v k)) \<longleftrightarrow> areas_ok (vmas v) (mmap_list (mms v k))"
      using an(1) same by (intro areas_cong) metis
    then have "mm_ok v' k"
      using ok1 an(1) same unfolding mm_ok_def index_ok_def heap_set_def heap_ok_def g fld by (metis (no_types, lifting))
    then show ?thesis using a an g r Some none same h(3) by (auto simp: heap_set_def v' upd_vma_def)
  qed
qed

lemma vma_create_ok:
  assumes "mm_ok v k" "vma_create s e f v = (r, v')"
  shows "mm_ok v' k" "mms v' = mms v" "pm v' = pm v" "heap_set v' \<subseteq> heap_set v" "r \<noteq> Some b \<Longrightarrow> vmas v' b = vmas v b"
    "r = None \<longleftrightarrow> heap v = [] \<or> hd (heap v) = None" "r = Some a \<Longrightarrow> a \<notin> set (mmap_list (mms v k))" "r = Some a \<Longrightarrow> a \<notin> heap_set v'"
    "r = Some a \<Longrightarrow> mmap_tree (mms v k) = Some t \<Longrightarrow> rb_outside t a"
    "r = Some a \<Longrightarrow> vm_start (vmas v' a) = s" "r = Some a \<Longrightarrow> vm_end (vmas v' a) = e" "r = Some a \<Longrightarrow> vm_flags (vmas v' a) = f"
  using vma_create_all[OF assms] by simp_all

text \<open>Areas of user processes are page aligned and lie in user space.\<close>

definition user_ok :: "vm \<Rightarrow> nat \<Rightarrow> bool" where
  "user_ok v k \<longleftrightarrow> (\<forall>a \<in> set (mmap_list (mms v k)). vm_start (vmas v a) mod PGSIZE = 0 \<and> vm_end (vmas v a) mod PGSIZE = 0
     \<and> USER_ACCESS (vm_start (vmas v a)) (vm_end (vmas v a)))"

lemma user_ok_insert:
  assumes "user_ok v k" "set (mmap_list (mms v' k)) \<subseteq> insert a (set (mmap_list (mms v k)))" "\<And>b. b \<noteq> a \<Longrightarrow> vmas v' b = vmas v b"
    and "vm_start (vmas v' a) mod PGSIZE = 0" "vm_end (vmas v' a) mod PGSIZE = 0" "USER_ACCESS (vm_start (vmas v' a)) (vm_end (vmas v' a))"
  shows "user_ok v' k"
  unfolding user_ok_def
proof
  fix x assume "x \<in> set (mmap_list (mms v' k))"
  then have "x = a \<or> x \<in> set (mmap_list (mms v k)) \<and> vmas v' x = vmas v x" using assms(2,3) by auto
  then show "vm_start (vmas v' x) mod PGSIZE = 0 \<and> vm_end (vmas v' x) mod PGSIZE = 0
     \<and> USER_ACCESS (vm_start (vmas v' x)) (vm_end (vmas v' x))"
    using assms(1,4-6) unfolding user_ok_def by metis
qed

lemma ROUND_aligned [simp]: "ROUNDDOWN a PGSIZE mod PGSIZE = 0" "ROUNDUP a PGSIZE mod PGSIZE = 0"
proof -
  have "unat (ROUNDDOWN b PGSIZE) mod 4096 = 0" for b using vp_ROUNDDOWN by blast
  then have "ROUNDDOWN b PGSIZE mod PGSIZE = 0" for b by (simp add: word_unat_eq_iff unat_mod)
  then show "ROUNDDOWN a PGSIZE mod PGSIZE = 0" "ROUNDUP a PGSIZE mod PGSIZE = 0" by (simp_all add: ROUNDUP_def)
qed

text \<open>What an insertion does to the map.\<close>

lemma insert_vma_map:
  assumes "mm_ok v k" "a \<notin> set (mmap_list (mms v k))" "usable v k a" "vm_start (vmas v a) < vm_end (vmas v a)"
    and "\<forall>b \<in> set (mmap_list (mms v k)). vm_end (vmas v b) \<le> vm_start (vmas v a) \<or> vm_end (vmas v a) \<le> vm_start (vmas v b)"
  shows "\<exists>v'. insert_vma_struct k a v = Some v' \<and> mm_ok v' k \<and> pm v' = pm v \<and> shmems v' = shmems v \<and> shmns v' = shmns v
    \<and> heap_set v' \<subseteq> heap_set v \<and> vmas v' = (vmas v)(a := (vmas v a)\<lparr>vm_mm := k\<rparr>)
    \<and> set (mmap_list (mms v' k)) = insert a (set (mmap_list (mms v k))) \<and> (\<forall>j. j \<noteq> k \<longrightarrow> mms v' j = mms v j)
    \<and> pgdir (mms v' k) = pgdir (mms v k) \<and> (\<forall>z. usable v k z \<longrightarrow> usable v' k z)
    \<and> area_map v' k = (\<lambda>x. if vm_start (vmas v a) \<le> x \<and> x < vm_end (vmas v a) then Some (vm_flags (vmas v a)) else area_map v k x)"
proof -
  let ?vs = "(vmas v)(a := (vmas v a)\<lparr>vm_mm := k\<rparr>)"
  obtain as bs T h v' where v': "v' = v\<lparr>vmas := ?vs, mms := (mms v)(k := insert_mm (as @ a # bs) T (mms v k)), heap := h\<rparr>"
    and run: "insert_vma_struct k a v = Some v'" and xs: "mmap_list (mms v k) = as @ bs"
    and ok: "mm_ok v' k" and hs: "{z. Some z \<in> set h} \<subseteq> heap_set v"
    and us: "\<forall>t z. T = Some t \<longrightarrow> usable v k z \<longrightarrow> rb_outside t z"
    using insert_vma_ok[OF assms] by blast
  have us': "\<forall>z. usable v k z \<longrightarrow> usable v' k z" using us hs by (auto simp: v' insert_mm_def usable_def heap_set_def)
  have f: "mmap_list (mms v' k) = as @ a # bs" "pm v' = pm v" "shmems v' = shmems v" "shmns v' = shmns v" "vmas v' = ?vs" "pgdir (mms v' k) = pgdir (mms v k)"
    "\<forall>j. j \<noteq> k \<longrightarrow> mms v' j = mms v j" "heap_set v' \<subseteq> heap_set v"
    using hs by (simp_all add: v' insert_mm_def heap_set_def)
  have ar: "areas_ok ?vs (as @ a # bs)" using ok f by (simp add: mm_ok_def)
  have e: "area_at ?vs (as @ bs) x = area_at (vmas v) (as @ bs) x" for x by (rule area_at_cong) simp
  have "area_map v' k x = (if vm_start (vmas v a) \<le> x \<and> x < vm_end (vmas v a) then Some (vm_flags (vmas v a)) else area_map v k x)" for x
  proof -
    have "map_option (\<lambda>b. vm_flags (?vs b)) r = map_option (\<lambda>b. vm_flags (vmas v b)) r" for r by (cases r) auto
    then show ?thesis unfolding area_map_def f xs area_at_insert[OF ar] e by simp
  qed
  then show ?thesis using run ok f xs us' by (intro exI[of _ v']) auto
qed

lemma area_map_vmas:
  assumes "mms v' k = mms v k" "\<And>b. b \<in> set (mmap_list (mms v k)) \<Longrightarrow> vmas v' b = vmas v b"
  shows "area_map v' k = area_map v k"
proof
  fix x
  have "area_at (vmas v') (mmap_list (mms v k)) x = area_at (vmas v) (mmap_list (mms v k)) x" using assms(2) by (intro area_at_cong) simp
  moreover have "a \<in> set (mmap_list (mms v k))" if "area_at (vmas v) (mmap_list (mms v k)) x = Some a" for a
    using that by (auto simp: area_at_def find_Some_iff)
  ultimately show "area_map v' k x = area_map v k x"
    using assms by (cases "area_at (vmas v) (mmap_list (mms v k)) x") (auto simp: area_map_def)
qed

lemma create_insert_ok:
  assumes ok: "mm_ok v k" and se: "s < e" and clear: "\<forall>b \<in> set (mmap_list (mms v k)). vm_end (vmas v b) \<le> s \<or> e \<le> vm_start (vmas v b)"
  shows "(let (r, v1) = vma_create s e f v
      in case r of
           None \<Rightarrow> mm_ok v1 k \<and> mms v1 = mms v \<and> vmas v1 = vmas v \<and> pm v1 = pm v
         | Some a \<Rightarrow> \<exists>v'. insert_vma_struct k a v1 = Some v' \<and> mm_ok v' k \<and> pm v' = pm v \<and> a \<notin> set (mmap_list (mms v k))
             \<and> set (mmap_list (mms v' k)) = insert a (set (mmap_list (mms v k))) \<and> pgdir (mms v' k) = pgdir (mms v k)
             \<and> (\<forall>b. b \<noteq> a \<longrightarrow> vmas v' b = vmas v b) \<and> vm_start (vmas v' a) = s \<and> vm_end (vmas v' a) = e \<and> vm_flags (vmas v' a) = f
             \<and> (\<forall>j. j \<noteq> k \<longrightarrow> mms v' j = mms v j) \<and> heap_set v' \<subseteq> heap_set v
             \<and> area_map v' k = (\<lambda>x. if s \<le> x \<and> x < e then Some f else area_map v k x))"
proof -
  obtain r v1 where cr: "vma_create s e f v = (r, v1)" by fastforce
  note c = vma_create_ok[OF ok cr]
  show ?thesis
  proof (cases r)
    case None
    then have "vmas v1 = vmas v" using c(5) by (intro ext) simp
    then show ?thesis using c(1-3) None by (simp add: cr)
  next
    case (Some a)
    note m = c(2,1,4,3) and vs = c(5)[unfolded Some option.inject] and new = c(7)[OF Some]
    have am: "area_map v1 k = area_map v k"
    proof (rule area_map_vmas)
      show "mms v1 k = mms v k" using m(1) by (rule arg_cong)
      fix b assume "b \<in> set (mmap_list (mms v k))"
      then show "vmas v1 b = vmas v b" using new by (intro vs) blast
    qed
    have a: "vm_start (vmas v1 a) = s" "vm_end (vmas v1 a) = e" "vm_flags (vmas v1 a) = f" using c(10-12)[OF Some] by blast+
    have cl: "\<forall>b \<in> set (mmap_list (mms v1 k)). vm_end (vmas v1 b) \<le> vm_start (vmas v1 a) \<or> vm_end (vmas v1 a) \<le> vm_start (vmas v1 b)"
      unfolding m(1)
    proof
      fix b assume b: "b \<in> set (mmap_list (mms v k))"
      have vb: "vmas v1 b = vmas v b" by (rule vs) (use new b in auto)
      show "vm_end (vmas v1 b) \<le> vm_start (vmas v1 a) \<or> vm_end (vmas v1 a) \<le> vm_start (vmas v1 b)"
        unfolding a vb using clear b by blast
    qed
    have "\<exists>v'. insert_vma_struct k a v1 = Some v' \<and> mm_ok v' k \<and> pm v' = pm v1 \<and> shmems v' = shmems v1 \<and> shmns v' = shmns v1
      \<and> heap_set v' \<subseteq> heap_set v1 \<and> vmas v' = (vmas v1)(a := (vmas v1 a)\<lparr>vm_mm := k\<rparr>)
      \<and> set (mmap_list (mms v' k)) = insert a (set (mmap_list (mms v1 k))) \<and> (\<forall>j. j \<noteq> k \<longrightarrow> mms v' j = mms v1 j)
      \<and> pgdir (mms v' k) = pgdir (mms v1 k) \<and> (\<forall>z. usable v1 k z \<longrightarrow> usable v' k z)
      \<and> area_map v' k = (\<lambda>x. if vm_start (vmas v1 a) \<le> x \<and> x < vm_end (vmas v1 a) then Some (vm_flags (vmas v1 a)) else area_map v1 k x)"
      by (rule insert_vma_map[OF m(2)]) (use new c(8)[OF Some] c(9)[OF Some] se cl a in \<open>simp_all add: m(1) usable_def\<close>)
    then obtain v' where v': "insert_vma_struct k a v1 = Some v'" "mm_ok v' k" "pm v' = pm v1" "heap_set v' \<subseteq> heap_set v1"
      "vmas v' = (vmas v1)(a := (vmas v1 a)\<lparr>vm_mm := k\<rparr>)" "set (mmap_list (mms v' k)) = insert a (set (mmap_list (mms v1 k)))"
      "\<forall>j. j \<noteq> k \<longrightarrow> mms v' j = mms v1 j" "pgdir (mms v' k) = pgdir (mms v1 k)"
      "area_map v' k = (\<lambda>x. if vm_start (vmas v1 a) \<le> x \<and> x < vm_end (vmas v1 a) then Some (vm_flags (vmas v1 a)) else area_map v1 k x)"
      by blast
    show ?thesis unfolding cr Let_def prod.case Some option.case
      by (rule exI[of _ v']) (use v' m vs new am a in auto)
  qed
qed

lemma mm_map_ok:
  assumes ok: "mm_ok v k" and s: "s = ROUNDDOWN addr PGSIZE" and e: "e = ROUNDUP (addr + len) PGSIZE"
  shows "if \<not> USER_ACCESS s e \<or> (\<exists>x. s \<le> x \<and> x < e \<and> area_map v k x \<noteq> None)
    then \<exists>v'. mm_map k addr len f v = Some ((- E_INVAL, None), v') \<and> mm_ok v' k \<and> area_map v' k = area_map v k \<and> (user_ok v k \<longrightarrow> user_ok v' k)
    else if heap v = [] \<or> hd (heap v) = None
    then \<exists>v'. mm_map k addr len f v = Some ((- E_NO_MEM, None), v') \<and> mm_ok v' k \<and> area_map v' k = area_map v k \<and> (user_ok v k \<longrightarrow> user_ok v' k)
    else \<exists>a v'. mm_map k addr len f v = Some ((0, Some a), v') \<and> mm_ok v' k \<and> (user_ok v k \<longrightarrow> user_ok v' k)
      \<and> area_map v' k = (\<lambda>x. if s \<le> x \<and> x < e then Some (f AND NOT VM_SHARE) else area_map v k x)"
proof (cases "USER_ACCESS s e")
  case False
  then show ?thesis using ok by (simp add: mm_map_def s e)
next
  case True
  let ?xs = "mmap_list (mms v k)"
  define r where "r = above (vmas v) s ?xs"
  define v1 where "v1 = set_cache k r v"
  have se: "s < e" using True by (simp add: USER_ACCESS_def)
  have ar: "areas_ok (vmas v) ?xs" using ok by (simp add: mm_ok_def)
  have ok1: "mm_ok v1 k" unfolding v1_def by (rule set_cache_ok[OF ok]) (use above_member r_def in metis)
  have fnd: "find_vma (Some k) s v = Some (r, v1)" unfolding r_def v1_def by (rule find_vma_ok[OF ok])
  have u: "user_ok v1 k \<longleftrightarrow> user_ok v k" by (simp add: user_ok_def v1_def)
  have am: "area_map v1 k = area_map v k" by (simp add: v1_def)
  have ov: "(case r of None \<Rightarrow> False | Some a \<Rightarrow> e > vm_start (vmas v1 a)) \<longleftrightarrow> (\<exists>x. s \<le> x \<and> x < e \<and> area_map v k x \<noteq> None)"
  proof -
    have "vmas v1 = vmas v" by (simp add: v1_def)
    then show ?thesis using above_gap[OF ar se] overlap_iff[OF ar se] unfolding r_def by (simp only: area_map_def option.map_disc_iff)
  qed
  show ?thesis
  proof (cases "\<exists>x. s \<le> x \<and> x < e \<and> area_map v k x \<noteq> None")
    case hit: True
    have "mm_map k addr len f v = Some ((- E_INVAL, None), v1)"
      using True fnd ov hit by (simp add: mm_map_def s[symmetric] e[symmetric])
    then show ?thesis using hit ok1 u am by simp
  next
    case free: False
    have "\<not> (\<exists>b \<in> set ?xs. \<not> (vm_end (vmas v b) \<le> s \<or> e \<le> vm_start (vmas v b)))"
      unfolding overlap_iff[OF ar se] using free by (simp only: area_map_def option.map_disc_iff not_False_eq_True)
    then have "\<forall>b \<in> set ?xs. vm_end (vmas v b) \<le> s \<or> e \<le> vm_start (vmas v b)" by blast
    then have "\<forall>b \<in> set (mmap_list (mms v1 k)). vm_end (vmas v1 b) \<le> s \<or> e \<le> vm_start (vmas v1 b)"
      by (simp add: v1_def)
    moreover obtain g where g: "f AND NOT VM_SHARE = g" by blast
    moreover obtain c v2 where cr: "vma_create s e g v1 = (c, v2)" by fastforce
    ultimately have ci: "case c of
           None \<Rightarrow> mm_ok v2 k \<and> mms v2 = mms v1 \<and> vmas v2 = vmas v1
         | Some a \<Rightarrow> \<exists>v'. insert_vma_struct k a v2 = Some v' \<and> mm_ok v' k
             \<and> set (mmap_list (mms v' k)) = insert a (set (mmap_list (mms v1 k)))
             \<and> (\<forall>b. b \<noteq> a \<longrightarrow> vmas v' b = vmas v1 b) \<and> vm_start (vmas v' a) = s \<and> vm_end (vmas v' a) = e
             \<and> area_map v' k = (\<lambda>x. if s \<le> x \<and> x < e then Some g else area_map v1 k x)"
      using create_insert_ok[OF ok1 se, of g] by (auto split: option.splits)
    have cn: "c = None \<longleftrightarrow> heap v = [] \<or> hd (heap v) = None" using vma_create_ok(6)[OF ok1 cr] by (simp add: v1_def)
    have ovF: "(case r of None \<Rightarrow> False | Some a \<Rightarrow> vm_start (vmas v1 a) < e) = False" using ov free by simp
    have run: "mm_map k addr len f v = (case c of None \<Rightarrow> Some ((- E_NO_MEM, None), v2)
        | Some a \<Rightarrow> do { v \<leftarrow> insert_vma_struct k a v2; Some ((0, Some a), v) })"
      unfolding mm_map_def Let_def s[symmetric] e[symmetric] fnd Option.bind.bind_lunit prod.case ovF g cr using True by simp
    show ?thesis
    proof (cases c)
      case None
      then have "mm_ok v2 k" "mms v2 = mms v1" "vmas v2 = vmas v1" using ci by simp_all
      moreover from this have "area_map v2 k = area_map v1 k" "user_ok v2 k \<longleftrightarrow> user_ok v1 k"
        by (intro ext, simp add: area_map_def, simp add: user_ok_def)
      then have "area_map v2 k = area_map v k" "user_ok v2 k \<longleftrightarrow> user_ok v k" using am u by auto
      moreover note cn[THEN iffD1, OF None]
      ultimately show ?thesis using run None free True by auto
    next
      case (Some a)
      then obtain v3 where v3: "insert_vma_struct k a v2 = Some v3" "mm_ok v3 k" "set (mmap_list (mms v3 k)) = insert a (set (mmap_list (mms v1 k)))"
        "\<forall>b. b \<noteq> a \<longrightarrow> vmas v3 b = vmas v1 b" "vm_start (vmas v3 a) = s" "vm_end (vmas v3 a) = e"
        "area_map v3 k = (\<lambda>x. if s \<le> x \<and> x < e then Some g else area_map v1 k x)"
        using ci by auto
      have "user_ok v k \<longrightarrow> user_ok v3 k"
        using user_ok_insert[of v1 k v3 a] v3(3-6) True unfolding u[symmetric] by (auto simp: s e)
      moreover have "\<not> (heap v = [] \<or> hd (heap v) = None)" using cn Some by blast
      ultimately show ?thesis unfolding g using run Some v3 free True am by auto
    qed
  qed
qed

section \<open>Looking for a free range\<close>

text \<open>A free range of user space, and the same in terms of the areas.\<close>

definition free_range :: "vm \<Rightarrow> nat \<Rightarrow> u32 \<Rightarrow> u32 \<Rightarrow> bool" where
  "free_range v k len s \<longleftrightarrow> USERBASE \<le> s \<and> unat s + unat len \<le> unat USERTOP \<and> (\<forall>x. s \<le> x \<and> x < s + len \<longrightarrow> area_map v k x = None)"

definition gap :: "(nat \<Rightarrow> vma_struct) \<Rightarrow> nat list \<Rightarrow> nat \<Rightarrow> nat \<Rightarrow> bool" where
  "gap vs xs len s \<longleftrightarrow> 0x200000 \<le> s \<and> s + len \<le> 0xB0000000 \<and> (\<forall>a \<in> set xs. s + len \<le> unat (vm_start (vs a)) \<or> unat (vm_end (vs a)) \<le> s)"

lemma unat_plus: "unat (a :: u32) + unat b \<le> 0xB0000000 \<Longrightarrow> unat (a + b) = unat a + unat b"
  by (subst unat_plus_if', subst if_P, erule le_less_trans, simp_all)

lemma free_range_gap:
  assumes "areas_ok (vmas v) (mmap_list (mms v k))" "len \<noteq> 0"
  shows "free_range v k len s \<longleftrightarrow> gap (vmas v) (mmap_list (mms v k)) (unat len) (unat s)"
proof (cases "unat s + unat len \<le> 0xB0000000")
  case True
  note p = unat_plus[OF True]
  have "unat len \<noteq> 0" using assms(2) by (simp add: unat_eq_0)
  then have lt: "s < s + len" by (simp add: word_less_nat_alt p)
  let ?xs = "mmap_list (mms v k)" and ?hit = "\<lambda>x. s \<le> x \<and> x < s + len \<and> area_at (vmas v) (mmap_list (mms v k)) x \<noteq> None"
  have "(\<forall>x. s \<le> x \<and> x < s + len \<longrightarrow> area_map v k x = None) \<longleftrightarrow> \<not> (\<exists>x. ?hit x)"
    by (simp only: area_map_def option.map_disc_iff not_ex de_Morgan_conj not_not imp_conv_disj disj_assoc)
  also have "\<dots> \<longleftrightarrow> \<not> (\<exists>a \<in> set ?xs. \<not> (vm_end (vmas v a) \<le> s \<or> s + len \<le> vm_start (vmas v a)))"
    by (simp only: overlap_iff[OF assms(1) lt])
  also have "\<dots> \<longleftrightarrow> (\<forall>a \<in> set ?xs. s + len \<le> vm_start (vmas v a) \<or> vm_end (vmas v a) \<le> s)" by blast
  finally have e: "(\<forall>x. s \<le> x \<and> x < s + len \<longrightarrow> area_map v k x = None) \<longleftrightarrow>
     (\<forall>a \<in> set ?xs. s + len \<le> vm_start (vmas v a) \<or> vm_end (vmas v a) \<le> s)" .
  have u: "USERBASE \<le> s \<longleftrightarrow> 0x200000 \<le> unat s" "unat USERTOP = 0xB0000000" by (simp_all add: word_le_nat_alt)
  show ?thesis unfolding free_range_def gap_def e u word_le_nat_alt[of "s + len"] word_le_nat_alt[of _ s] p by simp
qed (simp add: free_range_def gap_def)

lemma area_loop_ok:
  assumes "areas_ok vs xs" "\<forall>a \<in> set xs. 0x200000 \<le> unat (vm_start (vs a))" "0 < unat len"
    and "\<And>s. gap vs (xs @ ys) (unat len) s \<Longrightarrow> s \<le> unat start" "\<forall>a \<in> set ys. unat start + unat len \<le> unat (vm_start (vs a))"
    and "unat start + unat len \<le> 0xB0000000" "\<forall>a \<in> set xs. \<forall>b \<in> set ys. vm_end (vs a) \<le> vm_start (vs b)"
  shows "let r = area_loop (rev xs) len start vs in
     r = 0 \<and> (\<forall>s. \<not> gap vs (xs @ ys) (unat len) s) \<or> gap vs (xs @ ys) (unat len) (unat r) \<and> (\<forall>s. gap vs (xs @ ys) (unat len) s \<longrightarrow> s \<le> unat r)"
  using assms
proof (induction xs arbitrary: start ys rule: rev_induct)
  case Nil
  show ?case
  proof (cases "0x200000 \<le> unat start")
    case True
    then have "gap vs ys (unat len) (unat start)" using Nil.prems by (auto simp: gap_def)
    then show ?thesis using True Nil.prems(4) by (auto simp: word_le_nat_alt)
  next
    case False
    then have "\<not> gap vs ys (unat len) s" for s using Nil.prems(4)[of s] by (auto simp: gap_def)
    then show ?thesis using False by (simp add: word_le_nat_alt)
  qed
next
  case (snoc a xs)
  have xs: "areas_ok vs xs" "\<forall>b \<in> set xs. 0x200000 \<le> unat (vm_start (vs b))" and a: "0x200000 \<le> unat (vm_start (vs a))"
    "unat (vm_start (vs a)) < unat (vm_end (vs a))" and ab: "\<forall>b \<in> set xs. unat (vm_end (vs b)) \<le> unat (vm_start (vs a))"
    using snoc.prems(1,2) by (auto simp: word_less_nat_alt word_le_nat_alt)
  have ay: "\<forall>b \<in> set (a # ys). vm_start (vs a) \<le> vm_start (vs b)"
    using snoc.prems(1,7) by (auto intro: less_imp_le less_le_trans)
  have cross: "\<forall>b \<in> set xs. \<forall>c \<in> set (a # ys). vm_end (vs b) \<le> vm_start (vs c)"
    using snoc.prems(1,7) by auto
  have app: "(xs @ [a]) @ ys = xs @ a # ys" by simp
  note mx = snoc.prems(4)[unfolded app]
  have sum: "unat (start + len) = unat start + unat len" by (rule unat_plus[OF snoc.prems(6)])
  show ?case
  proof (cases "vm_end (vs a) \<le> start")
    case True
    have "gap vs (xs @ a # ys) (unat len) (unat start)"
      using snoc.prems(5,6) ab a True by (fastforce simp: gap_def word_le_nat_alt)
    then show ?thesis using True mx by simp
  next
    case below: False
    have up: "s + unat len \<le> unat (vm_start (vs a))" if "gap vs (xs @ a # ys) (unat len) s" for s
      using that mx[OF that] below by (auto simp: gap_def word_le_nat_alt)
    show ?thesis
    proof (cases "vm_start (vs a) < start + len")
      case over: True
      show ?thesis
      proof (cases "vm_start (vs a) \<le> len")
        case True
        have "\<not> gap vs (xs @ a # ys) (unat len) s" for s
          using up[of s] True by (auto simp: gap_def word_le_nat_alt)
        then show ?thesis using below over True by simp
      next
        case False
        then have lt: "unat len < unat (vm_start (vs a))" by (simp add: word_le_nat_alt)
        then have sub: "unat (vm_start (vs a) - len) = unat (vm_start (vs a)) - unat len" by (intro unat_sub) (simp add: word_le_nat_alt)
        have "let r = area_loop (rev xs) len (vm_start (vs a) - len) vs in
          r = 0 \<and> (\<forall>s. \<not> gap vs (xs @ a # ys) (unat len) s) \<or> gap vs (xs @ a # ys) (unat len) (unat r) \<and> (\<forall>s. gap vs (xs @ a # ys) (unat len) s \<longrightarrow> s \<le> unat r)"
        proof (rule snoc.IH[OF xs snoc.prems(3) _ _ _ cross])
          show "s \<le> unat (vm_start (vs a) - len)" if "gap vs (xs @ a # ys) (unat len) s" for s using up[OF that] sub by simp
          show "\<forall>b \<in> set (a # ys). unat (vm_start (vs a) - len) + unat len \<le> unat (vm_start (vs b))" using ay sub lt by (simp add: word_le_nat_alt)
          show "unat (vm_start (vs a) - len) + unat len \<le> 0xB0000000" using over sub lt sum snoc.prems(6) by (simp add: word_less_nat_alt)
        qed
        then show ?thesis using below over False by simp
      qed
    next
      case fits: False
      have "let r = area_loop (rev xs) len start vs in
          r = 0 \<and> (\<forall>s. \<not> gap vs (xs @ a # ys) (unat len) s) \<or> gap vs (xs @ a # ys) (unat len) (unat r) \<and> (\<forall>s. gap vs (xs @ a # ys) (unat len) s \<longrightarrow> s \<le> unat r)"
        by (rule snoc.IH[OF xs snoc.prems(3) mx _ snoc.prems(6) cross]) (use fits sum snoc.prems(5) in \<open>auto simp: word_less_nat_alt\<close>)
      then show ?thesis using below fits by simp
    qed
  qed
qed

lemma get_unmapped_area_ok:
  assumes "mm_ok v k" "user_ok v k" "len \<noteq> 0"
  shows "let r = get_unmapped_area k len v in r = 0 \<and> (\<forall>s. \<not> free_range v k len s) \<or> free_range v k len r \<and> (\<forall>s. free_range v k len s \<longrightarrow> s \<le> r)"
proof -
  let ?xs = "mmap_list (mms v k)"
  have ar: "areas_ok (vmas v) ?xs" using assms(1) by (simp add: mm_ok_def)
  note fg = free_range_gap[OF ar assms(3)]
  show ?thesis
  proof (cases "len > USERTOP")
    case True
    then have "\<not> free_range v k len s" for s by (simp add: free_range_def word_less_nat_alt)
    then show ?thesis using True by (simp add: get_unmapped_area_def)
  next
    case False
    then have le: "unat len \<le> 0xB0000000" by (simp add: word_less_nat_alt)
    then have st: "unat (USERTOP - len) = 0xB0000000 - unat len" using unat_sub[of len USERTOP] False by (simp add: not_less)
    have lo: "\<forall>a \<in> set ?xs. 0x200000 \<le> unat (vm_start (vmas v a))" using assms(2) by (auto simp: user_ok_def USER_ACCESS_def word_le_nat_alt)
    have pos: "0 < unat len" using assms(3) by (simp add: unat_gt_0)
    have "let r = area_loop (rev ?xs) len (USERTOP - len) (vmas v) in
     r = 0 \<and> (\<forall>s. \<not> gap (vmas v) (?xs @ []) (unat len) s) \<or> gap (vmas v) (?xs @ []) (unat len) (unat r) \<and> (\<forall>s. gap (vmas v) (?xs @ []) (unat len) s \<longrightarrow> s \<le> unat r)"
      by (rule area_loop_ok[OF ar lo pos]) (use st le in \<open>auto simp: gap_def\<close>)
    then show ?thesis using False assms(3) unfolding get_unmapped_area_def Let_def fg append_Nil2 by (simp only: word_le_nat_alt if_False simp_thms) blast
  qed
qed

section \<open>Checking user memory\<close>

text \<open>The address \<open>x\<close> may be read (or written): it lies in an area with the flag and, for a write, not
  in the guard page of a stack.\<close>

definition access_ok :: "vm \<Rightarrow> nat \<Rightarrow> bool \<Rightarrow> u32 \<Rightarrow> bool" where
  "access_ok v k wr x =
    (case area_at (vmas v) (mmap_list (mms v k)) x of
       None \<Rightarrow> False
     | Some a \<Rightarrow> vm_flags (vmas v a) AND (if wr then VM_WRITE else VM_READ) \<noteq> 0
         \<and> \<not> (wr \<and> vm_flags (vmas v a) AND VM_STACK \<noteq> 0 \<and> x < vm_start (vmas v a) + PGSIZE))"

lemma access_set_cache [simp]: "access_ok (set_cache k r v) j wr x = access_ok v j wr x"
  by (simp add: access_ok_def set_cache_fields(1) cong: option.case_cong)

lemma area_at_above:
  assumes "areas_ok vs xs"
  shows "area_at vs xs x = (case above vs x xs of None \<Rightarrow> None | Some a \<Rightarrow> if x < vm_start (vs a) then None else Some a)"
proof (cases "above vs x xs")
  case None
  then have "area_at vs xs x = None" by (auto simp: above_None area_at_None not_less)
  then show ?thesis using None by simp
next
  case (Some a)
  then obtain as bs where xs: "xs = as @ a # bs" "x < vm_end (vs a)" "\<forall>b \<in> set as. vm_end (vs b) \<le> x"
    using above_Some by blast
  show ?thesis
  proof (cases "x < vm_start (vs a)")
    case True
    have "x < vm_start (vs b)" if "b \<in> set bs" for b
      using assms that xs(2) unfolding xs(1) by (auto intro: less_le_trans)
    then have "area_at vs xs x = None" using True xs by (auto simp: area_at_None not_less not_le)
    then show ?thesis using Some True by simp
  next
    case False
    then show ?thesis using area_at_Some[OF assms, of a x] Some xs by simp
  qed
qed

lemma check_loop_ok:
  "mm_ok v k \<Longrightarrow> \<exists>v'. check_loop k s e wr v = Some (\<forall>x. s \<le> x \<and> x < e \<longrightarrow> access_ok v k wr x, v')
     \<and> mm_ok v' k \<and> area_map v' k = area_map v k \<and> pm v' = pm v"
proof (induction "unat e - unat s" arbitrary: s v rule: less_induct)
  case less
  let ?xs = "mmap_list (mms v k)" and ?all = "\<lambda>s. \<forall>x. s \<le> x \<and> x < e \<longrightarrow> access_ok v k wr x"
  have ar: "areas_ok (vmas v) ?xs" using less.prems by (simp add: mm_ok_def)
  define r where "r = above (vmas v) s ?xs"
  define v1 where "v1 = set_cache k r v"
  have ok1: "mm_ok v1 k" unfolding v1_def by (rule set_cache_ok[OF less.prems]) (use above_member r_def in metis)
  have fnd: "find_vma (Some k) s v = Some (r, v1)" unfolding r_def v1_def by (rule find_vma_ok[OF less.prems])
  have f: "vmas v1 = vmas v" "area_map v1 k = area_map v k" "pm v1 = pm v" "\<And>x. access_ok v1 k wr x = access_ok v k wr x"
    by (simp_all add: v1_def)
  have at: "area_at (vmas v) ?xs s = (case r of None \<Rightarrow> None | Some a \<Rightarrow> if s < vm_start (vmas v a) then None else Some a)"
    unfolding r_def by (rule area_at_above[OF ar])
  show ?case
  proof (cases "s < e")
    case False
    then have "?all s" by auto
    then show ?thesis using False less.prems by (simp add: check_loop.simps)
  next
    case True
    show ?thesis
    proof (cases "access_ok v k wr s")
      case False
      then have no: "\<not> ?all s" using True by auto
      have "check_loop k s e wr v = Some (False, v1)"
      proof (cases "area_at (vmas v) ?xs s")
        case None
        then have "r = None \<or> (\<exists>a. r = Some a \<and> s < vm_start (vmas v a))" using at by (auto split: option.splits if_splits)
        then show ?thesis unfolding check_loop.simps[of k s] fnd using True f(1) by auto
      next
        case (Some a)
        then have "r = Some a" "\<not> s < vm_start (vmas v a)" using at by (auto split: option.splits if_splits)
        moreover have "vm_flags (vmas v a) AND (if wr then VM_WRITE else VM_READ) = 0
          \<or> wr \<and> vm_flags (vmas v a) AND VM_STACK \<noteq> 0 \<and> s < vm_start (vmas v a) + PGSIZE"
          using False Some by (simp add: access_ok_def)
        ultimately show ?thesis unfolding check_loop.simps[of k s] fnd using True f(1) by auto
      qed
      then show ?thesis using no ok1 f by (intro exI[of _ v1]) simp
    next
      case acc: True
      then obtain a where a: "area_at (vmas v) ?xs s = Some a" by (auto simp: access_ok_def split: option.splits)
      then have am: "a \<in> set ?xs" "vm_start (vmas v a) \<le> s" "s < vm_end (vmas v a)" using area_at_iff[OF ar] by auto
      have ra: "r = Some a" using a at by (auto split: option.splits if_splits)
      have fl: "vm_flags (vmas v a) AND (if wr then VM_WRITE else VM_READ) \<noteq> 0"
        "\<not> (wr \<and> vm_flags (vmas v a) AND VM_STACK \<noteq> 0 \<and> s < vm_start (vmas v a) + PGSIZE)"
        using acc a by (simp_all add: access_ok_def)
      have step: "check_loop k s e wr v = check_loop k (vm_end (vmas v a)) e wr v1"
        unfolding check_loop.simps[of k s] fnd ra using True am fl by (auto simp: f(1) not_less[symmetric])
      have "unat e - unat (vm_end (vmas v a)) < unat e - unat s" using True am(3) unfolding word_less_nat_alt by linarith
      then obtain v' where v': "check_loop k (vm_end (vmas v a)) e wr v1 = Some (\<forall>x. vm_end (vmas v a) \<le> x \<and> x < e \<longrightarrow> access_ok v1 k wr x, v')"
        "mm_ok v' k" "area_map v' k = area_map v1 k" "pm v' = pm v1"
        using less.hyps[OF _ ok1] by blast
      have inside: "access_ok v k wr x" if x: "s \<le> x" "x < vm_end (vmas v a)" for x
      proof -
        have "area_at (vmas v) ?xs x = Some a" by (rule area_at_Some[OF ar am(1)]) (use am x in auto)
        moreover have "\<not> (wr \<and> vm_flags (vmas v a) AND VM_STACK \<noteq> 0 \<and> x < vm_start (vmas v a) + PGSIZE)"
          using fl(2) x(1) by (meson le_less_trans)
        ultimately show ?thesis using fl(1) by (simp add: access_ok_def)
      qed
      have "(\<forall>x. vm_end (vmas v a) \<le> x \<and> x < e \<longrightarrow> access_ok v k wr x) \<longleftrightarrow> ?all s"
        using inside am(3) by (meson not_le less_imp_le order_trans)
      then show ?thesis using step v' f by (intro exI[of _ v']) simp
    qed
  qed
qed

lemma user_mem_check_ok:
  assumes "mm_ok v k"
  shows "\<exists>v'. user_mem_check (Some k) addr len wr v = Some (USER_ACCESS addr (addr + len) \<and> (\<forall>x. addr \<le> x \<and> x < addr + len \<longrightarrow> access_ok v k wr x), v')
    \<and> mm_ok v' k \<and> area_map v' k = area_map v k \<and> pm v' = pm v"
  using check_loop_ok[OF assms, of addr "addr + len" wr] assms by (cases "USER_ACCESS addr (addr + len)") (auto simp: user_mem_check_def)

section \<open>An example\<close>

text \<open>Three areas indexed by a tree: a read-only one, a writable one and a stack.\<close>

definition demo_area :: "u32 \<Rightarrow> u32 \<Rightarrow> u32 \<Rightarrow> vma_struct" where
  "demo_area s e f = \<lparr>vm_mm = 1, vm_start = s, vm_end = e, vm_flags = f, vm_shmem = None, shmem_off = 0\<rparr>"

definition demo_vm :: vm where
  "demo_vm = \<lparr>pm = demo_space3,
     vmas = (\<lambda>a. if a = 3 then demo_area 0x300000 0x302000 1 else if a = 5 then demo_area 0x800000 0x802000 3
       else demo_area 0xAFF00000 0xB0000000 0xB),
     mms = (\<lambda>_. \<lparr>mmap_list = [3, 5, 8], mmap_tree = Some three_rb, mmap_cache = None, pgdir = demo_dir, map_count = 3,
       swap_address = 0, mm_count = 1, brk_start = 0, brk = 0\<rparr>),
     shmems = (\<lambda>_. \<lparr>shmn_list = [], shmn_cache = None, sh_len = 0, shmem_ref = 0\<rparr>),
     shmns = (\<lambda>_. \<lparr>sn_start = 0, sn_end = 0, sn_entry = 0\<rparr>), heap = [Some 20, Some 21]\<rparr>"

lemma demo_vm_ok: "mm_ok demo_vm 1" "user_ok demo_vm 1"
proof -
  have "rb_repr three_rb [3, 5, 8]" unfolding rb_repr_def
    by (rule exI[of _ "Node (Node Leaf 3 Leaf) 5 (Node Leaf 8 Leaf)"]) (simp add: three_rb_ok)
  moreover have "rb_outside three_rb z" if "z = 20 \<or> z = 21" for z using that by (auto simp: rb_outside_def three_rb_def)
  ultimately show "mm_ok demo_vm 1"
    by (auto simp: mm_ok_def demo_vm_def demo_area_def index_ok_def heap_ok_def heap_set_def)
  show "user_ok demo_vm 1" by (simp add: user_ok_def demo_vm_def demo_area_def USER_ACCESS_def)
qed

section \<open>Properties\<close>

text \<open>\<open>find_vma\<close> gives the same answer whether the areas are indexed by the tree, walked in
  the list or remembered in the cache: the first area that ends above the address.  It ends, and
  leaves the descriptor consistent and the map of the address space unchanged.\<close>

theorem find_vma_correct:
  assumes "mm_ok v k"
  shows "\<exists>v'. find_vma (Some k) addr v = Some (List.find (\<lambda>a. addr < vm_end (vmas v a)) (mmap_list (mms v k)), v')
    \<and> mm_ok v' k \<and> area_map v' k = area_map v k"
  unfolding find_vma_ok[OF assms] above_def[symmetric]
  using set_cache_ok[OF assms] above_member by auto

theorem find_vma_correct_witness:
  "\<exists>v'. find_vma (Some 1) 0x400000 demo_vm = Some (Some 5, v') \<and> mm_ok v' 1"
  using find_vma_correct[OF demo_vm_ok(1), of "0x400000"] by (auto simp: demo_vm_def demo_area_def)

text \<open>C23: \<open>mm_map\<close> of a range, rounded to pages, fails with \<open>-E_INVAL\<close> when the range is not in user
  space or overlaps an area, and with \<open>-E_NO_MEM\<close> when no area can be allocated; in both cases the
  map of the address space is unchanged.  Otherwise it returns 0, and the addresses of the range
  are mapped with the flags (without \<open>VM_SHARE\<close>), all others as before.  The descriptor (list,
  tree, cache, count) stays consistent.\<close>

theorem mm_map_correct:
  assumes "mm_ok v k" "user_ok v k" "s = ROUNDDOWN addr PGSIZE" "e = ROUNDUP (addr + len) PGSIZE"
  shows "\<exists>r v'. mm_map k addr len f v = Some (r, v') \<and> mm_ok v' k \<and> user_ok v' k
    \<and> (if \<not> USER_ACCESS s e \<or> (\<exists>x. s \<le> x \<and> x < e \<and> area_map v k x \<noteq> None) then r = (- E_INVAL, None) \<and> area_map v' k = area_map v k
       else if heap v = [] \<or> hd (heap v) = None then r = (- E_NO_MEM, None) \<and> area_map v' k = area_map v k
       else (\<exists>a. r = (0, Some a)) \<and> area_map v' k = (\<lambda>x. if s \<le> x \<and> x < e then Some (f AND NOT VM_SHARE) else area_map v k x))"
  using mm_map_ok[OF assms(1,3,4), of f] assms(2)
  by (cases "\<not> USER_ACCESS s e \<or> (\<exists>x. s \<le> x \<and> x < e \<and> area_map v k x \<noteq> None)"; cases "heap v = [] \<or> hd (heap v) = None")
    (simp_all only: if_True if_False, blast+)

theorem mm_map_correct_witness:
  "\<exists>a v'. mm_map 1 0x400010 0x1000 3 demo_vm = Some ((0, Some a), v') \<and> area_map v' 1 0x401FFF = Some 3"
proof -
  have r: "0x400000 = ROUNDDOWN 0x400010 PGSIZE" "0x402000 = ROUNDUP (0x400010 + 0x1000) PGSIZE"
    by (simp_all add: ROUNDDOWN_def ROUNDUP_def)
  have "\<not> (\<exists>x. 0x400000 \<le> x \<and> x < 0x402000 \<and> area_map demo_vm 1 x \<noteq> None)"
    by (auto simp: area_map_def area_at_def demo_vm_def demo_area_def word_le_nat_alt word_less_nat_alt)
  moreover have "USER_ACCESS 0x400000 0x402000" by (simp add: USER_ACCESS_def)
  ultimately have no: "(\<not> USER_ACCESS 0x400000 0x402000 \<or> (\<exists>x. 0x400000 \<le> x \<and> x < 0x402000 \<and> area_map demo_vm 1 x \<noteq> None)) = False"
    by blast
  have h: "(heap demo_vm = [] \<or> hd (heap demo_vm) = None) = False" by (simp add: demo_vm_def)
  obtain a v' where "mm_map 1 0x400010 0x1000 3 demo_vm = Some ((0, Some a), v')"
    "area_map v' 1 = (\<lambda>x. if 0x400000 \<le> x \<and> x < 0x402000 then Some (3 AND NOT VM_SHARE) else area_map demo_vm 1 x)"
    using mm_map_correct[OF demo_vm_ok r, of 3] unfolding no h if_False by blast
  then show ?thesis by auto
qed

text \<open>C24: \<open>get_unmapped_area\<close> returns the highest address of user space at which a range of the given
  length is free, and 0 exactly when there is none.\<close>

theorem get_unmapped_area_correct:
  assumes "mm_ok v k" "user_ok v k" "len \<noteq> 0"
  shows "let r = get_unmapped_area k len v in
    r = 0 \<and> (\<forall>s. \<not> free_range v k len s) \<or> free_range v k len r \<and> (\<forall>s. free_range v k len s \<longrightarrow> s \<le> r)"
  using assms by (rule get_unmapped_area_ok)

theorem get_unmapped_area_correct_witness:
  "get_unmapped_area 1 0x1000 demo_vm = 0xAFEFF000 \<and> free_range demo_vm 1 0x1000 0xAFEFF000"
proof -
  have "get_unmapped_area 1 0x1000 demo_vm = 0xAFEFF000"
    by (simp add: get_unmapped_area_def demo_vm_def demo_area_def)
  then show ?thesis using get_unmapped_area_correct[OF demo_vm_ok, of "0x1000"] by (simp add: Let_def)
qed

text \<open>C25: \<open>user_mem_check\<close> ends and says yes exactly when the range lies in user space and each of its
  addresses is in an area that allows the access and, for a write, not in the lowest page of a
  stack.\<close>

theorem user_mem_check_correct:
  assumes "mm_ok v k"
  shows "\<exists>v'. user_mem_check (Some k) addr len wr v =
      Some (USER_ACCESS addr (addr + len) \<and> (\<forall>x. addr \<le> x \<and> x < addr + len \<longrightarrow> access_ok v k wr x), v')
    \<and> mm_ok v' k \<and> area_map v' k = area_map v k \<and> pm v' = pm v"
  using assms by (rule user_mem_check_ok)

theorem user_mem_check_correct_witness:
  "\<exists>b v'. user_mem_check (Some 1) 0xAFF00FF0 0x20 True demo_vm = Some (b, v') \<and> \<not> b"
proof -
  have "\<not> access_ok demo_vm 1 True 0xAFF00FF0" "\<not> (0xAFF00FF0 + 0x20 \<le> (0xAFF00FF0 :: u32))"
    by (simp_all add: access_ok_def area_at_def demo_vm_def demo_area_def)
  then show ?thesis
    using user_mem_check_correct[OF demo_vm_ok(1), of "0xAFF00FF0" "0x20" True] by (auto simp: not_le)
qed

end
