(* ===== verification/Slab.thy ===== *)
theory Slab
  imports Buddy
begin

text \<open>
  The slab allocator \<open>kern/mm/slab.c\<close>, which serves \<open>kmalloc\<close> and \<open>kfree\<close> from thirteen caches of
  objects of 32 bytes to 128 KB.  A cache is its index in \<open>slab_cache\<close>; kernel virtual addresses
  are numbers; a \<open>slab_t\<close> is named by its address, and the array of \<open>kmem_bufctl_t\<close> behind it is
  its field \<open>bufctl\<close>.  The pointers that \<open>SET_PAGE_CACHE\<close> and \<open>SET_PAGE_SLAB\<close> hide in the list
  link of a page descriptor are the fields \<open>page_cache\<close> and \<open>page_slab\<close> of the state.  All sizes
  stay far below \<open>2^32\<close>.  Pages come from the buddy allocator; \<open>local_intr_save\<close> makes the critical
  sections atomic.
\<close>

section \<open>The state\<close>

abbreviation (input) "MIN_SIZE_ORDER \<equiv> (5 :: nat)"
abbreviation (input) "MAX_SIZE_ORDER \<equiv> (17 :: nat)"
abbreviation (input) "SLAB_CACHE_NUM \<equiv> (13 :: nat)"
abbreviation (input) "KMALLOC_MAX_ORDER \<equiv> (10 :: nat)"
abbreviation (input) "BUFCTL_END \<equiv> (0xFFFFFFFF :: nat)"
abbreviation (input) "SLAB_LIMIT \<equiv> (0xFFFFFFFE :: nat)"
abbreviation (input) "sizeof_slab_t \<equiv> (24 :: nat)"
abbreviation (input) "sizeof_bufctl \<equiv> (4 :: nat)"
abbreviation (input) "PAGE \<equiv> (4096 :: nat)"

record slab_t =
  s_mem :: nat
  s_inuse :: nat
  s_offset :: nat
  s_free :: nat
  bufctl :: "nat \<Rightarrow> nat"

record kmem_cache_s =
  slabs_full :: "nat list"
  slabs_notfull :: "nat list"
  objsize :: nat
  c_num :: nat
  c_offset :: nat
  off_slab :: bool
  page_order :: nat
  slab_cachep :: nat

record slab_state =
  pb :: buddy
  slab_cache :: "nat \<Rightarrow> kmem_cache_s"
  slabs :: "nat \<Rightarrow> slab_t"
  page_cache :: "nat \<Rightarrow> nat"
  page_slab :: "nat \<Rightarrow> nat"

definition upd_cache :: "nat \<Rightarrow> (kmem_cache_s \<Rightarrow> kmem_cache_s) \<Rightarrow> slab_state \<Rightarrow> slab_state" where
  "upd_cache c f s = s\<lparr>slab_cache := (slab_cache s)(c := f (slab_cache s c))\<rparr>"

definition upd_slab :: "nat \<Rightarrow> (slab_t \<Rightarrow> slab_t) \<Rightarrow> slab_state \<Rightarrow> slab_state" where
  "upd_slab a f s = s\<lparr>slabs := (slabs s)(a := f (slabs s a))\<rparr>"

definition page2kva :: "nat \<Rightarrow> nat" where
  "page2kva p = 0xC0000000 + PAGE * p"

definition kva2page :: "nat \<Rightarrow> slab_state \<Rightarrow> nat option" where
  "kva2page a s =
    (if 0xC0000000 \<le> a \<and> (a - 0xC0000000) div PAGE < npage (pb s) then Some ((a - 0xC0000000) div PAGE) else None)"

section \<open>Setting up the caches\<close>

definition round_up :: "nat \<Rightarrow> nat \<Rightarrow> nat" where
  "round_up a n = (a + n - 1) - (a + n - 1) mod n"

definition slab_mgmt_size :: "nat \<Rightarrow> nat \<Rightarrow> nat" where
  "slab_mgmt_size n align = round_up (sizeof_slab_t + n * sizeof_bufctl) align"

text \<open>The loop that takes objects away until the slab fits; it stops before 0 objects are tried
  again, as the control part of no object fits into a page.\<close>

fun fit_objs :: "nat \<Rightarrow> nat \<Rightarrow> nat \<Rightarrow> nat \<Rightarrow> nat" where
  "fit_objs slab_size objsz align 0 = 0"
| "fit_objs slab_size objsz align (Suc n) =
    (if slab_mgmt_size (Suc n) align + Suc n * objsz > slab_size then fit_objs slab_size objsz align n else Suc n)"

definition cache_estimate :: "nat \<Rightarrow> nat \<Rightarrow> nat \<Rightarrow> bool \<Rightarrow> nat \<times> nat" where
  "cache_estimate order objsz align off =
    (let slab_size = PAGE * 2 ^ order
     in if off then
          (let nr = min (slab_size div objsz) SLAB_LIMIT in (slab_size - nr * objsz, nr))
        else
          (let nr = min (fit_objs slab_size objsz align ((slab_size - sizeof_slab_t) div (objsz + sizeof_bufctl))) SLAB_LIMIT
           in (slab_size - nr * objsz - slab_mgmt_size nr align, nr)))"

text \<open>The loop over the orders from \<open>order\<close> on; the result is \<open>num\<close>, \<open>page_order\<close> and
  \<open>left_over\<close>.\<close>

fun slab_order_loop :: "nat list \<Rightarrow> nat \<Rightarrow> nat \<Rightarrow> bool \<Rightarrow> (nat \<times> nat \<times> nat) option" where
  "slab_order_loop [] objsz align off = None"
| "slab_order_loop (order # os) objsz align off =
    (let (remainder, nr) = cache_estimate order objsz align off
     in if nr \<noteq> 0 then do {
          kassert (\<not> (off \<and> nr > (objsz - sizeof_slab_t) div sizeof_bufctl));
          (if remainder * 8 \<le> PAGE * 2 ^ order then Some (nr, order, remainder)
           else slab_order_loop os objsz align off)
        }
        else slab_order_loop os objsz align off)"

definition calculate_slab_order :: "nat \<Rightarrow> nat \<Rightarrow> bool \<Rightarrow> (nat \<times> nat \<times> nat) option" where
  "calculate_slab_order objsz align off = slab_order_loop [0..<KMALLOC_MAX_ORDER + 1] objsz align off"

definition slab_getorder :: "nat \<Rightarrow> nat option" where
  "slab_getorder n = List.find (\<lambda>order. n \<le> 2 ^ order) [MIN_SIZE_ORDER..<MAX_SIZE_ORDER + 1]"

definition init_kmem_cache :: "nat \<Rightarrow> nat \<Rightarrow> nat \<Rightarrow> slab_state \<Rightarrow> slab_state option" where
  "init_kmem_cache c objsz align s = do {
     let objsz = round_up objsz align;
     let off = (objsz \<ge> PAGE div 8);
     (nr, order, left_over) \<leftarrow> calculate_slab_order objsz align off;
     kassert (nr > 0);
     let mgmt = slab_mgmt_size nr align;
     let off = (off \<and> \<not> left_over \<ge> mgmt);
     cachep \<leftarrow> (if off then do { order \<leftarrow> slab_getorder mgmt; Some (order - MIN_SIZE_ORDER) }
                else Some (slab_cachep (slab_cache s c)));
     Some (upd_cache c (\<lambda>_. \<lparr>slabs_full = [], slabs_notfull = [], objsize = objsz, c_num = nr,
       c_offset = (if off then 0 else mgmt), off_slab = off, page_order = order, slab_cachep = cachep\<rparr>) s)
   }"

fun init_caches :: "nat list \<Rightarrow> slab_state \<Rightarrow> slab_state option" where
  "init_caches [] s = Some s"
| "init_caches (i # is) s = do { s \<leftarrow> init_kmem_cache i (2 ^ (i + MIN_SIZE_ORDER)) 16 s; init_caches is s }"

definition slab_init :: "slab_state \<Rightarrow> slab_state option" where
  "slab_init s = init_caches [0..<SLAB_CACHE_NUM] s"

definition slab_allocated :: "slab_state \<Rightarrow> nat" where
  "slab_allocated s =
    (\<Sum>i\<leftarrow>[0..<SLAB_CACHE_NUM].
       (\<Sum>a\<leftarrow>slabs_full (slab_cache s i). c_num (slab_cache s i) * objsize (slab_cache s i))
       + (\<Sum>a\<leftarrow>slabs_notfull (slab_cache s i). s_inuse (slabs s a) * objsize (slab_cache s i)))"

section \<open>Allocation\<close>

text \<open>\<open>kmem_cache_slabmgmt\<close> with the result of \<open>kmem_cache_alloc\<close> when the control part is off the
  slab.\<close>

definition init_slabmgmt :: "nat \<Rightarrow> nat \<Rightarrow> nat \<Rightarrow> slab_state \<Rightarrow> slab_state" where
  "init_slabmgmt c page slabp s =
    (let cachep = slab_cache s c
     in upd_slab slabp (\<lambda>sl. sl\<lparr>s_inuse := 0, s_offset := c_offset cachep, s_mem := page2kva page + c_offset cachep\<rparr>) s)"

definition set_page :: "nat \<Rightarrow> nat \<Rightarrow> nat \<Rightarrow> slab_state \<Rightarrow> slab_state" where
  "set_page c slabp page s =
    s\<lparr>page_cache := (page_cache s)(page := c), page_slab := (page_slab s)(page := slabp),
      pb := upd_page page SetPageSlab (pb s)\<rparr>"

text \<open>The rest of \<open>kmem_cache_grow\<close> once it has the pages and the control part.\<close>

definition finish_grow :: "nat \<Rightarrow> nat \<Rightarrow> nat \<Rightarrow> slab_state \<Rightarrow> slab_state" where
  "finish_grow c page slabp s =
    (let s = init_slabmgmt c page slabp s;
         s = fold (set_page c slabp) [page..<page + 2 ^ page_order (slab_cache s c)] s;
         n = c_num (slab_cache s c);
         s = upd_slab slabp (\<lambda>sl. sl\<lparr>bufctl := fold (\<lambda>i b. b(i := i + 1)) [0..<n] (bufctl sl)\<rparr>) s;
         s = upd_slab slabp (\<lambda>sl. sl\<lparr>bufctl := (bufctl sl)(n - 1 := BUFCTL_END), s_free := 0\<rparr>) s
     in upd_cache c (\<lambda>ch. ch\<lparr>slabs_notfull := slabp # slabs_notfull ch\<rparr>) s)"

definition slab_alloc_pages :: "nat \<Rightarrow> slab_state \<Rightarrow> (nat option \<times> slab_state) option" where
  "slab_alloc_pages n s = do { (r, b) \<leftarrow> buddy_alloc_pages n (pb s); Some (r, s\<lparr>pb := b\<rparr>) }"

definition slab_free_pages :: "nat \<Rightarrow> nat \<Rightarrow> slab_state \<Rightarrow> slab_state option" where
  "slab_free_pages page n s = do { b \<leftarrow> buddy_free_pages page n (pb s); Some (s\<lparr>pb := b\<rparr>) }"

definition kmem_cache_alloc_one :: "nat \<Rightarrow> nat \<Rightarrow> slab_state \<Rightarrow> nat \<times> slab_state" where
  "kmem_cache_alloc_one c slabp s =
    (let s = upd_slab slabp (\<lambda>sl. sl\<lparr>s_inuse := (s_inuse sl + 1) mod 2 ^ 32\<rparr>) s;
         sl = slabs s slabp;
         objp = s_mem sl + s_free sl * objsize (slab_cache s c);
         s = upd_slab slabp (\<lambda>sl. sl\<lparr>s_free := bufctl sl (s_free sl)\<rparr>) s
     in (objp,
         if s_free (slabs s slabp) = BUFCTL_END
         then upd_cache c (\<lambda>ch. ch\<lparr>slabs_notfull := remove1 slabp (slabs_notfull ch), slabs_full := slabp # slabs_full ch\<rparr>) s
         else s))"

partial_function (option) kmem_cache_alloc :: "nat \<Rightarrow> slab_state \<Rightarrow> (nat option \<times> slab_state) option" where
  "kmem_cache_alloc c s =
    (case slabs_notfull (slab_cache s c) of
       slabp # _ \<Rightarrow> (let (objp, s) = kmem_cache_alloc_one c slabp s in Some (Some objp, s))
     | [] \<Rightarrow> do {
         (page, s) \<leftarrow> slab_alloc_pages (2 ^ page_order (slab_cache s c)) s;
         (case page of
            None \<Rightarrow> Some (None, s)
          | Some p \<Rightarrow> do {
              (slabp, s) \<leftarrow> (if off_slab (slab_cache s c) then kmem_cache_alloc (slab_cachep (slab_cache s c)) s
                            else Some (Some (page2kva p), s));
              (case slabp of
                 None \<Rightarrow> do { s \<leftarrow> slab_free_pages p (2 ^ page_order (slab_cache s c)) s; Some (None, s) }
               | Some a \<Rightarrow> kmem_cache_alloc c (finish_grow c p a s))
            })
       })"

definition kmem_cache_slabmgmt :: "nat \<Rightarrow> nat \<Rightarrow> slab_state \<Rightarrow> (nat option \<times> slab_state) option" where
  "kmem_cache_slabmgmt c p s = do {
     (slabp, s) \<leftarrow> (if off_slab (slab_cache s c) then kmem_cache_alloc (slab_cachep (slab_cache s c)) s
                   else Some (Some (page2kva p), s));
     Some (case slabp of None \<Rightarrow> (None, s) | Some a \<Rightarrow> (Some a, init_slabmgmt c p a s))
   }"

definition kmem_cache_grow :: "nat \<Rightarrow> slab_state \<Rightarrow> (bool \<times> slab_state) option" where
  "kmem_cache_grow c s = do {
     (page, s) \<leftarrow> slab_alloc_pages (2 ^ page_order (slab_cache s c)) s;
     (case page of
        None \<Rightarrow> Some (False, s)
      | Some p \<Rightarrow> do {
          (slabp, s) \<leftarrow> (if off_slab (slab_cache s c) then kmem_cache_alloc (slab_cachep (slab_cache s c)) s
                        else Some (Some (page2kva p), s));
          (case slabp of
             None \<Rightarrow> do { s \<leftarrow> slab_free_pages p (2 ^ page_order (slab_cache s c)) s; Some (False, s) }
           | Some a \<Rightarrow> Some (True, finish_grow c p a s))
        })
   }"

text \<open>The two routines as they call each other in the source.\<close>

lemma kmem_cache_alloc_grow:
  "kmem_cache_alloc c s =
    (case slabs_notfull (slab_cache s c) of
       slabp # _ \<Rightarrow> (let (objp, s) = kmem_cache_alloc_one c slabp s in Some (Some objp, s))
     | [] \<Rightarrow> do { (ok, s) \<leftarrow> kmem_cache_grow c s; if ok then kmem_cache_alloc c s else Some (None, s) })"
  by (subst kmem_cache_alloc.simps)
    (auto simp: kmem_cache_grow_def Let_def split: list.splits option.splits bind_splits intro!: Option.bind_cong)

definition kmalloc_slab :: "nat \<Rightarrow> slab_state \<Rightarrow> (nat option \<times> slab_state) option" where
  "kmalloc_slab n s = do {
     kassert (n > 0);
     order \<leftarrow> slab_getorder n;
     (if order > MAX_SIZE_ORDER then Some (None, s) else kmem_cache_alloc (order - MIN_SIZE_ORDER) s)
   }"

section \<open>Freeing\<close>

text \<open>The loop of \<open>kmem_slab_destroy\<close> over the pages of the slab.\<close>

fun clear_pages :: "nat list \<Rightarrow> slab_state \<Rightarrow> slab_state option" where
  "clear_pages [] s = Some s"
| "clear_pages (p # ps) s = do {
     kassert (PageSlab (pages (pb s) p));
     clear_pages ps (s\<lparr>pb := upd_page p ClearPageSlab (pb s)\<rparr>)
   }"

text \<open>\<open>kmem_slab_destroy\<close> up to the release of the control part.\<close>

definition release_slab :: "nat \<Rightarrow> nat \<Rightarrow> slab_state \<Rightarrow> slab_state option" where
  "release_slab c slabp s = do {
     page \<leftarrow> kva2page (s_mem (slabs s slabp) - s_offset (slabs s slabp)) s;
     s \<leftarrow> clear_pages [page..<page + 2 ^ page_order (slab_cache s c)] s;
     slab_free_pages page (2 ^ page_order (slab_cache s c)) s
   }"

text \<open>\<open>kmem_cache_free_one\<close> up to its call of \<open>kmem_slab_destroy\<close>: \<open>True\<close> if it is made.\<close>

definition unlink_slab :: "nat \<Rightarrow> kmem_cache_s \<Rightarrow> kmem_cache_s" where
  "unlink_slab slabp ch = ch\<lparr>slabs_full := remove1 slabp (slabs_full ch), slabs_notfull := remove1 slabp (slabs_notfull ch)\<rparr>"

definition put_object :: "nat \<Rightarrow> nat \<Rightarrow> nat \<Rightarrow> slab_state \<Rightarrow> bool \<times> slab_state" where
  "put_object c slabp objp s =
    (let objnr = (objp - s_mem (slabs s slabp)) div objsize (slab_cache s c);
         s = upd_slab slabp (\<lambda>sl. sl\<lparr>bufctl := (bufctl sl)(objnr := s_free sl), s_free := objnr, s_inuse := (s_inuse sl + 0xFFFFFFFF) mod 2 ^ 32\<rparr>) s
     in if s_inuse (slabs s slabp) = 0 then (True, upd_cache c (unlink_slab slabp) s)
        else if s_inuse (slabs s slabp) = c_num (slab_cache s c) - 1
        then (False, upd_cache c (\<lambda>ch. (unlink_slab slabp ch)\<lparr>slabs_notfull := slabp # slabs_notfull (unlink_slab slabp ch)\<rparr>) s)
        else (False, s))"

partial_function (option) kmem_cache_free :: "nat \<Rightarrow> nat \<Rightarrow> slab_state \<Rightarrow> slab_state option" where
  "kmem_cache_free c objp s = do {
     page \<leftarrow> kva2page objp s;
     kassert (PageSlab (pages (pb s) page));
     let slabp = page_slab s page;
     let (dead, s) = put_object c slabp objp s;
     (if dead then do {
        s \<leftarrow> release_slab c slabp s;
        (if off_slab (slab_cache s c) then kmem_cache_free (slab_cachep (slab_cache s c)) slabp s else Some s)
      }
      else Some s)
   }"

definition kmem_slab_destroy :: "nat \<Rightarrow> nat \<Rightarrow> slab_state \<Rightarrow> slab_state option" where
  "kmem_slab_destroy c slabp s = do {
     s \<leftarrow> release_slab c slabp s;
     (if off_slab (slab_cache s c) then kmem_cache_free (slab_cachep (slab_cache s c)) slabp s else Some s)
   }"

definition kmem_cache_free_one :: "nat \<Rightarrow> nat \<Rightarrow> nat \<Rightarrow> slab_state \<Rightarrow> slab_state option" where
  "kmem_cache_free_one c slabp objp s =
    (let (dead, s) = put_object c slabp objp s in if dead then kmem_slab_destroy c slabp s else Some s)"

lemma kmem_cache_free_step:
  "kmem_cache_free c objp s = do {
     page \<leftarrow> kva2page objp s;
     kassert (PageSlab (pages (pb s) page));
     kmem_cache_free_one c (page_slab s page) objp s
   }"
  unfolding kmem_cache_free_one_def kmem_slab_destroy_def by (subst kmem_cache_free.simps) (simp only: Let_def)

definition kfree :: "nat \<Rightarrow> slab_state \<Rightarrow> slab_state option" where
  "kfree objp s = do {
     page \<leftarrow> kva2page objp s;
     kmem_cache_free (page_cache s page) objp s
   }"

end
