(* ===== verification/BuddyRange.thy ===== *)
theory BuddyRange
  imports BuddyFrame
begin

text \<open>
  The frame of the buddy allocator for extents of any length: \<open>buddy_free_pages\<close> writes to
  descriptors of the range and of free pages, \<open>buddy_alloc_pages\<close> to those of free pages.
\<close>

definition framed :: "nat set \<Rightarrow> buddy \<Rightarrow> buddy \<Rightarrow> bool" where
  "framed S b b' \<longleftrightarrow> (\<forall>q. q \<notin> S \<longrightarrow> pages b' q = pages b q) \<and> (\<forall>q. p_zone_num (pages b' q) = p_zone_num (pages b q))
     \<and> npage b' = npage b \<and> zones b' = zones b"

lemma framed_refl [simp]: "framed S b b"
  by (simp add: framed_def)

lemma framed_trans: "framed S b c \<Longrightarrow> framed T c d \<Longrightarrow> S \<union> T \<subseteq> U \<Longrightarrow> framed U b d"
  unfolding framed_def by (metis UnI1 UnI2 subset_iff)

lemma framed_heads: "framed S b b' \<Longrightarrow> heads b' \<subseteq> heads b \<union> S"
  by (auto simp: framed_def heads_def)

lemma framed_add: "framed {p} b (add_block k p b)"
  by (simp add: framed_def)

lemma framed_take: "framed {p} b (upd_page p ClearPageProperty (unlink_block k p b))"
  by (simp add: framed_def)

lemma framed_merge:
  assumes "merge_buddies z idx k b = (idx', k', b')"
  shows "framed (heads b) b b'"
  using assms
proof (induction z idx k b rule: merge_buddies.induct)
  case (1 z idx k b)
  let ?p = "zones b z + (idx XOR 2 ^ k)"
  let ?t = "upd_page ?p ClearPageProperty (unlink_block k ?p b)"
  show ?case
  proof (cases "k < MAX_ORDER \<and> page_is_buddy ?p k z b")
    case True
    then have p: "?p \<in> heads b" by (auto simp: page_is_buddy_def heads_def split: if_splits)
    have sub: "heads ?t \<subseteq> heads b" by (auto simp: heads_def split: if_splits)
    have eq: "merge_buddies z (idx AND (idx XOR 2 ^ k)) (k + 1) ?t = (idx', k', b')"
      using "1.prems" True by (simp add: merge_buddies.simps[of z idx k b] Let_def idx2page_def)
    have "framed (heads ?t) ?t b'"
      by (rule "1.IH"[OF _ refl refl, simplified idx2page_def]) (use True eq in simp_all)
    then show ?thesis using framed_trans[OF framed_take] sub p by blast
  next
    case False
    then show ?thesis
      using "1.prems" by (auto simp: merge_buddies.simps[of z idx k b] Let_def idx2page_def split: if_splits)
  qed
qed

lemma fold_reset:
  "framed (set ps) b (fold (\<lambda>p. upd_page p (\<lambda>pg. set_page_ref 0 (pg\<lparr>p_flags := 0\<rparr>))) ps b)
   \<and> (\<forall>p \<in> set ps. \<not> PageProperty (pages (fold (\<lambda>p. upd_page p (\<lambda>pg. set_page_ref 0 (pg\<lparr>p_flags := 0\<rparr>))) ps b) p))"
proof (induction ps arbitrary: b rule: rev_induct)
  case (snoc p ps)
  then show ?case by (auto simp: framed_def)
qed simp

lemma framed_free_sub:
  assumes r: "buddy_free_pages_sub base k b = Some b'" and z: "zones b (p_zone_num (pages b base)) \<le> base"
  shows "framed (heads b \<union> {base..<base + 2 ^ k}) b b'"
proof -
  let ?z = "p_zone_num (pages b base)"
  let ?c = "fold (\<lambda>p. upd_page p (\<lambda>pg. set_page_ref 0 (pg\<lparr>p_flags := 0\<rparr>))) [base..<base + 2 ^ k] b"
  have c: "framed {base..<base + 2 ^ k} b ?c" using fold_reset[of "[base..<base + 2 ^ k]" b] by simp
  obtain idx' k' d where m: "merge_buddies ?z (base - zones b ?z) k ?c = (idx', k', d)" by (rule prod_cases3)
  have t: "framed (heads ?c) ?c d" by (rule framed_merge[OF m])
  have zc: "p_zone_num (pages ?c base) = ?z" "zones ?c = zones b" "zones d = zones b" using c t by (simp_all add: framed_def)
  have b': "b' = add_block k' (zones b ?z + idx') d"
    using r m zc by (simp add: buddy_free_pages_sub_def Let_def kmonad page2idx_def idx2page_def)
  have h: "heads ?c \<subseteq> heads b \<union> {base..<base + 2 ^ k}" by (rule framed_heads[OF c])
  have "idx' = base - zones b ?z \<or> zones b ?z + idx' \<in> heads ?c" using touched_merge[OF m] zc by auto
  then have "zones b ?z + idx' \<in> heads b \<union> {base..<base + 2 ^ k}" using z h by auto
  moreover have "framed (heads b \<union> {base..<base + 2 ^ k}) b d" by (rule framed_trans[OF c t]) (use h in auto)
  ultimately show ?thesis unfolding b' using framed_trans[OF _ framed_add] by blast
qed

definition zoned :: "buddy \<Rightarrow> nat set \<Rightarrow> bool" where
  "zoned b S \<longleftrightarrow> (\<forall>q \<in> S. zones b (p_zone_num (pages b q)) \<le> q)"

lemma zoned_framed: "framed S b b' \<Longrightarrow> zoned b' T = zoned b T"
  by (simp add: framed_def zoned_def)

lemma framed_free_grow:
  assumes "free_grow base n k b = Some (base', n', k', b')" "zoned b {base..<base + n}"
  shows "framed (heads b \<union> {base..<base'}) b b' \<and> base \<le> base' \<and> base' + n' = base + n"
  using assms
proof (induction base n k b rule: free_grow.induct)
  case (1 base n k b)
  show ?case
  proof (cases "2 ^ k \<le> n \<and> page2idx base b AND 2 ^ k \<noteq> 0")
    case True
    then obtain c where c: "buddy_free_pages_sub base k b = Some c"
      "free_grow (base + 2 ^ k) (n - 2 ^ k) (k + 1) c = Some (base', n', k', b')" "k \<le> MAX_ORDER"
      using "1.prems"(1) by (auto simp: free_grow.simps[of base n k b] kmonad split: bind_splits)
    have pos: "0 < (2::nat) ^ k" by simp
    have "base \<in> {base..<base + n}" using True pos by (simp only: atLeastLessThan_iff) linarith
    then have f: "framed (heads b \<union> {base..<base + 2 ^ k}) b c" using "1.prems"(2) by (intro framed_free_sub[OF c(1)]) (auto simp: zoned_def)
    have "zoned c {base + 2 ^ k..<base + 2 ^ k + (n - 2 ^ k)}"
      using "1.prems"(2) True unfolding zoned_framed[OF f] by (auto simp: zoned_def)
    then have g: "framed (heads c \<union> {base + 2 ^ k..<base'}) c b' \<and> base + 2 ^ k \<le> base' \<and> base' + n' = base + 2 ^ k + (n - 2 ^ k)"
      using True c by (intro "1.IH"(1)) (auto simp: kassert_def)
    have "framed (heads b \<union> {base..<base'}) b b'"
      by (rule framed_trans[OF f conjunct1[OF g]]) (use framed_heads[OF f] g in auto)
    then show ?thesis using g True by auto
  next
    case skip: False
    show ?thesis
    proof (cases "2 ^ k \<le> n")
      case True
      then have "free_grow base n (k + 1) b = Some (base', n', k', b')" "k \<le> MAX_ORDER"
        using "1.prems"(1) skip by (auto simp: free_grow.simps[of base n k b] kmonad)
      then show ?thesis using True skip "1.prems"(2) by (intro "1.IH"(2)) (auto simp: kassert_def)
    next
      case False
      then show ?thesis using "1.prems"(1) by (simp add: free_grow.simps[of base n k b])
    qed
  qed
qed

lemma framed_free_shrink:
  assumes "free_shrink base n k b = Some b'" "zoned b {base..<base + n}"
  shows "framed (heads b \<union> {base..<base + n}) b b'"
  using assms
proof (induction base n k b rule: free_shrink.induct)
  case (1 base n k b)
  consider "n = 0" | "n \<noteq> 0" "n < 2 ^ k" | "n \<noteq> 0" "\<not> n < 2 ^ k" by linarith
  then show ?case
  proof cases
    case 1
    then have "b' = b" using "1.prems"(1) by (simp add: free_shrink.simps[of base 0 k b])
    then show ?thesis by simp
  next
    case 2
    then show ?thesis using 1 by (simp add: free_shrink.simps[of base n k b])
  next
    case 3
    then obtain c where c: "buddy_free_pages_sub base k b = Some c" "free_shrink (base + 2 ^ k) (n - 2 ^ k) k c = Some b'"
      using "1.prems"(1) by (auto simp: free_shrink.simps[of base n k b] split: bind_splits)
    have f: "framed (heads b \<union> {base..<base + 2 ^ k}) b c"
      using "1.prems"(2) 3 by (intro framed_free_sub[OF c(1)]) (auto simp: zoned_def)
    have "zoned c {base + 2 ^ k..<base + 2 ^ k + (n - 2 ^ k)}"
      using "1.prems"(2) 3 unfolding zoned_framed[OF f] by (auto simp: zoned_def)
    then have g: "framed (heads c \<union> {base + 2 ^ k..<base + 2 ^ k + (n - 2 ^ k)}) c b'"
      using 3 c by (intro "1.IH"(2)) auto
    show ?thesis by (rule framed_trans[OF f g]) (use framed_heads[OF f] 3 in auto)
  qed
qed

lemma framed_free_pages:
  assumes "buddy_free_pages base n b = Some b'" "zoned b {base..<base + n}"
  shows "framed (heads b \<union> {base..<base + n}) b b'"
proof (cases "n = 1")
  case True
  then show ?thesis
    using assms framed_free_sub[of base 0 b b'] by (auto simp: buddy_free_pages_def zoned_def)
next
  case False
  then obtain base' n' k' c where c: "free_grow base n 0 b = Some (base', n', k', c)" "free_shrink base' n' k' c = Some b'"
    using assms(1) by (auto simp: buddy_free_pages_def kmonad split: bind_splits)
  have g: "framed (heads b \<union> {base..<base'}) b c" "base \<le> base'" "base' + n' = base + n"
    using framed_free_grow[OF c(1) assms(2)] by auto
  have "framed (heads c \<union> {base'..<base' + n'}) c b'"
    by (rule framed_free_shrink[OF c(2)], unfold zoned_framed[OF g(1)]) (use assms(2) g in \<open>auto simp: zoned_def\<close>)
  then show ?thesis by (rule framed_trans[OF g(1)]) (use framed_heads[OF g(1)] g in auto)
qed

text \<open>The two frames as clients use them.\<close>

lemma in_zone_zoned: "buddy_ok zl b \<Longrightarrow> in_zone zl b base n \<Longrightarrow> zoned b {base..<base + n}"
  by (auto simp: buddy_ok_def zones_ok_def in_zone_def zoned_def zone_def subset_iff)

lemma free_pages_frame:
  assumes "buddy_ok zl b" "in_zone zl b base n" "buddy_free_pages base n b = Some b'" "q \<notin> free_set b" "q \<notin> {base..<base + n}"
  shows "pages b' q = pages b q"
  using framed_free_pages[OF assms(3) in_zone_zoned[OF assms(1,2)]] heads_free[OF assms(1)] assms(4,5)
  by (auto simp: framed_def)

lemma alloc_pages_frame:
  assumes ok: "buddy_ok zl b" and n: "n = 2 ^ k" "k \<le> MAX_ORDER" and r: "buddy_alloc_pages n b = Some (r, b')" and q: "q \<notin> free_set b"
  shows "pages b' q = pages b q"
proof -
  have "getorder n = Some k"
    unfolding getorder_def find_Some_iff n(1)
    using n(2) by (intro exI[of _ k]) (auto simp: nth_upt simp del: upt_Suc)
  then obtain r' where "buddy_alloc_pages_sub k b = Some (r', b')"
    using r n(1) by (cases r) (auto simp: buddy_alloc_pages_def kmonad split: option.splits)
  then show ?thesis using touched_alloc_sub[OF ok n(2)] q by (auto simp: touched_def)
qed

end
