(* ===== verification/SlabInv.thy ===== *)
theory SlabInv
  imports Slab BuddyRange
begin

text \<open>
  Correctness of the slab allocator (\<open>kern/mm/slab.c\<close>): the free lists of the slabs, the pages they
  are made of, and the objects in use.  \<open>P a\<close> is the first page of the slab at \<open>a\<close>, \<open>F a\<close> its list
  of free objects, \<open>X\<close> the slabs that may have no object in use for the moment.
\<close>

section \<open>Parameters of the caches\<close>

definition cparams :: "kmem_cache_s \<Rightarrow> nat \<times> nat \<times> nat \<times> bool \<times> nat \<times> nat" where
  "cparams ch = (objsize ch, c_num ch, c_offset ch, off_slab ch, page_order ch, slab_cachep ch)"

definition same_params :: "slab_state \<Rightarrow> slab_state \<Rightarrow> bool" where
  "same_params s s' \<longleftrightarrow> (\<forall>c. cparams (slab_cache s' c) = cparams (slab_cache s c))"

definition params_ok :: "slab_state \<Rightarrow> bool" where
  "params_ok s \<longleftrightarrow> (\<forall>c < SLAB_CACHE_NUM. let ch = slab_cache s c in
     objsize ch = 2 ^ (c + MIN_SIZE_ORDER) \<and> 0 < c_num ch \<and> c_num ch < 1024 \<and> page_order ch \<le> 10
     \<and> c_offset ch + c_num ch * objsize ch \<le> PAGE * 2 ^ page_order ch
     \<and> (if off_slab ch then c_offset ch = 0 \<and> slab_cachep ch < SLAB_CACHE_NUM \<and> \<not> off_slab (slab_cache s (slab_cachep ch))
           \<and> sizeof_slab_t + c_num ch * sizeof_bufctl \<le> objsize (slab_cache s (slab_cachep ch))
        else sizeof_slab_t + c_num ch * sizeof_bufctl \<le> c_offset ch))"

lemma same_paramsD:
  assumes "same_params s s'"
  shows "objsize (slab_cache s' c) = objsize (slab_cache s c)" "c_num (slab_cache s' c) = c_num (slab_cache s c)"
    "c_offset (slab_cache s' c) = c_offset (slab_cache s c)" "off_slab (slab_cache s' c) = off_slab (slab_cache s c)"
    "page_order (slab_cache s' c) = page_order (slab_cache s c)" "slab_cachep (slab_cache s' c) = slab_cachep (slab_cache s c)"
  using assms by (auto simp: same_params_def cparams_def)

lemma same_params_refl [simp]: "same_params s s"
  by (simp add: same_params_def)

lemma same_params_trans [trans]: "same_params s t \<Longrightarrow> same_params t u \<Longrightarrow> same_params s u"
  by (simp add: same_params_def)

lemma params_frame: "params_ok s \<Longrightarrow> same_params s s' \<Longrightarrow> params_ok s'"
  unfolding params_ok_def Let_def by (simp only: same_paramsD)

lemma params_okD:
  assumes "params_ok s" "c < SLAB_CACHE_NUM"
  shows "objsize (slab_cache s c) = 2 ^ (c + 5)" "0 < c_num (slab_cache s c)" "c_num (slab_cache s c) < 1024" "page_order (slab_cache s c) \<le> 10"
    "c_offset (slab_cache s c) + c_num (slab_cache s c) * objsize (slab_cache s c) \<le> PAGE * 2 ^ page_order (slab_cache s c)"
    "off_slab (slab_cache s c) \<Longrightarrow> c_offset (slab_cache s c) = 0 \<and> slab_cachep (slab_cache s c) < SLAB_CACHE_NUM
       \<and> \<not> off_slab (slab_cache s (slab_cachep (slab_cache s c)))"
    "\<not> off_slab (slab_cache s c) \<Longrightarrow> 24 + c_num (slab_cache s c) * 4 \<le> c_offset (slab_cache s c)"
  using assms by (auto simp: params_ok_def Let_def)

section \<open>Slabs\<close>

definition slab_list :: "slab_state \<Rightarrow> nat \<Rightarrow> nat list" where
  "slab_list s c = slabs_full (slab_cache s c) @ slabs_notfull (slab_cache s c)"

definition pgs :: "slab_state \<Rightarrow> nat \<Rightarrow> nat \<Rightarrow> nat set" where
  "pgs s c p = {p..<p + 2 ^ page_order (slab_cache s c)}"

fun links :: "(nat \<Rightarrow> nat) \<Rightarrow> nat \<Rightarrow> nat list \<Rightarrow> bool" where
  "links b f [] \<longleftrightarrow> f = BUFCTL_END"
| "links b f (i # fl) \<longleftrightarrow> f = i \<and> links b (b i) fl"

lemma links_upd: "i \<notin> set fl \<Longrightarrow> links (b(i := x)) f fl = links b f fl"
  by (induction fl arbitrary: f) auto

definition slab_is :: "slab_state \<Rightarrow> nat \<Rightarrow> nat \<Rightarrow> nat \<Rightarrow> nat list \<Rightarrow> bool" where
  "slab_is s c a p fl \<longleftrightarrow>
     s_mem (slabs s a) = page2kva p + c_offset (slab_cache s c) \<and> s_offset (slabs s a) = c_offset (slab_cache s c)
     \<and> (\<not> off_slab (slab_cache s c) \<longrightarrow> a = page2kva p)
     \<and> links (bufctl (slabs s a)) (s_free (slabs s a)) fl \<and> distinct fl \<and> set fl \<subseteq> {..<c_num (slab_cache s c)}
     \<and> s_inuse (slabs s a) + length fl = c_num (slab_cache s c)"

definition obj :: "slab_state \<Rightarrow> nat \<Rightarrow> nat \<Rightarrow> nat \<Rightarrow> nat" where
  "obj s c p i = page2kva p + c_offset (slab_cache s c) + i * objsize (slab_cache s c)"

definition objs :: "(nat \<Rightarrow> nat) \<Rightarrow> (nat \<Rightarrow> nat list) \<Rightarrow> slab_state \<Rightarrow> nat \<Rightarrow> nat set" where
  "objs P F s c = {obj s c (P a) i |a i. a \<in> set (slab_list s c) \<and> i < c_num (slab_cache s c) \<and> i \<notin> set (F a)}"

definition slab_addrs :: "slab_state \<Rightarrow> nat set" where
  "slab_addrs s = (\<Union>c < SLAB_CACHE_NUM. set (slab_list s c))"

definition slab_pages :: "(nat \<Rightarrow> nat) \<Rightarrow> slab_state \<Rightarrow> nat set" where
  "slab_pages P s = (\<Union>c < SLAB_CACHE_NUM. \<Union>a \<in> set (slab_list s c). pgs s c (P a))"

definition owned :: "(nat \<Rightarrow> nat) \<Rightarrow> slab_state \<Rightarrow> nat \<Rightarrow> nat \<Rightarrow> nat \<Rightarrow> bool" where
  "owned zl s c a p \<longleftrightarrow> in_zone zl (pb s) p (2 ^ page_order (slab_cache s c)) \<and>
     (\<forall>q \<in> pgs s c p. q \<notin> free_set (pb s) \<and> PageSlab (pages (pb s) q) \<and> page_cache s q = c \<and> page_slab s q = a)"

definition slab_inv :: "(nat \<Rightarrow> nat) \<Rightarrow> nat set \<Rightarrow> (nat \<Rightarrow> nat) \<Rightarrow> (nat \<Rightarrow> nat list) \<Rightarrow> slab_state \<Rightarrow> bool" where
  "slab_inv zl X P F s \<longleftrightarrow> buddy_ok zl (pb s) \<and> params_ok s
     \<and> (\<forall>c < SLAB_CACHE_NUM. distinct (slab_list s c))
     \<and> (\<forall>c < SLAB_CACHE_NUM. \<forall>a \<in> set (slab_list s c). slab_is s c a (P a) (F a) \<and> owned zl s c a (P a)
          \<and> (a \<notin> X \<longrightarrow> length (F a) < c_num (slab_cache s c)) \<and> (off_slab (slab_cache s c) \<longrightarrow> a \<in> objs P F s (slab_cachep (slab_cache s c))))
     \<and> (\<forall>c < SLAB_CACHE_NUM. (\<forall>a \<in> set (slabs_full (slab_cache s c)). F a = []) \<and> (\<forall>a \<in> set (slabs_notfull (slab_cache s c)). F a \<noteq> []))"

lemma slab_invD:
  assumes "slab_inv zl X P F s"
  shows "buddy_ok zl (pb s)" "params_ok s" "c < SLAB_CACHE_NUM \<Longrightarrow> distinct (slab_list s c)"
    "c < SLAB_CACHE_NUM \<Longrightarrow> a \<in> set (slab_list s c) \<Longrightarrow> slab_is s c a (P a) (F a)"
    "c < SLAB_CACHE_NUM \<Longrightarrow> a \<in> set (slab_list s c) \<Longrightarrow> owned zl s c a (P a)"
    "c < SLAB_CACHE_NUM \<Longrightarrow> a \<in> set (slab_list s c) \<Longrightarrow> a \<notin> X \<Longrightarrow> length (F a) < c_num (slab_cache s c)"
    "c < SLAB_CACHE_NUM \<Longrightarrow> a \<in> set (slab_list s c) \<Longrightarrow> off_slab (slab_cache s c) \<Longrightarrow> a \<in> objs P F s (slab_cachep (slab_cache s c))"
    "c < SLAB_CACHE_NUM \<Longrightarrow> a \<in> set (slabs_full (slab_cache s c)) \<Longrightarrow> F a = []"
    "c < SLAB_CACHE_NUM \<Longrightarrow> a \<in> set (slabs_notfull (slab_cache s c)) \<Longrightarrow> F a \<noteq> []"
  using assms by (auto simp: slab_inv_def)

section \<open>Where objects and slabs lie\<close>

lemma obj_page:
  assumes "params_ok s" "c < SLAB_CACHE_NUM" "i < c_num (slab_cache s c)"
  shows "(obj s c p i - 0xC0000000) div PAGE \<in> pgs s c p" "0xC0000000 \<le> obj s c p i"
    "obj s c p i + objsize (slab_cache s c) \<le> 0xC0000000 + PAGE * (p + 2 ^ page_order (slab_cache s c))"
proof -
  note d = params_okD[OF assms(1,2)]
  have "Suc i * objsize (slab_cache s c) \<le> c_num (slab_cache s c) * objsize (slab_cache s c)"
    using assms(3) by (intro mult_le_mono1) simp
  then have le: "c_offset (slab_cache s c) + i * objsize (slab_cache s c) + objsize (slab_cache s c) \<le> PAGE * 2 ^ page_order (slab_cache s c)"
    using d(5) by simp
  have pos: "0 < objsize (slab_cache s c)" using d(1) by simp
  let ?k = "c_offset (slab_cache s c) + i * objsize (slab_cache s c)"
  have e: "(obj s c p i - 0xC0000000) div PAGE = p + ?k div PAGE" by (simp add: obj_def page2kva_def add.assoc)
  have "?k < 2 ^ page_order (slab_cache s c) * PAGE" using le pos by linarith
  then have "?k div PAGE < 2 ^ page_order (slab_cache s c)" by (rule less_mult_imp_div_less)
  then show "(obj s c p i - 0xC0000000) div PAGE \<in> pgs s c p" unfolding e pgs_def by simp
  show "0xC0000000 \<le> obj s c p i" by (simp add: obj_def page2kva_def)
  show "obj s c p i + objsize (slab_cache s c) \<le> 0xC0000000 + PAGE * (p + 2 ^ page_order (slab_cache s c))"
    using le by (simp add: obj_def page2kva_def algebra_simps)
qed

text \<open>The page of an object tells its cache and its slab.\<close>

lemma objs_owner:
  assumes "slab_inv zl X P F s" "c < SLAB_CACHE_NUM" "a \<in> set (slab_list s c)" "i < c_num (slab_cache s c)"
  defines "q \<equiv> (obj s c (P a) i - 0xC0000000) div PAGE"
  shows "q \<notin> free_set (pb s)" "PageSlab (pages (pb s) q)" "page_cache s q = c" "page_slab s q = a"
  using obj_page(1)[OF slab_invD(2)[OF assms(1)] assms(2,4), of "P a"] slab_invD(5)[OF assms(1-3)]
  by (auto simp: owned_def q_def)

lemma obj_inject:
  assumes "slab_inv zl X P F s" "c < SLAB_CACHE_NUM" "a \<in> set (slab_list s c)" "i < c_num (slab_cache s c)"
    "d < SLAB_CACHE_NUM" "b \<in> set (slab_list s d)" "j < c_num (slab_cache s d)" "obj s c (P a) i = obj s d (P b) j"
  shows "c = d \<and> a = b \<and> i = j"
proof -
  have "c = d" "a = b" using objs_owner(3,4)[OF assms(1-4)] objs_owner(3,4)[OF assms(1,5-7)] assms(8) by simp_all
  moreover have "0 < objsize (slab_cache s c)" using params_okD(1)[OF slab_invD(2)[OF assms(1)] assms(2)] by simp
  ultimately show ?thesis using assms(8) by (simp add: obj_def)
qed

lemma page_kva [simp]: "(page2kva p - 0xC0000000) div PAGE = p" "0xC0000000 \<le> page2kva p"
  by (simp_all add: page2kva_def)

lemma slab_unique:
  assumes "slab_inv zl X P F s" "c < SLAB_CACHE_NUM" "a \<in> set (slab_list s c)" "d < SLAB_CACHE_NUM" "a \<in> set (slab_list s d)"
  shows "d = c"
proof -
  have "P a \<in> pgs s c (P a)" "P a \<in> pgs s d (P a)" by (simp_all add: pgs_def)
  then show ?thesis using slab_invD(5)[OF assms(1-3)] slab_invD(5)[OF assms(1,4,5)] by (auto simp: owned_def)
qed

text \<open>The control part of a slab lies in a page of some slab, and never where an object is that is
  not the control part itself.\<close>

lemma slab_addr_page:
  assumes "slab_inv zl X P F s" "a \<in> slab_addrs s"
  shows "(a - 0xC0000000) div PAGE \<in> slab_pages P s"
proof -
  obtain c where c: "c < SLAB_CACHE_NUM" "a \<in> set (slab_list s c)" using assms(2) by (auto simp: slab_addrs_def)
  show ?thesis
  proof (cases "off_slab (slab_cache s c)")
    case True
    then have "a \<in> objs P F s (slab_cachep (slab_cache s c))" "slab_cachep (slab_cache s c) < SLAB_CACHE_NUM"
      using slab_invD(7)[OF assms(1) c] params_okD(6)[OF slab_invD(2)[OF assms(1)] c(1)] by auto
    then show ?thesis using obj_page(1)[OF slab_invD(2)[OF assms(1)]] unfolding objs_def slab_pages_def by blast
  next
    case False
    then have "a = page2kva (P a)" using slab_invD(4)[OF assms(1) c] by (simp add: slab_is_def)
    then have "(a - 0xC0000000) div PAGE = P a" by (metis page_kva(1))
    moreover have "P a \<in> pgs s c (P a)" by (simp add: pgs_def)
    ultimately show ?thesis using c unfolding slab_pages_def by auto
  qed
qed

lemma slab_addr_cases:
  assumes inv: "slab_inv zl X P F s" and a: "a \<in> slab_addrs s" and c: "c < SLAB_CACHE_NUM"
    and b: "b \<in> set (slab_list s c)" "i < c_num (slab_cache s c)" "a = obj s c (P b) i"
  shows "a \<in> objs P F s c"
proof -
  obtain d where d: "d < SLAB_CACHE_NUM" "a \<in> set (slab_list s d)" using a by (auto simp: slab_addrs_def)
  note ob = objs_owner(3,4)[OF inv c b(1,2)]
  show ?thesis
  proof (cases "off_slab (slab_cache s d)")
    case True
    then have "a \<in> objs P F s (slab_cachep (slab_cache s d))" "slab_cachep (slab_cache s d) < SLAB_CACHE_NUM"
      using slab_invD(7)[OF inv d] params_okD(6)[OF slab_invD(2)[OF inv] d(1)] by auto
    then obtain b' j where b': "b' \<in> set (slab_list s (slab_cachep (slab_cache s d)))" "j < c_num (slab_cache s (slab_cachep (slab_cache s d)))"
      "a = obj s (slab_cachep (slab_cache s d)) (P b') j" "slab_cachep (slab_cache s d) < SLAB_CACHE_NUM"
      by (auto simp: objs_def)
    have "c = slab_cachep (slab_cache s d)" using obj_inject[OF inv c b(1,2) b'(4,1,2)] b(3) b'(3) by simp
    then show ?thesis using \<open>a \<in> objs P F s (slab_cachep (slab_cache s d))\<close> by simp
  next
    case False
    then have pa: "a = page2kva (P a)" using slab_invD(4)[OF inv d] by (simp add: slab_is_def)
    then have "(a - 0xC0000000) div PAGE = P a" by (metis page_kva(1))
    moreover have "P a \<in> pgs s d (P a)" by (simp add: pgs_def)
    ultimately have "page_slab s ((a - 0xC0000000) div PAGE) = a" using slab_invD(5)[OF inv d] by (auto simp: owned_def)
    then have "a = b" using ob b(3) by simp
    then have "page2kva (P a) = obj s c (P a) i" using b(3) pa by simp
    moreover have "d = c" using slab_unique[OF inv c _ d] b(1) \<open>a = b\<close> by simp
    ultimately show ?thesis using params_okD(7)[OF slab_invD(2)[OF inv] c] False by (simp add: obj_def)
  qed
qed

section \<open>Taking and putting back an object\<close>

text \<open>What the two operations leave alone: everything but one slab record and the order of the lists
  of one cache.\<close>

definition slab_step :: "nat \<Rightarrow> slab_state \<Rightarrow> slab_state \<Rightarrow> bool" where
  "slab_step a s s' \<longleftrightarrow> same_params s s' \<and> pb s' = pb s \<and> page_cache s' = page_cache s \<and> page_slab s' = page_slab s
     \<and> (\<forall>b. b \<noteq> a \<longrightarrow> slabs s' b = slabs s b) \<and> (\<forall>d. set (slab_list s' d) = set (slab_list s d))"

lemma step_obj: "same_params s s' \<Longrightarrow> obj s' c p i = obj s c p i"
  by (simp add: obj_def same_paramsD)

lemma step_pgs: "same_params s s' \<Longrightarrow> pgs s' c p = pgs s c p"
  by (simp add: pgs_def same_paramsD)

lemma slab_is_cong: "same_params s s' \<Longrightarrow> slabs s' a = slabs s a \<Longrightarrow> slab_is s' c a p fl = slab_is s c a p fl"
  by (simp add: slab_is_def same_paramsD)

lemma owned_cong: "same_params s s' \<Longrightarrow> pb s' = pb s \<Longrightarrow> page_cache s' = page_cache s \<Longrightarrow> page_slab s' = page_slab s \<Longrightarrow>
   owned zl s' c a p = owned zl s c a p"
  by (simp add: owned_def same_paramsD step_pgs)

lemma objs_cong:
  assumes "same_params s s'" "set (slab_list s' d) = set (slab_list s d)" "\<And>b. b \<in> set (slab_list s d) \<Longrightarrow> F' b = F b"
    "\<And>b. b \<in> set (slab_list s d) \<Longrightarrow> P' b = P b"
  shows "objs P' F' s' d = objs P F s d"
  unfolding objs_def step_obj[OF assms(1)] assms(2) using assms(3,4) by (auto simp: same_paramsD[OF assms(1)]) metis+

lemma inv_step:
  assumes inv: "slab_inv zl X P F s" and c: "c < SLAB_CACHE_NUM" "a \<in> set (slab_list s c)" and st: "slab_step a s s'"
    and d: "\<forall>d < SLAB_CACHE_NUM. distinct (slab_list s' d)" and ist: "slab_is s' c a (P a) fl"
    and busy: "X \<subseteq> insert a Y" "a \<in> Y \<or> length fl < c_num (slab_cache s c)"
    and off: "\<And>d b. d < SLAB_CACHE_NUM \<Longrightarrow> b \<in> set (slab_list s d) \<Longrightarrow> off_slab (slab_cache s d) \<Longrightarrow> b \<in> objs P (F(a := fl)) s' (slab_cachep (slab_cache s d))"
    and full: "\<And>d b. d < SLAB_CACHE_NUM \<Longrightarrow> b \<in> set (slabs_full (slab_cache s' d)) \<Longrightarrow> (F(a := fl)) b = []"
    and notfull: "\<And>d b. d < SLAB_CACHE_NUM \<Longrightarrow> b \<in> set (slabs_notfull (slab_cache s' d)) \<Longrightarrow> (F(a := fl)) b \<noteq> []"
  shows "slab_inv zl Y P (F(a := fl)) s'"
proof -
  have sp: "same_params s s'" and pb: "pb s' = pb s" "page_cache s' = page_cache s" "page_slab s' = page_slab s"
    and sl: "\<And>b. b \<noteq> a \<Longrightarrow> slabs s' b = slabs s b" and ls: "\<And>d. set (slab_list s' d) = set (slab_list s d)"
    using st by (auto simp: slab_step_def)
  have "slab_is s' e b (P b) ((F(a := fl)) b) \<and> owned zl s' e b (P b) \<and> (b \<notin> Y \<longrightarrow> length ((F(a := fl)) b) < c_num (slab_cache s' e))
      \<and> (off_slab (slab_cache s' e) \<longrightarrow> b \<in> objs P (F(a := fl)) s' (slab_cachep (slab_cache s' e)))"
    if e: "e < SLAB_CACHE_NUM" "b \<in> set (slab_list s' e)" for e b
  proof -
    have b: "b \<in> set (slab_list s e)" using e(2) ls by simp
    have o: "owned zl s' e b (P b)" using slab_invD(5)[OF inv e(1) b] by (simp add: owned_cong[OF sp pb])
    have f: "off_slab (slab_cache s' e) \<longrightarrow> b \<in> objs P (F(a := fl)) s' (slab_cachep (slab_cache s' e))"
      using off[OF e(1) b] by (simp add: same_paramsD[OF sp])
    show ?thesis
    proof (cases "b = a")
      case True
      then have "e = c" using slab_unique[OF inv c e(1)] b by simp
      then show ?thesis using True ist o f busy by (auto simp: same_paramsD[OF sp])
    next
      case False
      then have "slab_is s' e b (P b) (F b)" using slab_invD(4)[OF inv e(1) b] by (simp add: slab_is_cong[OF sp sl])
      moreover have "b \<notin> Y \<longrightarrow> length (F b) < c_num (slab_cache s' e)"
        using slab_invD(6)[OF inv e(1) b] busy(1) False by (auto simp: same_paramsD[OF sp])
      ultimately show ?thesis using False o f by simp
    qed
  qed
  then show ?thesis
    using slab_invD(1,2)[OF inv] params_frame[OF _ sp] d full notfull by (auto simp: slab_inv_def pb)
qed

lemma list_upd_cache: "slab_list (upd_cache c f s) d = (if d = c then slabs_full (f (slab_cache s c)) @ slabs_notfull (f (slab_cache s c)) else slab_list s d)"
  by (simp add: slab_list_def upd_cache_def)

lemma same_upd_cache: "cparams (f (slab_cache s c)) = cparams (slab_cache s c) \<Longrightarrow> same_params s (upd_cache c f s)"
  by (simp add: same_params_def upd_cache_def)

lemma upd_simps [simp]:
  "pb (upd_cache c f s) = pb s" "slabs (upd_cache c f s) = slabs s" "page_cache (upd_cache c f s) = page_cache s" "page_slab (upd_cache c f s) = page_slab s"
  "slab_cache (upd_cache c f s) = (slab_cache s)(c := f (slab_cache s c))"
  "pb (upd_slab a g s) = pb s" "slabs (upd_slab a g s) = (slabs s)(a := g (slabs s a))" "slab_cache (upd_slab a g s) = slab_cache s"
  "page_cache (upd_slab a g s) = page_cache s" "page_slab (upd_slab a g s) = page_slab s" "slab_list (upd_slab a g s) c = slab_list s c"
  by (simp_all add: upd_cache_def upd_slab_def slab_list_def)

lemma same_upd_slab [simp]: "same_params s (upd_slab a g s)"
  by (simp add: same_params_def)

lemma alloc_one_ok:
  assumes inv: "slab_inv zl X P F s" and c: "c < SLAB_CACHE_NUM" and nf: "slabs_notfull (slab_cache s c) = a # r" and X: "X \<subseteq> {a}"
  shows "\<exists>i fl s'. F a = i # fl \<and> kmem_cache_alloc_one c a s = (obj s c (P a) i, s') \<and> slab_inv zl {} P (F(a := fl)) s' \<and> slab_step a s s'
    \<and> i < c_num (slab_cache s c) \<and> objs P (F(a := fl)) s' c = insert (obj s c (P a) i) (objs P F s c) \<and> obj s c (P a) i \<notin> objs P F s c
    \<and> (\<forall>d < SLAB_CACHE_NUM. d \<noteq> c \<longrightarrow> objs P (F(a := fl)) s' d = objs P F s d)"
proof -
  have a: "a \<in> set (slab_list s c)" and dist: "distinct (slabs_full (slab_cache s c) @ a # r)"
    using nf slab_invD(3)[OF inv c] by (simp_all add: slab_list_def)
  have "F a \<noteq> []" using slab_invD(9)[OF inv c] nf by simp
  then obtain i fl where F: "F a = i # fl" by (meson neq_Nil_conv)
  note ist = slab_invD(4)[OF inv c a, unfolded F slab_is_def]
  note num = params_okD(2,3)[OF slab_invD(2)[OF inv] c]
  let ?sl = "(slabs s a)\<lparr>s_inuse := s_inuse (slabs s a) + 1, s_free := bufctl (slabs s a) i\<rparr>"
  let ?t = "upd_slab a (\<lambda>_. ?sl) s"
  let ?mv = "\<lambda>ch. ch\<lparr>slabs_notfull := remove1 a (slabs_notfull ch), slabs_full := a # slabs_full ch\<rparr>"
  let ?s' = "if fl = [] then upd_cache c ?mv ?t else ?t"
  have fin: "bufctl (slabs s a) i = BUFCTL_END \<longleftrightarrow> fl = []"
    using ist num by (cases fl) auto
  have iu: "(s_inuse (slabs s a) + 1) mod 2 ^ 32 = s_inuse (slabs s a) + 1" using ist num by simp
  have run: "kmem_cache_alloc_one c a s = (obj s c (P a) i, ?s')"
    using ist fin iu by (auto simp: kmem_cache_alloc_one_def obj_def upd_slab_def Let_def)
  have sp: "same_params s ?s'" by (simp add: same_params_def cparams_def)
  have lf: "slabs_full (slab_cache ?s' d) = (if d = c \<and> fl = [] then a # slabs_full (slab_cache s c) else slabs_full (slab_cache s d))" for d
    by simp
  have ln: "slabs_notfull (slab_cache ?s' d) = (if d = c \<and> fl = [] then r else slabs_notfull (slab_cache s d))" for d
    using nf by simp
  have ls: "set (slab_list ?s' d) = set (slab_list s d)" for d
    using nf unfolding slab_list_def lf ln by auto
  have sl: "slabs ?s' = (slabs s)(a := ?sl)" "pb ?s' = pb s" "page_cache ?s' = page_cache s" "page_slab ?s' = page_slab s" by simp_all
  have step: "slab_step a s ?s'" unfolding slab_step_def sl using sp ls by simp
  have i: "i < c_num (slab_cache s c)" "i \<notin> set fl" using ist by auto
  have oc: "objs P (F(a := fl)) ?s' c = insert (obj s c (P a) i) (objs P F s c)"
  proof -
    have "objs P (F(a := fl)) ?s' c = {obj s c (P b) j |b j. b \<in> set (slab_list s c) \<and> j < c_num (slab_cache s c) \<and> j \<notin> set ((F(a := fl)) b)}"
      unfolding objs_def ls step_obj[OF sp] by (simp add: same_paramsD[OF sp])
    also have "\<dots> = {obj s c (P b) j |b j. b \<in> set (slab_list s c) \<and> j < c_num (slab_cache s c) \<and> (b = a \<and> j = i \<or> j \<notin> set (F b))}"
    proof -
      have "j \<notin> set ((F(a := fl)) b) \<longleftrightarrow> b = a \<and> j = i \<or> j \<notin> set (F b)" for b j using F i(2) by auto
      then show ?thesis by simp
    qed
    also have "\<dots> = insert (obj s c (P a) i) (objs P F s c)" unfolding objs_def using i(1) a by blast
    finally show ?thesis .
  qed
  have od: "objs P (F(a := fl)) ?s' d = objs P F s d" if "d < SLAB_CACHE_NUM" "d \<noteq> c" for d
    by (rule objs_cong[OF sp ls]) (use slab_unique[OF inv c a that(1)] that(2) in auto)
  have new: "obj s c (P a) i \<notin> objs P F s c"
  proof
    assume "obj s c (P a) i \<in> objs P F s c"
    then obtain b j where "b \<in> set (slab_list s c)" "j < c_num (slab_cache s c)" "j \<notin> set (F b)" "obj s c (P a) i = obj s c (P b) j"
      by (auto simp: objs_def)
    then show False using obj_inject[OF inv c a i(1) c] F by auto
  qed
  have "slab_inv zl {} P (F(a := fl)) ?s'"
  proof (rule inv_step[OF inv c a step])
    show "\<forall>d < SLAB_CACHE_NUM. distinct (slab_list ?s' d)"
      using slab_invD(3)[OF inv] dist unfolding slab_list_def lf ln by auto
    show "slab_is ?s' c a (P a) fl" using ist unfolding slab_is_def sl by (simp add: same_paramsD[OF sp])
    show "X \<subseteq> insert a {}" "a \<in> {} \<or> length fl < c_num (slab_cache s c)" using X ist by auto
    show "b \<in> objs P (F(a := fl)) ?s' (slab_cachep (slab_cache s d))"
      if "d < SLAB_CACHE_NUM" "b \<in> set (slab_list s d)" "off_slab (slab_cache s d)" for d b
    proof -
      have k: "b \<in> objs P F s (slab_cachep (slab_cache s d))" "slab_cachep (slab_cache s d) < SLAB_CACHE_NUM"
        using slab_invD(7)[OF inv that] params_okD(6)[OF slab_invD(2)[OF inv] that(1,3)] by auto
      show ?thesis
      proof (cases "slab_cachep (slab_cache s d) = c")
        case True
        show ?thesis unfolding True oc using k(1) unfolding True by blast
      next
        case False
        show ?thesis unfolding od[OF k(2) False] by (rule k(1))
      qed
    qed
    show "(F(a := fl)) b = []" if "d < SLAB_CACHE_NUM" "b \<in> set (slabs_full (slab_cache ?s' d))" for d b
      using slab_invD(8)[OF inv that(1)] that(2) F unfolding lf by (auto split: if_splits)
    show "(F(a := fl)) b \<noteq> []" if "d < SLAB_CACHE_NUM" "b \<in> set (slabs_notfull (slab_cache ?s' d))" for d b
    proof (cases "d = c \<and> fl = []")
      case True
      then have "b \<in> set r" using that(2) unfolding ln by simp
      then show ?thesis using slab_invD(9)[OF inv c, of b] nf dist by auto
    next
      case False
      then have b: "b \<in> set (slabs_notfull (slab_cache s d))" using that(2) unfolding ln by (simp only: if_False)
      have "d = c" if "b = a" using slab_unique[OF inv c a \<open>d < SLAB_CACHE_NUM\<close>] b that by (simp add: slab_list_def)
      then show ?thesis using slab_invD(9)[OF inv that(1) b] False by auto
    qed
  qed
  then show ?thesis using F run step i oc od new by blast
qed

text \<open>Taking the object \<open>o\<close> out of the set: the other objects, and the control parts of the slabs,
  are still in use.\<close>

lemma obj_other:
  assumes inv: "slab_inv zl X P F s" and c: "c < SLAB_CACHE_NUM" "a \<in> set (slab_list s c)" "i < c_num (slab_cache s c)"
    and d: "d < SLAB_CACHE_NUM" "d \<noteq> c"
  shows "obj s c (P a) i \<notin> objs P F s d"
  using obj_inject[OF inv c d(1)] d(2) by (auto simp: objs_def)

lemma put_object_eq:
  assumes inv: "slab_inv zl {} P F s" and c: "c < SLAB_CACHE_NUM" "a \<in> set (slab_list s c)"
    and i: "i < c_num (slab_cache s c)" "i \<notin> set (F a)"
  defines "t \<equiv> upd_slab a (\<lambda>sl. sl\<lparr>bufctl := (bufctl sl)(i := s_free sl), s_free := i, s_inuse := c_num (slab_cache s c) - length (i # F a)\<rparr>) s"
  shows "put_object c a (obj s c (P a) i) s =
    (if length (i # F a) = c_num (slab_cache s c) then (True, upd_cache c (unlink_slab a) t)
     else if F a = [] then (False, upd_cache c (\<lambda>ch. (unlink_slab a ch)\<lparr>slabs_notfull := a # slabs_notfull (unlink_slab a ch)\<rparr>) t)
     else (False, t))"
    and "links (bufctl (slabs t a)) (s_free (slabs t a)) (i # F a)" "length (i # F a) \<le> c_num (slab_cache s c)"
proof -
  note ist = slab_invD(4)[OF inv c, unfolded slab_is_def]
  note num = params_okD(1,2,3)[OF slab_invD(2)[OF inv] c(1)]
  have lt: "length (F a) < c_num (slab_cache s c)" by (rule slab_invD(6)[OF inv c]) simp
  have "(obj s c (P a) i - s_mem (slabs s a)) div objsize (slab_cache s c) = i" using ist num by (simp add: obj_def)
  moreover have "(s_inuse (slabs s a) + 0xFFFFFFFF) mod 2 ^ 32 = c_num (slab_cache s c) - length (i # F a)"
  proof -
    have "s_inuse (slabs s a) + length (F a) = c_num (slab_cache s c)" using ist by blast
    then have "s_inuse (slabs s a) + 0xFFFFFFFF = (c_num (slab_cache s c) - length (i # F a)) + 2 ^ 32" using lt by simp
    then have "(s_inuse (slabs s a) + 0xFFFFFFFF) mod 2 ^ 32 = (c_num (slab_cache s c) - length (i # F a)) mod 2 ^ 32" by (simp only: mod_add_self2)
    also have "\<dots> = c_num (slab_cache s c) - length (i # F a)" using num by (intro mod_less) simp
    finally show ?thesis .
  qed
  moreover have "(c_num (slab_cache s c) - length (i # F a) = 0) = (length (i # F a) = c_num (slab_cache s c))" using lt by auto
  moreover have "(c_num (slab_cache s c) - length (i # F a) = c_num (slab_cache s c) - 1) = (F a = [])"
    unfolding length_0_conv[symmetric] using lt by (simp only: list.size) arith
  ultimately show "put_object c a (obj s c (P a) i) s =
    (if length (i # F a) = c_num (slab_cache s c) then (True, upd_cache c (unlink_slab a) t)
     else if F a = [] then (False, upd_cache c (\<lambda>ch. (unlink_slab a ch)\<lparr>slabs_notfull := a # slabs_notfull (unlink_slab a ch)\<rparr>) t)
     else (False, t))"
    unfolding t_def put_object_def Let_def upd_simps by simp
  show "links (bufctl (slabs t a)) (s_free (slabs t a)) (i # F a)" using ist i(2) by (simp add: t_def links_upd)
  show "length (i # F a) \<le> c_num (slab_cache s c)" using lt by simp
qed

lemma put_alive:
  assumes inv: "slab_inv zl {} P F s" and c: "c < SLAB_CACHE_NUM" "a \<in> set (slab_list s c)"
    and i: "i < c_num (slab_cache s c)" "i \<notin> set (F a)" and use: "obj s c (P a) i \<notin> slab_addrs s"
    and alive: "length (i # F a) < c_num (slab_cache s c)"
  shows "\<exists>s'. put_object c a (obj s c (P a) i) s = (False, s') \<and> slab_inv zl {} P (F(a := i # F a)) s' \<and> slab_step a s s'
    \<and> objs P (F(a := i # F a)) s' c = objs P F s c - {obj s c (P a) i}
    \<and> (\<forall>d < SLAB_CACHE_NUM. d \<noteq> c \<longrightarrow> objs P (F(a := i # F a)) s' d = objs P F s d)"
proof -
  let ?F = "F(a := i # F a)"
  let ?t = "upd_slab a (\<lambda>sl. sl\<lparr>bufctl := (bufctl sl)(i := s_free sl), s_free := i, s_inuse := c_num (slab_cache s c) - length (i # F a)\<rparr>) s"
  let ?s' = "if F a = [] then upd_cache c (\<lambda>ch. (unlink_slab a ch)\<lparr>slabs_notfull := a # slabs_notfull (unlink_slab a ch)\<rparr>) ?t else ?t"
  note eq = put_object_eq[OF inv c i]
  have run: "put_object c a (obj s c (P a) i) s = (False, ?s')" using alive unfolding eq(1) by auto
  have dist: "distinct (slabs_full (slab_cache s c) @ slabs_notfull (slab_cache s c))" using slab_invD(3)[OF inv c(1)] by (simp add: slab_list_def)
  have side: "if F a = [] then a \<in> set (slabs_full (slab_cache s c)) \<and> a \<notin> set (slabs_notfull (slab_cache s c))
    else a \<in> set (slabs_notfull (slab_cache s c))"
    using c(2) slab_invD(8,9)[OF inv c(1), of a] by (auto simp: slab_list_def)
  have sp: "same_params s ?s'" by (simp add: same_params_def cparams_def unlink_slab_def)
  have lf: "slabs_full (slab_cache ?s' d) = (if d = c \<and> F a = [] then remove1 a (slabs_full (slab_cache s c)) else slabs_full (slab_cache s d))" for d
    by (simp add: unlink_slab_def)
  have ln: "slabs_notfull (slab_cache ?s' d) = (if d = c \<and> F a = [] then a # slabs_notfull (slab_cache s c) else slabs_notfull (slab_cache s d))" for d
    using side by (auto simp: unlink_slab_def remove1_idem)
  have ls: "set (slab_list ?s' d) = set (slab_list s d)" for d
    using side dist unfolding slab_list_def lf ln by auto
  have sl: "slabs ?s' = slabs ?t" "pb ?s' = pb s" "page_cache ?s' = page_cache s" "page_slab ?s' = page_slab s" by simp_all
  have step: "slab_step a s ?s'" unfolding slab_step_def sl using sp ls by simp
  have oc: "objs P ?F ?s' c = objs P F s c - {obj s c (P a) i}"
  proof -
    have "objs P ?F ?s' c = {obj s c (P b) j |b j. b \<in> set (slab_list s c) \<and> j < c_num (slab_cache s c) \<and> j \<notin> set (?F b)}"
      unfolding objs_def ls step_obj[OF sp] by (simp add: same_paramsD[OF sp])
    also have "\<dots> = {obj s c (P b) j |b j. b \<in> set (slab_list s c) \<and> j < c_num (slab_cache s c) \<and> \<not> (b = a \<and> j = i) \<and> j \<notin> set (F b)}"
    proof -
      have "j \<notin> set (?F b) \<longleftrightarrow> \<not> (b = a \<and> j = i) \<and> j \<notin> set (F b)" for b j by auto
      then show ?thesis by simp
    qed
    also have "\<dots> = objs P F s c - {obj s c (P a) i}"
    proof (intro set_eqI iffI)
      fix x assume "x \<in> {obj s c (P b) j |b j. b \<in> set (slab_list s c) \<and> j < c_num (slab_cache s c) \<and> \<not> (b = a \<and> j = i) \<and> j \<notin> set (F b)}"
      then obtain b j where x: "x = obj s c (P b) j" "b \<in> set (slab_list s c)" "j < c_num (slab_cache s c)" "\<not> (b = a \<and> j = i)" "j \<notin> set (F b)" by blast
      then have "x \<noteq> obj s c (P a) i" using obj_inject[OF inv c i(1) c(1) x(2,3)] by auto
      then show "x \<in> objs P F s c - {obj s c (P a) i}" using x by (auto simp: objs_def)
    next
      fix x assume "x \<in> objs P F s c - {obj s c (P a) i}"
      then show "x \<in> {obj s c (P b) j |b j. b \<in> set (slab_list s c) \<and> j < c_num (slab_cache s c) \<and> \<not> (b = a \<and> j = i) \<and> j \<notin> set (F b)}"
        by (auto simp: objs_def)
    qed
    finally show ?thesis .
  qed
  have od: "objs P ?F ?s' d = objs P F s d" if "d < SLAB_CACHE_NUM" "d \<noteq> c" for d
    by (rule objs_cong[OF sp ls]) (use slab_unique[OF inv c that(1)] that(2) in auto)
  have "slab_inv zl {} P ?F ?s'"
  proof (rule inv_step[OF inv c step])
    show "\<forall>d < SLAB_CACHE_NUM. distinct (slab_list ?s' d)"
      using slab_invD(3)[OF inv] dist side unfolding slab_list_def lf ln by auto
    show "slab_is ?s' c a (P a) (i # F a)"
      using slab_invD(4)[OF inv c] eq(2,3) i unfolding slab_is_def sl by (simp add: same_paramsD[OF sp])
    show "{} \<subseteq> insert a {}" "a \<in> {} \<or> length (i # F a) < c_num (slab_cache s c)" using alive by auto
    show "b \<in> objs P ?F ?s' (slab_cachep (slab_cache s d))"
      if "d < SLAB_CACHE_NUM" "b \<in> set (slab_list s d)" "off_slab (slab_cache s d)" for d b
    proof -
      have k: "b \<in> objs P F s (slab_cachep (slab_cache s d))" "slab_cachep (slab_cache s d) < SLAB_CACHE_NUM"
        using slab_invD(7)[OF inv that] params_okD(6)[OF slab_invD(2)[OF inv] that(1,3)] by auto
      have nb: "b \<noteq> obj s c (P a) i" using use that(1,2) by (auto simp: slab_addrs_def)
      show ?thesis
      proof (cases "slab_cachep (slab_cache s d) = c")
        case True
        show ?thesis unfolding True oc using k(1) nb unfolding True by blast
      next
        case False
        show ?thesis unfolding od[OF k(2) False] by (rule k(1))
      qed
    qed
    show "?F b = []" if "d < SLAB_CACHE_NUM" "b \<in> set (slabs_full (slab_cache ?s' d))" for d b
    proof -
      have b: "b \<in> set (slabs_full (slab_cache s d))" "b = a \<Longrightarrow> F a \<noteq> [] \<or> d \<noteq> c"
        using that(2) dist unfolding lf by (auto split: if_splits)
      have "b \<noteq> a"
      proof
        assume "b = a"
        then have "F a = []" "d = c" using slab_invD(8)[OF inv that(1) b(1)] slab_unique[OF inv c that(1)] b(1) by (auto simp: slab_list_def)
        then show False using b(2) \<open>b = a\<close> by simp
      qed
      then show ?thesis using slab_invD(8)[OF inv that(1) b(1)] by simp
    qed
    show "?F b \<noteq> []" if "d < SLAB_CACHE_NUM" "b \<in> set (slabs_notfull (slab_cache ?s' d))" for d b
      using slab_invD(9)[OF inv that(1), of b] that(2) unfolding ln by (auto split: if_splits)
  qed
  then show ?thesis using run step oc od by blast
qed

section \<open>Destroying a slab\<close>

lemma buddy_flag_ok:
  assumes "p_zone_num (f (pages b p)) = p_zone_num (pages b p)" "p_property (f (pages b p)) = p_property (pages b p)"
    "PageReserved (f (pages b p)) = PageReserved (pages b p)" "PageProperty (f (pages b p)) = PageProperty (pages b p)"
  shows "buddy_ok zl (upd_page p f b) = buddy_ok zl b" "in_zone zl (upd_page p f b) = in_zone zl b"
proof -
  let ?b = "upd_page p f b"
  have e: "p_zone_num (pages ?b q) = p_zone_num (pages b q)" "p_property (pages ?b q) = p_property (pages b q)"
    "PageReserved (pages ?b q) = PageReserved (pages b q)" "PageProperty (pages ?b q) = PageProperty (pages b q)" for q
    using assms by simp_all
  have z: "zone zl ?b = zone zl b" "managed zl ?b = managed zl b" "good_blk zl ?b = good_blk zl b"
    by (simp_all add: zone_def managed_def good_blk_def fun_eq_iff)
  have f: "zone_cnt ?b = zone_cnt b" "npage ?b = npage b" "free_list ?b = free_list b" "nr_free ?b = nr_free b" "free_blocks ?b = free_blocks b"
    by simp_all
  show "buddy_ok zl ?b = buddy_ok zl b" by (simp only: buddy_ok_def zones_ok_def lists_ok_def e z f)
  show "in_zone zl ?b = in_zone zl b" by (simp add: in_zone_def fun_eq_iff z)
qed

definition put_record :: "nat \<Rightarrow> nat \<Rightarrow> nat \<Rightarrow> slab_state \<Rightarrow> slab_state" where
  "put_record a i n s = upd_slab a (\<lambda>sl. sl\<lparr>bufctl := (bufctl sl)(i := s_free sl), s_free := i, s_inuse := n\<rparr>) s"

lemma objs_remove:
  assumes inv: "slab_inv zl X P F s" and c: "c < SLAB_CACHE_NUM" "a \<in> set (slab_list s c)"
    and i: "i < c_num (slab_cache s c)" "i \<notin> set (F a)" "length (i # F a) = c_num (slab_cache s c)"
    and sp: "same_params s s'" and ls: "set (slab_list s' c) = set (slab_list s c) - {a}"
  shows "objs P F s' c = objs P F s c - {obj s c (P a) i}"
proof -
  have "card (set (i # F a)) = c_num (slab_cache s c)" "set (i # F a) \<subseteq> {..<c_num (slab_cache s c)}"
    using slab_invD(4)[OF inv c] i by (auto simp: slab_is_def distinct_card)
  then have all: "set (i # F a) = {..<c_num (slab_cache s c)}" by (intro card_subset_eq) auto
  have e: "objs P F s' c = {obj s c (P b) j |b j. b \<in> set (slab_list s c) - {a} \<and> j < c_num (slab_cache s c) \<and> j \<notin> set (F b)}"
    unfolding objs_def ls step_obj[OF sp] by (simp add: same_paramsD[OF sp])
  show ?thesis
  proof (intro set_eqI iffI)
    fix x assume "x \<in> objs P F s' c"
    then obtain b j where x: "x = obj s c (P b) j" "b \<in> set (slab_list s c)" "b \<noteq> a" "j < c_num (slab_cache s c)" "j \<notin> set (F b)"
      unfolding e by blast
    then have "x \<noteq> obj s c (P a) i" using obj_inject[OF inv c i(1) c(1) x(2,4)] by auto
    then show "x \<in> objs P F s c - {obj s c (P a) i}" using x by (auto simp: objs_def)
  next
    fix x assume "x \<in> objs P F s c - {obj s c (P a) i}"
    then obtain b j where x: "x = obj s c (P b) j" "b \<in> set (slab_list s c)" "j < c_num (slab_cache s c)" "j \<notin> set (F b)" "x \<noteq> obj s c (P a) i"
      by (auto simp: objs_def)
    have "b \<noteq> a"
    proof
      assume "b = a"
      moreover have "j \<in> set (i # F a)" unfolding all using x(3) by simp
      ultimately show False using x by auto
    qed
    then show "x \<in> objs P F s' c" unfolding e using x by blast
  qed
qed

lemma put_dead:
  assumes inv: "slab_inv zl {} P F s" and c: "c < SLAB_CACHE_NUM" "a \<in> set (slab_list s c)"
    and i: "i < c_num (slab_cache s c)" "i \<notin> set (F a)" and use: "obj s c (P a) i \<notin> slab_addrs s"
    and dead: "length (i # F a) = c_num (slab_cache s c)"
  shows "\<exists>s'. put_object c a (obj s c (P a) i) s = (True, s') \<and> slab_inv zl {} P F s' \<and> same_params s s' \<and> pb s' = pb s
    \<and> page_cache s' = page_cache s \<and> page_slab s' = page_slab s
    \<and> set (slab_list s' c) = set (slab_list s c) - {a} \<and> (\<forall>d. d \<noteq> c \<longrightarrow> slab_list s' d = slab_list s d)
    \<and> s_mem (slabs s' a) = s_mem (slabs s a) \<and> s_offset (slabs s' a) = s_offset (slabs s a)
    \<and> objs P F s' c = objs P F s c - {obj s c (P a) i} \<and> (\<forall>d. d \<noteq> c \<longrightarrow> objs P F s' d = objs P F s d)"
proof -
  define s' where s': "s' = upd_cache c (unlink_slab a) (put_record a i (c_num (slab_cache s c) - length (i # F a)) s)"
  have run: "put_object c a (obj s c (P a) i) s = (True, s')"
    using dead unfolding put_object_eq(1)[OF inv c i] put_record_def s' by simp
  have dist: "distinct (slabs_full (slab_cache s c) @ slabs_notfull (slab_cache s c))" using slab_invD(3)[OF inv c(1)] by (simp add: slab_list_def)
  have sp: "same_params s s'" by (simp add: s' same_params_def cparams_def unlink_slab_def put_record_def)
  have lf: "slabs_full (slab_cache s' d) = (if d = c then remove1 a (slabs_full (slab_cache s c)) else slabs_full (slab_cache s d))"
    and ln: "slabs_notfull (slab_cache s' d) = (if d = c then remove1 a (slabs_notfull (slab_cache s c)) else slabs_notfull (slab_cache s d))" for d
    by (simp_all add: s' unlink_slab_def put_record_def)
  have lc: "set (slab_list s' c) = set (slab_list s c) - {a}" using dist unfolding slab_list_def lf ln by auto
  have ld: "\<forall>d. d \<noteq> c \<longrightarrow> slab_list s' d = slab_list s d" unfolding slab_list_def lf ln by simp
  have sub: "set (slab_list s' d) \<subseteq> set (slab_list s d)" for d using lc ld by (cases "d = c") auto
  have na: "a \<notin> set (slab_list s' d)" if "d < SLAB_CACHE_NUM" for d
    using lc ld slab_unique[OF inv c that] by (cases "d = c") auto
  have f: "pb s' = pb s" "page_cache s' = page_cache s" "page_slab s' = page_slab s"
    "\<And>b. b \<noteq> a \<Longrightarrow> slabs s' b = slabs s b" "s_mem (slabs s' a) = s_mem (slabs s a)" "s_offset (slabs s' a) = s_offset (slabs s a)"
    by (simp_all add: s' put_record_def)
  have oc: "objs P F s' c = objs P F s c - {obj s c (P a) i}" by (rule objs_remove[OF inv c i dead sp lc])
  have od: "\<forall>d. d \<noteq> c \<longrightarrow> objs P F s' d = objs P F s d" 
  proof (intro allI impI)
    fix d assume "d \<noteq> c"
    then have "slab_list s' d = slab_list s d" using ld by blast
    then show "objs P F s' d = objs P F s d" by (intro objs_cong[OF sp]) simp_all
  qed
  have "slab_inv zl {} P F s'"
    unfolding slab_inv_def
  proof (intro conjI allI impI ballI)
    show "buddy_ok zl (pb s')" using slab_invD(1)[OF inv] f by simp
    show "params_ok s'" by (rule params_frame[OF slab_invD(2)[OF inv] sp])
  next
    fix d assume d: "d < SLAB_CACHE_NUM"
    show "distinct (slab_list s' d)" using slab_invD(3)[OF inv d] dist unfolding slab_list_def lf ln by (cases "d = c") (auto simp: set_remove1_eq)
    show "F b = []" if "b \<in> set (slabs_full (slab_cache s' d))" for b
      using that slab_invD(8)[OF inv d] unfolding lf by (auto split: if_splits dest: notin_set_remove1)
    show "F b \<noteq> []" if "b \<in> set (slabs_notfull (slab_cache s' d))" for b
      using that slab_invD(9)[OF inv d, of b] unfolding ln by (auto split: if_splits dest: notin_set_remove1)
    fix b assume b': "b \<in> set (slab_list s' d)"
    then have b: "b \<in> set (slab_list s d)" "b \<noteq> a" using sub na[OF d] by auto
    show "slab_is s' d b (P b) (F b)" using slab_invD(4)[OF inv d b(1)] by (simp only: slab_is_cong[OF sp f(4)[OF b(2)]])
    show "owned zl s' d b (P b)" using slab_invD(5)[OF inv d b(1)] by (simp only: owned_cong[OF sp f(1-3)])
    show "length (F b) < c_num (slab_cache s' d)" using slab_invD(6)[OF inv d b(1)] by (simp add: same_paramsD[OF sp])
    assume "off_slab (slab_cache s' d)"
    then have o: "off_slab (slab_cache s d)" by (simp only: same_paramsD[OF sp])
    have nb: "b \<noteq> obj s c (P a) i" using use d b(1) by (auto simp: slab_addrs_def)
    have "b \<in> objs P F s (slab_cachep (slab_cache s d))" by (rule slab_invD(7)[OF inv d b(1) o])
    then have "b \<in> objs P F s' (slab_cachep (slab_cache s d))" using oc od nb by (cases "slab_cachep (slab_cache s d) = c") auto
    then show "b \<in> objs P F s' (slab_cachep (slab_cache s' d))" by (simp only: same_paramsD[OF sp])
  qed
  then show ?thesis using run sp f lc ld oc od by blast
qed

end
