(* ===== verification/SlabHeap.thy ===== *)
theory SlabHeap
  imports SlabInv
begin

text \<open>
  \<open>kmalloc\<close> and \<open>kfree\<close> as a heap: from the steps of \<open>SlabInv\<close> to the correctness of
  \<open>kmem_cache_alloc\<close>, \<open>kmem_cache_free\<close> and of the two entry points, and the properties of
  \<open>kern/mm/slab.c\<close>.
\<close>

section \<open>Pages of the buddy allocator under the slabs\<close>

lemma slab_pages_owned: "slab_inv zl X P F s \<Longrightarrow> q \<in> slab_pages P s \<Longrightarrow> q \<notin> free_set (pb s) \<and> PageSlab (pages (pb s) q)"
  by (auto simp: slab_pages_def dest: slab_invD(5) simp: owned_def)

lemma inv_pb:
  assumes inv: "slab_inv zl X P F s" and b: "buddy_ok zl b" "in_zone zl b = in_zone zl (pb s)"
    and q: "\<forall>q \<in> slab_pages P s. q \<notin> free_set b \<and> PageSlab (pages b q)"
  shows "slab_inv zl X P F (s\<lparr>pb := b\<rparr>)"
proof -
  have o: "owned zl (s\<lparr>pb := b\<rparr>) c a (P a)" if "c < SLAB_CACHE_NUM" "a \<in> set (slab_list s c)" for c a
    using slab_invD(5)[OF inv that] b(2) q that unfolding owned_def slab_pages_def by (auto simp: pgs_def)
  have e: "slab_list (s\<lparr>pb := b\<rparr>) = slab_list s" "params_ok (s\<lparr>pb := b\<rparr>) = params_ok s" "slab_is (s\<lparr>pb := b\<rparr>) = slab_is s" "objs P F (s\<lparr>pb := b\<rparr>) = objs P F s"
    by (auto simp: slab_list_def params_ok_def slab_is_def objs_def obj_def fun_eq_iff)
  show ?thesis using inv o b(1) unfolding slab_inv_def e by simp
qed

lemma pb_simps [simp]:
  "objs P F (s\<lparr>pb := b\<rparr>) = objs P F s" "slab_addrs (s\<lparr>pb := b\<rparr>) = slab_addrs s" "slab_pages P (s\<lparr>pb := b\<rparr>) = slab_pages P s"
  "pgs (s\<lparr>pb := b\<rparr>) c p = pgs s c p" "slab_list (s\<lparr>pb := b\<rparr>) c = slab_list s c" "same_params s (s\<lparr>pb := b\<rparr>)"
  by (auto simp: objs_def obj_def slab_list_def slab_addrs_def slab_pages_def pgs_def fun_eq_iff same_params_def)

lemma pow_order: "params_ok s \<Longrightarrow> c < SLAB_CACHE_NUM \<Longrightarrow> (2::nat) ^ page_order (slab_cache s c) \<le> 1024"
  using params_okD(4)[of s c] power_increasing[of "page_order (slab_cache s c)" 10 "2 :: nat"] by simp

lemma slab_alloc_pages_ok:
  assumes inv: "slab_inv zl X P F s" and c: "c < SLAB_CACHE_NUM"
  shows "slab_alloc_pages (2 ^ page_order (slab_cache s c)) s = Some (None, s) \<or>
    (\<exists>p b. slab_alloc_pages (2 ^ page_order (slab_cache s c)) s = Some (Some p, s\<lparr>pb := b\<rparr>) \<and> slab_inv zl X P F (s\<lparr>pb := b\<rparr>)
      \<and> in_zone zl b = in_zone zl (pb s) \<and> in_zone zl b p (2 ^ page_order (slab_cache s c)) \<and> pgs s c p \<subseteq> free_set (pb s)
      \<and> free_set b = free_set (pb s) - pgs s c p)"
proof -
  note po = params_okD(4)[OF slab_invD(2)[OF inv] c] pow_order[OF slab_invD(2)[OF inv] c]
  let ?n = "(2::nat) ^ page_order (slab_cache s c)"
  consider "buddy_alloc_pages ?n (pb s) = Some (None, pb s)"
    | p b where "buddy_alloc_pages ?n (pb s) = Some (Some p, b)" "buddy_ok zl b" "in_zone zl (pb s) p ?n" "in_zone zl b = in_zone zl (pb s)"
      "{p..<p + ?n} \<subseteq> free_set (pb s)" "free_set b = free_set (pb s) - {p..<p + ?n}"
    using buddy_pmm.alloc_law[OF slab_invD(1)[OF inv], of ?n] po(2) by fastforce
  then show ?thesis
  proof cases
    case 1
    then show ?thesis by (simp add: slab_alloc_pages_def)
  next
    case 2
    have "slab_inv zl X P F (s\<lparr>pb := b\<rparr>)"
    proof (rule inv_pb[OF inv 2(2,4)], intro ballI)
      fix q assume "q \<in> slab_pages P s"
      then have q: "q \<notin> free_set (pb s)" "PageSlab (pages (pb s) q)" using slab_pages_owned[OF inv] by auto
      have "pages b q = pages (pb s) q"
        by (rule alloc_pages_frame[OF slab_invD(1)[OF inv] refl _ 2(1) q(1)]) (use po(1) in simp)
      then show "q \<notin> free_set b \<and> PageSlab (pages b q)" using q 2(6) by simp
    qed
    then show ?thesis using 2 unfolding pgs_def slab_alloc_pages_def by (intro disjI2 exI[of _ p] exI[of _ b]) simp
  qed
qed

lemma slab_free_pages_ok:
  assumes inv: "slab_inv zl X P F s" and c: "c < SLAB_CACHE_NUM"
    and p: "in_zone zl (pb s) p (2 ^ page_order (slab_cache s c))" "pgs s c p \<inter> free_set (pb s) = {}" "pgs s c p \<inter> slab_pages P s = {}"
  shows "\<exists>b. slab_free_pages p (2 ^ page_order (slab_cache s c)) s = Some (s\<lparr>pb := b\<rparr>) \<and> slab_inv zl X P F (s\<lparr>pb := b\<rparr>)
      \<and> in_zone zl b = in_zone zl (pb s) \<and> free_set b = free_set (pb s) \<union> pgs s c p"
proof -
  let ?n = "(2::nat) ^ page_order (slab_cache s c)"
  have n: "0 < ?n" "?n \<le> 1024" using pow_order[OF slab_invD(2)[OF inv] c] by simp_all
  obtain b where b: "buddy_free_pages p ?n (pb s) = Some b" "buddy_ok zl b" "in_zone zl b = in_zone zl (pb s)" "free_set b = free_set (pb s) \<union> {p..<p + ?n}"
    using buddy_pmm.release_law[OF slab_invD(1)[OF inv] n p(1)] p(2) by (auto simp: pgs_def)
  have "slab_inv zl X P F (s\<lparr>pb := b\<rparr>)"
  proof (rule inv_pb[OF inv b(2,3)], intro ballI)
    fix q assume q: "q \<in> slab_pages P s"
    then have "q \<notin> free_set (pb s)" "PageSlab (pages (pb s) q)" "q \<notin> {p..<p + ?n}" using slab_pages_owned[OF inv q] p(3) by (auto simp: pgs_def)
    moreover from this have "pages b q = pages (pb s) q" using free_pages_frame[OF slab_invD(1)[OF inv] p(1) b(1)] by blast
    ultimately show "q \<notin> free_set b \<and> PageSlab (pages b q)" using b(4) by simp
  qed
  then show ?thesis using b by (auto simp: slab_free_pages_def pgs_def)
qed

text \<open>Setting or clearing the flag of a list of pages.\<close>

lemma fold_flag:
  assumes "f = SetPageSlab \<or> f = ClearPageSlab"
  shows "buddy_ok zl (fold (\<lambda>p. upd_page p f) ps b) = buddy_ok zl b \<and> in_zone zl (fold (\<lambda>p. upd_page p f) ps b) = in_zone zl b
    \<and> free_set (fold (\<lambda>p. upd_page p f) ps b) = free_set b \<and> (\<forall>q. q \<notin> set ps \<longrightarrow> pages (fold (\<lambda>p. upd_page p f) ps b) q = pages b q)
    \<and> (\<forall>q \<in> set ps. PageSlab (pages (fold (\<lambda>p. upd_page p f) ps b) q) = (f = SetPageSlab)) \<and> npage (fold (\<lambda>p. upd_page p f) ps b) = npage b"
proof (induction ps arbitrary: b rule: rev_induct)
  case (snoc p ps)
  let ?b = "fold (\<lambda>p. upd_page p f) ps b"
  have ne: "SetPageSlab \<noteq> ClearPageSlab"
    by (metis PageFlag_Clear PageFlag_Set)
  have e: "p_zone_num (f q) = p_zone_num q" "p_property (f q) = p_property q" "PageReserved (f q) = PageReserved q" "PageProperty (f q) = PageProperty q" for q
    using assms by auto
  have "buddy_ok zl (upd_page p f ?b) = buddy_ok zl ?b" "in_zone zl (upd_page p f ?b) = in_zone zl ?b"
    by (rule buddy_flag_ok; rule e)+
  then show ?case using snoc[of b] assms ne by auto
qed simp

lemma clear_pages_eq:
  "distinct ps \<Longrightarrow> \<forall>p \<in> set ps. PageSlab (pages (pb s) p) \<Longrightarrow> clear_pages ps s = Some (s\<lparr>pb := fold (\<lambda>p. upd_page p ClearPageSlab) ps (pb s)\<rparr>)"
proof (induction ps arbitrary: s)
  case (Cons p ps)
  let ?t = "s\<lparr>pb := upd_page p ClearPageSlab (pb s)\<rparr>"
  have "\<forall>q \<in> set ps. PageSlab (pages (pb ?t) q)" using Cons.prems by auto
  from Cons.IH[OF _ this] Cons.prems show ?case by simp
qed simp

section \<open>Giving back and adding a slab\<close>

lemma in_zone_npage: "buddy_ok zl b \<Longrightarrow> in_zone zl b p n \<Longrightarrow> 0 < n \<Longrightarrow> p < npage b"
  unfolding in_zone_def buddy_ok_def zones_ok_def by (metis atLeastLessThan_iff le_add1 le_refl less_add_same_cancel1 subsetD)

lemma release_ok:
  assumes inv: "slab_inv zl {} P F s" and c: "c < SLAB_CACHE_NUM" and m: "s_mem (slabs s a) = page2kva p + s_offset (slabs s a)"
    and p: "in_zone zl (pb s) p (2 ^ page_order (slab_cache s c))" "\<forall>q \<in> pgs s c p. q \<notin> free_set (pb s) \<and> PageSlab (pages (pb s) q)"
      "pgs s c p \<inter> slab_pages P s = {}"
  shows "\<exists>b. release_slab c a s = Some (s\<lparr>pb := b\<rparr>) \<and> slab_inv zl {} P F (s\<lparr>pb := b\<rparr>)
      \<and> in_zone zl b = in_zone zl (pb s) \<and> free_set b = free_set (pb s) \<union> pgs s c p"
proof -
  let ?ps = "[p..<p + 2 ^ page_order (slab_cache s c)]"
  let ?b = "fold (\<lambda>p. upd_page p ClearPageSlab) ?ps (pb s)"
  note fl = fold_flag[of ClearPageSlab zl ?ps "pb s", OF disjI2[OF refl]]
  have ps: "set ?ps = pgs s c p" by (simp add: pgs_def)
  have k: "kva2page (s_mem (slabs s a) - s_offset (slabs s a)) s = Some p"
    using in_zone_npage[OF slab_invD(1)[OF inv] p(1)] by (simp add: m kva2page_def)
  have cl: "clear_pages ?ps s = Some (s\<lparr>pb := ?b\<rparr>)" by (rule clear_pages_eq) (use p(2) ps in auto)
  have iz: "in_zone zl ?b = in_zone zl (pb s)" using fl by blast
  have i1: "slab_inv zl {} P F (s\<lparr>pb := ?b\<rparr>)"
  proof (rule inv_pb[OF inv _ iz])
    show "buddy_ok zl ?b" using fl slab_invD(1)[OF inv] by simp
    show "\<forall>q \<in> slab_pages P s. q \<notin> free_set ?b \<and> PageSlab (pages ?b q)"
    proof
      fix q assume q: "q \<in> slab_pages P s"
      then have "q \<notin> set ?ps" using p(3) ps by auto
      then show "q \<notin> free_set ?b \<and> PageSlab (pages ?b q)" using fl slab_pages_owned[OF inv q] by simp
    qed
  qed
  have fs: "free_set ?b = free_set (pb s)" using fl by blast
  obtain b where b: "slab_free_pages p (2 ^ page_order (slab_cache s c)) (s\<lparr>pb := ?b\<rparr>) = Some (s\<lparr>pb := b\<rparr>)"
    "slab_inv zl {} P F (s\<lparr>pb := b\<rparr>)" "in_zone zl b = in_zone zl (pb s)" "free_set b = free_set (pb s) \<union> pgs s c p"
    using slab_free_pages_ok[OF i1 c, of p] p iz fs by auto
  have "release_slab c a s = Some (s\<lparr>pb := b\<rparr>)" unfolding release_slab_def k Option.bind.bind_lunit cl using b(1) by simp
  then show ?thesis using b by blast
qed

lemma set_pages_eq: "fold (set_page c a) ps s = s\<lparr>page_cache := (\<lambda>q. if q \<in> set ps then c else page_cache s q),
   page_slab := (\<lambda>q. if q \<in> set ps then a else page_slab s q), pb := fold (\<lambda>p. upd_page p SetPageSlab) ps (pb s)\<rparr>"
  by (induction ps arbitrary: s) (auto simp: set_page_def fun_eq_iff)

lemma bufctl_eq: "fold (\<lambda>i b. b(i := i + 1)) [0..<n] b = (\<lambda>i. if i < n then i + 1 else b i :: nat)"
  by (induction n) (auto simp: fun_eq_iff)

lemma links_upt:
  "k < n \<Longrightarrow> (\<And>i. k \<le> i \<Longrightarrow> i < n - 1 \<Longrightarrow> b i = i + 1) \<Longrightarrow> b (n - 1) = BUFCTL_END \<Longrightarrow> links b k [k..<n]"
proof (induction "n - k" arbitrary: k)
  case (Suc m)
  show ?case
  proof (cases "k = n - 1")
    case True
    then have "[k..<n] = [k]" using Suc.prems(1) by (simp add: upt_rec)
    then show ?thesis using Suc.prems(3) True by simp
  next
    case False
    then have "links b (k + 1) [k + 1..<n]" using Suc by (intro Suc.hyps(1)) auto
    moreover have "[k..<n] = k # [k + 1..<n]" using Suc.prems(1) by (simp add: upt_rec)
    ultimately show ?thesis using Suc.prems(2)[of k] Suc.prems(1) False by simp
  qed
qed simp

lemma finish_grow_ok:
  assumes inv: "slab_inv zl {} P F s" and c: "c < SLAB_CACHE_NUM"
    and p: "in_zone zl (pb s) p (2 ^ page_order (slab_cache s c))" "pgs s c p \<inter> free_set (pb s) = {}" "pgs s c p \<inter> slab_pages P s = {}"
    and a: "a \<notin> slab_addrs s" "off_slab (slab_cache s c) \<longrightarrow> a \<in> objs P F s (slab_cachep (slab_cache s c))"
      "\<not> off_slab (slab_cache s c) \<longrightarrow> a = page2kva p"
  defines "P' \<equiv> P(a := p)" and "F' \<equiv> F(a := [0..<c_num (slab_cache s c)])" and "s' \<equiv> finish_grow c p a s"
  shows "slab_inv zl {a} P' F' s'" "slabs_notfull (slab_cache s' c) = a # slabs_notfull (slab_cache s c)" "same_params s s'"
    "free_set (pb s') = free_set (pb s)" "in_zone zl (pb s') = in_zone zl (pb s)" "slab_addrs s' = insert a (slab_addrs s)"
    "slab_pages P' s' = slab_pages P s \<union> pgs s c p" "\<And>d. d < SLAB_CACHE_NUM \<Longrightarrow> objs P' F' s' d = objs P F s d"
proof -
  let ?n = "c_num (slab_cache s c)" and ?ps = "[p..<p + 2 ^ page_order (slab_cache s c)]"
  let ?b = "fold (\<lambda>p. upd_page p SetPageSlab) ?ps (pb s)"
  note fl = fold_flag[of SetPageSlab zl ?ps "pb s", OF disjI1[OF refl]]
  have ps: "set ?ps = pgs s c p" by (simp add: pgs_def)
  note num = params_okD(2,3)[OF slab_invD(2)[OF inv] c]
  define ch where "ch = (slab_cache s c)\<lparr>slabs_notfull := a # slabs_notfull (slab_cache s c)\<rparr>"
  have f: "slab_cache s' = (slab_cache s)(c := ch)" "pb s' = ?b"
    "page_cache s' = (\<lambda>q. if q \<in> pgs s c p then c else page_cache s q)" "page_slab s' = (\<lambda>q. if q \<in> pgs s c p then a else page_slab s q)"
    "\<And>b. b \<noteq> a \<Longrightarrow> slabs s' b = slabs s b"
    unfolding s'_def finish_grow_def init_slabmgmt_def Let_def set_pages_eq by (simp_all add: ch_def upd_slab_def upd_cache_def pgs_def cong: if_cong)
  have sa: "s_mem (slabs s' a) = page2kva p + c_offset (slab_cache s c)" "s_offset (slabs s' a) = c_offset (slab_cache s c)"
    "s_inuse (slabs s' a) = 0" "s_free (slabs s' a) = 0"
    "bufctl (slabs s' a) = (\<lambda>i. if i < ?n then i + 1 else bufctl (slabs s a) i)(?n - 1 := BUFCTL_END)"
    unfolding s'_def finish_grow_def init_slabmgmt_def Let_def set_pages_eq bufctl_eq by (simp_all add: upd_slab_def upd_cache_def cong: if_cong)
  show sp: "same_params s s'" by (simp add: same_params_def f(1) cparams_def ch_def)
  have lf: "slabs_full (slab_cache s' d) = slabs_full (slab_cache s d)" for d by (simp add: f(1) ch_def)
  have ln: "slabs_notfull (slab_cache s' d) = (if d = c then a # slabs_notfull (slab_cache s c) else slabs_notfull (slab_cache s d))" for d
    by (simp add: f(1) ch_def)
  show "slabs_notfull (slab_cache s' c) = a # slabs_notfull (slab_cache s c)" by (simp add: ln)
  show "free_set (pb s') = free_set (pb s)" "in_zone zl (pb s') = in_zone zl (pb s)" unfolding f using fl by blast+
  have ls: "set (slab_list s' d) = (if d = c then insert a (set (slab_list s c)) else set (slab_list s d))" for d
    unfolding slab_list_def lf ln by auto
  show "slab_addrs s' = insert a (slab_addrs s)" using c unfolding slab_addrs_def ls by (auto split: if_splits)
  have na: "a \<notin> set (slab_list s d)" if "d < SLAB_CACHE_NUM" for d using a(1) that by (auto simp: slab_addrs_def)
  have pe: "P' b = P b" "F' b = F b" if "d < SLAB_CACHE_NUM" "b \<in> set (slab_list s d)" for b d
    using na[OF that(1)] that(2) by (auto simp: P'_def F'_def)
  have pa: "P' a = p" "F' a = [0..<?n]" by (simp_all add: P'_def F'_def)
  show "slab_pages P' s' = slab_pages P s \<union> pgs s c p"
  proof -
    have "(\<Union>b \<in> set (slab_list s' d). pgs s' d (P' b)) = (\<Union>b \<in> set (slab_list s d). pgs s d (P b)) \<union> (if d = c then pgs s c p else {})"
      if "d < SLAB_CACHE_NUM" for d
      unfolding ls step_pgs[OF sp] using pe(1)[OF that] pa(1) by (cases "d = c") auto
    then show ?thesis unfolding slab_pages_def using c by (auto split: if_splits)
  qed
  show os: "objs P' F' s' d = objs P F s d" if d: "d < SLAB_CACHE_NUM" for d
  proof -
    have "objs P' F' s' d = {obj s d (P' b) i |b i. b \<in> set (slab_list s' d) \<and> i < c_num (slab_cache s d) \<and> i \<notin> set (F' b)}"
      unfolding objs_def step_obj[OF sp] by (simp add: same_paramsD[OF sp])
    also have "\<dots> = {obj s d (P' b) i |b i. b \<in> set (slab_list s d) \<and> i < c_num (slab_cache s d) \<and> i \<notin> set (F' b)}"
      unfolding ls using pa(2) by auto
    also have "\<dots> = objs P F s d" unfolding objs_def using pe[OF d] by auto metis+
    finally show ?thesis .
  qed
  show "slab_inv zl {a} P' F' s'"
    unfolding slab_inv_def
  proof (intro conjI allI impI ballI)
    show "buddy_ok zl (pb s')" unfolding f using fl slab_invD(1)[OF inv] by blast
    show "params_ok s'" by (rule params_frame[OF slab_invD(2)[OF inv] sp])
  next
    fix d assume d: "d < SLAB_CACHE_NUM"
    show "distinct (slab_list s' d)" using slab_invD(3)[OF inv d] na[OF d] unfolding slab_list_def lf ln by auto
    show "F' b = []" if "b \<in> set (slabs_full (slab_cache s' d))" for b
      using that slab_invD(8)[OF inv d] pe(2)[OF d, of b] unfolding lf by (simp add: slab_list_def)
    show "F' b \<noteq> []" if "b \<in> set (slabs_notfull (slab_cache s' d))" for b
    proof (cases "b = a")
      case True
      then show ?thesis using pa(2) num by simp
    next
      case False
      then have "b \<in> set (slabs_notfull (slab_cache s d))" using that unfolding ln by (auto split: if_splits)
      then show ?thesis using slab_invD(9)[OF inv d] pe(2)[OF d, of b] by (simp add: slab_list_def)
    qed
    fix b assume b: "b \<in> set (slab_list s' d)"
    consider "b = a" "d = c" | "b \<in> set (slab_list s d)" "b \<noteq> a" using b na[OF d] unfolding ls by (auto split: if_splits)
    note cs = this
    show "slab_is s' d b (P' b) (F' b)" using cs
    proof cases
      case 1
      have "links (bufctl (slabs s' a)) 0 [0..<?n]" unfolding sa by (rule links_upt) (use num in auto)
      then show ?thesis unfolding 1 slab_is_def pa sa using a(3) num by (auto simp: same_paramsD[OF sp])
    next
      case 2
      then show ?thesis using slab_invD(4)[OF inv d 2(1)] pe[OF d 2(1)] by (simp only: slab_is_cong[OF sp f(5)[OF 2(2)]])
    qed
    show "owned zl s' d b (P' b)" using cs
    proof cases
      case 1
      show ?thesis unfolding 1 pa owned_def step_pgs[OF sp] same_paramsD[OF sp] f(2-4) using p(1,2) fl unfolding ps by auto
    next
      case 2
      have q: "q \<notin> pgs s c p" if "q \<in> pgs s d (P b)" for q using p(3) that d 2(1) by (auto simp: slab_pages_def)
      show ?thesis unfolding pe[OF d 2(1)] owned_def step_pgs[OF sp] same_paramsD[OF sp] f(2-4)
        using slab_invD(5)[OF inv d 2(1)] fl q unfolding ps owned_def by auto
    qed
    show "length (F' b) < c_num (slab_cache s' d)" if "b \<notin> {a}"
    proof -
      have b0: "b \<in> set (slab_list s d)" using cs that by blast
      show ?thesis unfolding pe(2)[OF d b0] same_paramsD[OF sp] by (rule slab_invD(6)[OF inv d b0]) simp
    qed
    assume "off_slab (slab_cache s' d)"
    then have o: "off_slab (slab_cache s d)" by (simp only: same_paramsD[OF sp])
    then have k: "slab_cachep (slab_cache s d) < SLAB_CACHE_NUM" using params_okD(6)[OF slab_invD(2)[OF inv] d] by blast
    have "b \<in> objs P F s (slab_cachep (slab_cache s d))" 
      using cs
    proof cases
      case 1
      then show ?thesis using a(2) o by simp
    next
      case 2
      then show ?thesis using slab_invD(7)[OF inv d 2(1) o] by simp
    qed
    then show "b \<in> objs P' F' s' (slab_cachep (slab_cache s' d))" by (simp only: same_paramsD[OF sp] os[OF k])
  qed
qed

section \<open>Allocation\<close>

text \<open>The objects in use that are not control parts of slabs, with their caches.\<close>

definition live :: "(nat \<Rightarrow> nat) \<Rightarrow> (nat \<Rightarrow> nat list) \<Rightarrow> slab_state \<Rightarrow> (nat \<times> nat) set" where
  "live P F s = {(c, x). c < SLAB_CACHE_NUM \<and> x \<in> objs P F s c \<and> x \<notin> slab_addrs s}"

definition slab_post :: "(nat \<Rightarrow> nat) \<Rightarrow> (nat \<Rightarrow> nat) \<Rightarrow> slab_state \<Rightarrow> (nat \<Rightarrow> nat) \<Rightarrow> (nat \<Rightarrow> nat list) \<Rightarrow> slab_state \<Rightarrow> bool" where
  "slab_post zl P s P' F' s' \<longleftrightarrow> slab_inv zl {} P' F' s' \<and> same_params s s' \<and> in_zone zl (pb s') = in_zone zl (pb s)
     \<and> free_set (pb s') \<union> slab_pages P' s' = free_set (pb s) \<union> slab_pages P s"

lemma obj_in_pages:
  assumes "slab_inv zl X P F s" "c < SLAB_CACHE_NUM" "x \<in> objs P F s c"
  shows "(x - 0xC0000000) div PAGE \<in> slab_pages P s"
  using obj_page(1)[OF slab_invD(2)[OF assms(1)] assms(2)] assms(2,3) unfolding objs_def slab_pages_def by blast

lemma live_inject: "slab_inv zl X P F s \<Longrightarrow> (c, x) \<in> live P F s \<Longrightarrow> (d, x) \<in> live P F s \<Longrightarrow> c = d"
  unfolding live_def objs_def using obj_inject by blast

lemma alloc_first:
  assumes inv: "slab_inv zl X P F s" and c: "c < SLAB_CACHE_NUM" and nf: "slabs_notfull (slab_cache s c) = a # r" and X: "X \<subseteq> {a}"
  shows "\<exists>x s' F'. kmem_cache_alloc c s = Some (Some x, s') \<and> slab_inv zl {} P F' s' \<and> same_params s s' \<and> pb s' = pb s
    \<and> slab_pages P s' = slab_pages P s \<and> x \<notin> objs P F s c \<and> live P F' s' = insert (c, x) (live P F s)"
proof -
  obtain i fl s' where i: "F a = i # fl" "kmem_cache_alloc_one c a s = (obj s c (P a) i, s')" "slab_inv zl {} P (F(a := fl)) s'" "slab_step a s s'"
    "i < c_num (slab_cache s c)" "objs P (F(a := fl)) s' c = insert (obj s c (P a) i) (objs P F s c)" "obj s c (P a) i \<notin> objs P F s c"
    "\<forall>d < SLAB_CACHE_NUM. d \<noteq> c \<longrightarrow> objs P (F(a := fl)) s' d = objs P F s d"
    using alloc_one_ok[OF inv c nf X] by blast
  have a: "a \<in> set (slab_list s c)" using nf by (simp add: slab_list_def)
  have sp: "same_params s s'" "pb s' = pb s" and ls: "\<And>d. set (slab_list s' d) = set (slab_list s d)" using i(4) by (auto simp: slab_step_def)
  have sa: "slab_addrs s' = slab_addrs s" unfolding slab_addrs_def ls ..
  have "obj s c (P a) i \<notin> slab_addrs s" using slab_addr_cases[OF inv _ c a i(5) refl] i(7) by blast
  then have "live P (F(a := fl)) s' = insert (c, obj s c (P a) i) (live P F s)"
    using i(6,8) c unfolding live_def sa by auto
  moreover have "slab_pages P s' = slab_pages P s" unfolding slab_pages_def ls step_pgs[OF sp(1)] ..
  moreover have "kmem_cache_alloc c s = Some (Some (obj s c (P a) i), s')" using nf i(2) by (simp add: kmem_cache_alloc.simps[of c s])
  ultimately show ?thesis using i(3,7) sp by blast
qed

lemma alloc_new:
  assumes inv: "slab_inv zl {} P F s" and c: "c < SLAB_CACHE_NUM"
    and p: "in_zone zl (pb s) p (2 ^ page_order (slab_cache s c))" "pgs s c p \<inter> free_set (pb s) = {}" "pgs s c p \<inter> slab_pages P s = {}"
    and a: "a \<notin> slab_addrs s" "off_slab (slab_cache s c) \<longrightarrow> a \<in> objs P F s (slab_cachep (slab_cache s c))"
      "\<not> off_slab (slab_cache s c) \<longrightarrow> a = page2kva p"
  shows "\<exists>x s' P' F'. kmem_cache_alloc c (finish_grow c p a s) = Some (Some x, s') \<and> slab_inv zl {} P' F' s' \<and> same_params s s'
    \<and> in_zone zl (pb s') = in_zone zl (pb s) \<and> free_set (pb s') = free_set (pb s) \<and> slab_pages P' s' = slab_pages P s \<union> pgs s c p
    \<and> x \<notin> objs P F s c \<and> live P' F' s' = insert (c, x) {y \<in> live P F s. snd y \<noteq> a}"
proof -
  let ?P = "P(a := p)" and ?F = "F(a := [0..<c_num (slab_cache s c)])" and ?s = "finish_grow c p a s"
  note g = finish_grow_ok[OF inv c p a]
  obtain x s' F' where x: "kmem_cache_alloc c ?s = Some (Some x, s')" "slab_inv zl {} ?P F' s'" "same_params ?s s'" "pb s' = pb ?s"
    "slab_pages ?P s' = slab_pages ?P ?s" "x \<notin> objs ?P ?F ?s c" "live ?P F' s' = insert (c, x) (live ?P ?F ?s)"
    using alloc_first[OF g(1) c g(2) subset_refl] by blast
  have "live ?P ?F ?s = {y \<in> live P F s. snd y \<noteq> a}" using g(8) unfolding live_def g(6) by auto
  moreover have "x \<notin> objs P F s c" using x(6) g(8)[OF c] by simp
  ultimately show ?thesis using x g(3-7) same_params_trans[OF g(3) x(3)]
    by (intro exI[of _ x] exI[of _ s'] exI[of _ ?P] exI[of _ F']) simp
qed

text \<open>The outcome of an allocation from the cache \<open>c\<close>.\<close>

definition alloc_post :: "(nat \<Rightarrow> nat) \<Rightarrow> nat \<Rightarrow> (nat \<Rightarrow> nat) \<Rightarrow> (nat \<Rightarrow> nat list) \<Rightarrow> slab_state \<Rightarrow> nat option
    \<Rightarrow> (nat \<Rightarrow> nat) \<Rightarrow> (nat \<Rightarrow> nat list) \<Rightarrow> slab_state \<Rightarrow> bool" where
  "alloc_post zl c P F s r P' F' s' \<longleftrightarrow> slab_post zl P s P' F' s' \<and>
     (case r of None \<Rightarrow> live P' F' s' = live P F s
      | Some x \<Rightarrow> (c, x) \<notin> live P F s \<and> live P' F' s' = insert (c, x) (live P F s))"

lemma alloc_notfull:
  assumes inv: "slab_inv zl {} P F s" and c: "c < SLAB_CACHE_NUM" and nf: "slabs_notfull (slab_cache s c) \<noteq> []"
  shows "\<exists>r s' P' F'. kmem_cache_alloc c s = Some (r, s') \<and> alloc_post zl c P F s r P' F' s'"
proof -
  obtain a r where nf: "slabs_notfull (slab_cache s c) = a # r" using nf by (meson neq_Nil_conv)
  obtain x s' F' where x: "kmem_cache_alloc c s = Some (Some x, s')" "slab_inv zl {} P F' s'" "same_params s s'" "pb s' = pb s"
    "slab_pages P s' = slab_pages P s" "x \<notin> objs P F s c" "live P F' s' = insert (c, x) (live P F s)"
    using alloc_first[OF inv c nf empty_subsetI] by blast
  then have "alloc_post zl c P F s (Some x) P F' s'" by (simp add: alloc_post_def slab_post_def live_def)
  then show ?thesis using x(1) by blast
qed

lemma held_pages:
  assumes inv: "slab_inv zl X P F s" and b: "pgs s c p \<subseteq> free_set (pb s)" "free_set b = free_set (pb s) - pgs s c p"
  shows "pgs s c p \<inter> free_set b = {}" "pgs s c p \<inter> slab_pages P s = {}" "free_set b \<union> pgs s c p = free_set (pb s)"
  using b slab_pages_owned[OF inv] by auto

lemma alloc_on_slab:
  assumes inv: "slab_inv zl {} P F s" and c: "c < SLAB_CACHE_NUM" "\<not> off_slab (slab_cache s c)"
  shows "\<exists>r s' P' F'. kmem_cache_alloc c s = Some (r, s') \<and> alloc_post zl c P F s r P' F' s'"
proof (cases "slabs_notfull (slab_cache s c) = []")
  case False
  then show ?thesis by (rule alloc_notfull[OF inv c(1)])
next
  case nf: True
  from slab_alloc_pages_ok[OF inv c(1)] show ?thesis
  proof (elim disjE exE conjE)
    assume "slab_alloc_pages (2 ^ page_order (slab_cache s c)) s = Some (None, s)"
    then have "kmem_cache_alloc c s = Some (None, s)" using nf by (simp add: kmem_cache_alloc.simps[of c s])
    moreover have "alloc_post zl c P F s None P F s" using inv by (simp add: alloc_post_def slab_post_def)
    ultimately show ?thesis by blast
  next
    fix p b assume b: "slab_alloc_pages (2 ^ page_order (slab_cache s c)) s = Some (Some p, s\<lparr>pb := b\<rparr>)" "slab_inv zl {} P F (s\<lparr>pb := b\<rparr>)"
      "in_zone zl b = in_zone zl (pb s)" "in_zone zl b p (2 ^ page_order (slab_cache s c))" "pgs s c p \<subseteq> free_set (pb s)"
      "free_set b = free_set (pb s) - pgs s c p"
    let ?s = "s\<lparr>pb := b\<rparr>"
    note h = held_pages[OF inv b(5,6)]
    have run: "kmem_cache_alloc c s = kmem_cache_alloc c (finish_grow c p (page2kva p) ?s)"
      using nf b(1) c(2) by (subst kmem_cache_alloc.simps) simp
    have np: "p \<notin> slab_pages P s" 
    proof -
      have "p \<in> pgs s c p" by (simp add: pgs_def)
      then show ?thesis using h(2) by blast
    qed
    have na: "page2kva p \<notin> slab_addrs ?s" using slab_addr_page[OF b(2), of "page2kva p"] np by auto
    have no: "page2kva p \<notin> objs P F s d" if "d < SLAB_CACHE_NUM" for d using obj_in_pages[OF inv that, of "page2kva p"] np by auto
    obtain x s' P' F' where x: "kmem_cache_alloc c (finish_grow c p (page2kva p) ?s) = Some (Some x, s')" "slab_inv zl {} P' F' s'"
      "same_params ?s s'" "in_zone zl (pb s') = in_zone zl b" "free_set (pb s') = free_set b" "slab_pages P' s' = slab_pages P s \<union> pgs s c p"
      "x \<notin> objs P F s c" "live P' F' s' = insert (c, x) {y \<in> live P F ?s. snd y \<noteq> page2kva p}"
      using alloc_new[OF b(2) c(1), of p "page2kva p"] b(4) h na c(2) by auto
    have "{y \<in> live P F ?s. snd y \<noteq> page2kva p} = live P F s" using no by (auto simp: live_def)
    then have "alloc_post zl c P F s (Some x) P' F' s'"
      using x h(3) b(3) same_params_trans[OF pb_simps(6) x(3)] by (auto simp: alloc_post_def slab_post_def live_def)
    then show ?thesis using run x(1) by auto
  qed
qed

lemma alloc_off_slab:
  assumes inv: "slab_inv zl {} P F s" and c: "c < SLAB_CACHE_NUM" "off_slab (slab_cache s c)"
  shows "\<exists>r s' P' F'. kmem_cache_alloc c s = Some (r, s') \<and> alloc_post zl c P F s r P' F' s'"
proof (cases "slabs_notfull (slab_cache s c) = []")
  case False
  then show ?thesis by (rule alloc_notfull[OF inv c(1)])
next
  case nf: True
  let ?k = "slab_cachep (slab_cache s c)" and ?n = "2 ^ page_order (slab_cache s c)"
  have k: "?k < SLAB_CACHE_NUM" "\<not> off_slab (slab_cache s ?k)" using params_okD(6)[OF slab_invD(2)[OF inv] c] by auto
  from slab_alloc_pages_ok[OF inv c(1)] show ?thesis
  proof (elim disjE exE conjE)
    assume "slab_alloc_pages ?n s = Some (None, s)"
    then have "kmem_cache_alloc c s = Some (None, s)" using nf by (simp add: kmem_cache_alloc.simps[of c s])
    moreover have "alloc_post zl c P F s None P F s" using inv by (simp add: alloc_post_def slab_post_def)
    ultimately show ?thesis by blast
  next
    fix p b assume b: "slab_alloc_pages ?n s = Some (Some p, s\<lparr>pb := b\<rparr>)" "slab_inv zl {} P F (s\<lparr>pb := b\<rparr>)"
      "in_zone zl b = in_zone zl (pb s)" "in_zone zl b p ?n" "pgs s c p \<subseteq> free_set (pb s)" "free_set b = free_set (pb s) - pgs s c p"
    let ?s = "s\<lparr>pb := b\<rparr>"
    note h = held_pages[OF inv b(5,6)]
    obtain r t P1 F1 where t: "kmem_cache_alloc ?k ?s = Some (r, t)" "alloc_post zl ?k P F ?s r P1 F1 t"
      using alloc_on_slab[OF b(2) k(1)] k(2) by auto
    have i: "slab_inv zl {} P1 F1 t" "same_params s t" "in_zone zl (pb t) = in_zone zl (pb s)"
      "free_set (pb t) \<union> slab_pages P1 t = free_set b \<union> slab_pages P s"
      using t(2) b(3) same_params_trans[OF pb_simps(6)] by (auto simp: alloc_post_def slab_post_def)
    have ht: "pgs t c p \<inter> free_set (pb t) = {}" "pgs t c p \<inter> slab_pages P1 t = {}"
      using h i(4) unfolding step_pgs[OF i(2)] by blast+
    have zt: "in_zone zl (pb t) p (2 ^ page_order (slab_cache t c))" using b(3,4) i(3) by (simp add: same_paramsD[OF i(2)])
    have lv: "live P F ?s = live P F s" by (simp add: live_def)
    have run: "kmem_cache_alloc c s = (case r of
        None \<Rightarrow> do { s \<leftarrow> slab_free_pages p (2 ^ page_order (slab_cache t c)) t; Some (None, s) }
      | Some a \<Rightarrow> kmem_cache_alloc c (finish_grow c p a t))"
      by (subst kmem_cache_alloc.simps) (simp add: nf b(1) c(2) t(1))
    show ?thesis
    proof (cases r)
      case None
      obtain b' where b': "slab_free_pages p (2 ^ page_order (slab_cache t c)) t = Some (t\<lparr>pb := b'\<rparr>)" "slab_inv zl {} P1 F1 (t\<lparr>pb := b'\<rparr>)"
        "in_zone zl b' = in_zone zl (pb t)" "free_set b' = free_set (pb t) \<union> pgs t c p"
        using slab_free_pages_ok[OF i(1) c(1) zt ht] by blast
      have "live P1 F1 (t\<lparr>pb := b'\<rparr>) = live P F s" using t(2) None lv by (simp add: alloc_post_def live_def)
      moreover have "free_set b' \<union> slab_pages P1 t = free_set (pb s) \<union> slab_pages P s"
        using b'(4) i(4) h(3) unfolding step_pgs[OF i(2)] by blast
      ultimately have "alloc_post zl c P F s None P1 F1 (t\<lparr>pb := b'\<rparr>)"
        using b' i(3) same_params_trans[OF i(2) pb_simps(6)] by (simp add: alloc_post_def slab_post_def)
      then show ?thesis using run b'(1) None by auto
    next
      case (Some a)
      then have la: "(?k, a) \<notin> live P F s" "live P1 F1 t = insert (?k, a) (live P F s)" using t(2) lv by (simp_all add: alloc_post_def)
      then have a: "a \<notin> slab_addrs t" "a \<in> objs P1 F1 t (slab_cachep (slab_cache t c))" by (auto simp: live_def same_paramsD[OF i(2)])
      have ot: "off_slab (slab_cache t c)" using c(2) by (simp add: same_paramsD[OF i(2)])
      obtain x s' P' F' where x: "kmem_cache_alloc c (finish_grow c p a t) = Some (Some x, s')" "slab_inv zl {} P' F' s'"
        "same_params t s'" "in_zone zl (pb s') = in_zone zl (pb t)" "free_set (pb s') = free_set (pb t)" "slab_pages P' s' = slab_pages P1 t \<union> pgs t c p"
        "x \<notin> objs P1 F1 t c" "live P' F' s' = insert (c, x) {y \<in> live P1 F1 t. snd y \<noteq> a}"
        using alloc_new[OF i(1) c(1) zt ht a(1)] a(2) ot by auto
      have "{y \<in> live P1 F1 t. snd y \<noteq> a} = live P F s"
      proof -
        have "y \<noteq> a" if "(d, y) \<in> live P F s" for d y
          using that la live_inject[OF i(1), of d a ?k] by auto
        then show ?thesis unfolding la(2) by fastforce
      qed
      moreover from this have "(c, x) \<notin> live P F s" using x(7) by (auto simp: live_def)
      moreover have "free_set (pb s') \<union> slab_pages P' s' = free_set (pb s) \<union> slab_pages P s"
        unfolding x(5,6) using i(4) h(3) unfolding step_pgs[OF i(2)] by blast
      ultimately have "alloc_post zl c P F s (Some x) P' F' s'"
        using x(2,4,8) i(3) same_params_trans[OF i(2) x(3)] by (simp add: alloc_post_def slab_post_def)
      then show ?thesis using run x(1) Some by auto
    qed
  qed
qed

lemma cache_alloc_ok:
  assumes "slab_inv zl {} P F s" "c < SLAB_CACHE_NUM"
  shows "\<exists>r s' P' F'. kmem_cache_alloc c s = Some (r, s') \<and> alloc_post zl c P F s r P' F' s'"
  using alloc_on_slab[OF assms] alloc_off_slab[OF assms] by blast

section \<open>Freeing\<close>

lemma kva_page:
  assumes inv: "slab_inv zl X P F s" and c: "c < SLAB_CACHE_NUM" "a \<in> set (slab_list s c)" "i < c_num (slab_cache s c)"
  shows "\<exists>q. kva2page (obj s c (P a) i) s = Some q \<and> PageSlab (pages (pb s) q) \<and> page_slab s q = a \<and> page_cache s q = c"
proof -
  let ?q = "(obj s c (P a) i - 0xC0000000) div PAGE"
  note o = obj_page[OF slab_invD(2)[OF inv] c(1,3), of "P a"] slab_invD(5)[OF inv c(1,2)]
  have "?q < npage (pb s)"
    using o(1,4) slab_invD(1)[OF inv] unfolding owned_def in_zone_def pgs_def buddy_ok_def zones_ok_def by blast
  then show ?thesis using o objs_owner[OF inv c] by (simp add: kva2page_def)
qed

definition free_post :: "(nat \<Rightarrow> nat) \<Rightarrow> nat \<Rightarrow> nat \<Rightarrow> (nat \<Rightarrow> nat) \<Rightarrow> (nat \<Rightarrow> nat list) \<Rightarrow> slab_state \<Rightarrow> (nat \<Rightarrow> nat list) \<Rightarrow> slab_state \<Rightarrow> bool" where
  "free_post zl c x P F s F' s' \<longleftrightarrow> slab_post zl P s P F' s' \<and> live P F' s' = live P F s - {(c, x)}"

text \<open>Freeing an object up to the release of a control part in another cache.\<close>

lemma slab_free_step:
  assumes inv: "slab_inv zl {} P F s" and x: "(c, x) \<in> live P F s"
  shows "(\<exists>F' s'. kmem_cache_free c x s = Some s' \<and> free_post zl c x P F s F' s') \<or>
    (\<exists>a s' k. off_slab (slab_cache s c) \<and> k = slab_cachep (slab_cache s c) \<and> kmem_cache_free c x s = kmem_cache_free k a s'
      \<and> slab_post zl P s P F s' \<and> (k, a) \<notin> live P F s \<and> live P F s' = insert (k, a) (live P F s - {(c, x)}))"
proof -
  obtain a i where c: "c < SLAB_CACHE_NUM" "a \<in> set (slab_list s c)" "i < c_num (slab_cache s c)" "i \<notin> set (F a)"
    and xe: "x = obj s c (P a) i" and use: "obj s c (P a) i \<notin> slab_addrs s"
    using x by (auto simp: live_def objs_def)
  obtain q where q: "kva2page x s = Some q" "PageSlab (pages (pb s) q)" "page_slab s q = a" using kva_page[OF inv c(1-3)] xe by auto
  have asub: "a \<in> slab_addrs s" using c by (auto simp: slab_addrs_def)
  show ?thesis
  proof (cases "length (i # F a) < c_num (slab_cache s c)")
    case True
    obtain s' where s': "put_object c a x s = (False, s')" "slab_inv zl {} P (F(a := i # F a)) s'" "slab_step a s s'"
      "objs P (F(a := i # F a)) s' c = objs P F s c - {x}" "\<forall>d < SLAB_CACHE_NUM. d \<noteq> c \<longrightarrow> objs P (F(a := i # F a)) s' d = objs P F s d"
      using put_alive[OF inv c use True] xe by blast
    have sp: "same_params s s'" "pb s' = pb s" and ls: "\<And>d. set (slab_list s' d) = set (slab_list s d)" using s'(3) by (auto simp: slab_step_def)
    have sa: "slab_addrs s' = slab_addrs s" "slab_pages P s' = slab_pages P s" unfolding slab_addrs_def slab_pages_def ls step_pgs[OF sp(1)] by simp_all
    have run: "kmem_cache_free c x s = Some s'" using q s'(1) by (simp add: kmem_cache_free.simps[of c x s])
    have "live P (F(a := i # F a)) s' = live P F s - {(c, x)}" using s'(4,5) c(1) unfolding live_def sa by auto
    then show ?thesis using run s'(2) sp sa by (auto simp: free_post_def slab_post_def)
  next
    case False
    then have dead: "length (i # F a) = c_num (slab_cache s c)" using put_object_eq(3)[OF inv c] by simp
    obtain s1 where s1: "put_object c a x s = (True, s1)" "slab_inv zl {} P F s1" "same_params s s1" "pb s1 = pb s"
      "page_cache s1 = page_cache s" "page_slab s1 = page_slab s" "set (slab_list s1 c) = set (slab_list s c) - {a}"
      "\<forall>d. d \<noteq> c \<longrightarrow> slab_list s1 d = slab_list s d" "s_mem (slabs s1 a) = s_mem (slabs s a)" "s_offset (slabs s1 a) = s_offset (slabs s a)"
      "objs P F s1 c = objs P F s c - {x}" "\<forall>d. d \<noteq> c \<longrightarrow> objs P F s1 d = objs P F s d"
      using put_dead[OF inv c use dead] xe by blast
    note sp = s1(3)
    have sa: "slab_addrs s1 = slab_addrs s - {a}"
    proof -
      have "set (slab_list s1 d) = set (slab_list s d) - {a}" if "d < SLAB_CACHE_NUM" for d
        using s1(7,8) slab_unique[OF inv c(1,2) that] by (cases "d = c") auto
      then show ?thesis unfolding slab_addrs_def by auto
    qed
    then have na: "a \<notin> slab_addrs s1" by simp
    have ow: "owned zl s c a (P a)" by (rule slab_invD(5)[OF inv c(1,2)])
    have pg1: "slab_pages P s1 \<union> pgs s c (P a) = slab_pages P s" "pgs s c (P a) \<inter> slab_pages P s1 = {}"
    proof -
      have "(\<Union>b \<in> set (slab_list s d). pgs s d (P b)) = (\<Union>b \<in> set (slab_list s1 d). pgs s d (P b)) \<union> (if d = c then pgs s c (P a) else {})" for d
        using s1(7,8) c(2) by (cases "d = c") auto
      then show "slab_pages P s1 \<union> pgs s c (P a) = slab_pages P s" unfolding slab_pages_def step_pgs[OF sp] using c(1) by (auto split: if_splits)
      show "pgs s c (P a) \<inter> slab_pages P s1 = {}"
      proof (rule ccontr)
        assume "pgs s c (P a) \<inter> slab_pages P s1 \<noteq> {}"
        then obtain y d b where y: "y \<in> pgs s c (P a)" "d < SLAB_CACHE_NUM" "b \<in> set (slab_list s1 d)" "y \<in> pgs s1 d (P b)" by (auto simp: slab_pages_def)
        have "page_slab s1 y = b" using slab_invD(5)[OF s1(2) y(2,3)] y(4) by (auto simp: owned_def)
        moreover have "page_slab s y = a" using ow y(1) by (auto simp: owned_def)
        ultimately show False using na y(2,3) s1(6) by (auto simp: slab_addrs_def)
      qed
    qed
    obtain b where b: "release_slab c a s1 = Some (s1\<lparr>pb := b\<rparr>)" "slab_inv zl {} P F (s1\<lparr>pb := b\<rparr>)" "in_zone zl b = in_zone zl (pb s)"
      "free_set b = free_set (pb s) \<union> pgs s c (P a)"
      using release_ok[OF s1(2) c(1), of a "P a"] ow pg1(2) slab_invD(4)[OF inv c(1,2)]
      unfolding step_pgs[OF sp] s1(4,9,10) by (auto simp: owned_def same_paramsD[OF sp] slab_is_def)
    let ?s = "s1\<lparr>pb := b\<rparr>"
    have post: "slab_post zl P s P F ?s"
      using b(2-4) pg1(1) same_params_trans[OF sp pb_simps(6)] by (auto simp: slab_post_def)
    have run: "kmem_cache_free c x s = (if off_slab (slab_cache s c) then kmem_cache_free (slab_cachep (slab_cache s c)) a ?s else Some ?s)"
      using q s1(1) b(1) by (simp add: kmem_cache_free.simps[of c x s] same_paramsD[OF sp])
    have lv: "live P F ?s = {(d, y) \<in> live P F s \<union> {(d, a) |d. d < SLAB_CACHE_NUM \<and> a \<in> objs P F s1 d}. (d, y) \<noteq> (c, x)}"
    proof -
      have "y \<in> objs P F s1 d \<longleftrightarrow> y \<in> objs P F s d \<and> (d, y) \<noteq> (c, x)" for d y using s1(11,12) by (cases "d = c") auto
      then show ?thesis unfolding live_def pb_simps sa by auto
    qed
    show ?thesis
    proof (cases "off_slab (slab_cache s c)")
      case False
      have "a \<notin> objs P F s1 d" if d: "d < SLAB_CACHE_NUM" for d
      proof
        assume "a \<in> objs P F s1 d"
        then have "(a - 0xC0000000) div PAGE \<in> slab_pages P s1" by (rule obj_in_pages[OF s1(2) d])
        moreover have "(a - 0xC0000000) div PAGE = P a" using slab_invD(4)[OF inv c(1,2)] False by (metis page_kva(1) slab_is_def)
        moreover have "P a \<in> pgs s c (P a)" by (simp add: pgs_def)
        ultimately show False using pg1(2) by auto
      qed
      then have "live P F ?s = live P F s - {(c, x)}" unfolding lv by auto
      then show ?thesis using run False post by (auto simp: free_post_def)
    next
      case True
      let ?k = "slab_cachep (slab_cache s c)"
      have k: "?k < SLAB_CACHE_NUM" "?k \<noteq> c" using params_okD(6)[OF slab_invD(2)[OF inv] c(1) True] True by auto
      have ak: "a \<in> objs P F s ?k" by (rule slab_invD(7)[OF inv c(1,2) True])
      have one: "d = ?k" if "d < SLAB_CACHE_NUM" "a \<in> objs P F s d" for d
        using that ak k(1) obj_inject[OF inv] unfolding objs_def by blast
      have "{(d, a) |d. d < SLAB_CACHE_NUM \<and> a \<in> objs P F s1 d} = {(?k, a)}"
      proof -
        have "d = ?k" if "d < SLAB_CACHE_NUM" "a \<in> objs P F s1 d" for d
        proof -
          have "a \<in> objs P F s d" using that(2) s1(11,12) by (cases "d = c") auto
          then show ?thesis by (rule one[OF that(1)])
        qed
        moreover have "a \<in> objs P F s1 ?k" using ak s1(12)[rule_format, OF k(2)] by simp
        ultimately show ?thesis using k(1) by blast
      qed
      then have "live P F ?s = insert (?k, a) (live P F s - {(c, x)})" unfolding lv using k(2) by auto
      moreover have "(?k, a) \<notin> live P F s" using asub by (simp add: live_def)
      ultimately show ?thesis using run True post by auto
    qed
  qed
qed

lemma cache_free_ok:
  assumes inv: "slab_inv zl {} P F s" and x: "(c, x) \<in> live P F s"
  shows "\<exists>F' s'. kmem_cache_free c x s = Some s' \<and> free_post zl c x P F s F' s'"
  using slab_free_step[OF assms]
proof (elim disjE exE conjE)
  fix a s1 k assume k: "off_slab (slab_cache s c)" "k = slab_cachep (slab_cache s c)" "kmem_cache_free c x s = kmem_cache_free k a s1"
    "slab_post zl P s P F s1" "(k, a) \<notin> live P F s" "live P F s1 = insert (k, a) (live P F s - {(c, x)})"
  have c: "c < SLAB_CACHE_NUM" using x by (simp add: live_def)
  have i: "slab_inv zl {} P F s1" "same_params s s1" using k(4) by (auto simp: slab_post_def)
  have "\<not> off_slab (slab_cache s1 k)" using params_okD(6)[OF slab_invD(2)[OF inv] c k(1)] k(2) by (simp add: same_paramsD[OF i(2)])
  then obtain F' s' where s': "kmem_cache_free k a s1 = Some s'" "free_post zl k a P F s1 F' s'"
    using slab_free_step[OF i(1), of k a] k(6) by blast
  have "slab_post zl P s P F' s'"
    using k(4) s'(2) same_params_trans[OF i(2)] by (auto simp: free_post_def slab_post_def)
  moreover have "live P F' s' = live P F s - {(c, x)}" using s'(2) k(5,6) by (auto simp: free_post_def)
  ultimately show ?thesis using k(3) s'(1) by (auto simp: free_post_def)
qed blast

end
