(* ===== verification/SlabUse.thy ===== *)
theory SlabUse
  imports SlabHeap
begin

text \<open>
  The slab allocator (\<open>kern/mm/slab.c\<close>) as its users see it: \<open>slab_init\<close>, \<open>kmalloc\<close> and \<open>kfree\<close> on
  the map of the objects in use, the interface of a heap as a locale, and the properties.
\<close>

section \<open>The caches after slab_init\<close>

definition cache_table :: "nat \<Rightarrow> nat \<times> nat \<times> bool \<times> nat \<times> nat" where
  "cache_table c = [(113, 480, False, 0, 0), (59, 272, False, 0, 0), (30, 144, False, 0, 0), (15, 96, False, 0, 0),
     (8, 0, True, 0, 1), (4, 0, True, 0, 1), (2, 0, True, 0, 0), (1, 0, True, 0, 0), (1, 0, True, 1, 0), (1, 0, True, 2, 0),
     (1, 0, True, 3, 0), (1, 0, True, 4, 0), (1, 0, True, 5, 0)] ! c"

lemma fit_objs_all: "0 < n \<Longrightarrow> slab_mgmt_size n al + n * z \<le> S \<Longrightarrow> fit_objs S z al n = n"
  by (cases n) auto

lemma upt_orders: "[0..<KMALLOC_MAX_ORDER + 1] = [0, 1, 2, 3, 4, 5, 6, 7, 8, 9, 10]"
  by (simp add: upt_rec)

lemma getorder_small: "slab_getorder 32 = Some 5" "slab_getorder 48 = Some 6" "slab_getorder 64 = Some 6"
  by (simp_all add: slab_getorder_def upt_rec)

lemma orders:
  "calculate_slab_order 32 16 False = Some (113, 0, 0)" "calculate_slab_order 64 16 False = Some (59, 0, 48)"
  "calculate_slab_order 128 16 False = Some (30, 0, 112)" "calculate_slab_order 256 16 False = Some (15, 0, 160)"
  unfolding calculate_slab_order_def upt_orders by (simp_all add: cache_estimate_def fit_objs_all slab_mgmt_size_def round_up_def)

lemma orders_off:
  "calculate_slab_order 512 16 True = Some (8, 0, 0)" "calculate_slab_order 1024 16 True = Some (4, 0, 0)"
  "calculate_slab_order 2048 16 True = Some (2, 0, 0)" "calculate_slab_order 4096 16 True = Some (1, 0, 0)"
  "calculate_slab_order 8192 16 True = Some (1, 1, 0)" "calculate_slab_order 16384 16 True = Some (1, 2, 0)"
  "calculate_slab_order 32768 16 True = Some (1, 3, 0)" "calculate_slab_order 65536 16 True = Some (1, 4, 0)"
  "calculate_slab_order 131072 16 True = Some (1, 5, 0)"
  unfolding calculate_slab_order_def upt_orders by (simp_all add: cache_estimate_def)

definition fresh_cache :: "nat \<Rightarrow> kmem_cache_s \<Rightarrow> bool" where
  "fresh_cache c ch \<longleftrightarrow> slabs_full ch = [] \<and> slabs_notfull ch = [] \<and> objsize ch = 2 ^ (c + MIN_SIZE_ORDER) \<and>
     (case cache_table c of (n, off, os, ord, k) \<Rightarrow> c_num ch = n \<and> c_offset ch = off \<and> off_slab ch = os \<and> page_order ch = ord
        \<and> (os \<longrightarrow> slab_cachep ch = k))"

lemma less_13: "c < (13 :: nat) \<Longrightarrow> c = 0 \<or> c = 1 \<or> c = 2 \<or> c = 3 \<or> c = 4 \<or> c = 5 \<or> c = 6 \<or> c = 7 \<or> c = 8 \<or> c = 9 \<or> c = 10 \<or> c = 11 \<or> c = 12"
  by presburger

definition cache_at :: "nat \<Rightarrow> nat \<Rightarrow> kmem_cache_s" where
  "cache_at c k = (case cache_table c of (n, off, os, ord, k') \<Rightarrow>
     \<lparr>slabs_full = [], slabs_notfull = [], objsize = 2 ^ (c + MIN_SIZE_ORDER), c_num = n, c_offset = off, off_slab = os,
       page_order = ord, slab_cachep = (if os then k' else k)\<rparr>)"

lemma fresh_cache_at: "fresh_cache c (cache_at c k)"
  by (auto simp: fresh_cache_def cache_at_def split: prod.splits)

lemma init_kmem_cache_ok:
  assumes "c < SLAB_CACHE_NUM"
  shows "\<exists>ch. init_kmem_cache c (2 ^ (c + MIN_SIZE_ORDER)) 16 s = Some (upd_cache c (\<lambda>_. ch) s) \<and> fresh_cache c ch"
proof -
  have "init_kmem_cache c (2 ^ (c + MIN_SIZE_ORDER)) 16 s = Some (upd_cache c (\<lambda>_. cache_at c (slab_cachep (slab_cache s c))) s)"
    using less_13[OF assms]
    by (elim disjE) (simp_all add: init_kmem_cache_def round_up_def orders orders_off slab_mgmt_size_def getorder_small cache_at_def cache_table_def)
  then show ?thesis using fresh_cache_at by blast
qed

lemma init_caches_ok:
  "\<forall>i \<in> set is. i < SLAB_CACHE_NUM \<Longrightarrow> distinct is \<Longrightarrow> \<exists>s'. init_caches is s = Some s' \<and> (\<forall>i \<in> set is. fresh_cache i (slab_cache s' i))
     \<and> (\<forall>i. i \<notin> set is \<longrightarrow> slab_cache s' i = slab_cache s i) \<and> pb s' = pb s"
proof (induction "is" arbitrary: s)
  case (Cons i xs)
  obtain ch where ch: "init_kmem_cache i (2 ^ (i + MIN_SIZE_ORDER)) 16 s = Some (upd_cache i (\<lambda>_. ch) s)" "fresh_cache i ch"
    using init_kmem_cache_ok[of i s] Cons.prems(1) by auto
  obtain s' where s': "init_caches xs (upd_cache i (\<lambda>_. ch) s) = Some s'" "\<forall>i \<in> set xs. fresh_cache i (slab_cache s' i)"
    "\<forall>j. j \<notin> set xs \<longrightarrow> slab_cache s' j = slab_cache (upd_cache i (\<lambda>_. ch) s) j" "pb s' = pb (upd_cache i (\<lambda>_. ch) s)"
    using Cons.IH[of "upd_cache i (\<lambda>_. ch) s"] Cons.prems by auto
  then show ?case using ch Cons.prems(2) by auto
qed simp

lemma fresh_params:
  assumes "\<forall>i < SLAB_CACHE_NUM. fresh_cache i (slab_cache s i)"
  shows "params_ok s"
  unfolding params_ok_def Let_def
proof (intro allI impI)
  fix c assume c: "c < SLAB_CACHE_NUM"
  have f: "fresh_cache c (slab_cache s c)" "fresh_cache 0 (slab_cache s 0)" "fresh_cache 1 (slab_cache s 1)" using assms c by simp_all
  show "objsize (slab_cache s c) = 2 ^ (c + MIN_SIZE_ORDER) \<and> 0 < c_num (slab_cache s c) \<and> c_num (slab_cache s c) < 1024
     \<and> page_order (slab_cache s c) \<le> 10
     \<and> c_offset (slab_cache s c) + c_num (slab_cache s c) * objsize (slab_cache s c) \<le> PAGE * 2 ^ page_order (slab_cache s c)
     \<and> (if off_slab (slab_cache s c) then c_offset (slab_cache s c) = 0 \<and> slab_cachep (slab_cache s c) < SLAB_CACHE_NUM
          \<and> \<not> off_slab (slab_cache s (slab_cachep (slab_cache s c)))
          \<and> sizeof_slab_t + c_num (slab_cache s c) * sizeof_bufctl \<le> objsize (slab_cache s (slab_cachep (slab_cache s c)))
        else sizeof_slab_t + c_num (slab_cache s c) * sizeof_bufctl \<le> c_offset (slab_cache s c))"
    using less_13[OF c] f by (elim disjE) (simp_all add: fresh_cache_def cache_table_def)
qed

lemma slab_init_ok:
  assumes "buddy_ok zl (pb s)"
  shows "\<exists>s'. slab_init s = Some s' \<and> slab_inv zl {} P F s' \<and> pb s' = pb s \<and> live P F s' = {} \<and> slab_pages P s' = {}"
proof -
  obtain s' where s': "slab_init s = Some s'" "\<forall>i \<in> set [0..<SLAB_CACHE_NUM]. fresh_cache i (slab_cache s' i)" "pb s' = pb s"
    using init_caches_ok[of "[0..<SLAB_CACHE_NUM]" s] by (auto simp: slab_init_def)
  then have f: "\<forall>i < SLAB_CACHE_NUM. fresh_cache i (slab_cache s' i)" by simp
  then have e: "slab_list s' c = []" "slabs_full (slab_cache s' c) = []" "slabs_notfull (slab_cache s' c) = []" if "c < SLAB_CACHE_NUM" for c
    using that by (simp_all add: fresh_cache_def slab_list_def)
  have "slab_inv zl {} P F s'" using assms s'(3) fresh_params[OF f] e by (simp add: slab_inv_def)
  moreover have "live P F s' = {}" "slab_pages P s' = {}" using e by (simp_all add: live_def objs_def slab_pages_def)
  ultimately show ?thesis using s' by blast
qed

section \<open>The heap read off the state\<close>

text \<open>The first page of a slab and its free objects; the map from the addresses of the objects in use
  to their sizes; the pages under the slabs.\<close>

definition first_page :: "slab_state \<Rightarrow> nat \<Rightarrow> nat" where
  "first_page s a = (s_mem (slabs s a) - s_offset (slabs s a) - 0xC0000000) div PAGE"

fun free_walk :: "nat \<Rightarrow> (nat \<Rightarrow> nat) \<Rightarrow> nat \<Rightarrow> nat list" where
  "free_walk 0 b f = []"
| "free_walk (Suc n) b f = (if f = BUFCTL_END then [] else f # free_walk n b (b f))"

definition free_objs :: "slab_state \<Rightarrow> nat \<Rightarrow> nat list" where
  "free_objs s a = free_walk 1024 (bufctl (slabs s a)) (s_free (slabs s a))"

definition slab_ok :: "(nat \<Rightarrow> nat) \<Rightarrow> slab_state \<Rightarrow> bool" where
  "slab_ok zl s \<longleftrightarrow> slab_inv zl {} (first_page s) (free_objs s) s"

definition in_use_set :: "slab_state \<Rightarrow> (nat \<times> nat) set" where
  "in_use_set s = live (first_page s) (free_objs s) s"

definition used_pages :: "slab_state \<Rightarrow> nat set" where
  "used_pages s = slab_pages (first_page s) s"

lemma free_walk_links: "links b f fl \<Longrightarrow> \<forall>i \<in> set fl. i < BUFCTL_END \<Longrightarrow> length fl \<le> n \<Longrightarrow> free_walk n b f = fl"
proof (induction fl arbitrary: f n)
  case Nil
  then show ?case by (cases n) auto
next
  case (Cons i fl)
  then show ?case by (cases n) auto
qed

lemma canonical:
  assumes inv: "slab_inv zl X P F s" and c: "c < SLAB_CACHE_NUM" "a \<in> set (slab_list s c)"
  shows "first_page s a = P a" "free_objs s a = F a"
proof -
  note ist = slab_invD(4)[OF inv c, unfolded slab_is_def]
  note num = params_okD(2,3)[OF slab_invD(2)[OF inv] c(1)]
  show "first_page s a = P a" using ist by (simp add: first_page_def)
  have "length (F a) \<le> 1024" using ist num by linarith
  moreover have "\<forall>i \<in> set (F a). i < BUFCTL_END" using ist num by fastforce
  ultimately show "free_objs s a = F a" unfolding free_objs_def using ist by (intro free_walk_links) auto
qed

lemma canonical_objs:
  assumes inv: "slab_inv zl X P F s" and c: "c < SLAB_CACHE_NUM"
  shows "objs (first_page s) (free_objs s) s c = objs P F s c"
  by (rule objs_cong[OF same_params_refl refl]) (use canonical[OF inv c] in auto)

lemma canonical_inv:
  assumes inv: "slab_inv zl {} P F s"
  shows "slab_ok zl s" "in_use_set s = live P F s" "used_pages s = slab_pages P s"
proof -
  note k = canonical[OF inv] canonical_objs[OF inv]
  show "in_use_set s = live P F s" unfolding in_use_set_def live_def using k(3) by auto
  show "used_pages s = slab_pages P s" unfolding used_pages_def slab_pages_def using k(1) by auto
  show "slab_ok zl s"
    unfolding slab_ok_def slab_inv_def
  proof (intro conjI allI impI ballI)
    fix c assume c: "c < SLAB_CACHE_NUM"
    show "distinct (slab_list s c)" by (rule slab_invD(3)[OF inv c])
    show "free_objs s a = []" if "a \<in> set (slabs_full (slab_cache s c))" for a
      using slab_invD(8)[OF inv c that] k(2)[OF c, of a] that by (simp add: slab_list_def)
    show "free_objs s a \<noteq> []" if "a \<in> set (slabs_notfull (slab_cache s c))" for a
      using slab_invD(9)[OF inv c that] k(2)[OF c, of a] that by (simp add: slab_list_def)
    fix a assume a: "a \<in> set (slab_list s c)"
    show "slab_is s c a (first_page s a) (free_objs s a)" "owned zl s c a (first_page s a)"
      unfolding k(1,2)[OF c a] by (rule slab_invD(4,5)[OF inv c a])+
    show "length (free_objs s a) < c_num (slab_cache s c)" unfolding k(2)[OF c a] by (rule slab_invD(6)[OF inv c a]) simp
    assume o: "off_slab (slab_cache s c)"
    then have "slab_cachep (slab_cache s c) < SLAB_CACHE_NUM" using params_okD(6)[OF slab_invD(2)[OF inv] c] by blast
    then show "a \<in> objs (first_page s) (free_objs s) s (slab_cachep (slab_cache s c))"
      using k(3) slab_invD(7)[OF inv c a o] by simp
  qed (use slab_invD(1,2)[OF inv] in blast)+
qed

definition objects :: "slab_state \<Rightarrow> nat \<Rightarrow> nat option" where
  "objects s x = map_option (\<lambda>c. 2 ^ (c + MIN_SIZE_ORDER)) (List.find (\<lambda>c. (c, x) \<in> in_use_set s) [0..<SLAB_CACHE_NUM])"

definition all_pages :: "slab_state \<Rightarrow> nat set" where
  "all_pages s = free_set (pb s) \<union> used_pages s"

lemma slab_okD: "slab_ok zl s \<Longrightarrow> slab_inv zl {} (first_page s) (free_objs s) s"
  by (simp add: slab_ok_def)

lemma in_use_inject: "slab_ok zl s \<Longrightarrow> (c, x) \<in> in_use_set s \<Longrightarrow> (d, x) \<in> in_use_set s \<Longrightarrow> c = d"
  unfolding in_use_set_def using live_inject[OF slab_okD] by blast

lemma in_use_less: "(c, x) \<in> in_use_set s \<Longrightarrow> c < SLAB_CACHE_NUM"
  by (simp add: in_use_set_def live_def)

lemma objects_iff:
  assumes "slab_ok zl s"
  shows "objects s x = Some n \<longleftrightarrow> (\<exists>c. (c, x) \<in> in_use_set s \<and> n = 2 ^ (c + MIN_SIZE_ORDER))"
proof (cases "\<exists>c. (c, x) \<in> in_use_set s")
  case True
  then obtain c where c: "(c, x) \<in> in_use_set s" by blast
  have "List.find (\<lambda>c. (c, x) \<in> in_use_set s) [0..<SLAB_CACHE_NUM] = Some c"
  proof -
    have "List.find (\<lambda>c. (c, x) \<in> in_use_set s) [0..<SLAB_CACHE_NUM] \<noteq> None" using c in_use_less[OF c] by (auto simp: find_None_iff)
    then obtain d where d: "List.find (\<lambda>c. (c, x) \<in> in_use_set s) [0..<SLAB_CACHE_NUM] = Some d" by blast
    then have "(d, x) \<in> in_use_set s" by (auto simp: find_Some_iff)
    then show ?thesis using d in_use_inject[OF assms c] by simp
  qed
  then have o: "objects s x = Some (2 ^ (c + MIN_SIZE_ORDER))" by (simp add: objects_def)
  show ?thesis
  proof
    assume "objects s x = Some n"
    then show "\<exists>c. (c, x) \<in> in_use_set s \<and> n = 2 ^ (c + MIN_SIZE_ORDER)" using c o by auto
  next
    assume "\<exists>c. (c, x) \<in> in_use_set s \<and> n = 2 ^ (c + MIN_SIZE_ORDER)"
    then obtain d where "(d, x) \<in> in_use_set s" "n = 2 ^ (d + MIN_SIZE_ORDER)" by blast
    moreover from this(1) have "d = c" by (rule in_use_inject[OF assms c, symmetric])
    ultimately show "objects s x = Some n" using o by simp
  qed
next
  case False
  then have "List.find (\<lambda>c. (c, x) \<in> in_use_set s) [0..<SLAB_CACHE_NUM] = None" by (simp add: find_None_iff)
  then show ?thesis using False by (simp add: objects_def)
qed

lemma objects_None: "slab_ok zl s \<Longrightarrow> objects s x = None \<longleftrightarrow> (\<forall>c. (c, x) \<notin> in_use_set s)"
  using objects_iff[of zl s x] by (metis option.exhaust option.distinct(1))

lemma objects_eqI:
  assumes "slab_ok zl s" "slab_ok zl s'" "\<And>c. (c, x) \<in> in_use_set s' \<longleftrightarrow> (c, x) \<in> in_use_set s"
  shows "objects s' x = objects s x"
  using objects_iff[OF assms(1), of x] objects_iff[OF assms(2), of x] assms(3) by (metis option.exhaust)

lemma find_range_None: "List.find Q [a..<b] = None \<longleftrightarrow> (\<forall>k. a \<le> k \<and> k < b \<longrightarrow> \<not> Q k)"
  by (auto simp: find_None_iff)

lemma find_range_least: "List.find Q [a..<b] = Some k \<Longrightarrow> a \<le> k \<and> k < b \<and> Q k \<and> (\<forall>j. a \<le> j \<and> j < k \<longrightarrow> \<not> Q j)"
proof -
  assume "List.find Q [a..<b] = Some k"
  then obtain i where i: "i < b - a" "Q (a + i)" "k = a + i" "\<forall>j < i. \<not> Q (a + j)"
    by (auto simp: find_Some_iff)
  have "\<not> Q j" if "a \<le> j" "j < k" for j using i(4)[rule_format, of "j - a"] that i(3) by simp
  then show ?thesis using i by auto
qed

lemma slab_getorder_panic: "slab_getorder n = None \<longleftrightarrow> 2 ^ MAX_SIZE_ORDER < n"
  unfolding slab_getorder_def find_range_None
proof
  assume "\<forall>k. MIN_SIZE_ORDER \<le> k \<and> k < MAX_SIZE_ORDER + 1 \<longrightarrow> \<not> n \<le> 2 ^ k"
  then have "\<not> n \<le> 2 ^ 17" by (auto dest!: spec[of _ 17])
  then show "2 ^ MAX_SIZE_ORDER < n" by simp
next
  assume g: "2 ^ MAX_SIZE_ORDER < n"
  have "\<not> n \<le> 2 ^ k" if "k < 18" for k :: nat
  proof -
    have "(2::nat) ^ k \<le> 2 ^ 17" using that by (intro power_increasing) auto
    then show ?thesis using g by linarith
  qed
  then show "\<forall>k. MIN_SIZE_ORDER \<le> k \<and> k < MAX_SIZE_ORDER + 1 \<longrightarrow> \<not> n \<le> 2 ^ k" by auto
qed

lemma slab_getorder_ok:
  assumes "n \<le> 2 ^ MAX_SIZE_ORDER"
  shows "\<exists>k. slab_getorder n = Some k \<and> MIN_SIZE_ORDER \<le> k \<and> k \<le> MAX_SIZE_ORDER \<and> n \<le> 2 ^ k \<and> (k = MIN_SIZE_ORDER \<or> 2 ^ (k - 1) < n)"
proof -
  have "slab_getorder n \<noteq> None" unfolding slab_getorder_panic using assms by simp
  then obtain k where k: "slab_getorder n = Some k" by blast
  note l = find_range_least[OF k[unfolded slab_getorder_def]]
  have "k = 5 \<or> 2 ^ (k - 1) < n" using l by (cases "k = 5") (auto simp: not_le dest!: spec[of _ "k - 1"])
  then show ?thesis using k l by auto
qed

section \<open>kmalloc and kfree\<close>

lemma kmalloc_ok:
  assumes ok: "slab_ok zl s" and n: "0 < n" "n \<le> 2 ^ MAX_SIZE_ORDER"
  shows "\<exists>r s'. kmalloc_slab n s = Some (r, s') \<and> slab_ok zl s' \<and> all_pages s' = all_pages s \<and>
    (case r of None \<Rightarrow> objects s' = objects s
     | Some x \<Rightarrow> objects s x = None \<and> (\<exists>k. n \<le> 2 ^ k \<and> MIN_SIZE_ORDER \<le> k \<and> (k = MIN_SIZE_ORDER \<or> 2 ^ (k - 1) < n)
          \<and> objects s' = (objects s)(x \<mapsto> 2 ^ k)))"
proof -
  obtain k where k: "slab_getorder n = Some k" "MIN_SIZE_ORDER \<le> k" "k \<le> MAX_SIZE_ORDER" "n \<le> 2 ^ k" "k = MIN_SIZE_ORDER \<or> 2 ^ (k - 1) < n"
    using slab_getorder_ok[OF n(2)] by blast
  let ?c = "k - MIN_SIZE_ORDER"
  have c: "?c < SLAB_CACHE_NUM" using k(2,3) by simp
  obtain r s' P' F' where r: "kmem_cache_alloc ?c s = Some (r, s')" "alloc_post zl ?c (first_page s) (free_objs s) s r P' F' s'"
    using cache_alloc_ok[OF slab_okD[OF ok] c] by blast
  then have i: "slab_inv zl {} P' F' s'" "free_set (pb s') \<union> slab_pages P' s' = free_set (pb s) \<union> slab_pages (first_page s) s"
    by (auto simp: alloc_post_def slab_post_def)
  note ca = canonical_inv[OF i(1)]
  have run: "kmalloc_slab n s = Some (r, s')" using k n r(1) by (simp add: kmalloc_slab_def)
  have pgs: "all_pages s' = all_pages s" using i(2) by (simp add: all_pages_def ca(3)) (simp add: used_pages_def)
  show ?thesis
  proof (cases r)
    case None
    then have "in_use_set s' = in_use_set s" using r(2) by (simp add: alloc_post_def ca(2)) (simp add: in_use_set_def)
    then have "objects s' = objects s" by (simp add: objects_def fun_eq_iff find_None_iff)
    then show ?thesis using run ca(1) pgs None by auto
  next
    case (Some x)
    then have iu: "(?c, x) \<notin> in_use_set s" "in_use_set s' = insert (?c, x) (in_use_set s)"
      using r(2) by (simp_all add: alloc_post_def ca(2)) (simp_all add: in_use_set_def)
    have new: "objects s x = None"
      unfolding objects_None[OF ok] using iu in_use_inject[OF ca(1)] by blast
    have "objects s' y = ((objects s)(x \<mapsto> 2 ^ k)) y" for y
    proof (cases "y = x")
      case True
      have "objects s' x = Some (2 ^ (?c + 5))" unfolding objects_iff[OF ca(1)] iu(2) by blast
      then show ?thesis using True k(2) by simp
    next
      case False
      then have "objects s' y = objects s y" by (intro objects_eqI[OF ok ca(1)]) (simp add: iu(2))
      then show ?thesis using False by simp
    qed
    then show ?thesis using run ca(1) pgs Some new k by (intro exI[of _ r] exI[of _ s']) (auto simp: fun_eq_iff intro!: exI[of _ k])
  qed
qed

lemma kfree_ok:
  assumes ok: "slab_ok zl s" and x: "objects s x \<noteq> None"
  shows "\<exists>s'. kfree x s = Some s' \<and> slab_ok zl s' \<and> all_pages s' = all_pages s \<and> objects s' = (objects s)(x := None)"
proof -
  note inv = slab_okD[OF ok]
  obtain c where c: "(c, x) \<in> in_use_set s" using x unfolding objects_None[OF ok] by blast
  then have lv: "(c, x) \<in> live (first_page s) (free_objs s) s" by (simp add: in_use_set_def)
  then obtain a i where ai: "c < SLAB_CACHE_NUM" "a \<in> set (slab_list s c)" "i < c_num (slab_cache s c)" "x = obj s c (first_page s a) i"
    by (auto simp: live_def objs_def)
  obtain q where q: "kva2page x s = Some q" "page_cache s q = c" using kva_page[OF inv ai(1-3)] ai(4) by auto
  obtain F' s' where s': "kmem_cache_free c x s = Some s'" "free_post zl c x (first_page s) (free_objs s) s F' s'"
    using cache_free_ok[OF inv lv] by blast
  then have i: "slab_inv zl {} (first_page s) F' s'" "free_set (pb s') \<union> slab_pages (first_page s) s' = free_set (pb s) \<union> slab_pages (first_page s) s"
    by (auto simp: free_post_def slab_post_def)
  note ca = canonical_inv[OF i(1)]
  have iu: "in_use_set s' = in_use_set s - {(c, x)}" using s'(2) by (simp add: free_post_def ca(2)) (simp add: in_use_set_def)
  have "objects s' y = ((objects s)(x := None)) y" for y
  proof (cases "y = x")
    case True
    have "objects s' x = None" unfolding objects_None[OF ca(1)] iu using in_use_inject[OF ok c] by blast
    then show ?thesis using True by simp
  next
    case False
    then have "objects s' y = objects s y" by (intro objects_eqI[OF ok ca(1)]) (simp add: iu)
    then show ?thesis using False by simp
  qed
  moreover have "all_pages s' = all_pages s" using i(2) by (simp add: all_pages_def ca(3)) (simp add: used_pages_def)
  ultimately show ?thesis using q s'(1) ca(1) by (auto simp: kfree_def)
qed

section \<open>Objects do not overlap, and no page is lost\<close>

lemma slab_range:
  assumes "slab_inv zl X P F s" "c < SLAB_CACHE_NUM" "a \<in> set (slab_list s c)" "i < c_num (slab_cache s c)"
    "y \<in> {obj s c (P a) i..<obj s c (P a) i + objsize (slab_cache s c)}"
  shows "(y - 0xC0000000) div PAGE \<in> pgs s c (P a)"
proof -
  note o = obj_page[OF slab_invD(2)[OF assms(1)] assms(2,4), of "P a"]
  have "page2kva (P a) \<le> y" "y < 0xC0000000 + PAGE * (P a + 2 ^ page_order (slab_cache s c))"
    using o(3) assms(5) by (auto simp: obj_def)
  then have "PAGE * P a \<le> y - 0xC0000000" "y - 0xC0000000 < (P a + 2 ^ page_order (slab_cache s c)) * PAGE"
    by (auto simp: page2kva_def)
  then show ?thesis unfolding pgs_def by (auto simp: less_mult_imp_div_less intro: div_le_mono[of "PAGE * P a" _ PAGE, simplified])
qed

lemma obj_disjoint:
  assumes inv: "slab_inv zl X P F s" and c: "c < SLAB_CACHE_NUM" "x \<in> objs P F s c" and d: "d < SLAB_CACHE_NUM" "y \<in> objs P F s d" and "x \<noteq> y"
  shows "{x..<x + objsize (slab_cache s c)} \<inter> {y..<y + objsize (slab_cache s d)} = {}"
proof (rule ccontr)
  assume "\<not> ?thesis"
  then obtain z where z: "z \<in> {x..<x + objsize (slab_cache s c)}" "z \<in> {y..<y + objsize (slab_cache s d)}" by blast
  obtain a i where a: "a \<in> set (slab_list s c)" "i < c_num (slab_cache s c)" "x = obj s c (P a) i" using c(2) by (auto simp: objs_def)
  obtain b j where b: "b \<in> set (slab_list s d)" "j < c_num (slab_cache s d)" "y = obj s d (P b) j" using d(2) by (auto simp: objs_def)
  have "(z - 0xC0000000) div PAGE \<in> pgs s c (P a)" "(z - 0xC0000000) div PAGE \<in> pgs s d (P b)"
    using slab_range[OF inv c(1) a(1,2)] slab_range[OF inv d(1) b(1,2)] z a(3) b(3) by auto
  then have e: "c = d" "a = b" using slab_invD(5)[OF inv c(1) a(1)] slab_invD(5)[OF inv d(1) b(1)] by (auto simp: owned_def)
  let ?n = "objsize (slab_cache s c)"
  have "i \<noteq> j" using \<open>x \<noteq> y\<close> a(3) b(3) e by auto
  moreover have "i * ?n < Suc j * ?n" "j * ?n < Suc i * ?n" using z a(3) b(3) e by (auto simp: obj_def)
  ultimately show False unfolding mult_less_cancel2 by linarith
qed

lemma objects_disjoint:
  assumes ok: "slab_ok zl s" and x: "objects s x = Some m" and y: "objects s y = Some n" and "x \<noteq> y"
  shows "{x..<x + m} \<inter> {y..<y + n} = {}"
proof -
  note inv = slab_okD[OF ok]
  obtain c d where c: "(c, x) \<in> in_use_set s" "m = 2 ^ (c + 5)" and d: "(d, y) \<in> in_use_set s" "n = 2 ^ (d + 5)"
    using x y unfolding objects_iff[OF ok] by blast
  have l: "c < SLAB_CACHE_NUM" "x \<in> objs (first_page s) (free_objs s) s c" "d < SLAB_CACHE_NUM" "y \<in> objs (first_page s) (free_objs s) s d"
    using c(1) d(1) by (auto simp: in_use_set_def live_def)
  show ?thesis
    using obj_disjoint[OF inv l \<open>x \<noteq> y\<close>] params_okD(1)[OF slab_invD(2)[OF inv] l(1)] params_okD(1)[OF slab_invD(2)[OF inv] l(3)] c(2) d(2)
    by simp
qed

text \<open>An object that is the control part of a slab belongs to a slab kept off its pages.\<close>

lemma ctrl_object:
  assumes inv: "slab_inv zl X P F s" and c: "c < SLAB_CACHE_NUM" "x \<in> objs P F s c" and x: "x \<in> slab_addrs s"
  shows "\<exists>d < SLAB_CACHE_NUM. off_slab (slab_cache s d) \<and> x \<in> set (slab_list s d) \<and> c = slab_cachep (slab_cache s d)"
proof -
  obtain d where d: "d < SLAB_CACHE_NUM" "x \<in> set (slab_list s d)" using x by (auto simp: slab_addrs_def)
  obtain a i where a: "a \<in> set (slab_list s c)" "i < c_num (slab_cache s c)" "x = obj s c (P a) i" using c(2) by (auto simp: objs_def)
  show ?thesis
  proof (cases "off_slab (slab_cache s d)")
    case True
    have k: "slab_cachep (slab_cache s d) < SLAB_CACHE_NUM" using params_okD(6)[OF slab_invD(2)[OF inv] d(1) True] by blast
    obtain b j where b: "b \<in> set (slab_list s (slab_cachep (slab_cache s d)))" "j < c_num (slab_cache s (slab_cachep (slab_cache s d)))"
      "x = obj s (slab_cachep (slab_cache s d)) (P b) j"
      using slab_invD(7)[OF inv d True] by (auto simp: objs_def)
    have "c = slab_cachep (slab_cache s d)" using obj_inject[OF inv c(1) a(1,2) k b(1,2)] a(3) b(3) by simp
    then show ?thesis using d True by blast
  next
    case False
    then have px: "x = page2kva (P x)" using slab_invD(4)[OF inv d] by (simp add: slab_is_def)
    then have "(x - 0xC0000000) div PAGE = P x" by (metis page_kva(1))
    moreover have "P x \<in> pgs s d (P x)" by (simp add: pgs_def)
    ultimately have "page_slab s ((x - 0xC0000000) div PAGE) = x" "page_cache s ((x - 0xC0000000) div PAGE) = d"
      using slab_invD(5)[OF inv d] by (auto simp: owned_def)
    then have e: "x = a" "c = d" using objs_owner(3,4)[OF inv c(1) a(1,2)] a(3) by simp_all
    have "page2kva (P a) = obj s c (P a) i" using px a(3) e(1) by simp
    then show ?thesis using params_okD(7)[OF slab_invD(2)[OF inv] c(1)] False e(2) by (simp add: obj_def)
  qed
qed

lemma empty_no_slabs:
  assumes inv: "slab_inv zl {} P F s" and e: "live P F s = {}"
  shows "slab_pages P s = {}"
proof -
  have ex: "\<exists>x. x \<in> objs P F s c" if "c < SLAB_CACHE_NUM" "a \<in> set (slab_list s c)" for c a
  proof -
    note ist = slab_invD(4)[OF inv that, unfolded slab_is_def]
    have "length (F a) < c_num (slab_cache s c)" by (rule slab_invD(6)[OF inv that]) simp
    then have "card (set (F a)) < card {..<c_num (slab_cache s c)}" using ist by (simp add: distinct_card)
    then have "\<not> {..<c_num (slab_cache s c)} \<subseteq> set (F a)" by (meson List.finite_set card_mono not_le)
    then show ?thesis using that(2) by (auto simp: objs_def)
  qed
  have off: "slab_list s c = []" if c: "c < SLAB_CACHE_NUM" "off_slab (slab_cache s c)" for c
  proof (rule ccontr)
    assume "slab_list s c \<noteq> []"
    then obtain x where x: "x \<in> objs P F s c" using ex[OF c(1)] by (meson last_in_set)
    have "x \<in> slab_addrs s" using x e c(1) by (auto simp: live_def)
    then obtain d where "d < SLAB_CACHE_NUM" "off_slab (slab_cache s d)" "c = slab_cachep (slab_cache s d)"
      using ctrl_object[OF inv c(1) x] by blast
    then show False using params_okD(6)[OF slab_invD(2)[OF inv]] c(2) by blast
  qed
  have "slab_list s c = []" if c: "c < SLAB_CACHE_NUM" for c
  proof (rule ccontr)
    assume "slab_list s c \<noteq> []"
    then obtain x where x: "x \<in> objs P F s c" using ex[OF c] by (meson last_in_set)
    have "x \<in> slab_addrs s" using x e c by (auto simp: live_def)
    then obtain d where "d < SLAB_CACHE_NUM" "off_slab (slab_cache s d)" "x \<in> set (slab_list s d)"
      using ctrl_object[OF inv c x] by blast
    then show False using off by fastforce
  qed
  then show ?thesis by (simp add: slab_pages_def)
qed

lemma objects_empty:
  assumes ok: "slab_ok zl s" and "objects s = Map.empty"
  shows "all_pages s = free_set (pb s)"
proof -
  have "in_use_set s = {}"
  proof (rule ccontr)
    assume "in_use_set s \<noteq> {}"
    then obtain e where "e \<in> in_use_set s" by blast
    moreover obtain c x where "e = (c, x)" by fastforce
    ultimately have "(c, x) \<in> in_use_set s" by simp
    then have "objects s x \<noteq> None" unfolding objects_None[OF ok] by blast
    then show False using assms(2) by simp
  qed
  then have "used_pages s = {}" using empty_no_slabs[OF slab_okD[OF ok]] by (simp add: in_use_set_def used_pages_def)
  then show ?thesis by (simp add: all_pages_def)
qed

section \<open>The interface of a heap\<close>

text \<open>A client's requests; a free of an address that is not held is the client's error and is not
  issued, nor is a request of no byte or of more than \<open>limit\<close>.\<close>

datatype heap_request = Malloc nat | Mfree nat

fun heap_run :: "nat \<Rightarrow> (nat \<Rightarrow> 's \<Rightarrow> (nat option \<times> 's) option) \<Rightarrow> (nat \<Rightarrow> 's \<Rightarrow> 's option) \<Rightarrow>
    heap_request list \<Rightarrow> (nat \<times> nat) list \<Rightarrow> 's \<Rightarrow> ((nat \<times> nat) list \<times> 's) option" where
  "heap_run limit alloc release [] held s = Some (held, s)"
| "heap_run limit alloc release (Malloc n # rs) held s =
     (if 0 < n \<and> n \<le> limit then do {
        (r, s') \<leftarrow> alloc n s;
        heap_run limit alloc release rs (case r of None \<Rightarrow> held | Some x \<Rightarrow> (x, n) # held) s'
      }
      else heap_run limit alloc release rs held s)"
| "heap_run limit alloc release (Mfree x # rs) held s =
     (case List.find (\<lambda>e. fst e = x) held of
        None \<Rightarrow> heap_run limit alloc release rs held s
      | Some e \<Rightarrow> do { s' \<leftarrow> release x s; heap_run limit alloc release rs (remove1 e held) s' })"

locale heap_manager =
  fixes ok :: "'s \<Rightarrow> bool"
    and objects :: "'s \<Rightarrow> nat \<Rightarrow> nat option"
    and pages :: "'s \<Rightarrow> nat set"
    and limit :: nat
    and alloc :: "nat \<Rightarrow> 's \<Rightarrow> (nat option \<times> 's) option"
    and release :: "nat \<Rightarrow> 's \<Rightarrow> 's option"
  assumes alloc_law: "ok s \<Longrightarrow> 0 < n \<Longrightarrow> n \<le> limit \<Longrightarrow> \<exists>r s'. alloc n s = Some (r, s') \<and> ok s' \<and> pages s' = pages s \<and>
      (case r of None \<Rightarrow> objects s' = objects s
       | Some x \<Rightarrow> objects s x = None \<and> (\<exists>m. n \<le> m \<and> objects s' = (objects s)(x \<mapsto> m)))"
    and release_law: "ok s \<Longrightarrow> objects s x \<noteq> None \<Longrightarrow>
      \<exists>s'. release x s = Some s' \<and> ok s' \<and> pages s' = pages s \<and> objects s' = (objects s)(x := None)"
    and disjoint_law: "ok s \<Longrightarrow> objects s x = Some m \<Longrightarrow> objects s y = Some n \<Longrightarrow> x \<noteq> y \<Longrightarrow> {x..<x + m} \<inter> {y..<y + n} = {}"
begin

definition holding :: "(nat \<times> nat) list \<Rightarrow> 's \<Rightarrow> bool" where
  "holding held s \<longleftrightarrow> ok s \<and> distinct (map fst held) \<and> dom (objects s) = fst ` set held \<and>
     (\<forall>(x, n) \<in> set held. \<exists>m. n \<le> m \<and> objects s x = Some m)"

lemma holding_disjoint: "holding held s \<Longrightarrow> disjoint_extents held"
proof -
  assume h: "holding held s"
  have "extent e \<inter> extent f = {}" if ef: "e \<in> set held" "f \<in> set held" "fst e \<noteq> fst f" for e f
  proof -
    have held_size: "\<exists>m\<ge>snd x. objects s (fst x) = Some m" if "x \<in> set held" for x
      using h that unfolding holding_def by (cases x) auto
    obtain m n where "snd e \<le> m" "objects s (fst e) = Some m" "snd f \<le> n" "objects s (fst f) = Some n"
      using held_size[OF ef(1)] held_size[OF ef(2)] by blast
    then have "{fst e..<fst e + m} \<inter> {fst f..<fst f + n} = {}" "extent e \<subseteq> {fst e..<fst e + m}" "extent f \<subseteq> {fst f..<fst f + n}"
      using disjoint_law[of s "fst e" m "fst f" n] h ef(3) by (auto simp: holding_def extent_def)
    then show ?thesis by blast
  qed
  then have apart: "\<forall>e \<in> set held. \<forall>f \<in> set held. fst e \<noteq> fst f \<longrightarrow> extent e \<inter> extent f = {}" by blast
  have "distinct (map fst held)" using h by (simp add: holding_def)
  then show ?thesis using apart
  proof (induction held)
    case (Cons e es)
    have "extent e \<inter> extent f = {}" if "f \<in> set es" for f
    proof -
      have "fst e \<noteq> fst f" using Cons.prems(1) that by force
      then show ?thesis using Cons.prems(2) that by simp
    qed
    then show ?case using Cons by simp
  qed simp
qed

lemma run_ok:
  "holding held s \<Longrightarrow> \<exists>held' s'. heap_run limit alloc release rs held s = Some (held', s') \<and> holding held' s' \<and> pages s' = pages s"
proof (induction rs arbitrary: held s)
  case (Cons req rs)
  have ok: "ok s" using Cons.prems by (simp add: holding_def)
  show ?case
  proof (cases req)
    case (Malloc n)
    show ?thesis
    proof (cases "0 < n \<and> n \<le> limit")
      case True
      obtain r s1 where r: "alloc n s = Some (r, s1)" "ok s1" "pages s1 = pages s" "case r of None \<Rightarrow> objects s1 = objects s
         | Some x \<Rightarrow> objects s x = None \<and> (\<exists>m. n \<le> m \<and> objects s1 = (objects s)(x \<mapsto> m))"
        using alloc_law[OF ok, of n] True by blast
      have "holding (case r of None \<Rightarrow> held | Some x \<Rightarrow> (x, n) # held) s1"
      proof (cases r)
        case None
        then show ?thesis using r Cons.prems by (simp add: holding_def)
      next
        case (Some x)
        then obtain m where m: "objects s x = None" "n \<le> m" "objects s1 = (objects s)(x \<mapsto> m)" using r(4) by auto
        have "x \<notin> fst ` set held" using Cons.prems m(1) unfolding holding_def by (metis domIff)
        then show ?thesis using Some m r(2) Cons.prems unfolding holding_def by (force simp: image_iff)
      qed
      then show ?thesis using Cons.IH r(1,3) True Malloc by fastforce
    next
      case False
      then show ?thesis using Cons Malloc by auto
    qed
  next
    case (Mfree x)
    show ?thesis
    proof (cases "List.find (\<lambda>e. fst e = x) held")
      case None
      then show ?thesis using Cons Mfree by simp
    next
      case (Some e)
      then have e: "e \<in> set held" "fst e = x" by (auto simp: find_Some_iff)
      then have "objects s x \<noteq> None" using Cons.prems unfolding holding_def by (metis domIff imageI)
      then obtain s1 where s1: "release x s = Some s1" "ok s1" "pages s1 = pages s" "objects s1 = (objects s)(x := None)"
        using release_law[OF ok] by blast
      have d: "distinct (map fst held)" "distinct held" using Cons.prems by (auto simp: holding_def distinct_map)
      have sub: "set (remove1 e held) = set held - {e}" using d(2) by simp
      have one: "f = e" if "f \<in> set held" "fst f = x" for f using d(1) that e by (simp add: distinct_map inj_on_def)
      have "fst ` set (remove1 e held) = fst ` set held - {x}" unfolding sub using one e by blast
      moreover have "distinct (map fst (remove1 e held))" unfolding distinct_map using d by (auto simp: distinct_map inj_on_def)
      moreover have "\<exists>m. n \<le> m \<and> objects s1 y = Some m" if "(y, n) \<in> set (remove1 e held)" for y n
      proof -
        have "(y, n) \<in> set held" "y \<noteq> x" using that one[of "(y, n)"] unfolding sub by auto
        then show ?thesis using Cons.prems s1(4) by (auto simp: holding_def)
      qed
      ultimately have "holding (remove1 e held) s1" using s1 Cons.prems by (auto simp: holding_def)
      then show ?thesis using Cons.IH s1(1,3) Some Mfree by fastforce
    qed
  qed
qed simp

end

interpretation slab_heap: heap_manager "slab_ok zl" objects all_pages "2 ^ MAX_SIZE_ORDER" kmalloc_slab kfree for zl
proof unfold_locales
  fix s n assume "slab_ok zl s" "0 < n" "n \<le> (2::nat) ^ MAX_SIZE_ORDER"
  then obtain r s' where "kmalloc_slab n s = Some (r, s')" "slab_ok zl s'" "all_pages s' = all_pages s"
    "case r of None \<Rightarrow> objects s' = objects s
     | Some x \<Rightarrow> objects s x = None \<and> (\<exists>k. n \<le> 2 ^ k \<and> MIN_SIZE_ORDER \<le> k \<and> (k = MIN_SIZE_ORDER \<or> 2 ^ (k - 1) < n)
          \<and> objects s' = (objects s)(x \<mapsto> 2 ^ k))"
    using kmalloc_ok by blast
  then show "\<exists>r s'. kmalloc_slab n s = Some (r, s') \<and> slab_ok zl s' \<and> all_pages s' = all_pages s \<and>
      (case r of None \<Rightarrow> objects s' = objects s
       | Some x \<Rightarrow> objects s x = None \<and> (\<exists>m. n \<le> m \<and> objects s' = (objects s)(x \<mapsto> m)))"
    by (intro exI[of _ r], intro exI[of _ s']) (auto split: option.splits)
qed (auto intro: kfree_ok dest: objects_disjoint)

section \<open>Properties\<close>

text \<open>C26: \<open>kmalloc\<close> and \<open>kfree\<close> implement a heap.  From \<open>slab_init\<close> on a consistent page allocator,
  whatever sequence of \<open>kmalloc\<close> of 1 byte to 128 KB and \<open>kfree\<close> of held objects follows, no call
  panics and every call ends; the bytes of the objects held never overlap; and when nothing is held
  any more, every page the allocator took has been given back.\<close>

theorem slab_serves_heap:
  assumes "buddy_ok zl (pb s)"
  shows "\<exists>s0 held s'. slab_init s = Some s0 \<and> heap_run (2 ^ MAX_SIZE_ORDER) kmalloc_slab kfree rs [] s0 = Some (held, s')
    \<and> slab_ok zl s' \<and> disjoint_extents held \<and> (held = [] \<longrightarrow> free_set (pb s') = free_set (pb s))"
proof -
  obtain s0 where s0: "slab_init s = Some s0" "slab_inv zl {} id (\<lambda>_. []) s0" "pb s0 = pb s" "live id (\<lambda>_. []) s0 = {}" "slab_pages id s0 = {}"
    using slab_init_ok[of zl s id "\<lambda>_. []"] assms by blast
  note c = canonical_inv[OF s0(2)]
  have e: "objects s0 = Map.empty" using c(2) s0(4) by (simp add: objects_def fun_eq_iff find_None_iff)
  have "slab_heap.holding zl [] s0" using c(1) e by (simp add: slab_heap.holding_def)
  then obtain held s' where r: "heap_run (2 ^ MAX_SIZE_ORDER) kmalloc_slab kfree rs [] s0 = Some (held, s')" "slab_heap.holding zl held s'"
    "all_pages s' = all_pages s0"
    using slab_heap.run_ok by blast
  have ok: "slab_ok zl s'" using r(2) by (simp add: slab_heap.holding_def)
  have "free_set (pb s') = free_set (pb s)" if "held = []"
  proof -
    have "objects s' = Map.empty" using r(2) that by (simp add: slab_heap.holding_def)
    then show ?thesis using objects_empty[OF ok] objects_empty[OF c(1) e] r(3) s0(3) by simp
  qed
  then show ?thesis using s0(1) r(1) ok slab_heap.holding_disjoint[OF r(2)] by blast
qed

definition demo_slab :: slab_state where
  "demo_slab = \<lparr>pb = demo_buddy,
     slab_cache = (\<lambda>_. \<lparr>slabs_full = [], slabs_notfull = [], objsize = 0, c_num = 0, c_offset = 0, off_slab = False, page_order = 0, slab_cachep = 0\<rparr>),
     slabs = (\<lambda>_. \<lparr>s_mem = 0, s_inuse = 0, s_offset = 0, s_free = 0, bufctl = (\<lambda>_. 0)\<rparr>), page_cache = (\<lambda>_. 0), page_slab = (\<lambda>_. 0)\<rparr>"

theorem slab_serves_heap_witness:
  "\<exists>s0 held s'. slab_init demo_slab = Some s0
    \<and> heap_run (2 ^ MAX_SIZE_ORDER) kmalloc_slab kfree [Malloc 100, Malloc 1000, Mfree 0xC00001A0] [] s0 = Some (held, s') \<and> disjoint_extents held"
proof -
  have "buddy_ok ((\<lambda>_. 0)(0 := 4)) (pb demo_slab)" by (simp add: demo_slab_def demo_buddy_ok)
  from slab_serves_heap[OF this] show ?thesis by blast
qed

text \<open>C27: \<open>kmalloc(n)\<close> in a consistent state: it panics for 0 and above 128 KB.  Otherwise it returns;
  either \<open>NULL\<close>, and the objects in use are as before; or the address of an object that was not in
  use, whose size is the least power of two, from 32 on, that holds \<open>n\<close> bytes, and the other
  objects are as before.  No page is lost.\<close>

theorem kmalloc_correct:
  assumes "slab_ok zl s"
  shows "if n = 0 \<or> 2 ^ MAX_SIZE_ORDER < n then kmalloc_slab n s = None
    else \<exists>r s'. kmalloc_slab n s = Some (r, s') \<and> slab_ok zl s' \<and> all_pages s' = all_pages s \<and>
      (case r of None \<Rightarrow> objects s' = objects s
       | Some x \<Rightarrow> objects s x = None \<and> (\<exists>k. n \<le> 2 ^ k \<and> MIN_SIZE_ORDER \<le> k \<and> (k = MIN_SIZE_ORDER \<or> 2 ^ (k - 1) < n)
            \<and> objects s' = (objects s)(x \<mapsto> 2 ^ k)))"
proof (cases "n = 0 \<or> 2 ^ MAX_SIZE_ORDER < n")
  case True
  then show ?thesis using slab_getorder_panic[of n] by (auto simp: kmalloc_slab_def kassert_def)
next
  case False
  then show ?thesis using kmalloc_ok[OF assms, of n] by simp
qed

lemma demo_slab_ok: "\<exists>s. slab_init demo_slab = Some s \<and> slab_ok ((\<lambda>_. 0)(0 := 4)) s \<and> objects s = Map.empty"
proof -
  have "buddy_ok ((\<lambda>_. 0)(0 := 4)) (pb demo_slab)" by (simp add: demo_slab_def demo_buddy_ok)
  then obtain s where s: "slab_init demo_slab = Some s" "slab_inv ((\<lambda>_. 0)(0 := 4)) {} id (\<lambda>_. []) s" "live id (\<lambda>_. []) s = {}"
    using slab_init_ok by blast
  then show ?thesis using canonical_inv[OF s(2)] by (auto simp: objects_def fun_eq_iff find_None_iff)
qed

theorem kmalloc_correct_witness:
  "\<exists>s. slab_init demo_slab = Some s \<and> kmalloc_slab 0 s = None \<and>
    (\<exists>r s'. kmalloc_slab 600 s = Some (r, s') \<and> (case r of None \<Rightarrow> True | Some x \<Rightarrow> objects s' x \<noteq> None))"
proof -
  obtain s where s: "slab_init demo_slab = Some s" "slab_ok ((\<lambda>_. 0)(0 := 4)) s" using demo_slab_ok by blast
  have "kmalloc_slab 0 s = None" using kmalloc_correct[OF s(2), of 0] by simp
  moreover obtain r s' where "kmalloc_slab 600 s = Some (r, s')" "case r of None \<Rightarrow> objects s' = objects s
      | Some x \<Rightarrow> objects s x = None \<and> (\<exists>k. (600::nat) \<le> 2 ^ k \<and> MIN_SIZE_ORDER \<le> k \<and> (k = MIN_SIZE_ORDER \<or> 2 ^ (k - 1) < (600::nat))
            \<and> objects s' = (objects s)(x \<mapsto> 2 ^ k))"
    using kmalloc_correct[OF s(2), of 600] by auto
  ultimately show ?thesis using s(1) by (cases r) auto
qed

end
