(* ===== verification/Block.thy ===== *)
theory Block
  imports Sem
begin

text \<open>
  What the blocking calls of \<open>kern/sync\<close> share: going to sleep in a wait queue with an optional
  timer, waking the first waiter, and leaving the queue when the process runs again.  The lemmas of
  this theory carry the events and the message boxes.
\<close>

section \<open>The invariant of the kernel's scheduling state\<close>

definition kern_ok :: "kern \<Rightarrow> bool" where
  "kern_ok k \<longleftrightarrow> mlfq_ok k \<and> sched_inv k \<and> wait_ok k \<and> distinct (timer_list k)"

lemma kern_okD: "kern_ok k \<Longrightarrow> mlfq_ok k" "kern_ok k \<Longrightarrow> sched_inv k" "kern_ok k \<Longrightarrow> wait_ok k"
  "kern_ok k \<Longrightarrow> distinct (timer_list k)"
  by (simp_all add: kern_ok_def)

text \<open>What none of the steps below changes.\<close>

definition keeps :: "kern \<Rightarrow> kern \<Rightarrow> bool" where
  "keeps k k' \<longleftrightarrow> idleproc k' = idleproc k \<and> initproc k' = initproc k \<and> kswapd k' = kswapd k \<and> ticks k' = ticks k \<and>
     hash_list k' = hash_list k \<and> sems k' = sems k \<and>
     (\<forall>p. pid (procs k' p) = pid (procs k p) \<and> event (procs k' p) = event (procs k p) \<and> mm (procs k' p) = mm (procs k p))"

lemma keeps_refl [simp]: "keeps k k"
  by (simp add: keeps_def)

lemma keeps_trans [trans]: "keeps k1 k2 \<Longrightarrow> keeps k2 k3 \<Longrightarrow> keeps k1 k3"
  by (simp add: keeps_def)

lemma keeps_sframe: "sframe k k' \<Longrightarrow> keeps k k'"
proof -
  assume f: "sframe k k'"
  then have e: "k' = k\<lparr>run_list := run_list k', proc_num := proc_num k', procs := procs k'\<rparr>" by (simp add: sframe_def)
  have "kswapd k' = kswapd k" "ticks k' = ticks k" using arg_cong[OF e, of kswapd] arg_cong[OF e, of ticks] by simp_all
  moreover have "pid (procs k' p) = pid (procs k p) \<and> event (procs k' p) = event (procs k p) \<and> mm (procs k' p) = mm (procs k p)" for p
  proof -
    have e: "procs k' p = (procs k p)\<lparr>rq := rq (procs k' p), time_slice := time_slice (procs k' p), need_resched := need_resched (procs k' p)\<rparr>"
      using f by (simp add: sframe_def)
    show ?thesis using arg_cong[OF e, of pid] arg_cong[OF e, of event] arg_cong[OF e, of mm] by simp
  qed
  ultimately show ?thesis using sframe_fields[OF f] by (simp add: keeps_def)
qed

lemma MLFQ_steps_sframe: "c_enqueue MLFQ_sched_class 0 p k = Some k' \<Longrightarrow> sframe k k'"
  "c_dequeue MLFQ_sched_class 0 p k = Some k' \<Longrightarrow> sframe k k'"
  by (auto simp: MLFQ_sched_class_def MLFQ_enqueue_def MLFQ_dequeue_def Let_def kmonad
      dest: RR_enqueue_sframe RR_dequeue_sframe)

lemma schedule_keeps:
  assumes "schedule MLFQ_sched_class k = Some k'"
  shows "keeps k k'"
proof -
  have e: "keeps k1 k2" if "sched_class_enqueue MLFQ_sched_class p k1 = Some k2" for p k1 k2
    using that MLFQ_steps_sframe(1) by (auto simp: sched_class_enqueue_def intro: keeps_sframe split: if_splits)
  have d: "keeps k1 k2" if "sched_class_dequeue MLFQ_sched_class p k1 = Some k2" for p k1 k2
    using that MLFQ_steps_sframe(2) by (auto simp: sched_class_dequeue_def intro: keeps_sframe)
  have u: "keeps k1 (upd_proc p (\<lambda>pr. pr\<lparr>runs := runs pr + 1\<rparr>) k1)" for p k1
    by (simp add: keeps_def)
  have r: "keeps k1 (proc_run p k1)" for p k1 by (simp add: keeps_def proc_run_def)
  define ka where "ka = upd_proc (current k) (\<lambda>pr. pr\<lparr>need_resched := False\<rparr>) k"
  have ka: "keeps k ka" by (simp add: keeps_def ka_def)
  obtain kb nx kc where kb: "(if state (procs ka (current ka)) = PROC_RUNNABLE then sched_class_enqueue MLFQ_sched_class (current ka) ka else Some ka) = Some kb"
    and kc: "(case nx of Some p \<Rightarrow> sched_class_dequeue MLFQ_sched_class p kb | None \<Rightarrow> Some kb) = Some kc"
    and k': "k' = (let p = (case nx of Some p \<Rightarrow> p | None \<Rightarrow> idleproc kc); kd = upd_proc p (\<lambda>pr. pr\<lparr>runs := runs pr + 1\<rparr>) kc
        in if p \<noteq> current kd then proc_run p kd else kd)"
    using assms unfolding schedule_def Let_def ka_def[symmetric] by (auto simp: kmonad)
  have "keeps ka kb" using kb e by (auto split: if_splits)
  moreover have "keeps kb kc" using kc d by (auto split: option.splits)
  moreover have "keeps kc k'" unfolding k' Let_def using u r keeps_trans by (smt (verit))
  ultimately show ?thesis using ka keeps_trans by blast
qed

section \<open>Going to sleep\<close>

text \<open>A timer structure that is on no list and can be added, or no timer.\<close>

definition timer_ready :: "nat option \<Rightarrow> kern \<Rightarrow> bool" where
  "timer_ready timer k \<longleftrightarrow> (case timer of None \<Rightarrow> True
     | Some t \<Rightarrow> t \<notin> set (timer_list k) \<and> 0 < expires (timers k t) \<and> t_proc (timers k t) \<noteq> None)"

lemma add_timer_fields:
  assumes "kern_ok k" "timer_ready timer k"
  obtains tm ts where "ipc_add_timer timer k = Some (k\<lparr>timers := tm, timer_list := ts\<rparr>)" "distinct ts"
proof (cases timer)
  case None
  then show ?thesis using that[of "timer_list k" "timers k"] assms by (simp add: ipc_add_timer_def kern_ok_def)
next
  case (Some t)
  then show ?thesis using add_timer_remaining[of k t] assms that
    by (fastforce simp: ipc_add_timer_def timer_ready_def kern_ok_def)
qed

lemma timers_frame:
  assumes "kern_ok k" "distinct ts"
  shows "kern_ok (k\<lparr>timers := tm, timer_list := ts\<rparr>)" "keeps k (k\<lparr>timers := tm, timer_list := ts\<rparr>)"
proof -
  let ?k = "k\<lparr>timers := tm, timer_list := ts\<rparr>"
  have sr: "same_rq k ?k" by (simp add: same_rq_def)
  show "kern_ok ?k"
    using MLFQ.inv_frame[OF kern_okD(1)[OF assms(1)] sr] sched_inv_frame[OF kern_okD(2)[OF assms(1)] sr]
      wait_ok_frame[OF kern_okD(3)[OF assms(1)]] assms(2) by (simp add: kern_ok_def)
  show "keeps k ?k" by (simp add: keeps_def)
qed

definition go_to_sleep :: "wqid \<Rightarrow> nat \<Rightarrow> u32 \<Rightarrow> nat option \<Rightarrow> kern \<Rightarrow> kern option" where
  "go_to_sleep q w ws timer k = do {
     k \<leftarrow> wait_current_set q w ws k;
     k \<leftarrow> ipc_add_timer timer k;
     schedule MLFQ_sched_class k
   }"

lemma schedule_kern_ok:
  assumes "kern_ok k"
  obtains k' where "schedule MLFQ_sched_class k = Some k'" "kern_ok k'" "keeps k k'"
    "\<forall>p. state (procs k' p) = state (procs k p) \<and> wait_state (procs k' p) = wait_state (procs k p)"
    "wait_list k' = wait_list k" "waits k' = waits k"
    "if current k' = idleproc k then \<forall>p. state (procs k p) = PROC_RUNNABLE \<longrightarrow> p = idleproc k
       else state (procs k (current k')) = PROC_RUNNABLE"
proof -
  from MLFQ.schedule_ok[OF kern_okD(1,2)[OF assms]] obtain k' where
    k': "schedule MLFQ_sched_class k = Some k'" "mlfq_ok k'" "sched_inv k'"
    "\<forall>p. state (procs k' p) = state (procs k p) \<and> wait_state (procs k' p) = wait_state (procs k p)"
    "timer_list k' = timer_list k"
    "if current k' = idleproc k then \<forall>p. state (procs k p) = PROC_RUNNABLE \<longrightarrow> p = idleproc k
       else state (procs k (current k')) = PROC_RUNNABLE" by blast
  note kw = MLFQ_schedule_keeps_waits[OF k'(1)]
  have "kern_ok k'" using k'(2,3,5) kern_okD(4)[OF assms] wait_ok_frame[OF kern_okD(3)[OF assms] kw(1,2)] by (simp add: kern_ok_def)
  then show ?thesis using that k'(1,4,6) kw schedule_keeps[OF k'(1)] by blast
qed

lemma go_to_sleep_ok:
  assumes "kern_ok k" "\<forall>q. w \<notin> set (wait_list k q)" "current k \<noteq> idleproc k" "timer_ready timer k"
  obtains k' where "go_to_sleep q w ws timer k = Some k'" "kern_ok k'" "keeps k k'"
    "wait_list k' = (wait_list k)(q := wait_list k q @ [w])"
    "waits k' = (waits k)(w := \<lparr>w_proc = Some (current k), wakeup_flags = WT_INTERRUPTED, wait_queue = q\<rparr>)"
    "\<forall>p. state (procs k' p) = (if p = current k then PROC_SLEEPING else state (procs k p))"
    "\<forall>p. wait_state (procs k' p) = (if p = current k then ws else wait_state (procs k p))"
    "current k' \<noteq> current k"
proof -
  obtain k1 where k1: "wait_current_set q w ws k = Some k1" "wait_ok k1" "same_rq k k1"
    "wait_list k1 = (wait_list k)(q := wait_list k q @ [w])"
    "waits k1 = (waits k)(w := \<lparr>w_proc = Some (current k), wakeup_flags = WT_INTERRUPTED, wait_queue = q\<rparr>)"
    "current k1 = current k" "idleproc k1 = idleproc k" "sems k1 = sems k"
    "\<forall>p. state (procs k1 p) = (if p = current k then PROC_SLEEPING else state (procs k p))"
    "\<forall>p. wait_state (procs k1 p) = (if p = current k then ws else wait_state (procs k p))"
    "timer_list k1 = timer_list k" "timers k1 = timers k"
    using wait_current_set_ok[OF kern_okD(3)[OF assms(1)] assms(2)] by metis
  have kp: "keeps k k1" using k1(1) assms(2)
    by (auto simp: wait_current_set_def wait_queue_add_def wait_init_def Let_def kmonad keeps_def)
  have "mlfq_ok k1" by (rule MLFQ.inv_frame[OF kern_okD(1)[OF assms(1)] k1(3)])
  moreover have "sched_inv k1" using kern_okD(2)[OF assms(1)] same_rq_linked[OF k1(3)] k1(6,7,9) by (auto simp: sched_inv_def)
  ultimately have ok1: "kern_ok k1" using k1(2,11) kern_okD(4)[OF assms(1)] by (simp add: kern_ok_def)
  have "timer_ready timer k1" using assms(4) unfolding timer_ready_def k1(11,12) .
  then obtain tm ts where t: "ipc_add_timer timer k1 = Some (k1\<lparr>timers := tm, timer_list := ts\<rparr>)" "distinct ts"
    using add_timer_fields[OF ok1] by blast
  define k2 where "k2 = k1\<lparr>timers := tm, timer_list := ts\<rparr>"
  have k2: "kern_ok k2" "keeps k k2" unfolding k2_def using timers_frame[OF ok1 t(2)] keeps_trans[OF kp] by auto
  have f: "procs k2 = procs k1" "wait_list k2 = wait_list k1" "waits k2 = waits k1" "idleproc k2 = idleproc k" by (simp_all add: k2_def k1(7))
  obtain k3 where k3: "schedule MLFQ_sched_class k2 = Some k3" "kern_ok k3" "keeps k2 k3"
    "\<forall>p. state (procs k3 p) = state (procs k2 p) \<and> wait_state (procs k3 p) = wait_state (procs k2 p)"
    "wait_list k3 = wait_list k2" "waits k3 = waits k2"
    "if current k3 = idleproc k2 then \<forall>p. state (procs k2 p) = PROC_RUNNABLE \<longrightarrow> p = idleproc k2
       else state (procs k2 (current k3)) = PROC_RUNNABLE"
    by (rule schedule_kern_ok[OF k2(1)])
  have "go_to_sleep q w ws timer k = Some k3" using k1(1) t(1) k3(1) by (simp add: go_to_sleep_def k2_def)
  moreover have "current k3 \<noteq> current k" using k3(7) f k1(9) assms(3) by (auto split: if_splits)
  ultimately show ?thesis using that[of k3] k3(2,4-6) k1(4,5,9,10) f keeps_trans[OF k2(2) k3(3)] by simp
qed

section \<open>Waking and leaving\<close>

lemma wakeup_kern_ok:
  assumes "kern_ok k" "state (procs k p) \<noteq> PROC_ZOMBIE"
  obtains k' where "wakeup_proc MLFQ_sched_class p k = Some k'" "kern_ok k'" "keeps k k'" "current k' = current k"
    "wait_list k' = wait_list k" "waits k' = waits k" "timer_list k' = timer_list k" "timers k' = timers k"
    "\<forall>r. state (procs k' r) = (if r = p then PROC_RUNNABLE else state (procs k r))"
    "\<forall>r. r \<noteq> p \<longrightarrow> wait_state (procs k' r) = wait_state (procs k r)"
    "state (procs k p) \<noteq> PROC_RUNNABLE \<longrightarrow> wait_state (procs k' p) = 0"
proof -
  let ?u = "if state (procs k p) \<noteq> PROC_RUNNABLE
        then upd_proc p (\<lambda>pr. pr\<lparr>state := PROC_RUNNABLE, wait_state := 0\<rparr>) k else k"
  from MLFQ.wakeup_ok[OF kern_okD(1,2)[OF assms(1)] assms(2)] obtain k' where
    k': "wakeup_proc MLFQ_sched_class p k = Some k'" "mlfq_ok k'" "sched_inv k'" "sframe ?u k'" by blast
  have f: "wait_list k' = wait_list k" "waits k' = waits k" "timer_list k' = timer_list k" "timers k' = timers k" "current k' = current k"
    using sframe_fields[OF k'(4)] by (auto split: if_splits)
  have "keeps k ?u" by (simp add: keeps_def)
  then have "keeps k k'" using keeps_sframe[OF k'(4)] keeps_trans by blast
  moreover have "kern_ok k'"
    using k'(2,3) f kern_okD(4)[OF assms(1)] wait_ok_frame[OF kern_okD(3)[OF assms(1)]] by (simp add: kern_ok_def)
  moreover have "\<forall>r. state (procs k' r) = (if r = p then PROC_RUNNABLE else state (procs k r))"
    "\<forall>r. r \<noteq> p \<longrightarrow> wait_state (procs k' r) = wait_state (procs k r)"
    "state (procs k p) \<noteq> PROC_RUNNABLE \<longrightarrow> wait_state (procs k' p) = 0"
    using sframe_proc(1,2)[OF k'(4)] by auto
  ultimately show ?thesis using that k'(1) f by blast
qed

lemma wakeup_wait_ok:
  assumes "kern_ok k" "wait_list k q = w # ws" "state (procs k (hd (waiters k q))) \<noteq> PROC_ZOMBIE"
  obtains k' where "wakeup_wait MLFQ_sched_class q w fl True k = Some k'" "kern_ok k'" "keeps k k'" "current k' = current k"
    "wait_list k' = (wait_list k)(q := ws)" "waits k' = (waits k)(w := (waits k w)\<lparr>wakeup_flags := fl\<rparr>)"
    "timer_list k' = timer_list k" "timers k' = timers k"
    "\<forall>r. state (procs k' r) = (if r = hd (waiters k q) then PROC_RUNNABLE else state (procs k r))"
    "\<forall>r. r \<noteq> hd (waiters k q) \<longrightarrow> wait_state (procs k' r) = wait_state (procs k r)"
    "state (procs k (hd (waiters k q))) \<noteq> PROC_RUNNABLE \<longrightarrow> wait_state (procs k' (hd (waiters k q))) = 0"
    "\<forall>r. waiters k' r = ((waiters k)(q := tl (waiters k q))) r"
proof -
  obtain p k1 where p: "w_proc (waits k w) = Some p"
    "wakeup_wait MLFQ_sched_class q w fl True k = wakeup_proc MLFQ_sched_class p k1"
    "k1 = upd_wait w (\<lambda>wt. wt\<lparr>wakeup_flags := fl\<rparr>) (k\<lparr>wait_list := (wait_list k)(q := ws)\<rparr>)" "wait_ok k1"
    using wakeup_wait_del[OF kern_okD(3)[OF assms(1)] assms(2)] by blast
  have h: "hd (waiters k q) = p" by (simp add: waiters_def assms(2) p(1))
  have sr: "same_rq k k1" by (rule wait_same_rq) (simp_all add: p(3))
  have "kern_ok k1"
    using MLFQ.inv_frame[OF kern_okD(1)[OF assms(1)] sr] sched_inv_frame[OF kern_okD(2)[OF assms(1)] sr] p(4) kern_okD(4)[OF assms(1)]
    by (simp add: kern_ok_def p(3))
  moreover have z: "state (procs k1 p) \<noteq> PROC_ZOMBIE" using assms(3) h by (simp add: p(3))
  ultimately obtain k2 where k2: "wakeup_proc MLFQ_sched_class p k1 = Some k2" "kern_ok k2" "keeps k1 k2" "current k2 = current k1"
    "wait_list k2 = wait_list k1" "waits k2 = waits k1" "timer_list k2 = timer_list k1" "timers k2 = timers k1"
    "\<forall>r. state (procs k2 r) = (if r = p then PROC_RUNNABLE else state (procs k1 r))"
    "\<forall>r. r \<noteq> p \<longrightarrow> wait_state (procs k2 r) = wait_state (procs k1 r)"
    "state (procs k1 p) \<noteq> PROC_RUNNABLE \<longrightarrow> wait_state (procs k2 p) = 0"
    by (rule wakeup_kern_ok) blast
  have "keeps k k1" by (simp add: p(3) keeps_def)
  then have kp: "keeps k k2" using k2(3) by (rule keeps_trans)
  have d: "w \<notin> set (wait_list k r) \<or> r = q" for r
    using kern_okD(3)[OF assms(1)] assms(2) by (metis list.set_intros(1) wait_ok_def)
  have k1: "current k1 = current k" "wait_list k1 = (wait_list k)(q := ws)" "waits k1 = (waits k)(w := (waits k w)\<lparr>wakeup_flags := fl\<rparr>)"
    "timer_list k1 = timer_list k" "timers k1 = timers k" "procs k1 = procs k"
    by (simp_all add: p(3))
  have dw: "w \<notin> set ws" using kern_okD(3)[OF assms(1)] assms(2) by (auto simp: wait_ok_def dest: spec[of _ q])
  have wt: "waiters k2 r = ((waiters k)(q := tl (waiters k q))) r" for r
  proof (cases "r = q")
    case True
    have "wait_list k2 q = ws" by (simp add: k2(5) k1(2))
    then show ?thesis using dw True unfolding waiters_def k2(6) k1(3) assms(2) by auto
  next
    case False
    then have "wait_list k2 r = wait_list k r" "w \<notin> set (wait_list k r)" using d[of r] by (simp_all add: k2(5) k1(2))
    then show ?thesis using False unfolding waiters_def k2(6) k1(3) by auto
  qed
  show ?thesis
  proof (rule that[of k2])
    show "wakeup_wait MLFQ_sched_class q w fl True k = Some k2" using p(2) k2(1) by simp
    show "\<forall>r. waiters k2 r = ((waiters k)(q := tl (waiters k q))) r" using wt by blast
  qed (unfold h, use k2(2,4-11) kp k1 in \<open>simp_all\<close>)
qed

definition leave_queue :: "wqid \<Rightarrow> nat \<Rightarrow> nat option \<Rightarrow> kern \<Rightarrow> kern option" where
  "leave_queue q w timer k = wait_current_del q w (ipc_del_timer timer k)"

lemma leave_queue_ok:
  assumes "kern_ok k" "wait_queue (waits k w) = q"
  obtains k' where "leave_queue q w timer k = Some k'" "kern_ok k'" "keeps k k'" "current k' = current k"
    "procs k' = procs k" "waits k' = waits k" "wait_list k' = (wait_list k)(q := remove1 w (wait_list k q))"
    "\<forall>r. w \<notin> set (wait_list k' r)" "set (timer_list k') \<subseteq> set (timer_list k)" "timer \<noteq> None \<longrightarrow> the timer \<notin> set (timer_list k')"
proof -
  have "\<exists>tm ts. ipc_del_timer timer k = k\<lparr>timers := tm, timer_list := ts\<rparr> \<and> distinct ts \<and> set ts \<subseteq> set (timer_list k)
      \<and> (timer \<noteq> None \<longrightarrow> the timer \<notin> set ts)"
  proof (cases timer)
    case None
    then show ?thesis using kern_okD(4)[OF assms(1)] by (intro exI[of _ "timers k"] exI[of _ "timer_list k"]) (simp add: ipc_del_timer_def)
  next
    case (Some t)
    have "\<exists>tm. del_timer t k = k\<lparr>timers := tm, timer_list := remove1 t (timer_list k)\<rparr>"
    proof (cases "t \<in> set (timer_list k)")
      case True
      show ?thesis
      proof (cases "succ_of t (timer_list k)")
        case None
        then show ?thesis using True by (intro exI[of _ "timers k"]) (simp add: del_timer_def)
      next
        case (Some a)
        then show ?thesis using True
          by (intro exI[of _ "if expires (timers k t) = 0 then timers k else (timers k)(a := (timers k a)\<lparr>expires := expires (timers k a) + expires (timers k t)\<rparr>)"])
            (simp add: del_timer_def upd_timer_def)
      qed
    next
      case False
      then show ?thesis by (intro exI[of _ "timers k"]) (simp add: del_timer_def remove1_idem)
    qed
    then show ?thesis using Some kern_okD(4)[OF assms(1)] by (fastforce simp: ipc_del_timer_def dest: notin_set_remove1)
  qed
  then obtain tm ts where t: "ipc_del_timer timer k = k\<lparr>timers := tm, timer_list := ts\<rparr>" "distinct ts" "set ts \<subseteq> set (timer_list k)"
      "timer \<noteq> None \<longrightarrow> the timer \<notin> set ts" by blast
  define k1 where "k1 = k\<lparr>timers := tm, timer_list := ts\<rparr>"
  have k1: "kern_ok k1" "keeps k k1" using timers_frame[OF assms(1) t(2)] by (simp_all add: k1_def)
  have f: "procs k1 = procs k" "waits k1 = waits k" "wait_list k1 = wait_list k" "current k1 = current k" "timer_list k1 = ts" by (simp_all add: k1_def)
  define k2 where "k2 = k1\<lparr>wait_list := (wait_list k1)(q := remove1 w (wait_list k1 q))\<rparr>"
  have wo: "wait_ok k1" by (rule kern_okD(3)[OF k1(1)])
  have "leave_queue q w timer k = Some k2"
    using assms(2) f unfolding leave_queue_def t(1) k1_def[symmetric]
    by (auto simp: wait_current_del_def wait_in_queue_def wait_queue_del_def k2_def remove1_idem)
  moreover have "kern_ok k2"
  proof -
    have sr: "same_rq k1 k2" by (simp add: same_rq_def k2_def)
    have "wait_ok k2" using wo unfolding wait_ok_def k2_def by (auto dest: notin_set_remove1 set_remove1_subset[THEN subsetD])
    then show ?thesis using MLFQ.inv_frame[OF kern_okD(1)[OF k1(1)] sr] sched_inv_frame[OF kern_okD(2)[OF k1(1)] sr] kern_okD(4)[OF k1(1)]
      by (simp add: kern_ok_def k2_def)
  qed
  moreover have "keeps k k2" using k1(2) by (simp add: keeps_def k2_def)
  moreover have "w \<notin> set (wait_list k2 r)" for r
    using wo assms(2) f(2) unfolding wait_ok_def k2_def by (cases "r = q") auto
  ultimately show ?thesis using that[of k2] t(3,4) f by (simp add: k2_def)
qed

end
