(* ===== verification/Event.thy ===== *)
theory Event
  imports Block Proc Vmm
begin

text \<open>
  Events: \<open>kern/sync/event.c\<close>, a rendezvous between processes.  A sender writes the event number into
  its own event box and waits in the queue of the receiver (\<open>EventQ\<close> of the receiver); the receiver
  takes the first sender of its queue, reads that sender's event box and wakes it.  Both calls are
  split at \<open>schedule\<close>, as in \<open>Sem\<close>; \<open>t\<close> and \<open>w\<close> are the timer and the wait on the caller's stack.
  Words written to user memory are part of the result.
\<close>

section \<open>The code\<close>

definition event_box_init :: "nat \<Rightarrow> kern \<Rightarrow> kern" where
  "event_box_init p k = wait_queue_init (EventQ p) k"

definition send_event :: "sched_class \<Rightarrow> nat \<Rightarrow> nat \<Rightarrow> nat option \<Rightarrow> kern \<Rightarrow> kern option" where
  "send_event cls p w timer k = do {
     k \<leftarrow> wait_current_set (EventQ p) w WT_EVENT_SEND k;
     k \<leftarrow> ipc_add_timer timer k;
     schedule cls k
   }"

definition send_event_resume :: "nat \<Rightarrow> nat \<Rightarrow> nat option \<Rightarrow> kern \<Rightarrow> (u32 \<times> kern) option" where
  "send_event_resume p w timer k = do {
     let k = ipc_del_timer timer k;
     k \<leftarrow> wait_current_del (EventQ p) w k;
     Some (if wakeup_flags (waits k w) \<noteq> WT_EVENT_SEND then wakeup_flags (waits k w) else 0, k)
   }"

text \<open>The first part gives the result of an erroneous call, or the receiver and the tick count that
  the second part needs.\<close>

definition ipc_event_send :: "sched_class \<Rightarrow> int \<Rightarrow> int \<Rightarrow> u32 \<Rightarrow> nat \<Rightarrow> nat \<Rightarrow> kern \<Rightarrow> ((int + nat \<times> u32) \<times> kern) option" where
  "ipc_event_send cls i ev timeout t w k =
    (case find_proc i k of
       None \<Rightarrow> Some (Inl (- E_INVAL), k)
     | Some p \<Rightarrow>
         if state (procs k p) = PROC_ZOMBIE then Some (Inl (- E_INVAL), k)
         else if p = current k \<or> p = idleproc k \<or> p = initproc k \<or> p = kswapd k then Some (Inl (- E_INVAL), k)
         else do {
           k \<leftarrow> (if wait_state (procs k p) = WT_EVENT_RECV then wakeup_proc cls p k else Some k);
           let k = upd_proc (current k) (\<lambda>pr. pr\<lparr>event := ev\<rparr>) k;
           let (timer, saved, k) = ipc_timer_init timeout t k;
           k \<leftarrow> send_event cls p w timer k;
           Some (Inr (p, saved), k)
         })"

definition ipc_event_send_resume :: "nat \<Rightarrow> u32 \<Rightarrow> u32 \<Rightarrow> nat \<Rightarrow> nat \<Rightarrow> kern \<Rightarrow> (int \<times> kern) option" where
  "ipc_event_send_resume p saved timeout t w k = do {
     (fl, k) \<leftarrow> send_event_resume p w (if timeout \<noteq> 0 then Some t else None) k;
     (if fl = 0 then Some (0, k)
      else do { kassert (fl = WT_INTERRUPTED); Some (ipc_check_timeout timeout saved k, k) })
   }"

text \<open>\<open>recv_event\<close> after the point where it may have slept: the pid and event of the first sender,
  \<open>None\<close> for the result \<open>-1\<close>.\<close>

definition take_event :: "sched_class \<Rightarrow> kern \<Rightarrow> ((int \<times> int) option \<times> kern) option" where
  "take_event cls k =
    (case wait_queue_first (EventQ (current k)) k of
       None \<Rightarrow> Some (None, k)
     | Some w \<Rightarrow> do {
         p \<leftarrow> w_proc (waits k w);
         k' \<leftarrow> wakeup_wait cls (EventQ (current k)) w WT_EVENT_SEND True k;
         Some (Some (pid (procs k p), event (procs k p)), k')
       })"

text \<open>\<open>Inr\<close>: the process sleeps.\<close>

definition recv_event :: "sched_class \<Rightarrow> nat option \<Rightarrow> kern \<Rightarrow> (((int \<times> int) option + unit) \<times> kern) option" where
  "recv_event cls timer k =
    (if wait_queue_empty (EventQ (current k)) k then do {
       let k = upd_proc (current k) (\<lambda>pr. pr\<lparr>state := PROC_SLEEPING, wait_state := WT_EVENT_RECV\<rparr>) k;
       k \<leftarrow> ipc_add_timer timer k;
       k \<leftarrow> schedule cls k;
       Some (Inr (), k)
     }
     else do { (r, k) \<leftarrow> take_event cls k; Some (Inl r, k) })"

definition recv_event_resume :: "sched_class \<Rightarrow> nat option \<Rightarrow> kern \<Rightarrow> ((int \<times> int) option \<times> kern) option" where
  "recv_event_resume cls timer k = take_event cls (ipc_del_timer timer k)"

record ipc =
  kn :: kern
  vs :: vm

definition user_check :: "u32 \<Rightarrow> u32 \<Rightarrow> bool \<Rightarrow> ipc \<Rightarrow> (bool \<times> ipc) option" where
  "user_check a len wr s = do {
     (ok, v) \<leftarrow> user_mem_check (mm (procs (kn s) (current (kn s)))) a len wr (vs s);
     Some (ok, s\<lparr>vs := v\<rparr>)
   }"

text \<open>The last part of \<open>ipc_event_recv\<close>: the result and the words written.\<close>

definition event_recv_finish :: "u32 \<Rightarrow> u32 \<Rightarrow> u32 \<Rightarrow> u32 \<Rightarrow> (int \<times> int) option \<Rightarrow> ipc \<Rightarrow> ((int \<times> (u32 \<times> int) list) \<times> ipc) option" where
  "event_recv_finish pid_store event_store timeout saved r s =
    (case r of
       None \<Rightarrow> Some ((ipc_check_timeout timeout saved (kn s), []), s)
     | Some (i, ev) \<Rightarrow> do {
         (ok, s) \<leftarrow> (if pid_store = 0 then Some (True, s) else user_check pid_store 4 True s);
         (if \<not> ok then Some ((- E_INVAL, []), s)
          else do {
            let out = (if pid_store = 0 then [] else [(pid_store, i)]);
            (ok, s) \<leftarrow> user_check event_store 4 True s;
            Some (if ok then (0, out @ [(event_store, ev)]) else (- E_INVAL, out), s)
          })
       })"

definition ipc_event_recv :: "sched_class \<Rightarrow> u32 \<Rightarrow> u32 \<Rightarrow> u32 \<Rightarrow> nat \<Rightarrow> ipc \<Rightarrow> (((int \<times> (u32 \<times> int) list) + u32) \<times> ipc) option" where
  "ipc_event_recv cls pid_store event_store timeout t s =
    (if event_store = 0 then Some (Inl (- E_INVAL, []), s)
     else do {
       (ok, s) \<leftarrow> (if pid_store = 0 then Some (True, s) else user_check pid_store 4 True s);
       (if \<not> ok then Some (Inl (- E_INVAL, []), s)
        else do {
          (ok, s) \<leftarrow> user_check event_store 4 True s;
          (if \<not> ok then Some (Inl (- E_INVAL, []), s)
           else do {
             let (timer, saved, k) = ipc_timer_init timeout t (kn s);
             (r, k) \<leftarrow> recv_event cls timer k;
             (case r of
                Inr _ \<Rightarrow> Some (Inr saved, s\<lparr>kn := k\<rparr>)
              | Inl e \<Rightarrow> do { (x, s) \<leftarrow> event_recv_finish pid_store event_store timeout saved e (s\<lparr>kn := k\<rparr>); Some (Inl x, s) })
           })
        })
     })"

definition ipc_event_recv_resume :: "sched_class \<Rightarrow> u32 \<Rightarrow> u32 \<Rightarrow> u32 \<Rightarrow> u32 \<Rightarrow> nat \<Rightarrow> ipc \<Rightarrow> ((int \<times> (u32 \<times> int) list) \<times> ipc) option" where
  "ipc_event_recv_resume cls pid_store event_store timeout saved t s = do {
     (r, k) \<leftarrow> recv_event_resume cls (if timeout \<noteq> 0 then Some t else None) (kn s);
     event_recv_finish pid_store event_store timeout saved r (s\<lparr>kn := k\<rparr>)
   }"

section \<open>The queue of pending events\<close>

text \<open>What a process can receive: the pid and the event of every process that waits for it, first
  come first.\<close>

definition pending :: "kern \<Rightarrow> nat \<Rightarrow> (int \<times> int) list" where
  "pending k p = map (\<lambda>q. (pid (procs k q), event (procs k q))) (waiters k (EventQ p))"

lemma pending_keeps:
  "keeps k k' \<Longrightarrow> waiters k' (EventQ p) = waiters k (EventQ p) \<Longrightarrow> pending k' p = pending k p"
  by (simp add: pending_def keeps_def)

lemma timer_init_ok:
  assumes "kern_ok k" "t \<notin> set (timer_list k)" "ipc_timer_init timeout t k = (timer, saved, k')"
  shows "kern_ok k'" "keeps k k'" "timer_ready timer k'" "procs k' = procs k" "wait_list k' = wait_list k" "waits k' = waits k"
    "current k' = current k" "timer_list k' = timer_list k" "timer = (if timeout \<noteq> 0 then Some t else None)" "timeout \<noteq> 0 \<longrightarrow> saved = ticks k"
proof -
  have k': "k' = k \<or> (\<exists>tm. k' = k\<lparr>timers := tm, timer_list := timer_list k\<rparr>)"
    using assms(3) by (auto simp: ipc_timer_init_def timer_init_def upd_timer_def split: if_splits)
  then show "kern_ok k'" "keeps k k'" using timers_frame[OF assms(1) kern_okD(4)[OF assms(1)]] assms(1) by auto
  show "timer_ready timer k'"
    using assms(2,3) by (auto simp: ipc_timer_init_def timer_init_def timer_ready_def unat_gt_0 split: if_splits)
  show "procs k' = procs k" "wait_list k' = wait_list k" "waits k' = waits k" "current k' = current k" "timer_list k' = timer_list k"
    using k' by auto
  show "timer = (if timeout \<noteq> 0 then Some t else None)" "timeout \<noteq> 0 \<longrightarrow> saved = ticks k"
    using assms(3) by (auto simp: ipc_timer_init_def split: if_splits)
qed

lemma upd_event_ok:
  assumes "kern_ok k"
  shows "kern_ok (upd_proc p (\<lambda>pr. pr\<lparr>event := ev\<rparr>) k)"
proof -
  let ?k = "upd_proc p (\<lambda>pr. pr\<lparr>event := ev\<rparr>) k"
  have sr: "same_rq k ?k" by (rule same_rq_upd) simp
  show ?thesis
    using MLFQ.inv_frame[OF kern_okD(1)[OF assms] sr] sched_inv_frame[OF kern_okD(2)[OF assms] sr]
      wait_ok_frame[OF kern_okD(3)[OF assms]] kern_okD(4)[OF assms] by (simp add: kern_ok_def)
qed

lemma send_event_sleeps: "send_event MLFQ_sched_class p w timer k = go_to_sleep (EventQ p) w WT_EVENT_SEND timer k"
  by (simp add: send_event_def go_to_sleep_def)

text \<open>No wait of the running process is linked: it has left every queue it waited in.\<close>

definition no_wait :: "kern \<Rightarrow> bool" where
  "no_wait k \<longleftrightarrow> (\<forall>q. current k \<notin> set (waiters k q))"

lemma waiters_append:
  assumes "wait_list k' = (wait_list k)(q := wait_list k q @ [w])" "waits k' = (waits k)(w := wt)" "w_proc wt = Some p"
    "\<forall>r. w \<notin> set (wait_list k r)"
  shows "waiters k' r = ((waiters k)(q := waiters k q @ [p])) r"
proof -
  have "map (\<lambda>v. the (w_proc (waits k' v))) (wait_list k r) = map (\<lambda>v. the (w_proc (waits k v))) (wait_list k r)"
    using assms(4) by (intro map_cong) (auto simp: assms(2))
  moreover have "map (\<lambda>v. the (w_proc (waits k' v))) (wait_list k q) = map (\<lambda>v. the (w_proc (waits k v))) (wait_list k q)"
    using assms(4) by (intro map_cong) (auto simp: assms(2))
  ultimately show ?thesis using assms(3) by (simp add: waiters_def assms(1)) (simp add: assms(2))
qed

lemma event_send_ok:
  assumes "kern_ok k" "no_wait k" "\<forall>q. w \<notin> set (wait_list k q)" "current k \<noteq> idleproc k" "t \<notin> set (timer_list k)"
    and "find_proc i k = Some p" "state (procs k p) \<noteq> PROC_ZOMBIE" "p \<notin> {current k, idleproc k, initproc k, kswapd k}"
  shows "\<exists>saved k'. ipc_event_send MLFQ_sched_class i ev timeout t w k = Some (Inr (p, saved), k') \<and> kern_ok k'
    \<and> pending k' p = pending k p @ [(pid (procs k (current k)), ev)] \<and> (\<forall>r. r \<noteq> p \<longrightarrow> pending k' r = pending k r)
    \<and> state (procs k' (current k)) = PROC_SLEEPING \<and> wait_state (procs k' (current k)) = WT_EVENT_SEND
    \<and> (wait_state (procs k p) = WT_EVENT_RECV \<longrightarrow> state (procs k' p) = PROC_RUNNABLE)
    \<and> waits k' w = \<lparr>w_proc = Some (current k), wakeup_flags = WT_INTERRUPTED, wait_queue = EventQ p\<rparr>"
proof -
  obtain k1 where k1: "(if wait_state (procs k p) = WT_EVENT_RECV then wakeup_proc MLFQ_sched_class p k else Some k) = Some k1"
    "kern_ok k1" "keeps k k1" "current k1 = current k" "wait_list k1 = wait_list k" "waits k1 = waits k" "timer_list k1 = timer_list k"
    "wait_state (procs k p) = WT_EVENT_RECV \<longrightarrow> state (procs k1 p) = PROC_RUNNABLE"
  proof (cases "wait_state (procs k p) = WT_EVENT_RECV")
    case True
    obtain k1 where "wakeup_proc MLFQ_sched_class p k = Some k1" "kern_ok k1" "keeps k k1" "current k1 = current k"
      "wait_list k1 = wait_list k" "waits k1 = waits k" "timer_list k1 = timer_list k"
      "\<forall>r. state (procs k1 r) = (if r = p then PROC_RUNNABLE else state (procs k r))"
      by (rule wakeup_kern_ok[OF assms(1,7)]) blast
    then show ?thesis using that[of k1] True by simp
  next
    case False
    then show ?thesis using that[of k] assms(1) by simp
  qed
  define k2 where "k2 = upd_proc (current k1) (\<lambda>pr. pr\<lparr>event := ev\<rparr>) k1"
  obtain timer saved k3 where k3: "ipc_timer_init timeout t k2 = (timer, saved, k3)" by (cases "ipc_timer_init timeout t k2")
  have ok2: "kern_ok k2" "t \<notin> set (timer_list k2)" using upd_event_ok[OF k1(2)] assms(5) k1(7) by (simp_all add: k2_def)
  note t = timer_init_ok[OF ok2 k3]
  have f3: "wait_list k3 = wait_list k" "waits k3 = waits k" "current k3 = current k" "idleproc k3 = idleproc k"
    using t(2,5-7) k1(3-6) by (simp_all add: k2_def keeps_def)
  obtain k4 where k4: "go_to_sleep (EventQ p) w WT_EVENT_SEND timer k3 = Some k4" "kern_ok k4" "keeps k3 k4"
    "wait_list k4 = (wait_list k3)(EventQ p := wait_list k3 (EventQ p) @ [w])"
    "waits k4 = (waits k3)(w := \<lparr>w_proc = Some (current k3), wakeup_flags = WT_INTERRUPTED, wait_queue = EventQ p\<rparr>)"
    "\<forall>r. state (procs k4 r) = (if r = current k3 then PROC_SLEEPING else state (procs k3 r))"
    "\<forall>r. wait_state (procs k4 r) = (if r = current k3 then WT_EVENT_SEND else wait_state (procs k3 r))"
    "current k4 \<noteq> current k3"
    by (rule go_to_sleep_ok[OF t(1) _ _ t(3), of w "EventQ p" WT_EVENT_SEND]) (use assms(3,4) f3 in auto)
  have w3: "waiters k3 = waiters k" by (simp add: fun_eq_iff waiters_def f3)
  have ids: "pid (procs k4 r) = pid (procs k r)" "event (procs k4 r) = (if r = current k then ev else event (procs k r))" for r
    using k4(3) t(4) k1(3,4) by (auto simp: keeps_def k2_def)
  have wt: "waiters k4 r = ((waiters k)(EventQ p := waiters k (EventQ p) @ [current k])) r" for r
    using waiters_append[OF k4(4,5)] assms(3) f3 w3 by simp
  have nc: "current k \<notin> set (waiters k (EventQ r))" for r using assms(2) by (simp add: no_wait_def)
  have pend: "map (\<lambda>q. (pid (procs k4 q), event (procs k4 q))) (waiters k (EventQ r)) = pending k r" for r
    unfolding pending_def using nc[of r] by (intro map_cong) (auto simp: ids)
  have "pending k4 p = pending k p @ [(pid (procs k (current k)), ev)]"
    using pend[of p] by (simp add: pending_def[of k4] wt ids)
  moreover have "pending k4 r = pending k r" if "r \<noteq> p" for r
    using pend[of r] that by (simp add: pending_def[of k4] wt)
  moreover have "ipc_event_send MLFQ_sched_class i ev timeout t w k = Some (Inr (p, saved), k4)"
    using assms(6-8) k1(1) k3 k4(1) by (simp add: ipc_event_send_def k2_def send_event_sleeps Let_def)
  moreover have "wait_state (procs k p) = WT_EVENT_RECV \<longrightarrow> state (procs k4 p) = PROC_RUNNABLE"
    using k4(6) t(4) k1(4,8) f3(3) assms(8) by (simp add: k2_def)
  ultimately show ?thesis using k4(2,5-7) f3(3) by auto
qed

lemma take_event_ok:
  assumes "kern_ok k" "\<forall>q \<in> set (waiters k (EventQ (current k))). state (procs k q) \<noteq> PROC_ZOMBIE"
  shows "\<exists>k'. take_event MLFQ_sched_class k = Some (case pending k (current k) of [] \<Rightarrow> None | e # _ \<Rightarrow> Some e, k') \<and> kern_ok k' \<and> keeps k k'
    \<and> current k' = current k \<and> pending k' (current k) = tl (pending k (current k)) \<and> (\<forall>r. r \<noteq> current k \<longrightarrow> pending k' r = pending k r)
    \<and> (case wait_list k (EventQ (current k)) of [] \<Rightarrow> k' = k
       | w # _ \<Rightarrow> state (procs k' (hd (waiters k (EventQ (current k))))) = PROC_RUNNABLE \<and> wakeup_flags (waits k' w) = WT_EVENT_SEND
           \<and> wait_queue (waits k' w) = EventQ (current k))"
proof (cases "wait_list k (EventQ (current k))")
  case Nil
  then show ?thesis using assms(1) by (simp add: take_event_def wait_queue_first_def pending_def waiters_def)
next
  case (Cons w ws)
  obtain p where p: "w_proc (waits k w) = Some p" and wq: "wait_queue (waits k w) = EventQ (current k)"
    using wait_okD[OF kern_okD(3)[OF assms(1)], of w "EventQ (current k)"] Cons by auto
  have h: "hd (waiters k (EventQ (current k))) = p" by (simp add: waiters_def Cons p)
  have "state (procs k (hd (waiters k (EventQ (current k))))) \<noteq> PROC_ZOMBIE" using assms(2) by (simp add: waiters_def Cons)
  then obtain k' where k': "wakeup_wait MLFQ_sched_class (EventQ (current k)) w WT_EVENT_SEND True k = Some k'" "kern_ok k'" "keeps k k'"
    "current k' = current k" "waits k' = (waits k)(w := (waits k w)\<lparr>wakeup_flags := WT_EVENT_SEND\<rparr>)"
    "\<forall>r. state (procs k' r) = (if r = hd (waiters k (EventQ (current k))) then PROC_RUNNABLE else state (procs k r))"
    "\<forall>r. waiters k' r = ((waiters k)(EventQ (current k) := tl (waiters k (EventQ (current k))))) r"
    by (rule wakeup_wait_ok[OF assms(1) Cons, of WT_EVENT_SEND]) blast
  have pe: "pending k' r = map (\<lambda>q. (pid (procs k q), event (procs k q))) (waiters k' (EventQ r))" for r
    using k'(3) by (simp add: pending_def keeps_def)
  have "pending k' r = pending k r" if "r \<noteq> current k" for r using that k'(7) by (simp add: pe) (simp add: pending_def)
  moreover have "pending k' (current k) = tl (pending k (current k))" using k'(7) by (simp add: pe) (simp add: pending_def map_tl)
  moreover have "pending k (current k) = (pid (procs k p), event (procs k p)) # tl (pending k (current k))"
    by (simp add: pending_def waiters_def Cons p)
  moreover have "take_event MLFQ_sched_class k = Some (Some (pid (procs k p), event (procs k p)), k')"
    using k'(1) p Cons by (simp add: take_event_def wait_queue_first_def)
  ultimately show ?thesis using k'(2-6) Cons h wq by (auto split: list.split)
qed

lemma sleep_current_ok:
  assumes "kern_ok k" "timer_ready timer k" "current k \<noteq> idleproc k"
  shows "\<exists>k'. (do { k \<leftarrow> ipc_add_timer timer (upd_proc (current k) (\<lambda>pr. pr\<lparr>state := PROC_SLEEPING, wait_state := ws\<rparr>) k);
      schedule MLFQ_sched_class k }) = Some k' \<and> kern_ok k' \<and> keeps k k' \<and> waits k' = waits k \<and> wait_list k' = wait_list k
    \<and> state (procs k' (current k)) = PROC_SLEEPING \<and> wait_state (procs k' (current k)) = ws \<and> current k' \<noteq> current k"
proof -
  define k1 where "k1 = upd_proc (current k) (\<lambda>pr. pr\<lparr>state := PROC_SLEEPING, wait_state := ws\<rparr>) k"
  have sr: "same_rq k k1" unfolding k1_def by (rule same_rq_upd) simp
  have "sched_inv k1" using kern_okD(2)[OF assms(1)] same_rq_linked[OF sr] by (auto simp: sched_inv_def k1_def)
  then have ok1: "kern_ok k1" using MLFQ.inv_frame[OF kern_okD(1)[OF assms(1)] sr] wait_ok_frame[OF kern_okD(3)[OF assms(1)]] kern_okD(4)[OF assms(1)]
    by (simp add: kern_ok_def k1_def)
  have kp1: "keeps k k1" by (simp add: keeps_def k1_def)
  have tr: "timer_ready timer k1" using assms(2) by (simp add: timer_ready_def k1_def cong: option.case_cong)
  obtain tm ts where t: "ipc_add_timer timer k1 = Some (k1\<lparr>timers := tm, timer_list := ts\<rparr>)" "distinct ts"
    using add_timer_fields[OF ok1 tr] by blast
  define k2 where "k2 = k1\<lparr>timers := tm, timer_list := ts\<rparr>"
  note f = timers_frame[OF ok1 t(2), of tm, folded k2_def]
  obtain k3 where k3: "schedule MLFQ_sched_class k2 = Some k3" "kern_ok k3" "keeps k2 k3"
    "\<forall>p. state (procs k3 p) = state (procs k2 p) \<and> wait_state (procs k3 p) = wait_state (procs k2 p)"
    "wait_list k3 = wait_list k2" "waits k3 = waits k2"
    "if current k3 = idleproc k2 then \<forall>p. state (procs k2 p) = PROC_RUNNABLE \<longrightarrow> p = idleproc k2
       else state (procs k2 (current k3)) = PROC_RUNNABLE"
    by (rule schedule_kern_ok[OF f(1)]) blast
  have kp: "keeps k k3" using kp1 f(2) k3(3) keeps_trans by blast
  have g: "waits k2 = waits k" "wait_list k2 = wait_list k" "idleproc k2 = idleproc k"
    "state (procs k2 (current k)) = PROC_SLEEPING" "wait_state (procs k2 (current k)) = ws"
    by (simp_all add: k2_def k1_def)
  have "current k3 \<noteq> current k" using k3(7) g assms(3) by (auto split: if_splits)
  then show ?thesis unfolding k1_def[symmetric] using t(1) k3 kp g by (auto simp: k2_def)
qed

lemma send_resume_ok:
  assumes "kern_ok k" "wait_queue (waits k w) = EventQ p"
  shows "\<exists>k'. ipc_event_send_resume p saved timeout t w k =
      (if wakeup_flags (waits k w) = WT_EVENT_SEND then Some (0, k')
       else if wakeup_flags (waits k w) = 0 then Some (0, k')
       else if wakeup_flags (waits k w) = WT_INTERRUPTED then Some (ipc_check_timeout timeout saved k, k') else None)
    \<and> kern_ok k' \<and> (\<forall>q. w \<notin> set (wait_list k' q)) \<and> procs k' = procs k"
proof -
  obtain k' where k': "leave_queue (EventQ p) w (if timeout \<noteq> 0 then Some t else None) k = Some k'" "kern_ok k'" "keeps k k'"
    "current k' = current k" "procs k' = procs k" "waits k' = waits k" "\<forall>r. w \<notin> set (wait_list k' r)"
    by (rule leave_queue_ok[OF assms, of "if timeout \<noteq> 0 then Some t else None"]) blast
  have "ipc_check_timeout timeout saved k' = ipc_check_timeout timeout saved k"
    using k'(3) by (simp add: ipc_check_timeout_def keeps_def)
  then show ?thesis using k'
    by (intro exI[of _ k']) (simp add: ipc_event_send_resume_def send_event_resume_def leave_queue_def Let_def kassert_def)
qed

section \<open>Properties\<close>

text \<open>C30: \<open>ipc_event_send\<close> on every branch.  No such process, a zombie, itself or one of the three
  kernel processes: \<open>-E_INVAL\<close>, nothing changes.  Otherwise the event is queued behind those already
  pending for the receiver, a receiver that waits for events is woken, the sender is asleep when
  another process runs, no other pending event is disturbed, and the kernel stays consistent.\<close>

theorem ipc_event_send_correct:
  assumes "kern_ok k" "no_wait k" "\<forall>q. w \<notin> set (wait_list k q)" "current k \<noteq> idleproc k" "t \<notin> set (timer_list k)"
  shows "case find_proc i k of
      None \<Rightarrow> ipc_event_send MLFQ_sched_class i ev timeout t w k = Some (Inl (- E_INVAL), k)
    | Some p \<Rightarrow>
        if state (procs k p) = PROC_ZOMBIE \<or> p \<in> {current k, idleproc k, initproc k, kswapd k}
        then ipc_event_send MLFQ_sched_class i ev timeout t w k = Some (Inl (- E_INVAL), k)
        else \<exists>saved k'. ipc_event_send MLFQ_sched_class i ev timeout t w k = Some (Inr (p, saved), k') \<and> kern_ok k'
          \<and> pending k' p = pending k p @ [(pid (procs k (current k)), ev)] \<and> (\<forall>r. r \<noteq> p \<longrightarrow> pending k' r = pending k r)
          \<and> state (procs k' (current k)) = PROC_SLEEPING \<and> wait_state (procs k' (current k)) = WT_EVENT_SEND
          \<and> (wait_state (procs k p) = WT_EVENT_RECV \<longrightarrow> state (procs k' p) = PROC_RUNNABLE)"
proof (cases "find_proc i k")
  case None
  then show ?thesis by (simp add: ipc_event_send_def)
next
  case (Some p)
  show ?thesis
  proof (cases "state (procs k p) = PROC_ZOMBIE \<or> p \<in> {current k, idleproc k, initproc k, kswapd k}")
    case True
    then show ?thesis using Some by (auto simp: ipc_event_send_def)
  next
    case False
    then show ?thesis using event_send_ok[OF assms Some, of ev timeout] Some by (simp add: Let_def) blast
  qed
qed

text \<open>Process 3 waits to send event 42 to the running process 1; process 2 is runnable.\<close>

definition demo_event :: kern where
  "demo_event = demo_kern\<lparr>
     procs := (procs demo_kern)(3 := (procs demo_kern 3)\<lparr>wait_state := WT_EVENT_SEND, event := 42\<rparr>),
     hash_list := (\<lambda>_. [])(pid_hashfn 2 := [2]),
     wait_list := (\<lambda>_. [])(EventQ 1 := [5]),
     waits := (\<lambda>_. \<lparr>w_proc = Some 3, wakeup_flags = WT_INTERRUPTED, wait_queue = EventQ 1\<rparr>)\<rparr>"

lemma demo_event_ok: "kern_ok demo_event" "no_wait demo_event" "waiters demo_event (EventQ 1) = [3]"
  "pending demo_event 1 = [(3, 42)]" "pending demo_event 2 = []" "find_proc 2 demo_event = Some 2" "current demo_event = 1"
  "idleproc demo_event = 0" "initproc demo_event = 0" "kswapd demo_event = 0" "state (procs demo_event 2) = PROC_RUNNABLE"
  "state (procs demo_event 3) = PROC_SLEEPING" "pid (procs demo_event 1) = 1" "wait_list demo_event (EventQ 1) = [5]"
  "8 \<notin> set (timer_list demo_event)" "\<forall>q. 6 \<notin> set (wait_list demo_event q)"
proof -
  have sr: "same_rq demo_kern demo_event" by (simp add: same_rq_def demo_event_def)
  have s: "sched_inv demo_event" by (rule sched_inv_frame[OF demo_kern_ok(3) sr]) (simp_all add: demo_event_def)
  have m: "mlfq_ok demo_event" by (rule MLFQ.inv_frame[OF demo_kern_ok(1) sr])
  have "wait_ok demo_event" "distinct (timer_list demo_event)" by (auto simp: demo_event_def demo_kern_def wait_ok_def)
  with s m show "kern_ok demo_event" by (simp add: kern_ok_def)
  show "no_wait demo_event" "waiters demo_event (EventQ 1) = [3]" "pending demo_event 1 = [(3, 42)]" "pending demo_event 2 = []"
    "find_proc 2 demo_event = Some 2" "current demo_event = 1"
    "idleproc demo_event = 0" "initproc demo_event = 0" "kswapd demo_event = 0" "state (procs demo_event 2) = PROC_RUNNABLE"
    "state (procs demo_event 3) = PROC_SLEEPING" "pid (procs demo_event 1) = 1" "wait_list demo_event (EventQ 1) = [5]"
    "8 \<notin> set (timer_list demo_event)" "\<forall>q. 6 \<notin> set (wait_list demo_event q)"
    by (auto simp: demo_event_def demo_kern_def kern0_def new_proc_def no_wait_def waiters_def pending_def find_proc_def)
qed

theorem ipc_event_send_correct_witness:
  "\<exists>saved k'. ipc_event_send MLFQ_sched_class 2 9 0 8 6 demo_event = Some (Inr (2, saved), k')
    \<and> pending k' 2 = [(1, 9)] \<and> pending k' 1 = [(3, 42)]"
  using ipc_event_send_correct[OF demo_event_ok(1,2,16) _ demo_event_ok(15), of 2 9 0] demo_event_ok(4-13) by fastforce

text \<open>C31: \<open>recv_event\<close> hands over pending events in order.  With none pending the receiver sleeps;
  otherwise it gets the pid and the event of the first sender, that sender is runnable, and when it
  runs again its \<open>ipc_event_send\<close> reports success, whatever happened in between.\<close>

theorem recv_event_correct:
  assumes "kern_ok k" "timer_ready timer k" "current k \<noteq> idleproc k"
    and "\<forall>q \<in> set (waiters k (EventQ (current k))). state (procs k q) \<noteq> PROC_ZOMBIE"
  shows "\<exists>k'. recv_event MLFQ_sched_class timer k
      = Some (case pending k (current k) of [] \<Rightarrow> Inr () | e # _ \<Rightarrow> Inl (Some e), k') \<and> kern_ok k'
    \<and> pending k' (current k) = tl (pending k (current k)) \<and> (\<forall>r. r \<noteq> current k \<longrightarrow> pending k' r = pending k r)
    \<and> (case wait_list k (EventQ (current k)) of
         [] \<Rightarrow> state (procs k' (current k)) = PROC_SLEEPING \<and> wait_state (procs k' (current k)) = WT_EVENT_RECV \<and> current k' \<noteq> current k
       | w # _ \<Rightarrow> current k' = current k \<and> state (procs k' (hd (waiters k (EventQ (current k))))) = PROC_RUNNABLE
           \<and> (\<forall>k2. kern_ok k2 \<and> waits k2 w = waits k' w \<longrightarrow>
                (\<exists>k3. ipc_event_send_resume (current k) saved timeout t w k2 = Some (0, k3) \<and> kern_ok k3)))"
proof (cases "wait_list k (EventQ (current k))")
  case Nil
  then have n: "pending k (current k) = []" by (simp add: pending_def waiters_def)
  obtain k' where k': "(do { k \<leftarrow> ipc_add_timer timer (upd_proc (current k) (\<lambda>pr. pr\<lparr>state := PROC_SLEEPING, wait_state := WT_EVENT_RECV\<rparr>) k);
      schedule MLFQ_sched_class k }) = Some k'" "kern_ok k'" "keeps k k'" "waits k' = waits k" "wait_list k' = wait_list k"
    "state (procs k' (current k)) = PROC_SLEEPING" "wait_state (procs k' (current k)) = WT_EVENT_RECV" "current k' \<noteq> current k"
    using sleep_current_ok[OF assms(1-3), of WT_EVENT_RECV] by blast
  have "pending k' r = pending k r" for r using k'(3-5) by (intro pending_keeps) (simp_all add: waiters_def)
  moreover have "recv_event MLFQ_sched_class timer k = Some (Inr (), k')"
    using k'(1) Nil by (simp add: recv_event_def wait_queue_empty_def kmonad)
  ultimately show ?thesis using k' n Nil by auto
next
  case (Cons w ws)
  then have ne: "\<not> wait_queue_empty (EventQ (current k)) k" "pending k (current k) \<noteq> []" by (simp_all add: wait_queue_empty_def pending_def waiters_def)
  obtain k' where k': "take_event MLFQ_sched_class k = Some (case pending k (current k) of [] \<Rightarrow> None | e # _ \<Rightarrow> Some e, k')" "kern_ok k'"
    "keeps k k'" "current k' = current k" "pending k' (current k) = tl (pending k (current k))" "\<forall>r. r \<noteq> current k \<longrightarrow> pending k' r = pending k r"
    "state (procs k' (hd (waiters k (EventQ (current k))))) = PROC_RUNNABLE" "wakeup_flags (waits k' w) = WT_EVENT_SEND"
    "wait_queue (waits k' w) = EventQ (current k)"
    using take_event_ok[OF assms(1,4)] Cons by auto
  have "\<exists>k3. ipc_event_send_resume (current k) saved timeout t w k2 = Some (0, k3) \<and> kern_ok k3" if "kern_ok k2" "waits k2 w = waits k' w" for k2
    using send_resume_ok[OF that(1), of w "current k" saved timeout t] that(2) k'(8,9) by auto
  then show ?thesis using k' ne Cons by (auto simp: recv_event_def split: list.splits)
qed

theorem recv_event_correct_witness:
  "\<exists>k'. recv_event MLFQ_sched_class None demo_event = Some (Inl (Some (3, 42)), k') \<and> pending k' 1 = []
    \<and> state (procs k' 3) = PROC_RUNNABLE"
proof -
  have "timer_ready None demo_event" by (simp add: timer_ready_def)
  from recv_event_correct[OF demo_event_ok(1) this] show ?thesis using demo_event_ok(3-16) by fastforce
qed

end
