(* ===== verification/Mbox.thy ===== *)
theory Mbox
  imports Event
begin

text \<open>
  Message boxes: \<open>kern/sync/mbox.c\<close>.  A box is named by its number \<open>id = i * MBOX_P_PAGE + j\<close>, its
  place \<open>j\<close> in the page \<open>mbox_map[i]\<close>; the list of messages of a box, and the list of free boxes, are
  HOL lists of the addresses of their elements.  A message is a chain of chunks of at most
  \<open>MAX_MSG_DATALEN\<close> bytes in memory that \<open>kmalloc\<close> returned (\<open>heap\<close> of \<open>vm\<close>); \<open>kfreed\<close> records the
  calls of \<open>kfree\<close>, the last one first.  A chunk with its header takes at most 512 bytes, so the sizes
  that \<open>load_msg\<close> asks for are always served from a slab cache, or fail, and are left out.  Bytes of user memory that a call reads are an argument, those
  it writes are part of the result.  Blocking calls are split at \<open>schedule\<close>.  The number of messages is
  bounded by the memory they occupy, far below \<open>2^32\<close>.
\<close>

section \<open>The state\<close>

abbreviation (input) "MAX_MBOX_NUM \<equiv> (8192 :: int)"
abbreviation (input) "MBOX_P_PAGE \<equiv> (93 :: nat)"
abbreviation (input) "MAX_MBOX_PAGES \<equiv> (89 :: nat)"
abbreviation (input) "MAX_MSG_DATALEN \<equiv> (492 :: nat)"
abbreviation (input) "MAX_MSG_SLOTS \<equiv> (0x1000 :: nat)"
abbreviation (input) "MAX_MSG_BYTES \<equiv> (0x10000 :: nat)"

datatype mbox_status = CLOSED | OPENED | CLOSING

record msg_seg =
  s_next :: "nat option"
  s_data :: "nat \<Rightarrow> u8"

record msg_msg =
  m_pid :: int
  m_bytes :: nat
  m_next :: "nat option"
  m_data :: "nat \<Rightarrow> u8"

record msg_mbox =
  mb_id :: int
  inuse :: int
  mb_state :: mbox_status
  max_slots :: nat
  slots :: nat
  mb_msgs :: "nat list"

record mbox_sys = ipc +
  mbox_map :: "nat \<Rightarrow> nat option"
  boxes :: "nat \<Rightarrow> msg_mbox"
  free_mbox_list :: "nat list"
  msgs :: "nat \<Rightarrow> msg_msg"
  segs :: "nat \<Rightarrow> msg_seg"
  kfreed :: "nat list"

definition upd_box :: "nat \<Rightarrow> (msg_mbox \<Rightarrow> msg_mbox) \<Rightarrow> mbox_sys \<Rightarrow> mbox_sys" where
  "upd_box b f s = s\<lparr>boxes := (boxes s)(b := f (boxes s b))\<rparr>"

definition mb_kfree :: "nat \<Rightarrow> mbox_sys \<Rightarrow> mbox_sys" where
  "mb_kfree a s = s\<lparr>kfreed := a # kfreed s\<rparr>"

definition mb_kmalloc :: "mbox_sys \<Rightarrow> nat option \<times> mbox_sys" where
  "mb_kmalloc s = (let (a, v) = kmalloc (vs s) in (a, s\<lparr>vs := v\<rparr>))"

definition on_kern :: "(kern \<Rightarrow> kern option) \<Rightarrow> mbox_sys \<Rightarrow> mbox_sys option" where
  "on_kern f s = do { k \<leftarrow> f (kn s); Some (s\<lparr>kn := k\<rparr>) }"

definition mb_user_check :: "u32 \<Rightarrow> u32 \<Rightarrow> bool \<Rightarrow> mbox_sys \<Rightarrow> (bool \<times> mbox_sys) option" where
  "mb_user_check a len wr s = do {
     (ok, v) \<leftarrow> user_mem_check (mm (procs (kn s) (current (kn s)))) a len wr (vs s);
     Some (ok, s\<lparr>vs := v\<rparr>)
   }"

section \<open>Boxes\<close>

definition mbox_init :: "u32 \<Rightarrow> mbox_sys \<Rightarrow> mbox_sys" where
  "mbox_init sem_mbox_map s = s\<lparr>mbox_map := (\<lambda>i. if i < MAX_MBOX_PAGES then None else mbox_map s i),
     kn := sem_init sem_mbox_map 1 (kn s), free_mbox_list := []\<rparr>"

definition get_mbox :: "int \<Rightarrow> mbox_sys \<Rightarrow> nat option" where
  "get_mbox i s =
    (if i \<ge> 0 \<and> i < MAX_MBOX_NUM \<and> mbox_map s (nat i div MBOX_P_PAGE) \<noteq> None \<and> mb_state (boxes s (nat i)) = OPENED
     then Some (nat i) else None)"

definition mbox_free :: "nat \<Rightarrow> mbox_sys \<Rightarrow> mbox_sys option" where
  "mbox_free b s = do {
     kassert (mb_state (boxes s b) = CLOSING \<and> inuse (boxes s b) = 0);
     kassert (mb_msgs (boxes s b) = []);
     kassert (wait_queue_empty (MboxSendQ b) (kn s));
     kassert (wait_queue_empty (MboxRecvQ b) (kn s));
     let s = upd_box b (\<lambda>mb. mb\<lparr>mb_state := CLOSED, max_slots := 0, slots := 0\<rparr>) s;
     Some (s\<lparr>free_mbox_list := free_mbox_list s @ [b]\<rparr>)
   }"

definition add_msg :: "sched_class \<Rightarrow> nat \<Rightarrow> nat \<Rightarrow> bool \<Rightarrow> mbox_sys \<Rightarrow> mbox_sys option" where
  "add_msg cls b msg at_end s = do {
     kassert (mb_state (boxes s b) = OPENED);
     let s = upd_box b (\<lambda>mb. mb\<lparr>slots := slots mb + 1,
       mb_msgs := (if at_end then mb_msgs mb @ [msg] else msg # mb_msgs mb)\<rparr>) s;
     on_kern (wakeup_first cls (MboxRecvQ b) WT_MBOX_RECV True) s
   }"

text \<open>With an error the caller does not look at the message.\<close>

definition pick_msg :: "sched_class \<Rightarrow> nat \<Rightarrow> nat \<Rightarrow> mbox_sys \<Rightarrow> ((int \<times> nat) \<times> mbox_sys) option" where
  "pick_msg cls b max_bytes s = do {
     kassert (mb_state (boxes s b) = OPENED \<and> slots (boxes s b) > 0);
     kassert (mb_msgs (boxes s b) \<noteq> []);
     let msg = hd (mb_msgs (boxes s b));
     (if max_bytes < m_bytes (msgs s msg) then Some ((- E_TOO_BIG, msg), s)
      else do {
        let s = upd_box b (\<lambda>mb. mb\<lparr>slots := slots mb - 1, mb_msgs := remove1 msg (mb_msgs mb)\<rparr>) s;
        s \<leftarrow> on_kern (wakeup_first cls (MboxSendQ b) WT_MBOX_SEND True) s;
        Some ((0, msg), s)
      })
   }"

text \<open>\<open>new_mbox\<close> up to \<open>alloc_page\<close>, which runs with interrupts on: \<open>Inl\<close> of the index of the page to
  set up; \<open>Inr ()\<close> if no page is needed.  \<open>None\<close> inside is the exit with \<open>NULL\<close>.\<close>

definition new_mbox_need :: "mbox_sys \<Rightarrow> (nat + unit) option" where
  "new_mbox_need s =
    (if free_mbox_list s = [] then
       (case find (\<lambda>i. mbox_map s i = None) [0..<MAX_MBOX_PAGES] of None \<Rightarrow> None | Some i \<Rightarrow> Some (Inl i))
     else Some (Inr ()))"

text \<open>The loop that sets up the boxes of a new page.\<close>

definition fresh_box :: "nat \<Rightarrow> mbox_sys \<Rightarrow> mbox_sys" where
  "fresh_box b s =
    (upd_box b (\<lambda>_. \<lparr>mb_id = int b, inuse = 0, mb_state = CLOSED, max_slots = 0, slots = 0, mb_msgs = []\<rparr>) s)
      \<lparr>kn := wait_queue_init (MboxRecvQ b) (wait_queue_init (MboxSendQ b) (kn s)),
       free_mbox_list := free_mbox_list s @ [b]\<rparr>"

definition set_up_page :: "nat \<Rightarrow> nat \<Rightarrow> mbox_sys \<Rightarrow> mbox_sys" where
  "set_up_page i page s =
     fold fresh_box [i * MBOX_P_PAGE..<i * MBOX_P_PAGE + MBOX_P_PAGE] (s\<lparr>mbox_map := (mbox_map s)(i \<mapsto> page)\<rparr>)"

definition take_free_box :: "nat \<Rightarrow> mbox_sys \<Rightarrow> (nat option \<times> mbox_sys) option" where
  "take_free_box slots_max s = do {
     kassert (free_mbox_list s \<noteq> []);
     let b = hd (free_mbox_list s);
     Some (Some b, (upd_box b (\<lambda>mb. mb\<lparr>mb_state := OPENED, max_slots := slots_max, mb_msgs := []\<rparr>) s)
       \<lparr>free_mbox_list := tl (free_mbox_list s)\<rparr>)
   }"

definition new_mbox :: "nat \<Rightarrow> mbox_sys \<Rightarrow> (nat option \<times> mbox_sys) option" where
  "new_mbox slots_max s =
    (case new_mbox_need s of
       None \<Rightarrow> Some (None, s)
     | Some (Inr _) \<Rightarrow> take_free_box slots_max s
     | Some (Inl i) \<Rightarrow> do {
         (page, v) \<leftarrow> on_mem alloc_page (vs s);
         let s = s\<lparr>vs := v\<rparr>;
         (case page of
            Some p \<Rightarrow> take_free_box slots_max (set_up_page i p s)
          | None \<Rightarrow> if free_mbox_list s = [] then Some (None, s) else take_free_box slots_max s)
       })"

text \<open>\<open>ipc_mbox_init\<close> once it holds \<open>sem_mbox_map\<close>.\<close>

definition ipc_mbox_init_locked :: "sched_class \<Rightarrow> u32 \<Rightarrow> nat \<Rightarrow> mbox_sys \<Rightarrow> (int \<times> mbox_sys) option" where
  "ipc_mbox_init_locked cls sem_mbox_map slots_max s = do {
     (mbox, s) \<leftarrow> new_mbox slots_max s;
     s \<leftarrow> on_kern (up cls sem_mbox_map) s;
     Some (case mbox of None \<Rightarrow> - E_NO_MEM | Some b \<Rightarrow> mb_id (boxes s b), s)
   }"

definition mbox_slots_ok :: "nat \<Rightarrow> bool" where
  "mbox_slots_ok slots_max \<longleftrightarrow> \<not> (slots_max = 0 \<or> slots_max > MAX_MSG_SLOTS)"

text \<open>The whole call; \<open>None\<close> as the result if it sleeps in \<open>down\<close>.\<close>

definition ipc_mbox_init :: "sched_class \<Rightarrow> u32 \<Rightarrow> nat \<Rightarrow> nat \<Rightarrow> mbox_sys \<Rightarrow> (int option \<times> mbox_sys) option" where
  "ipc_mbox_init cls sem_mbox_map slots_max w s =
    (if \<not> mbox_slots_ok slots_max then Some (Some (- E_INVAL), s)
     else do {
       (now, k) \<leftarrow> down cls sem_mbox_map w (kn s);
       let s = s\<lparr>kn := k\<rparr>;
       (if now then do { (ret, s) \<leftarrow> ipc_mbox_init_locked cls sem_mbox_map slots_max s; Some (Some ret, s) }
        else Some (None, s))
     })"

definition ipc_mbox_init_resume :: "sched_class \<Rightarrow> u32 \<Rightarrow> nat \<Rightarrow> nat \<Rightarrow> mbox_sys \<Rightarrow> (int \<times> mbox_sys) option" where
  "ipc_mbox_init_resume cls sem_mbox_map slots_max w s = do {
     s \<leftarrow> on_kern (down_resume sem_mbox_map w) s;
     ipc_mbox_init_locked cls sem_mbox_map slots_max s
   }"

section \<open>Messages\<close>

partial_function (option) free_seg :: "nat \<Rightarrow> mbox_sys \<Rightarrow> mbox_sys option" where
  "free_seg sg s = do {
     s \<leftarrow> (case s_next (segs s sg) of None \<Rightarrow> Some s | Some n \<Rightarrow> free_seg n s);
     Some (mb_kfree sg s)
   }"

definition free_msg :: "nat \<Rightarrow> mbox_sys \<Rightarrow> mbox_sys option" where
  "free_msg msg s = do {
     s \<leftarrow> (case m_next (msgs s msg) of None \<Rightarrow> Some s | Some n \<Rightarrow> free_seg n s);
     Some (mb_kfree msg s)
   }"

text \<open>\<open>*segp = p\<close>, where \<open>segp\<close> points to the field \<open>next\<close> of the message or of a segment.\<close>

definition set_next :: "nat \<Rightarrow> nat option \<Rightarrow> nat option \<Rightarrow> mbox_sys \<Rightarrow> mbox_sys" where
  "set_next msg segp p s =
    (case segp of
       None \<Rightarrow> s\<lparr>msgs := (msgs s)(msg := (msgs s msg)\<lparr>m_next := p\<rparr>)\<rparr>
     | Some a \<Rightarrow> s\<lparr>segs := (segs s)(a := (segs s a)\<lparr>s_next := p\<rparr>)\<rparr>)"

text \<open>The loop from its second chunk on: \<open>src\<close> is the rest of the source as a function from offsets to
  bytes.\<close>

function load_loop :: "nat \<Rightarrow> nat option \<Rightarrow> (nat \<Rightarrow> u8) \<Rightarrow> nat \<Rightarrow> mbox_sys \<Rightarrow> bool \<times> mbox_sys" where
  "load_loop msg segp src len s =
    (if len > 0 then
       (let alen = (if len > MAX_MSG_DATALEN then MAX_MSG_DATALEN else len);
            (sg, s) = mb_kmalloc s
        in case sg of
             None \<Rightarrow> (False, s)
           | Some a \<Rightarrow>
               (let s = set_next msg segp (Some a) s;
                    s = s\<lparr>segs := (segs s)(a := (segs s a)\<lparr>s_data := (\<lambda>i. if i < alen then src i else s_data (segs s a) i)\<rparr>)\<rparr>;
                    s = set_next msg (Some a) None s
                in load_loop msg (Some a) (\<lambda>i. src (i + alen)) (len - alen) s))
     else (True, s))"
  by pat_completeness auto
termination by (relation "measure (\<lambda>(_, _, _, len, _). len)") (auto split: if_splits)

declare load_loop.simps [simp del]

definition load_msg :: "(nat \<Rightarrow> u8) \<Rightarrow> nat \<Rightarrow> mbox_sys \<Rightarrow> (nat option \<times> mbox_sys) option" where
  "load_msg src len s =
    (let alen = (if len > MAX_MSG_DATALEN then MAX_MSG_DATALEN else len);
         (msg, s) = mb_kmalloc s
     in case msg of
          None \<Rightarrow> Some (None, s)
        | Some m \<Rightarrow>
            (let s = s\<lparr>msgs := (msgs s)(m := (msgs s m)\<lparr>m_data := (\<lambda>i. if i < alen then src i else m_data (msgs s m) i)\<rparr>)\<rparr>;
                 s = set_next m None None s;
                 (ok, s) = load_loop m None (\<lambda>i. src (i + alen)) (len - alen) s
             in if ok then
                  Some (Some m, s\<lparr>msgs := (msgs s)(m := (msgs s m)\<lparr>m_bytes := len, m_pid := pid (procs (kn s) (current (kn s)))\<rparr>)\<rparr>)
                else do { s \<leftarrow> free_msg m s; Some (None, s) }))"

text \<open>The bytes that \<open>store_msg\<close> copies, in the order of the destination.\<close>

definition chunk :: "(nat \<Rightarrow> u8) \<Rightarrow> nat \<Rightarrow> u8 list" where
  "chunk f n = map f [0..<n]"

function store_loop :: "nat option \<Rightarrow> nat \<Rightarrow> mbox_sys \<Rightarrow> u8 list option" where
  "store_loop sg len s =
    (if len > 0 then do {
       let alen = (if len > MAX_MSG_DATALEN then MAX_MSG_DATALEN else len);
       a \<leftarrow> sg;
       rest \<leftarrow> store_loop (s_next (segs s a)) (len - alen) s;
       Some (chunk (s_data (segs s a)) alen @ rest)
     }
     else Some [])"
  by pat_completeness auto
termination by (relation "measure (\<lambda>(_, len, _). len)") (auto split: if_splits)

declare store_loop.simps [simp del]

definition store_msg :: "nat \<Rightarrow> mbox_sys \<Rightarrow> u8 list option" where
  "store_msg msg s = do {
     let len = m_bytes (msgs s msg);
     let alen = (if len > MAX_MSG_DATALEN then MAX_MSG_DATALEN else len);
     rest \<leftarrow> store_loop (m_next (msgs s msg)) (len - alen) s;
     Some (chunk (m_data (msgs s msg)) alen @ rest)
   }"

section \<open>Sending\<close>

definition send_out :: "nat \<Rightarrow> u32 \<Rightarrow> mbox_sys \<Rightarrow> (u32 \<times> mbox_sys) option" where
  "send_out b ret s = do {
     let s = upd_box b (\<lambda>mb. mb\<lparr>inuse := inuse mb - 1\<rparr>) s;
     (if mb_state (boxes s b) \<noteq> OPENED then do {
        kassert (ret \<noteq> 0 \<and> mb_state (boxes s b) = CLOSING);
        s \<leftarrow> (if inuse (boxes s b) = 0 then mbox_free b s else Some s);
        Some (ret, s)
      }
      else Some (ret, s))
   }"

text \<open>From the test of the loop on; \<open>None\<close>: the process sleeps.\<close>

definition send_loop :: "sched_class \<Rightarrow> nat \<Rightarrow> nat \<Rightarrow> nat option \<Rightarrow> nat \<Rightarrow> mbox_sys \<Rightarrow> (u32 option \<times> mbox_sys) option" where
  "send_loop cls b msg timer w s =
    (if max_slots (boxes s b) \<le> slots (boxes s b) then do {
       kassert (mb_state (boxes s b) = OPENED);
       s \<leftarrow> on_kern (wait_current_set (MboxSendQ b) w WT_MBOX_SEND) s;
       s \<leftarrow> on_kern (ipc_add_timer timer) s;
       s \<leftarrow> on_kern (schedule cls) s;
       Some (None, s)
     }
     else do {
       kassert (mb_state (boxes s b) = OPENED \<and> max_slots (boxes s b) > slots (boxes s b));
       s \<leftarrow> add_msg cls b msg True s;
       (r, s) \<leftarrow> send_out b 0 s;
       Some (Some r, s)
     })"

definition send_msg :: "sched_class \<Rightarrow> nat \<Rightarrow> nat \<Rightarrow> nat option \<Rightarrow> nat \<Rightarrow> mbox_sys \<Rightarrow> (u32 option \<times> mbox_sys) option" where
  "send_msg cls b msg timer w s = send_loop cls b msg timer w (upd_box b (\<lambda>mb. mb\<lparr>inuse := inuse mb + 1\<rparr>) s)"

definition send_msg_resume :: "sched_class \<Rightarrow> nat \<Rightarrow> nat \<Rightarrow> nat option \<Rightarrow> nat \<Rightarrow> mbox_sys \<Rightarrow> (u32 option \<times> mbox_sys) option" where
  "send_msg_resume cls b msg timer w s = do {
     let s = s\<lparr>kn := ipc_del_timer timer (kn s)\<rparr>;
     s \<leftarrow> on_kern (wait_current_del (MboxSendQ b) w) s;
     let fl = wakeup_flags (waits (kn s) w);
     (if mb_state (boxes s b) \<noteq> OPENED \<or> fl \<noteq> WT_MBOX_SEND then do {
        (r, s) \<leftarrow> send_out b (if fl = WT_MBOX_SEND then WT_INTERRUPTED else fl) s;
        Some (Some r, s)
      }
      else send_loop cls b msg timer w s)
   }"

text \<open>The part of \<open>ipc_mbox_send\<close> after \<open>send_msg\<close>.\<close>

definition mbox_send_finish :: "nat \<Rightarrow> u32 \<Rightarrow> u32 \<Rightarrow> u32 \<Rightarrow> mbox_sys \<Rightarrow> (int \<times> mbox_sys) option" where
  "mbox_send_finish msg timeout saved fl s =
    (if fl = 0 then Some (0, s)
     else do {
       kassert (fl = WT_INTERRUPTED);
       let ret = ipc_check_timeout timeout saved (kn s);
       s \<leftarrow> free_msg msg s;
       Some (ret, s)
     })"

text \<open>\<open>len\<close> and \<open>data\<close> are the fields of the buffer descriptor at \<open>buf\<close>, \<open>src\<close> the bytes it points to.
  The first part gives the result, or what the second part needs: box, message and tick count.\<close>

definition ipc_mbox_send :: "sched_class \<Rightarrow> int \<Rightarrow> u32 \<Rightarrow> u32 \<Rightarrow> u32 \<Rightarrow> (nat \<Rightarrow> u8) \<Rightarrow> u32 \<Rightarrow> nat \<Rightarrow> nat \<Rightarrow> mbox_sys
    \<Rightarrow> ((int + nat \<times> nat \<times> u32) \<times> mbox_sys) option" where
  "ipc_mbox_send cls i buf len data src timeout t w s =
    (if get_mbox i s = None then Some (Inl (- E_INVAL), s)
     else do {
       (ok, s) \<leftarrow> mb_user_check buf 16 False s;
       (ok, s) \<leftarrow> (if ok \<and> 0 < len \<and> unat len \<le> MAX_MSG_BYTES then mb_user_check data len False s else Some (False, s));
       (if \<not> ok then Some (Inl (- E_INVAL), s)
        else do {
          (msg, s) \<leftarrow> load_msg src (unat len) s;
          (case msg of
             None \<Rightarrow> Some (Inl (- E_NO_MEM), s)
           | Some m \<Rightarrow>
               (case get_mbox i s of
                  None \<Rightarrow> do { s \<leftarrow> free_msg m s; Some (Inl (- E_INVAL), s) }
                | Some b \<Rightarrow> do {
                    let (timer, saved, k) = ipc_timer_init timeout t (kn s);
                    (r, s) \<leftarrow> send_msg cls b m timer w (s\<lparr>kn := k\<rparr>);
                    (case r of
                       None \<Rightarrow> Some (Inr (b, m, saved), s)
                     | Some fl \<Rightarrow> do { (ret, s) \<leftarrow> mbox_send_finish m timeout saved fl s; Some (Inl ret, s) })
                  }))
        })
     })"

definition ipc_mbox_send_resume :: "sched_class \<Rightarrow> nat \<Rightarrow> nat \<Rightarrow> u32 \<Rightarrow> u32 \<Rightarrow> nat \<Rightarrow> nat \<Rightarrow> mbox_sys \<Rightarrow> (int option \<times> mbox_sys) option" where
  "ipc_mbox_send_resume cls b m saved timeout t w s = do {
     (r, s) \<leftarrow> send_msg_resume cls b m (if timeout \<noteq> 0 then Some t else None) w s;
     (case r of
        None \<Rightarrow> Some (None, s)
      | Some fl \<Rightarrow> do { (ret, s) \<leftarrow> mbox_send_finish m timeout saved fl s; Some (Some ret, s) })
   }"

section \<open>Receiving\<close>

definition recv_out :: "nat \<Rightarrow> int \<Rightarrow> mbox_sys \<Rightarrow> mbox_sys option" where
  "recv_out b ret s = do {
     let s = upd_box b (\<lambda>mb. mb\<lparr>inuse := inuse mb - 1\<rparr>) s;
     (if mb_state (boxes s b) \<noteq> OPENED then do {
        kassert (ret \<noteq> 0 \<and> mb_state (boxes s b) = CLOSING);
        (if inuse (boxes s b) = 0 then mbox_free b s else Some s)
      }
      else Some s)
   }"

definition recv_loop :: "sched_class \<Rightarrow> nat \<Rightarrow> nat \<Rightarrow> nat option \<Rightarrow> nat \<Rightarrow> mbox_sys \<Rightarrow> ((int \<times> nat) option \<times> mbox_sys) option" where
  "recv_loop cls b max_bytes timer w s =
    (if slots (boxes s b) = 0 then do {
       kassert (mb_state (boxes s b) = OPENED);
       s \<leftarrow> on_kern (wait_current_set (MboxRecvQ b) w WT_MBOX_RECV) s;
       s \<leftarrow> on_kern (ipc_add_timer timer) s;
       s \<leftarrow> on_kern (schedule cls) s;
       Some (None, s)
     }
     else do {
       kassert (mb_state (boxes s b) = OPENED \<and> slots (boxes s b) > 0);
       kassert (mb_msgs (boxes s b) \<noteq> []);
       ((ret, msg), s) \<leftarrow> pick_msg cls b max_bytes s;
       s \<leftarrow> (if ret \<noteq> 0 then on_kern (wakeup_first cls (MboxRecvQ b) WT_MBOX_RECV True) s else Some s);
       s \<leftarrow> recv_out b ret s;
       Some (Some (ret, msg), s)
     })"

definition recv_msg :: "sched_class \<Rightarrow> nat \<Rightarrow> nat \<Rightarrow> nat option \<Rightarrow> nat \<Rightarrow> mbox_sys \<Rightarrow> ((int \<times> nat) option \<times> mbox_sys) option" where
  "recv_msg cls b max_bytes timer w s = recv_loop cls b max_bytes timer w (upd_box b (\<lambda>mb. mb\<lparr>inuse := inuse mb + 1\<rparr>) s)"

text \<open>With the result \<open>-1\<close> the message is not set; the model returns 0 for it.\<close>

definition recv_msg_resume :: "sched_class \<Rightarrow> nat \<Rightarrow> nat \<Rightarrow> nat option \<Rightarrow> nat \<Rightarrow> mbox_sys \<Rightarrow> ((int \<times> nat) option \<times> mbox_sys) option" where
  "recv_msg_resume cls b max_bytes timer w s = do {
     let s = s\<lparr>kn := ipc_del_timer timer (kn s)\<rparr>;
     s \<leftarrow> on_kern (wait_current_del (MboxRecvQ b) w) s;
     (if mb_state (boxes s b) \<noteq> OPENED \<or> wakeup_flags (waits (kn s) w) \<noteq> WT_MBOX_RECV then do {
        s \<leftarrow> recv_out b (- 1) s;
        Some (Some (- 1, 0), s)
      }
      else recv_loop cls b max_bytes timer w s)
   }"

text \<open>What \<open>ipc_mbox_recv\<close> does with the result of \<open>recv_msg\<close>.  The result is the return value and,
  if the descriptor at \<open>buf\<close> was written, its new fields \<open>from\<close> and \<open>len\<close>, with the bytes written to
  \<open>data\<close>.\<close>

type_synonym recv_result = "int \<times> (int \<times> nat) option \<times> u8 list"

definition mbox_recv_finish :: "sched_class \<Rightarrow> int \<Rightarrow> u32 \<Rightarrow> u32 \<Rightarrow> u32 \<Rightarrow> u32 \<Rightarrow> int \<times> nat \<Rightarrow> mbox_sys \<Rightarrow> (recv_result \<times> mbox_sys) option" where
  "mbox_recv_finish cls i buf data timeout saved r s =
    (case r of (ret, msg) \<Rightarrow>
       if ret = - 1 then Some ((ipc_check_timeout timeout saved (kn s), None, []), s)
       else if ret \<noteq> 0 then Some ((ret, None, []), s)
       else do {
         let len = m_bytes (msgs s msg);
         let desc = (m_pid (msgs s msg), len);
         (ok1, s) \<leftarrow> mb_user_check buf 16 True s;
         (ok2, s) \<leftarrow> (if ok1 then mb_user_check data (of_nat len) True s else Some (False, s));
         out \<leftarrow> (if ok2 then store_msg msg s else Some []);
         let res = (if ok2 then 0 else - E_INVAL, if ok1 then Some desc else None, out);
         (case (if ok2 then None else get_mbox i s) of
            Some b \<Rightarrow> do { s \<leftarrow> add_msg cls b msg False s; Some (res, s) }
          | None \<Rightarrow> do { s \<leftarrow> free_msg msg s; Some (res, s) })
       })"

definition ipc_mbox_recv :: "sched_class \<Rightarrow> int \<Rightarrow> u32 \<Rightarrow> u32 \<Rightarrow> u32 \<Rightarrow> u32 \<Rightarrow> nat \<Rightarrow> nat \<Rightarrow> mbox_sys
    \<Rightarrow> ((recv_result + nat \<times> u32) \<times> mbox_sys) option" where
  "ipc_mbox_recv cls i buf bsize data timeout t w s =
    (if get_mbox i s = None then Some (Inl (- E_INVAL, None, []), s)
     else do {
       (ok, s) \<leftarrow> mb_user_check buf 16 True s;
       (ok, s) \<leftarrow> (if ok \<and> bsize > 0 then mb_user_check data bsize True s else Some (False, s));
       (case (if ok then get_mbox i s else None) of
          None \<Rightarrow> Some (Inl (- E_INVAL, None, []), s)
        | Some b \<Rightarrow> do {
            let (timer, saved, k) = ipc_timer_init timeout t (kn s);
            (r, s) \<leftarrow> recv_msg cls b (unat bsize) timer w (s\<lparr>kn := k\<rparr>);
            (case r of
               None \<Rightarrow> Some (Inr (b, saved), s)
             | Some r \<Rightarrow> do { (res, s) \<leftarrow> mbox_recv_finish cls i buf data timeout saved r s; Some (Inl res, s) })
          })
     })"

definition ipc_mbox_recv_resume :: "sched_class \<Rightarrow> int \<Rightarrow> u32 \<Rightarrow> u32 \<Rightarrow> u32 \<Rightarrow> nat \<Rightarrow> u32 \<Rightarrow> u32 \<Rightarrow> nat \<Rightarrow> nat \<Rightarrow> mbox_sys
    \<Rightarrow> (recv_result option \<times> mbox_sys) option" where
  "ipc_mbox_recv_resume cls i buf bsize data b saved timeout t w s = do {
     (r, s) \<leftarrow> recv_msg_resume cls b (unat bsize) (if timeout \<noteq> 0 then Some t else None) w s;
     (case r of
        None \<Rightarrow> Some (None, s)
      | Some r \<Rightarrow> do { (res, s) \<leftarrow> mbox_recv_finish cls i buf data timeout saved r s; Some (Some res, s) })
   }"

section \<open>Closing a box\<close>

fun free_msgs :: "nat list \<Rightarrow> mbox_sys \<Rightarrow> mbox_sys option" where
  "free_msgs [] s = Some s"
| "free_msgs (m # ms) s = do { s \<leftarrow> free_msg m s; free_msgs ms s }"

definition ipc_mbox_free :: "sched_class \<Rightarrow> int \<Rightarrow> mbox_sys \<Rightarrow> (int \<times> mbox_sys) option" where
  "ipc_mbox_free cls i s =
    (case get_mbox i s of
       None \<Rightarrow> Some (- E_INVAL, s)
     | Some b \<Rightarrow> do {
         let s = upd_box b (\<lambda>mb. mb\<lparr>mb_state := CLOSING\<rparr>) s;
         let ms = mb_msgs (boxes s b);
         s \<leftarrow> free_msgs ms (upd_box b (\<lambda>mb. mb\<lparr>mb_msgs := []\<rparr>) s);
         s \<leftarrow> on_kern (wakeup_queue cls (MboxSendQ b) WT_INTERRUPTED True) s;
         s \<leftarrow> on_kern (wakeup_queue cls (MboxRecvQ b) WT_INTERRUPTED True) s;
         s \<leftarrow> (if inuse (boxes s b) = 0 then mbox_free b s else Some s);
         Some (0, s)
       })"

text \<open>\<open>mboxinfo\<close>: slots, max_slots, inuse, has_sender, has_receiver.\<close>

definition ipc_mbox_info :: "int \<Rightarrow> u32 \<Rightarrow> mbox_sys \<Rightarrow> ((int \<times> (nat \<times> nat \<times> bool \<times> bool \<times> bool) option) \<times> mbox_sys) option" where
  "ipc_mbox_info i info s =
    (case get_mbox i s of
       None \<Rightarrow> Some ((- E_INVAL, None), s)
     | Some b \<Rightarrow> do {
         let r = (slots (boxes s b), max_slots (boxes s b), inuse (boxes s b) \<noteq> 0,
                  \<not> wait_queue_empty (MboxSendQ b) (kn s), \<not> wait_queue_empty (MboxRecvQ b) (kn s));
         (ok, s) \<leftarrow> mb_user_check info 20 True s;
         Some (if ok then (0, Some r) else (- E_INVAL, None), s)
       })"

text \<open>The body of the loop of \<open>mbox_cleanup\<close> for page \<open>i\<close>.\<close>

definition cleanup_page :: "nat \<Rightarrow> mbox_sys \<Rightarrow> mbox_sys option" where
  "cleanup_page i s =
    (case mbox_map s i of
       None \<Rightarrow> Some s
     | Some page \<Rightarrow>
         (let bs = [i * MBOX_P_PAGE..<i * MBOX_P_PAGE + MBOX_P_PAGE]
          in if \<exists>b \<in> set bs. mb_state (boxes s b) \<noteq> CLOSED then Some s
             else do {
               let s = s\<lparr>free_mbox_list := fold remove1 bs (free_mbox_list s), mbox_map := (mbox_map s)(i := None)\<rparr>;
               v \<leftarrow> on_mem0 (free_page page) (vs s);
               Some (s\<lparr>vs := v\<rparr>)
             }))"

fun cleanup_pages :: "nat list \<Rightarrow> mbox_sys \<Rightarrow> mbox_sys option" where
  "cleanup_pages [] s = Some s"
| "cleanup_pages (i # is) s = do { s \<leftarrow> cleanup_page i s; cleanup_pages is s }"

definition mbox_cleanup :: "mbox_sys \<Rightarrow> mbox_sys option" where
  "mbox_cleanup s = cleanup_pages [0..<MAX_MBOX_PAGES] s"

end
