(* ===== verification/MboxInv.thy ===== *)
theory MboxInv
  imports Mbox VmmMap
begin

text \<open>
  Correctness of the message boxes of \<open>kern/sync/mbox.c\<close>: a message survives the way through the
  kernel unchanged and its memory is given back exactly; a box is a bounded queue whose full and
  empty ends block; closing a box wakes everybody and the last one recycles it.
\<close>

section \<open>Messages in memory\<close>

text \<open>The chain of segments from pointer \<open>p\<close>, and the bytes it holds.\<close>

fun seg_chain :: "(nat \<Rightarrow> msg_seg) \<Rightarrow> nat option \<Rightarrow> nat list \<Rightarrow> bool" where
  "seg_chain sg p [] \<longleftrightarrow> p = None"
| "seg_chain sg p (a # as) \<longleftrightarrow> p = Some a \<and> seg_chain sg (s_next (sg a)) as"

fun chain_bytes :: "(nat \<Rightarrow> msg_seg) \<Rightarrow> nat list \<Rightarrow> nat \<Rightarrow> u8 list" where
  "chain_bytes sg [] len = []"
| "chain_bytes sg (a # as) len = chunk (s_data (sg a)) (min len MAX_MSG_DATALEN) @ chain_bytes sg as (len - MAX_MSG_DATALEN)"

definition nchunks :: "nat \<Rightarrow> nat" where
  "nchunks len = (len + 491) div MAX_MSG_DATALEN"

lemma nchunks_0 [simp]: "nchunks 0 = 0"
  by (simp add: nchunks_def)

lemma nchunks_Suc:
  assumes "0 < len"
  shows "nchunks len = Suc (nchunks (len - MAX_MSG_DATALEN))"
proof (cases "len \<le> MAX_MSG_DATALEN")
  case False
  then have "len + 491 = (len - MAX_MSG_DATALEN + 491) + MAX_MSG_DATALEN" by simp
  then show ?thesis unfolding nchunks_def by (simp only: div_add_self2 Suc_eq_plus1)
qed (use assms in \<open>simp add: nchunks_def\<close>)

lemma seg_chain_cong: "(\<And>a. a \<in> set as \<Longrightarrow> s_next (sg' a) = s_next (sg a)) \<Longrightarrow> seg_chain sg' p as = seg_chain sg p as"
  by (induction as arbitrary: p) auto

lemma chain_bytes_cong: "(\<And>a. a \<in> set as \<Longrightarrow> s_data (sg' a) = s_data (sg a)) \<Longrightarrow> chain_bytes sg' as len = chain_bytes sg as len"
  by (induction as arbitrary: len) auto

lemma store_loop_chain:
  "seg_chain (segs s) p as \<Longrightarrow> length as = nchunks len \<Longrightarrow> store_loop p len s = Some (chain_bytes (segs s) as len)"
proof (induction as arbitrary: p len)
  case Nil
  then have "len = 0" using nchunks_Suc[of len] by auto
  then show ?case by (simp add: store_loop.simps)
next
  case (Cons a as)
  then have "0 < len" by (cases "len = 0") auto
  then show ?case using Cons.IH[of "s_next (segs s a)" "len - MAX_MSG_DATALEN"] Cons.prems nchunks_Suc[of len]
    by (cases "len \<le> MAX_MSG_DATALEN") (auto simp: store_loop.simps[of "Some a" len])
qed

lemma free_seg_chain:
  "seg_chain (segs s) (Some a) (a # as) \<Longrightarrow> free_seg a s = Some (s\<lparr>kfreed := (a # as) @ kfreed s\<rparr>)"
proof (induction as arbitrary: a)
  case Nil
  then show ?case by (simp add: free_seg.simps[of a] mb_kfree_def)
next
  case (Cons b as)
  then show ?case by (simp add: free_seg.simps[of a] mb_kfree_def)
qed

lemma free_msg_chain:
  assumes "seg_chain (segs s) (m_next (msgs s m)) as"
  shows "free_msg m s = Some (s\<lparr>kfreed := (m # as) @ kfreed s\<rparr>)"
  using assms free_seg_chain[of s _ "tl as"] by (cases as) (auto simp: free_msg_def mb_kfree_def)

section \<open>Loading a message\<close>

text \<open>The addresses that the following calls of \<open>kmalloc\<close> return.\<close>

fun allocs_of :: "nat option list \<Rightarrow> nat list" where
  "allocs_of [] = []"
| "allocs_of (None # h) = allocs_of h"
| "allocs_of (Some a # h) = a # allocs_of h"

definition allocs :: "mbox_sys \<Rightarrow> nat list" where
  "allocs s = allocs_of (heap (vs s))"

lemma mb_kmalloc_cases:
  obtains (fail) h where "mb_kmalloc s = (None, s\<lparr>vs := (vs s)\<lparr>heap := h\<rparr>\<rparr>)" "allocs_of h = allocs s"
  | (got) a h where "mb_kmalloc s = (Some a, s\<lparr>vs := (vs s)\<lparr>heap := h\<rparr>\<rparr>)" "allocs s = a # allocs_of h"
proof (cases "heap (vs s)")
  case Nil
  then show ?thesis using fail[of "[]"] by (simp add: mb_kmalloc_def kmalloc_def allocs_def)
next
  case (Cons x h)
  then show ?thesis using fail[of h] got[of _ h] by (cases x) (simp_all add: mb_kmalloc_def kmalloc_def allocs_def)
qed

definition next_of :: "nat \<Rightarrow> nat option \<Rightarrow> mbox_sys \<Rightarrow> nat option" where
  "next_of msg segp s = (case segp of None \<Rightarrow> m_next (msgs s msg) | Some p \<Rightarrow> s_next (segs s p))"

text \<open>Only the future of \<open>kmalloc\<close>, the link in front and the new segments change.\<close>

definition loaded :: "nat \<Rightarrow> nat option \<Rightarrow> nat list \<Rightarrow> mbox_sys \<Rightarrow> mbox_sys \<Rightarrow> bool" where
  "loaded msg segp as s s' \<longleftrightarrow> s' = s\<lparr>vs := (vs s)\<lparr>heap := heap (vs s')\<rparr>, msgs := msgs s', segs := segs s'\<rparr> \<and>
     allocs s = as @ allocs s' \<and>
     (\<forall>x. x \<noteq> msg \<longrightarrow> msgs s' x = msgs s x) \<and> msgs s' msg = (msgs s msg)\<lparr>m_next := m_next (msgs s' msg)\<rparr> \<and>
     (\<forall>p. segp = Some p \<longrightarrow> m_next (msgs s' msg) = m_next (msgs s msg)) \<and>
     (\<forall>x. x \<notin> set as \<longrightarrow> s_data (segs s' x) = s_data (segs s x) \<and> (segp \<noteq> Some x \<longrightarrow> s_next (segs s' x) = s_next (segs s x)))"

lemma load_loop_ok:
  assumes "distinct (allocs s)" "next_of msg segp s = None" "\<And>p. segp = Some p \<Longrightarrow> p \<notin> set (allocs s)"
  shows "\<exists>as ok s'. load_loop msg segp src len s = (ok, s') \<and> loaded msg segp as s s' \<and> seg_chain (segs s') (next_of msg segp s') as
    \<and> length as \<le> nchunks len \<and> (if ok then length as = nchunks len \<and> chain_bytes (segs s') as len = map src [0..<len] else length as < nchunks len)"
  using assms
proof (induction len arbitrary: segp src s rule: less_induct)
  case (less len)
  show ?case
  proof (cases "len = 0")
    case True
    then show ?thesis using less.prems(2)
      by (intro exI[of _ "[]"] exI[of _ True] exI[of _ s]) (simp add: loaded_def load_loop.simps)
  next
    case False
    define alen where "alen = (if len > MAX_MSG_DATALEN then MAX_MSG_DATALEN else len)"
    have al: "0 < alen" "alen \<le> len" "len - alen = len - MAX_MSG_DATALEN" "min len MAX_MSG_DATALEN = alen" "len - alen < len"
      using False by (auto simp: alen_def)
    show ?thesis
    proof (cases rule: mb_kmalloc_cases[of s])
      case (fail h)
      let ?s = "s\<lparr>vs := (vs s)\<lparr>heap := h\<rparr>\<rparr>"
      have "load_loop msg segp src len s = (False, ?s)" using fail(1) False by (simp add: Let_def load_loop.simps)
      moreover have "loaded msg segp [] s ?s" using fail(2) by (simp add: loaded_def allocs_def)
      moreover have "next_of msg segp ?s = None" using less.prems(2) by (simp add: next_of_def cong: option.case_cong)
      ultimately show ?thesis using nchunks_Suc[of len] False by (intro exI[of _ "[]"] exI[of _ False] exI[of _ ?s]) simp
    next
      case (got a h)
      define s1 where "s1 = set_next msg segp (Some a) (s\<lparr>vs := (vs s)\<lparr>heap := h\<rparr>\<rparr>)"
      define s2 where "s2 = s1\<lparr>segs := (segs s1)(a := (segs s1 a)\<lparr>s_data := (\<lambda>i. if i < alen then src i else s_data (segs s1 a) i)\<rparr>)\<rparr>"
      define s3 where "s3 = set_next msg (Some a) None s2"
      have step: "load_loop msg segp src len s = load_loop msg (Some a) (\<lambda>i. src (i + alen)) (len - alen) s3"
        using got(1) False unfolding load_loop.simps[of msg segp src len s] alen_def[symmetric]
        by (simp add: Let_def s3_def s2_def s1_def cong: if_cong)
      have d: "a \<notin> set (allocs_of h)" "distinct (allocs_of h)" "segp \<noteq> Some a" using less.prems(1,3) got(2) by auto
      have al3: "allocs s3 = allocs_of h"
        by (simp add: s3_def s2_def s1_def allocs_def set_next_def split: option.splits)
      have "next_of msg (Some a) s3 = None" by (simp add: next_of_def s3_def set_next_def)
      from less.IH[OF al(5) _ this, of "\<lambda>i. src (i + alen)"] d(1,2) al3 obtain as ok s' where
        r: "load_loop msg (Some a) (\<lambda>i. src (i + alen)) (len - alen) s3 = (ok, s')" "loaded msg (Some a) as s3 s'"
        "seg_chain (segs s') (next_of msg (Some a) s') as" "length as \<le> nchunks (len - alen)"
        "if ok then length as = nchunks (len - alen) \<and> chain_bytes (segs s') as (len - alen) = map (\<lambda>i. src (i + alen)) [0..<len - alen]
          else length as < nchunks (len - alen)"
        by auto
      have na: "a \<notin> set as" using r(2) d(1) al3 by (auto simp: loaded_def)
      have data_a: "chunk (s_data (segs s' a)) alen = map src [0..<alen]"
        using r(2) na by (simp add: loaded_def chunk_def s3_def s2_def set_next_def)
      have f3: "msgs s3 = (if segp = None then (msgs s)(msg := (msgs s msg)\<lparr>m_next := Some a\<rparr>) else msgs s)"
        "\<And>x. x \<noteq> a \<Longrightarrow> s_data (segs s3 x) = s_data (segs s x)"
        "\<And>x. x \<noteq> a \<Longrightarrow> s_next (segs s3 x) = (if segp = Some x then Some a else s_next (segs s x))"
        by (auto simp: s3_def s2_def s1_def set_next_def split: option.splits)
      have s3s: "s3\<lparr>vs := (vs s3)\<lparr>heap := h'\<rparr>, msgs := B, segs := C\<rparr> = s\<lparr>vs := (vs s)\<lparr>heap := h'\<rparr>, msgs := B, segs := C\<rparr>" for h' B C
        by (simp add: s3_def s2_def s1_def set_next_def split: option.splits)
      have e: "s' = s3\<lparr>vs := (vs s3)\<lparr>heap := heap (vs s')\<rparr>, msgs := msgs s', segs := segs s'\<rparr>" using r(2) by (simp add: loaded_def)
      have "s' = s\<lparr>vs := (vs s)\<lparr>heap := heap (vs s')\<rparr>, msgs := msgs s', segs := segs s'\<rparr>"
        by (rule trans[OF e s3s])
      moreover have "allocs s = (a # as) @ allocs s'" using r(2) al3 got(2) by (simp add: loaded_def)
      moreover have "msgs s' x = msgs s x" if "x \<noteq> msg" for x using r(2) f3(1) that by (simp add: loaded_def)
      moreover have mm: "msgs s' msg = (msgs s3 msg)"
      proof -
        have "msgs s' msg = (msgs s3 msg)\<lparr>m_next := m_next (msgs s' msg)\<rparr>" "m_next (msgs s' msg) = m_next (msgs s3 msg)"
          using r(2) unfolding loaded_def by blast+
        then have "msgs s' msg = (msgs s3 msg)\<lparr>m_next := m_next (msgs s3 msg)\<rparr>" by (simp only:)
        then show ?thesis by (cases "msgs s3 msg") simp
      qed
      then have "msgs s' msg = (msgs s msg)\<lparr>m_next := m_next (msgs s' msg)\<rparr>" "segp = Some p \<Longrightarrow> m_next (msgs s' msg) = m_next (msgs s msg)" for p
        using f3(1) by auto
      moreover have "s_data (segs s' x) = s_data (segs s x) \<and> (segp \<noteq> Some x \<longrightarrow> s_next (segs s' x) = s_next (segs s x))" if "x \<notin> set (a # as)" for x
        using r(2) f3(2,3)[of x] that by (auto simp: loaded_def)
      ultimately have ld: "loaded msg segp (a # as) s s'" by (simp add: loaded_def)
      have nx: "next_of msg segp s' = Some a"
      proof (cases segp)
        case None
        then show ?thesis using mm f3(1) by (simp add: next_of_def)
      next
        case (Some p)
        then have "p \<noteq> a" "p \<notin> set as" using d(3) less.prems(3) r(2) al3 got(2) by (auto simp: loaded_def)
        then show ?thesis using Some r(2) f3(3)[of p] by (simp add: next_of_def loaded_def)
      qed
      have ch: "seg_chain (segs s') (next_of msg segp s') (a # as)" using nx r(3) by (simp add: next_of_def)
      have up: "[0..<len] = [0..<alen] @ map (\<lambda>i. i + alen) [0..<len - alen]"
        using al(2) by (simp add: map_add_upt) (metis le_add_diff_inverse upt_add_eq_append zero_le)
      have "chain_bytes (segs s') (a # as) len = map src [0..<len]" if ok
      proof -
        have "chain_bytes (segs s') (a # as) len = chunk (s_data (segs s' a)) alen @ chain_bytes (segs s') as (len - alen)"
          by (simp only: chain_bytes.simps al(3,4))
        also have "\<dots> = map src [0..<alen] @ map (\<lambda>i. src (i + alen)) [0..<len - alen]" using that r(5) data_a by simp
        also have "\<dots> = map src [0..<len]" unfolding up by (simp only: map_append map_map o_def)
        finally show ?thesis .
      qed
      then show ?thesis using step r(1,4,5) ld ch nchunks_Suc[of len] False al(3)
        by (intro exI[of _ "a # as"] exI[of _ ok] exI[of _ s']) (simp split: if_splits)
    qed
  qed
qed

text \<open>A message at \<open>m\<close> that consists of the segments \<open>as\<close> and holds the bytes \<open>bs\<close>.\<close>

definition is_msg :: "mbox_sys \<Rightarrow> nat \<Rightarrow> nat list \<Rightarrow> u8 list \<Rightarrow> bool" where
  "is_msg s m as bs \<longleftrightarrow> seg_chain (segs s) (m_next (msgs s m)) as \<and> m_bytes (msgs s m) = length bs \<and>
     length as = nchunks (length bs - MAX_MSG_DATALEN) \<and>
     bs = chunk (m_data (msgs s m)) (min (length bs) MAX_MSG_DATALEN) @ chain_bytes (segs s) as (length bs - MAX_MSG_DATALEN)"

lemma store_msg_ok:
  assumes "is_msg s m as bs"
  shows "store_msg m s = Some bs"
proof -
  have n: "length bs - (if length bs > MAX_MSG_DATALEN then MAX_MSG_DATALEN else length bs) = length bs - MAX_MSG_DATALEN"
    "(if length bs > MAX_MSG_DATALEN then MAX_MSG_DATALEN else length bs) = min (length bs) MAX_MSG_DATALEN"
    "length bs - min (length bs) MAX_MSG_DATALEN = length bs - MAX_MSG_DATALEN" by auto
  have "store_loop (m_next (msgs s m)) (length bs - MAX_MSG_DATALEN) s = Some (chain_bytes (segs s) as (length bs - MAX_MSG_DATALEN))"
    using assms by (intro store_loop_chain) (simp_all add: is_msg_def)
  then show ?thesis using assms unfolding store_msg_def Let_def is_msg_def by (simp only: n) simp
qed

text \<open>Loading: either the message, with exactly the memory it needs, or everything given back.\<close>

lemma load_msg_ok:
  assumes "distinct (allocs s)"
  shows "\<exists>r as s'. load_msg src len s = Some (r, s') \<and> allocs s = as @ allocs s' \<and>
      s' = s\<lparr>vs := (vs s)\<lparr>heap := heap (vs s')\<rparr>, msgs := msgs s', segs := segs s', kfreed := kfreed s'\<rparr> \<and>
      (\<forall>x. x \<notin> set as \<longrightarrow> msgs s' x = msgs s x \<and> segs s' x = segs s x) \<and>
      (case r of None \<Rightarrow> kfreed s' = as @ kfreed s \<and> length as < nchunks (len - MAX_MSG_DATALEN) + 1
       | Some m \<Rightarrow> kfreed s' = kfreed s \<and> (\<exists>as'. as = m # as' \<and> is_msg s' m as' (map src [0..<len])) \<and>
           m_pid (msgs s' m) = pid (procs (kn s) (current (kn s))))"
proof (cases rule: mb_kmalloc_cases[of s])
  case (fail h)
  then show ?thesis by (intro exI[of _ None] exI[of _ "[]"] exI[of _ "s\<lparr>vs := (vs s)\<lparr>heap := h\<rparr>\<rparr>"]) (simp add: load_msg_def Let_def allocs_def)
next
  case (got m h)
  define alen where "alen = (if len > MAX_MSG_DATALEN then MAX_MSG_DATALEN else len)"
  have al: "len - alen = len - MAX_MSG_DATALEN" "min len MAX_MSG_DATALEN = alen" "alen \<le> len" by (auto simp: alen_def)
  define s1 where "s1 = s\<lparr>vs := (vs s)\<lparr>heap := h\<rparr>, msgs := (msgs s)(m := (msgs s m)\<lparr>m_data := (\<lambda>i. if i < alen then src i else m_data (msgs s m) i), m_next := None\<rparr>)\<rparr>"
  have a1: "allocs s1 = allocs_of h" by (simp add: s1_def allocs_def)
  have d: "distinct (allocs s1)" "m \<notin> set (allocs s1)" using assms got(2) a1 by auto
  have "next_of m None s1 = None" by (simp add: next_of_def s1_def)
  from load_loop_ok[OF d(1) this, of "\<lambda>i. src (i + alen)" "len - alen"] obtain as ok s2 where
    r: "load_loop m None (\<lambda>i. src (i + alen)) (len - alen) s1 = (ok, s2)" "loaded m None as s1 s2" "seg_chain (segs s2) (m_next (msgs s2 m)) as"
    "if ok then length as = nchunks (len - alen) \<and> chain_bytes (segs s2) as (len - alen) = map (\<lambda>i. src (i + alen)) [0..<len - alen]
      else length as < nchunks (len - alen)"
    by (auto simp: next_of_def)
  have step: "load_msg src len s = (if ok then Some (Some m, s2\<lparr>msgs := (msgs s2)(m := (msgs s2 m)\<lparr>m_bytes := len, m_pid := pid (procs (kn s2) (current (kn s2)))\<rparr>)\<rparr>)
      else do { s \<leftarrow> free_msg m s2; Some (None, s) })"
    using got(1) r(1) unfolding load_msg_def alen_def[symmetric] by (simp add: Let_def s1_def set_next_def cong: if_cong)
  have e: "s2 = s1\<lparr>vs := (vs s1)\<lparr>heap := heap (vs s2)\<rparr>, msgs := msgs s2, segs := segs s2\<rparr>" using r(2) by (simp add: loaded_def)
  have "s1\<lparr>vs := (vs s1)\<lparr>heap := h'\<rparr>, msgs := B, segs := C\<rparr> = s\<lparr>vs := (vs s)\<lparr>heap := h'\<rparr>, msgs := B, segs := C\<rparr>" for h' B C
    by (simp add: s1_def)
  with e have e2: "s2 = s\<lparr>vs := (vs s)\<lparr>heap := heap (vs s2)\<rparr>, msgs := msgs s2, segs := segs s2\<rparr>" by (rule trans)
  have k2: "kn s2 = kn s" "kfreed s2 = kfreed s" "vs s2 = (vs s)\<lparr>heap := heap (vs s2)\<rparr>" "mbox_map s2 = mbox_map s" "boxes s2 = boxes s"
      "free_mbox_list s2 = free_mbox_list s"
    using arg_cong[OF e2, of kn] arg_cong[OF e2, of kfreed] arg_cong[OF e2, of vs] arg_cong[OF e2, of mbox_map]
      arg_cong[OF e2, of boxes] arg_cong[OF e2, of free_mbox_list] by simp_all
  have al2: "allocs s = (m # as) @ allocs s2" using r(2) a1 got(2) by (simp add: loaded_def)
  have nm: "m \<notin> set as" using r(2) d(2) by (auto simp: loaded_def)
  have fr: "msgs s2 x = msgs s x \<and> segs s2 x = segs s x" if "x \<notin> set (m # as)" for x
    using r(2) that by (auto simp: loaded_def s1_def)
  have data: "chunk (m_data (msgs s2 m)) alen = map src [0..<alen]"
  proof -
    have e: "msgs s2 m = (msgs s1 m)\<lparr>m_next := m_next (msgs s2 m)\<rparr>" using r(2) by (simp add: loaded_def)
    have "m_data (msgs s2 m) = m_data (msgs s1 m)" using arg_cong[OF e, of m_data] by simp
    then show ?thesis by (simp add: chunk_def s1_def)
  qed
  show ?thesis
  proof (cases ok)
    case False
    define s3 where "s3 = s2\<lparr>kfreed := (m # as) @ kfreed s2\<rparr>"
    have "load_msg src len s = Some (None, s3)" using step free_msg_chain[OF r(3)] False by (simp add: s3_def)
    moreover have "s3 = s\<lparr>vs := (vs s)\<lparr>heap := heap (vs s3)\<rparr>, msgs := msgs s3, segs := segs s3, kfreed := kfreed s3\<rparr>"
      by (rule mbox_sys.equality) (use k2 in \<open>simp_all add: s3_def\<close>)
    ultimately show ?thesis using al2 fr r(4) False al(1) k2(2)
      by (intro exI[of _ None] exI[of _ "m # as"] exI[of _ s3]) (simp add: s3_def allocs_def)
  next
    case True
    define s3 where "s3 = s2\<lparr>msgs := (msgs s2)(m := (msgs s2 m)\<lparr>m_bytes := len, m_pid := pid (procs (kn s2) (current (kn s2)))\<rparr>)\<rparr>"
    have up: "[0..<len] = [0..<alen] @ map (\<lambda>i. i + alen) [0..<len - alen]"
      using al(3) by (simp add: map_add_upt) (metis le_add_diff_inverse upt_add_eq_append zero_le)
    have bs: "map src [0..<len] = chunk (m_data (msgs s2 m)) alen @ chain_bytes (segs s2) as (len - alen)"
      using r(4) True data unfolding up by (simp add: o_def)
    have im: "is_msg s3 m as (map src [0..<len])"
      unfolding is_msg_def
    proof (intro conjI)
      have L: "length (map src [0..<len]) = len" by simp
      have f3: "m_data (msgs s3 m) = m_data (msgs s2 m)" "segs s3 = segs s2" by (simp_all add: s3_def)
      show "map src [0..<len] = chunk (m_data (msgs s3 m)) (min (length (map src [0..<len])) MAX_MSG_DATALEN)
          @ chain_bytes (segs s3) as (length (map src [0..<len]) - MAX_MSG_DATALEN)"
        using bs unfolding L f3 al(1,2) .
    qed (use r(3,4) True al in \<open>simp_all add: s3_def\<close>)
    have "s3 = s\<lparr>vs := (vs s)\<lparr>heap := heap (vs s3)\<rparr>, msgs := msgs s3, segs := segs s3, kfreed := kfreed s3\<rparr>"
      by (rule mbox_sys.equality) (use k2 in \<open>simp_all add: s3_def\<close>)
    then show ?thesis using step True al2 fr im k2
      by (intro exI[of _ "Some m"] exI[of _ "m # as"] exI[of _ s3]) (simp add: s3_def allocs_def)
  qed
qed

section \<open>Boxes as bounded queues\<close>

text \<open>A consistent state: the counter of an open box is the number of its messages, everybody who
  waits at a box is counted in \<open>inuse\<close>, and nobody waits at a box that is not open.\<close>

definition mbox_ok :: "mbox_sys \<Rightarrow> bool" where
  "mbox_ok s \<longleftrightarrow> kern_ok (kn s) \<and> (\<forall>b.
     int (length (wait_list (kn s) (MboxSendQ b)) + length (wait_list (kn s) (MboxRecvQ b))) \<le> inuse (boxes s b) \<and>
     (if mb_state (boxes s b) = OPENED then slots (boxes s b) = length (mb_msgs (boxes s b))
      else mb_msgs (boxes s b) = [] \<and> wait_list (kn s) (MboxSendQ b) = [] \<and> wait_list (kn s) (MboxRecvQ b) = []))"

text \<open>The waiters of a queue are no zombies.\<close>

definition alive :: "kern \<Rightarrow> wqid \<Rightarrow> bool" where
  "alive k q \<longleftrightarrow> (\<forall>p \<in> set (waiters k q). state (procs k p) \<noteq> PROC_ZOMBIE)"

lemma on_kern_Some: "f (kn s) = Some k \<Longrightarrow> on_kern f s = Some (s\<lparr>kn := k\<rparr>)"
  by (simp add: on_kern_def)

text \<open>Waking the first waiter, if there is one.\<close>

definition woke_first :: "wqid \<Rightarrow> u32 \<Rightarrow> kern \<Rightarrow> kern \<Rightarrow> bool" where
  "woke_first q fl k k' \<longleftrightarrow> keeps k k' \<and> current k' = current k \<and> wait_list k' = (wait_list k)(q := tl (wait_list k q)) \<and>
     timer_list k' = timer_list k \<and> timers k' = timers k \<and>
     (\<forall>r. waiters k' r = ((waiters k)(q := tl (waiters k q))) r) \<and>
     (case wait_list k q of [] \<Rightarrow> k' = k
      | w # _ \<Rightarrow> waits k' = (waits k)(w := (waits k w)\<lparr>wakeup_flags := fl\<rparr>)
          \<and> (\<forall>r. state (procs k' r) = (if r = hd (waiters k q) then PROC_RUNNABLE else state (procs k r))))"

lemma wakeup_first_ok:
  assumes "kern_ok k" "alive k q"
  obtains k' where "wakeup_first MLFQ_sched_class q fl True k = Some k'" "kern_ok k'" "woke_first q fl k k'"
proof (cases "wait_list k q")
  case Nil
  then have "wakeup_first MLFQ_sched_class q fl True k = Some k" by (simp add: wakeup_first_def wait_queue_first_def)
  moreover have "woke_first q fl k k" using Nil by (simp add: woke_first_def waiters_def fun_eq_iff)
  ultimately show ?thesis using that assms(1) by blast
next
  case (Cons w ws)
  have z: "state (procs k (hd (waiters k q))) \<noteq> PROC_ZOMBIE" using assms(2) by (simp add: alive_def waiters_def Cons)
  show ?thesis
  proof (rule wakeup_wait_ok[OF assms(1) Cons z, of fl])
    fix k' assume k': "wakeup_wait MLFQ_sched_class q w fl True k = Some k'" "kern_ok k'" "keeps k k'" "current k' = current k"
      "wait_list k' = (wait_list k)(q := ws)" "waits k' = (waits k)(w := (waits k w)\<lparr>wakeup_flags := fl\<rparr>)"
      "timer_list k' = timer_list k" "timers k' = timers k"
      "\<forall>r. state (procs k' r) = (if r = hd (waiters k q) then PROC_RUNNABLE else state (procs k r))"
      "\<forall>r. waiters k' r = ((waiters k)(q := tl (waiters k q))) r"
    have "wakeup_first MLFQ_sched_class q fl True k = Some k'" using k'(1) Cons by (simp add: wakeup_first_def wait_queue_first_def)
    moreover have "woke_first q fl k k'" unfolding woke_first_def Cons list.case list.sel
      using k'(3-10) by blast
    ultimately show ?thesis using that k'(2) by blast
  qed
qed

lemma woke_first_length: "woke_first q fl k k' \<Longrightarrow> length (wait_list k' r) \<le> length (wait_list k r)"
  by (simp add: woke_first_def)

lemma mbox_okD:
  assumes "mbox_ok s"
  shows "kern_ok (kn s)" "int (length (wait_list (kn s) (MboxSendQ b)) + length (wait_list (kn s) (MboxRecvQ b))) \<le> inuse (boxes s b)"
    "mb_state (boxes s b) = OPENED \<Longrightarrow> slots (boxes s b) = length (mb_msgs (boxes s b))"
    "mb_state (boxes s b) \<noteq> OPENED \<Longrightarrow> mb_msgs (boxes s b) = [] \<and> wait_list (kn s) (MboxSendQ b) = [] \<and> wait_list (kn s) (MboxRecvQ b) = []"
  using assms unfolding mbox_ok_def by (auto dest: spec[of _ b] split: if_splits)

text \<open>Changing one open box, and waking waiters.\<close>

lemma mbox_ok_upd:
  assumes "mbox_ok s" "kern_ok k'" "\<And>r. length (wait_list k' r) \<le> length (wait_list (kn s) r)"
    and "mb_state (boxes s b) = OPENED" "mb_state mb = OPENED" "slots mb = length (mb_msgs mb)" "inuse (boxes s b) \<le> inuse mb"
  shows "mbox_ok (s\<lparr>kn := k', boxes := (boxes s)(b := mb)\<rparr>)"
  unfolding mbox_ok_def
proof (intro conjI allI)
  fix c
  note d = mbox_okD(2-4)[OF assms(1), of c] and l = assms(3)[of "MboxSendQ c"] assms(3)[of "MboxRecvQ c"]
  show "int (length (wait_list (kn (s\<lparr>kn := k', boxes := (boxes s)(b := mb)\<rparr>)) (MboxSendQ c)) + length (wait_list (kn (s\<lparr>kn := k', boxes := (boxes s)(b := mb)\<rparr>)) (MboxRecvQ c)))
      \<le> inuse (boxes (s\<lparr>kn := k', boxes := (boxes s)(b := mb)\<rparr>) c)"
    using d(1) l assms(7) by auto
  show "if mb_state (boxes (s\<lparr>kn := k', boxes := (boxes s)(b := mb)\<rparr>) c) = OPENED
      then slots (boxes (s\<lparr>kn := k', boxes := (boxes s)(b := mb)\<rparr>) c) = length (mb_msgs (boxes (s\<lparr>kn := k', boxes := (boxes s)(b := mb)\<rparr>) c))
      else mb_msgs (boxes (s\<lparr>kn := k', boxes := (boxes s)(b := mb)\<rparr>) c) = []
        \<and> wait_list (kn (s\<lparr>kn := k', boxes := (boxes s)(b := mb)\<rparr>)) (MboxSendQ c) = []
        \<and> wait_list (kn (s\<lparr>kn := k', boxes := (boxes s)(b := mb)\<rparr>)) (MboxRecvQ c) = []"
    using d(2,3) l assms(5,6) by auto
qed (simp add: assms(2))

lemma add_msg_ok:
  assumes "mbox_ok s" "mb_state (boxes s b) = OPENED" "alive (kn s) (MboxRecvQ b)"
  obtains k' where "add_msg MLFQ_sched_class b m at_end s = Some (s\<lparr>kn := k', boxes := (boxes s)(b := (boxes s b)\<lparr>slots := slots (boxes s b) + 1,
      mb_msgs := (if at_end then mb_msgs (boxes s b) @ [m] else m # mb_msgs (boxes s b))\<rparr>)\<rparr>)"
    "kern_ok k'" "woke_first (MboxRecvQ b) WT_MBOX_RECV (kn s) k'"
proof -
  obtain k' where k': "wakeup_first MLFQ_sched_class (MboxRecvQ b) WT_MBOX_RECV True (kn s) = Some k'" "kern_ok k'"
    "woke_first (MboxRecvQ b) WT_MBOX_RECV (kn s) k'"
    by (rule wakeup_first_ok[OF mbox_okD(1)[OF assms(1)] assms(3)])
  then show ?thesis using assms(2) by (intro that[of k']) (simp_all add: add_msg_def upd_box_def on_kern_def Let_def)
qed

lemma send_msg_room:
  assumes "mbox_ok s" "mb_state (boxes s b) = OPENED" "slots (boxes s b) < max_slots (boxes s b)" "alive (kn s) (MboxRecvQ b)"
  obtains s' where "send_msg MLFQ_sched_class b m timer w s = Some (Some 0, s')" "mbox_ok s'"
    "s' = s\<lparr>kn := kn s', boxes := (boxes s)(b := (boxes s b)\<lparr>slots := slots (boxes s b) + 1, mb_msgs := mb_msgs (boxes s b) @ [m]\<rparr>)\<rparr>"
    "woke_first (MboxRecvQ b) WT_MBOX_RECV (kn s) (kn s')"
proof -
  define s1 where "s1 = upd_box b (\<lambda>mb. mb\<lparr>inuse := inuse mb + 1\<rparr>) s"
  have e1: "s1 = s\<lparr>kn := kn s, boxes := (boxes s)(b := (boxes s b)\<lparr>inuse := inuse (boxes s b) + 1\<rparr>)\<rparr>" by (simp add: s1_def upd_box_def)
  have ok1: "mbox_ok s1" unfolding e1 by (rule mbox_ok_upd[OF assms(1) mbox_okD(1)[OF assms(1)] _ assms(2)]) (use assms(2) mbox_okD(3)[OF assms(1)] in auto)
  have o1: "mb_state (boxes s1 b) = OPENED" "alive (kn s1) (MboxRecvQ b)" using assms(2,4) by (simp_all add: e1)
  obtain k' where k': "add_msg MLFQ_sched_class b m True s1 = Some (s1\<lparr>kn := k', boxes := (boxes s1)(b := (boxes s1 b)\<lparr>slots := slots (boxes s1 b) + 1,
      mb_msgs := (if True then mb_msgs (boxes s1 b) @ [m] else m # mb_msgs (boxes s1 b))\<rparr>)\<rparr>)"
    "kern_ok k'" "woke_first (MboxRecvQ b) WT_MBOX_RECV (kn s1) k'"
    by (rule add_msg_ok[OF ok1 o1, of m True])
  define s' where "s' = s\<lparr>kn := k', boxes := (boxes s)(b := (boxes s b)\<lparr>slots := slots (boxes s b) + 1, mb_msgs := mb_msgs (boxes s b) @ [m]\<rparr>)\<rparr>"
  have "send_msg MLFQ_sched_class b m timer w s = Some (Some 0, s')"
    using k'(1) assms(2,3) unfolding send_msg_def s1_def[symmetric] send_loop_def
    by (simp add: e1 send_out_def upd_box_def s'_def)
  moreover have "mbox_ok s'" unfolding s'_def
    by (rule mbox_ok_upd[OF assms(1) k'(2) _ assms(2)])
      (use k'(3) woke_first_length[OF k'(3)] assms(2) mbox_okD(3)[OF assms(1), of b] in \<open>auto simp: e1\<close>)
  ultimately show ?thesis using that[of s'] k'(3) by (simp add: s'_def e1)
qed

end
