(* ===== verification/MboxUse.thy ===== *)
theory MboxUse
  imports MboxInv
begin

text \<open>
  The properties of the message boxes (\<open>kern/sync/mbox.c\<close>): sending and receiving on every branch,
  closing, and the pool of boxes.
\<close>

section \<open>Sleeping at a box\<close>

lemma box_sleep:
  assumes "mbox_ok s" "mb_state (boxes s b) = OPENED" "q = MboxSendQ b \<or> q = MboxRecvQ b"
    and "\<forall>r. w \<notin> set (wait_list (kn s) r)" "current (kn s) \<noteq> idleproc (kn s)" "timer_ready timer (kn s)"
  obtains k' where "go_to_sleep q w ws timer (kn s) = Some k'"
    "mbox_ok (s\<lparr>kn := k', boxes := (boxes s)(b := (boxes s b)\<lparr>inuse := inuse (boxes s b) + 1\<rparr>)\<rparr>)"
    "\<forall>r. waiters k' r = ((waiters (kn s))(q := waiters (kn s) q @ [current (kn s)])) r"
    "state (procs k' (current (kn s))) = PROC_SLEEPING" "wait_state (procs k' (current (kn s))) = ws" "current k' \<noteq> current (kn s)"
    "waits k' w = \<lparr>w_proc = Some (current (kn s)), wakeup_flags = WT_INTERRUPTED, wait_queue = q\<rparr>" "keeps (kn s) k'"
proof -
  obtain k' where k': "go_to_sleep q w ws timer (kn s) = Some k'" "kern_ok k'" "keeps (kn s) k'"
    "wait_list k' = (wait_list (kn s))(q := wait_list (kn s) q @ [w])"
    "waits k' = (waits (kn s))(w := \<lparr>w_proc = Some (current (kn s)), wakeup_flags = WT_INTERRUPTED, wait_queue = q\<rparr>)"
    "\<forall>p. state (procs k' p) = (if p = current (kn s) then PROC_SLEEPING else state (procs (kn s) p))"
    "\<forall>p. wait_state (procs k' p) = (if p = current (kn s) then ws else wait_state (procs (kn s) p))"
    "current k' \<noteq> current (kn s)"
    by (rule go_to_sleep_ok[OF mbox_okD(1)[OF assms(1)] assms(4-6)])
  have "mbox_ok (s\<lparr>kn := k', boxes := (boxes s)(b := (boxes s b)\<lparr>inuse := inuse (boxes s b) + 1\<rparr>)\<rparr>)"
    unfolding mbox_ok_def
  proof (intro conjI allI)
    fix c
    note d = mbox_okD(2-4)[OF assms(1), of c]
    let ?s = "s\<lparr>kn := k', boxes := (boxes s)(b := (boxes s b)\<lparr>inuse := inuse (boxes s b) + 1\<rparr>)\<rparr>"
    show "int (length (wait_list (kn ?s) (MboxSendQ c)) + length (wait_list (kn ?s) (MboxRecvQ c))) \<le> inuse (boxes ?s c)"
      using d(1) assms(3) k'(4) by auto
    show "if mb_state (boxes ?s c) = OPENED then slots (boxes ?s c) = length (mb_msgs (boxes ?s c))
        else mb_msgs (boxes ?s c) = [] \<and> wait_list (kn ?s) (MboxSendQ c) = [] \<and> wait_list (kn ?s) (MboxRecvQ c) = []"
      using d(2,3) assms(2,3) k'(4) by auto
  qed (simp add: k'(2))
  moreover have "waiters k' r = ((waiters (kn s))(q := waiters (kn s) q @ [current (kn s)])) r" for r
    using waiters_append[OF k'(4,5)] assms(4) by simp
  ultimately show ?thesis using that[of k'] k' by simp
qed

lemma send_msg_full:
  assumes "mbox_ok s" "mb_state (boxes s b) = OPENED" "max_slots (boxes s b) \<le> slots (boxes s b)"
    and "\<forall>r. w \<notin> set (wait_list (kn s) r)" "current (kn s) \<noteq> idleproc (kn s)" "timer_ready timer (kn s)"
  obtains s' where "send_msg MLFQ_sched_class b m timer w s = Some (None, s')" "mbox_ok s'"
    "s' = s\<lparr>kn := kn s', boxes := (boxes s)(b := (boxes s b)\<lparr>inuse := inuse (boxes s b) + 1\<rparr>)\<rparr>"
    "\<forall>r. waiters (kn s') r = ((waiters (kn s))(MboxSendQ b := waiters (kn s) (MboxSendQ b) @ [current (kn s)])) r"
    "state (procs (kn s') (current (kn s))) = PROC_SLEEPING" "wait_state (procs (kn s') (current (kn s))) = WT_MBOX_SEND"
proof -
  obtain k' where k': "go_to_sleep (MboxSendQ b) w WT_MBOX_SEND timer (kn s) = Some k'"
    "mbox_ok (s\<lparr>kn := k', boxes := (boxes s)(b := (boxes s b)\<lparr>inuse := inuse (boxes s b) + 1\<rparr>)\<rparr>)"
    "\<forall>r. waiters k' r = ((waiters (kn s))(MboxSendQ b := waiters (kn s) (MboxSendQ b) @ [current (kn s)])) r"
    "state (procs k' (current (kn s))) = PROC_SLEEPING" "wait_state (procs k' (current (kn s))) = WT_MBOX_SEND"
    by (rule box_sleep[OF assms(1,2) _ assms(4-6), of "MboxSendQ b"]) simp_all
  define s' where "s' = s\<lparr>kn := k', boxes := (boxes s)(b := (boxes s b)\<lparr>inuse := inuse (boxes s b) + 1\<rparr>)\<rparr>"
  have "send_msg MLFQ_sched_class b m timer w s = Some (None, s')"
    using k'(1) assms(2,3) unfolding go_to_sleep_def
    by (auto simp: send_msg_def send_loop_def upd_box_def on_kern_def s'_def kmonad)
  then show ?thesis using that[of s'] k'(2-5) by (simp add: s'_def)
qed

lemma recv_msg_empty:
  assumes "mbox_ok s" "mb_state (boxes s b) = OPENED" "mb_msgs (boxes s b) = []"
    and "\<forall>r. w \<notin> set (wait_list (kn s) r)" "current (kn s) \<noteq> idleproc (kn s)" "timer_ready timer (kn s)"
  obtains s' where "recv_msg MLFQ_sched_class b n timer w s = Some (None, s')" "mbox_ok s'"
    "s' = s\<lparr>kn := kn s', boxes := (boxes s)(b := (boxes s b)\<lparr>inuse := inuse (boxes s b) + 1\<rparr>)\<rparr>"
    "\<forall>r. waiters (kn s') r = ((waiters (kn s))(MboxRecvQ b := waiters (kn s) (MboxRecvQ b) @ [current (kn s)])) r"
    "state (procs (kn s') (current (kn s))) = PROC_SLEEPING" "wait_state (procs (kn s') (current (kn s))) = WT_MBOX_RECV"
proof -
  obtain k' where k': "go_to_sleep (MboxRecvQ b) w WT_MBOX_RECV timer (kn s) = Some k'"
    "mbox_ok (s\<lparr>kn := k', boxes := (boxes s)(b := (boxes s b)\<lparr>inuse := inuse (boxes s b) + 1\<rparr>)\<rparr>)"
    "\<forall>r. waiters k' r = ((waiters (kn s))(MboxRecvQ b := waiters (kn s) (MboxRecvQ b) @ [current (kn s)])) r"
    "state (procs k' (current (kn s))) = PROC_SLEEPING" "wait_state (procs k' (current (kn s))) = WT_MBOX_RECV"
    by (rule box_sleep[OF assms(1,2) _ assms(4-6), of "MboxRecvQ b"]) simp_all
  define s' where "s' = s\<lparr>kn := k', boxes := (boxes s)(b := (boxes s b)\<lparr>inuse := inuse (boxes s b) + 1\<rparr>)\<rparr>"
  have "slots (boxes s b) = 0" using mbox_okD(3)[OF assms(1,2)] assms(3) by simp
  then have "recv_msg MLFQ_sched_class b n timer w s = Some (None, s')"
    using k'(1) assms(2) unfolding go_to_sleep_def
    by (auto simp: recv_msg_def recv_loop_def upd_box_def on_kern_def s'_def kmonad)
  then show ?thesis using that[of s'] k'(2-5) by (simp add: s'_def)
qed

section \<open>Receiving from a box that has messages\<close>

lemma recv_msg_some:
  assumes "mbox_ok s" "mb_state (boxes s b) = OPENED" "mb_msgs (boxes s b) = m # ms"
    and "alive (kn s) (MboxSendQ b)" "alive (kn s) (MboxRecvQ b)"
  shows "\<exists>s'. recv_msg MLFQ_sched_class b n timer w s = Some (Some (if n < m_bytes (msgs s m) then - E_TOO_BIG else 0, m), s') \<and> mbox_ok s'
    \<and> (if n < m_bytes (msgs s m) then s' = s\<lparr>kn := kn s'\<rparr> \<and> woke_first (MboxRecvQ b) WT_MBOX_RECV (kn s) (kn s')
       else s' = s\<lparr>kn := kn s', boxes := (boxes s)(b := (boxes s b)\<lparr>slots := slots (boxes s b) - 1, mb_msgs := ms\<rparr>)\<rparr>
         \<and> woke_first (MboxSendQ b) WT_MBOX_SEND (kn s) (kn s'))"
proof -
  have sl: "slots (boxes s b) = Suc (length ms)" using mbox_okD(3)[OF assms(1,2)] assms(3) by simp
  show ?thesis
  proof (cases "n < m_bytes (msgs s m)")
    case True
    obtain k' where k': "wakeup_first MLFQ_sched_class (MboxRecvQ b) WT_MBOX_RECV True (kn s) = Some k'" "kern_ok k'"
      "woke_first (MboxRecvQ b) WT_MBOX_RECV (kn s) k'"
      by (rule wakeup_first_ok[OF mbox_okD(1)[OF assms(1)] assms(5)])
    define s' where "s' = s\<lparr>kn := k', boxes := (boxes s)(b := boxes s b)\<rparr>"
    have "recv_msg MLFQ_sched_class b n timer w s = Some (Some (- E_TOO_BIG, m), s')"
      using True k'(1) assms(2,3) sl
      by (simp add: recv_msg_def recv_loop_def pick_msg_def upd_box_def on_kern_def recv_out_def Let_def s'_def)
    moreover have "mbox_ok s'" unfolding s'_def
      by (rule mbox_ok_upd[OF assms(1) k'(2) woke_first_length[OF k'(3)] assms(2,2)]) (use sl assms(3) in simp_all)
    moreover have "s' = s\<lparr>kn := kn s'\<rparr>" by (simp add: s'_def)
    ultimately show ?thesis using True k'(3) by (intro exI[of _ s']) (simp add: s'_def)
  next
    case False
    obtain k' where k': "wakeup_first MLFQ_sched_class (MboxSendQ b) WT_MBOX_SEND True (kn s) = Some k'" "kern_ok k'"
      "woke_first (MboxSendQ b) WT_MBOX_SEND (kn s) k'"
      by (rule wakeup_first_ok[OF mbox_okD(1)[OF assms(1)] assms(4)])
    define s' where "s' = s\<lparr>kn := k', boxes := (boxes s)(b := (boxes s b)\<lparr>slots := slots (boxes s b) - 1, mb_msgs := ms\<rparr>)\<rparr>"
    have "recv_msg MLFQ_sched_class b n timer w s = Some (Some (0, m), s')"
      using False k'(1) assms(2,3) sl
      by (simp add: recv_msg_def recv_loop_def pick_msg_def upd_box_def on_kern_def recv_out_def Let_def s'_def)
    moreover have "mbox_ok s'" unfolding s'_def
      by (rule mbox_ok_upd[OF assms(1) k'(2) woke_first_length[OF k'(3)] assms(2)]) (use sl assms(2,3) in simp_all)
    ultimately show ?thesis using False k'(3) by (intro exI[of _ s']) (simp add: s'_def)
  qed
qed

section \<open>Waking a whole queue\<close>

lemma wakeup_all_kern_ok:
  "kern_ok k \<Longrightarrow> wait_list k q = ws \<Longrightarrow> alive k q \<Longrightarrow>
   \<exists>k'. wakeup_all MLFQ_sched_class q fl k = Some k' \<and> kern_ok k' \<and> keeps k k' \<and> current k' = current k
     \<and> wait_list k' = (wait_list k)(q := []) \<and> (\<forall>w. waits k' w = (if w \<in> set ws then (waits k w)\<lparr>wakeup_flags := fl\<rparr> else waits k w))
     \<and> (\<forall>p. state (procs k' p) = (if p \<in> set (waiters k q) then PROC_RUNNABLE else state (procs k p)))"
proof (induction ws arbitrary: k)
  case Nil
  then show ?case
    by (intro exI[of _ k]) (auto simp: wakeup_all.simps[of _ q fl k] wait_queue_first_def waiters_def)
next
  case (Cons w ws)
  have z: "state (procs k (hd (waiters k q))) \<noteq> PROC_ZOMBIE" using Cons.prems(2,3) by (simp add: alive_def waiters_def)
  show ?case
  proof (rule wakeup_wait_ok[OF Cons.prems(1,2) z, of fl])
    fix k1 assume k1: "wakeup_wait MLFQ_sched_class q w fl True k = Some k1" "kern_ok k1" "keeps k k1" "current k1 = current k"
      "wait_list k1 = (wait_list k)(q := ws)" "waits k1 = (waits k)(w := (waits k w)\<lparr>wakeup_flags := fl\<rparr>)"
      "\<forall>r. state (procs k1 r) = (if r = hd (waiters k q) then PROC_RUNNABLE else state (procs k r))"
      "\<forall>r. waiters k1 r = ((waiters k)(q := tl (waiters k q))) r"
    have cons: "waiters k q = hd (waiters k q) # tl (waiters k q)" by (simp add: waiters_def Cons.prems(2))
    have w1: "waiters k1 q = tl (waiters k q)" using k1(8) by simp
    have mem: "p \<in> set (waiters k q) \<longleftrightarrow> p = hd (waiters k q) \<or> p \<in> set (waiters k1 q)" for p
      by (subst cons) (simp add: w1)
    have al: "alive k1 q" using Cons.prems(3) mem k1(7) by (simp add: alive_def)
    have wl: "wait_list k1 q = ws" using k1(5) by simp
    obtain k2 where k2: "wakeup_all MLFQ_sched_class q fl k1 = Some k2" "kern_ok k2" "keeps k1 k2" "current k2 = current k1"
      "wait_list k2 = (wait_list k1)(q := [])" "\<forall>w. waits k2 w = (if w \<in> set ws then (waits k1 w)\<lparr>wakeup_flags := fl\<rparr> else waits k1 w)"
      "\<forall>p. state (procs k2 p) = (if p \<in> set (waiters k1 q) then PROC_RUNNABLE else state (procs k1 p))"
      using Cons.IH[OF k1(2) wl al] by blast
    have "wakeup_all MLFQ_sched_class q fl k = Some k2"
      using k1(1) k2(1) Cons.prems(2) by (simp add: wakeup_all.simps[of _ q fl k] wait_queue_first_def)
    moreover have "state (procs k2 p) = (if p \<in> set (waiters k q) then PROC_RUNNABLE else state (procs k p))" for p
      using k2(7) k1(7) mem[of p] by simp
    moreover have "waits k2 v = (if v \<in> set (w # ws) then (waits k v)\<lparr>wakeup_flags := fl\<rparr> else waits k v)" for v
      using k2(6) k1(6) by simp
    ultimately show ?thesis using k2(2-5) k1(3-5) keeps_trans by (intro exI[of _ k2]) auto
  qed
qed

lemma wakeup_queue_kern_ok:
  assumes "kern_ok k" "alive k q"
  obtains k' where "wakeup_queue MLFQ_sched_class q fl True k = Some k'" "kern_ok k'" "keeps k k'" "current k' = current k"
    "wait_list k' = (wait_list k)(q := [])" "\<forall>w. waits k' w = (if w \<in> set (wait_list k q) then (waits k w)\<lparr>wakeup_flags := fl\<rparr> else waits k w)"
    "\<forall>p. state (procs k' p) = (if p \<in> set (waiters k q) then PROC_RUNNABLE else state (procs k p))"
proof -
  obtain k' where k': "wakeup_all MLFQ_sched_class q fl k = Some k'" "kern_ok k'" "keeps k k'" "current k' = current k"
    "wait_list k' = (wait_list k)(q := [])" "\<forall>w. waits k' w = (if w \<in> set (wait_list k q) then (waits k w)\<lparr>wakeup_flags := fl\<rparr> else waits k w)"
    "\<forall>p. state (procs k' p) = (if p \<in> set (waiters k q) then PROC_RUNNABLE else state (procs k p))"
    using wakeup_all_kern_ok[OF assms(1) refl assms(2), of fl] by blast
  moreover have "wakeup_queue MLFQ_sched_class q fl True k = Some k'"
    using k'(1) by (auto simp: wakeup_queue_def wakeup_all.simps[of _ q fl k] split: option.splits)
  ultimately show ?thesis using that by blast
qed

section \<open>Closing a box\<close>

lemma free_msgs_ok:
  "\<forall>m \<in> set ms. seg_chain (segs s) (m_next (msgs s m)) (F m) \<Longrightarrow>
   free_msgs ms s = Some (s\<lparr>kfreed := concat (map (\<lambda>m. m # F m) (rev ms)) @ kfreed s\<rparr>)"
proof (induction ms arbitrary: s)
  case (Cons m ms)
  have "free_msg m s = Some (s\<lparr>kfreed := (m # F m) @ kfreed s\<rparr>)" using Cons.prems by (intro free_msg_chain) simp
  moreover have "\<forall>n \<in> set ms. seg_chain (segs (s\<lparr>kfreed := (m # F m) @ kfreed s\<rparr>)) (m_next (msgs (s\<lparr>kfreed := (m # F m) @ kfreed s\<rparr>) n)) (F n)"
    using Cons.prems by simp
  ultimately show ?case using Cons.IH[of "s\<lparr>kfreed := (m # F m) @ kfreed s\<rparr>"] by simp
qed simp

text \<open>What the last part of a call makes of a box it leaves: \<open>n\<close> is the number of users that remain.\<close>

definition closing_box :: "msg_mbox \<Rightarrow> int \<Rightarrow> msg_mbox" where
  "closing_box mb n = (if n = 0 then mb\<lparr>inuse := 0, mb_state := CLOSED, max_slots := 0, slots := 0, mb_msgs := []\<rparr>
     else mb\<lparr>inuse := n, mb_state := CLOSING, mb_msgs := []\<rparr>)"

lemma mbox_ok_close:
  assumes "mbox_ok s" "kern_ok k'" "\<And>r. length (wait_list k' r) \<le> length (wait_list (kn s) r)"
    and "wait_list k' (MboxSendQ b) = []" "wait_list k' (MboxRecvQ b) = []" "0 \<le> n"
  shows "mbox_ok (s\<lparr>kn := k', boxes := (boxes s)(b := closing_box mb n), free_mbox_list := fl, kfreed := kf\<rparr>)"
  unfolding mbox_ok_def
proof (intro conjI allI)
  fix c
  note d = mbox_okD(2-4)[OF assms(1), of c] and l = assms(3)[of "MboxSendQ c"] assms(3)[of "MboxRecvQ c"]
  let ?s = "s\<lparr>kn := k', boxes := (boxes s)(b := closing_box mb n), free_mbox_list := fl, kfreed := kf\<rparr>"
  show "int (length (wait_list (kn ?s) (MboxSendQ c)) + length (wait_list (kn ?s) (MboxRecvQ c))) \<le> inuse (boxes ?s c)"
    using d(1) l assms(4-6) by (auto simp: closing_box_def)
  show "if mb_state (boxes ?s c) = OPENED then slots (boxes ?s c) = length (mb_msgs (boxes ?s c))
      else mb_msgs (boxes ?s c) = [] \<and> wait_list (kn ?s) (MboxSendQ c) = [] \<and> wait_list (kn ?s) (MboxRecvQ c) = []"
    using d(2,3) l assms(4,5) by (auto simp: closing_box_def)
qed (simp add: assms(2))

lemma ipc_mbox_free_ok:
  assumes "mbox_ok s" "get_mbox i s = Some b" "alive (kn s) (MboxSendQ b)" "alive (kn s) (MboxRecvQ b)"
    and "\<forall>m \<in> set (mb_msgs (boxes s b)). seg_chain (segs s) (m_next (msgs s m)) (F m)"
  shows "\<exists>s'. ipc_mbox_free MLFQ_sched_class i s = Some (0, s') \<and> mbox_ok s'
    \<and> boxes s' = (boxes s)(b := closing_box (boxes s b) (inuse (boxes s b)))
    \<and> free_mbox_list s' = (if inuse (boxes s b) = 0 then free_mbox_list s @ [b] else free_mbox_list s)
    \<and> kfreed s' = concat (map (\<lambda>m. m # F m) (rev (mb_msgs (boxes s b)))) @ kfreed s
    \<and> wait_list (kn s') = (wait_list (kn s))(MboxSendQ b := [], MboxRecvQ b := [])
    \<and> (\<forall>p \<in> set (waiters (kn s) (MboxSendQ b)) \<union> set (waiters (kn s) (MboxRecvQ b)). state (procs (kn s') p) = PROC_RUNNABLE)
    \<and> (\<forall>w \<in> set (wait_list (kn s) (MboxSendQ b)) \<union> set (wait_list (kn s) (MboxRecvQ b)). wakeup_flags (waits (kn s') w) = WT_INTERRUPTED)"
proof -
  note ko = mbox_okD(1)[OF assms(1)]
  have op: "mb_state (boxes s b) = OPENED" using assms(2) by (auto simp: get_mbox_def split: if_splits)
  define mb where "mb = (boxes s b)\<lparr>mb_state := CLOSING, mb_msgs := []\<rparr>"
  define s1 where "s1 = s\<lparr>boxes := (boxes s)(b := mb), kfreed := concat (map (\<lambda>m. m # F m) (rev (mb_msgs (boxes s b)))) @ kfreed s\<rparr>"
  define s0 where "s0 = s\<lparr>boxes := (boxes s)(b := mb)\<rparr>"
  have fm: "free_msgs (mb_msgs (boxes s b)) s0 = Some s1"
    using free_msgs_ok[of "mb_msgs (boxes s b)" s0 F] assms(5) by (simp add: s0_def s1_def)
  obtain k1 where k1: "wakeup_queue MLFQ_sched_class (MboxSendQ b) WT_INTERRUPTED True (kn s) = Some k1" "kern_ok k1" "keeps (kn s) k1"
    "current k1 = current (kn s)" "wait_list k1 = (wait_list (kn s))(MboxSendQ b := [])"
    "\<forall>w. waits k1 w = (if w \<in> set (wait_list (kn s) (MboxSendQ b)) then (waits (kn s) w)\<lparr>wakeup_flags := WT_INTERRUPTED\<rparr> else waits (kn s) w)"
    "\<forall>p. state (procs k1 p) = (if p \<in> set (waiters (kn s) (MboxSendQ b)) then PROC_RUNNABLE else state (procs (kn s) p))"
    by (rule wakeup_queue_kern_ok[OF ko assms(3)])
  have wq: "waiters k1 (MboxRecvQ b) = waiters (kn s) (MboxRecvQ b)" using k1(5,6) by (simp add: waiters_def)
  then have al: "alive k1 (MboxRecvQ b)" using assms(4) k1(7) by (simp add: alive_def)
  obtain k2 where k2: "wakeup_queue MLFQ_sched_class (MboxRecvQ b) WT_INTERRUPTED True k1 = Some k2" "kern_ok k2" "keeps k1 k2"
    "current k2 = current k1" "wait_list k2 = (wait_list k1)(MboxRecvQ b := [])"
    "\<forall>w. waits k2 w = (if w \<in> set (wait_list k1 (MboxRecvQ b)) then (waits k1 w)\<lparr>wakeup_flags := WT_INTERRUPTED\<rparr> else waits k1 w)"
    "\<forall>p. state (procs k2 p) = (if p \<in> set (waiters k1 (MboxRecvQ b)) then PROC_RUNNABLE else state (procs k1 p))"
    by (rule wakeup_queue_kern_ok[OF k1(2) al])
  define s' where "s' = s\<lparr>kn := k2, boxes := (boxes s)(b := closing_box (boxes s b) (inuse (boxes s b))),
      free_mbox_list := (if inuse (boxes s b) = 0 then free_mbox_list s @ [b] else free_mbox_list s), kfreed := kfreed s1\<rparr>"
  have wl: "wait_list k2 = (wait_list (kn s))(MboxSendQ b := [], MboxRecvQ b := [])" using k1(5) k2(5) by simp
  have e: "wait_queue_empty (MboxSendQ b) k2" "wait_queue_empty (MboxRecvQ b) k2" by (simp_all add: wait_queue_empty_def wl)
  have st: "upd_box b (\<lambda>mb. mb\<lparr>mb_msgs := []\<rparr>) (upd_box b (\<lambda>mb. mb\<lparr>mb_state := CLOSING\<rparr>) s) = s0"
    by (simp add: upd_box_def s0_def mb_def)
  have "ipc_mbox_free MLFQ_sched_class i s = Some (0, s')"
  proof (cases "inuse (boxes s b) = 0")
    case True
    then have "(boxes s b)\<lparr>inuse := 0\<rparr> = boxes s b" by (cases "boxes s b") simp
    then have "closing_box (boxes s b) 0 = (boxes s b)\<lparr>mb_msgs := [], mb_state := CLOSED, max_slots := 0, slots := 0\<rparr>"
      by (cases "boxes s b") (simp add: closing_box_def)
    then show ?thesis using True assms(2) fm k1(1) k2(1) e unfolding ipc_mbox_free_def
      by (simp add: st) (simp add: upd_box_def on_kern_def s1_def mb_def mbox_free_def s'_def)
  next
    case False
    then show ?thesis using assms(2) fm k1(1) k2(1) e unfolding ipc_mbox_free_def
      by (simp add: st) (simp add: upd_box_def on_kern_def s1_def mb_def closing_box_def s'_def)
  qed
  moreover have "0 \<le> inuse (boxes s b)" using mbox_okD(2)[OF assms(1), of b] by linarith
  then have "mbox_ok s'" unfolding s'_def
    by (intro mbox_ok_close[OF assms(1) k2(2)]) (simp_all add: wl)
  moreover have "state (procs k2 p) = PROC_RUNNABLE" if "p \<in> set (waiters (kn s) (MboxSendQ b)) \<union> set (waiters (kn s) (MboxRecvQ b))" for p
    using that k2(7) k1(7) wq by auto
  moreover have "wakeup_flags (waits k2 w) = WT_INTERRUPTED" if "w \<in> set (wait_list (kn s) (MboxSendQ b)) \<union> set (wait_list (kn s) (MboxRecvQ b))" for w
    using that k2(6) k1(5,6) by auto
  ultimately show ?thesis using wl by (intro exI[of _ s']) (simp add: s'_def s1_def)
qed

section \<open>Properties\<close>

text \<open>C32: A message survives the way through the kernel.  \<open>load_msg\<close> either returns a message from which
  \<open>store_msg\<close> writes exactly the bytes of the source, whatever their number, and which \<open>free_msg\<close> gives
  back completely; or memory runs out in the middle, and everything allocated so far has been given
  back, each block once.  In both cases nothing but the memory of the message changes.\<close>

theorem mbox_message_roundtrip:
  assumes "distinct (allocs s)"
  shows "\<exists>r as s'. load_msg src len s = Some (r, s') \<and> allocs s = as @ allocs s' \<and> boxes s' = boxes s \<and> kn s' = kn s
    \<and> (\<forall>x. x \<notin> set as \<longrightarrow> msgs s' x = msgs s x \<and> segs s' x = segs s x)
    \<and> (case r of None \<Rightarrow> kfreed s' = as @ kfreed s
       | Some m \<Rightarrow> kfreed s' = kfreed s \<and> store_msg m s' = Some (map src [0..<len])
           \<and> free_msg m s' = Some (s'\<lparr>kfreed := as @ kfreed s\<rparr>) \<and> length as = 1 + nchunks (len - MAX_MSG_DATALEN))"
proof -
  obtain r as s' where r: "load_msg src len s = Some (r, s')" "allocs s = as @ allocs s'"
    "s' = s\<lparr>vs := (vs s)\<lparr>heap := heap (vs s')\<rparr>, msgs := msgs s', segs := segs s', kfreed := kfreed s'\<rparr>"
    "\<forall>x. x \<notin> set as \<longrightarrow> msgs s' x = msgs s x \<and> segs s' x = segs s x"
    "case r of None \<Rightarrow> kfreed s' = as @ kfreed s \<and> length as < nchunks (len - MAX_MSG_DATALEN) + 1
       | Some m \<Rightarrow> kfreed s' = kfreed s \<and> (\<exists>as'. as = m # as' \<and> is_msg s' m as' (map src [0..<len])) \<and>
           m_pid (msgs s' m) = pid (procs (kn s) (current (kn s)))"
    using load_msg_ok[OF assms, of src len] by blast
  have "boxes s' = boxes s" "kn s' = kn s" using arg_cong[OF r(3), of boxes] arg_cong[OF r(3), of kn] by simp_all
  moreover have "store_msg m s' = Some (map src [0..<len]) \<and> free_msg m s' = Some (s'\<lparr>kfreed := as @ kfreed s\<rparr>)
      \<and> length as = 1 + nchunks (len - MAX_MSG_DATALEN)" if m: "r = Some m" for m
  proof -
    obtain as' where a: "as = m # as'" "is_msg s' m as' (map src [0..<len])" "kfreed s' = kfreed s" using r(5) m by auto
    have "seg_chain (segs s') (m_next (msgs s' m)) as'" using a(2) by (simp add: is_msg_def)
    from free_msg_chain[OF this] show ?thesis using store_msg_ok[OF a(2)] a by (simp add: is_msg_def)
  qed
  ultimately show ?thesis using r(1,2,4,5) by (intro exI[of _ r] exI[of _ as] exI[of _ s']) (auto split: option.splits)
qed

text \<open>One open box with one slot and one message, at which process 3 waits to receive nothing and to
  send; process 1 runs.  Blocks 40 and 41 are free.\<close>

definition demo_box :: "nat list \<Rightarrow> wqid list \<Rightarrow> mbox_sys" where
  "demo_box ms qs = \<lparr>
     kn = demo_kern\<lparr>wait_list := (\<lambda>q. if q \<in> set qs then [5] else []),
       waits := (\<lambda>_. \<lparr>w_proc = Some 3, wakeup_flags = WT_INTERRUPTED, wait_queue = hd (qs @ [MboxSendQ 0])\<rparr>)\<rparr>,
     vs = demo_vm\<lparr>heap := [Some 40, Some 41, None]\<rparr>, mbox_map = (\<lambda>_. None)(0 \<mapsto> 9),
     boxes = (\<lambda>b. \<lparr>mb_id = int b, inuse = (if b = 0 then int (length qs) else 0), mb_state = (if b = 0 then OPENED else CLOSED),
       max_slots = (if b = 0 then 1 else 0), slots = (if b = 0 then length ms else 0), mb_msgs = (if b = 0 then ms else [])\<rparr>),
     free_mbox_list = [1..<MBOX_P_PAGE], msgs = (\<lambda>_. \<lparr>m_pid = 2, m_bytes = 3, m_next = None, m_data = (\<lambda>i. of_nat i)\<rparr>),
     segs = (\<lambda>_. \<lparr>s_next = None, s_data = (\<lambda>_. 0)\<rparr>), kfreed = []\<rparr>"

lemma demo_box_ok:
  assumes "qs = [] \<or> qs = [MboxSendQ 0] \<or> qs = [MboxRecvQ 0]"
  shows "mbox_ok (demo_box ms qs)" "alive (kn (demo_box ms qs)) q" "current (kn (demo_box ms qs)) \<noteq> idleproc (kn (demo_box ms qs))"
    "timer_ready None k" "\<forall>r. 6 \<notin> set (wait_list (kn (demo_box ms qs)) r)" "get_mbox 0 (demo_box ms qs) = Some 0"
proof -
  have sr: "same_rq demo_kern (kn (demo_box ms qs))" by (simp add: same_rq_def demo_box_def)
  have "sched_inv (kn (demo_box ms qs))" by (rule sched_inv_frame[OF demo_kern_ok(3) sr]) (simp_all add: demo_box_def)
  moreover have "mlfq_ok (kn (demo_box ms qs))" by (rule MLFQ.inv_frame[OF demo_kern_ok(1) sr])
  moreover have "wait_ok (kn (demo_box ms qs))" "distinct (timer_list (kn (demo_box ms qs)))"
    using assms by (auto simp: demo_box_def demo_kern_def wait_ok_def)
  ultimately have "kern_ok (kn (demo_box ms qs))" by (simp add: kern_ok_def)
  then show "mbox_ok (demo_box ms qs)" using assms by (auto simp: mbox_ok_def demo_box_def)
  show "alive (kn (demo_box ms qs)) q" by (auto simp: alive_def waiters_def demo_box_def demo_kern_def)
  show "current (kn (demo_box ms qs)) \<noteq> idleproc (kn (demo_box ms qs))" "timer_ready None k"
    "\<forall>r. 6 \<notin> set (wait_list (kn (demo_box ms qs)) r)" "get_mbox 0 (demo_box ms qs) = Some 0"
    by (simp_all add: demo_box_def demo_kern_def kern0_def timer_ready_def get_mbox_def)
qed

theorem mbox_message_roundtrip_witness:
  "\<exists>s'. load_msg of_nat 600 (demo_box [] []) = Some (Some 40, s') \<and> store_msg 40 s' = Some (map of_nat [0..<600])
    \<and> allocs s' = []"
proof -
  have d: "distinct (allocs (demo_box [] []))" "allocs (demo_box [] []) = [40, 41]" by (simp_all add: allocs_def demo_box_def)
  obtain s0 where s0: "load_msg of_nat 600 (demo_box [] []) = Some (Some 40, s0)"
    by (simp add: load_msg_def load_loop.simps mb_kmalloc_def kmalloc_def set_next_def demo_box_def Let_def)
  then show ?thesis using mbox_message_roundtrip[OF d(1), of of_nat 600] d(2) by (auto simp: nchunks_def Cons_eq_append_conv)
qed

text \<open>C33: \<open>send_msg\<close> to an open box.  If all slots are taken the sender sleeps, behind those who wait
  already, and is counted in \<open>inuse\<close>; no message is lost or added.  Otherwise the message is queued
  behind those already in the box, the first waiting receiver (if any) is made runnable and told
  so, and the call returns 0.  The state stays consistent.\<close>

theorem send_msg_correct:
  assumes "mbox_ok s" "mb_state (boxes s b) = OPENED" "alive (kn s) (MboxRecvQ b)"
    and "\<forall>r. w \<notin> set (wait_list (kn s) r)" "current (kn s) \<noteq> idleproc (kn s)" "timer_ready timer (kn s)"
  shows "\<exists>s'. send_msg MLFQ_sched_class b m timer w s = Some (if slots (boxes s b) < max_slots (boxes s b) then Some 0 else None, s')
    \<and> mbox_ok s'
    \<and> (if slots (boxes s b) < max_slots (boxes s b)
       then mb_msgs (boxes s' b) = mb_msgs (boxes s b) @ [m] \<and> inuse (boxes s' b) = inuse (boxes s b)
         \<and> current (kn s') = current (kn s)
         \<and> (\<forall>v vs. wait_list (kn s) (MboxRecvQ b) = v # vs \<longrightarrow> wakeup_flags (waits (kn s') v) = WT_MBOX_RECV
             \<and> state (procs (kn s') (hd (waiters (kn s) (MboxRecvQ b)))) = PROC_RUNNABLE)
       else boxes s' = (boxes s)(b := (boxes s b)\<lparr>inuse := inuse (boxes s b) + 1\<rparr>)
         \<and> waiters (kn s') (MboxSendQ b) = waiters (kn s) (MboxSendQ b) @ [current (kn s)]
         \<and> state (procs (kn s') (current (kn s))) = PROC_SLEEPING)"
proof (cases "slots (boxes s b) < max_slots (boxes s b)")
  case True
  obtain s' where s': "send_msg MLFQ_sched_class b m timer w s = Some (Some 0, s')" "mbox_ok s'"
    "s' = s\<lparr>kn := kn s', boxes := (boxes s)(b := (boxes s b)\<lparr>slots := slots (boxes s b) + 1, mb_msgs := mb_msgs (boxes s b) @ [m]\<rparr>)\<rparr>"
    "woke_first (MboxRecvQ b) WT_MBOX_RECV (kn s) (kn s')"
    by (rule send_msg_room[OF assms(1,2) True assms(3)])
  have "mb_msgs (boxes s' b) = mb_msgs (boxes s b) @ [m]" "inuse (boxes s' b) = inuse (boxes s b)"
    using arg_cong[OF s'(3), of "\<lambda>s. boxes s b"] by simp_all
  then show ?thesis using s'(1,2,4) True by (intro exI[of _ s']) (auto simp: woke_first_def)
next
  case False
  obtain s' where s': "send_msg MLFQ_sched_class b m timer w s = Some (None, s')" "mbox_ok s'"
    "s' = s\<lparr>kn := kn s', boxes := (boxes s)(b := (boxes s b)\<lparr>inuse := inuse (boxes s b) + 1\<rparr>)\<rparr>"
    "\<forall>r. waiters (kn s') r = ((waiters (kn s))(MboxSendQ b := waiters (kn s) (MboxSendQ b) @ [current (kn s)])) r"
    "state (procs (kn s') (current (kn s))) = PROC_SLEEPING" "wait_state (procs (kn s') (current (kn s))) = WT_MBOX_SEND"
    using send_msg_full[OF assms(1,2) _ assms(4-6), of m] False by (metis linorder_not_less)
  have "boxes s' = (boxes s)(b := (boxes s b)\<lparr>inuse := inuse (boxes s b) + 1\<rparr>)" using arg_cong[OF s'(3), of boxes] by simp
  then show ?thesis using s'(1,2,4,5) False by (intro exI[of _ s']) simp
qed

theorem send_msg_correct_witness:
  "(\<exists>s'. send_msg MLFQ_sched_class 0 30 None 6 (demo_box [] [MboxRecvQ 0]) = Some (Some 0, s')
      \<and> mb_msgs (boxes s' 0) = [30] \<and> state (procs (kn s') 3) = PROC_RUNNABLE)
   \<and> (\<exists>s'. send_msg MLFQ_sched_class 0 30 None 6 (demo_box [7] []) = Some (None, s')
      \<and> mb_msgs (boxes s' 0) = [7] \<and> waiters (kn s') (MboxSendQ 0) = [1])"
proof -
  have d: "mb_state (boxes (demo_box ms qs) 0) = OPENED" "slots (boxes (demo_box ms qs) 0) = length ms"
    "max_slots (boxes (demo_box ms qs) 0) = 1" "mb_msgs (boxes (demo_box ms qs) 0) = ms"
    "wait_list (kn (demo_box [] [MboxRecvQ 0])) (MboxRecvQ 0) = [5]" "waiters (kn (demo_box [] [MboxRecvQ 0])) (MboxRecvQ 0) = [3]"
    "waiters (kn (demo_box [7] [])) (MboxSendQ 0) = []" "current (kn (demo_box ms qs)) = 1" for ms qs
    by (simp_all add: demo_box_def waiters_def demo_kern_def)
  have q: "[MboxRecvQ 0] = [] \<or> [MboxRecvQ 0] = [MboxSendQ 0] \<or> [MboxRecvQ 0] = [MboxRecvQ 0]"
    "([] :: wqid list) = [] \<or> [] = [MboxSendQ 0] \<or> [] = [MboxRecvQ 0]" by simp_all
  have "\<exists>s'. send_msg MLFQ_sched_class 0 30 None 6 (demo_box [] [MboxRecvQ 0]) = Some (Some 0, s')
      \<and> mb_msgs (boxes s' 0) = [30] \<and> state (procs (kn s') 3) = PROC_RUNNABLE"
    using send_msg_correct[OF demo_box_ok(1)[OF q(1), of "[]"] d(1) demo_box_ok(2,5,3,4)[OF q(1)], of 30]
    by (elim ex_forward) (simp add: d)
  moreover have "\<exists>s'. send_msg MLFQ_sched_class 0 30 None 6 (demo_box [7] []) = Some (None, s')
      \<and> mb_msgs (boxes s' 0) = [7] \<and> waiters (kn s') (MboxSendQ 0) = [1]"
    using send_msg_correct[OF demo_box_ok(1)[OF q(2), of "[7]"] d(1) demo_box_ok(2,5,3,4)[OF q(2)], of 30]
    by (elim ex_forward) (simp add: d)
  ultimately show ?thesis by (rule conjI)
qed

text \<open>C34: \<open>recv_msg\<close> from an open box.  From an empty box the receiver sleeps, behind those who wait
  already.  Otherwise it looks at the oldest message: one that does not fit stays where it is, the
  next receiver is woken and the call returns \<open>-E_TOO_BIG\<close>; one that fits is taken out, its slot is
  free for the first sender that waits, which is woken.  The state stays consistent.\<close>

theorem recv_msg_correct:
  assumes "mbox_ok s" "mb_state (boxes s b) = OPENED" "alive (kn s) (MboxSendQ b)" "alive (kn s) (MboxRecvQ b)"
    and "\<forall>r. w \<notin> set (wait_list (kn s) r)" "current (kn s) \<noteq> idleproc (kn s)" "timer_ready timer (kn s)"
  shows "\<exists>s'. mbox_ok s' \<and> (case mb_msgs (boxes s b) of
      [] \<Rightarrow> recv_msg MLFQ_sched_class b n timer w s = Some (None, s')
        \<and> waiters (kn s') (MboxRecvQ b) = waiters (kn s) (MboxRecvQ b) @ [current (kn s)]
        \<and> state (procs (kn s') (current (kn s))) = PROC_SLEEPING
    | m # ms \<Rightarrow> if n < m_bytes (msgs s m)
        then recv_msg MLFQ_sched_class b n timer w s = Some (Some (- E_TOO_BIG, m), s') \<and> boxes s' = boxes s
          \<and> waiters (kn s') (MboxRecvQ b) = tl (waiters (kn s) (MboxRecvQ b))
        else recv_msg MLFQ_sched_class b n timer w s = Some (Some (0, m), s')
          \<and> boxes s' = (boxes s)(b := (boxes s b)\<lparr>slots := slots (boxes s b) - 1, mb_msgs := ms\<rparr>)
          \<and> waiters (kn s') (MboxSendQ b) = tl (waiters (kn s) (MboxSendQ b))
          \<and> (\<forall>v vs. wait_list (kn s) (MboxSendQ b) = v # vs \<longrightarrow> wakeup_flags (waits (kn s') v) = WT_MBOX_SEND
              \<and> state (procs (kn s') (hd (waiters (kn s) (MboxSendQ b)))) = PROC_RUNNABLE))"
proof (cases "mb_msgs (boxes s b)")
  case Nil
  obtain s' where s': "recv_msg MLFQ_sched_class b n timer w s = Some (None, s')" "mbox_ok s'"
    "s' = s\<lparr>kn := kn s', boxes := (boxes s)(b := (boxes s b)\<lparr>inuse := inuse (boxes s b) + 1\<rparr>)\<rparr>"
    "\<forall>r. waiters (kn s') r = ((waiters (kn s))(MboxRecvQ b := waiters (kn s) (MboxRecvQ b) @ [current (kn s)])) r"
    "state (procs (kn s') (current (kn s))) = PROC_SLEEPING" "wait_state (procs (kn s') (current (kn s))) = WT_MBOX_RECV"
    by (rule recv_msg_empty[OF assms(1,2) Nil assms(5-7)])
  then show ?thesis using Nil by (intro exI[of _ s']) simp
next
  case (Cons m ms)
  obtain s' where s': "recv_msg MLFQ_sched_class b n timer w s = Some (Some (if n < m_bytes (msgs s m) then - E_TOO_BIG else 0, m), s')" "mbox_ok s'"
    "if n < m_bytes (msgs s m) then s' = s\<lparr>kn := kn s'\<rparr> \<and> woke_first (MboxRecvQ b) WT_MBOX_RECV (kn s) (kn s')
       else s' = s\<lparr>kn := kn s', boxes := (boxes s)(b := (boxes s b)\<lparr>slots := slots (boxes s b) - 1, mb_msgs := ms\<rparr>)\<rparr>
         \<and> woke_first (MboxSendQ b) WT_MBOX_SEND (kn s) (kn s')"
    using recv_msg_some[OF assms(1,2) Cons assms(3,4)] by blast
  show ?thesis
  proof (cases "n < m_bytes (msgs s m)")
    case True
    then have e: "s' = s\<lparr>kn := kn s'\<rparr>" and w: "woke_first (MboxRecvQ b) WT_MBOX_RECV (kn s) (kn s')" using s'(3) by simp_all
    have "boxes s' = boxes s" using arg_cong[OF e, of boxes] by simp
    then show ?thesis using s'(1,2) w True Cons by (intro exI[of _ s']) (auto simp: woke_first_def)
  next
    case False
    then have e: "s' = s\<lparr>kn := kn s', boxes := (boxes s)(b := (boxes s b)\<lparr>slots := slots (boxes s b) - 1, mb_msgs := ms\<rparr>)\<rparr>"
      and w: "woke_first (MboxSendQ b) WT_MBOX_SEND (kn s) (kn s')" using s'(3) by simp_all
    have "boxes s' = (boxes s)(b := (boxes s b)\<lparr>slots := slots (boxes s b) - 1, mb_msgs := ms\<rparr>)" using arg_cong[OF e, of boxes] by simp
    then show ?thesis using s'(1,2) w False Cons by (intro exI[of _ s']) (auto simp: woke_first_def)
  qed
qed

theorem recv_msg_correct_witness:
  "(\<exists>s'. recv_msg MLFQ_sched_class 0 3 None 6 (demo_box [7] [MboxSendQ 0]) = Some (Some (0, 7), s')
      \<and> mb_msgs (boxes s' 0) = [] \<and> state (procs (kn s') 3) = PROC_RUNNABLE)
   \<and> (\<exists>s'. recv_msg MLFQ_sched_class 0 2 None 6 (demo_box [7] [MboxSendQ 0]) = Some (Some (- E_TOO_BIG, 7), s')
      \<and> mb_msgs (boxes s' 0) = [7])"
proof -
  have q: "[MboxSendQ 0] = [] \<or> [MboxSendQ 0] = [MboxSendQ 0] \<or> [MboxSendQ 0] = [MboxRecvQ 0]" by simp
  have d: "mb_state (boxes (demo_box ms qs) 0) = OPENED" "mb_msgs (boxes (demo_box ms qs) 0) = ms" "m_bytes (msgs (demo_box ms qs) 7) = 3"
    "wait_list (kn (demo_box [7] [MboxSendQ 0])) (MboxSendQ 0) = [5]" "waiters (kn (demo_box [7] [MboxSendQ 0])) (MboxSendQ 0) = [3]" for ms qs
    by (simp_all add: demo_box_def waiters_def demo_kern_def)
  have "\<exists>s'. recv_msg MLFQ_sched_class 0 3 None 6 (demo_box [7] [MboxSendQ 0]) = Some (Some (0, 7), s')
      \<and> mb_msgs (boxes s' 0) = [] \<and> state (procs (kn s') 3) = PROC_RUNNABLE"
    using recv_msg_correct[OF demo_box_ok(1)[OF q, of "[7]"] d(1) demo_box_ok(2,2,5,3,4)[OF q], of 3]
    by (elim ex_forward) (simp add: d)
  moreover have "\<exists>s'. recv_msg MLFQ_sched_class 0 2 None 6 (demo_box [7] [MboxSendQ 0]) = Some (Some (- E_TOO_BIG, 7), s')
      \<and> mb_msgs (boxes s' 0) = [7]"
    using recv_msg_correct[OF demo_box_ok(1)[OF q, of "[7]"] d(1) demo_box_ok(2,2,5,3,4)[OF q], of 2]
    by (elim ex_forward) (simp add: d)
  ultimately show ?thesis by (rule conjI)
qed

text \<open>C35: \<open>ipc_mbox_free\<close>.  A number that names no open box gives \<open>-E_INVAL\<close> and changes nothing.
  Otherwise every queued message is given back, once and with all its segments; everybody who waits
  to send or to receive is made runnable and told that he was interrupted; the box becomes \<open>CLOSED\<close>
  and returns to the free list if nobody uses it any more, else it stays \<open>CLOSING\<close> for the last user
  to do that.  No other box changes, and the state stays consistent.\<close>

theorem ipc_mbox_free_correct:
  assumes "mbox_ok s" "\<forall>q. alive (kn s) q"
    and "\<forall>b. \<forall>m \<in> set (mb_msgs (boxes s b)). seg_chain (segs s) (m_next (msgs s m)) (F m)"
  shows "case get_mbox i s of
      None \<Rightarrow> ipc_mbox_free MLFQ_sched_class i s = Some (- E_INVAL, s)
    | Some b \<Rightarrow> \<exists>s'. ipc_mbox_free MLFQ_sched_class i s = Some (0, s') \<and> mbox_ok s' \<and> get_mbox i s' = None
        \<and> boxes s' = (boxes s)(b := closing_box (boxes s b) (inuse (boxes s b)))
        \<and> free_mbox_list s' = (if inuse (boxes s b) = 0 then free_mbox_list s @ [b] else free_mbox_list s)
        \<and> kfreed s' = concat (map (\<lambda>m. m # F m) (rev (mb_msgs (boxes s b)))) @ kfreed s
        \<and> (\<forall>p \<in> set (waiters (kn s) (MboxSendQ b)) \<union> set (waiters (kn s) (MboxRecvQ b)). state (procs (kn s') p) = PROC_RUNNABLE)
        \<and> (\<forall>w \<in> set (wait_list (kn s) (MboxSendQ b)) \<union> set (wait_list (kn s) (MboxRecvQ b)). wakeup_flags (waits (kn s') w) = WT_INTERRUPTED)"
proof (cases "get_mbox i s")
  case None
  then show ?thesis by (simp add: ipc_mbox_free_def)
next
  case (Some b)
  have b: "b = nat i" using Some by (simp add: get_mbox_def split: if_splits)
  obtain s' where s': "ipc_mbox_free MLFQ_sched_class i s = Some (0, s')" "mbox_ok s'"
    "boxes s' = (boxes s)(b := closing_box (boxes s b) (inuse (boxes s b)))"
    "free_mbox_list s' = (if inuse (boxes s b) = 0 then free_mbox_list s @ [b] else free_mbox_list s)"
    "kfreed s' = concat (map (\<lambda>m. m # F m) (rev (mb_msgs (boxes s b)))) @ kfreed s"
    "\<forall>p \<in> set (waiters (kn s) (MboxSendQ b)) \<union> set (waiters (kn s) (MboxRecvQ b)). state (procs (kn s') p) = PROC_RUNNABLE"
    "\<forall>w \<in> set (wait_list (kn s) (MboxSendQ b)) \<union> set (wait_list (kn s) (MboxRecvQ b)). wakeup_flags (waits (kn s') w) = WT_INTERRUPTED"
    using ipc_mbox_free_ok[OF assms(1) Some, of F] assms(2,3) by blast
  have "get_mbox i s' = None" using b s'(3) by (simp add: get_mbox_def closing_box_def)
  then show ?thesis using s' Some by auto
qed

theorem ipc_mbox_free_correct_witness:
  "\<exists>s'. ipc_mbox_free MLFQ_sched_class 0 (demo_box [7] [MboxSendQ 0]) = Some (0, s') \<and> kfreed s' = [7]
    \<and> mb_state (boxes s' 0) = CLOSING \<and> state (procs (kn s') 3) = PROC_RUNNABLE"
proof -
  have q: "[MboxSendQ 0] = [] \<or> [MboxSendQ 0] = [MboxSendQ 0] \<or> [MboxSendQ 0] = [MboxRecvQ 0]" by simp
  have al: "\<forall>r. alive (kn (demo_box [7] [MboxSendQ 0])) r" using demo_box_ok(2)[OF q] by blast
  have f: "\<forall>b. \<forall>m \<in> set (mb_msgs (boxes (demo_box [7] [MboxSendQ 0]) b)).
      seg_chain (segs (demo_box [7] [MboxSendQ 0])) (m_next (msgs (demo_box [7] [MboxSendQ 0]) m)) []"
    by (simp add: demo_box_def)
  have d: "mb_msgs (boxes (demo_box [7] [MboxSendQ 0]) 0) = [7]" "inuse (boxes (demo_box [7] [MboxSendQ 0]) 0) = 1"
    "waiters (kn (demo_box [7] [MboxSendQ 0])) (MboxSendQ 0) = [3]" "kfreed (demo_box [7] [MboxSendQ 0]) = []"
    by (simp_all add: demo_box_def waiters_def demo_kern_def)
  from ipc_mbox_free_correct[OF demo_box_ok(1)[OF q] al f, of 0] show ?thesis
    by (auto simp: demo_box_ok(6)[OF q] d closing_box_def)
qed

end
