(* ===== verification/Philo.thy ===== *)
theory Philo
  imports Sem
begin

text \<open>
  The five philosophers of \<open>kern/sync/check_sync.c\<close>: kernel threads that run concurrently and meet at
  the semaphores of \<open>Sem\<close>.  A semaphore is its abstract value, a counter and the queue of those who
  wait, with the operations \<open>abs_up\<close> and \<open>abs_down\<close> that the kernel's \<open>up\<close> and \<open>down\<close> are proved to
  implement.  A state has the place in the program of every philosopher; a step lets any one of them
  run up to his next access to shared data, so the runs contain every interleaving of the kernel.
\<close>

section \<open>The program\<close>

abbreviation (input) "N \<equiv> (5 :: nat)"
abbreviation (input) "TIMES \<equiv> (4 :: nat)"

text \<open>\<open>LEFT\<close> is \<open>(i-1+N)%N\<close> on integers; with natural numbers the addition comes first.\<close>

definition LEFT :: "nat \<Rightarrow> nat" where
  "LEFT i = (i + N - 1) mod N"

definition RIGHT :: "nat \<Rightarrow> nat" where
  "RIGHT i = (i + 1) mod N"

datatype phil_state = THINKING | HUNGRY | EATING

text \<open>Where a philosopher is: at the test of the loop, in the first \<open>do_sleep\<close>, at the statements of
  \<open>phi_take_forks_sema\<close>, in the second \<open>do_sleep\<close>, at the statements of \<open>phi_put_forks_sema\<close>, or done.\<close>

datatype place = Loop | Think | TDown | TSet | TTest | TUp | SDown | Eat | PDown | PSet | PLeft | PRight | PUp | Quit

fun after :: "place \<Rightarrow> place" where
  "after Loop = Think"
| "after Think = TDown"
| "after TDown = TSet"
| "after TSet = TTest"
| "after TTest = TUp"
| "after TUp = SDown"
| "after SDown = Eat"
| "after Eat = PDown"
| "after PDown = PSet"
| "after PSet = PLeft"
| "after PLeft = PRight"
| "after PRight = PUp"
| "after PUp = Loop"
| "after Quit = Quit"

record table =
  state_sema :: "nat \<Rightarrow> phil_state"
  mutex :: "int \<times> nat list"
  seats :: "nat \<Rightarrow> int \<times> nat list"
  place :: "nat \<Rightarrow> place"
  iter :: "nat \<Rightarrow> nat"

definition goto :: "nat \<Rightarrow> table \<Rightarrow> table" where
  "goto i t = t\<lparr>place := (place t)(i := after (place t i))\<rparr>"

text \<open>The thread that \<open>up\<close> takes from the queue returns from its \<open>down\<close>.\<close>

definition wake :: "nat list \<Rightarrow> table \<Rightarrow> table" where
  "wake ps t = (case ps of [] \<Rightarrow> t | p # _ \<Rightarrow> goto p t)"

definition up_mutex :: "table \<Rightarrow> table" where
  "up_mutex t = wake (snd (mutex t)) (t\<lparr>mutex := abs_up (mutex t)\<rparr>)"

definition up_seat :: "nat \<Rightarrow> table \<Rightarrow> table" where
  "up_seat i t = wake (snd (seats t i)) (t\<lparr>seats := (seats t)(i := abs_up (seats t i))\<rparr>)"

text \<open>\<open>down\<close> returns at once or leaves the thread in the queue; \<open>None\<close>: it is asleep already.\<close>

definition down_mutex :: "nat \<Rightarrow> table \<Rightarrow> table option" where
  "down_mutex i t =
    (if i \<in> set (snd (mutex t)) then None
     else Some ((if fst (mutex t) > 0 then goto i t else t)\<lparr>mutex := abs_down i (mutex t)\<rparr>))"

definition down_seat :: "nat \<Rightarrow> table \<Rightarrow> table option" where
  "down_seat i t =
    (if i \<in> set (snd (seats t i)) then None
     else Some ((if fst (seats t i) > 0 then goto i t else t)\<lparr>seats := (seats t)(i := abs_down i (seats t i))\<rparr>))"

definition phi_test_sema :: "nat \<Rightarrow> table \<Rightarrow> table" where
  "phi_test_sema i t =
    (if state_sema t i = HUNGRY \<and> state_sema t (LEFT i) \<noteq> EATING \<and> state_sema t (RIGHT i) \<noteq> EATING
     then up_seat i (t\<lparr>state_sema := (state_sema t)(i := EATING)\<rparr>)
     else t)"

text \<open>The next statement of the two routines.\<close>

definition phi_take_forks_sema :: "nat \<Rightarrow> table \<Rightarrow> table option" where
  "phi_take_forks_sema i t =
    (case place t i of
       TDown \<Rightarrow> down_mutex i t
     | TSet \<Rightarrow> Some (goto i (t\<lparr>state_sema := (state_sema t)(i := HUNGRY)\<rparr>))
     | TTest \<Rightarrow> Some (goto i (phi_test_sema i t))
     | TUp \<Rightarrow> Some (goto i (up_mutex t))
     | SDown \<Rightarrow> down_seat i t
     | _ \<Rightarrow> None)"

definition phi_put_forks_sema :: "nat \<Rightarrow> table \<Rightarrow> table option" where
  "phi_put_forks_sema i t =
    (case place t i of
       PDown \<Rightarrow> down_mutex i t
     | PSet \<Rightarrow> Some (goto i (t\<lparr>state_sema := (state_sema t)(i := THINKING)\<rparr>))
     | PLeft \<Rightarrow> Some (goto i (phi_test_sema (LEFT i) t))
     | PRight \<Rightarrow> Some (goto i (phi_test_sema (RIGHT i) t))
     | PUp \<Rightarrow> Some (goto i (up_mutex t))
     | _ \<Rightarrow> None)"

text \<open>The next step of philosopher \<open>i\<close>, \<open>None\<close> if he is blocked or has quit.\<close>

definition philosopher_using_semaphore :: "nat \<Rightarrow> table \<Rightarrow> table option" where
  "philosopher_using_semaphore i t =
    (if place t i = Loop then
       (let t' = t\<lparr>iter := (iter t)(i := iter t i + 1)\<rparr>
        in if iter t i < TIMES then Some (goto i t') else Some (t'\<lparr>place := (place t)(i := Quit)\<rparr>))
     else if place t i = Think \<or> place t i = Eat then Some (goto i t)
     else if place t i \<in> {TDown, TSet, TTest, TUp, SDown} then phi_take_forks_sema i t
     else phi_put_forks_sema i t)"

text \<open>\<open>check_sync\<close> has initialised the semaphores and created the threads before any of them runs.\<close>

definition check_sync :: table where
  "check_sync = \<lparr>state_sema = (\<lambda>_. THINKING), mutex = (1, []), seats = (\<lambda>_. (0, [])), place = (\<lambda>_. Loop), iter = (\<lambda>_. 0)\<rparr>"

inductive phil_step :: "table \<Rightarrow> table \<Rightarrow> bool" where
  "i < N \<Longrightarrow> philosopher_using_semaphore i t = Some t' \<Longrightarrow> phil_step t t'"

inductive phil_reachable :: "table \<Rightarrow> bool" where
  init: "phil_reachable check_sync"
| step: "phil_reachable t \<Longrightarrow> phil_step t t' \<Longrightarrow> phil_reachable t'"

section \<open>The invariant\<close>

lemma nbrs:
  assumes "i < N"
  shows "LEFT i < N" "RIGHT i < N" "LEFT (RIGHT i) = i" "RIGHT (LEFT i) = i" "LEFT i \<noteq> i" "RIGHT i \<noteq> i" "LEFT i \<noteq> RIGHT i" "RIGHT i \<noteq> LEFT i"
proof -
  have "i = 0 \<or> i = 1 \<or> i = 2 \<or> i = 3 \<or> i = 4" using assms by auto
  then show "LEFT i < N" "RIGHT i < N" "LEFT (RIGHT i) = i" "RIGHT (LEFT i) = i" "LEFT i \<noteq> i" "RIGHT i \<noteq> i" "LEFT i \<noteq> RIGHT i" "RIGHT i \<noteq> LEFT i"
    by (elim disjE; simp add: LEFT_def RIGHT_def)+
qed

definition crit :: "place \<Rightarrow> bool" where
  "crit l \<longleftrightarrow> l \<in> {TSet, TTest, TUp, PSet, PLeft, PRight, PUp}"

text \<open>What the place of a philosopher says of his state and of his own semaphore.\<close>

fun place_ok :: "place \<Rightarrow> nat \<Rightarrow> phil_state \<Rightarrow> int \<times> nat list \<Rightarrow> bool" where
  "place_ok TTest i st sm \<longleftrightarrow> st = HUNGRY \<and> sm = (0, [])"
| "place_ok TUp i st sm \<longleftrightarrow> st = HUNGRY \<and> sm = (0, []) \<or> st = EATING \<and> sm = (1, [])"
| "place_ok SDown i st sm \<longleftrightarrow> st = HUNGRY \<and> (sm = (0, []) \<or> sm = (0, [i])) \<or> st = EATING \<and> sm = (1, [])"
| "place_ok Eat i st sm \<longleftrightarrow> st = EATING \<and> sm = (0, [])"
| "place_ok PDown i st sm \<longleftrightarrow> st = EATING \<and> sm = (0, [])"
| "place_ok PSet i st sm \<longleftrightarrow> st = EATING \<and> sm = (0, [])"
| "place_ok _ i st sm \<longleftrightarrow> st = THINKING \<and> sm = (0, [])"

text \<open>\<open>h\<close> is the philosopher in the critical section.\<close>

definition mutex_ok :: "nat option \<Rightarrow> table \<Rightarrow> bool" where
  "mutex_ok h t \<longleftrightarrow> (\<forall>i<N. crit (place t i) \<longleftrightarrow> h = Some i) \<and> (h = None \<longrightarrow> mutex t = (1, [])) \<and>
     (\<forall>j. h = Some j \<longrightarrow> j < N \<and> fst (mutex t) = 0) \<and> distinct (snd (mutex t)) \<and>
     (\<forall>i \<in> set (snd (mutex t)). i < N \<and> (place t i = TDown \<or> place t i = PDown))"

text \<open>A hungry philosopher who has looked for his forks is not forgotten: a neighbour eats, or is
  about to look after him.\<close>

definition watched :: "table \<Rightarrow> nat \<Rightarrow> bool" where
  "watched t i \<longleftrightarrow> state_sema t (LEFT i) = EATING \<or> state_sema t (RIGHT i) = EATING \<or>
     place t (LEFT i) = PLeft \<or> place t (LEFT i) = PRight \<or> place t (RIGHT i) = PLeft"

definition seated_ok :: "table \<Rightarrow> bool" where
  "seated_ok t \<longleftrightarrow> (\<forall>i<N. \<not> (state_sema t i = EATING \<and> state_sema t (RIGHT i) = EATING)) \<and>
     (\<forall>i<N. state_sema t i = HUNGRY \<and> place t i \<noteq> TTest \<longrightarrow> watched t i)"

definition table_ok :: "table \<Rightarrow> bool" where
  "table_ok t \<longleftrightarrow> (\<forall>i<N. place_ok (place t i) i (state_sema t i) (seats t i)) \<and> (\<exists>h. mutex_ok h t) \<and> seated_ok t \<and>
     (\<forall>i<N. if place t i = Quit then iter t i = TIMES + 1 else iter t i \<le> TIMES \<and> (place t i \<noteq> Loop \<longrightarrow> 0 < iter t i))"

lemma check_sync_ok: "table_ok check_sync"
proof -
  have "mutex_ok None check_sync" by (simp add: mutex_ok_def check_sync_def crit_def)
  then show ?thesis by (auto simp: table_ok_def check_sync_def seated_ok_def)
qed


section \<open>Every step keeps the invariant\<close>

lemma table_okD:
  assumes "table_ok t"
  obtains h where "mutex_ok h t" "\<forall>i<N. place_ok (place t i) i (state_sema t i) (seats t i)" "seated_ok t"
    "\<forall>i<N. if place t i = Quit then iter t i = TIMES + 1 else iter t i \<le> TIMES \<and> (place t i \<noteq> Loop \<longrightarrow> 0 < iter t i)"
  using assms by (auto simp: table_ok_def)

lemma mutex_ok_eq: "(\<And>j. j < N \<Longrightarrow> crit (place t' j) \<longleftrightarrow> crit (place t j)) \<Longrightarrow> mutex t' = mutex t \<Longrightarrow>
    (\<And>j. j \<in> set (snd (mutex t)) \<Longrightarrow> place t j = TDown \<or> place t j = PDown \<Longrightarrow> place t' j = TDown \<or> place t' j = PDown) \<Longrightarrow>
    mutex_ok h t \<Longrightarrow> mutex_ok h t'"
  by (auto simp: mutex_ok_def)

lemma crit_simps [simp]: "\<not> crit Loop" "\<not> crit Think" "\<not> crit TDown" "crit TSet" "crit TTest" "crit TUp" "\<not> crit SDown"
  "\<not> crit Eat" "\<not> crit PDown" "crit PSet" "crit PLeft" "crit PRight" "crit PUp" "\<not> crit Quit"
  by (simp_all add: crit_def)

text \<open>Moving to a place that looks the same from outside.\<close>

lemma goto_ok:
  assumes "table_ok t" "i < N" "t' = t\<lparr>place := (place t)(i := l), iter := (iter t)(i := n)\<rparr>"
    and "crit l \<longleftrightarrow> crit (place t i)" "place_ok l i (state_sema t i) (seats t i)"
    and "place t i \<notin> {TDown, PDown}" "l \<noteq> PLeft \<Longrightarrow> place t i \<notin> {PLeft, PRight}" "state_sema t i = HUNGRY \<Longrightarrow> place t i = TTest \<Longrightarrow> l \<noteq> TTest \<Longrightarrow> watched t i"
    and "if l = Quit then n = TIMES + 1 else n \<le> TIMES \<and> (l \<noteq> Loop \<longrightarrow> 0 < n)"
  shows "table_ok t'"
proof -
  obtain h where d: "mutex_ok h t" "\<forall>i<N. place_ok (place t i) i (state_sema t i) (seats t i)" "seated_ok t"
    "\<forall>i<N. if place t i = Quit then iter t i = TIMES + 1 else iter t i \<le> TIMES \<and> (place t i \<noteq> Loop \<longrightarrow> 0 < iter t i)"
    by (rule table_okD[OF assms(1)])
  have "mutex_ok h t'" by (rule mutex_ok_eq[OF _ _ _ d(1)]) (use assms(3,4,6) in auto)
  moreover have "place_ok (place t' j) j (state_sema t' j) (seats t' j)" if "j < N" for j
    using d(2) assms(3,5) that by (cases "j = i") auto
  moreover have "watched t' j" if "j < N" "watched t j" for j
    using that assms(3,7) by (auto simp: watched_def)
  then have "seated_ok t'" using d(3) assms(3,8) by (auto simp: seated_ok_def)
  ultimately show ?thesis using d(4) assms(3,9) by (auto simp: table_ok_def)
qed

lemma down_mutex_ok:
  assumes "table_ok t" "i < N" "place t i = TDown \<or> place t i = PDown" "down_mutex i t = Some t'"
  shows "table_ok t'"
proof -
  obtain h where d: "mutex_ok h t" "\<forall>i<N. place_ok (place t i) i (state_sema t i) (seats t i)" "seated_ok t"
    "\<forall>i<N. if place t i = Quit then iter t i = TIMES + 1 else iter t i \<le> TIMES \<and> (place t i \<noteq> Loop \<longrightarrow> 0 < iter t i)"
    by (rule table_okD[OF assms(1)])
  obtain v q where m: "mutex t = (v, q)" "i \<notin> set q" using assms(4) by (cases "mutex t") (auto simp: down_mutex_def split: if_splits)
  show ?thesis
  proof (cases h)
    case None
    then have e: "t' = t\<lparr>place := (place t)(i := after (place t i)), mutex := (0, [])\<rparr>" using d(1) m assms(4)
      by (simp add: mutex_ok_def down_mutex_def abs_down_def goto_def)
    have "mutex_ok (Some i) t'" using d(1) None assms(2,3) e by (auto simp: mutex_ok_def)
    moreover have "place_ok (place t' j) j (state_sema t' j) (seats t' j)" if "j < N" for j
      using d(2) that e assms(3) by (cases "j = i") (auto dest: spec[of _ i])
    moreover have "watched t' j" if "j < N" "watched t j" for j using that e assms(3) by (auto simp: watched_def)
    then have "seated_ok t'" using d(2,3) assms(2,3) e by (auto simp: seated_ok_def)
    ultimately show ?thesis using d(4) assms(3) e by (auto simp: table_ok_def)
  next
    case (Some k)
    then have e: "t' = t\<lparr>mutex := (0, q @ [i])\<rparr>" using d(1) m assms(4)
      by (simp add: mutex_ok_def down_mutex_def abs_down_def)
    have "mutex_ok h t'" using d(1) Some assms(2,3) e m by (auto simp: mutex_ok_def)
    moreover have "seated_ok t'" using d(3) e by (simp add: seated_ok_def watched_def)
    ultimately show ?thesis using d(2,4) e by (auto simp: table_ok_def)
  qed
qed

lemma down_seat_ok:
  assumes "table_ok t" "i < N" "place t i = SDown" "down_seat i t = Some t'"
  shows "table_ok t'"
proof -
  obtain h where d: "mutex_ok h t" "\<forall>i<N. place_ok (place t i) i (state_sema t i) (seats t i)" "seated_ok t"
    "\<forall>i<N. if place t i = Quit then iter t i = TIMES + 1 else iter t i \<le> TIMES \<and> (place t i \<noteq> Loop \<longrightarrow> 0 < iter t i)"
    by (rule table_okD[OF assms(1)])
  have po: "place_ok SDown i (state_sema t i) (seats t i)" using d(2) assms(2,3) by metis
  have "state_sema t i = HUNGRY \<and> t' = t\<lparr>seats := (seats t)(i := (0, [i]))\<rparr>
      \<or> state_sema t i = EATING \<and> t' = t\<lparr>place := (place t)(i := Eat), seats := (seats t)(i := (0, []))\<rparr>"
    using po assms(3,4) by (auto simp: down_seat_def abs_down_def goto_def split: if_splits)
  then show ?thesis
  proof (elim disjE conjE)
    assume h: "state_sema t i = HUNGRY" and e: "t' = t\<lparr>seats := (seats t)(i := (0, [i]))\<rparr>"
    have "mutex_ok h t'" using d(1) e by (simp add: mutex_ok_def)
    moreover have "seated_ok t'" using d(3) e by (simp add: seated_ok_def watched_def)
    ultimately show ?thesis using d(2,4) e assms(3) h by (auto simp: table_ok_def)
  next
    assume h: "state_sema t i = EATING" and e: "t' = t\<lparr>place := (place t)(i := Eat), seats := (seats t)(i := (0, []))\<rparr>"
    have "mutex_ok h t'" by (rule mutex_ok_eq[OF _ _ _ d(1)]) (use e assms(3) in auto)
    moreover have "watched t' j" if "watched t j" for j using that e assms(3) by (auto simp: watched_def)
    then have "seated_ok t'" using d(3) h e by (auto simp: seated_ok_def)
    ultimately show ?thesis using d(2,4) e assms(3) h by (auto simp: table_ok_def)
  qed
qed

lemma up_mutex_ok:
  assumes "table_ok t" "i < N" "place t i = TUp \<or> place t i = PUp"
  shows "table_ok (goto i (up_mutex t))"
proof -
  obtain h where d: "mutex_ok h t" "\<forall>i<N. place_ok (place t i) i (state_sema t i) (seats t i)" "seated_ok t"
    "\<forall>i<N. if place t i = Quit then iter t i = TIMES + 1 else iter t i \<le> TIMES \<and> (place t i \<noteq> Loop \<longrightarrow> 0 < iter t i)"
    by (rule table_okD[OF assms(1)])
  have h: "h = Some i" using d(1) assms(2,3) by (auto simp: mutex_ok_def)
  have po: "place_ok (after (place t i)) i (state_sema t i) (seats t i)" using d(2) assms(2,3) by fastforce
  show ?thesis
  proof (cases "snd (mutex t)")
    case Nil
    define t' where "t' = t\<lparr>place := (place t)(i := after (place t i)), mutex := (1, [])\<rparr>"
    have "goto i (up_mutex t) = t'" using d(1) h Nil
      by (cases "mutex t") (simp add: goto_def up_mutex_def wake_def abs_up_def t'_def mutex_ok_def)
    moreover have "mutex_ok None t'" using d(1) h assms(3) by (auto simp: mutex_ok_def t'_def)
    moreover have "watched t' j" if "watched t j" for j using that assms(3) by (auto simp: watched_def t'_def)
    then have "seated_ok t'" using d(3) assms(3) by (auto simp: seated_ok_def t'_def)
    ultimately show ?thesis using d(2,4) po assms(3) by (auto simp: table_ok_def t'_def)
  next
    case (Cons p ps)
    have p: "p < N" "place t p = TDown \<or> place t p = PDown" "p \<noteq> i" "distinct (p # ps)" "\<forall>j \<in> set ps. j < N \<and> (place t j = TDown \<or> place t j = PDown)"
      using d(1) Cons assms(3) by (auto simp: mutex_ok_def)
    define t' where "t' = t\<lparr>place := (place t)(p := after (place t p), i := after (place t i)), mutex := (0, ps)\<rparr>"
    have "goto i (up_mutex t) = t'" using d(1) h Cons p(3)
      by (cases "mutex t") (auto simp: goto_def up_mutex_def wake_def abs_up_def t'_def mutex_ok_def fun_upd_twist)
    moreover have "mutex_ok (Some p) t'" using d(1) h assms(3) p by (auto simp: mutex_ok_def t'_def)
    moreover have "watched t' j" if "watched t j" for j using that assms(3) p(2) by (auto simp: watched_def t'_def)
    then have "seated_ok t'" using d(2,3) assms(3) p(1,2) by (auto simp: seated_ok_def t'_def)
    moreover have "place_ok (place t' j) j (state_sema t' j) (seats t' j)" if "j < N" for j
      using d(2) po that p(1,2) by (fastforce simp: t'_def)
    ultimately show ?thesis using d(4) po assms(3) p(2) by (auto simp: table_ok_def t'_def)
  qed
qed

text \<open>A step in the critical section that may also change the states.\<close>

lemma crit_step_ok:
  assumes "table_ok t" "i < N" "crit (place t i)" "crit (after (place t i))" "mutex t' = mutex t" "iter t' = iter t"
    and "place t' i = after (place t i)" "\<forall>j. j \<noteq> i \<longrightarrow> place t' j = place t j \<or> (place t j = SDown \<and> place t' j = Eat)"
    and "\<forall>j<N. place_ok (place t' j) j (state_sema t' j) (seats t' j)" "seated_ok t'"
  shows "table_ok t'"
proof -
  obtain h where d: "mutex_ok h t"
    "\<forall>i<N. if place t i = Quit then iter t i = TIMES + 1 else iter t i \<le> TIMES \<and> (place t i \<noteq> Loop \<longrightarrow> 0 < iter t i)"
    by (rule table_okD[OF assms(1)])
  have "crit (place t' j) \<longleftrightarrow> crit (place t j)" for j
    using assms(3,4,7) assms(8)[rule_format, of j] by (cases "j = i") auto
  moreover have "place t' j = TDown \<or> place t' j = PDown" if "place t j = TDown \<or> place t j = PDown" for j
    using that assms(3) assms(8)[rule_format, of j] by (cases "j = i") auto
  ultimately have m: "mutex_ok h t'" by (intro mutex_ok_eq[OF _ assms(5) _ d(1)]) auto
  have "if place t' j = Quit then iter t' j = TIMES + 1 else iter t' j \<le> TIMES \<and> (place t' j \<noteq> Loop \<longrightarrow> 0 < iter t' j)" if "j < N" for j
    using d(2)[rule_format, of j] that assms(3,4,6,7) assms(8)[rule_format, of j]
    by (cases "j = i"; cases "place t j"; cases "place t' j") auto
  with m assms(9,10) show ?thesis by (auto simp: table_ok_def)
qed

lemma set_state_ok:
  assumes "table_ok t" "i < N" "place t i = TSet \<and> st = HUNGRY \<or> place t i = PSet \<and> st = THINKING"
  shows "table_ok (goto i (t\<lparr>state_sema := (state_sema t)(i := st)\<rparr>))"
proof -
  obtain h where d: "\<forall>i<N. place_ok (place t i) i (state_sema t i) (seats t i)" "seated_ok t"
    by (rule table_okD[OF assms(1)])
  define t' where "t' = t\<lparr>state_sema := (state_sema t)(i := st), place := (place t)(i := after (place t i))\<rparr>"
  have "goto i (t\<lparr>state_sema := (state_sema t)(i := st)\<rparr>) = t'" by (simp add: goto_def t'_def)
  moreover have "table_ok t'"
  proof (rule crit_step_ok[OF assms(1,2)])
    show "\<forall>j<N. place_ok (place t' j) j (state_sema t' j) (seats t' j)"
      using d(1) assms(2,3) by (fastforce simp: t'_def)
    have po: "place_ok (place t i) i (state_sema t i) (seats t i)" using d(1) assms(2) by blast
    have "watched t' j" if "j < N" "watched t j" for j
      using that assms(3) po nbrs[OF that(1)] by (auto simp: watched_def t'_def)
    then show "seated_ok t'" using d(2) assms(3) nbrs[OF assms(2)] by (auto simp: seated_ok_def t'_def)
  qed (use assms(3) in \<open>auto simp: t'_def\<close>)
  ultimately show ?thesis by simp
qed

lemma test_ok:
  assumes "table_ok t" "i < N" "place t i = TTest \<and> j = i \<or> place t i = PLeft \<and> j = LEFT i \<or> place t i = PRight \<and> j = RIGHT i"
  shows "table_ok (goto i (phi_test_sema j t))"
proof -
  obtain h where d: "mutex_ok h t" "\<forall>i<N. place_ok (place t i) i (state_sema t i) (seats t i)" "seated_ok t"
    by (rule table_okD[OF assms(1)])
  note ni = nbrs[OF assms(2)]
  have j: "j < N" using assms(2,3) ni(1,2) by auto
  have po: "place_ok (place t i) i (state_sema t i) (seats t i)" "place_ok (place t j) j (state_sema t j) (seats t j)"
    using d(2) assms(2) j by blast+
  have h: "h = Some i" using d(1) assms(2,3) by (auto simp: mutex_ok_def)
  show ?thesis
  proof (cases "state_sema t j = HUNGRY \<and> state_sema t (LEFT j) \<noteq> EATING \<and> state_sema t (RIGHT j) \<noteq> EATING")
    case False
    define t' where "t' = t\<lparr>place := (place t)(i := after (place t i))\<rparr>"
    have "goto i (phi_test_sema j t) = t'" using False by (auto simp: goto_def phi_test_sema_def t'_def)
    moreover have "table_ok t'"
    proof (rule crit_step_ok[OF assms(1,2)])
      show "\<forall>j<N. place_ok (place t' j) j (state_sema t' j) (seats t' j)"
        using d(2) assms(2,3) by (fastforce simp: t'_def)
      have "watched t' k" if "k < N" "watched t k" "state_sema t k = HUNGRY" for k
        using that assms(3) False nbrs[OF that(1)] by (auto simp: watched_def t'_def)
      moreover have "watched t' i" if "place t i = TTest" using that assms(3) False po(1) ni by (auto simp: watched_def t'_def)
      ultimately show "seated_ok t'" using d(3) assms(2) by (auto simp: seated_ok_def t'_def)
    qed (use assms(3) in \<open>auto simp: t'_def\<close>)
    ultimately show ?thesis by simp
  next
    case True
    have pj: "j = i \<and> seats t j = (0, []) \<or> j \<noteq> i \<and> place t j = SDown \<and> (seats t j = (0, []) \<or> seats t j = (0, [j]))"
    proof (cases "j = i")
      case False
      then have "\<not> crit (place t j)" using d(1) h j by (auto simp: mutex_ok_def)
      then show ?thesis using po(2) True False by (cases "place t j") auto
    qed (use po(2) assms(3) True ni in auto)
    define t' where "t' = t\<lparr>state_sema := (state_sema t)(j := EATING), seats := (seats t)(j := abs_up (seats t j)),
        place := (if seats t j = (0, [j]) then (place t)(j := Eat, i := after (place t i)) else (place t)(i := after (place t i)))\<rparr>"
    have "goto i (phi_test_sema j t) = t'" using True pj
      by (auto simp: goto_def phi_test_sema_def up_seat_def wake_def abs_up_def t'_def)
    moreover have "table_ok t'"
    proof (rule crit_step_ok[OF assms(1,2)])
      show "\<forall>k<N. place_ok (place t' k) k (state_sema t' k) (seats t' k)"
      proof (intro allI impI)
        fix k assume k: "k < N"
        then have "place_ok (place t k) k (state_sema t k) (seats t k)" using d(2) by blast
        then show "place_ok (place t' k) k (state_sema t' k) (seats t' k)"
          using pj assms(3) po(1) True by (cases "k = j"; cases "k = i") (auto simp: t'_def abs_up_def)
      qed
      have "watched t' k" if "k < N" "watched t k" "state_sema t k = HUNGRY" "k \<noteq> j" for k
        using that assms(3) pj nbrs[OF that(1)] by (auto simp: watched_def t'_def)
      moreover have "state_sema t i \<noteq> HUNGRY" if "i \<noteq> j" using po(1) assms(3) that by auto
      then have "place t k \<noteq> TTest" if "state_sema t k = HUNGRY" "k \<noteq> j" "place t' k \<noteq> TTest" for k
        using that pj by (cases "k = i") (auto simp: t'_def split: if_splits)
      ultimately have w: "watched t' k" if "k < N" "state_sema t' k = HUNGRY" "place t' k \<noteq> TTest" for k
        using that d(3) by (cases "k = j") (auto simp: seated_ok_def t'_def)
      have "\<not> (state_sema t' k = EATING \<and> state_sema t' (RIGHT k) = EATING)" if "k < N" for k
      proof (cases "k = j \<or> RIGHT k = j")
        case c: True
        then have "k = j \<or> k = LEFT j" using nbrs(3)[OF that] by auto
        then show ?thesis using True nbrs[OF j] by (auto simp: t'_def)
      qed (use d(3) that in \<open>auto simp: seated_ok_def t'_def\<close>)
      with w show "seated_ok t'" by (auto simp: seated_ok_def)
    qed (use assms(3) pj in \<open>auto simp: t'_def split: if_splits\<close>)
    ultimately show ?thesis by simp
  qed
qed

lemma step_ok:
  assumes "table_ok t" "i < N" "philosopher_using_semaphore i t = Some t'"
  shows "table_ok t'"
proof -
  have po: "place_ok (place t i) i (state_sema t i) (seats t i)"
    "if place t i = Quit then iter t i = TIMES + 1 else iter t i \<le> TIMES \<and> (place t i \<noteq> Loop \<longrightarrow> 0 < iter t i)"
    using assms(1,2) by (auto simp: table_ok_def)
  note df = philosopher_using_semaphore_def phi_take_forks_sema_def phi_put_forks_sema_def
  show ?thesis
  proof (cases "place t i")
    case Loop
    define l where "l = (if iter t i < TIMES then Think else Quit)"
    have "t' = t\<lparr>place := (place t)(i := l), iter := (iter t)(i := iter t i + 1)\<rparr>"
      using assms(3) Loop by (auto simp: df goto_def Let_def l_def split: if_splits)
    then show ?thesis by (rule goto_ok[OF assms(1,2)]) (use po Loop in \<open>auto simp: l_def\<close>)
  next
    case Think
    have "t' = t\<lparr>place := (place t)(i := TDown)\<rparr>" using assms(3) Think by (auto simp: df goto_def)
    then have "t' = t\<lparr>place := (place t)(i := TDown), iter := (iter t)(i := iter t i)\<rparr>" by simp
    then show ?thesis by (rule goto_ok[OF assms(1,2)]) (use po Think in auto)
  next
    case Eat
    have "t' = t\<lparr>place := (place t)(i := PDown)\<rparr>" using assms(3) Eat by (auto simp: df goto_def)
    then have "t' = t\<lparr>place := (place t)(i := PDown), iter := (iter t)(i := iter t i)\<rparr>" by simp
    then show ?thesis by (rule goto_ok[OF assms(1,2)]) (use po Eat in auto)
  qed (use assms(3) down_mutex_ok[OF assms(1,2)] down_seat_ok[OF assms(1,2)] up_mutex_ok[OF assms(1,2)]
      set_state_ok[OF assms(1,2)] test_ok[OF assms(1,2)] in \<open>simp_all add: df\<close>)
qed

lemma reachable_ok: "phil_reachable t \<Longrightarrow> table_ok t"
  by (induction rule: phil_reachable.induct) (auto simp: check_sync_ok elim!: phil_step.cases intro: step_ok)

section \<open>No deadlock, and an end\<close>

text \<open>Somebody can always move, unless everybody has quit.\<close>

lemma crit_can_move: "crit (place t i) \<Longrightarrow> \<exists>t'. philosopher_using_semaphore i t = Some t'"
  by (auto simp: crit_def philosopher_using_semaphore_def phi_take_forks_sema_def phi_put_forks_sema_def)

lemma no_deadlock:
  assumes "table_ok t" "\<forall>i<N. philosopher_using_semaphore i t = None" "i < N"
  shows "place t i = Quit"
proof -
  obtain h where d: "mutex_ok h t" "\<forall>i<N. place_ok (place t i) i (state_sema t i) (seats t i)" "seated_ok t"
    by (rule table_okD[OF assms(1)])
  note df = philosopher_using_semaphore_def phi_take_forks_sema_def phi_put_forks_sema_def
  have nc: "\<not> crit (place t j)" if "j < N" for j using crit_can_move[of t j] assms(2) that by auto
  then have m: "mutex t = (1, [])" using d(1) by (cases h) (auto simp: mutex_ok_def)
  have p: "place t j = Quit \<or> place t j = SDown" if "j < N" for j
    using assms(2)[rule_format, OF that] nc[OF that] m
    by (cases "place t j") (auto simp: df down_mutex_def Let_def split: if_splits)
  have "place t i \<noteq> SDown"
  proof
    assume s: "place t i = SDown"
    have st: "state_sema t j = HUNGRY" if "j < N" "place t j = SDown" for j
      using d(2)[rule_format, OF that(1)] assms(2)[rule_format, OF that(1)] that(2) by (auto simp: df down_seat_def split: if_splits)
    have "watched t i" using d(3) s assms(3) st[OF assms(3) s] by (simp add: seated_ok_def)
    moreover have "state_sema t j \<noteq> EATING" if "j < N" for j
      using p[OF that] st[OF that] d(2)[rule_format, OF that] by auto
    ultimately show False using nbrs[OF assms(3)] p[of "LEFT i"] p[of "RIGHT i"] by (auto simp: watched_def)
  qed
  with p[OF assms(3)] show ?thesis by simp
qed

text \<open>Steps that philosopher \<open>i\<close> still has to make, counting the entry into a queue.\<close>

fun left_to_do :: "place \<Rightarrow> nat" where
  "left_to_do Loop = 0"
| "left_to_do Think = 12"
| "left_to_do TDown = 11"
| "left_to_do TSet = 10"
| "left_to_do TTest = 9"
| "left_to_do TUp = 8"
| "left_to_do SDown = 7"
| "left_to_do Eat = 6"
| "left_to_do PDown = 5"
| "left_to_do PSet = 4"
| "left_to_do PLeft = 3"
| "left_to_do PRight = 2"
| "left_to_do PUp = 1"
| "left_to_do Quit = 0"

definition potential :: "table \<Rightarrow> nat \<Rightarrow> nat" where
  "potential t i = (TIMES + 1 - iter t i) * 30 + 2 * left_to_do (place t i)
     - (if i \<in> set (snd (mutex t)) \<or> i \<in> set (snd (seats t i)) then 1 else 0)"

lemma left_to_do_after: "left_to_do l \<noteq> 0 \<Longrightarrow> Suc (left_to_do (after l)) = left_to_do l"
  by (cases l) auto

lemma potential_goto: "left_to_do (place t i) \<noteq> 0 \<Longrightarrow> i \<notin> set (snd (mutex t)) \<Longrightarrow> i \<notin> set (snd (seats t i)) \<Longrightarrow>
    place t' i = after (place t i) \<Longrightarrow> iter t' i = iter t i \<Longrightarrow> potential t' i < potential t i"
  using left_to_do_after[of "place t i"] by (auto simp: potential_def)

text \<open>Leaving a queue for the next statement.\<close>

lemma potential_woken: "left_to_do (place t i) \<noteq> 0 \<Longrightarrow>
    place t' i = after (place t i) \<Longrightarrow> iter t' i = iter t i \<Longrightarrow> potential t' i \<le> potential t i"
  using left_to_do_after[of "place t i"] by (auto simp: potential_def)

lemma potential_same: "place t' i = place t i \<Longrightarrow> iter t' i = iter t i \<Longrightarrow>
    (i \<in> set (snd (mutex t)) \<longrightarrow> i \<in> set (snd (mutex t'))) \<Longrightarrow> (i \<in> set (snd (seats t i)) \<longrightarrow> i \<in> set (snd (seats t' i)))
    \<Longrightarrow> potential t' i \<le> potential t i"
  by (auto simp: potential_def)

lemma potential_down: "left_to_do (place t i) \<noteq> 0 \<Longrightarrow> i \<notin> set (snd (mutex t)) \<Longrightarrow> i \<notin> set (snd (seats t i)) \<Longrightarrow>
    place t' i = place t i \<Longrightarrow> iter t' i = iter t i \<Longrightarrow> i \<in> set (snd (mutex t')) \<or> i \<in> set (snd (seats t' i)) \<Longrightarrow> potential t' i < potential t i"
  by (auto simp: potential_def)

lemma up_mutex_potential:
  assumes "mutex_ok h t" "place t i = TUp \<or> place t i = PUp" "i \<notin> set (snd (mutex t))" "i \<notin> set (snd (seats t i))"
  shows "potential (goto i (up_mutex t)) i < potential t i \<and> (\<forall>j<N. j \<noteq> i \<longrightarrow> potential (goto i (up_mutex t)) j \<le> potential t j)"
proof (cases "snd (mutex t)")
  case Nil
  then have "mutex (up_mutex t) = (fst (mutex t) + 1, [])" "place (up_mutex t) = place t" "iter (up_mutex t) = iter t" "seats (up_mutex t) = seats t"
    by (cases "mutex t"; simp add: up_mutex_def wake_def abs_up_def)+
  then show ?thesis using assms(2-4) Nil by (auto simp: goto_def intro!: potential_goto potential_same)
next
  case (Cons p ps)
  have p: "p \<noteq> i" "place t p = TDown \<or> place t p = PDown" using assms(1,3) Cons by (auto simp: mutex_ok_def)
  have f: "mutex (up_mutex t) = (fst (mutex t), ps)" "place (up_mutex t) = (place t)(p := after (place t p))"
    "iter (up_mutex t) = iter t" "seats (up_mutex t) = seats t"
    using Cons by (cases "mutex t"; simp add: up_mutex_def wake_def abs_up_def goto_def)+
  have "potential (goto i (up_mutex t)) j \<le> potential t j" if "j \<noteq> i" for j
  proof (cases "j = p")
    case True
    then show ?thesis using p f by (intro potential_woken) (auto simp: goto_def)
  next
    case False
    then show ?thesis using that f Cons by (intro potential_same) (auto simp: goto_def)
  qed
  moreover have "potential (goto i (up_mutex t)) i < potential t i"
    using assms(2-4) p f by (intro potential_goto) (auto simp: goto_def)
  ultimately show ?thesis by blast
qed

lemma test_potential:
  assumes "place_ok (place t k) k (state_sema t k) (seats t k)" "place t i = TTest \<or> place t i = PLeft \<or> place t i = PRight"
    and "i \<notin> set (snd (mutex t))" "i \<notin> set (snd (seats t i))"
  shows "potential (goto i (phi_test_sema k t)) i < potential t i \<and> (\<forall>j<N. j \<noteq> i \<longrightarrow> potential (goto i (phi_test_sema k t)) j \<le> potential t j)"
proof (cases "state_sema t k = HUNGRY \<and> state_sema t (LEFT k) \<noteq> EATING \<and> state_sema t (RIGHT k) \<noteq> EATING")
  case False
  then have "phi_test_sema k t = t" by (auto simp: phi_test_sema_def)
  then show ?thesis using assms(2-4) by (auto simp: goto_def intro!: potential_goto potential_same)
next
  case True
  then have "seats t k = (0, []) \<or> place t k = SDown \<and> seats t k = (0, [k])" using assms(1) by (cases "place t k") auto
  then show ?thesis
  proof
    assume "seats t k = (0, [])"
    then have "place (phi_test_sema k t) = place t" "iter (phi_test_sema k t) = iter t" "mutex (phi_test_sema k t) = mutex t"
      "seats (phi_test_sema k t) = (seats t)(k := (1, []))" "snd (seats t k) = []"
      using True by (simp_all add: phi_test_sema_def up_seat_def wake_def abs_up_def)
    then show ?thesis using assms(2-4) by (auto simp: goto_def intro!: potential_goto potential_same)
  next
    assume k: "place t k = SDown \<and> seats t k = (0, [k])"
    then have f: "place (phi_test_sema k t) = (place t)(k := Eat)" "iter (phi_test_sema k t) = iter t" "mutex (phi_test_sema k t) = mutex t"
      "seats (phi_test_sema k t) = (seats t)(k := (0, []))" "k \<noteq> i"
      using True assms(2) by (auto simp: phi_test_sema_def up_seat_def wake_def abs_up_def goto_def)
    have "potential (goto i (phi_test_sema k t)) j \<le> potential t j" if "j \<noteq> i" for j
    proof (cases "j = k")
      case True
      then show ?thesis using k f by (intro potential_woken) (auto simp: goto_def)
    next
      case False
      then show ?thesis using that f by (intro potential_same) (auto simp: goto_def)
    qed
    moreover have "potential (goto i (phi_test_sema k t)) i < potential t i"
      using assms(2-4) f by (intro potential_goto) (auto simp: goto_def)
    ultimately show ?thesis by blast
  qed
qed

lemma step_potential:
  assumes "table_ok t" "i < N" "philosopher_using_semaphore i t = Some t'"
  shows "potential t' i < potential t i \<and> (\<forall>j<N. j \<noteq> i \<longrightarrow> potential t' j \<le> potential t j)"
proof -
  obtain h where d: "mutex_ok h t" "\<forall>i<N. place_ok (place t i) i (state_sema t i) (seats t i)" "seated_ok t"
    "\<forall>i<N. if place t i = Quit then iter t i = TIMES + 1 else iter t i \<le> TIMES \<and> (place t i \<noteq> Loop \<longrightarrow> 0 < iter t i)"
    by (rule table_okD[OF assms(1)])
  note df = philosopher_using_semaphore_def phi_take_forks_sema_def phi_put_forks_sema_def
  have po: "place_ok (place t j) j (state_sema t j) (seats t j)" if "j < N" for j using d(2) that by blast
  have nm: "i \<notin> set (snd (mutex t))" if "place t i \<noteq> TDown" "place t i \<noteq> PDown" using d(1) that by (auto simp: mutex_ok_def)
  have ns: "i \<notin> set (snd (seats t i))" if "place t i \<noteq> SDown" using po[OF assms(2)] that by (cases "place t i") auto
  show ?thesis
  proof (cases "place t i")
    case Loop
    then have "iter t i \<le> TIMES" using d(4) assms(2) by (metis place.distinct(25))
    then show ?thesis using Loop assms(3) nm ns
      by (auto simp: df goto_def Let_def potential_def split: if_splits)
  next
    case Quit
    then show ?thesis using assms(3) by (simp add: df)
  next
    case TDown
    then show ?thesis using assms(3) ns
      by (cases "mutex t") (auto simp: df down_mutex_def abs_down_def goto_def potential_def split: if_splits)
  next
    case PDown
    then show ?thesis using assms(3) ns
      by (cases "mutex t") (auto simp: df down_mutex_def abs_down_def goto_def potential_def split: if_splits)
  next
    case SDown
    then show ?thesis using assms(3) nm
      by (cases "seats t i") (auto simp: df down_seat_def abs_down_def goto_def potential_def split: if_splits)
  next
    case TUp
    then show ?thesis using assms(3) up_mutex_potential[OF d(1), of i] nm ns by (auto simp: df)
  next
    case PUp
    then show ?thesis using assms(3) up_mutex_potential[OF d(1), of i] nm ns by (auto simp: df)
  next
    case TTest
    then show ?thesis using assms(3) test_potential[OF po[OF assms(2)], of i] nm ns by (auto simp: df)
  next
    case PLeft
    then show ?thesis using assms(3) test_potential[OF po[OF nbrs(1)[OF assms(2)]], of i] nm ns by (auto simp: df)
  next
    case PRight
    then show ?thesis using assms(3) test_potential[OF po[OF nbrs(2)[OF assms(2)]], of i] nm ns by (auto simp: df)
  qed (use assms(3) nm ns in \<open>auto simp: df goto_def intro!: potential_goto potential_same\<close>)
qed

lemma steps_terminate: "wf {(t', t). phil_reachable t \<and> phil_step t t'}"
proof (rule wf_subset[OF wf_measure[of "\<lambda>t. \<Sum>i<N. potential t i"]])
  show "{(t', t). phil_reachable t \<and> phil_step t t'} \<subseteq> measure (\<lambda>t. \<Sum>i<N. potential t i)"
  proof (clarify, elim phil_step.cases, clarify)
    fix t t' i assume r: "phil_reachable t" and i: "i < N" "philosopher_using_semaphore i t = Some t'"
    have "(\<Sum>i<N. potential t' i) < (\<Sum>i<N. potential t i)"
      using step_potential[OF reachable_ok[OF r] i] i(1) by (intro sum_strict_mono_ex1) force+
    then show "(t', t) \<in> measure (\<lambda>t. \<Sum>i<N. potential t i)" by simp
  qed
qed

section \<open>Properties\<close>

text \<open>C36: In every interleaving of the five philosophers no two neighbours eat at the same time, and at
  most one is in the critical section that \<open>mutex\<close> guards.\<close>

theorem philosophers_exclude_neighbours:
  assumes "phil_reachable t" "i < N"
  shows "(place t i \<in> {Eat, PDown, PSet} \<longrightarrow> place t (LEFT i) \<notin> {Eat, PDown, PSet} \<and> place t (RIGHT i) \<notin> {Eat, PDown, PSet})
    \<and> (crit (place t i) \<longrightarrow> (\<forall>j<N. crit (place t j) \<longrightarrow> j = i))"
proof
  obtain h where d: "mutex_ok h t" "\<forall>i<N. place_ok (place t i) i (state_sema t i) (seats t i)" "seated_ok t"
    by (rule table_okD[OF reachable_ok[OF assms(1)]])
  have "state_sema t j = EATING" if "j < N" "place t j \<in> {Eat, PDown, PSet}" for j
    using d(2)[rule_format, OF that(1)] that(2) by auto
  then show "place t i \<in> {Eat, PDown, PSet} \<longrightarrow> place t (LEFT i) \<notin> {Eat, PDown, PSet} \<and> place t (RIGHT i) \<notin> {Eat, PDown, PSet}"
    using d(3) nbrs[OF assms(2)] assms(2) unfolding seated_ok_def by metis
  show "crit (place t i) \<longrightarrow> (\<forall>j<N. crit (place t j) \<longrightarrow> j = i)" using d(1) assms(2) by (auto simp: mutex_ok_def)
qed

text \<open>Three steps of philosopher 2: he is in the critical section.\<close>

lemma demo_reachable: "phil_reachable (check_sync\<lparr>mutex := (0, []), place := (place check_sync)(2 := TSet), iter := (iter check_sync)(2 := 1)\<rparr>)"
proof -
  note df = philosopher_using_semaphore_def phi_take_forks_sema_def down_mutex_def abs_down_def goto_def check_sync_def
  have "phil_step check_sync (check_sync\<lparr>place := (place check_sync)(2 := Think), iter := (iter check_sync)(2 := 1)\<rparr>)"
    by (rule phil_step.intros[of 2]) (simp_all add: df)
  moreover have "phil_step (check_sync\<lparr>place := (place check_sync)(2 := Think), iter := (iter check_sync)(2 := 1)\<rparr>)
      (check_sync\<lparr>place := (place check_sync)(2 := TDown), iter := (iter check_sync)(2 := 1)\<rparr>)"
    by (rule phil_step.intros[of 2]) (simp_all add: df)
  moreover have "phil_step (check_sync\<lparr>place := (place check_sync)(2 := TDown), iter := (iter check_sync)(2 := 1)\<rparr>)
      (check_sync\<lparr>mutex := (0, []), place := (place check_sync)(2 := TSet), iter := (iter check_sync)(2 := 1)\<rparr>)"
    by (rule phil_step.intros[of 2]) (simp_all add: df)
  ultimately show ?thesis by (meson phil_reachable.intros)
qed

theorem philosophers_exclude_neighbours_witness:
  "\<exists>t. phil_reachable t \<and> place t 2 = TSet \<and> (\<forall>j<N. crit (place t j) \<longrightarrow> j = 2)"
proof -
  define t where "t = check_sync\<lparr>mutex := (0, []), place := (place check_sync)(2 := TSet), iter := (iter check_sync)(2 := 1)\<rparr>"
  have t: "phil_reachable t" "place t 2 = TSet" using demo_reachable by (simp_all add: t_def)
  from philosophers_exclude_neighbours[OF t(1), of 2] have "crit (place t 2) \<longrightarrow> (\<forall>j<N. crit (place t j) \<longrightarrow> j = 2)" by simp
  with t show ?thesis by (intro exI[of _ t]) simp
qed

text \<open>C37: The philosophers neither deadlock nor starve.  Every run ends, whatever the scheduler does, and
  it ends only when all five have gone through their loop \<open>TIMES\<close> times and have quit, with no fork
  taken and the mutex free.\<close>

theorem philosophers_all_finish:
  "wf {(t', t). phil_reachable t \<and> phil_step t t'} \<and>
   (\<forall>t. phil_reachable t \<and> (\<forall>t'. \<not> phil_step t t') \<longrightarrow>
      mutex t = (1, []) \<and> (\<forall>i<N. place t i = Quit \<and> iter t i = TIMES + 1 \<and> state_sema t i = THINKING \<and> seats t i = (0, [])))"
proof (intro conjI allI impI steps_terminate; elim conjE)
  fix t assume r: "phil_reachable t" and n: "\<forall>t'. \<not> phil_step t t'"
  have "\<forall>i<N. philosopher_using_semaphore i t = None" using n phil_step.intros[of _ t] by (meson not_None_eq)
  then have q: "place t i = Quit" if "i < N" for i using no_deadlock[OF reachable_ok[OF r]] that by blast
  obtain h where d: "mutex_ok h t" "\<forall>i<N. place_ok (place t i) i (state_sema t i) (seats t i)" "seated_ok t"
    "\<forall>i<N. if place t i = Quit then iter t i = TIMES + 1 else iter t i \<le> TIMES \<and> (place t i \<noteq> Loop \<longrightarrow> 0 < iter t i)"
    by (rule table_okD[OF reachable_ok[OF r]])
  show "mutex t = (1, [])" using d(1) q by (cases h) (auto simp: mutex_ok_def)
  fix i assume i: "i < N"
  show "place t i = Quit" "iter t i = TIMES + 1" "state_sema t i = THINKING" "seats t i = (0, [])"
    using q[OF i] d(2,4) i by (auto dest: spec[of _ i])
qed

theorem philosophers_all_finish_witness: "\<exists>t. phil_reachable t \<and> (\<forall>i<N. place t i = Quit \<and> iter t i = TIMES + 1)"
proof -
  have "wf {(t', t). phil_reachable t \<and> phil_step t t'}" using philosophers_all_finish by blast
  then obtain t where t: "t \<in> Collect phil_reachable" "\<And>t'. (t', t) \<in> {(t', t). phil_reachable t \<and> phil_step t t'} \<Longrightarrow> t' \<notin> Collect phil_reachable"
    using phil_reachable.init by (elim wfE_min[of _ check_sync "Collect phil_reachable"]) auto
  then have "\<forall>t'. \<not> phil_step t t'" using phil_reachable.step by blast
  with t(1) philosophers_all_finish show ?thesis by blast
qed

end
