(* ===== verification/KDebug.thy ===== *)
theory KDebug
  imports KString
begin

text \<open>
  The kernel debugger, \<open>kern/debug/kdebug.c\<close>: the search in the table of STABS entries, the
  information on an instruction address, the walk over the stack frames and the debug registers.
  Indices of the table are \<open>int\<close> as in the code; they stay below the size of the table, so \<open>l + r\<close> does
  not overflow.
\<close>

section \<open>The symbol table\<close>

record stab =
  n_strx :: u32
  n_type :: u8
  n_other :: u8
  n_desc :: u16
  n_value :: u32

abbreviation (input) "N_FUN \<equiv> (0x24 :: u8)"
abbreviation (input) "N_SLINE \<equiv> (0x44 :: u8)"
abbreviation (input) "N_SO \<equiv> (0x64 :: u8)"
abbreviation (input) "N_SOL \<equiv> (0x84 :: u8)"
abbreviation (input) "N_PSYM \<equiv> (0xa0 :: u8)"

text \<open>Downwards from \<open>m\<close> to the last entry of the type, at most to \<open>l - 1\<close>.\<close>

function earliest :: "(int \<Rightarrow> stab) \<Rightarrow> u8 \<Rightarrow> int \<Rightarrow> int \<Rightarrow> int" where
  "earliest stabs ty l m = (if m \<ge> l \<and> n_type (stabs m) \<noteq> ty then earliest stabs ty l (m - 1) else m)"
  by pat_completeness auto
termination by (relation "measure (\<lambda>(stabs, ty, l, m). nat (m - l + 1))") auto

declare earliest.simps [simp del]

lemma earliest_le: "earliest stabs ty l m \<le> m"
  by (induction stabs ty l m rule: earliest.induct) (subst earliest.simps, auto)

lemma earliest_none: "earliest stabs ty l m < l \<or> n_type (stabs (earliest stabs ty l m)) = ty"
  by (induction stabs ty l m rule: earliest.induct) (subst (1 2) earliest.simps, auto)

lemma earliest_skips: "earliest stabs ty l m < i \<Longrightarrow> i \<le> m \<Longrightarrow> n_type (stabs i) \<noteq> ty"
proof (induction stabs ty l m rule: earliest.induct)
  case (1 stabs ty l m)
  then show ?case by (cases "i = m") (auto simp: earliest.simps[of stabs ty l m] split: if_splits)
qed

lemma earliest_idem:
  "l \<le> earliest stabs ty l m \<Longrightarrow> earliest stabs ty (earliest stabs ty l m) m = earliest stabs ty l m"
proof (induction stabs ty l m rule: earliest.induct)
  case (1 stabs ty l m)
  show ?case
  proof (cases "m \<ge> l \<and> n_type (stabs m) \<noteq> ty")
    case True
    then have e: "earliest stabs ty l m = earliest stabs ty l (m - 1)" by (simp add: earliest.simps[of stabs ty l m])
    have "earliest stabs ty l (m - 1) \<le> m" using earliest_le[of stabs ty l "m - 1"] by simp
    then have "earliest stabs ty (earliest stabs ty l (m - 1)) m = earliest stabs ty (earliest stabs ty l (m - 1)) (m - 1)"
      using True by (simp add: earliest.simps[of stabs ty "earliest stabs ty l (m - 1)" m])
    then show ?thesis using 1 True e by simp
  next
    case False
    then show ?thesis using 1 by (auto simp: earliest.simps[of stabs ty l m] earliest.simps[of stabs ty m m])
  qed
qed

text \<open>C's division by two rounds towards zero.  The main loop: every turn shrinks \<open>[l, r]\<close>, but for an exact match at \<open>l\<close>; the next turn then
  compares the same entry with a larger address.\<close>

definition half :: "int \<Rightarrow> int" where
  "half x = (if x < 0 then - ((- x) div 2) else x div 2)"

lemma half_between: "l \<le> r \<Longrightarrow> l \<le> half (l + r)" "l \<le> r \<Longrightarrow> half (l + r) \<le> r"
  by (simp_all add: half_def) linarith+

definition probe_eq :: "(int \<Rightarrow> stab) \<Rightarrow> u8 \<Rightarrow> int \<Rightarrow> int \<Rightarrow> u32 \<Rightarrow> bool" where
  "probe_eq stabs ty l r addr \<longleftrightarrow> n_value (stabs (earliest stabs ty l (half (l + r)))) = addr"

lemma halve_less: "(a :: int) < b \<Longrightarrow> 0 < b \<Longrightarrow> 2 * nat a + (if p then 1 else 0) < 2 * nat b + (if q then 1 else 0)"
  by (cases p; cases q) auto

function stab_loop :: "(int \<Rightarrow> stab) \<Rightarrow> u8 \<Rightarrow> int \<Rightarrow> int \<Rightarrow> int \<Rightarrow> int \<Rightarrow> bool \<Rightarrow> u32 \<Rightarrow> int \<times> int \<times> bool" where
  "stab_loop stabs ty l r left right any_matches addr =
    (if l \<le> r then
       (let true_m = half (l + r);
            m = earliest stabs ty l true_m
        in if m < l then stab_loop stabs ty (true_m + 1) r left right any_matches addr
           else if n_value (stabs m) < addr then stab_loop stabs ty (true_m + 1) r m right True addr
           else if n_value (stabs m) > addr then stab_loop stabs ty l (m - 1) left (m - 1) True addr
           else stab_loop stabs ty m r m right True (addr + 1))
     else (left, right, any_matches))"
  by pat_completeness auto
termination
proof (relation "measure (\<lambda>(stabs, ty, l, r, left, right, any, addr). 2 * nat (r - l + 1) + (if probe_eq stabs ty l r addr then 1 else 0))",
    goal_cases)
  case (2 stabs ty l r left right any addr tm m)
  then have "l \<le> tm" using half_between by simp
  then show ?case using 2(1) unfolding in_measure split by (intro halve_less) auto
next
  case (3 stabs ty l r left right any addr tm m)
  then have "l \<le> tm" using half_between by simp
  then show ?case using 3(1) unfolding in_measure split by (intro halve_less) auto
next
  case (4 stabs ty l r left right any addr tm m)
  have "m \<le> tm" "tm \<le> r" using 4 earliest_le half_between by simp_all
  then show ?case using 4 unfolding in_measure split by (intro halve_less) auto
next
  case (5 stabs ty l r left right any addr tm m)
  show ?case
  proof (cases "m = l")
    case True
    have "\<not> probe_eq stabs ty l r (addr + 1)" "probe_eq stabs ty l r addr" using 5 True by (auto simp: probe_eq_def)
    then show ?thesis using True 5 by simp
  next
    case False
    then show ?thesis using 5 unfolding in_measure split by (intro halve_less) auto
  qed
qed auto

declare stab_loop.simps [simp del]

function scan_left :: "(int \<Rightarrow> stab) \<Rightarrow> u8 \<Rightarrow> int \<Rightarrow> int \<Rightarrow> int" where
  "scan_left stabs ty left l = (if l > left \<and> n_type (stabs l) \<noteq> ty then scan_left stabs ty left (l - 1) else l)"
  by pat_completeness auto
termination by (relation "measure (\<lambda>(stabs, ty, left, l). nat (l - left))") auto

declare scan_left.simps [simp del]

definition stab_binsearch :: "(int \<Rightarrow> stab) \<Rightarrow> int \<Rightarrow> int \<Rightarrow> u8 \<Rightarrow> u32 \<Rightarrow> int \<times> int" where
  "stab_binsearch stabs region_left region_right ty addr =
    (let (left, right, any_matches) = stab_loop stabs ty region_left region_right region_left region_right False addr
     in if \<not> any_matches then (left, left - 1) else (scan_left stabs ty left right, right))"

section \<open>The search is a linear search\<close>

text \<open>The entries of the type in the region, those up to the address and those above it.\<close>

definition entries :: "(int \<Rightarrow> stab) \<Rightarrow> u8 \<Rightarrow> int \<Rightarrow> int \<Rightarrow> int set" where
  "entries stabs ty L R = {i. L \<le> i \<and> i \<le> R \<and> n_type (stabs i) = ty}"

definition stabs_sorted :: "(int \<Rightarrow> stab) \<Rightarrow> u8 \<Rightarrow> int \<Rightarrow> int \<Rightarrow> bool" where
  "stabs_sorted stabs ty L R \<longleftrightarrow> (\<forall>i \<in> entries stabs ty L R. \<forall>j \<in> entries stabs ty L R. i < j \<longrightarrow> n_value (stabs i) \<le> n_value (stabs j))"

text \<open>What the loop knows: everything of the type left of \<open>l\<close> is at or below the address, everything
  right of \<open>r\<close> above it.  \<open>a\<close> is the address as the loop has incremented it.\<close>

definition loop_inv :: "(int \<Rightarrow> stab) \<Rightarrow> u8 \<Rightarrow> int \<Rightarrow> int \<Rightarrow> u32 \<Rightarrow> int \<Rightarrow> int \<Rightarrow> int \<Rightarrow> bool \<Rightarrow> u32 \<Rightarrow> bool" where
  "loop_inv stabs ty L R addr l r left any_m a \<longleftrightarrow>
     L \<le> l \<and> (\<forall>i \<in> entries stabs ty L R. i < l \<longrightarrow> n_value (stabs i) \<le> addr) \<and>
     r \<le> R \<and> (\<forall>i \<in> entries stabs ty L R. i > r \<longrightarrow> n_value (stabs i) > addr) \<and> (r = R \<or> r + 1 \<in> entries stabs ty L R) \<and>
     (left = L \<or> left \<in> entries stabs ty L R \<and> n_value (stabs left) \<le> addr) \<and>
     (if any_m then entries stabs ty L R \<noteq> {} else r = R \<and> left = L \<and> (\<forall>i \<in> entries stabs ty L R. l \<le> i)) \<and>
     (a = addr \<or> a = addr + 1 \<and> (\<forall>i \<in> entries stabs ty L R. n_value (stabs i) \<noteq> a))"

lemma word_less_inc: "(x :: u32) < a + 1 \<Longrightarrow> x \<le> a"
  by (metis inc_le linorder_not_le)

lemma word_inc_less: "(a :: u32) \<noteq> - 1 \<Longrightarrow> a < a + 1"
proof -
  assume "a \<noteq> - 1"
  then have "a + 1 \<noteq> 0" using max_word_wrap[of a] by auto
  then have "unat (a + 1) \<noteq> 0" by (simp only: unat_eq_0 not_False_eq_True)
  moreover have "unat (a + 1) = (unat a + 1) mod 2 ^ 32" by (simp add: unat_word_ariths)
  moreover have "unat a < 2 ^ 32" using unsigned_less[of a, where ?'a = nat] by simp
  ultimately have "unat a + 1 < 2 ^ 32" by (cases "unat a + 1 = 2 ^ 32") auto
  then have "unat (a + 1) = unat a + 1" by (simp add: unat_word_ariths)
  then show ?thesis by (simp add: word_less_nat_alt)
qed

text \<open>One turn, by the result of the comparison.\<close>

lemma turn_facts:
  assumes "loop_inv stabs ty L R addr l r left any_m a" "l \<le> r" "tm = half (l + r)" "m = earliest stabs ty l tm"
  shows "l \<le> tm" "tm \<le> r" "m \<le> tm" "\<And>i. i \<in> entries stabs ty L R \<Longrightarrow> m < i \<Longrightarrow> tm < i" "l \<le> m \<Longrightarrow> m \<in> entries stabs ty L R"
proof -
  show t: "l \<le> tm" "tm \<le> r" "m \<le> tm" using assms earliest_le half_between by auto
  show "tm < i" if "i \<in> entries stabs ty L R" "m < i" for i
    using earliest_skips[of stabs ty l tm i] that assms(4) by (force simp: entries_def)
  show "m \<in> entries stabs ty L R" if "l \<le> m"
    using earliest_none[of stabs ty l tm] that t assms(1,4) by (auto simp: entries_def loop_inv_def)
qed

lemma turn_none:
  assumes i: "loop_inv stabs ty L R addr l r left any_m a" "l \<le> r" "tm = half (l + r)" "m = earliest stabs ty l tm" and "m < l"
  shows "loop_inv stabs ty L R addr (tm + 1) r left any_m a"
proof -
  note f = turn_facts[OF i]
  have lt: "j < l \<longleftrightarrow> j < tm + 1" "l \<le> j \<longleftrightarrow> tm + 1 \<le> j" if "j \<in> entries stabs ty L R" for j
    using f(4)[OF that] f(1) assms(5) by (cases "m < j"; auto)+
  have "(\<forall>j \<in> entries stabs ty L R. tm + 1 \<le> j) \<longleftrightarrow> (\<forall>j \<in> entries stabs ty L R. l \<le> j)" using lt(2) by blast
  then show ?thesis using i(1) f(1) lt(1) unfolding loop_inv_def by simp
qed

lemma turn_below:
  assumes i: "loop_inv stabs ty L R addr l r left any_m a" "l \<le> r" "tm = half (l + r)" "m = earliest stabs ty l tm"
    and so: "stabs_sorted stabs ty L R" "addr \<noteq> - 1" and "l \<le> m" "n_value (stabs m) < a"
  shows "loop_inv stabs ty L R addr (tm + 1) r m True a"
proof -
  note f = turn_facts[OF i]
  have m: "m \<in> entries stabs ty L R" by (rule f(5)[OF assms(7)])
  have v: "n_value (stabs m) \<le> addr"
    using i(1) assms(8) by (auto simp: loop_inv_def intro: word_less_inc)
  have "n_value (stabs j) \<le> addr" if "j \<in> entries stabs ty L R" "j < tm + 1" for j
  proof (cases "j < m")
    case True
    then have "n_value (stabs j) \<le> n_value (stabs m)" using so(1) that(1) m by (auto simp: stabs_sorted_def)
    then show ?thesis using v by simp
  next
    case False
    then have "j = m" using f(4)[OF that(1)] that(2) by force
    then show ?thesis using v by simp
  qed
  then show ?thesis using i(1) f(1) m v by (auto simp: loop_inv_def)
qed

lemma turn_above:
  assumes i: "loop_inv stabs ty L R addr l r left any_m a" "l \<le> r" "tm = half (l + r)" "m = earliest stabs ty l tm"
    and so: "stabs_sorted stabs ty L R" "addr \<noteq> - 1" and "l \<le> m" "n_value (stabs m) > a"
  shows "loop_inv stabs ty L R addr l (m - 1) left True a"
proof -
  note f = turn_facts[OF i]
  have m: "m \<in> entries stabs ty L R" by (rule f(5)[OF assms(7)])
  have v: "addr < n_value (stabs m)"
    using i(1) assms(8) word_inc_less[OF so(2)] by (auto simp: loop_inv_def)
  have "addr < n_value (stabs j)" if "j \<in> entries stabs ty L R" "m - 1 < j" for j
  proof (cases "j = m")
    case False
    then have "n_value (stabs m) \<le> n_value (stabs j)" using so(1) that m by (auto simp: stabs_sorted_def)
    then show ?thesis using v by simp
  qed (use v in simp)
  then show ?thesis using i(1) f(2,3) m by (auto simp: loop_inv_def)
qed

lemma turn_exact:
  assumes i: "loop_inv stabs ty L R addr l r left any_m a" "l \<le> r" "tm = half (l + r)" "m = earliest stabs ty l tm"
    and so: "stabs_sorted stabs ty L R" and "l \<le> m" "n_value (stabs m) = a"
    and nx: "\<forall>i \<in> entries stabs ty L R. \<forall>j \<in> entries stabs ty L R. n_value (stabs i) = addr \<longrightarrow> n_value (stabs j) \<noteq> addr + 1"
  shows "loop_inv stabs ty L R addr m r m True (a + 1)"
proof -
  note f = turn_facts[OF i]
  have m: "m \<in> entries stabs ty L R" by (rule f(5)[OF assms(6)])
  have a: "a = addr" using i(1) m assms(7) by (auto simp: loop_inv_def)
  have "n_value (stabs j) \<le> addr" if "j \<in> entries stabs ty L R" "j < m" for j
  proof -
    have "n_value (stabs j) \<le> n_value (stabs m)" using so that m by (auto simp: stabs_sorted_def)
    then show ?thesis using a assms(7) by simp
  qed
  then show ?thesis using i(1) m a assms(6,7) nx by (auto simp: loop_inv_def)
qed

lemma stab_loop_inv:
  assumes "stabs_sorted stabs ty L R" "addr \<noteq> - 1"
    and "\<forall>i \<in> entries stabs ty L R. \<forall>j \<in> entries stabs ty L R. n_value (stabs i) = addr \<longrightarrow> n_value (stabs j) \<noteq> addr + 1"
  shows "right = r \<Longrightarrow> loop_inv stabs ty L R addr l r left any_m a \<Longrightarrow>
    \<exists>l' r' left' any' a'. stab_loop stabs ty l r left right any_m a = (left', r', any') \<and> loop_inv stabs ty L R addr l' r' left' any' a' \<and> r' < l'"
  using assms
proof (induction stabs ty l r left right any_m a rule: stab_loop.induct)
  case (1 stabs ty l r left right any_m a)
  show ?case
  proof (cases "l \<le> r")
    case False
    then show ?thesis using 1(5,6) by (subst stab_loop.simps) auto
  next
    case lr: True
    define tm where "tm = half (l + r)"
    define m where "m = earliest stabs ty l tm"
    note i = 1(6) lr tm_def m_def
    note st = stab_loop.simps[of stabs ty l r left right any_m a, unfolded Let_def, folded tm_def, folded m_def]
    consider "m < l" | "l \<le> m" "n_value (stabs m) < a" | "l \<le> m" "a < n_value (stabs m)" | "l \<le> m" "n_value (stabs m) = a"
      by fastforce
    then show ?thesis
    proof cases
      case 1
      then show ?thesis using lr st "1.IH"(1)[OF lr tm_def m_def 1 "1.prems"(1) turn_none[OF i 1] "1.prems"(3-5)] by simp
    next
      case 2
      then have n: "\<not> m < l" by simp
      show ?thesis using 2 lr st "1.IH"(2)[OF lr tm_def m_def n 2(2) "1.prems"(1) turn_below[OF i "1.prems"(3,4) 2] "1.prems"(3-5)] by simp
    next
      case 3
      then have n: "\<not> m < l" "\<not> n_value (stabs m) < a" by auto
      show ?thesis using 3 n lr st "1.IH"(3)[OF lr tm_def m_def n 3(2) refl turn_above[OF i "1.prems"(3,4) 3] "1.prems"(3-5)] by simp
    next
      case 4
      then have n: "\<not> m < l" "\<not> n_value (stabs m) < a" "\<not> a < n_value (stabs m)" by auto
      show ?thesis using 4 n lr st "1.IH"(4)[OF lr tm_def m_def n "1.prems"(1) turn_exact[OF i "1.prems"(3) 4 "1.prems"(5)] "1.prems"(3-5)] by simp
    qed
  qed
qed

lemma scan_left_spec:
  "left < l \<Longrightarrow> left \<le> scan_left stabs ty left l \<and> scan_left stabs ty left l \<le> l
     \<and> (scan_left stabs ty left l = left \<or> n_type (stabs (scan_left stabs ty left l)) = ty)
     \<and> (\<forall>i. scan_left stabs ty left l < i \<and> i \<le> l \<longrightarrow> n_type (stabs i) \<noteq> ty)"
proof (induction stabs ty left l rule: scan_left.induct)
  case (1 stabs ty left l)
  show ?case
  proof (cases "n_type (stabs l) = ty")
    case False
    then have e: "scan_left stabs ty left l = scan_left stabs ty left (l - 1)" using 1(2) by (simp add: scan_left.simps[of stabs ty left l])
    show ?thesis
    proof (cases "left < l - 1")
      case True
      note ih = 1(1)[OF _ True]
      have "n_type (stabs i) \<noteq> ty" if "scan_left stabs ty left (l - 1) < i" "i \<le> l" for i
        using that ih 1(2) False by (cases "i = l") auto
      then show ?thesis using ih 1(2) False e by auto
    next
      case l: False
      then have "scan_left stabs ty left l = left" using e 1(2) by (simp add: scan_left.simps[of stabs ty left "l - 1"])
      moreover have "left < i \<Longrightarrow> i \<le> l \<Longrightarrow> i = l" for i using l by simp
      ultimately show ?thesis using 1(2) False by auto
    qed
  qed (use 1(2) in \<open>auto simp: scan_left.simps[of stabs ty left l]\<close>)
qed

lemma scan_left_stop: "l \<le> left \<Longrightarrow> scan_left stabs ty left l = l"
  by (simp add: scan_left.simps[of stabs ty left l])

text \<open>The reference: look at every entry of the region.\<close>

definition stab_linear :: "(int \<Rightarrow> stab) \<Rightarrow> int \<Rightarrow> int \<Rightarrow> u8 \<Rightarrow> u32 \<Rightarrow> int \<times> int" where
  "stab_linear stabs L R ty addr =
    (let below = filter (\<lambda>i. n_type (stabs i) = ty \<and> n_value (stabs i) \<le> addr) [L..R];
         above = filter (\<lambda>i. n_type (stabs i) = ty \<and> n_value (stabs i) > addr) [L..R];
         right = (if above = [] then R else hd above - 1)
     in if below = [] \<and> above = [] then (L, L - 1) else (if below = [] then min L right else last below, right))"

lemma sorted_le_last: "x \<in> set xs \<Longrightarrow> sorted xs \<Longrightarrow> x \<le> last xs"
  by (induction xs) auto

lemma last_filter_upto: "x \<in> set xs \<Longrightarrow> (\<And>y. y \<in> set xs \<Longrightarrow> y \<le> x) \<Longrightarrow> sorted xs \<Longrightarrow> last xs = (x :: int)"
  using sorted_le_last[of x xs] last_in_set[of xs] by (cases xs) (auto intro: order.antisym)

lemma hd_le_sorted: "x \<in> set xs \<Longrightarrow> sorted xs \<Longrightarrow> hd xs \<le> x"
  by (cases xs) auto

lemma hd_sorted: "x \<in> set xs \<Longrightarrow> (\<And>y. y \<in> set xs \<Longrightarrow> x \<le> y) \<Longrightarrow> sorted xs \<Longrightarrow> hd xs = (x :: int)"
  by (cases xs) force+

lemma stab_binsearch_ok:
  assumes "stabs_sorted stabs ty L R" "addr \<noteq> - 1"
    and "\<forall>i \<in> entries stabs ty L R. \<forall>j \<in> entries stabs ty L R. n_value (stabs i) = addr \<longrightarrow> n_value (stabs j) \<noteq> addr + 1"
  shows "stab_binsearch stabs L R ty addr = stab_linear stabs L R ty addr"
proof -
  define E where "E = entries stabs ty L R"
  define below where "below = filter (\<lambda>i. n_type (stabs i) = ty \<and> n_value (stabs i) \<le> addr) [L..R]"
  define above where "above = filter (\<lambda>i. n_type (stabs i) = ty \<and> n_value (stabs i) > addr) [L..R]"
  have sets: "set below = {i \<in> E. n_value (stabs i) \<le> addr}" "set above = {i \<in> E. n_value (stabs i) > addr}"
    by (auto simp: below_def above_def E_def entries_def)
  have so: "sorted below" "sorted above" by (simp_all add: below_def above_def sorted_wrt_filter)
  have EE: "E = {}" if "below = []" "above = []" using sets that by force
  have "loop_inv stabs ty L R addr L R L False addr" by (auto simp: loop_inv_def entries_def)
  from stab_loop_inv[OF assms refl this] obtain l r left any_m a where
    st: "stab_loop stabs ty L R L R False addr = (left, r, any_m)" and i: "loop_inv stabs ty L R addr l r left any_m a" and rl: "r < l"
    by auto
  note i = i[unfolded loop_inv_def, folded E_def]
  have le: "n_value (stabs j) \<le> addr \<longleftrightarrow> j \<le> r" if "j \<in> E" for j
  proof (cases "j \<le> r")
    case True
    then have "j < l" using rl by simp
    then show ?thesis using i that True by blast
  next
    case False
    then have "addr < n_value (stabs j)" using i that by (simp add: not_le)
    then show ?thesis using False by simp
  qed
  have any: "any_m \<longleftrightarrow> E \<noteq> {}"
  proof (cases any_m)
    case False
    then have "r = R" "\<forall>j \<in> E. l \<le> j" using i by auto
    then show ?thesis using rl False by (auto simp: E_def entries_def)
  qed (use i in auto)
  have right: "r = (if above = [] then R else hd above - 1)"
  proof (cases "above = []")
    case True
    then have "\<forall>j \<in> E. \<not> addr < n_value (stabs j)" using sets(2) by auto
    then have "r + 1 \<notin> E" using i le[of "r + 1"] by auto
    then show ?thesis using i True by simp
  next
    case False
    then obtain j where j: "j \<in> E" "addr < n_value (stabs j)" using sets(2) by (metis (mono_tags, lifting) list.set_sel(1) mem_Collect_eq)
    then have "r \<noteq> R" using le[OF j(1)] by (auto simp: E_def entries_def)
    then have "r + 1 \<in> E" using i by blast
    have ab: "addr < n_value (stabs k) \<longleftrightarrow> r + 1 \<le> k" if "k \<in> E" for k using le[OF that] by auto
    have "hd above = r + 1" using so(2) \<open>r + 1 \<in> E\<close> by (intro hd_sorted) (auto simp: sets(2) ab)
    then show ?thesis using False by simp
  qed
  have lin: "stab_linear stabs L R ty addr = (if E = {} then (L, L - 1) else (if below = [] then min L r else last below, r))"
    using right EE sets by (auto simp: stab_linear_def Let_def below_def[symmetric] above_def[symmetric])
  show ?thesis
  proof (cases "E = {}")
    case True
    then have "\<not> any_m" "left = L" using any i by auto
    then show ?thesis using st lin True by (simp add: stab_binsearch_def)
  next
    case False
    then have b: "stab_binsearch stabs L R ty addr = (scan_left stabs ty left r, r)" using st any by (simp add: stab_binsearch_def)
    have rL: "L - 1 \<le> r" using i False by (auto simp: E_def entries_def)
    have inE: "n_type (stabs j) \<noteq> ty" if "j \<notin> E" "L \<le> j" "j \<le> r" for j using that i by (auto simp: E_def entries_def)
    define x where "x = scan_left stabs ty left r"
    have "x = (if below = [] then min L r else last below)"
    proof (cases "below = []")
      case bn: True
      then have none: "j \<notin> E" if "j \<le> r" for j using le[of j] sets(1) that by auto
      then have "left = L" using i le by blast
      then show ?thesis using bn scan_left_spec[of L r stabs ty] scan_left_stop[of r L stabs ty] inE none by (cases "L < r") (force simp: x_def)+
    next
      case bn: False
      then obtain j where j: "j \<in> E" "j \<le> r" using sets(1) le by (metis (mono_tags, lifting) list.set_sel(1) mem_Collect_eq)
      have Lj: "L \<le> k" if "k \<in> E" for k using that by (auto simp: E_def entries_def)
      have lr: "left \<le> r" using i le j Lj by fastforce
      have "x \<in> E \<and> x \<le> r \<and> (\<forall>k \<in> E. k \<le> r \<longrightarrow> k \<le> x)"
      proof (cases "left < r")
        case True
        note sp = scan_left_spec[OF True, of stabs ty, folded x_def]
        have up: "k \<le> x" if "k \<in> E" "k \<le> r" for k
          using sp that by (auto simp: E_def entries_def not_le[symmetric])
        have "x \<in> E"
        proof (cases "x = left")
          case True
          then have "j \<le> left" using up[OF j] by simp
          then show ?thesis using i j Lj[OF j(1)] True by (metis order.antisym)
        next
          case False
          then have "n_type (stabs x) = ty" using sp by blast
          moreover have "L \<le> x" using sp i Lj by (meson order_trans order_refl)
          ultimately show ?thesis using sp i by (auto simp: E_def entries_def)
        qed
        then show ?thesis using sp up by blast
      next
        case False
        then have e: "x = r" "left = r" using lr scan_left_stop[of r left stabs ty] by (auto simp: x_def)
        have "r \<in> E" using i e(2) j Lj[OF j(1)] by (metis order.antisym)
        then show ?thesis using e by simp
      qed
      then have "last below = x" using so(1) sets(1) le by (intro last_filter_upto) auto
      then show ?thesis using bn by simp
    qed
    then show ?thesis using b lin False by (simp add: x_def)
  qed
qed

text \<open>The result of the linear search, as the comment of the source describes it.\<close>

lemma set_filter_entries: "set (filter (\<lambda>i. n_type (stabs i) = ty \<and> P i) [L..R]) = {i \<in> entries stabs ty L R. P i}"
  by (auto simp: entries_def)

lemma stab_linear_bracket:
  assumes so: "stabs_sorted stabs ty L R" and x: "\<exists>i \<in> entries stabs ty L R. n_value (stabs i) \<le> addr"
    and e: "(left, right) = stab_linear stabs L R ty addr"
  shows "left \<in> entries stabs ty L R" "n_value (stabs left) \<le> addr" "left \<le> right"
    "\<forall>i \<in> entries stabs ty L R. left < i \<longrightarrow> right < i \<and> addr < n_value (stabs i)"
    "right = R \<or> right + 1 \<in> entries stabs ty L R \<and> addr < n_value (stabs (right + 1))"
proof -
  define below where "below = filter (\<lambda>i. n_type (stabs i) = ty \<and> n_value (stabs i) \<le> addr) [L..R]"
  define above where "above = filter (\<lambda>i. n_type (stabs i) = ty \<and> n_value (stabs i) > addr) [L..R]"
  have b: "set below = {i \<in> entries stabs ty L R. n_value (stabs i) \<le> addr}" and a: "set above = {i \<in> entries stabs ty L R. addr < n_value (stabs i)}"
    unfolding below_def above_def by (rule set_filter_entries)+
  have "below \<noteq> []" using b x by (metis (mono_tags, lifting) empty_iff empty_set mem_Collect_eq)
  then have l: "left = last below" and r: "right = (if above = [] then R else hd above - 1)"
    using e by (simp_all add: stab_linear_def Let_def below_def[symmetric] above_def[symmetric])
  have lb: "left \<in> set below" using l \<open>below \<noteq> []\<close> by simp
  have mx: "i \<le> left" if "i \<in> set below" for i
    using that l sorted_le_last[of i below] by (simp add: below_def sorted_wrt_filter sorted_upto)
  have mn: "right < i" if "i \<in> set above" for i
  proof -
    have "above \<noteq> []" using that by auto
    moreover have "hd above \<le> i" using that hd_le_sorted[of i above] by (simp add: above_def sorted_wrt_filter sorted_upto)
    ultimately show ?thesis using r by simp
  qed
  show "left \<in> entries stabs ty L R" "n_value (stabs left) \<le> addr" using lb b by auto
  show "\<forall>i \<in> entries stabs ty L R. left < i \<longrightarrow> right < i \<and> addr < n_value (stabs i)"
    using mx mn a b by (metis (mono_tags, lifting) leD leI mem_Collect_eq)
  have h: "hd above \<in> set above" if "above \<noteq> []" using that by simp
  show "right = R \<or> right + 1 \<in> entries stabs ty L R \<and> addr < n_value (stabs (right + 1))" using h a r by auto
  show "left \<le> right"
  proof (cases "above = []")
    case True
    then show ?thesis using lb b r by (auto simp: entries_def)
  next
    case False
    have "\<not> hd above < left"
      using h[OF False] a b lb so by (fastforce simp: stabs_sorted_def)
    moreover have "hd above \<noteq> left" using h[OF False] a b lb by auto
    ultimately show ?thesis using r False by simp
  qed
qed

lemma stab_linear_empty:
  assumes "entries stabs ty L R = {}" "(left, right) = stab_linear stabs L R ty addr"
  shows "left = L" "right = L - 1"
proof -
  have "filter (\<lambda>i. n_type (stabs i) = ty \<and> P i) [L..R] = []" for P
    using set_filter_entries[of stabs ty P L R] assms(1) by simp
  then show "left = L" "right = L - 1" using assms(2) by (simp_all add: stab_linear_def)
qed

text \<open>The case in which the code departs from the comment: there are entries of the type, all of them
  above the address.  Then the interval need not be empty, but its left end is no entry of the type.\<close>

lemma stab_binsearch_all_above:
  assumes "stabs_sorted stabs ty L R" "addr \<noteq> - 1" "entries stabs ty L R \<noteq> {}"
    and "\<forall>i \<in> entries stabs ty L R. addr < n_value (stabs i)" "f \<in> entries stabs ty L R" "\<forall>i \<in> entries stabs ty L R. f \<le> i"
  shows "stab_binsearch stabs L R ty addr = (min L (f - 1), f - 1)"
proof -
  have b: "filter (\<lambda>i. n_type (stabs i) = ty \<and> n_value (stabs i) \<le> addr) [L..R] = []"
    by (rule filter_False) (use assms(4) in \<open>auto simp: entries_def not_le\<close>)
  define above where "above = filter (\<lambda>i. n_type (stabs i) = ty \<and> addr < n_value (stabs i)) [L..R]"
  have a: "set above = entries stabs ty L R" unfolding above_def set_filter_entries using assms(4) by auto
  have "hd above = f" by (rule hd_sorted) (use a assms(5,6) in \<open>auto simp: above_def sorted_wrt_filter sorted_upto\<close>)
  moreover have "above \<noteq> []" using a assms(3) by auto
  ultimately have "stab_linear stabs L R ty addr = (min L (f - 1), f - 1)" using b by (simp add: stab_linear_def Let_def above_def[symmetric])
  then show ?thesis using stab_binsearch_ok[OF assms(1,2)] assms(4) by auto
qed

section \<open>Information on an address\<close>

text \<open>\<open>eip_file\<close> and \<open>eip_fn_name\<close> are offsets into the string table, \<open>None\<close> for the text \<open><unknown>\<close>.\<close>

record eipdebuginfo =
  eip_file :: "nat option"
  eip_line :: int
  eip_fn_name :: "nat option"
  eip_fn_namelen :: nat
  eip_fn_addr :: u32
  eip_fn_narg :: nat

text \<open>The search backwards for the name of the file.\<close>

function file_scan :: "(int \<Rightarrow> stab) \<Rightarrow> int \<Rightarrow> int \<Rightarrow> int" where
  "file_scan stabs lfile lline =
    (if lline \<ge> lfile \<and> n_type (stabs lline) \<noteq> N_SOL \<and> (n_type (stabs lline) \<noteq> N_SO \<or> n_value (stabs lline) = 0)
     then file_scan stabs lfile (lline - 1) else lline)"
  by pat_completeness auto
termination by (relation "measure (\<lambda>(stabs, lfile, lline). nat (lline - lfile + 1))") auto

declare file_scan.simps [simp del]

text \<open>The number of \<open>N_PSYM\<close> entries behind the function.\<close>

function count_args :: "(int \<Rightarrow> stab) \<Rightarrow> int \<Rightarrow> int \<Rightarrow> nat" where
  "count_args stabs lline rfun =
    (if lline < rfun \<and> n_type (stabs lline) = N_PSYM then Suc (count_args stabs (lline + 1) rfun) else 0)"
  by pat_completeness auto
termination by (relation "measure (\<lambda>(stabs, lline, rfun). nat (rfun - lline))") auto

declare count_args.simps [simp del]

text \<open>\<open>n\<close> is the number of entries of the table, \<open>strs\<close> and \<open>len\<close> are the string table; 58 is the colon.\<close>

definition debuginfo_eip :: "(int \<Rightarrow> stab) \<Rightarrow> int \<Rightarrow> mem \<Rightarrow> nat \<Rightarrow> u32 \<Rightarrow> (int \<times> eipdebuginfo) option" where
  "debuginfo_eip stabs n strs len addr =
    (let info = \<lparr>eip_file = None, eip_line = 0, eip_fn_name = None, eip_fn_namelen = 9, eip_fn_addr = addr, eip_fn_narg = 0\<rparr>
     in if len = 0 \<or> strs (len - 1) \<noteq> 0 then Some (- 1, info)
        else (let (lfile, rfile) = stab_binsearch stabs 0 (n - 1) N_SO addr
              in if lfile = 0 then Some (- 1, info)
                 else do {
                   let (lfun, rfun) = stab_binsearch stabs lfile rfile N_FUN addr;
                   let (info, addr, lline, rline) =
                     (if lfun \<le> rfun then
                        (info\<lparr>eip_fn_name := (if unat (n_strx (stabs lfun)) < len then Some (unat (n_strx (stabs lfun))) else None),
                              eip_fn_addr := n_value (stabs lfun)\<rparr>, addr - n_value (stabs lfun), lfun, rfun)
                      else (info\<lparr>eip_fn_addr := addr\<rparr>, addr, lfile, rfile));
                   nl \<leftarrow> (case eip_fn_name info of None \<Rightarrow> Some 9
                        | Some nm \<Rightarrow> do { e \<leftarrow> strfind strs nm 58; Some (e - nm) });
                   let info = info\<lparr>eip_fn_namelen := nl\<rparr>;
                   let (lline, rline) = stab_binsearch stabs lline rline N_SLINE addr;
                   (if \<not> lline \<le> rline then Some (- 1, info)
                    else do {
                      let info = info\<lparr>eip_line := uint (n_desc (stabs rline))\<rparr>;
                      let lline = file_scan stabs lfile lline;
                      let info = (if lline \<ge> lfile \<and> unat (n_strx (stabs lline)) < len
                                  then info\<lparr>eip_file := Some (unat (n_strx (stabs lline)))\<rparr> else info);
                      let info = (if lfun < rfun then info\<lparr>eip_fn_narg := count_args stabs (lfun + 1) rfun\<rparr> else info);
                      Some (0, info)
                    })
                 }))"

text \<open>What \<open>print_debuginfo\<close> prints: file, line, name of the function, offset; \<open>None\<close> inside if nothing is
  known.  A name of 256 characters or more overruns the array \<open>fnname\<close>.\<close>

definition print_debuginfo :: "(int \<Rightarrow> stab) \<Rightarrow> int \<Rightarrow> mem \<Rightarrow> nat \<Rightarrow> u32
    \<Rightarrow> (nat option \<times> int \<times> u8 list option \<times> u32) option option" where
  "print_debuginfo stabs n strs len eip = do {
     (ret, info) \<leftarrow> debuginfo_eip stabs n strs len eip;
     (if ret \<noteq> 0 then Some None
      else do {
        kassert (eip_fn_namelen info < 256);
        Some (Some (eip_file info, eip_line info,
          map_option (\<lambda>nm. map (\<lambda>j. strs (nm + j)) [0..<eip_fn_namelen info]) (eip_fn_name info), eip - eip_fn_addr info))
      })
   }"

text \<open>The frames that \<open>print_stackframe\<close> prints; \<open>w\<close> reads a word of memory.\<close>

abbreviation (input) "STACKFRAME_DEPTH \<equiv> (20 :: nat)"

fun stack_frames :: "nat \<Rightarrow> (u32 \<Rightarrow> u32) \<Rightarrow> u32 \<Rightarrow> u32 \<Rightarrow> (u32 \<times> u32 \<times> u32 list) list" where
  "stack_frames 0 w ebp eip = []"
| "stack_frames (Suc i) w ebp eip =
    (if ebp \<noteq> 0 then (ebp, eip, map (\<lambda>j. w (ebp + 8 + 4 * of_nat j)) [0..<4]) # stack_frames i w (w ebp) (w (ebp + 4)) else [])"

definition print_stackframe :: "(u32 \<Rightarrow> u32) \<Rightarrow> u32 \<Rightarrow> u32 \<Rightarrow> (u32 \<times> u32 \<times> u32 list) list" where
  "print_stackframe w ebp eip = stack_frames STACKFRAME_DEPTH w ebp eip"

section \<open>Debug registers\<close>

abbreviation (input) "MAX_DR_NUM \<equiv> (4 :: nat)"
abbreviation (input) "DR_STATUS \<equiv> (6 :: nat)"
abbreviation (input) "DR_CONTROL \<equiv> (7 :: nat)"

text \<open>\<open>dr\<close> are the registers of the processor.\<close>

record debug_regs =
  dr :: "nat \<Rightarrow> u32"
  local_dr :: "nat \<Rightarrow> u32"
  status_dr :: u32
  control_dr :: u32
  local_dr_counter :: "nat \<Rightarrow> u32"
  is_dr_saved :: bool

definition save_all_dr :: "debug_regs \<Rightarrow> debug_regs" where
  "save_all_dr s =
    (let s = s\<lparr>local_dr := (\<lambda>i. if i < MAX_DR_NUM then dr s i else local_dr s i), status_dr := dr s DR_STATUS, control_dr := dr s DR_CONTROL\<rparr>;
         s = s\<lparr>dr := (dr s)(DR_CONTROL := 0)\<rparr>
     in s\<lparr>local_dr_counter := (\<lambda>i. if i < MAX_DR_NUM \<and> status_dr s AND push_bit i 1 \<noteq> 0 then local_dr_counter s i + 1 else local_dr_counter s i)\<rparr>)"

definition restore_all_dr :: "debug_regs \<Rightarrow> debug_regs" where
  "restore_all_dr s =
     s\<lparr>dr := (\<lambda>i. if i < MAX_DR_NUM then local_dr s i else dr s i)(DR_STATUS := 0, DR_CONTROL := control_dr s)\<rparr>"

definition debug_enable_dr :: "nat \<Rightarrow> u32 \<Rightarrow> u32 \<Rightarrow> u32 \<Rightarrow> debug_regs \<Rightarrow> int \<times> debug_regs" where
  "debug_enable_dr regnum addr ty len s =
    (if regnum < MAX_DR_NUM then
       (let shift = regnum * 4 + 16;
            mk = push_bit shift 0xF;
            c = control_dr s AND NOT mk;
            c = c OR push_bit shift (ty AND 3);
            c = c OR push_bit (shift + 2) (len AND 3);
            c = c OR push_bit (regnum * 2) 1
        in (0, s\<lparr>local_dr := (local_dr s)(regnum := addr), local_dr_counter := (local_dr_counter s)(regnum := 0), control_dr := c\<rparr>))
     else (- 1, s))"

definition debug_disable_dr :: "nat \<Rightarrow> debug_regs \<Rightarrow> int \<times> debug_regs" where
  "debug_disable_dr regnum s =
    (if regnum < MAX_DR_NUM then
       (let mk = push_bit (regnum * 4 + 16) 0xF
        in (0, s\<lparr>control_dr := control_dr s AND NOT mk AND NOT (push_bit (regnum * 2) 1)\<rparr>))
     else (- 1, s))"

text \<open>\<open>DR7_GEXACT | DR7_LEXACT\<close> is \<open>0x300\<close>.\<close>

definition debug_init :: "debug_regs \<Rightarrow> debug_regs" where
  "debug_init s = restore_all_dr (s\<lparr>local_dr := (\<lambda>i. if i < MAX_DR_NUM then 0 else local_dr s i),
     local_dr_counter := (\<lambda>i. if i < MAX_DR_NUM then 0 else local_dr_counter s i), control_dr := 0x300\<rparr>)"

text \<open>The lines of \<open>debug_list_dr\<close>: number, address, indices of the two descriptions, count.\<close>

definition debug_list_dr :: "debug_regs \<Rightarrow> (nat \<times> u32 \<times> u32 \<times> u32 \<times> u32) list" where
  "debug_list_dr s =
     map (\<lambda>r. (r, local_dr s r, drop_bit (r * 4 + 16) (control_dr s) AND 3, drop_bit (r * 4 + 16 + 2) (control_dr s) AND 3, local_dr_counter s r))
       (filter (\<lambda>r. control_dr s AND push_bit (r * 2) 1 \<noteq> 0) [0..<MAX_DR_NUM])"

definition debug_start :: "debug_regs \<Rightarrow> debug_regs" where
  "debug_start s = (if \<not> is_dr_saved s then save_all_dr (s\<lparr>is_dr_saved := True\<rparr>) else s)"

text \<open>\<open>FL_TF\<close> is \<open>0x100\<close>.\<close>

definition debug_end :: "u32 \<Rightarrow> debug_regs \<Rightarrow> debug_regs" where
  "debug_end tf_eflags s =
    (if tf_eflags AND 0x100 = 0 \<and> is_dr_saved s then restore_all_dr (s\<lparr>is_dr_saved := False\<rparr>) else s)"

text \<open>The bits of the control register.\<close>

lemma masks: "(0xF :: u32) = mask 4" "(3 :: u32) = mask 2"
  by (simp_all add: mask_eq_exp_minus_1)

lemma field_bits: "bit (push_bit k (x AND mask 2) :: u32) n \<longleftrightarrow> k \<le> n \<and> n < 32 \<and> n < k + 2 \<and> bit x (n - k)"
  "bit (push_bit k 1 :: u32) n \<longleftrightarrow> n = k \<and> n < 32"
  "bit (push_bit k (mask 4) :: u32) n \<longleftrightarrow> k \<le> n \<and> n < 32 \<and> n < k + 4"
  by (auto simp: bit_simps)

lemma enable_bit:
  assumes "r < 4" "n < 32"
  shows "bit (control_dr (snd (debug_enable_dr r addr ty len s))) n =
    (if r * 4 + 16 \<le> n \<and> n < r * 4 + 18 then bit ty (n - (r * 4 + 16))
     else if r * 4 + 18 \<le> n \<and> n < r * 4 + 20 then bit len (n - (r * 4 + 18))
     else n = r * 2 \<or> bit (control_dr s) n)"
proof -
  have "bit (control_dr (snd (debug_enable_dr r addr ty len s))) n \<longleftrightarrow>
    (bit (control_dr s) n \<and> \<not> (r * 4 + 16 \<le> n \<and> n < r * 4 + 20) \<or> (r * 4 + 16 \<le> n \<and> n < r * 4 + 18 \<and> bit ty (n - (r * 4 + 16)))
     \<or> (r * 4 + 18 \<le> n \<and> n < r * 4 + 20 \<and> bit len (n - (r * 4 + 18)))) \<or> n = r * 2"
    unfolding debug_enable_dr_def masks Let_def using assms
    by (simp del: push_bit_of_1 push_bit_and add: bit_or_iff bit_and_iff bit_not_iff field_bits) (simp add: add.commute)
  then show ?thesis using assms by auto
qed

lemma disable_bit:
  assumes "r < 4" "n < 32"
  shows "bit (control_dr (snd (debug_disable_dr r s))) n =
    (\<not> (r * 4 + 16 \<le> n \<and> n < r * 4 + 20) \<and> n \<noteq> r * 2 \<and> bit (control_dr s) n)"
  unfolding debug_disable_dr_def masks Let_def using assms
  by (simp del: push_bit_of_1 add: bit_or_iff bit_and_iff bit_not_iff field_bits) auto

text \<open>The line of register \<open>q\<close>, if it is enabled.\<close>

definition dr_line :: "debug_regs \<Rightarrow> nat \<Rightarrow> (u32 \<times> u32 \<times> u32 \<times> u32) option" where
  "dr_line s q = map_of (debug_list_dr s) q"

lemma dr_line_eq:
  "dr_line s q = (if q < 4 \<and> bit (control_dr s) (q * 2)
     then Some (local_dr s q, drop_bit (q * 4 + 16) (control_dr s) AND 3, drop_bit (q * 4 + 16 + 2) (control_dr s) AND 3, local_dr_counter s q)
     else None)"
proof -
  have b: "control_dr s AND push_bit (r * 2) 1 \<noteq> 0 \<longleftrightarrow> bit (control_dr s) (r * 2)" if "r < 4" for r
  proof -
    have "bit (control_dr s AND push_bit (r * 2) 1) n \<longleftrightarrow> n = r * 2 \<and> bit (control_dr s) n" for n
      using that by (auto simp: bit_and_iff field_bits simp del: push_bit_of_1)
    then show ?thesis by (metis bit_0_eq bot_apply bot_bool_def bit_eq_iff)
  qed
  have m: "map_of (map (\<lambda>r. (r, f r)) xs) q = (if q \<in> set xs then Some (f q) else None)" for f :: "nat \<Rightarrow> 'a" and xs
    by (induction xs) auto
  show ?thesis using b[of q] by (cases "q < 4") (simp_all add: dr_line_def debug_list_dr_def m)
qed

lemma field_eq: "(\<And>n. n < 2 \<Longrightarrow> bit c (k + n) = bit (d :: u32) (k' + n)) \<Longrightarrow> drop_bit k c AND 3 = drop_bit k' d AND 3"
  unfolding masks by (rule bit_word_eqI) (auto simp: bit_and_iff bit_drop_bit_eq bit_mask_iff)

lemma enable_lines:
  assumes "r < 4"
  shows "dr_line (snd (debug_enable_dr r addr ty len s)) q = (if q = r then Some (addr, ty AND 3, len AND 3, 0) else dr_line s q)"
proof -
  let ?s = "snd (debug_enable_dr r addr ty len s)"
  have o: "local_dr ?s = (local_dr s)(r := addr)" "local_dr_counter ?s = (local_dr_counter s)(r := 0)"
    using assms by (simp_all add: debug_enable_dr_def Let_def)
  have f: "drop_bit (r * 4 + 16) (control_dr ?s) AND 3 = drop_bit 0 ty AND 3" "drop_bit (r * 4 + 16 + 2) (control_dr ?s) AND 3 = drop_bit 0 len AND 3"
    by (rule field_eq; use assms in \<open>simp add: enable_bit\<close>)+
  show ?thesis
  proof (cases "q = r")
    case True
    then show ?thesis using assms o f by (simp add: dr_line_eq enable_bit)
  next
    case False
    have "drop_bit (q * 4 + 16) (control_dr ?s) AND 3 = drop_bit (q * 4 + 16) (control_dr s) AND 3"
      "drop_bit (q * 4 + 16 + 2) (control_dr ?s) AND 3 = drop_bit (q * 4 + 16 + 2) (control_dr s) AND 3" if "q < 4"
      by (rule field_eq; use assms False that in \<open>auto simp: enable_bit\<close>)+
    then show ?thesis using assms False o by (cases "q < 4") (simp_all add: dr_line_eq enable_bit)
  qed
qed

lemma disable_lines:
  assumes "r < 4"
  shows "dr_line (snd (debug_disable_dr r s)) q = (if q = r then None else dr_line s q)"
proof -
  let ?s = "snd (debug_disable_dr r s)"
  have o: "local_dr ?s = local_dr s" "local_dr_counter ?s = local_dr_counter s"
    using assms by (simp_all add: debug_disable_dr_def Let_def)
  show ?thesis
  proof (cases "q = r")
    case True
    then show ?thesis using assms o by (simp add: dr_line_eq disable_bit)
  next
    case False
    have "drop_bit (q * 4 + 16) (control_dr ?s) AND 3 = drop_bit (q * 4 + 16) (control_dr s) AND 3"
      "drop_bit (q * 4 + 16 + 2) (control_dr ?s) AND 3 = drop_bit (q * 4 + 16 + 2) (control_dr s) AND 3" if "q < 4"
      by (rule field_eq; use assms False that in \<open>auto simp: disable_bit\<close>)+
    then show ?thesis using assms False o by (cases "q < 4") (simp_all add: dr_line_eq disable_bit)
  qed
qed

section \<open>Properties\<close>

text \<open>C38: \<open>stab_binsearch\<close> ends for every table and keeps what its comment promises.  If an entry of the
  type in the region is at or below the address, the left result points to the last such entry, and
  the right one just before the next entry of the type, which is above the address, or to the end
  of the region.  If the region has no entry of the type, the left result is larger than the right
  one; and whenever it is, no entry of the type contains the address.  The entries of the type
  have to be sorted by address; the address is not \<open>0xffffffff\<close>; and if an entry of the type is
  exactly at the address, none is one byte above it (see \<open>stab_binsearch_adjacent\<close>).  For a region
  whose entries of the type are all above the address see \<open>stab_binsearch_all_above\<close>.\<close>

theorem stab_binsearch_correct:
  assumes "stabs_sorted stabs ty L R" "addr \<noteq> - 1"
    and "\<forall>i \<in> entries stabs ty L R. \<forall>j \<in> entries stabs ty L R. n_value (stabs i) = addr \<longrightarrow> n_value (stabs j) \<noteq> addr + 1"
    and "stab_binsearch stabs L R ty addr = (left, right)"
  shows "((\<exists>i \<in> entries stabs ty L R. n_value (stabs i) \<le> addr) \<longrightarrow>
      left \<in> entries stabs ty L R \<and> n_value (stabs left) \<le> addr \<and> left \<le> right
      \<and> (\<forall>i \<in> entries stabs ty L R. left < i \<longrightarrow> right < i \<and> addr < n_value (stabs i))
      \<and> (right = R \<or> right + 1 \<in> entries stabs ty L R \<and> addr < n_value (stabs (right + 1))))
    \<and> (entries stabs ty L R = {} \<longrightarrow> right < left)
    \<and> (right < left \<longrightarrow> (\<forall>i \<in> entries stabs ty L R. addr < n_value (stabs i)))"
proof -
  have e: "(left, right) = stab_linear stabs L R ty addr" using stab_binsearch_ok[OF assms(1-3)] assms(4) by simp
  show ?thesis
  proof (cases "\<exists>i \<in> entries stabs ty L R. n_value (stabs i) \<le> addr")
    case True
    then show ?thesis using stab_linear_bracket[OF assms(1) True e] by (auto simp: not_less)
  next
    case False
    then show ?thesis using stab_linear_empty[OF _ e] by (auto simp: not_le)
  qed
qed

text \<open>The table of the comment in the source: source files at 0, 13, 117, 118, 555, 556 and 657.\<close>

definition demo_stabs :: "int \<Rightarrow> stab" where
  "demo_stabs i = \<lparr>n_strx = 0, n_type = (if i \<in> {0, 13, 117, 118, 555, 556, 657} then N_SO else N_SLINE), n_other = 0, n_desc = 0,
     n_value = (if i = 0 then 0xf0100000 else if i = 13 then 0xf0100040 else if i = 117 then 0xf0100176 else if i = 118 then 0xf0100178
       else if i = 555 then 0xf0100652 else if i = 556 then 0xf0100654 else if i = 657 then 0xf0100849 else 0)\<rparr>"

theorem stab_binsearch_correct_witness:
  "\<exists>left right. stab_binsearch demo_stabs 100 130 N_SO 0xf0100184 = (left, right) \<and> left = 118 \<and> right = 130"
proof -
  have d: "entries demo_stabs N_SO 100 130 = {117, 118}" by (auto simp: entries_def demo_stabs_def)
  obtain left right where lr: "stab_binsearch demo_stabs 100 130 N_SO 0xf0100184 = (left, right)" by fastforce
  have v: "n_value (demo_stabs 117) = 0xf0100176" "n_value (demo_stabs 118) = 0xf0100178" by (simp_all add: demo_stabs_def)
  have "left \<in> {117, 118} \<and> \<not> left < 118 \<and> (right = 130 \<or> right + 1 \<in> {117, 118}) \<and> left \<le> right"
    using stab_binsearch_correct[OF _ _ _ lr, unfolded d stabs_sorted_def] by (auto simp: v)
  then show ?thesis using lr by auto
qed

text \<open>Without the last condition the search fails: with entries at 10 and 11, address 10 is found in
  the second one, because \<open>addr ++\<close> turns it into another exact match.\<close>

lemma stab_binsearch_adjacent:
  "stab_binsearch (\<lambda>i. \<lparr>n_strx = 0, n_type = N_SLINE, n_other = 0, n_desc = 0, n_value = 10 + of_int i\<rparr>) 0 1 N_SLINE 10 = (1, 1)"
  "stab_linear (\<lambda>i. \<lparr>n_strx = 0, n_type = N_SLINE, n_other = 0, n_desc = 0, n_value = 10 + of_int i\<rparr>) 0 1 N_SLINE 10 = (0, 0)"
proof -
  have "[0..1 :: int] = [0, 1]" by (simp add: upto.simps)
  then show "stab_linear (\<lambda>i. \<lparr>n_strx = 0, n_type = N_SLINE, n_other = 0, n_desc = 0, n_value = 10 + of_int i\<rparr>) 0 1 N_SLINE 10 = (0, 0)"
    by (simp add: stab_linear_def)
qed (simp add: stab_binsearch_def stab_loop.simps half_def earliest.simps scan_left.simps)

text \<open>The debug registers.  \<open>debug_enable_dr\<close> makes \<open>debug_list_dr\<close> show the breakpoint with its
  address, type and length, and a count of 0; \<open>debug_disable_dr\<close> removes the line; no other line
  changes, and a wrong number is refused.  Entering and leaving the debugger gives the processor
  back the breakpoints it had.\<close>

theorem debug_registers_correct:
  "(case debug_enable_dr r addr ty len s of (ret, s') \<Rightarrow>
      if r < 4 then ret = 0 \<and> dr_line s' q = (if q = r then Some (addr, ty AND 3, len AND 3, 0) else dr_line s q) else ret = - 1 \<and> s' = s)
   \<and> (case debug_disable_dr r s of (ret, s') \<Rightarrow>
      if r < 4 then ret = 0 \<and> dr_line s' q = (if q = r then None else dr_line s q) else ret = - 1 \<and> s' = s)
   \<and> (is_dr_saved s \<or> (\<forall>i. i < 4 \<or> i = 7 \<longrightarrow> dr (debug_end 0 (debug_start s)) i = dr s i))"
proof (intro conjI)
  have "fst (debug_enable_dr r addr ty len s) = (if r < 4 then 0 else - 1)" by (simp add: debug_enable_dr_def Let_def)
  moreover have "snd (debug_enable_dr r addr ty len s) = s" if "\<not> r < 4" using that by (simp add: debug_enable_dr_def)
  ultimately show "case debug_enable_dr r addr ty len s of (ret, s') \<Rightarrow>
      if r < 4 then ret = 0 \<and> dr_line s' q = (if q = r then Some (addr, ty AND 3, len AND 3, 0) else dr_line s q) else ret = - 1 \<and> s' = s"
    using enable_lines[of r addr ty len s q] by (auto simp: case_prod_beta)
  have "fst (debug_disable_dr r s) = (if r < 4 then 0 else - 1)" by (simp add: debug_disable_dr_def Let_def)
  moreover have "snd (debug_disable_dr r s) = s" if "\<not> r < 4" using that by (simp add: debug_disable_dr_def)
  ultimately show "case debug_disable_dr r s of (ret, s') \<Rightarrow>
      if r < 4 then ret = 0 \<and> dr_line s' q = (if q = r then None else dr_line s q) else ret = - 1 \<and> s' = s"
    using disable_lines[of r s q] by (auto simp: case_prod_beta)
  show "is_dr_saved s \<or> (\<forall>i. i < 4 \<or> i = 7 \<longrightarrow> dr (debug_end 0 (debug_start s)) i = dr s i)"
    by (simp add: debug_end_def debug_start_def save_all_dr_def restore_all_dr_def Let_def)
qed

theorem debug_registers_correct_witness:
  "dr_line (snd (debug_enable_dr 1 0x1234 1 3 \<lparr>dr = (\<lambda>_. 0), local_dr = (\<lambda>_. 0), status_dr = 0, control_dr = 0x300, local_dr_counter = (\<lambda>_. 5), is_dr_saved = True\<rparr>)) 1
   = Some (0x1234, 1, 3, 0)"
  using debug_registers_correct[where r = 1 and addr = "0x1234" and ty = 1 and len = 3 and q = 1
    and s = "\<lparr>dr = (\<lambda>_. 0), local_dr = (\<lambda>_. 0), status_dr = 0, control_dr = 0x300, local_dr_counter = (\<lambda>_. 5), is_dr_saved = True\<rparr>"]
  by (simp add: case_prod_beta)

end
