(* ===== verification/KMonitor.thy ===== *)
theory KMonitor
  imports KString
begin

text \<open>
  The command line of the kernel monitor: \<open>readline\<close> of \<open>kern/libs/readline.c\<close>, \<open>parse\<close> and \<open>runcmd\<close> of
  \<open>kern/debug/kmonitor.c\<close>, and the flag of \<open>kern/debug/panic.c\<close>.  Characters that are typed are a list
  of the values of \<open>getchar\<close>; \<open>None\<close> is also the store behind the end of the array \<open>argv\<close>.
\<close>

section \<open>Reading a line\<close>

abbreviation (input) "BUFSIZE \<equiv> (1024 :: nat)"

text \<open>\<open>acc\<close> is \<open>buf[0..i)\<close>; the result is the line, or \<open>None\<close> for \<open>NULL\<close>, and the input that is left.  Without
  more input the call waits.\<close>

fun readline :: "int list \<Rightarrow> u8 list \<Rightarrow> (u8 list option \<times> int list) option" where
  "readline [] acc = None"
| "readline (c # cs) acc =
    (if c < 0 then Some (None, cs)
     else if c \<ge> 32 \<and> length acc < BUFSIZE - 1 then readline cs (acc @ [word_of_int c])
     else if c = 8 \<and> acc \<noteq> [] then readline cs (butlast acc)
     else if c = 10 \<or> c = 13 then Some (Some acc, cs)
     else readline cs acc)"

section \<open>Parsing a line\<close>

abbreviation (input) "MAXARGS \<equiv> (16 :: nat)"

text \<open>\<open>strchr(WHITESPACE, c) != NULL\<close> for a character that is not NUL.\<close>

definition whitespace :: "u8 \<Rightarrow> bool" where
  "whitespace c \<longleftrightarrow> c \<in> {32, 9, 10, 13}"

partial_function (option) skip_white :: "mem \<Rightarrow> nat \<Rightarrow> (mem \<times> nat) option" where
  "skip_white m b = (if m b \<noteq> 0 \<and> whitespace (m b) then skip_white (m(b := 0)) (b + 1) else Some (m, b))"

partial_function (option) scan_arg :: "mem \<Rightarrow> nat \<Rightarrow> nat option" where
  "scan_arg m b = (if m b \<noteq> 0 \<and> \<not> whitespace (m b) then scan_arg m (b + 1) else Some b)"

text \<open>\<open>argv\<close> is \<open>argv[0..argc)\<close>.\<close>

partial_function (option) parse_loop :: "mem \<Rightarrow> nat \<Rightarrow> nat list \<Rightarrow> (mem \<times> nat list) option" where
  "parse_loop m b argv = do {
     (m, b) \<leftarrow> skip_white m b;
     (if m b = 0 then Some (m, argv)
      else do {
        kassert (length argv < MAXARGS);
        e \<leftarrow> scan_arg m b;
        parse_loop m e (argv @ [b])
      })
   }"

definition parse :: "mem \<Rightarrow> nat \<Rightarrow> (mem \<times> nat list) option" where
  "parse m b = parse_loop m b []"

section \<open>Running a command\<close>

text \<open>The names of \<open>commands\<close>, at the addresses \<open>names\<close>; the number of the command and its arguments.\<close>

fun find_command :: "mem \<Rightarrow> nat list \<Rightarrow> nat \<Rightarrow> nat option option" where
  "find_command m [] a = Some None"
| "find_command m (nm # names) a = do {
     r \<leftarrow> strcmp m nm a;
     (if r = 0 then Some (Some 0) else do { i \<leftarrow> find_command m names a; Some (map_option Suc i) })
   }"

datatype command_result = Nothing | Run nat "nat list" | Unknown

definition runcmd :: "mem \<Rightarrow> nat list \<Rightarrow> nat \<Rightarrow> (command_result \<times> mem) option" where
  "runcmd m names b = do {
     (m, argv) \<leftarrow> parse m b;
     (if argv = [] then Some (Nothing, m)
      else do {
        i \<leftarrow> find_command m names (hd argv);
        Some (case i of None \<Rightarrow> Unknown | Some i \<Rightarrow> Run i (tl argv), m)
      })
   }"

text \<open>\<open>mon_continue\<close>: the return value and the flags of the trap frame, if there is one; \<open>FL_TF\<close> is \<open>0x100\<close>.\<close>

definition mon_continue :: "bool \<Rightarrow> u32 option \<Rightarrow> int \<times> u32 option" where
  "mon_continue is_panic eflags =
    (if is_panic then (0, eflags) else (- 1, map_option (\<lambda>f. f AND NOT 0x100) eflags))"

section \<open>What the parser finds\<close>

function words_of :: "u8 list \<Rightarrow> u8 list list" where
  "words_of cs = (case dropWhile whitespace cs of [] \<Rightarrow> []
     | c # rest \<Rightarrow> (c # takeWhile (\<lambda>x. \<not> whitespace x) rest) # words_of (dropWhile (\<lambda>x. \<not> whitespace x) rest))"
  by pat_completeness auto
termination
proof (relation "measure length")
  fix cs c rest assume "dropWhile whitespace cs = c # rest"
  then have "length (c # rest) \<le> length cs" by (metis length_dropWhile_le)
  then show "(dropWhile (\<lambda>x. \<not> whitespace x) rest, cs) \<in> measure length"
    using length_dropWhile_le[of "\<lambda>x. \<not> whitespace x" rest] by simp
qed simp

declare words_of.simps [simp del]

lemma skip_white_string:
  "string_at m b cs \<Longrightarrow>
   \<exists>m'. skip_white m b = Some (m', b + length (takeWhile whitespace cs)) \<and> string_at m' (b + length (takeWhile whitespace cs)) (dropWhile whitespace cs)
     \<and> (\<forall>a. m' a = (if b \<le> a \<and> a < b + length (takeWhile whitespace cs) then 0 else m a))"
proof (induction cs arbitrary: m b)
  case Nil
  then show ?case by (intro exI[of _ m]) (auto simp: skip_white.simps[of m])
next
  case (Cons c cs)
  show ?case
  proof (cases "whitespace c")
    case True
    have "string_at (m(b := 0)) (b + 1) cs" using Cons.prems by (auto intro: string_at_cong)
    from Cons.IH[OF this] obtain m' where m': "skip_white (m(b := 0)) (b + 1) = Some (m', b + 1 + length (takeWhile whitespace cs))"
      "string_at m' (b + 1 + length (takeWhile whitespace cs)) (dropWhile whitespace cs)"
      "\<forall>a. m' a = (if b + 1 \<le> a \<and> a < b + 1 + length (takeWhile whitespace cs) then 0 else (m(b := 0)) a)" by blast
    have "skip_white m b = Some (m', b + length (takeWhile whitespace (c # cs)))"
      using m'(1) Cons.prems True by (simp add: skip_white.simps[of m b])
    moreover have "string_at m' (b + length (takeWhile whitespace (c # cs))) (dropWhile whitespace (c # cs))" using m'(2) True by simp
    moreover have "m' a = (if b \<le> a \<and> a < b + length (takeWhile whitespace (c # cs)) then 0 else m a)" for a
      using True by (auto simp: m'(3)[rule_format, of a])
    ultimately show ?thesis by blast
  next
    case False
    then show ?thesis using Cons.prems by (intro exI[of _ m]) (auto simp: skip_white.simps[of m])
  qed
qed

lemma scan_arg_string:
  "string_at m b cs \<Longrightarrow> scan_arg m b = Some (b + length (takeWhile (\<lambda>x. \<not> whitespace x) cs))
     \<and> string_at m (b + length (takeWhile (\<lambda>x. \<not> whitespace x) cs)) (dropWhile (\<lambda>x. \<not> whitespace x) cs)"
proof (induction cs arbitrary: b)
  case Nil
  then show ?case by (simp add: scan_arg.simps[of m b])
next
  case (Cons c cs)
  then show ?case using Cons.IH[of "b + 1"] by (simp add: scan_arg.simps[of m b])
qed

lemma dropWhile_words: "words_of (dropWhile whitespace cs) = words_of cs"
  by (subst (1 2) words_of.simps) (simp add: dropWhile_idem)

lemma words_of_blank: "dropWhile whitespace cs = [] \<Longrightarrow> words_of cs = []"
  by (simp add: words_of.simps del: dropWhile_eq_Nil_conv)

lemma words_of_word: "dropWhile whitespace cs = c # rest \<Longrightarrow>
    words_of cs = (c # takeWhile (\<lambda>x. \<not> whitespace x) rest) # words_of (dropWhile (\<lambda>x. \<not> whitespace x) rest)"
  by (simp add: words_of.simps[of cs])

text \<open>The parser, from the place \<open>b\<close> on.  Nothing outside the line changes, and the first character does
  not survive if it is a blank.\<close>

lemma string_at_cut:
  "string_at m p (w @ cs) \<Longrightarrow> (\<And>a. p \<le> a \<Longrightarrow> a < p + length w \<Longrightarrow> m' a = m a) \<Longrightarrow> m' (p + length w) = 0 \<Longrightarrow> string_at m' p w"
proof (induction w arbitrary: p)
  case (Cons c w)
  have "string_at m' (p + 1) w" using Cons.prems by (intro Cons.IH) auto
  then show ?case using Cons.prems(1) Cons.prems(2)[of p] by simp
qed simp

lemma parse_loop_string:
  "string_at m b cs \<Longrightarrow> length argv \<le> MAXARGS \<Longrightarrow>
   (if length argv + length (words_of cs) \<le> MAXARGS
    then \<exists>m' ps. parse_loop m b argv = Some (m', argv @ ps) \<and> list_all2 (string_at m') ps (words_of cs)
      \<and> (\<forall>a. a < b \<or> b + length cs \<le> a \<longrightarrow> m' a = m a) \<and> (cs = [] \<or> whitespace (hd cs) \<longrightarrow> m' b = 0)
    else parse_loop m b argv = None)"
proof (induction "length cs" arbitrary: m b cs argv rule: less_induct)
  case less
  define k where "k = length (takeWhile whitespace cs)"
  obtain m1 where m1: "skip_white m b = Some (m1, b + k)" "string_at m1 (b + k) (dropWhile whitespace cs)"
    "\<forall>a. m1 a = (if b \<le> a \<and> a < b + k then 0 else m a)"
    using skip_white_string[OF less.prems(1)] by (auto simp: k_def)
  have kl: "k + length (dropWhile whitespace cs) = length cs" by (metis k_def length_append takeWhile_dropWhile_id)
  show ?case
  proof (cases "dropWhile whitespace cs")
    case Nil
    have p: "parse_loop m b argv = Some (m1, argv @ [])" using m1(1,2) Nil by (simp add: parse_loop.simps[of m b])
    have k: "k = length cs" using kl Nil by simp
    have w: "words_of cs = []" by (rule words_of_blank[OF Nil])
    have out: "m1 a = m a" if "a < b \<or> b + length cs \<le> a" for a using m1(3) that k by auto
    have "m1 b = 0" using m1(3) k less.prems(1) by (cases cs) auto
    then show ?thesis
      using p out less.prems(2) by (auto simp: w)
  next
    case (Cons c rest)
    have c: "\<not> whitespace c" using hd_dropWhile[of whitespace cs] Cons by simp
    define w where "w = c # takeWhile (\<lambda>x. \<not> whitespace x) rest"
    define cs2 where "cs2 = dropWhile (\<lambda>x. \<not> whitespace x) rest"
    define e where "e = b + k + length w"
    have ws: "words_of cs = w # words_of cs2" unfolding w_def cs2_def by (rule words_of_word[OF Cons])
    have sp: "c # rest = w @ cs2" by (simp add: w_def cs2_def)
    have st: "string_at m1 (b + k) (w @ cs2)" "m1 (b + k) \<noteq> 0" using m1(2) Cons unfolding sp[symmetric] by simp_all
    have sc: "scan_arg m1 (b + k) = Some e" "string_at m1 e cs2"
      using scan_arg_string[of m1 "b + k" "c # rest"] m1(2) Cons c by (simp_all add: e_def w_def cs2_def)
    have l0: "length cs = k + length w + length cs2" using kl arg_cong[OF sp, of length] unfolding Cons by simp
    have "0 < length w" by (simp add: w_def)
    with l0 have len: "length cs = k + length w + length cs2" "length cs2 < length cs" by linarith+
    show ?thesis
    proof (cases "length argv < MAXARGS")
      case False
      then have "parse_loop m b argv = None" using m1(1) st(2) by (simp add: parse_loop.simps[of m b])
      then show ?thesis using False by (simp add: ws)
    next
      case True
      have p: "parse_loop m b argv = parse_loop m1 e (argv @ [b + k])" using m1(1) st(2) sc(1) True by (simp add: parse_loop.simps[of m b])
      have ih: "if length (argv @ [b + k]) + length (words_of cs2) \<le> MAXARGS
        then \<exists>m' ps. parse_loop m1 e (argv @ [b + k]) = Some (m', (argv @ [b + k]) @ ps) \<and> list_all2 (string_at m') ps (words_of cs2)
          \<and> (\<forall>a. a < e \<or> e + length cs2 \<le> a \<longrightarrow> m' a = m1 a) \<and> (cs2 = [] \<or> whitespace (hd cs2) \<longrightarrow> m' e = 0)
        else parse_loop m1 e (argv @ [b + k]) = None"
        using less.hyps[OF len(2) sc(2), of "argv @ [b + k]"] True by simp
      show ?thesis
      proof (cases "length argv + length (words_of cs) \<le> MAXARGS")
        case False
        then show ?thesis using ih p by (simp add: ws)
      next
        case fits: True
        then have "length (argv @ [b + k]) + length (words_of cs2) \<le> MAXARGS" by (simp add: ws)
        then obtain m' ps where r: "parse_loop m1 e (argv @ [b + k]) = Some (m', argv @ (b + k) # ps)" "list_all2 (string_at m') ps (words_of cs2)"
          "\<forall>a. a < e \<or> e + length cs2 \<le> a \<longrightarrow> m' a = m1 a" "cs2 = [] \<or> whitespace (hd cs2) \<longrightarrow> m' e = 0"
          using ih by (simp only: if_True append_assoc append_Cons append_Nil) blast
        have "cs2 = [] \<or> whitespace (hd cs2)" using hd_dropWhile[of "\<lambda>x. \<not> whitespace x" rest] by (auto simp: cs2_def)
        then have z: "m' (b + k + length w) = 0" using r(4) by (simp add: e_def)
        have "string_at m' (b + k) w" by (rule string_at_cut[of m1 "b + k" w cs2 m']) (use st(1) z r(3) in \<open>simp_all add: e_def\<close>)
        moreover have "m' a = m a" if "a < b \<or> b + length cs \<le> a" for a using r(3) m1(3) that len(1) by (auto simp: e_def)
        moreover have "m' b = 0" if "cs = [] \<or> whitespace (hd cs)"
        proof -
          have "0 < k" using that Cons by (cases cs) (auto simp: k_def)
          then show ?thesis using r(3) m1(3) by (simp add: e_def)
        qed
        ultimately show ?thesis using fits p r(1,2) by (auto simp: ws)
      qed
    qed
  qed
qed


section \<open>Commands\<close>

lemma find_command_string:
  "list_all2 (string_at m) names cmds \<Longrightarrow> string_at m a w \<Longrightarrow>
   find_command m names a = Some (if w \<in> set cmds then Some (length (takeWhile (\<lambda>c. c \<noteq> w) cmds)) else None)"
proof (induction names cmds rule: list_all2_induct)
  case (Cons nm names c cmds)
  then obtain r where "strcmp m nm a = Some r" "r = 0 \<longleftrightarrow> c = w" using strcmp_string[of m nm c a w] by blast
  then show ?case using Cons by simp
qed simp

text \<open>The line that \<open>readline\<close> returns: shorter than the buffer, with no control characters.\<close>

lemma readline_ok:
  "readline cs acc = Some (r, rest) \<Longrightarrow> length acc < BUFSIZE \<Longrightarrow> \<forall>c \<in> set acc. 32 \<le> c \<Longrightarrow> \<forall>c \<in> set cs. c < 256 \<Longrightarrow>
   (\<exists>done. cs = done @ rest) \<and> (case r of None \<Rightarrow> \<exists>c \<in> set cs. c < 0 | Some line \<Rightarrow> length line < BUFSIZE \<and> (\<forall>c \<in> set line. 32 \<le> c))"
proof (induction cs acc rule: readline.induct)
  case (2 c cs acc)
  have w: "(32 :: u8) \<le> word_of_int c" if "32 \<le> c" "c < 256"
    using that by (simp add: word_le_def uint_word_of_int)
  consider "c < 0" | "c \<ge> 32 \<and> length acc < BUFSIZE - 1" | "\<not> c < 0" "\<not> (c \<ge> 32 \<and> length acc < BUFSIZE - 1)" "c = 8 \<and> acc \<noteq> []"
    | "\<not> c < 0" "\<not> (c \<ge> 32 \<and> length acc < BUFSIZE - 1)" "\<not> (c = 8 \<and> acc \<noteq> [])" "c = 10 \<or> c = 13"
    | "\<not> c < 0" "\<not> (c \<ge> 32 \<and> length acc < BUFSIZE - 1)" "\<not> (c = 8 \<and> acc \<noteq> [])" "\<not> (c = 10 \<or> c = 13)" by blast
  then show ?case
  proof cases
    case 1
    then show ?thesis using "2.prems" by auto
  next
    case 2
    then have "readline cs (acc @ [word_of_int c]) = Some (r, rest)" "\<not> c < 0" using "2.prems"(1) by auto
    with "2.IH"(1)[OF _ 2] show ?thesis using "2.prems"(2-4) 2 w by (fastforce split: option.splits)
  next
    case 3
    then have "readline cs (butlast acc) = Some (r, rest)" using "2.prems"(1) by auto
    with "2.IH"(2)[OF 3] show ?thesis using "2.prems"(2-4) by (fastforce split: option.splits dest: in_set_butlastD)
  next
    case 4
    then show ?thesis using "2.prems" by auto
  next
    case 5
    then have "readline cs acc = Some (r, rest)" using "2.prems"(1) by auto
    with "2.IH"(3)[OF 5] show ?thesis using "2.prems"(2-4) by (fastforce split: option.splits)
  qed
qed simp

section \<open>Properties\<close>

text \<open>C39: \<open>runcmd\<close> of a line.  Of a line of blanks nothing is run.  Otherwise the first word selects the first
  command with this name, and it gets the other words, each terminated, in their order; nothing
  outside the line is written.  With more than \<open>MAXARGS\<close> words \<open>parse\<close> complains but goes on, and
  stores behind the end of \<open>argv\<close>.\<close>

theorem runcmd_correct:
  assumes "string_at m b cs" "list_all2 (string_at m) names cmds"
    and "\<forall>a. b \<le> a \<and> a < b + length cs \<longrightarrow> (\<forall>(nm, c) \<in> set (zip names cmds). a < nm \<or> nm + length c < a)"
  shows "if length (words_of cs) > MAXARGS then runcmd m names b = None
    else \<exists>m'. (\<forall>a. a < b \<or> b + length cs \<le> a \<longrightarrow> m' a = m a) \<and>
      (case words_of cs of [] \<Rightarrow> runcmd m names b = Some (Nothing, m')
       | w # ws \<Rightarrow> if w \<in> set cmds
           then \<exists>args. list_all2 (string_at m') args ws \<and> runcmd m names b = Some (Run (length (takeWhile (\<lambda>c. c \<noteq> w) cmds)) args, m')
           else runcmd m names b = Some (Unknown, m'))"
proof (cases "length (words_of cs) > MAXARGS")
  case True
  then show ?thesis using parse_loop_string[OF assms(1), of "[]"] by (simp add: runcmd_def parse_def)
next
  case False
  then obtain m' ps where r: "parse m b = Some (m', ps)" "list_all2 (string_at m') ps (words_of cs)"
    "\<forall>a. a < b \<or> b + length cs \<le> a \<longrightarrow> m' a = m a"
    using parse_loop_string[OF assms(1), of "[]"] by (auto simp: parse_def)
  have nm: "list_all2 (string_at m') names cmds"
    unfolding list_all2_iff
  proof (intro conjI ballI)
    show "length names = length cmds" using assms(2) by (rule list_all2_lengthD)
    fix x assume x: "x \<in> set (zip names cmds)"
    obtain nm c where e: "x = (nm, c)" by fastforce
    have "string_at m nm c" using assms(2) x e by (auto simp: list_all2_iff)
    moreover have "m' a = m a" if "nm \<le> a" "a \<le> nm + length c" for a
      using assms(3)[rule_format, of a x] r(3)[rule_format, of a] that x e
      by (cases "b \<le> a \<and> a < b + length cs") (auto simp: not_less)
    ultimately have "string_at m' nm c" by (rule string_at_cong)
    then show "case x of (nm, c) \<Rightarrow> string_at m' nm c" using e by simp
  qed
  show ?thesis
  proof (cases "words_of cs")
    case Nil
    then have "ps = []" using r(2) by simp
    then show ?thesis using r Nil False by (intro if_not_P[THEN iffD2] exI[of _ m']) (auto simp: runcmd_def)
  next
    case (Cons w ws)
    then obtain p ps' where ps: "ps = p # ps'" "string_at m' p w" "list_all2 (string_at m') ps' ws" using r(2) by (auto simp: list_all2_Cons2)
    show ?thesis using r(1,3) Cons False ps find_command_string[OF nm ps(2)] by (auto simp: runcmd_def)
  qed
qed

theorem runcmd_correct_witness:
  "\<exists>m' args. runcmd ((\<lambda>_. 0)(0 := 97, 1 := 98, 10 := 32, 11 := 97, 12 := 98, 13 := 32, 14 := 99)) [0] 10 = Some (Run 0 args, m')
    \<and> list_all2 (string_at m') args [[99]]"
proof -
  have w: "words_of [32, 97, 98, 32, 99] = [[97, 98], [99]]" by (simp add: words_of.simps whitespace_def)
  have "\<forall>a. (10 :: nat) \<le> a \<and> a < 10 + length [32, 97, 98, 32, 99 :: u8] \<longrightarrow> (\<forall>(nm, c) \<in> set (zip [0] [[97, 98 :: u8]]). a < nm \<or> nm + length c < a)"
    by auto
  from runcmd_correct[of "(\<lambda>_. 0)(0 := 97, 1 := 98, 10 := 32, 11 := 97, 12 := 98, 13 := 32, 14 := 99)" 10 "[32, 97, 98, 32, 99]" "[0]" "[[97, 98]]", OF _ _ this]
  show ?thesis by (simp add: w) blast
qed

end
