(* ===== verification/Spipe.thy ===== *)
theory Spipe
  imports KPrelude
begin

text \<open>
  The pipe of \<open>user/libs/spipe.c\<close>: a ring buffer in a shared page, guarded by a semaphore.  The
  semaphore makes one pass through a routine, from \<open>sem_wait\<close> to \<open>sem_post\<close>, one step; a pass that
  ends in \<open>goto try_again\<close> gives \<open>Again\<close>.  Whether \<open>sem_wait\<close> succeeded is an argument.  Positions
  are \<open>off_t\<close>: 32 bits, signed where two of them are compared directly, unsigned where \<open>SPIPE_BUFSIZE\<close>
  takes part.
\<close>

abbreviation (input) "SPIPE_SIZE \<equiv> (4096 :: u32)"

text \<open>\<open>SPIPE_SIZE - sizeof(__spipe_state_t)\<close>\<close>

abbreviation (input) "SPIPE_BUFSIZE \<equiv> (4084 :: u32)"

record spipe_page =
  p_rpos :: u32
  p_wpos :: u32
  st_isclosed :: bool
  pbuf :: "nat \<Rightarrow> u8"

text \<open>\<open>c\<close> is \<open>isclosed\<close> of the handle of the calling process.\<close>

definition spipe :: "int \<Rightarrow> int \<Rightarrow> (nat \<Rightarrow> u8) \<Rightarrow> int \<times> (bool \<times> spipe_page) option" where
  "spipe shmem_ret sem_ret mem =
    (if shmem_ret \<noteq> 0 then (shmem_ret, None)
     else if sem_ret < 0 then (0, None)
     else (0, Some (False, \<lparr>p_rpos = 0, p_wpos = 0, st_isclosed = False, pbuf = mem\<rparr>)))"

definition spipeclose_nolock :: "bool \<Rightarrow> spipe_page \<Rightarrow> int \<times> bool \<times> spipe_page" where
  "spipeclose_nolock c pg = (if \<not> c then (0, True, pg\<lparr>st_isclosed := True\<rparr>) else (- 1, c, pg))"

definition spipeisclosed_nolock :: "bool \<Rightarrow> bool \<Rightarrow> spipe_page \<Rightarrow> bool \<times> bool \<times> spipe_page" where
  "spipeisclosed_nolock rd c pg =
    (if \<not> c then
       (if \<not> st_isclosed pg then (False, c, pg)
        else if sint (p_rpos pg) < sint (p_wpos pg) then (\<not> rd, c, pg)
        else (let (_, c, pg) = spipeclose_nolock c pg in (True, c, pg)))
     else (True, c, pg))"

definition spipeclose :: "bool \<Rightarrow> spipe_page \<Rightarrow> int \<times> bool \<times> spipe_page" where
  "spipeclose c pg = (if \<not> c then spipeclose_nolock c pg else (- 1, c, pg))"

definition spipeisclosed :: "bool \<Rightarrow> spipe_page \<Rightarrow> bool \<times> bool \<times> spipe_page" where
  "spipeisclosed c pg = (if \<not> c then spipeisclosed_nolock False c pg else (True, c, pg))"

text \<open>The loop of \<open>spiperead\<close>: the bytes it stores into \<open>buf\<close>.\<close>

fun read_loop :: "nat \<Rightarrow> spipe_page \<Rightarrow> u8 list \<times> spipe_page" where
  "read_loop 0 pg = ([], pg)"
| "read_loop (Suc n) pg =
    (if p_rpos pg = p_wpos pg then ([], pg)
     else (let b = pbuf pg (unat (p_rpos pg mod SPIPE_BUFSIZE));
               (bs, pg) = read_loop n (pg\<lparr>p_rpos := p_rpos pg + 1\<rparr>)
           in (b # bs, pg)))"

text \<open>The loop of \<open>spipewrite\<close>: the bytes that are left when the buffer is full.\<close>

fun write_loop :: "u8 list \<Rightarrow> spipe_page \<Rightarrow> u8 list \<times> spipe_page" where
  "write_loop [] pg = ([], pg)"
| "write_loop (b # bs) pg =
    (if p_wpos pg - p_rpos pg \<ge> SPIPE_BUFSIZE then (b # bs, pg)
     else write_loop bs (pg\<lparr>pbuf := (pbuf pg)(unat (p_wpos pg mod SPIPE_BUFSIZE) := b), p_wpos := p_wpos pg + 1\<rparr>))"

datatype 'a pass = Again 'a | Return 'a

text \<open>One pass of \<open>spiperead\<close>: the bytes read.\<close>

definition spiperead :: "bool \<Rightarrow> nat \<Rightarrow> bool \<Rightarrow> spipe_page \<Rightarrow> u8 list pass \<times> bool \<times> spipe_page" where
  "spiperead sem_ok n c pg =
    (if c \<or> \<not> sem_ok then (Return [], c, pg)
     else (let (closed, c, pg) = spipeisclosed_nolock True c pg
           in if closed then (Return [], c, pg)
              else if p_rpos pg = p_wpos pg then (Again [], c, pg)
              else (let (bs, pg) = read_loop n pg in (Return bs, c, pg))))"

text \<open>One pass of \<open>spipewrite\<close> with the bytes \<open>bs\<close> still to be written: the bytes that remain.\<close>

definition spipewrite :: "bool \<Rightarrow> u8 list \<Rightarrow> bool \<Rightarrow> spipe_page \<Rightarrow> u8 list pass \<times> bool \<times> spipe_page" where
  "spipewrite sem_ok bs c pg =
    (if c \<or> \<not> sem_ok then (Return bs, c, pg)
     else (let (closed, c, pg) = spipeisclosed_nolock False c pg
           in if closed then (Return bs, c, pg)
              else (let (rest, pg) = write_loop bs pg
                    in (if rest = [] then Return [] else Again rest, c, pg))))"

section \<open>The queue in the page\<close>

definition contents :: "spipe_page \<Rightarrow> u8 list" where
  "contents pg = map (\<lambda>i. pbuf pg (i mod 4084)) [unat (p_rpos pg)..<unat (p_wpos pg)]"

text \<open>\<open>m\<close> bounds the position of the writer.\<close>

definition page_ok :: "nat \<Rightarrow> spipe_page \<Rightarrow> bool" where
  "page_ok m pg \<longleftrightarrow> unat (p_rpos pg) \<le> unat (p_wpos pg) \<and> unat (p_wpos pg) \<le> unat (p_rpos pg) + 4084 \<and> unat (p_wpos pg) \<le> m"

lemma word_Suc: "unat (x :: u32) < 2 ^ 31 \<Longrightarrow> unat (x + 1) = Suc (unat x)"
  by (simp add: unat_word_ariths)

lemma sint_small: "unat (x :: u32) < 2 ^ 31 \<Longrightarrow> sint x = int (unat x)"
proof -
  assume "unat x < 2 ^ 31"
  then have "int (unat x) < int (2 ^ 31)" by (simp only: of_nat_less_iff)
  then have u: "uint x < 2 ^ 31" "0 \<le> uint x" by simp_all
  have l: "- (2 ^ 31) \<le> uint x" by (rule order_trans[OF _ u(2)]) simp
  have "sint x = signed_take_bit 31 (uint x)" by (simp add: sint_uint)
  also have "\<dots> = uint x" by (rule signed_take_bit_int_eq_self[OF l u(1)])
  finally show ?thesis by simp
qed

lemma mod_4084: "unat (x mod SPIPE_BUFSIZE :: u32) = unat x mod 4084"
  by (simp add: unat_mod)

lemma empty_eq: "page_ok m pg \<Longrightarrow> p_rpos pg = p_wpos pg \<longleftrightarrow> contents pg = []"
  by (auto simp: page_ok_def contents_def word_unat_eq_iff)

lemma read_loop_ok:
  "page_ok m pg \<Longrightarrow> m < 2 ^ 31 \<Longrightarrow> read_loop n pg = (bs, pg') \<Longrightarrow>
   bs = take n (contents pg) \<and> contents pg' = drop n (contents pg) \<and> page_ok m pg' \<and> st_isclosed pg' = st_isclosed pg \<and> p_wpos pg' = p_wpos pg"
proof (induction n arbitrary: pg bs)
  case (Suc n)
  show ?case
  proof (cases "p_rpos pg = p_wpos pg")
    case True
    then show ?thesis using Suc.prems by (simp add: contents_def)
  next
    case False
    define pg1 where "pg1 = pg\<lparr>p_rpos := p_rpos pg + 1\<rparr>"
    have lt: "unat (p_rpos pg) < unat (p_wpos pg)" using Suc.prems(1) False by (auto simp: page_ok_def word_unat_eq_iff)
    have u: "unat (p_rpos pg1) = Suc (unat (p_rpos pg))" "p_wpos pg1 = p_wpos pg" "pbuf pg1 = pbuf pg"
      using Suc.prems(1,2) lt by (simp_all add: pg1_def word_Suc page_ok_def)
    obtain bs1 where r: "read_loop n pg1 = (bs1, pg')" "bs = pbuf pg (unat (p_rpos pg) mod 4084) # bs1"
      using Suc.prems(3) False by (auto simp: pg1_def mod_4084 Let_def split: prod.splits)
    have ok1: "page_ok m pg1" using Suc.prems(1) lt u by (simp add: page_ok_def)
    have "contents pg = pbuf pg (unat (p_rpos pg) mod 4084) # contents pg1"
      using lt u by (simp add: contents_def upt_conv_Cons)
    then show ?thesis using Suc.IH[OF ok1 Suc.prems(2) r(1)] r(2) by (simp add: pg1_def)
  qed
qed (simp add: contents_def)

lemma write_loop_ok:
  "page_ok m pg \<Longrightarrow> unat (p_wpos pg) + length bs \<le> m \<Longrightarrow> m < 2 ^ 31 \<Longrightarrow> write_loop bs pg = (rest, pg') \<Longrightarrow>
   \<exists>done. bs = done @ rest \<and> contents pg' = contents pg @ done \<and> page_ok m pg' \<and> st_isclosed pg' = st_isclosed pg \<and> p_rpos pg' = p_rpos pg
     \<and> unat (p_wpos pg') = unat (p_wpos pg) + length done \<and> (rest = [] \<or> length (contents pg') = 4084)"
proof (induction bs arbitrary: pg)
  case (Cons b bs)
  have d: "unat (p_wpos pg - p_rpos pg) = unat (p_wpos pg) - unat (p_rpos pg)"
    using Cons.prems(1) by (simp add: page_ok_def unat_sub word_le_nat_alt)
  show ?case
  proof (cases "p_wpos pg - p_rpos pg \<ge> SPIPE_BUFSIZE")
    case True
    then have "4084 \<le> unat (p_wpos pg) - unat (p_rpos pg)" using d by (simp add: word_le_nat_alt)
    then show ?thesis using Cons.prems True by (auto simp: contents_def page_ok_def)
  next
    case False
    define pg1 where "pg1 = pg\<lparr>pbuf := (pbuf pg)(unat (p_wpos pg) mod 4084 := b), p_wpos := p_wpos pg + 1\<rparr>"
    have lt: "unat (p_wpos pg) < unat (p_rpos pg) + 4084" using False d Cons.prems(1) by (simp add: word_le_nat_alt page_ok_def)
    have u: "unat (p_wpos pg1) = Suc (unat (p_wpos pg))" "p_rpos pg1 = p_rpos pg"
      using Cons.prems(2,3) by (simp_all add: pg1_def word_Suc)
    have ok1: "page_ok m pg1" using Cons.prems(1,2) lt u by (simp add: page_ok_def)
    have keep: "i mod 4084 \<noteq> unat (p_wpos pg) mod 4084" if "unat (p_rpos pg) \<le> i" "i < unat (p_wpos pg)" for i
    proof
      assume "i mod 4084 = unat (p_wpos pg) mod 4084"
      then have "4084 dvd unat (p_wpos pg) - i" using that by (metis less_imp_le_nat mod_eq_dvd_iff_nat)
      then show False using that lt by (auto dest: dvd_imp_le)
    qed
    have c: "contents pg1 = contents pg @ [b]"
      using Cons.prems(1) u keep by (auto simp: contents_def page_ok_def pg1_def)
    have r: "write_loop bs pg1 = (rest, pg')" using Cons.prems(4) False by (simp add: pg1_def mod_4084)
    obtain bs' where "bs = bs' @ rest" "contents pg' = contents pg1 @ bs'" "page_ok m pg'" "st_isclosed pg' = st_isclosed pg1"
      "p_rpos pg' = p_rpos pg1" "unat (p_wpos pg') = unat (p_wpos pg1) + length bs'" "rest = [] \<or> length (contents pg') = 4084"
      using Cons.IH[OF ok1 _ Cons.prems(3) r] Cons.prems(2) u by auto
    then show ?thesis using c u by (intro exI[of _ "b # bs'"]) (auto simp: pg1_def)
  qed
qed auto

section \<open>Whole passes\<close>

lemma isclosed_ok:
  assumes "page_ok m pg" "m < 2 ^ 31"
  shows "spipeisclosed_nolock rd c pg =
    (if c then (True, True, pg) else if \<not> st_isclosed pg then (False, False, pg)
     else if contents pg \<noteq> [] then (\<not> rd, False, pg) else (True, True, pg))"
proof -
  have "sint (p_rpos pg) < sint (p_wpos pg) \<longleftrightarrow> contents pg \<noteq> []"
  proof -
    have "unat (p_rpos pg) < 2 ^ 31" "unat (p_wpos pg) < 2 ^ 31" using assms by (auto simp: page_ok_def)
    then have "sint (p_rpos pg) = int (unat (p_rpos pg))" "sint (p_wpos pg) = int (unat (p_wpos pg))" by (blast intro: sint_small)+
    then show ?thesis using assms(1) by (simp only: of_nat_less_iff) (auto simp: page_ok_def contents_def)
  qed
  then show ?thesis by (cases pg) (simp add: spipeisclosed_nolock_def spipeclose_nolock_def Let_def)
qed

lemma spiperead_ok:
  assumes "page_ok m pg" "m < 2 ^ 31"
  shows "\<exists>r c' pg'. spiperead sem_ok n c pg = (r, c', pg') \<and> page_ok m pg' \<and> st_isclosed pg' = st_isclosed pg \<and> p_wpos pg' = p_wpos pg
    \<and> (if c \<or> \<not> sem_ok \<or> contents pg = [] then contents pg' = contents pg
         \<and> r = (if c \<or> \<not> sem_ok \<or> st_isclosed pg then Return [] else Again [])
       else r = Return (take n (contents pg)) \<and> contents pg' = drop n (contents pg))"
proof (cases "c \<or> \<not> sem_ok \<or> contents pg = []")
  case True
  then show ?thesis using assms(1) empty_eq[OF assms(1)]
    by (auto simp: spiperead_def isclosed_ok[OF assms] Let_def)
next
  case False
  obtain bs pg' where r: "read_loop n pg = (bs, pg')" by fastforce
  show ?thesis using False empty_eq[OF assms(1)] read_loop_ok[OF assms r] r
    by (auto simp: spiperead_def isclosed_ok[OF assms] Let_def)
qed

lemma spipewrite_ok:
  assumes "page_ok m pg" "m < 2 ^ 31" "unat (p_wpos pg) + length bs \<le> m"
  shows "\<exists>r rest done c' pg'. spipewrite sem_ok bs c pg = (r, c', pg') \<and> (r = Again rest \<or> r = Return rest) \<and> bs = done @ rest \<and> page_ok m pg'
    \<and> st_isclosed pg' = st_isclosed pg \<and> contents pg' = contents pg @ done \<and> unat (p_wpos pg') = unat (p_wpos pg) + length done
    \<and> (if c \<or> \<not> sem_ok \<or> st_isclosed pg then done = [] \<and> r = Return rest
       else if rest = [] then r = Return [] else r = Again rest \<and> length (contents pg') = 4084)"
proof (cases "c \<or> \<not> sem_ok \<or> st_isclosed pg")
  case True
  then show ?thesis using assms(1)
    by (intro exI[of _ "Return bs"] exI[of _ bs] exI[of _ "[]"]) (auto simp: spipewrite_def isclosed_ok[OF assms(1,2)] Let_def)
next
  case False
  obtain rest pg' where r: "write_loop bs pg = (rest, pg')" by fastforce
  obtain d where "bs = d @ rest" "contents pg' = contents pg @ d" "page_ok m pg'" "st_isclosed pg' = st_isclosed pg"
    "unat (p_wpos pg') = unat (p_wpos pg) + length d" "rest = [] \<or> length (contents pg') = 4084"
    using write_loop_ok[OF assms(1,3,2) r] by blast
  then show ?thesis using False r
    by (intro exI[of _ "if rest = [] then Return [] else Again rest"] exI[of _ rest] exI[of _ d])
      (auto simp: spipewrite_def isclosed_ok[OF assms(1,2)] Let_def)
qed

section \<open>Two processes\<close>

text \<open>A reader and a writer, each with a handle of its own; \<open>got\<close> and \<open>put\<close> are the bytes that their
  calls have moved so far.\<close>

record pipe_run =
  rd_closed :: bool
  wr_closed :: bool
  page :: spipe_page
  got :: "u8 list"
  put :: "u8 list"

datatype pipe_call = Read bool nat | Write bool "u8 list" | CloseReader | CloseWriter

fun pipe_op :: "pipe_call \<Rightarrow> pipe_run \<Rightarrow> pipe_run" where
  "pipe_op (Read sem_ok n) s =
    (case spiperead sem_ok n (rd_closed s) (page s) of
       (r, c, pg) \<Rightarrow> s\<lparr>rd_closed := c, page := pg, got := got s @ (case r of Again bs \<Rightarrow> bs | Return bs \<Rightarrow> bs)\<rparr>)"
| "pipe_op (Write sem_ok bs) s =
    (case spipewrite sem_ok bs (wr_closed s) (page s) of
       (r, c, pg) \<Rightarrow> s\<lparr>wr_closed := c, page := pg,
         put := put s @ take (length bs - length (case r of Again rest \<Rightarrow> rest | Return rest \<Rightarrow> rest)) bs\<rparr>)"
| "pipe_op CloseReader s = (case spipeclose (rd_closed s) (page s) of (_, c, pg) \<Rightarrow> s\<lparr>rd_closed := c, page := pg\<rparr>)"
| "pipe_op CloseWriter s = (case spipeclose (wr_closed s) (page s) of (_, c, pg) \<Rightarrow> s\<lparr>wr_closed := c, page := pg\<rparr>)"

fun op_size :: "pipe_call \<Rightarrow> nat" where
  "op_size (Write _ bs) = length bs"
| "op_size _ = 0"

lemma close_page: "spipeclose c pg = (r, c', pg') \<Longrightarrow> contents pg' = contents pg \<and> p_wpos pg' = p_wpos pg \<and> page_ok m pg' = page_ok m pg"
  by (auto simp: spipeclose_def spipeclose_nolock_def contents_def page_ok_def split: if_splits)

lemma pipe_op_ok:
  assumes "page_ok m (page s)" "m < 2 ^ 31" "put s = got s @ contents (page s)" "unat (p_wpos (page s)) + op_size e \<le> m"
  shows "page_ok m (page (pipe_op e s)) \<and> put (pipe_op e s) = got (pipe_op e s) @ contents (page (pipe_op e s))
    \<and> unat (p_wpos (page (pipe_op e s))) \<le> unat (p_wpos (page s)) + op_size e"
proof (cases e)
  case (Read ok n)
  obtain r c' pg' where "spiperead ok n (rd_closed s) (page s) = (r, c', pg')" "page_ok m pg'" "p_wpos pg' = p_wpos (page s)"
    "if rd_closed s \<or> \<not> ok \<or> contents (page s) = [] then contents pg' = contents (page s)
       \<and> r = (if rd_closed s \<or> \<not> ok \<or> st_isclosed (page s) then Return [] else Again [])
     else r = Return (take n (contents (page s))) \<and> contents pg' = drop n (contents (page s))"
    using spiperead_ok[OF assms(1,2), of ok n "rd_closed s"] by blast
  then show ?thesis using assms(3) Read by (auto split: if_splits)
next
  case (Write ok bs)
  then have b: "unat (p_wpos (page s)) + length bs \<le> m" using assms(4) by simp
  obtain r rest d c' pg' where "spipewrite ok bs (wr_closed s) (page s) = (r, c', pg')" "r = Again rest \<or> r = Return rest" "bs = d @ rest"
    "page_ok m pg'" "contents pg' = contents (page s) @ d" "unat (p_wpos pg') = unat (p_wpos (page s)) + length d"
    using spipewrite_ok[OF assms(1,2) b, of ok "wr_closed s"] by blast
  then show ?thesis using assms(3) Write by auto
next
  case CloseReader
  then show ?thesis using close_page[of "rd_closed s" "page s"] assms(1,3) by (auto split: prod.splits)
next
  case CloseWriter
  then show ?thesis using close_page[of "wr_closed s" "page s"] assms(1,3) by (auto split: prod.splits)
qed

lemma pipe_run_ok:
  "page_ok m (page s) \<Longrightarrow> m < 2 ^ 31 \<Longrightarrow> put s = got s @ contents (page s) \<Longrightarrow> unat (p_wpos (page s)) + sum_list (map op_size es) \<le> m \<Longrightarrow>
   page_ok m (page (fold pipe_op es s)) \<and> put (fold pipe_op es s) = got (fold pipe_op es s) @ contents (page (fold pipe_op es s))"
proof (induction es arbitrary: s)
  case (Cons e es)
  have "page_ok m (page (pipe_op e s)) \<and> put (pipe_op e s) = got (pipe_op e s) @ contents (page (pipe_op e s))
      \<and> unat (p_wpos (page (pipe_op e s))) \<le> unat (p_wpos (page s)) + op_size e"
    using Cons.prems by (intro pipe_op_ok) auto
  then show ?case using Cons.IH[of "pipe_op e s"] Cons.prems(2,4) by auto
qed simp

section \<open>Properties\<close>

text \<open>C40: A pipe delivers.  Whatever the order in which a writer and a reader run, fail to get the
  semaphore and close their ends, the bytes read are those written, in order, without loss or
  duplication, up to the at most 4084 bytes still in the buffer, as long as fewer than \<open>2^31\<close> bytes
  are offered to the passes, repeated ones included.\<close>

theorem spipe_fifo:
  assumes "spipe 0 sem mem = (0, Some (c, pg))" "sum_list (map op_size es) < 2 ^ 31"
    and "s = fold pipe_op es \<lparr>rd_closed = c, wr_closed = c, page = pg, got = [], put = []\<rparr>"
  shows "put s = got s @ contents (page s) \<and> length (contents (page s)) \<le> 4084"
proof -
  have pg: "p_rpos pg = 0" "p_wpos pg = 0" using assms(1) by (auto simp: spipe_def split: if_splits)
  then have "page_ok (sum_list (map op_size es)) (page s) \<and> put s = got s @ contents (page s)"
    unfolding assms(3) using assms(2) by (intro pipe_run_ok) (simp_all add: page_ok_def contents_def)
  then show ?thesis by (auto simp: page_ok_def contents_def)
qed

definition demo_pipe :: pipe_run where
  "demo_pipe = \<lparr>rd_closed = False, wr_closed = False, page = \<lparr>p_rpos = 0, p_wpos = 0, st_isclosed = False, pbuf = (\<lambda>_. 0)\<rparr>, got = [], put = []\<rparr>"

theorem spipe_fifo_witness:
  "\<exists>s. s = fold pipe_op [Write True [1, 2, 3], Read True 2, CloseWriter, Read True 9, Read True 9] demo_pipe
    \<and> got s = [1, 2, 3] \<and> put s = got s @ contents (page s)"
proof -
  define es where "es = [Write True [1, 2, 3], Read True 2, CloseWriter, Read True 9, Read True 9]"
  have "got (fold pipe_op es demo_pipe) = [1, 2, 3]" unfolding es_def demo_pipe_def by code_simp
  moreover have "put (fold pipe_op es demo_pipe) = got (fold pipe_op es demo_pipe) @ contents (page (fold pipe_op es demo_pipe))"
    using spipe_fifo[of 0 "\<lambda>_. 0" False "page demo_pipe" es "fold pipe_op es demo_pipe"]
    by (simp add: spipe_def demo_pipe_def es_def del: pipe_op.simps)
  ultimately show ?thesis unfolding es_def by blast
qed

text \<open>\<open>2^32\<close> is no multiple of \<open>SPIPE_BUFSIZE\<close>: when the positions wrap around, positions before and
  after it share a place, and bytes that have not been read are overwritten.\<close>

lemma spipe_wrap_loses_data:
  "fst (read_loop 109 (snd (write_loop (replicate 108 1 @ [2]) \<lparr>p_rpos = - 108, p_wpos = - 108, st_isclosed = False, pbuf = (\<lambda>_. 0)\<rparr>)))
   = 2 # replicate 107 1 @ [2]"
  by code_simp

end
