(* ===== verification/Console.thy ===== *)
theory Console
  imports KPrelude
begin

text \<open>
  The console of \<open>kern/driver/console.c\<close>: the text screen with its cursor and scrolling, the ring
  buffer of input characters and the decoding of scan codes.  Port reads and writes are left out; what
  the devices deliver is an argument.  The cursor stays below \<open>2^16\<close> and is a \<open>nat\<close>.
\<close>

section \<open>The screen\<close>

abbreviation (input) "CRT_ROWS \<equiv> (25 :: nat)"
abbreviation (input) "CRT_COLS \<equiv> (80 :: nat)"
abbreviation (input) "CRT_SIZE \<equiv> (2000 :: nat)"

record crt =
  crt_buf :: "nat \<Rightarrow> u16"
  crt_pos :: nat

text \<open>Black on white for a character without attributes.\<close>

definition with_attr :: "u32 \<Rightarrow> u32" where
  "with_attr c = (if c AND NOT 0xFF = 0 then c OR 0x0700 else c)"

text \<open>The scrolling at the end of \<open>cga_putc\<close>.\<close>

definition crt_scroll :: "crt \<Rightarrow> crt" where
  "crt_scroll s =
    (if crt_pos s \<ge> CRT_SIZE then
       (let b = (\<lambda>i. if i < CRT_SIZE - CRT_COLS then crt_buf s (i + CRT_COLS) else crt_buf s i);
            b = (\<lambda>i. if CRT_SIZE - CRT_COLS \<le> i \<and> i < CRT_SIZE then 0x0720 else b i)
        in s\<lparr>crt_buf := b, crt_pos := crt_pos s - CRT_COLS\<rparr>)
     else s)"

text \<open>8, 10 and 13 are backspace, newline and carriage return.\<close>

definition cga_putc :: "u32 \<Rightarrow> crt \<Rightarrow> crt" where
  "cga_putc c s =
    (let c = with_attr c; ch = c AND 0xFF
     in crt_scroll
       (if ch = 8 then
          (if crt_pos s > 0 then s\<lparr>crt_buf := (crt_buf s)(crt_pos s - 1 := ucast ((c AND NOT 0xFF) OR 32)), crt_pos := crt_pos s - 1\<rparr> else s)
        else if ch = 10 then s\<lparr>crt_pos := (crt_pos s + CRT_COLS) - (crt_pos s + CRT_COLS) mod CRT_COLS\<rparr>
        else if ch = 13 then s\<lparr>crt_pos := crt_pos s - crt_pos s mod CRT_COLS\<rparr>
        else s\<lparr>crt_buf := (crt_buf s)(crt_pos s := ucast c), crt_pos := crt_pos s + 1\<rparr>))"

section \<open>The input buffer\<close>

abbreviation (input) "CONSBUFSIZE \<equiv> (512 :: nat)"

record cons =
  cbuf :: "nat \<Rightarrow> u8"
  rpos :: nat
  wpos :: nat

text \<open>The values that \<open>proc\<close> returns, up to the first \<open>-1\<close>.\<close>

fun cons_intr :: "int list \<Rightarrow> cons \<Rightarrow> cons" where
  "cons_intr [] s = s"
| "cons_intr (c # cs) s =
    (if c = - 1 then s
     else if c \<noteq> 0 then
       cons_intr cs (s\<lparr>cbuf := (cbuf s)(wpos s := word_of_int c), wpos := (if wpos s + 1 = CONSBUFSIZE then 0 else wpos s + 1)\<rparr>)
     else cons_intr cs s)"

text \<open>\<open>cons_getc\<close> with what the serial line and the keyboard deliver when it polls them.\<close>

definition cons_getc :: "int list \<Rightarrow> int list \<Rightarrow> cons \<Rightarrow> int \<times> cons" where
  "cons_getc serial kbd s =
    (let s = cons_intr kbd (cons_intr serial s)
     in if rpos s \<noteq> wpos s then (uint (cbuf s (rpos s)), s\<lparr>rpos := (if rpos s + 1 = CONSBUFSIZE then 0 else rpos s + 1)\<rparr>)
        else (0, s))"

section \<open>The keyboard\<close>

abbreviation (input) "SHIFT \<equiv> (1 :: u32)"
abbreviation (input) "CTL \<equiv> (2 :: u32)"
abbreviation (input) "ALT \<equiv> (4 :: u32)"
abbreviation (input) "CAPSLOCK \<equiv> (8 :: u32)"
abbreviation (input) "NUMLOCK \<equiv> (16 :: u32)"
abbreviation (input) "SCROLLLOCK \<equiv> (32 :: u32)"
abbreviation (input) "E0ESC \<equiv> (64 :: u32)"
abbreviation (input) "KEY_DEL \<equiv> (0xE9 :: int)"

definition shiftcode :: "nat \<Rightarrow> u32" where
  "shiftcode d = (if d = 0x1D \<or> d = 0x9D then CTL else if d = 0x2A \<or> d = 0x36 then SHIFT else if d = 0x38 \<or> d = 0xB8 then ALT else 0)"

definition togglecode :: "nat \<Rightarrow> u32" where
  "togglecode d = (if d = 0x3A then CAPSLOCK else if d = 0x45 then NUMLOCK else if d = 0x46 then SCROLLLOCK else 0)"

definition normalmap :: "nat \<Rightarrow> u8" where
  "normalmap d =
    (case find (\<lambda>(k, _). k = d) [(199, 224), (156, 10), (181, 47), (200, 226), (201, 230), (203, 228), (205, 229), (207, 225), (208, 227), (209, 231), (210, 232), (211, 233)] of
       Some (_, c) \<Rightarrow> c
     | None \<Rightarrow> if d < 88 then [0, 27, 49, 50, 51, 52, 53, 54, 55, 56, 57, 48, 45, 61, 8, 9,
       113, 119, 101, 114, 116, 121, 117, 105, 111, 112, 91, 93, 10, 0, 97, 115,
       100, 102, 103, 104, 106, 107, 108, 59, 39, 96, 0, 92, 122, 120, 99, 118,
       98, 110, 109, 44, 46, 47, 0, 42, 0, 32, 0, 0, 0, 0, 0, 0,
       0, 0, 0, 0, 0, 0, 0, 55, 56, 57, 45, 52, 53, 54, 43, 49,
       50, 51, 48, 46, 0, 0, 0, 0] ! d else 0)"

definition shiftmap :: "nat \<Rightarrow> u8" where
  "shiftmap d =
    (case find (\<lambda>(k, _). k = d) [(199, 224), (156, 10), (181, 47), (200, 226), (201, 230), (203, 228), (205, 229), (207, 225), (208, 227), (209, 231), (210, 232), (211, 233)] of
       Some (_, c) \<Rightarrow> c
     | None \<Rightarrow> if d < 88 then [0, 27, 33, 64, 35, 36, 37, 94, 38, 42, 40, 41, 95, 43, 8, 9,
       81, 87, 69, 82, 84, 89, 85, 73, 79, 80, 123, 125, 10, 0, 65, 83,
       68, 70, 71, 72, 74, 75, 76, 58, 34, 126, 0, 124, 90, 88, 67, 86,
       66, 78, 77, 60, 62, 63, 0, 42, 0, 32, 0, 0, 0, 0, 0, 0,
       0, 0, 0, 0, 0, 0, 0, 55, 56, 57, 45, 52, 53, 54, 43, 49,
       50, 51, 48, 46, 0, 0, 0, 0] ! d else 0)"

definition ctlmap :: "nat \<Rightarrow> u8" where
  "ctlmap d =
    (case find (\<lambda>(k, _). k = d) [(151, 224), (181, 239), (200, 226), (201, 230), (203, 228), (205, 229), (207, 225), (208, 227), (209, 231), (210, 232), (211, 233)] of
       Some (_, c) \<Rightarrow> c
     | None \<Rightarrow> if d < 56 then [0, 0, 0, 0, 0, 0, 0, 0, 0, 0, 0, 0, 0, 0, 0, 0,
       17, 23, 5, 18, 20, 25, 21, 9, 15, 16, 0, 0, 13, 0, 1, 19,
       4, 6, 7, 8, 10, 11, 12, 0, 0, 0, 0, 28, 26, 24, 3, 22,
       2, 14, 13, 0, 0, 239, 0, 0] ! d else 0)"

definition charcode :: "u32 \<Rightarrow> nat \<Rightarrow> u8" where
  "charcode k d = (if k = 0 then normalmap d else if k = 1 then shiftmap d else ctlmap d)"

text \<open>One call: the scan code, if the controller has one; the result, the new state of the shift keys
  and whether it reboots.\<close>

definition kbd_proc_data :: "u8 option \<Rightarrow> u32 \<Rightarrow> int \<times> u32 \<times> bool" where
  "kbd_proc_data port shift =
    (case port of
       None \<Rightarrow> (- 1, shift, False)
     | Some data \<Rightarrow>
         if data = 0xE0 then (0, shift OR E0ESC, False)
         else if data AND 0x80 \<noteq> 0 then
           (let data = (if shift AND E0ESC \<noteq> 0 then data else data AND 0x7F)
            in (0, shift AND NOT (shiftcode (unat data) OR E0ESC), False))
         else
           (let (data, shift) = (if shift AND E0ESC \<noteq> 0 then (data OR 0x80, shift AND NOT E0ESC) else (data, shift));
                shift = shift OR shiftcode (unat data);
                shift = shift XOR togglecode (unat data);
                c = uint (charcode (shift AND (CTL OR SHIFT)) (unat data));
                c = (if shift AND CAPSLOCK \<noteq> 0 then
                       (if 97 \<le> c \<and> c \<le> 122 then c - 32 else if 65 \<le> c \<and> c \<le> 90 then c + 32 else c)
                     else c)
            in (c, shift, NOT shift AND (CTL OR ALT) = 0 \<and> c = KEY_DEL)))"

section \<open>The screen is a window on an endless paper\<close>

record paper =
  ink :: "nat \<Rightarrow> nat \<Rightarrow> u16"
  row :: nat
  col :: nat
  top :: nat

text \<open>The specification: a row more is fed when the cursor leaves the window at the bottom.\<close>

definition feed :: "paper \<Rightarrow> paper" where
  "feed p = (if row p \<ge> top p + CRT_ROWS then p\<lparr>ink := (ink p)(top p + CRT_ROWS := (\<lambda>_. 0x0720)), top := top p + 1\<rparr> else p)"

definition put_ink :: "u16 \<Rightarrow> paper \<Rightarrow> paper" where
  "put_ink c p = p\<lparr>ink := (ink p)(row p := (ink p (row p))(col p := c))\<rparr>"

definition paper_putc :: "u32 \<Rightarrow> paper \<Rightarrow> paper" where
  "paper_putc c p =
    (let c = with_attr c; ch = c AND 0xFF
     in feed
       (if ch = 8 then
          (if row p = top p \<and> col p = 0 then p
           else put_ink (ucast ((c AND NOT 0xFF) OR 32)) (if col p = 0 then p\<lparr>row := row p - 1, col := CRT_COLS - 1\<rparr> else p\<lparr>col := col p - 1\<rparr>))
        else if ch = 10 then p\<lparr>row := row p + 1, col := 0\<rparr>
        else if ch = 13 then p\<lparr>col := 0\<rparr>
        else (let p = put_ink (ucast c) p in if col p = CRT_COLS - 1 then p\<lparr>row := row p + 1, col := 0\<rparr> else p\<lparr>col := col p + 1\<rparr>)))"

text \<open>What the screen shows: the rows from \<open>top\<close> on, and the cursor.\<close>

definition screen_shows :: "paper \<Rightarrow> crt \<Rightarrow> bool" where
  "screen_shows p s \<longleftrightarrow> top p \<le> row p \<and> row p < top p + CRT_ROWS \<and> col p < CRT_COLS
     \<and> crt_pos s = (row p - top p) * CRT_COLS + col p
     \<and> (\<forall>r < CRT_ROWS. \<forall>c < CRT_COLS. crt_buf s (r * CRT_COLS + c) = ink p (top p + r) c)"

lemma cell_inj: "c < 80 \<Longrightarrow> c' < 80 \<Longrightarrow> r' * 80 + c' = r * 80 + c \<longleftrightarrow> r' = r \<and> c' = (c :: nat)"
proof
  assume c: "c < 80" "c' < 80" and e: "r' * 80 + c' = r * 80 + c"
  have "(r' * 80 + c') div 80 = r'" "(r * 80 + c) div 80 = r" using c by simp_all
  then have "r' = r" using e by simp
  then show "r' = r \<and> c' = c" using e by simp
qed simp

text \<open>The window before the bottom is fed: the cursor may be at the start of the row below.\<close>

definition shows_over :: "paper \<Rightarrow> crt \<Rightarrow> bool" where
  "shows_over p s \<longleftrightarrow> top p \<le> row p \<and> (row p < top p + CRT_ROWS \<or> row p = top p + CRT_ROWS \<and> col p = 0) \<and> col p < CRT_COLS
     \<and> crt_pos s = (row p - top p) * CRT_COLS + col p
     \<and> (\<forall>r < CRT_ROWS. \<forall>c < CRT_COLS. crt_buf s (r * CRT_COLS + c) = ink p (top p + r) c)"

lemma feed_scroll:
  assumes "shows_over p s"
  shows "screen_shows (feed p) (crt_scroll s) \<and> (\<forall>i \<ge> CRT_SIZE. crt_buf (crt_scroll s) i = crt_buf s i)"
proof (cases "row p < top p + CRT_ROWS")
  case True
  then obtain d where d: "row p = top p + d" "d < 25" using assms by (metis shows_over_def le_Suc_ex nat_add_left_cancel_less)
  have "crt_pos s < CRT_SIZE" using assms d by (simp add: shows_over_def)
  then show ?thesis using assms True by (simp add: feed_def crt_scroll_def screen_shows_def shows_over_def)
next
  case False
  then have r: "row p = top p + 25" "col p = 0" using assms by (auto simp: shows_over_def)
  then have pos: "crt_pos s = 2000" using assms by (simp add: shows_over_def)
  have b: "crt_buf (crt_scroll s) (q * 80 + c) = ink (feed p) (top (feed p) + q) c" if "q < 25" "c < 80" for q c
  proof (cases "q = 24")
    case True
    then show ?thesis using that r pos by (simp add: crt_scroll_def feed_def)
  next
    case False
    then have "q * 80 + c + 80 = (q + 1) * 80 + c" "q * 80 + c < 1920" "q + 1 < 25" using that by simp_all
    moreover have "crt_buf s ((q + 1) * 80 + c) = ink p (top p + (q + 1)) c"
      using assms that \<open>q + 1 < 25\<close> unfolding shows_over_def by blast
    ultimately have b: "crt_buf s (q * 80 + c + 80) = ink p (top p + q + 1) c" "q * 80 + c < 1920" by (simp_all only: add.assoc)
    then show ?thesis using r pos False that by (simp add: crt_scroll_def feed_def Let_def)
  qed
  then show ?thesis using r pos by (simp add: screen_shows_def feed_def crt_scroll_def Let_def)
qed

lemma put_ink_shows:
  assumes "screen_shows p s" "r < 25" "c < 80"
  shows "\<forall>r' < CRT_ROWS. \<forall>c' < CRT_COLS. ((crt_buf s)(r * 80 + c := x)) (r' * CRT_COLS + c') = ((ink p)(top p + r := (ink p (top p + r))(c := x))) (top p + r') c'"
proof (intro allI impI)
  fix r' c' :: nat assume "r' < CRT_ROWS" "c' < CRT_COLS"
  moreover from this have "r' * 80 + c' = r * 80 + c \<longleftrightarrow> r' = r \<and> c' = c" using assms(3) by (intro cell_inj)
  ultimately show "((crt_buf s)(r * 80 + c := x)) (r' * CRT_COLS + c') = ((ink p)(top p + r := (ink p (top p + r))(c := x))) (top p + r') c'"
    using assms(1) by (auto simp: screen_shows_def)
qed

lemma cga_putc_ok:
  assumes "screen_shows p s"
  shows "screen_shows (paper_putc c p) (cga_putc c s) \<and> (\<forall>i \<ge> CRT_SIZE. crt_buf (cga_putc c s) i = crt_buf s i)"
proof -
  obtain r where r: "row p = top p + r" "r < 25" "col p < 80" "crt_pos s = r * 80 + col p"
    using assms by (metis screen_shows_def le_Suc_ex nat_add_left_cancel_less add_diff_cancel_left')
  define ch where "ch = with_attr c AND 0xFF"
  define p1 where "p1 = (if ch = 8 then
        (if row p = top p \<and> col p = 0 then p
         else put_ink (ucast ((with_attr c AND NOT 0xFF) OR 32)) (if col p = 0 then p\<lparr>row := row p - 1, col := CRT_COLS - 1\<rparr> else p\<lparr>col := col p - 1\<rparr>))
      else if ch = 10 then p\<lparr>row := row p + 1, col := 0\<rparr>
      else if ch = 13 then p\<lparr>col := 0\<rparr>
      else (let p = put_ink (ucast (with_attr c)) p in if col p = CRT_COLS - 1 then p\<lparr>row := row p + 1, col := 0\<rparr> else p\<lparr>col := col p + 1\<rparr>))"
  define s1 where "s1 = (if ch = 8 then
        (if crt_pos s > 0 then s\<lparr>crt_buf := (crt_buf s)(crt_pos s - 1 := ucast ((with_attr c AND NOT 0xFF) OR 32)), crt_pos := crt_pos s - 1\<rparr> else s)
      else if ch = 10 then s\<lparr>crt_pos := (crt_pos s + CRT_COLS) - (crt_pos s + CRT_COLS) mod CRT_COLS\<rparr>
      else if ch = 13 then s\<lparr>crt_pos := crt_pos s - crt_pos s mod CRT_COLS\<rparr>
      else s\<lparr>crt_buf := (crt_buf s)(crt_pos s := ucast (with_attr c)), crt_pos := crt_pos s + 1\<rparr>)"
  have e: "paper_putc c p = feed p1" "cga_putc c s = crt_scroll s1"
    by (simp_all add: paper_putc_def cga_putc_def p1_def s1_def ch_def Let_def)
  have buf: "\<forall>r' < CRT_ROWS. \<forall>c' < CRT_COLS. crt_buf s (r' * CRT_COLS + c') = ink p (top p + r') c'" using assms by (simp add: screen_shows_def)
  have "shows_over p1 s1 \<and> (\<forall>i \<ge> CRT_SIZE. crt_buf s1 i = crt_buf s i)"
  proof -
    consider (bs0) "ch = 8" "r = 0" "col p = 0" | (bs1) "ch = 8" "col p = 0" "0 < r" | (bs2) "ch = 8" "0 < col p"
      | (nl) "ch = 10" | (cr) "ch = 13" | (other) "ch \<noteq> 8" "ch \<noteq> 10" "ch \<noteq> 13" by fastforce
    then show ?thesis
    proof cases
      case bs0
      then show ?thesis using r buf by (simp add: p1_def s1_def shows_over_def)
    next
      case bs1
      then obtain q where q: "r = Suc q" by (cases r) auto
      then have pos: "crt_pos s - 1 = q * 80 + 79" "0 < crt_pos s" "row p - 1 = top p + q" "row p \<noteq> top p" "q < 25" using r bs1 by simp_all
      define x where "x = (ucast ((with_attr c AND NOT 0xFF) OR 32) :: u16)"
      have p1: "p1 = p\<lparr>ink := (ink p)(top p + q := (ink p (top p + q))(79 := x)), row := top p + q, col := 79\<rparr>"
        using bs1 pos by (simp add: p1_def put_ink_def x_def)
      have s1: "s1 = s\<lparr>crt_buf := (crt_buf s)(q * 80 + 79 := x), crt_pos := q * 80 + 79\<rparr>"
        using bs1 pos by (simp add: s1_def x_def)
      show ?thesis using put_ink_shows[OF assms pos(5), of 79 x] pos(5) unfolding p1 s1 by (simp add: shows_over_def)
    next
      case bs2
      have pos: "crt_pos s - 1 = r * 80 + (col p - 1)" "col p - 1 < 80" using r bs2 by simp_all
      define x where "x = (ucast ((with_attr c AND NOT 0xFF) OR 32) :: u16)"
      have p1: "p1 = p\<lparr>ink := (ink p)(top p + r := (ink p (top p + r))(col p - 1 := x)), col := col p - 1\<rparr>"
        using bs2 r(1) by (simp add: p1_def put_ink_def x_def)
      have s1: "s1 = s\<lparr>crt_buf := (crt_buf s)(r * 80 + (col p - 1) := x), crt_pos := r * 80 + (col p - 1)\<rparr>"
        using bs2 pos r(4) unfolding s1_def x_def by simp
      show ?thesis using put_ink_shows[OF assms r(2) pos(2), of x] r(1,2) pos(2) unfolding p1 s1 by (simp add: shows_over_def)
    next
      case nl
      have "(r * 80 + col p + 80) mod 80 = col p" "r < 24 \<or> r = 24" using r(2,3) by auto
      then show ?thesis using r buf nl by (simp add: p1_def s1_def shows_over_def)
    next
      case cr
      have "(r * 80 + col p) mod 80 = col p" using r(3) by simp
      then show ?thesis using r buf cr by (simp add: p1_def s1_def shows_over_def)
    next
      case other
      define x where "x = (ucast (with_attr c) :: u16)"
      have p1: "p1 = (p\<lparr>ink := (ink p)(top p + r := (ink p (top p + r))(col p := x))\<rparr>)
          \<lparr>row := (if col p = 79 then top p + r + 1 else top p + r), col := (if col p = 79 then 0 else col p + 1)\<rparr>"
        using other r(1) by (simp add: p1_def put_ink_def x_def Let_def)
      have s1: "s1 = s\<lparr>crt_buf := (crt_buf s)(r * 80 + col p := x), crt_pos := r * 80 + col p + 1\<rparr>"
        using other r(4) by (simp add: s1_def x_def)
      have "r * 80 + col p < 2000" using r(2,3) by simp
      then show ?thesis using put_ink_shows[OF assms r(2,3), of x] r(1-3) unfolding p1 s1 by (auto simp: shows_over_def)
    qed
  qed
  then show ?thesis using feed_scroll[of p1 s1] e by simp
qed

section \<open>The input buffer as a queue\<close>

definition cons_ok :: "cons \<Rightarrow> bool" where
  "cons_ok s \<longleftrightarrow> rpos s < CONSBUFSIZE \<and> wpos s < CONSBUFSIZE"

definition unread :: "cons \<Rightarrow> u8 list" where
  "unread s = map (\<lambda>k. cbuf s ((rpos s + k) mod CONSBUFSIZE)) [0..<(wpos s + CONSBUFSIZE - rpos s) mod CONSBUFSIZE]"

lemma unread_length: "cons_ok s \<Longrightarrow> length (unread s) = (if rpos s \<le> wpos s then wpos s - rpos s else wpos s + 512 - rpos s)"
  by (auto simp: unread_def cons_ok_def mod_if)

lemma unread_nth: "k < length (unread s) \<Longrightarrow> unread s ! k = cbuf s ((rpos s + k) mod 512)"
  by (simp add: unread_def)

lemma ring_pos: "cons_ok s \<Longrightarrow> (rpos s + length (unread s)) mod 512 = wpos s"
  by (auto simp: unread_length cons_ok_def mod_if)

lemma ring_inj:
  assumes "cons_ok s" "k < length (unread s)"
  shows "(rpos s + k) mod 512 \<noteq> wpos s"
proof -
  have b: "rpos s < 512" "wpos s < 512" using assms(1) by (simp_all add: cons_ok_def)
  have k: "k < (if rpos s \<le> wpos s then wpos s - rpos s else wpos s + 512 - rpos s)" using assms by (simp add: unread_length)
  show ?thesis
  proof (cases "rpos s + k < 512")
    case True
    then show ?thesis using k b by (auto split: if_splits)
  next
    case False
    then have "(rpos s + k) mod 512 = rpos s + k - 512" using k b by (subst mod_if) (auto split: if_splits)
    then show ?thesis using False k b by (auto split: if_splits)
  qed
qed

definition push :: "u8 \<Rightarrow> cons \<Rightarrow> cons" where
  "push b s = s\<lparr>cbuf := (cbuf s)(wpos s := b), wpos := (if wpos s + 1 = CONSBUFSIZE then 0 else wpos s + 1)\<rparr>"

lemma push_ok:
  assumes "cons_ok s" "length (unread s) < CONSBUFSIZE - 1"
  shows "cons_ok (push b s) \<and> unread (push b s) = unread s @ [b]"
proof
  show ok: "cons_ok (push b s)" using assms(1) by (auto simp: cons_ok_def push_def)
  have len: "length (unread (push b s)) = Suc (length (unread s))"
    using assms unfolding unread_length[OF ok] unread_length[OF assms(1)] by (auto simp: push_def cons_ok_def split: if_splits)
  show "unread (push b s) = unread s @ [b]"
  proof (rule nth_equalityI)
    fix k assume k: "k < length (unread (push b s))"
    then have n: "unread (push b s) ! k = cbuf (push b s) ((rpos s + k) mod 512)"
      by (simp add: unread_nth) (simp add: push_def)
    show "unread (push b s) ! k = (unread s @ [b]) ! k"
    proof (cases "k < length (unread s)")
      case True
      then have "(rpos s + k) mod 512 \<noteq> wpos s" by (rule ring_inj[OF assms(1)])
      then show ?thesis using n True by (simp add: push_def nth_append unread_nth)
    next
      case False
      then have "k = length (unread s)" using k len by simp
      then show ?thesis using n ring_pos[OF assms(1)] by (simp add: push_def nth_append)
    qed
  qed (simp add: len)
qed

text \<open>The characters up to the first \<open>-1\<close>, without the zeros.\<close>

definition typed :: "int list \<Rightarrow> u8 list" where
  "typed cs = map word_of_int (filter (\<lambda>c. c \<noteq> 0) (takeWhile (\<lambda>c. c \<noteq> - 1) cs))"

lemma cons_intr_ok:
  "cons_ok s \<Longrightarrow> length (unread s) + length (typed cs) < CONSBUFSIZE \<Longrightarrow> cons_ok (cons_intr cs s) \<and> unread (cons_intr cs s) = unread s @ typed cs"
proof (induction cs arbitrary: s)
  case (Cons c cs)
  show ?case
  proof (cases "c = - 1 \<or> c = 0")
    case True
    then show ?thesis using Cons by (auto simp: typed_def)
  next
    case False
    then have t: "typed (c # cs) = word_of_int c # typed cs" by (simp add: typed_def)
    have "cons_ok (push (word_of_int c) s) \<and> unread (push (word_of_int c) s) = unread s @ [word_of_int c]"
      using Cons.prems t by (intro push_ok) auto
    moreover have "cons_intr (c # cs) s = cons_intr cs (push (word_of_int c) s)" using False by (simp add: push_def)
    ultimately show ?thesis using Cons.IH[of "push (word_of_int c) s"] Cons.prems(2) t by simp
  qed
qed (simp add: typed_def)

lemma pop_ok:
  assumes "cons_ok s"
  shows "if unread s = [] then rpos s = wpos s
    else rpos s \<noteq> wpos s \<and> cbuf s (rpos s) = hd (unread s)
      \<and> cons_ok (s\<lparr>rpos := (if rpos s + 1 = 512 then 0 else rpos s + 1)\<rparr>)
      \<and> unread (s\<lparr>rpos := (if rpos s + 1 = 512 then 0 else rpos s + 1)\<rparr>) = tl (unread s)"
proof (cases "unread s = []")
  case True
  then show ?thesis using unread_length[OF assms] assms by (auto simp: cons_ok_def split: if_splits)
next
  case False
  define s' where "s' = s\<lparr>rpos := (if rpos s + 1 = 512 then 0 else rpos s + 1)\<rparr>"
  have ne: "rpos s \<noteq> wpos s" using False unread_length[OF assms] by auto
  have ok: "cons_ok s'" using assms by (auto simp: s'_def cons_ok_def)
  have len: "length (unread s') = length (unread s) - 1"
    using ne assms unfolding unread_length[OF ok] unread_length[OF assms] by (auto simp: s'_def cons_ok_def split: if_splits)
  have "unread s' = tl (unread s)"
  proof (rule nth_equalityI)
    fix k assume k: "k < length (unread s')"
    have "(rpos s' + k) mod 512 = (rpos s + Suc k) mod 512" using assms by (auto simp: s'_def cons_ok_def mod_if)
    moreover have "unread s' ! k = cbuf s' ((rpos s' + k) mod 512)" using k by (rule unread_nth)
    moreover have "Suc k < length (unread s)" using k len by simp
    then have "tl (unread s) ! k = cbuf s ((rpos s + Suc k) mod 512)" by (simp add: nth_tl unread_nth)
    ultimately show "unread s' ! k = tl (unread s) ! k" by (simp add: s'_def)
  qed (simp add: len)
  moreover have "cbuf s (rpos s) = hd (unread s)"
    using False assms by (simp add: hd_conv_nth) (simp add: unread_def cons_ok_def)
  ultimately show ?thesis using False ne ok by (simp add: s'_def)
qed

text \<open>With 511 characters unread, one more makes the buffer look empty: all are lost.\<close>

lemma push_full:
  assumes "cons_ok s" "length (unread s) = CONSBUFSIZE - 1"
  shows "unread (push b s) = []"
proof -
  have ok: "cons_ok (push b s)" using assms(1) by (auto simp: cons_ok_def push_def)
  have "length (unread (push b s)) = 0"
    using assms unfolding unread_length[OF ok] unread_length[OF assms(1)] by (auto simp: push_def cons_ok_def split: if_splits)
  then show ?thesis by simp
qed

section \<open>Letters\<close>

text \<open>\<open>SHIFT\<close> and \<open>CAPSLOCK\<close> cancel each other.\<close>

definition letter_codes :: "u8 list" where
  "letter_codes = [16, 17, 18, 19, 20, 21, 22, 23, 24, 25, 30, 31, 32, 33, 34, 35, 36, 37, 38, 44, 45, 46, 47, 48, 49, 50]"

lemma letters_shift_caps:
  "list_all (\<lambda>d. fst (kbd_proc_data (Some d) 0) = uint (normalmap (unat d)) \<and> 97 \<le> normalmap (unat d) \<and> normalmap (unat d) \<le> 122
     \<and> fst (kbd_proc_data (Some d) SHIFT) = uint (normalmap (unat d)) - 32
     \<and> fst (kbd_proc_data (Some d) CAPSLOCK) = uint (normalmap (unat d)) - 32
     \<and> fst (kbd_proc_data (Some d) (SHIFT OR CAPSLOCK)) = uint (normalmap (unat d))) letter_codes"
  by code_simp

text \<open>A modifier key that is pressed and released leaves no trace; a lock key that is pressed twice
  neither.\<close>

lemma modifiers_released:
  "list_all (\<lambda>d. snd (kbd_proc_data (Some (d OR 0x80)) (fst (snd (kbd_proc_data (Some d) 0)))) = (0, False)) [0x1D, 0x2A, 0x36, 0x38]"
  "list_all (\<lambda>d. snd (kbd_proc_data (Some d) (fst (snd (kbd_proc_data (Some d) 0)))) = (0, False)) [0x3A, 0x45, 0x46]"
  by code_simp+

section \<open>Properties\<close>

text \<open>C28: The screen is a window on an endless paper.  Every character, printable or not, does to the
  cursor and the text what it does on the paper; when the cursor leaves the window at the bottom, the
  window moves down by one blank row; the cursor never leaves the buffer, and nothing outside the
  25 rows of 80 columns is written.\<close>

theorem cga_putc_scrolls:
  assumes "screen_shows p s"
  shows "screen_shows (fold paper_putc cs p) (fold cga_putc cs s) \<and> crt_pos (fold cga_putc cs s) < CRT_SIZE
    \<and> (\<forall>i \<ge> CRT_SIZE. crt_buf (fold cga_putc cs s) i = crt_buf s i)"
proof -
  have "screen_shows (fold paper_putc cs p) (fold cga_putc cs s) \<and> (\<forall>i \<ge> CRT_SIZE. crt_buf (fold cga_putc cs s) i = crt_buf s i)"
    using assms
  proof (induction cs arbitrary: p s)
    case (Cons c cs)
    then show ?case using cga_putc_ok[OF Cons.prems, of c] Cons.IH[of "paper_putc c p" "cga_putc c s"] by simp
  qed simp
  moreover from this have "crt_pos (fold cga_putc cs s) < CRT_SIZE"
    by (auto simp: screen_shows_def)
  ultimately show ?thesis by blast
qed

theorem cga_putc_scrolls_witness:
  "crt_buf (fold cga_putc [72, 10, 73] \<lparr>crt_buf = (\<lambda>_. 0x0720), crt_pos = 1920\<rparr>) 1840 = 0x0748
   \<and> crt_pos (fold cga_putc [72, 10, 73] \<lparr>crt_buf = (\<lambda>_. 0x0720), crt_pos = 1920\<rparr>) = 1921"
proof -
  have s: "screen_shows \<lparr>ink = (\<lambda>_ _. 0x0720), row = 24, col = 0, top = 0\<rparr> \<lparr>crt_buf = (\<lambda>_. 0x0720), crt_pos = 1920\<rparr>"
    by (simp add: screen_shows_def)
  define p where "p = fold paper_putc [72, 10, 73] \<lparr>ink = (\<lambda>_ _. 0x0720), row = 24, col = 0, top = 0\<rparr>"
  have p: "top p = 1" "row p = 25" "col p = 1" "ink p 24 0 = 0x0748"
    by (simp_all add: p_def paper_putc_def with_attr_def put_ink_def feed_def)
  define f where "f = fold cga_putc [72, 10, 73] \<lparr>crt_buf = (\<lambda>_. 0x0720), crt_pos = 1920\<rparr>"
  have sh: "screen_shows p f" unfolding p_def f_def by (rule cga_putc_scrolls[OF s, THEN conjunct1])
  then have "\<forall>r < CRT_ROWS. \<forall>c < CRT_COLS. crt_buf f (r * CRT_COLS + c) = ink p (top p + r) c" unfolding screen_shows_def by blast
  from this[rule_format, of 23 0] have "crt_buf f 1840 = 0x0748" using p by simp
  moreover have "crt_pos f = 1921" using sh p by (simp add: screen_shows_def)
  ultimately show ?thesis by (simp only: f_def)
qed

text \<open>C29: Characters come out of the console in the order in which the serial line and the keyboard
  delivered them, none lost and none twice, as long as fewer than 512 are unread; with none unread
  \<open>cons_getc\<close> returns 0 at once.\<close>

theorem cons_getc_fifo:
  assumes "cons_ok s" "length (unread s) + length (typed serial) + length (typed kbd) < CONSBUFSIZE"
  shows "case cons_getc serial kbd s of (c, s') \<Rightarrow> cons_ok s' \<and>
    (case unread s @ typed serial @ typed kbd of [] \<Rightarrow> c = 0 \<and> unread s' = [] | b # bs \<Rightarrow> c = uint b \<and> unread s' = bs)"
proof -
  define s1 where "s1 = cons_intr kbd (cons_intr serial s)"
  have a: "cons_ok (cons_intr serial s) \<and> unread (cons_intr serial s) = unread s @ typed serial"
    using assms by (intro cons_intr_ok) auto
  then have b: "cons_ok s1 \<and> unread s1 = unread s @ typed serial @ typed kbd"
    unfolding s1_def using cons_intr_ok[of "cons_intr serial s" kbd] assms(2) by simp
  have u: "unread s @ typed serial @ typed kbd = unread s1" using b by simp
  have ok: "cons_ok s1" using b by simp
  show ?thesis unfolding u cons_getc_def s1_def[symmetric] Let_def
    using pop_ok[OF ok] ok by (cases "unread s1") (auto split: if_splits)
qed

theorem cons_getc_fifo_witness:
  "fst (cons_getc [- 1] [104, 0, 105, - 1, 7] \<lparr>cbuf = (\<lambda>_. 0), rpos = 511, wpos = 511\<rparr>) = 104"
  using cons_getc_fifo[of "\<lparr>cbuf = (\<lambda>_. 0), rpos = 511, wpos = 511\<rparr>" "[- 1]" "[104, 0, 105, - 1, 7]"]
  by (auto simp: cons_ok_def unread_def typed_def split: prod.splits)

end
