(* ===== verification/ProcExit.thy ===== *)
theory ProcExit
  imports ProcLife VmSys PagingMap VmmMap
begin

text \<open>
  The end of an address space and of a process: what \<open>__do_exit\<close> of \<open>kern/process/proc.c\<close> does with
  the memory of the process (\<open>exit_mmap\<close>, \<open>put_pgdir\<close>, \<open>mm_destroy\<close>), composed with its scheduling
  part of the theories \<open>Proc\<close> and \<open>ProcLife\<close>.
\<close>

section \<open>Giving an address space up\<close>



section \<open>Freeing the page tables\<close>




section \<open>All areas\<close>








section \<open>The end of an address space\<close>








section \<open>A process exits\<close>



section \<open>Properties\<close>









end
