(* ===== verification/Spec2Isabelle.thy ===== *)
theory Spec2Isabelle
  imports KPrelude KList KAtomic KPage PmmIface Buddy KString KPrintf KProc Sched Wait Sem Proc ProcLife BuddyFrame Swap SwapInv SwapScan Paging PagingInv PagingMap RbTree RbDelete Shmem Vmm VmSys VmmInv VmmMap Slab BuddyRange SlabInv SlabHeap SlabUse Block Event Mbox MboxInv MboxUse Philo KDebug KMonitor Spipe Console ProcExit
begin

text \<open>
  A model in Isabelle/HOL of the kernel \<open>jokeros\<close> (an i386 teaching kernel descended from ucore) and
  of the proofs that its routines do what they are for.  Paths are relative to the source tree.

  \<^bold>\<open>The program.\<close>  The kernel runs on one processor.  At the bottom are the intrusive lists and
  atomic operations of \<open>libs\<close>.  Physical page frames are described by \<open>struct Page\<close> and handed out
  by the buddy allocator (\<open>kern/mm/buddy_pmm.c\<close>) behind \<open>struct pmm_manager\<close>; the slab allocator
  (\<open>slab.c\<close>) cuts frames into the objects of \<open>kmalloc\<close>.  Page tables (\<open>pmm.c\<close>), the swap cache
  (\<open>swap.c\<close>), shared memory (\<open>shmem.c\<close>) and the areas of an address space (\<open>vmm.c\<close>, indexed by the
  red-black trees of \<open>kern/libs/rb_tree.c\<close>) build virtual memory on top.  Processes (\<open>proc.c\<close>) are
  scheduled by a core and three exchangeable classes (\<open>kern/schedule\<close>), sleep in wait queues
XX

  \<^bold>\<open>Conventions.\<close>
  \<^item> A routine is a function from a state record to \<open>option\<close>; \<open>None\<close> is a kernel panic (a failed
    \<open>assert\<close>, a \<open>panic\<close>, the dereference of a null pointer) or, for a \<open>partial_function (option)\<close>, a
    loop that does not end.  So every theorem that has \<open>Some\<close> as its conclusion says that no
    assertion fails and that the call returns.  Error codes are values, the negated constants of
    \<open>libs/error.h\<close>.
  \<^item> Pointers are numbers, a nullable pointer is an option, memory is a map from pointers to records.
    A kernel list with a head is the HOL list of its elements in order; \<open>KList\<close> justifies this once,
    on the cells themselves (\<open>ring\<close>).
  \<^item> Integers that can wrap are words (\<open>u32\<close>); counters and sizes that cannot reach \<open>2^32\<close> are \<open>nat\<close>
    and say so where they are declared.
  \<^item> \<open>local_intr_save\<close> and the locks of \<open>mm_struct\<close> make a routine one step.  A call that blocks is
    split at its call of \<open>schedule\<close>: the first definition runs up to the context switch, the one with
    the suffix \<open>_resume\<close> is what the process does when it runs again, in whatever state it finds.
  \<^item> What lies outside a component is an argument: the addresses that \<open>kmalloc\<close> returns (a list of
    outcomes, \<open>None\<close> for \<open>NULL\<close>), transfers from and to the swap disk, bytes read from user memory.
    Theorems quantify over all of them.

  \<^bold>\<open>Theories.\<close>  In the order of the code:
  \<^item> \<open>KPrelude\<close>: words, the panic monad (\<open>kassert\<close>), error numbers, list lemmas.  \<open>KList\<close>
    (\<open>libs/list.h\<close>): cells, the locale \<open>linked_list\<close> and its interpretation \<open>klist\<close>.  \<open>KAtomic\<close>
    (\<open>libs/atomic.h\<close>, the bit lock of \<open>kern/sync/sync.h\<close>).  \<open>KString\<close> (\<open>string.c\<close>, \<open>hash.c\<close>,
    \<open>rand.c\<close>).  \<open>KPrintf\<close> (\<open>printfmt.c\<close>).
  \<^item> \<open>KPage\<close> (\<open>struct Page\<close>).  \<open>PmmIface\<close>: the locale \<open>pmm_manager\<close>, the contract of
    \<open>struct pmm_manager\<close>, with the lemma that a client never gets a page twice and loses none.  \<open>Buddy\<close>:
    \<open>buddy_pmm.c\<close>, its invariant \<open>buddy_ok\<close>, the interpretation \<open>buddy_pmm\<close>.  \<open>BuddyFrame\<close>,
    \<open>BuddyRange\<close>: which descriptors the allocator writes to, the frame used by its clients.
  \<^item> \<open>Slab\<close> (\<open>slab.c\<close>), \<open>SlabInv\<close> (invariant of caches, slabs and free lists, one step of each kind),
    \<open>SlabHeap\<close> (\<open>kmem_cache_alloc\<close> and \<open>kmem_cache_free\<close> through the caches that hold the control
    parts of others), \<open>SlabUse\<close> (the locale \<open>heap_manager\<close>, its interpretation \<open>slab_heap\<close>).
  \<^item> \<open>Swap\<close> (\<open>alloc_pages\<close>, the swap entries and swap cache of \<open>swap.c\<close>, \<open>swapfs.c\<close>), \<open>SwapInv\<close> (the
    invariant \<open>swap_inv\<close> between flags, hash table, lists and reference counts), \<open>SwapScan\<close> (the two
    scans of \<open>kswapd\<close>).
  \<^item> \<open>Paging\<close> (page tables of \<open>pmm.c\<close>, TLB), \<open>PagingInv\<close> (an address space as a map from page
    numbers to entries, \<open>space_ok\<close>), \<open>PagingMap\<close> (\<open>page_insert\<close>, \<open>unmap_range\<close>).
  \<^item> \<open>RbTree\<close> and \<open>RbDelete\<close> (\<open>rb_tree.c\<close>): the pointer structure represents an inductive tree
    (\<open>is_tree\<close>, \<open>is_ctx\<close> for the path to the root), colours and black heights, rotation, insertion,
    deletion, search, neighbours.
  \<^item> \<open>Shmem\<close> (\<open>shmem.c\<close>), \<open>Vmm\<close> (\<open>vmm.c\<close>), \<open>VmSys\<close> (paging out, \<open>brk\<close>, \<open>mmap\<close>, \<open>munmap\<close>, \<open>shmem\<close>,
    \<open>copy_mm\<close>, the ELF loader).  \<open>VmmInv\<close>: the area list and its index; the locale \<open>sorted_index\<close>
    with the interpretation \<open>rbi\<close> on the red-black trees.  \<open>VmmMap\<close>: an address space as a partial
    map from addresses to flags, and the operations as operations on that map.
  \<^item> \<open>KProc\<close> (\<open>struct proc_struct\<close> and the globals), \<open>Sched\<close> (\<open>sched.c\<close>, the RR, FCFS and MLFQ
    classes, timers; the locale \<open>sched_policy\<close> with three interpretations), \<open>Wait\<close> (\<open>wait.c\<close>), \<open>Sem\<close>
    (\<open>sem.c\<close>, \<open>ipc.h\<close>), \<open>Proc\<close> (\<open>proc.c\<close>), \<open>ProcLife\<close> (fork, exit, wait over the process tree),
    \<open>ProcExit\<close> (the exit of a process together with the end of its address space).
  \<^item> \<open>Block\<close> (going to sleep in a wait queue and being woken, over the whole kernel invariant \<open>kern_ok\<close>),
    \<open>Event\<close> (\<open>event.c\<close>).  \<open>Mbox\<close> (\<open>mbox.c\<close>), \<open>MboxInv\<close> (messages as chains of chunks, \<open>is_msg\<close>; the
    invariant \<open>mbox_ok\<close> of the boxes), \<open>MboxUse\<close> (every branch of sending, receiving and closing).
  \<^item> \<open>Philo\<close> (the philosophers of \<open>check_sync.c\<close> as a step relation over the abstract semaphores of
    \<open>Sem\<close>: exclusion, and an end of every run).  \<open>KDebug\<close> (\<open>kdebug.c\<close>: the search in the symbol table
    brackets the address; debug registers), \<open>KMonitor\<close> (\<open>readline.c\<close>, the command line of \<open>kmonitor.c\<close>).
    \<open>Spipe\<close> (\<open>user/libs/spipe.c\<close>: the ring buffer as a queue).
  \<^item> \<open>Console\<close> (\<open>console.c\<close>: the screen as a window on an endless paper, the ring of input characters as
    a queue, the decoding of scan codes).

  \<^bold>\<open>Bounds and fuel.\<close>  Loops with a bound in the code (\<open>maxscan\<close>, the orders of the buddy allocator,
  the thirteen caches) recurse on it.  Loops without one are \<open>partial_function (option)\<close>, and the
  theorems about them prove that they return.  There is no fuel in the model that the code does not
  have.

  \<^bold>\<open>Not modelled.\<close>
  \<^item> Code that only drives hardware: port input and output, descriptor tables, the boot loader, \<open>page_init\<close>
    and \<open>enable_paging\<close>, the register context, assembly (\<open>entry.S\<close>, \<open>switch.S\<close>, \<open>vectors.S\<close>).
  \<^item> Self tests (\<open>check_\<close>* but for \<open>check_sync\<close>) and the test programs under \<open>user\<close>.
  \<^item> \<open>sub/jokeros\<close> is a second copy of the same sources (they differ in blanks and two debug prints of
    \<open>vmm.c\<close>); what is proved of the first copy holds for it.
  \<^item> The user library but for its pipes: wrappers of system calls, \<open>malloc.c\<close>.  The dispatch of traps and
    system calls, \<open>cprintf\<close>, the first-fit page allocator (\<open>ffma_pmm.c\<close>), which the kernel does not install.
  \<^item> Files that contain declarations and empty bodies only (most of \<open>kern/fs\<close>).
\<close>

end
